(* ===== verification/V86_Prelude.thy ===== *)
theory V86_Prelude
  imports Complex_Main "HOL-Library.Word"
begin

text \<open>
  The shared vocabulary of the development: JavaScript's 32-bit integers and typed-array
  cells as machine words, the effects a device has on the rest of the machine (interrupt
  lines, messages on the bus), and the generic lemmas on words and lists that the component
  theories use.
\<close>

unbundle bit_operations_syntax

section \<open>Numbers\<close>

text \<open>
  A JavaScript bitwise operator converts its operands with ToInt32 and works on 32 bits;
  a value that only such operators touch is a \<open>32 word\<close>. The cells of a
  \<open>Uint8Array\<close> and of a \<open>Uint16Array\<close> are words of 8 and 16 bits, and a
  store into one truncates.
\<close>

type_synonym u8 = "8 word"
type_synonym u16 = "16 word"
type_synonym i32 = "32 word"

text \<open>A number that is not an integer is truncated towards zero before ToInt32 wraps it.\<close>

definition js_trunc :: "rat \<Rightarrow> int" where
  "js_trunc r = (if 0 \<le> r then \<lfloor>r\<rfloor> else \<lceil>r\<rceil>)"

definition js_to_int32 :: "rat \<Rightarrow> i32" where
  "js_to_int32 r = word_of_int (js_trunc r)"

text \<open>
  A JavaScript number where the special values matter: a rational, an infinity or NaN. Sums and differences
  of finite numbers are rounded, by a function that is an argument; the signs of zeros are not distinguished.
\<close>

datatype jsnum = Fin rat | Pos_Inf | Neg_Inf | Not_A_Number

fun is_finite :: "jsnum \<Rightarrow> bool" where
  "is_finite (Fin r) \<longleftrightarrow> True"
| "is_finite _ \<longleftrightarrow> False"

fun fin_val :: "jsnum \<Rightarrow> rat" where
  "fin_val (Fin r) = r"
| "fin_val _ = 0"

fun js_add :: "(rat \<Rightarrow> rat) \<Rightarrow> jsnum \<Rightarrow> jsnum \<Rightarrow> jsnum" where
  "js_add rnd (Fin x) (Fin y) = Fin (rnd (x + y))"
| "js_add rnd Not_A_Number y = Not_A_Number"
| "js_add rnd x Not_A_Number = Not_A_Number"
| "js_add rnd Pos_Inf Neg_Inf = Not_A_Number"
| "js_add rnd Neg_Inf Pos_Inf = Not_A_Number"
| "js_add rnd Pos_Inf y = Pos_Inf"
| "js_add rnd Neg_Inf y = Neg_Inf"
| "js_add rnd x Pos_Inf = Pos_Inf"
| "js_add rnd x Neg_Inf = Neg_Inf"

fun js_neg :: "jsnum \<Rightarrow> jsnum" where
  "js_neg (Fin x) = Fin (- x)"
| "js_neg Pos_Inf = Neg_Inf"
| "js_neg Neg_Inf = Pos_Inf"
| "js_neg Not_A_Number = Not_A_Number"

definition js_sub :: "(rat \<Rightarrow> rat) \<Rightarrow> jsnum \<Rightarrow> jsnum \<Rightarrow> jsnum" where
  "js_sub rnd x y = js_add rnd x (js_neg y)"

fun js_less :: "jsnum \<Rightarrow> jsnum \<Rightarrow> bool" where
  "js_less Not_A_Number y \<longleftrightarrow> False"
| "js_less x Not_A_Number \<longleftrightarrow> False"
| "js_less (Fin x) (Fin y) \<longleftrightarrow> x < y"
| "js_less Neg_Inf y \<longleftrightarrow> y \<noteq> Neg_Inf"
| "js_less x Pos_Inf \<longleftrightarrow> x \<noteq> Pos_Inf"
| "js_less x y \<longleftrightarrow> False"

definition js_min :: "jsnum \<Rightarrow> jsnum \<Rightarrow> jsnum" where
  "js_min x y =
     (if x = Not_A_Number \<or> y = Not_A_Number then Not_A_Number else if js_less y x then y else x)"

definition js_falsy :: "jsnum \<Rightarrow> bool" where
  "js_falsy x \<longleftrightarrow> x = Not_A_Number \<or> x = Fin 0"

definition is_safe_integer :: "jsnum \<Rightarrow> bool" where
  "is_safe_integer x = (case x of Fin r \<Rightarrow> of_int \<lfloor>r\<rfloor> = r \<and> \<bar>r\<bar> < 2 ^ 53 | _ \<Rightarrow> False)"

text \<open>The bit test \<open>x & m\<close> used as a condition.\<close>

abbreviation has_bits :: "i32 \<Rightarrow> i32 \<Rightarrow> bool" where
  "has_bits x m \<equiv> x AND m \<noteq> 0"

text \<open>The 32-bit values that a register of \<open>n\<close> bits can hold.\<close>

definition fits :: "nat \<Rightarrow> i32 \<Rightarrow> bool" where
  "fits n x \<longleftrightarrow> take_bit n x = x"

section \<open>Effects of a device on the machine\<close>

text \<open>
  Values on the bus between the emulator and the host page.
\<close>

datatype js_value = Undef | JBool bool | JNum int | JList "int list"

text \<open>
  What a device does to the machine around it, in the order it does it:
  \<open>device_raise_irq\<close> and \<open>device_lower_irq\<close> of the CPU (imported from the
  interrupt controller's WebAssembly module), \<open>bus.send\<close>, and
  \<open>reboot_internal\<close>. A device record carries the log of its effects.
\<close>

datatype effect =
    RaiseIrq nat
  | LowerIrq nat
  | BusSend string js_value
  | RebootInternal string

text \<open>The level of an interrupt line, as the effects of its only driver leave it.\<close>

definition drive_line :: "nat \<Rightarrow> bool \<Rightarrow> effect \<Rightarrow> bool" where
  "drive_line n level e =
     (case e of RaiseIrq m \<Rightarrow> m = n \<or> level | LowerIrq m \<Rightarrow> m \<noteq> n \<and> level | _ \<Rightarrow> level)"

definition irq_level :: "nat \<Rightarrow> effect list \<Rightarrow> bool" where
  "irq_level n es = foldl (drive_line n) False es"

section \<open>Collections of facts\<close>

named_theorems fits_intros \<open>closure of the n-bit values under the bitwise operators\<close>
named_theorems fits_simps \<open>closed instances and casts of the n-bit values\<close>

section \<open>Lemmas on interrupt lines\<close>

lemma irq_level_Nil [simp]: "irq_level n [] = False"
  by (simp add: irq_level_def)

lemma irq_level_snoc [simp]: "irq_level n (es @ [e]) = drive_line n (irq_level n es) e"
  by (simp add: irq_level_def)

lemma drive_line_simps [simp]:
  "drive_line n b (RaiseIrq m) = (m = n \<or> b)"
  "drive_line n b (LowerIrq m) = (m \<noteq> n \<and> b)"
  "drive_line n b (BusSend s v) = b"
  "drive_line n b (RebootInternal s) = b"
  by (simp_all add: drive_line_def)

lemma irq_level_snoc2 [simp]:
  "irq_level n (es @ [e, f]) = drive_line n (drive_line n (irq_level n es) e) f"
  by (simp add: irq_level_def)

section \<open>Lemmas on words of limited width\<close>

lemma word_bits_eq_iff: "(a :: 'a::len word) = b \<longleftrightarrow> (\<forall>n < LENGTH('a). bit a n = bit b n)"
  by (auto intro: bit_word_eqI)

lemma fits_zero [fits_simps]: "fits n 0"
  by (simp add: fits_def)

lemma fits_and1: "fits n x \<Longrightarrow> fits n (x AND y)"
  unfolding fits_def by (metis and.assoc take_bit_and take_bit_eq_mask and.commute)

lemma fits_and2: "fits n y \<Longrightarrow> fits n (x AND y)"
  by (metis and.commute fits_and1)

lemma fits_and [fits_intros]: "fits n x \<or> fits n y \<Longrightarrow> fits n (x AND y)"
  using fits_and1 fits_and2 by blast

lemma fits_or [fits_intros]: "fits n x \<Longrightarrow> fits n y \<Longrightarrow> fits n (x OR y)"
  by (simp add: fits_def)

lemma fits_xor [fits_intros]: "fits n x \<Longrightarrow> fits n y \<Longrightarrow> fits n (x XOR y)"
  by (simp add: fits_def)

lemma fits_bits: "fits n x \<longleftrightarrow> (\<forall>i \<ge> n. \<not> bit x i)"
  unfolding fits_def by (metis bit_take_bit_iff bit_word_eqI not_le)

lemma mask_eqs:
  "(0xFF :: i32) = mask 8" "(0xF :: i32) = mask 4" "(0xFFFF :: i32) = mask 16"
  "(-256 :: i32) = NOT (mask 8)"
  by (simp_all add: mask_eq_exp_minus_1)

lemma int_mask_eqs: "(0xFF :: int) = mask 8" "(0xF :: int) = mask 4" "(0xFFFF :: int) = mask 16"
  by (simp_all add: mask_eq_exp_minus_1)

lemma int_mask_bits:
  "bit (0xFF :: int) n \<longleftrightarrow> n < 8" "bit (0xF :: int) n \<longleftrightarrow> n < 4" "bit (0xFFFF :: int) n \<longleftrightarrow> n < 16"
  unfolding int_mask_eqs by (simp_all add: bit_simps)

lemma word_mask_bits:
  "bit (0xFF :: i32) n \<longleftrightarrow> n < 8" "bit (0xF :: i32) n \<longleftrightarrow> n < 4"
  "bit (0xFFFF :: i32) n \<longleftrightarrow> n < 16" "bit (-256 :: i32) n \<longleftrightarrow> 8 \<le> n \<and> n < 32"
  unfolding mask_eqs by (auto simp: bit_simps)

lemma byte1_mask_bits: "bit (0xFF00 :: int) n \<longleftrightarrow> 8 \<le> n \<and> n < 16"
proof -
  have e: "(0xFF00 :: int) = push_bit 8 (mask 8)" by (simp add: mask_eq_exp_minus_1 push_bit_eq_mult)
  show ?thesis unfolding e by (auto simp: bit_simps)
qed

lemmas mask_bits = int_mask_bits word_mask_bits byte1_mask_bits

lemma fits_mono: "fits m x \<Longrightarrow> m \<le> n \<Longrightarrow> fits n x"
  unfolding fits_def by (metis min.absorb2 take_bit_take_bit)

lemma fits_drop_bit [fits_intros]: "fits n x \<Longrightarrow> fits n (drop_bit k x)"
  unfolding fits_def
  by (metis drop_bit_take_bit fits_def fits_mono diff_le_self take_bit_take_bit min.absorb2)

lemma fits_ucast8 [fits_simps]: "fits 8 (ucast (b :: u8))"
  using bit_imp_le_length [of b] by (auto simp: fits_def bit_eq_iff bit_simps)

lemma fits_ucast16 [fits_simps]: "fits 16 (ucast (b :: u16))"
  using bit_imp_le_length [of b] by (auto simp: fits_def bit_eq_iff bit_simps)

lemma fits_less: "fits n x \<longleftrightarrow> uint x < 2 ^ n"
proof -
  have "take_bit n x = x \<longleftrightarrow> take_bit n (uint x) = uint x"
    by (metis unsigned_take_bit_eq word_uint_eqI)
  then show ?thesis by (simp add: fits_def take_bit_int_eq_self_iff)
qed

section \<open>Power-of-two masks on indices\<close>

text \<open>\<open>i & size - 1\<close> is the remainder modulo a size that is a power of two.\<close>

lemma and_mask_mod:
  "(i::nat) AND (2 ^ k - 1) = i mod 2 ^ k"
  "(i::nat) AND (2 ^ k - Suc 0) = i mod 2 ^ k"
  by (metis mask_eq_exp_minus_1 take_bit_eq_mask take_bit_eq_mod,
      metis One_nat_def mask_eq_exp_minus_1 take_bit_eq_mask take_bit_eq_mod)

lemma fits_sint: "fits n x \<Longrightarrow> n < 32 \<Longrightarrow> sint x = uint x"
proof -
  assume f: "fits n x" and n: "n < 32"
  have "(2::int) ^ n \<le> 2 ^ 31" using n by (intro power_increasing) auto
  then have "uint x < 2 ^ 31" using f by (simp add: fits_less)
  moreover have "- (2 ^ 31) \<le> uint x" by (rule order_trans [OF _ uint_ge_0]) simp
  ultimately show ?thesis by (simp add: sint_uint signed_take_bit_int_eq_self_iff)
qed

text \<open>Fields packed side by side.\<close>

lemma int_or_fields:
  assumes "0 \<le> a" "a < 2 ^ k" shows "(a :: int) OR push_bit k b = a + 2 ^ k * b"
proof -
  have "a = take_bit k a" using assms by (simp add: take_bit_int_eq_self)
  then have "bit a n \<Longrightarrow> n < k" for n by (metis bit_take_bit_iff)
  then have "a AND push_bit k b = 0" by (intro bit_eqI) (simp add: bit_simps, meson leD)
  then show ?thesis by (simp add: disjunctive_add_eq_or [symmetric] push_bit_eq_mult mult.commute)
qed

lemma uint_push_byte:
  "uint (push_bit 16 (ucast (p :: u8)) :: i32) = push_bit 16 (uint p)"
  "uint (push_bit 24 (ucast (p :: u8)) :: i32) = push_bit 24 (uint p)"
proof -
  have p: "uint p < 256" using uint_lt2p [of p] by simp
  have t: "take_bit 32 (push_bit k (uint p)) = push_bit k (uint p)" if "k \<le> 24" for k
  proof (rule take_bit_int_eq_self)
    have "push_bit k (uint p) < 2 ^ k * 256" using p by (simp add: push_bit_eq_mult)
    also have "\<dots> \<le> 2 ^ 24 * 256" using that by (intro mult_right_mono power_increasing) auto
    finally show "push_bit k (uint p) < 2 ^ 32" by simp
  qed (simp add: push_bit_eq_mult)
  show "uint (push_bit 16 (ucast p) :: i32) = push_bit 16 (uint p)" "uint (push_bit 24 (ucast p) :: i32) = push_bit 24 (uint p)"
    using p t [of 16] t [of 24]
    by (simp_all only: unsigned_push_bit_eq unsigned_ucast_eq) (simp_all add: take_bit_int_eq_self)
qed

lemma uint_page_address:
  fixes a :: i32 and p q :: u8
  assumes "uint a < 65536"
  shows "uint ((a OR push_bit 16 (ucast p)) OR push_bit 24 (ucast q)) = uint a + 65536 * uint p + 16777216 * uint q"
proof -
  have p: "0 \<le> uint p" "uint p < 256" using uint_lt2p [of p] by simp_all
  have "uint a OR push_bit 16 (uint p) = uint a + 65536 * uint p"
    using int_or_fields [of "uint a" 16] assms by simp
  moreover have "(uint a + 65536 * uint p) OR push_bit 24 (uint q) = uint a + 65536 * uint p + 16777216 * uint q"
    using int_or_fields [of "uint a + 65536 * uint p" 24] assms p by simp
  ultimately show ?thesis by (simp only: unsigned_or_eq uint_push_byte)
qed

lemma uint_push_bit:
  "0 \<le> uint x \<Longrightarrow> uint x * 2 ^ k < 2 ^ 32 \<Longrightarrow> uint (push_bit k (x :: i32)) = uint x * 2 ^ k"
  by (simp only: unsigned_push_bit_eq) (simp add: push_bit_eq_mult take_bit_int_eq_self)

lemma uint_word16:
  assumes "fits 8 lo" "fits 8 hi"
  shows "uint (push_bit 8 hi OR lo) = uint hi * 256 + uint lo"
    "uint (ucast (push_bit 8 hi OR lo) :: u16) = uint hi * 256 + uint lo"
proof -
  have b: "uint lo < 256" "uint hi < 256" "0 \<le> uint lo" "0 \<le> uint hi" using assms by (simp_all add: fits_less)
  have "uint (push_bit 8 hi) = push_bit 8 (uint hi)"
    using b uint_push_bit [of hi 8] by (simp add: push_bit_eq_mult)
  then have "uint (push_bit 8 hi OR lo) = uint lo OR push_bit 8 (uint hi)"
    by (simp only: unsigned_or_eq or.commute)
  then show e: "uint (push_bit 8 hi OR lo) = uint hi * 256 + uint lo"
    using int_or_fields [of "uint lo" 8 "uint hi"] b by simp
  show "uint (ucast (push_bit 8 hi OR lo) :: u16) = uint hi * 256 + uint lo"
    unfolding unsigned_ucast_eq e using b by (simp add: take_bit_int_eq_self)
qed

lemma uint_and_FFFF: "uint ((x :: i32) AND 0xFFFF) = uint x mod 65536"
proof -
  have "(0xFFFF :: i32) = mask 16" by (simp add: mask_eq_exp_minus_1)
  then have "uint (x AND 0xFFFF) = uint (take_bit 16 x)" by (simp only: take_bit_eq_mask)
  also have "\<dots> = uint x mod 65536" unfolding unsigned_take_bit_eq by (simp add: take_bit_eq_mod)
  finally show ?thesis .
qed

lemma uint_ucast_up: "uint (ucast (x :: u16) :: i32) = uint x" "uint (ucast (y :: u8) :: i32) = uint y"
  using uint_lt2p [of x] uint_lt2p [of y] by (simp_all add: unsigned_ucast_eq take_bit_int_eq_self)

lemma unat_and_3: "unat ((x :: i32) AND 0x3) < 4"
proof -
  have "(0x3 :: i32) = mask 2" by (simp add: mask_eq_exp_minus_1)
  then have "unat (x AND 0x3) = take_bit 2 (unat x)" by (simp only: take_bit_eq_mask [symmetric] unsigned_take_bit_eq)
  then show ?thesis using take_bit_nat_less_exp [of 2 "unat x"] by simp
qed

section \<open>Lists\<close>

lemma zip_take_left: "zip (take n xs) ys = take n (zip xs ys)"
proof (induction n arbitrary: xs ys)
  case (Suc n)
  then show ?case by (cases xs; cases ys) simp_all
qed simp

end
