(* ===== verification/Lib_Queue.thy ===== *)
theory Lib_Queue
  imports V86_Prelude
begin

text \<open>
  The queues of \<open>src/lib.js\<close>: \<open>ByteQueue\<close> (a ring in a \<open>Uint8Array\<close>, used by
  the PS/2 controller), \<open>FloatQueue\<close> (a ring in a \<open>Float32Array\<close>, used by the sound
  card) and \<open>CircularQueue\<close> (a log ring in a growing array). Two locales state what a
  client may rely on: first-in first-out order while the queue is not full, and, for the queues
  that drop their oldest item, what remains after any number of pushes.
\<close>

section \<open>ByteQueue\<close>

record byte_queue =
  bq_data :: "u8 list"
  bq_size :: nat
  bq_start :: nat
  bq_end :: nat
  bq_length :: nat

definition bq_clear :: "byte_queue \<Rightarrow> byte_queue" where
  "bq_clear q = q\<lparr>bq_start := 0, bq_end := 0, bq_length := 0\<rparr>"

text \<open>The constructor allocates a zeroed array and clears the queue.\<close>

definition ByteQueue :: "nat \<Rightarrow> byte_queue" where
  "ByteQueue sz = bq_clear
     \<lparr>bq_data = replicate sz 0, bq_size = sz, bq_start = 0, bq_end = 0, bq_length = 0\<rparr>"

definition bq_push :: "int \<Rightarrow> byte_queue \<Rightarrow> byte_queue" where
  "bq_push item q =
     (let q1 = (if bq_length q = bq_size q then q else q\<lparr>bq_length := bq_length q + 1\<rparr>);
          q2 = q1\<lparr>bq_data := (bq_data q1)[bq_end q1 := word_of_int item]\<rparr>
      in q2\<lparr>bq_end := (bq_end q2 + 1) AND (bq_size q2 - 1)\<rparr>)"

definition bq_shift :: "byte_queue \<Rightarrow> int \<times> byte_queue" where
  "bq_shift q =
     (if bq_length q = 0 then (-1, q)
      else (uint (bq_data q ! bq_start q),
            q\<lparr>bq_start := (bq_start q + 1) AND (bq_size q - 1), bq_length := bq_length q - 1\<rparr>))"

definition bq_peek :: "byte_queue \<Rightarrow> int" where
  "bq_peek q = (if bq_length q = 0 then -1 else uint (bq_data q ! bq_start q))"

section \<open>FloatQueue\<close>

text \<open>
  The items are the values of a \<open>Float32Array\<close> cell; only the zero that fills a fresh
  array matters, so the type of the cells is a parameter with a zero.
\<close>

record 'a float_queue =
  fq_size :: nat
  fq_data :: "'a list"
  fq_start :: nat
  fq_end :: nat
  fq_length :: nat

definition FloatQueue :: "nat \<Rightarrow> 'a::zero float_queue" where
  "FloatQueue sz = \<lparr>fq_size = sz, fq_data = replicate sz 0, fq_start = 0, fq_end = 0, fq_length = 0\<rparr>"

definition fq_push :: "'a \<Rightarrow> 'a float_queue \<Rightarrow> 'a float_queue" where
  "fq_push item q =
     (let q1 = (if fq_length q = fq_size q
                then q\<lparr>fq_start := (fq_start q + 1) AND (fq_size q - 1)\<rparr>
                else q\<lparr>fq_length := fq_length q + 1\<rparr>);
          q2 = q1\<lparr>fq_data := (fq_data q1)[fq_end q1 := item]\<rparr>
      in q2\<lparr>fq_end := (fq_end q2 + 1) AND (fq_size q2 - 1)\<rparr>)"

text \<open>\<open>shift\<close> of an empty queue returns \<open>undefined\<close>: \<open>None\<close>.\<close>

definition fq_shift :: "'a float_queue \<Rightarrow> 'a option \<times> 'a float_queue" where
  "fq_shift q =
     (if fq_length q = 0 then (None, q)
      else (Some (fq_data q ! fq_start q),
            q\<lparr>fq_start := (fq_start q + 1) AND (fq_size q - 1), fq_length := fq_length q - 1\<rparr>))"

definition fq_peek :: "'a float_queue \<Rightarrow> 'a option" where
  "fq_peek q = (if fq_length q = 0 then None else Some (fq_data q ! fq_start q))"

definition fq_clear :: "'a float_queue \<Rightarrow> 'a float_queue" where
  "fq_clear q = q\<lparr>fq_start := 0, fq_end := 0, fq_length := 0\<rparr>"

text \<open>\<open>dst.set(src, offset)\<close> and \<open>a.subarray(i, j)\<close> of a typed array, within its range.\<close>

definition ta_set :: "'a list \<Rightarrow> 'a list \<Rightarrow> nat \<Rightarrow> 'a list" where
  "ta_set dst src offset = take offset dst @ src @ drop (offset + length src) dst"

definition subarray :: "'a list \<Rightarrow> nat \<Rightarrow> nat \<Rightarrow> 'a list" where
  "subarray xs i j = drop i (take j xs)"

definition fq_shift_block :: "nat \<Rightarrow> 'a::zero float_queue \<Rightarrow> 'a list \<times> 'a float_queue" where
  "fq_shift_block count0 q =
     (let slice = replicate count0 0;
          count = (if count0 > fq_length q then fq_length q else count0);
          slice_end = fq_start q + count;
          partial = subarray (fq_data q) (fq_start q) slice_end;
          slice1 = ta_set slice partial 0;
          wrap = (slice_end \<ge> fq_size q);
          slice_end' = (if wrap then slice_end - fq_size q else slice_end);
          slice2 = (if wrap then ta_set slice1 (subarray (fq_data q) 0 slice_end') (length partial)
                    else slice1)
      in (slice2, q\<lparr>fq_start := slice_end', fq_length := fq_length q - count\<rparr>))"

section \<open>CircularQueue\<close>

record 'a circular_queue =
  cq_data :: "'a list"
  cq_index :: nat
  cq_size :: nat

definition CircularQueue :: "nat \<Rightarrow> 'a circular_queue" where
  "CircularQueue sz = \<lparr>cq_data = [], cq_index = 0, cq_size = sz\<rparr>"

text \<open>A store at the end of a JavaScript array extends it.\<close>

definition array_store :: "'a list \<Rightarrow> nat \<Rightarrow> 'a \<Rightarrow> 'a list" where
  "array_store xs i x = (if i < length xs then xs[i := x] else xs @ [x])"

definition cq_add :: "'a \<Rightarrow> 'a circular_queue \<Rightarrow> 'a circular_queue" where
  "cq_add item q =
     (let q1 = q\<lparr>cq_data := array_store (cq_data q) (cq_index q) item\<rparr>
      in q1\<lparr>cq_index := (cq_index q1 + 1) mod cq_size q1\<rparr>)"

definition cq_toArray :: "'a circular_queue \<Rightarrow> 'a list" where
  "cq_toArray q = drop (cq_index q) (cq_data q) @ take (cq_index q) (cq_data q)"

definition cq_clear :: "'a circular_queue \<Rightarrow> 'a circular_queue" where
  "cq_clear q = q\<lparr>cq_data := [], cq_index := 0\<rparr>"

definition cq_set :: "'a list \<Rightarrow> 'a circular_queue \<Rightarrow> 'a circular_queue" where
  "cq_set new_data q = q\<lparr>cq_data := new_data, cq_index := 0\<rparr>"

section \<open>What the rings hold\<close>

text \<open>The \<open>n\<close> items of a ring from index \<open>s\<close> on.\<close>

definition ring :: "'a list \<Rightarrow> nat \<Rightarrow> nat \<Rightarrow> 'a list" where
  "ring d s n = map (\<lambda>i. d ! ((s + i) mod length d)) [0..<n]"

definition bq_list :: "byte_queue \<Rightarrow> u8 list" where
  "bq_list q = ring (bq_data q) (bq_start q) (bq_length q)"

definition fq_list :: "'a float_queue \<Rightarrow> 'a list" where
  "fq_list q = ring (fq_data q) (fq_start q) (fq_length q)"

text \<open>
  Indices in range, for a size that is a power of two (the constructor's assertion). This part
  holds of a \<open>ByteQueue\<close> at all times.
\<close>

definition bq_wf :: "byte_queue \<Rightarrow> bool" where
  "bq_wf q \<longleftrightarrow> (\<exists>k. bq_size q = 2 ^ k) \<and> length (bq_data q) = bq_size q \<and>
     bq_start q < bq_size q \<and> bq_end q < bq_size q \<and> bq_length q \<le> bq_size q"

text \<open>The write index is the first free cell. Overwriting in a full \<open>ByteQueue\<close> breaks this.\<close>

definition bq_inv :: "byte_queue \<Rightarrow> bool" where
  "bq_inv q \<longleftrightarrow> bq_wf q \<and> bq_end q = (bq_start q + bq_length q) mod bq_size q"

definition fq_inv :: "'a float_queue \<Rightarrow> bool" where
  "fq_inv q \<longleftrightarrow> (\<exists>k. fq_size q = 2 ^ k) \<and> length (fq_data q) = fq_size q \<and>
     fq_start q < fq_size q \<and> fq_length q \<le> fq_size q \<and>
     fq_end q = (fq_start q + fq_length q) mod fq_size q"

definition cq_inv :: "'a circular_queue \<Rightarrow> bool" where
  "cq_inv q \<longleftrightarrow> 0 < cq_size q \<and> length (cq_data q) \<le> cq_size q \<and>
     (if length (cq_data q) < cq_size q then cq_index q = length (cq_data q)
      else cq_index q < cq_size q)"

section \<open>Lemmas on rings\<close>

lemma length_ring [simp]: "length (ring d s n) = n"
  by (simp add: ring_def)

lemma ring_0 [simp]: "ring d s 0 = []"
  by (simp add: ring_def)

lemma ring_eq_Nil [simp]: "ring d s n = [] \<longleftrightarrow> n = 0"
  by (metis length_ring length_0_conv)

lemma ring_mod: "ring d (s mod length d) n = ring d s n"
  by (simp add: ring_def mod_add_left_eq)

lemma ring_Suc_head: "s < length d \<Longrightarrow> ring d s (Suc n) = d ! s # ring d (Suc s) n"
  by (simp add: ring_def upt_conv_Cons del: upt_Suc)
    (simp add: map_Suc_upt [symmetric] del: upt_Suc)

lemma ring_add: "ring d s (m + n) = ring d s m @ ring d (s + m) n"
proof -
  have "[0..<m + n] = [0..<m] @ map (\<lambda>i. i + m) [0..<n]"
    by (rule nth_equalityI) (auto simp: nth_append)
  then show ?thesis
    by (simp add: ring_def comp_def add.assoc add.commute [of m])
qed

lemma ring_update_other:
  assumes "n < length d" "e = (s + n) mod length d"
  shows "ring (d[e := x]) s n = ring d s n"
proof -
  have "(s + i) mod length d \<noteq> e" if "i < n" for i
  proof
    assume "(s + i) mod length d = e"
    then have "(s + i) mod length d = (s + n) mod length d" using assms(2) by simp
    then have "length d dvd (s + n) - (s + i)"
      using that by (metis add_le_cancel_left less_imp_le mod_eq_dvd_iff_nat)
    then show False using that assms(1) nat_dvd_not_less [of "n - i" "length d"] by simp
  qed
  then have "d[e := x] ! ((s + i) mod length d) = d ! ((s + i) mod length d)" if "i < n" for i
    using that by (metis nth_list_update_neq)
  then show ?thesis by (simp add: ring_def)
qed

lemma ring_snoc:
  assumes "n < length d" "e = (s + n) mod length d"
  shows "ring (d[e := x]) s (Suc n) = ring d s n @ [x]"
proof -
  have "e < length d" using assms by (auto intro: mod_less_divisor)
  then have "ring (d[e := x]) (s + n) (Suc 0) = [x]"
    using assms(2) by (simp add: ring_def)
  then show ?thesis
    using ring_add [of "d[e := x]" s n "Suc 0"] ring_update_other [OF assms] by simp
qed

lemma ring_full_rotate:
  assumes "s < length d"
  shows "ring d s (length d) = drop s d @ take s d"
proof (rule nth_equalityI)
  show "length (ring d s (length d)) = length (drop s d @ take s d)" using assms by simp
next
  fix i assume i: "i < length (ring d s (length d))"
  show "ring d s (length d) ! i = (drop s d @ take s d) ! i"
  proof (cases "s + i < length d")
    case True
    then have "i < length d - s" by simp
    with True show ?thesis using i by (simp add: ring_def nth_append)
  next
    case False
    then have "(s + i) mod length d = s + i - length d"
      using i assms by (simp add: mod_if)
    moreover have "\<not> i < length d - s" using False by simp
    ultimately show ?thesis using False i assms by (simp add: ring_def nth_append add.commute)
  qed
qed

lemma ring_no_wrap: "s + n \<le> length d \<Longrightarrow> ring d s n = subarray d s (s + n)"
  by (rule nth_equalityI) (auto simp: ring_def subarray_def)

lemma ring_wrap:
  assumes "s < length d" "n \<le> length d" "length d \<le> s + n"
  shows "ring d s n = subarray d s (s + n) @ subarray d 0 (s + n - length d)"
proof (rule nth_equalityI)
  show "length (ring d s n) = length (subarray d s (s + n) @ subarray d 0 (s + n - length d))"
    using assms by (simp add: subarray_def)
next
  fix i assume i: "i < length (ring d s n)"
  show "ring d s n ! i = (subarray d s (s + n) @ subarray d 0 (s + n - length d)) ! i"
  proof (cases "s + i < length d")
    case True
    then have "i < length d - s" by simp
    with True show ?thesis using i assms by (simp add: ring_def subarray_def nth_append)
  next
    case False
    then have "(s + i) mod length d = s + i - length d" using i assms by (simp add: mod_if)
    moreover have "\<not> i < length d - s" using False by simp
    ultimately show ?thesis using False i assms
      by (simp add: ring_def subarray_def nth_append add.commute)
  qed
qed

lemma take_ring: "m \<le> n \<Longrightarrow> take m (ring d s n) = ring d s m"
  by (simp add: ring_def take_map)

lemma drop_ring: "m \<le> n \<Longrightarrow> drop m (ring d s n) = ring d (s + m) (n - m)"
  using ring_add [of d s m "n - m"] by simp

section \<open>The contract of a bounded queue\<close>

fun push_all :: "('i \<Rightarrow> 'q \<Rightarrow> 'q) \<Rightarrow> 'i list \<Rightarrow> 'q \<Rightarrow> 'q" where
  "push_all push [] q = q"
| "push_all push (x # xs) q = push_all push xs (push x q)"

fun shift_n :: "('q \<Rightarrow> 'r \<times> 'q) \<Rightarrow> nat \<Rightarrow> 'q \<Rightarrow> 'r list \<times> 'q" where
  "shift_n shift 0 q = ([], q)"
| "shift_n shift (Suc n) q =
     (let (x, q1) = shift q; (xs, q2) = shift_n shift n q1 in (x # xs, q2))"

text \<open>
  What a client of a queue relies on while it does not overfill it: \<open>store\<close> is the
  conversion of a pushed item to a cell, \<open>ret\<close> that of a cell to a shifted value.
\<close>

locale push_buffer =
  fixes push :: "'i \<Rightarrow> 'q \<Rightarrow> 'q"
    and items :: "'q \<Rightarrow> 'e list"
    and cap :: "'q \<Rightarrow> nat"
    and inv :: "'q \<Rightarrow> bool"
    and store :: "'i \<Rightarrow> 'e"
  assumes inv_push: "inv q \<Longrightarrow> length (items q) < cap q \<Longrightarrow> inv (push x q)"
    and items_push: "inv q \<Longrightarrow> length (items q) < cap q \<Longrightarrow> items (push x q) = items q @ [store x]"
    and cap_push: "cap (push x q) = cap q"
begin

lemma push_all_items:
  "inv q \<Longrightarrow> length (items q) + length xs \<le> cap q \<Longrightarrow>
   items (push_all push xs q) = items q @ map store xs \<and> inv (push_all push xs q)"
  by (induction xs arbitrary: q) (simp_all add: inv_push items_push cap_push)

end

locale bounded_queue = push_buffer +
  fixes shift :: "'b \<Rightarrow> 'r \<times> 'b"
    and ret :: "'c \<Rightarrow> 'r"
  assumes inv_shift: "inv q \<Longrightarrow> inv (snd (shift q))"
    and items_shift: "inv q \<Longrightarrow> items q \<noteq> [] \<Longrightarrow> items (snd (shift q)) = tl (items q)"
    and fst_shift: "inv q \<Longrightarrow> items q \<noteq> [] \<Longrightarrow> fst (shift q) = ret (hd (items q))"
begin

lemma shift_n_items:
  "inv q \<Longrightarrow> n \<le> length (items q) \<Longrightarrow>
   fst (shift_n shift n q) = map ret (take n (items q)) \<and>
   items (snd (shift_n shift n q)) = drop n (items q) \<and> inv (snd (shift_n shift n q))"
proof (induction n arbitrary: q)
  case 0
  then show ?case by simp
next
  case (Suc n)
  then have ne: "items q \<noteq> []" by auto
  have "n \<le> length (items (snd (shift q)))"
    using Suc.prems ne by (simp add: items_shift)
  from Suc.IH [OF inv_shift [OF Suc.prems(1)] this]
  show ?case using Suc.prems ne
    by (cases "items q")
      (auto simp: items_shift fst_shift split_beta)
qed

lemma fifo:
  assumes "inv q" "items q = []" "length xs \<le> cap q"
  shows "fst (shift_n shift (length xs) (push_all push xs q)) = map (\<lambda>x. ret (store x)) xs"
    and "items (snd (shift_n shift (length xs) (push_all push xs q))) = []"
  using push_all_items [OF assms(1), of xs] shift_n_items [of "push_all push xs q" "length xs"] assms
  by (simp_all add: comp_def)

end

text \<open>A buffer that drops its oldest item when it is full.\<close>

locale dropping_buffer = push_buffer +
  assumes inv_push_full: "inv q \<Longrightarrow> length (items q) = cap q \<Longrightarrow> inv (push x q)"
    and items_push_full: "inv q \<Longrightarrow> length (items q) = cap q \<Longrightarrow> items (push x q) = tl (items q) @ [store x]"
    and items_le_cap: "inv q \<Longrightarrow> length (items q) \<le> cap q"
    and cap_pos: "inv q \<Longrightarrow> 0 < cap q"
begin

lemma push_all_latest:
  "inv q \<Longrightarrow> inv (push_all push xs q) \<and>
   items (push_all push xs q) =
     drop (length (items q) + length xs - cap q) (items q @ map store xs)"
proof (induction xs arbitrary: q)
  case Nil
  then show ?case using items_le_cap by simp
next
  case (Cons x xs)
  show ?case
  proof (cases "length (items q) < cap q")
    case True
    have "items (push_all push xs (push x q)) =
      drop (length (items q @ [store x]) + length xs - cap q) ((items q @ [store x]) @ map store xs)"
      using Cons.IH [OF inv_push [OF Cons.prems True]] Cons.prems True
      by (metis cap_push items_push)
    then show ?thesis using Cons.IH [OF inv_push [OF Cons.prems True]]
      by (simp del: drop_append)
  next
    case False
    with Cons.prems items_le_cap have full: "length (items q) = cap q" by (meson le_neq_implies_less)
    then obtain a l where l: "items q = a # l"
      using cap_pos [OF Cons.prems] by (cases "items q") auto
    have "items (push_all push xs (push x q)) =
      drop (length (l @ [store x]) + length xs - cap q) ((l @ [store x]) @ map store xs)"
      using Cons.IH [OF inv_push_full [OF Cons.prems full]] items_push_full [OF Cons.prems full] l
      by (metis cap_push list.sel(3))
    moreover have "cap q = Suc (length l)" using l full by simp
    ultimately show ?thesis using Cons.IH [OF inv_push_full [OF Cons.prems full]] l
      by (simp del: drop_append)
  qed
qed

end

section \<open>ByteQueue: indices, order, overflow\<close>

lemma ByteQueue_inv: "bq_inv (ByteQueue (2 ^ k))"
  by (auto simp: bq_inv_def bq_wf_def ByteQueue_def bq_clear_def)

lemma bq_length_list [simp]: "length (bq_list q) = bq_length q"
  by (simp add: bq_list_def)

lemma bq_list_Nil [simp]: "bq_list q = [] \<longleftrightarrow> bq_length q = 0"
  by (metis bq_length_list length_0_conv)

lemma bq_clear_simps [simp]:
  "bq_length (bq_clear q) = 0" "bq_size (bq_clear q) = bq_size q" "bq_list (bq_clear q) = []"
  by (simp_all add: bq_clear_def bq_list_def)

lemma bq_clear_inv: "bq_wf q \<Longrightarrow> bq_inv (bq_clear q)"
  by (auto simp: bq_inv_def bq_wf_def bq_clear_def)

lemma bq_size_push [simp]: "bq_size (bq_push x q) = bq_size q"
  by (simp add: bq_push_def Let_def)

lemma bq_size_shift [simp]: "bq_size (snd (bq_shift q)) = bq_size q"
  by (simp add: bq_shift_def)

lemma bq_length_push: "bq_length (bq_push x q) = (if bq_length q = bq_size q then bq_length q else bq_length q + 1)"
  by (simp add: bq_push_def Let_def)

lemma bq_length_shift [simp]: "bq_length (snd (bq_shift q)) = bq_length q - 1"
  by (simp add: bq_shift_def)

lemma bq_push_wf: "bq_wf q \<Longrightarrow> bq_wf (bq_push x q)"
  by (auto simp: bq_wf_def bq_push_def Let_def and_mask_mod)

lemma bq_shift_wf: "bq_wf q \<Longrightarrow> bq_wf (snd (bq_shift q))"
  by (auto simp: bq_wf_def bq_shift_def and_mask_mod)

lemma bq_clear_wf: "bq_wf q \<Longrightarrow> bq_wf (bq_clear q)"
  by (simp add: bq_wf_def bq_clear_def)

lemmas bq_wf_ops = bq_push_wf bq_shift_wf bq_clear_wf

lemma bq_push_nonfull:
  assumes "bq_inv q" "bq_length q < bq_size q"
  shows "bq_inv (bq_push x q)" and "bq_list (bq_push x q) = bq_list q @ [word_of_int x]"
proof -
  from assms obtain k where k: "bq_size q = 2 ^ k" and len: "length (bq_data q) = bq_size q"
    and e: "bq_end q = (bq_start q + bq_length q) mod bq_size q"
    by (auto simp: bq_inv_def bq_wf_def)
  show "bq_inv (bq_push x q)"
    using assms bq_push_wf [of q x] k e
    by (simp add: bq_inv_def bq_push_def Let_def and_mask_mod mod_Suc_eq)
  show "bq_list (bq_push x q) = bq_list q @ [word_of_int x]"
    using ring_snoc [of "bq_length q" "bq_data q" "bq_end q" "bq_start q"] assms(2) len e
    by (simp add: bq_list_def bq_push_def Let_def)
qed

lemma bq_shift_nonempty:
  assumes "bq_wf q" "bq_length q \<noteq> 0"
  shows "bq_list (snd (bq_shift q)) = tl (bq_list q)" and "fst (bq_shift q) = uint (hd (bq_list q))"
proof -
  from assms obtain k n where k: "bq_size q = 2 ^ k" "length (bq_data q) = bq_size q"
    "bq_start q < bq_size q" and n: "bq_length q = Suc n"
    by (metis bq_wf_def not0_implies_Suc)
  have "ring (bq_data q) ((bq_start q + 1) AND (bq_size q - 1)) n = ring (bq_data q) (Suc (bq_start q)) n"
    using ring_mod [of "bq_data q" "Suc (bq_start q)" n] k by (simp add: and_mask_mod)
  then show "bq_list (snd (bq_shift q)) = tl (bq_list q)" "fst (bq_shift q) = uint (hd (bq_list q))"
    using k n by (simp_all add: bq_list_def bq_shift_def ring_Suc_head)
qed

lemma bq_shift_inv: "bq_inv q \<Longrightarrow> bq_inv (snd (bq_shift q))"
proof -
  assume inv: "bq_inv q"
  then obtain k where k: "bq_size q = 2 ^ k" by (auto simp: bq_inv_def bq_wf_def)
  show ?thesis
  proof (cases "bq_length q")
    case 0
    with inv show ?thesis by (simp add: bq_shift_def)
  next
    case (Suc n)
    then have "(Suc (bq_start q) mod 2 ^ k + n) mod 2 ^ k = (bq_start q + bq_length q) mod 2 ^ k"
      by (simp add: mod_simps)
    with inv k Suc show ?thesis using bq_shift_wf [of q]
      by (simp add: bq_inv_def bq_shift_def and_mask_mod)
  qed
qed

interpretation bq: bounded_queue bq_push bq_list bq_size bq_inv word_of_int bq_shift uint
proof unfold_locales
  fix q x assume inv: "bq_inv q"
  then have wf: "bq_wf q" by (simp add: bq_inv_def)
  show "bq_inv (snd (bq_shift q))" using inv by (rule bq_shift_inv)
  show "bq_list (snd (bq_shift q)) = tl (bq_list q)" "fst (bq_shift q) = uint (hd (bq_list q))"
    if "bq_list q \<noteq> []" using that wf by (simp_all add: bq_shift_nonempty)
  show "bq_inv (bq_push x q)" "bq_list (bq_push x q) = bq_list q @ [word_of_int x]"
    if "length (bq_list q) < bq_size q" using that inv by (simp_all add: bq_push_nonfull)
qed simp_all

lemma bq_push_full:
  assumes "bq_inv q" "bq_length q = bq_size q"
  shows "bq_list (bq_push x q) = word_of_int x # tl (bq_list q)"
    and "bq_end (bq_push x q) = (bq_start q + 1) mod bq_size q"
proof -
  from assms obtain k where k: "bq_size q = 2 ^ k" and len: "length (bq_data q) = bq_size q"
    and s: "bq_start q < bq_size q" and e: "bq_end q = bq_start q"
    by (auto simp: bq_inv_def bq_wf_def)
  obtain n where n: "bq_size q = Suc n" using s by (cases "bq_size q") auto
  have "ring ((bq_data q)[bq_start q := w]) (Suc (bq_start q)) n = ring (bq_data q) (Suc (bq_start q)) n" for w
    using ring_update_other [of n "bq_data q" "bq_start q" "Suc (bq_start q)" w] len n s
    by (simp add: mod_if)
  then show "bq_list (bq_push x q) = word_of_int x # tl (bq_list q)"
    using assms(2) len s e n
    by (simp add: bq_list_def bq_push_def Let_def ring_Suc_head)
  show "bq_end (bq_push x q) = (bq_start q + 1) mod bq_size q"
    using assms(2) k e by (simp add: bq_push_def Let_def and_mask_mod)
qed

section \<open>FloatQueue: order, overflow, blocks\<close>

lemma FloatQueue_inv: "fq_inv (FloatQueue (2 ^ k))"
  by (auto simp: fq_inv_def FloatQueue_def)

lemma fq_length_list [simp]: "length (fq_list q) = fq_length q"
  by (simp add: fq_list_def)

lemma fq_list_Nil [simp]: "fq_list q = [] \<longleftrightarrow> fq_length q = 0"
  by (metis fq_length_list length_0_conv)

lemma fq_size_ops [simp]:
  "fq_size (fq_push x q) = fq_size q" "fq_size (snd (fq_shift q)) = fq_size q"
  by (simp_all add: fq_push_def fq_shift_def Let_def)

lemma fq_push_nonfull:
  assumes "fq_inv q" "fq_length q < fq_size q"
  shows "fq_inv (fq_push x q)" and "fq_list (fq_push x q) = fq_list q @ [x]"
proof -
  from assms obtain k where k: "fq_size q = 2 ^ k" "length (fq_data q) = fq_size q"
    "fq_end q = (fq_start q + fq_length q) mod fq_size q"
    by (auto simp: fq_inv_def)
  show "fq_inv (fq_push x q)"
    using assms k by (simp add: fq_inv_def fq_push_def Let_def and_mask_mod mod_Suc_eq)
  show "fq_list (fq_push x q) = fq_list q @ [x]"
    using ring_snoc [of "fq_length q" "fq_data q" "fq_end q" "fq_start q"] assms(2) k
    by (simp add: fq_list_def fq_push_def Let_def)
qed

lemma fq_push_full:
  assumes "fq_inv q" "fq_length q = fq_size q"
  shows "fq_inv (fq_push x q)" and "fq_list (fq_push x q) = tl (fq_list q) @ [x]"
proof -
  from assms obtain k where k: "fq_size q = 2 ^ k" and len: "length (fq_data q) = fq_size q"
    and s: "fq_start q < fq_size q" and e: "fq_end q = fq_start q"
    by (auto simp: fq_inv_def)
  obtain n where n: "fq_size q = Suc n" using s by (cases "fq_size q") auto
  have "(Suc (fq_start q) + n) mod length (fq_data q) = fq_start q"
    using s len n by (simp add: mod_if)
  then have "ring ((fq_data q)[fq_start q := x]) (Suc (fq_start q)) (Suc n) =
      ring (fq_data q) (Suc (fq_start q)) n @ [x]"
    using ring_snoc [of n "fq_data q" "fq_start q" "Suc (fq_start q)" x] len n by simp
  moreover have "tl (ring (fq_data q) (fq_start q) (fq_size q)) = ring (fq_data q) (Suc (fq_start q)) n"
    using n len s by (simp add: ring_Suc_head)
  ultimately show "fq_list (fq_push x q) = tl (fq_list q) @ [x]"
    using assms(2) k len s e n ring_mod [of "(fq_data q)[fq_start q := x]" "Suc (fq_start q)" "Suc n"]
    by (simp add: fq_list_def fq_push_def Let_def and_mask_mod ring_Suc_head)
  show "fq_inv (fq_push x q)"
    using assms k len e by (simp add: fq_inv_def fq_push_def Let_def and_mask_mod)
qed

lemma fq_shift_nonempty:
  assumes "fq_inv q" "fq_length q \<noteq> 0"
  shows "fq_list (snd (fq_shift q)) = tl (fq_list q)" and "fst (fq_shift q) = Some (hd (fq_list q))"
proof -
  from assms obtain k n where k: "fq_size q = 2 ^ k" "length (fq_data q) = fq_size q"
    "fq_start q < fq_size q" and n: "fq_length q = Suc n"
    by (metis fq_inv_def not0_implies_Suc)
  have "ring (fq_data q) ((fq_start q + 1) AND (fq_size q - 1)) n = ring (fq_data q) (Suc (fq_start q)) n"
    using ring_mod [of "fq_data q" "Suc (fq_start q)" n] k by (simp add: and_mask_mod)
  then show "fq_list (snd (fq_shift q)) = tl (fq_list q)" "fst (fq_shift q) = Some (hd (fq_list q))"
    using k n by (simp_all add: fq_list_def fq_shift_def ring_Suc_head)
qed

lemma fq_shift_inv: "fq_inv q \<Longrightarrow> fq_inv (snd (fq_shift q))"
proof (cases "fq_length q")
  case 0
  then show "fq_inv q \<Longrightarrow> ?thesis" by (simp add: fq_shift_def)
next
  case (Suc n)
  assume inv: "fq_inv q"
  then obtain k where k: "fq_size q = 2 ^ k" by (auto simp: fq_inv_def)
  have "(Suc (fq_start q) mod 2 ^ k + n) mod 2 ^ k = (fq_start q + fq_length q) mod 2 ^ k"
    using Suc by (simp add: mod_simps)
  with inv k Suc show ?thesis by (simp add: fq_inv_def fq_shift_def and_mask_mod)
qed

interpretation fq: bounded_queue fq_push fq_list fq_size fq_inv "\<lambda>x. x" fq_shift Some
proof unfold_locales
  fix q :: "'a float_queue" and x assume inv: "fq_inv q"
  show "fq_inv (snd (fq_shift q))" using inv by (rule fq_shift_inv)
  show "fq_list (snd (fq_shift q)) = tl (fq_list q)" "fst (fq_shift q) = Some (hd (fq_list q))"
    if "fq_list q \<noteq> []" using that inv by (simp_all add: fq_shift_nonempty)
  show "fq_inv (fq_push x q)" "fq_list (fq_push x q) = fq_list q @ [x]"
    if "length (fq_list q) < fq_size q" using that inv by (simp_all add: fq_push_nonfull)
qed simp_all

interpretation fqd: dropping_buffer fq_push fq_list fq_size fq_inv "\<lambda>x. x"
proof unfold_locales
  fix q :: "'a float_queue" and x assume inv: "fq_inv q"
  show "fq_inv (fq_push x q)" "fq_list (fq_push x q) = tl (fq_list q) @ [x]"
    if "length (fq_list q) = fq_size q" using that inv by (simp_all add: fq_push_full)
  show "length (fq_list q) \<le> fq_size q" using inv by (simp add: fq_inv_def)
  show "0 < fq_size q" using inv by (auto simp: fq_inv_def)
qed

lemma ta_set_append:
  "length src \<le> n \<Longrightarrow> ta_set (xs @ replicate n z) src (length xs) = xs @ src @ replicate (n - length src) z"
  by (simp add: ta_set_def)

lemma fq_shift_block_spec:
  fixes q :: "'a::zero float_queue"
  assumes inv: "fq_inv q"
  shows "fst (fq_shift_block count q) = take count (fq_list q) @ replicate (count - fq_length q) 0"
    and "fq_list (snd (fq_shift_block count q)) = drop count (fq_list q)"
    and "fq_inv (snd (fq_shift_block count q))"
proof -
  define c where "c = min count (fq_length q)"
  define d where "d = fq_data q"
  define s where "s = fq_start q"
  from inv have len: "length d = fq_size q" "s < length d" "c \<le> length d" "c \<le> count"
    by (auto simp: fq_inv_def c_def d_def s_def)
  have cc: "(if count > fq_length q then fq_length q else count) = c" by (simp add: c_def)
  define p where "p = subarray d s (s + c)"
  have p: "p @ (if s + c \<ge> length d then subarray d 0 (s + c - length d) else []) = ring d s c"
    using ring_wrap [of s d c] ring_no_wrap [of s c d] len by (auto simp: p_def)
  have lp: "length p \<le> count" using arg_cong [OF p, of length] len by simp
  have s1: "ta_set (replicate count (0::'a)) p 0 = p @ replicate (count - length p) 0"
    using ta_set_append [of p count "[]"] lp by simp
  have s2: "ta_set (p @ replicate (count - length p) 0) (subarray d 0 (s + c - length d)) (length p)
       = p @ subarray d 0 (s + c - length d) @ replicate (count - c) (0::'a)" if "length d \<le> s + c"
    using ta_set_append [of "subarray d 0 (s + c - length d)" "count - length p" p]
      arg_cong [OF p, of length] that len by simp
  have lpc: "length p = c" if "\<not> length d \<le> s + c"
    using arg_cong [OF p, of length] that by simp
  have t: "take count (fq_list q) = ring d s c" "count - c = count - fq_length q"
    by (auto simp: fq_list_def d_def s_def c_def take_ring min_def)
  show "fst (fq_shift_block count q) = take count (fq_list q) @ replicate (count - fq_length q) 0"
    unfolding fq_shift_block_def Let_def fst_conv cc d_def [symmetric] s_def [symmetric]
      p_def [symmetric] s1 t(1) t(2) [symmetric] p [symmetric] len(1) [symmetric]
    by (simp add: s2 lpc)
  define s' where "s' = (if s + c \<ge> length d then s + c - length d else s + c)"
  have s': "s' = (s + c) mod length d" using len by (simp add: s'_def mod_if)
  have st: "snd (fq_shift_block count q) = q\<lparr>fq_start := s', fq_length := fq_length q - c\<rparr>"
    using len(1) by (simp add: fq_shift_block_def Let_def cc s'_def s_def)
  have dr: "drop count (fq_list q) = drop c (fq_list q)" by (simp add: c_def min_def)
  show "fq_list (snd (fq_shift_block count q)) = drop count (fq_list q)"
    unfolding dr using drop_ring [of c "fq_length q" d s] ring_mod [of d "s + c"]
    by (simp add: st s' fq_list_def d_def [symmetric] s_def [symmetric] c_def)
  have "(s' + (fq_length q - c)) mod length d = (s + fq_length q) mod length d"
    unfolding s' mod_add_left_eq by (simp add: c_def)
  with inv len s' show "fq_inv (snd (fq_shift_block count q))"
    by (auto simp: st fq_inv_def s_def)
qed

section \<open>CircularQueue\<close>

lemma CircularQueue_inv: "0 < n \<Longrightarrow> cq_inv (CircularQueue n)"
  by (simp add: cq_inv_def CircularQueue_def)

lemma cq_add_spec:
  assumes "cq_inv q"
  shows "cq_inv (cq_add x q)"
    and "cq_toArray (cq_add x q) =
      (if length (cq_data q) < cq_size q then cq_toArray q @ [x] else tl (cq_toArray q) @ [x])"
proof -
  show "cq_inv (cq_add x q)"
    using assms by (auto simp: cq_inv_def cq_add_def array_store_def Let_def mod_Suc split: if_splits)
  show "cq_toArray (cq_add x q) =
      (if length (cq_data q) < cq_size q then cq_toArray q @ [x] else tl (cq_toArray q) @ [x])"
  proof (cases "length (cq_data q) < cq_size q")
    case True
    with assms show ?thesis
      by (auto simp: cq_inv_def cq_add_def array_store_def Let_def cq_toArray_def mod_Suc)
  next
    case False
    define d where "d = cq_data q"
    define i where "i = cq_index q"
    from False assms have i: "i < length d" "length d = cq_size q"
      by (auto simp: cq_inv_def d_def i_def)
    have split: "d = take i d @ d ! i # drop (Suc i) d" using i by (simp add: id_take_nth_drop)
    have upd: "d[i := x] = take i d @ x # drop (Suc i) d" using i by (simp add: upd_conv_take_nth_drop)
    have "drop i d = d ! i # drop (Suc i) d" using i by (simp add: Cons_nth_drop_Suc)
    then show ?thesis using False i upd
      by (auto simp: cq_add_def array_store_def Let_def cq_toArray_def d_def [symmetric] i_def [symmetric]
          mod_Suc split: if_splits)
  qed
qed

lemma cq_toArray_length [simp]: "length (cq_toArray q) = length (cq_data q)"
  by (simp add: cq_toArray_def)

lemma cq_size_add [simp]: "cq_size (cq_add x q) = cq_size q"
  by (simp add: cq_add_def Let_def)

interpretation cq: dropping_buffer cq_add cq_toArray cq_size cq_inv "\<lambda>x. x"
  by unfold_locales (simp_all add: cq_add_spec, simp_all add: cq_inv_def)

section \<open>Properties\<close>

text \<open>
  What is done to a \<open>ByteQueue\<close> over time: any sequence of its operations. \<open>bq_run\<close> collects what
  \<open>shift\<close> and \<open>peek\<close> return; \<open>list_run\<close> is the specification, the same operations on a plain list of
  bytes. \<open>no_overflow\<close> says that no \<open>push\<close> meets a full queue.
\<close>

datatype queue_op = Q_Push int | Q_Shift | Q_Peek | Q_Clear

fun bq_run :: "queue_op list \<Rightarrow> byte_queue \<Rightarrow> int list \<times> byte_queue" where
  "bq_run [] q = ([], q)"
| "bq_run (Q_Push x # ops) q = bq_run ops (bq_push x q)"
| "bq_run (Q_Shift # ops) q = (let (x, q1) = bq_shift q; (xs, q2) = bq_run ops q1 in (x # xs, q2))"
| "bq_run (Q_Peek # ops) q = (let (xs, q2) = bq_run ops q in (bq_peek q # xs, q2))"
| "bq_run (Q_Clear # ops) q = bq_run ops (bq_clear q)"

definition oldest :: "u8 list \<Rightarrow> int" where
  "oldest l = (case l of [] \<Rightarrow> -1 | x # _ \<Rightarrow> uint x)"

fun list_run :: "queue_op list \<Rightarrow> u8 list \<Rightarrow> int list \<times> u8 list" where
  "list_run [] l = ([], l)"
| "list_run (Q_Push x # ops) l = list_run ops (l @ [word_of_int x])"
| "list_run (Q_Shift # ops) l = (let (xs, l2) = list_run ops (tl l) in (oldest l # xs, l2))"
| "list_run (Q_Peek # ops) l = (let (xs, l2) = list_run ops l in (oldest l # xs, l2))"
| "list_run (Q_Clear # ops) l = list_run ops []"

fun no_overflow :: "nat \<Rightarrow> queue_op list \<Rightarrow> u8 list \<Rightarrow> bool" where
  "no_overflow n [] l \<longleftrightarrow> True"
| "no_overflow n (Q_Push x # ops) l \<longleftrightarrow> length l < n \<and> no_overflow n ops (l @ [word_of_int x])"
| "no_overflow n (Q_Shift # ops) l \<longleftrightarrow> no_overflow n ops (tl l)"
| "no_overflow n (Q_Peek # ops) l \<longleftrightarrow> no_overflow n ops l"
| "no_overflow n (Q_Clear # ops) l \<longleftrightarrow> no_overflow n ops []"

lemma bq_shift_list: "bq_wf q \<Longrightarrow> bq_list (snd (bq_shift q)) = tl (bq_list q)"
  by (cases "bq_length q = 0") (simp_all add: bq_shift_nonempty, simp add: bq_shift_def bq_list_def)

lemma bq_shift_peek: "fst (bq_shift q) = bq_peek q"
  by (simp add: bq_shift_def bq_peek_def)

lemma bq_peek_oldest:
  assumes "bq_wf q" shows "bq_peek q = oldest (bq_list q)"
proof (cases "bq_list q")
  case Nil
  then have "bq_length q = 0" by simp
  with Nil show ?thesis by (simp add: oldest_def bq_peek_def del: bq_list_Nil)
next
  case (Cons x xs)
  then have "bq_length q \<noteq> 0" by (metis bq_list_Nil list.distinct(1))
  from bq_shift_nonempty(2) [OF assms this] Cons show ?thesis by (simp add: oldest_def bq_shift_peek)
qed

lemma bq_run_refines:
  "bq_inv q \<Longrightarrow> no_overflow (bq_size q) ops (bq_list q) \<Longrightarrow>
   fst (bq_run ops q) = fst (list_run ops (bq_list q)) \<and>
   bq_list (snd (bq_run ops q)) = snd (list_run ops (bq_list q)) \<and> bq_inv (snd (bq_run ops q))"
proof (induction ops arbitrary: q)
  case (Cons p ops)
  then have wf: "bq_wf q" by (simp add: bq_inv_def)
  show ?case
  proof (cases p)
    case (Q_Push x)
    then show ?thesis
      using Cons.IH [of "bq_push x q"] Cons.prems by (simp add: bq_push_nonfull)
  next
    case Q_Shift
    then show ?thesis
      using Cons.IH [of "snd (bq_shift q)"] Cons.prems wf
      by (simp add: bq_shift_inv bq_shift_list bq_peek_oldest bq_shift_peek split_beta Let_def)
  next
    case Q_Peek
    then show ?thesis using Cons wf by (simp add: bq_peek_oldest split_beta Let_def)
  next
    case Q_Clear
    then show ?thesis using Cons.IH [of "bq_clear q"] Cons.prems wf by (simp add: bq_clear_inv)
  qed
qed simp

text \<open>
  Claim C7. A \<open>ByteQueue\<close> of a power-of-two size behaves like a list of bytes, however often its ring
  wraps around: along every sequence of \<open>push\<close>, \<open>shift\<close>, \<open>peek\<close> and \<open>clear\<close> in which no \<open>push\<close> meets
  a full queue, \<open>shift\<close> and \<open>peek\<close> return the oldest item that is left (\<open>-1\<close> when there is none), pushed
  items being truncated to a byte and kept in order, and in the end the queue holds the items that are
  left and its length counts them.
\<close>

theorem ByteQueue_fifo:
  assumes "no_overflow (2 ^ k) ops []"
  shows "let (outs, q) = bq_run ops (ByteQueue (2 ^ k)); (outs', l) = list_run ops []
    in outs = outs' \<and> bq_list q = l \<and> bq_length q = length l"
proof -
  have e: "bq_list (ByteQueue (2 ^ k)) = []" and c: "bq_size (ByteQueue (2 ^ k)) = 2 ^ k"
    by (simp_all add: ByteQueue_def bq_clear_def)
  show ?thesis
    using bq_run_refines [OF ByteQueue_inv [of k], of ops, unfolded e c, OF assms]
      bq_length_list [of "snd (bq_run ops (ByteQueue (2 ^ k)))"]
    by (simp add: split_beta Let_def)
qed

theorem ByteQueue_fifo_witness:
  "fst (bq_run [Q_Push 1, Q_Push 2, Q_Shift, Q_Push 0x1FA, Q_Shift, Q_Push (-1), Q_Peek, Q_Shift, Q_Shift, Q_Shift] (ByteQueue 2))
     = [1, 2, 0xFA, 0xFA, 0xFF, -1]"
  using ByteQueue_fifo [of 1 "[Q_Push 1, Q_Push 2, Q_Shift, Q_Push 0x1FA, Q_Shift, Q_Push (-1), Q_Peek, Q_Shift, Q_Shift, Q_Shift]"]
  by (simp add: split_beta Let_def oldest_def uint_word_ariths del: bq_run.simps)

text \<open>
  Pushing into a full \<open>ByteQueue\<close> does not drop the oldest item and append: the
  write index moves on but the read index does not, so the newest item takes the oldest one's
  place at the head of the queue and is the next one shifted out, ahead of everything pushed
  before it.
\<close>

theorem ByteQueue_overflow_jumps_queue:
  assumes "bq_inv q" "bq_length q = bq_size q"
  shows "bq_list (bq_push x q) = word_of_int x # tl (bq_list q) \<and>
    fst (bq_shift (bq_push x q)) = x mod 256"
proof -
  have wf: "bq_wf (bq_push x q)" using assms by (simp add: bq_inv_def bq_push_wf)
  have "0 < bq_size q" using assms by (auto simp: bq_inv_def bq_wf_def)
  then have "bq_length (bq_push x q) \<noteq> 0" using assms by (simp add: bq_length_push)
  from bq_shift_nonempty(2) [OF wf this] bq_push_full(1) [OF assms]
  show ?thesis by (simp add: uint_word_of_int)
qed

theorem ByteQueue_overflow_jumps_queue_witness:
  "bq_list (bq_push 3 (push_all bq_push [1, 2] (ByteQueue 2))) = [3, 2]"
proof -
  define q where "q = push_all bq_push [1, 2] (ByteQueue 2)"
  have "bq_inv q" and "bq_list q = [1, 2]"
    using bq.push_all_items [OF ByteQueue_inv [of 1], of "[1, 2]"]
    by (simp_all add: q_def ByteQueue_def bq_clear_def bq_list_def)
  moreover have "bq_length q = bq_size q"
    by (simp add: q_def ByteQueue_def bq_clear_def bq_length_push)
  ultimately show ?thesis using ByteQueue_overflow_jumps_queue [of q 3] by (simp add: q_def)
qed

text \<open>
  A \<open>FloatQueue\<close> keeps the latest samples: after any number of pushes from a
  fresh queue it holds the last \<open>size\<close> of them in order, and \<open>shift_block\<close> returns the
  oldest \<open>count\<close> of those, padded with zeros to the requested length, and removes them.
\<close>

theorem FloatQueue_keeps_latest:
  fixes xs :: "'a::zero list"
  shows "let q = push_all fq_push xs (FloatQueue (2 ^ k)); kept = drop (length xs - 2 ^ k) xs;
      (block, q') = fq_shift_block count q
    in fq_list q = kept \<and> block = take count kept @ replicate (count - length kept) 0 \<and>
       fq_list q' = drop count kept"
proof -
  define q where "q = push_all fq_push xs (FloatQueue (2 ^ k))"
  have e: "fq_list (FloatQueue (2 ^ k) :: 'a float_queue) = []"
    and c: "fq_size (FloatQueue (2 ^ k) :: 'a float_queue) = 2 ^ k"
    by (simp_all add: FloatQueue_def)
  from fqd.push_all_latest [OF FloatQueue_inv, of xs k] e c
  have inv: "fq_inv q" and l: "fq_list q = drop (length xs - 2 ^ k) xs"
    by (simp_all add: q_def)
  then have "fq_length q = length (drop (length xs - 2 ^ k) xs)" by (metis fq_length_list)
  then show ?thesis
    using fq_shift_block_spec [OF inv, of count] l
    unfolding q_def [symmetric] by (simp add: Let_def split_beta)
qed

text \<open>
  A \<open>CircularQueue\<close> of positive size keeps the latest entries: after any number
  of additions \<open>toArray\<close> lists the last \<open>size\<close> of them, oldest first.
\<close>

theorem CircularQueue_keeps_latest:
  assumes "0 < n"
  shows "cq_toArray (push_all cq_add xs (CircularQueue n)) = drop (length xs - n) xs"
  using cq.push_all_latest [OF CircularQueue_inv [OF assms], of xs]
  by (simp add: CircularQueue_def cq_toArray_def)

theorem CircularQueue_keeps_latest_witness:
  "cq_toArray (push_all cq_add ''abcde'' (CircularQueue 3)) = ''cde''"
  using CircularQueue_keeps_latest [of 3 "''abcde''"] by simp

end
