(* ===== verification/Io_Ports.thy ===== *)
theory Io_Ports
  imports V86_Prelude
begin

text \<open>
  The port space of \<open>src/io.js\<close>: the table of the 65536 I/O ports, the registration of
  device handlers (single ports, consecutive ports, removal) and the access functions that the
  CPU calls. The model is that of a release build (\<open>DEBUG\<close> false): a handler that a
  device does not give is left as it is.

  A handler is a function on the state \<open>'m\<close> of the devices; \<open>entry.device\<close>, the
  \<open>this\<close> of the call, is the part of \<open>'m\<close> the handler works on, and its identity is a
  number. An access to an index with no entry is a TypeError: \<open>None\<close>.
\<close>

section \<open>Entries and handlers\<close>

type_synonym 'm port_read = "nat \<Rightarrow> 'm \<Rightarrow> i32 \<times> 'm"
type_synonym 'm port_write = "i32 \<Rightarrow> 'm \<Rightarrow> 'm"

record 'm port_entry =
  pe_read8 :: "'m port_read"
  pe_read16 :: "'m port_read"
  pe_read32 :: "'m port_read"
  pe_write8 :: "'m port_write"
  pe_write16 :: "'m port_write"
  pe_write32 :: "'m port_write"
  pe_device :: "nat option"

type_synonym 'm ports = "nat \<rightharpoonup> 'm port_entry"

definition empty_port_read8 :: "'m port_read" where
  "empty_port_read8 p m = (0xFF, m)"

definition empty_port_read16 :: "'m port_read" where
  "empty_port_read16 p m = (0xFFFF, m)"

definition empty_port_read32 :: "'m port_read" where
  "empty_port_read32 p m = (-1, m)"

definition empty_port_write :: "'m port_write" where
  "empty_port_write x m = m"

definition create_empty_entry :: "'m port_entry" where
  "create_empty_entry =
     \<lparr>pe_read8 = empty_port_read8, pe_read16 = empty_port_read16, pe_read32 = empty_port_read32,
      pe_write8 = empty_port_write, pe_write16 = empty_port_write, pe_write32 = empty_port_write,
      pe_device = None\<rparr>"

text \<open>The loop of the constructor that fills the table.\<close>

definition IO_ports :: "'m ports" where
  "IO_ports p = (if p < 0x10000 then Some create_empty_entry else None)"

section \<open>Registration\<close>

definition update_opt :: "'h option \<Rightarrow> 'h \<Rightarrow> 'h" where
  "update_opt h old = (case h of None \<Rightarrow> old | Some f \<Rightarrow> f)"

definition register_read ::
  "nat \<Rightarrow> nat \<Rightarrow> 'm port_read option \<Rightarrow> 'm port_read option \<Rightarrow> 'm port_read option \<Rightarrow>
   'm ports \<Rightarrow> 'm ports option" where
  "register_read port_addr device r8 r16 r32 ports =
     (case ports port_addr of
        None \<Rightarrow> None
      | Some e \<Rightarrow> Some (ports(port_addr \<mapsto>
          e\<lparr>pe_read8 := update_opt r8 (pe_read8 e), pe_read16 := update_opt r16 (pe_read16 e),
            pe_read32 := update_opt r32 (pe_read32 e), pe_device := Some device\<rparr>)))"

definition register_write ::
  "nat \<Rightarrow> nat \<Rightarrow> 'm port_write option \<Rightarrow> 'm port_write option \<Rightarrow> 'm port_write option \<Rightarrow>
   'm ports \<Rightarrow> 'm ports option" where
  "register_write port_addr device w8 w16 w32 ports =
     (case ports port_addr of
        None \<Rightarrow> None
      | Some e \<Rightarrow> Some (ports(port_addr \<mapsto>
          e\<lparr>pe_write8 := update_opt w8 (pe_write8 e), pe_write16 := update_opt w16 (pe_write16 e),
            pe_write32 := update_opt w32 (pe_write32 e), pe_device := Some device\<rparr>)))"

text \<open>Registrations one after the other; the first TypeError ends the sequence.\<close>

fun reg_seq :: "('p \<Rightarrow> 'p option) list \<Rightarrow> 'p \<Rightarrow> 'p option" where
  "reg_seq [] io = Some io"
| "reg_seq (r # rs) io = (case r io of None \<Rightarrow> None | Some io' \<Rightarrow> reg_seq rs io')"

text \<open>A sequence of registrations of 8-bit handlers only, as most devices have.\<close>

datatype 'm reg8 = Rd nat "'m port_read" | Wr nat "'m port_write"

definition register8 :: "nat \<Rightarrow> 'm reg8 \<Rightarrow> 'm ports \<Rightarrow> 'm ports option" where
  "register8 device r =
     (case r of Rd p f \<Rightarrow> register_read p device (Some f) None None
      | Wr p f \<Rightarrow> register_write p device (Some f) None None)"

text \<open>
  The handlers of \<open>register_read_consecutive\<close> take no argument; the wider handlers call
  them in order on the state.
\<close>

definition r16_pair :: "('m \<Rightarrow> i32 \<times> 'm) \<Rightarrow> ('m \<Rightarrow> i32 \<times> 'm) \<Rightarrow> 'm \<Rightarrow> i32 \<times> 'm" where
  "r16_pair a b m = (let (x, m1) = a m; (y, m2) = b m1 in (x OR push_bit 8 y, m2))"

definition r32_quad ::
  "('m \<Rightarrow> i32 \<times> 'm) \<Rightarrow> ('m \<Rightarrow> i32 \<times> 'm) \<Rightarrow> ('m \<Rightarrow> i32 \<times> 'm) \<Rightarrow> ('m \<Rightarrow> i32 \<times> 'm) \<Rightarrow>
   'm \<Rightarrow> i32 \<times> 'm" where
  "r32_quad a b c d m =
     (let (x, m1) = a m; (y, m2) = b m1; (z, m3) = c m2; (w, m4) = d m3
      in (x OR push_bit 8 y OR push_bit 16 z OR push_bit 24 w, m4))"

definition register_read_consecutive ::
  "nat \<Rightarrow> nat \<Rightarrow> ('m \<Rightarrow> i32 \<times> 'm) \<Rightarrow> ('m \<Rightarrow> i32 \<times> 'm) \<Rightarrow>
   (('m \<Rightarrow> i32 \<times> 'm) \<times> ('m \<Rightarrow> i32 \<times> 'm)) option \<Rightarrow> 'm ports \<Rightarrow> 'm ports option" where
  "register_read_consecutive port_addr device r8_1 r8_2 rest =
     (case rest of
        Some (r8_3, r8_4) \<Rightarrow> reg_seq
          [register_read port_addr device (Some (\<lambda>_. r8_1)) (Some (\<lambda>_. r16_pair r8_1 r8_2))
             (Some (\<lambda>_. r32_quad r8_1 r8_2 r8_3 r8_4)),
           register_read (port_addr + 1) device (Some (\<lambda>_. r8_2)) None None,
           register_read (port_addr + 2) device (Some (\<lambda>_. r8_3)) (Some (\<lambda>_. r16_pair r8_3 r8_4)) None,
           register_read (port_addr + 3) device (Some (\<lambda>_. r8_4)) None None]
      | None \<Rightarrow> reg_seq
          [register_read port_addr device (Some (\<lambda>_. r8_1)) (Some (\<lambda>_. r16_pair r8_1 r8_2)) None,
           register_read (port_addr + 1) device (Some (\<lambda>_. r8_2)) None None])"

definition w16_pair :: "'m port_write \<Rightarrow> 'm port_write \<Rightarrow> 'm port_write" where
  "w16_pair a b data m = b (signed_drop_bit 8 data AND 0xFF) (a (data AND 0xFF) m)"

definition w32_quad ::
  "'m port_write \<Rightarrow> 'm port_write \<Rightarrow> 'm port_write \<Rightarrow> 'm port_write \<Rightarrow> 'm port_write" where
  "w32_quad a b c d data m =
     d (drop_bit 24 data)
       (c (signed_drop_bit 16 data AND 0xFF) (b (signed_drop_bit 8 data AND 0xFF) (a (data AND 0xFF) m)))"

definition register_write_consecutive ::
  "nat \<Rightarrow> nat \<Rightarrow> 'm port_write \<Rightarrow> 'm port_write \<Rightarrow> ('m port_write \<times> 'm port_write) option \<Rightarrow>
   'm ports \<Rightarrow> 'm ports option" where
  "register_write_consecutive port_addr device w8_1 w8_2 rest =
     (case rest of
        Some (w8_3, w8_4) \<Rightarrow> reg_seq
          [register_write port_addr device (Some w8_1) (Some (w16_pair w8_1 w8_2))
             (Some (w32_quad w8_1 w8_2 w8_3 w8_4)),
           register_write (port_addr + 1) device (Some w8_2) None None,
           register_write (port_addr + 2) device (Some w8_3) (Some (w16_pair w8_3 w8_4)) None,
           register_write (port_addr + 3) device (Some w8_4) None None]
      | None \<Rightarrow> reg_seq
          [register_write port_addr device (Some w8_1) (Some (w16_pair w8_1 w8_2)) None,
           register_write (port_addr + 1) device (Some w8_2) None None])"

text \<open>The loop over the ports of a range; an index outside the table is a TypeError.\<close>

fun unregister_range :: "nat \<Rightarrow> nat \<Rightarrow> nat \<Rightarrow> 'm ports \<Rightarrow> 'm ports option" where
  "unregister_range port 0 device ports = Some ports"
| "unregister_range port (Suc n) device ports =
     (case ports port of
        None \<Rightarrow> None
      | Some e \<Rightarrow> unregister_range (Suc port) n device
          (if pe_device e = Some device then ports(port \<mapsto> create_empty_entry) else ports))"

section \<open>Accesses by the CPU\<close>

definition port_write8 :: "nat \<Rightarrow> i32 \<Rightarrow> 'm ports \<Rightarrow> 'm \<Rightarrow> 'm option" where
  "port_write8 port_addr data ports m = map_option (\<lambda>e. pe_write8 e data m) (ports port_addr)"

definition port_write16 :: "nat \<Rightarrow> i32 \<Rightarrow> 'm ports \<Rightarrow> 'm \<Rightarrow> 'm option" where
  "port_write16 port_addr data ports m = map_option (\<lambda>e. pe_write16 e data m) (ports port_addr)"

definition port_write32 :: "nat \<Rightarrow> i32 \<Rightarrow> 'm ports \<Rightarrow> 'm \<Rightarrow> 'm option" where
  "port_write32 port_addr data ports m = map_option (\<lambda>e. pe_write32 e data m) (ports port_addr)"

definition port_read8 :: "nat \<Rightarrow> 'm ports \<Rightarrow> 'm \<Rightarrow> (i32 \<times> 'm) option" where
  "port_read8 port_addr ports m = map_option (\<lambda>e. pe_read8 e port_addr m) (ports port_addr)"

definition port_read16 :: "nat \<Rightarrow> 'm ports \<Rightarrow> 'm \<Rightarrow> (i32 \<times> 'm) option" where
  "port_read16 port_addr ports m = map_option (\<lambda>e. pe_read16 e port_addr m) (ports port_addr)"

definition port_read32 :: "nat \<Rightarrow> 'm ports \<Rightarrow> 'm \<Rightarrow> (i32 \<times> 'm) option" where
  "port_read32 port_addr ports m = map_option (\<lambda>e. pe_read32 e port_addr m) (ports port_addr)"

lemmas port_access_defs =
  port_write8_def port_write16_def port_write32_def port_read8_def port_read16_def port_read32_def

section \<open>Lemmas\<close>

text \<open>The handler a port has after a sequence of 8-bit registrations: the last one for it.\<close>

fun last_rd :: "'m reg8 list \<Rightarrow> nat \<Rightarrow> 'm port_read \<Rightarrow> 'm port_read" where
  "last_rd [] q f = f"
| "last_rd (Rd p g # rs) q f = last_rd rs q (if p = q then g else f)"
| "last_rd (Wr p g # rs) q f = last_rd rs q f"

fun last_wr :: "'m reg8 list \<Rightarrow> nat \<Rightarrow> 'm port_write \<Rightarrow> 'm port_write" where
  "last_wr [] q f = f"
| "last_wr (Wr p g # rs) q f = last_wr rs q (if p = q then g else f)"
| "last_wr (Rd p g # rs) q f = last_wr rs q f"

fun reg8_port :: "'m reg8 \<Rightarrow> nat" where
  "reg8_port (Rd p f) = p"
| "reg8_port (Wr p f) = p"

lemma update_opt_simps [simp]: "update_opt None h = h" "update_opt (Some f) h = f"
  by (simp_all add: update_opt_def)

lemma IO_ports_Some [simp]: "p < 65536 \<Longrightarrow> IO_ports p = Some create_empty_entry"
  by (simp add: IO_ports_def)

lemma reg_seq_append:
  "reg_seq (rs @ ss) io = (case reg_seq rs io of None \<Rightarrow> None | Some io' \<Rightarrow> reg_seq ss io')"
  by (induction rs arbitrary: io) (auto split: option.splits)

text \<open>What a registration may do to a table: never remove an entry, and touch one port only.\<close>

lemma register8_one:
  assumes "reg8_port r \<in> dom ports"
  shows "\<exists>ports1. register8 dev r ports = Some ports1 \<and> dom ports1 = dom ports \<and>
    (\<forall>q e. ports q = Some e \<longrightarrow> (\<exists>e'. ports1 q = Some e' \<and>
       pe_read8 e' = last_rd [r] q (pe_read8 e) \<and> pe_write8 e' = last_wr [r] q (pe_write8 e)))"
proof -
  obtain y where y: "ports (reg8_port r) = Some y" using assms by auto
  then have d: "insert (reg8_port r) (dom ports) = dom ports" by auto
  show ?thesis
    using y d by (cases r) (simp_all add: register8_def register_read_def register_write_def)
qed

lemma register8_seq:
  assumes "\<forall>r \<in> set rs. reg8_port r \<in> dom ports"
  shows "\<exists>ports'. reg_seq (map (register8 dev) rs) ports = Some ports' \<and> dom ports' = dom ports \<and>
    (\<forall>q e. ports q = Some e \<longrightarrow> (\<exists>e'. ports' q = Some e' \<and>
       pe_read8 e' = last_rd rs q (pe_read8 e) \<and> pe_write8 e' = last_wr rs q (pe_write8 e)))"
  using assms
proof (induction rs arbitrary: ports)
  case (Cons r rs)
  obtain ports1 where p1: "register8 dev r ports = Some ports1" "dom ports1 = dom ports"
    "\<forall>q e. ports q = Some e \<longrightarrow> (\<exists>e'. ports1 q = Some e' \<and>
       pe_read8 e' = last_rd [r] q (pe_read8 e) \<and> pe_write8 e' = last_wr [r] q (pe_write8 e))"
    using register8_one [of r ports dev] Cons.prems by (metis list.set_intros(1))
  obtain ports' where p': "reg_seq (map (register8 dev) rs) ports1 = Some ports'" "dom ports' = dom ports1"
    "\<forall>q e. ports1 q = Some e \<longrightarrow> (\<exists>e'. ports' q = Some e' \<and>
       pe_read8 e' = last_rd rs q (pe_read8 e) \<and> pe_write8 e' = last_wr rs q (pe_write8 e))"
    using Cons.IH [of ports1] Cons.prems p1(2) by auto
  have "\<exists>e'. ports' q = Some e' \<and> pe_read8 e' = last_rd (r # rs) q (pe_read8 e) \<and> pe_write8 e' = last_wr (r # rs) q (pe_write8 e)"
    if "ports q = Some e" for q e
    using p1(3) p'(3) that by (cases r) fastforce+
  then show ?case using p1 p' by auto
qed simp

text \<open>What a byte access reaches after such a sequence on the fresh table.\<close>

lemma register8_access:
  assumes "\<forall>r \<in> set rs. reg8_port r < 0x10000"
  shows "\<exists>ports. reg_seq (map (register8 dev) rs) IO_ports = Some ports \<and>
    (\<forall>q x m. q < 0x10000 \<longrightarrow> port_read8 q ports m = Some (last_rd rs q empty_port_read8 q m) \<and>
       port_write8 q x ports m = Some (last_wr rs q empty_port_write x m))"
proof -
  have d: "dom IO_ports = {..<0x10000}" by (auto simp: IO_ports_def dom_def)
  have "\<exists>ports'. reg_seq (map (register8 dev) rs) IO_ports = Some ports' \<and> dom ports' = dom (IO_ports :: 'a ports) \<and>
    (\<forall>q e. IO_ports q = Some e \<longrightarrow> (\<exists>e'. ports' q = Some e' \<and>
       pe_read8 e' = last_rd rs q (pe_read8 e) \<and> pe_write8 e' = last_wr rs q (pe_write8 e)))"
    by (rule register8_seq) (use assms d in auto)
  then show ?thesis
    by (fastforce simp: IO_ports_def create_empty_entry_def port_read8_def port_write8_def)
qed

locale port_registration =
  fixes reg :: "'m ports \<Rightarrow> 'm ports option"
    and touched :: "nat set"
  assumes dom_reg: "reg ports = Some ports' \<Longrightarrow> dom ports' = dom ports"
    and frame_reg: "reg ports = Some ports' \<Longrightarrow> p \<notin> touched \<Longrightarrow> ports' p = ports p"
    and total_reg: "touched \<subseteq> dom ports \<Longrightarrow> reg ports \<noteq> None"
begin

lemma frame_access:
  assumes "reg ports = Some ports'" "p \<notin> touched"
  shows "port_read8 p ports' m = port_read8 p ports m" "port_read16 p ports' m = port_read16 p ports m"
    "port_read32 p ports' m = port_read32 p ports m" "port_write8 p x ports' m = port_write8 p x ports m"
    "port_write16 p x ports' m = port_write16 p x ports m"
    "port_write32 p x ports' m = port_write32 p x ports m"
  using frame_reg [OF assms] by (simp_all add: port_access_defs)

end

interpretation rr: port_registration "register_read port_addr device r8 r16 r32" "{port_addr}"
  for port_addr device r8 r16 r32
  by unfold_locales (auto simp: register_read_def split: option.splits if_splits)

interpretation rw: port_registration "register_write port_addr device w8 w16 w32" "{port_addr}"
  for port_addr device w8 w16 w32
  by unfold_locales (auto simp: register_write_def split: option.splits if_splits)

lemma range_in_dom: "{p..<q} \<subseteq> dom (ports :: 'm ports) \<Longrightarrow> p \<le> i \<Longrightarrow> i < q \<Longrightarrow> i \<in> dom ports"
  by (meson atLeastLessThan_iff subsetD)

lemma unregister_range_spec:
  assumes "{port..<port + n} \<subseteq> dom ports"
  shows "\<exists>ports'. unregister_range port n device ports = Some ports' \<and>
    (\<forall>p. ports' p = (case ports p of
        Some e \<Rightarrow> Some (if port \<le> p \<and> p < port + n \<and> pe_device e = Some device
                       then create_empty_entry else e)
      | None \<Rightarrow> None))"
  using assms
proof (induction n arbitrary: port ports)
  case 0
  then show ?case by (auto split: option.splits)
next
  case (Suc n)
  then have "port \<in> dom ports" by (simp add: range_in_dom)
  then obtain e where e: "ports port = Some e" by auto
  define q where "q = (if pe_device e = Some device then ports(port \<mapsto> create_empty_entry) else ports)"
  have "dom q = dom ports" using e by (auto simp: q_def)
  then have "{Suc port..<Suc port + n} \<subseteq> dom q" using Suc.prems by (simp add: subset_eq)
  from Suc.IH [OF this] obtain ports' where
    p: "unregister_range (Suc port) n device q = Some ports'"
      "\<And>p. ports' p = (case q p of
        Some e \<Rightarrow> Some (if Suc port \<le> p \<and> p < Suc port + n \<and> pe_device e = Some device
                       then create_empty_entry else e)
      | None \<Rightarrow> None)" by blast
  have "unregister_range port (Suc n) device ports = Some ports'"
    using p(1) e by (simp add: q_def)
  moreover have "ports' p = (case ports p of
        Some e \<Rightarrow> Some (if port \<le> p \<and> p < port + Suc n \<and> pe_device e = Some device
                       then create_empty_entry else e)
      | None \<Rightarrow> None)" for p
    using p(2) [of p] e by (cases "p = port") (auto simp: q_def split: option.splits)
  ultimately show ?case by blast
qed

section \<open>Properties\<close>

text \<open>
  After \<open>register_read_consecutive\<close> on four ports of the table, a 32-bit read of
  the first port makes the four byte reads in order, on the state that each leaves, and returns
  them as one little-endian value, and a 16-bit read of the first or third port does the same
  with two bytes.
\<close>

theorem read_consecutive_little_endian:
  assumes "{p..<p + 4} \<subseteq> dom ports"
  shows "\<exists>ports'. register_read_consecutive p device a b (Some (c, d)) ports = Some ports' \<and>
    port_read32 p ports' m =
      (let (x, m1) = the (port_read8 p ports' m); (y, m2) = the (port_read8 (p + 1) ports' m1);
           (z, m3) = the (port_read8 (p + 2) ports' m2); (w, m4) = the (port_read8 (p + 3) ports' m3)
       in Some (x OR push_bit 8 y OR push_bit 16 z OR push_bit 24 w, m4)) \<and>
    port_read16 (p + 2) ports' m =
      (let (z, m1) = the (port_read8 (p + 2) ports' m); (w, m2) = the (port_read8 (p + 3) ports' m1)
       in Some (z OR push_bit 8 w, m2)) \<and>
    port_read16 p ports' m =
      (let (x, m1) = the (port_read8 p ports' m); (y, m2) = the (port_read8 (p + 1) ports' m1)
       in Some (x OR push_bit 8 y, m2))"
proof -
  have "p \<in> dom ports" "p + 1 \<in> dom ports" "p + 2 \<in> dom ports" "p + 3 \<in> dom ports"
    using range_in_dom [OF assms] by simp_all
  then obtain e0 e1 e2 e3 where
    "ports p = Some e0" "ports (Suc p) = Some e1" "ports (p + 2) = Some e2" "ports (p + 3) = Some e3"
    by auto
  then show ?thesis
    by (simp add: register_read_consecutive_def register_read_def port_access_defs r16_pair_def
        r32_quad_def Let_def split_beta)
qed

theorem read_consecutive_little_endian_witness:
  "\<exists>ports'. register_read_consecutive 0xCF8 1 (\<lambda>m. (1, m)) (\<lambda>m. (2, m)) (Some (\<lambda>m. (3, m), \<lambda>m. (4, m)))
      IO_ports = Some ports' \<and> port_read32 0xCF8 ports' () = Some (0x04030201, ())"
proof -
  have "{0xCF8..<0xCF8 + 4} \<subseteq> dom IO_ports" by (auto simp: IO_ports_def)
  from read_consecutive_little_endian [OF this, of 1 "\<lambda>m. (1, m)" "\<lambda>m. (2, m)" "\<lambda>m. (3, m)" "\<lambda>m. (4, m)" "()"]
  show ?thesis
    by (auto simp: register_read_consecutive_def register_read_def port_access_defs r32_quad_def)
qed

text \<open>
  \<open>unregister_range\<close> over ports of the table succeeds and gives back exactly the
  ports of the range that the device owned: those read as an empty port, every other port of the
  table, inside or outside the range, keeps its handlers.
\<close>

theorem unregister_range_exact:
  assumes "{port..<port + n} \<subseteq> dom ports"
  shows "\<exists>ports'. unregister_range port n device ports = Some ports' \<and>
    (\<forall>p e. ports p = Some e \<longrightarrow>
       (if port \<le> p \<and> p < port + n \<and> pe_device e = Some device
        then port_read8 p ports' m = Some (0xFF, m) \<and> port_write8 p x ports' m = Some m
        else ports' p = Some e))"
  using unregister_range_spec [OF assms, of device]
  by (fastforce simp: port_access_defs create_empty_entry_def empty_port_read8_def empty_port_write_def)

theorem unregister_range_exact_witness:
  "\<exists>ports'. unregister_range 0x600 16 7 IO_ports = Some ports' \<and> (ports' 0x604 :: unit port_entry option) = Some create_empty_entry"
proof -
  have "{0x600..<0x600 + 16} \<subseteq> dom (IO_ports :: unit ports)" by (auto simp: IO_ports_def)
  from unregister_range_exact [OF this, where device = 7 and x = 0 and m = "()"] obtain ports' where
    u: "unregister_range 0x600 16 7 (IO_ports :: unit ports) = Some ports'" and
    s: "\<forall>p e. (IO_ports :: unit ports) p = Some e \<longrightarrow>
       (if 0x600 \<le> p \<and> p < 0x600 + 16 \<and> pe_device e = Some 7
        then port_read8 p ports' () = Some (0xFF, ()) \<and> port_write8 p 0 ports' () = Some ()
        else ports' p = Some e)" by blast
  from s [rule_format, of "0x604" create_empty_entry] u show ?thesis
    by (simp add: create_empty_entry_def)
qed

end
