(* ===== verification/Device.thy ===== *)
theory Device
  imports Io_Ports
begin

text \<open>
  What the device models share: runs of a device over a sequence of events (port accesses, bus
  messages, timer ticks), reachable states, a locale for invariants of reachable states, and the
  lifting of a device's handlers to the state of a machine that contains the device.
\<close>

section \<open>Runs and reachable states\<close>

fun run :: "('e \<Rightarrow> 's \<Rightarrow> 's) \<Rightarrow> 'e list \<Rightarrow> 's \<Rightarrow> 's" where
  "run step [] s = s"
| "run step (e # es) s = run step es (step e s)"

inductive reachable :: "('e \<Rightarrow> bool) \<Rightarrow> ('e \<Rightarrow> 's \<Rightarrow> 's) \<Rightarrow> 's \<Rightarrow> 's \<Rightarrow> bool"
  for ok :: "'e \<Rightarrow> bool" and step :: "'e \<Rightarrow> 's \<Rightarrow> 's" and init :: 's where
  start: "reachable ok step init init"
| step: "reachable ok step init s \<Longrightarrow> ok e \<Longrightarrow> reachable ok step init (step e s)"

lemma reachable_run:
  "reachable ok step init s \<Longrightarrow> list_all ok es \<Longrightarrow> reachable ok step init (run step es s)"
  by (induction es arbitrary: s) (auto intro: reachable.step)

lemma run_append: "run step (es @ fs) s = run step fs (run step es s)"
  by (induction es arbitrary: s) auto

text \<open>A device whose events keep an invariant; \<open>ok\<close> is what the environment guarantees.\<close>

locale device_machine =
  fixes ok :: "'e \<Rightarrow> bool"
    and step :: "'e \<Rightarrow> 's \<Rightarrow> 's"
    and init :: 's
    and inv :: "'s \<Rightarrow> bool"
  assumes inv_init: "inv init"
    and inv_step: "ok e \<Longrightarrow> inv s \<Longrightarrow> inv (step e s)"
begin

lemma reachable_inv: "reachable ok step init s \<Longrightarrow> inv s"
  by (induction rule: reachable.induct) (simp_all add: inv_init inv_step)

lemma run_inv: "list_all ok es \<Longrightarrow> inv (run step es init)"
  by (rule reachable_inv) (rule reachable_run [OF reachable.start])

end

section \<open>Handlers of a device inside a machine\<close>

definition lift_read ::
  "('m \<Rightarrow> 'd) \<Rightarrow> ('d \<Rightarrow> 'm \<Rightarrow> 'm) \<Rightarrow> ('d \<Rightarrow> i32 \<times> 'd) \<Rightarrow> 'm port_read" where
  "lift_read get put f p m = (let (x, d) = f (get m) in (x, put d m))"

definition lift_write ::
  "('m \<Rightarrow> 'd) \<Rightarrow> ('d \<Rightarrow> 'm \<Rightarrow> 'm) \<Rightarrow> (i32 \<Rightarrow> 'd \<Rightarrow> 'd) \<Rightarrow> 'm port_write" where
  "lift_write get put f x m = put (f x (get m)) m"

lemmas lift_defs = lift_read_def lift_write_def

end
