(* ===== verification/Io_Mmap.thy ===== *)
theory Io_Mmap
  imports Device "HOL-Library.Monad_Syntax"
begin

text \<open>
  The memory-mapped half of \<open>src/io.js\<close> and the accesses of \<open>src/cpu.js\<close> that go
  through it: the memory map of 128 KB blocks, and the exact ranges inside a block that
  \<open>mmap_register_range\<close> adds. A handler is a function on the state \<open>'m\<close> of the
  machine; a call of an \<open>undefined\<close> entry, which raises a TypeError, is None.
\<close>

section \<open>The memory map\<close>

type_synonym 'm mmio_read = "int \<Rightarrow> 'm \<Rightarrow> i32 \<times> 'm"
type_synonym 'm mmio_write = "int \<Rightarrow> i32 \<Rightarrow> 'm \<Rightarrow> 'm"

abbreviation (input) MMAP_BLOCK_BITS :: nat where "MMAP_BLOCK_BITS \<equiv> 17"
abbreviation (input) MMAP_BLOCK_SIZE :: int where "MMAP_BLOCK_SIZE \<equiv> 131072"
abbreviation (input) MMAP_MAX :: int where "MMAP_MAX \<equiv> 4294967296"

text \<open>\<open>addr >>> 0\<close> and \<open>addr >>> MMAP_BLOCK_BITS\<close>.\<close>

definition to_uint32 :: "int \<Rightarrow> int" where
  "to_uint32 addr = addr mod 4294967296"

definition block_of :: "int \<Rightarrow> nat" where
  "block_of addr = nat (to_uint32 addr div 131072)"

text \<open>
  The four handlers of a block. A missing 32-bit handler is the shim, which looks the 8-bit
  handler of the block up when it is called.
\<close>

record 'm mmio_handlers =
  h_read8 :: "'m mmio_read"
  h_write8 :: "'m mmio_write"
  h_read32 :: "'m mmio_read option"
  h_write32 :: "'m mmio_write option"

record 'm mmio_range =
  r_start :: int
  r_end :: int
  r_owner :: nat
  r_read8 :: "'m mmio_read"
  r_write8 :: "'m mmio_write"
  r_read32 :: "'m mmio_read option"
  r_write32 :: "'m mmio_write option"

record 'm shared_block =
  ranges :: "'m mmio_range list"
  background :: "'m mmio_handlers option"

text \<open>
  An entry of the four arrays \<open>memory_map_*\<close>: undefined (memory), the handlers of a
  device, or the closures that \<open>install_block_dispatch\<close> makes over the shared block of
  the same index.
\<close>

datatype 'm mmap_slot = Undefined | Plain "'m mmio_handlers" | Dispatch

record 'm mmap =
  memory_map :: "nat \<Rightarrow> 'm mmap_slot"
  mmio_blocks :: "nat \<rightharpoonup> 'm shared_block"

definition slot_handlers :: "'m mmap_slot \<Rightarrow> 'm mmio_handlers option" where
  "slot_handlers x = (case x of Plain h \<Rightarrow> Some h | _ \<Rightarrow> None)"

definition handlers_slot :: "'m mmio_handlers option \<Rightarrow> 'm mmap_slot" where
  "handlers_slot x = (case x of None \<Rightarrow> Undefined | Some h \<Rightarrow> Plain h)"

section \<open>Registration\<close>

text \<open>One round of the loop of \<open>mmap_register\<close>.\<close>

definition set_block :: "'m mmio_handlers \<Rightarrow> nat \<Rightarrow> 'm mmap \<Rightarrow> 'm mmap" where
  "set_block h b mm =
     (case mmio_blocks mm b of
        Some sh \<Rightarrow> mm\<lparr>mmio_blocks := (mmio_blocks mm)(b \<mapsto> sh\<lparr>background := Some h\<rparr>)\<rparr>
      | None \<Rightarrow> mm\<lparr>memory_map := (memory_map mm)(b := Plain h)\<rparr>)"

function set_blocks :: "'m mmio_handlers \<Rightarrow> nat \<Rightarrow> int \<Rightarrow> 'm mmap \<Rightarrow> 'm mmap" where
  "set_blocks h b sz mm =
     (if 0 < sz then set_blocks h (b + 1) (sz - MMAP_BLOCK_SIZE) (set_block h b mm) else mm)"
  by pat_completeness auto
termination
  by (relation "measure (\<lambda>(h, b, sz, mm). nat sz)") auto

declare set_blocks.simps [simp del]

definition mmap_register ::
  "int \<Rightarrow> int \<Rightarrow> 'm mmio_read \<Rightarrow> 'm mmio_write \<Rightarrow> 'm mmio_read option \<Rightarrow> 'm mmio_write option \<Rightarrow>
   'm mmap \<Rightarrow> 'm mmap" where
  "mmap_register addr sz read_func8 write_func8 read_func32 write_func32 mm =
     set_blocks \<lparr>h_read8 = read_func8, h_write8 = write_func8, h_read32 = read_func32, h_write32 = write_func32\<rparr>
       (block_of addr) sz mm"

text \<open>One round of the loop of \<open>mmap_register_range\<close>; \<open>install_block_dispatch\<close>
  writes the slot.\<close>

definition install_block_dispatch :: "nat \<Rightarrow> 'm mmap \<Rightarrow> 'm mmap" where
  "install_block_dispatch b mm = mm\<lparr>memory_map := (memory_map mm)(b := Dispatch)\<rparr>"

definition add_range :: "'m mmio_range \<Rightarrow> nat \<Rightarrow> 'm mmap \<Rightarrow> 'm mmap" where
  "add_range rng b mm =
     (let mm1 = (case mmio_blocks mm b of
          Some sh \<Rightarrow> mm
        | None \<Rightarrow> install_block_dispatch b (mm\<lparr>mmio_blocks := (mmio_blocks mm)(b \<mapsto>
              \<lparr>ranges = [], background = slot_handlers (memory_map mm b)\<rparr>)\<rparr>))
      in case mmio_blocks mm1 b of
           Some sh \<Rightarrow> mm1\<lparr>mmio_blocks := (mmio_blocks mm1)(b \<mapsto> sh\<lparr>ranges := ranges sh @ [rng]\<rparr>)\<rparr>
         | None \<Rightarrow> mm1)"

definition blocks_of :: "int \<Rightarrow> int \<Rightarrow> nat list" where
  "blocks_of addr sz = [block_of addr ..< block_of (addr + sz - 1) + 1]"

definition mmap_register_range ::
  "int \<Rightarrow> int \<Rightarrow> nat \<Rightarrow> 'm mmio_read \<Rightarrow> 'm mmio_write \<Rightarrow> 'm mmio_read option \<Rightarrow> 'm mmio_write option \<Rightarrow>
   'm mmap \<Rightarrow> 'm mmap" where
  "mmap_register_range addr0 sz owner read8 write8 read32 write32 mm =
     (let addr = to_uint32 addr0;
          rng = \<lparr>r_start = addr, r_end = addr + sz, r_owner = owner, r_read8 = read8, r_write8 = write8,
                   r_read32 = read32, r_write32 = write32\<rparr>
      in fold (add_range rng) (blocks_of addr sz) mm)"

definition remove_range :: "int \<Rightarrow> nat \<Rightarrow> nat \<Rightarrow> 'm mmap \<Rightarrow> 'm mmap" where
  "remove_range addr owner b mm =
     (case mmio_blocks mm b of
        None \<Rightarrow> mm
      | Some sh \<Rightarrow>
          let rs = filter (\<lambda>r. r_owner r \<noteq> owner \<or> r_start r \<noteq> addr) (ranges sh)
          in if rs = []
             then \<lparr>memory_map = (memory_map mm)(b := handlers_slot (background sh)),
                   mmio_blocks = (mmio_blocks mm)(b := None)\<rparr>
             else mm\<lparr>mmio_blocks := (mmio_blocks mm)(b \<mapsto> sh\<lparr>ranges := rs\<rparr>)\<rparr>)"

definition mmap_unregister_range :: "int \<Rightarrow> int \<Rightarrow> nat \<Rightarrow> 'm mmap \<Rightarrow> 'm mmap" where
  "mmap_unregister_range addr0 sz owner mm =
     (let addr = to_uint32 addr0 in fold (remove_range addr owner) (blocks_of addr sz) mm)"

text \<open>The handlers of the address space above the memory, and the map the constructor makes.\<close>

definition unmapped_read8 :: "'m mmio_read" where "unmapped_read8 addr m = (0xFF, m)"
definition unmapped_write :: "'m mmio_write" where "unmapped_write addr v m = m"
definition unmapped_read32 :: "'m mmio_read" where "unmapped_read32 addr m = (-1, m)"

definition mmap_unregister :: "int \<Rightarrow> int \<Rightarrow> 'm mmap \<Rightarrow> 'm mmap" where
  "mmap_unregister addr sz = mmap_register addr sz unmapped_read8 unmapped_write (Some unmapped_read32) (Some unmapped_write)"

definition IO_mmap :: "int \<Rightarrow> 'm mmap" where
  "IO_mmap memory_size =
     mmap_register memory_size (MMAP_MAX - memory_size) unmapped_read8 unmapped_write (Some unmapped_read32)
       (Some unmapped_write) \<lparr>memory_map = (\<lambda>_. Undefined), mmio_blocks = Map.empty\<rparr>"

section \<open>Accesses\<close>

definition find_range :: "int \<Rightarrow> 'm mmio_range list \<Rightarrow> 'm mmio_range option" where
  "find_range addr rs = find (\<lambda>r. r_start r \<le> addr \<and> addr < r_end r) rs"

definition dispatch_read8 :: "'m shared_block \<Rightarrow> int \<Rightarrow> 'm \<Rightarrow> (i32 \<times> 'm) option" where
  "dispatch_read8 sh addr m =
     (case find_range (to_uint32 addr) (ranges sh) of
        Some rng \<Rightarrow> Some (r_read8 rng (to_uint32 addr) m)
      | None \<Rightarrow> map_option (\<lambda>h. h_read8 h addr m) (background sh))"

definition dispatch_write8 :: "'m shared_block \<Rightarrow> int \<Rightarrow> i32 \<Rightarrow> 'm \<Rightarrow> 'm option" where
  "dispatch_write8 sh addr v m =
     (case find_range (to_uint32 addr) (ranges sh) of
        Some rng \<Rightarrow> Some (r_write8 rng (to_uint32 addr) v m)
      | None \<Rightarrow> map_option (\<lambda>h. h_write8 h addr v m) (background sh))"

text \<open>The entry \<open>memory_map_read8[b]\<close> applied to an address, and the one for writes.\<close>

definition slot_read8 :: "'m mmap \<Rightarrow> nat \<Rightarrow> int \<Rightarrow> 'm \<Rightarrow> (i32 \<times> 'm) option" where
  "slot_read8 mm b addr m =
     (case memory_map mm b of
        Undefined \<Rightarrow> None
      | Plain h \<Rightarrow> Some (h_read8 h addr m)
      | Dispatch \<Rightarrow> (case mmio_blocks mm b of None \<Rightarrow> None | Some sh \<Rightarrow> dispatch_read8 sh addr m))"

definition slot_write8 :: "'m mmap \<Rightarrow> nat \<Rightarrow> int \<Rightarrow> i32 \<Rightarrow> 'm \<Rightarrow> 'm option" where
  "slot_write8 mm b addr v m =
     (case memory_map mm b of
        Undefined \<Rightarrow> None
      | Plain h \<Rightarrow> Some (h_write8 h addr v m)
      | Dispatch \<Rightarrow> (case mmio_blocks mm b of None \<Rightarrow> None | Some sh \<Rightarrow> dispatch_write8 sh addr v m))"

text \<open>Four byte accesses in ascending order.\<close>

definition read_bytes4 :: "(int \<Rightarrow> 'm \<Rightarrow> (i32 \<times> 'm) option) \<Rightarrow> int \<Rightarrow> 'm \<Rightarrow> (i32 \<times> 'm) option" where
  "read_bytes4 f addr m = do {
     (b0, m) \<leftarrow> f addr m;
     (b1, m) \<leftarrow> f (addr + 1) m;
     (b2, m) \<leftarrow> f (addr + 2) m;
     (b3, m) \<leftarrow> f (addr + 3) m;
     Some (b0 OR push_bit 8 b1 OR push_bit 16 b2 OR push_bit 24 b3, m) }"

definition write_bytes4 :: "(int \<Rightarrow> i32 \<Rightarrow> 'm \<Rightarrow> 'm option) \<Rightarrow> int \<Rightarrow> i32 \<Rightarrow> 'm \<Rightarrow> 'm option" where
  "write_bytes4 f addr v m = do {
     m \<leftarrow> f addr (v AND 0xFF) m;
     m \<leftarrow> f (addr + 1) (drop_bit 8 v AND 0xFF) m;
     m \<leftarrow> f (addr + 2) (drop_bit 16 v AND 0xFF) m;
     f (addr + 3) (drop_bit 24 v AND 0xFF) m }"

definition mmap_read32_shim :: "'m mmap \<Rightarrow> int \<Rightarrow> 'm \<Rightarrow> (i32 \<times> 'm) option" where
  "mmap_read32_shim mm addr m = read_bytes4 (slot_read8 mm (block_of addr)) addr m"

definition mmap_write32_shim :: "'m mmap \<Rightarrow> int \<Rightarrow> i32 \<Rightarrow> 'm \<Rightarrow> 'm option" where
  "mmap_write32_shim mm addr v m = write_bytes4 (slot_write8 mm (block_of addr)) addr v m"

definition handlers_read32 :: "'m mmap \<Rightarrow> 'm mmio_handlers \<Rightarrow> int \<Rightarrow> 'm \<Rightarrow> (i32 \<times> 'm) option" where
  "handlers_read32 mm h addr m =
     (case h_read32 h of Some f \<Rightarrow> Some (f addr m) | None \<Rightarrow> mmap_read32_shim mm addr m)"

definition handlers_write32 :: "'m mmap \<Rightarrow> 'm mmio_handlers \<Rightarrow> int \<Rightarrow> i32 \<Rightarrow> 'm \<Rightarrow> 'm option" where
  "handlers_write32 mm h addr v m =
     (case h_write32 h of Some f \<Rightarrow> Some (f addr v m) | None \<Rightarrow> mmap_write32_shim mm addr v m)"

text \<open>A dword that one range holds whole and aligned, and one that no range touches.\<close>

definition whole_in :: "int \<Rightarrow> 'm mmio_range \<Rightarrow> bool" where
  "whole_in start rng \<longleftrightarrow> start + 4 \<le> r_end rng \<and> start mod 4 = 0"

definition untouched4 :: "int \<Rightarrow> 'm mmio_range list \<Rightarrow> bool" where
  "untouched4 start rs \<longleftrightarrow> find_range start rs = None \<and> find_range (start + 3) rs = None \<and>
     find_range (start + 1) rs = None \<and> find_range (start + 2) rs = None"

definition dispatch_read32 :: "'m mmap \<Rightarrow> 'm shared_block \<Rightarrow> int \<Rightarrow> 'm \<Rightarrow> (i32 \<times> 'm) option" where
  "dispatch_read32 mm sh addr m =
     (let start = to_uint32 addr;
          split = (if untouched4 start (ranges sh)
                   then Option.bind (background sh) (\<lambda>h. handlers_read32 mm h addr m)
                   else read_bytes4 (dispatch_read8 sh) addr m)
      in case find_range start (ranges sh) of
           Some rng \<Rightarrow> (case r_read32 rng of
               Some f \<Rightarrow> if whole_in start rng then Some (f start m) else split
             | None \<Rightarrow> split)
         | None \<Rightarrow> split)"

definition dispatch_write32 :: "'m mmap \<Rightarrow> 'm shared_block \<Rightarrow> int \<Rightarrow> i32 \<Rightarrow> 'm \<Rightarrow> 'm option" where
  "dispatch_write32 mm sh addr v m =
     (let start = to_uint32 addr;
          split = (if untouched4 start (ranges sh)
                   then Option.bind (background sh) (\<lambda>h. handlers_write32 mm h addr v m)
                   else write_bytes4 (dispatch_write8 sh) addr v m)
      in case find_range start (ranges sh) of
           Some rng \<Rightarrow> (case r_write32 rng of
               Some f \<Rightarrow> if whole_in start rng then Some (f start v m) else split
             | None \<Rightarrow> split)
         | None \<Rightarrow> split)"

definition slot_read32 :: "'m mmap \<Rightarrow> nat \<Rightarrow> int \<Rightarrow> 'm \<Rightarrow> (i32 \<times> 'm) option" where
  "slot_read32 mm b addr m =
     (case memory_map mm b of
        Undefined \<Rightarrow> None
      | Plain h \<Rightarrow> handlers_read32 mm h addr m
      | Dispatch \<Rightarrow> (case mmio_blocks mm b of None \<Rightarrow> None | Some sh \<Rightarrow> dispatch_read32 mm sh addr m))"

definition slot_write32 :: "'m mmap \<Rightarrow> nat \<Rightarrow> int \<Rightarrow> i32 \<Rightarrow> 'm \<Rightarrow> 'm option" where
  "slot_write32 mm b addr v m =
     (case memory_map mm b of
        Undefined \<Rightarrow> None
      | Plain h \<Rightarrow> handlers_write32 mm h addr v m
      | Dispatch \<Rightarrow> (case mmio_blocks mm b of None \<Rightarrow> None | Some sh \<Rightarrow> dispatch_write32 mm sh addr v m))"

text \<open>The accesses of the CPU.\<close>

definition mmap_read8 :: "'m mmap \<Rightarrow> int \<Rightarrow> 'm \<Rightarrow> (i32 \<times> 'm) option" where
  "mmap_read8 mm addr m = slot_read8 mm (block_of addr) addr m"

definition mmap_write8 :: "'m mmap \<Rightarrow> int \<Rightarrow> i32 \<Rightarrow> 'm \<Rightarrow> 'm option" where
  "mmap_write8 mm addr v m = slot_write8 mm (block_of addr) addr v m"

definition mmap_write16 :: "'m mmap \<Rightarrow> int \<Rightarrow> i32 \<Rightarrow> 'm \<Rightarrow> 'm option" where
  "mmap_write16 mm addr v m = do {
     m \<leftarrow> slot_write8 mm (block_of addr) addr (v AND 0xFF) m;
     slot_write8 mm (block_of addr) (sint (word_of_int (addr + 1) :: i32)) (signed_drop_bit 8 v) m }"

definition mmap_read32 :: "'m mmap \<Rightarrow> int \<Rightarrow> 'm \<Rightarrow> (i32 \<times> 'm) option" where
  "mmap_read32 mm addr m = slot_read32 mm (block_of addr) addr m"

definition mmap_write32 :: "'m mmap \<Rightarrow> int \<Rightarrow> i32 \<Rightarrow> 'm \<Rightarrow> 'm option" where
  "mmap_write32 mm addr v m = slot_write32 mm (block_of addr) addr v m"

definition mmap_write64 :: "'m mmap \<Rightarrow> int \<Rightarrow> i32 \<Rightarrow> i32 \<Rightarrow> 'm \<Rightarrow> 'm option" where
  "mmap_write64 mm addr v0 v1 m = do {
     m \<leftarrow> slot_write32 mm (block_of addr) addr v0 m;
     slot_write32 mm (block_of addr) (addr + 4) v1 m }"

definition mmap_write128 :: "'m mmap \<Rightarrow> int \<Rightarrow> i32 \<Rightarrow> i32 \<Rightarrow> i32 \<Rightarrow> i32 \<Rightarrow> 'm \<Rightarrow> 'm option" where
  "mmap_write128 mm addr v0 v1 v2 v3 m = do {
     m \<leftarrow> slot_write32 mm (block_of addr) addr v0 m;
     m \<leftarrow> slot_write32 mm (block_of addr) (addr + 4) v1 m;
     m \<leftarrow> slot_write32 mm (block_of addr) (addr + 8) v2 m;
     slot_write32 mm (block_of addr) (addr + 12) v3 m }"

section \<open>Changes of the map\<close>

datatype 'm mmap_event =
    MmapRegister int int "'m mmio_read" "'m mmio_write" "'m mmio_read option" "'m mmio_write option"
  | MmapUnregister int int
  | MmapRegisterRange int int nat "'m mmio_read" "'m mmio_write" "'m mmio_read option" "'m mmio_write option"
  | MmapUnregisterRange int int nat

fun mmap_step :: "'m mmap_event \<Rightarrow> 'm mmap \<Rightarrow> 'm mmap" where
  "mmap_step (MmapRegister a sz r8 w8 r32 w32) mm = mmap_register a sz r8 w8 r32 w32 mm"
| "mmap_step (MmapUnregister a sz) mm = mmap_unregister a sz mm"
| "mmap_step (MmapRegisterRange a sz owner r8 w8 r32 w32) mm = mmap_register_range a sz owner r8 w8 r32 w32 mm"
| "mmap_step (MmapUnregisterRange a sz owner) mm = mmap_unregister_range a sz owner mm"

section \<open>Well-formed maps\<close>

text \<open>
  The dispatching closures are installed exactly on the blocks that have ranges. This is what the
  reading of a slot as the closure over the current shared block rests on.
\<close>

definition mmap_wf :: "'m mmap \<Rightarrow> bool" where
  "mmap_wf mm \<longleftrightarrow>
     (\<forall>b. memory_map mm b = Dispatch \<longleftrightarrow> mmio_blocks mm b \<noteq> None) \<and>
     (\<forall>b sh. mmio_blocks mm b = Some sh \<longrightarrow> ranges sh \<noteq> [])"

definition with_range :: "'m mmio_range \<Rightarrow> 'm mmap \<Rightarrow> nat \<Rightarrow> 'm shared_block" where
  "with_range rng mm b =
     (case mmio_blocks mm b of
        Some sh \<Rightarrow> sh\<lparr>ranges := ranges sh @ [rng]\<rparr>
      | None \<Rightarrow> \<lparr>ranges = [rng], background = slot_handlers (memory_map mm b)\<rparr>)"

lemma add_range_eq:
  assumes "mmap_wf mm"
  shows "add_range rng b mm =
    \<lparr>memory_map = (memory_map mm)(b := Dispatch), mmio_blocks = (mmio_blocks mm)(b \<mapsto> with_range rng mm b)\<rparr>"
proof (cases "mmio_blocks mm b")
  case None
  then show ?thesis by (simp add: add_range_def install_block_dispatch_def with_range_def Let_def)
next
  case (Some sh)
  then have "(memory_map mm)(b := Dispatch) = memory_map mm"
    using assms by (simp add: mmap_wf_def fun_upd_idem_iff)
  with Some show ?thesis by (simp add: add_range_def with_range_def)
qed

lemma add_range_wf: "mmap_wf mm \<Longrightarrow> mmap_wf (add_range rng b mm)"
  by (auto simp: add_range_eq) (auto simp: mmap_wf_def with_range_def split: option.splits)

text \<open>The loop over the blocks of a range, read block by block.\<close>

lemma fold_add_range_wf: "mmap_wf mm \<Longrightarrow> mmap_wf (fold (add_range rng) bs mm)"
  by (induction bs arbitrary: mm) (simp_all add: add_range_wf)

lemma fold_add_range:
  assumes "mmap_wf mm" "distinct bs"
  shows "fold (add_range rng) bs mm =
      \<lparr>memory_map = (\<lambda>b. if b \<in> set bs then Dispatch else memory_map mm b),
       mmio_blocks = (\<lambda>b. if b \<in> set bs then Some (with_range rng mm b) else mmio_blocks mm b)\<rparr>"
  using assms
proof (induction bs arbitrary: mm)
  case (Cons b bs)
  have wf: "mmap_wf (add_range rng b mm)" using Cons.prems(1) by (rule add_range_wf)
  have d: "distinct bs" "b \<notin> set bs" using Cons.prems(2) by simp_all
  have w: "x \<in> set bs \<Longrightarrow> with_range rng (add_range rng b mm) x = with_range rng mm x" for x
    using Cons.prems(1) d(2) by (cases "x = b") (simp_all add: with_range_def add_range_eq split: option.split)
  show ?case
    using Cons.IH [OF wf d(1)] d(2) w
    by (auto simp: fun_eq_iff add_range_eq [OF Cons.prems(1)])
qed simp

lemma remove_range_other:
  "b' \<noteq> b \<Longrightarrow> memory_map (remove_range a owner b mm) b' = memory_map mm b'"
  "b' \<noteq> b \<Longrightarrow> mmio_blocks (remove_range a owner b mm) b' = mmio_blocks mm b'"
  by (auto simp: remove_range_def Let_def split: option.splits)

text \<open>Removing the range just added, block by block.\<close>

definition range_absent :: "int \<Rightarrow> nat \<Rightarrow> nat \<Rightarrow> 'm mmap \<Rightarrow> bool" where
  "range_absent a owner b mm \<longleftrightarrow>
     (\<forall>sh. mmio_blocks mm b = Some sh \<longrightarrow> (\<forall>r \<in> set (ranges sh). r_owner r \<noteq> owner \<or> r_start r \<noteq> a))"

lemma remove_added_block:
  assumes "mmap_wf mm" "range_absent a owner b mm" "r_start rng = a" "r_owner rng = owner"
    "mmio_blocks mm' b = Some (with_range rng mm b)" "memory_map mm' b = Dispatch"
  shows "memory_map (remove_range a owner b mm') b = memory_map mm b"
    "mmio_blocks (remove_range a owner b mm') b = mmio_blocks mm b"
proof -
  show "mmio_blocks (remove_range a owner b mm') b = mmio_blocks mm b"
    using assms by (cases "mmio_blocks mm b") (auto simp: remove_range_def with_range_def Let_def range_absent_def mmap_wf_def filter_id_conv)
  show "memory_map (remove_range a owner b mm') b = memory_map mm b"
  proof (cases "mmio_blocks mm b")
    case None
    then have "memory_map mm b \<noteq> Dispatch" using assms(1) by (simp add: mmap_wf_def)
    then have "handlers_slot (slot_handlers (memory_map mm b)) = memory_map mm b"
      by (simp add: handlers_slot_def slot_handlers_def split: mmap_slot.splits)
    with None assms show ?thesis by (simp add: remove_range_def with_range_def)
  next
    case (Some sh)
    then have "memory_map mm b = Dispatch" "ranges sh \<noteq> []" using assms(1) by (auto simp: mmap_wf_def)
    moreover have "filter (\<lambda>r. r_owner r \<noteq> owner \<or> r_start r \<noteq> a) (ranges sh) = ranges sh"
      using assms(2) Some by (simp add: range_absent_def filter_id_conv)
    ultimately show ?thesis using Some assms
      by (simp add: remove_range_def with_range_def Let_def)
  qed
qed

lemma fold_remove_range:
  assumes "distinct bs"
  shows "b \<notin> set bs \<Longrightarrow> memory_map (fold (remove_range a owner) bs mm) b = memory_map mm b"
    "b \<notin> set bs \<Longrightarrow> mmio_blocks (fold (remove_range a owner) bs mm) b = mmio_blocks mm b"
    "b \<in> set bs \<Longrightarrow> memory_map (fold (remove_range a owner) bs mm) b = memory_map (remove_range a owner b mm) b"
    "b \<in> set bs \<Longrightarrow> mmio_blocks (fold (remove_range a owner) bs mm) b = mmio_blocks (remove_range a owner b mm) b"
proof -
  have local: "memory_map (remove_range a owner b x) b = memory_map (remove_range a owner b y) b"
    "mmio_blocks (remove_range a owner b x) b = mmio_blocks (remove_range a owner b y) b"
    if "memory_map x b = memory_map y b" "mmio_blocks x b = mmio_blocks y b" for x y :: "'a mmap"
    using that by (simp_all add: remove_range_def Let_def split: option.splits)
  have out: "memory_map (fold (remove_range a owner) bs x) b = memory_map x b"
    "mmio_blocks (fold (remove_range a owner) bs x) b = mmio_blocks x b" if "b \<notin> set bs" for bs and x :: "'a mmap"
    using that by (induction bs arbitrary: x) (simp_all add: remove_range_other)
  then show "b \<notin> set bs \<Longrightarrow> memory_map (fold (remove_range a owner) bs mm) b = memory_map mm b"
    "b \<notin> set bs \<Longrightarrow> mmio_blocks (fold (remove_range a owner) bs mm) b = mmio_blocks mm b" by simp_all
  have "b \<in> set bs \<Longrightarrow>
      memory_map (fold (remove_range a owner) bs mm) b = memory_map (remove_range a owner b mm) b \<and>
      mmio_blocks (fold (remove_range a owner) bs mm) b = mmio_blocks (remove_range a owner b mm) b"
    using assms
  proof (induction bs arbitrary: mm)
    case (Cons c bs)
    show ?case
    proof (cases "b = c")
      case True
      then have "b \<notin> set bs" using Cons.prems(2) by simp
      with True show ?thesis using out [of bs "remove_range a owner b mm"] by simp
    next
      case False
      then have "b \<in> set bs" "distinct bs" using Cons.prems by simp_all
      note * = Cons.IH [OF this, of "remove_range a owner c mm"]
      with False show ?thesis
        using local [of "remove_range a owner c mm" mm] by (simp add: remove_range_other)
    qed
  qed simp
  then show "b \<in> set bs \<Longrightarrow> memory_map (fold (remove_range a owner) bs mm) b = memory_map (remove_range a owner b mm) b"
    "b \<in> set bs \<Longrightarrow> mmio_blocks (fold (remove_range a owner) bs mm) b = mmio_blocks (remove_range a owner b mm) b"
    by simp_all
qed

lemma remove_range_wf: "mmap_wf mm \<Longrightarrow> mmap_wf (remove_range a owner b mm)"
  by (auto simp: mmap_wf_def remove_range_def handlers_slot_def Let_def split: option.splits)

lemma fold_remove_range_wf: "mmap_wf mm \<Longrightarrow> mmap_wf (fold (remove_range a owner) bs mm)"
  by (induction bs arbitrary: mm) (simp_all add: remove_range_wf)

lemma set_block_wf: "mmap_wf mm \<Longrightarrow> mmap_wf (set_block h b mm)"
  by (auto simp: mmap_wf_def set_block_def split: option.splits)

lemma set_blocks_wf: "mmap_wf mm \<Longrightarrow> mmap_wf (set_blocks h b sz mm)"
proof (induction h b sz mm rule: set_blocks.induct)
  case (1 h b sz mm)
  then show ?case by (subst set_blocks.simps) (simp add: set_block_wf)
qed

interpretation mmapm: device_machine "\<lambda>_. True" mmap_step "IO_mmap memory_size" mmap_wf
proof
  show "mmap_wf (IO_mmap memory_size)"
    unfolding IO_mmap_def mmap_register_def by (rule set_blocks_wf) (simp add: mmap_wf_def)
  fix e and mm :: "'a mmap"
  assume "mmap_wf mm"
  then show "mmap_wf (mmap_step e mm)"
    by (cases e) (simp_all add: mmap_register_def mmap_unregister_def mmap_register_range_def
        mmap_unregister_range_def Let_def set_blocks_wf fold_add_range_wf fold_remove_range_wf)
qed

text \<open>Registering whole blocks, one block at a time.\<close>

lemma set_blocks_fold: "set_blocks h b (131072 * int n) mm = fold (set_block h) [b..<b + n] mm"
proof (induction n arbitrary: b mm)
  case 0
  then show ?case by (subst set_blocks.simps) simp
next
  case (Suc n)
  have "131072 * int (Suc n) - 131072 = 131072 * int n" by simp
  with Suc.IH [of "b + 1" "set_block h b mm"] show ?case
    by (subst set_blocks.simps) (simp add: upt_conv_Cons del: of_nat_Suc upt_Suc)
qed

lemma fold_set_block:
  assumes "distinct bs"
  shows "memory_map (fold (set_block h) bs mm) b =
      (if b \<in> set bs \<and> mmio_blocks mm b = None then Plain h else memory_map mm b)"
    "mmio_blocks (fold (set_block h) bs mm) b =
      (if b \<in> set bs then map_option (\<lambda>sh. sh\<lparr>background := Some h\<rparr>) (mmio_blocks mm b) else mmio_blocks mm b)"
proof -
  have one: "memory_map (set_block h c x) b = (if b = c \<and> mmio_blocks x b = None then Plain h else memory_map x b)"
    "mmio_blocks (set_block h c x) b =
      (if b = c then map_option (\<lambda>sh. sh\<lparr>background := Some h\<rparr>) (mmio_blocks x b) else mmio_blocks x b)"
    for c and x :: "'a mmap"
    by (auto simp: set_block_def split: option.splits)
  from assms show "memory_map (fold (set_block h) bs mm) b =
      (if b \<in> set bs \<and> mmio_blocks mm b = None then Plain h else memory_map mm b)"
    "mmio_blocks (fold (set_block h) bs mm) b =
      (if b \<in> set bs then map_option (\<lambda>sh. sh\<lparr>background := Some h\<rparr>) (mmio_blocks mm b) else mmio_blocks mm b)"
    by (induction bs arbitrary: mm) (auto simp: one)
qed

lemma set_blocks_no_ranges: "mmio_blocks mm = Map.empty \<Longrightarrow> mmio_blocks (set_blocks h b sz mm) = Map.empty"
proof (induction h b sz mm rule: set_blocks.induct)
  case (1 h b sz mm)
  then have "mmio_blocks (set_block h b mm) = Map.empty" by (simp add: set_block_def)
  with 1 show ?case by (subst set_blocks.simps) simp
qed

lemma IO_mmap_blocks: "mmio_blocks (IO_mmap n) b = None"
  by (simp add: IO_mmap_def mmap_register_def set_blocks_no_ranges)

section \<open>Properties of the memory map\<close>

text \<open>
  From any memory map the program can build, adding an exact range and removing it gives back the map as it was, in every
  entry of every block, if the owner had no range at this address before: nothing of the
  dispatching closures or of the other ranges is lost.
\<close>

theorem mmap_range_roundtrip:
  assumes "reachable (\<lambda>_. True) mmap_step (IO_mmap memory_size) mm" "\<forall>b. range_absent (to_uint32 addr) owner b mm"
  shows "mmap_unregister_range addr sz owner (mmap_register_range addr sz owner r8 w8 r32 w32 mm) = mm"
proof -
  note wf = mmapm.reachable_inv [OF assms(1)]
  let ?a = "to_uint32 addr" and ?bs = "blocks_of (to_uint32 addr) sz"
  define rng where "rng = \<lparr>r_start = ?a, r_end = ?a + sz, r_owner = owner, r_read8 = r8, r_write8 = w8,
    r_read32 = r32, r_write32 = w32\<rparr>"
  have d: "distinct ?bs" by (simp add: blocks_of_def)
  define mm' where "mm' = fold (add_range rng) ?bs mm"
  have mm': "memory_map mm' b = (if b \<in> set ?bs then Dispatch else memory_map mm b)"
    "mmio_blocks mm' b = (if b \<in> set ?bs then Some (with_range rng mm b) else mmio_blocks mm b)" for b
    by (simp_all add: mm'_def fold_add_range [OF wf d])
  have e: "memory_map (fold (remove_range ?a owner) ?bs mm') b = memory_map mm b"
    "mmio_blocks (fold (remove_range ?a owner) ?bs mm') b = mmio_blocks mm b" for b
    using fold_remove_range [OF d, of b ?a owner mm'] mm' [of b]
      remove_added_block [OF wf, of ?a owner b rng mm'] assms(2)
    by (cases "b \<in> set ?bs"; simp add: rng_def)+
  then have "fold (remove_range ?a owner) ?bs mm' = mm" by (simp add: fun_eq_iff)
  then show ?thesis
    by (simp add: mmap_unregister_range_def mmap_register_range_def Let_def mm'_def rng_def)
qed

theorem mmap_range_roundtrip_witness:
  "mmap_unregister_range 0xFED1F000 0x100 7
     (mmap_register_range 0xFED1F000 0x100 7 (\<lambda>a m. (0x42, m)) (\<lambda>a v m. m) None None (IO_mmap 0x100000 :: unit mmap))
   = IO_mmap 0x100000"
  by (rule mmap_range_roundtrip [OF reachable.start]) (simp add: range_absent_def IO_mmap_blocks)

text \<open>The byte access of a block before and after a range is added to it.\<close>

definition in_range :: "int \<Rightarrow> 'm mmio_range \<Rightarrow> bool" where
  "in_range a rng \<longleftrightarrow> r_start rng \<le> a \<and> a < r_end rng"

lemma find_range_snoc:
  "find_range a (rs @ [rng]) = (case find_range a rs of Some r \<Rightarrow> Some r | None \<Rightarrow> if in_range a rng then Some rng else None)"
  by (induction rs) (simp_all add: find_range_def in_range_def)

lemma find_range_None: "find_range a rs = None \<longleftrightarrow> (\<forall>r \<in> set rs. \<not> in_range a r)"
  by (auto simp: find_range_def find_None_iff in_range_def)

lemma find_range_disjoint:
  assumes "\<forall>r \<in> set rs. r_end r \<le> r_start rng \<or> r_end rng \<le> r_start r" "in_range a rng"
  shows "find_range a rs = None"
  using assms by (force simp: find_range_None in_range_def)

lemma add_block_access:
  assumes wf: "mmap_wf mm" and "memory_map mm' b = Dispatch" "mmio_blocks mm' b = Some (with_range rng mm b)"
    and disj: "\<And>sh. mmio_blocks mm b = Some sh \<Longrightarrow> \<forall>r \<in> set (ranges sh). r_end r \<le> r_start rng \<or> r_end rng \<le> r_start r"
  shows "slot_read8 mm' b a m =
      (if in_range (to_uint32 a) rng then Some (r_read8 rng (to_uint32 a) m) else slot_read8 mm b a m)"
    "slot_write8 mm' b a v m =
      (if in_range (to_uint32 a) rng then Some (r_write8 rng (to_uint32 a) v m) else slot_write8 mm b a v m)"
proof -
  have "(slot_read8 mm' b a m =
      (if in_range (to_uint32 a) rng then Some (r_read8 rng (to_uint32 a) m) else slot_read8 mm b a m)) \<and>
    (slot_write8 mm' b a v m =
      (if in_range (to_uint32 a) rng then Some (r_write8 rng (to_uint32 a) v m) else slot_write8 mm b a v m))"
  proof (cases "mmio_blocks mm b")
    case None
    then have "memory_map mm b \<noteq> Dispatch" using wf by (simp add: mmap_wf_def)
    with None assms(2,3) show ?thesis
      by (auto simp: slot_read8_def slot_write8_def with_range_def dispatch_read8_def dispatch_write8_def
          find_range_def in_range_def slot_handlers_def split: mmap_slot.splits)
  next
    case (Some sh)
    then have "memory_map mm b = Dispatch" using wf by (simp add: mmap_wf_def)
    with Some assms(2,3) show ?thesis
      using find_range_disjoint [OF disj [OF Some], of "to_uint32 a"]
      by (auto simp: slot_read8_def slot_write8_def with_range_def dispatch_read8_def dispatch_write8_def
          find_range_snoc split: option.splits)
  qed
  then show "slot_read8 mm' b a m =
      (if in_range (to_uint32 a) rng then Some (r_read8 rng (to_uint32 a) m) else slot_read8 mm b a m)"
    "slot_write8 mm' b a v m =
      (if in_range (to_uint32 a) rng then Some (r_write8 rng (to_uint32 a) v m) else slot_write8 mm b a v m)"
    by blast+
qed

lemma slot_access_cong:
  "memory_map mm' b = memory_map mm b \<Longrightarrow> mmio_blocks mm' b = mmio_blocks mm b \<Longrightarrow> slot_read8 mm' b a m = slot_read8 mm b a m"
  "memory_map mm' b = memory_map mm b \<Longrightarrow> mmio_blocks mm' b = mmio_blocks mm b \<Longrightarrow> slot_write8 mm' b a v m = slot_write8 mm b a v m"
  by (simp_all add: slot_read8_def slot_write8_def split: mmap_slot.split)

lemma block_of_in_range:
  assumes "0 \<le> s" "s + sz \<le> 4294967296" "s \<le> to_uint32 a" "to_uint32 a < s + sz"
  shows "block_of a \<in> set (blocks_of s sz)"
proof -
  have u: "to_uint32 s = s" "to_uint32 (s + sz - 1) = s + sz - 1" using assms by (simp_all add: to_uint32_def)
  have "s div 131072 \<le> to_uint32 a div 131072" "to_uint32 a div 131072 \<le> (s + sz - 1) div 131072"
    using assms by (auto intro: zdiv_mono1)
  then have "block_of s \<le> block_of a" "block_of a \<le> block_of (s + sz - 1)"
    by (simp_all only: block_of_def u nat_mono)
  then show ?thesis by (auto simp: blocks_of_def)
qed

text \<open>
  Claim C4. Isolation of ranges: in any memory map the program can build, after a range that overlaps no other is registered, a byte access
  inside it goes to its handlers, and an access at every other address of the 32-bit space, in the
  same block or not, is decoded as before.
\<close>

theorem mmap_range_isolated:
  assumes "reachable (\<lambda>_. True) mmap_step (IO_mmap memory_size) mm" "to_uint32 addr + sz \<le> 4294967296"
    "\<forall>b sh r. mmio_blocks mm b = Some sh \<and> r \<in> set (ranges sh) \<longrightarrow>
       r_end r \<le> to_uint32 addr \<or> to_uint32 addr + sz \<le> r_start r"
  shows "let mm' = mmap_register_range addr sz owner r8 w8 r32 w32 mm;
      inside = (to_uint32 addr \<le> to_uint32 a \<and> to_uint32 a < to_uint32 addr + sz)
    in mmap_read8 mm' a m = (if inside then Some (r8 (to_uint32 a) m) else mmap_read8 mm a m) \<and>
       mmap_write8 mm' a v m = (if inside then Some (w8 (to_uint32 a) v m) else mmap_write8 mm a v m)"
proof -
  note wf = mmapm.reachable_inv [OF assms(1)]
  let ?a = "to_uint32 addr" and ?bs = "blocks_of (to_uint32 addr) sz"
  define rng where "rng = \<lparr>r_start = ?a, r_end = ?a + sz, r_owner = owner, r_read8 = r8, r_write8 = w8,
    r_read32 = r32, r_write32 = w32\<rparr>"
  define mm' where "mm' = fold (add_range rng) ?bs mm"
  have d: "distinct ?bs" by (simp add: blocks_of_def)
  have mm': "memory_map mm' b = (if b \<in> set ?bs then Dispatch else memory_map mm b)"
    "mmio_blocks mm' b = (if b \<in> set ?bs then Some (with_range rng mm b) else mmio_blocks mm b)" for b
    by (simp_all add: mm'_def fold_add_range [OF wf d])
  have i: "in_range x rng \<longleftrightarrow> ?a \<le> x \<and> x < ?a + sz" for x by (simp add: in_range_def rng_def)
  have reg: "mmap_register_range addr sz owner r8 w8 r32 w32 mm = mm'"
    by (simp add: mmap_register_range_def Let_def mm'_def rng_def)
  show ?thesis
  proof (cases "block_of a \<in> set ?bs")
    case True
    then show ?thesis
      using add_block_access(1) [OF wf, of mm' "block_of a" rng a m]
        add_block_access(2) [OF wf, of mm' "block_of a" rng a v m] mm' [of "block_of a"] assms(3)
      unfolding reg Let_def mmap_read8_def mmap_write8_def
      by (simp add: i [symmetric]) (simp add: i rng_def)
  next
    case False
    then have "\<not> in_range (to_uint32 a) rng"
      using block_of_in_range [of ?a sz a] assms(2) by (auto simp: i to_uint32_def)
    with False mm' [of "block_of a"] slot_access_cong [of mm' "block_of a" mm] show ?thesis
      unfolding reg Let_def mmap_read8_def mmap_write8_def i by auto
  qed
qed

theorem mmap_range_isolated_witness:
  "let mm = mmap_register_range 0xFED1F000 0x100 7 (\<lambda>a m. (0x42, m)) (\<lambda>a v m. m) None None (IO_mmap 0x100000)
   in mmap_read8 mm 0xFED1F004 () = Some (0x42, ()) \<and>
      mmap_read8 mm 0xFED1F100 () = mmap_read8 (IO_mmap 0x100000) 0xFED1F100 ()"
  using mmap_range_isolated [OF reachable.start, of "0xFED1F000" "0x100" "0x100000" 7 "\<lambda>a m. (0x42, m)" "\<lambda>a v m. m"
      None None "0xFED1F004" "()" 0]
    mmap_range_isolated [OF reachable.start, of "0xFED1F000" "0x100" "0x100000" 7 "\<lambda>a m. (0x42, m)" "\<lambda>a v m. m"
      None None "0xFED1F100" "()" 0]
  by (simp add: Let_def to_uint32_def IO_mmap_blocks)

text \<open>
  Whole blocks under ranges: in any memory map the program can build, registering a
  device for whole blocks changes what every address of these blocks decodes to except those
  inside an exact range, which keep going to the range's handlers, and changes nothing elsewhere.
\<close>

theorem mmap_register_under_ranges:
  assumes "reachable (\<lambda>_. True) mmap_step (IO_mmap memory_size) mm"
    "to_uint32 addr mod 131072 = 0" "to_uint32 addr + 131072 * int n \<le> 4294967296"
  shows "let mm' = mmap_register addr (131072 * int n) r8 w8 r32 w32 mm;
      covered = (to_uint32 addr \<le> to_uint32 a \<and> to_uint32 a < to_uint32 addr + 131072 * int n);
      exact = Option.bind (mmio_blocks mm (block_of a)) (\<lambda>sh. find_range (to_uint32 a) (ranges sh))
    in mmap_read8 mm' a m =
      (if \<not> covered then mmap_read8 mm a m
       else case exact of Some r \<Rightarrow> Some (r_read8 r (to_uint32 a) m) | None \<Rightarrow> Some (r8 a m))"
proof -
  note wf = mmapm.reachable_inv [OF assms(1)]
  let ?h = "\<lparr>h_read8 = r8, h_write8 = w8, h_read32 = r32, h_write32 = w32\<rparr>"
  let ?bs = "[block_of addr..<block_of addr + n]"
  have mem: "block_of a \<in> set ?bs \<longleftrightarrow>
      to_uint32 addr \<le> to_uint32 a \<and> to_uint32 a < to_uint32 addr + 131072 * int n"
  proof -
    obtain k where k: "to_uint32 addr = 131072 * k" using assms(2) by (auto simp: mod_eq_0_iff_dvd dvd_def)
    have "0 \<le> to_uint32 addr" "0 \<le> to_uint32 a" by (simp_all add: to_uint32_def)
    with k have "0 \<le> k" "0 \<le> to_uint32 a div 131072" by simp_all
    then have "block_of a \<in> set ?bs \<longleftrightarrow> k \<le> to_uint32 a div 131072 \<and> to_uint32 a div 131072 < k + int n"
      by (simp add: block_of_def k nat_le_iff zle_int [symmetric] nat_less_iff)
    also have "\<dots> \<longleftrightarrow> 131072 * k \<le> to_uint32 a \<and> to_uint32 a < 131072 * (k + int n)"
    proof -
      define q r where "q = to_uint32 a div 131072" and "r = to_uint32 a mod 131072"
      then have "to_uint32 a = 131072 * q + r" "0 \<le> r" "r < 131072" by simp_all
      then show ?thesis unfolding q_def [symmetric] by auto
    qed
    finally show ?thesis by (simp add: k distrib_left)
  qed
  have reg: "mmap_register addr (131072 * int n) r8 w8 r32 w32 mm = fold (set_block ?h) ?bs mm"
    by (simp add: mmap_register_def set_blocks_fold)
  have d: "distinct ?bs" by simp
  show ?thesis
  proof (cases "mmio_blocks mm (block_of a)")
    case None
    then have "memory_map mm (block_of a) \<noteq> Dispatch" using wf by (simp add: mmap_wf_def)
    with None show ?thesis
      unfolding Let_def reg mem [symmetric] mmap_read8_def by (auto simp: slot_read8_def fold_set_block [OF d] split: mmap_slot.splits)
  next
    case (Some sh)
    then have "memory_map mm (block_of a) = Dispatch" using wf by (simp add: mmap_wf_def)
    with Some show ?thesis
      unfolding Let_def reg mem [symmetric] mmap_read8_def
      by (auto simp: slot_read8_def fold_set_block [OF d] dispatch_read8_def split: option.splits)
  qed
qed

theorem mmap_register_under_ranges_witness:
  "let mm = mmap_register_range 0xFED1F000 0x100 7 (\<lambda>a m. (0x42, m)) (\<lambda>a v m. m) None None (IO_mmap 0x100000);
       mm' = mmap_register 0xFED00000 0x20000 (\<lambda>a m. (0x17, m)) (\<lambda>a v m. m) None None mm
   in mmap_read8 mm' 0xFED1F004 (0 :: nat) = Some (0x42, (0 :: nat)) \<and> mmap_read8 mm' 0xFED00000 (0 :: nat) = Some (0x17, (0 :: nat))"
proof -
  define mm :: "nat mmap" where "mm = mmap_register_range 0xFED1F000 0x100 7 (\<lambda>a m. (0x42, m)) (\<lambda>a v m. m) None None (IO_mmap 0x100000)"
  have r: "reachable (\<lambda>_. True) mmap_step (IO_mmap 0x100000) mm"
    unfolding mm_def
    using reachable.step [OF reachable.start [of "\<lambda>_. True" mmap_step "IO_mmap 0x100000"],
        of "MmapRegisterRange 0xFED1F000 0x100 7 (\<lambda>a m. (0x42, m)) (\<lambda>a v m. m) None None"]
    by simp
  have "blocks_of 0xFED1F000 0x100 = [32616]"
    by (simp add: blocks_of_def block_of_def to_uint32_def)
  then have b: "mmio_blocks mm 32616 = Some \<lparr>ranges = [\<lparr>r_start = 0xFED1F000, r_end = 0xFED1F100, r_owner = 7,
      r_read8 = (\<lambda>a m. (0x42, m)), r_write8 = (\<lambda>a v m. m), r_read32 = None, r_write32 = None\<rparr>],
      background = slot_handlers (memory_map (IO_mmap 0x100000) 32616)\<rparr>"
    by (simp add: mm_def mmap_register_range_def add_range_def IO_mmap_blocks install_block_dispatch_def to_uint32_def)
  show ?thesis
    unfolding mm_def [symmetric] Let_def
    using mmap_register_under_ranges [OF r, of "0xFED00000" 1 "\<lambda>a m. (0x17, m)" "\<lambda>a v m. m" None None "0xFED1F004" "0 :: nat"]
      mmap_register_under_ranges [OF r, of "0xFED00000" 1 "\<lambda>a m. (0x17, m)" "\<lambda>a v m. m" None None "0xFED00000" "0 :: nat"]
    by (simp add: Let_def to_uint32_def block_of_def b find_range_def)
qed

end
