(* ===== verification/Uart.thy ===== *)
theory Uart
  imports Device Lib_Queue
begin

text \<open>
  The serial port of \<open>src/uart.js\<close>: its registers, the port handlers its constructor
  registers, the messages it receives on the bus, and its interrupt logic.
  JavaScript numbers that hold registers are 32-bit words; that each stays within its register's
  width is proved, not assumed. \<open>current_line\<close> is used for debug output only and is left out.
\<close>

section \<open>State\<close>

abbreviation (input) DLAB :: i32 where "DLAB \<equiv> 0x80"

abbreviation (input) UART_IER_MSI :: i32 where "UART_IER_MSI \<equiv> 0x08"
abbreviation (input) UART_IER_THRI :: i32 where "UART_IER_THRI \<equiv> 0x02"
abbreviation (input) UART_IER_RDI :: i32 where "UART_IER_RDI \<equiv> 0x01"

abbreviation (input) UART_IIR_MSI :: nat where "UART_IIR_MSI \<equiv> 0x00"
abbreviation (input) UART_IIR_NO_INT :: nat where "UART_IIR_NO_INT \<equiv> 0x01"
abbreviation (input) UART_IIR_THRI :: nat where "UART_IIR_THRI \<equiv> 0x02"
abbreviation (input) UART_IIR_RDI :: nat where "UART_IIR_RDI \<equiv> 0x04"
abbreviation (input) UART_IIR_CTI :: nat where "UART_IIR_CTI \<equiv> 0x0c"

abbreviation (input) UART_MCR_LOOPBACK :: i32 where "UART_MCR_LOOPBACK \<equiv> 0x10"
abbreviation (input) UART_MCR_RTS :: i32 where "UART_MCR_RTS \<equiv> 0x2"
abbreviation (input) UART_MCR_DTR :: i32 where "UART_MCR_DTR \<equiv> 0x1"

abbreviation (input) UART_LSR_DATA_READY :: i32 where "UART_LSR_DATA_READY \<equiv> 0x1"
abbreviation (input) UART_LSR_TX_EMPTY :: i32 where "UART_LSR_TX_EMPTY \<equiv> 0x20"
abbreviation (input) UART_LSR_TRANSMITTER_EMPTY :: i32 where "UART_LSR_TRANSMITTER_EMPTY \<equiv> 0x40"

abbreviation (input) UART_MSR_DCD :: nat where "UART_MSR_DCD \<equiv> 0x7"
abbreviation (input) UART_MSR_RI :: nat where "UART_MSR_RI \<equiv> 0x6"
abbreviation (input) UART_MSR_DSR :: nat where "UART_MSR_DSR \<equiv> 0x5"
abbreviation (input) UART_MSR_CTS :: nat where "UART_MSR_CTS \<equiv> 0x4"

record uart =
  ints :: i32
  baud_rate :: i32
  line_control :: i32
  lsr :: i32
  fifo_control :: i32
  ier :: i32
  iir :: i32
  modem_control :: i32
  modem_status :: i32
  scratch_register :: i32
  irq :: nat
  input :: "i32 list"
  com :: nat
  uart_log :: "effect list"

text \<open>The port decides the number of the serial port and its interrupt line.\<close>

definition uart_com_irq :: "nat \<Rightarrow> nat \<times> nat" where
  "uart_com_irq port =
     (if port = 0x3F8 then (0, 4) else if port = 0x2F8 then (1, 3)
      else if port = 0x3E8 then (2, 4) else if port = 0x2E8 then (3, 3) else (0, 4))"

definition UART :: "nat \<Rightarrow> uart" where
  "UART port =
     \<lparr>ints = push_bit UART_IIR_THRI 1, baud_rate = 0, line_control = 0,
      lsr = UART_LSR_TRANSMITTER_EMPTY OR UART_LSR_TX_EMPTY, fifo_control = 0, ier = 0,
      iir = of_nat UART_IIR_NO_INT, modem_control = 0, modem_status = 0, scratch_register = 0,
      irq = snd (uart_com_irq port), input = [], com = fst (uart_com_irq port), uart_log = []\<rparr>"

section \<open>Interrupts\<close>

definition uart_emit :: "effect \<Rightarrow> uart \<Rightarrow> uart" where
  "uart_emit e u = u\<lparr>uart_log := uart_log u @ [e]\<rparr>"

definition CheckInterrupt :: "uart \<Rightarrow> uart" where
  "CheckInterrupt u =
     (if has_bits (ints u) (push_bit UART_IIR_CTI 1) \<and> has_bits (ier u) UART_IER_RDI
      then uart_emit (RaiseIrq (irq u)) (u\<lparr>iir := of_nat UART_IIR_CTI\<rparr>)
      else if has_bits (ints u) (push_bit UART_IIR_RDI 1) \<and> has_bits (ier u) UART_IER_RDI
      then uart_emit (RaiseIrq (irq u)) (u\<lparr>iir := of_nat UART_IIR_RDI\<rparr>)
      else if has_bits (ints u) (push_bit UART_IIR_THRI 1) \<and> has_bits (ier u) UART_IER_THRI
      then uart_emit (RaiseIrq (irq u)) (u\<lparr>iir := of_nat UART_IIR_THRI\<rparr>)
      else if has_bits (ints u) (push_bit UART_IIR_MSI 1) \<and> has_bits (ier u) UART_IER_MSI
      then uart_emit (RaiseIrq (irq u)) (u\<lparr>iir := of_nat UART_IIR_MSI\<rparr>)
      else uart_emit (LowerIrq (irq u)) (u\<lparr>iir := of_nat UART_IIR_NO_INT\<rparr>))"

definition ThrowInterrupt :: "nat \<Rightarrow> uart \<Rightarrow> uart" where
  "ThrowInterrupt line u = CheckInterrupt (u\<lparr>ints := ints u OR push_bit line 1\<rparr>)"

definition ClearInterrupt :: "nat \<Rightarrow> uart \<Rightarrow> uart" where
  "ClearInterrupt line u = CheckInterrupt (u\<lparr>ints := ints u AND NOT (push_bit line 1)\<rparr>)"

section \<open>Operations\<close>

definition data_received :: "i32 \<Rightarrow> uart \<Rightarrow> uart" where
  "data_received data u =
     (let u1 = u\<lparr>input := input u @ [data]\<rparr>;
          u2 = u1\<lparr>lsr := lsr u1 OR UART_LSR_DATA_READY\<rparr>
      in if has_bits (fifo_control u2) 1 then ThrowInterrupt UART_IIR_CTI u2
         else ThrowInterrupt UART_IIR_RDI u2)"

text \<open>The name of a message: \<open>"serial" + com + suffix\<close>; \<open>com\<close> is a single digit.\<close>

definition serial_message :: "uart \<Rightarrow> string \<Rightarrow> string" where
  "serial_message u suffix = ''serial'' @ [char_of (48 + com u)] @ suffix"

definition write_data :: "i32 \<Rightarrow> uart \<Rightarrow> uart" where
  "write_data out_byte u =
     (if has_bits (line_control u) DLAB
      then u\<lparr>baud_rate := (baud_rate u AND NOT 0xFF) OR out_byte\<rparr>
      else let u1 = ThrowInterrupt UART_IIR_THRI u
           in if has_bits (modem_control u1) UART_MCR_LOOPBACK then data_received out_byte u1
              else uart_emit (BusSend (serial_message u1 ''-output-byte'') (JNum (sint out_byte))) u1)"

definition set_modem_status_bit :: "nat \<Rightarrow> bool \<Rightarrow> uart \<Rightarrow> uart" where
  "set_modem_status_bit msr_bit on u =
     (let new_modem_status = (if on then modem_status u OR push_bit msr_bit 1
                              else modem_status u AND NOT (push_bit msr_bit 1));
          new_delta_bits = signed_drop_bit 4 (modem_status u XOR new_modem_status);
          u1 = u\<lparr>modem_status := new_modem_status OR new_delta_bits\<rparr>
      in if has_bits (modem_status u1) 0x0F then ThrowInterrupt UART_IIR_MSI u1 else u1)"

subsection \<open>Port handlers, in the order of the constructor\<close>

definition uart_write0_16 :: "i32 \<Rightarrow> uart \<Rightarrow> uart" where
  "uart_write0_16 out_word u = write_data (signed_drop_bit 8 out_word) (write_data (out_word AND 0xFF) u)"

definition uart_write1 :: "i32 \<Rightarrow> uart \<Rightarrow> uart" where
  "uart_write1 out_byte u =
     (if has_bits (line_control u) DLAB
      then u\<lparr>baud_rate := (baud_rate u AND 0xFF) OR push_bit 8 out_byte\<rparr>
      else let u1 = (if ier u AND of_nat UART_IIR_THRI = 0 \<and> has_bits out_byte (of_nat UART_IIR_THRI)
                     then ThrowInterrupt UART_IIR_THRI u else u)
           in CheckInterrupt (u1\<lparr>ier := out_byte AND 0xF\<rparr>))"

definition uart_read0 :: "uart \<Rightarrow> i32 \<times> uart" where
  "uart_read0 u =
     (if has_bits (line_control u) DLAB then (baud_rate u AND 0xFF, u)
      else let (data, u1) = (case input u of [] \<Rightarrow> (0, u) | d # ds \<Rightarrow> (d, u\<lparr>input := ds\<rparr>));
               u2 = (if input u1 = []
                     then ClearInterrupt UART_IIR_RDI (ClearInterrupt UART_IIR_CTI
                            (u1\<lparr>lsr := lsr u1 AND NOT UART_LSR_DATA_READY\<rparr>))
                     else u1)
           in (data, u2))"

definition uart_read1 :: "uart \<Rightarrow> i32 \<times> uart" where
  "uart_read1 u =
     (if has_bits (line_control u) DLAB then (signed_drop_bit 8 (baud_rate u), u) else (ier u AND 0xF, u))"

definition uart_read2 :: "uart \<Rightarrow> i32 \<times> uart" where
  "uart_read2 u =
     (let ret = iir u AND 0xF;
          u1 = (if iir u = of_nat UART_IIR_THRI then ClearInterrupt UART_IIR_THRI u else u)
      in (if has_bits (fifo_control u1) 1 then ret OR 0xC0 else ret, u1))"

definition uart_write2 :: "i32 \<Rightarrow> uart \<Rightarrow> uart" where
  "uart_write2 out_byte u = u\<lparr>fifo_control := out_byte\<rparr>"

definition uart_read3 :: "uart \<Rightarrow> i32 \<times> uart" where
  "uart_read3 u = (line_control u, u)"

definition uart_write3 :: "i32 \<Rightarrow> uart \<Rightarrow> uart" where
  "uart_write3 out_byte u = u\<lparr>line_control := out_byte\<rparr>"

definition uart_read4 :: "uart \<Rightarrow> i32 \<times> uart" where
  "uart_read4 u = (modem_control u, u)"

definition uart_write4 :: "i32 \<Rightarrow> uart \<Rightarrow> uart" where
  "uart_write4 out_byte u =
     (let bits_changed = modem_control u XOR out_byte;
          u1 = u\<lparr>modem_control := out_byte\<rparr>;
          u2 = (if has_bits bits_changed UART_MCR_DTR
                then uart_emit (BusSend (serial_message u1 ''-data-terminal-ready-output'')
                       (JBool (has_bits out_byte UART_MCR_DTR))) u1
                else u1)
      in if has_bits bits_changed UART_MCR_RTS
         then uart_emit (BusSend (serial_message u2 ''-request-to-send-output'')
                (JBool (has_bits out_byte UART_MCR_RTS))) u2
         else u2)"

definition uart_read5 :: "uart \<Rightarrow> i32 \<times> uart" where
  "uart_read5 u = (lsr u, u)"

definition uart_write5 :: "i32 \<Rightarrow> uart \<Rightarrow> uart" where
  "uart_write5 out_byte u = u"

definition uart_read6 :: "uart \<Rightarrow> i32 \<times> uart" where
  "uart_read6 u =
     (modem_status u, ClearInterrupt UART_IIR_MSI (u\<lparr>modem_status := modem_status u AND 0xF0\<rparr>))"

definition uart_read7 :: "uart \<Rightarrow> i32 \<times> uart" where
  "uart_read7 u = (scratch_register u, u)"

definition uart_write7 :: "i32 \<Rightarrow> uart \<Rightarrow> uart" where
  "uart_write7 out_byte u = u\<lparr>scratch_register := out_byte\<rparr>"

text \<open>
  The registrations of the constructor, for a machine state with the device at
  \<open>get\<close>/\<open>put\<close>.
\<close>

definition UART_register ::
  "nat \<Rightarrow> nat \<Rightarrow> ('m \<Rightarrow> uart) \<Rightarrow> (uart \<Rightarrow> 'm \<Rightarrow> 'm) \<Rightarrow> 'm ports \<Rightarrow> 'm ports option" where
  "UART_register port dev get put = reg_seq
     [register_write port dev (Some (lift_write get put write_data))
        (Some (lift_write get put uart_write0_16)) None,
      register_write (port OR 1) dev (Some (lift_write get put uart_write1)) None None,
      register_read port dev (Some (lift_read get put uart_read0)) None None,
      register_read (port OR 1) dev (Some (lift_read get put uart_read1)) None None,
      register_read (port OR 2) dev (Some (lift_read get put uart_read2)) None None,
      register_write (port OR 2) dev (Some (lift_write get put uart_write2)) None None,
      register_read (port OR 3) dev (Some (lift_read get put uart_read3)) None None,
      register_write (port OR 3) dev (Some (lift_write get put uart_write3)) None None,
      register_read (port OR 4) dev (Some (lift_read get put uart_read4)) None None,
      register_write (port OR 4) dev (Some (lift_write get put uart_write4)) None None,
      register_read (port OR 5) dev (Some (lift_read get put uart_read5)) None None,
      register_write (port OR 5) dev (Some (lift_write get put uart_write5)) None None,
      register_read (port OR 6) dev (Some (lift_read get put uart_read6)) None None,
      register_read (port OR 7) dev (Some (lift_read get put uart_read7)) None None,
      register_write (port OR 7) dev (Some (lift_write get put uart_write7)) None None]"

subsection \<open>Saved states\<close>

record uart_state =
  us_ints :: i32
  us_baud_rate :: i32
  us_line_control :: i32
  us_lsr :: i32
  us_fifo_control :: i32
  us_ier :: i32
  us_iir :: i32
  us_modem_control :: i32
  us_modem_status :: i32
  us_scratch_register :: i32
  us_irq :: nat

definition uart_get_state :: "uart \<Rightarrow> uart_state" where
  "uart_get_state u =
     \<lparr>us_ints = ints u, us_baud_rate = baud_rate u, us_line_control = line_control u, us_lsr = lsr u,
      us_fifo_control = fifo_control u, us_ier = ier u, us_iir = iir u,
      us_modem_control = modem_control u, us_modem_status = modem_status u,
      us_scratch_register = scratch_register u, us_irq = irq u\<rparr>"

definition uart_set_state :: "uart_state \<Rightarrow> uart \<Rightarrow> uart" where
  "uart_set_state st u =
     u\<lparr>ints := us_ints st, baud_rate := us_baud_rate st, line_control := us_line_control st,
       lsr := us_lsr st, fifo_control := us_fifo_control st, ier := us_ier st, iir := us_iir st,
       modem_control := us_modem_control st, modem_status := us_modem_status st,
       scratch_register := us_scratch_register st, irq := us_irq st\<rparr>"

section \<open>Events\<close>

text \<open>
  The accesses to the eight ports and the five messages on the bus. A port offset that the
  constructor registers no handler for leaves the device alone.
\<close>

datatype uart_event =
    Write8 nat i32
  | Write16 i32
  | Read8 nat
  | Input i32
  | ModemLine nat bool

fun uart_write8 :: "nat \<Rightarrow> i32 \<Rightarrow> uart \<Rightarrow> uart" where
  "uart_write8 k x u =
     (if k = 0 then write_data x u else if k = 1 then uart_write1 x u
      else if k = 2 then uart_write2 x u else if k = 3 then uart_write3 x u
      else if k = 4 then uart_write4 x u else if k = 5 then uart_write5 x u
      else if k = 7 then uart_write7 x u else u)"

fun uart_read8 :: "nat \<Rightarrow> uart \<Rightarrow> i32 \<times> uart" where
  "uart_read8 k u =
     (if k = 0 then uart_read0 u else if k = 1 then uart_read1 u
      else if k = 2 then uart_read2 u else if k = 3 then uart_read3 u
      else if k = 4 then uart_read4 u else if k = 5 then uart_read5 u
      else if k = 6 then uart_read6 u else if k = 7 then uart_read7 u else (0xFF, u))"

fun uart_step :: "uart_event \<Rightarrow> uart \<Rightarrow> uart" where
  "uart_step (Write8 k x) u = uart_write8 k x u"
| "uart_step (Write16 x) u = uart_write0_16 x u"
| "uart_step (Read8 k) u = snd (uart_read8 k u)"
| "uart_step (Input d) u = data_received d u"
| "uart_step (ModemLine b v) u = set_modem_status_bit b v u"

text \<open>
  What the environment gives: bytes to 8-bit handlers, 16-bit values to the 16-bit handler, bytes
  on the input message, and the four modem lines.
\<close>

fun uart_event_ok :: "uart_event \<Rightarrow> bool" where
  "uart_event_ok (Write8 k x) = fits 8 x"
| "uart_event_ok (Write16 x) = fits 16 x"
| "uart_event_ok (Read8 k) = True"
| "uart_event_ok (Input d) = fits 8 d"
| "uart_event_ok (ModemLine b v) = (b \<in> {UART_MSR_DCD, UART_MSR_RI, UART_MSR_DSR, UART_MSR_CTS})"

section \<open>The interrupt logic as a specification\<close>

text \<open>The highest-priority source that is pending and enabled.\<close>

definition pending_source :: "i32 \<Rightarrow> i32 \<Rightarrow> nat option" where
  "pending_source pend enab =
     (if bit pend UART_IIR_CTI \<and> bit enab 0 then Some UART_IIR_CTI
      else if bit pend UART_IIR_RDI \<and> bit enab 0 then Some UART_IIR_RDI
      else if bit pend UART_IIR_THRI \<and> bit enab 1 then Some UART_IIR_THRI
      else if bit pend UART_IIR_MSI \<and> bit enab 3 then Some UART_IIR_MSI
      else None)"

text \<open>
  The identification register names the pending source (1 for none), and the interrupt line is
  high exactly if there is one.
\<close>

definition uart_irq_inv :: "uart \<Rightarrow> bool" where
  "uart_irq_inv u \<longleftrightarrow>
     iir u = of_nat (case pending_source (ints u) (ier u) of Some s \<Rightarrow> s | None \<Rightarrow> UART_IIR_NO_INT) \<and>
     irq_level (irq u) (uart_log u) = (pending_source (ints u) (ier u) \<noteq> None)"

text \<open>Every register fits its width, so that no read handler returns more than a byte.\<close>

definition uart_width_inv :: "uart \<Rightarrow> bool" where
  "uart_width_inv u \<longleftrightarrow> fits 16 (baud_rate u) \<and> fits 8 (line_control u) \<and> fits 8 (lsr u) \<and>
     fits 8 (fifo_control u) \<and> fits 4 (ier u) \<and> fits 4 (iir u) \<and> fits 8 (modem_control u) \<and>
     fits 8 (modem_status u) \<and> fits 8 (scratch_register u) \<and> list_all (fits 8) (input u)"

text \<open>The data-ready bit of the line status tells whether input is waiting.\<close>

definition uart_ready_inv :: "uart \<Rightarrow> bool" where
  "uart_ready_inv u \<longleftrightarrow> bit (lsr u) 0 = (input u \<noteq> [])"

definition uart_inv :: "uart \<Rightarrow> bool" where
  "uart_inv u \<longleftrightarrow> uart_irq_inv u \<and> uart_width_inv u \<and> uart_ready_inv u"

section \<open>Lemmas\<close>

lemma has_bits_push_bit: "has_bits x (push_bit n 1) \<longleftrightarrow> n < 32 \<and> bit x n"
  by (auto simp: word_bits_eq_iff bit_simps)

lemma has_bits_small:
  "has_bits x 1 \<longleftrightarrow> bit x 0" "has_bits x 2 \<longleftrightarrow> bit x 1" "has_bits x 8 \<longleftrightarrow> bit x 3"
  using has_bits_push_bit [of x 0] has_bits_push_bit [of x 1] has_bits_push_bit [of x 3]
  by (simp_all add: push_bit_eq_mult)

lemma CheckInterrupt_eq:
  "CheckInterrupt u =
     (case pending_source (ints u) (ier u) of
        Some s \<Rightarrow> u\<lparr>iir := of_nat s, uart_log := uart_log u @ [RaiseIrq (irq u)]\<rparr>
      | None \<Rightarrow> u\<lparr>iir := of_nat UART_IIR_NO_INT, uart_log := uart_log u @ [LowerIrq (irq u)]\<rparr>)"
  unfolding CheckInterrupt_def pending_source_def uart_emit_def
  by (simp only: has_bits_push_bit has_bits_small) simp

lemma pending_source_cases:
  "pending_source a b = Some s \<Longrightarrow> s \<in> {UART_IIR_MSI, UART_IIR_THRI, UART_IIR_RDI, UART_IIR_CTI}"
  by (auto simp: pending_source_def split: if_splits)

lemma CheckInterrupt_irq_inv: "uart_irq_inv (CheckInterrupt u)"
  by (simp add: CheckInterrupt_eq uart_irq_inv_def split: option.split)

lemma CheckInterrupt_width: "uart_width_inv u \<Longrightarrow> uart_width_inv (CheckInterrupt u)"
  by (auto simp: CheckInterrupt_eq uart_width_inv_def fits_def dest!: pending_source_cases split: option.split)

lemma CheckInterrupt_frame [simp]:
  "ints (CheckInterrupt u) = ints u" "ier (CheckInterrupt u) = ier u" "input (CheckInterrupt u) = input u"
  "lsr (CheckInterrupt u) = lsr u" "modem_status (CheckInterrupt u) = modem_status u"
  "modem_control (CheckInterrupt u) = modem_control u" "line_control (CheckInterrupt u) = line_control u"
  "fifo_control (CheckInterrupt u) = fifo_control u" "irq (CheckInterrupt u) = irq u"
  "com (CheckInterrupt u) = com u" "baud_rate (CheckInterrupt u) = baud_rate u"
  "scratch_register (CheckInterrupt u) = scratch_register u"
  by (simp_all add: CheckInterrupt_eq split: option.split)

lemma UART_inv: "uart_inv (UART port)"
  by (simp add: uart_inv_def uart_irq_inv_def uart_width_inv_def uart_ready_inv_def UART_def
      pending_source_def fits_def)

lemma irq_inv_frame [simp]:
  "uart_irq_inv (u\<lparr>baud_rate := x\<rparr>) = uart_irq_inv u"
  "uart_irq_inv (u\<lparr>line_control := x\<rparr>) = uart_irq_inv u"
  "uart_irq_inv (u\<lparr>lsr := x\<rparr>) = uart_irq_inv u"
  "uart_irq_inv (u\<lparr>fifo_control := x\<rparr>) = uart_irq_inv u"
  "uart_irq_inv (u\<lparr>modem_control := x\<rparr>) = uart_irq_inv u"
  "uart_irq_inv (u\<lparr>modem_status := x\<rparr>) = uart_irq_inv u"
  "uart_irq_inv (u\<lparr>scratch_register := x\<rparr>) = uart_irq_inv u"
  "uart_irq_inv (u\<lparr>input := xs\<rparr>) = uart_irq_inv u"
  "uart_irq_inv (uart_emit (BusSend s v) u) = uart_irq_inv u"
  by (simp_all add: uart_irq_inv_def uart_emit_def)

lemma emit_frame [simp]:
  "uart_width_inv (uart_emit e u) = uart_width_inv u" "uart_ready_inv (uart_emit e u) = uart_ready_inv u"
  "lsr (uart_emit e u) = lsr u" "input (uart_emit e u) = input u" "com (uart_emit e u) = com u"
  by (simp_all add: uart_width_inv_def uart_ready_inv_def uart_emit_def)

lemma interrupt_irq_inv [simp]: "uart_irq_inv (ThrowInterrupt n u)" "uart_irq_inv (ClearInterrupt n u)"
  by (simp_all add: ThrowInterrupt_def ClearInterrupt_def CheckInterrupt_irq_inv)

lemma interrupt_width [simp]:
  "uart_width_inv u \<Longrightarrow> uart_width_inv (ThrowInterrupt n u)"
  "uart_width_inv u \<Longrightarrow> uart_width_inv (ClearInterrupt n u)"
  unfolding ThrowInterrupt_def ClearInterrupt_def
  by (rule CheckInterrupt_width, simp add: uart_width_inv_def)+

lemma interrupt_frame [simp]:
  "lsr (ThrowInterrupt n u) = lsr u" "input (ThrowInterrupt n u) = input u"
  "lsr (ClearInterrupt n u) = lsr u" "input (ClearInterrupt n u) = input u"
  "modem_control (ThrowInterrupt n u) = modem_control u" "fifo_control (ClearInterrupt n u) = fifo_control u"
  "fifo_control (ThrowInterrupt n u) = fifo_control u" "ier (ThrowInterrupt n u) = ier u"
  "line_control (ThrowInterrupt n u) = line_control u" "line_control (ClearInterrupt n u) = line_control u"
  "modem_status (ThrowInterrupt n u) = modem_status u" "modem_control (ClearInterrupt n u) = modem_control u"
  by (simp_all add: ThrowInterrupt_def ClearInterrupt_def)

lemma fits_numerals [fits_simps]:
  "fits 8 0xFF" "fits 8 0x1" "fits 8 0x0F" "fits 8 0xF0" "fits 4 0xF" "fits 8 0xC0" "fits 16 0xFF"
  by (simp_all add: fits_def)

lemma fits_push_bit_8 [fits_simps]: "fits 8 x \<Longrightarrow> fits 16 (push_bit 8 x)"
  by (auto simp: fits_bits bit_simps)

lemma fits_8_16: "fits 8 x \<Longrightarrow> fits 16 x"
  by (rule fits_mono [of 8]) simp_all

lemma fits_modem_line: "n < 8 \<Longrightarrow> fits 8 (2 ^ n)"
  by (auto simp: fits_bits bit_simps)

lemma fits_signed_drop_bit: "fits n x \<Longrightarrow> n < 32 \<Longrightarrow> fits (n - k) (signed_drop_bit k x)"
  by (auto simp: fits_bits bit_simps)

lemmas width_intros = fits_intros fits_simps

lemma width_field [simp]:
  assumes "uart_width_inv u"
  shows "fits 16 (baud_rate u)" "fits 8 (line_control u)" "fits 8 (lsr u)" "fits 8 (fifo_control u)"
    "fits 4 (ier u)" "fits 4 (iir u)" "fits 8 (modem_control u)" "fits 8 (modem_status u)"
    "fits 8 (scratch_register u)" "list_all (fits 8) (input u)"
  using assms by (simp_all add: uart_width_inv_def)

lemma width_update:
  assumes "uart_width_inv u"
  shows "fits 16 x \<Longrightarrow> uart_width_inv (u\<lparr>baud_rate := x\<rparr>)"
    "fits 8 x \<Longrightarrow> uart_width_inv (u\<lparr>line_control := x\<rparr>)"
    "fits 8 x \<Longrightarrow> uart_width_inv (u\<lparr>lsr := x\<rparr>)"
    "fits 8 x \<Longrightarrow> uart_width_inv (u\<lparr>fifo_control := x\<rparr>)"
    "fits 4 x \<Longrightarrow> uart_width_inv (u\<lparr>ier := x\<rparr>)"
    "fits 8 x \<Longrightarrow> uart_width_inv (u\<lparr>modem_control := x\<rparr>)"
    "fits 8 x \<Longrightarrow> uart_width_inv (u\<lparr>modem_status := x\<rparr>)"
    "fits 8 x \<Longrightarrow> uart_width_inv (u\<lparr>scratch_register := x\<rparr>)"
    "list_all (fits 8) xs \<Longrightarrow> uart_width_inv (u\<lparr>input := xs\<rparr>)"
  using assms by (simp_all add: uart_width_inv_def del: width_field)

lemma ready_frame [simp]:
  "uart_ready_inv (ThrowInterrupt n u) = uart_ready_inv u"
  "uart_ready_inv (ClearInterrupt n u) = uart_ready_inv u"
  "uart_ready_inv (CheckInterrupt u) = uart_ready_inv u"
  "uart_ready_inv (u\<lparr>baud_rate := x\<rparr>) = uart_ready_inv u"
  "uart_ready_inv (u\<lparr>line_control := x\<rparr>) = uart_ready_inv u"
  "uart_ready_inv (u\<lparr>fifo_control := x\<rparr>) = uart_ready_inv u"
  "uart_ready_inv (u\<lparr>ier := x\<rparr>) = uart_ready_inv u"
  "uart_ready_inv (u\<lparr>modem_control := x\<rparr>) = uart_ready_inv u"
  "uart_ready_inv (u\<lparr>modem_status := x\<rparr>) = uart_ready_inv u"
  "uart_ready_inv (u\<lparr>scratch_register := x\<rparr>) = uart_ready_inv u"
  by (simp_all add: uart_ready_inv_def)

section \<open>Every operation keeps the invariant\<close>

lemma uart_emit_bus_inv [simp]: "uart_inv (uart_emit (BusSend s v) u) = uart_inv u"
  by (simp add: uart_inv_def)

lemma ThrowInterrupt_inv: "uart_inv u \<Longrightarrow> uart_inv (ThrowInterrupt n u)"
  by (simp add: uart_inv_def)

lemma data_received_inv: "uart_inv u \<Longrightarrow> fits 8 d \<Longrightarrow> uart_inv (data_received d u)"
  unfolding data_received_def Let_def uart_inv_def
  by (auto simp: uart_ready_inv_def bit_simps intro!: interrupt_width width_update width_intros)

lemma write_data_inv: "uart_inv u \<Longrightarrow> fits 8 x \<Longrightarrow> uart_inv (write_data x u)"
  using fits_8_16 [of x]
  by (simp add: write_data_def Let_def data_received_inv ThrowInterrupt_inv)
    (auto simp: uart_inv_def intro!: width_update width_intros)

lemma uart_write0_16_inv: "uart_inv u \<Longrightarrow> fits 16 x \<Longrightarrow> uart_inv (uart_write0_16 x u)"
  using fits_signed_drop_bit [of 16 x 8]
  by (auto simp: uart_write0_16_def intro!: write_data_inv width_intros)

lemma uart_write1_inv: "uart_inv u \<Longrightarrow> fits 8 x \<Longrightarrow> uart_inv (uart_write1 x u)"
  unfolding uart_write1_def Let_def uart_inv_def
  by (auto simp: CheckInterrupt_irq_inv
      intro!: CheckInterrupt_width interrupt_width width_update width_intros)

lemma uart_read0_inv: "uart_inv u \<Longrightarrow> uart_inv (snd (uart_read0 u))"
  using width_field(10) [of u]
  by (cases "input u")
    (auto simp: uart_read0_def uart_inv_def uart_ready_inv_def bit_simps
      intro!: interrupt_width width_update width_intros)

lemma uart_read2_inv: "uart_inv u \<Longrightarrow> uart_inv (snd (uart_read2 u))"
  by (simp add: uart_read2_def uart_inv_def Let_def)

lemma uart_write4_inv: "uart_inv u \<Longrightarrow> fits 8 x \<Longrightarrow> uart_inv (uart_write4 x u)"
  by (simp add: uart_write4_def Let_def) (auto simp: uart_inv_def intro!: width_update)

lemma uart_read6_inv: "uart_inv u \<Longrightarrow> uart_inv (snd (uart_read6 u))"
  by (auto simp: uart_read6_def uart_inv_def intro!: interrupt_width width_update width_intros)

lemma fits_delta: "fits 8 x \<Longrightarrow> fits 8 y \<Longrightarrow> fits 8 (signed_drop_bit 4 (x XOR y))"
  using fits_signed_drop_bit [of 8 "x XOR y" 4] fits_mono [of 4 "signed_drop_bit 4 (x XOR y)" 8]
  by (simp add: fits_xor)

lemma set_modem_status_bit_inv: "uart_inv u \<Longrightarrow> n < 8 \<Longrightarrow> uart_inv (set_modem_status_bit n b u)"
  unfolding set_modem_status_bit_def Let_def uart_inv_def
  by (auto intro!: interrupt_width width_update fits_or fits_and fits_delta fits_modem_line)

lemma uart_step_inv: "uart_event_ok e \<Longrightarrow> uart_inv u \<Longrightarrow> uart_inv (uart_step e u)"
proof (cases e)
  case (Write8 k x)
  moreover assume "uart_event_ok e" "uart_inv u"
  ultimately show ?thesis
    by (simp add: write_data_inv uart_write1_inv uart_write4_inv uart_write5_def)
      (auto simp: uart_inv_def uart_write2_def uart_write3_def uart_write7_def intro!: width_update)
next
  case (Read8 k)
  moreover assume "uart_inv u"
  ultimately show ?thesis
    by (simp add: uart_read0_inv uart_read2_inv uart_read6_inv uart_read1_def uart_read3_def
        uart_read4_def uart_read5_def uart_read7_def)
qed (auto intro: uart_write0_16_inv data_received_inv set_modem_status_bit_inv)

interpretation uartm: device_machine uart_event_ok uart_step "UART port" uart_inv for port
  by unfold_locales (simp_all add: UART_inv uart_step_inv)

section \<open>Data path\<close>

lemma data_received_frame [simp]:
  "input (data_received d u) = input u @ [d]" "line_control (data_received d u) = line_control u"
  by (simp_all add: data_received_def Let_def)

lemma run_Input_input: "input (run uart_step (map Input ds) u) = input u @ ds"
  by (induction ds arbitrary: u) simp_all

lemma run_Input_line_control: "line_control (run uart_step (map Input ds) u) = line_control u"
  by (induction ds arbitrary: u) simp_all

lemma uart_read0_Cons:
  assumes "line_control u AND DLAB = 0" "input u = d # ds"
  shows "fst (uart_read0 u) = d" "input (snd (uart_read0 u)) = ds"
    "line_control (snd (uart_read0 u)) = line_control u"
  using assms by (simp_all add: uart_read0_def Let_def)

lemma uart_read_all:
  "line_control u AND DLAB = 0 \<Longrightarrow> input u = ds \<Longrightarrow>
   fst (shift_n uart_read0 (length ds) u) = ds \<and> input (snd (shift_n uart_read0 (length ds) u)) = []"
proof (induction ds arbitrary: u)
  case (Cons d ds)
  from Cons.IH [of "snd (uart_read0 u)"] Cons.prems uart_read0_Cons [OF Cons.prems]
  show ?case by (simp add: split_beta)
qed simp

lemma uart_log_write:
  assumes "line_control u AND DLAB = 0"
  shows "modem_control u AND UART_MCR_LOOPBACK \<noteq> 0 \<Longrightarrow> input (write_data x u) = input u @ [x]"
    and "modem_control u AND UART_MCR_LOOPBACK = 0 \<Longrightarrow> input (write_data x u) = input u \<and>
      last (uart_log (write_data x u)) = BusSend (serial_message u ''-output-byte'') (JNum (sint x))"
  using assms
  by (auto simp: write_data_def Let_def uart_emit_def serial_message_def ThrowInterrupt_def)

section \<open>Properties\<close>

text \<open>
  Claim C1. In every state that a serial port reaches from power-on by port accesses and bus
  messages, the interrupt identification register names the pending enabled source of the highest
  priority (character timeout, received data, transmitter empty, modem status; 1 if there is
  none), and the interrupt line is high exactly if such a source exists.
\<close>

theorem uart_interrupt_line_correct:
  assumes "reachable uart_event_ok uart_step (UART port) u"
  shows "iir u = of_nat (case pending_source (ints u) (ier u) of Some s \<Rightarrow> s | None \<Rightarrow> UART_IIR_NO_INT) \<and>
    irq_level (irq u) (uart_log u) = (pending_source (ints u) (ier u) \<noteq> None)"
  using uartm.reachable_inv [OF assms] by (simp add: uart_inv_def uart_irq_inv_def)

theorem uart_interrupt_line_correct_witness:
  "let u = run uart_step [Write8 1 0x01, Input 0x41] (UART 0x3F8)
   in iir u = 4 \<and> irq_level 4 (uart_log u)"
proof -
  define u where "u = run uart_step [Write8 1 0x01, Input 0x41] (UART 0x3F8)"
  have "reachable uart_event_ok uart_step (UART 0x3F8) u"
    unfolding u_def by (rule reachable_run [OF reachable.start]) (simp add: fits_def)
  note * = uart_interrupt_line_correct [OF this]
  have "ints u = 0x14" "ier u = 1" "irq u = 4"
    by (simp_all add: u_def UART_def uart_com_irq_def uart_write1_def data_received_def ThrowInterrupt_def
        CheckInterrupt_def uart_emit_def Let_def)
  with * show ?thesis unfolding u_def [symmetric] by (simp add: pending_source_def Let_def)
qed

text \<open>
  No read handler of the serial port returns more than a byte in a reachable state, as
  \<open>port_read8\<close> asserts, and the data-ready bit of the line status register is set exactly
  if input is waiting.
\<close>

theorem uart_reads_are_bytes:
  assumes "reachable uart_event_ok uart_step (UART port) u"
  shows "uint (fst (uart_read8 k u)) < 256 \<and> bit (fst (uart_read8 5 u)) 0 = (input u \<noteq> [])"
proof -
  have inv: "uart_width_inv u" "uart_ready_inv u"
    using uartm.reachable_inv [OF assms] by (simp_all add: uart_inv_def)
  have "fits 8 (signed_drop_bit 8 (baud_rate u))"
    using fits_signed_drop_bit [of 16 "baud_rate u" 8] inv by simp
  moreover have "fits 8 (ier u AND 0xF)" "fits 8 (iir u AND 0xF)"
    by (rule fits_and2, simp add: fits_def)+
  moreover have "fits 8 0xC2" by (simp add: fits_def)
  moreover have "fits 8 (case input u of [] \<Rightarrow> 0 | d # ds \<Rightarrow> d)"
    using width_field(10) [OF inv(1)] by (cases "input u") (simp_all add: fits_def)
  ultimately have "fits 8 (fst (uart_read8 k u))"
    using inv
    by (auto simp: uart_read0_def uart_read1_def uart_read2_def uart_read3_def uart_read4_def uart_read5_def
        uart_read6_def uart_read7_def Let_def split_beta split: list.split intro!: width_intros)
  then show ?thesis using inv by (simp add: fits_less uart_ready_inv_def uart_read5_def)
qed

theorem uart_reads_are_bytes_witness:
  "uint (fst (uart_read8 0 (run uart_step [Input 0x41] (UART 0x2F8)))) < 256"
proof -
  have "reachable uart_event_ok uart_step (UART 0x2F8) (run uart_step [Input 0x41] (UART 0x2F8))"
    by (rule reachable_run [OF reachable.start]) (simp add: fits_def)
  from uart_reads_are_bytes [OF this, of 0] show ?thesis by simp
qed

text \<open>
  Received bytes are delivered in order: with the divisor latch off and no input
  waiting, as many reads of the data port as bytes arrived return exactly those bytes, and leave
  the input empty.
\<close>

theorem uart_receives_in_order:
  assumes "line_control u AND DLAB = 0" "input u = []"
  shows "let (bytes, u') = shift_n uart_read0 (length ds) (run uart_step (map Input ds) u)
    in bytes = ds \<and> input u' = []"
  using uart_read_all [of "run uart_step (map Input ds) u" ds] assms
  by (simp add: run_Input_input run_Input_line_control split_beta)

theorem uart_receives_in_order_witness:
  "fst (shift_n uart_read0 2 (run uart_step (map Input [0x48, 0x69]) (UART 0x3F8))) = [0x48, 0x69]"
  using uart_receives_in_order [of "UART 0x3F8" "[0x48, 0x69]"]
  by (simp add: UART_def split_beta Let_def numeral_2_eq_2)

text \<open>
  A byte written to the data port while the divisor latch is off goes to exactly one
  place: in loopback mode it is appended to the port's own input, otherwise the input is unchanged
  and the last effect of the write is the output message with that byte on the bus.
\<close>

theorem uart_write_loopback_or_output:
  assumes "line_control u AND DLAB = 0"
  shows "if has_bits (modem_control u) UART_MCR_LOOPBACK
    then input (write_data x u) = input u @ [x]
    else input (write_data x u) = input u \<and>
      last (uart_log (write_data x u)) = BusSend (serial_message u ''-output-byte'') (JNum (sint x))"
  using uart_log_write [OF assms] by simp

theorem uart_write_loopback_or_output_witness:
  "last (uart_log (write_data 0x41 (UART 0x2F8))) = BusSend ''serial1-output-byte'' (JNum 0x41)"
proof -
  have "char_of (49 :: nat) = CHR ''1''" by code_simp
  then show ?thesis
    using uart_write_loopback_or_output [of "UART 0x2F8" "0x41"]
    by (simp add: UART_def uart_com_irq_def serial_message_def)
qed

text \<open>
  The divisor latch: with the latch bit of the line control register set, writing a low
  and a high byte to the first two ports sets the 16-bit divisor, and the same ports read the two
  bytes back.
\<close>

theorem uart_divisor_roundtrip:
  assumes "has_bits (line_control u) DLAB" "fits 8 lo" "fits 8 hi"
  shows "let u' = uart_write8 1 hi (uart_write8 0 lo u)
    in baud_rate u' = push_bit 8 hi OR lo \<and> fst (uart_read8 0 u') = lo \<and> fst (uart_read8 1 u') = hi"
proof -
  have b: "bit lo i \<Longrightarrow> i < 8" "bit hi i \<Longrightarrow> i < 8" for i
    using assms(2,3) by (auto simp: fits_bits not_le [symmetric])
  have w: "baud_rate (uart_write8 1 hi (uart_write8 0 lo u)) = push_bit 8 hi OR lo"
    using assms(1) b
    by (auto simp: write_data_def uart_write1_def word_bits_eq_iff bit_simps mask_bits)
  have lo: "(push_bit 8 hi OR lo) AND 0xFF = lo"
    using b by (auto simp: word_bits_eq_iff bit_simps mask_bits)
  have hi: "signed_drop_bit 8 (push_bit 8 hi OR lo) = hi"
    using assms(2,3) by (auto simp: word_bits_eq_iff bit_simps fits_bits)
  have "has_bits (line_control (uart_write8 1 hi (uart_write8 0 lo u))) DLAB"
    using assms(1) by (simp add: write_data_def uart_write1_def)
  then show ?thesis using w lo hi by (simp add: Let_def uart_read0_def uart_read1_def)
qed

theorem uart_divisor_roundtrip_witness:
  "let u' = uart_write8 1 0x01 (uart_write8 0 0x80 (uart_write8 3 0x83 (UART 0x3F8)))
   in baud_rate u' = 0x180 \<and> fst (uart_read8 0 u') = 0x80 \<and> fst (uart_read8 1 u') = 0x01"
  using uart_divisor_roundtrip [of "uart_write8 3 0x83 (UART 0x3F8)" "0x80" "0x01"]
  by (simp add: uart_write3_def fits_def Let_def)

text \<open>
  A modem line: after \<open>set_modem_status_bit\<close> for one of the four lines, its
  status bit has the new level, its delta bit is set exactly if it was set before or the level
  changed, no other bit of the modem status changes, and a set delta bit makes the modem status
  interrupt pending.
\<close>

theorem uart_modem_delta:
  assumes "n \<in> {UART_MSR_CTS, UART_MSR_DSR, UART_MSR_RI, UART_MSR_DCD}" "fits 8 (modem_status u)"
  shows "let u' = set_modem_status_bit n on u
    in bit (modem_status u') n = on \<and>
       bit (modem_status u') (n - 4) = (bit (modem_status u) (n - 4) \<or> bit (modem_status u) n \<noteq> on) \<and>
       (\<forall>i. i \<notin> {n, n - 4} \<longrightarrow> bit (modem_status u') i = bit (modem_status u) i) \<and>
       (bit (modem_status u') (n - 4) \<longrightarrow> bit (ints u') UART_IIR_MSI)"
proof -
  define ms where "ms = modem_status (set_modem_status_bit n on u)"
  define new where "new = (if on then modem_status u OR push_bit n 1 else modem_status u AND NOT (push_bit n 1))"
  have n: "n < 8" "4 \<le> n" using assms(1) by auto
  have new: "bit new i = (if i = n then on else bit (modem_status u) i)" for i
    using n by (auto simp: new_def bit_simps dest: bit_imp_le_length)
  have old: "\<not> bit (modem_status u) 31" using assms(2) by (simp add: fits_bits)
  have delta: "bit (signed_drop_bit 4 (modem_status u XOR new)) i \<longleftrightarrow> i = n - 4 \<and> bit (modem_status u) n \<noteq> on" for i
    using n old by (auto simp: bit_signed_drop_bit_iff bit_xor_iff new)
  have "ms = new OR signed_drop_bit 4 (modem_status u XOR new)"
    by (simp add: ms_def set_modem_status_bit_def new_def Let_def)
  then have ms: "bit ms i = (if i = n then on else if i = n - 4
      then bit (modem_status u) i \<or> bit (modem_status u) n \<noteq> on else bit (modem_status u) i)" for i
    using n by (auto simp: bit_or_iff new delta)
  have "bit (ms AND 0xF) (n - 4) = bit ms (n - 4)"
    using n by (auto simp: bit_and_iff mask_bits)
  then have "bit ms (n - 4) \<Longrightarrow> has_bits ms 0xF" by force
  then have "bit ms (n - 4) \<Longrightarrow> bit (ints (set_modem_status_bit n on u)) UART_IIR_MSI"
    by (auto simp: ms_def set_modem_status_bit_def Let_def ThrowInterrupt_def bit_simps split: if_splits)
  moreover have "n - 4 \<noteq> n" using n by simp
  ultimately show ?thesis unfolding Let_def ms_def [symmetric] by (simp add: ms)
qed

theorem uart_modem_delta_witness:
  "let u' = set_modem_status_bit UART_MSR_DCD True (UART 0x3F8)
   in bit (modem_status u') 7 \<and> bit (modem_status u') 3 \<and> bit (ints u') 0"
  using uart_modem_delta [of UART_MSR_DCD "UART 0x3F8" True]
  by (simp add: Let_def UART_def fits_def)

text \<open>
  Registering a serial port at one of its four base addresses makes the eight ports from
  the base on decode to its handlers: a byte read or written at \<open>base + k\<close> is handled by
  the register at offset \<open>k\<close> of the device.
\<close>

theorem uart_ports_decode:
  assumes "port \<in> {0x3F8, 0x2F8, 0x3E8, 0x2E8}" "k < 8" "k' < 8" "k' \<noteq> 6"
  shows "\<exists>ports. UART_register port dev get put IO_ports = Some ports \<and>
    port_read8 (port + k) ports m = Some (let (x, u) = uart_read8 k (get m) in (x, put u m)) \<and>
    port_write8 (port + k') x ports m = Some (put (uart_write8 k' x (get m)) m)"
proof -
  have k: "k \<in> {0, 1, 2, 3, 4, 5, 6, 7}" "k' \<in> {0, 1, 2, 3, 4, 5, 7}" using assms by auto
  have or: "port OR 1 = port + 1" "port OR 2 = port + 2" "port OR 3 = port + 3" "port OR 4 = port + 4"
    "port OR 5 = port + 5" "port OR 6 = port + 6" "port OR 7 = port + 7"
    using assms(1) by auto
  have b: "port + 7 < 65536" using assms(1) by auto
  show ?thesis
    using k b unfolding UART_register_def or
    by (auto simp: register_read_def register_write_def port_access_defs lift_defs)
qed

theorem uart_ports_decode_witness:
  "\<exists>ports. UART_register 0x3F8 1 id (\<lambda>u m. u) IO_ports = Some ports \<and>
    port_read8 0x3FD ports (UART 0x3F8) = Some (0x60, UART 0x3F8)"
  using uart_ports_decode [of "0x3F8" 5 0 1 id "\<lambda>u m. u" "UART 0x3F8" 0]
  by (auto simp: uart_read5_def UART_def)

text \<open>
  A saved state carries every register of the serial port but not the bytes waiting in
  its input: restored into a fresh port it reproduces the registers, and when input was waiting
  the line status still reports data ready although the restored input is empty, so that the next
  read of the data port returns 0 instead of the waiting byte.
\<close>

theorem uart_restore_loses_input:
  assumes "reachable uart_event_ok uart_step (UART port) u"
  shows "let v = uart_set_state (uart_get_state u) (UART port)
    in uart_get_state v = uart_get_state u \<and> input v = [] \<and>
       (input u \<noteq> [] \<longrightarrow> bit (fst (uart_read8 5 v)) 0 \<and>
         (line_control u AND DLAB = 0 \<longrightarrow> fst (uart_read8 0 v) = 0))"
  using uartm.reachable_inv [OF assms]
  by (auto simp: Let_def uart_set_state_def uart_get_state_def UART_def uart_inv_def uart_ready_inv_def
      uart_read5_def uart_read0_def)

theorem uart_restore_loses_input_witness:
  "let u = run uart_step [Input 0x41] (UART 0x3F8); v = uart_set_state (uart_get_state u) (UART 0x3F8)
   in fst (uart_read8 0 u) = 0x41 \<and> fst (uart_read8 0 v) = 0"
proof -
  define u where "u = run uart_step [Input 0x41] (UART 0x3F8)"
  have "reachable uart_event_ok uart_step (UART 0x3F8) u"
    unfolding u_def by (rule reachable_run [OF reachable.start]) (simp add: fits_def)
  note * = uart_restore_loses_input [OF this]
  have "input u = [0x41]" "line_control u = 0" by (simp_all add: u_def UART_def)
  with * show ?thesis
    unfolding u_def [symmetric] by (simp add: Let_def uart_read0_Cons)
qed

end
