(* ===== verification/Ps2.thy ===== *)
theory Ps2
  imports Device Lib_Queue
begin

text \<open>
  The 8042 keyboard and mouse controller of \<open>src/ps2.js\<close>. The state is that of the
  object, with its two \<open>ByteQueue\<close>s; the timestamp \<open>last_mouse_packet\<close>, which is
  written and never read, is left out. Mouse deltas and wheel movements come from the host as
  JavaScript numbers that need not be integers: they are rationals here, added exactly.
\<close>

section \<open>State\<close>

record ps2 =
  enable_mouse_stream :: bool
  use_mouse :: bool
  have_mouse :: bool
  mouse_delta_x :: rat
  mouse_delta_y :: rat
  mouse_clicks :: i32
  have_keyboard :: bool
  enable_keyboard_stream :: bool
  next_is_mouse_command :: bool
  next_read_sample :: bool
  next_read_led :: bool
  next_handle_scan_code_set :: bool
  next_read_rate :: bool
  next_read_resolution :: bool
  kbd_buffer :: byte_queue
  last_port60_byte :: int
  sample_rate :: i32
  mouse_detect_state :: int
  mouse_id :: int
  mouse_reset_workaround :: bool
  wheel_movement :: rat
  resolution :: int
  scaling2 :: bool
  mouse_buffer :: byte_queue
  next_byte_is_ready :: bool
  next_byte_is_aux :: bool
  command_register :: i32
  controller_output_port :: i32
  read_output_register :: bool
  read_command_register :: bool
  read_controller_output_port :: bool
  ps2_log :: "effect list"

definition ps2_emit :: "effect \<Rightarrow> ps2 \<Rightarrow> ps2" where
  "ps2_emit e s = s\<lparr>ps2_log := ps2_log s @ [e]\<rparr>"

text \<open>\<open>reset\<close> sets every field; the log is that of the machine so far.\<close>

definition ps2_reset :: "effect list \<Rightarrow> ps2" where
  "ps2_reset es =
     \<lparr>enable_mouse_stream = False, use_mouse = False, have_mouse = True,
      mouse_delta_x = 0, mouse_delta_y = 0, mouse_clicks = 0,
      have_keyboard = True, enable_keyboard_stream = False, next_is_mouse_command = False,
      next_read_sample = False, next_read_led = False, next_handle_scan_code_set = False,
      next_read_rate = False, next_read_resolution = False, kbd_buffer = ByteQueue 1024,
      last_port60_byte = 0, sample_rate = 100, mouse_detect_state = 0, mouse_id = 0x00,
      mouse_reset_workaround = False, wheel_movement = 0, resolution = 4, scaling2 = False,
      mouse_buffer = ByteQueue 1024, next_byte_is_ready = False, next_byte_is_aux = False,
      command_register = 1 OR 4, controller_output_port = 0, read_output_register = False,
      read_command_register = False, read_controller_output_port = False, ps2_log = es\<rparr>"

abbreviation kbd_push :: "int \<Rightarrow> ps2 \<Rightarrow> ps2" where
  "kbd_push b s \<equiv> s\<lparr>kbd_buffer := bq_push b (kbd_buffer s)\<rparr>"

abbreviation mouse_push :: "int \<Rightarrow> ps2 \<Rightarrow> ps2" where
  "mouse_push b s \<equiv> s\<lparr>mouse_buffer := bq_push b (mouse_buffer s)\<rparr>"

abbreviation kbd_clear :: "ps2 \<Rightarrow> ps2" where
  "kbd_clear s \<equiv> s\<lparr>kbd_buffer := bq_clear (kbd_buffer s)\<rparr>"

abbreviation mouse_clear :: "ps2 \<Rightarrow> ps2" where
  "mouse_clear s \<equiv> s\<lparr>mouse_buffer := bq_clear (mouse_buffer s)\<rparr>"

section \<open>Interrupts\<close>

definition mouse_stream_active :: "ps2 \<Rightarrow> bool" where
  "mouse_stream_active s \<longleftrightarrow> enable_mouse_stream s \<and> \<not> has_bits (command_register s) 0x20"

definition mouse_irq :: "ps2 \<Rightarrow> ps2" where
  "mouse_irq s =
     (let s1 = s\<lparr>next_byte_is_ready := True, next_byte_is_aux := True\<rparr>
      in if has_bits (command_register s1) 2 then ps2_emit (RaiseIrq 12) (ps2_emit (LowerIrq 12) s1) else s1)"

definition kbd_irq :: "ps2 \<Rightarrow> ps2" where
  "kbd_irq s =
     (let s1 = s\<lparr>next_byte_is_ready := True, next_byte_is_aux := False\<rparr>
      in if has_bits (command_register s1) 1 then ps2_emit (RaiseIrq 1) (ps2_emit (LowerIrq 1) s1) else s1)"

definition raise_irq :: "ps2 \<Rightarrow> ps2" where
  "raise_irq s =
     (if next_byte_is_ready s then s
      else if bq_length (kbd_buffer s) \<noteq> 0 then kbd_irq s
      else if bq_length (mouse_buffer s) \<noteq> 0 then mouse_irq s else s)"

section \<open>Input from the host\<close>

definition kbd_send_code :: "int \<Rightarrow> ps2 \<Rightarrow> ps2" where
  "kbd_send_code code s = (if enable_keyboard_stream s then raise_irq (kbd_push code s) else s)"

definition send_mouse_packet :: "int \<Rightarrow> int \<Rightarrow> ps2 \<Rightarrow> ps2" where
  "send_mouse_packet dx dy s =
     (let info_byte = push_bit 5 (of_bool (dy < 0)) OR push_bit 4 (of_bool (dx < 0)) OR push_bit 3 1
                        OR mouse_clicks s;
          s1 = mouse_push dy (mouse_push dx (mouse_push (sint info_byte) s));
          s2 = (if mouse_id s1 = 0x04
                then (mouse_push (sint (js_to_int32 (wheel_movement s1) AND 0x0F)) s1)\<lparr>wheel_movement := 0\<rparr>
                else if mouse_id s1 = 0x03
                then (mouse_push (sint (js_to_int32 (wheel_movement s1) AND 0xFF)) s1)\<lparr>wheel_movement := 0\<rparr>
                else s1)
      in raise_irq s2)"

definition mouse_send_delta :: "rat \<Rightarrow> rat \<Rightarrow> ps2 \<Rightarrow> ps2" where
  "mouse_send_delta delta_x delta_y s =
     (if \<not> have_mouse s \<or> \<not> use_mouse s then s
      else let s1 = s\<lparr>mouse_delta_x := mouse_delta_x s + delta_x, mouse_delta_y := mouse_delta_y s + delta_y\<rparr>
           in if mouse_stream_active s1
              then let change_x = sint (js_to_int32 (mouse_delta_x s1));
                       change_y = sint (js_to_int32 (mouse_delta_y s1))
                   in if change_x \<noteq> 0 \<or> change_y \<noteq> 0
                      then send_mouse_packet change_x change_y
                             (s1\<lparr>mouse_delta_x := mouse_delta_x s1 - of_int change_x,
                                 mouse_delta_y := mouse_delta_y s1 - of_int change_y\<rparr>)
                      else s1
              else s1)"

definition mouse_send_click :: "bool \<Rightarrow> bool \<Rightarrow> bool \<Rightarrow> ps2 \<Rightarrow> ps2" where
  "mouse_send_click left middle right s =
     (if \<not> have_mouse s \<or> \<not> use_mouse s then s
      else let s1 = s\<lparr>mouse_clicks := of_bool left OR push_bit 1 (of_bool right) OR push_bit 2 (of_bool middle)\<rparr>
           in if mouse_stream_active s1 then send_mouse_packet 0 0 s1 else s1)"

text \<open>The listener of the \<open>mouse-wheel\<close> message.\<close>

definition mouse_wheel :: "rat \<Rightarrow> rat \<Rightarrow> ps2 \<Rightarrow> ps2" where
  "mouse_wheel dy dx s =
     (if \<not> have_mouse s \<or> \<not> use_mouse s \<or> \<not> mouse_stream_active s then s
      else let s1 = s\<lparr>wheel_movement := wheel_movement s - dy\<rparr>;
               s2 = s1\<lparr>wheel_movement := wheel_movement s1 - dx * 2\<rparr>;
               s3 = s2\<lparr>wheel_movement := min 7 (max (-8) (wheel_movement s2))\<rparr>
           in send_mouse_packet 0 0 s3)"

text \<open>\<open>apply_scaling2\<close>, whose calls are commented out; \<open>n >> 31\<close> is the sign mask.\<close>

definition apply_scaling2 :: "i32 \<Rightarrow> int" where
  "apply_scaling2 n =
     (let a = \<bar>sint n\<bar>; sign = sint (signed_drop_bit 31 n)
      in if a = 0 \<or> a = 1 \<or> a = 3 then sint n
         else if a = 2 then sign
         else if a = 4 then 6 * sign
         else if a = 5 then 9 * sign
         else sint (push_bit 1 n))"

section \<open>Ports\<close>

definition port60_read :: "ps2 \<Rightarrow> i32 \<times> ps2" where
  "port60_read s =
     (let s1 = s\<lparr>next_byte_is_ready := False\<rparr>
      in if bq_length (kbd_buffer s1) = 0 \<and> bq_length (mouse_buffer s1) = 0
         then (word_of_int (last_port60_byte s1), s1)
         else let s2 = (if next_byte_is_aux s1
                        then let (b, q) = bq_shift (mouse_buffer s1)
                             in (ps2_emit (LowerIrq 12) s1)\<lparr>mouse_buffer := q, last_port60_byte := b\<rparr>
                        else let (b, q) = bq_shift (kbd_buffer s1)
                             in (ps2_emit (LowerIrq 1) s1)\<lparr>kbd_buffer := q, last_port60_byte := b\<rparr>);
                  s3 = (if bq_length (kbd_buffer s2) \<noteq> 0 \<or> bq_length (mouse_buffer s2) \<noteq> 0
                        then raise_irq s2 else s2)
              in (word_of_int (last_port60_byte s3), s3))"

definition port64_read :: "ps2 \<Rightarrow> i32 \<times> ps2" where
  "port64_read s =
     (let status_byte = 0x10;
          status_byte = (if next_byte_is_ready s then status_byte OR 0x1 else status_byte);
          status_byte = (if next_byte_is_aux s then status_byte OR 0x20 else status_byte)
      in (status_byte, s))"

text \<open>The detection of the wheel mouse from the sequence of sample rates.\<close>

definition mouse_detect :: "i32 \<Rightarrow> ps2 \<Rightarrow> ps2" where
  "mouse_detect b s =
     (if mouse_detect_state s = -1
      then if b = 60 then s\<lparr>mouse_reset_workaround := True, mouse_detect_state := 0\<rparr>
           else s\<lparr>mouse_reset_workaround := False, mouse_detect_state := (if b = 200 then 1 else 0)\<rparr>
      else if mouse_detect_state s = 0
      then if b = 200 then s\<lparr>mouse_detect_state := 1\<rparr> else s
      else if mouse_detect_state s = 1
      then s\<lparr>mouse_detect_state := (if b = 100 then 2 else if b = 200 then 3 else 0)\<rparr>
      else if mouse_detect_state s = 2
      then (if b = 80 then s\<lparr>mouse_id := 0x03\<rparr> else s)\<lparr>mouse_detect_state := -1\<rparr>
      else if mouse_detect_state s = 3
      then (if b = 80 then s\<lparr>mouse_id := 0x04\<rparr> else s)\<lparr>mouse_detect_state := -1\<rparr>
      else s)"

definition write_sample_rate :: "i32 \<Rightarrow> ps2 \<Rightarrow> ps2" where
  "write_sample_rate b s =
     (let s1 = mouse_push 0xFA (mouse_clear (s\<lparr>next_read_sample := False\<rparr>));
          s2 = mouse_detect b (s1\<lparr>sample_rate := b\<rparr>);
          s3 = (if sample_rate s2 = 0 then s2\<lparr>sample_rate := 100\<rparr> else s2)
      in mouse_irq s3)"

definition write_resolution :: "i32 \<Rightarrow> ps2 \<Rightarrow> ps2" where
  "write_resolution b s =
     (let s1 = mouse_push 0xFA (mouse_clear (s\<lparr>next_read_resolution := False\<rparr>));
          s2 = (if sint b > 3 then s1\<lparr>resolution := 4\<rparr> else s1\<lparr>resolution := sint (push_bit (unat (b AND 0x1F)) 1 :: i32)\<rparr>)
      in mouse_irq s2)"

definition mouse_clicks_reset :: "ps2 \<Rightarrow> ps2" where
  "mouse_clicks_reset s = s\<lparr>mouse_clicks := 0, mouse_delta_x := 0, mouse_delta_y := 0\<rparr>"

text \<open>The switch over a command byte for the mouse.\<close>

definition mouse_command :: "i32 \<Rightarrow> ps2 \<Rightarrow> ps2" where
  "mouse_command b s =
     (if b = 0xE6 then s\<lparr>scaling2 := False\<rparr>
      else if b = 0xE7 then s\<lparr>scaling2 := True\<rparr>
      else if b = 0xE8 then s\<lparr>next_read_resolution := True\<rparr>
      else if b = 0xE9 then send_mouse_packet 0 0 s
      else if b = 0xEB then send_mouse_packet 0 0 s
      else if b = 0xF2 then raise_irq (mouse_clicks_reset (mouse_push (mouse_id s) s))
      else if b = 0xF3 then s\<lparr>next_read_sample := True\<rparr>
      else if b = 0xF4
      then mouse_clicks_reset (ps2_emit (BusSend ''mouse-enable'' (JBool True))
             (s\<lparr>enable_mouse_stream := True, use_mouse := True\<rparr>))
      else if b = 0xF5 then s\<lparr>enable_mouse_stream := False\<rparr>
      else if b = 0xF6
      then s\<lparr>enable_mouse_stream := False, sample_rate := 100, scaling2 := False, resolution := 4\<rparr>
      else if b = 0xFF
      then let s1 = mouse_push 0 (mouse_push 0xAA s);
               s2 = ps2_emit (BusSend ''mouse-enable'' (JBool True)) (s1\<lparr>use_mouse := True\<rparr>);
               s3 = s2\<lparr>enable_mouse_stream := False, sample_rate := 100, scaling2 := False, resolution := 4\<rparr>;
               s4 = (if mouse_reset_workaround s3 then s3 else s3\<lparr>mouse_id := 0x00\<rparr>)
           in mouse_clicks_reset s4
      else s)"

definition write_mouse_command :: "i32 \<Rightarrow> ps2 \<Rightarrow> ps2" where
  "write_mouse_command b s =
     (let s1 = s\<lparr>next_is_mouse_command := False\<rparr>
      in if \<not> have_mouse s1 then s1
         else mouse_irq (mouse_command b (mouse_push 0xFA (mouse_clear (kbd_clear s1)))))"

text \<open>The switch over a command byte for the keyboard.\<close>

definition kbd_command :: "i32 \<Rightarrow> ps2 \<Rightarrow> ps2" where
  "kbd_command b s =
     (if b = 0xED then s\<lparr>next_read_led := True\<rparr>
      else if b = 0xF0 then s\<lparr>next_handle_scan_code_set := True\<rparr>
      else if b = 0xF2 then kbd_push 0x83 (kbd_push 0xAB s)
      else if b = 0xF3 then s\<lparr>next_read_rate := True\<rparr>
      else if b = 0xF4 then s\<lparr>enable_keyboard_stream := True\<rparr>
      else if b = 0xF5 then s\<lparr>enable_keyboard_stream := False\<rparr>
      else if b = 0xF6 then s
      else if b = 0xFF then kbd_push 0 (kbd_push 0xAA (kbd_push 0xFA (kbd_clear s)))
      else s)"

definition port60_write :: "i32 \<Rightarrow> ps2 \<Rightarrow> ps2" where
  "port60_write write_byte s =
     (if read_command_register s
      then s\<lparr>command_register := write_byte, read_command_register := False\<rparr>
      else if read_output_register s
      then mouse_irq (mouse_push (sint write_byte) (mouse_clear (s\<lparr>read_output_register := False\<rparr>)))
      else if next_read_sample s then write_sample_rate write_byte s
      else if next_read_resolution s then write_resolution write_byte s
      else if next_read_led s then kbd_irq (kbd_push 0xFA (s\<lparr>next_read_led := False\<rparr>))
      else if next_handle_scan_code_set s
      then let s1 = kbd_irq (kbd_push 0xFA (s\<lparr>next_handle_scan_code_set := False\<rparr>))
           in if write_byte \<noteq> 0 then s1 else kbd_push 1 s1
      else if next_read_rate s then kbd_irq (kbd_push 0xFA (s\<lparr>next_read_rate := False\<rparr>))
      else if next_is_mouse_command s then write_mouse_command write_byte s
      else if read_controller_output_port s
      then s\<lparr>read_controller_output_port := False, controller_output_port := write_byte\<rparr>
      else kbd_irq (kbd_command write_byte (kbd_push 0xFA (kbd_clear (mouse_clear s)))))"

text \<open>Clear both buffers and answer with one byte from the keyboard side.\<close>

definition kbd_reply :: "i32 \<Rightarrow> ps2 \<Rightarrow> ps2" where
  "kbd_reply b s = kbd_irq (kbd_push (sint b) (mouse_clear (kbd_clear s)))"

definition port64_write :: "i32 \<Rightarrow> ps2 \<Rightarrow> ps2" where
  "port64_write write_byte s =
     (if write_byte = 0x20 then kbd_reply (command_register s) s
      else if write_byte = 0x60 then s\<lparr>read_command_register := True\<rparr>
      else if write_byte = 0xD0 then kbd_reply (controller_output_port s) s
      else if write_byte = 0xD1 then s\<lparr>read_controller_output_port := True\<rparr>
      else if write_byte = 0xD3 then s\<lparr>read_output_register := True\<rparr>
      else if write_byte = 0xD4 then s\<lparr>next_is_mouse_command := True\<rparr>
      else if write_byte = 0xA7 then s\<lparr>command_register := command_register s OR 0x20\<rparr>
      else if write_byte = 0xA8 then s\<lparr>command_register := command_register s AND NOT 0x20\<rparr>
      else if write_byte = 0xA9 then kbd_reply 0 s
      else if write_byte = 0xAA then kbd_reply 0x55 s
      else if write_byte = 0xAB then kbd_reply 0 s
      else if write_byte = 0xAD then s\<lparr>command_register := command_register s OR 0x10\<rparr>
      else if write_byte = 0xAE then s\<lparr>command_register := command_register s AND NOT 0x10\<rparr>
      else if write_byte = 0xFE then ps2_emit (RebootInternal ''8042'') s
      else s)"

definition PS2_register ::
  "nat \<Rightarrow> ('m \<Rightarrow> ps2) \<Rightarrow> (ps2 \<Rightarrow> 'm \<Rightarrow> 'm) \<Rightarrow> 'm ports \<Rightarrow> 'm ports option" where
  "PS2_register dev get put = reg_seq
     [register_read 0x60 dev (Some (lift_read get put port60_read)) None None,
      register_read 0x64 dev (Some (lift_read get put port64_read)) None None,
      register_write 0x60 dev (Some (lift_write get put port60_write)) None None,
      register_write 0x64 dev (Some (lift_write get put port64_write)) None None]"

section \<open>Saved states\<close>

text \<open>The last three fields are missing in older snapshots.\<close>

record ps2_state =
  st_enable_mouse_stream :: bool
  st_use_mouse :: bool
  st_have_mouse :: bool
  st_mouse_delta_x :: rat
  st_mouse_delta_y :: rat
  st_mouse_clicks :: i32
  st_have_keyboard :: bool
  st_enable_keyboard_stream :: bool
  st_next_is_mouse_command :: bool
  st_next_read_sample :: bool
  st_next_read_led :: bool
  st_next_handle_scan_code_set :: bool
  st_next_read_rate :: bool
  st_next_read_resolution :: bool
  st_last_port60_byte :: int
  st_sample_rate :: i32
  st_resolution :: int
  st_scaling2 :: bool
  st_command_register :: i32
  st_read_output_register :: bool
  st_read_command_register :: bool
  st_controller_output_port :: i32
  st_read_controller_output_port :: bool
  st_mouse_id :: "int option"
  st_mouse_detect_state :: "int option"
  st_mouse_reset_workaround :: "bool option"

definition ps2_get_state :: "ps2 \<Rightarrow> ps2_state" where
  "ps2_get_state s =
     \<lparr>st_enable_mouse_stream = enable_mouse_stream s, st_use_mouse = use_mouse s, st_have_mouse = have_mouse s,
      st_mouse_delta_x = mouse_delta_x s, st_mouse_delta_y = mouse_delta_y s, st_mouse_clicks = mouse_clicks s,
      st_have_keyboard = have_keyboard s, st_enable_keyboard_stream = enable_keyboard_stream s,
      st_next_is_mouse_command = next_is_mouse_command s, st_next_read_sample = next_read_sample s,
      st_next_read_led = next_read_led s, st_next_handle_scan_code_set = next_handle_scan_code_set s,
      st_next_read_rate = next_read_rate s, st_next_read_resolution = next_read_resolution s,
      st_last_port60_byte = last_port60_byte s, st_sample_rate = sample_rate s, st_resolution = resolution s,
      st_scaling2 = scaling2 s, st_command_register = command_register s,
      st_read_output_register = read_output_register s, st_read_command_register = read_command_register s,
      st_controller_output_port = controller_output_port s,
      st_read_controller_output_port = read_controller_output_port s,
      st_mouse_id = Some (mouse_id s), st_mouse_detect_state = Some (mouse_detect_state s),
      st_mouse_reset_workaround = Some (mouse_reset_workaround s)\<rparr>"

definition or_default :: "'a \<Rightarrow> 'a option \<Rightarrow> 'a" where
  "or_default d x = (case x of None \<Rightarrow> d | Some v \<Rightarrow> v)"

definition ps2_set_state :: "ps2_state \<Rightarrow> ps2 \<Rightarrow> ps2" where
  "ps2_set_state st s0 =
     (let s = s0\<lparr>enable_mouse_stream := st_enable_mouse_stream st, use_mouse := st_use_mouse st,
        have_mouse := st_have_mouse st, mouse_delta_x := st_mouse_delta_x st,
        mouse_delta_y := st_mouse_delta_y st, mouse_clicks := st_mouse_clicks st,
        have_keyboard := st_have_keyboard st, enable_keyboard_stream := st_enable_keyboard_stream st,
        next_is_mouse_command := st_next_is_mouse_command st, next_read_sample := st_next_read_sample st,
        next_read_led := st_next_read_led st, next_handle_scan_code_set := st_next_handle_scan_code_set st,
        next_read_rate := st_next_read_rate st, next_read_resolution := st_next_read_resolution st,
        last_port60_byte := st_last_port60_byte st, sample_rate := st_sample_rate st,
        resolution := st_resolution st, scaling2 := st_scaling2 st, command_register := st_command_register st,
        read_output_register := st_read_output_register st, read_command_register := st_read_command_register st,
        controller_output_port := st_controller_output_port st,
        read_controller_output_port := st_read_controller_output_port st,
        mouse_id := or_default 0 (st_mouse_id st), mouse_detect_state := or_default 0 (st_mouse_detect_state st),
        mouse_reset_workaround := or_default False (st_mouse_reset_workaround st),
        next_byte_is_ready := False, next_byte_is_aux := False,
        kbd_buffer := bq_clear (kbd_buffer s0), mouse_buffer := bq_clear (mouse_buffer s0)\<rparr>
      in ps2_emit (BusSend ''mouse-enable'' (JBool (use_mouse s))) s)"

section \<open>Events\<close>

datatype ps2_event =
    KeyboardCode int
  | MouseClick bool bool bool
  | MouseDelta rat rat
  | MouseWheel rat rat
  | Read60 | Read64
  | Write60 i32 | Write64 i32

fun ps2_step :: "ps2_event \<Rightarrow> ps2 \<Rightarrow> ps2" where
  "ps2_step (KeyboardCode c) s = kbd_send_code c s"
| "ps2_step (MouseClick l m r) s = mouse_send_click l m r s"
| "ps2_step (MouseDelta x y) s = mouse_send_delta x y s"
| "ps2_step (MouseWheel y x) s = mouse_wheel y x s"
| "ps2_step Read60 s = snd (port60_read s)"
| "ps2_step Read64 s = snd (port64_read s)"
| "ps2_step (Write60 b) s = port60_write b s"
| "ps2_step (Write64 b) s = port64_write b s"

section \<open>Invariant\<close>

text \<open>
  The buffers are well-formed, the output-buffer-full flag tells whether a byte waits, and the
  side it announces is the one that has a byte.
\<close>

definition ps2_buffers_inv :: "ps2 \<Rightarrow> bool" where
  "ps2_buffers_inv s \<longleftrightarrow>
     bq_wf (kbd_buffer s) \<and> bq_wf (mouse_buffer s) \<and>
     bq_size (kbd_buffer s) = 1024 \<and> bq_size (mouse_buffer s) = 1024"

definition ps2_ready_inv :: "ps2 \<Rightarrow> bool" where
  "ps2_ready_inv s \<longleftrightarrow>
     next_byte_is_ready s = (0 < bq_length (kbd_buffer s) \<or> 0 < bq_length (mouse_buffer s)) \<and>
     (next_byte_is_ready s \<longrightarrow>
        (if next_byte_is_aux s then 0 < bq_length (mouse_buffer s) else 0 < bq_length (kbd_buffer s)))"

definition ps2_mouse_inv :: "ps2 \<Rightarrow> bool" where
  "ps2_mouse_inv s \<longleftrightarrow>
     sample_rate s \<noteq> 0 \<and> resolution s \<in> {1, 2, 4, 8} \<and> mouse_id s \<in> {0, 3, 4} \<and>
     mouse_detect_state s \<in> {-1, 0, 1, 2, 3} \<and> -8 \<le> wheel_movement s \<and> wheel_movement s \<le> 7"

definition ps2_inv :: "ps2 \<Rightarrow> bool" where
  "ps2_inv s \<longleftrightarrow> ps2_buffers_inv s \<and> ps2_ready_inv s \<and> ps2_mouse_inv s"

lemma bq_push_pos: "bq_size q = 1024 \<Longrightarrow> 0 < bq_length (bq_push x q)"
  by (simp add: bq_length_push)

lemma emit_fields [simp]:
  "kbd_buffer (ps2_emit e s) = kbd_buffer s" "mouse_buffer (ps2_emit e s) = mouse_buffer s"
  "next_byte_is_ready (ps2_emit e s) = next_byte_is_ready s" "next_byte_is_aux (ps2_emit e s) = next_byte_is_aux s"
  "command_register (ps2_emit e s) = command_register s" "mouse_id (ps2_emit e s) = mouse_id s"
  "wheel_movement (ps2_emit e s) = wheel_movement s" "last_port60_byte (ps2_emit e s) = last_port60_byte s"
  "sample_rate (ps2_emit e s) = sample_rate s" "resolution (ps2_emit e s) = resolution s"
  "mouse_detect_state (ps2_emit e s) = mouse_detect_state s"
  "mouse_reset_workaround (ps2_emit e s) = mouse_reset_workaround s"
  "mouse_delta_x (ps2_emit e s) = mouse_delta_x s" "mouse_delta_y (ps2_emit e s) = mouse_delta_y s"
  by (simp_all add: ps2_emit_def)

lemma irq_fields [simp]:
  "kbd_buffer (mouse_irq s) = kbd_buffer s" "mouse_buffer (mouse_irq s) = mouse_buffer s"
  "kbd_buffer (kbd_irq s) = kbd_buffer s" "mouse_buffer (kbd_irq s) = mouse_buffer s"
  "next_byte_is_ready (mouse_irq s)" "next_byte_is_aux (mouse_irq s)"
  "next_byte_is_ready (kbd_irq s)" "\<not> next_byte_is_aux (kbd_irq s)"
  "kbd_buffer (raise_irq s) = kbd_buffer s" "mouse_buffer (raise_irq s) = mouse_buffer s"
  "last_port60_byte (raise_irq s) = last_port60_byte s"
  "last_port60_byte (kbd_irq s) = last_port60_byte s" "last_port60_byte (mouse_irq s) = last_port60_byte s"
  "mouse_delta_x (raise_irq s) = mouse_delta_x s" "mouse_delta_y (raise_irq s) = mouse_delta_y s"
  by (simp_all add: mouse_irq_def kbd_irq_def raise_irq_def Let_def)

lemma mouse_inv_frame [simp]:
  "ps2_mouse_inv (mouse_irq s) = ps2_mouse_inv s" "ps2_mouse_inv (kbd_irq s) = ps2_mouse_inv s"
  "ps2_mouse_inv (raise_irq s) = ps2_mouse_inv s" "ps2_mouse_inv (ps2_emit e s) = ps2_mouse_inv s"
  "ps2_mouse_inv (s\<lparr>kbd_buffer := q\<rparr>) = ps2_mouse_inv s" "ps2_mouse_inv (s\<lparr>mouse_buffer := q\<rparr>) = ps2_mouse_inv s"
  "ps2_mouse_inv (mouse_clicks_reset s) = ps2_mouse_inv s"
  by (simp_all add: ps2_mouse_inv_def mouse_irq_def kbd_irq_def raise_irq_def Let_def mouse_clicks_reset_def)

lemma buffers_inv_frame [simp]:
  "ps2_buffers_inv (mouse_irq s) = ps2_buffers_inv s" "ps2_buffers_inv (kbd_irq s) = ps2_buffers_inv s"
  "ps2_buffers_inv (raise_irq s) = ps2_buffers_inv s" "ps2_buffers_inv (ps2_emit e s) = ps2_buffers_inv s"
  by (simp_all add: ps2_buffers_inv_def)

lemma buffers_inv_ops:
  "ps2_buffers_inv s \<Longrightarrow> ps2_buffers_inv (kbd_push x s)" "ps2_buffers_inv s \<Longrightarrow> ps2_buffers_inv (mouse_push x s)"
  "ps2_buffers_inv s \<Longrightarrow> ps2_buffers_inv (kbd_clear s)" "ps2_buffers_inv s \<Longrightarrow> ps2_buffers_inv (mouse_clear s)"
  by (simp_all add: ps2_buffers_inv_def bq_wf_ops)

lemma ready_after_irq:
  "ps2_ready_inv (mouse_irq s) = (0 < bq_length (mouse_buffer s))"
  "ps2_ready_inv (kbd_irq s) = (0 < bq_length (kbd_buffer s))"
  by (auto simp: ps2_ready_inv_def)

text \<open>\<open>raise_irq\<close> restores the flags whenever a ready byte is still there.\<close>

lemma ready_after_raise:
  assumes "next_byte_is_ready s \<longrightarrow>
    (if next_byte_is_aux s then 0 < bq_length (mouse_buffer s) else 0 < bq_length (kbd_buffer s))"
  shows "ps2_ready_inv (raise_irq s)"
  using assms by (auto simp: raise_irq_def ps2_ready_inv_def)

lemma ps2_reset_inv: "ps2_inv (ps2_reset es)"
  using ByteQueue_inv [of 10]
  by (simp add: ps2_inv_def ps2_buffers_inv_def ps2_ready_inv_def ps2_mouse_inv_def ps2_reset_def bq_inv_def)
    (simp add: ByteQueue_def bq_clear_def)

section \<open>Every operation keeps the invariant\<close>

text \<open>What \<open>raise_irq\<close> needs of the flags, and what a push onto either buffer keeps.\<close>

definition ready_ok :: "ps2 \<Rightarrow> bool" where
  "ready_ok s \<longleftrightarrow> (next_byte_is_ready s \<longrightarrow>
     (if next_byte_is_aux s then 0 < bq_length (mouse_buffer s) else 0 < bq_length (kbd_buffer s)))"

lemma ready_inv_ok: "ps2_ready_inv s \<Longrightarrow> ready_ok s"
  unfolding ps2_ready_inv_def ready_ok_def by blast

lemma raise_irq_inv: "ps2_buffers_inv s \<Longrightarrow> ps2_mouse_inv s \<Longrightarrow> ready_ok s \<Longrightarrow> ps2_inv (raise_irq s)"
  unfolding ps2_inv_def ready_ok_def by (simp add: ready_after_raise)

lemma push_ready_ok:
  "ps2_buffers_inv s \<Longrightarrow> ready_ok s \<Longrightarrow> ready_ok (kbd_push x s)"
  "ps2_buffers_inv s \<Longrightarrow> ready_ok s \<Longrightarrow> ready_ok (mouse_push x s)"
  by (simp_all add: ready_ok_def bq_push_pos ps2_buffers_inv_def)

lemma kbd_send_code_inv: "ps2_inv s \<Longrightarrow> ps2_inv (kbd_send_code c s)"
  using push_ready_ok(1) [of s c] ready_inv_ok [of s]
  by (simp add: kbd_send_code_def raise_irq_inv ps2_inv_def [of s] buffers_inv_ops)

text \<open>The state a packet leaves for \<open>raise_irq\<close>.\<close>

definition packet_pushed :: "int \<Rightarrow> int \<Rightarrow> ps2 \<Rightarrow> ps2" where
  "packet_pushed dx dy s =
     (let info_byte = push_bit 5 (of_bool (dy < 0)) OR push_bit 4 (of_bool (dx < 0)) OR push_bit 3 1
                        OR mouse_clicks s;
          s1 = mouse_push dy (mouse_push dx (mouse_push (sint info_byte) s))
      in if mouse_id s1 = 0x04
         then (mouse_push (sint (js_to_int32 (wheel_movement s1) AND 0x0F)) s1)\<lparr>wheel_movement := 0\<rparr>
         else if mouse_id s1 = 0x03
         then (mouse_push (sint (js_to_int32 (wheel_movement s1) AND 0xFF)) s1)\<lparr>wheel_movement := 0\<rparr>
         else s1)"

lemma send_mouse_packet_eq: "send_mouse_packet dx dy s = raise_irq (packet_pushed dx dy s)"
  by (simp add: send_mouse_packet_def packet_pushed_def Let_def)

lemma packet_pushed_fields [simp]:
  "kbd_buffer (packet_pushed dx dy s) = kbd_buffer s" "mouse_delta_x (packet_pushed dx dy s) = mouse_delta_x s"
  "mouse_delta_y (packet_pushed dx dy s) = mouse_delta_y s"
  "next_byte_is_ready (packet_pushed dx dy s) = next_byte_is_ready s"
  "next_byte_is_aux (packet_pushed dx dy s) = next_byte_is_aux s"
  by (simp_all add: packet_pushed_def Let_def)

lemma packet_pushed_inv:
  assumes "ps2_buffers_inv s"
  shows "ps2_buffers_inv (packet_pushed dx dy s)"
    and "ps2_mouse_inv s \<Longrightarrow> ps2_mouse_inv (packet_pushed dx dy s)"
    and "0 < bq_length (mouse_buffer (packet_pushed dx dy s))"
  using assms
  by (auto simp: packet_pushed_def Let_def ps2_mouse_inv_def ps2_buffers_inv_def bq_wf_ops bq_push_pos)

lemma packet_pushed_ready_ok: "ps2_buffers_inv s \<Longrightarrow> ready_ok s \<Longrightarrow> ready_ok (packet_pushed dx dy s)"
  using packet_pushed_inv(3) [of s dx dy] by (simp add: ready_ok_def)

lemma send_mouse_packet_inv:
  "ps2_buffers_inv s \<Longrightarrow> ps2_mouse_inv s \<Longrightarrow> ready_ok s \<Longrightarrow> ps2_inv (send_mouse_packet dx dy s)"
  by (simp add: send_mouse_packet_eq raise_irq_inv packet_pushed_inv packet_pushed_ready_ok)

text \<open>The invariant reads nine fields only.\<close>

lemma ps2_inv_cong:
  assumes "kbd_buffer s' = kbd_buffer s" "mouse_buffer s' = mouse_buffer s"
    "next_byte_is_ready s' = next_byte_is_ready s" "next_byte_is_aux s' = next_byte_is_aux s"
    "sample_rate s' = sample_rate s" "resolution s' = resolution s" "mouse_id s' = mouse_id s"
    "mouse_detect_state s' = mouse_detect_state s" "wheel_movement s' = wheel_movement s"
  shows "ps2_inv s' = ps2_inv s"
  unfolding ps2_inv_def ps2_buffers_inv_def ps2_ready_inv_def ps2_mouse_inv_def assms ..

lemma ps2_inv_frame [simp]:
  "ps2_inv (s\<lparr>mouse_delta_x := x\<rparr>) = ps2_inv s" "ps2_inv (s\<lparr>mouse_delta_y := y\<rparr>) = ps2_inv s"
  "ps2_inv (s\<lparr>mouse_clicks := c\<rparr>) = ps2_inv s" "ps2_inv (ps2_emit e s) = ps2_inv s"
  "ps2_inv (s\<lparr>command_register := c\<rparr>) = ps2_inv s" "ps2_inv (s\<lparr>controller_output_port := c\<rparr>) = ps2_inv s"
  "ps2_inv (s\<lparr>read_command_register := b\<rparr>) = ps2_inv s" "ps2_inv (s\<lparr>read_output_register := b\<rparr>) = ps2_inv s"
  "ps2_inv (s\<lparr>read_controller_output_port := b\<rparr>) = ps2_inv s" "ps2_inv (s\<lparr>next_is_mouse_command := b\<rparr>) = ps2_inv s"
  by (rule ps2_inv_cong; simp)+

lemma buffers_inv_cong:
  "kbd_buffer s' = kbd_buffer s \<Longrightarrow> mouse_buffer s' = mouse_buffer s \<Longrightarrow> ps2_buffers_inv s' = ps2_buffers_inv s"
  by (simp add: ps2_buffers_inv_def)

lemma ps2_inv_packet: "ps2_inv s \<Longrightarrow> ps2_inv (send_mouse_packet dx dy s)"
  by (simp add: ps2_inv_def [of s] send_mouse_packet_inv ready_inv_ok)

lemma mouse_send_inv:
  "ps2_inv s \<Longrightarrow> ps2_inv (mouse_send_delta x y s)"
  "ps2_inv s \<Longrightarrow> ps2_inv (mouse_send_click l m r s)"
  by (auto simp: mouse_send_delta_def mouse_send_click_def Let_def intro!: ps2_inv_packet)

lemma wheel_frame [simp]:
  "ps2_buffers_inv (s\<lparr>wheel_movement := w\<rparr>) = ps2_buffers_inv s"
  "ps2_ready_inv (s\<lparr>wheel_movement := w\<rparr>) = ps2_ready_inv s"
  unfolding ps2_buffers_inv_def ps2_ready_inv_def by simp_all

lemma ps2_inv_wheel: "ps2_inv s \<Longrightarrow> -8 \<le> w \<Longrightarrow> w \<le> 7 \<Longrightarrow> ps2_inv (s\<lparr>wheel_movement := w\<rparr>)"
  by (simp add: ps2_inv_def ps2_mouse_inv_def)

lemma mouse_wheel_inv: "ps2_inv s \<Longrightarrow> ps2_inv (mouse_wheel dy dx s)"
  by (simp add: mouse_wheel_def Let_def ps2_inv_packet ps2_inv_wheel)

text \<open>A read takes a byte from a side that has one.\<close>

lemma raise_irq_nonempty:
  "\<not> next_byte_is_ready s \<Longrightarrow>
   (if bq_length (kbd_buffer s) \<noteq> 0 \<or> bq_length (mouse_buffer s) \<noteq> 0 then raise_irq s else s) = raise_irq s"
  by (simp add: raise_irq_def)

lemma port60_read_ready:
  assumes "ps2_inv s" "next_byte_is_ready s"
  shows "port60_read s =
    (let s2 = (if next_byte_is_aux s
        then (ps2_emit (LowerIrq 12) (s\<lparr>next_byte_is_ready := False\<rparr>))\<lparr>
               mouse_buffer := snd (bq_shift (mouse_buffer s)), last_port60_byte := uint (hd (bq_list (mouse_buffer s)))\<rparr>
        else (ps2_emit (LowerIrq 1) (s\<lparr>next_byte_is_ready := False\<rparr>))\<lparr>
               kbd_buffer := snd (bq_shift (kbd_buffer s)), last_port60_byte := uint (hd (bq_list (kbd_buffer s)))\<rparr>)
     in (word_of_int (last_port60_byte s2), raise_irq s2))"
proof -
  have r: "ps2_ready_inv s" and w: "bq_wf (kbd_buffer s)" "bq_wf (mouse_buffer s)"
    using assms(1) by (simp_all add: ps2_inv_def ps2_buffers_inv_def)
  show ?thesis
  proof (cases "next_byte_is_aux s")
    case True
    then have "bq_length (mouse_buffer s) \<noteq> 0" using r assms(2) by (simp add: ps2_ready_inv_def)
    with True show ?thesis
      by (simp add: port60_read_def Let_def split_beta ps2_emit_def raise_irq_def
          bq_shift_nonempty(2) [OF w(2)] del: bq_length_shift)
  next
    case False
    then have "bq_length (kbd_buffer s) \<noteq> 0" using r assms(2) by (simp add: ps2_ready_inv_def)
    with False show ?thesis
      by (simp add: port60_read_def Let_def split_beta ps2_emit_def raise_irq_def
          bq_shift_nonempty(2) [OF w(1)] del: bq_length_shift)
  qed
qed

lemma port60_read_inv:
  assumes inv: "ps2_inv s"
  shows "ps2_inv (snd (port60_read s))"
proof (cases "next_byte_is_ready s")
  case False
  then have "bq_length (kbd_buffer s) = 0" "bq_length (mouse_buffer s) = 0"
    using inv by (auto simp: ps2_inv_def ps2_ready_inv_def)
  moreover from this False have "s\<lparr>next_byte_is_ready := False\<rparr> = s" by simp
  ultimately show ?thesis using inv by (simp add: port60_read_def Let_def)
next
  case True
  have "ps2_buffers_inv s" "ps2_mouse_inv s" using inv by (simp_all add: ps2_inv_def)
  then show ?thesis
    unfolding port60_read_ready [OF inv True] Let_def snd_conv
    by (intro raise_irq_inv) (simp_all add: ready_ok_def ps2_buffers_inv_def ps2_mouse_inv_def bq_wf_ops)
qed

text \<open>
  A command ends in \<open>mouse_irq\<close> or \<open>kbd_irq\<close> on a state whose buffer on that side holds
  the acknowledgement.
\<close>

lemma mouse_irq_inv:
  "ps2_buffers_inv s \<Longrightarrow> ps2_mouse_inv s \<Longrightarrow> 0 < bq_length (mouse_buffer s) \<Longrightarrow> ps2_inv (mouse_irq s)"
  by (simp add: ps2_inv_def ready_after_irq)

lemma kbd_irq_inv:
  "ps2_buffers_inv s \<Longrightarrow> ps2_mouse_inv s \<Longrightarrow> 0 < bq_length (kbd_buffer s) \<Longrightarrow> ps2_inv (kbd_irq s)"
  by (simp add: ps2_inv_def ready_after_irq)

lemmas inv_parts = ps2_buffers_inv_def ps2_mouse_inv_def

lemma mouse_detect_inv:
  assumes "ps2_buffers_inv s" "resolution s \<in> {1, 2, 4, 8}" "mouse_id s \<in> {0, 3, 4}"
    "mouse_detect_state s \<in> {-1, 0, 1, 2, 3}" "-8 \<le> wheel_movement s" "wheel_movement s \<le> 7"
    and "sample_rate s \<noteq> 0"
  shows "ps2_mouse_inv (mouse_detect b s)" "mouse_buffer (mouse_detect b s) = mouse_buffer s"
    "kbd_buffer (mouse_detect b s) = kbd_buffer s" "sample_rate (mouse_detect b s) = sample_rate s"
  using assms by (auto simp: mouse_detect_def ps2_mouse_inv_def)

text \<open>Fields neither part of the invariant reads.\<close>

lemma part_frames [simp]:
  "ps2_mouse_inv (s\<lparr>mouse_clicks := v_mouse_clicks\<rparr>) = ps2_mouse_inv s" "ps2_buffers_inv (s\<lparr>mouse_clicks := v_mouse_clicks\<rparr>) = ps2_buffers_inv s"
  "ps2_mouse_inv (s\<lparr>mouse_delta_x := v_mouse_delta_x\<rparr>) = ps2_mouse_inv s" "ps2_buffers_inv (s\<lparr>mouse_delta_x := v_mouse_delta_x\<rparr>) = ps2_buffers_inv s"
  "ps2_mouse_inv (s\<lparr>mouse_delta_y := v_mouse_delta_y\<rparr>) = ps2_mouse_inv s" "ps2_buffers_inv (s\<lparr>mouse_delta_y := v_mouse_delta_y\<rparr>) = ps2_buffers_inv s"
  "ps2_mouse_inv (s\<lparr>next_is_mouse_command := v_next_is_mouse_command\<rparr>) = ps2_mouse_inv s" "ps2_buffers_inv (s\<lparr>next_is_mouse_command := v_next_is_mouse_command\<rparr>) = ps2_buffers_inv s"
  "ps2_mouse_inv (s\<lparr>next_read_sample := v_next_read_sample\<rparr>) = ps2_mouse_inv s" "ps2_buffers_inv (s\<lparr>next_read_sample := v_next_read_sample\<rparr>) = ps2_buffers_inv s"
  "ps2_mouse_inv (s\<lparr>next_read_led := v_next_read_led\<rparr>) = ps2_mouse_inv s" "ps2_buffers_inv (s\<lparr>next_read_led := v_next_read_led\<rparr>) = ps2_buffers_inv s"
  "ps2_mouse_inv (s\<lparr>next_handle_scan_code_set := v_next_handle_scan_code_set\<rparr>) = ps2_mouse_inv s" "ps2_buffers_inv (s\<lparr>next_handle_scan_code_set := v_next_handle_scan_code_set\<rparr>) = ps2_buffers_inv s"
  "ps2_mouse_inv (s\<lparr>next_read_rate := v_next_read_rate\<rparr>) = ps2_mouse_inv s" "ps2_buffers_inv (s\<lparr>next_read_rate := v_next_read_rate\<rparr>) = ps2_buffers_inv s"
  "ps2_mouse_inv (s\<lparr>next_read_resolution := v_next_read_resolution\<rparr>) = ps2_mouse_inv s" "ps2_buffers_inv (s\<lparr>next_read_resolution := v_next_read_resolution\<rparr>) = ps2_buffers_inv s"
  "ps2_mouse_inv (s\<lparr>read_output_register := v_read_output_register\<rparr>) = ps2_mouse_inv s" "ps2_buffers_inv (s\<lparr>read_output_register := v_read_output_register\<rparr>) = ps2_buffers_inv s"
  "ps2_mouse_inv (s\<lparr>enable_mouse_stream := v_enable_mouse_stream\<rparr>) = ps2_mouse_inv s" "ps2_buffers_inv (s\<lparr>enable_mouse_stream := v_enable_mouse_stream\<rparr>) = ps2_buffers_inv s"
  "ps2_mouse_inv (s\<lparr>use_mouse := v_use_mouse\<rparr>) = ps2_mouse_inv s" "ps2_buffers_inv (s\<lparr>use_mouse := v_use_mouse\<rparr>) = ps2_buffers_inv s"
  "ps2_mouse_inv (s\<lparr>scaling2 := v_scaling2\<rparr>) = ps2_mouse_inv s" "ps2_buffers_inv (s\<lparr>scaling2 := v_scaling2\<rparr>) = ps2_buffers_inv s"
  "ps2_mouse_inv (s\<lparr>enable_keyboard_stream := v_enable_keyboard_stream\<rparr>) = ps2_mouse_inv s" "ps2_buffers_inv (s\<lparr>enable_keyboard_stream := v_enable_keyboard_stream\<rparr>) = ps2_buffers_inv s"
  by (simp_all add: inv_parts)

text \<open>The state a mouse command leaves for the final \<open>mouse_irq\<close>.\<close>

definition mouse_pending :: "ps2 \<Rightarrow> bool" where
  "mouse_pending s \<longleftrightarrow> ps2_buffers_inv s \<and> ps2_mouse_inv s \<and> 0 < bq_length (mouse_buffer s)"

definition kbd_pending :: "ps2 \<Rightarrow> bool" where
  "kbd_pending s \<longleftrightarrow> ps2_buffers_inv s \<and> ps2_mouse_inv s \<and> 0 < bq_length (kbd_buffer s)"

lemma pending_irq_inv:
  "mouse_pending s \<Longrightarrow> ps2_inv (mouse_irq s)" "kbd_pending s \<Longrightarrow> ps2_inv (kbd_irq s)"
  by (simp_all add: mouse_pending_def kbd_pending_def mouse_irq_inv kbd_irq_inv)

lemma mouse_pending_push:
  "ps2_buffers_inv s \<Longrightarrow> ps2_mouse_inv s \<Longrightarrow> mouse_pending (mouse_push x s)"
  "ps2_buffers_inv s \<Longrightarrow> ps2_mouse_inv s \<Longrightarrow> kbd_pending (kbd_push x s)"
  by (simp_all add: mouse_pending_def kbd_pending_def buffers_inv_ops ps2_buffers_inv_def [of s] bq_push_pos)

lemma mouse_pending_cong:
  assumes "kbd_buffer s' = kbd_buffer s" "mouse_buffer s' = mouse_buffer s" "ps2_mouse_inv s \<Longrightarrow> ps2_mouse_inv s'"
    and "mouse_pending s"
  shows "mouse_pending s'"
  using assms buffers_inv_cong [OF assms(1,2)] by (simp add: mouse_pending_def)

lemma pending_if: "mouse_pending a \<Longrightarrow> mouse_pending b \<Longrightarrow> mouse_pending (if c then a else b)"
  by simp

lemma mouse_inv_defaults:
  "ps2_mouse_inv s \<Longrightarrow> ps2_mouse_inv (s\<lparr>sample_rate := 100\<rparr>)"
  "ps2_mouse_inv s \<Longrightarrow> ps2_mouse_inv (s\<lparr>resolution := 4\<rparr>)"
  "ps2_mouse_inv s \<Longrightarrow> ps2_mouse_inv (s\<lparr>mouse_id := 0\<rparr>)"
  by (simp_all add: ps2_mouse_inv_def)

lemma mouse_command_pending:
  assumes "mouse_pending s" shows "mouse_pending (mouse_command b s)"
proof -
  have bm: "ps2_buffers_inv s" "ps2_mouse_inv s" and q: "0 < bq_length (mouse_buffer s)"
    using assms by (simp_all add: mouse_pending_def)
  have pk: "mouse_pending (send_mouse_packet 0 0 s)"
    using bm by (simp add: mouse_pending_def send_mouse_packet_eq packet_pushed_inv)
  have id: "mouse_pending (raise_irq (mouse_clicks_reset (mouse_push (mouse_id s) s)))"
    by (rule mouse_pending_cong [OF _ _ _ mouse_pending_push(1) [OF bm]]) (simp_all add: mouse_clicks_reset_def [of "mouse_push _ s"])
  have rst: "mouse_pending (mouse_push 0 (mouse_push 0xAA s))"
    using bm by (intro mouse_pending_push(1)) (simp_all add: buffers_inv_ops)
  have same: "mouse_pending s'"
    if "kbd_buffer s' = kbd_buffer s" "mouse_buffer s' = mouse_buffer s" "ps2_mouse_inv s'" for s'
    using that mouse_pending_cong [OF that(1,2) _ assms] by simp
  have rst': "mouse_pending s'"
    if "kbd_buffer s' = kbd_buffer s" "mouse_buffer s' = bq_push 0 (bq_push 0xAA (mouse_buffer s))" "ps2_mouse_inv s'" for s'
    by (rule mouse_pending_cong [OF _ _ _ rst]) (use that in simp_all)
  show ?thesis
    unfolding mouse_command_def Let_def
    by (intro pending_if pk id; 
        ((rule same; simp add: mouse_clicks_reset_def mouse_inv_defaults bm; fail)
          | (rule rst'; simp add: mouse_clicks_reset_def mouse_inv_defaults bm; fail)))
qed

text \<open>What the invariant gives about either buffer, cleared or not.\<close>

lemma inv_buffers:
  assumes "ps2_inv s"
  shows "bq_wf (kbd_buffer s)" "bq_wf (mouse_buffer s)" "bq_size (kbd_buffer s) = 1024"
    "bq_size (mouse_buffer s) = 1024" "ps2_mouse_inv s"
  using assms by (simp_all add: ps2_inv_def ps2_buffers_inv_def)

lemma pendingI:
  "ps2_mouse_inv s \<Longrightarrow> bq_wf (kbd_buffer s) \<Longrightarrow> bq_size (kbd_buffer s) = 1024 \<Longrightarrow>
     mouse_buffer s = bq_push x q \<Longrightarrow> bq_wf q \<Longrightarrow> bq_size q = 1024 \<Longrightarrow> mouse_pending s"
  "ps2_mouse_inv s \<Longrightarrow> bq_wf (mouse_buffer s) \<Longrightarrow> bq_size (mouse_buffer s) = 1024 \<Longrightarrow>
     kbd_buffer s = bq_push x q \<Longrightarrow> bq_wf q \<Longrightarrow> bq_size q = 1024 \<Longrightarrow> kbd_pending s"
  by (simp_all add: mouse_pending_def kbd_pending_def ps2_buffers_inv_def bq_push_pos bq_wf_ops)

lemma write_mouse_command_inv:
  assumes "ps2_inv s" shows "ps2_inv (write_mouse_command b s)"
proof (cases "have_mouse s")
  case True
  then show ?thesis
    by (simp add: write_mouse_command_def Let_def)
      (intro pending_irq_inv mouse_command_pending
        pendingI(1) [where x = "0xFA" and q = "bq_clear (mouse_buffer s)"]; simp add: inv_buffers [OF assms] bq_wf_ops)
qed (simp add: write_mouse_command_def Let_def assms)

lemma write_sample_rate_inv:
  assumes "ps2_inv s" shows "ps2_inv (write_sample_rate b s)"
proof -
  note w = inv_buffers [OF assms]
  let ?s1 = "mouse_push 0xFA (mouse_clear (s\<lparr>next_read_sample := False\<rparr>))"
  have d: "ps2_mouse_inv (if sample_rate (mouse_detect b (?s1\<lparr>sample_rate := b\<rparr>)) = 0
      then (mouse_detect b (?s1\<lparr>sample_rate := b\<rparr>))\<lparr>sample_rate := 100\<rparr> else mouse_detect b (?s1\<lparr>sample_rate := b\<rparr>))"
    using w(5) by (auto simp: mouse_detect_def ps2_mouse_inv_def)
  have k: "kbd_buffer (mouse_detect b x) = kbd_buffer x" "mouse_buffer (mouse_detect b x) = mouse_buffer x" for x
    by (simp_all add: mouse_detect_def)
  show ?thesis
    unfolding write_sample_rate_def Let_def
    by (intro pending_irq_inv pendingI(1) [where x = "0xFA" and q = "bq_clear (mouse_buffer s)"])
      (use d w in \<open>simp_all add: k bq_wf_ops\<close>)
qed

lemma small_shift:
  assumes "fits 8 (b :: i32)" "sint b \<le> 3"
  shows "sint (push_bit (unat (b AND 0x1F)) 1 :: i32) \<in> {1, 2, 4, 8}"
proof -
  have "uint b < 4" using assms fits_sint [of 8 b] by simp
  then have "uint b = 0 \<or> uint b = 1 \<or> uint b = 2 \<or> uint b = 3" using uint_ge_0 [of b] by presburger
  then have "b \<in> {0, 1, 2, 3}" by (simp add: word_uint_eq_iff)
  then show ?thesis by auto
qed

lemma write_resolution_inv:
  assumes "ps2_inv s" "fits 8 b" shows "ps2_inv (write_resolution b s)"
proof -
  note w = inv_buffers [OF assms(1)]
  have r: "ps2_mouse_inv (x\<lparr>resolution := r\<rparr>)" if "ps2_mouse_inv x" "r \<in> {1, 2, 4, 8}" for x r
    using that by (simp add: ps2_mouse_inv_def)
  show ?thesis
    unfolding write_resolution_def Let_def
    by (intro pending_irq_inv pendingI(1) [where x = "0xFA" and q = "bq_clear (mouse_buffer s)"])
      (use w small_shift [OF assms(2)] in \<open>simp_all add: bq_wf_ops r mouse_inv_defaults del: insert_iff\<close>)
qed

lemma kbd_command_inv:
  assumes "ps2_inv s"
  shows "ps2_inv (kbd_irq (kbd_command b (kbd_push 0xFA (kbd_clear (mouse_clear s)))))"
proof -
  note w = inv_buffers [OF assms]
  have p: "kbd_pending s'" if "mouse_buffer s' = bq_clear (mouse_buffer s)" "ps2_mouse_inv s'"
    "kbd_buffer s' = bq_push x q" "bq_wf q" "bq_size q = 1024" for s' x q
    by (rule pendingI(2) [where x = x and q = q]) (use that w in \<open>simp_all add: bq_wf_ops\<close>)
  show ?thesis
    unfolding kbd_command_def
    by (rule pending_irq_inv(2)) (auto intro!: p simp: bq_wf_ops w)
qed

lemma kbd_push_ready_inv: "ps2_inv s \<Longrightarrow> next_byte_is_ready s \<Longrightarrow> ps2_inv (kbd_push y s)"
  using raise_irq_inv [of "kbd_push y s"]
  by (simp add: raise_irq_def ps2_inv_def [of s] buffers_inv_ops push_ready_ok ready_inv_ok)

lemma kbd_ack_inv:
  assumes "ps2_inv s" "kbd_buffer s' = bq_push x (kbd_buffer s)" "mouse_buffer s' = mouse_buffer s" "ps2_mouse_inv s'"
  shows "ps2_inv (kbd_irq s')" "ps2_inv ((kbd_irq s')\<lparr>kbd_buffer := bq_push y (bq_push x (kbd_buffer s))\<rparr>)"
proof -
  note w = inv_buffers [OF assms(1)]
  have "kbd_pending s'" by (rule pendingI(2) [where x = x and q = "kbd_buffer s"]) (simp_all add: w assms)
  then show i: "ps2_inv (kbd_irq s')" by (rule pending_irq_inv)
  show "ps2_inv ((kbd_irq s')\<lparr>kbd_buffer := bq_push y (bq_push x (kbd_buffer s))\<rparr>)"
    using kbd_push_ready_inv [OF i, of y] by (simp add: assms)
qed

lemma port60_write_inv:
  assumes "ps2_inv s" "fits 8 b" shows "ps2_inv (port60_write b s)"
proof -
  note w = inv_buffers [OF assms(1)]
  have r: "ps2_inv (mouse_irq (mouse_push (sint b) (mouse_clear (s\<lparr>read_output_register := False\<rparr>))))"
    by (intro pending_irq_inv pendingI(1) [where x = "sint b" and q = "bq_clear (mouse_buffer s)"])
      (use w in \<open>simp_all add: bq_wf_ops\<close>)
  show ?thesis
    unfolding port60_write_def Let_def
    using r assms kbd_command_inv [OF assms(1)]
    by (auto simp: write_sample_rate_inv write_resolution_inv write_mouse_command_inv w
        intro: kbd_ack_inv [OF assms(1)])
qed

lemma kbd_reply_inv: "ps2_inv s \<Longrightarrow> ps2_inv (kbd_reply b s)"
  unfolding kbd_reply_def
  by (intro pending_irq_inv pendingI(2) [where x = "sint b" and q = "bq_clear (kbd_buffer s)"])
    (simp_all add: bq_wf_ops inv_buffers)

lemma port64_write_inv: "ps2_inv s \<Longrightarrow> ps2_inv (port64_write b s)"
  by (simp add: port64_write_def kbd_reply_inv)

text \<open>The bytes the CPU writes are bytes.\<close>

fun ps2_event_ok :: "ps2_event \<Rightarrow> bool" where
  "ps2_event_ok (Write60 b) = fits 8 b"
| "ps2_event_ok (Write64 b) = fits 8 b"
| "ps2_event_ok _ = True"

lemma ps2_step_inv: "ps2_inv s \<Longrightarrow> ps2_event_ok e \<Longrightarrow> ps2_inv (ps2_step e s)"
  by (cases e) (simp_all add: kbd_send_code_inv mouse_send_inv mouse_wheel_inv port60_read_inv
      port60_write_inv port64_write_inv port64_read_def Let_def)

interpretation ps2m: device_machine ps2_event_ok ps2_step "ps2_reset []" ps2_inv
  by unfold_locales (simp_all add: ps2_reset_inv ps2_step_inv)

section \<open>The controller's contract\<close>

lemma ready_sides:
  assumes "ps2_ready_inv s"
  shows "\<not> next_byte_is_ready s \<Longrightarrow> \<not> 0 < bq_length (kbd_buffer s)"
    "\<not> next_byte_is_ready s \<Longrightarrow> \<not> 0 < bq_length (mouse_buffer s)"
    "next_byte_is_ready s \<Longrightarrow> next_byte_is_aux s \<Longrightarrow> 0 < bq_length (mouse_buffer s)"
    "next_byte_is_ready s \<Longrightarrow> \<not> next_byte_is_aux s \<Longrightarrow> 0 < bq_length (kbd_buffer s)"
  using assms unfolding ps2_ready_inv_def by presburger+

lemma port60_read_empty:
  "bq_length (kbd_buffer s) = 0 \<Longrightarrow> bq_length (mouse_buffer s) = 0 \<Longrightarrow>
   port60_read s = (word_of_int (last_port60_byte s), s\<lparr>next_byte_is_ready := False\<rparr>)"
  by (simp add: port60_read_def Let_def)

lemma cleared_push:
  assumes "bq_wf q" "bq_size q = 1024"
  shows "bq_inv (bq_clear q)" "bq_list (bq_push x (bq_clear q)) = [word_of_int x]"
    "bq_list (bq_push y (bq_push x (bq_clear q))) = [word_of_int x, word_of_int y]"
    "bq_list (bq_push z (bq_push y (bq_push x (bq_clear q)))) = [word_of_int x, word_of_int y, word_of_int z]"
    "bq_list (bq_push w (bq_push z (bq_push y (bq_push x (bq_clear q))))) =
       [word_of_int x, word_of_int y, word_of_int z, word_of_int w]"
  using assms bq_clear_inv [OF assms(1)] by (simp_all add: bq_push_nonfull bq_length_push)

lemma fresh_queue: "bq_wf (ByteQueue 1024)" "bq_size (ByteQueue 1024) = 1024"
  using ByteQueue_inv [of 10] by (simp_all add: bq_inv_def) (simp add: ByteQueue_def bq_clear_def)

lemma command_fields [simp]:
  "command_register (raise_irq s) = command_register s" "command_register (packet_pushed dx dy s) = command_register s"
  "next_is_mouse_command (ps2_emit e s) = next_is_mouse_command s"
  "next_is_mouse_command (mouse_irq s) = next_is_mouse_command s" "next_is_mouse_command (kbd_irq s) = next_is_mouse_command s"
  "next_is_mouse_command (raise_irq s) = next_is_mouse_command s"
  "next_is_mouse_command (packet_pushed dx dy s) = next_is_mouse_command s"
  by (simp_all add: raise_irq_def mouse_irq_def kbd_irq_def packet_pushed_def ps2_emit_def Let_def)

lemma kbd_irq_log: "has_bits (command_register s) 1 \<Longrightarrow> irq_level 1 (ps2_log (kbd_irq s))"
  by (simp add: kbd_irq_def ps2_emit_def irq_level_def drive_line_def)

lemma mouse_irq_log: "has_bits (command_register s) 2 \<Longrightarrow> irq_level 12 (ps2_log (mouse_irq s))"
  by (simp add: mouse_irq_def ps2_emit_def irq_level_def drive_line_def)

text \<open>The bytes the keyboard answers a command with.\<close>

definition kbd_answer :: "i32 \<Rightarrow> u8 list" where
  "kbd_answer b = (if b = 0xF2 then [0xFA, 0xAB, 0x83] else if b = 0xFF then [0xFA, 0xAA, 0] else [0xFA])"

text \<open>No multi-byte command is under way.\<close>

definition ps2_idle :: "ps2 \<Rightarrow> bool" where
  "ps2_idle s \<longleftrightarrow> \<not> read_command_register s \<and> \<not> read_output_register s \<and> \<not> next_read_sample s \<and>
     \<not> next_read_resolution s \<and> \<not> next_read_led s \<and> \<not> next_handle_scan_code_set s \<and> \<not> next_read_rate s \<and>
     \<not> next_is_mouse_command s \<and> \<not> read_controller_output_port s"

text \<open>
  Claim C2. In every state reachable from reset by key codes, mouse events and port accesses: bit
  0 of the status port is set exactly when a byte waits in one of the two buffers; a read of the
  data port then returns and removes the oldest byte of the side that bit 5 announces and leaves
  the other side alone, so that it never takes a byte from an empty queue; when bit 0 is clear the
  read repeats the last byte.
\<close>

theorem ps2_status_and_data:
  assumes "reachable ps2_event_ok ps2_step (ps2_reset []) s"
  shows "let st = fst (port64_read s); b = fst (port60_read s); s' = snd (port60_read s);
      k = bq_list (kbd_buffer s); m = bq_list (mouse_buffer s);
      k' = bq_list (kbd_buffer s'); m' = bq_list (mouse_buffer s')
    in if bit st 0
       then if bit st 5 then m \<noteq> [] \<and> b = ucast (hd m) \<and> m' = tl m \<and> k' = k
            else k \<noteq> [] \<and> b = ucast (hd k) \<and> k' = tl k \<and> m' = m
       else k = [] \<and> m = [] \<and> b = word_of_int (last_port60_byte s) \<and> k' = [] \<and> m' = []"
proof -
  have inv: "ps2_inv s" using ps2m.reachable_inv [OF assms] .
  note w = inv_buffers [OF inv]
  have r: "ps2_ready_inv s" using inv by (simp add: ps2_inv_def)
  have st: "bit (fst (port64_read s)) 0 = next_byte_is_ready s" "bit (fst (port64_read s)) 5 = next_byte_is_aux s"
    by (cases "next_byte_is_ready s"; cases "next_byte_is_aux s"; simp add: port64_read_def)+
  show ?thesis
  proof (cases "next_byte_is_ready s")
    case False
    then have e: "bq_length (kbd_buffer s) = 0" "bq_length (mouse_buffer s) = 0"
      using ready_sides(1,2) [OF r] by simp_all
    show ?thesis unfolding Let_def st port60_read_empty [OF e] by (simp add: False e)
  next
    case True
    show ?thesis
    proof (cases "next_byte_is_aux s")
      case aux: True
      have n: "bq_length (mouse_buffer s) \<noteq> 0" using ready_sides(3) [OF r True aux] by simp
      show ?thesis
        unfolding Let_def st port60_read_ready [OF inv True] fst_conv snd_conv
        by (simp add: True aux n bq_shift_nonempty(1) [OF w(2) n])
    next
      case kbd: False
      have n: "bq_length (kbd_buffer s) \<noteq> 0" using ready_sides(4) [OF r True kbd] by simp
      show ?thesis
        unfolding Let_def st port60_read_ready [OF inv True] fst_conv snd_conv
        by (simp add: True kbd n bq_shift_nonempty(1) [OF w(1) n])
    qed
  qed
qed
theorem ps2_status_and_data_witness:
  "let s = run ps2_step [Write60 0xF2] (ps2_reset [])
   in bit (fst (port64_read s)) 0 \<and> \<not> bit (fst (port64_read s)) 5 \<and> fst (port60_read s) = 0xFA"
proof -
  define s where "s = run ps2_step [Write60 0xF2] (ps2_reset [])"
  have "reachable ps2_event_ok ps2_step (ps2_reset []) s"
    unfolding s_def by (rule reachable_run [OF reachable.start]) (simp add: fits_def)
  note * = ps2_status_and_data [OF this]
  have f: "next_byte_is_ready s" "\<not> next_byte_is_aux s"
    by (simp_all add: s_def port60_write_def ps2_reset_def)
  have "bq_list (kbd_buffer s) = [0xFA, 0xAB, 0x83]"
    by (simp add: s_def port60_write_def ps2_reset_def kbd_command_def cleared_push fresh_queue)
  with * f show ?thesis unfolding s_def [symmetric] Let_def by (simp add: port64_read_def bit_simps)
qed

text \<open>
  Claim C13. A keyboard command: in every reachable state in which no multi-byte command is under
  way, a byte written to the data port empties both buffers and is acknowledged: the keyboard
  buffer holds exactly 0xFA, followed by the identity AB 83 for 0xF2 and by the self-test result
  AA 00 for 0xFF; the status reports a keyboard byte, and interrupt 1 is raised if the command
  register enables it.
\<close>

theorem ps2_keyboard_command:
  assumes "reachable ps2_event_ok ps2_step (ps2_reset []) s" "ps2_idle s"
  shows "let s' = port60_write b s
    in bq_list (kbd_buffer s') = kbd_answer b \<and> bq_list (mouse_buffer s') = [] \<and>
       next_byte_is_ready s' \<and> \<not> next_byte_is_aux s' \<and>
       (has_bits (command_register s) 1 \<longrightarrow> irq_level 1 (ps2_log s'))"
proof -
  note w = inv_buffers [OF ps2m.reachable_inv [OF assms(1)]]
  have f: "port60_write b s = kbd_irq (kbd_command b (kbd_push 0xFA (kbd_clear (mouse_clear s))))"
    using assms(2) by (simp add: port60_write_def ps2_idle_def)
  have k: "bq_list (kbd_buffer (kbd_command b (kbd_push 0xFA (kbd_clear (mouse_clear s))))) = kbd_answer b"
    unfolding kbd_command_def kbd_answer_def using w(1,3)
    by (simp add: cleared_push bq_wf_ops)
  have m: "mouse_buffer (kbd_command b (kbd_push 0xFA (kbd_clear (mouse_clear s)))) = bq_clear (mouse_buffer s)"
    by (simp add: kbd_command_def)
  have c: "command_register (kbd_command b (kbd_push 0xFA (kbd_clear (mouse_clear s)))) = command_register s"
    by (simp add: kbd_command_def)
  show ?thesis unfolding f Let_def using k m c kbd_irq_log [of "kbd_command b (kbd_push 0xFA (kbd_clear (mouse_clear s)))"]
    by simp
qed


theorem ps2_keyboard_command_witness:
  "let s' = port60_write 0xFF (ps2_reset [])
   in bq_list (kbd_buffer s') = [0xFA, 0xAA, 0] \<and> irq_level 1 (ps2_log s')"
  using ps2_keyboard_command [OF reachable.start, of "0xFF"]
  by (simp add: ps2_idle_def ps2_reset_def kbd_answer_def Let_def)

text \<open>The bytes of a mouse packet, and those the mouse answers a command with.\<close>

definition packet_info :: "int \<Rightarrow> int \<Rightarrow> i32 \<Rightarrow> i32" where
  "packet_info dx dy clicks =
     push_bit 5 (of_bool (dy < 0)) OR push_bit 4 (of_bool (dx < 0)) OR push_bit 3 1 OR clicks"

definition packet_bytes :: "int \<Rightarrow> int \<Rightarrow> ps2 \<Rightarrow> u8 list" where
  "packet_bytes dx dy s =
     [ucast (packet_info dx dy (mouse_clicks s)), word_of_int dx, word_of_int dy] @
     (if mouse_id s = 4 then [ucast (js_to_int32 (wheel_movement s) AND 0x0F)]
      else if mouse_id s = 3 then [ucast (js_to_int32 (wheel_movement s) AND 0xFF)] else [])"

definition mouse_answer :: "i32 \<Rightarrow> ps2 \<Rightarrow> u8 list" where
  "mouse_answer b s = 0xFA #
     (if b = 0xE9 \<or> b = 0xEB then packet_bytes 0 0 s
      else if b = 0xF2 then [word_of_int (mouse_id s)]
      else if b = 0xFF then [0xAA, 0] else [])"

lemma word8_of_sint: "scast (x :: i32) = (ucast x :: u8)"
  by (rule bit_word_eqI) (simp add: bit_simps)

lemma packet_list:
  assumes "bq_inv (mouse_buffer s)" "bq_length (mouse_buffer s) + 4 \<le> bq_size (mouse_buffer s)"
  shows "bq_list (mouse_buffer (packet_pushed dx dy s)) = bq_list (mouse_buffer s) @ packet_bytes dx dy s"
  using assms
  by (simp add: packet_pushed_def packet_bytes_def packet_info_def Let_def bq_push_nonfull bq_length_push
      word8_of_sint)

text \<open>
  A mouse command: in every reachable state where the next data byte was announced as
  one for the mouse, that byte empties both buffers and is acknowledged with 0xFA on the mouse
  side, followed by a movement packet for 0xE9 and 0xEB, by the mouse's identity for 0xF2 and by
  AA 00 for 0xFF; the status reports a mouse byte, interrupt 12 is raised if the command register
  enables it, and the announcement is consumed.
\<close>

theorem ps2_mouse_command:
  assumes "reachable ps2_event_ok ps2_step (ps2_reset []) s" "ps2_idle (s\<lparr>next_is_mouse_command := False\<rparr>)"
    "next_is_mouse_command s" "have_mouse s"
  shows "let s' = port60_write b s
    in bq_list (mouse_buffer s') = mouse_answer b s \<and> bq_list (kbd_buffer s') = [] \<and>
       next_byte_is_ready s' \<and> next_byte_is_aux s' \<and> \<not> next_is_mouse_command s' \<and>
       (has_bits (command_register s) 2 \<longrightarrow> irq_level 12 (ps2_log s'))"
proof -
  note w = inv_buffers [OF ps2m.reachable_inv [OF assms(1)]]
  let ?t = "mouse_push 0xFA (mouse_clear (kbd_clear (s\<lparr>next_is_mouse_command := False\<rparr>)))"
  have f: "port60_write b s = mouse_irq (mouse_command b ?t)"
    using assms(2,3,4) by (simp add: port60_write_def ps2_idle_def write_mouse_command_def Let_def)
  have i: "bq_inv (mouse_buffer ?t)" "bq_length (mouse_buffer ?t) = 1" "bq_size (mouse_buffer ?t) = 1024"
    "bq_list (mouse_buffer ?t) = [0xFA]"
    using w(2,4) bq_push_nonfull(1) [of "bq_clear (mouse_buffer s)"]
    by (simp_all add: cleared_push bq_length_push)
  have p: "packet_bytes 0 0 ?t = packet_bytes 0 0 s" by (simp add: packet_bytes_def)
  have m: "bq_list (mouse_buffer (mouse_command b ?t)) = mouse_answer b s"
    using w(2,4) packet_list [of ?t 0 0] i p
    by (simp add: mouse_command_def mouse_answer_def send_mouse_packet_eq mouse_clicks_reset_def Let_def cleared_push)
  have k: "kbd_buffer (mouse_command b ?t) = bq_clear (kbd_buffer s)"
    by (simp add: mouse_command_def send_mouse_packet_eq mouse_clicks_reset_def Let_def)
  have c: "command_register (mouse_command b ?t) = command_register s" "\<not> next_is_mouse_command (mouse_irq (mouse_command b ?t))"
    by (simp_all add: mouse_command_def send_mouse_packet_eq mouse_clicks_reset_def Let_def)
  show ?thesis unfolding f Let_def using m k c mouse_irq_log [of "mouse_command b ?t"] by simp
qed

theorem ps2_mouse_command_witness:
  "let s' = port60_write 0xF2 (run ps2_step [Write64 0xD4] (ps2_reset []))
   in bq_list (mouse_buffer s') = [0xFA, 0x00] \<and> next_byte_is_aux s'"
proof -
  define s where "s = run ps2_step [Write64 0xD4] (ps2_reset [])"
  have "reachable ps2_event_ok ps2_step (ps2_reset []) s"
    unfolding s_def by (rule reachable_run [OF reachable.start]) (simp add: fits_def)
  note * = ps2_mouse_command [OF this, of "0xF2"]
  have "ps2_idle (s\<lparr>next_is_mouse_command := False\<rparr>)" "next_is_mouse_command s" "have_mouse s" "mouse_id s = 0"
    by (simp_all add: s_def port64_write_def ps2_reset_def ps2_idle_def)
  with * show ?thesis unfolding s_def [symmetric] by (simp add: Let_def mouse_answer_def)
qed

definition set_rate :: "i32 \<Rightarrow> ps2_event list" where
  "set_rate r = [Write64 0xD4, Write60 0xF3, Write60 r]"

lemma mouse_irq_flags [simp]:
  "read_command_register (mouse_irq s) = read_command_register s"
  "read_output_register (mouse_irq s) = read_output_register s"
  "next_read_sample (mouse_irq s) = next_read_sample s"
  "next_read_resolution (mouse_irq s) = next_read_resolution s"
  "next_read_led (mouse_irq s) = next_read_led s"
  "next_handle_scan_code_set (mouse_irq s) = next_handle_scan_code_set s"
  "next_read_rate (mouse_irq s) = next_read_rate s"
  "read_controller_output_port (mouse_irq s) = read_controller_output_port s"
  "have_mouse (mouse_irq s) = have_mouse s"
  "mouse_id (mouse_irq s) = mouse_id s"
  "mouse_detect_state (mouse_irq s) = mouse_detect_state s"
  "mouse_clicks (mouse_irq s) = mouse_clicks s"
  by (simp_all add: mouse_irq_def ps2_emit_def Let_def)

lemma set_rate_run:
  assumes "ps2_idle s" "have_mouse s"
  shows "ps2_idle (run ps2_step (set_rate r) s)" "have_mouse (run ps2_step (set_rate r) s)"
    "mouse_detect_state (run ps2_step (set_rate r) s) = mouse_detect_state (mouse_detect r s)"
    "mouse_id (run ps2_step (set_rate r) s) = mouse_id (mouse_detect r s)"
proof -
  define t where "t = mouse_irq (mouse_push 0xFA (mouse_clear (kbd_clear (s\<lparr>next_is_mouse_command := False\<rparr>)))\<lparr>next_read_sample := True\<rparr>)"
  have "run ps2_step [Write64 0xD4, Write60 0xF3] s = t"
    using assms by (simp add: port64_write_def port60_write_def ps2_idle_def write_mouse_command_def mouse_command_def t_def)
  then have "run ps2_step (set_rate r) s = port60_write r t"
    unfolding set_rate_def by simp
  also have "\<dots> = write_sample_rate r t"
    using assms(1) by (simp add: port60_write_def t_def ps2_idle_def)
  finally have e: "run ps2_step (set_rate r) s = write_sample_rate r t" .
  show "ps2_idle (run ps2_step (set_rate r) s)" "have_mouse (run ps2_step (set_rate r) s)"
    "mouse_detect_state (run ps2_step (set_rate r) s) = mouse_detect_state (mouse_detect r s)"
    "mouse_id (run ps2_step (set_rate r) s) = mouse_id (mouse_detect r s)"
    unfolding e using assms
    by (simp_all add: write_sample_rate_def Let_def ps2_idle_def t_def mouse_detect_def)
qed

text \<open>
  The wheel mouse: with no multi-byte command under way, setting
  the sample rate to 200, 100 and 80 in turn makes the mouse identify itself as 3, and 200, 200
  and 80 as 4.
\<close>

theorem ps2_wheel_detection:
  assumes "ps2_idle s" "have_mouse s" "mouse_detect_state s = 0"
  shows "mouse_id (run ps2_step (set_rate 200 @ set_rate 100 @ set_rate 80) s) = 3 \<and>
    mouse_id (run ps2_step (set_rate 200 @ set_rate 200 @ set_rate 80) s) = 4"
proof -
  note r = set_rate_run
  have a: "mouse_detect_state (run ps2_step (set_rate 200) s) = 1"
    using r(3) [OF assms(1,2)] assms(3) by (simp add: mouse_detect_def)
  note s1 = r(1,2) [OF assms(1,2), of 200]
  have b: "mouse_detect_state (run ps2_step (set_rate 100) (run ps2_step (set_rate 200) s)) = 2"
    "mouse_detect_state (run ps2_step (set_rate 200) (run ps2_step (set_rate 200) s)) = 3"
    using r(3) [OF s1] a by (simp_all add: mouse_detect_def)
  show ?thesis
    using r(4) [OF r(1,2) [OF s1, of 100], of 80] r(4) [OF r(1,2) [OF s1, of 200], of 80] b
    by (simp add: run_append mouse_detect_def)
qed

theorem ps2_wheel_detection_witness:
  "mouse_id (run ps2_step (set_rate 200 @ set_rate 200 @ set_rate 80) (ps2_reset [])) = 4"
  using ps2_wheel_detection [of "ps2_reset []"] by (simp add: ps2_idle_def ps2_reset_def)

text \<open>The movement a driver reads from a sign bit and a data byte: nine bits, two's complement.\<close>

definition decode_delta :: "bool \<Rightarrow> u8 \<Rightarrow> int" where
  "decode_delta sign b = uint b - (if sign then 256 else 0)"

lemma decode_delta: "-256 \<le> d \<Longrightarrow> d \<le> 255 \<Longrightarrow> decode_delta (d < 0) (word_of_int d) = d"
proof -
  assume d: "-256 \<le> d" "d \<le> 255"
  show ?thesis
  proof (cases "d < 0")
    case True
    have "d mod 256 = (d + 256) mod 256" by simp
    then have "d mod 256 = d + 256" using d True by (simp del: mod_add_self2)
    with True show ?thesis by (simp add: decode_delta_def uint_word_of_int)
  qed (use d in \<open>simp add: decode_delta_def uint_word_of_int\<close>)
qed

lemma packet_info_bits:
  assumes "fits 3 clicks"
  shows "bit (ucast (packet_info dx dy clicks) :: u8) 4 = (dx < 0)"
    "bit (ucast (packet_info dx dy clicks) :: u8) 5 = (dy < 0)"
    "take_bit 3 (ucast (packet_info dx dy clicks)) = (ucast clicks :: u8)"
proof -
  have c: "bit clicks i \<Longrightarrow> i < 3" for i using assms by (auto simp: fits_bits not_le [symmetric])
  then show "bit (ucast (packet_info dx dy clicks) :: u8) 4 = (dx < 0)"
    "bit (ucast (packet_info dx dy clicks) :: u8) 5 = (dy < 0)"
    by (force simp: packet_info_def bit_simps)+
  show "take_bit 3 (ucast (packet_info dx dy clicks)) = (ucast clicks :: u8)"
  proof (rule bit_word_eqI)
    fix n :: nat
    consider "n = 0" | "n = 1" | "n = 2" | "3 \<le> n" by linarith
    then show "bit (take_bit 3 (ucast (packet_info dx dy clicks)) :: u8) n = bit (ucast clicks :: u8) n"
      by cases (use c [of n] in \<open>auto simp: packet_info_def bit_simps\<close>)
  qed
qed


text \<open>
  A packet carries a movement of nine bits and a sign: the code has no limit and no overflow bit. A
  movement to the right (with what was carried over) of 256 units or more is cut to its low byte, and
  the rest is neither sent nor carried over. A movement of 300 arrives as 44.
\<close>

lemma ps2_large_movement_lost:
  assumes "have_mouse s" "use_mouse s" "mouse_stream_active s" "fits 3 (mouse_clicks s)"
    "bq_inv (mouse_buffer s)" "bq_length (mouse_buffer s) + 4 \<le> bq_size (mouse_buffer s)"
    "255 < js_trunc (mouse_delta_x s + dx)" "js_trunc (mouse_delta_x s + dx) \<le> 0x7FFFFFFF" "js_trunc (mouse_delta_y s + dy) = 0"
  shows "let s' = mouse_send_delta dx dy s
    in \<exists>info bx by wheel. bq_list (mouse_buffer s') = bq_list (mouse_buffer s) @ [info, bx, by] @ wheel \<and>
       of_int (decode_delta (bit info 4) bx) + mouse_delta_x s' =
         mouse_delta_x s + dx - of_int (256 * (js_trunc (mouse_delta_x s + dx) div 256))"
proof -
  let ?x = "js_trunc (mouse_delta_x s + dx)" and ?y = "js_trunc (mouse_delta_y s + dy)"
  define t where "t = s\<lparr>mouse_delta_x := mouse_delta_x s + dx - of_int ?x, mouse_delta_y := mouse_delta_y s + dy - of_int ?y\<rparr>"
  have active: "mouse_stream_active (s\<lparr>mouse_delta_x := a, mouse_delta_y := b\<rparr>)" for a b
    using assms(3) by (simp add: mouse_stream_active_def)
  have x: "sint (js_to_int32 (mouse_delta_x s + dx)) = ?x" "sint (js_to_int32 (mouse_delta_y s + dy)) = ?y"
    using assms(7,8,9) by (simp_all add: js_to_int32_def sint_sbintrunc' signed_take_bit_int_eq_self_iff)
  have e: "mouse_send_delta dx dy s = raise_irq (packet_pushed ?x ?y t)"
    using assms(1,2,7) active by (simp add: mouse_send_delta_def Let_def x send_mouse_packet_eq t_def)
  have l: "bq_list (mouse_buffer (packet_pushed ?x ?y t)) = bq_list (mouse_buffer s) @ packet_bytes ?x ?y t"
    using packet_list [of t ?x ?y] assms(5,6) by (simp add: t_def)
  have d: "decode_delta (bit (ucast (packet_info ?x ?y (mouse_clicks s)) :: u8) 4) (word_of_int ?x) = ?x - 256 * (?x div 256)"
    using packet_info_bits(1) [OF assms(4), of ?x ?y] assms(7)
    by (simp add: decode_delta_def uint_word_of_int minus_mult_div_eq_mod)
  show ?thesis
    unfolding Let_def e irq_fields l packet_bytes_def packet_pushed_fields
    using d by (simp add: t_def)
qed



text \<open>
  The disabled 2:1 scaling: \<open>apply_scaling2\<close> returns 0 for a movement of 2, 4
  or 5 units, and for the same movement in the opposite direction the values -1, -6 and -9, since
  \<open>n >> 31\<close> is 0 for a positive number and not 1.
\<close>

theorem ps2_scaling2_loses_positive:
  "map apply_scaling2 [2, 4, 5] = [0, 0, 0] \<and> map apply_scaling2 [-2, -4, -5] = [-1, -6, -9]"
  by (simp add: apply_scaling2_def Let_def)

text \<open>
  Saving and restoring: a state saved from any controller and restored into any other
  gives back every saved field, with both buffers empty and the status clear, and the restored
  controller is in a state that satisfies the invariant again, whatever bytes were waiting.
\<close>

theorem ps2_restore:
  assumes "ps2_inv s" "ps2_inv s0"
  shows "let r = ps2_set_state (ps2_get_state s) s0
    in ps2_get_state r = ps2_get_state s \<and> bq_list (kbd_buffer r) = [] \<and> bq_list (mouse_buffer r) = [] \<and>
       \<not> bit (fst (port64_read r)) 0 \<and> ps2_inv r \<and> wheel_movement r = wheel_movement s0"
proof -
  note w = inv_buffers [OF assms(1)] and w0 = inv_buffers [OF assms(2)]
  define r where "r = ps2_set_state (ps2_get_state s) s0"
  have f: "kbd_buffer r = bq_clear (kbd_buffer s0)" "mouse_buffer r = bq_clear (mouse_buffer s0)"
    "\<not> next_byte_is_ready r" "\<not> next_byte_is_aux r" "wheel_movement r = wheel_movement s0"
    "sample_rate r = sample_rate s" "resolution r = resolution s" "mouse_id r = mouse_id s"
    "mouse_detect_state r = mouse_detect_state s"
    by (simp_all add: r_def ps2_set_state_def ps2_get_state_def or_default_def Let_def)
  have "ps2_get_state r = ps2_get_state s"
    by (simp add: r_def ps2_set_state_def ps2_get_state_def or_default_def Let_def ps2_emit_def)
  moreover have "ps2_buffers_inv r" "ps2_ready_inv r"
    by (simp_all add: ps2_buffers_inv_def ps2_ready_inv_def f w0 bq_clear_wf)
  moreover have "ps2_mouse_inv r"
    using w(5) w0(5) unfolding ps2_mouse_inv_def f by blast
  moreover have "\<not> bit (fst (port64_read r)) 0" by (simp add: port64_read_def f)
  ultimately show ?thesis unfolding r_def [symmetric] Let_def ps2_inv_def by (simp add: f)
qed

theorem ps2_restore_witness:
  "let r = ps2_set_state (ps2_get_state (ps2_reset [])) (ps2_reset [])
   in ps2_get_state r = ps2_get_state (ps2_reset []) \<and> ps2_inv r"
  using ps2_restore [OF ps2_reset_inv ps2_reset_inv, of "[]" "[]"] by (simp add: Let_def)

text \<open>
  Registering the controller makes port 0x60 and port 0x64 decode to its four handlers.
\<close>

theorem ps2_ports_decode:
  "\<exists>ports. PS2_register dev get put IO_ports = Some ports \<and>
    port_read8 0x60 ports m = Some (let (x, s) = port60_read (get m) in (x, put s m)) \<and>
    port_read8 0x64 ports m = Some (let (x, s) = port64_read (get m) in (x, put s m)) \<and>
    port_write8 0x60 b ports m = Some (put (port60_write b (get m)) m) \<and>
    port_write8 0x64 b ports m = Some (put (port64_write b (get m)) m)"
  by (simp add: PS2_register_def register_read_def register_write_def port_access_defs lift_defs)

end
