(* ===== verification/Phys_Mem.thy ===== *)
theory Phys_Mem
  imports Lib_Queue
begin

text \<open>
  Physical memory as the devices see it: \<open>validate_physical_range\<close>,
  \<open>read_blob_physical\<close>, \<open>write_blob_physical\<close> and the scalar accesses of
  \<open>src/cpu.js\<close>. The decoding of a physical address is done by the WebAssembly module: its
  exports are the parameter \<open>w\<close> of the definitions. An access that throws a RangeError
  returns None together with the state it left.
\<close>

section \<open>State and imports\<close>

text \<open>
  The linear memory of the module, the view \<open>mem8\<close> of it, the calls of
  \<open>jit_dirty_cache\<close> so far, and the rest of the machine, which device accesses may change.
\<close>

record 'd pcpu =
  wasm_memory :: "u8 list"
  mem8_offset :: nat
  mem8_size :: nat
  extended_base :: int
  jit_dirtied :: "(int \<times> int) list"
  devices :: 'd

text \<open>The exports take the low and the high word of an address; here they take the address.\<close>

record 'd wasm_exports =
  x64_phys_resolve :: "'d pcpu \<Rightarrow> int \<Rightarrow> int"
  x64_phys_kind :: "'d pcpu \<Rightarrow> int \<Rightarrow> int"
  x64_phys_read :: "nat \<Rightarrow> int \<Rightarrow> 'd pcpu \<Rightarrow> int \<times> 'd pcpu"
  x64_phys_write :: "nat \<Rightarrow> int \<Rightarrow> int \<Rightarrow> 'd pcpu \<Rightarrow> bool \<times> 'd pcpu"
  x64_ext_pin :: "int \<Rightarrow> bool \<Rightarrow> 'd pcpu \<Rightarrow> int \<times> 'd pcpu"
  x64_ext_unpin :: "int \<Rightarrow> 'd pcpu \<Rightarrow> 'd pcpu"

definition mem8 :: "'d pcpu \<Rightarrow> u8 list" where
  "mem8 c = take (mem8_size c) (drop (mem8_offset c) (wasm_memory c))"

text \<open>\<open>mem8.set(bytes, offset)\<close>, which throws a RangeError when it does not fit.\<close>

definition mem8_set :: "u8 list \<Rightarrow> int \<Rightarrow> 'd pcpu \<Rightarrow> 'd pcpu option" where
  "mem8_set bytes offset c =
     (if 0 \<le> offset \<and> nat offset + length bytes \<le> mem8_size c
      then Some (c\<lparr>wasm_memory := ta_set (wasm_memory c) bytes (mem8_offset c + nat offset)\<rparr>)
      else None)"

definition jit_dirty_cache :: "int \<Rightarrow> int \<Rightarrow> 'd pcpu \<Rightarrow> 'd pcpu" where
  "jit_dirty_cache start stop c = c\<lparr>jit_dirtied := jit_dirtied c @ [(start, stop)]\<rparr>"

section \<open>Validation\<close>

definition is_safe_integer :: "int \<Rightarrow> bool" where
  "is_safe_integer x \<longleftrightarrow> \<bar>x\<bar> \<le> 9007199254740991"

definition page_end :: "int \<Rightarrow> int" where
  "page_end pa = (pa div 4096 + 1) * 4096"

lemma page_end_greater: "pa < page_end pa"
  unfolding page_end_def by simp

function validate_pages :: "'d wasm_exports \<Rightarrow> int \<Rightarrow> int \<Rightarrow> 'd pcpu \<Rightarrow> bool" where
  "validate_pages w pa stop c =
     (if pa < stop
      then let e = min stop (page_end pa)
           in if x64_phys_resolve w c pa < 0 \<or> x64_phys_resolve w c (e - 1) < 0 then False
              else validate_pages w e stop c
      else True)"
  by pat_completeness auto
termination
  by (relation "measure (\<lambda>(w, pa, stop, c). nat (stop - pa))") (use page_end_greater in \<open>auto simp: min_def\<close>)

declare validate_pages.simps [simp del]

text \<open>True when no RangeError is thrown.\<close>

definition validate_physical_range :: "'d wasm_exports \<Rightarrow> int \<Rightarrow> int \<Rightarrow> 'd pcpu \<Rightarrow> bool" where
  "validate_physical_range w address len c =
     (if \<not> is_safe_integer address \<or> \<not> is_safe_integer len \<or> address < 0 \<or> 0x1000000000 \<le> address \<or> len < 0 \<or>
         0x1000000000 < address + len
      then False else validate_pages w address (address + len) c)"

section \<open>Scalars\<close>

definition read_physical_scalar :: "'d wasm_exports \<Rightarrow> int \<Rightarrow> nat \<Rightarrow> 'd pcpu \<Rightarrow> int option \<times> 'd pcpu" where
  "read_physical_scalar w address width c =
     (if \<not> validate_physical_range w address (int width div 8) c then (None, c)
      else let (v, c1) = x64_phys_read w width address c
           in if v < 0 then (None, c1) else (Some v, c1))"

definition write_physical_scalar :: "'d wasm_exports \<Rightarrow> int \<Rightarrow> int \<Rightarrow> nat \<Rightarrow> 'd pcpu \<Rightarrow> unit option \<times> 'd pcpu" where
  "write_physical_scalar w address v width c =
     (if \<not> validate_physical_range w address (int width div 8) c then (None, c)
      else let (ok, c1) = x64_phys_write w width address (v mod 4294967296) c
           in (if ok then Some () else None, c1))"

section \<open>Blobs\<close>

definition extended_page :: "'d pcpu \<Rightarrow> int \<Rightarrow> int" where
  "extended_page c address = (address - extended_base c) div 4096"

definition extended_page_read :: "'d wasm_exports \<Rightarrow> int \<Rightarrow> nat \<Rightarrow> 'd pcpu \<Rightarrow> u8 list \<times> 'd pcpu" where
  "extended_page_read w address count c =
     (let page = extended_page c address;
          (frame0, c1) = x64_ext_pin w page False c;
          frame = nat (frame0 mod 4294967296) + nat (address mod 4096)
      in (subarray (wasm_memory c1) frame (frame + count), x64_ext_unpin w page c1))"

definition extended_page_write :: "'d wasm_exports \<Rightarrow> int \<Rightarrow> u8 list \<Rightarrow> 'd pcpu \<Rightarrow> 'd pcpu" where
  "extended_page_write w address bytes c =
     (let page = extended_page c address;
          (frame0, c1) = x64_ext_pin w page True c;
          frame = nat (frame0 mod 4294967296) + nat (address mod 4096)
      in x64_ext_unpin w page (c1\<lparr>wasm_memory := ta_set (wasm_memory c1) bytes frame\<rparr>))"

text \<open>The byte loops for pages of devices.\<close>

fun read_bytes_physical :: "'d wasm_exports \<Rightarrow> int \<Rightarrow> nat \<Rightarrow> 'd pcpu \<Rightarrow> u8 list option \<times> 'd pcpu" where
  "read_bytes_physical w pa 0 c = (Some [], c)"
| "read_bytes_physical w pa (Suc n) c =
     (case read_physical_scalar w pa 8 c of
        (None, c1) \<Rightarrow> (None, c1)
      | (Some v, c1) \<Rightarrow>
          (case read_bytes_physical w (pa + 1) n c1 of
             (None, c2) \<Rightarrow> (None, c2)
           | (Some vs, c2) \<Rightarrow> (Some (word_of_int v # vs), c2)))"

fun write_bytes_physical :: "'d wasm_exports \<Rightarrow> int \<Rightarrow> u8 list \<Rightarrow> 'd pcpu \<Rightarrow> unit option \<times> 'd pcpu" where
  "write_bytes_physical w pa [] c = (Some (), c)"
| "write_bytes_physical w pa (b # bs) c =
     (case write_physical_scalar w pa (uint b) 8 c of
        (None, c1) \<Rightarrow> (None, c1)
      | (Some _, c1) \<Rightarrow> write_bytes_physical w (pa + 1) bs c1)"

text \<open>The bytes of one chunk, which lies in one page.\<close>

definition read_chunk :: "'d wasm_exports \<Rightarrow> int \<Rightarrow> nat \<Rightarrow> 'd pcpu \<Rightarrow> u8 list option \<times> 'd pcpu" where
  "read_chunk w pa count c =
     (let kind = x64_phys_kind w c pa
      in if kind = 1
         then let backing = nat (x64_phys_resolve w c pa)
              in (Some (subarray (mem8 c) backing (backing + count)), c)
         else if kind = 3 then (let (bs, c1) = extended_page_read w pa count c in (Some bs, c1))
         else read_bytes_physical w pa count c)"

definition write_chunk :: "'d wasm_exports \<Rightarrow> int \<Rightarrow> u8 list \<Rightarrow> 'd pcpu \<Rightarrow> unit option \<times> 'd pcpu" where
  "write_chunk w pa bytes c =
     (let kind = x64_phys_kind w c pa
      in if kind = 1
         then let backing = x64_phys_resolve w c pa;
                  c1 = jit_dirty_cache backing (backing + int (length bytes)) c
              in case mem8_set bytes backing c1 of None \<Rightarrow> (None, c1) | Some c2 \<Rightarrow> (Some (), c2)
         else if kind = 3 then (Some (), extended_page_write w pa bytes c)
         else write_bytes_physical w pa bytes c)"

definition chunk_count :: "int \<Rightarrow> nat \<Rightarrow> nat" where
  "chunk_count pa remaining = min remaining (nat (4096 - pa mod 4096))"

lemma chunk_count_pos: "0 < remaining \<Longrightarrow> 0 < chunk_count pa remaining"
  by (simp add: chunk_count_def)

function read_chunks :: "'d wasm_exports \<Rightarrow> int \<Rightarrow> nat \<Rightarrow> nat \<Rightarrow> u8 list \<Rightarrow> 'd pcpu \<Rightarrow> u8 list option \<times> 'd pcpu" where
  "read_chunks w address len finished result c =
     (if finished < len
      then let pa = address + int finished; count = chunk_count pa (len - finished)
           in case read_chunk w pa count c of
                (None, c1) \<Rightarrow> (None, c1)
              | (Some bs, c1) \<Rightarrow> read_chunks w address len (finished + count) (ta_set result bs finished) c1
      else (Some result, c))"
  by pat_completeness auto
termination
  by (relation "measure (\<lambda>(w, address, len, finished, result, c). len - finished)")
    (use chunk_count_pos in \<open>auto simp: diff_less_mono2\<close>)

declare read_chunks.simps [simp del]

definition read_blob_physical :: "'d wasm_exports \<Rightarrow> int \<Rightarrow> int \<Rightarrow> 'd pcpu \<Rightarrow> u8 list option \<times> 'd pcpu" where
  "read_blob_physical w address len c =
     (if \<not> validate_physical_range w address len c then (None, c)
      else read_chunks w address (nat len) 0 (replicate (nat len) 0) c)"

function write_chunks :: "'d wasm_exports \<Rightarrow> u8 list \<Rightarrow> int \<Rightarrow> nat \<Rightarrow> 'd pcpu \<Rightarrow> unit option \<times> 'd pcpu" where
  "write_chunks w blob address finished c =
     (if finished < length blob
      then let pa = address + int finished; count = chunk_count pa (length blob - finished)
           in case write_chunk w pa (subarray blob finished (finished + count)) c of
                (None, c1) \<Rightarrow> (None, c1)
              | (Some _, c1) \<Rightarrow> write_chunks w blob address (finished + count) c1
      else (Some (), c))"
  by pat_completeness auto
termination
  by (relation "measure (\<lambda>(w, blob, address, finished, c). length blob - finished)")
    (use chunk_count_pos in \<open>auto simp: diff_less_mono2\<close>)

declare write_chunks.simps [simp del]

definition write_blob_physical :: "'d wasm_exports \<Rightarrow> u8 list \<Rightarrow> int \<Rightarrow> 'd pcpu \<Rightarrow> unit option \<times> 'd pcpu" where
  "write_blob_physical w blob address c =
     (if \<not> validate_physical_range w address (int (length blob)) c then (None, c)
      else write_chunks w blob address 0 c)"

section \<open>Ranges of memory\<close>

text \<open>
  What the module guarantees of a range of guest memory: every byte of it is decoded as memory
  (kind 1) to a byte of \<open>mem8\<close>, and the bytes of one page to consecutive bytes. The decoding
  depends on neither the contents of the memory nor the code cache.
\<close>

definition ram_range :: "'d wasm_exports \<Rightarrow> 'd pcpu \<Rightarrow> int \<Rightarrow> nat \<Rightarrow> bool" where
  "ram_range w c a n \<longleftrightarrow>
     mem8_offset c + mem8_size c \<le> length (wasm_memory c) \<and>
     (\<forall>i < n. x64_phys_kind w c (a + int i) = 1 \<and> 0 \<le> x64_phys_resolve w c (a + int i) \<and>
        x64_phys_resolve w c (a + int i) < int (mem8_size c)) \<and>
     (\<forall>i j. i \<le> j \<and> j < n \<and> (a + int i) div 4096 = (a + int j) div 4096 \<longrightarrow>
        x64_phys_resolve w c (a + int j) = x64_phys_resolve w c (a + int i) + int (j - i))"

definition decode_stable :: "'d wasm_exports \<Rightarrow> bool" where
  "decode_stable w \<longleftrightarrow>
     (\<forall>c m d a. x64_phys_resolve w (c\<lparr>wasm_memory := m, jit_dirtied := d\<rparr>) a = x64_phys_resolve w c a \<and>
        x64_phys_kind w (c\<lparr>wasm_memory := m, jit_dirtied := d\<rparr>) a = x64_phys_kind w c a)"

text \<open>The byte of memory at a guest address.\<close>

definition phys_byte :: "'d wasm_exports \<Rightarrow> 'd pcpu \<Rightarrow> int \<Rightarrow> u8" where
  "phys_byte w c a = mem8 c ! nat (x64_phys_resolve w c a)"

lemma ram_rangeD:
  assumes "ram_range w c a n" "i < n"
  shows "x64_phys_kind w c (a + int i) = 1" "0 \<le> x64_phys_resolve w c (a + int i)"
    "x64_phys_resolve w c (a + int i) < int (mem8_size c)"
  using assms by (simp_all add: ram_range_def)

text \<open>A chunk lies in one page, so its bytes are consecutive.\<close>

lemma chunk_same_page:
  fixes pa :: int
  assumes "i < chunk_count pa r"
  shows "(pa + int i) div 4096 = pa div 4096"
proof -
  define q m where "q = pa div 4096" and "m = pa mod 4096"
  then have pa: "pa = 4096 * q + m" "0 \<le> m" "m < 4096" by simp_all
  then have "m + int i < 4096" using assms by (auto simp: chunk_count_def m_def [symmetric])
  moreover have "pa + int i = 4096 * q + (m + int i)" using pa by simp
  ultimately show ?thesis using pa by (simp add: div_pos_pos_trivial)
qed

lemma chunk_linear:
  assumes "ram_range w c a n" "k < n" "i < chunk_count (a + int k) (n - k)"
  shows "x64_phys_resolve w c (a + int (k + i)) = x64_phys_resolve w c (a + int k) + int i"
proof -
  have "k + i < n" using assms(3) by (auto simp: chunk_count_def)
  moreover have "(a + int k) div 4096 = (a + int (k + i)) div 4096"
    using chunk_same_page [OF assms(3)] by (simp add: add.assoc)
  ultimately show ?thesis using assms(1) unfolding ram_range_def
    by (metis add_diff_cancel_left' le_add1)
qed

lemma validate_ram:
  assumes "ram_range w c a n" "0 \<le> a" "a + int n \<le> 0x1000000000" "0 < n"
  shows "validate_physical_range w a (int n) c"
proof -
  have ok: "0 \<le> x64_phys_resolve w c x" if "a \<le> x" "x < a + int n" for x
    using ram_rangeD(2) [OF assms(1), of "nat (x - a)"] that by auto
  have "validate_pages w x (a + int n) c" if "a \<le> x" for x
    using that
  proof (induction "nat (a + int n - x)" arbitrary: x rule: less_induct)
    case less
    show ?case
    proof (cases "x < a + int n")
      case True
      let ?e = "min (a + int n) (page_end x)"
      have e: "x < ?e" "?e \<le> a + int n" using True page_end_greater [of x] by auto
      then have "validate_pages w ?e (a + int n) c" using less by (intro less.hyps) auto
      then show ?thesis
        using ok [of x] ok [of "?e - 1"] e True less.prems
        by (subst validate_pages.simps) (simp add: Let_def not_less)
    qed (simp add: validate_pages.simps)
  qed
  then show ?thesis using assms by (simp add: validate_physical_range_def is_safe_integer_def)
qed

section \<open>Reading\<close>

lemma mem8_length: "mem8_offset c + mem8_size c \<le> length (wasm_memory c) \<Longrightarrow> length (mem8 c) = mem8_size c"
  by (simp add: mem8_def)

lemma subarray_map: "i + n \<le> length xs \<Longrightarrow> subarray xs i (i + n) = map (\<lambda>k. xs ! (i + k)) [0..<n]"
  by (rule nth_equalityI) (simp_all add: subarray_def)

lemma ta_set_ta_set:
  "length xs + length ys + k \<le> length m \<Longrightarrow> ta_set (ta_set m xs k) ys (k + length xs) = ta_set m (xs @ ys) k"
  by (simp add: ta_set_def add.commute add.left_commute)

lemma read_chunk_ram:
  assumes r: "ram_range w c a n" and k: "k < n" and cnt: "cnt = chunk_count (a + int k) (n - k)"
  shows "read_chunk w (a + int k) cnt c = (Some (map (\<lambda>i. phys_byte w c (a + int i)) [k..<k + cnt]), c)"
proof -
  let ?b = "nat (x64_phys_resolve w c (a + int k))"
  have pos: "0 < cnt" using k by (simp add: cnt chunk_count_pos)
  have lin: "i < cnt \<Longrightarrow> x64_phys_resolve w c (a + int (k + i)) = x64_phys_resolve w c (a + int k) + int i" for i
    using chunk_linear [OF r k] by (simp add: cnt)
  have le: "k + (cnt - 1) < n" using pos k by (auto simp: cnt chunk_count_def)
  have "x64_phys_resolve w c (a + int k) + int (cnt - 1) < int (mem8_size c)"
    using ram_rangeD(3) [OF r le] lin [of "cnt - 1"] pos by simp
  then have "?b + cnt \<le> mem8_size c" using ram_rangeD(2) [OF r k] pos by linarith
  moreover have "length (mem8 c) = mem8_size c" using r by (simp add: mem8_length ram_range_def)
  ultimately have "subarray (mem8 c) ?b (?b + cnt) = map (\<lambda>i. mem8 c ! (?b + i)) [0..<cnt]"
    by (simp add: subarray_map)
  also have "\<dots> = map (\<lambda>i. phys_byte w c (a + int i)) [k..<k + cnt]"
    using lin ram_rangeD(2) [OF r k]
    by (intro nth_equalityI) (simp_all add: phys_byte_def nat_add_distrib)
  finally show ?thesis using ram_rangeD(1) [OF r k] by (simp add: read_chunk_def Let_def)
qed

lemma read_chunks_ram:
  assumes r: "ram_range w c a n"
  shows "k \<le> n \<Longrightarrow>
    read_chunks w a n k (map (\<lambda>i. phys_byte w c (a + int i)) [0..<k] @ replicate (n - k) 0) c =
    (Some (map (\<lambda>i. phys_byte w c (a + int i)) [0..<n]), c)"
proof (induction "n - k" arbitrary: k rule: less_induct)
  case less
  show ?case
  proof (cases "k < n")
    case False
    with less.prems show ?thesis by (simp add: read_chunks.simps)
  next
    case True
    define cnt where "cnt = chunk_count (a + int k) (n - k)"
    have c: "0 < cnt" "k + cnt \<le> n" using True by (auto simp: cnt_def chunk_count_def)
    let ?f = "\<lambda>i. phys_byte w c (a + int i)"
    have "ta_set (map ?f [0..<k] @ replicate (n - k) 0) (map ?f [k..<k + cnt]) k =
        map ?f [0..<k + cnt] @ replicate (n - (k + cnt)) 0"
      using ta_set_append [of "map ?f [k..<k + cnt]" "n - k" "map ?f [0..<k]" 0] c
      by (simp add: upt_add_eq_append [of 0 k cnt])
    moreover note less.hyps [of "k + cnt"]
    ultimately show ?thesis
      using True c read_chunk_ram [OF r True cnt_def]
      by (subst read_chunks.simps) (simp add: Let_def cnt_def [symmetric])
  qed
qed

lemma read_blob_ram:
  assumes "ram_range w c a n" "0 \<le> a" "a + int n \<le> 0x1000000000" "0 < n"
  shows "read_blob_physical w a (int n) c = (Some (map (\<lambda>i. phys_byte w c (a + int i)) [0..<n]), c)"
  using read_chunks_ram [OF assms(1), of 0] validate_ram [OF assms] by (simp add: read_blob_physical_def)

text \<open>
  Reading memory for a device: for a range of guest memory on the 36-bit bus,
  \<open>read_blob_physical\<close> returns the bytes at the addresses of the range in order, however
  the range is cut into pages, and changes nothing.
\<close>

theorem read_blob_physical_ram:
  assumes "ram_range w c a n" "0 \<le> a" "a + int n \<le> 0x1000000000" "0 < n"
  shows "read_blob_physical w a (int n) c = (Some (map (\<lambda>i. phys_byte w c (a + int i)) [0..<n]), c)"
  using assms by (rule read_blob_ram)

text \<open>A module that decodes the first bytes of the address space to memory at the same offset.\<close>

definition flat_exports :: "'d wasm_exports" where
  "flat_exports =
     \<lparr>x64_phys_resolve = (\<lambda>c a. if 0 \<le> a \<and> a < int (mem8_size c) then a else -1),
      x64_phys_kind = (\<lambda>c a. if 0 \<le> a \<and> a < int (mem8_size c) then 1 else 0),
      x64_phys_read = (\<lambda>n a c. (-1, c)), x64_phys_write = (\<lambda>n a v c. (False, c)),
      x64_ext_pin = (\<lambda>p b c. (0, c)), x64_ext_unpin = (\<lambda>p c. c)\<rparr>"

definition flat_cpu :: "u8 list \<Rightarrow> unit pcpu" where
  "flat_cpu bytes = \<lparr>wasm_memory = bytes, mem8_offset = 0, mem8_size = length bytes, extended_base = 0,
     jit_dirtied = [], devices = ()\<rparr>"

lemma flat_ram_range: "0 \<le> a \<Longrightarrow> a + int n \<le> int (length bytes) \<Longrightarrow> ram_range flat_exports (flat_cpu bytes) a n"
  by (simp add: ram_range_def flat_exports_def flat_cpu_def)

theorem read_blob_physical_ram_witness:
  "read_blob_physical flat_exports 1 3 (flat_cpu [10, 20, 30, 40]) = (Some [20, 30, 40], flat_cpu [10, 20, 30, 40])"
  using read_blob_physical_ram [OF flat_ram_range [of 1 3 "[10, 20, 30, 40]"]]
  by (simp add: phys_byte_def mem8_def flat_exports_def flat_cpu_def upt_rec numeral_3_eq_3)

section \<open>Writing\<close>

text \<open>The reference: one byte after the other.\<close>

definition write_byte_at :: "'d wasm_exports \<Rightarrow> 'd pcpu \<Rightarrow> int \<Rightarrow> u8 list \<Rightarrow> nat \<Rightarrow> u8 list \<Rightarrow> u8 list" where
  "write_byte_at w c a blob i m = m[mem8_offset c + nat (x64_phys_resolve w c (a + int i)) := blob ! i]"

lemma ta_set_updates:
  "k + length bs \<le> length m \<Longrightarrow> ta_set m bs k = fold (\<lambda>i m. m[k + i := bs ! i]) [0..<length bs] m"
proof (induction bs rule: rev_induct)
  case (snoc x xs)
  have "fold (\<lambda>i m. m[k + i := (xs @ [x]) ! i]) [0..<length xs] m = fold (\<lambda>i m. m[k + i := xs ! i]) [0..<length xs] m"
    by (rule fold_cong) (simp_all add: nth_append)
  also have "\<dots> = ta_set m xs k" using snoc by simp
  finally have "fold (\<lambda>i m. m[k + i := (xs @ [x]) ! i]) [0..<length (xs @ [x])] m = (ta_set m xs k)[k + length xs := x]"
    by simp
  also have "\<dots> = ta_set m (xs @ [x]) k"
    using snoc.prems by (intro nth_equalityI) (auto simp: ta_set_def nth_append nth_list_update min_def)
  finally show ?case by simp
qed (simp add: ta_set_def)

lemma write_chunk_ram:
  assumes r: "ram_range w c a (length blob)" and k: "k < length blob"
    and cnt: "cnt = chunk_count (a + int k) (length blob - k)"
    and stable: "decode_stable w" and c': "c' = c\<lparr>wasm_memory := m, jit_dirtied := d\<rparr>" "length m = length (wasm_memory c)"
  shows "\<exists>d'. write_chunk w (a + int k) (subarray blob k (k + cnt)) c' =
      (Some (), c\<lparr>wasm_memory := fold (write_byte_at w c a blob) [k..<k + cnt] m, jit_dirtied := d @ d'\<rparr>) \<and>
      (\<forall>i \<in> {k..<k + cnt}. \<exists>(s, e) \<in> set d'. s \<le> x64_phys_resolve w c (a + int i) \<and> x64_phys_resolve w c (a + int i) < e)"
proof -
  let ?b = "x64_phys_resolve w c (a + int k)" and ?bs = "subarray blob k (k + cnt)"
  have pos: "0 < cnt" "k + cnt \<le> length blob" using k by (auto simp: cnt chunk_count_def)
  have lin: "i < cnt \<Longrightarrow> x64_phys_resolve w c (a + int (k + i)) = ?b + int i" for i
    using chunk_linear [OF r k] by (simp add: cnt)
  have b0: "0 \<le> ?b" using ram_rangeD(2) [OF r k] .
  have "k + (cnt - 1) < length blob" using pos by simp
  then have "?b + int (cnt - 1) < int (mem8_size c)"
    using ram_rangeD(3) [OF r, of "k + (cnt - 1)"] lin [of "cnt - 1"] pos by simp
  then have fit: "nat ?b + cnt \<le> mem8_size c" using b0 pos by linarith
  have len: "length ?bs = cnt" using pos by (simp add: subarray_def)
  have same: "x64_phys_resolve w c' x = x64_phys_resolve w c x" "x64_phys_kind w c' x = x64_phys_kind w c x" for x
    using stable by (simp_all add: decode_stable_def c')
  have "ta_set m ?bs (mem8_offset c + nat ?b) = fold (\<lambda>i m. m[mem8_offset c + nat ?b + i := ?bs ! i]) [0..<cnt] m"
    using ta_set_updates [of "mem8_offset c + nat ?b" ?bs m] fit len r c'(2) by (simp add: ram_range_def)
  also have "\<dots> = fold (write_byte_at w c a blob) (map (\<lambda>i. k + i) [0..<cnt]) m"
    unfolding fold_map
    by (rule fold_cong) (use lin b0 pos in \<open>auto simp: write_byte_at_def subarray_def fun_eq_iff nat_add_distrib add.assoc\<close>)
  also have "map (\<lambda>i. k + i) [0..<cnt] = [k..<k + cnt]" by (rule nth_equalityI) simp_all
  finally have m': "ta_set m ?bs (mem8_offset c + nat ?b) = fold (write_byte_at w c a blob) [k..<k + cnt] m" .
  have "write_chunk w (a + int k) ?bs c' =
      (Some (), c\<lparr>wasm_memory := fold (write_byte_at w c a blob) [k..<k + cnt] m,
         jit_dirtied := d @ [(?b, ?b + int cnt)]\<rparr>)"
    using ram_rangeD(1) [OF r k] fit b0
    by (simp add: write_chunk_def same [unfolded c'(1)] jit_dirty_cache_def mem8_set_def len m' [symmetric] c' Let_def)
  moreover have "\<forall>i \<in> {k..<k + cnt}. \<exists>(s, e) \<in> set [(?b, ?b + int cnt)].
      s \<le> x64_phys_resolve w c (a + int i) \<and> x64_phys_resolve w c (a + int i) < e"
  proof (clarsimp)
    fix i assume "k \<le> i" "i < k + cnt"
    then show "?b \<le> x64_phys_resolve w c (a + int i) \<and> x64_phys_resolve w c (a + int i) < ?b + int cnt"
      using lin [of "i - k"] by auto
  qed
  ultimately show ?thesis by blast
qed

lemma fold_write_length: "length (fold (write_byte_at w c a blob) is m) = length m"
  by (induction "is" arbitrary: m) (simp_all add: write_byte_at_def)

text \<open>The bytes of the linear memory that the code cache was told of.\<close>

definition dirty_covers :: "(int \<times> int) list \<Rightarrow> int \<Rightarrow> bool" where
  "dirty_covers d x \<longleftrightarrow> (\<exists>(s, e) \<in> set d. s \<le> x \<and> x < e)"

lemma write_chunks_ram:
  assumes r: "ram_range w c a (length blob)" and stable: "decode_stable w"
  shows "k \<le> length blob \<Longrightarrow> length m = length (wasm_memory c) \<Longrightarrow>
    \<exists>d'. write_chunks w blob a k (c\<lparr>wasm_memory := m, jit_dirtied := d\<rparr>) =
      (Some (), c\<lparr>wasm_memory := fold (write_byte_at w c a blob) [k..<length blob] m, jit_dirtied := d @ d'\<rparr>) \<and>
      (\<forall>i \<in> {k..<length blob}. dirty_covers d' (x64_phys_resolve w c (a + int i)))"
proof (induction "length blob - k" arbitrary: k m d rule: less_induct)
  case less
  show ?case
  proof (cases "k < length blob")
    case False
    with less.prems show ?thesis by (intro exI [of _ "[]"]) (simp add: write_chunks.simps)
  next
    case True
    define cnt where "cnt = chunk_count (a + int k) (length blob - k)"
    have n: "0 < cnt" "k + cnt \<le> length blob" using True by (auto simp: cnt_def chunk_count_def)
    define m' where "m' = fold (write_byte_at w c a blob) [k..<k + cnt] m"
    obtain d1 where d1: "write_chunk w (a + int k) (subarray blob k (k + cnt)) (c\<lparr>wasm_memory := m, jit_dirtied := d\<rparr>) =
        (Some (), c\<lparr>wasm_memory := m', jit_dirtied := d @ d1\<rparr>)"
      "\<forall>i \<in> {k..<k + cnt}. dirty_covers d1 (x64_phys_resolve w c (a + int i))"
      using write_chunk_ram [OF r True cnt_def stable refl less.prems(2), of d] unfolding m'_def dirty_covers_def by blast
    have "length m' = length (wasm_memory c)" using less.prems(2) by (simp add: m'_def fold_write_length)
    then obtain d2 where d2: "write_chunks w blob a (k + cnt) (c\<lparr>wasm_memory := m', jit_dirtied := d @ d1\<rparr>) =
        (Some (), c\<lparr>wasm_memory := fold (write_byte_at w c a blob) [k + cnt..<length blob] m', jit_dirtied := (d @ d1) @ d2\<rparr>)"
      "\<forall>i \<in> {k + cnt..<length blob}. dirty_covers d2 (x64_phys_resolve w c (a + int i))"
      using less.hyps [of "k + cnt" m' "d @ d1"] n True by (metis diff_less_mono2 less_add_same_cancel1)
    have "[k..<length blob] = [k..<k + cnt] @ [k + cnt..<length blob]"
      using n upt_add_eq_append [of k "k + cnt" "length blob - (k + cnt)"] by simp
    then have mem: "fold (write_byte_at w c a blob) [k + cnt..<length blob] m' = fold (write_byte_at w c a blob) [k..<length blob] m"
      by (simp add: m'_def)
    have cov: "\<forall>i \<in> {k..<length blob}. dirty_covers (d1 @ d2) (x64_phys_resolve w c (a + int i))"
      using d1(2) d2(2) by (fastforce simp: dirty_covers_def)
    show ?thesis
      using d1(1) d2(1) True cov unfolding mem
      by (intro exI [of _ "d1 @ d2"]) (subst write_chunks.simps, simp add: Let_def cnt_def [symmetric])
  qed
qed

lemma write_blob_ram:
  assumes "ram_range w c a (length blob)" "decode_stable w" "0 \<le> a" "a + int (length blob) \<le> 0x1000000000" "blob \<noteq> []"
  shows "\<exists>d'. write_blob_physical w blob a c =
      (Some (), c\<lparr>wasm_memory := fold (write_byte_at w c a blob) [0..<length blob] (wasm_memory c),
        jit_dirtied := jit_dirtied c @ d'\<rparr>) \<and>
      (\<forall>i < length blob. dirty_covers d' (x64_phys_resolve w c (a + int i)))"
  using write_chunks_ram [OF assms(1,2), of 0 "wasm_memory c" "jit_dirtied c"] validate_ram [OF assms(1,3,4)] assms(5)
  by (simp add: write_blob_physical_def Ball_def)

text \<open>
  Claim C6. Writing memory for a device: for a range of guest memory on the 36-bit bus,
  \<open>write_blob_physical\<close> succeeds and leaves exactly what storing the bytes one after the
  other leaves, and every byte it stores lies in a range it reported to the code cache.
\<close>

theorem write_blob_physical_ram:
  assumes "ram_range w c a (length blob)" "decode_stable w" "0 \<le> a" "a + int (length blob) \<le> 0x1000000000" "blob \<noteq> []"
  shows "\<exists>d'. write_blob_physical w blob a c =
      (Some (), c\<lparr>wasm_memory := fold (write_byte_at w c a blob) [0..<length blob] (wasm_memory c),
        jit_dirtied := jit_dirtied c @ d'\<rparr>) \<and>
      (\<forall>i < length blob. dirty_covers d' (x64_phys_resolve w c (a + int i)))"
  using assms by (rule write_blob_ram)

lemma flat_stable: "decode_stable flat_exports"
  by (simp add: decode_stable_def flat_exports_def)

theorem write_blob_physical_ram_witness:
  "\<exists>d'. write_blob_physical flat_exports [7, 8] 1 (flat_cpu [10, 20, 30, 40]) =
     (Some (), (flat_cpu [10, 7, 8, 40])\<lparr>jit_dirtied := d'\<rparr>) \<and> dirty_covers d' 1 \<and> dirty_covers d' 2"
  using write_blob_physical_ram [OF flat_ram_range [of 1 "length [7, 8 :: u8]" "[10, 20, 30, 40]"] flat_stable]
  by (force simp: flat_exports_def flat_cpu_def write_byte_at_def upt_rec less_Suc_eq)

end
