(* ===== verification/Dma.thy ===== *)
theory Dma
  imports Device Phys_Mem
begin

text \<open>
  The DMA controllers of \<open>src/dma.js\<close>: eight channels with their typed arrays, the
  low/high byte flip-flop, the masks with their listeners, and the transfers between a device's
  buffer and guest memory. A transfer is started at once and completed later by the buffer; a
  machine reset in between makes the completion void.
\<close>

section \<open>State\<close>

text \<open>
  A listener of \<open>on_unmask\<close> is a number here; \<open>unmask_calls\<close> records the calls of
  listeners with the channel they were given.
\<close>

record dma =
  channel_page :: "u8 list"
  channel_pagehi :: "u8 list"
  channel_addr :: "u16 list"
  channel_addr_init :: "u16 list"
  channel_count :: "u16 list"
  channel_count_init :: "u16 list"
  channel_mask :: "u8 list"
  channel_mode :: "u8 list"
  unmask_listeners :: "nat list"
  lsb_msb_flipflop :: bool
  epoch :: nat
  unmask_calls :: "(nat \<times> nat) list"

definition DMA :: dma where
  "DMA = \<lparr>channel_page = replicate 8 0, channel_pagehi = replicate 8 0, channel_addr = replicate 8 0,
     channel_addr_init = replicate 8 0, channel_count = replicate 8 0, channel_count_init = replicate 8 0,
     channel_mask = replicate 8 0, channel_mode = replicate 8 0, unmask_listeners = [],
     lsb_msb_flipflop = False, epoch = 0, unmask_calls = []\<rparr>"

section \<open>Registers\<close>

text \<open>The flip-flop is 0 or 1; a set flip-flop selects the low byte.\<close>

definition flipflop_get :: "u16 \<Rightarrow> i32 \<Rightarrow> bool \<Rightarrow> dma \<Rightarrow> u16 \<times> dma" where
  "flipflop_get old_dword new_byte continuing d =
     (let d1 = (if continuing then d else d\<lparr>lsb_msb_flipflop := \<not> lsb_msb_flipflop d\<rparr>)
      in (if lsb_msb_flipflop d1 then ucast (ucast old_dword AND NOT 0xFF OR new_byte)
          else ucast (ucast old_dword AND NOT 0xFF00 OR push_bit 8 new_byte), d1))"

definition flipflop_read :: "u16 \<Rightarrow> dma \<Rightarrow> i32 \<times> dma" where
  "flipflop_read dword d =
     (let d1 = d\<lparr>lsb_msb_flipflop := \<not> lsb_msb_flipflop d\<rparr>
      in (if lsb_msb_flipflop d1 then ucast dword AND 0xFF else signed_drop_bit 8 (ucast dword) AND 0xFF, d1))"

definition port_count_write :: "nat \<Rightarrow> i32 \<Rightarrow> dma \<Rightarrow> dma" where
  "port_count_write channel data_byte d =
     (let (v, d1) = flipflop_get (channel_count d ! channel) data_byte False d;
          d2 = d1\<lparr>channel_count := (channel_count d1)[channel := v]\<rparr>;
          (v', d3) = flipflop_get (channel_count_init d2 ! channel) data_byte True d2
      in d3\<lparr>channel_count_init := (channel_count_init d3)[channel := v']\<rparr>)"

definition port_count_read :: "nat \<Rightarrow> dma \<Rightarrow> i32 \<times> dma" where
  "port_count_read channel d = flipflop_read (channel_count d ! channel) d"

definition port_addr_write :: "nat \<Rightarrow> i32 \<Rightarrow> dma \<Rightarrow> dma" where
  "port_addr_write channel data_byte d =
     (let (v, d1) = flipflop_get (channel_addr d ! channel) data_byte False d;
          d2 = d1\<lparr>channel_addr := (channel_addr d1)[channel := v]\<rparr>;
          (v', d3) = flipflop_get (channel_addr_init d2 ! channel) data_byte True d2
      in d3\<lparr>channel_addr_init := (channel_addr_init d3)[channel := v']\<rparr>)"

definition port_addr_read :: "nat \<Rightarrow> dma \<Rightarrow> i32 \<times> dma" where
  "port_addr_read channel d = flipflop_read (channel_addr d ! channel) d"

definition port_pagehi_write :: "nat \<Rightarrow> i32 \<Rightarrow> dma \<Rightarrow> dma" where
  "port_pagehi_write channel data_byte d = d\<lparr>channel_pagehi := (channel_pagehi d)[channel := ucast data_byte]\<rparr>"

definition port_pagehi_read :: "nat \<Rightarrow> dma \<Rightarrow> i32 \<times> dma" where
  "port_pagehi_read channel d = (ucast (channel_pagehi d ! channel), d)"

definition port_page_write :: "nat \<Rightarrow> i32 \<Rightarrow> dma \<Rightarrow> dma" where
  "port_page_write channel data_byte d = d\<lparr>channel_page := (channel_page d)[channel := ucast data_byte]\<rparr>"

definition port_page_read :: "nat \<Rightarrow> dma \<Rightarrow> i32 \<times> dma" where
  "port_page_read channel d = (ucast (channel_page d ! channel), d)"

text \<open>The call of every listener, in the order they were added.\<close>

definition update_mask :: "nat \<Rightarrow> i32 \<Rightarrow> dma \<Rightarrow> dma" where
  "update_mask channel v d =
     (if ucast (channel_mask d ! channel) \<noteq> v
      then let d1 = d\<lparr>channel_mask := (channel_mask d)[channel := ucast v]\<rparr>
           in if v = 0 then d1\<lparr>unmask_calls := unmask_calls d1 @ map (\<lambda>l. (l, channel)) (unmask_listeners d1)\<rparr> else d1
      else d)"

definition on_unmask :: "nat \<Rightarrow> dma \<Rightarrow> dma" where
  "on_unmask fn d = d\<lparr>unmask_listeners := unmask_listeners d @ [fn]\<rparr>"

definition port_singlemask_write :: "nat \<Rightarrow> i32 \<Rightarrow> dma \<Rightarrow> dma" where
  "port_singlemask_write channel_offset data_byte d =
     (let channel = unat (data_byte AND 0x3) + channel_offset;
          v = (if has_bits data_byte 0x4 then 1 else 0)
      in update_mask channel v d)"

definition port_multimask_write :: "nat \<Rightarrow> i32 \<Rightarrow> dma \<Rightarrow> dma" where
  "port_multimask_write channel_offset data_byte d =
     fold (\<lambda>i. update_mask (channel_offset + i) (data_byte AND push_bit i 1)) [0, 1, 2, 3] d"

definition port_multimask_read :: "nat \<Rightarrow> dma \<Rightarrow> i32 \<times> dma" where
  "port_multimask_read channel_offset d =
     (ucast (channel_mask d ! (channel_offset + 0)) OR push_bit 1 (ucast (channel_mask d ! (channel_offset + 1))) OR
      push_bit 2 (ucast (channel_mask d ! (channel_offset + 2))) OR push_bit 3 (ucast (channel_mask d ! (channel_offset + 3))), d)"

definition port_mode_write :: "nat \<Rightarrow> i32 \<Rightarrow> dma \<Rightarrow> dma" where
  "port_mode_write channel_offset data_byte d =
     (let channel = unat (data_byte AND 0x3) + channel_offset
      in d\<lparr>channel_mode := (channel_mode d)[channel := ucast data_byte]\<rparr>)"

definition portC_write :: "i32 \<Rightarrow> dma \<Rightarrow> dma" where
  "portC_write data_byte d = d\<lparr>lsb_msb_flipflop := False\<rparr>"

section \<open>Transfers\<close>

definition address_get_8bit :: "nat \<Rightarrow> dma \<Rightarrow> int" where
  "address_get_8bit channel d =
     (let addr = ucast (channel_addr d ! channel);
          addr = (if 5 \<le> channel then push_bit 1 addr else addr);
          addr = addr AND 0xFFFF;
          addr = addr OR push_bit 16 (ucast (channel_page d ! channel));
          addr = addr OR push_bit 24 (ucast (channel_pagehi d ! channel)) :: i32
      in uint addr)"

definition count_get_8bit :: "nat \<Rightarrow> dma \<Rightarrow> nat" where
  "count_get_8bit channel d =
     (let count = unat (channel_count d ! channel) + 1 in if 5 \<le> channel then count * 2 else count)"

text \<open>
  A started transfer is what its completion callback closes over; a transfer that cannot start
  calls \<open>fn(true)\<close> at once.
\<close>

datatype 'p started = Rejected | Started 'p

record read_transfer =
  rt_addr :: int
  rt_start :: nat
  rt_count :: nat
  rt_epoch :: nat

text \<open>\<open>this.channel_addr[channel] += n\<close> on the 16-bit cells.\<close>

definition advance_addr :: "nat \<Rightarrow> nat \<Rightarrow> dma \<Rightarrow> dma" where
  "advance_addr channel n d = d\<lparr>channel_addr := (channel_addr d)[channel := channel_addr d ! channel + of_nat n]\<rparr>"

definition do_read :: "'d wasm_exports \<Rightarrow> nat \<Rightarrow> nat \<Rightarrow> nat \<Rightarrow> nat \<Rightarrow> 'd pcpu \<Rightarrow> dma \<Rightarrow> read_transfer started \<times> dma" where
  "do_read w byteLength start len channel c d =
     (let read_count = count_get_8bit channel d; addr = address_get_8bit channel d
      in if byteLength < start + read_count then (Rejected, d)
         else if 0x100000000 < addr + int read_count \<or> \<not> validate_physical_range w addr (int read_count) c
         then (Rejected, d)
         else (Started \<lparr>rt_addr = addr, rt_start = start, rt_count = read_count, rt_epoch = epoch d\<rparr>,
               advance_addr channel read_count d))"

text \<open>The completion, with the bytes of the buffer: the argument \<open>fn\<close> is called with, if it is called.\<close>

definition do_read_complete ::
  "'d wasm_exports \<Rightarrow> read_transfer \<Rightarrow> u8 list \<Rightarrow> dma \<Rightarrow> 'd pcpu \<Rightarrow> bool option \<times> 'd pcpu" where
  "do_read_complete w t bytes d c =
     (if rt_epoch t \<noteq> epoch d then (None, c)
      else case write_blob_physical w bytes (rt_addr t) c of
             (None, c1) \<Rightarrow> (Some True, c1)
           | (Some _, c1) \<Rightarrow> (Some False, c1))"

record write_transfer =
  wt_start :: nat
  wt_data :: "u8 list"
  wt_bytes :: nat
  wt_len :: nat
  wt_channel :: nat
  wt_more :: bool
  wt_epoch :: nat

text \<open>The units and the bytes a call of \<open>do_write\<close> moves, and whether it is cut short or asked for more.\<close>

definition write_amount :: "nat \<Rightarrow> nat \<Rightarrow> dma \<Rightarrow> nat \<times> nat \<times> bool \<times> bool" where
  "write_amount len channel d =
     (let read_count = (unat (channel_count d ! channel) + 1) mod 65536;
          bytes_per_count = (if 5 \<le> channel then 2 else 1);
          read_bytes = read_count * bytes_per_count
      in if len < read_bytes
         then (len div bytes_per_count, len div bytes_per_count * bytes_per_count, True, False)
         else (read_count, read_bytes, False, read_bytes < len))"

definition autoinit :: "nat \<Rightarrow> dma \<Rightarrow> bool" where
  "autoinit channel d \<longleftrightarrow> channel_mode d ! channel AND 0x10 \<noteq> 0"

definition finish_counters :: "nat \<Rightarrow> nat \<Rightarrow> bool \<Rightarrow> dma \<Rightarrow> dma" where
  "finish_counters channel read_count reload d =
     (let d1 = advance_addr channel read_count d;
          d2 = d1\<lparr>channel_count := (channel_count d1)[channel := channel_count d1 ! channel - of_nat read_count]\<rparr>
      in if reload
         then d2\<lparr>channel_addr := (channel_addr d2)[channel := channel_addr_init d2 ! channel],
                 channel_count := (channel_count d2)[channel := channel_count_init d2 ! channel]\<rparr>
         else d2)"

definition do_write ::
  "'d wasm_exports \<Rightarrow> nat \<Rightarrow> nat \<Rightarrow> nat \<Rightarrow> nat \<Rightarrow> 'd pcpu \<Rightarrow> dma \<Rightarrow> write_transfer started \<times> dma \<times> 'd pcpu" where
  "do_write w byteLength start len channel c d =
     (let (read_count, read_bytes, unfinished, want_more) = write_amount len channel d;
          addr = address_get_8bit channel d
      in if byteLength < start + read_bytes then (Rejected, d, c)
         else if 0x100000000 < addr + int read_bytes then (Rejected, d, c)
         else case read_blob_physical w addr (int read_bytes) c of
                (None, c1) \<Rightarrow> (Rejected, d, c1)
              | (Some bytes, c1) \<Rightarrow>
                  (Started \<lparr>wt_start = start, wt_data = bytes, wt_bytes = read_bytes, wt_len = len, wt_channel = channel,
                     wt_more = (want_more \<and> autoinit channel d), wt_epoch = epoch d\<rparr>,
                   finish_counters channel read_count (\<not> unfinished \<and> autoinit channel d) d, c1))"

text \<open>
  The completion, after the buffer stored the data: nothing after a reset, another call of
  \<open>do_write\<close> for the rest, or \<open>fn(false)\<close>.
\<close>

datatype write_next = Dropped | Again nat nat | Finished

definition do_write_complete :: "write_transfer \<Rightarrow> dma \<Rightarrow> write_next" where
  "do_write_complete t d =
     (if wt_epoch t \<noteq> epoch d then Dropped
      else if wt_more t then Again (wt_start t + wt_bytes t) (wt_len t - wt_bytes t)
      else Finished)"

definition cancel_transfers :: "dma \<Rightarrow> dma" where
  "cancel_transfers d = d\<lparr>epoch := epoch d + 1\<rparr>"

text \<open>
  A whole call of \<open>do_write\<close> on a buffer that completes at once; the bound is on the number
  of passes. The result is the argument of \<open>fn\<close> with the buffer, or None if the bound is
  not enough.
\<close>

fun do_write_sync ::
  "nat \<Rightarrow> 'd wasm_exports \<Rightarrow> nat \<Rightarrow> nat \<Rightarrow> nat \<Rightarrow> u8 list \<Rightarrow> dma \<Rightarrow> 'd pcpu \<Rightarrow> (bool \<times> u8 list \<times> dma \<times> 'd pcpu) option" where
  "do_write_sync 0 w start len channel buf d c = None"
| "do_write_sync (Suc fuel) w start len channel buf d c =
     (case do_write w (length buf) start len channel c d of
        (Rejected, d1, c1) \<Rightarrow> Some (True, buf, d1, c1)
      | (Started t, d1, c1) \<Rightarrow>
          (let buf1 = ta_set buf (wt_data t) (wt_start t)
           in case do_write_complete t d1 of
                Again start' len' \<Rightarrow> do_write_sync fuel w start' len' channel buf1 d1 c1
              | _ \<Rightarrow> Some (False, buf1, d1, c1)))"

section \<open>Ports\<close>

definition dma_addr_port :: "nat \<Rightarrow> nat" where
  "dma_addr_port ch = [0x00, 0x02, 0x04, 0x06, 0xC0, 0xC4, 0xC8, 0xCC] ! ch"

definition dma_count_port :: "nat \<Rightarrow> nat" where
  "dma_count_port ch = [0x01, 0x03, 0x05, 0x07, 0xC2, 0xC6, 0xCA, 0xCE] ! ch"

definition dma_page_port :: "nat \<Rightarrow> nat" where
  "dma_page_port ch = [0x87, 0x83, 0x81, 0x82, 0x8F, 0x8B, 0x89, 0x8A] ! ch"

text \<open>The high page register of channel 4 has no port.\<close>

definition dma_pagehi_port :: "nat \<Rightarrow> nat" where
  "dma_pagehi_port ch = dma_page_port ch + 0x400"

definition dma_ports :: "('m \<Rightarrow> dma) \<Rightarrow> (dma \<Rightarrow> 'm \<Rightarrow> 'm) \<Rightarrow> 'm reg8 list" where
  "dma_ports get put =
     concat (map (\<lambda>chs.
       map (\<lambda>ch. Wr (dma_addr_port ch) (lift_write get put (port_addr_write ch))) chs @
       map (\<lambda>ch. Wr (dma_count_port ch) (lift_write get put (port_count_write ch))) chs @
       map (\<lambda>ch. Rd (dma_addr_port ch) (lift_read get put (port_addr_read ch))) chs @
       map (\<lambda>ch. Rd (dma_count_port ch) (lift_read get put (port_count_read ch))) chs)
       [[0, 1, 2, 3], [4, 5, 6, 7]]) @
     map (\<lambda>ch. Wr (dma_page_port ch) (lift_write get put (port_page_write ch))) [0, 1, 2, 3, 4, 5, 6, 7] @
     map (\<lambda>ch. Rd (dma_page_port ch) (lift_read get put (port_page_read ch))) [0, 1, 2, 3, 4, 5, 6, 7] @
     map (\<lambda>ch. Wr (dma_pagehi_port ch) (lift_write get put (port_pagehi_write ch))) [0, 1, 2, 3, 5, 6, 7] @
     map (\<lambda>ch. Rd (dma_pagehi_port ch) (lift_read get put (port_pagehi_read ch))) [0, 1, 2, 3, 5, 6, 7] @
     [Wr 0x0A (lift_write get put (port_singlemask_write 0)), Wr 0xD4 (lift_write get put (port_singlemask_write 4)),
      Wr 0x0F (lift_write get put (port_multimask_write 0)), Wr 0xDE (lift_write get put (port_multimask_write 4)),
      Rd 0x0F (lift_read get put (port_multimask_read 0)), Rd 0xDE (lift_read get put (port_multimask_read 4)),
      Wr 0x0B (lift_write get put (port_mode_write 0)), Wr 0xD6 (lift_write get put (port_mode_write 4)),
      Wr 0x0C (lift_write get put portC_write), Wr 0xD8 (lift_write get put portC_write)]"

definition DMA_register ::
  "nat \<Rightarrow> ('m \<Rightarrow> dma) \<Rightarrow> (dma \<Rightarrow> 'm \<Rightarrow> 'm) \<Rightarrow> 'm ports \<Rightarrow> 'm ports option" where
  "DMA_register dev get put = reg_seq (map (register8 dev) (dma_ports get put))"

section \<open>Saved states\<close>

text \<open>The listeners and the epoch are not part of a snapshot.\<close>

record dma_state =
  sd_channel_page :: "u8 list"
  sd_channel_pagehi :: "u8 list"
  sd_channel_addr :: "u16 list"
  sd_channel_addr_init :: "u16 list"
  sd_channel_count :: "u16 list"
  sd_channel_count_init :: "u16 list"
  sd_channel_mask :: "u8 list"
  sd_channel_mode :: "u8 list"
  sd_lsb_msb_flipflop :: bool

definition dma_get_state :: "dma \<Rightarrow> dma_state" where
  "dma_get_state d = \<lparr>sd_channel_page = channel_page d, sd_channel_pagehi = channel_pagehi d,
     sd_channel_addr = channel_addr d, sd_channel_addr_init = channel_addr_init d,
     sd_channel_count = channel_count d, sd_channel_count_init = channel_count_init d,
     sd_channel_mask = channel_mask d, sd_channel_mode = channel_mode d, sd_lsb_msb_flipflop = lsb_msb_flipflop d\<rparr>"

definition dma_set_state :: "dma_state \<Rightarrow> dma \<Rightarrow> dma" where
  "dma_set_state st d = d\<lparr>channel_page := sd_channel_page st, channel_pagehi := sd_channel_pagehi st,
     channel_addr := sd_channel_addr st, channel_addr_init := sd_channel_addr_init st,
     channel_count := sd_channel_count st, channel_count_init := sd_channel_count_init st,
     channel_mask := sd_channel_mask st, channel_mode := sd_channel_mode st,
     lsb_msb_flipflop := sd_lsb_msb_flipflop st\<rparr>"

section \<open>Events and well-formed states\<close>

datatype dma_event =
    AddrWrite nat i32 | AddrRead nat | CountWrite nat i32 | CountRead nat
  | PageWrite nat i32 | PagehiWrite nat i32
  | SingleMask bool i32 | MultiMask bool i32 | ModeWrite bool i32 | FlipReset i32
  | OnUnmask nat | Cancel

text \<open>The offset of the first channel of a controller.\<close>

definition controller :: "bool \<Rightarrow> nat" where
  "controller second = (if second then 4 else 0)"

fun dma_step :: "dma_event \<Rightarrow> dma \<Rightarrow> dma" where
  "dma_step (AddrWrite ch b) d = port_addr_write ch b d"
| "dma_step (AddrRead ch) d = snd (port_addr_read ch d)"
| "dma_step (CountWrite ch b) d = port_count_write ch b d"
| "dma_step (CountRead ch) d = snd (port_count_read ch d)"
| "dma_step (PageWrite ch b) d = port_page_write ch b d"
| "dma_step (PagehiWrite ch b) d = port_pagehi_write ch b d"
| "dma_step (SingleMask x b) d = port_singlemask_write (controller x) b d"
| "dma_step (MultiMask x b) d = port_multimask_write (controller x) b d"
| "dma_step (ModeWrite x b) d = port_mode_write (controller x) b d"
| "dma_step (FlipReset b) d = portC_write b d"
| "dma_step (OnUnmask l) d = on_unmask l d"
| "dma_step Cancel d = cancel_transfers d"

definition dma_wf :: "dma \<Rightarrow> bool" where
  "dma_wf d \<longleftrightarrow>
     length (channel_page d) = 8 \<and> length (channel_pagehi d) = 8 \<and> length (channel_addr d) = 8 \<and>
     length (channel_addr_init d) = 8 \<and> length (channel_count d) = 8 \<and> length (channel_count_init d) = 8 \<and>
     length (channel_mask d) = 8 \<and> length (channel_mode d) = 8"

lemma update_mask_wf: "dma_wf d \<Longrightarrow> dma_wf (update_mask ch v d)"
  by (simp add: update_mask_def dma_wf_def Let_def)

lemma dma_step_wf: "dma_wf d \<Longrightarrow> dma_wf (dma_step e d)"
proof (cases e)
  case (MultiMask x b)
  then show "dma_wf d \<Longrightarrow> ?thesis" by (simp add: port_multimask_write_def update_mask_wf)
next
  case (SingleMask x b)
  then show "dma_wf d \<Longrightarrow> ?thesis" by (simp add: port_singlemask_write_def update_mask_wf Let_def)
qed (simp_all add: dma_wf_def port_addr_write_def port_addr_read_def port_count_write_def port_count_read_def
    port_page_write_def port_pagehi_write_def port_mode_write_def portC_write_def on_unmask_def cancel_transfers_def
    flipflop_get_def flipflop_read_def Let_def split_beta)

interpretation dmam: device_machine "\<lambda>_. True" dma_step DMA dma_wf
  by unfold_locales (simp add: dma_wf_def DMA_def, simp add: dma_step_wf)

section \<open>Registers\<close>

lemma write16_le:
  assumes "fits 8 (lo :: i32)" "fits 8 hi"
  shows "ucast ((ucast (ucast ((ucast (x :: u16) :: i32) AND NOT 0xFF OR lo) :: u16) :: i32) AND NOT 0xFF00 OR push_bit 8 hi)
    = (ucast (push_bit 8 hi OR lo) :: u16)"
proof -
  have b: "bit lo i \<Longrightarrow> i < 8" "bit hi i \<Longrightarrow> i < 8" for i
    using assms by (auto simp: fits_bits not_le [symmetric])
  show ?thesis
    using b(2) by (intro bit_word_eqI) (auto simp: bit_simps mask_bits dest: b(1))
qed

text \<open>
  The address registers: in any state the port accesses can produce, resetting the
  flip-flop and writing the low and the high byte of an address to a channel sets its 16-bit
  address, current and initial, whatever they were; after another reset the two reads give the two
  bytes back; and with the page registers written the channel addresses the byte
  \<open>pagehi:page:high:low\<close>, where channels 5 to 7 count in words and double the low part.
\<close>

theorem dma_address_roundtrip:
  assumes "reachable (\<lambda>_. True) dma_step DMA d" "ch < 8" "fits 8 lo" "fits 8 hi" "fits 8 pg" "fits 8 pgh"
  shows "let d1 = port_addr_write ch hi (port_addr_write ch lo (portC_write x d));
      (b0, d2) = port_addr_read ch (portC_write x d1);
      (b1, d3) = port_addr_read ch d2;
      d4 = port_pagehi_write ch pgh (port_page_write ch pg d1);
      a = (if 5 \<le> ch then 2 * (uint hi * 256 + uint lo) mod 65536 else uint hi * 256 + uint lo)
    in channel_addr d1 ! ch = ucast (push_bit 8 hi OR lo) \<and> channel_addr_init d1 ! ch = ucast (push_bit 8 hi OR lo) \<and>
       b0 = lo \<and> b1 = hi \<and> address_get_8bit ch d4 = uint pgh * 16777216 + uint pg * 65536 + a"
proof -
  have wf: "dma_wf d" using dmam.reachable_inv [OF assms(1)] .
  let ?a = "ucast (push_bit 8 hi OR lo) :: u16"
  define d1 where "d1 = port_addr_write ch hi (port_addr_write ch lo (portC_write x d))"
  have len: "ch < length (channel_addr d)" "ch < length (channel_addr_init d)" "ch < length (channel_page d)"
      "ch < length (channel_pagehi d)"
    using wf assms(2) by (simp_all add: dma_wf_def)
  have d1: "channel_addr d1 ! ch = ?a" "channel_addr_init d1 ! ch = ?a" "channel_page d1 = channel_page d"
    "channel_pagehi d1 = channel_pagehi d"
    using len by (simp_all add: d1_def port_addr_write_def portC_write_def flipflop_get_def write16_le [OF assms(3,4), simplified])
  have b: "bit lo i \<Longrightarrow> i < 8" "bit hi i \<Longrightarrow> i < 8" for i
    using assms(3,4) by (auto simp: fits_bits not_le [symmetric])
  have lohi: "(ucast ?a :: i32) AND 0xFF = lo" "signed_drop_bit 8 (ucast ?a :: i32) AND 0xFF = hi"
    by (auto simp: word_bits_eq_iff bit_simps mask_bits dest: b)
  have reads: "port_addr_read ch (portC_write x d1) = (lo, (portC_write x d1)\<lparr>lsb_msb_flipflop := True\<rparr>)"
    "port_addr_read ch ((portC_write x d1)\<lparr>lsb_msb_flipflop := True\<rparr>) = (hi, (portC_write x d1)\<lparr>lsb_msb_flipflop := False\<rparr>)"
    by (simp_all add: port_addr_read_def flipflop_read_def portC_write_def d1 lohi)
  have addr: "address_get_8bit ch (port_pagehi_write ch pgh (port_page_write ch pg d1)) =
      uint pgh * 16777216 + uint pg * 65536 + (if 5 \<le> ch then 2 * (uint hi * 256 + uint lo) mod 65536 else uint hi * 256 + uint lo)"
  proof -
    note u = uint_word16(2) [OF assms(3,4)]
    have ub: "uint ?a < 65536" using uint_lt2p [of ?a] by simp
    have c: "uint (ucast ?a :: i32) = uint ?a" by (rule uint_ucast_up)
    have m: "uint ((ucast ?a :: i32) AND 0xFFFF) = uint ?a" "uint ((push_bit 1 (ucast ?a) :: i32) AND 0xFFFF) = 2 * uint ?a mod 65536"
      using ub c uint_push_bit [of "ucast ?a" 1] by (simp_all only: uint_and_FFFF) (simp_all add: mult.commute)
    have pg: "uint (ucast pg :: u8) = uint pg" "uint (ucast pgh :: u8) = uint pgh"
      using assms(5,6) by (simp_all only: unsigned_ucast_eq fits_less) (simp_all add: take_bit_int_eq_self)
    have f: "channel_addr (port_pagehi_write ch pgh (port_page_write ch pg d1)) ! ch = ?a"
      "channel_page (port_pagehi_write ch pgh (port_page_write ch pg d1)) ! ch = ucast pg"
      "channel_pagehi (port_pagehi_write ch pgh (port_page_write ch pg d1)) ! ch = ucast pgh"
      using len d1 by (simp_all add: port_pagehi_write_def port_page_write_def)
    have "address_get_8bit ch (port_pagehi_write ch pgh (port_page_write ch pg d1)) =
        uint ((((if 5 \<le> ch then push_bit 1 (ucast ?a) else ucast ?a) AND 0xFFFF :: i32) OR push_bit 16 (ucast (ucast pg :: u8)))
          OR push_bit 24 (ucast (ucast pgh :: u8)))"
      unfolding address_get_8bit_def Let_def f ..
    also have "\<dots> = uint ((if 5 \<le> ch then push_bit 1 (ucast ?a) else ucast ?a) AND 0xFFFF :: i32) + 65536 * uint pg + 16777216 * uint pgh"
      unfolding pg [symmetric] by (rule uint_page_address) (simp add: uint_and_FFFF)
    finally show ?thesis using m u by simp
  qed
  show ?thesis unfolding Let_def d1_def [symmetric] using d1 reads addr by simp
qed

theorem dma_address_roundtrip_witness:
  "let d1 = port_addr_write 5 0x90 (port_addr_write 5 0x01 (portC_write 0 DMA));
       d4 = port_pagehi_write 5 0 (port_page_write 5 0x12 d1)
   in fst (port_addr_read 5 (portC_write 0 d1)) = 0x01 \<and> address_get_8bit 5 d4 = 0x122002"
  using dma_address_roundtrip [OF reachable.start, of 5 "0x01" "0x90" "0x12" 0 0]
  by (simp add: Let_def split_beta fits_def)

text \<open>
  The single-channel mask port: the addressed channel of the controller is masked if bit
  2 of the byte is set and unmasked otherwise, no other channel changes, and the listeners of
  unmasking are called, once each and in the order they were added, exactly if the channel was
  masked and is unmasked now.
\<close>

theorem dma_single_mask:
  assumes "reachable (\<lambda>_. True) dma_step DMA d"
  shows "let ch = unat (b AND 0x3) + controller x; d' = port_singlemask_write (controller x) b d
    in channel_mask d' = (channel_mask d)[ch := of_bool (has_bits b 0x4)] \<and>
       unmask_calls d' = unmask_calls d @
         (if channel_mask d ! ch \<noteq> 0 \<and> \<not> has_bits b 0x4 then map (\<lambda>l. (l, ch)) (unmask_listeners d) else [])"
proof -
  have wf: "dma_wf d" using dmam.reachable_inv [OF assms] .
  define ch where "ch = unat (b AND 0x3) + controller x"
  have "unat (b AND 0x3) < 4" by (rule unat_and_3)
  then have ch: "ch < length (channel_mask d)" using wf by (simp add: dma_wf_def ch_def controller_def)
  have z: "(ucast (channel_mask d ! ch) :: i32) = 0 \<longleftrightarrow> channel_mask d ! ch = 0"
    "(ucast (channel_mask d ! ch) :: i32) = 1 \<longleftrightarrow> channel_mask d ! ch = 1"
    by (simp_all add: word_uint_eq_iff uint_ucast_up)
  have same: "channel_mask d ! ch = y \<Longrightarrow> (channel_mask d)[ch := y] = channel_mask d" for y
    by (metis list_update_id)
  show ?thesis
    unfolding Let_def ch_def [symmetric]
    using ch z
    by (auto simp: port_singlemask_write_def update_mask_def Let_def ch_def [symmetric] same)
qed

theorem dma_single_mask_witness:
  "let d = on_unmask 9 DMA
   in channel_mask (port_singlemask_write 0 6 d) = (channel_mask d)[2 := 1] \<and> unmask_calls (port_singlemask_write 0 6 d) = []"
proof -
  have r: "reachable (\<lambda>_. True) dma_step DMA (on_unmask 9 DMA)"
    using reachable.step [OF reachable.start [of "\<lambda>_. True" dma_step DMA], of "OnUnmask 9"] by simp
  have "(6 :: i32) AND 3 = 2" "(6 :: i32) AND 4 \<noteq> 0" by simp_all
  then show ?thesis
    using dma_single_mask [OF r, of 6 False] by (simp add: Let_def controller_def) (simp add: on_unmask_def DMA_def)
qed

text \<open>
  The multi-channel mask port does not read back what was written: after four mask bits
  are written, bit \<open>2 * i\<close> of the read is the mask bit of channel \<open>i\<close> and the odd
  bits are 0, since \<open>port_multimask_write\<close> stores the bit in place, as \<open>1 << i\<close>.
\<close>

theorem dma_multimask_readback:
  assumes "reachable (\<lambda>_. True) dma_step DMA d"
  shows "bit (fst (port_multimask_read (controller x) (port_multimask_write (controller x) b d))) n \<longleftrightarrow>
    even n \<and> n \<le> 6 \<and> bit b (n div 2)"
proof -
  have wf: "dma_wf d" using dmam.reachable_inv [OF assms] .
  let ?o = "controller x"
  define v where "v i = (b AND push_bit i 1 :: i32)" for i
  have len: "?o + i < length (channel_mask d)" if "i < 4" for i using wf that by (simp add: dma_wf_def controller_def)
  have one: "(ucast (channel_mask (update_mask (?o + i) (v i) e) ! (?o + j)) :: i32) =
      (if i = j then v i else ucast (channel_mask e ! (?o + j)))"
    if "i < 4" "j < 4" "length (channel_mask e) = 8" for i j e
  proof -
    have "bit (v i) k \<Longrightarrow> k < 8" for k using that(1) by (auto simp: v_def bit_simps)
    then have "(ucast (ucast (v i) :: u8) :: i32) = v i" by (intro bit_word_eqI) (auto simp: bit_simps)
    then show ?thesis using that by (auto simp: update_mask_def Let_def controller_def)
  qed
  have keep: "length (channel_mask (update_mask c u e)) = length (channel_mask e)" for c u e
    by (simp add: update_mask_def Let_def)
  define d' where "d' = port_multimask_write ?o b d"
  have d': "(ucast (channel_mask d' ! (?o + j)) :: i32) = v j" if "j < 4" for j
  proof -
    have fold: "(ucast (channel_mask (fold (\<lambda>i. update_mask (?o + i) (v i)) is e) ! (?o + j)) :: i32) =
        (if j \<in> set is then v j else ucast (channel_mask e ! (?o + j)))"
      if "\<forall>i \<in> set is. i < 4" "length (channel_mask e) = 8" for "is" e
      using that \<open>j < 4\<close> by (induction "is" arbitrary: e) (auto simp: one keep)
    have "j \<in> set [0, 1, 2, 3]" using that by auto
    moreover have "length (channel_mask d) = 8" using wf by (simp add: dma_wf_def)
    ultimately show ?thesis
      using fold [of "[0, 1, 2, 3]" d] unfolding d'_def port_multimask_write_def v_def by simp
  qed
  have "fst (port_multimask_read ?o d') = v 0 OR push_bit 1 (v 1) OR push_bit 2 (v 2) OR push_bit 3 (v 3)"
    using d' [of 0] d' [of 1] d' [of 2] d' [of 3] by (simp add: port_multimask_read_def)
  moreover have vb: "bit (v i) k \<longleftrightarrow> k = i \<and> bit b i" for i k
    using bit_imp_le_length [of b i] by (auto simp: v_def bit_simps)
  ultimately have "bit (fst (port_multimask_read ?o d')) n \<longleftrightarrow>
      n = 0 \<and> bit b 0 \<or> (1 \<le> n \<and> n < 32 \<and> n - 1 = 1 \<and> bit b 1) \<or> (2 \<le> n \<and> n < 32 \<and> n - 2 = 2 \<and> bit b 2)
        \<or> (3 \<le> n \<and> n < 32 \<and> n - 3 = 3 \<and> bit b 3)"
    by (simp only: bit_or_iff bit_push_bit_iff vb) simp
  also have "\<dots> \<longleftrightarrow> (n = 0 \<and> bit b 0) \<or> (n = 2 \<and> bit b 1) \<or> (n = 4 \<and> bit b 2) \<or> (n = 6 \<and> bit b 3)"
    by auto
  also have "\<dots> \<longleftrightarrow> even n \<and> n \<le> 6 \<and> bit b (n div 2)" 
  proof (cases "n \<le> 6")
    case True
    then consider "n = 0" | "n = 1" | "n = 2" | "n = 3" | "n = 4" | "n = 5" | "n = 6" by linarith
    then show ?thesis by cases simp_all
  qed auto
  finally show ?thesis unfolding d'_def .
qed

theorem dma_multimask_readback_witness:
  "bit (fst (port_multimask_read 0 (port_multimask_write 0 0x0F DMA))) 2 \<and>
   \<not> bit (fst (port_multimask_read 0 (port_multimask_write 0 0x0F DMA))) 1"
  using dma_multimask_readback [OF reachable.start, of False "0x0F" 2]
    dma_multimask_readback [OF reachable.start, of False "0x0F" 1]
  by (simp add: controller_def)

section \<open>Transfers\<close>

lemma address_bounds: "0 \<le> address_get_8bit ch d" "address_get_8bit ch d < 0x100000000"
  unfolding address_get_8bit_def Let_def by (simp_all add: uint_lt2p [where 'a = 32, simplified])

lemma count_pos: "0 < count_get_8bit ch d"
  by (simp add: count_get_8bit_def Let_def)

text \<open>
  Claim C5. A transfer from a device to memory: if it starts and the channel addresses guest
  memory, the channel's address advances by the programmed count; when the buffer delivers the
  bytes and the machine was not reset meanwhile, they are stored at the channel's old address and
  the device is told of success; after a reset the completion stores nothing and calls nobody.
\<close>

theorem dma_read_to_memory:
  assumes "dma_wf d" "ch < 8" "do_read w byteLength start len ch c d = (Started t, d1)"
    "ram_range w c (address_get_8bit ch d) (count_get_8bit ch d)" "decode_stable w"
    "length bytes = count_get_8bit ch d"
  shows "channel_addr d1 ! ch = channel_addr d ! ch + of_nat (count_get_8bit ch d) \<and>
    (epoch d2 = epoch d1 \<longrightarrow>
      (\<exists>dirty. do_read_complete w t bytes d2 c =
        (Some False, c\<lparr>wasm_memory := fold (write_byte_at w c (address_get_8bit ch d) bytes) [0..<length bytes] (wasm_memory c),
          jit_dirtied := jit_dirtied c @ dirty\<rparr>))) \<and>
    do_read_complete w t bytes (cancel_transfers d1) c = (None, c)"
proof -
  have t: "t = \<lparr>rt_addr = address_get_8bit ch d, rt_start = start, rt_count = count_get_8bit ch d, rt_epoch = epoch d\<rparr>"
    "d1 = advance_addr ch (count_get_8bit ch d) d" "address_get_8bit ch d + int (count_get_8bit ch d) \<le> 0x100000000"
    using assms(3) by (auto simp: do_read_def Let_def split: if_splits)
  have "channel_addr d1 ! ch = channel_addr d ! ch + of_nat (count_get_8bit ch d)"
    using assms(1,2) by (simp add: t(2) advance_addr_def dma_wf_def)
  moreover have "bytes \<noteq> []" using assms(6) count_pos [of ch d] by auto
  then obtain dirty where "write_blob_physical w bytes (address_get_8bit ch d) c =
      (Some (), c\<lparr>wasm_memory := fold (write_byte_at w c (address_get_8bit ch d) bytes) [0..<length bytes] (wasm_memory c),
        jit_dirtied := jit_dirtied c @ dirty\<rparr>)"
    using write_blob_ram [of w c "address_get_8bit ch d" bytes] assms(4,5,6) address_bounds(1) [of ch d] t(3) by auto
  then have "\<exists>dirty. epoch d2 = epoch d1 \<longrightarrow> do_read_complete w t bytes d2 c =
      (Some False, c\<lparr>wasm_memory := fold (write_byte_at w c (address_get_8bit ch d) bytes) [0..<length bytes] (wasm_memory c),
        jit_dirtied := jit_dirtied c @ dirty\<rparr>)"
    by (intro exI [of _ dirty]) (simp add: do_read_complete_def t advance_addr_def)
  moreover have "do_read_complete w t bytes (cancel_transfers d1) c = (None, c)"
    by (simp add: do_read_complete_def t cancel_transfers_def advance_addr_def)
  ultimately show ?thesis by blast
qed

theorem dma_read_to_memory_witness:
  "let d = DMA\<lparr>channel_count := [0, 0, 1, 0, 0, 0, 0, 0]\<rparr>; c = flat_cpu [10, 20, 30, 40]
   in \<exists>t d1 dirty. do_read flat_exports 512 0 512 2 c d = (Started t, d1) \<and> channel_addr d1 ! 2 = 2 \<and>
      do_read_complete flat_exports t [7, 8] d1 c = (Some False, (flat_cpu [7, 8, 30, 40])\<lparr>jit_dirtied := dirty\<rparr>) \<and>
      do_read_complete flat_exports t [7, 8] (cancel_transfers d1) c = (None, c)"
proof -
  define d where "d = DMA\<lparr>channel_count := [0, 0, 1, 0, 0, 0, 0, 0]\<rparr>"
  define c where "c = flat_cpu [10, 20, 30, 40]"
  have ca: "count_get_8bit 2 d = 2" "address_get_8bit 2 d = 0" "dma_wf d" "channel_addr d ! 2 = 0"
    by (simp_all add: d_def DMA_def count_get_8bit_def address_get_8bit_def dma_wf_def)
  have r: "ram_range flat_exports c 0 2" unfolding c_def by (rule flat_ram_range) simp_all
  then have v: "validate_physical_range flat_exports 0 2 c" using validate_ram [of flat_exports c 0 2] by simp
  define t where "t = \<lparr>rt_addr = 0, rt_start = 0, rt_count = 2, rt_epoch = 0\<rparr>"
  define d1 where "d1 = advance_addr 2 2 d"
  have s: "do_read flat_exports 512 0 512 2 c d = (Started t, d1)"
    by (simp add: do_read_def ca v t_def d1_def) (simp add: d_def DMA_def)
  have f: "fold (write_byte_at flat_exports c 0 [7, 8]) [0, Suc 0] (wasm_memory c) = [7, 8, 30, 40]"
    by (simp add: write_byte_at_def c_def flat_cpu_def flat_exports_def)
  have "c\<lparr>wasm_memory := [7, 8, 30, 40], jit_dirtied := x\<rparr> = (flat_cpu [7, 8, 30, 40])\<lparr>jit_dirtied := x\<rparr>" for x
    by (simp add: c_def flat_cpu_def)
  then show ?thesis
    using dma_read_to_memory [OF ca(3) _ s, of "[7, 8]" d1] r flat_stable s f
    unfolding d_def [symmetric] c_def [symmetric] Let_def by (auto simp: ca)
qed

text \<open>
  A transfer of 64 Ki units from memory never moves anything: \<open>do_write\<close> computes
  the number of units as the count plus one modulo 65536, so a count of 0xFFFF means 0. With
  auto-initialisation and a reload value of 0xFFFF the transfer of a positive length starts over
  without progress, however many passes are allowed.
\<close>

theorem dma_write_64k_never_finishes:
  assumes "dma_wf d" "ch < 8" "channel_count d ! ch = 0xFFFF" "channel_count_init d ! ch = 0xFFFF" "autoinit ch d"
    "start \<le> length buf" "0 < len"
  shows "do_write_sync fuel w start len ch buf d c = None"
  using assms
proof (induction fuel arbitrary: d)
  case (Suc fuel)
  have am: "write_amount len ch d = (0, 0, False, True)"
    using Suc.prems by (simp add: write_amount_def Let_def)
  have rd: "read_blob_physical w (address_get_8bit ch d) 0 c = (Some [], c)"
    using address_bounds [of ch d]
    by (simp add: read_blob_physical_def validate_physical_range_def is_safe_integer_def validate_pages.simps read_chunks.simps)
  define d1 where "d1 = finish_counters ch 0 True d"
  have w: "do_write w (length buf) start len ch c d =
      (Started \<lparr>wt_start = start, wt_data = [], wt_bytes = 0, wt_len = len, wt_channel = ch, wt_more = True, wt_epoch = epoch d\<rparr>, d1, c)"
    using Suc.prems address_bounds(2) [of ch d] by (simp add: do_write_def am rd d1_def Let_def)
  have "dma_wf d1" "channel_count d1 ! ch = 0xFFFF" "channel_count_init d1 ! ch = 0xFFFF" "autoinit ch d1" "epoch d1 = epoch d"
    using Suc.prems by (simp_all add: d1_def finish_counters_def advance_addr_def dma_wf_def autoinit_def Let_def)
  then show ?case
    using Suc.IH [of d1] Suc.prems by (simp add: w do_write_complete_def ta_set_def)
qed simp

theorem dma_write_64k_never_finishes_witness:
  "do_write_sync 100 flat_exports 0 1 5 [0]
     (DMA\<lparr>channel_count := replicate 8 0xFFFF, channel_count_init := replicate 8 0xFFFF, channel_mode := replicate 8 0x58\<rparr>)
     (flat_cpu [1]) = None"
  by (rule dma_write_64k_never_finishes) (simp_all add: dma_wf_def DMA_def autoinit_def)

text \<open>The bytes of one pass.\<close>

definition dma_block :: "nat \<Rightarrow> dma \<Rightarrow> nat" where
  "dma_block ch d = (unat (channel_count d ! ch) + 1) * (if 5 \<le> ch then 2 else 1)"

lemma do_write_pass:
  assumes "dma_wf d" "ch < 8" "channel_count d ! ch \<noteq> 0xFFFF" "dma_block ch d \<le> len"
    "start + dma_block ch d \<le> length buf" "ram_range w c (address_get_8bit ch d) (dma_block ch d)"
    "address_get_8bit ch d + int (dma_block ch d) \<le> 0x100000000"
  shows "do_write w (length buf) start len ch c d =
    (Started \<lparr>wt_start = start, wt_data = map (\<lambda>i. phys_byte w c (address_get_8bit ch d + int i)) [0..<dma_block ch d],
       wt_bytes = dma_block ch d, wt_len = len, wt_channel = ch, wt_more = (dma_block ch d < len \<and> autoinit ch d), wt_epoch = epoch d\<rparr>,
     finish_counters ch (unat (channel_count d ! ch) + 1) (autoinit ch d) d, c)"
proof -
  have "unat (channel_count d ! ch) \<noteq> 65535"
    using assms(3) by (simp add: word_unat_eq_iff)
  moreover have "unat (channel_count d ! ch) < 65536" using unsigned_less [of "channel_count d ! ch", where 'a = nat] by simp
  ultimately have small: "unat (channel_count d ! ch) + 1 < 65536" by simp
  have am: "write_amount len ch d = (unat (channel_count d ! ch) + 1, dma_block ch d, False, dma_block ch d < len)"
    using small assms(4) by (simp add: write_amount_def dma_block_def Let_def)
  have "0 < dma_block ch d" by (simp add: dma_block_def)
  then have "read_blob_physical w (address_get_8bit ch d) (int (dma_block ch d)) c =
      (Some (map (\<lambda>i. phys_byte w c (address_get_8bit ch d + int i)) [0..<dma_block ch d]), c)"
    using read_blob_ram [OF assms(6) address_bounds(1)] assms(7) by simp
  then show ?thesis using assms(5,7) by (simp add: do_write_def am Let_def)
qed

text \<open>
  A transfer from memory that the device wants whole: without auto-initialisation, with a
  count below 0xFFFF and a device that takes at least as many bytes as the channel offers, one pass
  copies exactly the bytes of the block to the buffer, reports success, advances the address by
  the units moved and leaves the count at 0xFFFF.
\<close>

theorem dma_write_from_memory:
  assumes "dma_wf d" "ch < 8" "channel_count d ! ch \<noteq> 0xFFFF" "dma_block ch d \<le> len"
    "start + dma_block ch d \<le> length buf" "ram_range w c (address_get_8bit ch d) (dma_block ch d)"
    "address_get_8bit ch d + int (dma_block ch d) \<le> 0x100000000" "\<not> autoinit ch d"
  shows "\<exists>d'. do_write_sync 1 w start len ch buf d c =
      Some (False, ta_set buf (map (\<lambda>i. phys_byte w c (address_get_8bit ch d + int i)) [0..<dma_block ch d]) start, d', c) \<and>
    channel_count d' ! ch = 0xFFFF \<and>
    channel_addr d' ! ch = channel_addr d ! ch + of_nat (unat (channel_count d ! ch) + 1)"
proof -
  have "channel_count d ! ch - of_nat (unat (channel_count d ! ch) + 1) = 0xFFFF" by simp
  then show ?thesis
    using assms(1,2,8)
    by (simp add: do_write_pass [OF assms(1-7)] do_write_complete_def finish_counters_def advance_addr_def dma_wf_def Let_def)
qed

theorem dma_write_from_memory_witness:
  "\<exists>d'. do_write_sync 1 flat_exports 0 9 1 [0, 0, 0] (DMA\<lparr>channel_count := replicate 8 1\<rparr>) (flat_cpu [5, 6, 7]) =
     Some (False, [5, 6, 0], d', flat_cpu [5, 6, 7]) \<and> channel_count d' ! 1 = 0xFFFF"
proof -
  define d where "d = DMA\<lparr>channel_count := replicate 8 1\<rparr>"
  have ca: "dma_block 1 d = 2" "address_get_8bit 1 d = 0" "dma_wf d" "\<not> autoinit 1 d" "channel_count d ! 1 \<noteq> 0xFFFF"
    by (simp_all add: d_def DMA_def dma_block_def address_get_8bit_def dma_wf_def autoinit_def)
  have r: "ram_range flat_exports (flat_cpu [5, 6, 7]) 0 2" by (rule flat_ram_range) simp_all
  have "map (\<lambda>i. phys_byte flat_exports (flat_cpu [5, 6, 7]) (int i)) [0..<2] = [5, 6]"
    by (simp add: phys_byte_def mem8_def flat_exports_def flat_cpu_def upt_rec)
  then show ?thesis
    using dma_write_from_memory [of d 1 9 0 "[0, 0, 0]" flat_exports "flat_cpu [5, 6, 7]"] r ca
    unfolding d_def [symmetric] by (auto simp: ta_set_def)
qed

lemma finish_autoinit:
  assumes "dma_wf d" "ch < 8" "channel_addr d ! ch = channel_addr_init d ! ch" "channel_count d ! ch = channel_count_init d ! ch"
  shows "finish_counters ch n True d = d"
proof -
  have id: "xs[ch := y, ch := xs ! ch] = xs" for y and xs :: "u16 list" by (simp add: list_update_id)
  have "ch < length (channel_addr d)" "ch < length (channel_count d)" using assms(1,2) by (simp_all add: dma_wf_def)
  then show ?thesis
    by (simp add: finish_counters_def advance_addr_def Let_def assms(3,4) [symmetric])
qed

lemma do_write_sync_again:
  assumes "do_write w (length buf) start len ch c d = (Started t, d1, c1)" "do_write_complete t d1 = Again s l"
  shows "do_write_sync (Suc fuel) w start len ch buf d c = do_write_sync fuel w s l ch (ta_set buf (wt_data t) (wt_start t)) d1 c1"
  using assms by simp

text \<open>
  Auto-initialisation: a channel that starts at its reload values and whose block divides
  the length the device asks for sends the block over and over until the length is reached: the
  buffer receives the block that many times in a row and the channel is back at its reload values.
\<close>

theorem dma_autoinit_repeats:
  assumes "dma_wf d" "ch < 8" "autoinit ch d" "channel_count d ! ch \<noteq> 0xFFFF"
    "channel_addr d ! ch = channel_addr_init d ! ch" "channel_count d ! ch = channel_count_init d ! ch"
    "ram_range w c (address_get_8bit ch d) (dma_block ch d)" "address_get_8bit ch d + int (dma_block ch d) \<le> 0x100000000"
    "start + Suc k * dma_block ch d \<le> length buf"
  shows "do_write_sync (Suc k) w start (Suc k * dma_block ch d) ch buf d c =
    Some (False, ta_set buf (concat (replicate (Suc k) (map (\<lambda>i. phys_byte w c (address_get_8bit ch d + int i)) [0..<dma_block ch d]))) start,
      d, c)"
  using assms(9)
proof (induction k arbitrary: start buf)
  case 0
  then show ?case
    using do_write_pass [OF assms(1,2,4) _ _ assms(7,8), of "dma_block ch d" start buf] finish_autoinit [OF assms(1,2,5,6)]
    by (simp add: assms(3) do_write_complete_def)
next
  case (Suc k)
  let ?blk = "map (\<lambda>i. phys_byte w c (address_get_8bit ch d + int i)) [0..<dma_block ch d]"
  have pos: "0 < dma_block ch d" by (simp add: dma_block_def)
  have fit: "start + dma_block ch d + Suc k * dma_block ch d \<le> length buf" using Suc.prems by simp
  have len: "length (ta_set buf ?blk start) = length buf" using fit by (simp add: ta_set_def)
  have p: "do_write w (length buf) start (Suc (Suc k) * dma_block ch d) ch c d =
    (Started \<lparr>wt_start = start, wt_data = ?blk, wt_bytes = dma_block ch d, wt_len = Suc (Suc k) * dma_block ch d, wt_channel = ch,
      wt_more = True, wt_epoch = epoch d\<rparr>, d, c)"
    using do_write_pass [OF assms(1,2,4) _ _ assms(7,8), of "Suc (Suc k) * dma_block ch d" start buf] fit pos
      finish_autoinit [OF assms(1,2,5,6)]
    by (simp add: assms(3))
  have ag: "do_write_complete \<lparr>wt_start = start, wt_data = ?blk, wt_bytes = dma_block ch d,
      wt_len = Suc (Suc k) * dma_block ch d, wt_channel = ch, wt_more = True, wt_epoch = epoch d\<rparr> d =
      Again (start + dma_block ch d) (Suc k * dma_block ch d)"
    by (simp add: do_write_complete_def)
  have "do_write_sync (Suc (Suc k)) w start (Suc (Suc k) * dma_block ch d) ch buf d c =
      do_write_sync (Suc k) w (start + dma_block ch d) (Suc k * dma_block ch d) ch (ta_set buf ?blk start) d c"
    using do_write_sync_again [OF p ag, of "Suc k"] by simp
  also have "do_write_sync (Suc k) w (start + dma_block ch d) (Suc k * dma_block ch d) ch (ta_set buf ?blk start) d c =
      Some (False, ta_set (ta_set buf ?blk start) (concat (replicate (Suc k) ?blk)) (start + dma_block ch d), d, c)"
    using Suc.IH [of "start + dma_block ch d" "ta_set buf ?blk start"] fit len by simp
  also have "ta_set (ta_set buf ?blk start) (concat (replicate (Suc k) ?blk)) (start + dma_block ch d) =
      ta_set buf (concat (replicate (Suc (Suc k)) ?blk)) start"
    using ta_set_ta_set [of ?blk "concat (replicate (Suc k) ?blk)" start buf] fit
    by (simp add: length_concat sum_list_replicate)
  finally show ?case .
qed

theorem dma_autoinit_repeats_witness:
  "do_write_sync 3 flat_exports 0 6 1 (replicate 6 0)
     (DMA\<lparr>channel_count := replicate 8 1, channel_count_init := replicate 8 1, channel_mode := replicate 8 0x58\<rparr>) (flat_cpu [5, 6, 7]) =
   Some (False, [5, 6, 5, 6, 5, 6],
     DMA\<lparr>channel_count := replicate 8 1, channel_count_init := replicate 8 1, channel_mode := replicate 8 0x58\<rparr>, flat_cpu [5, 6, 7])"
proof -
  define d where "d = DMA\<lparr>channel_count := replicate 8 1, channel_count_init := replicate 8 1, channel_mode := replicate 8 0x58\<rparr>"
  have ca: "dma_block 1 d = 2" "address_get_8bit 1 d = 0" "dma_wf d" "autoinit 1 d" "channel_count d ! 1 \<noteq> 0xFFFF"
    "channel_addr d ! 1 = channel_addr_init d ! 1" "channel_count d ! 1 = channel_count_init d ! 1"
    by (simp_all add: d_def DMA_def dma_block_def address_get_8bit_def dma_wf_def autoinit_def)
  have r: "ram_range flat_exports (flat_cpu [5, 6, 7]) 0 2" by (rule flat_ram_range) simp_all
  have m: "map (\<lambda>i. phys_byte flat_exports (flat_cpu [5, 6, 7]) (int i)) [0..<2] = [5, 6]"
    by (simp add: phys_byte_def mem8_def flat_exports_def flat_cpu_def upt_rec)
  have "do_write_sync (Suc 2) flat_exports 0 (Suc 2 * 2) 1 (replicate 6 0) d (flat_cpu [5, 6, 7]) =
      Some (False, ta_set (replicate 6 0) (concat (replicate (Suc 2) [5, 6])) 0, d, flat_cpu [5, 6, 7])"
    using dma_autoinit_repeats [of d 1 flat_exports "flat_cpu [5, 6, 7]" 0 2 "replicate 6 0"] r ca m by simp
  then show ?thesis unfolding d_def [symmetric] by (simp add: ta_set_def numeral_eq_Suc)
qed

lemma dma_ports_lookup:
  assumes "ch < 8"
  shows "last_wr (dma_ports get put) (dma_addr_port ch) f = lift_write get put (port_addr_write ch)"
    "last_wr (dma_ports get put) (dma_count_port ch) f = lift_write get put (port_count_write ch)"
    "last_wr (dma_ports get put) (dma_page_port ch) f = lift_write get put (port_page_write ch)"
    "last_rd (dma_ports get put) (dma_addr_port ch) g = lift_read get put (port_addr_read ch)"
    "last_rd (dma_ports get put) (dma_count_port ch) g = lift_read get put (port_count_read ch)"
    "last_rd (dma_ports get put) (dma_page_port ch) g = lift_read get put (port_page_read ch)"
proof -
  have ch: "ch \<in> {0, 1, 2, 3, 4, 5, 6, 7}" using assms by auto
  note defs = dma_ports_def dma_addr_port_def dma_count_port_def dma_page_port_def dma_pagehi_port_def
  show "last_wr (dma_ports get put) (dma_addr_port ch) f = lift_write get put (port_addr_write ch)"
    using ch by (elim insertE emptyE) (simp_all add: defs)
  show "last_wr (dma_ports get put) (dma_count_port ch) f = lift_write get put (port_count_write ch)"
    using ch by (elim insertE emptyE) (simp_all add: defs)
  show "last_wr (dma_ports get put) (dma_page_port ch) f = lift_write get put (port_page_write ch)"
    using ch by (elim insertE emptyE) (simp_all add: defs)
  show "last_rd (dma_ports get put) (dma_addr_port ch) g = lift_read get put (port_addr_read ch)"
    using ch by (elim insertE emptyE) (simp_all add: defs)
  show "last_rd (dma_ports get put) (dma_count_port ch) g = lift_read get put (port_count_read ch)"
    using ch by (elim insertE emptyE) (simp_all add: defs)
  show "last_rd (dma_ports get put) (dma_page_port ch) g = lift_read get put (port_page_read ch)"
    using ch by (elim insertE emptyE) (simp_all add: defs)
qed

text \<open>
  The ports of a channel: after registration the address, count and page ports of every
  channel reach the registers of that channel, read and write.
\<close>

theorem dma_ports_decode:
  assumes "ch < 8"
  shows "\<exists>ports. DMA_register dev get put IO_ports = Some ports \<and>
    port_write8 (dma_addr_port ch) b ports m = Some (put (port_addr_write ch b (get m)) m) \<and>
    port_write8 (dma_count_port ch) b ports m = Some (put (port_count_write ch b (get m)) m) \<and>
    port_write8 (dma_page_port ch) b ports m = Some (put (port_page_write ch b (get m)) m) \<and>
    port_read8 (dma_addr_port ch) ports m = Some (let (x, d) = port_addr_read ch (get m) in (x, put d m)) \<and>
    port_read8 (dma_count_port ch) ports m = Some (let (x, d) = port_count_read ch (get m) in (x, put d m)) \<and>
    port_read8 (dma_page_port ch) ports m = Some (let (x, d) = port_page_read ch (get m) in (x, put d m))"
proof -
  have p: "\<forall>r \<in> set (dma_ports get put). reg8_port r < 0x10000"
    by (simp add: dma_ports_def dma_addr_port_def dma_count_port_def dma_page_port_def dma_pagehi_port_def)
  have "dma_addr_port ch < 0x10000" "dma_count_port ch < 0x10000" "dma_page_port ch < 0x10000"
  proof -
    have "ch \<in> {0, 1, 2, 3, 4, 5, 6, 7}" using assms by auto
    then show "dma_addr_port ch < 0x10000" "dma_count_port ch < 0x10000" "dma_page_port ch < 0x10000"
      by (elim insertE emptyE; simp add: dma_addr_port_def dma_count_port_def dma_page_port_def)+
  qed
  then show ?thesis
    using register8_access [OF p, of dev] dma_ports_lookup [OF assms, of get put]
    by (auto simp: DMA_register_def lift_defs)
qed

theorem dma_ports_decode_witness:
  "\<exists>ports. DMA_register 1 id (\<lambda>d m. d) IO_ports = Some ports \<and>
    port_write8 0x8B 0x12 ports DMA = Some (port_page_write 5 0x12 DMA)"
  using dma_ports_decode [of 5 1 id "\<lambda>d m. d" "0x12" DMA] by (auto simp: dma_page_port_def)

end
