(* ===== verification/VirtQueue.thy ===== *)
theory VirtQueue
  imports Phys_Mem
begin

text \<open>
  The virtqueues of \<open>src/virtio.js\<close> (\<open>VirtQueue\<close>, \<open>VirtQueueBufferChain\<close>) and
  the part of the transport they call. The rings lie in guest memory, which is reached through
  \<open>Phys_Mem\<close>: an access that throws a RangeError is None, with the state it left. Addresses are
  exact integers here; JavaScript rounds sums above \<open>2^53\<close>, which the validation refuses
  like every address above the 36-bit bus.
\<close>

section \<open>State\<close>

abbreviation (input) VIRTIO_STATUS_DRIVER_OK :: i32 where "VIRTIO_STATUS_DRIVER_OK \<equiv> 4"
abbreviation (input) VIRTIO_STATUS_DEVICE_NEEDS_RESET :: i32 where "VIRTIO_STATUS_DEVICE_NEEDS_RESET \<equiv> 64"
abbreviation (input) VIRTIO_ISR_QUEUE :: i32 where "VIRTIO_ISR_QUEUE \<equiv> 1"
abbreviation (input) VIRTIO_ISR_DEVICE_CFG :: i32 where "VIRTIO_ISR_DEVICE_CFG \<equiv> 2"
abbreviation (input) VIRTIO_F_RING_INDIRECT_DESC :: nat where "VIRTIO_F_RING_INDIRECT_DESC \<equiv> 28"
abbreviation (input) VIRTIO_F_RING_EVENT_IDX :: nat where "VIRTIO_F_RING_EVENT_IDX \<equiv> 29"
abbreviation (input) VIRTQ_DESC_ENTRYSIZE :: int where "VIRTQ_DESC_ENTRYSIZE \<equiv> 16"
abbreviation (input) VIRTQ_DESC_F_NEXT :: int where "VIRTQ_DESC_F_NEXT \<equiv> 1"
abbreviation (input) VIRTQ_DESC_F_WRITE :: int where "VIRTQ_DESC_F_WRITE \<equiv> 2"
abbreviation (input) VIRTQ_DESC_F_INDIRECT :: int where "VIRTQ_DESC_F_INDIRECT \<equiv> 4"

text \<open>
  The transport: \<open>absent\<close> is \<open>pci.absent[pci_id]\<close>; \<open>intx\<close> is the level the
  function drives on its interrupt pin with \<open>pci.raise_irq\<close> and \<open>pci.lower_irq\<close>.
\<close>

record virtio =
  device_status :: i32
  driver_feature :: "i32 list"
  isr_status :: i32
  config_has_changed :: bool
  qemu_compatible :: bool
  plug_generation :: nat
  absent :: bool
  intx :: bool

record virtqueue =
  q_size :: int
  size_supported :: int
  q_mask :: int
  q_enabled :: bool
  notify_offset :: int
  address_words :: "i32 list"
  msix_vector :: int
  desc_addr :: int
  avail_addr :: int
  avail_last_idx :: int
  used_addr :: int
  num_staged_replies :: int
  fix_wrapping :: bool

section \<open>The transport\<close>

definition virtio_raise_irq :: "i32 \<Rightarrow> virtio \<Rightarrow> virtio" where
  "virtio_raise_irq type v = v\<lparr>isr_status := isr_status v OR type, intx := True\<rparr>"

definition virtio_lower_irq :: "virtio \<Rightarrow> virtio" where
  "virtio_lower_irq v = v\<lparr>isr_status := 0, intx := False\<rparr>"

definition notify_config_changes :: "virtio \<Rightarrow> virtio" where
  "notify_config_changes v =
     (let v1 = v\<lparr>config_has_changed := True\<rparr>
      in if has_bits (device_status v1) VIRTIO_STATUS_DRIVER_OK
         then virtio_raise_irq (if qemu_compatible v1 then VIRTIO_ISR_DEVICE_CFG OR VIRTIO_ISR_QUEUE else VIRTIO_ISR_DEVICE_CFG) v1
         else v1)"

definition needs_reset :: "virtio \<Rightarrow> virtio" where
  "needs_reset v =
     (let v1 = v\<lparr>device_status := device_status v OR VIRTIO_STATUS_DEVICE_NEEDS_RESET\<rparr>
      in if has_bits (device_status v1) VIRTIO_STATUS_DRIVER_OK then notify_config_changes v1 else v1)"

definition is_feature_negotiated :: "nat \<Rightarrow> virtio \<Rightarrow> bool" where
  "is_feature_negotiated feature v \<longleftrightarrow>
     0 < sint (driver_feature v ! (feature div 32) AND push_bit (feature mod 32) 1)"

section \<open>Configuration of a queue\<close>

definition set_size :: "int \<Rightarrow> virtqueue \<Rightarrow> virtqueue" where
  "set_size sz q = q\<lparr>q_size := sz, q_mask := sz - 1\<rparr>"

definition vq_reset :: "virtqueue \<Rightarrow> virtqueue" where
  "vq_reset q =
     set_size (size_supported q)
       (q\<lparr>q_enabled := False, address_words := replicate 6 0, desc_addr := 0, avail_addr := 0, avail_last_idx := 0,
          used_addr := 0, num_staged_replies := 0, msix_vector := 0xFFFF\<rparr>)"

definition VirtQueue_new :: "int \<Rightarrow> int \<Rightarrow> virtqueue" where
  "VirtQueue_new supported notify =
     vq_reset \<lparr>q_size = supported, size_supported = supported, q_mask = supported - 1, q_enabled = False,
       notify_offset = notify, address_words = replicate 6 0, msix_vector = 0xFFFF, desc_addr = 0, avail_addr = 0,
       avail_last_idx = 0, used_addr = 0, num_staged_replies = 0, fix_wrapping = False\<rparr>"

definition words_address :: "i32 list \<Rightarrow> nat \<Rightarrow> int" where
  "words_address ws i = uint (ws ! i) + uint (ws ! (i + 1)) * 0x100000000"

definition set_address_word :: "nat \<Rightarrow> i32 \<Rightarrow> virtqueue \<Rightarrow> virtqueue" where
  "set_address_word i v q =
     (if q_enabled q then q
      else let ws = (address_words q)[i := v]
           in q\<lparr>address_words := ws, desc_addr := words_address ws 0, avail_addr := words_address ws 2,
                used_addr := words_address ws 4\<rparr>)"

definition is_configured :: "virtqueue \<Rightarrow> bool" where
  "is_configured q \<longleftrightarrow> q_size q > 0 \<and> desc_addr q > 0 \<and> avail_addr q > 0 \<and> used_addr q > 0"

definition vq_enable :: "'d wasm_exports \<Rightarrow> 'd pcpu \<Rightarrow> virtqueue \<Rightarrow> virtio \<Rightarrow> virtqueue \<times> virtio" where
  "vq_enable w c q v =
     (if desc_addr q mod 16 \<noteq> 0 \<or> avail_addr q mod 2 \<noteq> 0 \<or> used_addr q mod 4 \<noteq> 0 then (q, needs_reset v)
      else if validate_physical_range w (desc_addr q) (q_size q * 16) c \<and>
              validate_physical_range w (avail_addr q) (6 + q_size q * 2) c \<and>
              validate_physical_range w (used_addr q) (6 + q_size q * 8) c
      then (q\<lparr>q_enabled := True\<rparr>, v)
      else (q, needs_reset v))"

record vq_state =
  sv_size :: int
  sv_size_supported :: int
  sv_enabled :: bool
  sv_notify_offset :: int
  sv_desc_addr :: int
  sv_avail_addr :: int
  sv_avail_last_idx :: int
  sv_used_addr :: int
  sv_num_staged_replies :: int
  sv_version :: int
  sv_address_words :: "i32 list option"

definition vq_get_state :: "virtqueue \<Rightarrow> vq_state" where
  "vq_get_state q = \<lparr>sv_size = q_size q, sv_size_supported = size_supported q, sv_enabled = q_enabled q,
     sv_notify_offset = notify_offset q, sv_desc_addr = desc_addr q, sv_avail_addr = avail_addr q,
     sv_avail_last_idx = avail_last_idx q, sv_used_addr = used_addr q, sv_num_staged_replies = num_staged_replies q,
     sv_version = 1, sv_address_words = Some (address_words q)\<rparr>"

definition vq_set_state :: "vq_state \<Rightarrow> virtqueue \<Rightarrow> virtqueue" where
  "vq_set_state s q =
     (let u = (\<lambda>a. case sv_address_words s of Some _ \<Rightarrow> a | None \<Rightarrow> a mod 0x100000000)
      in q\<lparr>q_size := sv_size s, size_supported := sv_size_supported s, q_enabled := sv_enabled s,
           notify_offset := sv_notify_offset s, desc_addr := u (sv_desc_addr s), avail_addr := u (sv_avail_addr s),
           avail_last_idx := sv_avail_last_idx s, used_addr := u (sv_used_addr s),
           num_staged_replies := sv_num_staged_replies s,
           address_words := (case sv_address_words s of Some ws \<Rightarrow> ws
             | None \<Rightarrow> [word_of_int (u (sv_desc_addr s)), 0, word_of_int (u (sv_avail_addr s)), 0,
                       word_of_int (u (sv_used_addr s)), 0]),
           q_mask := sv_size s - 1, fix_wrapping := (sv_version s \<noteq> 1)\<rparr>)"

section \<open>The rings\<close>

abbreviation read16 :: "'d wasm_exports \<Rightarrow> int \<Rightarrow> 'd pcpu \<Rightarrow> int option \<times> 'd pcpu" where
  "read16 w a c \<equiv> read_physical_scalar w a 16 c"
abbreviation read32 :: "'d wasm_exports \<Rightarrow> int \<Rightarrow> 'd pcpu \<Rightarrow> int option \<times> 'd pcpu" where
  "read32 w a c \<equiv> read_physical_scalar w a 32 c"

text \<open>A RangeError ends a sequence of accesses.\<close>

definition obind :: "'a option \<times> 's \<Rightarrow> ('a \<Rightarrow> 's \<Rightarrow> 'b option \<times> 's) \<Rightarrow> 'b option \<times> 's" where
  "obind r f = (case r of (None, s) \<Rightarrow> (None, s) | (Some x, s) \<Rightarrow> f x s)"

definition avail_get_flags :: "'d wasm_exports \<Rightarrow> virtqueue \<Rightarrow> 'd pcpu \<Rightarrow> int option \<times> 'd pcpu" where
  "avail_get_flags w q c = read16 w (avail_addr q) c"

definition avail_get_idx :: "'d wasm_exports \<Rightarrow> virtqueue \<Rightarrow> 'd pcpu \<Rightarrow> int option \<times> 'd pcpu" where
  "avail_get_idx w q c = read16 w (avail_addr q + 2) c"

definition avail_get_entry :: "'d wasm_exports \<Rightarrow> int \<Rightarrow> virtqueue \<Rightarrow> 'd pcpu \<Rightarrow> int option \<times> 'd pcpu" where
  "avail_get_entry w i q c = read16 w (avail_addr q + 4 + 2 * (i AND q_mask q)) c"

definition avail_get_used_event :: "'d wasm_exports \<Rightarrow> virtqueue \<Rightarrow> 'd pcpu \<Rightarrow> int option \<times> 'd pcpu" where
  "avail_get_used_event w q c = read16 w (avail_addr q + 4 + 2 * q_size q) c"

definition used_get_flags :: "'d wasm_exports \<Rightarrow> virtqueue \<Rightarrow> 'd pcpu \<Rightarrow> int option \<times> 'd pcpu" where
  "used_get_flags w q c = read16 w (used_addr q) c"

definition used_set_flags :: "'d wasm_exports \<Rightarrow> int \<Rightarrow> virtqueue \<Rightarrow> 'd pcpu \<Rightarrow> unit option \<times> 'd pcpu" where
  "used_set_flags w v q c = write_physical_scalar w (used_addr q) v 16 c"

definition used_get_idx :: "'d wasm_exports \<Rightarrow> virtqueue \<Rightarrow> 'd pcpu \<Rightarrow> int option \<times> 'd pcpu" where
  "used_get_idx w q c = read16 w (used_addr q + 2) c"

definition used_set_idx :: "'d wasm_exports \<Rightarrow> int \<Rightarrow> virtqueue \<Rightarrow> 'd pcpu \<Rightarrow> unit option \<times> 'd pcpu" where
  "used_set_idx w v q c = write_physical_scalar w (used_addr q + 2) v 16 c"

definition used_set_entry :: "'d wasm_exports \<Rightarrow> int \<Rightarrow> int \<Rightarrow> int \<Rightarrow> virtqueue \<Rightarrow> 'd pcpu \<Rightarrow> unit option \<times> 'd pcpu" where
  "used_set_entry w i desc_idx length_written q c =
     obind (write_physical_scalar w (used_addr q + 4 + 8 * i) desc_idx 32 c)
       (\<lambda>_. write_physical_scalar w (used_addr q + 8 + 8 * i) length_written 32)"

definition used_set_avail_event :: "'d wasm_exports \<Rightarrow> int \<Rightarrow> virtqueue \<Rightarrow> 'd pcpu \<Rightarrow> unit option \<times> 'd pcpu" where
  "used_set_avail_event w v q c = write_physical_scalar w (used_addr q + 4 + 8 * q_size q) v 16 c"

section \<open>Requests\<close>

text \<open>
  \<open>fix_wrapping\<close> is set after an old snapshot, where the index was kept modulo the size; the
  flag is cleared before the access that may fail.
\<close>

definition count_requests ::
  "'d wasm_exports \<Rightarrow> virtqueue \<Rightarrow> 'd pcpu \<Rightarrow> int option \<times> virtqueue \<times> 'd pcpu" where
  "count_requests w q c =
     (if fix_wrapping q
      then let q1 = q\<lparr>fix_wrapping := False\<rparr>
           in case avail_get_idx w q1 c of
                (None, c1) \<Rightarrow> (None, q1, c1)
              | (Some idx, c1) \<Rightarrow>
                  let q2 = q1\<lparr>avail_last_idx := (idx AND NOT (q_mask q1)) + (avail_last_idx q1 AND q_mask q1)\<rparr>
                  in case avail_get_idx w q2 c1 of
                       (None, c2) \<Rightarrow> (None, q2, c2)
                     | (Some idx2, c2) \<Rightarrow> (Some ((idx2 - avail_last_idx q2) AND 0xFFFF), q2, c2)
      else case avail_get_idx w q c of
             (None, c1) \<Rightarrow> (None, q, c1)
           | (Some idx, c1) \<Rightarrow> (Some ((idx - avail_last_idx q) AND 0xFFFF), q, c1))"

definition has_request ::
  "'d wasm_exports \<Rightarrow> virtqueue \<Rightarrow> virtio \<Rightarrow> 'd pcpu \<Rightarrow> bool \<times> virtqueue \<times> virtio \<times> 'd pcpu" where
  "has_request w q v c =
     (if \<not> q_enabled q \<or> has_bits (device_status v) VIRTIO_STATUS_DEVICE_NEEDS_RESET then (False, q, v, c)
      else if absent v then (False, q, v, c)
      else case count_requests w q c of
             (Some n, q1, c1) \<Rightarrow> (n \<noteq> 0, q1, v, c1)
           | (None, q1, c1) \<Rightarrow> (False, q1, needs_reset v, c1))"

section \<open>Descriptor chains\<close>

record vdesc =
  d_address :: int
  d_len :: nat
  d_flags :: int
  d_next :: int

definition get_descriptor :: "'d wasm_exports \<Rightarrow> int \<Rightarrow> int \<Rightarrow> 'd pcpu \<Rightarrow> vdesc option \<times> 'd pcpu" where
  "get_descriptor w table i c =
     obind (read32 w (table + i * 16) c) (\<lambda>addr_low c.
     obind (read32 w (table + i * 16 + 4) c) (\<lambda>addr_high c.
     obind (read32 w (table + i * 16 + 8) c) (\<lambda>len c.
     obind (read16 w (table + i * 16 + 12) c) (\<lambda>flags c.
     obind (read16 w (table + i * 16 + 14) c) (\<lambda>nxt c.
       (Some \<lparr>d_address = addr_low + addr_high * 0x100000000, d_len = nat len, d_flags = flags, d_next = nxt\<rparr>, c))))))"

record bufchain =
  head_idx :: int
  read_buffers :: "vdesc list"
  read_buffer_idx :: nat
  read_buffer_offset :: nat
  length_readable :: nat
  write_buffers :: "vdesc list"
  write_buffer_idx :: nat
  write_buffer_offset :: nat
  length_written :: nat
  length_writable :: nat
  bc_valid :: bool
  bc_plug_generation :: nat

definition flag_set :: "int \<Rightarrow> int \<Rightarrow> bool" where
  "flag_set x f \<longleftrightarrow> x AND f \<noteq> 0"

text \<open>The loop of \<open>collect_buffers\<close>; one round reads one descriptor.\<close>

function collect_loop ::
  "'d wasm_exports \<Rightarrow> bool \<Rightarrow> int \<Rightarrow> int \<Rightarrow> int \<Rightarrow> int \<Rightarrow> bool \<Rightarrow> bool \<Rightarrow> bufchain \<Rightarrow> 'd pcpu \<Rightarrow> bufchain option \<times> 'd pcpu" where
  "collect_loop w has_indirect table_address desc_idx chain_length chain_max writable_region indirect b c =
     (if chain_max \<le> desc_idx \<or> chain_max < chain_length + 1 then (None, c)
      else case get_descriptor w table_address desc_idx c of
        (None, c1) \<Rightarrow> (None, c1)
      | (Some desc, c1) \<Rightarrow>
          if \<not> validate_physical_range w (d_address desc) (int (d_len desc)) c1 then (None, c1)
          else if flag_set (d_flags desc) VIRTQ_DESC_F_INDIRECT
          then if \<not> has_indirect \<or> indirect \<or> flag_set (d_flags desc) VIRTQ_DESC_F_NEXT \<or> d_len desc = 0 \<or>
                  d_len desc mod 16 \<noteq> 0 \<or> 65536 < d_len desc div 16
               then (None, c1)
               else collect_loop w has_indirect (d_address desc) 0 0 (int (d_len desc div 16)) writable_region True b c1
          else if \<not> flag_set (d_flags desc) VIRTQ_DESC_F_WRITE \<and> writable_region then (None, c1)
          else let b1 = (if flag_set (d_flags desc) VIRTQ_DESC_F_WRITE
                         then b\<lparr>write_buffers := write_buffers b @ [desc], length_writable := length_writable b + d_len desc\<rparr>
                         else b\<lparr>read_buffers := read_buffers b @ [desc], length_readable := length_readable b + d_len desc\<rparr>)
               in if flag_set (d_flags desc) VIRTQ_DESC_F_NEXT
                  then collect_loop w has_indirect table_address (d_next desc) (chain_length + 1) chain_max
                         (writable_region \<or> flag_set (d_flags desc) VIRTQ_DESC_F_WRITE) indirect b1 c1
                  else (Some b1, c1))"
  by pat_completeness auto
termination
  by (relation "measures [\<lambda>(w, hi, t, d, l, m, wr, ind, b, c). if ind then 0 else 1, \<lambda>(w, hi, t, d, l, m, wr, ind, b, c). nat (m - l)]")
    (auto split: if_splits)

declare collect_loop.simps [simp del]

definition empty_chain :: "int \<Rightarrow> nat \<Rightarrow> bufchain" where
  "empty_chain head gen =
     \<lparr>head_idx = head, read_buffers = [], read_buffer_idx = 0, read_buffer_offset = 0, length_readable = 0,
      write_buffers = [], write_buffer_idx = 0, write_buffer_offset = 0, length_written = 0, length_writable = 0,
      bc_valid = False, bc_plug_generation = gen\<rparr>"

definition collect_buffers :: "'d wasm_exports \<Rightarrow> virtqueue \<Rightarrow> virtio \<Rightarrow> bufchain \<Rightarrow> 'd pcpu \<Rightarrow> bufchain option \<times> 'd pcpu" where
  "collect_buffers w q v b c =
     collect_loop w (is_feature_negotiated VIRTIO_F_RING_INDIRECT_DESC v) (desc_addr q) (head_idx b) 0 (q_size q) False False b c"

definition VirtQueueBufferChain ::
  "'d wasm_exports \<Rightarrow> virtqueue \<Rightarrow> int \<Rightarrow> virtio \<Rightarrow> 'd pcpu \<Rightarrow> bufchain \<times> virtio \<times> 'd pcpu" where
  "VirtQueueBufferChain w q head v c =
     (case collect_buffers w q v (empty_chain head (plug_generation v)) c of
        (Some b, c1) \<Rightarrow> (b\<lparr>bc_valid := True\<rparr>, v, c1)
      | (None, c1) \<Rightarrow> (empty_chain head (plug_generation v), needs_reset v, c1))"

definition pop_request ::
  "'d wasm_exports \<Rightarrow> virtqueue \<Rightarrow> virtio \<Rightarrow> 'd pcpu \<Rightarrow> bufchain option \<times> virtqueue \<times> virtio \<times> 'd pcpu" where
  "pop_request w q v c =
     (case avail_get_entry w (avail_last_idx q) q c of
        (None, c1) \<Rightarrow> (None, q, v, c1)
      | (Some desc_idx, c1) \<Rightarrow>
          let (b, v1, c2) = VirtQueueBufferChain w q desc_idx v c1
          in (Some b, q\<lparr>avail_last_idx := (avail_last_idx q + 1) AND 0xFFFF\<rparr>, v1, c2))"

section \<open>Replies\<close>

definition push_reply ::
  "'d wasm_exports \<Rightarrow> bufchain \<Rightarrow> virtqueue \<Rightarrow> virtio \<Rightarrow> 'd pcpu \<Rightarrow> unit option \<times> virtqueue \<times> 'd pcpu" where
  "push_reply w b q v c =
     (if \<not> bc_valid b \<or> bc_plug_generation b \<noteq> plug_generation v then (Some (), q, c)
      else case used_get_idx w q c of
        (None, c1) \<Rightarrow> (None, q, c1)
      | (Some idx, c1) \<Rightarrow>
          (case used_set_entry w ((idx + num_staged_replies q) AND q_mask q) (head_idx b) (int (length_written b)) q c1 of
             (None, c2) \<Rightarrow> (None, q, c2)
           | (Some _, c2) \<Rightarrow> (Some (), q\<lparr>num_staged_replies := num_staged_replies q + 1\<rparr>, c2)))"

text \<open>The interrupt is raised whether or not the event index was passed.\<close>

definition flush_replies ::
  "'d wasm_exports \<Rightarrow> virtqueue \<Rightarrow> virtio \<Rightarrow> 'd pcpu \<Rightarrow> unit option \<times> virtqueue \<times> virtio \<times> 'd pcpu" where
  "flush_replies w q v c =
     (if absent v then (Some (), q\<lparr>num_staged_replies := 0\<rparr>, v, c)
      else if num_staged_replies q = 0 then (Some (), q, v, c)
      else case used_get_idx w q c of
        (None, c1) \<Rightarrow> (None, q, v, c1)
      | (Some old_idx, c1) \<Rightarrow>
          let new_idx = (old_idx + num_staged_replies q) AND 0xFFFF
          in case used_set_idx w new_idx q c1 of
               (None, c2) \<Rightarrow> (None, q, v, c2)
             | (Some _, c2) \<Rightarrow>
                 let q1 = q\<lparr>num_staged_replies := 0\<rparr>
                 in if is_feature_negotiated VIRTIO_F_RING_EVENT_IDX v
                    then case avail_get_used_event w q1 c2 of
                           (None, c3) \<Rightarrow> (None, q1, v, c3)
                         | (Some _, c3) \<Rightarrow> (Some (), q1, virtio_raise_irq VIRTIO_ISR_QUEUE v, c3)
                    else case avail_get_flags w q1 c2 of
                           (None, c3) \<Rightarrow> (None, q1, v, c3)
                         | (Some flags, c3) \<Rightarrow>
                             (Some (), q1, if NOT flags AND 1 \<noteq> 0 then virtio_raise_irq VIRTIO_ISR_QUEUE v else v, c3))"

definition notify_me_after :: "'d wasm_exports \<Rightarrow> int \<Rightarrow> virtqueue \<Rightarrow> 'd pcpu \<Rightarrow> unit option \<times> 'd pcpu" where
  "notify_me_after w num_skipped q c =
     obind (avail_get_idx w q c) (\<lambda>idx. used_set_avail_event w ((idx + num_skipped) AND 0xFFFF) q)"

section \<open>Sequential access to a chain\<close>

text \<open>
  The loops of \<open>get_next_blob\<close> and \<open>set_next_blob\<close>. The indices stop at the number of
  buffers. None is a RangeError of the memory access, after the position has moved.
\<close>

function get_loop ::
  "'d wasm_exports \<Rightarrow> u8 list \<Rightarrow> nat \<Rightarrow> nat \<Rightarrow> bufchain \<Rightarrow> 'd pcpu \<Rightarrow> nat option \<times> u8 list \<times> bufchain \<times> 'd pcpu" where
  "get_loop w dest dest_offset remaining b c =
     (if remaining = 0 \<or> length (read_buffers b) \<le> read_buffer_idx b then (Some dest_offset, dest, b, c)
      else let buf = read_buffers b ! read_buffer_idx b;
               read_address = d_address buf + int (read_buffer_offset b);
               avail = d_len buf - read_buffer_offset b;
               read_length = (if remaining < avail then remaining else avail);
               b1 = (if remaining < avail then b\<lparr>read_buffer_offset := read_buffer_offset b + remaining\<rparr>
                     else b\<lparr>read_buffer_idx := read_buffer_idx b + 1, read_buffer_offset := 0\<rparr>)
           in case read_blob_physical w read_address (int read_length) c of
                (None, c1) \<Rightarrow> (None, dest, b1, c1)
              | (Some bs, c1) \<Rightarrow>
                  get_loop w (ta_set dest bs dest_offset) (dest_offset + read_length) (remaining - read_length) b1 c1)"
  by pat_completeness auto
termination
  by (relation "measures [\<lambda>(w, d, off, r, b, c). if r = 0 then 0 else 1,
      \<lambda>(w, d, off, r, b, c). length (read_buffers b) - read_buffer_idx b]") auto

declare get_loop.simps [simp del]

definition get_next_blob :: "'d wasm_exports \<Rightarrow> u8 list \<Rightarrow> bufchain \<Rightarrow> 'd pcpu \<Rightarrow> nat option \<times> u8 list \<times> bufchain \<times> 'd pcpu" where
  "get_next_blob w dest b c = get_loop w dest 0 (length dest) b c"

function set_loop ::
  "'d wasm_exports \<Rightarrow> u8 list \<Rightarrow> nat \<Rightarrow> nat \<Rightarrow> bufchain \<Rightarrow> 'd pcpu \<Rightarrow> nat option \<times> bufchain \<times> 'd pcpu" where
  "set_loop w src src_offset remaining b c =
     (if remaining = 0 \<or> length (write_buffers b) \<le> write_buffer_idx b then (Some src_offset, b, c)
      else let buf = write_buffers b ! write_buffer_idx b;
               write_address = d_address buf + int (write_buffer_offset b);
               avail = d_len buf - write_buffer_offset b;
               write_length = (if remaining < avail then remaining else avail);
               b1 = (if remaining < avail then b\<lparr>write_buffer_offset := write_buffer_offset b + remaining\<rparr>
                     else b\<lparr>write_buffer_idx := write_buffer_idx b + 1, write_buffer_offset := 0\<rparr>)
           in case write_blob_physical w (subarray src src_offset (src_offset + write_length)) write_address c of
                (None, c1) \<Rightarrow> (None, b1, c1)
              | (Some _, c1) \<Rightarrow> set_loop w src (src_offset + write_length) (remaining - write_length) b1 c1)"
  by pat_completeness auto
termination
  by (relation "measures [\<lambda>(w, s, off, r, b, c). if r = 0 then 0 else 1,
      \<lambda>(w, s, off, r, b, c). length (write_buffers b) - write_buffer_idx b]") auto

declare set_loop.simps [simp del]

definition set_next_blob ::
  "'d wasm_exports \<Rightarrow> u8 list \<Rightarrow> bufchain \<Rightarrow> virtio \<Rightarrow> 'd pcpu \<Rightarrow> nat option \<times> bufchain \<times> 'd pcpu" where
  "set_next_blob w src b v c =
     (if bc_plug_generation b \<noteq> plug_generation v then (Some 0, b, c)
      else case set_loop w src 0 (length src) b c of
             (None, b1, c1) \<Rightarrow> (None, b1, c1)
           | (Some n, b1, c1) \<Rightarrow> (Some n, b1\<lparr>length_written := length_written b1 + n\<rparr>, c1))"

section \<open>Chains the device accepts\<close>

definition nbufs :: "bufchain \<Rightarrow> nat" where
  "nbufs b = length (read_buffers b) + length (write_buffers b)"

definition on_bus :: "vdesc \<Rightarrow> bool" where
  "on_bus d \<longleftrightarrow> 0 \<le> d_address d \<and> d_address d < 0x1000000000 \<and> d_address d + int (d_len d) \<le> 0x1000000000"

definition chain_ok :: "bufchain \<Rightarrow> bool" where
  "chain_ok b \<longleftrightarrow>
     length_readable b = sum_list (map d_len (read_buffers b)) \<and>
     length_writable b = sum_list (map d_len (write_buffers b)) \<and>
     (\<forall>d \<in> set (read_buffers b). on_bus d \<and> \<not> flag_set (d_flags d) VIRTQ_DESC_F_WRITE) \<and>
     (\<forall>d \<in> set (write_buffers b). on_bus d \<and> flag_set (d_flags d) VIRTQ_DESC_F_WRITE)"

lemma validate_on_bus:
  "validate_physical_range w (d_address d) (int (d_len d)) c \<Longrightarrow> on_bus d"
  by (auto simp: validate_physical_range_def on_bus_def split: if_splits)

definition add_buffer :: "vdesc \<Rightarrow> bufchain \<Rightarrow> bufchain" where
  "add_buffer desc b =
     (if flag_set (d_flags desc) VIRTQ_DESC_F_WRITE
      then b\<lparr>write_buffers := write_buffers b @ [desc], length_writable := length_writable b + d_len desc\<rparr>
      else b\<lparr>read_buffers := read_buffers b @ [desc], length_readable := length_readable b + d_len desc\<rparr>)"

lemma add_buffer_ok: "on_bus d \<Longrightarrow> chain_ok b \<Longrightarrow> chain_ok (add_buffer d b)" "nbufs (add_buffer d b) = nbufs b + 1"
    "head_idx (add_buffer d b) = head_idx b"
  by (auto simp: chain_ok_def add_buffer_def nbufs_def)

text \<open>The ways a round of the loop ends.\<close>

lemma collect_loop_cases:
  assumes "collect_loop w hi t i l m wr ind b c = (Some b', c')"
  obtains (indirect) d :: vdesc and c1 where "\<not> ind" "d_len d div 16 \<le> 65536" "l + 1 \<le> m"
      "collect_loop w hi (d_address d) 0 0 (int (d_len d div 16)) wr True b c1 = (Some b', c')"
    | (more) d :: vdesc and c1 wr1 where "on_bus d" "l + 1 \<le> m"
      "collect_loop w hi t (d_next d) (l + 1) m wr1 ind (add_buffer d b) c1 = (Some b', c')"
    | (last) d :: vdesc where "on_bus d" "l + 1 \<le> m" "b' = add_buffer d b"
proof -
  note u = assms [unfolded collect_loop.simps [of w hi t i l m wr ind b c]]
  have m: "l + 1 \<le> m" using u by (auto split: if_splits)
  obtain d c1 where d: "get_descriptor w t i c = (Some d, c1)"
    using u by (auto split: if_splits prod.splits option.splits)
  have v: "validate_physical_range w (d_address d) (int (d_len d)) c1"
    using u by (auto simp: d split: if_splits)
  show ?thesis
  proof (cases "flag_set (d_flags d) VIRTQ_DESC_F_INDIRECT")
    case True
    then show ?thesis using u v d m by (auto intro: indirect [of d c1] split: if_splits)
  next
    case False
    then show ?thesis using u v d m validate_on_bus [OF v]
      by (cases "flag_set (d_flags d) VIRTQ_DESC_F_NEXT")
        (auto simp: add_buffer_def [symmetric] Let_def intro: more [of d] last [of d] split: if_splits)
  qed
qed

lemma collect_indirect_ok:
  "collect_loop w hi t i l m wr True b c = (Some b', c') \<Longrightarrow> chain_ok b \<Longrightarrow>
   chain_ok b' \<and> nbufs b' \<le> nbufs b + nat (m - l) \<and> head_idx b' = head_idx b"
proof (induction "nat (m - l)" arbitrary: t i l m wr b c rule: less_induct)
  case less
  from less.prems(1) show ?case
  proof (cases rule: collect_loop_cases)
    case (more d c1 wr1)
    then show ?thesis
      using less.hyps [of m "l + 1" t "d_next d" wr1 "add_buffer d b" c1] less.prems(2) add_buffer_ok [of d b] by auto
  qed (use less.prems(2) add_buffer_ok in auto)
qed

lemma collect_direct_ok:
  "collect_loop w hi t i l m wr False b c = (Some b', c') \<Longrightarrow> chain_ok b \<Longrightarrow>
   chain_ok b' \<and> nbufs b' \<le> nbufs b + nat (m - l) + 65536 \<and> head_idx b' = head_idx b"
proof (induction "nat (m - l)" arbitrary: t i l m wr b c rule: less_induct)
  case less
  from less.prems(1) show ?case
  proof (cases rule: collect_loop_cases)
    case (indirect d c1)
    then show ?thesis using collect_indirect_ok [OF indirect(4) less.prems(2)] by auto
  next
    case (more d c1 wr1)
    then show ?thesis
      using less.hyps [of m "l + 1" t "d_next d" wr1 "add_buffer d b" c1] less.prems(2) add_buffer_ok [of d b] by auto
  qed (use less.prems(2) add_buffer_ok in auto)
qed

text \<open>
  Claim C3. A descriptor chain from the guest: whatever the guest put into the table, loops and
  indirect tables included, the construction of a chain ends, and either the chain is valid, its
  buffers lie on the 36-bit bus, are at most the queue size plus 65536, are split by their write
  flag into readable and writable ones with the right total lengths, or the chain is empty and
  invalid and the device asks for a reset.
\<close>

theorem virtio_chain_wellformed:
  "let (b, v', c') = VirtQueueBufferChain w q head v c
   in if bc_valid b then v' = v \<and> chain_ok b \<and> nbufs b \<le> nat (q_size q) + 65536 \<and> head_idx b = head
      else read_buffers b = [] \<and> write_buffers b = [] \<and> bit (device_status v') 6"
proof -
  define b0 where "b0 = empty_chain head (plug_generation v)"
  have b0: "chain_ok b0" "nbufs b0 = 0" "\<not> bc_valid b0" "read_buffers b0 = []" "write_buffers b0 = []" "head_idx b0 = head"
    by (simp_all add: b0_def empty_chain_def chain_ok_def nbufs_def)
  have rs: "bit (device_status (needs_reset v)) 6"
    by (simp add: needs_reset_def notify_config_changes_def virtio_raise_irq_def Let_def bit_simps)
  show ?thesis
    unfolding VirtQueueBufferChain_def b0_def [symmetric]
  proof (cases "collect_buffers w q v b0 c")
    case (Pair r c1)
    then show "let (b, v', c') = (case collect_buffers w q v b0 c of (None, c1) \<Rightarrow> (b0, needs_reset v, c1)
        | (Some b, c1) \<Rightarrow> (b\<lparr>bc_valid := True\<rparr>, v, c1))
      in if bc_valid b then v' = v \<and> chain_ok b \<and> nbufs b \<le> nat (q_size q) + 65536 \<and> head_idx b = head
         else read_buffers b = [] \<and> write_buffers b = [] \<and> bit (device_status v') 6"
      using rs b0 collect_direct_ok [of w _ "desc_addr q" "head_idx b0" 0 "q_size q" False b0 c]
      by (cases r) (fastforce simp: collect_buffers_def chain_ok_def nbufs_def)+
  qed
qed

section \<open>The bytes of a chain as a stream\<close>

text \<open>The guest addresses that are left from a position on, and buffers that lie in memory.\<close>

definition buf_addrs :: "vdesc \<Rightarrow> int list" where
  "buf_addrs d = map (\<lambda>i. d_address d + int i) [0..<d_len d]"

definition stream_addrs :: "vdesc list \<Rightarrow> nat \<Rightarrow> nat \<Rightarrow> int list" where
  "stream_addrs bufs idx offset = drop offset (concat (map buf_addrs (drop idx bufs)))"

definition position_ok :: "vdesc list \<Rightarrow> nat \<Rightarrow> nat \<Rightarrow> bool" where
  "position_ok bufs idx offset \<longleftrightarrow> (if idx < length bufs then offset = 0 \<or> offset < d_len (bufs ! idx) else offset = 0)"

definition ram_buffers :: "'d wasm_exports \<Rightarrow> 'd pcpu \<Rightarrow> vdesc list \<Rightarrow> bool" where
  "ram_buffers w c bufs \<longleftrightarrow> (\<forall>d \<in> set bufs. on_bus d \<and> ram_range w c (d_address d) (d_len d))"

lemma ram_range_sub:
  assumes "ram_range w c a n" "k + m \<le> n" shows "ram_range w c (a + int k) m"
proof -
  have e: "a + int k + int i = a + int (k + i)" for i by simp
  have lin: "x64_phys_resolve w c (a + int (k + j)) = x64_phys_resolve w c (a + int (k + i)) + int (j - i)"
    if "i \<le> j" "j < m" "(a + int (k + i)) div 4096 = (a + int (k + j)) div 4096" for i j
  proof -
    have "k + i \<le> k + j" "k + j < n" using that assms(2) by simp_all
    then have "x64_phys_resolve w c (a + int (k + j)) = x64_phys_resolve w c (a + int (k + i)) + int ((k + j) - (k + i))"
      using assms(1) that(3) unfolding ram_range_def by blast
    then show ?thesis by simp
  qed
  have "x64_phys_kind w c (a + int (k + i)) = 1 \<and> 0 \<le> x64_phys_resolve w c (a + int (k + i)) \<and>
      x64_phys_resolve w c (a + int (k + i)) < int (mem8_size c)" if "i < m" for i
    using ram_rangeD [OF assms(1), of "k + i"] assms(2) that by simp
  moreover have "mem8_offset c + mem8_size c \<le> length (wasm_memory c)" using assms(1) by (simp add: ram_range_def)
  ultimately show ?thesis using lin unfolding ram_range_def e by blast
qed

lemma read_blob_zero: "0 \<le> a \<Longrightarrow> a \<le> 0xFFFFFFFFF \<Longrightarrow> read_blob_physical w a 0 c = (Some [], c)"
  by (simp add: read_blob_physical_def validate_physical_range_def is_safe_integer_def validate_pages.simps read_chunks.simps)

lemma read_part:
  assumes "on_bus d" "ram_range w c (d_address d) (d_len d)" "k = 0 \<or> k < d_len d" "k + m \<le> d_len d"
  shows "read_blob_physical w (d_address d + int k) (int m) c = (Some (map (phys_byte w c) (take m (drop k (buf_addrs d)))), c)"
proof (cases "m = 0")
  case True
  then show ?thesis using assms read_blob_zero [of "d_address d + int k" w c] by (auto simp: on_bus_def)
next
  case False
  have "take m (drop k (buf_addrs d)) = map (\<lambda>i. d_address d + int k + int i) [0..<m]"
    using assms(4) by (intro nth_equalityI) (simp_all add: buf_addrs_def)
  then show ?thesis
    using read_blob_ram [OF ram_range_sub [OF assms(2,4)]] assms(1,4) False by (simp add: on_bus_def comp_def)
qed

lemma stream_addrs_buf:
  assumes "idx < length bufs" "position_ok bufs idx k"
  shows "stream_addrs bufs idx k = drop k (buf_addrs (bufs ! idx)) @ stream_addrs bufs (Suc idx) 0"
  using assms by (auto simp: stream_addrs_def position_ok_def Cons_nth_drop_Suc [symmetric] buf_addrs_def)

lemma stream_addrs_end: "length bufs \<le> idx \<Longrightarrow> stream_addrs bufs idx k = []"
  by (simp add: stream_addrs_def)

lemma get_loop_stream:
  assumes "ram_buffers w c (read_buffers b)" "position_ok (read_buffers b) (read_buffer_idx b) (read_buffer_offset b)"
    "off + rem = length dest"
    "S = stream_addrs (read_buffers b) (read_buffer_idx b) (read_buffer_offset b)"
  shows "\<exists>b'. get_loop w dest off rem b c =
      (Some (off + min rem (length S)), ta_set dest (map (phys_byte w c) (take rem S)) off, b', c) \<and>
    read_buffers b' = read_buffers b \<and>
    position_ok (read_buffers b') (read_buffer_idx b') (read_buffer_offset b') \<and>
    stream_addrs (read_buffers b') (read_buffer_idx b') (read_buffer_offset b') = drop rem S"
  using assms
proof (induction "length (read_buffers b) - read_buffer_idx b" arbitrary: b dest off rem S rule: less_induct)
  case less
  let ?bufs = "read_buffers b" and ?i = "read_buffer_idx b" and ?k = "read_buffer_offset b"
  show ?case
  proof (cases "rem = 0 \<or> length ?bufs \<le> ?i")
    case True
    then show ?thesis
      using less.prems stream_addrs_end [of ?bufs ?i ?k]
      by (intro exI [of _ b]) (auto simp: get_loop.simps ta_set_def)
  next
    case False
    define d where "d = ?bufs ! ?i"
    have i: "?i < length ?bufs" and rem: "0 < rem" using False by auto
    have d: "on_bus d" "ram_range w c (d_address d) (d_len d)" "?k = 0 \<or> ?k < d_len d"
      using less.prems(1,2) i by (simp_all add: d_def ram_buffers_def position_ok_def)
    have S: "S = drop ?k (buf_addrs d) @ stream_addrs ?bufs (Suc ?i) 0"
      using stream_addrs_buf [OF i less.prems(2)] less.prems(4) by (simp add: d_def)
    have len: "length (drop ?k (buf_addrs d)) = d_len d - ?k" by (simp add: buf_addrs_def)
    show ?thesis
    proof (cases "rem < d_len d - ?k")
      case True
      define b1 where "b1 = b\<lparr>read_buffer_offset := ?k + rem\<rparr>"
      have rd: "read_blob_physical w (d_address d + int ?k) (int rem) c = (Some (map (phys_byte w c) (take rem (drop ?k (buf_addrs d)))), c)"
        using True by (intro read_part [OF d]) simp
      have "get_loop w dest off rem b c =
          (Some (off + rem), ta_set dest (map (phys_byte w c) (take rem (drop ?k (buf_addrs d)))) off, b1, c)"
        using False True rd by (subst get_loop.simps) (simp add: Let_def d_def [symmetric] b1_def get_loop.simps)
      moreover have p: "position_ok ?bufs ?i (?k + rem)" using True i by (auto simp: position_ok_def d_def)
      moreover have "stream_addrs ?bufs ?i (?k + rem) = drop rem S"
        using less.prems(4) by (simp add: stream_addrs_def add.commute)
      ultimately show ?thesis
        using True len by (intro exI [of _ b1]) (simp add: b1_def S)
    next
      case nle: False
      define b1 where "b1 = b\<lparr>read_buffer_idx := ?i + 1, read_buffer_offset := 0\<rparr>"
      let ?a = "d_len d - ?k" and ?blk = "map (phys_byte w c) (drop ?k (buf_addrs d))"
      have rd: "read_blob_physical w (d_address d + int ?k) (int ?a) c = (Some ?blk, c)"
        using read_part [OF d, of ?a] d(3) len by auto
      have step: "get_loop w dest off rem b c = get_loop w (ta_set dest ?blk off) (off + ?a) (rem - ?a) b1 c"
        using False nle rd by (subst get_loop.simps) (simp add: Let_def d_def [symmetric] b1_def)
      have tl: "length (ta_set dest ?blk off) = length dest" using nle less.prems(3) len by (simp add: ta_set_def)
      define S1 where "S1 = stream_addrs ?bufs (Suc ?i) 0"
      have "\<exists>b'. get_loop w (ta_set dest ?blk off) (off + ?a) (rem - ?a) b1 c =
          (Some (off + ?a + min (rem - ?a) (length S1)), ta_set (ta_set dest ?blk off) (map (phys_byte w c) (take (rem - ?a) S1)) (off + ?a), b', c) \<and>
        read_buffers b' = read_buffers b1 \<and> position_ok (read_buffers b') (read_buffer_idx b') (read_buffer_offset b') \<and>
        stream_addrs (read_buffers b') (read_buffer_idx b') (read_buffer_offset b') = drop (rem - ?a) S1"
        by (rule less.hyps) (use less.prems i nle tl in \<open>auto simp: b1_def position_ok_def S1_def\<close>)
      moreover have "ta_set (ta_set dest ?blk off) (map (phys_byte w c) (take (rem - ?a) S1)) (off + ?a) =
          ta_set dest (map (phys_byte w c) (take rem S)) off"
        using ta_set_ta_set [of ?blk "map (phys_byte w c) (take (rem - ?a) S1)" off dest] nle len less.prems(3)
        by (simp add: S S1_def)
      moreover have "off + ?a + min (rem - ?a) (length S1) = off + min rem (length S)"
        using nle len by (simp add: S S1_def)
      moreover have "drop (rem - ?a) S1 = drop rem S" using nle len by (simp add: S S1_def)
      ultimately show ?thesis unfolding step by (auto simp: b1_def)
    qed
  qed
qed

text \<open>
  Claim C15. Reading a chain: for readable buffers in guest memory, \<open>get_next_blob\<close> treats
  them as one stream. A call fills the destination from the front with the next bytes of the
  stream, as many as both have, returns their number, changes no memory, and moves the position so
  that the next call continues where this one stopped, across buffer boundaries and empty buffers.
\<close>

theorem virtio_read_stream:
  assumes "ram_buffers w c (read_buffers b)" "position_ok (read_buffers b) (read_buffer_idx b) (read_buffer_offset b)"
  shows "let S = stream_addrs (read_buffers b) (read_buffer_idx b) (read_buffer_offset b);
      (n, dest', b', c') = get_next_blob w dest b c
    in n = Some (min (length dest) (length S)) \<and>
       dest' = map (phys_byte w c) (take (length dest) S) @ drop (length S) dest \<and> c' = c \<and>
       position_ok (read_buffers b') (read_buffer_idx b') (read_buffer_offset b') \<and>
       stream_addrs (read_buffers b') (read_buffer_idx b') (read_buffer_offset b') = drop (length dest) S"
proof -
  let ?S = "stream_addrs (read_buffers b) (read_buffer_idx b) (read_buffer_offset b)"
  obtain b' where b': "get_next_blob w dest b c =
      (Some (min (length dest) (length ?S)), ta_set dest (map (phys_byte w c) (take (length dest) ?S)) 0, b', c)"
    "position_ok (read_buffers b') (read_buffer_idx b') (read_buffer_offset b')"
    "stream_addrs (read_buffers b') (read_buffer_idx b') (read_buffer_offset b') = drop (length dest) ?S"
    using get_loop_stream [OF assms, of 0 "length dest" dest ?S] by (auto simp: get_next_blob_def)
  have "drop (min (length ?S) (length dest)) dest = drop (length ?S) dest" by (simp add: min_def)
  then show ?thesis by (simp add: b' ta_set_def min.commute)
qed

theorem virtio_read_stream_witness:
  "let b = (empty_chain 0 0)\<lparr>read_buffers := [\<lparr>d_address = 0, d_len = 2, d_flags = 1, d_next = 1\<rparr>,
             \<lparr>d_address = 3, d_len = 1, d_flags = 0, d_next = 0\<rparr>]\<rparr>
   in fst (get_next_blob flat_exports [0, 0, 0, 0] b (flat_cpu [5, 6, 7, 8])) = Some 3 \<and>
      fst (snd (get_next_blob flat_exports [0, 0, 0, 0] b (flat_cpu [5, 6, 7, 8]))) = [5, 6, 8, 0]"
proof -
  define b where "b = (empty_chain 0 0)\<lparr>read_buffers := [\<lparr>d_address = 0, d_len = 2, d_flags = 1, d_next = 1\<rparr>,
      \<lparr>d_address = 3, d_len = 1, d_flags = 0, d_next = 0\<rparr>]\<rparr>"
  have r: "ram_buffers flat_exports (flat_cpu [5, 6, 7, 8]) (read_buffers b)"
    using flat_ram_range [of 0 2 "[5, 6, 7, 8]"] flat_ram_range [of 3 1 "[5, 6, 7, 8]"]
    by (simp add: ram_buffers_def b_def on_bus_def)
  have p: "position_ok (read_buffers b) (read_buffer_idx b) (read_buffer_offset b)"
    by (simp add: b_def empty_chain_def position_ok_def)
  have "stream_addrs (read_buffers b) (read_buffer_idx b) (read_buffer_offset b) = [0, 1, 3]"
    by (simp add: b_def empty_chain_def stream_addrs_def buf_addrs_def upt_rec)
  then show ?thesis
    using virtio_read_stream [OF r p, of "[0, 0, 0, 0]"]
    unfolding b_def [symmetric] by (simp add: Let_def split_beta phys_byte_def mem8_def flat_exports_def flat_cpu_def)
qed

section \<open>Writing to a chain\<close>

text \<open>The linear memory after bytes are stored at guest addresses, in order.\<close>

definition store_bytes :: "'d wasm_exports \<Rightarrow> 'd pcpu \<Rightarrow> (int \<times> u8) list \<Rightarrow> u8 list \<Rightarrow> u8 list" where
  "store_bytes w c xs m = fold (\<lambda>(a, x) m. m[mem8_offset c + nat (x64_phys_resolve w c a) := x]) xs m"

lemma store_bytes_append: "store_bytes w c (xs @ ys) m = store_bytes w c ys (store_bytes w c xs m)"
  by (simp add: store_bytes_def)

lemma store_bytes_length [simp]: "length (store_bytes w c xs m) = length m"
  by (induction xs arbitrary: m) (auto simp: store_bytes_def)

lemma store_bytes_write:
  "fold (write_byte_at w c a bs) [0..<length bs] m = store_bytes w c (zip (map (\<lambda>i. a + int i) [0..<length bs]) bs) m"
proof -
  have z: "zip (map (\<lambda>i. a + int i) [0..<length bs]) bs = map (\<lambda>i. (a + int i, bs ! i)) [0..<length bs]"
    by (rule nth_equalityI) simp_all
  have "(\<lambda>i. (case (a + int i, bs ! i) of (a, x) \<Rightarrow> \<lambda>m. m[mem8_offset c + nat (x64_phys_resolve w c a) := x])) = write_byte_at w c a bs"
    by (simp add: fun_eq_iff write_byte_at_def)
  then show ?thesis unfolding store_bytes_def z fold_map comp_def by simp
qed

text \<open>A state that differs from \<open>c\<close> in the contents of the memory and the log of the code cache only.\<close>

abbreviation with_mem :: "'d pcpu \<Rightarrow> u8 list \<Rightarrow> (int \<times> int) list \<Rightarrow> 'd pcpu" where
  "with_mem c m dd \<equiv> c\<lparr>wasm_memory := m, jit_dirtied := dd\<rparr>"

lemma stable_with_mem:
  assumes "decode_stable w"
  shows "x64_phys_resolve w (with_mem c m dd) a = x64_phys_resolve w c a"
    "x64_phys_kind w (with_mem c m dd) a = x64_phys_kind w c a"
    "length m = length (wasm_memory c) \<Longrightarrow> ram_range w (with_mem c m dd) a n = ram_range w c a n"
    "store_bytes w (with_mem c m dd) xs = store_bytes w c xs"
  using assms by (simp_all add: decode_stable_def ram_range_def store_bytes_def fun_eq_iff)

lemma write_part:
  assumes "on_bus d" "ram_range w c (d_address d) (d_len d)" "k = 0 \<or> k < d_len d" "k + length bs \<le> d_len d"
    "decode_stable w" "length m = length (wasm_memory c)"
  shows "\<exists>dd'. write_blob_physical w bs (d_address d + int k) (with_mem c m dd) =
      (Some (), with_mem c (store_bytes w c (zip (take (length bs) (drop k (buf_addrs d))) bs) m) (dd @ dd')) \<and>
    (\<forall>a \<in> set (take (length bs) (drop k (buf_addrs d))). dirty_covers dd' (x64_phys_resolve w c a))"
proof (cases "bs = []")
  case True
  then show ?thesis using assms(1,3)
    by (intro exI [of _ "[]"])
      (auto simp: write_blob_physical_def validate_physical_range_def is_safe_integer_def validate_pages.simps
        write_chunks.simps store_bytes_def on_bus_def)
next
  case False
  let ?a = "d_address d + int k" and ?c = "with_mem c m dd"
  have ad: "take (length bs) (drop k (buf_addrs d)) = map (\<lambda>i. ?a + int i) [0..<length bs]"
    using assms(4) by (intro nth_equalityI) (simp_all add: buf_addrs_def)
  have "ram_range w ?c ?a (length bs)"
    using ram_range_sub [OF assms(2,4)] stable_with_mem(3) [OF assms(5,6)] by blast
  then obtain dd' where "write_blob_physical w bs ?a ?c =
      (Some (), ?c\<lparr>wasm_memory := fold (write_byte_at w ?c ?a bs) [0..<length bs] (wasm_memory ?c),
        jit_dirtied := jit_dirtied ?c @ dd'\<rparr>)" "\<forall>i < length bs. dirty_covers dd' (x64_phys_resolve w ?c (?a + int i))"
    using write_blob_ram [of w ?c ?a bs] assms(1,4,5) False by (auto simp: on_bus_def)
  then show ?thesis
    unfolding store_bytes_write stable_with_mem(4) [OF assms(5)] stable_with_mem(1) [OF assms(5)] ad
    by (intro exI [of _ dd']) auto
qed

lemma set_loop_stream:
  assumes "ram_buffers w c (write_buffers b)" "position_ok (write_buffers b) (write_buffer_idx b) (write_buffer_offset b)"
    "off + rem = length src" "decode_stable w" "length m = length (wasm_memory c)"
    "S = stream_addrs (write_buffers b) (write_buffer_idx b) (write_buffer_offset b)"
  shows "\<exists>b' dd'. set_loop w src off rem b (with_mem c m dd) =
      (Some (off + min rem (length S)), b', with_mem c (store_bytes w c (zip (take rem S) (drop off src)) m) (dd @ dd')) \<and>
    write_buffers b' = write_buffers b \<and> length_written b' = length_written b \<and>
    position_ok (write_buffers b') (write_buffer_idx b') (write_buffer_offset b') \<and>
    stream_addrs (write_buffers b') (write_buffer_idx b') (write_buffer_offset b') = drop rem S \<and>
    (\<forall>a \<in> set (take rem S). dirty_covers dd' (x64_phys_resolve w c a))"
  using assms
proof (induction "length (write_buffers b) - write_buffer_idx b" arbitrary: b off rem S m dd rule: less_induct)
  case less
  let ?bufs = "write_buffers b" and ?i = "write_buffer_idx b" and ?k = "write_buffer_offset b"
  show ?case
  proof (cases "rem = 0 \<or> length ?bufs \<le> ?i")
    case True
    then show ?thesis
      using less.prems stream_addrs_end [of ?bufs ?i ?k]
      by (intro exI [of _ b] exI [of _ "[]"]) (auto simp: set_loop.simps store_bytes_def)
  next
    case False
    define d where "d = ?bufs ! ?i"
    have i: "?i < length ?bufs" and rem: "0 < rem" using False by auto
    have d: "on_bus d" "ram_range w c (d_address d) (d_len d)" "?k = 0 \<or> ?k < d_len d"
      using less.prems(1,2) i by (simp_all add: d_def ram_buffers_def position_ok_def)
    have S: "S = drop ?k (buf_addrs d) @ stream_addrs ?bufs (Suc ?i) 0"
      using stream_addrs_buf [OF i less.prems(2)] less.prems(6) by (simp add: d_def)
    have len: "length (drop ?k (buf_addrs d)) = d_len d - ?k" by (simp add: buf_addrs_def)
    define n where "n = min rem (d_len d - ?k)"
    define bs where "bs = subarray src off (off + n)"
    have nb: "length bs = n" "n \<le> rem" using less.prems(3) by (auto simp: bs_def subarray_def n_def)
    have bsn: "bs = take n (drop off src)" by (simp add: bs_def subarray_def drop_take)
    have "?k + n \<le> d_len d" using d(3) by (auto simp: n_def)
    then obtain dd1 where wr: "write_blob_physical w bs (d_address d + int ?k) (with_mem c m dd) =
        (Some (), with_mem c (store_bytes w c (zip (take n S) bs) m) (dd @ dd1))"
      and cov: "\<forall>a \<in> set (take n S). dirty_covers dd1 (x64_phys_resolve w c a)"
      using write_part [OF d(1,2,3) _ less.prems(4,5), of bs dd] nb len by (auto simp: S n_def)
    have zip1: "zip (take n S) bs = zip (take n S) (drop off src)"
      using take_zip [of n S "drop off src"] zip_take_left [of n S "drop off src"] by (simp only: bsn)
    define m1 where "m1 = store_bytes w c (zip (take n S) (drop off src)) m"
    show ?thesis
    proof (cases "rem < d_len d - ?k")
      case True
      define b1 where "b1 = b\<lparr>write_buffer_offset := ?k + rem\<rparr>"
      have nr: "n = rem" using True by (simp add: n_def)
      have "set_loop w src off rem b (with_mem c m dd) = (Some (off + rem), b1, with_mem c m1 (dd @ dd1))"
        using False True wr by (subst set_loop.simps) (simp add: Let_def d_def [symmetric] b1_def set_loop.simps bs_def nr m1_def zip1 [unfolded bs_def nr, symmetric])
      moreover have "position_ok ?bufs ?i (?k + rem)" using True i by (auto simp: position_ok_def d_def)
      moreover have "stream_addrs ?bufs ?i (?k + rem) = drop rem S"
        using less.prems(6) by (simp add: stream_addrs_def add.commute)
      moreover have "min rem (length S) = rem" using True len by (simp add: S)
      ultimately show ?thesis
        using cov nr by (intro exI [of _ b1] exI [of _ dd1]) (simp add: b1_def m1_def)
    next
      case nle: False
      define b1 where "b1 = b\<lparr>write_buffer_idx := ?i + 1, write_buffer_offset := 0\<rparr>"
      have na: "n = d_len d - ?k" using nle by (simp add: n_def)
      define S1 where "S1 = stream_addrs ?bufs (Suc ?i) 0"
      have SS: "take n S = drop ?k (buf_addrs d)" "drop n S = S1" "length S = n + length S1" using len by (simp_all add: S S1_def na)
      have step: "set_loop w src off rem b (with_mem c m dd) = set_loop w src (off + n) (rem - n) b1 (with_mem c m1 (dd @ dd1))"
        using False nle wr by (subst set_loop.simps) (simp add: Let_def d_def [symmetric] b1_def bs_def na m1_def zip1 [unfolded bs_def na, symmetric])
      have "\<exists>b' dd'. set_loop w src (off + n) (rem - n) b1 (with_mem c m1 (dd @ dd1)) =
          (Some (off + n + min (rem - n) (length S1)), b',
           with_mem c (store_bytes w c (zip (take (rem - n) S1) (drop (off + n) src)) m1) ((dd @ dd1) @ dd')) \<and>
        write_buffers b' = write_buffers b1 \<and> length_written b' = length_written b1 \<and>
        position_ok (write_buffers b') (write_buffer_idx b') (write_buffer_offset b') \<and>
        stream_addrs (write_buffers b') (write_buffer_idx b') (write_buffer_offset b') = drop (rem - n) S1 \<and>
        (\<forall>a \<in> set (take (rem - n) S1). dirty_covers dd' (x64_phys_resolve w c a))"
        by (rule less.hyps) (use less.prems i nb in \<open>auto simp: b1_def position_ok_def S1_def m1_def\<close>)
      then obtain b' dd' where r: "set_loop w src (off + n) (rem - n) b1 (with_mem c m1 (dd @ dd1)) =
          (Some (off + n + min (rem - n) (length S1)), b',
           with_mem c (store_bytes w c (zip (take (rem - n) S1) (drop (off + n) src)) m1) ((dd @ dd1) @ dd'))"
        "write_buffers b' = write_buffers b1" "length_written b' = length_written b1"
        "position_ok (write_buffers b') (write_buffer_idx b') (write_buffer_offset b')"
        "stream_addrs (write_buffers b') (write_buffer_idx b') (write_buffer_offset b') = drop (rem - n) S1"
        "\<forall>a \<in> set (take (rem - n) S1). dirty_covers dd' (x64_phys_resolve w c a)" by blast
      have tk: "take rem S = take n S @ take (rem - n) S1" using nb(2) SS by (metis append_take_drop_id le_add_diff_inverse take_add)
      have "zip (take rem S) (drop off src) = zip (take n S) (drop off src) @ zip (take (rem - n) S1) (drop (off + n) src)"
      proof -
        define Z where "Z = zip S (drop off src)"
        have "take rem Z = take n Z @ take (rem - n) (drop n Z)" using nb(2) take_add [of n "rem - n" Z] by simp
        then show ?thesis by (simp add: Z_def zip_take_left SS(2) [symmetric] drop_zip add.commute)
      qed
      then have "store_bytes w c (zip (take (rem - n) S1) (drop (off + n) src)) m1 = store_bytes w c (zip (take rem S) (drop off src)) m"
        by (simp add: m1_def store_bytes_append)
      moreover have "off + n + min (rem - n) (length S1) = off + min rem (length S)" using nb(2) SS(3) by simp
      moreover have "drop (rem - n) S1 = drop rem S" using nb(2) SS(2) by (metis drop_drop le_add_diff_inverse2)
      moreover have "\<forall>a \<in> set (take rem S). dirty_covers (dd1 @ dd') (x64_phys_resolve w c a)"
        using cov r(6) unfolding tk by (fastforce simp: dirty_covers_def)
      ultimately show ?thesis
        unfolding step using r by (intro exI [of _ b'] exI [of _ "dd1 @ dd'"]) (simp add: b1_def)
    qed
  qed
qed

text \<open>
  Claim C16. Writing a chain: for writable buffers in guest memory, \<open>set_next_blob\<close> treats them
  as one stream. A call stores the bytes of the source at the next addresses of the stream, as many
  as both have, returns and adds up their number, moves the position so that the next call
  continues where this one stopped, and reports every stored byte to the code cache; a chain taken
  before the function left the bus stores nothing.
\<close>

theorem virtio_write_stream:
  assumes "ram_buffers w c (write_buffers b)" "position_ok (write_buffers b) (write_buffer_idx b) (write_buffer_offset b)"
    "decode_stable w"
  shows "if bc_plug_generation b \<noteq> plug_generation v then set_next_blob w src b v c = (Some 0, b, c)
    else let S = stream_addrs (write_buffers b) (write_buffer_idx b) (write_buffer_offset b); n = min (length src) (length S)
      in \<exists>b' dd. set_next_blob w src b v c =
           (Some n, b', c\<lparr>wasm_memory := store_bytes w c (zip S src) (wasm_memory c), jit_dirtied := jit_dirtied c @ dd\<rparr>) \<and>
         length_written b' = length_written b + n \<and>
         stream_addrs (write_buffers b') (write_buffer_idx b') (write_buffer_offset b') = drop (length src) S \<and>
         (\<forall>a \<in> set (take n S). dirty_covers dd (x64_phys_resolve w c a))"
proof (cases "bc_plug_generation b = plug_generation v")
  case True
  let ?S = "stream_addrs (write_buffers b) (write_buffer_idx b) (write_buffer_offset b)"
  have same: "c = with_mem c (wasm_memory c) (jit_dirtied c)" by simp
  have z: "zip (take (length src) ?S) src = zip ?S src" by (simp add: zip_take_left)
  obtain b' dd where r: "set_loop w src 0 (length src) b c =
      (Some (min (length src) (length ?S)), b', with_mem c (store_bytes w c (zip ?S src) (wasm_memory c)) (jit_dirtied c @ dd))"
    "length_written b' = length_written b"
    "stream_addrs (write_buffers b') (write_buffer_idx b') (write_buffer_offset b') = drop (length src) ?S"
    "\<forall>a \<in> set (take (length src) ?S). dirty_covers dd (x64_phys_resolve w c a)"
    using set_loop_stream [OF assms(1,2) _ assms(3) refl refl, of 0 "length src" src "jit_dirtied c"] z by auto
  have "take (min (length src) (length ?S)) ?S = take (length src) ?S" by (simp add: min_def)
  with True r show ?thesis by (simp add: set_next_blob_def Let_def) blast
qed (simp add: set_next_blob_def)

theorem virtio_write_stream_witness:
  "let b = (empty_chain 0 0)\<lparr>write_buffers := [\<lparr>d_address = 0, d_len = 2, d_flags = 3, d_next = 1\<rparr>,
             \<lparr>d_address = 3, d_len = 1, d_flags = 2, d_next = 0\<rparr>]\<rparr>;
       v = \<lparr>device_status = 0, driver_feature = [0, 0], isr_status = 0, config_has_changed = False, qemu_compatible = False,
            plug_generation = 0, absent = False, intx = False\<rparr>
   in \<exists>b' dd. set_next_blob flat_exports [1, 2, 3, 4] b v (flat_cpu [5, 6, 7, 8]) =
        (Some 3, b', (flat_cpu [1, 2, 7, 3])\<lparr>jit_dirtied := dd\<rparr>) \<and> length_written b' = 3"
proof -
  define b where "b = (empty_chain 0 0)\<lparr>write_buffers := [\<lparr>d_address = 0, d_len = 2, d_flags = 3, d_next = 1\<rparr>,
      \<lparr>d_address = 3, d_len = 1, d_flags = 2, d_next = 0\<rparr>]\<rparr>"
  define v where "v = \<lparr>device_status = 0, driver_feature = [0, 0], isr_status = 0, config_has_changed = False,
      qemu_compatible = False, plug_generation = 0, absent = False, intx = False\<rparr>"
  define c where "c = flat_cpu [5, 6, 7, 8]"
  have r: "ram_buffers flat_exports c (write_buffers b)"
    using flat_ram_range [of 0 2 "[5, 6, 7, 8]"] flat_ram_range [of 3 1 "[5, 6, 7, 8]"]
    by (simp add: ram_buffers_def b_def on_bus_def c_def)
  have p: "position_ok (write_buffers b) (write_buffer_idx b) (write_buffer_offset b)"
    by (simp add: b_def empty_chain_def position_ok_def)
  have s: "stream_addrs (write_buffers b) (write_buffer_idx b) (write_buffer_offset b) = [0, 1, 3]"
    by (simp add: b_def empty_chain_def stream_addrs_def buf_addrs_def upt_rec)
  have g: "bc_plug_generation b = plug_generation v" "length_written b = 0" by (simp_all add: b_def v_def empty_chain_def)
  have m: "store_bytes flat_exports c [(0, 1), (1, 2), (3, 3)] (wasm_memory c) = [1, 2, 7, 3]"
    by (simp add: store_bytes_def flat_exports_def c_def flat_cpu_def numeral_eq_Suc)
  have "with_mem c [1, 2, 7, 3] dd = (flat_cpu [1, 2, 7, 3])\<lparr>jit_dirtied := dd\<rparr>" for dd by (simp add: c_def flat_cpu_def)
  then show ?thesis
    using virtio_write_stream [OF r p flat_stable, of v "[1, 2, 3, 4]"] m
    unfolding b_def [symmetric] v_def [symmetric] c_def [symmetric] by (auto simp: Let_def s g)
qed

section \<open>Counting requests\<close>

lemma and_FFFF: "(x :: int) AND 0xFFFF = x mod 65536"
proof -
  have "(0xFFFF :: int) = mask 16" by (simp add: mask_eq_exp_minus_1)
  then show ?thesis by (simp only: take_bit_eq_mask [symmetric] take_bit_eq_mod) simp
qed

text \<open>
  The number of requests: with 16-bit indices the count is between 0 and 65535 and is the
  distance from the last index to the driver's, modulo 65536; taking a request while the driver's
  index stays the same lowers it by one, also when the last index wraps.
\<close>

theorem virtio_pop_counts_down:
  assumes "\<not> fix_wrapping q" "0 \<le> avail_last_idx q" "avail_last_idx q < 65536"
    "avail_get_idx w q c = (Some idx, c)" "count_requests w q c = (Some n, q, c)" "n \<noteq> 0"
    "pop_request w q v c = (Some b, q', v', c')" "avail_get_idx w q' c' = (Some idx, c')"
  shows "0 < n \<and> n < 65536 \<and> (avail_last_idx q + n - idx) mod 65536 = 0 \<and>
    count_requests w q' c' = (Some (n - 1), q', c') \<and> 0 \<le> avail_last_idx q' \<and> avail_last_idx q' < 65536"
proof -
  have n: "n = (idx - avail_last_idx q) mod 65536"
    using assms(1,4,5) by (simp add: count_requests_def and_FFFF)
  have q': "q' = q\<lparr>avail_last_idx := (avail_last_idx q + 1) mod 65536\<rparr>"
    using assms(7) by (auto simp: pop_request_def and_FFFF split: prod.splits option.splits)
  have "count_requests w q' c' = (Some ((idx - (avail_last_idx q + 1) mod 65536) mod 65536), q', c')"
    using assms(1,8) by (simp add: count_requests_def and_FFFF q')
  also have "(idx - (avail_last_idx q + 1) mod 65536) mod 65536 = ((idx - avail_last_idx q) - 1) mod 65536"
    by (simp add: mod_diff_right_eq diff_diff_eq)
  also have "\<dots> = (n - 1) mod 65536" by (simp add: n mod_diff_left_eq)
  finally have c: "count_requests w q' c' = (Some ((n - 1) mod 65536), q', c')" .
  have "0 \<le> n" "n < 65536" by (simp_all add: n)
  with assms(6) have "(n - 1) mod 65536 = n - 1" by simp
  moreover have "(avail_last_idx q + n - idx) mod 65536 = 0"
  proof -
    have "(avail_last_idx q + n - idx) mod 65536 = (avail_last_idx q - idx + n) mod 65536" by (simp add: algebra_simps)
    also have "\<dots> = (avail_last_idx q - idx + (idx - avail_last_idx q)) mod 65536" unfolding n by (rule mod_add_right_eq)
    finally show ?thesis by simp
  qed
  ultimately show ?thesis using c assms(6) \<open>0 \<le> n\<close> \<open>n < 65536\<close> by (simp add: q')
qed

text \<open>A driver that made one request available, with a single empty descriptor.\<close>

definition one_request_exports :: "unit wasm_exports" where
  "one_request_exports = flat_exports\<lparr>x64_phys_read := (\<lambda>n a c. (if a = 18 then 1 else 0, c))\<rparr>"

lemma one_request_validate:
  assumes "0 \<le> a" "0 < n" "a + int n \<le> 64"
  shows "validate_physical_range one_request_exports a (int n) (flat_cpu (replicate 64 0))"
  using assms by (intro validate_ram) (simp_all add: ram_range_def one_request_exports_def flat_exports_def flat_cpu_def)

theorem virtio_pop_counts_down_witness:
  "let w = one_request_exports; c = flat_cpu (replicate 64 0); q = (VirtQueue_new 2 0)\<lparr>avail_addr := 16, desc_addr := 32\<rparr>;
       v = \<lparr>device_status = 0, driver_feature = [0, 0], isr_status = 0, config_has_changed = False, qemu_compatible = False,
            plug_generation = 0, absent = False, intx = False\<rparr>
   in \<exists>b q' v' c'. pop_request w q v c = (Some b, q', v', c') \<and> count_requests w q' c' = (Some 0, q', c')"
proof -
  define c where "c = flat_cpu (replicate 64 0)"
  define w where "w = one_request_exports"
  define q where "q = (VirtQueue_new 2 0)\<lparr>avail_addr := 16, desc_addr := 32\<rparr>"
  define v where "v = \<lparr>device_status = 0, driver_feature = [0, 0], isr_status = 0, config_has_changed = False,
      qemu_compatible = False, plug_generation = 0, absent = False, intx = False\<rparr>"
  have v16: "validate_physical_range w a 2 c" "validate_physical_range w a 4 c" if "0 \<le> a" "a \<le> 60" for a
    using one_request_validate [of a 2] one_request_validate [of a 4] that by (simp_all add: w_def c_def)
  have rd: "read_physical_scalar w a 16 c = (Some (if a = 18 then 1 else 0), c)"
    "read_physical_scalar w a 32 c = (Some (if a = 18 then 1 else 0), c)" if "0 \<le> a" "a \<le> 60" for a
    using v16 [OF that] by (simp_all add: read_physical_scalar_def) (simp_all add: w_def one_request_exports_def)
  have z: "validate_physical_range w 0 0 c"
    by (simp add: validate_physical_range_def is_safe_integer_def validate_pages.simps)
  have q: "\<not> fix_wrapping q" "avail_last_idx q = 0" "avail_addr q = 16" "desc_addr q = 32" "q_size q = 2" "q_mask q = 1"
    by (simp_all add: q_def VirtQueue_new_def vq_reset_def set_size_def)
  have i: "avail_get_idx w q c = (Some 1, c)" by (simp add: avail_get_idx_def q rd)
  have n: "count_requests w q c = (Some 1, q, c)" by (simp add: count_requests_def q i)
  have gd: "get_descriptor w 32 0 c = (Some \<lparr>d_address = 0, d_len = 0, d_flags = 0, d_next = 0\<rparr>, c)"
    by (simp add: get_descriptor_def obind_def rd)
  obtain b q' v' where pop: "pop_request w q v c = (Some b, q', v', c)" "avail_addr q' = 16"
    using gd z
    by (auto simp: pop_request_def avail_get_entry_def q rd VirtQueueBufferChain_def collect_buffers_def
        collect_loop.simps [of w _ 32] empty_chain_def flag_set_def)
  have "avail_get_idx w q' c = (Some 1, c)" using pop(2) by (simp add: avail_get_idx_def rd)
  then show ?thesis
    using virtio_pop_counts_down [OF q(1) _ _ i n _ pop(1)] pop(1) q(2)
    unfolding w_def [symmetric] c_def [symmetric] q_def [symmetric] v_def [symmetric] Let_def by auto
qed

end
