(* ===== verification/Bus.thy ===== *)
theory Bus
  imports V86_Prelude
begin

text \<open>
  The message bus of \<open>src/bus.js\<close>. A connector keeps, for every message name, a reference to an
  array of listeners; \<open>register\<close> appends to that array in place, \<open>unregister\<close> installs a
  filtered copy, and \<open>send\<close> walks the array of the paired connector while the listeners run, which
  may register and unregister themselves. The arrays are therefore cells of a store, and a
  listener is an arbitrary operation on the whole state.
\<close>

section \<open>State\<close>

record ('f, 't) listener =
  fn :: 'f
  this_value :: 't

record connector =
  listeners :: "string \<rightharpoonup> nat"
  pair :: "nat option"

text \<open>
  \<open>arrays\<close> is the store of listener arrays, \<open>conns\<close> the connector objects,
  \<open>timers\<close> the pending calls of \<open>setTimeout(..., 0)\<close> (connector, name, value) and
  \<open>world\<close> everything the listeners act on.
\<close>

record ('f, 't, 'v, 'w) bus =
  arrays :: "('f, 't) listener list list"
  conns :: "connector list"
  timers :: "(nat \<times> string \<times> 'v) list"
  world :: 'w

text \<open>Calling a listener with its \<open>this_value\<close> and the value sent; None if it does not return.\<close>

type_synonym ('f, 't, 'v, 'w) call = "'f \<Rightarrow> 't \<Rightarrow> 'v \<Rightarrow> ('f, 't, 'v, 'w) bus \<Rightarrow> ('f, 't, 'v, 'w) bus option"

section \<open>Operations\<close>

definition BusConnector :: connector where
  "BusConnector = \<lparr>listeners = Map.empty, pair = None\<rparr>"

definition Bus_create :: "('f, 't, 'v, 'w) bus \<Rightarrow> (nat \<times> nat) \<times> ('f, 't, 'v, 'w) bus" where
  "Bus_create s =
     (let c0 = length (conns s); c1 = c0 + 1
      in ((c0, c1), s\<lparr>conns := conns s @ [BusConnector\<lparr>pair := Some c1\<rparr>, BusConnector\<lparr>pair := Some c0\<rparr>]\<rparr>))"

definition set_listeners :: "nat \<Rightarrow> string \<Rightarrow> nat \<Rightarrow> ('f, 't, 'v, 'w) bus \<Rightarrow> ('f, 't, 'v, 'w) bus" where
  "set_listeners c name a s =
     s\<lparr>conns := (conns s)[c := (conns s ! c)\<lparr>listeners := (listeners (conns s ! c))(name \<mapsto> a)\<rparr>]\<rparr>"

definition register :: "nat \<Rightarrow> string \<Rightarrow> 'f \<Rightarrow> 't \<Rightarrow> ('f, 't, 'v, 'w) bus \<Rightarrow> ('f, 't, 'v, 'w) bus" where
  "register c name f t s =
     (let (a, s1) = (case listeners (conns s ! c) name of
                       Some a \<Rightarrow> (a, s)
                     | None \<Rightarrow> (length (arrays s), set_listeners c name (length (arrays s)) (s\<lparr>arrays := arrays s @ [[]]\<rparr>)))
      in s1\<lparr>arrays := (arrays s1)[a := arrays s1 ! a @ [\<lparr>fn = f, this_value = t\<rparr>]]\<rparr>)"

definition unregister :: "nat \<Rightarrow> string \<Rightarrow> 'f \<Rightarrow> ('f, 't, 'v, 'w) bus \<Rightarrow> ('f, 't, 'v, 'w) bus" where
  "unregister c name f s =
     (case listeners (conns s ! c) name of
        None \<Rightarrow> s
      | Some a \<Rightarrow> set_listeners c name (length (arrays s))
                   (s\<lparr>arrays := arrays s @ [filter (\<lambda>l. fn l \<noteq> f) (arrays s ! a)]\<rparr>))"

text \<open>The loop of \<open>send\<close>: the length of the array is read again in every round.\<close>

partial_function (option) send_loop ::
  "('f, 't, 'v, 'w) call \<Rightarrow> nat \<Rightarrow> 'v \<Rightarrow> nat \<Rightarrow> ('f, 't, 'v, 'w) bus \<Rightarrow> ('f, 't, 'v, 'w) bus option" where
  "send_loop call a v i s =
     (if i < length (arrays s ! a)
      then let l = arrays s ! a ! i
           in Option.bind (call (fn l) (this_value l) v s) (send_loop call a v (i + 1))
      else Some s)"

definition send ::
  "('f, 't, 'v, 'w) call \<Rightarrow> nat \<Rightarrow> string \<Rightarrow> 'v \<Rightarrow> ('f, 't, 'v, 'w) bus \<Rightarrow> ('f, 't, 'v, 'w) bus option" where
  "send call c name v s =
     (case pair (conns s ! c) of
        None \<Rightarrow> Some s
      | Some p \<Rightarrow> (case listeners (conns s ! p) name of
                     None \<Rightarrow> Some s
                   | Some a \<Rightarrow> send_loop call a v 0 s))"

definition send_async :: "nat \<Rightarrow> string \<Rightarrow> 'v \<Rightarrow> ('f, 't, 'v, 'w) bus \<Rightarrow> ('f, 't, 'v, 'w) bus" where
  "send_async c name v s = s\<lparr>timers := timers s @ [(c, name, v)]\<rparr>"

text \<open>The event loop takes the oldest pending timer.\<close>

definition run_timer :: "('f, 't, 'v, 'w) call \<Rightarrow> ('f, 't, 'v, 'w) bus \<Rightarrow> ('f, 't, 'v, 'w) bus option" where
  "run_timer call s =
     (case timers s of
        [] \<Rightarrow> Some s
      | (c, name, v) # ts \<Rightarrow> send call c name v (s\<lparr>timers := ts\<rparr>))"

section \<open>Well-formed buses\<close>

text \<open>What a connector has registered for a name.\<close>

definition listening :: "nat \<Rightarrow> string \<Rightarrow> ('f, 't, 'v, 'w) bus \<Rightarrow> ('f, 't) listener list" where
  "listening c name s = (case listeners (conns s ! c) name of None \<Rightarrow> [] | Some a \<Rightarrow> arrays s ! a)"

text \<open>References are to existing arrays, and no two connectors or names share one.\<close>

definition bus_wf :: "('f, 't, 'v, 'w) bus \<Rightarrow> bool" where
  "bus_wf s \<longleftrightarrow>
     (\<forall>c n a. c < length (conns s) \<longrightarrow> listeners (conns s ! c) n = Some a \<longrightarrow> a < length (arrays s)) \<and>
     (\<forall>c n c' n' a. c < length (conns s) \<longrightarrow> c' < length (conns s) \<longrightarrow>
        listeners (conns s ! c) n = Some a \<longrightarrow> listeners (conns s ! c') n' = Some a \<longrightarrow> c = c' \<and> n = n')"

lemma bus_wf_bound:
  "bus_wf s \<Longrightarrow> c < length (conns s) \<Longrightarrow> listeners (conns s ! c) n = Some a \<Longrightarrow> a < length (arrays s)"
  unfolding bus_wf_def by blast

lemma bus_wf_inj:
  "bus_wf s \<Longrightarrow> c < length (conns s) \<Longrightarrow> c' < length (conns s) \<Longrightarrow> listeners (conns s ! c) n = Some a \<Longrightarrow>
   listeners (conns s ! c') n' = Some a \<Longrightarrow> c = c' \<and> n = n'"
  unfolding bus_wf_def by blast

lemma bus_wfI:
  assumes "\<And>c n a. c < length (conns s) \<Longrightarrow> listeners (conns s ! c) n = Some a \<Longrightarrow> a < length (arrays s)"
    and "\<And>c n c' n' a. c < length (conns s) \<Longrightarrow> c' < length (conns s) \<Longrightarrow> listeners (conns s ! c) n = Some a \<Longrightarrow>
      listeners (conns s ! c') n' = Some a \<Longrightarrow> c = c' \<and> n = n'"
  shows "bus_wf s"
  unfolding bus_wf_def using assms by blast

lemma set_listeners_simps [simp]:
  "arrays (set_listeners c n a s) = arrays s"
  "length (conns (set_listeners c n a s)) = length (conns s)"
  "world (set_listeners c n a s) = world s"
  "timers (set_listeners c n a s) = timers s"
  by (simp_all add: set_listeners_def)

lemma conn_set_listeners:
  "c < length (conns s) \<Longrightarrow>
   listeners (conns (set_listeners c n a s) ! c') n' =
     (if c' = c \<and> n' = n then Some a else listeners (conns s ! c') n')"
  "pair (conns (set_listeners c n a s) ! c') = pair (conns s ! c')"
  by (simp_all add: set_listeners_def nth_list_update)
     (cases "c < length (conns s)"; cases "c = c'"; simp add: nth_list_update list_update_beyond)

text \<open>Installing a fresh array keeps a bus well-formed.\<close>

lemma bus_wf_fresh:
  assumes "bus_wf s" "c < length (conns s)"
  shows "bus_wf (set_listeners c n (length (arrays s)) (s\<lparr>arrays := arrays s @ [ls]\<rparr>))" (is "bus_wf ?t")
proof (rule bus_wfI)
  fix d m a assume "d < length (conns ?t)" "listeners (conns ?t ! d) m = Some a"
  then show "a < length (arrays ?t)"
    using assms bus_wf_bound [OF assms(1), of d m a] by (auto simp: conn_set_listeners split: if_splits)
next
  fix d m d' m' a
  assume "d < length (conns ?t)" "d' < length (conns ?t)" "listeners (conns ?t ! d) m = Some a" "listeners (conns ?t ! d') m' = Some a"
  then show "d = d' \<and> m = m'"
    using assms bus_wf_bound [OF assms(1)] bus_wf_inj [OF assms(1)]
    by (auto simp: conn_set_listeners split: if_splits)
qed

lemma listening_fresh:
  assumes "bus_wf s" "c < length (conns s)" "d < length (conns s)"
  shows "listening d m (set_listeners c n (length (arrays s)) (s\<lparr>arrays := arrays s @ [ls]\<rparr>)) =
    (if d = c \<and> m = n then ls else listening d m s)"
  using assms bus_wf_bound [OF assms(1,3), of m]
  by (auto simp: listening_def conn_set_listeners nth_append split: option.splits)

lemma bus_wf_arrays: "bus_wf s \<Longrightarrow> length as = length (arrays s) \<Longrightarrow> bus_wf (s\<lparr>arrays := as\<rparr>)"
  unfolding bus_wf_def by simp

lemma bus_wf_world: "bus_wf (s\<lparr>world := w\<rparr>) = bus_wf s"
  by (simp add: bus_wf_def)

lemma listening_world [simp]: "listening c n (s\<lparr>world := w\<rparr>) = listening c n s"
  by (simp add: listening_def split: option.split)

lemma length_conns [simp]:
  "length (conns (register c n f t s)) = length (conns s)"
  "length (conns (unregister c n f s)) = length (conns s)"
  by (simp_all add: register_def unregister_def Let_def split: option.splits)

lemma pair_kept [simp]:
  "pair (conns (register c n f t s) ! d) = pair (conns s ! d)"
  "pair (conns (unregister c n f s) ! d) = pair (conns s ! d)"
  by (simp_all add: register_def unregister_def Let_def conn_set_listeners split: option.splits)

lemma world_kept [simp]:
  "world (register c n f t s) = world s"
  "world (unregister c n f s) = world s"
  by (simp_all add: register_def unregister_def Let_def split: option.splits)

text \<open>Appending to the array of one connector and name changes the registrations of these alone.\<close>

lemma listening_append:
  assumes "bus_wf s" "c < length (conns s)" "d < length (conns s)" "listeners (conns s ! c) n = Some a"
  shows "listening d m (s\<lparr>arrays := (arrays s)[a := arrays s ! a @ [l]]\<rparr>) =
    (if d = c \<and> m = n then listening c n s @ [l] else listening d m s)"
proof (cases "d = c \<and> m = n")
  case True
  then show ?thesis using assms bus_wf_bound [OF assms(1,2,4)] by (simp add: listening_def)
next
  case False
  then have "listeners (conns s ! d) m \<noteq> Some a" using bus_wf_inj [OF assms(1,3,2) _ assms(4)] by blast
  then show ?thesis using False by (auto simp: listening_def nth_list_update split: option.splits)
qed

lemma register_wf: "bus_wf s \<Longrightarrow> c < length (conns s) \<Longrightarrow> bus_wf (register c n f t s)"
  by (auto simp: register_def bus_wf_fresh bus_wf_arrays split: option.splits)

lemma unregister_wf: "bus_wf s \<Longrightarrow> c < length (conns s) \<Longrightarrow> bus_wf (unregister c n f s)"
  by (auto simp: unregister_def bus_wf_fresh split: option.splits)

lemma listening_register:
  assumes "bus_wf s" "c < length (conns s)" "d < length (conns s)"
  shows "listening d m (register c n f t s) =
    listening d m s @ (if d = c \<and> m = n then [\<lparr>fn = f, this_value = t\<rparr>] else [])"
proof (cases "listeners (conns s ! c) n")
  case None
  let ?u = "set_listeners c n (length (arrays s)) (s\<lparr>arrays := arrays s @ [[]]\<rparr>)"
  have u: "bus_wf ?u" "listeners (conns ?u ! c) n = Some (length (arrays s))"
    using assms by (simp_all add: bus_wf_fresh conn_set_listeners)
  have e: "register c n f t s = ?u\<lparr>arrays := (arrays ?u)[length (arrays s) := arrays ?u ! length (arrays s) @ [\<lparr>fn = f, this_value = t\<rparr>]]\<rparr>"
    using None by (simp add: register_def)
  have "listening c n s = []" using None by (simp add: listening_def)
  then show ?thesis
    unfolding e using listening_append [OF u(1) _ _ u(2), of d m "\<lparr>fn = f, this_value = t\<rparr>"] assms
    by (simp add: listening_fresh del: set_listeners_simps(1))
next
  case (Some a)
  then show ?thesis using listening_append [OF assms Some] by (simp add: register_def)
qed

lemma listening_unregister:
  assumes "bus_wf s" "c < length (conns s)" "d < length (conns s)"
  shows "listening d m (unregister c n f s) =
    (if d = c \<and> m = n then filter (\<lambda>l. fn l \<noteq> f) (listening d m s) else listening d m s)"
proof (cases "listeners (conns s ! c) n")
  case (Some a)
  then have "listening c n s = arrays s ! a" by (simp add: listening_def)
  then show ?thesis using Some listening_fresh [OF assms] by (simp add: unregister_def)
qed (auto simp: unregister_def listening_def)

lemma Bus_create_wf:
  assumes "bus_wf s" "Bus_create s = ((c0, c1), t)"
  shows "bus_wf t" "c0 < length (conns t)" "c1 < length (conns t)"
    "pair (conns t ! c0) = Some c1" "pair (conns t ! c1) = Some c0" "listening c0 n t = []" "listening c1 n t = []"
    "world t = world s"
proof -
  have e: "c0 = length (conns s)" "c1 = length (conns s) + 1"
    "t = s\<lparr>conns := conns s @ [BusConnector\<lparr>pair := Some c1\<rparr>, BusConnector\<lparr>pair := Some c0\<rparr>]\<rparr>"
    using assms(2) by (auto simp: Bus_create_def Let_def)
  have n: "listeners (conns t ! c) n = (if c < length (conns s) then listeners (conns s ! c) n else None)"
    if c: "c < length (conns t)" for c n
  proof -
    consider "c < length (conns s)" | "c = c0" | "c = c1" using c e by fastforce
    then show ?thesis by cases (auto simp: e nth_append BusConnector_def)
  qed
  show "bus_wf t"
    using bus_wf_bound [OF assms(1)] bus_wf_inj [OF assms(1)] e(3) n by (intro bus_wfI) (auto split: if_splits)
  show "c0 < length (conns t)" "c1 < length (conns t)" "pair (conns t ! c0) = Some c1" "pair (conns t ! c1) = Some c0"
    "world t = world s"
    by (simp_all add: e nth_append)
  show "listening c0 n t = []" "listening c1 n t = []"
    by (simp_all add: listening_def e nth_append BusConnector_def)
qed

section \<open>Sequences of registrations\<close>

datatype ('f, 't) bus_op = Register nat string 'f 't | Unregister nat string 'f

fun bus_step :: "('f, 't) bus_op \<Rightarrow> ('f, 't, 'v, 'w) bus \<Rightarrow> ('f, 't, 'v, 'w) bus" where
  "bus_step (Register c n f t) s = register c n f t s"
| "bus_step (Unregister c n f) s = unregister c n f s"

fun op_conn :: "('f, 't) bus_op \<Rightarrow> nat" where
  "op_conn (Register c n f t) = c"
| "op_conn (Unregister c n f) = c"

fun is_unregister :: "('f, 't) bus_op \<Rightarrow> bool" where
  "is_unregister (Register c n f t) = False"
| "is_unregister (Unregister c n f) = True"

text \<open>The specification: a list of listeners per connector and name, without a store.\<close>

fun registered :: "nat \<Rightarrow> string \<Rightarrow> ('f, 't) bus_op list \<Rightarrow> ('f, 't) listener list \<Rightarrow> ('f, 't) listener list" where
  "registered c n [] ls = ls"
| "registered c n (Register d m f t # es) ls =
     registered c n es (ls @ (if c = d \<and> n = m then [\<lparr>fn = f, this_value = t\<rparr>] else []))"
| "registered c n (Unregister d m f # es) ls =
     registered c n es (if c = d \<and> n = m then filter (\<lambda>l. fn l \<noteq> f) ls else ls)"

lemma bus_step_frame [simp]:
  "length (conns (bus_step e s)) = length (conns s)"
  "pair (conns (bus_step e s) ! d) = pair (conns s ! d)"
  "world (bus_step e s) = world s"
  by (cases e; simp)+

lemma bus_step_wf: "bus_wf s \<Longrightarrow> op_conn e < length (conns s) \<Longrightarrow> bus_wf (bus_step e s)"
  by (cases e) (simp_all add: register_wf unregister_wf)

lemma fold_bus_step:
  assumes "bus_wf s" "\<forall>e \<in> set es. op_conn e < length (conns s)"
  shows "bus_wf (fold bus_step es s)" "length (conns (fold bus_step es s)) = length (conns s)"
    "pair (conns (fold bus_step es s) ! d) = pair (conns s ! d)" "world (fold bus_step es s) = world s"
    "d < length (conns s) \<Longrightarrow> listening d n (fold bus_step es s) = registered d n es (listening d n s)"
  using assms
proof (induction es arbitrary: s)
  case (Cons e es)
  {
    case 1 then show ?case by (simp add: Cons.IH(1) bus_step_wf)
  next
    case 2 then show ?case by (simp add: Cons.IH(2) bus_step_wf)
  next
    case 3 then show ?case by (simp add: Cons.IH(3) bus_step_wf)
  next
    case 4 then show ?case by (simp add: Cons.IH(4) bus_step_wf)
  next
    case 5
    then have "listening d n (fold bus_step es (bus_step e s)) = registered d n es (listening d n (bus_step e s))"
      by (intro Cons.IH(5)) (simp_all add: bus_step_wf)
    then show ?case using 5 by (cases e) (simp_all add: listening_register listening_unregister)
  }
qed simp_all

text \<open>Unregistering leaves every array that exists as it is: it installs a copy.\<close>

lemma unregister_arrays:
  "a < length (arrays s) \<Longrightarrow> arrays (unregister c n f s) ! a = arrays s ! a"
  "length (arrays s) \<le> length (arrays (unregister c n f s))"
  by (auto simp: unregister_def nth_append split: option.splits)

lemma fold_unregister_arrays:
  "list_all is_unregister es \<Longrightarrow> a < length (arrays s) \<Longrightarrow>
   arrays (fold bus_step es s) ! a = arrays s ! a \<and> a < length (arrays (fold bus_step es s))"
proof (induction es arbitrary: s)
  case (Cons e es)
  then obtain c n f where "e = Unregister c n f" by (cases e) auto
  then show ?case
    using Cons unregister_arrays(1) [of a s c n f] unregister_arrays(2) [of s c n f] by (auto intro: less_le_trans)
qed simp

section \<open>Delivery\<close>

text \<open>
  A loop over an array that its listeners leave alone calls them in order, once each. \<open>P\<close> is what
  else the listeners keep.
\<close>

lemma send_loop_delivers:
  fixes call :: "('f, 't, 'v, 'w) call"
  assumes step: "\<And>(l :: ('f, 't) listener) s. P s \<Longrightarrow> \<exists>s'. call (fn l) (this_value l) v s = Some s' \<and> P s' \<and>
      arrays s' ! a = arrays s ! a \<and> world s' = act (fn l) (this_value l) v (world s)"
    and "P s"
  shows "\<exists>s'. send_loop call a v i s = Some s' \<and> P s' \<and>
    world s' = fold (\<lambda>l. act (fn l) (this_value l) v) (drop i (arrays s ! a)) (world s)"
  using assms(2)
proof (induction "length (arrays s ! a) - i" arbitrary: i s)
  case 0
  then show ?case by (subst send_loop.simps) simp
next
  case (Suc k)
  then have i: "i < length (arrays s ! a)" by simp
  let ?l = "arrays s ! a ! i"
  obtain s1 where s1: "call (fn ?l) (this_value ?l) v s = Some s1" "P s1" "arrays s1 ! a = arrays s ! a"
    "world s1 = act (fn ?l) (this_value ?l) v (world s)"
    using step [OF Suc.prems, of ?l] by blast
  have "k = length (arrays s1 ! a) - Suc i" using Suc.hyps(2) s1(3) by simp
  from Suc.hyps(1) [OF this s1(2)] obtain s2 where "send_loop call a v (Suc i) s1 = Some s2" "P s2"
    "world s2 = fold (\<lambda>l. act (fn l) (this_value l) v) (drop (Suc i) (arrays s1 ! a)) (world s1)" by blast
  then show ?case
    using i s1 by (subst send_loop.simps) (simp add: Let_def Cons_nth_drop_Suc [symmetric])
qed

text \<open>Listeners that act on the world and unregister listeners, of any connector and name.\<close>

definition unregistering_call ::
  "('f \<Rightarrow> 't \<Rightarrow> 'v \<Rightarrow> 'w \<Rightarrow> 'w) \<Rightarrow> ('f \<Rightarrow> ('f, 't) bus_op list) \<Rightarrow> ('f, 't, 'v, 'w) call" where
  "unregistering_call act script f t v s = Some (fold bus_step (script f) (s\<lparr>world := act f t v (world s)\<rparr>))"

lemma send_unregistering:
  assumes wf: "bus_wf s" and c: "pair (conns s ! c) = Some d" "d < length (conns s)"
    and script: "\<And>f. list_all is_unregister (script f)" "\<And>f e. e \<in> set (script f) \<Longrightarrow> op_conn e < length (conns s)"
  shows "\<exists>s'. send (unregistering_call act script) c n v s = Some s' \<and>
    world s' = fold (\<lambda>l. act (fn l) (this_value l) v) (listening d n s) (world s)"
proof (cases "listeners (conns s ! d) n")
  case None
  then show ?thesis using c by (simp add: send_def listening_def)
next
  case (Some a)
  define P where "P u \<longleftrightarrow> bus_wf u \<and> length (conns u) = length (conns s) \<and> a < length (arrays u)"
    for u :: "('a, 'b, 'c, 'd) bus"
  have step: "\<exists>u'. unregistering_call act script (fn l) (this_value l) v u = Some u' \<and> P u' \<and>
      arrays u' ! a = arrays u ! a \<and> world u' = act (fn l) (this_value l) v (world u)" if u: "P u" for l u
  proof -
    let ?u = "u\<lparr>world := act (fn l) (this_value l) v (world u)\<rparr>"
    have "bus_wf ?u" "\<forall>e \<in> set (script (fn l)). op_conn e < length (conns ?u)" "a < length (arrays ?u)"
      using u script(2) by (auto simp: P_def bus_wf_world)
    then show ?thesis
      using fold_bus_step(1,2,4) [of ?u "script (fn l)"] fold_unregister_arrays [OF script(1), of a ?u] u
      by (simp add: unregistering_call_def P_def)
  qed
  have "P s" using wf bus_wf_bound [OF wf c(2) Some] by (simp add: P_def)
  from send_loop_delivers [where P = P and a = a and i = 0 and v = v and act = act and call = "unregistering_call act script", OF step this] show ?thesis
    using Some c by (auto simp: send_def listening_def)
qed

text \<open>
  Claim C8. Messages reach the listeners of the other connector in the order of their registration:
  after \<open>Bus.create\<close> and any sequence of calls of \<open>register\<close> and \<open>unregister\<close> on
  the two connectors, \<open>send\<close> on the first returns, and has called exactly the listeners that
  the sequence left registered for that name on the second, each once and in order - also when the
  listeners unregister themselves or others while the message is delivered, which takes effect from the
  next message on.
\<close>

theorem bus_send_in_order:
  assumes "bus_wf s0" "Bus_create s0 = ((c0, c1), s1)"
    and "\<forall>e \<in> set es. op_conn e \<in> {c0, c1}"
    and "\<forall>f. list_all is_unregister (script f)" "\<forall>f. \<forall>e \<in> set (script f). op_conn e \<in> {c0, c1}"
  shows "\<exists>s'. send (unregistering_call act script) c0 n v (fold bus_step es s1) = Some s' \<and>
    world s' = fold (\<lambda>l. act (fn l) (this_value l) v) (registered c1 n es []) (world s0)"
proof -
  note create = Bus_create_wf [OF assms(1,2)]
  have es: "\<forall>e \<in> set es. op_conn e < length (conns s1)" using assms(3) create by auto
  note run = fold_bus_step [OF create(1) es]
  have "\<exists>s'. send (unregistering_call act script) c0 n v (fold bus_step es s1) = Some s' \<and>
    world s' = fold (\<lambda>l. act (fn l) (this_value l) v) (listening c1 n (fold bus_step es s1)) (world (fold bus_step es s1))"
    using assms(4,5) create run by (intro send_unregistering) auto
  then show ?thesis using create run by simp
qed

definition bus_example :: "(nat, nat, int, (nat \<times> nat \<times> int) list) bus" where
  "bus_example = \<lparr>arrays = [], conns = [], timers = [], world = []\<rparr>"

theorem bus_send_in_order_witness:
  "\<exists>s'. send (unregistering_call (\<lambda>f t v w. w @ [(f, t, v)]) (\<lambda>f. if f = 7 then [Unregister 1 ''a'' 8] else [])) 0 ''a'' 5
     (fold bus_step [Register 1 ''a'' 7 1, Register 1 ''b'' 9 1, Register 1 ''a'' 8 2] (snd (Bus_create bus_example))) = Some s' \<and>
   world s' = [(7, 1, 5), (8, 2, 5)]"
  using bus_send_in_order [of bus_example 0 1 "snd (Bus_create bus_example)"
    "[Register 1 ''a'' 7 1, Register 1 ''b'' 9 1, Register 1 ''a'' 8 2]"
    "\<lambda>f. if f = 7 then [Unregister 1 ''a'' 8] else []" "\<lambda>f t v w. w @ [(f, t, v)]" "''a''" 5]
  by (simp add: bus_example_def bus_wf_def Bus_create_def Let_def)

text \<open>
  Registering, in contrast, takes effect at once: a listener that registers itself again for the
  message it handles is called without end, and \<open>send\<close> does not return.
\<close>

lemma send_loop_self_register:
  assumes call: "\<And>f t s. call f t v s = Some (register d n f t s)"
  shows "send_loop call a v i s = Some r \<Longrightarrow>
    \<not> (bus_wf s \<and> d < length (conns s) \<and> listeners (conns s ! d) n = Some a \<and> i < length (arrays s ! a))"
proof (rule send_loop.raw_induct [where P = "\<lambda>c a' v' i s r. c = call \<and> v' = v \<and> a' = a \<longrightarrow>
    \<not> (bus_wf s \<and> d < length (conns s) \<and> listeners (conns s ! d) n = Some a \<and> i < length (arrays s ! a))", rule_format],
    goal_cases)
  case (1 loop c a' v' i s r)
  then have eq: "c = call" "v' = v" "a' = a" by simp_all
  show ?case
  proof
    assume "bus_wf s \<and> d < length (conns s) \<and> listeners (conns s ! d) n = Some a \<and> i < length (arrays s ! a)"
    then have s: "bus_wf s" "d < length (conns s)" "listeners (conns s ! d) n = Some a" "i < length (arrays s ! a)" by auto
    define u where "u = register d n (fn (arrays s ! a ! i)) (this_value (arrays s ! a ! i)) s"
    have u: "bus_wf u" "length (conns u) = length (conns s)" "listeners (conns u ! d) n = Some a"
      using s by (simp_all add: u_def register_wf) (simp add: register_def)
    have "arrays u ! a = arrays s ! a @ [\<lparr>fn = fn (arrays s ! a ! i), this_value = this_value (arrays s ! a ! i)\<rparr>]"
      using s bus_wf_bound [OF s(1-3)] by (simp add: u_def register_def)
    moreover have "loop c a' v' (i + 1) u = Some r" using 1(3) s call by (simp add: eq u_def Let_def)
    ultimately show False using 1(2) [of c a' v' "i + 1" u r] u s by (simp add: eq)
  qed
qed simp_all

end
