(* ===== verification/Marshall.thy ===== *)
theory Marshall
  imports V86_Prelude
begin

text \<open>
  The wire format of \<open>lib/marshall.js\<close>, which the 9p filesystem and virtio share:
  \<open>Marshall\<close> stores a list of typed items in a byte array, \<open>Unmarshall\<close> reads them back.
  With the UTF-8 encoder and decoder of the standard library (\<open>TextEncoder\<close>,
  \<open>TextDecoder\<close>) that the strings pass through. A string is the list of its code points, where a
  lone surrogate counts as one.
\<close>

section \<open>UTF-8\<close>

definition surrogate :: "nat \<Rightarrow> bool" where
  "surrogate c \<longleftrightarrow> 0xD800 \<le> c \<and> c \<le> 0xDFFF"

text \<open>\<open>TextEncoder.encode\<close>: a lone surrogate is replaced by U+FFFD.\<close>

definition utf8_char :: "nat \<Rightarrow> nat list" where
  "utf8_char c =
     (if c < 0x80 then [c]
      else if c < 0x800 then [0xC0 + c div 64, 0x80 + c mod 64]
      else if c < 0x10000 then [0xE0 + c div 4096, 0x80 + c div 64 mod 64, 0x80 + c mod 64]
      else [0xF0 + c div 262144, 0x80 + c div 4096 mod 64, 0x80 + c div 64 mod 64, 0x80 + c mod 64])"

definition scalar :: "nat \<Rightarrow> nat" where
  "scalar c = (if surrogate c then 0xFFFD else c)"

definition text_encode :: "nat list \<Rightarrow> u8 list" where
  "text_encode s = map of_nat (concat (map (utf8_char \<circ> scalar) s))"

text \<open>
  \<open>TextDecoder.decode\<close>: \<open>need\<close> continuation bytes are missing, the next of which has to lie
  between \<open>lo\<close> and \<open>up\<close>. A byte that does not fit ends the sequence with U+FFFD and is looked
  at again as a first byte. A leading byte order mark is dropped.
\<close>

function utf8_decode :: "nat \<Rightarrow> nat \<Rightarrow> nat \<Rightarrow> nat \<Rightarrow> nat list \<Rightarrow> nat list" where
  "utf8_decode need lo up cp [] = (if need = 0 then [] else [0xFFFD])"
| "utf8_decode need lo up cp (b # bs) =
     (if need = 0
      then if b \<le> 0x7F then b # utf8_decode 0 0x80 0xBF 0 bs
           else if 0xC2 \<le> b \<and> b \<le> 0xDF then utf8_decode 1 0x80 0xBF (b mod 32) bs
           else if 0xE0 \<le> b \<and> b \<le> 0xEF
           then utf8_decode 2 (if b = 0xE0 then 0xA0 else 0x80) (if b = 0xED then 0x9F else 0xBF) (b mod 16) bs
           else if 0xF0 \<le> b \<and> b \<le> 0xF4
           then utf8_decode 3 (if b = 0xF0 then 0x90 else 0x80) (if b = 0xF4 then 0x8F else 0xBF) (b mod 8) bs
           else 0xFFFD # utf8_decode 0 0x80 0xBF 0 bs
      else if b < lo \<or> up < b then 0xFFFD # utf8_decode 0 0x80 0xBF 0 (b # bs)
      else if need = 1 then (cp * 64 + b mod 64) # utf8_decode 0 0x80 0xBF 0 bs
      else utf8_decode (need - 1) 0x80 0xBF (cp * 64 + b mod 64) bs)"
  by pat_completeness auto
termination
  by (relation "measure (\<lambda>(need, lo, up, cp, bs). 2 * length bs + (if need = 0 then 0 else 1))") auto

definition drop_bom :: "nat list \<Rightarrow> nat list" where
  "drop_bom s = (case s of [] \<Rightarrow> [] | c # cs \<Rightarrow> if c = 0xFEFF then cs else s)"

definition text_decode :: "u8 list \<Rightarrow> nat list" where
  "text_decode bs = drop_bom (utf8_decode 0 0x80 0xBF 0 (map unat bs))"

section \<open>Marshall\<close>

text \<open>
  \<open>MUndef\<close> is the item beyond the end of the input. Items are numbers, strings or qids; an item
  that would have to be converted to a type of another kind (a number to a string, say) is not
  modelled and gives \<open>Coercion\<close>.
\<close>

datatype mitem = MNum int | MStr "nat list" | MQid int int int | MUndef

datatype marshall_error = RangeError | TypeError | Coercion

fun item_number :: "mitem \<Rightarrow> int option" where
  "item_number (MNum i) = Some i"
| "item_number MUndef = Some 0"
| "item_number _ = None"

fun item_string :: "mitem \<Rightarrow> nat list option" where
  "item_string (MStr s) = Some s"
| "item_string MUndef = Some []"
| "item_string _ = None"

text \<open>\<open>[item.type, item.version, item.path]\<close>: numbers and strings have no such fields.\<close>

fun item_qid :: "mitem \<Rightarrow> marshall_error + mitem list" where
  "item_qid (MQid t v p) = Inr [MNum t, MNum v, MNum p]"
| "item_qid MUndef = Inl TypeError"
| "item_qid _ = Inr [MUndef, MUndef, MUndef]"

text \<open>The byte \<open>(item >> k) & 0xFF\<close> of a number.\<close>

definition item_byte :: "nat \<Rightarrow> int \<Rightarrow> u8" where
  "item_byte k i = ucast (signed_drop_bit k (word_of_int i :: i32) AND 0xFF)"

text \<open>A store beyond the end of a typed array is ignored, as \<open>list_update\<close> does it.\<close>

definition put_word :: "nat \<Rightarrow> int \<Rightarrow> u8 list \<Rightarrow> u8 list" where
  "put_word off i st =
     st[off := item_byte 0 i, off + 1 := item_byte 8 i, off + 2 := item_byte 16 i, off + 3 := item_byte 24 i]"

definition put_zeros :: "nat \<Rightarrow> u8 list \<Rightarrow> u8 list" where
  "put_zeros off st = st[off := 0, off + 1 := 0, off + 2 := 0, off + 3 := 0]"

text \<open>\<open>struct.set(bytes, offset)\<close>, which throws if the bytes do not fit.\<close>

definition array_set :: "u8 list \<Rightarrow> nat \<Rightarrow> u8 list \<Rightarrow> marshall_error + u8 list" where
  "array_set bs off st =
     (if off + length bs \<le> length st then Inr (take off st @ bs @ drop (off + length bs) st) else Inl RangeError)"

definition put_string :: "nat \<Rightarrow> u8 list \<Rightarrow> u8 list \<Rightarrow> marshall_error + u8 list" where
  "put_string off bs st =
     (case array_set bs (off + 2) (st[off := 0, off + 1 := 0]) of
        Inl e \<Rightarrow> Inl e
      | Inr st1 \<Rightarrow> Inr (st1[off := item_byte 0 (int (length bs)), off + 1 := item_byte 8 (int (length bs))]))"

text \<open>A qid costs its three fields and one more step.\<close>

definition type_cost :: "string \<Rightarrow> nat" where
  "type_cost t = (if t = ''Q'' then 4 else 1)"

function marshall_loop :: "string list \<Rightarrow> mitem list \<Rightarrow> u8 list \<Rightarrow> nat \<Rightarrow> nat \<Rightarrow> marshall_error + (nat \<times> u8 list)" where
  "marshall_loop [] input st off sz = Inr (sz, st)"
| "marshall_loop (t # ts) input st off sz =
     (let item = (case input of [] \<Rightarrow> MUndef | x # _ \<Rightarrow> x); rest = tl input
      in if t = ''w'' then
           (case item_number item of
              None \<Rightarrow> Inl Coercion
            | Some i \<Rightarrow> marshall_loop ts rest (put_word off i st) (off + 4) (sz + 4))
         else if t = ''d'' then
           (case item_number item of
              None \<Rightarrow> Inl Coercion
            | Some i \<Rightarrow> marshall_loop ts rest (put_zeros (off + 4) (put_word off i st)) (off + 8) (sz + 8))
         else if t = ''h'' then
           (case item_number item of
              None \<Rightarrow> Inl Coercion
            | Some i \<Rightarrow> marshall_loop ts rest
                (st[off := item_byte 0 i, off + 1 := ucast (signed_drop_bit 8 (word_of_int i :: i32))]) (off + 2) (sz + 2))
         else if t = ''b'' then
           (case item_number item of
              None \<Rightarrow> Inl Coercion
            | Some i \<Rightarrow> marshall_loop ts rest (st[off := word_of_int i]) (off + 1) (sz + 1))
         else if t = ''s'' then
           (case item_string item of
              None \<Rightarrow> Inl Coercion
            | Some s \<Rightarrow>
                (let bs = text_encode s
                 in case put_string off bs st of
                      Inl e \<Rightarrow> Inl e
                    | Inr st1 \<Rightarrow> marshall_loop ts rest st1 (off + 2 + length bs) (sz + 2 + length bs)))
         else if t = ''Q'' then
           (case item_qid item of
              Inl e \<Rightarrow> Inl e
            | Inr fields \<Rightarrow>
                (case marshall_loop [''b'', ''w'', ''d''] fields st off 0 of
                   Inl e \<Rightarrow> Inl e
                 | Inr (_, st1) \<Rightarrow> marshall_loop ts rest st1 (off + 13) (sz + 13)))
         else marshall_loop ts rest st off sz)"
  by pat_completeness auto
termination
  by (relation "measure (\<lambda>(ts, input, st, off, sz). sum_list (map type_cost ts))") (auto simp: type_cost_def)

definition Marshall :: "string list \<Rightarrow> mitem list \<Rightarrow> u8 list \<Rightarrow> nat \<Rightarrow> marshall_error + (nat \<times> u8 list)" where
  "Marshall ts input st off = marshall_loop ts input st off 0"

section \<open>Unmarshall\<close>

text \<open>
  Reading beyond the end gives \<open>undefined\<close>, which makes a sum \<open>NaN\<close> and counts as 0 in a
  shift. An offset that became \<open>NaN\<close>, after a string whose length could not be read, is None.
\<close>

datatype mval = VNum int | VNaN | VUndef | VStr "nat list" | VQid mval mval mval

definition peek :: "u8 list \<Rightarrow> nat option \<Rightarrow> int option" where
  "peek st off = (case off of None \<Rightarrow> None | Some i \<Rightarrow> if i < length st then Some (uint (st ! i)) else None)"

definition ahead :: "nat \<Rightarrow> nat option \<Rightarrow> nat option" where
  "ahead n off = map_option (\<lambda>i. i + n) off"

text \<open>\<open>(x << k) >>> 0\<close> of a byte, or of undefined.\<close>

definition shl_byte :: "nat \<Rightarrow> int option \<Rightarrow> int" where
  "shl_byte k x = (case x of None \<Rightarrow> 0 | Some b \<Rightarrow> uint (push_bit k (word_of_int b :: i32)))"

definition add_num :: "int option \<Rightarrow> int \<Rightarrow> int option" where
  "add_num x y = map_option (\<lambda>v. v + y) x"

definition get_word :: "u8 list \<Rightarrow> nat option \<Rightarrow> int option" where
  "get_word st off =
     add_num (add_num (add_num (peek st off) (shl_byte 8 (peek st (ahead 1 off))))
       (shl_byte 16 (peek st (ahead 2 off)))) (shl_byte 24 (peek st (ahead 3 off)))"

definition get_half :: "u8 list \<Rightarrow> nat option \<Rightarrow> int option" where
  "get_half st off = add_num (peek st off) (shl_byte 8 (peek st (ahead 1 off)))"

definition sum_val :: "int option \<Rightarrow> mval" where
  "sum_val x = (case x of None \<Rightarrow> VNaN | Some v \<Rightarrow> VNum v)"

definition elem_val :: "int option \<Rightarrow> mval" where
  "elem_val x = (case x of None \<Rightarrow> VUndef | Some v \<Rightarrow> VNum v)"

definition array_slice :: "u8 list \<Rightarrow> nat option \<Rightarrow> int option \<Rightarrow> u8 list" where
  "array_slice st off len =
     (case (off, len) of (Some i, Some n) \<Rightarrow> take (nat n) (drop i st) | _ \<Rightarrow> [])"

definition ahead_by :: "int option \<Rightarrow> nat option \<Rightarrow> nat option" where
  "ahead_by len off = (case len of None \<Rightarrow> None | Some n \<Rightarrow> ahead (nat n) off)"

definition qid_val :: "mval list \<Rightarrow> mval" where
  "qid_val vs = VQid (vs ! 0) (vs ! 1) (vs ! 2)"

function Unmarshall :: "string list \<Rightarrow> u8 list \<Rightarrow> nat option \<Rightarrow> mval list \<times> nat option" where
  "Unmarshall [] st off = ([], off)"
| "Unmarshall (t # ts) st off =
     (let push = (\<lambda>v off1. let (vs, off2) = Unmarshall ts st off1 in (v # vs, off2))
      in if t = ''w'' then push (sum_val (get_word st off)) (ahead 4 off)
         else if t = ''d'' then push (sum_val (get_word st off)) (ahead 8 off)
         else if t = ''h'' then push (sum_val (get_half st off)) (ahead 2 off)
         else if t = ''b'' then push (elem_val (peek st off)) (ahead 1 off)
         else if t = ''s'' then
           (let len = get_half st off
            in push (VStr (text_decode (array_slice st (ahead 2 off) len))) (ahead_by len (ahead 2 off)))
         else if t = ''Q'' then
           (let (qid, off1) = Unmarshall [''b'', ''w'', ''d''] st off in push (qid_val qid) off1)
         else Unmarshall ts st off)"
  by pat_completeness auto
termination
  by (relation "measure (\<lambda>(ts, st, off). sum_list (map type_cost ts))") (auto simp: type_cost_def)

section \<open>UTF-8 round trip\<close>

lemma utf8_char_bytes: "c \<le> 0x10FFFF \<Longrightarrow> b \<in> set (utf8_char c) \<Longrightarrow> b < 256"
  by (auto simp: utf8_char_def split: if_splits)

lemma lead_mod: "(a :: nat) < 32 \<Longrightarrow> (0xC0 + a) mod 32 = a" "(a :: nat) < 16 \<Longrightarrow> (0xE0 + a) mod 16 = a"
  "(a :: nat) < 8 \<Longrightarrow> (0xF0 + a) mod 8 = a" "(a :: nat) < 64 \<Longrightarrow> (0x80 + a) mod 64 = a"
  using mod_mult_self3 [of 6 32 a] mod_mult_self3 [of 14 16 a] mod_mult_self3 [of 30 8 a] mod_mult_self3 [of 2 64 a]
  by simp_all

lemma sextets:
  "(c :: nat) = c div 4096 * 4096 + c div 64 mod 64 * 64 + c mod 64"
  "(c :: nat) = c div 262144 * 262144 + c div 4096 mod 64 * 4096 + c div 64 mod 64 * 64 + c mod 64"
proof -
  have d: "c div 4096 = c div 64 div 64" "c div 262144 = c div 4096 div 64"
    by (simp_all add: div_mult2_eq [symmetric])
  have m: "c = c div 64 * 64 + c mod 64" "c div 64 = c div 64 div 64 * 64 + c div 64 mod 64"
    "c div 4096 = c div 4096 div 64 * 64 + c div 4096 mod 64" by simp_all
  show "c = c div 4096 * 4096 + c div 64 mod 64 * 64 + c mod 64" using d(1) m(1,2) by linarith
  then show "c = c div 262144 * 262144 + c div 4096 mod 64 * 4096 + c div 64 mod 64 * 64 + c mod 64"
    using d(2) m(3) by linarith
qed

lemma utf8_decode_char:
  assumes "c \<le> 0x10FFFF" "\<not> surrogate c"
  shows "utf8_decode 0 lo up cp (utf8_char c @ bs) = c # utf8_decode 0 0x80 0xBF 0 bs"
proof -
  consider "c < 0x80" | "0x80 \<le> c" "c < 0x800" | "0x800 \<le> c" "c < 0x10000" | "0x10000 \<le> c" by linarith
  then show ?thesis
  proof cases
    case 1
    then show ?thesis by (simp add: utf8_char_def)
  next
    case 2
    define a d where "a = c div 64" and "d = c mod 64"
    note ds = a_def d_def
    have c: "c = a * 64 + d" "d < 64" unfolding ds by presburger+
    have r: "a < 32" "2 \<le> a" using 2 c by linarith+
    have m: "(0xC0 + a) mod 32 = a" "(0x80 + d) mod 64 = d" using r c by (simp_all only: lead_mod)
    have "utf8_char c = [0xC0 + a, 0x80 + d]" using 2 by (simp add: utf8_char_def ds)
    then show ?thesis using r c m by (auto simp: algebra_simps)
  next
    case 3
    define a b d where "a = c div 4096" and "b = c div 64 mod 64" and "d = c mod 64"
    note ds = a_def b_def d_def
    have c: "c = a * 4096 + b * 64 + d" "b < 64" "d < 64" unfolding ds using sextets(1) [of c] by simp_all
    have r: "a < 16" "a = 0 \<Longrightarrow> 32 \<le> b" "a = 13 \<Longrightarrow> b < 32"
      using 3 assms(2) c by (auto simp: surrogate_def)
    have m: "(0xE0 + a) mod 16 = a" "(0x80 + b) mod 64 = b" "(0x80 + d) mod 64 = d"
      using r(1) c(2-) lead_mod [of a] lead_mod [of b] lead_mod [of d] by simp_all
    have "utf8_char c = [0xE0 + a, 0x80 + b, 0x80 + d]" using 3 by (simp add: utf8_char_def ds)
    then show ?thesis using r c m by (auto simp: algebra_simps)
  next
    case 4
    define a b d e where "a = c div 262144" and "b = c div 4096 mod 64" and "d = c div 64 mod 64" and "e = c mod 64"
    note ds = a_def b_def d_def e_def
    have c: "c = a * 262144 + b * 4096 + d * 64 + e" "b < 64" "d < 64" "e < 64" unfolding ds using sextets(2) [of c] by simp_all
    have r: "a \<le> 4" "a = 0 \<Longrightarrow> 16 \<le> b" "a = 4 \<Longrightarrow> b < 16"
      using 4 assms(1) c by auto
    have m: "(0xF0 + a) mod 8 = a" "(0x80 + b) mod 64 = b" "(0x80 + d) mod 64 = d" "(0x80 + e) mod 64 = e"
      using r(1) c(2-) lead_mod [of e] lead_mod [of a] lead_mod [of b] lead_mod [of d] by simp_all
    have "utf8_char c = [0xF0 + a, 0x80 + b, 0x80 + d, 0x80 + e]" using 4 by (simp add: utf8_char_def ds)
    then show ?thesis using r c m by (auto simp: algebra_simps)
  qed
qed

lemma scalar_le: "c \<le> 0x10FFFF \<Longrightarrow> scalar c \<le> 0x10FFFF"
  by (simp add: scalar_def)

lemma utf8_decode_concat:
  "\<forall>c \<in> set s. c \<le> 0x10FFFF \<Longrightarrow> utf8_decode 0 0x80 0xBF 0 (concat (map (utf8_char \<circ> scalar) s)) = map scalar s"
proof (induction s)
  case (Cons c s)
  have "scalar c \<le> 0x10FFFF" "\<not> surrogate (scalar c)" using Cons.prems by (auto simp: scalar_def surrogate_def)
  from utf8_decode_char [OF this] show ?case using Cons by simp
qed simp

lemma unat_of_bytes: "\<forall>b \<in> set bs. b < 256 \<Longrightarrow> map unat (map of_nat bs :: u8 list) = bs"
  by (induction bs) (simp_all add: unsigned_of_nat take_bit_nat_eq_self)

lemma text_roundtrip:
  assumes "\<forall>c \<in> set s. c \<le> 0x10FFFF"
  shows "text_decode (text_encode s) = drop_bom (map scalar s)"
proof -
  have "\<forall>b \<in> set (concat (map (utf8_char \<circ> scalar) s)). b < 256"
    using assms scalar_le utf8_char_bytes by fastforce
  then show ?thesis
    using utf8_decode_concat [OF assms] by (simp add: text_decode_def text_encode_def unat_of_bytes del: map_map)
qed

lemma item_byte_uint: "uint (item_byte k i) = i div 2 ^ k mod 256" if "k \<le> 24"
proof -
  have "bit (uint (item_byte k i)) n = bit (i div 2 ^ k mod 256) n" for n
  proof -
    have "i div 2 ^ k mod 256 = take_bit 8 (drop_bit k i)" by (simp add: take_bit_eq_mod drop_bit_eq_div)
    then show ?thesis using that
      by (auto simp: item_byte_def mask_eqs bit_simps)
  qed
  then show ?thesis by (rule bit_eqI)
qed

section \<open>The bytes of an item\<close>

text \<open>The items that have a type's kind; a string has to fit its 16-bit length.\<close>

fun typed :: "string \<Rightarrow> mitem \<Rightarrow> bool" where
  "typed t (MNum i) \<longleftrightarrow> t \<in> {''w'', ''d'', ''h'', ''b''}"
| "typed t (MStr s) \<longleftrightarrow> t = ''s'' \<and> (\<forall>c \<in> set s. c \<le> 0x10FFFF) \<and> length (text_encode s) < 65536"
| "typed t (MQid ty v p) \<longleftrightarrow> t = ''Q''"
| "typed t MUndef \<longleftrightarrow> False"

definition word_bytes :: "int \<Rightarrow> u8 list" where
  "word_bytes i = [item_byte 0 i, item_byte 8 i, item_byte 16 i, item_byte 24 i]"

fun field_bytes :: "string \<Rightarrow> mitem \<Rightarrow> u8 list" where
  "field_bytes t (MNum i) =
     (if t = ''w'' then word_bytes i
      else if t = ''d'' then word_bytes i @ [0, 0, 0, 0]
      else if t = ''h'' then [item_byte 0 i, item_byte 8 i]
      else [item_byte 0 i])"
| "field_bytes t (MStr s) =
     [item_byte 0 (int (length (text_encode s))), item_byte 8 (int (length (text_encode s)))] @ text_encode s"
| "field_bytes t (MQid ty v p) = [item_byte 0 ty] @ word_bytes v @ word_bytes p @ [0, 0, 0, 0]"
| "field_bytes t MUndef = []"

definition struct_bytes :: "string list \<Rightarrow> mitem list \<Rightarrow> u8 list" where
  "struct_bytes ts items = concat (map2 field_bytes ts items)"

text \<open>The value that is read back: numbers reduced to the width of the field.\<close>

fun field_val :: "string \<Rightarrow> mitem \<Rightarrow> mval" where
  "field_val t (MNum i) =
     VNum (if t \<in> {''w'', ''d''} then i mod 2 ^ 32 else if t = ''h'' then i mod 2 ^ 16 else i mod 2 ^ 8)"
| "field_val t (MStr s) = VStr (drop_bom (map scalar s))"
| "field_val t (MQid ty v p) = VQid (VNum (ty mod 2 ^ 8)) (VNum (v mod 2 ^ 32)) (VNum (p mod 2 ^ 32))"
| "field_val t MUndef = VUndef"

subsection \<open>Storing\<close>

definition blit :: "nat \<Rightarrow> u8 list \<Rightarrow> u8 list \<Rightarrow> u8 list" where
  "blit off bs st = take off st @ bs @ drop (off + length bs) st"

lemma length_blit [simp]: "off + length bs \<le> length st \<Longrightarrow> length (blit off bs st) = length st"
  by (simp add: blit_def)

lemma update_blit:
  "off + length xs < length st \<Longrightarrow> (blit off xs st)[off + length xs := b] = blit off (xs @ [b]) st"
  by (simp add: blit_def list_update_append Cons_nth_drop_Suc [symmetric])

lemma update_first: "off < length st \<Longrightarrow> st[off := b] = blit off [b] st"
  by (simp add: blit_def upd_conv_take_nth_drop)

lemma blit_blit:
  "off + length xs + length ys \<le> length st \<Longrightarrow> blit (off + length xs) ys (blit off xs st) = blit off (xs @ ys) st"
  by (simp add: blit_def ac_simps)

lemma updates_blit:
  "off + 1 < length st \<Longrightarrow> st[off := a, off + 1 := b] = blit off [a, b] st"
  "off + 3 < length st \<Longrightarrow> st[off := a, off + 1 := b, off + 2 := c, off + 3 := d] = blit off [a, b, c, d] st"
  using update_blit [of off "[a]" st b] update_blit [of off "[a, b]" st c] update_blit [of off "[a, b, c]" st d]
  by (simp_all add: update_first numeral_3_eq_3 numeral_2_eq_2)

lemma put_word_blit: "off + 4 \<le> length st \<Longrightarrow> put_word off i st = blit off (word_bytes i) st"
  unfolding put_word_def word_bytes_def by (rule updates_blit(2)) simp

lemma length_word_bytes [simp]: "length (word_bytes i) = 4"
  by (simp add: word_bytes_def)

lemma put_zeros_blit: "off + 4 \<le> length st \<Longrightarrow> put_zeros off st = blit off [0, 0, 0, 0] st"
  unfolding put_zeros_def by (rule updates_blit(2)) simp

lemma put_double_blit:
  "off + 8 \<le> length st \<Longrightarrow> put_zeros (off + 4) (put_word off i st) = blit off (word_bytes i @ [0, 0, 0, 0]) st"
  using blit_blit [of off "word_bytes i" "[0, 0, 0, 0]" st] by (simp add: put_word_blit put_zeros_blit)

lemma put_string_blit:
  assumes "off + 2 + length bs \<le> length st"
  shows "put_string off bs st =
    Inr (blit off ([item_byte 0 (int (length bs)), item_byte 8 (int (length bs))] @ bs) st)"
proof -
  have "array_set bs (off + 2) (st[off := 0, off + 1 := 0]) = Inr (blit (off + 2) bs (blit off [0, 0] st))"
    using assms by (simp add: array_set_def updates_blit(1) [symmetric]) (simp add: blit_def)
  also have "blit (off + 2) bs (blit off [0, 0] st) = blit off ([0, 0] @ bs) st"
    using blit_blit [of off "[0, 0]" bs st] assms by simp
  also have "(blit off ([0, 0] @ bs) st)[off := a, off + 1 := b] = blit off ([a, b] @ bs) st" for a b
    using assms by (simp add: blit_def list_update_append numeral_2_eq_2 min_def)
  ultimately show ?thesis by (simp add: put_string_def)
qed

lemma item_byte_half: "ucast (signed_drop_bit 8 (word_of_int i :: i32)) = item_byte 8 i"
  by (rule bit_word_eqI) (auto simp: item_byte_def mask_eqs bit_simps)

lemma item_byte_low: "word_of_int i = item_byte 0 i"
  by (rule bit_word_eqI) (auto simp: item_byte_def mask_eqs bit_simps)

text \<open>One item of a type's kind, then the rest.\<close>

lemma marshall_field:
  assumes "typed t x" "off + length (field_bytes t x) \<le> length st"
  shows "marshall_loop (t # ts) (x # xs) st off sz =
    marshall_loop ts xs (blit off (field_bytes t x) st) (off + length (field_bytes t x)) (sz + length (field_bytes t x))"
proof (cases x)
  case (MNum i)
  then consider "t = ''w''" | "t = ''d''" | "t = ''h''" | "t = ''b''" using assms by auto
  then show ?thesis
    by cases (use MNum assms blit_blit [of off "[item_byte 0 i]" "[item_byte 8 i]" st]
        blit_blit [of off "word_bytes i" "[0, 0, 0, 0]" st] in
      \<open>simp_all add: put_word_blit put_zeros_blit update_first item_byte_half item_byte_low\<close>)
next
  case (MStr s)
  then show ?thesis using assms put_string_blit [of off "text_encode s" st] by (simp add: ac_simps Let_def)
next
  case (MQid ty v p)
  have "marshall_loop [''b'', ''w'', ''d''] [MNum ty, MNum v, MNum p] st off 0 =
    Inr (13, blit off (field_bytes t x) st)"
    using MQid assms blit_blit [of off "[item_byte 0 ty]" "word_bytes v" st]
      blit_blit [of off "item_byte 0 ty # word_bytes v" "word_bytes p" st]
      blit_blit [of off "item_byte 0 ty # word_bytes v @ word_bytes p" "[0, 0, 0, 0]" st]
    by (simp add: put_word_blit put_zeros_blit update_first item_byte_low ac_simps)
  then show ?thesis using MQid assms by simp
qed (use assms in simp)

lemma marshall_loop_blit:
  "list_all2 typed ts xs \<Longrightarrow> off + length (struct_bytes ts xs) \<le> length st \<Longrightarrow>
   marshall_loop ts xs st off sz = Inr (sz + length (struct_bytes ts xs), blit off (struct_bytes ts xs) st)"
proof (induction ts xs arbitrary: st off sz rule: list_all2_induct)
  case Nil
  then show ?case by (simp add: struct_bytes_def blit_def)
next
  case (Cons t ts x xs)
  have b: "struct_bytes (t # ts) (x # xs) = field_bytes t x @ struct_bytes ts xs" by (simp add: struct_bytes_def)
  show ?case
    using Cons blit_blit [of off "field_bytes t x" "struct_bytes ts xs" st]
    by (simp add: b marshall_field ac_simps del: marshall_loop.simps)
qed

subsection \<open>Reading back\<close>

lemma peek_in: "n < length bs \<Longrightarrow> peek (pre @ bs @ post) (ahead n (Some (length pre))) = Some (uint (bs ! n))"
  by (simp add: peek_def ahead_def nth_append add.commute)

lemma peek_first: "bs \<noteq> [] \<Longrightarrow> peek (pre @ bs @ post) (Some (length pre)) = Some (uint (hd bs))"
  using peek_in [of 0 bs pre post] by (simp add: ahead_def hd_conv_nth)

lemma shl_byte_number: "0 \<le> v \<Longrightarrow> v < 256 \<Longrightarrow> k \<le> 24 \<Longrightarrow> shl_byte k (Some v) = v * 2 ^ k"
proof -
  assume v: "0 \<le> v" "v < 256" and k: "k \<le> 24"
  have "(2 :: int) ^ k \<le> 2 ^ 24" using k by (intro power_increasing) auto
  then have "v * 2 ^ k \<le> 255 * 2 ^ 24" using v by (intro mult_mono) auto
  moreover have "uint (word_of_int v :: i32) = v" using v by (simp add: unsigned_of_int take_bit_int_eq_self)
  ultimately show ?thesis using v uint_push_bit [of "word_of_int v" k] by (simp add: shl_byte_def)
qed

lemma bytes_number: "(i :: int) mod 65536 = i mod 256 + i div 256 mod 256 * 256"
  "i mod 4294967296 = i mod 256 + i div 256 mod 256 * 256 + i div 65536 mod 256 * 65536 + i div 16777216 mod 256 * 16777216"
proof -
  have d: "i div 65536 = i div 256 div 256" "i div 16777216 = i div 65536 div 256" "i div 4294967296 = i div 16777216 div 256"
    by (simp_all add: zdiv_zmult2_eq [symmetric])
  have m: "a mod 256 = a - a div 256 * 256" for a :: int by (simp add: minus_div_mult_eq_mod)
  show "i mod 65536 = i mod 256 + i div 256 mod 256 * 256"
    using m [of i] m [of "i div 256"] d minus_div_mult_eq_mod [of i 65536] by linarith
  show "i mod 4294967296 = i mod 256 + i div 256 mod 256 * 256 + i div 65536 mod 256 * 65536 + i div 16777216 mod 256 * 16777216"
    using m [of i] m [of "i div 256"] m [of "i div 65536"] m [of "i div 16777216"] d
      minus_div_mult_eq_mod [of i 4294967296] by linarith
qed

lemma peek_item_byte:
  "n < length bs \<Longrightarrow> bs ! n = item_byte k i \<Longrightarrow> k \<le> 24 \<Longrightarrow>
   peek (pre @ bs @ post) (ahead n (Some (length pre))) = Some (i div 2 ^ k mod 256)"
  by (simp add: peek_in item_byte_uint)

lemma get_word_sum:
  assumes "peek st off = Some a" "peek st (ahead 1 off) = Some b" "peek st (ahead 2 off) = Some c" "peek st (ahead 3 off) = Some d"
    and "0 \<le> b" "b < 256" "0 \<le> c" "c < 256" "0 \<le> d" "d < 256"
  shows "get_word st off = Some (a + b * 256 + c * 65536 + d * 16777216)"
  using assms by (simp add: get_word_def add_num_def shl_byte_number)

lemma get_word_bytes: "get_word (pre @ word_bytes i @ post) (Some (length pre)) = Some (i mod 2 ^ 32)"
proof -
  let ?st = "pre @ word_bytes i @ post"
  have "peek ?st (ahead 1 (Some (length pre))) = Some (i div 256 mod 256)"
    "peek ?st (ahead 2 (Some (length pre))) = Some (i div 65536 mod 256)"
    "peek ?st (ahead 3 (Some (length pre))) = Some (i div 16777216 mod 256)"
    using peek_item_byte [of 1 "word_bytes i" 8 i] peek_item_byte [of 2 "word_bytes i" 16 i]
      peek_item_byte [of 3 "word_bytes i" 24 i] by (simp_all add: word_bytes_def)
  moreover have "peek ?st (Some (length pre)) = Some (i mod 256)"
    using peek_first [of "word_bytes i" pre post] by (simp add: word_bytes_def item_byte_uint)
  ultimately have "get_word ?st (Some (length pre)) =
      Some (i mod 256 + i div 256 mod 256 * 256 + i div 65536 mod 256 * 65536 + i div 16777216 mod 256 * 16777216)"
    by (intro get_word_sum) auto
  moreover have "(2 :: int) ^ 32 = 4294967296" by simp
  ultimately show ?thesis by (simp only: bytes_number(2) [of i])
qed

lemma get_half_bytes:
  "get_half (pre @ item_byte 0 i # item_byte 8 i # post) (Some (length pre)) = Some (i mod 2 ^ 16)"
  using peek_item_byte [of 1 "[item_byte 0 i, item_byte 8 i]" 8 i pre post]
    peek_first [of "[item_byte 0 i, item_byte 8 i]" pre post] bytes_number(1) [of i]
  by (simp add: get_half_def add_num_def shl_byte_number item_byte_uint)

lemma peek_byte: "peek (pre @ item_byte 0 i # post) (Some (length pre)) = Some (i mod 2 ^ 8)"
  using peek_first [of "[item_byte 0 i]" pre post] by (simp add: item_byte_uint)

lemma array_slice_string:
  "array_slice (pre @ a # b # bs @ post) (Some (Suc (Suc (length pre)))) (Some (int (length bs))) = bs"
  by (simp add: array_slice_def)

lemma unmarshall_field:
  assumes "typed t x"
  shows "Unmarshall (t # ts) (pre @ field_bytes t x @ post) (Some (length pre)) =
    (let (vs, off) = Unmarshall ts (pre @ field_bytes t x @ post) (Some (length pre + length (field_bytes t x)))
     in (field_val t x # vs, off))"
proof (cases x)
  case (MNum i)
  then consider "t = ''w''" | "t = ''d''" | "t = ''h''" | "t = ''b''" using assms by auto
  then show ?thesis
    by cases (use MNum get_word_bytes [of pre i post] get_word_bytes [of pre i "[0, 0, 0, 0] @ post"]
        get_half_bytes [of pre i post] peek_byte [of pre i post] in
      \<open>simp_all add: ahead_def sum_val_def elem_val_def\<close>)
next
  case (MStr s)
  let ?n = "int (length (text_encode s))"
  have h: "get_half (pre @ item_byte 0 ?n # item_byte 8 ?n # text_encode s @ post) (Some (length pre)) = Some ?n"
    using get_half_bytes [of pre ?n "text_encode s @ post"] MStr assms by simp
  show ?thesis
    using MStr assms h array_slice_string [of pre _ _ "text_encode s" post]
    by (simp add: Let_def ahead_def ahead_by_def text_roundtrip)
next
  case (MQid ty v p)
  let ?st = "pre @ field_bytes t x @ post"
  have v: "get_word ?st (Some (Suc (length pre))) = Some (v mod 2 ^ 32)"
    using get_word_bytes [of "pre @ [item_byte 0 ty]" v "word_bytes p @ [0, 0, 0, 0] @ post"] MQid by simp
  have p: "get_word ?st (Some (5 + length pre)) = Some (p mod 2 ^ 32)"
    using get_word_bytes [of "pre @ [item_byte 0 ty] @ word_bytes v" p "[0, 0, 0, 0] @ post"] MQid by (simp add: add.commute)
  have t: "peek ?st (Some (length pre)) = Some (ty mod 2 ^ 8)"
    using peek_byte [of pre ty "word_bytes v @ word_bytes p @ [0, 0, 0, 0] @ post"] MQid by simp
  have "Unmarshall [''b'', ''w'', ''d''] ?st (Some (length pre)) =
    ([VNum (ty mod 2 ^ 8), VNum (v mod 2 ^ 32), VNum (p mod 2 ^ 32)], Some (length pre + 13))"
    using v p t by (simp add: ahead_def sum_val_def elem_val_def)
  then show ?thesis using MQid assms by (simp add: qid_val_def)
qed (use assms in simp)

lemma unmarshall_struct:
  "list_all2 typed ts xs \<Longrightarrow> Unmarshall ts (pre @ struct_bytes ts xs @ post) (Some (length pre)) =
    (map2 field_val ts xs, Some (length pre + length (struct_bytes ts xs)))"
proof (induction ts xs arbitrary: pre rule: list_all2_induct)
  case Nil
  then show ?case by (simp add: struct_bytes_def)
next
  case (Cons t ts x xs)
  have b: "struct_bytes (t # ts) (x # xs) = field_bytes t x @ struct_bytes ts xs" by (simp add: struct_bytes_def)
  show ?case
    using Cons.IH [of "pre @ field_bytes t x"] unmarshall_field [OF Cons.hyps(1), of ts pre "struct_bytes ts xs @ post"]
    by (simp add: b ac_simps del: Unmarshall.simps)
qed

text \<open>
  Claim C12. What \<open>Marshall\<close> stores, \<open>Unmarshall\<close> reads back: for items of the kinds
  of the types that fit into the array, \<open>Marshall\<close> returns the number of bytes it stored, leaves
  every other byte as it was, and \<open>Unmarshall\<close> at the same offset returns the items and advances
  the offset by that number. Numbers come back reduced to the width of their field (a double word to
  its low 32 bits), strings as scalar values without a byte order mark at the front.
\<close>

theorem marshall_roundtrip:
  assumes "list_all2 typed ts xs" "off + length (struct_bytes ts xs) \<le> length st"
  shows "\<exists>n st1. Marshall ts xs st off = Inr (n, st1) \<and> length st1 = length st \<and>
    (\<forall>i. i < off \<or> off + n \<le> i \<longrightarrow> st1 ! i = st ! i) \<and>
    Unmarshall ts st1 (Some off) = (map2 field_val ts xs, Some (off + n))"
proof -
  let ?b = "struct_bytes ts xs"
  have "Unmarshall ts (blit off ?b st) (Some off) = (map2 field_val ts xs, Some (off + length ?b))"
    using unmarshall_struct [OF assms(1), of "take off st" "drop (off + length ?b) st"] assms(2)
    by (simp add: blit_def)
  moreover have "blit off ?b st ! i = st ! i" if "i < off \<or> off + length ?b \<le> i" for i
    using that assms(2) by (auto simp: blit_def nth_append)
  ultimately show ?thesis
    using marshall_loop_blit [OF assms, of 0] assms(2) by (auto simp: Marshall_def)
qed

theorem marshall_roundtrip_witness:
  "\<exists>n st1. Marshall [''b'', ''Q'', ''s'', ''w''] [MNum 300, MQid 1 2 3, MStr [104, 233], MNum (- 1)] (replicate 30 7) 1 = Inr (n, st1) \<and>
     length st1 = 30 \<and> (\<forall>i. i < 1 \<or> 1 + n \<le> i \<longrightarrow> st1 ! i = replicate 30 7 ! i) \<and>
     Unmarshall [''b'', ''Q'', ''s'', ''w''] st1 (Some 1) =
       ([VNum 44, VQid (VNum 1) (VNum 2) (VNum 3), VStr [104, 233], VNum 4294967295], Some (1 + n))"
  using marshall_roundtrip [of "[''b'', ''Q'', ''s'', ''w'']" "[MNum 300, MQid 1 2 3, MStr [104, 233], MNum (- 1)]" 1 "replicate 30 7"]
  by (simp add: struct_bytes_def text_encode_def utf8_char_def scalar_def surrogate_def drop_bom_def
      del: Unmarshall.simps)

end
