(* ===== verification/Machine_Clock.thy ===== *)
theory Machine_Clock
  imports Device
begin

text \<open>
  The time domain of the machine, \<open>src/machine_clock.js\<close>. Times are JavaScript numbers: a rational, an
  infinity or NaN. Every sum, difference and quotient is rounded by \<open>rnd\<close>, an argument of the operations:
  the results hold for every rounding that is monotone and idempotent and keeps 0, as the rounding of IEEE
  doubles does, and for exact arithmetic (a result too large for a double is left out). The host's monotonic
  clock and the source of committed instructions are sequences of readings that the clock consumes one by one; a
  count that is not an integer is None. An operation that throws returns the error with the state it left.
\<close>

section \<open>State\<close>

datatype clock_mode = Normal | Deterministic

datatype clock_error = Invalid_Configuration | Invalid_Host_Reading | Invalid_Instruction_Count | Invalid_Deadline
  | Invalid_Snapshot

record clock =
  clk_mode :: clock_mode
  instructions_per_ms :: rat
  max_host_delta_ms :: rat
  host_now :: "nat \<Rightarrow> jsnum"
  host_reads :: nat
  wall_epoch_ms :: rat
  time_ms :: jsnum
  instruction_count :: int
  idle_ms :: rat
  paused :: bool
  host_last :: jsnum
  host_pause_count :: nat
  discarded_host_ms :: jsnum
  host_backwards_count :: nat
  instruction_source :: "(nat \<Rightarrow> int option) option"
  source_reads :: nat

type_synonym 'a clock_result = "(clock_error + 'a) \<times> clock"

definition clock_bind :: "'a clock_result \<Rightarrow> ('a \<Rightarrow> clock \<Rightarrow> 'b clock_result) \<Rightarrow> 'b clock_result" where
  "clock_bind r f = (case r of (Inl e, c) \<Rightarrow> (Inl e, c) | (Inr x, c) \<Rightarrow> f x c)"

section \<open>Operations\<close>

definition read_host :: "clock \<Rightarrow> jsnum \<times> clock" where
  "read_host c = (host_now c (host_reads c), c\<lparr>host_reads := host_reads c + 1\<rparr>)"

text \<open>The constructor, with the options after their defaults and a mode that is one of the two.\<close>

definition MachineClock :: "clock_mode \<Rightarrow> jsnum \<Rightarrow> jsnum \<Rightarrow> (nat \<Rightarrow> jsnum) \<Rightarrow> jsnum \<Rightarrow> clock_error + clock" where
  "MachineClock mode per_ms max_delta host epoch =
     (case (per_ms, max_delta, epoch) of
        (Fin p, Fin m, Fin w) \<Rightarrow>
          if p \<le> 0 \<or> m \<le> 0 then Inl Invalid_Configuration
          else if \<not> is_finite (host 0) then Inl Invalid_Host_Reading
          else Inr \<lparr>clk_mode = mode, instructions_per_ms = p, max_host_delta_ms = m,
               host_now = host, host_reads = 1, wall_epoch_ms = w, time_ms = Fin 0, instruction_count = 0, idle_ms = 0,
               paused = False, host_last = host 0, host_pause_count = 0, discarded_host_ms = Fin 0,
               host_backwards_count = 0, instruction_source = None, source_reads = 0\<rparr>
      | _ \<Rightarrow> Inl Invalid_Configuration)"

definition safe_integer :: "int \<Rightarrow> bool" where
  "safe_integer i \<longleftrightarrow> \<bar>i\<bar> < 2 ^ 53"

definition commit_instructions :: "(rat \<Rightarrow> rat) \<Rightarrow> int option \<Rightarrow> clock \<Rightarrow> unit clock_result" where
  "commit_instructions rnd count c =
     (case count of
        None \<Rightarrow> (Inl Invalid_Instruction_Count, c)
      | Some n \<Rightarrow>
          if \<not> safe_integer n \<or> n < 0 \<or> \<not> safe_integer (instruction_count c + n)
          then (Inl Invalid_Instruction_Count, c)
          else if clk_mode c = Deterministic \<and> \<not> paused c
          then let c1 = c\<lparr>instruction_count := instruction_count c + n\<rparr>
               in (Inr (), c1\<lparr>time_ms := Fin (rnd (rnd (of_int (instruction_count c1) / instructions_per_ms c1) + idle_ms c1))\<rparr>)
          else (Inr (), c))"

text \<open>The part of \<open>now\<close> that takes in a reading of the host clock.\<close>

definition take_host_delta :: "(rat \<Rightarrow> rat) \<Rightarrow> jsnum \<Rightarrow> clock \<Rightarrow> clock" where
  "take_host_delta rnd host c =
     (let delta = js_sub rnd host (host_last c)
      in if js_less delta (Fin 0) then c\<lparr>host_backwards_count := host_backwards_count c + 1\<rparr>
         else let c1 = c\<lparr>host_last := host\<rparr>;
                  c2 = (if js_less (Fin (max_host_delta_ms c1)) delta
                        then c1\<lparr>host_pause_count := host_pause_count c1 + 1,
                                discarded_host_ms := js_add rnd (discarded_host_ms c1) (js_sub rnd delta (Fin (max_host_delta_ms c1)))\<rparr>
                        else c1)
              in c2\<lparr>time_ms := js_add rnd (time_ms c2) (js_min delta (Fin (max_host_delta_ms c2)))\<rparr>)"

definition consume_source :: "(rat \<Rightarrow> rat) \<Rightarrow> clock \<Rightarrow> unit clock_result" where
  "consume_source rnd c =
     (if \<not> paused c \<and> clk_mode c = Deterministic
      then case instruction_source c of
             None \<Rightarrow> (Inr (), c)
           | Some src \<Rightarrow> commit_instructions rnd (src (source_reads c)) (c\<lparr>source_reads := source_reads c + 1\<rparr>)
      else (Inr (), c))"

definition now :: "(rat \<Rightarrow> rat) \<Rightarrow> clock \<Rightarrow> jsnum clock_result" where
  "now rnd c =
     clock_bind (consume_source rnd c) (\<lambda>_ c1.
       if \<not> paused c1 \<and> clk_mode c1 = Normal
       then let (host, c2) = read_host c1
            in if \<not> is_finite host then (Inl Invalid_Host_Reading, c2)
               else let c3 = take_host_delta rnd host c2 in (Inr (time_ms c3), c3)
       else (Inr (time_ms c1), c1))"

definition wall_time :: "(rat \<Rightarrow> rat) \<Rightarrow> clock \<Rightarrow> jsnum clock_result" where
  "wall_time rnd c = clock_bind (now rnd c) (\<lambda>t c1. (Inr (js_add rnd (Fin (wall_epoch_ms c)) t), c1))"

definition advance_instructions :: "(rat \<Rightarrow> rat) \<Rightarrow> int option \<Rightarrow> clock \<Rightarrow> jsnum clock_result" where
  "advance_instructions rnd count c = clock_bind (commit_instructions rnd count c) (\<lambda>_. now rnd)"

definition set_instruction_source :: "(rat \<Rightarrow> rat) \<Rightarrow> (nat \<Rightarrow> int option) option \<Rightarrow> clock \<Rightarrow> unit clock_result" where
  "set_instruction_source rnd src c =
     clock_bind (now rnd c) (\<lambda>_ c1. (Inr (), c1\<lparr>instruction_source := src, source_reads := 0\<rparr>))"

text \<open>
  A jump over idle time. No jump is made from a time that is NaN, since the deadline is not later than
  that; an infinite time does not occur.
\<close>

definition jump_to :: "(rat \<Rightarrow> rat) \<Rightarrow> rat \<Rightarrow> clock \<Rightarrow> clock" where
  "jump_to rnd d c =
     (case time_ms c of
        Fin t \<Rightarrow> if clk_mode c = Deterministic \<and> \<not> paused c \<and> d > t
                 then c\<lparr>idle_ms := rnd (idle_ms c + rnd (d - t)), time_ms := Fin d\<rparr>
                 else c
      | _ \<Rightarrow> c)"

definition advance_to :: "(rat \<Rightarrow> rat) \<Rightarrow> jsnum \<Rightarrow> clock \<Rightarrow> jsnum clock_result" where
  "advance_to rnd deadline c =
     clock_bind (now rnd c) (\<lambda>_ c1.
       case deadline of
         Fin d \<Rightarrow> if d < 0 then (Inl Invalid_Deadline, c1) else now rnd (jump_to rnd d c1)
       | _ \<Rightarrow> (Inl Invalid_Deadline, c1))"

definition pause :: "(rat \<Rightarrow> rat) \<Rightarrow> clock \<Rightarrow> unit clock_result" where
  "pause rnd c = clock_bind (now rnd c) (\<lambda>_ c1. (Inr (), c1\<lparr>paused := True\<rparr>))"

text \<open>\<open>resume\<close> stores the reading of the host clock without a check.\<close>

definition resume :: "clock \<Rightarrow> unit clock_result" where
  "resume c =
     (if paused c then let (h, c1) = read_host c in (Inr (), c1\<lparr>host_last := h, paused := False\<rparr>)
      else (Inr (), c))"

definition get_diagnostics :: "clock \<Rightarrow> nat \<times> jsnum \<times> nat \<times> int \<times> rat" where
  "get_diagnostics c =
     (host_pause_count c, discarded_host_ms c, host_backwards_count c, instruction_count c, idle_ms c)"

section \<open>Snapshots\<close>

text \<open>The array of \<open>get_state\<close>; None is a number that is not an integer, or a mode that is none of the two.\<close>

record clock_state =
  st_version :: int
  st_mode :: "clock_mode option"
  st_time :: jsnum
  st_epoch :: jsnum
  st_per_ms :: jsnum
  st_max_delta :: jsnum
  st_instructions :: "int option"
  st_idle :: jsnum
  st_pauses :: "int option"
  st_discarded :: jsnum
  st_backwards :: "int option"

definition clk_get_state :: "(rat \<Rightarrow> rat) \<Rightarrow> clock \<Rightarrow> clock_state clock_result" where
  "clk_get_state rnd c =
     clock_bind (now rnd c) (\<lambda>t c1.
       (Inr \<lparr>st_version = 1, st_mode = Some (clk_mode c1), st_time = t, st_epoch = Fin (wall_epoch_ms c1),
             st_per_ms = Fin (instructions_per_ms c1), st_max_delta = Fin (max_host_delta_ms c1),
             st_instructions = Some (instruction_count c1), st_idle = Fin (idle_ms c1),
             st_pauses = Some (int (host_pause_count c1)), st_discarded = discarded_host_ms c1,
             st_backwards = Some (int (host_backwards_count c1))\<rparr>, c1))"

fun finite_where :: "(rat \<Rightarrow> bool) \<Rightarrow> jsnum \<Rightarrow> bool" where
  "finite_where P (Fin r) = P r"
| "finite_where P _ = False"

definition natural_safe :: "int option \<Rightarrow> bool" where
  "natural_safe x = (case x of None \<Rightarrow> False | Some n \<Rightarrow> safe_integer n \<and> 0 \<le> n)"

definition valid_snapshot :: "clock_state \<Rightarrow> bool" where
  "valid_snapshot s \<longleftrightarrow>
     st_version s = 1 \<and> st_mode s \<noteq> None \<and> finite_where (\<lambda>x. 0 \<le> x) (st_time s) \<and> finite_where (\<lambda>x. True) (st_epoch s) \<and>
     finite_where (\<lambda>x. 0 < x) (st_per_ms s) \<and> finite_where (\<lambda>x. 0 < x) (st_max_delta s) \<and>
     natural_safe (st_instructions s) \<and> finite_where (\<lambda>x. 0 \<le> x) (st_idle s) \<and>
     natural_safe (st_pauses s) \<and> finite_where (\<lambda>x. 0 \<le> x) (st_discarded s) \<and> natural_safe (st_backwards s)"

definition clk_set_state :: "clock_state \<Rightarrow> clock \<Rightarrow> unit clock_result" where
  "clk_set_state s c =
     (if \<not> valid_snapshot s then (Inl Invalid_Snapshot, c)
      else let c1 = c\<lparr>clk_mode := the (st_mode s), time_ms := st_time s, wall_epoch_ms := fin_val (st_epoch s),
                      instructions_per_ms := fin_val (st_per_ms s), max_host_delta_ms := fin_val (st_max_delta s),
                      instruction_count := the (st_instructions s), idle_ms := fin_val (st_idle s),
                      host_pause_count := nat (the (st_pauses s)), discarded_host_ms := st_discarded s,
                      host_backwards_count := nat (the (st_backwards s))\<rparr>;
               (h, c2) = read_host c1
           in (Inr (), c2\<lparr>host_last := h\<rparr>))"

section \<open>Events\<close>

datatype clock_event =
    EvNow
  | EvWallTime
  | EvCommit "int option"
  | EvAdvance "int option"
  | EvAdvanceTo jsnum
  | EvSource "(nat \<Rightarrow> int option) option"
  | EvPause
  | EvResume
  | EvRestore clock_state

fun clock_step :: "(rat \<Rightarrow> rat) \<Rightarrow> clock_event \<Rightarrow> clock \<Rightarrow> clock" where
  "clock_step rnd EvNow c = snd (now rnd c)"
| "clock_step rnd EvWallTime c = snd (wall_time rnd c)"
| "clock_step rnd (EvCommit n) c = snd (commit_instructions rnd n c)"
| "clock_step rnd (EvAdvance n) c = snd (advance_instructions rnd n c)"
| "clock_step rnd (EvAdvanceTo d) c = snd (advance_to rnd d c)"
| "clock_step rnd (EvSource s) c = snd (set_instruction_source rnd s c)"
| "clock_step rnd EvPause c = snd (pause rnd c)"
| "clock_step rnd EvResume c = snd (resume c)"
| "clock_step rnd (EvRestore s) c = snd (clk_set_state s c)"

fun is_restore :: "clock_event \<Rightarrow> bool" where
  "is_restore (EvRestore s) \<longleftrightarrow> True"
| "is_restore _ \<longleftrightarrow> False"

fun is_jump :: "clock_event \<Rightarrow> bool" where
  "is_jump (EvAdvanceTo d) \<longleftrightarrow> True"
| "is_jump _ \<longleftrightarrow> False"

section \<open>Invariant\<close>

text \<open>What the rounding of doubles guarantees.\<close>

definition is_rounding :: "(rat \<Rightarrow> rat) \<Rightarrow> bool" where
  "is_rounding rnd \<longleftrightarrow> mono rnd \<and> rnd 0 = 0 \<and> (\<forall>x. rnd (rnd x) = rnd x)"

text \<open>The time that the next commit gives a deterministic clock, at least.\<close>

definition det_time :: "(rat \<Rightarrow> rat) \<Rightarrow> int \<Rightarrow> rat \<Rightarrow> rat \<Rightarrow> rat" where
  "det_time rnd count per idle = rnd (rnd (of_int count / per) + idle)"

text \<open>
  The time is NaN or a number that is not negative and representable. In deterministic mode it is a
  number that the next commit does not undercut.
\<close>

definition time_ok :: "(rat \<Rightarrow> rat) \<Rightarrow> clock_mode \<Rightarrow> int \<Rightarrow> rat \<Rightarrow> rat \<Rightarrow> jsnum \<Rightarrow> bool" where
  "time_ok rnd mode count per idle time \<longleftrightarrow>
     (mode = Normal \<and> time = Not_A_Number) \<or>
     (\<exists>t. time = Fin t \<and> 0 \<le> t \<and> rnd t = t \<and> (mode = Deterministic \<longrightarrow> t \<le> det_time rnd count per idle))"

definition clock_inv :: "(rat \<Rightarrow> rat) \<Rightarrow> clock \<Rightarrow> bool" where
  "clock_inv rnd c \<longleftrightarrow>
     0 < instructions_per_ms c \<and> 0 < max_host_delta_ms c \<and> 0 \<le> instruction_count c \<and>
     safe_integer (instruction_count c) \<and> 0 \<le> idle_ms c \<and>
     time_ok rnd (clk_mode c) (instruction_count c) (instructions_per_ms c) (idle_ms c) (time_ms c)"

text \<open>One time is not before another; NaN, which compares with nothing, is where a time can get stuck.\<close>

definition time_le :: "jsnum \<Rightarrow> jsnum \<Rightarrow> bool" where
  "time_le s t \<longleftrightarrow> t = Not_A_Number \<or> (\<exists>x y. s = Fin x \<and> t = Fin y \<and> x \<le> y)"

lemma time_le_trans: "time_le s t \<Longrightarrow> time_le t u \<Longrightarrow> time_le s u"
  by (auto simp: time_le_def)

lemma time_le_refl: "time_ok rnd mode count per idle t \<Longrightarrow> time_le t t"
  by (auto simp: time_ok_def time_le_def)

lemma rounding:
  assumes "is_rounding rnd"
  shows "rnd 0 = 0" "rnd (rnd x) = rnd x" "x \<le> y \<Longrightarrow> rnd x \<le> rnd y" "0 \<le> x \<Longrightarrow> 0 \<le> rnd x"
proof -
  show "rnd 0 = 0" "rnd (rnd x) = rnd x" "x \<le> y \<Longrightarrow> rnd x \<le> rnd y"
    using assms by (auto simp: is_rounding_def dest: monoD)
  then show "0 \<le> x \<Longrightarrow> 0 \<le> rnd x" using assms by (metis is_rounding_def monoD)
qed

lemma det_time_mono:
  assumes "is_rounding rnd" "0 < per" "m \<le> n" "i \<le> j"
  shows "det_time rnd m per i \<le> det_time rnd n per j"
proof -
  have "(of_int m :: rat) / per \<le> of_int n / per" using assms(2,3) by (intro divide_right_mono) auto
  then have "rnd (of_int m / per) + i \<le> rnd (of_int n / per) + j"
    using assms(4) rounding(3) [OF assms(1)] by (intro add_mono) auto
  then show ?thesis unfolding det_time_def by (rule rounding(3) [OF assms(1)])
qed

lemma det_time_nonneg: "is_rounding rnd \<Longrightarrow> 0 < per \<Longrightarrow> 0 \<le> n \<Longrightarrow> 0 \<le> i \<Longrightarrow> 0 \<le> det_time rnd n per i"
proof -
  assume a: "is_rounding rnd" "0 < per" "0 \<le> n" "0 \<le> i"
  then have "0 \<le> rnd (of_int n / per) + i" using rounding(4) [OF a(1), of "of_int n / per"] by simp
  then show ?thesis unfolding det_time_def by (rule rounding(4) [OF a(1)])
qed

text \<open>What an operation keeps: the invariant, the configuration, and the time does not go back.\<close>

definition clock_le :: "(rat \<Rightarrow> rat) \<Rightarrow> clock \<Rightarrow> clock \<Rightarrow> bool" where
  "clock_le rnd c d \<longleftrightarrow>
     (is_rounding rnd \<and> clock_inv rnd c \<longrightarrow> clock_inv rnd d \<and> time_le (time_ms c) (time_ms d)) \<and> clk_mode d = clk_mode c \<and>
     instructions_per_ms d = instructions_per_ms c \<and> max_host_delta_ms d = max_host_delta_ms c \<and>
     wall_epoch_ms d = wall_epoch_ms c"

lemma clock_le_refl: "clock_le rnd c c"
  by (auto simp: clock_le_def clock_inv_def intro: time_le_refl)

lemma clock_le_trans: "clock_le rnd c d \<Longrightarrow> clock_le rnd d e \<Longrightarrow> clock_le rnd c e"
  unfolding clock_le_def by (metis time_le_trans)

lemma clock_le_fields:
  assumes "clk_mode d = clk_mode c" "instructions_per_ms d = instructions_per_ms c" "max_host_delta_ms d = max_host_delta_ms c"
    "wall_epoch_ms d = wall_epoch_ms c" "time_ms d = time_ms c" "instruction_count d = instruction_count c"
    "idle_ms d = idle_ms c"
  shows "clock_le rnd c d"
  using assms by (auto simp: clock_le_def clock_inv_def intro: time_le_refl)

lemma clock_bind_rel:
  assumes "\<And>a b c. R a b \<Longrightarrow> R b c \<Longrightarrow> R a c"
    and "R c (snd r)" "\<And>x d. r = (Inr x, d) \<Longrightarrow> R c d \<Longrightarrow> R d (snd (f x d))"
  shows "R c (snd (clock_bind r f))"
proof (cases r)
  case (Pair y d)
  show ?thesis
  proof (cases y)
    case (Inr x)
    have "R c d" using assms(2) Pair by simp
    from assms(1) [OF this assms(3) [of x d]] this Pair Inr show ?thesis by (simp add: clock_bind_def)
  qed (use assms(2) Pair in \<open>simp add: clock_bind_def\<close>)
qed

lemma clock_le_bind:
  "clock_le rnd c (snd r) \<Longrightarrow> (\<And>x d. r = (Inr x, d) \<Longrightarrow> clock_le rnd c d \<Longrightarrow> clock_le rnd d (snd (f x d))) \<Longrightarrow>
   clock_le rnd c (snd (clock_bind r f))"
  by (rule clock_bind_rel [of "clock_le rnd", OF clock_le_trans])

lemma committed_le:
  assumes "0 \<le> n" "safe_integer (instruction_count c + n)" "clk_mode c = Deterministic"
  shows "clock_le rnd c (c\<lparr>instruction_count := instruction_count c + n,
    time_ms := Fin (det_time rnd (instruction_count c + n) (instructions_per_ms c) (idle_ms c))\<rparr>)"
proof -
  have "time_ok rnd Deterministic (instruction_count c + n) (instructions_per_ms c) (idle_ms c) (Fin t) \<and> time_le (time_ms c) (Fin t)"
    if "is_rounding rnd" "clock_inv rnd c" "t = det_time rnd (instruction_count c + n) (instructions_per_ms c) (idle_ms c)" for t
    using that assms det_time_mono [of rnd "instructions_per_ms c" "instruction_count c" "instruction_count c + n" "idle_ms c" "idle_ms c"]
      det_time_nonneg [of rnd "instructions_per_ms c" "instruction_count c + n" "idle_ms c"]
    by (auto simp: time_ok_def time_le_def clock_inv_def rounding(2) det_time_def)
  then show ?thesis using assms by (auto simp: clock_le_def clock_inv_def)
qed

lemma commit_le: "clock_le rnd c (snd (commit_instructions rnd n c))"
  using committed_le [of _ c rnd]
  by (auto simp: commit_instructions_def clock_le_refl Let_def det_time_def split: option.split)

lemma take_host_delta_le:
  assumes "clk_mode c = Normal" shows "clock_le rnd c (take_host_delta rnd (Fin h) c)"
proof -
  have "time_ok rnd Normal k p i (js_add rnd t m) \<and> time_le t (js_add rnd t m)"
    if "is_rounding rnd" "time_ok rnd Normal k p i t" "m = Not_A_Number \<or> (\<exists>r. m = Fin r \<and> 0 \<le> r)" for k p i t m
  proof -
    have s: "x \<le> rnd (x + r)" "0 \<le> rnd (x + r)" if "0 \<le> x" "rnd x = x" "0 \<le> r" for x r
      using rounding(3) [OF \<open>is_rounding rnd\<close>, of x "x + r"] that by simp_all
    show ?thesis using that s rounding(2) [OF that(1)] by (auto simp: time_ok_def time_le_def)
  qed
  moreover have "js_min d (Fin m) = Not_A_Number \<or> (\<exists>r. js_min d (Fin m) = Fin r \<and> 0 \<le> r)"
    if "\<not> js_less d (Fin 0)" "0 < m" for d m
    using that by (cases d) (auto simp: js_min_def)
  ultimately show ?thesis
    using assms by (auto simp: take_host_delta_def clock_le_def clock_inv_def Let_def intro: time_le_refl)
qed

lemma now_le: "clock_le rnd c (snd (now rnd c))"
proof -
  have "clock_le rnd c (c\<lparr>source_reads := n\<rparr>)" for n by (rule clock_le_fields) simp_all
  then have "clock_le rnd c (snd (consume_source rnd c))"
    by (auto simp: consume_source_def clock_le_refl split: option.split intro: clock_le_trans commit_le)
  moreover have h: "clock_le rnd d (d\<lparr>host_reads := n\<rparr>)" for d n by (rule clock_le_fields) simp_all
  moreover have "clock_le rnd d (take_host_delta rnd x (d\<lparr>host_reads := n\<rparr>))" if "clk_mode d = Normal" "is_finite x" for d x n
    using that take_host_delta_le [of "d\<lparr>host_reads := n\<rparr>" rnd] by (cases x) (auto intro: clock_le_trans [OF h [of d n]])
  ultimately show ?thesis
    unfolding now_def by (intro clock_le_bind) (simp_all add: read_host_def Let_def clock_le_refl)
qed

text \<open>A jump keeps the order in normal mode, where it does nothing, and in exact arithmetic.\<close>

lemma jump_to_le:
  assumes "clk_mode c = Normal \<or> (\<forall>x. rnd x = x)"
  shows "clock_le rnd c (jump_to rnd x c)"
proof (cases "\<exists>t. time_ms c = Fin t \<and> clk_mode c = Deterministic \<and> \<not> paused c \<and> x > t")
  case True
  then have e: "rnd y = y" for y using assms by auto
  show ?thesis using True by (auto simp: jump_to_def clock_le_def clock_inv_def time_ok_def time_le_def det_time_def e)
next
  case False
  then have "jump_to rnd x c = c" by (auto simp: jump_to_def split: jsnum.split)
  then show ?thesis by (simp add: clock_le_refl)
qed

lemma advance_to_le:
  assumes "clk_mode c = Normal \<or> (\<forall>x. rnd x = x)"
  shows "clock_le rnd c (snd (advance_to rnd d c))"
  unfolding advance_to_def
proof (rule clock_le_bind [OF now_le])
  fix c1 assume "clock_le rnd c c1"
  then have "clk_mode c1 = Normal \<or> (\<forall>x. rnd x = x)" using assms by (simp add: clock_le_def)
  then have "clock_le rnd c1 (snd (now rnd (jump_to rnd x c1)))" for x
    by (intro clock_le_trans [OF jump_to_le now_le])
  then show "clock_le rnd c1 (snd (case d of
      Fin x \<Rightarrow> if x < 0 then (Inl Invalid_Deadline, c1) else now rnd (jump_to rnd x c1) | _ \<Rightarrow> (Inl Invalid_Deadline, c1)))"
    by (cases d) (simp_all add: clock_le_refl)
qed

lemma resume_le: "clock_le rnd c (snd (resume c))"
  by (auto simp: resume_def read_host_def clock_le_refl Let_def intro!: clock_le_fields)

lemma pause_le: "clock_le rnd c (snd (pause rnd c))"
  unfolding pause_def by (rule clock_le_bind [OF now_le]) (simp add: clock_le_fields)

lemma set_instruction_source_le: "clock_le rnd c (snd (set_instruction_source rnd src c))"
  unfolding set_instruction_source_def by (rule clock_le_bind [OF now_le]) (simp add: clock_le_fields)

lemma advance_instructions_le: "clock_le rnd c (snd (advance_instructions rnd n c))"
  unfolding advance_instructions_def by (rule clock_le_bind [OF commit_le]) (rule now_le)

lemma wall_time_le: "clock_le rnd c (snd (wall_time rnd c))"
  unfolding wall_time_def by (rule clock_le_bind [OF now_le]) (simp add: clock_le_refl)

lemmas clock_op_le = now_le wall_time_le commit_le advance_instructions_le set_instruction_source_le pause_le resume_le

lemma clock_step_le:
  "\<not> is_restore e \<Longrightarrow> is_jump e \<Longrightarrow> clk_mode c = Normal \<or> (\<forall>x. rnd x = x) \<Longrightarrow> clock_le rnd c (clock_step rnd e c)"
  "\<not> is_restore e \<Longrightarrow> \<not> is_jump e \<Longrightarrow> clock_le rnd c (clock_step rnd e c)"
  by (cases e; simp add: clock_op_le advance_to_le)+

section \<open>Restoring\<close>

text \<open>A snapshot whose time agrees with its other fields, as \<open>set_state\<close> does not check.\<close>

definition consistent_snapshot :: "(rat \<Rightarrow> rat) \<Rightarrow> clock_state \<Rightarrow> bool" where
  "consistent_snapshot rnd s \<longleftrightarrow>
     time_ok rnd (the (st_mode s)) (the (st_instructions s)) (fin_val (st_per_ms s)) (fin_val (st_idle s)) (st_time s)"

lemma finite_where_val: "finite_where P x \<Longrightarrow> \<exists>r. x = Fin r \<and> P r"
  by (cases x) simp_all

lemma restore_inv:
  assumes "clock_inv rnd c" "consistent_snapshot rnd s" shows "clock_inv rnd (snd (clk_set_state s c))"
proof (cases "valid_snapshot s")
  case True
  then have "0 < fin_val (st_per_ms s)" "0 < fin_val (st_max_delta s)" "0 \<le> fin_val (st_idle s)"
    "0 \<le> the (st_instructions s)" "safe_integer (the (st_instructions s))"
    by (auto simp: valid_snapshot_def natural_safe_def dest!: finite_where_val split: option.splits)
  then show ?thesis
    using True assms(2) by (simp add: clk_set_state_def read_host_def clock_inv_def consistent_snapshot_def Let_def)
qed (simp add: clk_set_state_def assms)

lemma now_time: "now rnd c = (Inr t, d) \<Longrightarrow> t = time_ms d"
  by (auto simp: now_def clock_bind_def read_host_def Let_def split: prod.splits sum.splits if_splits)

text \<open>The snapshots that a clock takes of itself are consistent.\<close>

lemma get_state_consistent:
  assumes "is_rounding rnd" "clock_inv rnd c" "clk_get_state rnd c = (Inr s, d)"
  shows "consistent_snapshot rnd s"
proof -
  obtain t where n: "now rnd c = (Inr t, d)" and s: "s = \<lparr>st_version = 1, st_mode = Some (clk_mode d), st_time = t,
      st_epoch = Fin (wall_epoch_ms d), st_per_ms = Fin (instructions_per_ms d), st_max_delta = Fin (max_host_delta_ms d),
      st_instructions = Some (instruction_count d), st_idle = Fin (idle_ms d), st_pauses = Some (int (host_pause_count d)),
      st_discarded = discarded_host_ms d, st_backwards = Some (int (host_backwards_count d))\<rparr>"
    using assms(3) by (auto simp: clk_get_state_def clock_bind_def split: prod.splits sum.splits)
  have "clock_inv rnd d" using now_le [of rnd c] n assms(1,2) by (simp add: clock_le_def)
  then show ?thesis using now_time [OF n] by (simp add: s consistent_snapshot_def clock_inv_def)
qed

section \<open>NaN\<close>

text \<open>As long as the host clock shows no NaN, neither does the machine's.\<close>

definition number_clock :: "clock \<Rightarrow> bool" where
  "number_clock c \<longleftrightarrow> (\<forall>n. host_now c n \<noteq> Not_A_Number) \<and> host_last c \<noteq> Not_A_Number \<and> time_ms c \<noteq> Not_A_Number"

definition keeps_number :: "clock \<Rightarrow> clock \<Rightarrow> bool" where
  "keeps_number c d \<longleftrightarrow> (number_clock c \<longrightarrow> number_clock d)"

lemma keeps_number_refl: "keeps_number c c"
  by (simp add: keeps_number_def)

lemma keeps_number_trans: "keeps_number a b \<Longrightarrow> keeps_number b c \<Longrightarrow> keeps_number a c"
  by (simp add: keeps_number_def)

lemma keeps_number_bind:
  "keeps_number c (snd r) \<Longrightarrow> (\<And>x d. r = (Inr x, d) \<Longrightarrow> keeps_number c d \<Longrightarrow> keeps_number d (snd (f x d))) \<Longrightarrow>
   keeps_number c (snd (clock_bind r f))"
  by (rule clock_bind_rel [of keeps_number, OF keeps_number_trans])

lemma take_host_number: "keeps_number c (take_host_delta rnd (Fin h) c)"
proof -
  have "js_sub rnd (Fin h) l \<noteq> Not_A_Number" if "l \<noteq> Not_A_Number" for l using that by (cases l) (auto simp: js_sub_def)
  moreover have "js_add rnd t (js_min d (Fin m)) \<noteq> Not_A_Number"
    if "t \<noteq> Not_A_Number" "d \<noteq> Not_A_Number" "\<not> js_less d (Fin 0)" for t d m
    using that by (cases t; cases d) (auto simp: js_min_def)
  ultimately show ?thesis by (auto simp: keeps_number_def number_clock_def take_host_delta_def Let_def)
qed

lemma commit_number: "keeps_number c (snd (commit_instructions rnd n c))"
  by (auto simp: keeps_number_def number_clock_def commit_instructions_def Let_def split: option.split)

lemma now_number: "keeps_number c (snd (now rnd c))"
proof -
  have "keeps_number c (snd (consume_source rnd c))"
    using commit_number [of "c\<lparr>source_reads := source_reads c + 1\<rparr>" rnd]
    by (simp add: consume_source_def keeps_number_def number_clock_def split: option.split)
  moreover have "keeps_number d (take_host_delta rnd x (d\<lparr>host_reads := n\<rparr>))" if "is_finite x" for d x n
    using that take_host_number [of "d\<lparr>host_reads := n\<rparr>" rnd] by (cases x) (simp_all add: keeps_number_def number_clock_def)
  moreover have "keeps_number d (d\<lparr>host_reads := n\<rparr>)" for d n by (simp add: keeps_number_def number_clock_def)
  ultimately show ?thesis
    unfolding now_def by (intro keeps_number_bind) (simp_all add: read_host_def Let_def keeps_number_refl)
qed

lemma clock_step_number: "keeps_number c (clock_step rnd e c)"
proof (cases e)
  case (EvAdvanceTo d)
  have "keeps_number c1 (jump_to rnd x c1)" for c1 x
    by (simp add: keeps_number_def number_clock_def jump_to_def split: jsnum.split)
  then have "keeps_number c1 (snd (now rnd (jump_to rnd x c1)))" for c1 x by (rule keeps_number_trans [OF _ now_number])
  then have "keeps_number c (snd (advance_to rnd d c))"
    unfolding advance_to_def by (intro keeps_number_bind [OF now_number]) (cases d; simp add: keeps_number_refl)
  then show ?thesis using EvAdvanceTo by simp
next
  case (EvRestore s)
  have "st_time s \<noteq> Not_A_Number" if "valid_snapshot s" using that by (auto simp: valid_snapshot_def)
  then show ?thesis using EvRestore
    by (auto simp: clk_set_state_def read_host_def keeps_number_def number_clock_def Let_def)
next
  case EvResume
  then show ?thesis by (simp add: resume_def read_host_def keeps_number_def number_clock_def Let_def)
next
  case EvPause
  have "keeps_number c1 (c1\<lparr>paused := True\<rparr>)" for c1 by (simp add: keeps_number_def number_clock_def)
  then show ?thesis using EvPause by (simp add: pause_def keeps_number_bind [OF now_number])
next
  case (EvSource src)
  have "keeps_number c1 (c1\<lparr>instruction_source := src, source_reads := 0\<rparr>)" for c1 by (simp add: keeps_number_def number_clock_def)
  then show ?thesis using EvSource by (simp add: set_instruction_source_def keeps_number_bind [OF now_number])
qed (simp_all add: now_number commit_number wall_time_def advance_instructions_def keeps_number_refl
    keeps_number_bind [OF now_number] keeps_number_bind [OF commit_number])

lemma clock_run_number: "number_clock c \<Longrightarrow> number_clock (run (clock_step rnd) es c)"
  using clock_step_number by (induction es arbitrary: c) (simp_all add: keeps_number_def)

section \<open>Runs\<close>

text \<open>A state whose steps keep an order, apart from some events that only keep the invariant.\<close>

locale ordered_run =
  fixes step :: "'e \<Rightarrow> 's \<Rightarrow> 's" and le :: "'s \<Rightarrow> 's \<Rightarrow> bool" and good :: "'s \<Rightarrow> bool"
    and ok :: "'e \<Rightarrow> bool" and forward :: "'e \<Rightarrow> bool"
  assumes good_step: "good s \<Longrightarrow> ok e \<Longrightarrow> good (step e s)"
    and le_step: "good s \<Longrightarrow> ok e \<Longrightarrow> forward e \<Longrightarrow> le s (step e s)"
    and le_refl: "good s \<Longrightarrow> le s s"
    and le_trans: "le s t \<Longrightarrow> le t u \<Longrightarrow> le s u"
begin

lemma good_run: "good s \<Longrightarrow> list_all ok es \<Longrightarrow> good (run step es s)"
  by (induction es arbitrary: s) (simp_all add: good_step)

lemma le_run: "good s \<Longrightarrow> list_all ok es \<Longrightarrow> list_all forward es \<Longrightarrow> le s (run step es s)"
proof (induction es arbitrary: s)
  case (Cons e es)
  then have "le s (step e s)" "le (step e s) (run step es (step e s))" by (simp_all add: le_step good_step)
  then show ?case using le_trans by simp
qed (simp add: le_refl)

lemma le_prefix:
  "good s \<Longrightarrow> list_all ok (es @ fs) \<Longrightarrow> list_all forward fs \<Longrightarrow> le (run step es s) (run step (es @ fs) s)"
  by (simp add: run_append le_run good_run)

end

text \<open>
  Jumps keep the order if the clock stays in normal mode (\<open>nrm\<close>) or the arithmetic is exact;
  \<open>jmp\<close> says whether there are any.
\<close>

definition clock_good :: "(rat \<Rightarrow> rat) \<Rightarrow> bool \<Rightarrow> bool \<Rightarrow> clock \<Rightarrow> bool" where
  "clock_good rnd nrm jmp c \<longleftrightarrow> is_rounding rnd \<and> clock_inv rnd c \<and> (nrm \<longrightarrow> clk_mode c = Normal) \<and>
     (jmp \<longrightarrow> nrm \<or> (\<forall>x. rnd x = x))"

definition event_ok :: "(rat \<Rightarrow> rat) \<Rightarrow> bool \<Rightarrow> bool \<Rightarrow> clock_event \<Rightarrow> bool" where
  "event_ok rnd nrm jmp e \<longleftrightarrow> (is_jump e \<longrightarrow> jmp) \<and>
     (\<forall>s. e = EvRestore s \<longrightarrow> consistent_snapshot rnd s \<and> (nrm \<longrightarrow> st_mode s \<noteq> Some Deterministic))"

lemma clock_step_good:
  assumes "clock_good rnd nrm jmp c" "event_ok rnd nrm jmp e"
  shows "clock_good rnd nrm jmp (clock_step rnd e c)"
    and "\<not> is_restore e \<Longrightarrow> time_le (time_ms c) (time_ms (clock_step rnd e c))"
proof -
  have le: "clock_le rnd c (clock_step rnd e c)" if "\<not> is_restore e"
    using assms clock_step_le [OF that, where c = c and rnd = rnd] by (cases "is_jump e") (auto simp: clock_good_def event_ok_def)
  then show "\<not> is_restore e \<Longrightarrow> time_le (time_ms c) (time_ms (clock_step rnd e c))"
    using assms(1) by (simp add: clock_good_def clock_le_def)
  show "clock_good rnd nrm jmp (clock_step rnd e c)"
  proof (cases "is_restore e")
    case True
    then obtain s where e: "e = EvRestore s" by (cases e) simp_all
    have "clk_mode (snd (clk_set_state s c)) = Normal" if nrm
    proof -
      have "the (st_mode s) = Normal" if "valid_snapshot s"
        using that assms(2) e \<open>nrm\<close> by (cases "the (st_mode s)") (auto simp: event_ok_def valid_snapshot_def)
      then show ?thesis using assms(1) \<open>nrm\<close> by (simp add: clk_set_state_def read_host_def clock_good_def Let_def)
    qed
    then show ?thesis using assms e restore_inv [of rnd c s] by (simp add: clock_good_def event_ok_def)
  next
    case False
    then show ?thesis using le assms(1) by (simp add: clock_good_def clock_le_def)
  qed
qed

interpretation clockt: ordered_run "clock_step rnd" "\<lambda>c d. time_le (time_ms c) (time_ms d)" "clock_good rnd nrm jmp"
  "event_ok rnd nrm jmp" "\<lambda>e. \<not> is_restore e"
proof unfold_locales
  show "time_le (time_ms c) (time_ms c)" if "clock_good rnd nrm jmp c" for c
    using that time_le_refl by (auto simp: clock_good_def clock_inv_def)
qed (use clock_step_good time_le_trans in blast)+

lemma MachineClock_inv:
  "MachineClock mode p m host epoch = Inr c \<Longrightarrow> is_rounding rnd \<Longrightarrow>
   clock_inv rnd c \<and> clk_mode c = mode \<and> ((\<forall>n. host n \<noteq> Not_A_Number) \<longrightarrow> number_clock c)"
  using det_time_nonneg [of rnd _ 0 0]
  by (auto simp: MachineClock_def clock_inv_def safe_integer_def time_ok_def number_clock_def is_rounding_def
      split: if_splits jsnum.splits)

text \<open>
  The runs in which no jump can turn time back: with exact arithmetic, without jumps, or without
  deterministic mode. (With rounded arithmetic the idle time that a jump adds is rounded, and the next commit
  can give a time just below the deadline that was jumped to.)
\<close>

definition jumps_harmless :: "(rat \<Rightarrow> rat) \<Rightarrow> clock_mode \<Rightarrow> clock_event list \<Rightarrow> bool" where
  "jumps_harmless rnd mode es \<longleftrightarrow>
     (\<forall>x. rnd x = x) \<or> list_all (\<lambda>e. \<not> is_jump e) es \<or>
     (mode = Normal \<and> list_all (\<lambda>e. \<forall>s. e = EvRestore s \<longrightarrow> st_mode s \<noteq> Some Deterministic) es)"

definition restores_consistent :: "(rat \<Rightarrow> rat) \<Rightarrow> clock_event list \<Rightarrow> bool" where
  "restores_consistent rnd es \<longleftrightarrow> list_all (\<lambda>e. \<forall>s. e = EvRestore s \<longrightarrow> consistent_snapshot rnd s) es"

lemma run_good:
  assumes "is_rounding rnd" "clock_inv rnd c" "restores_consistent rnd es" "jumps_harmless rnd (clk_mode c) es"
  obtains nrm jmp where "clock_good rnd nrm jmp c" "list_all (event_ok rnd nrm jmp) es"
proof -
  consider "\<forall>x. rnd x = x" | "list_all (\<lambda>e. \<not> is_jump e) es"
    | "clk_mode c = Normal" "list_all (\<lambda>e. \<forall>s. e = EvRestore s \<longrightarrow> st_mode s \<noteq> Some Deterministic) es"
    using assms(4) by (auto simp: jumps_harmless_def)
  then show ?thesis
  proof cases
    case 1
    then show ?thesis using assms by (intro that [of False True])
        (auto simp: clock_good_def event_ok_def restores_consistent_def list_all_iff)
  next
    case 2
    then show ?thesis using assms by (intro that [of False False])
        (auto simp: clock_good_def event_ok_def restores_consistent_def list_all_iff)
  next
    case 3
    then show ?thesis using assms by (intro that [of True True])
        (auto simp: clock_good_def event_ok_def restores_consistent_def list_all_iff)
  qed
qed

text \<open>
  Claim C9. Machine time never goes back. Take a new clock and any events \<open>es\<close> (reading the time, committing
  instructions, jumping over idle time, pausing, resuming, changing the instruction source and restoring snapshots,
  with calls that throw and a host clock that runs backwards, jumps or shows infinities), followed by any events
  \<open>fs\<close> that restore no snapshot. Then the time after \<open>fs\<close> is not before the time after \<open>es\<close>, and what
  \<open>now\<close> returns after \<open>es\<close> is the time it leaves and not before the one it found. If the host clock never shows
  NaN, the time is always a number; a NaN read by \<open>resume\<close> or a restore can make it NaN. A restore sets exactly the
  time of a valid snapshot, and nothing of the clock changes if the snapshot is refused.
  This holds for every monotone and idempotent rounding that keeps 0, if the snapshots restored agree with
  themselves, as those taken by the clock do, and no jump is made in deterministic mode; and with such jumps
  for exact arithmetic.
\<close>

theorem clock_monotone:
  assumes "is_rounding rnd" "MachineClock mode per_ms max_delta host epoch = Inr c"
    and "restores_consistent rnd (es @ fs)" "jumps_harmless rnd mode (es @ fs)" "list_all (\<lambda>e. \<not> is_restore e) fs"
  shows "time_le (time_ms (run (clock_step rnd) es c)) (time_ms (run (clock_step rnd) (es @ fs) c)) \<and>
    (\<forall>t d. now rnd (run (clock_step rnd) es c) = (Inr t, d) \<longrightarrow> t = time_ms d \<and> time_le (time_ms (run (clock_step rnd) es c)) t) \<and>
    ((\<forall>n. host n \<noteq> Not_A_Number) \<longrightarrow> (\<exists>t. time_ms (run (clock_step rnd) (es @ fs) c) = Fin t \<and> 0 \<le> t)) \<and>
    (\<forall>s. if valid_snapshot s then time_ms (run (clock_step rnd) (es @ [EvRestore s]) c) = st_time s
         else run (clock_step rnd) (es @ [EvRestore s]) c = run (clock_step rnd) es c)"
proof -
  have i: "clock_inv rnd c" "clk_mode c = mode" "(\<forall>n. host n \<noteq> Not_A_Number) \<longrightarrow> number_clock c"
    using MachineClock_inv [OF assms(2,1)] by blast+
  obtain nrm jmp where g: "clock_good rnd nrm jmp c" "list_all (event_ok rnd nrm jmp) (es @ fs)"
    using run_good [OF assms(1) i(1) assms(3)] assms(4) i(2) by blast
  let ?d = "run (clock_step rnd) es c" and ?e = "run (clock_step rnd) (es @ fs) c"
  have inv: "clock_inv rnd ?d" "clock_inv rnd ?e"
    using clockt.good_run [OF g(1)] g(2) by (simp_all add: clock_good_def)
  have "time_le (time_ms ?d) (time_ms ?e)" using clockt.le_prefix [OF g] assms(5) by simp
  moreover have "t = time_ms d \<and> time_le (time_ms ?d) t" if "now rnd ?d = (Inr t, d)" for t d
    using now_time [OF that] now_le [of rnd ?d] that inv(1) assms(1) by (simp add: clock_le_def)
  moreover have "\<exists>t. time_ms ?e = Fin t \<and> 0 \<le> t" if "\<forall>n. host n \<noteq> Not_A_Number"
    using clock_run_number [of c rnd "es @ fs"] i(3) that inv(2) by (auto simp: number_clock_def clock_inv_def time_ok_def)
  moreover have "if valid_snapshot s then time_ms (run (clock_step rnd) (es @ [EvRestore s]) c) = st_time s
      else run (clock_step rnd) (es @ [EvRestore s]) c = ?d" for s
    by (simp add: run_append clk_set_state_def read_host_def Let_def)
  ultimately show ?thesis by blast
qed

text \<open>An example: numbers rounded to multiples of 1/1024, and a host clock that goes back and shows an infinity.\<close>

definition grid :: "rat \<Rightarrow> rat" where
  "grid x = of_int \<lfloor>x * 1024 + 1 / 2\<rfloor> / 1024"

lemma grid_rounding: "is_rounding grid"
  unfolding is_rounding_def
proof (intro conjI allI)
  show "mono grid" by (auto simp: mono_def grid_def intro!: divide_right_mono floor_mono)
  have h: "\<lfloor>1 / 2 :: rat\<rfloor> = 0" by (rule floor_unique) simp_all
  then show "grid 0 = 0" by (simp add: grid_def)
  show "grid (grid x) = grid x" for x by (simp add: grid_def h)
qed

definition back_host :: "nat \<Rightarrow> jsnum" where
  "back_host n = (if n = 0 then Fin 10 else if n = 1 then Fin 30 else if n = 2 then Neg_Inf else Fin 20)"

theorem clock_monotone_witness:
  "\<exists>c. MachineClock Normal (Fin 100000) (Fin 1000) back_host (Fin 0) = Inr c \<and>
     time_le (time_ms (run (clock_step grid) [EvNow, EvPause, EvResume] c))
       (time_ms (run (clock_step grid) ([EvNow, EvPause, EvResume] @ [EvNow, EvAdvanceTo (Fin 5000)]) c))"
proof -
  obtain c where c: "MachineClock Normal (Fin 100000) (Fin 1000) back_host (Fin 0) = Inr c"
    by (simp add: MachineClock_def back_host_def)
  have "restores_consistent grid ([EvNow, EvPause, EvResume] @ [EvNow, EvAdvanceTo (Fin 5000)])"
    "jumps_harmless grid Normal ([EvNow, EvPause, EvResume] @ [EvNow, EvAdvanceTo (Fin 5000)])"
    "list_all (\<lambda>e. \<not> is_restore e) [EvNow, EvAdvanceTo (Fin 5000)]"
    by (simp_all add: restores_consistent_def jumps_harmless_def)
  from clock_monotone [OF grid_rounding c this] c show ?thesis by blast
qed

text \<open>
  A NaN read by \<open>resume\<close> is not refused: the clock runs, and the next reading of a working host clock makes
  the time NaN, for good.
\<close>

lemma clock_resume_nan:
  assumes "paused c" "clk_mode c = Normal" "host_now c (host_reads c) = Not_A_Number" "host_now c (host_reads c + 1) = Fin h"
  shows "fst (resume c) = Inr () \<and> fst (now rnd (snd (resume c))) = Inr Not_A_Number \<and>
    host_last (snd (now rnd (snd (resume c)))) = Fin h"
  using assms
  by (cases "time_ms c") (simp_all add: resume_def read_host_def now_def consume_source_def clock_bind_def take_host_delta_def js_sub_def js_min_def Let_def)

section \<open>Deterministic time\<close>

fun commits :: "clock_event \<Rightarrow> int" where
  "commits (EvCommit (Some n)) = n"
| "commits (EvAdvance (Some n)) = n"
| "commits _ = 0"

text \<open>Reading the time and committing progress, without a pause, a jump or an instruction source.\<close>

fun progress :: "clock_event \<Rightarrow> bool" where
  "progress (EvCommit n) \<longleftrightarrow> n \<noteq> None"
| "progress (EvAdvance n) \<longleftrightarrow> n \<noteq> None"
| "progress EvNow \<longleftrightarrow> True"
| "progress EvWallTime \<longleftrightarrow> True"
| "progress _ \<longleftrightarrow> False"

text \<open>A running deterministic clock that has counted \<open>n\<close> instructions and not been idle.\<close>

definition det_clock :: "(rat \<Rightarrow> rat) \<Rightarrow> rat \<Rightarrow> int \<Rightarrow> clock \<Rightarrow> bool" where
  "det_clock rnd per n c \<longleftrightarrow> clk_mode c = Deterministic \<and> \<not> paused c \<and> instruction_source c = None \<and> instructions_per_ms c = per \<and>
     idle_ms c = 0 \<and> instruction_count c = n \<and> time_ms c = Fin (det_time rnd n per 0)"

lemma det_now: "det_clock rnd per n c \<Longrightarrow> now rnd c = (Inr (Fin (det_time rnd n per 0)), c)"
  by (simp add: det_clock_def now_def consume_source_def clock_bind_def)

lemma det_commit:
  assumes "det_clock rnd per m c" "0 \<le> m" "0 \<le> n" "m + n < 2 ^ 53"
  shows "\<exists>d. commit_instructions rnd (Some n) c = (Inr (), d) \<and> det_clock rnd per (m + n) d"
proof -
  have "safe_integer n" "safe_integer (m + n)" using assms(2-4) by (auto simp: safe_integer_def)
  then show ?thesis using assms(1,3) by (simp add: det_clock_def commit_instructions_def Let_def det_time_def)
qed

lemma det_step:
  assumes "det_clock rnd per m c" "progress e" "0 \<le> m" "0 \<le> commits e" "m + commits e < 2 ^ 53"
  shows "det_clock rnd per (m + commits e) (clock_step rnd e c)"
proof (cases e)
  case (EvCommit n)
  then obtain k where "n = Some k" using assms(2) by auto
  then show ?thesis using det_commit [OF assms(1,3), of k] assms(4,5) EvCommit by auto
next
  case (EvAdvance n)
  then obtain k where k: "n = Some k" using assms(2) by auto
  then obtain d where "commit_instructions rnd (Some k) c = (Inr (), d)" "det_clock rnd per (m + k) d"
    using det_commit [OF assms(1,3), of k] assms(4,5) EvAdvance by auto
  then show ?thesis using det_now k EvAdvance by (simp add: advance_instructions_def clock_bind_def)
qed (use assms det_now [OF assms(1)] in \<open>auto simp: wall_time_def clock_bind_def\<close>)

lemma det_run:
  "det_clock rnd per m c \<Longrightarrow> list_all progress es \<Longrightarrow> \<forall>e \<in> set es. 0 \<le> commits e \<Longrightarrow> 0 \<le> m \<Longrightarrow>
   m + sum_list (map commits es) < 2 ^ 53 \<Longrightarrow> det_clock rnd per (m + sum_list (map commits es)) (run (clock_step rnd) es c)"
proof (induction es arbitrary: m c)
  case (Cons e es)
  have "0 \<le> sum_list (map commits es)" using Cons.prems(3) by (auto intro!: sum_list_nonneg)
  then show ?case
    using Cons.IH [of "m + commits e" "clock_step rnd e c"] det_step [of rnd per m c e] Cons.prems by (simp add: add.assoc)
qed simp

text \<open>
  Deterministic time depends on the committed progress alone, also with rounded arithmetic: after any interleaving of
  readings and commits on a new deterministic clock the time is the total of the committed
  instructions divided by their rate, however the total was cut into slices, however often the time was
  read, and whatever the host clock showed.
\<close>

theorem clock_deterministic:
  assumes "is_rounding rnd" "MachineClock Deterministic (Fin per_ms) max_delta host epoch = Inr c"
    and "list_all progress es" "\<forall>e \<in> set es. 0 \<le> commits e" "sum_list (map commits es) < 2 ^ 53"
  shows "fst (now rnd (run (clock_step rnd) es c)) = Inr (Fin (rnd (of_int (sum_list (map commits es)) / per_ms)))"
proof -
  have "det_clock rnd per_ms 0 c"
    using assms(2) rounding(1) [OF assms(1)]
    by (auto simp: det_clock_def MachineClock_def det_time_def split: if_splits jsnum.splits)
  from det_now [OF det_run [OF this assms(3,4)]] assms(1,5) show ?thesis by (simp add: det_time_def rounding(2))
qed

section \<open>Snapshots of a stopped clock\<close>

lemma clock_snapshot_valid:
  "clock_inv rnd c \<Longrightarrow> is_finite (time_ms c) \<Longrightarrow> finite_where (\<lambda>x. 0 \<le> x) (discarded_host_ms c) \<Longrightarrow> host_pause_count c < 2 ^ 53 \<Longrightarrow>
   host_backwards_count c < 2 ^ 53 \<Longrightarrow> paused c \<Longrightarrow> \<exists>s. clk_get_state rnd c = (Inr s, c) \<and> valid_snapshot s"
  by (auto simp: clk_get_state_def clock_bind_def now_def consume_source_def valid_snapshot_def natural_safe_def
      safe_integer_def clock_inv_def time_ok_def)

text \<open>
  A snapshot of a stopped clock restores its time: the state that \<open>get_state\<close> takes of
  a paused clock whose times are finite passes the validation of \<open>set_state\<close>, and a clock restored from it,
  whatever it was before, has the time, mode, rates, counters and epoch of the first, keeps its own pause state,
  and measures from a fresh reading of its own host clock.
\<close>

theorem clock_snapshot:
  assumes "clock_inv rnd c" "is_finite (time_ms c)" "finite_where (\<lambda>x. 0 \<le> x) (discarded_host_ms c)"
    and "host_pause_count c < 2 ^ 53" "host_backwards_count c < 2 ^ 53" "paused c"
  shows "\<exists>s. clk_get_state rnd c = (Inr s, c) \<and>
    clk_set_state s d = (Inr (), c\<lparr>paused := paused d, host_now := host_now d, host_reads := host_reads d + 1,
      host_last := host_now d (host_reads d), instruction_source := instruction_source d, source_reads := source_reads d\<rparr>)"
proof -
  obtain s where s: "clk_get_state rnd c = (Inr s, c)" "valid_snapshot s"
    using clock_snapshot_valid [OF assms] by blast
  then show ?thesis
    using assms(6) by (auto simp: clk_set_state_def clk_get_state_def clock_bind_def now_def consume_source_def read_host_def Let_def)
qed

end
