(* ===== verification/Tco.thy ===== *)
theory Tco
  imports Device
begin

text \<open>
  The TCO watchdog of the ICH9, \<open>src/ich9_tco.js\<close>. The readings of the machine clock
  (\<open>cpu.clock.now()\<close>, modelled in the theory of the clock) are arguments, as is the byte of the
  chipset configuration that holds NO_REBOOT, which is absent without a Q35. What the watchdog does to
  the machine, a system management interrupt or a reset, is recorded in order.
\<close>

section \<open>State\<close>

abbreviation (input) TCO_INT_STS :: i32 where "TCO_INT_STS \<equiv> 4"
abbreviation (input) SW_TCO_SMI :: i32 where "SW_TCO_SMI \<equiv> 2"
abbreviation (input) TCO_TIMEOUT :: i32 where "TCO_TIMEOUT \<equiv> 8"
abbreviation (input) SECOND_TO_STS :: i32 where "SECOND_TO_STS \<equiv> 2"
abbreviation (input) BOOT_STS :: i32 where "BOOT_STS \<equiv> 4"
abbreviation (input) TCO_TMR_HLT :: i32 where "TCO_TMR_HLT \<equiv> 0x800"
abbreviation (input) TCO_LOCK :: i32 where "TCO_LOCK \<equiv> 0x1000"
abbreviation (input) TCO1_CNT_WRITABLE :: i32 where "TCO1_CNT_WRITABLE \<equiv> 0x1F00"
abbreviation (input) GCS_NO_REBOOT :: u8 where "GCS_NO_REBOOT \<equiv> 0x20"
abbreviation (input) TICK_MS :: rat where "TICK_MS \<equiv> 600"

datatype tco_effect = Smi | Reboot string

record tco =
  rld :: int
  dat_in :: i32
  dat_out :: i32
  sts1 :: i32
  sts2 :: i32
  cnt1 :: i32
  cnt2 :: i32
  message1 :: i32
  message2 :: i32
  wdcnt :: i32
  sw_irq_gen :: i32
  tmr :: i32
  expire_time :: rat
  timeouts :: nat
  tco_log :: "tco_effect list"

section \<open>Operations\<close>

definition tco_reset :: "tco \<Rightarrow> tco" where
  "tco_reset s = \<lparr>rld = 0, dat_in = 0, dat_out = 0, sts1 = 0, sts2 = 0, cnt1 = 0, cnt2 = 8, message1 = 0, message2 = 0,
     wdcnt = 0, sw_irq_gen = 3, tmr = 4, expire_time = -1, timeouts = 0, tco_log = tco_log s\<rparr>"

definition TCO :: tco where
  "TCO = tco_reset \<lparr>rld = 0, dat_in = 0, dat_out = 0, sts1 = 0, sts2 = 0, cnt1 = 0, cnt2 = 0, message1 = 0, message2 = 0,
     wdcnt = 0, sw_irq_gen = 0, tmr = 0, expire_time = 0, timeouts = 0, tco_log = []\<rparr>"

definition can_start :: "tco \<Rightarrow> bool" where
  "can_start s \<longleftrightarrow> \<not> has_bits (cnt1 s) TCO_TMR_HLT \<and> \<not> has_bits (sts2 s) BOOT_STS"

definition reload :: "rat \<Rightarrow> tco \<Rightarrow> tco" where
  "reload now s =
     (let s1 = s\<lparr>timeouts := 0\<rparr>
      in if can_start s1
         then let s2 = s1\<lparr>rld := sint (tmr s1 AND 0x3FF)\<rparr>
              in s2\<lparr>expire_time := now + of_int (rld s2) * TICK_MS\<rparr>
         else s1\<lparr>expire_time := -1\<rparr>)"

definition tco_smi :: "tco \<Rightarrow> tco" where
  "tco_smi s = s\<lparr>tco_log := tco_log s @ [Smi]\<rparr>"

text \<open>\<open>gcs\<close> is \<open>q35.rcba[RCBA_GCS]\<close>, None without a Q35.\<close>

definition timeout :: "u8 option \<Rightarrow> tco \<Rightarrow> tco" where
  "timeout gcs s =
     (let s1 = s\<lparr>rld := 0, sts1 := sts1 s OR TCO_TIMEOUT, timeouts := timeouts s + 1\<rparr>;
          restart = (\<lambda>u. let v = tco_smi u
                         in if can_start v
                            then let w = v\<lparr>rld := sint (tmr v AND 0x3FF)\<rparr>
                                 in w\<lparr>expire_time := expire_time w + of_int (rld w) * TICK_MS\<rparr>
                            else v\<lparr>expire_time := -1\<rparr>)
      in if timeouts s1 = 2
         then let s2 = s1\<lparr>sts2 := sts2 s1 OR (SECOND_TO_STS OR BOOT_STS), timeouts := 0\<rparr>
              in case gcs of
                   Some g \<Rightarrow> if g AND GCS_NO_REBOOT = 0
                             then s2\<lparr>expire_time := -1, tco_log := tco_log s2 @ [Reboot ''tco'']\<rparr>
                             else restart s2
                 | None \<Rightarrow> restart s2
         else restart s1)"

definition tco_timer :: "u8 option \<Rightarrow> rat \<Rightarrow> tco \<Rightarrow> rat \<times> tco" where
  "tco_timer gcs now s =
     (if expire_time s = -1 then (100, s)
      else if now \<ge> expire_time s
      then let s1 = timeout gcs s
           in if expire_time s1 = -1 then (100, s1) else (min 100 (max 0 (expire_time s1 - now)), s1)
      else (min 100 (max 0 (expire_time s - now)), s))"

text \<open>The ticks left.\<close>

definition ticks_left :: "rat \<Rightarrow> tco \<Rightarrow> int" where
  "ticks_left now s = max 0 \<lfloor>(expire_time s - now) / TICK_MS\<rfloor>"

text \<open>\<open>word(value, at)\<close>: the byte of a 16-bit register that lies at \<open>at\<close>.\<close>

definition word_byte :: "nat \<Rightarrow> i32 \<Rightarrow> nat \<Rightarrow> i32" where
  "word_byte offset v off0 = signed_drop_bit ((offset - off0) * 8) v AND 0xFF"

definition tco_read_byte :: "rat \<Rightarrow> nat \<Rightarrow> tco \<Rightarrow> i32" where
  "tco_read_byte now offset s =
     (if offset \<in> {0x00, 0x01} then word_byte offset (word_of_int (if expire_time s = -1 then rld s else ticks_left now s)) 0x00
      else if offset = 0x02 then dat_in s
      else if offset = 0x03 then dat_out s
      else if offset \<in> {0x04, 0x05} then word_byte offset (sts1 s) 0x04
      else if offset \<in> {0x06, 0x07} then word_byte offset (sts2 s) 0x06
      else if offset \<in> {0x08, 0x09} then word_byte offset (cnt1 s) 0x08
      else if offset \<in> {0x0A, 0x0B} then word_byte offset (cnt2 s) 0x0A
      else if offset = 0x0C then message1 s
      else if offset = 0x0D then message2 s
      else if offset = 0x0E then wdcnt s
      else if offset = 0x10 then sw_irq_gen s
      else if offset \<in> {0x12, 0x13} then word_byte offset (tmr s) 0x12
      else 0)"

definition merge_byte :: "nat \<Rightarrow> i32 \<Rightarrow> i32 \<Rightarrow> i32" where
  "merge_byte shift byte old = old AND NOT (push_bit shift 0xFF) OR push_bit shift byte"

definition write_cnt1 :: "rat \<Rightarrow> nat \<Rightarrow> i32 \<Rightarrow> tco \<Rightarrow> tco" where
  "write_cnt1 now shift byte s =
     (let old = cnt1 s;
          s1 = s\<lparr>cnt1 := merge_byte shift byte (cnt1 s) AND TCO1_CNT_WRITABLE OR old AND TCO_LOCK\<rparr>
      in if has_bits (old XOR cnt1 s1) TCO_TMR_HLT
         then if can_start s1 then reload now s1
              else if expire_time s1 \<noteq> -1 then s1\<lparr>rld := ticks_left now s1, expire_time := -1\<rparr>
              else s1
         else s1)"

definition tco_write_byte :: "rat \<Rightarrow> nat \<Rightarrow> i32 \<Rightarrow> tco \<Rightarrow> tco" where
  "tco_write_byte now offset byte s =
     (let shift = (offset mod 2) * 8
      in if offset \<in> {0x00, 0x01} then reload now s
         else if offset = 0x02 then tco_smi (s\<lparr>dat_in := byte, sts1 := sts1 s OR SW_TCO_SMI\<rparr>)
         else if offset = 0x03 then s\<lparr>dat_out := byte, sts1 := sts1 s OR TCO_INT_STS\<rparr>
         else if offset \<in> {0x04, 0x05} then s\<lparr>sts1 := sts1 s AND NOT (push_bit shift byte)\<rparr>
         else if offset \<in> {0x06, 0x07} then s\<lparr>sts2 := sts2 s AND NOT (push_bit shift byte)\<rparr>
         else if offset \<in> {0x08, 0x09} then write_cnt1 now shift byte s
         else if offset \<in> {0x0A, 0x0B} then s\<lparr>cnt2 := merge_byte shift byte (cnt2 s)\<rparr>
         else if offset = 0x0C then s\<lparr>message1 := byte\<rparr>
         else if offset = 0x0D then s\<lparr>message2 := byte\<rparr>
         else if offset = 0x0E then s\<lparr>wdcnt := byte\<rparr>
         else if offset = 0x10 then s\<lparr>sw_irq_gen := byte AND 3\<rparr>
         else if offset \<in> {0x12, 0x13} then s\<lparr>tmr := merge_byte shift byte (tmr s) AND 0x3FF\<rparr>
         else s)"

text \<open>
  The state array, its elements in the order of the code; \<open>set_state\<close> takes it apart by position and
  skips the format. The log of effects is not part of it.
\<close>

type_synonym tco_array =
  "int \<times> int \<times> i32 \<times> i32 \<times> i32 \<times> i32 \<times> i32 \<times> i32 \<times> i32 \<times> i32 \<times> i32 \<times> i32 \<times> i32 \<times> rat \<times> nat"

abbreviation (input) TCO_STATE_FORMAT :: int where "TCO_STATE_FORMAT \<equiv> 1"

definition tco_get_state :: "tco \<Rightarrow> tco_array" where
  "tco_get_state s =
     (TCO_STATE_FORMAT, rld s, dat_in s, dat_out s, sts1 s, sts2 s, cnt1 s, cnt2 s,
      message1 s, message2 s, wdcnt s, sw_irq_gen s, tmr s, expire_time s, timeouts s)"

definition tco_set_state :: "tco_array \<Rightarrow> tco \<Rightarrow> tco" where
  "tco_set_state state s =
     (let (_, a1, a2, a3, a4, a5, a6, a7, a8, a9, a10, a11, a12, a13, a14) = state
      in s\<lparr>rld := a1, dat_in := a2, dat_out := a3, sts1 := a4, sts2 := a5, cnt1 := a6, cnt2 := a7,
           message1 := a8, message2 := a9, wdcnt := a10, sw_irq_gen := a11, tmr := a12, expire_time := a13,
           timeouts := a14\<rparr>)"

section \<open>Events\<close>

text \<open>Polls of the timer and register writes, each with the machine time at which it happens.\<close>

datatype tco_event = Poll "u8 option" rat | Write_Byte rat nat i32 | Tco_Reset

fun tco_step :: "tco_event \<Rightarrow> tco \<Rightarrow> tco" where
  "tco_step (Poll gcs now) s = snd (tco_timer gcs now s)"
| "tco_step (Write_Byte now offset byte) s = tco_write_byte now offset byte s"
| "tco_step Tco_Reset s = tco_reset s"

section \<open>Invariant\<close>

text \<open>
  A running timer is one that may run, at most one timeout is pending, and the bits that are not
  writable stay clear.
\<close>

definition tco_inv :: "tco \<Rightarrow> bool" where
  "tco_inv s \<longleftrightarrow> (expire_time s \<noteq> -1 \<longrightarrow> can_start s) \<and> timeouts s \<le> 1 \<and>
     cnt1 s AND NOT TCO1_CNT_WRITABLE = 0 \<and> tmr s AND NOT 0x3FF = 0"

lemma has_bits_or: "((x :: i32) OR y) AND m = 0 \<longleftrightarrow> x AND m = 0 \<and> y AND m = 0"
  by (auto simp: word_bits_eq_iff bit_simps)

lemma bits_clear:
  "(x AND 0x3FF) AND - 0x400 = (0 :: i32)" "(x AND 0x1F00 OR y AND 0x1000) AND - 0x1F01 = (0 :: i32)"
  by (simp_all add: and.assoc bit.conj_disj_distrib2)

lemma reload_inv: "tco_inv s \<Longrightarrow> tco_inv (reload now s)"
  by (auto simp: tco_inv_def reload_def can_start_def Let_def)

lemma timeout_inv:
  assumes "tco_inv s" shows "tco_inv (timeout gcs s)"
proof -
  have "timeouts s = 0 \<or> timeouts s = 1" using assms by (auto simp: tco_inv_def)
  then show ?thesis
    using assms by (auto simp: tco_inv_def timeout_def tco_smi_def can_start_def Let_def split: option.split)
qed

lemma write_cnt1_inv:
  assumes "tco_inv s" shows "tco_inv (write_cnt1 now shift byte s)"
proof -
  define v where "v = merge_byte shift byte (cnt1 s) AND TCO1_CNT_WRITABLE OR cnt1 s AND TCO_LOCK"
  define s1 where "s1 = s\<lparr>cnt1 := v\<rparr>"
  have v: "v AND NOT TCO1_CNT_WRITABLE = 0" by (simp add: v_def bits_clear)
  have stopped: "tco_inv u" if "expire_time u = -1" "cnt1 u = v" "tmr u = tmr s" "timeouts u = timeouts s" for u
    using assms v that by (simp add: tco_inv_def)
  have "reload now (s1\<lparr>expire_time := -1\<rparr>) = reload now s1" by (simp add: reload_def can_start_def Let_def)
  then have re: "tco_inv (reload now s1)"
    using reload_inv [OF stopped [of "s1\<lparr>expire_time := -1\<rparr>"], of now] by (simp add: s1_def)
  have "has_bits (cnt1 s) TCO_TMR_HLT = has_bits v TCO_TMR_HLT" if "\<not> has_bits (cnt1 s XOR v) TCO_TMR_HLT"
    using that by (auto simp: word_bits_eq_iff bit_simps)
  then have keep: "tco_inv s1" if "\<not> has_bits (cnt1 s XOR v) TCO_TMR_HLT"
    using assms v that by (auto simp: tco_inv_def s1_def can_start_def)
  have e: "write_cnt1 now shift byte s =
      (if has_bits (cnt1 s XOR v) TCO_TMR_HLT
       then if can_start s1 then reload now s1
            else if expire_time s1 \<noteq> -1 then s1\<lparr>rld := ticks_left now s1, expire_time := -1\<rparr> else s1
       else s1)"
    by (simp add: write_cnt1_def v_def s1_def Let_def)
  show ?thesis unfolding e using re keep by (auto intro!: stopped simp: s1_def)
qed

lemma tco_step_inv: "tco_inv s \<Longrightarrow> tco_inv (tco_step e s)"
proof (cases e)
  case (Poll gcs now)
  assume "tco_inv s"
  then show ?thesis using Poll timeout_inv by (simp add: tco_timer_def Let_def)
next
  case (Write_Byte now offset byte)
  assume i: "tco_inv s"
  have "can_start (s\<lparr>sts2 := sts2 s AND x\<rparr>)" if "can_start s" for x
    using that by (auto simp: can_start_def word_bits_eq_iff bit_simps)
  then show ?thesis
    using i Write_Byte reload_inv [OF i] write_cnt1_inv [OF i]
    by (simp add: tco_write_byte_def Let_def) (auto simp: tco_inv_def tco_smi_def can_start_def bits_clear)
qed (simp_all add: tco_inv_def tco_reset_def can_start_def)

interpretation tcom: device_machine "\<lambda>_. True" tco_step TCO tco_inv
  by unfold_locales (simp_all add: tco_step_inv, simp add: tco_inv_def TCO_def tco_reset_def)

section \<open>The watchdog\<close>

abbreviation polls :: "u8 option \<Rightarrow> rat list \<Rightarrow> tco_event list" where
  "polls gcs ts \<equiv> map (Poll gcs) ts"

lemma polls_early: "\<forall>t \<in> set ts. t < expire_time s \<Longrightarrow> run tco_step (polls gcs ts) s = s"
  by (induction ts) (auto simp: tco_timer_def)

lemma polls_stopped: "expire_time s = -1 \<Longrightarrow> run tco_step (polls gcs ts) s = s"
  by (induction ts) (auto simp: tco_timer_def)

abbreviation period :: "tco \<Rightarrow> rat" where
  "period s \<equiv> of_int (sint (tmr s AND 0x3FF)) * TICK_MS"

lemma period_nonneg: "0 \<le> period s"
proof -
  have "(0x3FF :: i32) = mask 10" by (simp add: mask_eq_exp_minus_1)
  then have "fits 10 (tmr s AND 0x3FF)" by (simp only: fits_def take_bit_eq_mask and.assoc and.idem)
  then have "0 \<le> sint (tmr s AND 0x3FF)" using fits_sint [of 10] by simp
  then show ?thesis by (intro mult_nonneg_nonneg) (simp_all only: of_int_0_le_iff zero_le_numeral)
qed

lemma reload_running:
  "can_start s \<Longrightarrow> reload now s = s\<lparr>timeouts := 0, rld := sint (tmr s AND 0x3FF), expire_time := now + period s\<rparr>"
  by (simp add: reload_def can_start_def Let_def)

lemma poll_first_timeout:
  assumes "can_start s" "timeouts s = 0" "expire_time s \<noteq> -1" "expire_time s \<le> now"
  shows "tco_step (Poll gcs now) s =
    s\<lparr>rld := sint (tmr s AND 0x3FF), sts1 := sts1 s OR TCO_TIMEOUT, timeouts := 1, tco_log := tco_log s @ [Smi],
      expire_time := expire_time s + period s\<rparr>"
  using assms by (simp add: tco_timer_def timeout_def tco_smi_def can_start_def Let_def)

text \<open>The second timeout resets the machine, or raises another SMI without a Q35 or with NO_REBOOT set.\<close>

definition second_effect :: "u8 option \<Rightarrow> tco_effect" where
  "second_effect gcs = (case gcs of Some g \<Rightarrow> if g AND GCS_NO_REBOOT = 0 then Reboot ''tco'' else Smi | None \<Rightarrow> Smi)"

lemma poll_second_timeout:
  assumes "timeouts s = 1" "expire_time s \<noteq> -1" "expire_time s \<le> now"
  shows "tco_step (Poll gcs now) s =
    s\<lparr>rld := 0, sts1 := sts1 s OR TCO_TIMEOUT, timeouts := 0, sts2 := sts2 s OR (SECOND_TO_STS OR BOOT_STS), expire_time := -1,
      tco_log := tco_log s @ [second_effect gcs]\<rparr>"
proof -
  have "(sts2 s OR 6) AND 4 \<noteq> (0 :: i32)" by (simp add: has_bits_or)
  then show ?thesis
    using assms by (simp add: tco_timer_def timeout_def tco_smi_def second_effect_def can_start_def split: option.split)
qed

text \<open>
  Claim C10. What an unattended watchdog does, poll by poll. After a write to TCO_RLD at time \<open>t\<close>, when
  the timer may run (it is not halted and BOOT_STS is clear), every poll before \<open>period\<close> has passed
  changes nothing and reports the time that is left, at most 100 ms; the first poll after it sets
  TIMEOUT, raises an SMI, starts the second period and changes nothing else; every poll before the second
  period has passed changes nothing; the first poll after it sets TIMEOUT, SECOND_TO_STS and BOOT_STS,
  stops the timer and resets the machine, or, without a Q35 or with NO_REBOOT set, raises another SMI
  instead; and no later poll changes anything, because the timer may not start again.
\<close>

theorem tco_watchdog_resets:
  fixes s :: tco and gcs :: "u8 option"
  assumes "can_start s" "0 \<le> t"
    and "\<forall>x \<in> set early. x < t + period s" "t + period s \<le> first"
    and "\<forall>x \<in> set between. x < t + 2 * period s" "t + 2 * period s \<le> second"
  defines "s0 \<equiv> s\<lparr>timeouts := 0, rld := sint (tmr s AND 0x3FF), expire_time := t + period s\<rparr>"
  defines "s1 \<equiv> s0\<lparr>sts1 := sts1 s OR TCO_TIMEOUT, timeouts := 1, expire_time := t + 2 * period s, tco_log := tco_log s @ [Smi]\<rparr>"
  defines "s2 \<equiv> s1\<lparr>rld := 0, timeouts := 0, sts2 := sts2 s OR (SECOND_TO_STS OR BOOT_STS), expire_time := -1,
    tco_log := tco_log s @ [Smi, second_effect gcs]\<rparr>"
  shows "tco_step (Write_Byte t 0 b) s = s0 \<and> run tco_step (polls gcs early) s0 = s0 \<and>
    (\<forall>x \<in> set early. fst (tco_timer gcs x s0) = min 100 (t + period s - x)) \<and>
    tco_step (Poll gcs first) s0 = s1 \<and> run tco_step (polls gcs between) s1 = s1 \<and>
    tco_step (Poll gcs second) s1 = s2 \<and> run tco_step (polls gcs later) s2 = s2 \<and>
    run tco_step (Write_Byte t 0 b # polls gcs (early @ first # between @ second # later)) s = s2 \<and> \<not> can_start s2"
proof -
  have w: "tco_step (Write_Byte t 0 b) s = s0" using assms(1) by (simp add: tco_write_byte_def reload_running s0_def)
  have nz: "t + period s \<noteq> -1" "t + 2 * period s \<noteq> -1" using assms(2) period_nonneg [of s] by linarith+
  have e: "run tco_step (polls gcs early) s0 = s0" using assms(3) by (intro polls_early) (simp add: s0_def)
  have d: "\<forall>x \<in> set early. fst (tco_timer gcs x s0) = min 100 (t + period s - x)"
    using assms(3) nz by (auto simp: tco_timer_def s0_def)
  have p1: "tco_step (Poll gcs first) s0 = s1"
    using poll_first_timeout [of s0 first gcs] assms(1,4) nz by (simp add: s0_def s1_def can_start_def)
  have bt: "run tco_step (polls gcs between) s1 = s1" using assms(5) by (intro polls_early) (simp add: s1_def)
  have p2: "tco_step (Poll gcs second) s1 = s2"
    using poll_second_timeout [of s1 second gcs] assms(6) nz by (simp add: s2_def s1_def s0_def)
  have l: "run tco_step (polls gcs later) s2 = s2" by (rule polls_stopped) (simp add: s2_def)
  have "\<not> can_start s2" by (simp add: s2_def can_start_def has_bits_or)
  moreover have "run tco_step (Write_Byte t 0 b # polls gcs (early @ first # between @ second # later)) s = s2"
    using w e p1 bt p2 l by (simp add: run_append del: tco_step.simps)
  ultimately show ?thesis using w e d p1 bt p2 l by blast
qed

theorem tco_watchdog_resets_witness:
  "let s' = run tco_step (Write_Byte 100 0 0 # polls (Some 0) [200, 2500, 2600, 5000, 6000]) TCO
   in tco_log s' = [Smi, Reboot ''tco''] \<and> has_bits (sts2 s') BOOT_STS \<and> has_bits (sts1 s') TCO_TIMEOUT \<and>
      expire_time s' = -1 \<and> \<not> can_start s'"
  using tco_watchdog_resets [where s = TCO and t = 100 and early = "[200]" and first = 2500 and between = "[2600]" and second = 5000
      and gcs = "Some 0" and b = 0 and later = "[6000]"]
  by (simp add: TCO_def tco_reset_def can_start_def second_effect_def del: run.simps tco_step.simps)

text \<open>
  The watchdog is attended if between any two polls of the timer the software writes TCO_RLD, or
  the machine is reset.
\<close>

fun kick :: "tco_event \<Rightarrow> bool" where
  "kick (Write_Byte now offset byte) \<longleftrightarrow> offset \<in> {0, 1}"
| "kick Tco_Reset \<longleftrightarrow> True"
| "kick (Poll gcs now) \<longleftrightarrow> False"

fun attended :: "bool \<Rightarrow> tco_event list \<Rightarrow> bool" where
  "attended fresh [] \<longleftrightarrow> True"
| "attended fresh (Poll gcs now # es) \<longleftrightarrow> fresh \<and> attended False es"
| "attended fresh (e # es) \<longleftrightarrow> attended (fresh \<or> kick e) es"

lemma reload_log [simp]: "tco_log (reload now s) = tco_log s" "timeouts (reload now s) = 0"
  by (simp_all add: reload_def Let_def)

lemma write_byte_log:
  "set (tco_log (tco_write_byte now offset byte s)) \<subseteq> set (tco_log s) \<union> {Smi}"
  "timeouts (tco_write_byte now offset byte s) \<in> {0, timeouts s}"
  "offset \<in> {0, 1} \<Longrightarrow> timeouts (tco_write_byte now offset byte s) = 0"
  by (auto simp: tco_write_byte_def write_cnt1_def tco_smi_def Let_def)

lemma timer_fresh_log:
  "timeouts s = 0 \<Longrightarrow> set (tco_log (snd (tco_timer gcs now s))) \<subseteq> set (tco_log s) \<union> {Smi}"
  by (auto simp: tco_timer_def timeout_def tco_smi_def Let_def)

lemma attended_no_reset:
  "attended fresh es \<Longrightarrow> (fresh \<Longrightarrow> timeouts s = 0) \<Longrightarrow> Reboot r \<notin> set (tco_log s) \<Longrightarrow>
   Reboot r \<notin> set (tco_log (run tco_step es s))"
proof (induction es arbitrary: fresh s)
  case (Cons e es)
  show ?case
  proof (cases e)
    case (Poll gcs now)
    then show ?thesis using Cons timer_fresh_log [of s gcs now] by auto
  next
    case (Write_Byte now offset byte)
    then show ?thesis
      using Cons.prems Cons.IH [of "fresh \<or> kick e" "tco_step e s"]
        write_byte_log [where now = now and offset = offset and byte = byte and s = s] by fastforce
  next
    case Tco_Reset
    then show ?thesis using Cons by (simp add: tco_reset_def)
  qed
qed simp

text \<open>
  An attended watchdog never resets the machine: from power-on, whatever registers are
  written and whenever the timer is polled, no reset is requested as long as TCO_RLD is written
  between any two polls.
\<close>

theorem tco_attended_never_resets:
  assumes "attended True es"
  shows "Reboot r \<notin> set (tco_log (run tco_step es TCO))"
  using attended_no_reset [OF assms, of TCO r] by (simp add: TCO_def tco_reset_def)

theorem tco_attended_never_resets_witness:
  "Reboot ''tco'' \<notin> set (tco_log (run tco_step [Write_Byte 0 0 0, Poll (Some 0) 3000, Write_Byte 3001 0 0, Poll (Some 0) 9000] TCO))"
  using tco_attended_never_resets [of "[Write_Byte 0 0 0, Poll (Some 0) 3000, Write_Byte 3001 0 0, Poll (Some 0) 9000]" "''tco''"]
  by (simp del: run.simps)

text \<open>
  In every reachable state of the watchdog a running timer is not halted and no second
  timeout is pending, at most one timeout is counted, and TCO1_CNT and TCO_TMR have no bits outside
  their writable ones; and TCO_LOCK, once set, stays set under every event but a reset.
\<close>

theorem tco_invariant:
  assumes "reachable (\<lambda>_. True) tco_step TCO s"
  shows "(expire_time s \<noteq> -1 \<longrightarrow> can_start s) \<and> timeouts s \<le> 1 \<and> cnt1 s AND NOT TCO1_CNT_WRITABLE = 0 \<and>
    tmr s AND NOT 0x3FF = 0 \<and> (has_bits (cnt1 s) TCO_LOCK \<longrightarrow> e \<noteq> Tco_Reset \<longrightarrow> has_bits (cnt1 (tco_step e s)) TCO_LOCK)"
proof -
  have "tco_inv s" by (rule tcom.reachable_inv [OF assms])
  moreover have "has_bits (cnt1 (tco_step e s)) TCO_LOCK" if l: "has_bits (cnt1 s) TCO_LOCK" and e: "e \<noteq> Tco_Reset"
  proof (cases e)
    case (Poll gcs now)
    then show ?thesis using l by (auto simp: tco_timer_def timeout_def tco_smi_def Let_def split: option.split)
  next
    case (Write_Byte now offset byte)
    have "cnt1 (reload n u) = cnt1 u" for n u by (simp add: reload_def Let_def)
    moreover have "cnt1 (write_cnt1 now shift byte s) = merge_byte shift byte (cnt1 s) AND TCO1_CNT_WRITABLE OR cnt1 s AND TCO_LOCK" for shift
      by (simp add: write_cnt1_def reload_def Let_def)
    ultimately show ?thesis
      using l Write_Byte by (simp add: tco_write_byte_def tco_smi_def Let_def has_bits_or and.assoc)
  qed (use e in simp)
  ultimately show ?thesis by (simp add: tco_inv_def)
qed

theorem tco_invariant_witness:
  "let s = tco_step (Write_Byte 5 9 0x18) TCO in cnt1 s AND NOT TCO1_CNT_WRITABLE = 0 \<and> has_bits (cnt1 (tco_step (Write_Byte 6 9 0) s)) TCO_LOCK"
proof -
  have r: "reachable (\<lambda>_. True) tco_step TCO (tco_step (Write_Byte 5 9 0x18) TCO)" by (intro reachable.intros) simp
  have "has_bits (cnt1 (tco_step (Write_Byte 5 9 0x18) TCO)) TCO_LOCK"
    by (simp add: TCO_def tco_reset_def tco_write_byte_def write_cnt1_def merge_byte_def Let_def can_start_def)
  with tco_invariant [OF r, of "Write_Byte 6 9 0"] show ?thesis by (simp add: Let_def del: tco_step.simps)
qed

text \<open>After a reload TCO_RLD reads the ticks that are left.\<close>

lemma tco_ticks_left:
  assumes "can_start s" "0 \<le> t" "0 \<le> d" "d \<le> period s"
  shows "ticks_left (t + d) (reload t s) = \<lfloor>(period s - d) / TICK_MS\<rfloor>"
  using assms by (simp add: reload_running ticks_left_def)

text \<open>A snapshot holds every register, and a restore takes over every element of the array.\<close>

lemma tco_state_roundtrip: "tco_set_state (tco_get_state s) t = s\<lparr>tco_log := tco_log t\<rparr>"
  by (simp add: tco_set_state_def tco_get_state_def)

lemma tco_get_set: "tco_get_state (tco_set_state (tco_get_state s) t) = tco_get_state s"
  by (simp add: tco_set_state_def tco_get_state_def)

lemma tco_get_set_state: "fst st = TCO_STATE_FORMAT \<Longrightarrow> tco_get_state (tco_set_state st s) = st"
  by (simp add: tco_set_state_def tco_get_state_def split_beta prod_eq_iff)

end
