(* ===== verification/Smbus.thy ===== *)
theory Smbus
  imports Device
begin

text \<open>
  The SMBus host controller of the ICH9 and the EEPROMs on its bus, \<open>src/smbus.js\<close>. Registers
  are bytes, as every write to them is; a transfer completes at once, so a command is one step. The PCI
  configuration (\<open>is_io_enabled\<close>, HOSTC, the base of BAR4) is an argument of the decoding, and
  the calls of \<open>pci.raise_irq\<close> and \<open>pci.lower_irq\<close> are recorded in order.
\<close>

section \<open>EEPROMs\<close>

record eeprom =
  ee_address :: u8
  ee_data :: "u8 list"
  ee_offset :: u8

definition SMBusEEPROM :: "u8 \<Rightarrow> eeprom" where
  "SMBusEEPROM a = \<lparr>ee_address = a, ee_data = replicate 256 0, ee_offset = 0\<rparr>"

definition receive_byte :: "eeprom \<Rightarrow> u8 \<times> eeprom" where
  "receive_byte d = (ee_data d ! unat (ee_offset d), d\<lparr>ee_offset := ee_offset d + 1\<rparr>)"

text \<open>The offsets are taken modulo 256: they are bytes.\<close>

definition send_byte :: "u8 \<Rightarrow> eeprom \<Rightarrow> eeprom" where
  "send_byte v d = d\<lparr>ee_offset := v\<rparr>"

definition write_byte :: "u8 \<Rightarrow> u8 \<Rightarrow> eeprom \<Rightarrow> eeprom" where
  "write_byte off v d = d\<lparr>ee_data := (ee_data d)[unat off := v], ee_offset := off + 1\<rparr>"

section \<open>State of the controller\<close>

abbreviation (input) STS_HOST_BUSY :: u8 where "STS_HOST_BUSY \<equiv> 0x01"
abbreviation (input) STS_INTR :: u8 where "STS_INTR \<equiv> 0x02"
abbreviation (input) STS_DEV_ERR :: u8 where "STS_DEV_ERR \<equiv> 0x04"
abbreviation (input) STS_BUS_ERR :: u8 where "STS_BUS_ERR \<equiv> 0x08"
abbreviation (input) STS_FAILED :: u8 where "STS_FAILED \<equiv> 0x10"
abbreviation (input) STS_INUSE :: u8 where "STS_INUSE \<equiv> 0x40"
abbreviation (input) STS_BYTE_DONE :: u8 where "STS_BYTE_DONE \<equiv> 0x80"
abbreviation (input) STS_INTERRUPTS :: u8 where "STS_INTERRUPTS \<equiv> 0x9E"
abbreviation (input) CNT_INTREN :: u8 where "CNT_INTREN \<equiv> 0x01"
abbreviation (input) CNT_KILL :: u8 where "CNT_KILL \<equiv> 0x02"
abbreviation (input) CNT_LAST_BYTE :: u8 where "CNT_LAST_BYTE \<equiv> 0x20"
abbreviation (input) CNT_START :: u8 where "CNT_START \<equiv> 0x40"
abbreviation (input) AUX_E32B :: u8 where "AUX_E32B \<equiv> 0x02"
abbreviation (input) BLOCK_MAX :: nat where "BLOCK_MAX \<equiv> 32"

text \<open>The strings \<open>""\<close>, \<open>"read"\<close>, \<open>"write"\<close>, \<open>"i2c"\<close> of \<open>transfer\<close>.\<close>

datatype transfer = T_None | T_Read | T_Write | T_I2c

record smbus =
  status :: u8
  control :: u8
  command :: u8
  address :: u8
  data0 :: u8
  data1 :: u8
  pec :: u8
  aux_status :: u8
  aux_control :: u8
  block :: "u8 list"
  index :: nat
  block_byte :: u8
  transfer :: transfer
  devices :: "eeprom list"
  io_base :: "nat option"
  irq_level :: bool
  pci_irq :: "bool list"

definition on :: "u8 \<Rightarrow> u8 \<Rightarrow> bool" where
  "on x m \<longleftrightarrow> x AND m \<noteq> 0"

section \<open>Operations\<close>

definition update_irq :: "smbus \<Rightarrow> smbus" where
  "update_irq s =
     (let level = (on (control s) CNT_INTREN \<and> on (status s) STS_INTERRUPTS)
      in if level \<noteq> Smbus.irq_level s then s\<lparr>irq_level := level, pci_irq := pci_irq s @ [level]\<rparr> else s)"

definition smb_reset :: "smbus \<Rightarrow> smbus" where
  "smb_reset s =
     update_irq (s\<lparr>status := 0, control := 0, command := 0, address := 0, data0 := 0, data1 := 0, pec := 0, aux_status := 0,
       aux_control := 0, block := replicate (length (block s)) 0, index := 0, block_byte := 0, transfer := T_None\<rparr>)"

definition SMBus :: smbus where
  "SMBus = smb_reset \<lparr>status = 0, control = 0, command = 0, address = 0, data0 = 0, data1 = 0, pec = 0, aux_status = 0,
     aux_control = 0, block = replicate 32 0, index = 0, block_byte = 0, transfer = T_None,
     devices = map SMBusEEPROM [0x50, 0x51, 0x52, 0x53, 0x54, 0x55, 0x56, 0x57], io_base = None, irq_level = False, pci_irq = []\<rparr>"

text \<open>
  The device at a 7-bit address is the first with that address; here its position. A method on the
  device found works on the list in place.
\<close>

fun find_device :: "u8 \<Rightarrow> eeprom list \<Rightarrow> nat option" where
  "find_device a [] = None"
| "find_device a (d # ds) = (if ee_address d = a then Some 0 else map_option Suc (find_device a ds))"

definition device :: "u8 \<Rightarrow> smbus \<Rightarrow> nat option" where
  "device a s = find_device a (devices s)"

definition dev_send :: "nat \<Rightarrow> u8 \<Rightarrow> smbus \<Rightarrow> smbus" where
  "dev_send i v s = s\<lparr>devices := (devices s)[i := send_byte v (devices s ! i)]\<rparr>"

definition dev_receive :: "nat \<Rightarrow> smbus \<Rightarrow> u8 \<times> smbus" where
  "dev_receive i s = (let (v, d) = receive_byte (devices s ! i) in (v, s\<lparr>devices := (devices s)[i := d]\<rparr>))"

definition dev_write :: "nat \<Rightarrow> u8 \<Rightarrow> u8 \<Rightarrow> smbus \<Rightarrow> smbus" where
  "dev_write i off v s = s\<lparr>devices := (devices s)[i := write_byte off v (devices s ! i)]\<rparr>"

text \<open>A read of \<open>block\<close> beyond its end would be undefined, which the ports turn into 0.\<close>

definition block_at :: "nat \<Rightarrow> smbus \<Rightarrow> u8" where
  "block_at i s = (if i < length (block s) then block s ! i else 0)"

fun write_bytes :: "nat \<Rightarrow> u8 \<Rightarrow> u8 list \<Rightarrow> smbus \<Rightarrow> smbus" where
  "write_bytes i off [] s = s"
| "write_bytes i off (v # vs) s = write_bytes i (off + 1) vs (dev_write i off v s)"

fun receive_bytes :: "nat \<Rightarrow> nat \<Rightarrow> smbus \<Rightarrow> u8 list \<times> smbus" where
  "receive_bytes i 0 s = ([], s)"
| "receive_bytes i (Suc n) s = (let (v, s1) = dev_receive i s; (vs, s2) = receive_bytes i n s1 in (v # vs, s2))"

definition write_block :: "nat \<Rightarrow> smbus \<Rightarrow> smbus" where
  "write_block i s =
     (let count = min (unat (data0 s)) BLOCK_MAX
      in write_bytes i (command s + 1) (map (\<lambda>k. block_at k s) [0..<count]) (dev_write i (command s) (of_nat count) s))"

definition end_transfer :: "smbus \<Rightarrow> smbus" where
  "end_transfer s = s\<lparr>transfer := T_None, index := 0, status := status s AND NOT STS_HOST_BUSY OR STS_INTR\<rparr>"

definition next_byte :: "smbus \<Rightarrow> smbus" where
  "next_byte s =
     (case device (drop_bit 1 (address s)) s of
        None \<Rightarrow> s
      | Some i \<Rightarrow>
          if transfer s = T_None then s
          else let s1 = s\<lparr>index := index s + 1\<rparr>
               in if transfer s1 = T_Write
                  then if index s1 \<ge> min (unat (data0 s1)) BLOCK_MAX then end_transfer (write_block i s1)
                       else s1\<lparr>block := (block s1)[index s1 := block_byte s1], status := status s1 OR STS_BYTE_DONE\<rparr>
                  else let s2 = (if transfer s1 = T_I2c
                                 then let (v, u) = dev_receive i s1 in u\<lparr>block_byte := v\<rparr>
                                 else s1\<lparr>block_byte := block_at (index s1 mod 32) s1\<rparr>)
                       in if on (control s2) CNT_LAST_BYTE then end_transfer s2
                          else s2\<lparr>status := status s2 OR STS_BYTE_DONE\<rparr>)"

text \<open>The block commands of \<open>start\<close>; True if the command ended and INTR_STS is to be set.\<close>

definition start_block_read :: "nat \<Rightarrow> smbus \<Rightarrow> bool \<times> smbus" where
  "start_block_read i s =
     (let (c, s1) = dev_receive i (dev_send i (command s) s);
          count = min (unat c) BLOCK_MAX;
          (vs, s2) = receive_bytes i count s1;
          s3 = s2\<lparr>data0 := of_nat count, block := vs @ replicate (BLOCK_MAX - count) 0, index := 0\<rparr>
      in if on (aux_control s3) AUX_E32B then (True, s3)
         else (False, s3\<lparr>transfer := T_Read, block_byte := block_at 0 s3, status := status s3 OR (STS_HOST_BUSY OR STS_BYTE_DONE)\<rparr>))"

definition start_block_write :: "bool \<Rightarrow> nat \<Rightarrow> smbus \<Rightarrow> bool \<times> smbus" where
  "start_block_write process i s =
     (if \<not> on (aux_control s) AUX_E32B
      then (False, s\<lparr>transfer := T_Write, block := (block s)[0 := block_byte s], index := 0,
                     status := status s OR (STS_HOST_BUSY OR STS_BYTE_DONE)\<rparr>)
      else let s1 = write_block i s;
               s2 = (if process
                     then let (c, u) = dev_receive i (dev_send i (command s1) s1);
                              count = min (unat c) BLOCK_MAX;
                              (vs, v) = receive_bytes i count u
                          in v\<lparr>block := vs @ drop count (block v), data0 := of_nat count\<rparr>
                     else s1)
           in (True, s2\<lparr>index := 0\<rparr>))"

definition read_word :: "nat \<Rightarrow> smbus \<Rightarrow> smbus" where
  "read_word i s =
     (let (a, s1) = dev_receive i (dev_send i (command s) s);
          (b, s2) = dev_receive i (s1\<lparr>data0 := a\<rparr>)
      in s2\<lparr>data1 := b\<rparr>)"

definition write_word :: "nat \<Rightarrow> smbus \<Rightarrow> smbus" where
  "write_word i s = dev_write i (command s + 1) (data1 s) (dev_write i (command s) (data0 s) s)"

definition run_command :: "nat \<Rightarrow> bool \<Rightarrow> nat \<Rightarrow> smbus \<Rightarrow> bool \<times> smbus" where
  "run_command protocol rd i s =
     (if protocol = 0 then (True, s)
      else if protocol = 1 then
        (True, if rd then let (v, s1) = dev_receive i s in s1\<lparr>data0 := v\<rparr> else dev_send i (command s) s)
      else if protocol = 2 then
        (True, if rd then let (v, s1) = dev_receive i (dev_send i (command s) s) in s1\<lparr>data0 := v\<rparr>
               else dev_write i (command s) (data0 s) s)
      else if protocol = 3 then (True, if rd then read_word i s else write_word i s)
      else if protocol = 4 then (True, read_word i (write_word i s))
      else if protocol = 5 \<or> protocol = 7 then
        (if rd \<and> protocol = 5 then start_block_read i s else start_block_write (protocol = 7) i s)
      else let (v, s1) = dev_receive i ((dev_send i (data1 s) s)\<lparr>transfer := T_I2c\<rparr>)
           in (False, s1\<lparr>block_byte := v, status := status s1 OR (STS_HOST_BUSY OR STS_BYTE_DONE)\<rparr>))"

definition smb_start :: "smbus \<Rightarrow> smbus" where
  "smb_start s =
     (let protocol = unat (drop_bit 2 (control s) AND 7); rd = on (address s) 1
      in if on (status s) (STS_DEV_ERR OR STS_BUS_ERR OR STS_FAILED) \<or> transfer s \<noteq> T_None
         then s\<lparr>status := status s OR STS_DEV_ERR\<rparr>
         else case device (drop_bit 1 (address s)) s of
                None \<Rightarrow> s\<lparr>status := status s OR STS_DEV_ERR\<rparr>
              | Some i \<Rightarrow> (let (ended, s1) = run_command protocol rd i s
                          in if ended then s1\<lparr>status := status s1 OR STS_INTR\<rparr> else s1))"

definition smb_read :: "nat \<Rightarrow> smbus \<Rightarrow> u8 \<times> smbus" where
  "smb_read offset s =
     (if offset = 0x00 then (status s, s\<lparr>status := status s OR STS_INUSE\<rparr>)
      else if offset = 0x02 then (control s, s\<lparr>index := 0\<rparr>)
      else if offset = 0x03 then (command s, s)
      else if offset = 0x04 then (address s, s)
      else if offset = 0x05 then (data0 s, s)
      else if offset = 0x06 then (data1 s, s)
      else if offset = 0x07 then
        (if on (aux_control s) AUX_E32B \<and> transfer s = T_None
         then (block_at (index s) s, s\<lparr>index := (index s + 1) mod 32\<rparr>)
         else (block_byte s, s))
      else if offset = 0x08 then (pec s, s)
      else if offset = 0x0C then (aux_status s, s)
      else if offset = 0x0D then (aux_control s, s)
      else if offset = 0x0F then (0x07, s)
      else (0, s))"

definition write_status :: "u8 \<Rightarrow> smbus \<Rightarrow> smbus" where
  "write_status v s =
     (let byte_done = on (status s AND v) STS_BYTE_DONE;
          s1 = s\<lparr>status := status s AND NOT (v AND NOT STS_HOST_BUSY)\<rparr>
      in update_irq (if byte_done then next_byte s1 else s1))"

definition write_control :: "u8 \<Rightarrow> smbus \<Rightarrow> smbus" where
  "write_control v s =
     (let s1 = s\<lparr>control := v AND NOT CNT_START\<rparr>
      in update_irq
           (if on v CNT_KILL
            then (if on (status s1) STS_HOST_BUSY \<or> transfer s1 \<noteq> T_None
                  then s1\<lparr>transfer := T_None, status := status s1 AND NOT (STS_HOST_BUSY OR STS_BYTE_DONE) OR STS_FAILED\<rparr>
                  else s1)\<lparr>index := 0\<rparr>
            else if on v CNT_START then smb_start s1 else s1))"

definition smb_write :: "nat \<Rightarrow> u8 \<Rightarrow> smbus \<Rightarrow> smbus" where
  "smb_write offset v s =
     (if offset = 0x00 then write_status v s
      else if offset = 0x02 then write_control v s
      else if offset = 0x03 then s\<lparr>command := v\<rparr>
      else if offset = 0x04 then s\<lparr>address := v\<rparr>
      else if offset = 0x05 then s\<lparr>data0 := v\<rparr>
      else if offset = 0x06 then s\<lparr>data1 := v\<rparr>
      else if offset = 0x07 then
        (if on (aux_control s) AUX_E32B \<and> transfer s = T_None
         then s\<lparr>block := (block s)[index s := v], index := (index s + 1) mod 32\<rparr>
         else s\<lparr>block_byte := v\<rparr>)
      else if offset = 0x08 then s\<lparr>pec := v\<rparr>
      else if offset = 0x0C then s\<lparr>aux_status := aux_status s AND NOT v\<rparr>
      else if offset = 0x0D then s\<lparr>aux_control := v AND 0x03\<rparr>
      else s)"

section \<open>Decoding\<close>

text \<open>The closure \<open>bytes(size)\<close> and the wider writes of \<open>update_decode\<close>.\<close>

fun read_bytes :: "nat \<Rightarrow> nat \<Rightarrow> smbus \<Rightarrow> i32 \<times> smbus" where
  "read_bytes offset 0 s = (0, s)"
| "read_bytes offset (Suc n) s =
     (let (x, s1) = smb_read offset s; (y, s2) = read_bytes (offset + 1) n s1 in (ucast x OR push_bit 8 y, s2))"

definition write_wide :: "nat \<Rightarrow> nat \<Rightarrow> i32 \<Rightarrow> smbus \<Rightarrow> smbus" where
  "write_wide offset n v s = fold (\<lambda>i. smb_write (offset + i) (ucast (drop_bit (8 * i) v))) [0..<n] s"

definition decode_base :: "bool \<Rightarrow> u8 \<Rightarrow> nat \<Rightarrow> nat option" where
  "decode_base io_enabled hostc bar =
     (if io_enabled \<and> on hostc 0x01 \<and> \<not> on hostc 0x04 \<and> bar \<noteq> 0 \<and> bar + 32 \<le> 0x10000 then Some bar else None)"

definition register_offset :: "nat \<Rightarrow> ('m \<Rightarrow> smbus) \<Rightarrow> (smbus \<Rightarrow> 'm \<Rightarrow> 'm) \<Rightarrow> nat \<Rightarrow> nat \<Rightarrow> 'm ports \<Rightarrow> 'm ports option" where
  "register_offset dev get put base offset io =
     reg_seq
       [register_read (base + offset) dev (Some (lift_read get put (read_bytes offset 1)))
          (Some (lift_read get put (read_bytes offset 2))) (Some (lift_read get put (read_bytes offset 4))),
        register_write (base + offset) dev (Some (lift_write get put (write_wide offset 1)))
          (Some (lift_write get put (write_wide offset 2))) (Some (lift_write get put (write_wide offset 4)))] io"

definition update_decode ::
  "nat \<Rightarrow> ('m \<Rightarrow> smbus) \<Rightarrow> (smbus \<Rightarrow> 'm \<Rightarrow> 'm) \<Rightarrow> bool \<Rightarrow> u8 \<Rightarrow> nat \<Rightarrow> 'm ports \<Rightarrow> 'm \<Rightarrow> ('m ports \<times> 'm) option" where
  "update_decode dev get put io_enabled hostc bar io m =
     (let base = decode_base io_enabled hostc bar; old = io_base (get m)
      in if base = old then Some (io, m)
         else let io1 = (case old of None \<Rightarrow> Some io | Some b \<Rightarrow> unregister_range b 32 dev io);
                  m1 = put ((get m)\<lparr>io_base := base\<rparr>) m
              in case base of
                   None \<Rightarrow> map_option (\<lambda>t. (t, m1)) io1
                 | Some b \<Rightarrow> map_option (\<lambda>t. (t, m1))
                     (Option.bind io1 (reg_seq (map (register_offset dev get put b) [0..<32]))))"

section \<open>Saved states\<close>

record smbus_state =
  ss_regs :: "u8 list"
  ss_index :: nat
  ss_irq_level :: bool
  ss_transfer :: transfer
  ss_block :: "u8 list"
  ss_devices :: "(u8 list \<times> u8) list"

definition smb_get_state :: "smbus \<Rightarrow> smbus_state" where
  "smb_get_state s =
     \<lparr>ss_regs = [status s, control s, command s, address s, data0 s, data1 s, pec s, aux_status s, aux_control s, block_byte s],
      ss_index = index s, ss_irq_level = irq_level s, ss_transfer = transfer s, ss_block = block s,
      ss_devices = map (\<lambda>d. (ee_data d, ee_offset d)) (devices s)\<rparr>"

text \<open>\<open>array.set(values)\<close>: a RangeError if there are too many.\<close>

definition set_prefix :: "'a list \<Rightarrow> 'a list \<Rightarrow> 'a list option" where
  "set_prefix vs xs = (if length vs \<le> length xs then Some (vs @ drop (length vs) xs) else None)"

fun restore_devices :: "(u8 list \<times> u8) list \<Rightarrow> eeprom list \<Rightarrow> eeprom list option" where
  "restore_devices [] ds = Some ds"
| "restore_devices (x # xs) [] = None"
| "restore_devices ((data, off) # xs) (d # ds) =
     Option.bind (set_prefix data (ee_data d)) (\<lambda>data'.
       map_option (\<lambda>ds'. d\<lparr>ee_data := data', ee_offset := off\<rparr> # ds') (restore_devices xs ds))"

definition smb_set_state :: "smbus_state \<Rightarrow> smbus \<Rightarrow> smbus option" where
  "smb_set_state st s =
     Option.bind (set_prefix (ss_block st) (block s)) (\<lambda>b.
       map_option
         (\<lambda>ds. s\<lparr>status := ss_regs st ! 0, control := ss_regs st ! 1, command := ss_regs st ! 2, address := ss_regs st ! 3,
                 data0 := ss_regs st ! 4, data1 := ss_regs st ! 5, pec := ss_regs st ! 6, aux_status := ss_regs st ! 7,
                 aux_control := ss_regs st ! 8, index := ss_index st, block_byte := ss_regs st ! 9,
                 irq_level := ss_irq_level st, transfer := ss_transfer st, block := b, devices := ds\<rparr>)
         (restore_devices (ss_devices st) (devices s)))"

section \<open>The bus operations on an EEPROM\<close>

text \<open>Storing bytes from an offset on, and what is read from an offset on.\<close>

fun ee_store :: "u8 \<Rightarrow> u8 list \<Rightarrow> eeprom \<Rightarrow> eeprom" where
  "ee_store off [] d = d"
| "ee_store off (v # vs) d = ee_store (off + 1) vs (write_byte off v d)"

definition ee_read :: "u8 \<Rightarrow> nat \<Rightarrow> eeprom \<Rightarrow> u8 list" where
  "ee_read off n d = map (\<lambda>k. ee_data d ! unat (off + of_nat k)) [0..<n]"

lemma write_bytes_store:
  "i < length (devices s) \<Longrightarrow> write_bytes i off vs s = s\<lparr>devices := (devices s)[i := ee_store off vs (devices s ! i)]\<rparr>"
  by (induction vs arbitrary: off s) (simp_all add: dev_write_def)

lemma receive_bytes_read:
  "i < length (devices s) \<Longrightarrow> receive_bytes i n s =
    (ee_read (ee_offset (devices s ! i)) n (devices s ! i),
     s\<lparr>devices := (devices s)[i := (devices s ! i)\<lparr>ee_offset := ee_offset (devices s ! i) + of_nat n\<rparr>]\<rparr>)"
proof (induction n arbitrary: s)
  case 0
  then show ?case by (simp add: ee_read_def)
next
  case (Suc n)
  have "[0..<Suc n] = 0 # map Suc [0..<n]" by (simp add: map_Suc_upt upt_conv_Cons del: upt_Suc)
  then have r: "ee_read off (Suc n) d = ee_data d ! unat off # ee_read (off + 1) n d" for off d
    by (simp add: ee_read_def ac_simps del: upt_Suc)
  have e: "ee_read off n (d\<lparr>ee_offset := x\<rparr>) = ee_read off n d" for off x d by (simp add: ee_read_def)
  show ?case using Suc by (simp add: dev_receive_def receive_byte_def Let_def r e) (simp add: ac_simps)
qed

lemma ee_store_data:
  "length (ee_data (ee_store off vs d)) = length (ee_data d)"
  "ee_address (ee_store off vs d) = ee_address d"
  by (induction vs arbitrary: off d) (simp_all add: write_byte_def)

lemma ee_store_other:
  "\<forall>k < length vs. x \<noteq> off + of_nat k \<Longrightarrow> ee_data (ee_store off vs d) ! unat x = ee_data d ! unat x"
proof (induction vs arbitrary: off d)
  case (Cons v vs)
  have "x \<noteq> off + 1 + of_nat k" if "k < length vs" for k
    using Cons.prems [rule_format, of "Suc k"] that by (simp add: ac_simps)
  moreover have "unat off \<noteq> unat x" using Cons.prems [rule_format, of 0] using unsigned_word_eqI [of off x] by auto
  ultimately show ?case using Cons.IH [of "off + 1"] by (simp add: write_byte_def)
qed simp

lemma of_nat_byte_neq: "(off :: u8) = off + 1 + of_nat k \<Longrightarrow> k < 255 \<Longrightarrow> False"
proof -
  assume "off = off + 1 + of_nat k" and k: "k < 255"
  then have "(of_nat (Suc k) :: u8) = 0" by (metis add.assoc add_cancel_right_right of_nat_Suc)
  then have "256 dvd Suc k" using word_of_nat_eq_0_iff [of "Suc k", where 'a = 8] by simp
  then show False using k by (auto dest: dvd_imp_le)
qed

lemma ee_store_read:
  assumes "length (ee_data d) = 256" "length vs \<le> 256"
  shows "k < length vs \<Longrightarrow> ee_data (ee_store off vs d) ! unat (off + of_nat k) = vs ! k"
  using assms
proof (induction vs arbitrary: off d k)
  case (Cons v vs)
  have b: "unat off < 256" using unsigned_less [of off] by simp
  show ?case
  proof (cases k)
    case 0
    have "\<forall>j < length vs. off \<noteq> off + 1 + of_nat j" using of_nat_byte_neq [of off] Cons.prems(3) by fastforce
    then show ?thesis using 0 b Cons.prems ee_store_other [of vs off "off + 1"] by (simp add: write_byte_def)
  next
    case (Suc j)
    then show ?thesis using Cons.IH [of j "write_byte off v d" "off + 1"] Cons.prems by (simp add: write_byte_def ac_simps)
  qed
qed simp

lemma ee_read_store:
  assumes "length (ee_data d) = 256" "length vs \<le> 256" "n \<le> length vs"
  shows "ee_read off n (ee_store off vs d) = take n vs"
  using assms ee_store_read [of d vs _ off] by (intro nth_equalityI) (simp_all add: ee_read_def)

section \<open>Invariant\<close>

datatype smb_event = Smb_Read nat | Smb_Write nat u8 | Smb_Reset

fun smb_step :: "smb_event \<Rightarrow> smbus \<Rightarrow> smbus" where
  "smb_step (Smb_Read offset) s = snd (smb_read offset s)"
| "smb_step (Smb_Write offset v) s = smb_write offset v s"
| "smb_step Smb_Reset s = smb_reset s"

text \<open>The level that the recorded calls leave on the interrupt pin.\<close>

definition pin :: "smbus \<Rightarrow> bool" where
  "pin s \<longleftrightarrow> pci_irq s \<noteq> [] \<and> last (pci_irq s)"

definition irq_ok :: "smbus \<Rightarrow> bool" where
  "irq_ok s \<longleftrightarrow> irq_level s = (on (control s) CNT_INTREN \<and> on (status s) STS_INTERRUPTS) \<and> pin s = irq_level s"

text \<open>
  The buffers have their sizes, the controller is busy exactly while a byte-by-byte transfer is
  under way, and its index lies in the buffer, but for a read that went on past it.
\<close>

definition smb_wf :: "smbus \<Rightarrow> bool" where
  "smb_wf s \<longleftrightarrow> length (block s) = 32 \<and> (\<forall>d \<in> set (devices s). length (ee_data d) = 256) \<and>
     on (status s) STS_HOST_BUSY = (transfer s \<noteq> T_None) \<and> (transfer s \<in> {T_None, T_Write} \<longrightarrow> index s < 32)"

definition smb_inv :: "smbus \<Rightarrow> bool" where
  "smb_inv s \<longleftrightarrow> smb_wf s \<and> irq_ok s"

lemma update_irq_ok: "pin s = irq_level s \<Longrightarrow> irq_ok (update_irq s)"
  by (auto simp: update_irq_def irq_ok_def pin_def Let_def)

lemma update_irq_wf [simp]: "smb_wf (update_irq s) = smb_wf s"
  by (simp add: update_irq_def smb_wf_def Let_def)

text \<open>What the bus operations leave alone.\<close>

definition same_host :: "smbus \<Rightarrow> smbus \<Rightarrow> bool" where
  "same_host s t \<longleftrightarrow> status t = status s \<and> control t = control s \<and> transfer t = transfer s \<and> index t = index s \<and>
     block t = block s \<and> irq_level t = irq_level s \<and> pci_irq t = pci_irq s \<and> command t = command s \<and>
     aux_control t = aux_control s \<and> length (devices t) = length (devices s) \<and>
     ((\<forall>d \<in> set (devices s). length (ee_data d) = 256) \<longrightarrow> (\<forall>d \<in> set (devices t). length (ee_data d) = 256))"

lemma same_host_refl: "same_host s s"
  by (simp add: same_host_def)

lemma same_host_trans: "same_host s t \<Longrightarrow> same_host t u \<Longrightarrow> same_host s u"
  unfolding same_host_def by simp

lemma same_host_data: "same_host s (s\<lparr>data0 := x\<rparr>)" "same_host s (s\<lparr>data1 := x\<rparr>)" "same_host s (s\<lparr>block_byte := x\<rparr>)"
  by (simp_all add: same_host_def)

lemma same_host_device:
  assumes "i < length (devices s)" "length (ee_data d) = length (ee_data (devices s ! i))"
  shows "same_host s (s\<lparr>devices := (devices s)[i := d]\<rparr>)"
proof -
  have "set ((devices s)[i := d]) \<subseteq> insert d (set (devices s))" by (rule set_update_subset_insert)
  then show ?thesis using assms by (auto simp: same_host_def)
qed

lemma same_host_bus:
  assumes "i < length (devices s)"
  shows "same_host s (dev_send i v s)" "same_host s (dev_write i off v s)" "same_host s (snd (dev_receive i s))"
    "same_host s (write_bytes i off vs s)" "same_host s (snd (receive_bytes i n s))"
  using assms
  by (simp_all add: dev_send_def dev_write_def dev_receive_def receive_byte_def send_byte_def write_byte_def
      write_bytes_store receive_bytes_read same_host_device ee_store_data)

lemma same_host_length: "same_host s t \<Longrightarrow> length (devices t) = length (devices s)"
  by (simp add: same_host_def)

lemma same_host_commands:
  assumes "i < length (devices s)"
  shows "same_host s (write_block i s)" "same_host s (read_word i s)" "same_host s (write_word i s)"
proof -
  show "same_host s (write_block i s)"
    unfolding write_block_def Let_def using assms
    by (intro same_host_trans [OF same_host_bus(2) same_host_bus(4)]) (simp_all add: dev_write_def)
  show "same_host s (write_word i s)"
    unfolding write_word_def using assms
    by (intro same_host_trans [OF same_host_bus(2) same_host_bus(2)]) (simp_all add: dev_write_def)
  let ?s1 = "snd (dev_receive i (dev_send i (command s) s))"
  have 1: "same_host s ?s1"
    using assms by (intro same_host_trans [OF same_host_bus(1) same_host_bus(3)]) (simp_all add: dev_send_def)
  then have 2: "same_host s (?s1\<lparr>data0 := x\<rparr>)" for x by (rule same_host_trans) (rule same_host_data)
  have "same_host s (snd (dev_receive i (?s1\<lparr>data0 := x\<rparr>)))" for x
    by (rule same_host_trans [OF 2 same_host_bus(3)]) (use same_host_length [OF 2, of x] assms in simp)
  then have "same_host s ((snd (dev_receive i (?s1\<lparr>data0 := x\<rparr>)))\<lparr>data1 := y\<rparr>)" for x y
    by (rule same_host_trans) (rule same_host_data(2))
  then show "same_host s (read_word i s)" by (simp add: read_word_def Let_def case_prod_unfold)
qed

lemma find_device_bound: "find_device a ds = Some i \<Longrightarrow> i < length ds \<and> ee_address (ds ! i) = a"
  by (induction ds arbitrary: i) (auto split: if_splits)

text \<open>The status bits as single bits.\<close>

lemma on_or: "on (x OR y) m \<longleftrightarrow> on x m \<or> on y m"
  by (auto simp: on_def word_bits_eq_iff bit_simps)

lemma on_and_not: "m AND k = 0 \<Longrightarrow> on (x AND NOT k) m = on x m"
  by (auto simp: on_def word_bits_eq_iff bit_simps)

lemma on_status [simp]:
  "on (x OR 0x81) 1" "on (x OR 0x80) 1 = on x 1" "on (x OR 0x02) 1 = on x 1" "on (x OR 0x04) 1 = on x 1" "on (x OR 0x40) 1 = on x 1"
  "on (x OR 0x40) 0x9E = on x 0x9E" "\<not> on 0 m"
  by (simp_all add: on_or) (simp_all add: on_def)

lemma wf_same_host: "same_host s t \<Longrightarrow> smb_wf s \<Longrightarrow> smb_wf t"
  by (auto simp: same_host_def smb_wf_def)

text \<open>A state that kept the invariant and the interrupt.\<close>

definition kept :: "smbus \<Rightarrow> smbus \<Rightarrow> bool" where
  "kept s t \<longleftrightarrow> (smb_wf s \<longrightarrow> smb_wf t) \<and> irq_level t = irq_level s \<and> pci_irq t = pci_irq s"

lemma kept_same_host: "same_host s t \<Longrightarrow> kept s t"
  by (simp add: kept_def wf_same_host) (simp add: same_host_def)

lemma kept_trans: "kept s t \<Longrightarrow> kept t u \<Longrightarrow> kept s u"
  by (simp add: kept_def)

lemma length_receive_bytes: "length (fst (receive_bytes i n s)) = n"
  by (induction n arbitrary: s) (simp_all add: Let_def case_prod_unfold)

lemma start_block_read_kept:
  assumes "i < length (devices s)" "transfer s = T_None"
  shows "kept s (snd (start_block_read i s))"
proof -
  let ?s1 = "snd (dev_receive i (dev_send i (command s) s))"
  let ?n = "min (unat (fst (dev_receive i (dev_send i (command s) s)))) 32"
  have 1: "same_host s ?s1"
    using assms by (intro same_host_trans [OF same_host_bus(1) same_host_bus(3)]) (simp_all add: dev_send_def)
  have 2: "same_host s (snd (receive_bytes i ?n ?s1))"
    by (rule same_host_trans [OF 1 same_host_bus(5)]) (use same_host_length [OF 1] assms in simp)
  then show ?thesis
    using assms(2) length_receive_bytes [of i ?n ?s1]
    by (auto simp: start_block_read_def kept_def smb_wf_def same_host_def Let_def case_prod_unfold)
qed

lemma start_block_write_kept:
  assumes "i < length (devices s)" "transfer s = T_None"
  shows "kept s (snd (start_block_write process i s))"
proof -
  let ?w = "write_block i s"
  have w: "same_host s ?w" by (rule same_host_commands [OF assms(1)])
  let ?s1 = "snd (dev_receive i (dev_send i (command ?w) ?w))"
  let ?n = "min (unat (fst (dev_receive i (dev_send i (command ?w) ?w)))) 32"
  have 1: "same_host ?w ?s1"
    using assms same_host_length [OF w]
    by (intro same_host_trans [OF same_host_bus(1) same_host_bus(3)]) (simp_all add: dev_send_def)
  have 2: "same_host s (snd (receive_bytes i ?n ?s1))"
    by (rule same_host_trans [OF same_host_trans [OF w 1] same_host_bus(5)])
       (use same_host_length [OF 1] same_host_length [OF w] assms in simp)
  have "kept s (s\<lparr>transfer := T_Write, block := (block s)[0 := x], index := 0, status := status s OR 0x81\<rparr>)" for x
    by (auto simp: kept_def smb_wf_def)
  moreover have "kept s (?w\<lparr>index := 0\<rparr>)"
    using kept_same_host [OF w] by (auto simp: kept_def smb_wf_def)
  moreover have "kept s (u\<lparr>block := vs @ drop n (block u), data0 := x, index := 0\<rparr>)"
    if "same_host s u" "length vs = n" "n \<le> 32" for u vs n x
    using kept_same_host [OF that(1)] that(2,3) by (auto simp: kept_def smb_wf_def)
  ultimately show ?thesis
    using 2 length_receive_bytes [of i ?n ?s1] by (simp add: start_block_write_def Let_def case_prod_unfold)
qed

lemma run_command_kept:
  assumes "i < length (devices s)" "transfer s = T_None"
  shows "kept s (snd (run_command protocol rd i s))"
proof -
  note h = same_host_bus [OF assms(1)] same_host_commands [OF assms(1)]
  let ?s1 = "snd (dev_receive i (dev_send i v s))"
  have r: "same_host s (snd (dev_receive i (dev_send i v s)))" for v
    using assms by (intro same_host_trans [OF same_host_bus(1) same_host_bus(3)]) (simp_all add: dev_send_def)
  have p: "same_host s (read_word i (write_word i s))"
    by (rule same_host_trans [OF h(8) same_host_commands(2)]) (use same_host_length [OF h(8)] assms in simp)
  have i2c: "kept s ((snd (dev_receive i ((dev_send i v s)\<lparr>transfer := T_I2c\<rparr>)))\<lparr>block_byte := x, status := y OR 0x81\<rparr>)" for v x y
  proof -
    have "snd (dev_receive i ((dev_send i v s)\<lparr>transfer := T_I2c\<rparr>)) = (snd (dev_receive i (dev_send i v s)))\<lparr>transfer := T_I2c\<rparr>"
      by (simp add: dev_receive_def case_prod_unfold Let_def)
    then show ?thesis using r [of v] by (auto simp: kept_def smb_wf_def same_host_def)
  qed
  have d: "same_host s t \<Longrightarrow> kept s t" "same_host s t \<Longrightarrow> kept s (t\<lparr>data0 := x\<rparr>)" for t x
    by (auto intro: kept_same_host same_host_trans same_host_data)
  show ?thesis
    unfolding run_command_def
    using d [OF h(1)] d [OF h(2)] d [OF h(3)] d(1) [OF h(7)] d(1) [OF h(8)] d [OF r] d(1) [OF p] d(1) [OF same_host_refl] i2c
      start_block_read_kept [OF assms] start_block_write_kept [OF assms]
    by (simp add: case_prod_unfold Let_def)
qed

lemma smb_start_kept: "kept s (smb_start s)"
proof -
  have e: "kept u (u\<lparr>status := status u OR 0x04\<rparr>)" "kept u (u\<lparr>status := status u OR 0x02\<rparr>)" for u
    by (auto simp: kept_def smb_wf_def)
  have "kept s ((snd (run_command p rd i s))\<lparr>status := status (snd (run_command p rd i s)) OR 0x02\<rparr>)"
    "kept s (snd (run_command p rd i s))" if "i < length (devices s)" "transfer s = T_None" for p rd i
    using kept_trans [OF run_command_kept [OF that] e(2)] run_command_kept [OF that] by blast+
  then show ?thesis
    using e find_device_bound [of _ "devices s"]
    by (auto simp: smb_start_def device_def Let_def case_prod_unfold split: option.split)
qed

lemma on_clear [simp]:
  "\<not> on (x AND - 2) 1" "\<not> on (x AND - 0x82) 1" "on (x AND (NOT v OR 1)) 1 = on x 1" "on (x OR 0x10) 1 = on x 1"
proof -
  have "(NOT v OR 1) AND 1 = 1" by (auto simp: word_bits_eq_iff bit_simps)
  then show "on (x AND (NOT v OR 1)) 1 = on x 1" by (simp only: on_def and.assoc)
qed (simp_all add: on_or, simp_all add: on_def and.assoc)

lemma end_transfer_kept: "kept s (end_transfer s)"
  by (auto simp: kept_def smb_wf_def end_transfer_def)

lemma next_byte_kept: "kept s (next_byte s)"
proof (cases "device (drop_bit 1 (address s)) s")
  case None
  then show ?thesis by (simp add: next_byte_def kept_def)
next
  case (Some i)
  then have i: "i < length (devices s)" using find_device_bound by (auto simp: device_def)
  let ?s1 = "s\<lparr>index := index s + 1\<rparr>"
  have w: "kept s (end_transfer (write_block i ?s1))"
    using same_host_commands(1) [of i ?s1] i
    by (auto simp: kept_def smb_wf_def end_transfer_def same_host_def)
  have n: "kept s (?s1\<lparr>block := (block s)[k := x], status := status s OR 0x80\<rparr>)" if "Suc (index s) < 32" for k x
    using that by (auto simp: kept_def smb_wf_def)
  have r: "kept s (end_transfer u)" "kept s (u\<lparr>status := status u OR 0x80\<rparr>)"
    if "same_host ?s1 u" "transfer s \<notin> {T_None, T_Write}" for u
    using that by (auto simp: kept_def smb_wf_def same_host_def end_transfer_def)
  have 1: "same_host ?s1 ((snd (dev_receive i ?s1))\<lparr>block_byte := x\<rparr>)" for x
    using same_host_bus(3) [of i ?s1] i by (auto intro: same_host_trans same_host_data)
  show ?thesis
    unfolding next_byte_def
    using Some w n r [OF 1] r [OF same_host_data(3)]
    by (auto simp: kept_def [of s s] Let_def case_prod_unfold)
qed

lemma write_register_inv:
  assumes "smb_inv s" shows "smb_inv (write_status v s)" "smb_inv (write_control v s)"
proof -
  have p: "pin u = irq_level u" if "irq_level u = irq_level s" "pci_irq u = pci_irq s" for u
    using assms that by (simp add: smb_inv_def irq_ok_def pin_def)
  have k: "smb_inv (update_irq u)" if "kept s u" for u
    using that assms p [of u] by (simp add: smb_inv_def kept_def update_irq_ok)
  have "kept s (s\<lparr>status := status s AND NOT (v AND NOT 1)\<rparr>)" by (auto simp: kept_def smb_wf_def)
  then show "smb_inv (write_status v s)"
    unfolding write_status_def Let_def by (auto intro!: k intro: kept_trans next_byte_kept)
  let ?s1 = "s\<lparr>control := v AND NOT CNT_START\<rparr>"
  have "kept s ?s1" by (simp add: kept_def smb_wf_def)
  moreover have "kept s (?s1\<lparr>transfer := T_None, status := status s AND NOT 0x81 OR 0x10, index := 0\<rparr>)"
    by (auto simp: kept_def smb_wf_def)
  moreover have "kept s (?s1\<lparr>index := 0\<rparr>)" by (auto simp: kept_def smb_wf_def)
  ultimately show "smb_inv (write_control v s)"
    unfolding write_control_def Let_def by (auto intro!: k intro: kept_trans smb_start_kept)
qed

lemma smb_step_inv:
  assumes "smb_inv s" shows "smb_inv (smb_step e s)"
proof (cases e)
  case (Smb_Read offset)
  then show ?thesis
    using assms by (auto simp: smb_read_def smb_inv_def smb_wf_def irq_ok_def pin_def)
next
  case (Smb_Write offset v)
  then show ?thesis
    using assms write_register_inv [OF assms]
    by (auto simp: smb_write_def) (auto simp: smb_inv_def smb_wf_def irq_ok_def pin_def)
next
  case Smb_Reset
  define u where "u = s\<lparr>status := 0, control := 0, command := 0, address := 0, data0 := 0, data1 := 0, pec := 0, aux_status := 0,
      aux_control := 0, block := replicate (length (block s)) 0, index := 0, block_byte := 0, transfer := T_None\<rparr>"
  have "smb_wf u" "pin u = irq_level u" using assms by (simp_all add: u_def smb_inv_def smb_wf_def irq_ok_def pin_def)
  then show ?thesis using Smb_Reset update_irq_ok [of u] by (simp add: smb_inv_def smb_reset_def u_def)
qed

lemma SMBus_inv: "smb_inv SMBus"
  by (simp add: SMBus_def smb_reset_def update_irq_def smb_inv_def smb_wf_def irq_ok_def pin_def SMBusEEPROM_def on_def)

interpretation smbm: device_machine "\<lambda>_. True" smb_step SMBus smb_inv
  by unfold_locales (simp_all add: smb_step_inv SMBus_inv)

text \<open>
  In every reachable state of the SMBus controller its interrupt pin is up exactly if
  interrupts are enabled and a command ended, failed or has a byte done; the busy bit is set exactly
  while a byte-by-byte transfer is under way; and every pointer into the 32-byte block buffer that
  the next access through HOST_BLOCK_DB uses lies inside it.
\<close>

theorem smbus_interrupt_and_busy:
  assumes "reachable (\<lambda>_. True) smb_step SMBus s"
  shows "pin s = (on (control s) CNT_INTREN \<and> on (status s) STS_INTERRUPTS) \<and>
    on (status s) STS_HOST_BUSY = (transfer s \<noteq> T_None) \<and> length (block s) = 32 \<and> (transfer s \<in> {T_None, T_Write} \<longrightarrow> index s < 32)"
  using smbm.reachable_inv [OF assms] by (simp add: smb_inv_def irq_ok_def smb_wf_def)

theorem smbus_interrupt_and_busy_witness:
  "let s = run smb_step [Smb_Write 4 0xA0, Smb_Write 2 0x41] SMBus
   in pin s = (on (control s) CNT_INTREN \<and> on (status s) STS_INTERRUPTS) \<and> on (status s) STS_HOST_BUSY = (transfer s \<noteq> T_None)"
proof -
  have "reachable (\<lambda>_. True) smb_step SMBus (run smb_step [Smb_Write 4 0xA0, Smb_Write 2 0x41] SMBus)"
    by (intro reachable_run reachable.start) simp
  from smbus_interrupt_and_busy [OF this] show ?thesis by (simp add: Let_def del: run.simps)
qed

section \<open>Block transfers\<close>

lemma update_irq_fields [simp]:
  "status (update_irq s) = status s" "control (update_irq s) = control s" "command (update_irq s) = command s"
  "address (update_irq s) = address s" "data0 (update_irq s) = data0 s" "aux_control (update_irq s) = aux_control s"
  "block (update_irq s) = block s" "index (update_irq s) = index s" "block_byte (update_irq s) = block_byte s"
  "transfer (update_irq s) = transfer s" "devices (update_irq s) = devices s"
  by (simp_all add: update_irq_def Let_def)

text \<open>A controller ready for a command to the device \<open>i\<close>, which the slave address register \<open>x\<close> selects.\<close>

definition ready :: "nat \<Rightarrow> u8 \<Rightarrow> smbus \<Rightarrow> bool" where
  "ready i x s \<longleftrightarrow> transfer s = T_None \<and> \<not> on (status s) 0x1C \<and> length (block s) = 32 \<and>
     find_device (drop_bit 1 x) (devices s) = Some i \<and> (\<forall>d \<in> set (devices s). length (ee_data d) = 256)"

text \<open>A block write through the 32-byte buffer, one byte by byte, and a block read through the buffer.\<close>

definition buffered_write :: "u8 \<Rightarrow> u8 \<Rightarrow> u8 list \<Rightarrow> smb_event list" where
  "buffered_write x c vs =
     [Smb_Write 0x0D 0x02, Smb_Read 0x02, Smb_Write 0x04 x, Smb_Write 0x03 c] @
     map (Smb_Write 0x07) vs @ [Smb_Write 0x05 (of_nat (length vs)), Smb_Write 0x02 0x54]"

definition bytewise_write :: "u8 \<Rightarrow> u8 \<Rightarrow> u8 list \<Rightarrow> smb_event list" where
  "bytewise_write x c vs =
     [Smb_Write 0x0D 0x00, Smb_Write 0x04 x, Smb_Write 0x03 c, Smb_Write 0x05 (of_nat (length vs)),
      Smb_Write 0x07 (hd vs), Smb_Write 0x02 0x54] @
     concat (map (\<lambda>v. [Smb_Write 0x07 v, Smb_Write 0x00 0x80]) (tl vs)) @ [Smb_Write 0x00 0x80]"

definition buffered_read :: "u8 \<Rightarrow> u8 \<Rightarrow> smb_event list" where
  "buffered_read x c = [Smb_Write 0x0D 0x02, Smb_Write 0x04 (x OR 1), Smb_Write 0x03 c, Smb_Write 0x02 0x54]"

text \<open>Reading the buffer through HOST_BLOCK_DB.\<close>

fun read_db :: "nat \<Rightarrow> smbus \<Rightarrow> u8 list" where
  "read_db 0 s = []"
| "read_db (Suc n) s = (let (v, s1) = smb_read 0x07 s in v # read_db n s1)"

lemma slave_read: "drop_bit 1 (x OR 1) = drop_bit 1 (x :: u8)" "on (x OR 1) 1"
  by (auto simp: on_def word_bits_eq_iff bit_simps)

lemma ready_start:
  assumes "ready i (address s) s" "drop_bit 2 (control s) AND 7 = 5"
  shows "smb_start s = (let (ended, s1) = run_command 5 (on (address s) 1) i s
                        in if ended then s1\<lparr>status := status s1 OR STS_INTR\<rparr> else s1)"
  using assms by (simp add: ready_def smb_start_def device_def Let_def)

text \<open>Filling the buffer.\<close>

lemma fill_buffer:
  "on (aux_control s) 0x02 \<Longrightarrow> transfer s = T_None \<Longrightarrow> length (block s) = 32 \<Longrightarrow> index s < 32 \<Longrightarrow> index s + length vs \<le> 32 \<Longrightarrow>
   run smb_step (map (Smb_Write 0x07) vs) s =
     s\<lparr>block := take (index s) (block s) @ vs @ drop (index s + length vs) (block s), index := (index s + length vs) mod 32\<rparr>"
proof (induction vs arbitrary: s)
  case Nil
  then show ?case by simp
next
  case (Cons v vs)
  let ?s = "s\<lparr>block := (block s)[index s := v], index := (index s + 1) mod 32\<rparr>"
  have b: "(block s)[index s := v] = take (index s) (block s) @ v # drop (Suc (index s)) (block s)"
    using Cons.prems by (simp add: upd_conv_take_nth_drop)
  have step: "smb_step (Smb_Write 0x07 v) s = ?s" using Cons.prems by (simp add: smb_write_def)
  show ?case
  proof (cases "vs = []")
    case True
    then show ?thesis using step b by simp
  next
    case False
    then have m: "Suc (index s) < 32" using Cons.prems(5) by (cases vs) auto
    then have "run smb_step (map (Smb_Write 0x07) vs) ?s =
        ?s\<lparr>block := take (index ?s) (block ?s) @ vs @ drop (index ?s + length vs) (block ?s), index := (index ?s + length vs) mod 32\<rparr>"
      using Cons.prems by (intro Cons.IH) simp_all
    then show ?thesis using step m b Cons.prems by (simp add: add.commute)
  qed
qed

lemma unat_small: "n \<le> 32 \<Longrightarrow> unat (of_nat n :: u8) = n"
  by (simp add: unsigned_of_nat take_bit_nat_eq_self)

lemma write_block_store:
  assumes "i < length (devices s)" "length (block s) = 32" "data0 s = of_nat (length vs)" "length vs \<le> 32" "take (length vs) (block s) = vs"
  shows "write_block i s = s\<lparr>devices := (devices s)[i := ee_store (command s) (of_nat (length vs) # vs) (devices s ! i)]\<rparr>"
proof -
  have "map (\<lambda>k. block_at k s) [0..<length vs] = take (length vs) (block s)"
    using assms(2,4) by (intro nth_equalityI) (simp_all add: block_at_def)
  then show ?thesis
    using assms by (simp add: write_block_def Let_def unat_small dev_write_def write_bytes_store)
qed

lemma find_device_store: "find_device a ((ds :: eeprom list)[i := d]) = find_device a ds"
  if "i < length ds" "ee_address d = ee_address (ds ! i)"
  using that by (induction ds arbitrary: i) (auto split: nat.splits)

lemma ready_store:
  assumes "ready i x s" "devices t = (devices s)[i := ee_store c vs (devices s ! i)]" "length (block t) = 32" "transfer t = T_None"
    "\<not> on (status t) 0x1C"
  shows "ready i x t"
proof -
  have i: "i < length (devices s)" using assms(1) find_device_bound by (auto simp: ready_def)
  have "set (devices t) \<subseteq> insert (ee_store c vs (devices s ! i)) (set (devices s))"
    unfolding assms(2) by (rule set_update_subset_insert)
  then show ?thesis
    using assms i by (auto simp: ready_def find_device_store ee_store_data)
qed

lemma buffered_write_run:
  fixes c :: u8
  assumes r: "ready i x s" and x: "\<not> on x 1" and n: "length vs \<le> 32"
  defines "t \<equiv> run smb_step (buffered_write x c vs) s"
  shows "devices t = (devices s)[i := ee_store c (of_nat (length vs) # vs) (devices s ! i)] \<and> ready i x t \<and>
    status t = status s OR STS_INTR"
proof -
  have i: "i < length (devices s)" using r find_device_bound by (auto simp: ready_def)
  define s1 where "s1 = s\<lparr>aux_control := 0x02, index := 0, address := x, command := c\<rparr>"
  have s1: "run smb_step [Smb_Write 0x0D 0x02, Smb_Read 0x02, Smb_Write 0x04 x, Smb_Write 0x03 c] s = s1"
    by (simp add: s1_def smb_write_def smb_read_def)
  define s2 where "s2 = s1\<lparr>block := vs @ drop (length vs) (block s), index := length vs mod 32\<rparr>"
  have s2: "run smb_step (map (Smb_Write 0x07) vs) s1 = s2"
    using fill_buffer [of s1 vs] r n by (simp add: s1_def s2_def ready_def on_def)
  define s3 where "s3 = s2\<lparr>data0 := of_nat (length vs), control := 0x14\<rparr>"
  have start: "smb_start s3 = (let s4 = write_block i s3 in s4\<lparr>index := 0, status := status s4 OR 0x02\<rparr>)"
    using r x by (subst ready_start [of i])
      (auto simp: ready_def s3_def s2_def s1_def n run_command_def start_block_write_def on_def Let_def)
  have w: "write_block i s3 = s3\<lparr>devices := (devices s)[i := ee_store c (of_nat (length vs) # vs) (devices s ! i)]\<rparr>"
    using write_block_store [of i s3 vs] i r n by (simp add: s3_def s2_def s1_def ready_def)
  have t: "t = update_irq (smb_start s3)"
    unfolding t_def buffered_write_def run_append s1 s2
    by (simp add: smb_write_def write_control_def on_def s3_def Let_def)
  have f: "devices t = (devices s)[i := ee_store c (of_nat (length vs) # vs) (devices s ! i)]" "length (block t) = 32"
    "transfer t = T_None" "status t = status s OR 0x02"
    unfolding t start w Let_def using r n by (simp_all add: s3_def s2_def s1_def ready_def)
  then show ?thesis using ready_store [OF r f(1-3)] r by (simp add: ready_def on_or) (simp add: on_def)
qed

text \<open>A byte-by-byte write after \<open>k + 1\<close> of its bytes: the next is announced.\<close>

definition midway :: "nat \<Rightarrow> u8 \<Rightarrow> u8 \<Rightarrow> u8 list \<Rightarrow> nat \<Rightarrow> smbus \<Rightarrow> smbus \<Rightarrow> bool" where
  "midway i x c vs k s u \<longleftrightarrow> transfer u = T_Write \<and> index u = k \<and> address u = x \<and> command u = c \<and>
     data0 u = of_nat (length vs) \<and> aux_control u = 0 \<and> devices u = devices s \<and> length (block u) = 32 \<and>
     take (Suc k) (block u) = take (Suc k) vs \<and> on (status u) 0x80 \<and> (status u) AND 0x1C = (status s) AND 0x1C"

lemma clear_byte_done: "((x :: u8) AND - 0x81) AND 0x1C = x AND 0x1C" "((x :: u8) AND - 0x82) AND 0x1C = x AND 0x1C"
  "((x :: u8) OR 0x81) AND 0x1C = x AND 0x1C" "((x :: u8) OR 0x80) AND 0x1C = x AND 0x1C" "((x :: u8) OR 2) AND 0x1C = x AND 0x1C"
  "((x :: u8) AND -2) AND 0x1C = x AND 0x1C"
  by (simp_all add: and.assoc bit.conj_disj_distrib2)

lemma midway_next:
  assumes r: "ready i x s" and m: "midway i x c vs k s u" and k: "Suc k < length vs" "length vs \<le> 32"
  shows "midway i x c vs (Suc k) s (run smb_step [Smb_Write 0x07 (vs ! Suc k), Smb_Write 0x00 0x80] u)"
proof -
  have i: "i < length (devices s)" "device (drop_bit 1 x) (u\<lparr>block_byte := vs ! Suc k, status := y\<rparr>) = Some i" for y
    using r m find_device_bound by (auto simp: ready_def midway_def device_def)
  define w where "w = u\<lparr>block_byte := vs ! Suc k\<rparr>"
  have w: "smb_write 0x07 (vs ! Suc k) u = w" using m by (simp add: w_def smb_write_def midway_def on_def)
  have b: "on (status w AND 0x80) 0x80" using m by (simp add: w_def midway_def on_def)
  have "next_byte (w\<lparr>status := status w AND - 0x81\<rparr>) =
      w\<lparr>index := Suc k, block := (block u)[Suc k := vs ! Suc k], status := status u AND - 0x81 OR 0x80\<rparr>"
    using m k i by (simp add: next_byte_def w_def midway_def unat_small Let_def)
  then have e: "run smb_step [Smb_Write 0x07 (vs ! Suc k), Smb_Write 0x00 0x80] u =
      update_irq (w\<lparr>index := Suc k, block := (block u)[Suc k := vs ! Suc k], status := status u AND - 0x81 OR 0x80\<rparr>)"
    using b by (simp add: w) (simp add: smb_write_def write_status_def Let_def)
  have "take (Suc (Suc k)) ((block u)[Suc k := vs ! Suc k]) = take (Suc (Suc k)) vs"
    using m k by (simp add: midway_def take_Suc_conv_app_nth)
  then show ?thesis
    unfolding e using m by (simp add: midway_def w_def clear_byte_done) (simp add: on_def)
qed

lemma midway_run:
  "ready i x s \<Longrightarrow> midway i x c vs k s u \<Longrightarrow> k + length ws + 1 = length vs \<Longrightarrow> length vs \<le> 32 \<Longrightarrow> drop (Suc k) vs = ws \<Longrightarrow>
   midway i x c vs (length vs - 1) s (run smb_step (concat (map (\<lambda>v. [Smb_Write 0x07 v, Smb_Write 0x00 0x80]) ws)) u)"
proof (induction ws arbitrary: k u)
  case Nil
  then have "length vs - 1 = k" by simp
  then show ?case using Nil by simp
next
  case (Cons v ws)
  then have k: "Suc k < length vs" "v = vs ! Suc k" "drop (Suc (Suc k)) vs = ws"
    by (simp_all add: Cons_nth_drop_Suc [symmetric])
  show ?case
    using Cons.IH [OF Cons.prems(1) midway_next [OF Cons.prems(1,2) k(1) Cons.prems(4)]] Cons.prems k
    by (simp add: run_append)
qed

lemma on_busy_done: "on 0x81 0x80"
  by (simp add: on_def)

lemma bytewise_write_run:
  fixes c :: u8
  assumes r: "ready i x s" and x: "\<not> on x 1" and n: "vs \<noteq> []" "length vs \<le> 32"
  defines "t \<equiv> run smb_step (bytewise_write x c vs) s"
  shows "devices t = (devices s)[i := ee_store c (of_nat (length vs) # vs) (devices s ! i)] \<and> transfer t = T_None \<and>
    \<not> on (status t) 0x1D"
proof -
  have i: "i < length (devices s)" using r find_device_bound by (auto simp: ready_def)
  define s1 where "s1 = s\<lparr>aux_control := 0, address := x, command := c, data0 := of_nat (length vs), block_byte := hd vs, control := 0x14\<rparr>"
  have start: "smb_start s1 = s1\<lparr>transfer := T_Write, block := (block s)[0 := hd vs], index := 0, status := status s OR 0x81\<rparr>"
    using r x by (subst ready_start [of i]) (auto simp: ready_def s1_def run_command_def start_block_write_def on_def Let_def)
  define u where "u = update_irq (smb_start s1)"
  have u: "run smb_step [Smb_Write 0x0D 0x00, Smb_Write 0x04 x, Smb_Write 0x03 c, Smb_Write 0x05 (of_nat (length vs)),
      Smb_Write 0x07 (hd vs), Smb_Write 0x02 0x54] s = u"
    using r by (simp add: u_def s1_def smb_write_def write_control_def ready_def on_def Let_def)
  have "midway i x c vs 0 s u"
    unfolding u_def start midway_def using r n(1)
    by (cases vs; cases "block s") (simp_all add: s1_def ready_def clear_byte_done on_or on_busy_done)
  then have m: "midway i x c vs (length vs - 1) s (run smb_step (concat (map (\<lambda>v. [Smb_Write 0x07 v, Smb_Write 0x00 0x80]) (tl vs))) u)"
    (is "midway i x c vs _ s ?w") using n r by (intro midway_run [of i x s c vs 0]) (cases vs; simp)+
  define w where "w = ?w"
  have wm: "midway i x c vs (length vs - 1) s w" using m by (simp add: w_def)
  let ?w1 = "w\<lparr>status := status w AND - 0x81, index := length vs\<rparr>"
  have wb: "write_block i ?w1 = ?w1\<lparr>devices := (devices s)[i := ee_store c (of_nat (length vs) # vs) (devices s ! i)]\<rparr>"
    using write_block_store [of i ?w1 vs] wm i n by (simp add: midway_def)
  have "device (drop_bit 1 x) (w\<lparr>status := y\<rparr>) = Some i" for y using r wm by (simp add: midway_def ready_def device_def)
  then have "next_byte (w\<lparr>status := status w AND - 0x81\<rparr>) = end_transfer (write_block i ?w1)"
    using wm n by (simp add: next_byte_def midway_def unat_small Let_def)
  moreover have "on (status w AND 0x80) 0x80" using wm by (simp add: midway_def on_def)
  moreover have "t = smb_write 0x00 0x80 w"
    unfolding t_def bytewise_write_def run_append u w_def by simp
  ultimately have t: "t = update_irq (end_transfer (write_block i ?w1))"
    by (simp add: smb_write_def write_status_def Let_def)
  have "((status w AND - 0x81) AND - 2 OR 2) AND 0x1D = status w AND 0x1C" by (simp add: and.assoc bit.conj_disj_distrib2)
  then show ?thesis
    unfolding t wb using wm r by (simp add: end_transfer_def midway_def ready_def on_def)
qed

text \<open>
  Claim C11. A block write byte by byte stores what a block write through the 32-byte buffer stores: on a
  controller that is ready, for 1 to 32 bytes and a device that answers, both sequences of register
  accesses leave every EEPROM with the same contents, namely the count and the bytes from the command's
  offset on in the addressed one, and both end idle and without an error.
\<close>

theorem smbus_block_write_equivalence:
  assumes "ready i x s" "\<not> on x 1" "vs \<noteq> []" "length vs \<le> 32"
  shows "devices (run smb_step (bytewise_write x c vs) s) = devices (run smb_step (buffered_write x c vs) s) \<and>
    devices (run smb_step (buffered_write x c vs) s) = (devices s)[i := ee_store c (of_nat (length vs) # vs) (devices s ! i)] \<and>
    transfer (run smb_step (bytewise_write x c vs) s) = T_None \<and> \<not> on (status (run smb_step (bytewise_write x c vs) s)) 0x1D \<and>
    transfer (run smb_step (buffered_write x c vs) s) = T_None \<and> \<not> on (status (run smb_step (buffered_write x c vs) s)) 0x1C"
proof -
  note b = buffered_write_run [OF assms(1,2,4), of c]
  have "ready i x (run smb_step (buffered_write x c vs) s)" using b by blast
  then show ?thesis using bytewise_write_run [OF assms, of c] conjunct1 [OF b] by (simp add: ready_def)
qed

lemma SMBus_ready: "ready 1 0xA2 SMBus"
  by (simp add: SMBus_def smb_reset_def update_irq_def ready_def SMBusEEPROM_def on_def)

theorem smbus_block_write_equivalence_witness:
  "devices (run smb_step (bytewise_write 0xA2 0xFE [7, 8, 9]) SMBus) = devices (run smb_step (buffered_write 0xA2 0xFE [7, 8, 9]) SMBus)"
  using smbus_block_write_equivalence [OF SMBus_ready, of "[7, 8, 9]" "0xFE"] by (simp add: on_def)

section \<open>Block reads\<close>

lemma read_db_take:
  "on (aux_control s) 0x02 \<Longrightarrow> transfer s = T_None \<Longrightarrow> length (block s) = 32 \<Longrightarrow> index s + n \<le> 32 \<Longrightarrow>
   read_db n s = take n (drop (index s) (block s))"
proof (induction n arbitrary: s)
  case (Suc n)
  then have i: "index s < 32" by simp
  have "read_db n (s\<lparr>index := Suc (index s) mod 32\<rparr>) = take n (drop (Suc (index s)) (block s))"
  proof (cases "Suc (index s) < 32")
    case True
    then show ?thesis using Suc.IH [of "s\<lparr>index := Suc (index s) mod 32\<rparr>"] Suc.prems by simp
  next
    case False
    then have "n = 0" using Suc.prems(4) by simp
    then show ?thesis by simp
  qed
  then show ?case
    using Suc.prems i by (simp add: smb_read_def block_at_def Let_def Cons_nth_drop_Suc [symmetric])
qed simp

lemma buffered_read_run:
  assumes r: "ready i x s" and d: "ee_read c 33 (devices s ! i) = of_nat (length vs) # vs @ rest" and n: "length vs \<le> 32"
  defines "t \<equiv> run smb_step (buffered_read x c) s"
  shows "data0 t = of_nat (length vs) \<and> read_db (length vs) t = vs"
proof -
  have i: "i < length (devices s)" using r find_device_bound by (auto simp: ready_def)
  define s1 where "s1 = s\<lparr>aux_control := 0x02, address := x OR 1, command := c, control := 0x14\<rparr>"
  define dv where "dv = devices s ! i"
  have c: "ee_data dv ! unat c = of_nat (length vs)" and vs: "ee_read (c + 1) (length vs) dv = vs"
  proof -
    have u: "[0..<33] = 0 # map Suc [0..<32]" by (simp add: map_Suc_upt upt_conv_Cons del: upt_Suc)
    have e: "ee_data dv ! unat c # ee_read (c + 1) 32 dv = of_nat (length vs) # vs @ rest"
      using d unfolding dv_def ee_read_def u by (simp add: comp_def ac_simps del: upt_Suc)
    then show "ee_data dv ! unat c = of_nat (length vs)" by simp
    have "ee_read (c + 1) (length vs) dv = take (length vs) (ee_read (c + 1) 32 dv)"
      using n by (simp add: ee_read_def take_map)
    then show "ee_read (c + 1) (length vs) dv = vs" using e by simp
  qed
  have rc: "dev_receive i (dev_send i c s1) = (of_nat (length vs), s1\<lparr>devices := (devices s)[i := dv\<lparr>ee_offset := c + 1\<rparr>]\<rparr>)"
    using i c by (simp add: dev_receive_def dev_send_def send_byte_def receive_byte_def s1_def dv_def)
  have "ee_read (c + 1) (length vs) (dv\<lparr>ee_offset := o'\<rparr>) = vs" for o' using vs by (simp add: ee_read_def)
  then have rb: "fst (receive_bytes i (length vs) (s1\<lparr>devices := (devices s)[i := dv\<lparr>ee_offset := c + 1\<rparr>]\<rparr>)) = vs"
    using i by (simp add: receive_bytes_read)
  have start: "\<exists>u. smb_start s1 = u \<and> data0 u = of_nat (length vs) \<and> block u = vs @ replicate (32 - length vs) 0 \<and> index u = 0 \<and>
      transfer u = T_None \<and> aux_control u = 0x02"
    using r rc rb n i
    by (subst ready_start [of i])
       (auto simp: ready_def s1_def slave_read run_command_def start_block_read_def on_def unat_small receive_bytes_read Let_def case_prod_unfold)
  then obtain u where u: "smb_start s1 = u" "data0 u = of_nat (length vs)" "block u = vs @ replicate (32 - length vs) 0" "index u = 0"
    "transfer u = T_None" "aux_control u = 0x02" by blast
  have t: "t = update_irq u"
    unfolding t_def buffered_read_def by (simp add: smb_write_def write_control_def on_def u(1) [symmetric] s1_def Let_def)
  then show ?thesis using u n read_db_take [of t "length vs"] by (simp add: on_def)
qed

text \<open>
  What a block write stores, a block read returns: on a controller that is ready, after a block
  write of up to 32 bytes at an offset, a block read at that offset reports their number in HST_D0
  and HOST_BLOCK_DB reads the bytes in order, also where the offset wraps around the end of the
  EEPROM.
\<close>

theorem smbus_block_roundtrip:
  assumes "ready i x s" "\<not> on x 1" "length vs \<le> 32"
  shows "data0 (run smb_step (buffered_read x c) (run smb_step (buffered_write x c vs) s)) = of_nat (length vs) \<and>
    read_db (length vs) (run smb_step (buffered_read x c) (run smb_step (buffered_write x c vs) s)) = vs"
proof -
  let ?u = "run smb_step (buffered_write x c vs) s" and ?vs = "of_nat (length vs) # vs"
  have u: "devices ?u = (devices s)[i := ee_store c ?vs (devices s ! i)]" "ready i x ?u"
    using buffered_write_run [OF assms(1-3), of c] by blast+
  have i: "i < length (devices s)" using assms(1) find_device_bound by (auto simp: ready_def)
  then have l: "length (ee_data (devices s ! i)) = 256" using assms(1) by (simp add: ready_def)
  have "ee_read c (Suc (length vs)) (ee_store c ?vs (devices s ! i)) = ?vs"
    using ee_read_store [OF l, of ?vs "Suc (length vs)" c] assms(3) by simp
  moreover have "ee_read c 33 d = ee_read c (Suc (length vs)) d @ drop (Suc (length vs)) (ee_read c 33 d)" for d
  proof -
    have "take (Suc (length vs)) (ee_read c 33 d) = ee_read c (Suc (length vs)) d"
      using assms(3) by (simp add: ee_read_def take_map del: upt_Suc)
    then show ?thesis by (metis append_take_drop_id)
  qed
  ultimately have "ee_read c 33 (devices ?u ! i) = ?vs @ drop (Suc (length vs)) (ee_read c 33 (devices ?u ! i))"
    using u(1) i by (metis nth_list_update_eq)
  then show ?thesis
    using buffered_read_run [OF u(2) _ assms(3)] by simp
qed

theorem smbus_block_roundtrip_witness:
  "read_db 3 (run smb_step (buffered_read 0xA2 0xFE) (run smb_step (buffered_write 0xA2 0xFE [7, 8, 9]) SMBus)) = [7, 8, 9]"
  using smbus_block_roundtrip [OF SMBus_ready, of "[7, 8, 9]" "0xFE"] by (simp add: on_def numeral_3_eq_3)

text \<open>
  Claim C17. A command that cannot run changes nothing but the error bit: when no device answers at the
  slave address, when an earlier error has not been cleared, or when a byte-by-byte transfer is
  under way, starting a command with interrupts enabled sets DEV_ERR, raises the interrupt if it was
  not raised, stores the control register, and leaves every other register, the buffer and every EEPROM as
  they were.
\<close>

theorem smbus_command_error:
  assumes "find_device (drop_bit 1 (address s)) (devices s) = None \<or> on (status s) 0x1C \<or> transfer s \<noteq> T_None"
    and "on v CNT_START" "\<not> on v CNT_KILL" "on v CNT_INTREN"
  shows "smb_write 0x02 v s = s\<lparr>control := v AND NOT CNT_START, status := status s OR STS_DEV_ERR, irq_level := True,
      pci_irq := pci_irq s @ (if irq_level s then [] else [True])\<rparr>"
proof -
  have c: "on (v AND - 0x41) 1"
    using assms(4) by (simp add: on_def and.assoc)
  have e: "on (status s OR 4) 0x9E" by (simp add: on_or) (simp add: on_def)
  have "smb_start (s\<lparr>control := v AND NOT CNT_START\<rparr>) = s\<lparr>control := v AND NOT CNT_START, status := status s OR STS_DEV_ERR\<rparr>"
    using assms(1) by (auto simp: smb_start_def device_def Let_def)
  then show ?thesis
    using assms(2,3) c e by (simp add: smb_write_def write_control_def update_irq_def Let_def)
qed

theorem smbus_command_error_witness:
  "smb_write 0x02 0x41 (SMBus\<lparr>address := 0x10\<rparr>) =
     SMBus\<lparr>address := 0x10, control := 0x01, status := 0x04, irq_level := True, pci_irq := [True]\<rparr>"
  using smbus_command_error [of "SMBus\<lparr>address := 0x10\<rparr>" "0x41"]
  by (simp add: on_def SMBus_def smb_reset_def update_irq_def SMBusEEPROM_def)

text \<open>A snapshot restores every register, the buffer and the EEPROMs.\<close>

lemma restore_devices_self:
  "\<forall>d \<in> set ds. length (ee_data d) = 256 \<Longrightarrow> \<forall>d \<in> set es. length (ee_data d) = 256 \<Longrightarrow> map ee_address es = map ee_address ds \<Longrightarrow>
   restore_devices (map (\<lambda>d. (ee_data d, ee_offset d)) ds) es = Some ds"
proof (induction ds arbitrary: es)
  case (Cons d ds)
  then obtain e es' where "es = e # es'" "ee_address e = ee_address d" by auto
  then show ?case using Cons by (simp add: set_prefix_def)
qed simp

lemma smb_state_roundtrip:
  assumes "smb_wf s" "smb_wf t" "map ee_address (devices t) = map ee_address (devices s)"
  shows "smb_set_state (smb_get_state s) t = Some (s\<lparr>io_base := io_base t, pci_irq := pci_irq t\<rparr>)"
  using assms restore_devices_self [of "devices s" "devices t"]
  by (simp add: smb_set_state_def smb_get_state_def smb_wf_def set_prefix_def)

end
