(* ===== verification/Pit.thy ===== *)
theory Pit
  imports Device
begin

text \<open>
  The programmable interval timer, \<open>src/pit.js\<close>. Times are exact rationals of milliseconds, as in
  the theory of the machine clock, whose readings are arguments; the frequency is the constant of the
  source. Whether the HPET has taken over the route to IRQ 0 is an argument as well.
\<close>

section \<open>State\<close>

text \<open>In kHz.\<close>

definition OSCILLATOR_FREQ :: rat where
  "OSCILLATOR_FREQ = 11931816666 / 10000000"

text \<open>
  The typed arrays are lists; those of four entries have one that no counter uses. A value stored
  in a \<open>Uint8Array\<close> or \<open>Uint16Array\<close> is truncated to its width. A start time that became NaN is
  None.
\<close>

record pit =
  counter_start_time :: "rat option list"
  counter_start_value :: "u16 list"
  counter_next_low :: "u8 list"
  counter_enabled :: "u8 list"
  counter_mode :: "u8 list"
  counter_read_mode :: "u8 list"
  counter_latch :: "u8 list"
  counter_latch_value :: "u16 list"
  counter_reload :: "u16 list"
  pit_log :: "effect list"

definition PIT :: pit where
  "PIT = \<lparr>counter_start_time = replicate 3 (Some 0), counter_start_value = replicate 3 0, counter_next_low = replicate 4 0,
     counter_enabled = replicate 4 0, counter_mode = replicate 4 0, counter_read_mode = replicate 4 0,
     counter_latch = replicate 4 0, counter_latch_value = replicate 3 0, counter_reload = replicate 3 0, pit_log = []\<rparr>"

definition pit_emit :: "effect \<Rightarrow> pit \<Rightarrow> pit" where
  "pit_emit e s = s\<lparr>pit_log := pit_log s @ [e]\<rparr>"

section \<open>Counting\<close>

definition deadline :: "nat \<Rightarrow> pit \<Rightarrow> rat option" where
  "deadline i s = map_option (\<lambda>t. t + of_int (uint (counter_start_value s ! i)) / OSCILLATOR_FREQ) (counter_start_time s ! i)"

text \<open>Comparisons with NaN are false.\<close>

definition did_rollover :: "nat \<Rightarrow> rat \<Rightarrow> pit \<Rightarrow> bool" where
  "did_rollover i now s =
     (case counter_start_time s ! i of
        None \<Rightarrow> False
      | Some start \<Rightarrow> if now - start < 0 then True else now \<ge> the (deadline i s))"

text \<open>
  A value of NaN, from a start time that is NaN or a remainder by a reload of 0, is 0 to everything
  that uses it.
\<close>

definition get_counter_value :: "nat \<Rightarrow> rat \<Rightarrow> pit \<Rightarrow> int" where
  "get_counter_value i now s =
     (if counter_enabled s ! i = 0 then 0
      else case (counter_start_time s ! i, deadline i s) of
        (Some start, Some d) \<Rightarrow>
          if now \<ge> d
          then let reload = uint (counter_reload s ! i)
               in if counter_mode s ! i = 0 \<or> reload = 0 then 0 else reload - \<lfloor>(now - d) * OSCILLATOR_FREQ\<rfloor> mod reload
          else let elapsed = \<lfloor>(now - start) * OSCILLATOR_FREQ\<rfloor>
               in max 1 (uint (counter_start_value s ! i) - elapsed)
      | _ \<Rightarrow> 0)"

text \<open>
  The service of counter 0: \<open>drives_irq0\<close> is false while the HPET has its route. With a reload of 0
  the division gives Infinity or NaN, and the new start time is NaN; so is then the time to the next
  interrupt, here None.
\<close>

definition rearm :: "rat \<Rightarrow> pit \<Rightarrow> pit" where
  "rearm now s =
     (let period = of_int (uint (counter_reload s ! 0)) / OSCILLATOR_FREQ;
          d = the (deadline 0 s)
      in s\<lparr>counter_start_time := (counter_start_time s)
              [0 := (if period = 0 then None else Some (d + of_int \<lfloor>(now - d) / period\<rfloor> * period))],
           counter_start_value := (counter_start_value s)[0 := counter_reload s ! 0]\<rparr>)"

definition pit_timer :: "bool \<Rightarrow> rat \<Rightarrow> bool \<Rightarrow> pit \<Rightarrow> rat option \<times> pit" where
  "pit_timer drives_irq0 now no_irq s =
     (if no_irq then (Some 100, s)
      else let s1 = (if counter_enabled s ! 0 \<noteq> 0 \<and> did_rollover 0 now s
                     then let u = rearm now s;
                              v = (if drives_irq0 then pit_emit (RaiseIrq 0) (pit_emit (LowerIrq 0) u) else u)
                          in if counter_mode v ! 0 = 0 then v\<lparr>counter_enabled := (counter_enabled v)[0 := 0]\<rparr> else v
                     else if drives_irq0 then pit_emit (LowerIrq 0) s else s)
           in (if counter_enabled s1 ! 0 \<noteq> 0 then map_option (\<lambda>d. max 0 (d - now)) (deadline 0 s1) else Some 100, s1))"

section \<open>Ports\<close>

definition counter_read :: "nat \<Rightarrow> rat \<Rightarrow> pit \<Rightarrow> i32 \<times> pit" where
  "counter_read i now s =
     (let latch = counter_latch s ! i
      in if latch \<noteq> 0
         then let s1 = s\<lparr>counter_latch := (counter_latch s)[i := latch - 1]\<rparr>
              in if latch = 2 then (ucast (counter_latch_value s1 ! i) AND 0xFF, s1)
                 else (drop_bit 8 (ucast (counter_latch_value s1 ! i)), s1)
         else let next_low = counter_next_low s ! i;
                  s1 = (if counter_mode s ! i = 3 then s\<lparr>counter_next_low := (counter_next_low s)[i := next_low XOR 1]\<rparr> else s);
                  v = word_of_int (get_counter_value i now s1)
              in if next_low \<noteq> 0 then (v AND 0xFF, s1) else (signed_drop_bit 8 v, s1))"

definition counter_write :: "nat \<Rightarrow> rat \<Rightarrow> i32 \<Rightarrow> pit \<Rightarrow> pit" where
  "counter_write i now v s =
     (let r = (if counter_next_low s ! i \<noteq> 0 then ucast (counter_reload s ! i) AND NOT 0xFF OR v
               else ucast (counter_reload s ! i) AND 0xFF OR push_bit 8 v) :: i32;
          s1 = s\<lparr>counter_reload := (counter_reload s)[i := ucast r]\<rparr>;
          s2 = (if counter_read_mode s1 ! i \<noteq> 3 \<or> counter_next_low s1 ! i = 0
                then let u = (if counter_reload s1 ! i = 0 then s1\<lparr>counter_reload := (counter_reload s1)[i := 0xFFFF]\<rparr> else s1)
                     in u\<lparr>counter_start_value := (counter_start_value u)[i := counter_reload u ! i],
                          counter_enabled := (counter_enabled u)[i := 1], counter_start_time := (counter_start_time u)[i := Some now]\<rparr>
                else s1)
      in if counter_read_mode s2 ! i = 3
         then s2\<lparr>counter_next_low := (counter_next_low s2)[i := counter_next_low s2 ! i XOR 1]\<rparr>
         else s2)"

definition pcspeaker_update :: "pit \<Rightarrow> pit" where
  "pcspeaker_update s =
     pit_emit (BusSend ''pcspeaker-update'' (JList [uint (counter_mode s ! 2), uint (counter_reload s ! 2)])) s"

definition port43_write :: "bool \<Rightarrow> rat \<Rightarrow> i32 \<Rightarrow> pit \<Rightarrow> pit" where
  "port43_write drives_irq0 now reg_byte s =
     (let mode = signed_drop_bit 1 reg_byte AND 7; i = unat (signed_drop_bit 6 reg_byte AND 3);
          read_mode = signed_drop_bit 4 reg_byte AND 3
      in if i = 3 then s
         else if read_mode = 0
         then let s1 = s\<lparr>counter_latch := (counter_latch s)[i := 2]\<rparr>; v = get_counter_value i now s1
              in s1\<lparr>counter_latch_value := (counter_latch_value s1)[i := word_of_int (if v \<noteq> 0 then v - 1 else 0)]\<rparr>
         else let mode1 = (if 6 \<le> uint mode then mode AND NOT 4 else mode);
                  s1 = s\<lparr>counter_next_low := (counter_next_low s)[i := (if read_mode = 2 then 0 else 1)]\<rparr>;
                  s2 = (if i = 0 \<and> drives_irq0 then pit_emit (LowerIrq 0) s1 else s1);
                  s3 = s2\<lparr>counter_mode := (counter_mode s2)[i := ucast mode1],
                          counter_read_mode := (counter_read_mode s2)[i := ucast read_mode]\<rparr>
              in if i = 2 then pcspeaker_update s3 else s3)"

text \<open>Port 0x61: \<open>now * (1000 * 1000 / 15000) & 1\<close> is the parity of the truncated product.\<close>

definition port61_read :: "rat \<Rightarrow> pit \<Rightarrow> i32" where
  "port61_read now s =
     push_bit 4 (js_to_int32 (now * (1000 * 1000 / 15000)) AND 1) OR push_bit 5 (if did_rollover 2 now s then 1 else 0)"

definition port61_write :: "i32 \<Rightarrow> pit \<Rightarrow> pit" where
  "port61_write data s =
     pit_emit (BusSend (if has_bits data 1 then ''pcspeaker-enable'' else ''pcspeaker-disable'') Undef) s"

definition port42_write :: "rat \<Rightarrow> i32 \<Rightarrow> pit \<Rightarrow> pit" where
  "port42_write now data s = pcspeaker_update (counter_write 2 now data s)"

text \<open>The registrations of the constructor; \<open>now\<close> is the reading of the clock at the access.\<close>

definition PIT_register ::
  "nat \<Rightarrow> ('m \<Rightarrow> pit) \<Rightarrow> (pit \<Rightarrow> 'm \<Rightarrow> 'm) \<Rightarrow> ('m \<Rightarrow> rat) \<Rightarrow> ('m \<Rightarrow> bool) \<Rightarrow> 'm ports \<Rightarrow> 'm ports option" where
  "PIT_register dev get put now drives = reg_seq
     [register_read 0x61 dev (Some (\<lambda>_ m. (port61_read (now m) (get m), m))) None None,
      register_write 0x61 dev (Some (lift_write get put port61_write)) None None,
      register_read 0x40 dev (Some (\<lambda>p m. lift_read get put (counter_read 0 (now m)) p m)) None None,
      register_read 0x41 dev (Some (\<lambda>p m. lift_read get put (counter_read 1 (now m)) p m)) None None,
      register_read 0x42 dev (Some (\<lambda>p m. lift_read get put (counter_read 2 (now m)) p m)) None None,
      register_write 0x40 dev (Some (\<lambda>x m. lift_write get put (counter_write 0 (now m)) x m)) None None,
      register_write 0x41 dev (Some (\<lambda>x m. lift_write get put (counter_write 1 (now m)) x m)) None None,
      register_write 0x42 dev (Some (\<lambda>x m. lift_write get put (port42_write (now m)) x m)) None None,
      register_write 0x43 dev (Some (\<lambda>x m. lift_write get put (port43_write (drives m) (now m)) x m)) None None]"

section \<open>Saved states\<close>

text \<open>The state is the arrays themselves, by reference.\<close>

definition pit_get_state :: "pit \<Rightarrow> pit" where
  "pit_get_state s = s\<lparr>pit_log := []\<rparr>"

definition pit_set_state :: "pit \<Rightarrow> pit \<Rightarrow> pit" where
  "pit_set_state st s = st\<lparr>pit_log := pit_log s\<rparr>"

section \<open>The phase of counter 0\<close>

definition pit_wf :: "pit \<Rightarrow> bool" where
  "pit_wf s \<longleftrightarrow> length (counter_start_time s) = 3 \<and> length (counter_start_value s) = 3 \<and> length (counter_next_low s) = 4 \<and>
     length (counter_enabled s) = 4 \<and> length (counter_mode s) = 4 \<and> length (counter_read_mode s) = 4 \<and>
     length (counter_latch s) = 4 \<and> length (counter_latch_value s) = 3 \<and> length (counter_reload s) = 3"

text \<open>Counter 0 counting periodically since \<open>t0\<close>, with \<open>k\<close> periods served.\<close>

definition periodic :: "rat \<Rightarrow> u16 \<Rightarrow> int \<Rightarrow> pit \<Rightarrow> bool" where
  "periodic t0 r k s \<longleftrightarrow> pit_wf s \<and> counter_enabled s ! 0 \<noteq> 0 \<and> counter_mode s ! 0 \<noteq> 0 \<and> counter_reload s ! 0 = r \<and>
     counter_start_value s ! 0 = r \<and> counter_start_time s ! 0 = Some (t0 + of_int k * (of_int (uint r) / OSCILLATOR_FREQ))"

abbreviation pit_period :: "u16 \<Rightarrow> rat" where
  "pit_period r \<equiv> of_int (uint r) / OSCILLATOR_FREQ"

text \<open>How many periods have passed.\<close>

abbreviation periods :: "rat \<Rightarrow> u16 \<Rightarrow> rat \<Rightarrow> int" where
  "periods t0 r now \<equiv> \<lfloor>(now - t0) / pit_period r\<rfloor>"

lemma pit_period_pos: "r \<noteq> 0 \<Longrightarrow> 0 < pit_period r"
proof -
  assume "r \<noteq> 0"
  then have "0 < uint r" using uint_ge_0 [of r] unsigned_eq_0_iff [of r] by (metis less_le)
  then show ?thesis
    by (intro divide_pos_pos) (simp_all only: of_int_0_less_iff, simp add: OSCILLATOR_FREQ_def)
qed

text \<open>Serving a rollover late keeps the phase.\<close>

lemma phase_kept:
  fixes P :: rat
  assumes P: "0 < P" and now: "t0 + of_int k * P \<le> now"
  shows "t0 + of_int k * P + P \<le> now \<longleftrightarrow> k < \<lfloor>(now - t0) / P\<rfloor>" "k \<le> \<lfloor>(now - t0) / P\<rfloor>"
    "t0 + of_int k * P + P + of_int \<lfloor>(now - (t0 + of_int k * P + P)) / P\<rfloor> * P = t0 + of_int \<lfloor>(now - t0) / P\<rfloor> * P"
proof -
  have "of_int k \<le> (now - t0) / P" using now P by (simp add: pos_le_divide_eq algebra_simps)
  then show "k \<le> \<lfloor>(now - t0) / P\<rfloor>" by (simp only: le_floor_iff)
  have "t0 + of_int k * P + P \<le> now \<longleftrightarrow> of_int (k + 1) \<le> (now - t0) / P"
    using P by (simp add: pos_le_divide_eq algebra_simps)
  also have "\<dots> \<longleftrightarrow> k + 1 \<le> \<lfloor>(now - t0) / P\<rfloor>" by (simp only: le_floor_iff)
  finally show "t0 + of_int k * P + P \<le> now \<longleftrightarrow> k < \<lfloor>(now - t0) / P\<rfloor>" by linarith
  have "(now - (t0 + of_int k * P + P)) / P = (now - t0) / P - of_int (k + 1)"
    using P by (simp add: field_simps)
  then have f: "\<lfloor>(now - (t0 + of_int k * P + P)) / P\<rfloor> = \<lfloor>(now - t0) / P\<rfloor> - (k + 1)" by (simp only: floor_diff_of_int)
  show "t0 + of_int k * P + P + of_int \<lfloor>(now - (t0 + of_int k * P + P)) / P\<rfloor> * P = t0 + of_int \<lfloor>(now - t0) / P\<rfloor> * P"
    unfolding f by (simp add: algebra_simps)
qed

lemma periodic_timer:
  assumes p: "periodic t0 r k s" and r: "r \<noteq> 0" and now: "t0 + of_int k * pit_period r \<le> now"
  shows "periodic t0 r (periods t0 r now) (snd (pit_timer True now False s)) \<and>
    pit_log (snd (pit_timer True now False s)) =
      pit_log s @ (if k < periods t0 r now then [LowerIrq 0, RaiseIrq 0] else [LowerIrq 0])"
proof -
  define P where "P = pit_period r"
  have P: "0 < P" unfolding P_def by (rule pit_period_pos [OF r])
  note ph = phase_kept [OF P now [folded P_def]]
  let ?d = "t0 + of_int k * P + P"
  have start: "counter_start_time s ! 0 = Some (t0 + of_int k * P)" using p unfolding periodic_def P_def by blast
  have d: "deadline 0 s = Some ?d" using p start by (simp add: deadline_def periodic_def P_def)
  have roll: "did_rollover 0 now s \<longleftrightarrow> k < \<lfloor>(now - t0) / P\<rfloor>"
    using start now d ph(1) by (simp add: did_rollover_def P_def)
  show ?thesis
  proof (cases "k < \<lfloor>(now - t0) / P\<rfloor>")
    case True
    define u where "u = pit_emit (RaiseIrq 0) (pit_emit (LowerIrq 0) (rearm now s))"
    have u: "snd (pit_timer True now False s) = u"
      using True p roll by (simp add: pit_timer_def u_def periodic_def pit_emit_def rearm_def Let_def)
    have per: "of_int (uint (counter_reload s ! 0)) / OSCILLATOR_FREQ = P" using p by (simp add: periodic_def P_def)
    have "rearm now s = s\<lparr>counter_start_time := (counter_start_time s)[0 := Some (t0 + of_int \<lfloor>(now - t0) / P\<rfloor> * P)],
        counter_start_value := (counter_start_value s)[0 := r]\<rparr>"
      unfolding rearm_def Let_def per d option.sel ph(3) using p P by (simp add: periodic_def)
    then show ?thesis
      unfolding u P_def [symmetric] using p True by (simp add: u_def pit_emit_def periodic_def pit_wf_def P_def)
  next
    case False
    then have k: "\<lfloor>(now - t0) / P\<rfloor> = k" using ph(2) by linarith
    have "snd (pit_timer True now False s) = pit_emit (LowerIrq 0) s"
      using False p roll by (simp add: pit_timer_def periodic_def Let_def)
    then show ?thesis unfolding P_def [symmetric] using k p by (simp add: pit_emit_def periodic_def pit_wf_def)
  qed
qed

text \<open>The state after serving counter 0 at the given times, in order.\<close>

fun serve :: "rat list \<Rightarrow> pit \<Rightarrow> pit" where
  "serve [] s = s"
| "serve (t # ts) s = serve ts (snd (pit_timer True t False s))"

text \<open>The interrupts of the services: one at each service that finds more periods passed than the one before.\<close>

fun ticks :: "rat \<Rightarrow> u16 \<Rightarrow> int \<Rightarrow> rat list \<Rightarrow> effect list" where
  "ticks t0 r k [] = []"
| "ticks t0 r k (t # ts) =
     (if k < periods t0 r t then [LowerIrq 0, RaiseIrq 0] else [LowerIrq 0]) @ ticks t0 r (periods t0 r t) ts"

lemma period_start: "r \<noteq> 0 \<Longrightarrow> t0 + of_int (periods t0 r now) * pit_period r \<le> now"
proof -
  assume r: "r \<noteq> 0"
  define P where "P = pit_period r"
  have P: "0 < P" unfolding P_def by (rule pit_period_pos [OF r])
  have "of_int \<lfloor>(now - t0) / P\<rfloor> * P \<le> (now - t0) / P * P" using P by (intro mult_right_mono) simp_all
  then have "t0 + of_int \<lfloor>(now - t0) / P\<rfloor> * P \<le> now" using P by simp
  then show ?thesis unfolding P_def .
qed

lemma serve_periodic:
  assumes "r \<noteq> 0"
  shows "periodic t0 r k s \<Longrightarrow> t0 + of_int k * pit_period r \<le> hd (ts @ [z]) \<Longrightarrow> sorted (ts @ [z]) \<Longrightarrow>
    periodic t0 r (periods t0 r z) (serve (ts @ [z]) s) \<and> pit_log (serve (ts @ [z]) s) = pit_log s @ ticks t0 r k (ts @ [z])"
proof (induction ts arbitrary: k s)
  case Nil
  then show ?case using periodic_timer [OF _ assms, of t0 k s z] by simp
next
  case (Cons t ts)
  let ?s = "snd (pit_timer True t False s)"
  have t: "periodic t0 r (periods t0 r t) ?s"
    "pit_log ?s = pit_log s @ (if k < periods t0 r t then [LowerIrq 0, RaiseIrq 0] else [LowerIrq 0])"
    using periodic_timer [OF Cons.prems(1) assms, of t] Cons.prems(2) by simp_all
  have "t \<le> hd (ts @ [z])" "sorted (ts @ [z])" using Cons.prems(3) by (cases ts; simp)+
  then show ?case
    using Cons.IH [OF t(1)] t(2) period_start [OF assms, of t0 t] by (simp add: order_trans)
qed

text \<open>Programming counter 0 as a rate generator: the control word, the low and the high byte.\<close>

definition program :: "rat \<Rightarrow> u8 \<Rightarrow> u8 \<Rightarrow> pit \<Rightarrow> pit" where
  "program now lo hi s = counter_write 0 now (ucast hi) (counter_write 0 now (ucast lo) (port43_write True now 0x34 s))"

abbreviation lohi :: "u8 \<Rightarrow> u8 \<Rightarrow> u16" where
  "lohi lo hi \<equiv> push_bit 8 (ucast hi) OR ucast lo"

lemma reload_low: "ucast ((ucast (w :: u16) AND - 256 OR ucast (lo :: u8)) :: i32) = (w AND NOT (mask 8) OR ucast lo :: u16)"
  by (rule bit_word_eqI) (auto simp: mask_eqs bit_simps)

lemma reload_high: "ucast ((ucast (w AND NOT (mask 8) OR ucast lo :: u16) AND 0xFF OR push_bit 8 (ucast (hi :: u8))) :: i32) = lohi lo hi"
  by (rule bit_word_eqI) (auto simp: mask_eqs bit_simps dest: bit_imp_le_length)

lemma lohi_nonzero: "lo \<noteq> 0 \<or> hi \<noteq> 0 \<Longrightarrow> lohi lo hi \<noteq> 0"
proof -
  have "bit (lohi lo hi) n" if "bit lo n" for n using that bit_imp_le_length [OF that] by (auto simp: bit_simps)
  moreover have "bit (lohi lo hi) (n + 8)" if "bit hi n" for n using that bit_imp_le_length [OF that] by (auto simp: bit_simps)
  moreover assume "lo \<noteq> 0 \<or> hi \<noteq> 0"
  then obtain n where "bit lo n \<or> bit hi n" by (auto simp: bit_eq_iff)
  ultimately show ?thesis by (metis bit_0_eq bot_apply bot_bool_def)
qed

lemma list_split3: "length xs = 3 \<Longrightarrow> \<exists>a b c. xs = [a, b, c]"
  by (simp add: numeral_3_eq_3 length_Suc_conv) blast

lemma program_state:
  assumes "pit_wf s" "lo \<noteq> 0 \<or> hi \<noteq> 0"
  shows "periodic now (lohi lo hi) 0 (program now lo hi s)"
proof -
  define s1 where "s1 = pit_emit (LowerIrq 0) (s\<lparr>counter_next_low := (counter_next_low s)[0 := 1]\<rparr>)"
  define s2 where "s2 = s1\<lparr>counter_mode := (counter_mode s)[0 := 2], counter_read_mode := (counter_read_mode s)[0 := 3]\<rparr>"
  have s2: "port43_write True now 0x34 s = s2"
    by (simp add: port43_write_def s2_def s1_def pit_emit_def Let_def)
  define s3 where "s3 = s2\<lparr>counter_reload := (counter_reload s)[0 := counter_reload s ! 0 AND NOT (mask 8) OR ucast lo],
    counter_next_low := (counter_next_low s)[0 := 0]\<rparr>"
  have s3: "counter_write 0 now (ucast lo) s2 = s3"
    using assms(1) by (simp add: counter_write_def reload_low s3_def s2_def s1_def pit_emit_def pit_wf_def Let_def)
  have "counter_reload s3 ! 0 = counter_reload s ! 0 AND NOT (mask 8) OR ucast lo" using assms(1) by (simp add: s3_def pit_wf_def)
  then have r: "ucast ((ucast (counter_reload s3 ! 0) AND 0xFF OR push_bit 8 (ucast hi)) :: i32) = lohi lo hi"
    by (simp only: reload_high)
  have s4: "counter_write 0 now (ucast hi) s3 = s3\<lparr>counter_reload := (counter_reload s)[0 := lohi lo hi],
      counter_start_value := (counter_start_value s)[0 := lohi lo hi], counter_enabled := (counter_enabled s)[0 := 1],
      counter_start_time := (counter_start_time s)[0 := Some now], counter_next_low := (counter_next_low s)[0 := 1]\<rparr>"
    using assms(1) r lohi_nonzero [OF assms(2)]
    by (simp add: counter_write_def s3_def s2_def s1_def pit_emit_def pit_wf_def Let_def)
  show ?thesis
    unfolding program_def s2 s3 s4 using assms(1) by (simp add: periodic_def s3_def s2_def s1_def pit_emit_def pit_wf_def)
qed

text \<open>
  Claim C18. The timer does not drift: after counter 0 is programmed as a rate generator at time
  \<open>t0\<close>, and is served at any later times in order, however late, its start time is \<open>t0\<close> plus a
  whole number of periods, the last that had begun; and IRQ 0 is lowered and raised at exactly the
  services that find more periods passed than the service before (missed periods give one
  interrupt), and only lowered at the others.
\<close>

theorem pit_keeps_phase:
  assumes "pit_wf s" "lo \<noteq> 0 \<or> hi \<noteq> 0" "sorted (t0 # ts @ [z])"
  shows "counter_start_time (serve (ts @ [z]) (program t0 lo hi s)) ! 0 = Some (t0 + of_int (periods t0 (lohi lo hi) z) * pit_period (lohi lo hi)) \<and>
    pit_log (serve (ts @ [z]) (program t0 lo hi s)) = pit_log (program t0 lo hi s) @ ticks t0 (lohi lo hi) 0 (ts @ [z])"
proof -
  have "t0 + of_int 0 * pit_period (lohi lo hi) \<le> hd (ts @ [z])" "sorted (ts @ [z])" using assms(3) by (cases ts; simp)+
  from serve_periodic [OF lohi_nonzero [OF assms(2)] program_state [OF assms(1,2)] this] show ?thesis
    by (simp add: periodic_def)
qed

lemma PIT_wf: "pit_wf PIT"
  by (simp add: PIT_def pit_wf_def)

theorem pit_keeps_phase_witness:
  "counter_start_time (serve ([] @ [10]) (program 4 0xA9 0x04 PIT)) ! 0 = Some (4 + 6 * pit_period 0x4A9)"
proof -
  have "lohi 0xA9 0x04 = 0x4A9" by simp
  moreover have "periods 4 0x4A9 10 = 6" by (simp add: OSCILLATOR_FREQ_def floor_eq_iff)
  ultimately show ?thesis
    using pit_keeps_phase [OF PIT_wf, of "0xA9" "0x04" 4 "[]" 10] by simp
qed

section \<open>Reading a counter\<close>

text \<open>While a counter runs its value lies between 1 and the larger of its start value and its reload.\<close>

lemma counter_value_range:
  assumes "counter_enabled s ! i \<noteq> 0" "counter_start_time s ! i = Some start" "start \<le> now" "counter_mode s ! i \<noteq> 0"
    "counter_reload s ! i \<noteq> 0" "counter_start_value s ! i \<noteq> 0"
  shows "1 \<le> get_counter_value i now s \<and>
    get_counter_value i now s \<le> max (uint (counter_start_value s ! i)) (uint (counter_reload s ! i))"
proof -
  have pos: "0 < uint (counter_reload s ! i)" "0 < uint (counter_start_value s ! i)"
    using assms(5,6) uint_ge_0 unsigned_eq_0_iff by (metis less_le)+
  have e: "0 \<le> \<lfloor>(now - start) * OSCILLATOR_FREQ\<rfloor>"
    using assms(3) by (simp add: OSCILLATOR_FREQ_def)
  define d where "d = start + of_int (uint (counter_start_value s ! i)) / OSCILLATOR_FREQ"
  have d: "deadline i s = Some d" using assms(2) by (simp add: deadline_def d_def)
  define x where "x = \<lfloor>(now - d) * OSCILLATOR_FREQ\<rfloor> mod uint (counter_reload s ! i)"
  have x: "0 \<le> x" "x < uint (counter_reload s ! i)" using pos(1) by (simp_all add: x_def)
  have v: "get_counter_value i now s = (if now \<ge> d then uint (counter_reload s ! i) - x
      else max 1 (uint (counter_start_value s ! i) - \<lfloor>(now - start) * OSCILLATOR_FREQ\<rfloor>))"
    using assms(1,2,4) pos(1) d by (simp add: get_counter_value_def x_def Let_def)
  show ?thesis unfolding v using x e pos by (cases "d \<le> now") (simp_all, linarith)
qed

lemma get_counter_value_latch [simp]: "get_counter_value i now (s\<lparr>counter_latch := x\<rparr>) = get_counter_value i now s"
  by (cases "counter_start_time s ! i") (simp_all add: get_counter_value_def deadline_def Let_def)

text \<open>
  A latched count is read whole: the latch command stores one less than the value of the counter
  at that moment (0 if it has stopped), and the next two reads of the counter's port return the low and
  the high byte of what was latched, whenever they come.
\<close>

theorem pit_latch:
  assumes "pit_wf s" "i < 3" "get_counter_value i now s = v" "0 \<le> v" "v \<le> 0xFFFF"
  shows "let s0 = port43_write b now (push_bit 6 (of_nat i)) s; (lo, s1) = counter_read i t1 s0; (hi, s2) = counter_read i t2 s1
    in uint lo + 256 * uint hi = (if v = 0 then 0 else v - 1) \<and> counter_latch s2 ! i = 0"
proof -
  define c where "c = (if v = 0 then 0 else v - 1)"
  have c: "0 \<le> c" "c < 65536" using assms(4,5) by (auto simp: c_def)
  have i: "i \<in> {0, 1, 2}" using assms(2) by auto
  define s0 where "s0 = s\<lparr>counter_latch := (counter_latch s)[i := 2], counter_latch_value := (counter_latch_value s)[i := word_of_int c]\<rparr>"
  have cw: "signed_drop_bit 6 (push_bit 6 (of_nat i) :: i32) AND 3 = of_nat i" "signed_drop_bit 4 (push_bit 6 (of_nat i) :: i32) AND 3 = 0"
    using i by (elim insertE emptyE; simp)+
  have ui: "unat (of_nat i :: i32) = i" "i \<noteq> 3" using assms(2) by (simp_all add: unsigned_of_nat take_bit_nat_eq_self)
  have w: "port43_write b now (push_bit 6 (of_nat i)) s = s0"
    unfolding port43_write_def Let_def cw ui using assms(3) ui(2) by (simp add: s0_def c_def)
  have u: "uint (word_of_int c :: u16) = c" using c by (simp add: unsigned_of_int take_bit_int_eq_self)
  have l: "uint (ucast (word_of_int c :: u16) AND 0xFF :: i32) = c mod 256" and h: "uint (drop_bit 8 (ucast (word_of_int c :: u16)) :: i32) = c div 256"
  proof -
    have "(0xFF :: i32) = mask 8" by (simp add: mask_eq_exp_minus_1)
    then have "uint (ucast (word_of_int c :: u16) AND 0xFF :: i32) = take_bit 8 (uint (ucast (word_of_int c :: u16) :: i32))"
      by (simp only: take_bit_eq_mask [symmetric] unsigned_take_bit_eq)
    then show "uint (ucast (word_of_int c :: u16) AND 0xFF :: i32) = c mod 256"
      by (simp add: uint_ucast_up u take_bit_eq_mod)
    have "take_bit 32 c = c" using c by (intro take_bit_int_eq_self) simp_all
    then show "uint (drop_bit 8 (ucast (word_of_int c :: u16)) :: i32) = c div 256"
      by (simp only: unsigned_drop_bit_eq uint_ucast_up u) (simp add: drop_bit_eq_div)
  qed
  show ?thesis
    unfolding w using assms(1,2) l h by (simp add: s0_def counter_read_def pit_wf_def Let_def c_def [symmetric])
qed

theorem pit_latch_witness:
  "let s0 = port43_write True 5 0 (program 4 0xA9 0x04 PIT); (lo, s1) = counter_read 0 6 s0; (hi, s2) = counter_read 0 7 s1
   in uint lo + 256 * uint hi = (if get_counter_value 0 5 (program 4 0xA9 0x04 PIT) = 0 then 0 else get_counter_value 0 5 (program 4 0xA9 0x04 PIT) - 1)"
proof -
  let ?s = "program 4 0xA9 0x04 PIT"
  have p: "periodic 4 (lohi 0xA9 0x04) 0 ?s" by (rule program_state [OF PIT_wf]) simp
  then have wf: "pit_wf ?s" by (simp add: periodic_def)
  have "1 \<le> get_counter_value 0 5 ?s \<and> get_counter_value 0 5 ?s \<le> max (uint (counter_start_value ?s ! 0)) (uint (counter_reload ?s ! 0))"
    using p by (intro counter_value_range [where start = 4]) (simp_all add: periodic_def)
  then have "0 \<le> get_counter_value 0 5 ?s" "get_counter_value 0 5 ?s \<le> 0xFFFF" using p by (simp_all add: periodic_def)
  from pit_latch [OF wf _ refl this, of True 6 7] show ?thesis by (simp add: Let_def case_prod_unfold)
qed

text \<open>
  In the read mode of low then high byte, a read switches to the other byte only if the counter's
  operating mode is 3: a rate generator (mode 2) returns the low byte every time.
\<close>

lemma pit_mode2_reads_low_only:
  "counter_latch s ! i = 0 \<Longrightarrow> counter_mode s ! i = 2 \<Longrightarrow> counter_next_low s ! i = 1 \<Longrightarrow>
   counter_read i now s = (word_of_int (get_counter_value i now s) AND 0xFF, s)"
  by (simp add: counter_read_def Let_def)

text \<open>
  A low byte of 0 written over a reload below 256 makes the reload 0 until the high byte comes; a service
  at a rollover in between loses the start time, and the counter stands still.
\<close>

lemma pit_zero_reload_stops:
  assumes "pit_wf s" "counter_reload s ! 0 = 0" "counter_enabled s ! 0 \<noteq> 0" "counter_mode s ! 0 \<noteq> 0" "did_rollover 0 now s"
  shows "counter_start_time (snd (pit_timer b now False s)) ! 0 = None"
  using assms by (auto simp: pit_timer_def rearm_def pit_emit_def pit_wf_def Let_def)

end
