(* ===== verification/Hpet.thy ===== *)
theory Hpet
  imports Device Io_Mmap
begin

text \<open>
  The High Precision Event Timer, \<open>src/hpet.js\<close>. Counter values, comparators and deadlines are
  exact integers (the code keeps them in doubles, exact below 2 to the 53rd), times exact rationals of
  milliseconds; the readings of the machine clock are arguments. What the timers do to the interrupt
  controllers is recorded in order. The main results: a timer's interrupt line is where the
  effects have left it and follows the status and the configuration, the next match is a counter value
  equal to the comparator, and periodic timers keep their phase however late they are served.
\<close>

section \<open>State\<close>

abbreviation (input) PERIOD_FS :: int where "PERIOD_FS \<equiv> 69841279"
abbreviation (input) HPET_BLOCK_ID :: i32 where "HPET_BLOCK_ID \<equiv> 0x8086A201"
abbreviation (input) ENABLE_CNF :: i32 where "ENABLE_CNF \<equiv> 1"
abbreviation (input) LEG_RT_CNF :: i32 where "LEG_RT_CNF \<equiv> 2"
abbreviation (input) TN_INT_TYPE_LEVEL :: i32 where "TN_INT_TYPE_LEVEL \<equiv> 2"
abbreviation (input) TN_INT_ENB :: i32 where "TN_INT_ENB \<equiv> 4"
abbreviation (input) TN_TYPE_PERIODIC :: i32 where "TN_TYPE_PERIODIC \<equiv> 8"
abbreviation (input) TN_PER_INT_CAP :: i32 where "TN_PER_INT_CAP \<equiv> 0x10"
abbreviation (input) TN_SIZE_CAP :: i32 where "TN_SIZE_CAP \<equiv> 0x20"
abbreviation (input) TN_VAL_SET :: i32 where "TN_VAL_SET \<equiv> 0x40"
abbreviation (input) TN_32MODE :: i32 where "TN_32MODE \<equiv> 0x100"
abbreviation (input) TN_FSB_EN :: i32 where "TN_FSB_EN \<equiv> 0x4000"
abbreviation (input) TN_FSB_INT_DEL_CAP :: i32 where "TN_FSB_INT_DEL_CAP \<equiv> 0x8000"
abbreviation (input) TN_CONF_WRITABLE :: i32 where "TN_CONF_WRITABLE \<equiv> 0x7F4E"
abbreviation (input) TN_INT_ROUTE_CAP :: i32 where "TN_INT_ROUTE_CAP \<equiv> 0x00F00000"
abbreviation (input) HPET_SOURCE :: int where "HPET_SOURCE \<equiv> 0x10000"

definition TICKS_PER_MS :: rat where
  "TICKS_PER_MS = 10 ^ 12 / of_int PERIOD_FS"

text \<open>
  Calls of the CPU: \<open>device_raise_irq\<close>, \<open>device_lower_irq\<close>, \<open>set_shared_gsi_level\<close> (input,
  source, level) and \<open>apic_msi\<close> (address, data).
\<close>

datatype hpet_effect =
    DeviceRaiseIrq int
  | DeviceLowerIrq int
  | SetSharedGsiLevel int int bool
  | ApicMsi i32 i32

record hline =
  line_irq :: int
  line_gsi :: int

text \<open>A 64-bit register is a pair of its lower and its upper half. A deadline of Infinity is None.\<close>

type_synonym halves = "i32 \<times> i32"

record htimer =
  tconfig :: i32
  comparator :: halves
  tperiod :: halves
  fsb_value :: i32
  fsb_address :: i32
  tdeadline :: "int option"
  tline :: "hline option"

text \<open>\<open>has_msi\<close>: whether the WebAssembly module exports \<open>apic_msi\<close>.\<close>

record hpet =
  hconfig :: i32
  isr :: i32
  counter_base :: int
  base_time :: rat
  timers :: "htimer list"
  has_msi :: bool
  hpet_log :: "hpet_effect list"

definition hpet_emit :: "hpet_effect \<Rightarrow> hpet \<Rightarrow> hpet" where
  "hpet_emit e s = s\<lparr>hpet_log := hpet_log s @ [e]\<rparr>"

definition upd_timer :: "nat \<Rightarrow> (htimer \<Rightarrow> htimer) \<Rightarrow> hpet \<Rightarrow> hpet" where
  "upd_timer i f s = s\<lparr>timers := (timers s)[i := f (timers s ! i)]\<rparr>"

section \<open>The main counter and the comparators\<close>

definition legacy_replacement :: "hpet \<Rightarrow> bool" where
  "legacy_replacement s \<longleftrightarrow> hconfig s AND LEG_RT_CNF \<noteq> 0"

definition counter :: "rat \<Rightarrow> hpet \<Rightarrow> int" where
  "counter now s =
     (if hconfig s AND ENABLE_CNF = 0 then counter_base s
      else counter_base s + \<lfloor>(now - base_time s) * TICKS_PER_MS\<rfloor>)"

definition width :: "htimer \<Rightarrow> int" where
  "width t = (if has_bits (tconfig t) TN_32MODE then 0x100000000 else 0x10000000000000000)"

fun value64 :: "halves \<Rightarrow> int" where
  "value64 (lo, hi) = uint hi * 0x100000000 + uint lo"

text \<open>The remainder of JavaScript has the sign of the dividend.\<close>

definition js_rem :: "int \<Rightarrow> int \<Rightarrow> int" where
  "js_rem a b = (if a < 0 then - (- a mod b) else a mod b)"

definition set64 :: "int \<Rightarrow> halves" where
  "set64 v = (word_of_int (js_rem v 0x100000000), word_of_int (js_rem (v div 0x100000000) 0x100000000))"

definition arm :: "nat \<Rightarrow> int \<Rightarrow> hpet \<Rightarrow> hpet" where
  "arm i c s =
     (let t = timers s ! i
      in if hconfig s AND ENABLE_CNF = 0 then upd_timer i (\<lambda>t. t\<lparr>tdeadline := None\<rparr>) s
         else let w = width t;
                  d0 = value64 (comparator t) - js_rem c w;
                  delta = (if d0 < 0 then d0 + w else d0)
              in upd_timer i (\<lambda>t. t\<lparr>tdeadline := Some (c + delta)\<rparr>) s)"

section \<open>Interrupts\<close>

definition fsb :: "nat \<Rightarrow> hpet \<Rightarrow> bool" where
  "fsb i s \<longleftrightarrow> tconfig (timers s ! i) AND TN_FSB_EN \<noteq> 0"

definition route :: "nat \<Rightarrow> hpet \<Rightarrow> hline option" where
  "route i s =
     (if fsb i s then None
      else if hconfig s AND LEG_RT_CNF \<noteq> 0 \<and> i < 2 then Some \<lparr>line_irq = (if i = 0 then 0 else 8), line_gsi = -1\<rparr>
      else let gsi = signed_drop_bit 9 (tconfig (timers s ! i)) AND 0x1F
           in if has_bits TN_INT_ROUTE_CAP (push_bit (unat gsi) 1) then Some \<lparr>line_irq = -1, line_gsi = uint gsi\<rparr> else None)"

text \<open>Driving a line, by its \<open>irq\<close> or its \<open>gsi\<close>.\<close>

definition drive :: "nat \<Rightarrow> bool \<Rightarrow> hline \<Rightarrow> hpet \<Rightarrow> hpet" where
  "drive i level l s =
     hpet_emit (if line_irq l \<ge> 0 then (if level then DeviceRaiseIrq (line_irq l) else DeviceLowerIrq (line_irq l))
                else SetSharedGsiLevel (line_gsi l) (HPET_SOURCE + int i) level) s"

function set_line :: "nat \<Rightarrow> bool \<Rightarrow> hpet \<Rightarrow> hpet" where
  "set_line i True s =
     (let t = timers s ! i
      in if fsb i s then (if has_msi s then hpet_emit (ApicMsi (fsb_address t) (fsb_value t)) s else s)
         else case route i s of
                None \<Rightarrow> s
              | Some l \<Rightarrow>
                  if tline t = Some l then s
                  else let s1 = (if tline t \<noteq> None then set_line i False s else s)
                       in drive i True l (upd_timer i (\<lambda>t. t\<lparr>tline := Some l\<rparr>) s1))"
| "set_line i False s =
     (case tline (timers s ! i) of
        None \<Rightarrow> s
      | Some l \<Rightarrow> drive i False l (upd_timer i (\<lambda>t. t\<lparr>tline := None\<rparr>) s))"
  by pat_completeness auto
termination by (relation "measure (\<lambda>(i, level, s). if level then 1 else 0)") auto

definition fire :: "nat \<Rightarrow> hpet \<Rightarrow> hpet" where
  "fire i s =
     (let t = timers s ! i
      in if \<not> has_bits (tconfig t) TN_INT_ENB then s
         else if has_bits (tconfig t) TN_INT_TYPE_LEVEL \<and> \<not> fsb i s
         then set_line i True (s\<lparr>isr := isr s OR push_bit i 1\<rparr>)
         else set_line i False (set_line i True s))"

definition active :: "nat \<Rightarrow> hpet \<Rightarrow> bool" where
  "active i s \<longleftrightarrow> has_bits (isr s) (push_bit i 1) \<and>
     tconfig (timers s ! i) AND (TN_INT_ENB OR TN_INT_TYPE_LEVEL) = TN_INT_ENB OR TN_INT_TYPE_LEVEL \<and> \<not> fsb i s"

definition update_level :: "nat \<Rightarrow> hpet \<Rightarrow> hpet" where
  "update_level i s = (if \<not> active i s then set_line i False s else set_line i True s)"

section \<open>Matches\<close>

text \<open>One round of the loop: a timer whose deadline the counter has reached.\<close>

definition move_on :: "nat \<Rightarrow> int \<Rightarrow> hpet \<Rightarrow> hpet" where
  "move_on i c s =
     (let t = timers s ! i; w = width t; p = value64 (tperiod t); d = the (tdeadline t)
      in if has_bits (tconfig t) TN_TYPE_PERIODIC \<and> p \<noteq> 0
         then let n = (c - d) div p + 1
              in upd_timer i (\<lambda>t. t\<lparr>tdeadline := Some (d + n * p),
                   comparator := set64 (js_rem (value64 (comparator t) + n * p) w)\<rparr>) s
         else upd_timer i (\<lambda>t. t\<lparr>tdeadline := Some (d + w)\<rparr>) s)"

definition match_timer :: "int \<Rightarrow> nat \<Rightarrow> hpet \<Rightarrow> hpet" where
  "match_timer c i s =
     (case tdeadline (timers s ! i) of
        Some d \<Rightarrow> if d \<le> c then move_on i c (fire i s) else s
      | None \<Rightarrow> s)"

definition min_deadline :: "int option \<Rightarrow> int option \<Rightarrow> int option" where
  "min_deadline a b = (case (a, b) of (Some x, Some y) \<Rightarrow> Some (min x y) | (None, _) \<Rightarrow> b | (_, None) \<Rightarrow> a)"

definition hpet_timer :: "rat \<Rightarrow> hpet \<Rightarrow> rat \<times> hpet" where
  "hpet_timer now s =
     (if hconfig s AND ENABLE_CNF = 0 then (100, s)
      else let c = counter now s;
               (next_match, s1) = fold (\<lambda>i (n, u). let v = match_timer c i u in (min_deadline n (tdeadline (timers v ! i)), v)) [0..<3] (None, s)
           in (case next_match of None \<Rightarrow> 100 | Some d \<Rightarrow> min 100 (max 0 (of_int (d - c) / TICKS_PER_MS)), s1))"

section \<open>Reset and registers\<close>

definition reset_timer :: "htimer \<Rightarrow> htimer" where
  "reset_timer t = t\<lparr>tconfig := 0, comparator := (0xFFFFFFFF, 0xFFFFFFFF), tperiod := (0, 0), fsb_value := 0,
     fsb_address := 0, tdeadline := None\<rparr>"

definition hpet_reset :: "hpet \<Rightarrow> hpet" where
  "hpet_reset s =
     (let s1 = fold (\<lambda>i. set_line i False) [0..<3] s
      in s1\<lparr>hconfig := 0, isr := 0, counter_base := 0, base_time := 0, timers := map reset_timer (timers s1)\<rparr>)"

definition HPET :: "bool \<Rightarrow> hpet" where
  "HPET msi = hpet_reset \<lparr>hconfig = 0, isr = 0, counter_base = 0, base_time = 0,
     timers = replicate 3 \<lparr>tconfig = 0, comparator = (0, 0), tperiod = (0, 0), fsb_value = 0, fsb_address = 0,
       tdeadline = None, tline = None\<rparr>, has_msi = msi, hpet_log = []\<rparr>"

text \<open>
  The offset of a timer register: the number of the timer, and the register in its block without bit 2,
  which selects the half.
\<close>

definition is_timer_offset :: "i32 \<Rightarrow> bool" where
  "is_timer_offset off \<longleftrightarrow> 0x100 \<le> uint off \<and> uint off < 0x100 + 3 * 0x20"

definition timer_index :: "i32 \<Rightarrow> nat" where
  "timer_index off = unat (signed_drop_bit 5 (off - 0x100))"

definition timer_reg :: "i32 \<Rightarrow> i32" where
  "timer_reg off = (off AND 0x1F) AND NOT 4"

definition half :: "bool \<Rightarrow> halves \<Rightarrow> i32" where
  "half high h = (if high then snd h else fst h)"

definition set_half :: "bool \<Rightarrow> i32 \<Rightarrow> halves \<Rightarrow> halves" where
  "set_half high v h = (if high then (fst h, v) else (v, snd h))"

definition read32 :: "rat \<Rightarrow> i32 \<Rightarrow> hpet \<Rightarrow> i32" where
  "read32 now off s =
     (let high = has_bits off 4
      in if is_timer_offset off
         then let t = timers s ! timer_index off; r = timer_reg off
              in if r = 0 then (if high then TN_INT_ROUTE_CAP else tconfig t OR TN_PER_INT_CAP OR TN_SIZE_CAP OR TN_FSB_INT_DEL_CAP)
                 else if r = 8 then half high (comparator t)
                 else if r = 0x10 then (if high then fsb_address t else fsb_value t)
                 else 0
         else let r = off AND NOT 4
              in if r = 0 then (if high then of_int PERIOD_FS else HPET_BLOCK_ID)
                 else if r = 0x10 then (if high then 0 else hconfig s)
                 else if r = 0x20 then (if high then 0 else isr s)
                 else if r = 0xF0
                 then let c = counter now s in word_of_int (if high then c div 0x100000000 else js_rem c 0x100000000)
                 else 0)"

definition write_config :: "nat \<Rightarrow> int \<Rightarrow> i32 \<Rightarrow> hpet \<Rightarrow> hpet" where
  "write_config i c v s =
     (let s1 = upd_timer i (\<lambda>t. t\<lparr>tconfig := v AND TN_CONF_WRITABLE\<rparr>) s;
          s2 = (if has_bits (tconfig (timers s1 ! i)) TN_32MODE
                then upd_timer i (\<lambda>t. t\<lparr>comparator := set_half True 0 (comparator t), tperiod := set_half True 0 (tperiod t)\<rparr>) s1
                else s1)
      in arm i c (update_level i s2))"

definition write_comparator :: "nat \<Rightarrow> bool \<Rightarrow> int \<Rightarrow> i32 \<Rightarrow> hpet \<Rightarrow> hpet" where
  "write_comparator i high c v s =
     (let t = timers s ! i
      in if high \<and> has_bits (tconfig t) TN_32MODE then s
         else let t1 = (if \<not> has_bits (tconfig t) TN_TYPE_PERIODIC \<or> has_bits (tconfig t) TN_VAL_SET
                        then t\<lparr>comparator := set_half high v (comparator t)\<rparr> else t);
                  t2 = (if has_bits (tconfig t1) TN_TYPE_PERIODIC then t1\<lparr>tperiod := set_half high v (tperiod t1)\<rparr> else t1);
                  t3 = (if high \<or> has_bits (tconfig t2) TN_32MODE then t2\<lparr>tconfig := tconfig t2 AND NOT TN_VAL_SET\<rparr> else t2)
              in arm i c (upd_timer i (\<lambda>_. t3) s))"

definition write_gen_conf :: "rat \<Rightarrow> int \<Rightarrow> i32 \<Rightarrow> hpet \<Rightarrow> hpet" where
  "write_gen_conf now c v s =
     (let old = hconfig s;
          s1 = s\<lparr>hconfig := v AND (ENABLE_CNF OR LEG_RT_CNF)\<rparr>;
          s2 = (if has_bits (old XOR hconfig s1) ENABLE_CNF
                then fold (\<lambda>i. arm i c) [0..<3] (s1\<lparr>counter_base := c, base_time := now\<rparr>)
                else s1)
      in if has_bits (old XOR hconfig s2) LEG_RT_CNF
         then update_level 1 (update_level 0 (hpet_emit (DeviceLowerIrq 8) (hpet_emit (DeviceLowerIrq 0)
                (set_line 1 False (set_line 0 False s2)))))
         else s2)"

definition write32 :: "rat \<Rightarrow> i32 \<Rightarrow> i32 \<Rightarrow> hpet \<Rightarrow> hpet" where
  "write32 now off v s =
     (let high = has_bits off 4; c = counter now s
      in if is_timer_offset off
         then let i = timer_index off; r = timer_reg off
              in if r = 0 then (if high then s else write_config i c v s)
                 else if r = 8 then write_comparator i high c v s
                 else if r = 0x10
                 then upd_timer i (\<lambda>t. if high then t\<lparr>fsb_address := v\<rparr> else t\<lparr>fsb_value := v\<rparr>) s
                 else s
         else let r = off AND NOT 4
              in if r = 0x10 then (if high then s else write_gen_conf now c v s)
                 else if r = 0x20
                 then (if high then s else fold update_level [0..<3] (s\<lparr>isr := isr s AND NOT v\<rparr>))
                 else if r = 0xF0 \<and> hconfig s AND ENABLE_CNF = 0
                 then s\<lparr>counter_base := (if high then js_rem (counter_base s) 0x100000000 + uint v * 0x100000000
                                          else counter_base s div 0x100000000 * 0x100000000 + uint v)\<rparr>
                 else s)"

text \<open>
  The byte handlers of the range at \<open>HPET_ADDRESS\<close>; \<open>off\<close> is the offset in the range, \<open>t0\<close> and
  \<open>now\<close> the clock at the read of the other bytes and at the write.
\<close>

definition hpet_read8 :: "rat \<Rightarrow> i32 \<Rightarrow> hpet \<Rightarrow> i32" where
  "hpet_read8 now off s = drop_bit (unat (push_bit 3 (off AND 3))) (read32 now (off AND NOT 3) s) AND 0xFF"

definition hpet_write8 :: "rat \<Rightarrow> rat \<Rightarrow> i32 \<Rightarrow> i32 \<Rightarrow> hpet \<Rightarrow> hpet" where
  "hpet_write8 t0 now off v s =
     (let shift = unat (push_bit 3 (off AND 3)); offset = off AND NOT 3;
          others = (if offset AND NOT 4 = 0x20 then 0 else read32 t0 offset s AND NOT (push_bit shift 0xFF))
      in write32 now offset (others OR push_bit shift (v AND 0xFF)) s)"

text \<open>
  The registration of the constructor; \<open>get\<close> and \<open>put\<close> select the HPET in a machine, \<open>now\<close> reads
  its clock. Addresses are those of the range, below 4 GiB.
\<close>

definition HPET_register ::
  "nat \<Rightarrow> ('m \<Rightarrow> hpet) \<Rightarrow> (hpet \<Rightarrow> 'm \<Rightarrow> 'm) \<Rightarrow> ('m \<Rightarrow> rat) \<Rightarrow> 'm mmap \<Rightarrow> 'm mmap" where
  "HPET_register owner get put now = (let off = (\<lambda>addr. word_of_int (addr - 0xFED00000))
     in mmap_register_range 0xFED00000 0x400 owner
          (\<lambda>addr m. (hpet_read8 (now m) (off addr) (get m), m))
          (\<lambda>addr v m. put (hpet_write8 (now m) (now m) (off addr) v (get m)) m)
          (Some (\<lambda>addr m. (read32 (now m) (off addr) (get m), m)))
          (Some (\<lambda>addr v m. put (write32 (now m) (off addr) v (get m)) m)))"

section \<open>Saved states\<close>

text \<open>The entry of a timer: its numbers, the deadline with Infinity as -1, the line with null as -2.\<close>

record htimer_state =
  st_words :: "i32 list"
  st_deadline :: int
  st_irq :: int
  st_gsi :: int

record hpet_state =
  st_config :: i32
  st_isr :: i32
  st_counter_base :: int
  st_base_time :: rat
  st_timers :: "htimer_state list"

definition save_timer :: "htimer \<Rightarrow> htimer_state" where
  "save_timer t = \<lparr>st_words = [tconfig t, fst (comparator t), snd (comparator t), fst (tperiod t), snd (tperiod t),
       fsb_value t, fsb_address t],
     st_deadline = (case tdeadline t of None \<Rightarrow> -1 | Some d \<Rightarrow> d),
     st_irq = (case tline t of None \<Rightarrow> -2 | Some l \<Rightarrow> line_irq l), st_gsi = (case tline t of None \<Rightarrow> -2 | Some l \<Rightarrow> line_gsi l)\<rparr>"

definition hpet_get_state :: "hpet \<Rightarrow> hpet_state" where
  "hpet_get_state s = \<lparr>st_config = hconfig s, st_isr = isr s, st_counter_base = counter_base s, st_base_time = base_time s,
     st_timers = map save_timer (timers s)\<rparr>"

definition restore_timer :: "htimer_state \<Rightarrow> htimer \<Rightarrow> htimer" where
  "restore_timer e t = t\<lparr>tconfig := st_words e ! 0, comparator := (st_words e ! 1, st_words e ! 2),
     tperiod := (st_words e ! 3, st_words e ! 4), fsb_value := st_words e ! 5, fsb_address := st_words e ! 6,
     tdeadline := (if st_deadline e = -1 then None else Some (st_deadline e)),
     tline := (if st_irq e = -2 then None else Some \<lparr>line_irq = st_irq e, line_gsi = st_gsi e\<rparr>)\<rparr>"

text \<open>Entries beyond the timers of the machine raise an error in the code; here the state has one for each.\<close>

definition hpet_set_state :: "hpet_state \<Rightarrow> hpet \<Rightarrow> hpet" where
  "hpet_set_state st s = s\<lparr>hconfig := st_config st, isr := st_isr st, counter_base := st_counter_base st,
     base_time := st_base_time st,
     timers := map2 restore_timer (st_timers st) (timers s) @ drop (length (st_timers st)) (timers s)\<rparr>"

section \<open>Interrupt lines\<close>

text \<open>The lines a timer can interrupt on: its legacy line, and the I/O APIC inputs of the route capability.\<close>

definition lines_of :: "nat \<Rightarrow> hline set" where
  "lines_of i = {l. i < 2 \<and> l = \<lparr>line_irq = (if i = 0 then 0 else 8), line_gsi = -1\<rparr>}
     \<union> {l. line_irq l = -1 \<and> line_gsi l \<in> {20..23}}"

text \<open>Whether a timer asserts a line, as the effects leave it.\<close>

definition lvl :: "nat \<Rightarrow> hline \<Rightarrow> bool \<Rightarrow> hpet_effect \<Rightarrow> bool" where
  "lvl i l b e =
     (case e of
        DeviceRaiseIrq n \<Rightarrow> 0 \<le> n \<and> line_irq l = n \<or> b
      | DeviceLowerIrq n \<Rightarrow> \<not> (0 \<le> n \<and> line_irq l = n) \<and> b
      | SetSharedGsiLevel g src v \<Rightarrow> if line_irq l < 0 \<and> line_gsi l = g \<and> src = HPET_SOURCE + int i then v else b
      | ApicMsi _ _ \<Rightarrow> b)"

definition asserted :: "nat \<Rightarrow> hline \<Rightarrow> hpet_effect list \<Rightarrow> bool" where
  "asserted i l es = foldl (lvl i l) False es"

definition lines_ok :: "hpet \<Rightarrow> bool" where
  "lines_ok s \<longleftrightarrow> length (timers s) = 3 \<and>
     (\<forall>i<3. (\<forall>l\<in>lines_of i. asserted i l (hpet_log s) \<longleftrightarrow> tline (timers s ! i) = Some l) \<and>
            set_option (tline (timers s ! i)) \<subseteq> lines_of i)"

text \<open>The line of a timer follows its level interrupt.\<close>

definition follows :: "nat \<Rightarrow> hpet \<Rightarrow> bool" where
  "follows i s \<longleftrightarrow> (if active i s then \<forall>l. route i s = Some l \<longrightarrow> tline (timers s ! i) = Some l
     else tline (timers s ! i) = None)"

definition lines_inv :: "hpet \<Rightarrow> bool" where
  "lines_inv s \<longleftrightarrow> lines_ok s \<and> (\<forall>i<3. follows i s)"

subsection \<open>Selectors\<close>

lemma hpet_emit_sel [simp]:
  "hconfig (hpet_emit e s) = hconfig s" "isr (hpet_emit e s) = isr s" "timers (hpet_emit e s) = timers s"
  "counter_base (hpet_emit e s) = counter_base s" "base_time (hpet_emit e s) = base_time s"
  "has_msi (hpet_emit e s) = has_msi s" "hpet_log (hpet_emit e s) = hpet_log s @ [e]"
  by (simp_all add: hpet_emit_def)

lemma upd_timer_sel [simp]:
  "hconfig (upd_timer i f s) = hconfig s" "isr (upd_timer i f s) = isr s"
  "counter_base (upd_timer i f s) = counter_base s" "base_time (upd_timer i f s) = base_time s"
  "has_msi (upd_timer i f s) = has_msi s" "hpet_log (upd_timer i f s) = hpet_log s"
  "length (timers (upd_timer i f s)) = length (timers s)"
  "j < length (timers s) \<Longrightarrow> timers (upd_timer i f s) ! j = (if i = j then f (timers s ! i) else timers s ! j)"
  by (simp_all add: upd_timer_def nth_list_update)

lemma drive_sel [simp]:
  "hconfig (drive i v l s) = hconfig s" "isr (drive i v l s) = isr s" "timers (drive i v l s) = timers s"
  "counter_base (drive i v l s) = counter_base s" "base_time (drive i v l s) = base_time s" "has_msi (drive i v l s) = has_msi s"
  by (simp_all add: drive_def)

lemma asserted_snoc [simp]: "asserted i l (es @ [e]) = lvl i l (asserted i l es) e"
  by (simp add: asserted_def)

lemma asserted_drive:
  assumes "l \<in> lines_of i" "l' \<in> lines_of j" "i < 3" "j < 3"
  shows "asserted j l' (hpet_log (drive i v l s)) = (if i = j \<and> l = l' then v else asserted j l' (hpet_log s))"
proof -
  have "line_irq l = -1 \<or> line_irq l = (if i = 0 then 0 else 8) \<and> i < 2 \<and> line_gsi l = -1"
    "line_irq l' = -1 \<or> line_irq l' = (if j = 0 then 0 else 8) \<and> j < 2 \<and> line_gsi l' = -1"
    using assms(1,2) by (auto simp: lines_of_def)
  moreover have "l = l' \<longleftrightarrow> line_irq l = line_irq l' \<and> line_gsi l = line_gsi l'" by (cases l; cases l') simp
  ultimately show ?thesis
    using assms(3,4) by (elim disjE) (simp_all add: drive_def lvl_def)
qed

lemma word_nonzero_bit: "(x :: 'a::len word) \<noteq> 0 \<Longrightarrow> \<exists>n. bit x n"
  by (auto simp: bit_eq_iff)

lemma route_lines: "route i s = Some l \<Longrightarrow> l \<in> lines_of i"
proof -
  have g: "uint g \<in> {20..23}" if nz: "(TN_INT_ROUTE_CAP AND push_bit (unat g) 1 :: i32) \<noteq> 0" for g :: i32
  proof -
    have "(TN_INT_ROUTE_CAP :: i32) = push_bit 20 (mask 4)" by (simp add: mask_eq_exp_minus_1)
    then have "bit (TN_INT_ROUTE_CAP :: i32) n \<Longrightarrow> 20 \<le> n \<and> n < 24" for n by (simp only: bit_push_bit_iff bit_mask_iff) auto
    moreover obtain n where "bit (TN_INT_ROUTE_CAP AND push_bit (unat g) 1 :: i32) n" using word_nonzero_bit [OF nz] by blast
    then have "bit (TN_INT_ROUTE_CAP :: i32) n" "n = unat g" by (auto simp: bit_and_iff bit_exp_iff)
    ultimately have "20 \<le> unat g" "unat g < 24" by simp_all
    then have "20 \<le> int (unat g)" "int (unat g) \<le> 23" by linarith+
    then show ?thesis by simp
  qed
  assume "route i s = Some l"
  then show ?thesis using g by (auto simp: route_def lines_of_def Let_def split: if_splits)
qed

subsection \<open>Driving the line of a timer\<close>

text \<open>What a timer's lines depend on, apart from where they are: nothing else is changed by driving them.\<close>

definition unlined :: "hpet \<Rightarrow> hpet" where
  "unlined s = s\<lparr>timers := map (\<lambda>t. t\<lparr>tline := None\<rparr>) (timers s), hpet_log := []\<rparr>"

lemma unlined_eqD:
  assumes "unlined s = unlined s'"
  shows "hconfig s = hconfig s'" "isr s = isr s'" "counter_base s = counter_base s'" "base_time s = base_time s'"
    "has_msi s = has_msi s'" "length (timers s) = length (timers s')"
    "i < length (timers s) \<Longrightarrow> (timers s ! i)\<lparr>tline := None\<rparr> = (timers s' ! i)\<lparr>tline := None\<rparr>"
proof -
  have e: "map (\<lambda>t. t\<lparr>tline := None\<rparr>) (timers s) = map (\<lambda>t. t\<lparr>tline := None\<rparr>) (timers s')"
    using arg_cong [OF assms, of timers] by (simp add: unlined_def)
  show len: "length (timers s) = length (timers s')" using arg_cong [OF e, of length] by simp
  show "(timers s ! i)\<lparr>tline := None\<rparr> = (timers s' ! i)\<lparr>tline := None\<rparr>" if "i < length (timers s)"
    using arg_cong [OF e, of "\<lambda>ts. ts ! i"] that len by simp
  show "hconfig s = hconfig s'" "isr s = isr s'" "counter_base s = counter_base s'" "base_time s = base_time s'" "has_msi s = has_msi s'"
    using arg_cong [OF assms, of hconfig] arg_cong [OF assms, of isr] arg_cong [OF assms, of counter_base]
      arg_cong [OF assms, of base_time] arg_cong [OF assms, of has_msi] by (simp_all add: unlined_def)
qed

lemma tline_None_eqD:
  assumes "t\<lparr>tline := None\<rparr> = t'\<lparr>tline := None\<rparr>"
  shows "tconfig t = tconfig t'" "comparator t = comparator t'" "tperiod t = tperiod t'" "fsb_value t = fsb_value t'"
    "fsb_address t = fsb_address t'" "tdeadline t = tdeadline t'"
  using arg_cong [OF assms, of tconfig] arg_cong [OF assms, of comparator] arg_cong [OF assms, of tperiod] arg_cong [OF assms, of fsb_value]
    arg_cong [OF assms, of fsb_address] arg_cong [OF assms, of tdeadline] by simp_all

lemma unlined_emit [simp]: "unlined (hpet_emit e s) = unlined s"
  by (simp add: unlined_def hpet_emit_def)

lemma unlined_upd [simp]: "i < length (timers s) \<Longrightarrow> unlined (upd_timer i (\<lambda>t. t\<lparr>tline := x\<rparr>) s) = unlined s"
  by (simp add: unlined_def upd_timer_def map_update list_update_same_conv)

lemma unlined_drive [simp]: "unlined (drive i v l s) = unlined s"
  by (simp add: drive_def)

lemma unlined_set_line [simp]: "i < length (timers s) \<Longrightarrow> unlined (set_line i v s) = unlined s"
  by (cases v) (auto simp: Let_def split: option.split)

lemma unlined_routes:
  assumes "unlined s = unlined s'" "i < length (timers s)"
  shows "fsb i s = fsb i s'" "route i s = route i s'" "active i s = active i s'"
  using unlined_eqD [OF assms(1)] tline_None_eqD [OF unlined_eqD(7) [OF assms]] by (simp_all add: fsb_def route_def active_def)

lemmas set_line_frame = unlined_eqD [OF unlined_set_line] unlined_routes [OF unlined_set_line]

lemma set_line_tline:
  assumes "i < length (timers s)" "j < length (timers s)"
  shows "tline (timers (set_line i v s) ! j) =
    (if i \<noteq> j then tline (timers s ! j) else if \<not> v then None
     else case route i s of None \<Rightarrow> tline (timers s ! i) | Some l \<Rightarrow> Some l)"
proof (cases v)
  case True
  have "fsb i s \<Longrightarrow> route i s = None" by (simp add: route_def)
  then show ?thesis using True assms by (cases "route i s") (auto simp: Let_def split: option.split)
next
  case False
  then show ?thesis using assms by (cases "tline (timers s ! i)") auto
qed

lemma lines_okD:
  assumes "lines_ok s"
  shows "length (timers s) = 3" "i < 3 \<Longrightarrow> l \<in> lines_of i \<Longrightarrow> asserted i l (hpet_log s) \<longleftrightarrow> tline (timers s ! i) = Some l"
    "i < 3 \<Longrightarrow> tline (timers s ! i) = Some l \<Longrightarrow> l \<in> lines_of i"
  using assms by (auto simp: lines_ok_def)

lemma lines_okI:
  assumes "length (timers s) = 3" "\<And>i l. i < 3 \<Longrightarrow> l \<in> lines_of i \<Longrightarrow> asserted i l (hpet_log s) \<longleftrightarrow> tline (timers s ! i) = Some l"
    "\<And>i l. i < 3 \<Longrightarrow> tline (timers s ! i) = Some l \<Longrightarrow> l \<in> lines_of i"
  shows "lines_ok s"
  using assms unfolding lines_ok_def by (auto dest: assms(3))

text \<open>Releasing the line of a timer, and asserting a line for a timer that has none.\<close>

lemma lines_ok_release:
  assumes "lines_ok s" "i < 3" "tline (timers s ! i) = Some l"
  shows "lines_ok (drive i False l (upd_timer i (\<lambda>t. t\<lparr>tline := None\<rparr>) s))"
proof (rule lines_okI)
  fix j l' assume j: "j < 3" "l' \<in> lines_of j"
  have "l \<in> lines_of i" using lines_okD(3) assms by blast
  then show "asserted j l' (hpet_log (drive i False l (upd_timer i (\<lambda>t. t\<lparr>tline := None\<rparr>) s))) \<longleftrightarrow>
      tline (timers (drive i False l (upd_timer i (\<lambda>t. t\<lparr>tline := None\<rparr>) s)) ! j) = Some l'"
    using j assms lines_okD [OF assms(1)] by (auto simp: asserted_drive)
qed (use assms lines_okD [OF assms(1)] in \<open>auto split: if_splits\<close>)

lemma lines_ok_assert:
  assumes "lines_ok s" "i < 3" "tline (timers s ! i) = None" "l \<in> lines_of i"
  shows "lines_ok (drive i True l (upd_timer i (\<lambda>t. t\<lparr>tline := Some l\<rparr>) s))"
proof (rule lines_okI)
  fix j l' assume j: "j < 3" "l' \<in> lines_of j"
  then show "asserted j l' (hpet_log (drive i True l (upd_timer i (\<lambda>t. t\<lparr>tline := Some l\<rparr>) s))) \<longleftrightarrow>
      tline (timers (drive i True l (upd_timer i (\<lambda>t. t\<lparr>tline := Some l\<rparr>) s)) ! j) = Some l'"
    using assms lines_okD [OF assms(1)] by (auto simp: asserted_drive)
qed (use assms lines_okD [OF assms(1)] in \<open>auto split: if_splits\<close>)

lemma lines_ok_emit:
  assumes "lines_ok s" "\<And>i l. i < 3 \<Longrightarrow> l \<in> lines_of i \<Longrightarrow> lvl i l (asserted i l (hpet_log s)) e = asserted i l (hpet_log s)"
  shows "lines_ok (hpet_emit e s)"
  by (rule lines_okI) (use assms lines_okD [OF assms(1)] in auto)

lemma lines_ok_set_line:
  assumes "lines_ok s" "i < 3"
  shows "lines_ok (set_line i v s)"
proof -
  have low: "lines_ok (set_line i False s)"
    using assms lines_ok_release by (auto split: option.split)
  have len: "length (timers s) = 3" using lines_okD(1) [OF assms(1)] .
  have msi: "lines_ok (hpet_emit (ApicMsi a b) s)" for a b by (rule lines_ok_emit [OF assms(1)]) (simp add: lvl_def)
  have high: "lines_ok (drive i True l (upd_timer i (\<lambda>t. t\<lparr>tline := Some l\<rparr>) (set_line i False s)))" if "route i s = Some l" for l
    by (rule lines_ok_assert [OF low assms(2)]) (use assms(2) len route_lines [OF that] in \<open>simp_all add: set_line_tline del: set_line.simps\<close>)
  have "set_line i False s = s" if "tline (timers s ! i) = None" using that by simp
  then show ?thesis using low high msi assms(1) by (cases v) (auto simp: Let_def split: option.split)
qed

lemma set_line_follows:
  assumes "lines_ok s" "i < 3" "j < 3" "j \<noteq> i" "follows j s"
  shows "follows j (set_line i v s)"
  using assms lines_okD(1) [OF assms(1)]
  by (simp add: follows_def set_line_tline set_line_frame del: set_line.simps)

lemma update_level_lines:
  assumes "lines_ok s" "i < 3"
  shows "lines_ok (update_level i s)" "follows i (update_level i s)"
    "j < 3 \<Longrightarrow> j \<noteq> i \<Longrightarrow> follows j s \<Longrightarrow> follows j (update_level i s)"
    "unlined (update_level i s) = unlined s"
proof -
  have len: "length (timers s) = 3" using lines_okD(1) [OF assms(1)] .
  show "lines_ok (update_level i s)" using lines_ok_set_line [OF assms] by (simp add: update_level_def del: set_line.simps)
  show "follows i (update_level i s)"
    using assms(2) len by (auto simp: update_level_def follows_def set_line_tline set_line_frame simp del: set_line.simps)
  show "follows j (update_level i s)" if "j < 3" "j \<noteq> i" "follows j s"
    using set_line_follows [OF assms that] by (simp add: update_level_def del: set_line.simps)
  show "unlined (update_level i s) = unlined s" using assms(2) len by (simp add: update_level_def del: set_line.simps)
qed

text \<open>
  The invariant of the lines depends on this much of the state only.
\<close>

lemma lines_inv_cong:
  assumes "hconfig s AND LEG_RT_CNF = hconfig s' AND LEG_RT_CNF" "isr s = isr s'" "hpet_log s = hpet_log s'"
    "length (timers s) = length (timers s')"
    "\<And>i. i < 3 \<Longrightarrow> tline (timers s ! i) = tline (timers s' ! i)"
    "\<And>i. i < 3 \<Longrightarrow> tconfig (timers s ! i) AND NOT TN_VAL_SET = tconfig (timers s' ! i) AND NOT TN_VAL_SET"
  shows "lines_inv s = lines_inv s'"
proof -
  have c: "tconfig (timers s ! i) AND m = tconfig (timers s' ! i) AND m" if "i < 3" "m AND NOT TN_VAL_SET = m" for i m
  proof -
    have "x AND m = (x AND NOT TN_VAL_SET) AND m" for x
    proof -
      have "x AND m = x AND (m AND NOT TN_VAL_SET)" by (simp only: that(2))
      also have "\<dots> = (x AND NOT TN_VAL_SET) AND m" by (simp only: and.assoc and.commute [of m])
      finally show ?thesis .
    qed
    then show ?thesis using assms(6) [OF that(1)] by metis
  qed
  have r: "signed_drop_bit 9 (tconfig (timers s ! i)) AND 0x1F = signed_drop_bit 9 (tconfig (timers s' ! i)) AND 0x1F" if "i < 3" for i
  proof -
    have e: "signed_drop_bit 9 x AND 0x1F = drop_bit 9 (x AND 0x3E00)" for x :: i32
    proof -
      have m: "(0x1F :: i32) = mask 5" "(0x3E00 :: i32) = push_bit 9 (mask 5)" by (simp_all add: mask_eq_exp_minus_1)
      show ?thesis unfolding m by (rule bit_word_eqI) (auto simp: bit_simps)
    qed
    show ?thesis unfolding e using c [OF that, of "0x3E00"] by simp
  qed
  have f: "fsb i s = fsb i s'" "route i s = route i s'" "active i s = active i s'" if "i < 3" for i
    using c [OF that, of TN_FSB_EN] c [OF that, of "TN_INT_ENB OR TN_INT_TYPE_LEVEL"] r [OF that] assms(1,2)
    by (simp_all add: fsb_def route_def active_def)
  show ?thesis using assms(3,4,5) f by (simp add: lines_inv_def lines_ok_def follows_def)
qed

subsection \<open>Every operation keeps the lines\<close>

lemma lines_invD: "lines_inv s \<Longrightarrow> lines_ok s" "lines_inv s \<Longrightarrow> i < 3 \<Longrightarrow> follows i s" "lines_inv s \<Longrightarrow> length (timers s) = 3"
  by (simp_all add: lines_inv_def lines_ok_def)

lemma update_level_lines_inv:
  assumes "lines_ok s" "i < 3" "\<And>j. j < 3 \<Longrightarrow> j \<noteq> i \<Longrightarrow> follows j s"
  shows "lines_inv (update_level i s)"
  unfolding lines_inv_def
proof (intro conjI allI impI)
  fix j :: nat assume "j < 3"
  then show "follows j (update_level i s)" using update_level_lines(2,3) [OF assms(1,2)] assms(3) by (cases "j = i") auto
qed (rule update_level_lines(1) [OF assms(1,2)])

lemma has_bits_exp: "has_bits x (push_bit i 1) \<longleftrightarrow> bit x i"
proof
  assume "has_bits x (push_bit i 1)"
  then obtain n where "bit (x AND push_bit i 1) n" using word_nonzero_bit by blast
  then show "bit x i" by (auto simp: bit_and_iff bit_exp_iff)
next
  assume b: "bit x i"
  then have "bit (x AND push_bit i 1) i" using bit_imp_le_length [OF b] by (simp add: bit_and_iff bit_exp_iff)
  then show "has_bits x (push_bit i 1)" by (metis bit_0_eq bot_apply bot_bool_def)
qed

lemma level_bits: "has_bits x TN_INT_ENB \<Longrightarrow> has_bits x TN_INT_TYPE_LEVEL \<Longrightarrow> x AND (TN_INT_ENB OR TN_INT_TYPE_LEVEL) = TN_INT_ENB OR TN_INT_TYPE_LEVEL"
proof -
  assume "has_bits x TN_INT_ENB" "has_bits x TN_INT_TYPE_LEVEL"
  moreover have "x AND push_bit k 1 = push_bit k 1" if "has_bits x (push_bit k 1)" for k
    using that unfolding has_bits_exp by (intro bit_word_eqI) (auto simp: bit_and_iff bit_exp_iff)
  from this [of 2] this [of 1]
  have "x AND 4 \<noteq> 0 \<Longrightarrow> x AND 4 = 4" "x AND 2 \<noteq> 0 \<Longrightarrow> x AND 2 = 2" by simp_all
  ultimately have "x AND 4 = 4" "x AND 2 = 2" by blast+
  then show ?thesis by (simp only: bit.conj_disj_distrib)
qed

lemma active_bits: "active i s \<Longrightarrow> has_bits (tconfig (timers s ! i)) TN_INT_TYPE_LEVEL"
proof -
  assume "active i s"
  then have "tconfig (timers s ! i) AND 6 = 6" by (simp add: active_def)
  then have "(tconfig (timers s ! i) AND 6) AND 2 = 2" by simp
  then have "tconfig (timers s ! i) AND 2 = 2" unfolding and.assoc by simp
  then show ?thesis by simp
qed

lemma fire_lines:
  assumes "lines_inv s" "i < 3"
  shows "lines_inv (fire i s)"
proof -
  note d = lines_invD [OF assms(1)]
  show ?thesis
  proof (cases "has_bits (tconfig (timers s ! i)) TN_INT_ENB")
    case False
    then show ?thesis using assms(1) by (simp add: fire_def Let_def)
  next
    case enb: True
    show ?thesis
    proof (cases "has_bits (tconfig (timers s ! i)) TN_INT_TYPE_LEVEL \<and> \<not> fsb i s")
      case True
      let ?s = "s\<lparr>isr := isr s OR push_bit i 1\<rparr>"
      have act: "active i ?s"
        using True level_bits [OF enb] assms(2) unfolding active_def has_bits_exp
        by (auto simp: bit_simps fsb_def simp del: push_bit_of_1)
      have oth: "follows j ?s" if "j < 3" "j \<noteq> i" for j
      proof -
        have "active j ?s = active j s" "route j ?s = route j s"
          unfolding active_def has_bits_exp using that assms(2)
          by (auto simp: bit_simps route_def fsb_def simp del: push_bit_of_1)
        then show ?thesis using d(2) [OF that(1)] by (simp add: follows_def)
      qed
      have "lines_ok ?s" using d(1) by (simp add: lines_ok_def)
      moreover have "fire i s = update_level i ?s"
        using True enb act by (simp add: fire_def update_level_def Let_def del: set_line.simps push_bit_of_1)
      ultimately show ?thesis using update_level_lines_inv [OF _ assms(2), of ?s] oth by metis
    next
      case False
      let ?t = "set_line i True s"
      have na: "\<not> active i s" using False active_bits by (auto simp: active_def)
      have t: "lines_ok ?t" "length (timers ?t) = 3" using lines_ok_set_line [OF d(1) assms(2)] lines_okD(1) by blast+
      have "follows j (set_line i False ?t)" if "j < 3" for j
      proof (cases "j = i")
        case True
        have "\<not> active i (set_line i False ?t)" using na assms(2) d(3) t(2) by (simp add: set_line_frame del: set_line.simps)
        then show ?thesis using True assms(2) t(2) by (simp add: follows_def set_line_tline del: set_line.simps)
      next
        case False
        then show ?thesis using set_line_follows [OF _ assms(2) that False] d(1,2) t(1) that by blast
      qed
      moreover have "fire i s = set_line i False ?t" using enb False by (auto simp: fire_def Let_def simp del: set_line.simps)
      ultimately show ?thesis using lines_ok_set_line [OF t(1) assms(2)] by (simp add: lines_inv_def del: set_line.simps)
    qed
  qed
qed

lemma upt3: "[0..<3] = [0, 1, 2 :: nat]"
  by (simp add: upt_rec)

lemma less3: "(i :: nat) < 3 \<longleftrightarrow> i = 0 \<or> i = 1 \<or> i = 2"
  by auto

lemma arm_sel [simp]:
  "hconfig (arm i c s) = hconfig s" "isr (arm i c s) = isr s" "hpet_log (arm i c s) = hpet_log s"
  "length (timers (arm i c s)) = length (timers s)" "counter_base (arm i c s) = counter_base s" "base_time (arm i c s) = base_time s"
  by (simp_all add: arm_def Let_def)

lemma arm_timer [simp]:
  "j < length (timers s) \<Longrightarrow> tline (timers (arm i c s) ! j) = tline (timers s ! j)"
  "j < length (timers s) \<Longrightarrow> tconfig (timers (arm i c s) ! j) = tconfig (timers s ! j)"
  "j < length (timers s) \<Longrightarrow> comparator (timers (arm i c s) ! j) = comparator (timers s ! j)"
  "j < length (timers s) \<Longrightarrow> tperiod (timers (arm i c s) ! j) = tperiod (timers s ! j)"
  "j < length (timers s) \<Longrightarrow> i \<noteq> j \<Longrightarrow> timers (arm i c s) ! j = timers s ! j"
  by (simp_all add: arm_def Let_def)

lemma arm_lines [simp]: "length (timers s) = 3 \<Longrightarrow> lines_inv (arm i c s) = lines_inv s"
  by (intro lines_inv_cong) simp_all

lemma move_on_sel [simp]:
  "hconfig (move_on i c s) = hconfig s" "isr (move_on i c s) = isr s" "hpet_log (move_on i c s) = hpet_log s"
  "length (timers (move_on i c s)) = length (timers s)" "counter_base (move_on i c s) = counter_base s" "base_time (move_on i c s) = base_time s"
  "j < length (timers s) \<Longrightarrow> tline (timers (move_on i c s) ! j) = tline (timers s ! j)"
  "j < length (timers s) \<Longrightarrow> tconfig (timers (move_on i c s) ! j) = tconfig (timers s ! j)"
  "j < length (timers s) \<Longrightarrow> tperiod (timers (move_on i c s) ! j) = tperiod (timers s ! j)"
  "j < length (timers s) \<Longrightarrow> i \<noteq> j \<Longrightarrow> timers (move_on i c s) ! j = timers s ! j"
  by (simp_all add: move_on_def Let_def)

lemma move_on_lines [simp]: "length (timers s) = 3 \<Longrightarrow> lines_inv (move_on i c s) = lines_inv s"
  by (intro lines_inv_cong) simp_all

lemma match_timer_lines: "lines_inv s \<Longrightarrow> i < 3 \<Longrightarrow> lines_inv (match_timer c i s)"
  using fire_lines [of s i] lines_invD(3) [of "fire i s"] by (simp add: match_timer_def split: option.split)

lemma hpet_timer_state:
  "hconfig s AND ENABLE_CNF \<noteq> 0 \<Longrightarrow> snd (hpet_timer now s) = fold (match_timer (counter now s)) [0..<3] s"
  by (simp add: hpet_timer_def Let_def upt3)

lemma hpet_timer_lines: "lines_inv s \<Longrightarrow> lines_inv (snd (hpet_timer now s))"
proof (cases "hconfig s AND ENABLE_CNF = 0")
  case False
  assume "lines_inv s"
  then show ?thesis unfolding hpet_timer_state [OF False] upt3 by (simp add: match_timer_lines)
qed (simp add: hpet_timer_def)

lemma lines_ok_cong:
  assumes "lines_ok s" "hpet_log s' = hpet_log s" "length (timers s') = length (timers s)" "\<And>i. i < 3 \<Longrightarrow> tline (timers s' ! i) = tline (timers s ! i)"
  shows "lines_ok s'"
  using assms by (simp add: lines_ok_def)

lemma follows_cong:
  assumes "follows i s" "timers s' ! i = timers s ! i" "isr s' = isr s" "hconfig s' AND LEG_RT_CNF = hconfig s AND LEG_RT_CNF \<or> \<not> i < 2"
  shows "follows i s'"
  using assms by (auto simp: follows_def active_def route_def fsb_def)

lemma write_config_lines:
  assumes "lines_inv s" "i < 3"
  shows "lines_inv (write_config i c v s)"
proof -
  note d = lines_invD [OF assms(1)]
  define s1 where "s1 = upd_timer i (\<lambda>t. t\<lparr>tconfig := v AND TN_CONF_WRITABLE\<rparr>) s"
  define s2 where "s2 = (if has_bits (tconfig (timers s1 ! i)) TN_32MODE
     then upd_timer i (\<lambda>t. t\<lparr>comparator := set_half True 0 (comparator t), tperiod := set_half True 0 (tperiod t)\<rparr>) s1 else s1)"
  have s2: "hpet_log s2 = hpet_log s" "length (timers s2) = 3" "isr s2 = isr s" "hconfig s2 = hconfig s"
    "\<And>j. j < 3 \<Longrightarrow> tline (timers s2 ! j) = tline (timers s ! j)" "\<And>j. j < 3 \<Longrightarrow> j \<noteq> i \<Longrightarrow> timers s2 ! j = timers s ! j"
    using d(3) by (simp_all add: s2_def s1_def)
  have "lines_ok s2" by (rule lines_ok_cong [OF d(1)]) (simp_all add: s2 d(3))
  moreover have "follows j s2" if "j < 3" "j \<noteq> i" for j
    by (rule follows_cong [OF d(2)]) (simp_all add: s2 that)
  ultimately have "lines_inv (update_level i s2)" using update_level_lines_inv [OF _ assms(2)] by blast
  moreover have "write_config i c v s = arm i c (update_level i s2)"
    by (simp add: write_config_def Let_def s1_def s2_def)
  ultimately show ?thesis using lines_invD(3) by simp
qed

lemma write_comparator_lines:
  assumes "lines_inv s" "i < 3"
  shows "lines_inv (write_comparator i high c v s)"
proof -
  note d = lines_invD [OF assms(1)]
  have "lines_inv (upd_timer i (\<lambda>_. t) s)" if "tline t = tline (timers s ! i)" "tconfig t AND NOT TN_VAL_SET = tconfig (timers s ! i) AND NOT TN_VAL_SET" for t
    by (rule lines_inv_cong [THEN iffD1, OF _ _ _ _ _ _ assms(1)]) (use that d(3) in auto)
  then show ?thesis using assms d(3) by (simp add: write_comparator_def Let_def and.assoc)
qed

text \<open>The change of the route of timers 0 and 1, from a state whose lines are as the effects left them.\<close>

lemma reroute_lines:
  assumes "lines_ok s" "follows 2 s"
  shows "lines_inv (update_level 1 (update_level 0 (hpet_emit (DeviceLowerIrq 8) (hpet_emit (DeviceLowerIrq 0)
     (set_line 1 False (set_line 0 False s))))))"
proof -
  define u where "u = set_line 1 False (set_line 0 False s)"
  define w where "w = hpet_emit (DeviceLowerIrq 8) (hpet_emit (DeviceLowerIrq 0) u)"
  have a: "lines_ok (set_line 0 False s)" by (rule lines_ok_set_line [OF assms(1)]) simp
  then have u: "lines_ok u" unfolding u_def by (rule lines_ok_set_line) simp
  have len: "length (timers s) = 3" "length (timers (set_line 0 False s)) = 3" "length (timers u) = 3"
    using assms(1) a u lines_okD(1) by blast+
  have none: "tline (timers u ! 0) = None" "tline (timers u ! 1) = None"
    using len by (simp_all add: u_def set_line_tline del: set_line.simps)
  have off: "\<not> asserted i l (hpet_log u)" if "i < 3" "l \<in> lines_of i" "line_irq l \<ge> 0" for i l
  proof -
    have "i = 0 \<or> i = 1" using that by (auto simp: lines_of_def)
    then show ?thesis using lines_okD(2) [OF u that(1,2)] none by auto
  qed
  have l0: "lines_ok (hpet_emit (DeviceLowerIrq 0) u)"
    by (rule lines_ok_emit [OF u]) (use off in \<open>auto simp: lvl_def\<close>)
  have w: "lines_ok w" unfolding w_def
    by (rule lines_ok_emit [OF l0]) (use off in \<open>auto simp: lvl_def\<close>)
  have "follows 2 u" unfolding u_def
    using set_line_follows [OF a, of 1 2] set_line_follows [OF assms(1), of 0 2] assms(2) by (simp del: set_line.simps)
  then have "follows 2 w" unfolding w_def by (rule follows_cong) simp_all
  then have f: "follows 2 (update_level 0 w)" "follows 0 (update_level 0 w)" "lines_ok (update_level 0 w)"
    using update_level_lines [OF w, of 0] by simp_all
  show ?thesis unfolding u_def [symmetric] w_def [symmetric]
    by (rule update_level_lines_inv [OF f(3)]) (use f in \<open>auto simp: less3\<close>)
qed

lemma xor_zero: "x XOR y = 0 \<Longrightarrow> (x :: i32) = y"
  by (auto simp: bit_eq_iff bit_xor_iff)

lemma write_gen_conf_lines:
  assumes "lines_inv s"
  shows "lines_inv (write_gen_conf now c v s)"
proof -
  note d = lines_invD [OF assms]
  define s1 where "s1 = s\<lparr>hconfig := v AND (ENABLE_CNF OR LEG_RT_CNF)\<rparr>"
  define s2 where "s2 = (if has_bits (hconfig s XOR hconfig s1) ENABLE_CNF
     then fold (\<lambda>i. arm i c) [0..<3] (s1\<lparr>counter_base := c, base_time := now\<rparr>) else s1)"
  have s2: "hpet_log s2 = hpet_log s" "length (timers s2) = 3" "isr s2 = isr s" "hconfig s2 = hconfig s1"
    "\<And>i. i < 3 \<Longrightarrow> tline (timers s2 ! i) = tline (timers s ! i)" "\<And>i. i < 3 \<Longrightarrow> tconfig (timers s2 ! i) = tconfig (timers s ! i)"
    using d(3) by (simp_all add: s2_def s1_def upt3)
  have e: "write_gen_conf now c v s = (if has_bits (hconfig s XOR hconfig s2) LEG_RT_CNF
     then update_level 1 (update_level 0 (hpet_emit (DeviceLowerIrq 8) (hpet_emit (DeviceLowerIrq 0) (set_line 1 False (set_line 0 False s2)))))
     else s2)"
    unfolding write_gen_conf_def Let_def s1_def [symmetric] s2_def [symmetric] by (rule refl)
  show ?thesis
  proof (cases "has_bits (hconfig s XOR hconfig s2) LEG_RT_CNF")
    case True
    have "lines_ok s2" by (rule lines_ok_cong [OF d(1)]) (simp_all add: s2 d(3))
    moreover have "follows 2 s2"
      using d(2) [of 2] s2 by (simp add: follows_def active_def route_def fsb_def)
    ultimately show ?thesis using reroute_lines True by (simp add: e)
  next
    case False
    then have "(hconfig s AND LEG_RT_CNF) XOR (hconfig s2 AND LEG_RT_CNF) = 0" by (simp add: bit.conj_xor_distrib2)
    then have "hconfig s AND LEG_RT_CNF = hconfig s2 AND LEG_RT_CNF" by (rule xor_zero)
    then have "lines_inv s = lines_inv s2" by (rule lines_inv_cong) (simp_all add: s2 d(3))
    then show ?thesis using False assms by (simp add: e)
  qed
qed

lemma update_levels_lines:
  assumes "lines_ok s"
  shows "lines_inv (fold update_level [0..<3] s)"
proof -
  note l0 = update_level_lines [OF assms, of 0]
  note l1 = update_level_lines [OF l0(1), of 1]
  have "follows 0 (update_level 1 (update_level 0 s))" "follows 1 (update_level 1 (update_level 0 s))"
    using l0(2) l1(2) l1(3) [of 0] by simp_all
  then show ?thesis unfolding upt3
    using update_level_lines_inv [OF l1(1), of 2] by (auto simp: less3)
qed

lemma timer_index_less:
  assumes "is_timer_offset off" shows "timer_index off < 3"
proof -
  let ?d = "off - 0x100"
  have d: "uint ?d = uint off - 0x100" using assms uint_sub_lem [of "0x100 :: i32" off] by (simp add: is_timer_offset_def)
  then have b: "0 \<le> uint ?d" "uint ?d < 96" using assms by (simp_all add: is_timer_offset_def)
  then have s: "sint ?d = uint ?d" using fits_sint [of 7 ?d] by (simp add: fits_less)
  have e: "sint (signed_drop_bit 5 ?d) = uint ?d div 32" by (simp add: sint_signed_drop_bit_eq s drop_bit_eq_div)
  have "uint ?d div 32 < 3" "0 \<le> uint ?d div 32" using b by (auto intro: pos_imp_zdiv_nonneg_iff [THEN iffD2])
  moreover have "word_of_int (sint (signed_drop_bit 5 ?d)) = signed_drop_bit 5 ?d" by simp
  then have "signed_drop_bit 5 ?d = word_of_int (uint ?d div 32)" by (simp only: e)
  moreover have "unat (word_of_int k :: i32) < 3" if "0 \<le> k" "k < 3" for k
    using that by (simp add: unsigned_of_int take_bit_int_eq_self)
  ultimately show ?thesis using \<open>uint ?d div 32 < 3\<close> \<open>0 \<le> uint ?d div 32\<close> by (simp add: timer_index_def)
qed

lemma write32_lines: "lines_inv s \<Longrightarrow> lines_inv (write32 now off v s)"
proof -
  assume i: "lines_inv s"
  note d = lines_invD [OF i]
  have ok: "lines_ok (s\<lparr>isr := x\<rparr>)" for x by (rule lines_ok_cong [OF d(1)]) simp_all
  have cb: "lines_inv (s\<lparr>counter_base := x\<rparr>)" for x using i lines_inv_cong [of "s\<lparr>counter_base := x\<rparr>" s] by simp
  have fs: "lines_inv (upd_timer (timer_index off) (\<lambda>t. if b then t\<lparr>fsb_address := v\<rparr> else t\<lparr>fsb_value := v\<rparr>) s)" for b
    using i lines_inv_cong [of "upd_timer (timer_index off) (\<lambda>t. if b then t\<lparr>fsb_address := v\<rparr> else t\<lparr>fsb_value := v\<rparr>) s" s] d(3) by simp
  show ?thesis
    using i cb fs update_levels_lines [OF ok] write_gen_conf_lines [OF i] write_config_lines [OF i timer_index_less]
      write_comparator_lines [OF i timer_index_less] fs [of True] fs [of False]
    by (simp add: write32_def Let_def)
qed

lemma hpet_reset_lines:
  assumes "lines_ok s"
  shows "lines_inv (hpet_reset s)"
proof -
  define u where "u = fold (\<lambda>i. set_line i False) [0..<3] s"
  have u: "lines_ok u" unfolding u_def upt3 using lines_ok_set_line assms by (simp del: set_line.simps)
  have "tline (timers u ! i) = None" if "i < 3" for i
  proof -
    note l0 = lines_ok_set_line [OF assms, of 0 False]
    note l1 = lines_ok_set_line [OF l0, of 1 False]
    from that show ?thesis
      using lines_okD(1) [OF assms] lines_okD(1) [OF l0] lines_okD(1) [OF l1]
      by (auto simp: u_def upt3 less3 set_line_tline simp del: set_line.simps)
  qed
  then show ?thesis using u
    by (simp add: hpet_reset_def Let_def u_def [symmetric] lines_inv_def lines_ok_def follows_def active_def reset_timer_def)
qed

section \<open>Matches\<close>

text \<open>
  While the counter runs, every timer has a next match, a counter value that equals the comparator in the
  width of the timer; while it stands there is none.
\<close>

definition match_ok :: "bool \<Rightarrow> htimer \<Rightarrow> bool" where
  "match_ok running t \<longleftrightarrow> (has_bits (tconfig t) TN_32MODE \<longrightarrow> snd (comparator t) = 0) \<and>
     (if running then \<exists>d. tdeadline t = Some d \<and> 0 \<le> d \<and> d mod width t = value64 (comparator t) else tdeadline t = None)"

abbreviation running :: "hpet \<Rightarrow> bool" where
  "running s \<equiv> has_bits (hconfig s) ENABLE_CNF"

definition match_inv :: "rat \<Rightarrow> hpet \<Rightarrow> bool" where
  "match_inv now s \<longleftrightarrow> length (timers s) = 3 \<and> 0 \<le> counter_base s \<and> (running s \<longrightarrow> base_time s \<le> now) \<and>
     (\<forall>i<3. match_ok (running s) (timers s ! i))"

lemma width_pos: "0 < width t"
  by (simp add: width_def)

lemma value64_bounds: "0 \<le> value64 h" "value64 h < 0x10000000000000000"
proof -
  obtain lo hi where h: "h = (lo, hi)" by (cases h)
  have "0 \<le> uint hi" "uint hi < 2 ^ 32" "0 \<le> uint lo" "uint lo < 2 ^ 32" using uint_lt2p [of hi] uint_lt2p [of lo] by simp_all
  then show "0 \<le> value64 h" "value64 h < 0x10000000000000000" unfolding h value64.simps by simp_all
qed

lemma comparator_less_width:
  assumes "match_ok b t" shows "value64 (comparator t) < width t"
proof -
  obtain lo hi where h: "comparator t = (lo, hi)" by (cases "comparator t")
  have "uint lo < 2 ^ 32" using uint_lt2p [of lo] by simp
  then show ?thesis using assms value64_bounds(2) [of "comparator t"] h by (auto simp: match_ok_def width_def)
qed

lemma value64_set64: "0 \<le> v \<Longrightarrow> v < 0x10000000000000000 \<Longrightarrow> value64 (set64 v) = v"
proof -
  assume v: "0 \<le> v" "v < 0x10000000000000000"
  have "v div 0x100000000 < 0x100000000" "0 \<le> v div 0x100000000" using v by (auto simp: div_less_iff_less_mult pos_imp_zdiv_nonneg_iff)
  then have "uint (word_of_int (v div 0x100000000) :: i32) = v div 0x100000000" by (simp add: unsigned_of_int take_bit_int_eq_self)
  moreover have "uint (word_of_int (v mod 0x100000000) :: i32) = v mod 0x100000000" by (simp add: unsigned_of_int take_bit_int_eq_self)
  ultimately show ?thesis using v \<open>0 \<le> v div 0x100000000\<close> \<open>v div 0x100000000 < 0x100000000\<close> by (simp add: set64_def js_rem_def)
qed

lemma set64_hi: "0 \<le> v \<Longrightarrow> v < 0x100000000 \<Longrightarrow> snd (set64 v) = 0"
  by (simp add: set64_def js_rem_def)

lemma counter_nonneg: "match_inv now s \<Longrightarrow> 0 \<le> counter now s"
  by (auto simp: match_inv_def counter_def TICKS_PER_MS_def)

lemma match_inv_mono: "match_inv now s \<Longrightarrow> now \<le> now' \<Longrightarrow> match_inv now' s"
  by (auto simp: match_inv_def)

lemma match_ok_tline [simp]: "match_ok b (t\<lparr>tline := x\<rparr>) = match_ok b t"
  by (simp add: match_ok_def width_def)

lemma match_inv_unlined: "unlined s = unlined s' \<Longrightarrow> match_inv now s = match_inv now s'"
proof -
  assume u: "unlined s = unlined s'"
  have "match_ok b (timers s ! i) = match_ok b (timers s' ! i)" if "i < length (timers s)" for i b
    using arg_cong [OF unlined_eqD(7) [OF u that], of "match_ok b"] by simp
  then show ?thesis using unlined_eqD(1-6) [OF u] unfolding match_inv_def by (cases "length (timers s) = 3") simp_all
qed

text \<open>Arming a timer: the next counter value that equals the comparator.\<close>

definition next_match :: "int \<Rightarrow> int \<Rightarrow> int \<Rightarrow> int" where
  "next_match c w v = c + (v - c) mod w"

lemma arm_deadline:
  assumes "running s" "i < length (timers s)" "0 \<le> c" "value64 (comparator (timers s ! i)) < width (timers s ! i)"
  shows "timers (arm i c s) ! i = (timers s ! i)\<lparr>tdeadline := Some (next_match c (width (timers s ! i)) (value64 (comparator (timers s ! i))))\<rparr>"
proof -
  let ?w = "width (timers s ! i)" and ?v = "value64 (comparator (timers s ! i))"
  have m: "0 \<le> c mod ?w" "c mod ?w < ?w" using width_pos by simp_all
  have e: "(?v - c) mod ?w = (?v - c mod ?w) mod ?w" by (simp add: mod_diff_right_eq)
  have "(?v - c) mod ?w = (if ?v - c mod ?w < 0 then ?v - c mod ?w + ?w else ?v - c mod ?w)"
  proof (cases "?v - c mod ?w < 0")
    case True
    have "(?v - c mod ?w) mod ?w = (?v - c mod ?w + ?w) mod ?w" by simp
    also have "\<dots> = ?v - c mod ?w + ?w" using True m value64_bounds(1) [of "comparator (timers s ! i)"] by (intro mod_pos_pos_trivial) linarith+
    finally show ?thesis using True e by simp
  next
    case False
    then show ?thesis unfolding e using m assms(4) by (simp add: mod_pos_pos_trivial)
  qed
  then show ?thesis using assms by (simp add: arm_def Let_def next_match_def js_rem_def)
qed

lemma next_match_spec:
  assumes "0 < w" "0 \<le> v" "v < w"
  shows "c \<le> next_match c w v" "next_match c w v mod w = v" "c \<le> d \<Longrightarrow> d mod w = v \<Longrightarrow> next_match c w v \<le> d"
proof -
  show "c \<le> next_match c w v" using assms(1) by (simp add: next_match_def)
  show "next_match c w v mod w = v" using assms by (simp add: next_match_def mod_add_right_eq)
  assume d: "c \<le> d" "d mod w = v"
  have "(v - c) mod w = (d - c) mod w" by (simp only: d(2) [symmetric] mod_diff_left_eq)
  also have "\<dots> \<le> d - c" using d(1) by (intro zmod_le_nonneg_dividend) simp
  finally show "next_match c w v \<le> d" by (simp add: next_match_def)
qed

subsection \<open>Every operation keeps the matches\<close>

lemma match_invD:
  assumes "match_inv now s"
  shows "length (timers s) = 3" "0 \<le> counter_base s" "running s \<Longrightarrow> base_time s \<le> now" "i < 3 \<Longrightarrow> match_ok (running s) (timers s ! i)"
  using assms by (auto simp: match_inv_def)

lemma arm_match_ok:
  assumes "i < length (timers s)" "0 \<le> c" "has_bits (tconfig (timers s ! i)) TN_32MODE \<Longrightarrow> snd (comparator (timers s ! i)) = 0"
  shows "match_ok (running s) (timers (arm i c s) ! i)"
proof (cases "running s")
  case True
  let ?t = "timers s ! i"
  have b: "value64 (comparator ?t) < width ?t" "0 \<le> value64 (comparator ?t)"
    using assms(3) comparator_less_width [of False "?t\<lparr>tdeadline := None\<rparr>"] value64_bounds(1)
    by (auto simp: match_ok_def width_def)
  have "match_ok True (?t\<lparr>tdeadline := Some (next_match c (width ?t) (value64 (comparator ?t)))\<rparr>)"
    using next_match_spec [OF width_pos b(2,1), of c] assms(2,3) by (auto simp: match_ok_def width_def)
  then show ?thesis using arm_deadline [OF True assms(1,2) b(1)] True by simp
next
  case False
  then show ?thesis using assms(1,3) by (auto simp: arm_def match_ok_def)
qed

lemma arm_match_inv:
  assumes "length (timers s) = 3" "0 \<le> counter_base s" "running s \<Longrightarrow> base_time s \<le> now" "i < 3" "0 \<le> c"
    "has_bits (tconfig (timers s ! i)) TN_32MODE \<Longrightarrow> snd (comparator (timers s ! i)) = 0"
    "\<And>j. j < 3 \<Longrightarrow> j \<noteq> i \<Longrightarrow> match_ok (running s) (timers s ! j)"
  shows "match_inv now (arm i c s)"
  unfolding match_inv_def
proof (intro conjI allI impI)
  fix j :: nat assume j: "j < 3"
  show "match_ok (running (arm i c s)) (timers (arm i c s) ! j)"
    using j assms arm_match_ok [of i s c] by (cases "j = i") simp_all
qed (use assms in simp_all)

lemma update_level_unlined: "i < length (timers s) \<Longrightarrow> unlined (update_level i s) = unlined s"
  by (simp add: update_level_def del: set_line.simps)

lemma match_inv_isr [simp]: "match_inv now (s\<lparr>isr := x\<rparr>) = match_inv now s"
  by (simp add: match_inv_def)

lemma fire_unlined: "i < length (timers s) \<Longrightarrow> unlined ((fire i s)\<lparr>isr := 0\<rparr>) = unlined (s\<lparr>isr := 0\<rparr>)"
proof -
  assume i: "i < length (timers s)"
  have u: "unlined (x\<lparr>isr := 0\<rparr>) = (unlined x)\<lparr>isr := 0\<rparr>" for x by (simp add: unlined_def)
  have "i < length (timers (set_line i True s))" using set_line_frame(6) [OF i, of True] i by simp
  then show ?thesis unfolding u using i by (simp add: fire_def Let_def unlined_def [of "s\<lparr>isr := isr s OR push_bit i 1\<rparr>"]
      unlined_def [of s] del: set_line.simps push_bit_of_1)
qed

lemma fire_frame:
  assumes "i < length (timers s)"
  shows "match_inv now (fire i s) = match_inv now s" "length (timers (fire i s)) = length (timers s)"
    "hconfig (fire i s) = hconfig s" "counter_base (fire i s) = counter_base s" "base_time (fire i s) = base_time s"
    "j < length (timers s) \<Longrightarrow> (timers (fire i s) ! j)\<lparr>tline := None\<rparr> = (timers s ! j)\<lparr>tline := None\<rparr>"
  using match_inv_unlined [OF fire_unlined [OF assms], of now] unlined_eqD [OF fire_unlined [OF assms]] by simp_all

text \<open>Moving on keeps the congruence of deadline and comparator.\<close>

lemma move_on_match:
  assumes "match_inv now s" "running s" "i < 3" "tdeadline (timers s ! i) = Some d" "d \<le> c"
  shows "match_inv now (move_on i c s)"
proof -
  note m = match_invD [OF assms(1)]
  let ?t = "timers s ! i" and ?p = "value64 (tperiod (timers s ! i))"
  have t: "0 \<le> d" "d mod width ?t = value64 (comparator ?t)" "has_bits (tconfig ?t) TN_32MODE \<Longrightarrow> snd (comparator ?t) = 0"
    using m(4) [OF assms(3)] assms(2,4) by (auto simp: match_ok_def)
  have "match_ok True (timers (move_on i c s) ! i)"
  proof (cases "has_bits (tconfig ?t) TN_TYPE_PERIODIC \<and> ?p \<noteq> 0")
    case True
    define n where "n = (c - d) div ?p + 1"
    have p: "0 < ?p" using True value64_bounds(1) [of "tperiod ?t"] by linarith
    then have n: "0 \<le> n" using assms(5) by (simp add: n_def pos_imp_zdiv_nonneg_iff)
    define x where "x = (value64 (comparator ?t) + n * ?p) mod width ?t"
    have np: "0 \<le> n * ?p" using n p by simp
    have "x = (d mod width ?t + n * ?p) mod width ?t" by (simp only: x_def t(2))
    then have x: "x = (d + n * ?p) mod width ?t" by (simp only: mod_add_left_eq)
    have b: "0 \<le> x" "x < width ?t" using width_pos by (simp_all add: x_def)
    then have b64: "x < 0x10000000000000000" by (auto simp: width_def split: if_splits)
    have "timers (move_on i c s) ! i = ?t\<lparr>tdeadline := Some (d + n * ?p), comparator := set64 x\<rparr>"
    proof -
      have "js_rem (value64 (comparator ?t) + n * ?p) (width ?t) = x"
        using np value64_bounds(1) [of "comparator ?t"] by (simp add: js_rem_def x_def)
      then show ?thesis using True assms(3,4) m(1) by (simp add: move_on_def Let_def n_def)
    qed
    moreover have "snd (set64 x) = 0" if "has_bits (tconfig ?t) TN_32MODE"
      using b that by (intro set64_hi) (simp_all add: width_def)
    ultimately show ?thesis using value64_set64 [OF b(1) b64] x t(1) np by (simp add: match_ok_def width_def)
  next
    case False
    then have "timers (move_on i c s) ! i = ?t\<lparr>tdeadline := Some (d + width ?t)\<rparr>"
      using assms(3,4) m(1) by (auto simp: move_on_def Let_def)
    moreover have "(d + width ?t) mod width ?t = value64 (comparator ?t)" using t(2) by simp
    ultimately show ?thesis using t width_pos [of ?t] by (simp add: match_ok_def width_def)
  qed
  moreover have "match_ok True (timers (move_on i c s) ! j)" if "j < 3" "j \<noteq> i" for j
    using that m assms(2) by simp
  ultimately have "match_ok True (timers (move_on i c s) ! j)" if "j < 3" for j using that by (cases "j = i") auto
  then show ?thesis using m assms(2) by (simp add: match_inv_def)
qed

lemma match_timer_match:
  assumes "match_inv now s" "running s" "i < 3"
  shows "match_inv now (match_timer c i s)" "running (match_timer c i s)"
proof -
  note m = match_invD [OF assms(1)]
  have f: "match_inv now (fire i s)" "running (fire i s)" "length (timers (fire i s)) = 3" using assms m fire_frame [of i s] by simp_all
  have "tdeadline (timers (fire i s) ! i) = tdeadline (timers s ! i)"
    using fire_frame(6) [of i s i] assms(3) m(1) tline_None_eqD(6) by simp
  then show "match_inv now (match_timer c i s)" "running (match_timer c i s)"
    using move_on_match [OF f(1,2) assms(3)] f assms by (auto simp: match_timer_def split: option.split)
qed

lemma hpet_timer_match: "match_inv now s \<Longrightarrow> match_inv now (snd (hpet_timer t s))"
proof (cases "running s")
  case True
  assume i: "match_inv now s"
  note a = match_timer_match [OF i True, of 0 "counter t s"]
  note b = match_timer_match [OF a, of 1 "counter t s"]
  show ?thesis unfolding hpet_timer_state [OF True] upt3 using match_timer_match [OF b, of 2] by simp
qed (simp add: hpet_timer_def)

lemma update_level_len: "i < length (timers s) \<Longrightarrow> length (timers (update_level i s)) = length (timers s)"
  using unlined_eqD(6) [OF update_level_unlined] by blast

lemma write_config_match:
  assumes "match_inv now s" "i < 3" "0 \<le> c"
  shows "match_inv now (write_config i c v s)"
proof -
  note m = match_invD [OF assms(1)]
  define s1 where "s1 = upd_timer i (\<lambda>t. t\<lparr>tconfig := v AND TN_CONF_WRITABLE\<rparr>) s"
  define s2 where "s2 = (if has_bits (tconfig (timers s1 ! i)) TN_32MODE
     then upd_timer i (\<lambda>t. t\<lparr>comparator := set_half True 0 (comparator t), tperiod := set_half True 0 (tperiod t)\<rparr>) s1 else s1)"
  have s2: "length (timers s2) = 3" "hconfig s2 = hconfig s" "counter_base s2 = counter_base s" "base_time s2 = base_time s"
    "\<And>j. j < 3 \<Longrightarrow> j \<noteq> i \<Longrightarrow> timers s2 ! j = timers s ! j"
    using m(1) assms(2) by (simp_all add: s2_def s1_def set_half_def)
  have z2: "has_bits (tconfig (timers s2 ! i)) TN_32MODE \<Longrightarrow> snd (comparator (timers s2 ! i)) = 0"
    using m(1) assms(2) by (cases "has_bits (tconfig (timers s1 ! i)) TN_32MODE") (simp_all add: s2_def s1_def set_half_def)
  have u: "unlined (update_level i s2) = unlined s2" using s2(1) assms(2) by (simp add: update_level_unlined)
  note e = unlined_eqD [OF u]
  have w: "write_config i c v s = arm i c (update_level i s2)" by (simp add: write_config_def Let_def s1_def s2_def)
  have tm: "(timers (update_level i s2) ! j)\<lparr>tline := None\<rparr> = (timers s2 ! j)\<lparr>tline := None\<rparr>" if "j < 3" for j
    using e(6) e(7) [of j] s2(1) that by simp
  have "match_ok (running s) (timers (update_level i s2) ! j)" if "j < 3" "j \<noteq> i" for j
    using arg_cong [OF tm [OF that(1)], of "match_ok (running s)"] m(4) [OF that(1)] s2(5) [OF that] by simp
  moreover have "has_bits (tconfig (timers (update_level i s2) ! i)) TN_32MODE \<Longrightarrow> snd (comparator (timers (update_level i s2) ! i)) = 0"
    using tline_None_eqD(1,2) [OF tm [OF assms(2)]] z2 by simp
  ultimately show ?thesis unfolding w using assms(2,3) m e s2 by (intro arm_match_inv) simp_all
qed

lemma write_comparator_match:
  assumes "match_inv now s" "i < 3" "0 \<le> c"
  shows "match_inv now (write_comparator i high c v s)"
proof -
  note m = match_invD [OF assms(1)]
  have arm: "match_inv now (arm i c (upd_timer i (\<lambda>_. t) s))" if "has_bits (tconfig t) TN_32MODE \<Longrightarrow> snd (comparator t) = 0" for t
    using that assms(2,3) m by (intro arm_match_inv) simp_all
  have z: "has_bits (tconfig (timers s ! i)) TN_32MODE \<Longrightarrow> snd (comparator (timers s ! i)) = 0"
    using m(4) [OF assms(2)] by (simp add: match_ok_def)
  have c: "(x AND - 65) AND TN_32MODE = x AND TN_32MODE" for x :: i32 by (simp add: and.assoc)
  show ?thesis
    unfolding write_comparator_def Let_def using assms(1) z
    by (auto intro!: arm simp: set_half_def c)
qed

lemma write_gen_conf_match:
  assumes "match_inv now s"
  shows "match_inv now (write_gen_conf now (counter now s) v s)"
proof -
  note m = match_invD [OF assms]
  define c where "c = counter now s"
  have c: "0 \<le> c" unfolding c_def by (rule counter_nonneg [OF assms])
  define s1 where "s1 = s\<lparr>hconfig := v AND (ENABLE_CNF OR LEG_RT_CNF)\<rparr>"
  define s2 where "s2 = (if has_bits (hconfig s XOR hconfig s1) ENABLE_CNF
     then fold (\<lambda>i. arm i c) [0..<3] (s1\<lparr>counter_base := c, base_time := now\<rparr>) else s1)"
  have s2: "match_inv now s2"
  proof (cases "has_bits (hconfig s XOR hconfig s1) ENABLE_CNF")
    case True
    let ?s = "s1\<lparr>counter_base := c, base_time := now\<rparr>"
    have z: "has_bits (tconfig (timers ?s ! i)) TN_32MODE \<Longrightarrow> snd (comparator (timers ?s ! i)) = 0" if "i < 3" for i
      using m(4) [OF that] by (simp add: match_ok_def s1_def)
    have l: "length (timers ?s) = 3" using m(1) by (simp add: s1_def)
    have ne: "0 < length (timers ?s)" using l by simp
    have "match_ok (running s1) (timers (arm 2 c (arm 1 c (arm 0 c ?s))) ! i)" if "i < 3" for i
    proof -
      have "match_ok (running s1) (timers (arm 0 c ?s) ! 0)" using arm_match_ok [OF ne c] z [of 0] by simp
      moreover have "match_ok (running s1) (timers (arm 1 c (arm 0 c ?s)) ! 1)" using arm_match_ok [of 1 "arm 0 c ?s" c] l z [of 1] c by simp
      moreover have "match_ok (running s1) (timers (arm 2 c (arm 1 c (arm 0 c ?s))) ! 2)"
        using arm_match_ok [of 2 "arm 1 c (arm 0 c ?s)" c] l z [of 2] c by simp
      moreover have "i = 0 \<or> i = 1 \<or> i = 2" using that by auto
      ultimately show ?thesis using l by (elim disjE) simp_all
    qed
    then show ?thesis using True l c by (simp add: s2_def upt3 match_inv_def)
  next
    case False
    then have "(hconfig s AND ENABLE_CNF) XOR (hconfig s1 AND ENABLE_CNF) = 0" by (simp add: bit.conj_xor_distrib2)
    then have "hconfig s AND ENABLE_CNF = hconfig s1 AND ENABLE_CNF" by (rule xor_zero)
    then show ?thesis using False assms by (simp add: s2_def match_inv_def s1_def)
  qed
  let ?r = "update_level 1 (update_level 0 (hpet_emit (DeviceLowerIrq 8) (hpet_emit (DeviceLowerIrq 0) (set_line 1 False (set_line 0 False s2)))))"
  have len: "length (timers s2) = 3" by (rule match_invD(1) [OF s2])
  then have len0: "length (timers (set_line 0 False s2)) = 3" by (simp add: set_line_frame(6) del: set_line.simps)
  then have len1: "length (timers (set_line 1 False (set_line 0 False s2))) = 3" by (simp add: set_line_frame(6) del: set_line.simps)
  have "unlined ?r = unlined s2"
    using len len0 len1 by (simp add: update_level_unlined update_level_len del: set_line.simps)
  then have "match_inv now ?r" using match_inv_unlined s2 by blast
  moreover have "write_gen_conf now c v s = (if has_bits (hconfig s XOR hconfig s2) LEG_RT_CNF then ?r else s2)"
    unfolding write_gen_conf_def Let_def s1_def [symmetric] s2_def [symmetric] by (rule refl)
  ultimately show ?thesis using s2 by (simp add: c_def)
qed

lemma write32_match: "match_inv now s \<Longrightarrow> match_inv now (write32 now off v s)"
proof -
  assume i: "match_inv now s"
  note m = match_invD [OF i] and c = counter_nonneg [OF i]
  have cb: "match_inv now (s\<lparr>counter_base := x\<rparr>)" if "0 \<le> x" for x using i that by (simp add: match_inv_def)
  have nn: "0 \<le> js_rem (counter_base s) 0x100000000 + uint v * 0x100000000" "0 \<le> counter_base s div 0x100000000 * 0x100000000 + uint v"
    using m(2) by (simp_all add: js_rem_def pos_imp_zdiv_nonneg_iff)
  have fs: "match_inv now (upd_timer (timer_index off) (\<lambda>t. if b then t\<lparr>fsb_address := v\<rparr> else t\<lparr>fsb_value := v\<rparr>) s)" for b
  proof -
    have "match_ok r (t\<lparr>fsb_address := v\<rparr>) = match_ok r t" "match_ok r (t\<lparr>fsb_value := v\<rparr>) = match_ok r t" for r t by (simp_all add: match_ok_def width_def)
    then show ?thesis using m by (simp add: match_inv_def)
  qed
  let ?u = "s\<lparr>isr := isr s AND NOT v\<rparr>"
  have "unlined (update_level 2 (update_level 1 (update_level 0 ?u))) = unlined ?u"
    using m(1) by (simp add: update_level_unlined update_level_len)
  then have "match_inv now (update_level 2 (update_level 1 (update_level 0 ?u))) = match_inv now ?u" by (rule match_inv_unlined)
  then have st: "match_inv now (fold update_level [0..<3] ?u)" unfolding upt3 using i by simp
  show ?thesis
    using i cb [OF nn(1)] cb [OF nn(2)] fs [of True] fs [of False] st write_gen_conf_match [OF i] write_config_match [OF i timer_index_less c]
      write_comparator_match [OF i timer_index_less c]
    by (simp add: write32_def Let_def)
qed

lemma hpet_reset_match: "length (timers s) = 3 \<Longrightarrow> match_inv now (hpet_reset s)"
proof -
  assume l: "length (timers s) = 3"
  then have l0: "length (timers (set_line 0 False s)) = 3" by (simp add: set_line_frame(6) del: set_line.simps)
  then have l1: "length (timers (set_line 1 False (set_line 0 False s))) = 3" by (simp add: set_line_frame(6) del: set_line.simps)
  then have "length (timers (set_line 2 False (set_line 1 False (set_line 0 False s)))) = 3" by (simp add: set_line_frame(6) del: set_line.simps)
  then show ?thesis by (simp add: hpet_reset_def Let_def upt3 match_inv_def match_ok_def reset_timer_def del: set_line.simps)
qed

section \<open>Reachable states\<close>

text \<open>An event and the time since the one before; a byte write reads the clock twice.\<close>

datatype hpet_event = HTimer | HWrite32 i32 i32 | HWrite8 rat i32 i32 | HReset

fun hpet_step :: "rat \<times> hpet_event \<Rightarrow> rat \<times> hpet \<Rightarrow> rat \<times> hpet" where
  "hpet_step (dt, HTimer) (t, s) = (t + dt, snd (hpet_timer (t + dt) s))"
| "hpet_step (dt, HWrite32 off v) (t, s) = (t + dt, write32 (t + dt) off v s)"
| "hpet_step (dt, HWrite8 dt' off v) (t, s) = (t + dt + dt', hpet_write8 (t + dt) (t + dt + dt') off v s)"
| "hpet_step (dt, HReset) (t, s) = (t + dt, hpet_reset s)"

fun hpet_ok :: "rat \<times> hpet_event \<Rightarrow> bool" where
  "hpet_ok (dt, HWrite8 dt' _ _) = (0 \<le> dt \<and> 0 \<le> dt')"
| "hpet_ok (dt, _) = (0 \<le> dt)"

fun hpet_inv :: "rat \<times> hpet \<Rightarrow> bool" where
  "hpet_inv (t, s) = (lines_inv s \<and> match_inv t s)"

lemma HPET_inv: "hpet_inv (0, HPET msi)"
proof -
  let ?s = "\<lparr>hconfig = 0, isr = 0, counter_base = 0, base_time = 0,
     timers = replicate 3 \<lparr>tconfig = 0, comparator = (0, 0), tperiod = (0, 0), fsb_value = 0, fsb_address = 0,
       tdeadline = None, tline = None\<rparr>, has_msi = msi, hpet_log = []\<rparr>"
  have "lines_ok ?s" by (rule lines_okI) (auto simp: asserted_def nth_replicate)
  then show ?thesis using hpet_reset_lines hpet_reset_match [of ?s] by (simp add: HPET_def)
qed

lemma hpet_inv_step: "hpet_ok e \<Longrightarrow> hpet_inv x \<Longrightarrow> hpet_inv (hpet_step e x)"
proof (induction e x rule: hpet_step.induct)
  case (1 dt t s)
  then show ?case using hpet_timer_lines hpet_timer_match match_inv_mono [of t s "t + dt"] by simp
next
  case (2 dt off v t s)
  then show ?case using write32_lines write32_match match_inv_mono [of t s "t + dt"] by simp
next
  case (3 dt dt' off v t s)
  then have "match_inv (t + dt + dt') s" using match_inv_mono [of t s "t + dt + dt'"] by simp
  then show ?case using 3 write32_lines write32_match by (simp add: hpet_write8_def Let_def)
next
  case (4 dt t s)
  then show ?case using hpet_reset_lines hpet_reset_match lines_invD by simp
qed

interpretation hpetm: device_machine hpet_ok hpet_step "(0, HPET msi)" hpet_inv for msi
  by unfold_locales (simp_all only: HPET_inv hpet_inv_step)

text \<open>
  Claim C19. In every reachable state of the HPET, each line of a timer is asserted, as the calls made
  so far leave it, exactly when the timer has recorded it, and the lines follow the level-triggered
  interrupts: a timer whose interrupt is not active (its status bit clear, disabled, edge triggered or delivered
  by messages) asserts no line, and one whose interrupt is active asserts exactly the line of its present
  route, if the route exists.
\<close>

theorem hpet_lines:
  assumes "reachable hpet_ok hpet_step (0, HPET msi) (t, s)" "i < 3" "l \<in> lines_of i"
  shows "(asserted i l (hpet_log s) \<longleftrightarrow> tline (timers s ! i) = Some l) \<and>
    (\<not> active i s \<longrightarrow> \<not> asserted i l (hpet_log s)) \<and>
    (active i s \<and> route i s \<noteq> None \<longrightarrow> (asserted i l (hpet_log s) \<longleftrightarrow> route i s = Some l))"
proof -
  have i: "lines_inv s" using hpetm.reachable_inv [OF assms(1)] by simp
  show ?thesis using lines_okD(2) [OF lines_invD(1) [OF i] assms(2,3)] lines_invD(2) [OF i assms(2)] by (auto simp: follows_def)
qed

text \<open>
  In every reachable state of the HPET, while the main counter runs each timer has a next match, a
  counter value that equals its comparator in the timer's width, and there is none while the counter
  stands. Arming a timer chooses the first such value from the present counter on.
\<close>

theorem hpet_next_match:
  assumes "reachable hpet_ok hpet_step (0, HPET msi) (t, s)" "i < 3"
  shows "case tdeadline (timers s ! i) of
      None \<Rightarrow> \<not> running s
    | Some d \<Rightarrow> running s \<and> d mod width (timers s ! i) = value64 (comparator (timers s ! i)) \<and>
        (\<exists>d. tdeadline (timers (arm i (counter t s) s) ! i) = Some d \<and> d mod width (timers s ! i) = value64 (comparator (timers s ! i)) \<and>
           counter t s \<le> d \<and> (\<forall>d' \<ge> counter t s. d' mod width (timers s ! i) = value64 (comparator (timers s ! i)) \<longrightarrow> d \<le> d'))"
proof -
  have m: "match_inv t s" using hpetm.reachable_inv [OF assms(1)] by simp
  note d = match_invD [OF m]
  let ?t = "timers s ! i"
  have ok: "match_ok (running s) ?t" by (rule d(4) [OF assms(2)])
  note b = comparator_less_width [OF ok] value64_bounds(1) [of "comparator ?t"]
  show ?thesis
  proof (cases "running s")
    case True
    have "timers (arm i (counter t s) s) ! i = ?t\<lparr>tdeadline := Some (next_match (counter t s) (width ?t) (value64 (comparator ?t)))\<rparr>"
      using arm_deadline [OF True _ counter_nonneg [OF m] b(1)] d(1) assms(2) by simp
    then show ?thesis using next_match_spec [OF width_pos b(2,1), of "counter t s"] ok True by (auto simp: match_ok_def)
  next
    case False
    then show ?thesis using ok by (simp add: match_ok_def)
  qed
qed

text \<open>
  A level-triggered timer on I/O APIC input 20, with comparator 100, one millisecond after the counter was
  started.
\<close>

definition level_events :: "(rat \<times> hpet_event) list" where
  "level_events = [(0, HWrite32 0x100 0x2806), (0, HWrite32 0x108 100), (0, HWrite32 0x10C 0), (0, HWrite32 0x10 1), (1, HTimer)]"

abbreviation input20 :: hline where
  "input20 \<equiv> \<lparr>line_irq = -1, line_gsi = 20\<rparr>"

lemma level_events_run:
  "let s = snd (run hpet_step level_events (0, HPET True))
   in active 0 s \<and> route 0 s = Some input20 \<and> tdeadline (timers s ! 0) = Some (100 + 2 ^ 64)"
  by code_simp

lemma level_events_state:
  "active 0 (snd (run hpet_step level_events (0, HPET True)))"
  "route 0 (snd (run hpet_step level_events (0, HPET True))) = Some input20"
  "tdeadline (timers (snd (run hpet_step level_events (0, HPET True))) ! 0) = Some (100 + 2 ^ 64)"
  using level_events_run by (simp_all add: Let_def)

lemma level_events_reachable:
  "reachable hpet_ok hpet_step (0, HPET True) (fst (run hpet_step level_events (0, HPET True)), snd (run hpet_step level_events (0, HPET True)))"
  unfolding prod.collapse by (rule reachable_run [OF reachable.start]) (simp add: level_events_def)

theorem hpet_lines_witness: "asserted 0 input20 (hpet_log (snd (run hpet_step level_events (0, HPET True))))"
  using hpet_lines [OF level_events_reachable, of 0 input20] level_events_state(1,2) by (auto simp: lines_of_def)

theorem hpet_next_match_witness:
  "running (snd (run hpet_step level_events (0, HPET True)))"
  using hpet_next_match [OF level_events_reachable, of 0] level_events_state(3) by simp

text \<open>
  Changing the route of an active interrupt to an input the timer does not have leaves the old input
  asserted, until the status is cleared.
\<close>

lemma hpet_lost_route_keeps_line:
  "let s = snd (run hpet_step (level_events @ [(0, HWrite32 0x100 0x0A06)]) (0, HPET True))
   in route 0 s = None \<and> asserted 0 input20 (hpet_log s)"
  by code_simp

section \<open>Periodic timers\<close>

text \<open>The deadline of a periodic timer after a service at counter \<open>c\<close>: the first of \<open>d\<close>, \<open>d + p\<close>, ... above \<open>c\<close>.\<close>

definition advance :: "int \<Rightarrow> int \<Rightarrow> int \<Rightarrow> int" where
  "advance p d c = d + max 0 ((c - d) div p + 1) * p"

lemma advance_step: "0 < p \<Longrightarrow> advance p d c = (if d \<le> c then d + ((c - d) div p + 1) * p else d)"
proof -
  assume p: "0 < p"
  have "0 \<le> (c - d) div p" if "d \<le> c" using that p by (simp add: pos_imp_zdiv_nonneg_iff)
  moreover have "(c - d) div p < 0" if "\<not> d \<le> c" using that p by (simp add: div_neg_pos_less0)
  ultimately show ?thesis by (auto simp: advance_def)
qed

lemma advance_advance: "0 < p \<Longrightarrow> c \<le> c' \<Longrightarrow> advance p (advance p d c) c' = advance p d c'"
proof -
  assume p: "0 < p" and c: "c \<le> c'"
  define k where "k = max 0 ((c - d) div p + 1)"
  have "(c' - (d + k * p)) div p = (c' - d) div p - k" 
  proof -
    have "c' - (d + k * p) = (c' - d) + (- k) * p" by (simp add: algebra_simps)
    moreover have "((c' - d) + (- k) * p) div p = - k + (c' - d) div p" using p by (intro div_mult_self1) simp
    ultimately have "(c' - (d + k * p)) div p = - k + (c' - d) div p" by (simp only:)
    then show ?thesis by (simp only: uminus_add_conv_diff)
  qed
  moreover have "(c - d) div p \<le> (c' - d) div p" using c p by (intro zdiv_mono1) simp_all
  ultimately show ?thesis by (simp add: advance_def k_def [symmetric]) (auto simp: k_def algebra_simps max_def)
qed

lemma advance_least:
  assumes "0 < p" "d \<le> c"
  shows "c < advance p d c" "advance p d c \<le> c + p"
proof -
  define q where "q = (c - d) div p"
  define r where "r = (c - d) mod p"
  have "q * p + r = c - d" "0 \<le> r" "r < p" using assms(1) by (simp_all add: q_def r_def)
  moreover have "advance p d c = d + q * p + p" using assms by (simp add: advance_step q_def algebra_simps)
  ultimately show "c < advance p d c" "advance p d c \<le> c + p" by linarith+
qed

text \<open>What a service does to the other timers, and to a periodic timer.\<close>

lemma match_timer_frame:
  assumes "j < 3" "length (timers s) = 3"
  shows "length (timers (match_timer c j s)) = 3" "hconfig (match_timer c j s) = hconfig s"
    "counter_base (match_timer c j s) = counter_base s" "base_time (match_timer c j s) = base_time s"
    "i < 3 \<Longrightarrow> i \<noteq> j \<Longrightarrow> (timers (match_timer c j s) ! i)\<lparr>tline := None\<rparr> = (timers s ! i)\<lparr>tline := None\<rparr>"
  using assms fire_frame [of j s] by (simp_all add: match_timer_def split: option.split)

definition periodic_timer :: "nat \<Rightarrow> int \<Rightarrow> int \<Rightarrow> hpet \<Rightarrow> bool" where
  "periodic_timer i p d s \<longleftrightarrow> length (timers s) = 3 \<and> running s \<and> has_bits (tconfig (timers s ! i)) TN_TYPE_PERIODIC \<and>
     value64 (tperiod (timers s ! i)) = p \<and> tdeadline (timers s ! i) = Some d"

lemma periodic_timer_cong:
  assumes "periodic_timer i p d s" "length (timers s') = 3" "hconfig s' = hconfig s" "(timers s' ! i)\<lparr>tline := None\<rparr> = (timers s ! i)\<lparr>tline := None\<rparr>"
  shows "periodic_timer i p d s'"
  using assms tline_None_eqD [OF assms(4)] by (simp add: periodic_timer_def)

lemma match_timer_periodic:
  assumes "periodic_timer i p d s" "i < 3" "j < 3" "0 < p"
  shows "periodic_timer i p (if j = i then advance p d c else d) (match_timer c j s)"
proof -
  have l: "length (timers s) = 3" using assms(1) by (simp add: periodic_timer_def)
  show ?thesis
  proof (cases "j = i")
    case False
    then show ?thesis using periodic_timer_cong [OF assms(1)] match_timer_frame [OF assms(3) l] assms(2) by simp
  next
    case j: True
    show ?thesis
    proof (cases "d \<le> c")
      case True
      have "periodic_timer i p d (fire i s)"
        using periodic_timer_cong [OF assms(1)] fire_frame [of i s] l assms(2) by simp
      then have "periodic_timer i p (advance p d c) (move_on i c (fire i s))"
        using True assms(2,4) by (simp add: periodic_timer_def move_on_def Let_def advance_step)
      moreover have "match_timer c i s = move_on i c (fire i s)" using assms(1) True by (simp add: match_timer_def periodic_timer_def)
      ultimately show ?thesis using j by simp
    next
      case False
      then have "match_timer c i s = s" using assms(1) by (simp add: match_timer_def periodic_timer_def)
      then show ?thesis using j False assms(1,4) by (simp add: advance_step)
    qed
  qed
qed

lemma hpet_timer_periodic:
  assumes "periodic_timer i p d s" "i < 3" "0 < p"
  shows "periodic_timer i p (advance p d (counter now s)) (snd (hpet_timer now s))" "counter t (snd (hpet_timer now s)) = counter t s"
proof -
  have r: "running s" "length (timers s) = 3" using assms(1) by (simp_all add: periodic_timer_def)
  let ?m = "match_timer (counter now s)"
  note a = match_timer_periodic [OF assms(1,2), of 0 "counter now s"]
  note b = match_timer_periodic [OF a assms(2), of 1 "counter now s"]
  note c = match_timer_periodic [OF b assms(2), of 2 "counter now s"]
  have l: "length (timers (?m 0 s)) = 3" "length (timers (?m 1 (?m 0 s))) = 3" using r(2) by (simp_all add: match_timer_frame)
  show "periodic_timer i p (advance p d (counter now s)) (snd (hpet_timer now s))"
    unfolding hpet_timer_state [OF r(1)] upt3 using c assms(2,3) by (auto simp: less3)
  show "counter t (snd (hpet_timer now s)) = counter t s"
    unfolding hpet_timer_state [OF r(1)] upt3 using r(2) l by (simp add: counter_def match_timer_frame)
qed

definition hpet_serve :: "rat list \<Rightarrow> hpet \<Rightarrow> hpet" where
  "hpet_serve ts s = fold (\<lambda>t s. snd (hpet_timer t s)) ts s"

lemma counter_mono: "t \<le> t' \<Longrightarrow> counter t s \<le> counter t' s"
  by (auto simp: counter_def TICKS_PER_MS_def intro!: floor_mono mult_right_mono)

lemma hpet_serve_periodic:
  assumes "i < 3" "0 < p"
  shows "periodic_timer i p d s \<Longrightarrow> sorted (ts @ [z]) \<Longrightarrow>
    periodic_timer i p (advance p d (counter z s)) (hpet_serve (ts @ [z]) s)"
proof (induction ts arbitrary: d s)
  case Nil
  then show ?case using hpet_timer_periodic(1) [OF _ assms] by (simp add: hpet_serve_def)
next
  case (Cons t ts)
  note p = hpet_timer_periodic [OF Cons.prems(1) assms]
  have "counter t s \<le> counter z s" using Cons.prems(2) by (intro counter_mono) simp
  then show ?case
    using Cons.IH [OF p(1), of t] Cons.prems(2) advance_advance [OF assms(2)] p(2) [of z t] by (simp add: hpet_serve_def)
qed

text \<open>
  Periodic timers do not drift and missed periods coalesce: however a running HPET is served, at any times in order,
  the next match of a periodic timer after the last service is the first of its matches (its deadline
  before the services plus whole periods) that lies above the main counter.
\<close>

theorem hpet_periodic:
  assumes "length (timers s) = 3" "running s" "i < 3" "has_bits (tconfig (timers s ! i)) TN_TYPE_PERIODIC"
    "p = value64 (tperiod (timers s ! i))" "p \<noteq> 0" "tdeadline (timers s ! i) = Some d" "sorted (ts @ [z])"
  shows "\<exists>k \<ge> 0. tdeadline (timers (hpet_serve (ts @ [z]) s) ! i) = Some (d + k * p) \<and> counter z s < d + k * p \<and>
    (k \<noteq> 0 \<longrightarrow> d + (k - 1) * p \<le> counter z s)"
proof -
  have p: "0 < p" using assms(5,6) value64_bounds(1) [of "tperiod (timers s ! i)"] by linarith
  have "periodic_timer i p d s" using assms by (simp add: periodic_timer_def)
  then have t: "tdeadline (timers (hpet_serve (ts @ [z]) s) ! i) = Some (advance p d (counter z s))"
    using hpet_serve_periodic [OF assms(3) p _ assms(8)] by (simp add: periodic_timer_def)
  define k where "k = max 0 ((counter z s - d) div p + 1)"
  have a: "advance p d (counter z s) = d + k * p" by (simp add: advance_def k_def)
  show ?thesis
  proof (intro exI conjI impI)
    show "0 \<le> k" by (simp add: k_def)
    show "tdeadline (timers (hpet_serve (ts @ [z]) s) ! i) = Some (d + k * p)" using t a by simp
    have "counter z s < advance p d (counter z s)"
      using advance_least(1) [OF p, of d "counter z s"] advance_step [OF p, of d "counter z s"] by (cases "d \<le> counter z s") auto
    then show "counter z s < d + k * p" by (simp only: a)
    assume "k \<noteq> 0"
    then have "d \<le> counter z s" using advance_step [OF p, of d "counter z s"] a p by (auto split: if_splits)
    from advance_least(2) [OF p this] have "d + k * p \<le> counter z s + p" by (simp only: a)
    then show "d + (k - 1) * p \<le> counter z s" by (simp add: algebra_simps)
  qed
qed

text \<open>A periodic timer with a period of 1000 ticks and its first match at 1000, served twice, late.\<close>

definition periodic_state :: hpet where
  "periodic_state = (HPET True)\<lparr>hconfig := 1, timers := [\<lparr>tconfig = 8, comparator = (1000, 0), tperiod = (1000, 0), fsb_value = 0,
     fsb_address = 0, tdeadline = Some 1000, tline = None\<rparr>, timers (HPET True) ! 1, timers (HPET True) ! 2]\<rparr>"

theorem hpet_periodic_witness:
  "\<exists>k \<ge> 0. tdeadline (timers (hpet_serve ([1 / 2] @ [1]) periodic_state) ! 0) = Some (1000 + k * 1000) \<and>
     counter 1 periodic_state < 1000 + k * 1000 \<and> (k \<noteq> 0 \<longrightarrow> 1000 + (k - 1) * 1000 \<le> counter 1 periodic_state)"
  by (rule hpet_periodic) (simp_all add: periodic_state_def)

section \<open>Restoring a saved state\<close>

text \<open>
  The state saved from a reachable HPET, restored into any HPET of three timers, gives back every
  register, the next matches and the recorded lines.
\<close>

theorem hpet_state_roundtrip:
  assumes "reachable hpet_ok hpet_step (0, HPET msi) (t, s)" "length (timers u) = 3"
  shows "hpet_set_state (hpet_get_state s) u = s\<lparr>has_msi := has_msi u, hpet_log := hpet_log u\<rparr>"
proof -
  have i: "lines_inv s" "match_inv t s" using hpetm.reachable_inv [OF assms(1)] by simp_all
  note l = lines_invD [OF i(1)] and m = match_invD [OF i(2)]
  have r: "restore_timer (save_timer (timers s ! k)) x = timers s ! k" if "k < 3" for k x
  proof -
    have "tdeadline (timers s ! k) \<noteq> Some (-1)" using m(4) [OF that] by (auto simp: match_ok_def split: if_splits)
    moreover have "line_irq h \<noteq> -2" if "tline (timers s ! k) = Some h" for h
      using lines_okD(3) [OF l(1) \<open>k < 3\<close> that] by (cases "k = 0") (auto simp: lines_of_def)
    ultimately show ?thesis by (cases "timers s ! k") (auto simp: restore_timer_def save_timer_def split: option.split)
  qed
  have "map2 restore_timer (map save_timer (timers s)) (timers u) = timers s"
    by (rule nth_equalityI) (use assms(2) l(3) r in simp_all)
  then show ?thesis using assms(2) l(3) by (cases s) (simp add: hpet_set_state_def hpet_get_state_def)
qed

theorem hpet_state_roundtrip_witness:
  "hpet_set_state (hpet_get_state (snd (run hpet_step level_events (0, HPET True)))) (HPET False) =
   (snd (run hpet_step level_events (0, HPET True)))\<lparr>has_msi := has_msi (HPET False), hpet_log := hpet_log (HPET False)\<rparr>"
  by (rule hpet_state_roundtrip [OF level_events_reachable]) (use HPET_inv [of False] match_invD(1) in auto)

text \<open>
  Stopping and starting the counter does not move it, and while it runs it does not go back.
\<close>

lemma hpet_counter_continuous:
  "counter now (write_gen_conf now (counter now s) v s) = counter now s" if "match_inv now s"
proof -
  define s1 where "s1 = s\<lparr>hconfig := v AND (ENABLE_CNF OR LEG_RT_CNF)\<rparr>"
  define s2 where "s2 = (if has_bits (hconfig s XOR hconfig s1) ENABLE_CNF
     then fold (\<lambda>i. arm i (counter now s)) [0..<3] (s1\<lparr>counter_base := counter now s, base_time := now\<rparr>) else s1)"
  have c2: "counter now s2 = counter now s"
  proof (cases "has_bits (hconfig s XOR hconfig s1) ENABLE_CNF")
    case True
    then show ?thesis by (simp add: s2_def upt3 counter_def)
  next
    case False
    then have "(hconfig s AND ENABLE_CNF) XOR (hconfig s1 AND ENABLE_CNF) = 0" by (simp add: bit.conj_xor_distrib2)
    then have "hconfig s AND ENABLE_CNF = hconfig s1 AND ENABLE_CNF" by (rule xor_zero)
    then show ?thesis using False by (simp add: s2_def counter_def s1_def)
  qed
  have len: "length (timers s2) = 3" using match_invD(1) [OF that] by (simp add: s2_def s1_def upt3)
  then have len0: "length (timers (set_line 0 False s2)) = 3" by (simp add: set_line_frame(6) del: set_line.simps)
  then have len1: "length (timers (set_line 1 False (set_line 0 False s2))) = 3" by (simp add: set_line_frame(6) del: set_line.simps)
  let ?r = "update_level 1 (update_level 0 (hpet_emit (DeviceLowerIrq 8) (hpet_emit (DeviceLowerIrq 0) (set_line 1 False (set_line 0 False s2)))))"
  have "unlined ?r = unlined s2"
    using len len0 len1 by (simp add: update_level_unlined update_level_len del: set_line.simps)
  note e = unlined_eqD(1,3,4) [OF this]
  have "counter now ?r = counter now s2" unfolding counter_def e by (rule refl)
  moreover have "write_gen_conf now (counter now s) v s = (if has_bits (hconfig s XOR hconfig s2) LEG_RT_CNF then ?r else s2)"
    unfolding write_gen_conf_def Let_def s1_def [symmetric] s2_def [symmetric] by (rule refl)
  ultimately show ?thesis using c2 by simp
qed

end
