(* ===== verification/Shared_Irq.thy ===== *)
theory Shared_Irq
  imports Device
begin

text \<open>
  Interrupt lines that several sources share, \<open>shared_irq_sources\<close> of \<open>src/cpu.js\<close>: the ACPI
  interrupt, the PCI pins and the HPET drive them through \<open>set_shared_irq_level\<close> and
  \<open>set_shared_gsi_level\<close>. The main result is that a line is the disjunction of its sources: it
  is asserted exactly as long as some source last drove it high.
\<close>

section \<open>State and operations\<close>

text \<open>The calls of the interrupt controllers, in order.\<close>

datatype line_effect =
    DeviceRaise nat
  | DeviceLower nat
  | IoapicRaise nat
  | IoapicLower nat

text \<open>A \<open>Set\<close> is a list without repetitions, in the order of insertion.\<close>

record shared_irqs =
  shared_irq_sources :: "int list list"
  line_log :: "line_effect list"

definition shared_irqs_init :: shared_irqs where
  "shared_irqs_init = \<lparr>shared_irq_sources = replicate 24 [], line_log = []\<rparr>"

definition set_add :: "int \<Rightarrow> int list \<Rightarrow> int list" where
  "set_add x xs = (if x \<in> set xs then xs else xs @ [x])"

definition set_delete :: "int \<Rightarrow> int list \<Rightarrow> int list" where
  "set_delete x xs = filter (\<lambda>y. y \<noteq> x) xs"

definition line_emit :: "line_effect \<Rightarrow> shared_irqs \<Rightarrow> shared_irqs" where
  "line_emit e s = s\<lparr>line_log := line_log s @ [e]\<rparr>"

text \<open>A line beyond the 24 has no set, which is a TypeError.\<close>

definition set_shared_irq_level :: "nat \<Rightarrow> int \<Rightarrow> bool \<Rightarrow> shared_irqs \<Rightarrow> shared_irqs option" where
  "set_shared_irq_level irq source level s =
     (if irq \<ge> length (shared_irq_sources s) then None
      else let sources = shared_irq_sources s ! irq
           in if level
              then Some (line_emit (DeviceRaise irq) (s\<lparr>shared_irq_sources := (shared_irq_sources s)[irq := set_add source sources]\<rparr>))
              else let rest = set_delete source sources; s1 = s\<lparr>shared_irq_sources := (shared_irq_sources s)[irq := rest]\<rparr>
                   in Some (if rest = [] then line_emit (DeviceLower irq) s1 else s1))"

definition set_shared_gsi_level :: "nat \<Rightarrow> int \<Rightarrow> bool \<Rightarrow> shared_irqs \<Rightarrow> shared_irqs option" where
  "set_shared_gsi_level gsi source level s =
     (if gsi \<ge> length (shared_irq_sources s) then None
      else let sources = shared_irq_sources s ! gsi
           in if level
              then Some (line_emit (IoapicRaise gsi) (s\<lparr>shared_irq_sources := (shared_irq_sources s)[gsi := set_add source sources]\<rparr>))
              else let rest = set_delete source sources; s1 = s\<lparr>shared_irq_sources := (shared_irq_sources s)[gsi := rest]\<rparr>
                   in Some (if rest = [] then line_emit (IoapicLower gsi) s1 else s1))"

text \<open>The part of a machine reset that deasserts every level-triggered source.\<close>

definition clear_line :: "nat \<Rightarrow> shared_irqs \<Rightarrow> shared_irqs" where
  "clear_line irq s =
     (if shared_irq_sources s ! irq \<noteq> []
      then line_emit (if irq < 16 then DeviceLower irq else IoapicLower irq) (s\<lparr>shared_irq_sources := (shared_irq_sources s)[irq := []]\<rparr>)
      else s)"

definition reset_shared :: "shared_irqs \<Rightarrow> shared_irqs" where
  "reset_shared s = fold clear_line [0..<length (shared_irq_sources s)] s"

text \<open>
  Entry 93 of a saved machine state: the sources of each line; older states lack it, or the entry of a
  line.
\<close>

definition save_shared :: "shared_irqs \<Rightarrow> int list list" where
  "save_shared s = shared_irq_sources s"

definition restore_line :: "int list option \<Rightarrow> int list" where
  "restore_line st = (case st of None \<Rightarrow> [] | Some sources \<Rightarrow> fold set_add sources [])"

definition restore_shared :: "int list list option \<Rightarrow> shared_irqs \<Rightarrow> shared_irqs" where
  "restore_shared st s = s\<lparr>shared_irq_sources :=
     map (\<lambda>irq. restore_line (case st of None \<Rightarrow> None | Some ls \<Rightarrow> if irq < length ls then Some (ls ! irq) else None))
       [0..<length (shared_irq_sources s)]\<rparr>"

section \<open>A line is the disjunction of its sources\<close>

text \<open>
  What drives the lines: a source sets its level on an interrupt line (below 16) or an I/O APIC input
  (16 to 23), or the machine is reset.
\<close>

datatype line_event = DriveIrq nat int bool | DriveGsi nat int bool | ResetLines

fun line_step :: "line_event \<Rightarrow> shared_irqs \<Rightarrow> shared_irqs" where
  "line_step (DriveIrq n src v) s = the (set_shared_irq_level n src v s)"
| "line_step (DriveGsi n src v) s = the (set_shared_gsi_level n src v s)"
| "line_step ResetLines s = reset_shared s"

fun line_ok :: "line_event \<Rightarrow> bool" where
  "line_ok (DriveIrq n src v) = (n < 16)"
| "line_ok (DriveGsi n src v) = (16 \<le> n \<and> n < 24)"
| "line_ok ResetLines = True"

text \<open>The level each source has asked for last, as a function of the events alone.\<close>

fun demand_step :: "line_event \<Rightarrow> (nat \<times> int \<Rightarrow> bool) \<Rightarrow> (nat \<times> int \<Rightarrow> bool)" where
  "demand_step (DriveIrq n src v) d = d((n, src) := v)"
| "demand_step (DriveGsi n src v) d = d((n, src) := v)"
| "demand_step ResetLines d = (\<lambda>_. False)"

definition demand :: "line_event list \<Rightarrow> nat \<times> int \<Rightarrow> bool" where
  "demand es = run demand_step es (\<lambda>_. False)"

text \<open>The level of a line, as the calls leave it.\<close>

definition drive_shared :: "nat \<Rightarrow> bool \<Rightarrow> line_effect \<Rightarrow> bool" where
  "drive_shared n b e =
     (case e of DeviceRaise m \<Rightarrow> m = n \<or> b | IoapicRaise m \<Rightarrow> m = n \<or> b
              | DeviceLower m \<Rightarrow> m \<noteq> n \<and> b | IoapicLower m \<Rightarrow> m \<noteq> n \<and> b)"

definition line_level :: "nat \<Rightarrow> line_effect list \<Rightarrow> bool" where
  "line_level n es = foldl (drive_shared n) False es"

definition line_inv :: "(nat \<times> int \<Rightarrow> bool) \<Rightarrow> shared_irqs \<Rightarrow> bool" where
  "line_inv d s \<longleftrightarrow> length (shared_irq_sources s) = 24 \<and>
     (\<forall>n<24. distinct (shared_irq_sources s ! n) \<and> (\<forall>src. src \<in> set (shared_irq_sources s ! n) \<longleftrightarrow> d (n, src)) \<and>
        (line_level n (line_log s) \<longleftrightarrow> shared_irq_sources s ! n \<noteq> []))"

lemma line_level_snoc [simp]: "line_level n (es @ [e]) = drive_shared n (line_level n es) e"
  by (simp add: line_level_def)

lemma set_ops [simp]:
  "set (set_add x xs) = insert x (set xs)" "distinct xs \<Longrightarrow> distinct (set_add x xs)" "set_add x xs \<noteq> []"
  "set (set_delete x xs) = set xs - {x}" "distinct xs \<Longrightarrow> distinct (set_delete x xs)"
  by (auto simp: set_add_def set_delete_def)

lemma line_inv_upd:
  assumes "line_inv d s" "m < 24" "distinct xs" "\<And>src. src \<in> set xs \<longleftrightarrow> d' (m, src)" "\<And>n src. n \<noteq> m \<Longrightarrow> d' (n, src) = d (n, src)"
    "shared_irq_sources s' = (shared_irq_sources s)[m := xs]"
    "\<And>n. n < 24 \<Longrightarrow> line_level n (line_log s') = (if n = m then xs \<noteq> [] else line_level n (line_log s))"
  shows "line_inv d' s'"
  using assms by (auto simp: line_inv_def nth_list_update)

lemma drive_irq_inv:
  assumes "line_inv d s" "n < 24"
  shows "line_inv (d((n, src) := v)) (the (set_shared_irq_level n src v s))"
proof -
  have i: "length (shared_irq_sources s) = 24" "distinct (shared_irq_sources s ! n)" "\<And>x. x \<in> set (shared_irq_sources s ! n) \<longleftrightarrow> d (n, x)"
    "line_level n (line_log s) \<longleftrightarrow> shared_irq_sources s ! n \<noteq> []"
    using assms by (auto simp: line_inv_def)
  let ?xs = "if v then set_add src (shared_irq_sources s ! n) else set_delete src (shared_irq_sources s ! n)"
  show ?thesis
    by (rule line_inv_upd [OF assms, of ?xs])
       (use assms(2) i in \<open>auto simp: set_shared_irq_level_def line_emit_def drive_shared_def set_delete_def Let_def\<close>)
qed

lemma drive_gsi_inv:
  assumes "line_inv d s" "n < 24"
  shows "line_inv (d((n, src) := v)) (the (set_shared_gsi_level n src v s))"
proof -
  have i: "length (shared_irq_sources s) = 24" "distinct (shared_irq_sources s ! n)" "\<And>x. x \<in> set (shared_irq_sources s ! n) \<longleftrightarrow> d (n, x)"
    "line_level n (line_log s) \<longleftrightarrow> shared_irq_sources s ! n \<noteq> []"
    using assms by (auto simp: line_inv_def)
  let ?xs = "if v then set_add src (shared_irq_sources s ! n) else set_delete src (shared_irq_sources s ! n)"
  show ?thesis
    by (rule line_inv_upd [OF assms, of ?xs])
       (use assms(2) i in \<open>auto simp: set_shared_gsi_level_def line_emit_def drive_shared_def set_delete_def Let_def\<close>)
qed

lemma clear_line_inv:
  assumes "line_inv d s" "m < 24"
  shows "line_inv (\<lambda>(n, src). n \<noteq> m \<and> d (n, src)) (clear_line m s)"
proof (rule line_inv_upd [OF assms, of "[]"])
  show "shared_irq_sources (clear_line m s) = (shared_irq_sources s)[m := []]"
    by (cases "shared_irq_sources s ! m = []") (simp_all add: clear_line_def line_emit_def, metis list_update_id)
qed (use assms in \<open>auto simp: clear_line_def line_emit_def drive_shared_def line_inv_def\<close>)

lemma clear_lines_inv:
  "line_inv d s \<Longrightarrow> \<forall>m \<in> set ms. m < 24 \<Longrightarrow> line_inv (\<lambda>(n, src). n \<notin> set ms \<and> d (n, src)) (fold clear_line ms s)"
proof (induction ms arbitrary: d s)
  case (Cons m ms)
  have "(\<lambda>(n, src). n \<notin> set (m # ms) \<and> d (n, src)) = (\<lambda>(n, src). n \<notin> set ms \<and> (case (n, src) of (n, src) \<Rightarrow> n \<noteq> m \<and> d (n, src)))"
    by auto
  with Cons.IH [OF clear_line_inv [OF Cons.prems(1), of m]] Cons.prems(2) show ?case
    by (simp only: fold_simps list.set) simp
qed simp

lemma reset_shared_inv: "line_inv d s \<Longrightarrow> line_inv (\<lambda>_. False) (reset_shared s)"
proof -
  assume i: "line_inv d s"
  then have l: "length (shared_irq_sources s) = 24" by (simp add: line_inv_def)
  from clear_lines_inv [OF i, of "[0..<24]"] show ?thesis unfolding reset_shared_def l line_inv_def by auto
qed

lemma line_inv_run:
  "list_all line_ok es \<Longrightarrow> line_inv d s \<Longrightarrow> line_inv (run demand_step es d) (run line_step es s)"
proof (induction es arbitrary: d s)
  case (Cons e es)
  have "line_inv (demand_step e d) (line_step e s)"
    using Cons.prems drive_irq_inv drive_gsi_inv reset_shared_inv by (cases e) simp_all
  then show ?case using Cons.IH Cons.prems(1) by simp
qed simp

lemma shared_irqs_init_inv: "line_inv (\<lambda>_. False) shared_irqs_init"
  by (simp add: line_inv_def shared_irqs_init_def line_level_def)

lemma line_inv_level: "line_inv d s \<Longrightarrow> n < 24 \<Longrightarrow> line_level n (line_log s) \<longleftrightarrow> (\<exists>src. d (n, src))"
  unfolding line_inv_def by (metis last_in_set empty_iff empty_set)

text \<open>
  Claim C20. A shared interrupt line is the disjunction of its sources: after any calls of
  \<open>set_shared_irq_level\<close> and \<open>set_shared_gsi_level\<close> and any resets, a line is asserted exactly if some
  source drove it high last, and the sets of sources record exactly those sources.
\<close>

theorem shared_line_is_disjunction:
  assumes "list_all line_ok es" "n < 24"
  shows "(line_level n (line_log (run line_step es shared_irqs_init)) \<longleftrightarrow> (\<exists>src. demand es (n, src))) \<and>
    set (shared_irq_sources (run line_step es shared_irqs_init) ! n) = {src. demand es (n, src)}"
proof -
  have i: "line_inv (demand es) (run line_step es shared_irqs_init)"
    unfolding demand_def by (rule line_inv_run [OF assms(1) shared_irqs_init_inv])
  then have m: "src \<in> set (shared_irq_sources (run line_step es shared_irqs_init) ! n) \<longleftrightarrow> demand es (n, src)"
    and l: "line_level n (line_log (run line_step es shared_irqs_init)) \<longleftrightarrow> shared_irq_sources (run line_step es shared_irqs_init) ! n \<noteq> []" for src
    using assms(2) by (simp_all add: line_inv_def)
  have "set (shared_irq_sources (run line_step es shared_irqs_init) ! n) = {src. demand es (n, src)}" using m by auto
  then show ?thesis using l by (metis Collect_empty_eq set_empty)
qed

theorem shared_line_is_disjunction_witness:
  "line_level 20 (line_log (run line_step [DriveGsi 20 7 True, DriveGsi 20 9 True, DriveGsi 20 7 False] shared_irqs_init))"
  using shared_line_is_disjunction [of "[DriveGsi 20 7 True, DriveGsi 20 9 True, DriveGsi 20 7 False]" 20]
  by (auto simp: demand_def)

lemma restore_line_id: "distinct xs \<Longrightarrow> restore_line (Some xs) = xs"
proof -
  have "distinct (ys @ xs) \<Longrightarrow> fold set_add xs ys = ys @ xs" for ys
    by (induction xs arbitrary: ys) (auto simp: set_add_def)
  then show "distinct xs \<Longrightarrow> restore_line (Some xs) = xs" by (simp add: restore_line_def)
qed

text \<open>The sources come back from a saved state.\<close>

lemma restore_save_shared:
  assumes "line_inv d s" "length (shared_irq_sources u) = 24"
  shows "shared_irq_sources (restore_shared (Some (save_shared s)) u) = shared_irq_sources s"
  by (rule nth_equalityI) (use assms in \<open>auto simp: restore_shared_def save_shared_def restore_line_id line_inv_def\<close>)

end
