(* ===== verification/Rtc.thy ===== *)
theory Rtc
  imports Device
begin

text \<open>
  The real time clock and CMOS memory, \<open>src/rtc.js\<close>, with the part of JavaScript's \<open>Date\<close>
  it uses. Times are exact rationals of milliseconds; the readings of the machine clock are arguments,
  as is whether the HPET has taken over the route to IRQ 8. The main results: the calendar registers
  together are the time, decoded from either coding; the periodic interrupt keeps its phase; and the
  interrupt line follows the flags of status register C.
\<close>

section \<open>Dates\<close>

text \<open>
  ECMAScript's time values: days count from the first of January 1970, and \<open>day_from_year\<close> is the
  day on which a year begins (DayFromYear). A \<open>Date\<close> made from a number drops its fraction.
\<close>

definition msPerDay :: int where "msPerDay = 86400000"

definition day_from_year :: "int \<Rightarrow> int" where
  "day_from_year y = 365 * (y - 1970) + (y - 1969) div 4 - (y - 1901) div 100 + (y - 1601) div 400"

text \<open>YearFromTime: the largest year that begins at or before the day, from an estimate that is off by one at most.\<close>

definition year_of_day :: "int \<Rightarrow> int" where
  "year_of_day d =
     (let y = 1970 + 400 * d div 146097
      in if day_from_year (y + 1) \<le> d then y + 1 else if d < day_from_year y then y - 1 else y)"

definition leap :: "int \<Rightarrow> bool" where
  "leap y \<longleftrightarrow> day_from_year (y + 1) - day_from_year y = 366"

text \<open>The days of a year before its month \<open>m\<close>, counted from 0.\<close>

definition days_before :: "int \<Rightarrow> int \<Rightarrow> int" where
  "days_before y m = [0, 31, 59, 90, 120, 151, 181, 212, 243, 273, 304, 334, 365] ! nat m + (if leap y \<and> 2 \<le> m then 1 else 0)"

definition day_in_year :: "int \<Rightarrow> int" where
  "day_in_year d = d - day_from_year (year_of_day d)"

text \<open>MonthFromTime: the number of later months that have begun.\<close>

definition month_of_day :: "int \<Rightarrow> int" where
  "month_of_day d = int (length (filter (\<lambda>m. days_before (year_of_day d) m \<le> day_in_year d) [1..11]))"

definition date_of_day :: "int \<Rightarrow> int" where
  "date_of_day d = day_in_year d - days_before (year_of_day d) (month_of_day d) + 1"

text \<open>\<open>new Date(t)\<close> and its accessors; the day of the week of day 0 was a Thursday.\<close>

definition new_Date :: "rat \<Rightarrow> int" where
  "new_Date t = js_trunc t"

definition getUTCSeconds :: "int \<Rightarrow> int" where "getUTCSeconds t = t div 1000 mod 60"
definition getUTCMinutes :: "int \<Rightarrow> int" where "getUTCMinutes t = t div 60000 mod 60"
definition getUTCHours :: "int \<Rightarrow> int" where "getUTCHours t = t div 3600000 mod 24"
definition getUTCDay :: "int \<Rightarrow> int" where "getUTCDay t = (t div msPerDay + 4) mod 7"
definition getUTCDate :: "int \<Rightarrow> int" where "getUTCDate t = date_of_day (t div msPerDay)"
definition getUTCMonth :: "int \<Rightarrow> int" where "getUTCMonth t = month_of_day (t div msPerDay)"
definition getUTCFullYear :: "int \<Rightarrow> int" where "getUTCFullYear t = year_of_day (t div msPerDay)"

text \<open>
  \<open>Date.UTC\<close> for a month from 0 to 11: a year from 0 to 99 stands for one of the twentieth century.
  The date and the time of day may lie outside the month and the day.
\<close>

definition Date_UTC :: "int \<Rightarrow> int \<Rightarrow> int \<Rightarrow> int \<Rightarrow> int \<Rightarrow> int \<Rightarrow> int" where
  "Date_UTC y m dt h mi s =
     (let yr = (if 0 \<le> y \<and> y \<le> 99 then 1900 + y else y)
      in (day_from_year yr + days_before yr m + dt - 1) * msPerDay + h * 3600000 + mi * 60000 + s * 1000)"

subsection \<open>The calendar\<close>

text \<open>Years begin 365.2425 days apart, within a few days.\<close>

lemma div_bounds: "0 < k \<Longrightarrow> k * (x div k) \<le> x \<and> x < k * (x div k) + (k :: int)"
  using pos_mod_bound [of k x] pos_mod_sign [of k x] mult_div_mod_eq [of k x] by linarith

lemma day_from_year_bounds:
  "146097 * (y - 1970) - 800 \<le> 400 * day_from_year y \<and> 400 * day_from_year y \<le> 146097 * (y - 1970) + 800"
proof -
  define a b c where "a = (y - 1969) div 4" and "b = (y - 1901) div 100" and "c = (y - 1601) div 400"
  have "4 * a \<le> y - 1969" "y - 1969 < 4 * a + 4" "100 * b \<le> y - 1901" "y - 1901 < 100 * b + 100"
    "400 * c \<le> y - 1601" "y - 1601 < 400 * c + 400"
    unfolding a_def b_def c_def using div_bounds [of 4 "y - 1969"] div_bounds [of 100 "y - 1901"] div_bounds [of 400 "y - 1601"] by simp_all
  moreover have "400 * day_from_year y = 146000 * (y - 1970) + 100 * (4 * a) - 4 * (100 * b) + 400 * c"
    by (simp add: day_from_year_def a_def b_def c_def)
  ultimately show ?thesis by auto
qed

lemma div_Suc: "0 < k \<Longrightarrow> (x + 1) div k = x div k + (if k dvd x + 1 then 1 else 0 :: int)"
proof -
  assume k: "0 < k"
  have d: "x = k * (x div k) + x mod k" "0 \<le> x mod k" "x mod k < k" using k by simp_all
  show ?thesis
  proof (cases "x mod k + 1 = k")
    case True
    then have "x + 1 = k * (x div k + 1)" using d by (simp only: distrib_left mult_1_right)
    then show ?thesis using k by (metis dvd_triv_left nonzero_mult_div_cancel_left less_irrefl)
  next
    case False
    then have "(x + 1) mod k = x mod k + 1" "(x + 1) div k = x div k"
      using d int_div_pos_eq [of "x + 1" k "x div k" "x mod k + 1"] int_mod_pos_eq [of "x + 1" k "x div k" "x mod k + 1"] by simp_all
    then show ?thesis using d by (simp add: dvd_eq_mod_eq_0)
  qed
qed

lemma year_length: "day_from_year (y + 1) = day_from_year y + (if leap y then 366 else 365)"
proof -
  have d: "100 dvd y - 1901 + 1 \<Longrightarrow> 4 dvd y - 1969 + 1" "400 dvd y - 1601 + 1 \<Longrightarrow> 100 dvd y - 1901 + 1" by presburger+
  have e: "y + 1 - 1969 = (y - 1969) + 1" "y + 1 - 1901 = (y - 1901) + 1" "y + 1 - 1601 = (y - 1601) + 1" by simp_all
  have "day_from_year (y + 1) = day_from_year y + 365 + (if 4 dvd y - 1969 + 1 then 1 else 0) - (if 100 dvd y - 1901 + 1 then 1 else 0)
      + (if 400 dvd y - 1601 + 1 then 1 else 0)"
    unfolding day_from_year_def e by (simp only: div_Suc) simp
  then have "day_from_year (y + 1) - day_from_year y \<in> {365, 366}" using d by auto
  then show ?thesis by (auto simp: leap_def)
qed

lemma day_from_year_mono: "x < y \<Longrightarrow> day_from_year x < day_from_year y"
proof (induction "nat (y - x - 1)" arbitrary: y)
  case 0
  then show ?case using year_length [of x] by (cases "y = x + 1") (auto split: if_splits)
next
  case (Suc n)
  from Suc.hyps(1) [of "y - 1"] Suc.hyps(2) have "day_from_year x < day_from_year (y - 1)" by simp
  then show ?case using year_length [of "y - 1"] by (simp split: if_splits)
qed

text \<open>The year of a day is the one in which it lies.\<close>

lemma year_of_day: "day_from_year (year_of_day d) \<le> d \<and> d < day_from_year (year_of_day d + 1)"
proof -
  define y where "y = 1970 + 400 * d div 146097"
  have y: "146097 * (y - 1970) \<le> 400 * d" "400 * d < 146097 * (y - 1970) + 146097"
    using div_bounds [of 146097 "400 * d"] by (simp_all add: y_def)
  have "day_from_year (y - 1) \<le> d" using y day_from_year_bounds [of "y - 1"] by auto
  moreover have "d < day_from_year (y + 1 + 1)" using y day_from_year_bounds [of "y + 1 + 1"] by auto
  ultimately show ?thesis unfolding year_of_day_def Let_def y_def [symmetric] by auto
qed

lemma days_before_0: "days_before y 0 = 0"
  by (simp add: days_before_def)

lemma months: "{0..11} = {0, 1, 2, 3, 4, 5, 6, 7, 8, 9, 10, 11 :: int}"
proof -
  have "[0..11] = [0, 1, 2, 3, 4, 5, 6, 7, 8, 9, 10, 11 :: int]" by code_simp
  then show ?thesis using set_upto [of 0 11] by simp
qed

lemma later_months: "[1..11] = [1, 2, 3, 4, 5, 6, 7, 8, 9, 10, 11 :: int]"
  by code_simp

text \<open>The month of a day of the year: the one in which it lies.\<close>

lemma month_exists:
  assumes "0 \<le> n" "n < (if leap y then 366 else 365)"
  shows "\<exists>m \<in> {0..11}. days_before y m \<le> n \<and> n < days_before y (m + 1)"
  unfolding months using assms by (simp add: days_before_def split: if_splits) linarith+

lemma days_before_step: "m \<in> {0..11} \<Longrightarrow> days_before y m < days_before y (m + 1)"
  unfolding months by (elim insertE emptyE) (simp_all add: days_before_def)

lemma days_before_mono: "0 \<le> m \<Longrightarrow> m + int k \<le> 12 \<Longrightarrow> days_before y m \<le> days_before y (m + int k)"
proof (induction k)
  case (Suc k)
  then show ?case using days_before_step [of "m + int k" y] by (simp add: algebra_simps)
qed simp

lemma days_before_le: "0 \<le> m \<Longrightarrow> m \<le> m' \<Longrightarrow> m' \<le> 12 \<Longrightarrow> days_before y m \<le> days_before y m'"
  using days_before_mono [of m "nat (m' - m)" y] by simp

lemma count_months: "m \<in> {0..11} \<Longrightarrow> length (filter (\<lambda>k. k \<le> m) [1..11]) = nat m"
  unfolding months later_months by (elim insertE emptyE) simp_all

lemma day_in_year_bounds: "0 \<le> day_in_year d" "day_in_year d < (if leap (year_of_day d) then 366 else 365)"
  using year_of_day [of d] year_length [of "year_of_day d"] by (auto simp: day_in_year_def split: if_splits)

lemma month_of_day:
  "month_of_day d \<in> {0..11}" "days_before (year_of_day d) (month_of_day d) \<le> day_in_year d"
  "day_in_year d < days_before (year_of_day d) (month_of_day d + 1)"
proof -
  let ?y = "year_of_day d"
  obtain m where m: "m \<in> {0..11}" "days_before ?y m \<le> day_in_year d" "day_in_year d < days_before ?y (m + 1)"
    using month_exists [OF day_in_year_bounds] by blast
  have "days_before ?y k \<le> day_in_year d \<longleftrightarrow> k \<le> m" if "k \<in> {1..11}" for k
    using days_before_le [of k m ?y] days_before_le [of "m + 1" k ?y] m that by (cases "k \<le> m") auto
  then have "filter (\<lambda>k. days_before ?y k \<le> day_in_year d) [1..11] = filter (\<lambda>k. k \<le> m) [1..11]"
    by (intro filter_cong) (auto simp: set_upto)
  then have "month_of_day d = m" using count_months [OF m(1)] m(1) by (simp add: month_of_day_def)
  then show "month_of_day d \<in> {0..11}" "days_before ?y (month_of_day d) \<le> day_in_year d" "day_in_year d < days_before ?y (month_of_day d + 1)"
    using m by simp_all
qed

text \<open>The civil date of a day is a date of the calendar, and gives the day back.\<close>

lemma date_of_day: "1 \<le> date_of_day d" "date_of_day d \<le> 31"
proof -
  have "days_before y (m + 1) - days_before y m \<le> 31" if "m \<in> {0..11}" for y m
    using that unfolding months by (elim insertE emptyE) (simp_all add: days_before_def)
  from this [OF month_of_day(1) [of d], of "year_of_day d"] show "1 \<le> date_of_day d" "date_of_day d \<le> 31"
    using month_of_day(2,3) [of d] by (simp_all add: date_of_day_def)
qed

lemma day_of_date: "day_from_year (year_of_day d) + days_before (year_of_day d) (month_of_day d) + date_of_day d - 1 = d"
  by (simp add: date_of_day_def day_in_year_def)

text \<open>\<open>Date.UTC\<close> of the parts of a time is the time, to the second.\<close>

lemma time_of_day:
  "t div msPerDay * msPerDay + getUTCHours t * 3600000 + getUTCMinutes t * 60000 + getUTCSeconds t * 1000 = t div 1000 * 1000"
proof -
  define x where "x = t div 1000"
  define a where "a = x div 60"
  define b where "b = a div 60"
  have e: "t div 60000 = a" "t div 3600000 = b" "t div 86400000 = b div 24"
    by (simp_all add: a_def b_def x_def zdiv_zmult2_eq [symmetric])
  have "x = 60 * a + x mod 60" "a = 60 * b + a mod 60" "b = 24 * (b div 24) + b mod 24" by (simp_all add: a_def b_def)
  then show ?thesis unfolding getUTCHours_def getUTCMinutes_def getUTCSeconds_def msPerDay_def e x_def [symmetric] by linarith
qed

lemma Date_UTC_parts:
  assumes "\<not> (0 \<le> getUTCFullYear t \<and> getUTCFullYear t \<le> 99)"
  shows "Date_UTC (getUTCFullYear t) (getUTCMonth t) (getUTCDate t) (getUTCHours t) (getUTCMinutes t) (getUTCSeconds t) = t div 1000 * 1000"
proof -
  have "(if 0 \<le> getUTCFullYear t \<and> getUTCFullYear t \<le> 99 then 1900 + getUTCFullYear t else getUTCFullYear t) = getUTCFullYear t"
    using assms by simp
  then show ?thesis
    using time_of_day [of t] day_of_date [of "t div msPerDay"]
    by (simp only: Date_UTC_def Let_def) (simp only: getUTCFullYear_def getUTCMonth_def getUTCDate_def)
qed

section \<open>State\<close>

text \<open>\<open>device_raise_irq(8)\<close>, \<open>device_lower_irq(8)\<close>, \<open>acpi.rtc_alarm()\<close>.\<close>

datatype rtc_effect = RtcRaise | RtcLower | AcpiRtcAlarm

text \<open>
  A next interrupt or a period of Infinity is None. An alarm of 0 is none.
\<close>

record rtc =
  cmos_index :: i32
  cmos_data :: "u8 list"
  rtc_time :: rat
  last_update :: rat
  next_interrupt :: "rat option"
  next_interrupt_alarm :: rat
  periodic_interrupt :: bool
  periodic_interrupt_time :: "rat option"
  cmos_a :: i32
  cmos_b :: i32
  cmos_c :: i32
  cmos_diag_status :: i32
  nmi_disabled :: i32
  update_interrupt :: bool
  update_interrupt_time :: rat
  rtc_log :: "rtc_effect list"

definition RTC :: "rat \<Rightarrow> rat \<Rightarrow> rtc" where
  "RTC wall now = \<lparr>cmos_index = 0, cmos_data = replicate 128 0, rtc_time = wall, last_update = now, next_interrupt = Some 0,
     next_interrupt_alarm = 0, periodic_interrupt = False, periodic_interrupt_time = Some (1000 / 1024), cmos_a = 0x26, cmos_b = 2,
     cmos_c = 0, cmos_diag_status = 0, nmi_disabled = 0, update_interrupt = False, update_interrupt_time = 0, rtc_log = []\<rparr>"

definition update_time :: "rat \<Rightarrow> rtc \<Rightarrow> rtc" where
  "update_time time s = s\<lparr>rtc_time := rtc_time s + (time - last_update s), last_update := time\<rparr>"

definition rtc_irq :: "bool \<Rightarrow> rtc_effect \<Rightarrow> rtc \<Rightarrow> rtc" where
  "rtc_irq drives_irq8 e s = (if drives_irq8 then s\<lparr>rtc_log := rtc_log s @ [e]\<rparr> else s)"

section \<open>The timer\<close>

definition fire_periodic :: "bool \<Rightarrow> rat \<Rightarrow> rtc \<Rightarrow> rtc" where
  "fire_periodic drives time s =
     (case next_interrupt s of
        Some n \<Rightarrow>
          if periodic_interrupt s \<and> n \<le> time
          then let s1 = rtc_irq drives RtcRaise s
               in s1\<lparr>next_interrupt := (case periodic_interrupt_time s1 of
                         Some p \<Rightarrow> Some (n + p * (of_int \<lfloor>(time - n) / p\<rfloor> + 1)) | None \<Rightarrow> None),
                     cmos_c := cmos_c s1 OR (push_bit 6 1 OR push_bit 7 1)\<rparr>
          else s
      | None \<Rightarrow> s)"

definition fire_alarm :: "bool \<Rightarrow> bool \<Rightarrow> rat \<Rightarrow> rtc \<Rightarrow> rtc" where
  "fire_alarm drives has_acpi time s =
     (if next_interrupt_alarm s \<noteq> 0 \<and> next_interrupt_alarm s \<le> time
      then let s1 = rtc_irq drives RtcRaise s;
               s2 = s1\<lparr>next_interrupt_alarm := 0, cmos_c := cmos_c s1 OR (push_bit 5 1 OR push_bit 7 1)\<rparr>
           in if has_acpi then s2\<lparr>rtc_log := rtc_log s2 @ [AcpiRtcAlarm]\<rparr> else s2
      else s)"

definition fire_update :: "bool \<Rightarrow> rat \<Rightarrow> rtc \<Rightarrow> rtc" where
  "fire_update drives time s =
     (if update_interrupt s \<and> update_interrupt_time s \<le> time
      then let s1 = rtc_irq drives RtcRaise s
           in s1\<lparr>cmos_c := cmos_c s1 OR (push_bit 4 1 OR push_bit 7 1), update_interrupt_time := time + 1000\<rparr>
      else s)"

definition rtc_wait :: "rat \<Rightarrow> rtc \<Rightarrow> rat" where
  "rtc_wait time s =
     (let t = (case next_interrupt s of Some n \<Rightarrow> if periodic_interrupt s \<and> n \<noteq> 0 then min 100 (max 0 (n - time)) else 100 | None \<Rightarrow> 100);
          t1 = (if next_interrupt_alarm s \<noteq> 0 then min t (max 0 (next_interrupt_alarm s - time)) else t)
      in if update_interrupt s then min t1 (max 0 (update_interrupt_time s - time)) else t1)"

definition rtc_timer :: "bool \<Rightarrow> bool \<Rightarrow> rat \<Rightarrow> rtc \<Rightarrow> rat \<times> rtc" where
  "rtc_timer drives has_acpi time s =
     (let s1 = fire_update drives time (fire_alarm drives has_acpi time (fire_periodic drives time (update_time time s)))
      in (rtc_wait time s1, s1))"

section \<open>Codings of the registers\<close>

text \<open>The shift of JavaScript takes its amount modulo 32.\<close>

function bcd_loop :: "nat \<Rightarrow> nat \<Rightarrow> i32 \<Rightarrow> i32" where
  "bcd_loop i n result =
     (if n = 0 then result
      else let digit = n mod 10
           in bcd_loop (i + 1) ((n - digit) div 10) (result OR push_bit (4 * i mod 32) (of_nat digit)))"
  by pat_completeness auto
termination by (relation "measure (\<lambda>(i, n, r). n)") auto

definition bcd_pack :: "nat \<Rightarrow> i32" where
  "bcd_pack n = bcd_loop 0 n 0"

definition bcd_unpack :: "i32 \<Rightarrow> i32" where
  "bcd_unpack n = (let low = n AND 0xF; high = signed_drop_bit 4 n AND 0xF in low + 10 * high)"

definition encode_time :: "rtc \<Rightarrow> int \<Rightarrow> i32" where
  "encode_time s t = (if has_bits (cmos_b s) 4 then word_of_int t else bcd_pack (nat t))"

definition decode_time :: "rtc \<Rightarrow> i32 \<Rightarrow> i32" where
  "decode_time s t = (if has_bits (cmos_b s) 4 then t else bcd_unpack t)"

section \<open>Ports\<close>

definition port70_write :: "i32 \<Rightarrow> rtc \<Rightarrow> rtc" where
  "port70_write out_byte s = s\<lparr>cmos_index := out_byte AND 0x7F, nmi_disabled := signed_drop_bit 7 out_byte\<rparr>"

text \<open>The remainder of a number that need not be an integer, with the sign of the dividend.\<close>

definition js_frem :: "rat \<Rightarrow> rat \<Rightarrow> rat" where
  "js_frem a b = a - b * of_int (js_trunc (a / b))"

definition cmos_port_read :: "bool \<Rightarrow> rat \<Rightarrow> rtc \<Rightarrow> i32 \<times> rtc" where
  "cmos_port_read drives time s0 =
     (let s = update_time time s0; i = uint (cmos_index s); d = new_Date (rtc_time s)
      in if i = 0x00 then (encode_time s (getUTCSeconds d), s)
         else if i = 0x02 then (encode_time s (getUTCMinutes d), s)
         else if i = 0x04 then (encode_time s (getUTCHours d), s)
         else if i = 0x06 then (encode_time s (getUTCDay d + 1), s)
         else if i = 0x07 then (encode_time s (getUTCDate d), s)
         else if i = 0x08 then (encode_time s (getUTCMonth d + 1), s)
         else if i = 0x09 then (encode_time s (getUTCFullYear d mod 100), s)
         else if i = 0x0A then (if js_frem (rtc_time s) 1000 \<ge> 999 then cmos_a s OR 0x80 else cmos_a s, s)
         else if i = 0x0B then (cmos_b s, s)
         else if i = 0x0C
         then let s1 = rtc_irq drives RtcLower s in (cmos_c s1, s1\<lparr>cmos_c := cmos_c s1 AND NOT 0xF0\<rparr>)
         else if i = 0x0D then (push_bit 7 1, s)
         else if i = 0x0E then (cmos_diag_status s, s)
         else if i = 0x32 \<or> i = 0x37 then (encode_time s (js_trunc (of_int (getUTCFullYear d) / 100)), s)
         else (ucast (cmos_data s ! nat i), s))"

definition cmos_write :: "i32 \<Rightarrow> i32 \<Rightarrow> rtc \<Rightarrow> rtc" where
  "cmos_write i v s = s\<lparr>cmos_data := (cmos_data s)[unat i := ucast v]\<rparr>"

definition cmos_read :: "i32 \<Rightarrow> rtc \<Rightarrow> u8" where
  "cmos_read i s = cmos_data s ! unat i"

text \<open>Status register A: a rate of 0 shifts by 31, and the period is Infinity.\<close>

definition rate_period :: "i32 \<Rightarrow> rat option" where
  "rate_period a = (let r = unat (a AND 0xF) in if r = 0 then None else Some (1000 / of_int (32768 div 2 ^ (r - 1))))"

definition write_a :: "i32 \<Rightarrow> rtc \<Rightarrow> rtc" where
  "write_a v s = (let s1 = s\<lparr>cmos_a := v AND 0x7F\<rparr> in s1\<lparr>periodic_interrupt_time := rate_period (cmos_a s1)\<rparr>)"

definition schedule_alarm :: "rat \<Rightarrow> rtc \<Rightarrow> rtc" where
  "schedule_alarm time s =
     (let now = new_Date (rtc_time s);
          seconds = decode_time s (ucast (cmos_data s ! 1)); minutes = decode_time s (ucast (cmos_data s ! 3));
          hours = decode_time s (ucast (cmos_data s ! 5));
          alarm_date = Date_UTC (getUTCFullYear now) (getUTCMonth now) (getUTCDate now) (uint hours) (uint minutes) (uint seconds)
      in s\<lparr>next_interrupt_alarm := time + of_int (alarm_date - now)\<rparr>)"

definition write_b :: "rat \<Rightarrow> i32 \<Rightarrow> rtc \<Rightarrow> rtc" where
  "write_b time v s =
     (let s1 = s\<lparr>cmos_b := v\<rparr>;
          s2 = (if has_bits (cmos_b s1) 0x80 then s1\<lparr>cmos_b := cmos_b s1 AND 0xEF\<rparr> else s1);
          s3 = (if has_bits (cmos_b s2) 0x40 then s2\<lparr>next_interrupt := map_option (\<lambda>p. time + p) (periodic_interrupt_time s2)\<rparr> else s2);
          s4 = (if has_bits (cmos_b s3) 0x20 then schedule_alarm time s3 else s3)
      in if has_bits (cmos_b s4) 0x10 then s4\<lparr>update_interrupt_time := time + 1000\<rparr> else s4)"

definition cmos_port_write :: "rat \<Rightarrow> i32 \<Rightarrow> rtc \<Rightarrow> rtc" where
  "cmos_port_write time data_byte s0 =
     (let s = update_time time s0; i = uint (cmos_index s);
          s1 = (if i = 0xA then write_a data_byte s
                else if i = 0xB then write_b time data_byte s
                else if i = 0xE then s\<lparr>cmos_diag_status := data_byte\<rparr>
                else if i \<in> {1, 3, 5} then cmos_write (cmos_index s) data_byte s
                else if 0xF \<le> i \<and> i < 0x80 then s\<lparr>cmos_data := (cmos_data s)[nat i := ucast data_byte]\<rparr>
                else s)
      in s1\<lparr>periodic_interrupt := cmos_b s1 AND 0x40 = 0x40 \<and> 0 < uint (cmos_a s1 AND 0xF),
            update_interrupt := cmos_b s1 AND 0x10 = 0x10 \<and> 0 < uint (cmos_a s1 AND 0xF)\<rparr>)"

definition RTC_register ::
  "nat \<Rightarrow> ('m \<Rightarrow> rtc) \<Rightarrow> (rtc \<Rightarrow> 'm \<Rightarrow> 'm) \<Rightarrow> ('m \<Rightarrow> rat) \<Rightarrow> ('m \<Rightarrow> bool) \<Rightarrow> 'm ports \<Rightarrow> 'm ports option" where
  "RTC_register dev get put now drives = reg_seq
     [register_write 0x70 dev (Some (lift_write get put port70_write)) None None,
      register_write 0x71 dev (Some (\<lambda>x m. lift_write get put (cmos_port_write (now m)) x m)) None None,
      register_read 0x71 dev (Some (\<lambda>p m. lift_read get put (cmos_port_read (drives m) (now m)) p m)) None None]"

section \<open>Saved states\<close>

text \<open>
  The entries of a state; those from 12 on may be missing in an old one. The mark of entry 15 is
  missing in a state whose times are of the host.
\<close>

record rtc_state =
  st_rtc :: rtc
  st_update :: "(bool \<times> rat) option"
  st_diag :: "i32 option"
  st_machine_time :: bool

definition rtc_get_state :: "rat \<Rightarrow> rtc \<Rightarrow> rtc_state \<times> rtc" where
  "rtc_get_state now s0 =
     (let s = update_time now s0
      in (\<lparr>st_rtc = s, st_update = Some (update_interrupt s, update_interrupt_time s), st_diag = Some (cmos_diag_status s), st_machine_time = True\<rparr>, s))"

definition shift_times :: "rat \<Rightarrow> rtc \<Rightarrow> rtc" where
  "shift_times offset s =
     (let s1 = s\<lparr>last_update := last_update s + offset, next_interrupt := map_option (\<lambda>n. n + offset) (next_interrupt s)\<rparr>;
          s2 = (if next_interrupt_alarm s1 \<noteq> 0 then s1\<lparr>next_interrupt_alarm := next_interrupt_alarm s1 + offset\<rparr> else s1)
      in if update_interrupt s2 then s2\<lparr>update_interrupt_time := update_interrupt_time s2 + offset\<rparr> else s2)"

definition rtc_set_state :: "rat \<Rightarrow> rtc_state \<Rightarrow> rtc \<Rightarrow> rtc" where
  "rtc_set_state now st s =
     (let s1 = (st_rtc st)\<lparr>cmos_diag_status := (case st_diag st of Some d \<Rightarrow> d | None \<Rightarrow> 0),
            update_interrupt := (case st_update st of Some (u, t) \<Rightarrow> u | None \<Rightarrow> False),
            update_interrupt_time := (case st_update st of Some (u, t) \<Rightarrow> t | None \<Rightarrow> 0), rtc_log := rtc_log s\<rparr>
      in if st_machine_time st then s1 else shift_times (now - last_update s1) s1)"

section \<open>The registers are the time\<close>

lemma bcd_roundtrip: "n < 100 \<Longrightarrow> bcd_unpack (bcd_pack n) = of_nat n"
proof -
  have "list_all (\<lambda>n. bcd_unpack (bcd_pack n) = of_nat n) [0..<100]" by code_simp
  then show "n < 100 \<Longrightarrow> bcd_unpack (bcd_pack n) = of_nat n" by (simp add: list_all_iff)
qed

lemma decode_encode: "0 \<le> t \<Longrightarrow> t < 100 \<Longrightarrow> uint (decode_time s (encode_time s t)) = t"
proof -
  assume t: "0 \<le> t" "t < 100"
  then have "bcd_unpack (bcd_pack (nat t)) = word_of_int t" using bcd_roundtrip [of "nat t"] by (simp add: nat_less_iff of_nat_nat)
  moreover have "uint (word_of_int t :: i32) = t" using t by (simp add: unsigned_of_int take_bit_int_eq_self)
  ultimately show ?thesis by (simp add: decode_time_def encode_time_def)
qed

text \<open>What the guest gets for a register: it selects the register, reads it and decodes the byte.\<close>

definition read_register :: "bool \<Rightarrow> rat \<Rightarrow> rtc \<Rightarrow> i32 \<Rightarrow> int" where
  "read_register drives time s i = uint (decode_time s (fst (cmos_port_read drives time (port70_write i s))))"

lemma read_register_parts:
  assumes "d = new_Date (rtc_time s + (time - last_update s))" "0 \<le> getUTCFullYear d" "getUTCFullYear d < 10000"
  shows "read_register b time s 0x00 = getUTCSeconds d" "read_register b time s 0x02 = getUTCMinutes d"
    "read_register b time s 0x04 = getUTCHours d" "read_register b time s 0x07 = getUTCDate d"
    "read_register b time s 0x08 = getUTCMonth d + 1"
    "read_register b time s 0x32 * 100 + read_register b time s 0x09 = getUTCFullYear d"
proof -
  have enc: "uint (decode_time s (encode_time (update_time time (port70_write i s)) x)) = x" if "0 \<le> x" "x < 100" for i x
  proof -
    have "encode_time (update_time time (port70_write i s)) x = encode_time s x" by (simp add: encode_time_def update_time_def port70_write_def)
    then show ?thesis using decode_encode [OF that] by simp
  qed
  have b: "0 \<le> getUTCSeconds d" "getUTCSeconds d < 60" "0 \<le> getUTCMinutes d" "getUTCMinutes d < 60" "0 \<le> getUTCHours d" "getUTCHours d < 24"
    by (simp_all add: getUTCSeconds_def getUTCMinutes_def getUTCHours_def)
  have dt: "1 \<le> getUTCDate d" "getUTCDate d \<le> 31" "0 \<le> getUTCMonth d" "getUTCMonth d \<le> 11"
    using date_of_day month_of_day(1) by (simp_all add: getUTCDate_def getUTCMonth_def)
  have ci: "cmos_index (update_time time (port70_write i s)) = i AND 0x7F" "rtc_time (update_time time (port70_write i s)) = rtc_time s + (time - last_update s)" for i
    by (simp_all add: update_time_def port70_write_def)
  show "read_register b time s 0x00 = getUTCSeconds d" "read_register b time s 0x02 = getUTCMinutes d"
    "read_register b time s 0x04 = getUTCHours d" "read_register b time s 0x07 = getUTCDate d"
    "read_register b time s 0x08 = getUTCMonth d + 1"
    using b dt by (simp_all add: read_register_def cmos_port_read_def Let_def ci assms(1) [symmetric] enc)
  have "js_trunc (of_int (getUTCFullYear d) / 100) = getUTCFullYear d div 100"
    using assms(2) by (simp add: js_trunc_def floor_divide_of_int_eq [where ?k = "getUTCFullYear d" and ?l = 100, simplified])
  moreover have "getUTCFullYear d div 100 < 100" "0 \<le> getUTCFullYear d div 100" using assms(2,3) by auto
  ultimately have "read_register b time s 0x32 = getUTCFullYear d div 100" "read_register b time s 0x09 = getUTCFullYear d mod 100"
    by (simp_all add: read_register_def cmos_port_read_def Let_def ci assms(1) [symmetric] enc)
  then show "read_register b time s 0x32 * 100 + read_register b time s 0x09 = getUTCFullYear d" by simp
qed

lemma year_range: "0 \<le> d \<Longrightarrow> d < 2932897 \<Longrightarrow> 1970 \<le> year_of_day d \<and> year_of_day d < 10000"
proof -
  assume d: "0 \<le> d" "d < 2932897"
  note y = year_of_day [of d]
  have e: "day_from_year 1970 = 0" "day_from_year 10000 = 2932897" by (simp_all add: day_from_year_def)
  have "\<not> year_of_day d + 1 \<le> 1970" using y d e day_from_year_mono [of "year_of_day d + 1" 1970] by (cases "year_of_day d + 1 = 1970") auto
  moreover have "\<not> 10000 \<le> year_of_day d" using y d e day_from_year_mono [of 10000 "year_of_day d"] by (cases "year_of_day d = 10000") auto
  ultimately show ?thesis by simp
qed

lemma floor_thousandths: "\<lfloor>(t :: rat) / 1000\<rfloor> = \<lfloor>t\<rfloor> div 1000"
proof -
  define q where "q = \<lfloor>t\<rfloor> div 1000"
  have q: "1000 * q \<le> \<lfloor>t\<rfloor>" "\<lfloor>t\<rfloor> + 1 \<le> 1000 * q + 1000" using div_bounds [of 1000 "\<lfloor>t\<rfloor>"] by (simp_all add: q_def)
  have "of_int (1000 * q) \<le> (of_int \<lfloor>t\<rfloor> :: rat)" "(of_int (\<lfloor>t\<rfloor> + 1) :: rat) \<le> of_int (1000 * q + 1000)"
    using q by (simp_all only: of_int_le_iff)
  then have r: "1000 * of_int q \<le> (of_int \<lfloor>t\<rfloor> :: rat)" "of_int \<lfloor>t\<rfloor> + 1 \<le> (1000 * of_int q + 1000 :: rat)"
    by (simp_all only: of_int_add of_int_mult of_int_numeral of_int_1)
  have "of_int \<lfloor>t\<rfloor> \<le> t" "t < of_int \<lfloor>t\<rfloor> + 1" by linarith+
  with r have "of_int q \<le> t / 1000" "t / 1000 < of_int q + 1" by linarith+
  then show ?thesis unfolding q_def [symmetric] by (simp add: floor_eq_iff)
qed

text \<open>
  Claim C21. The calendar registers are the time: whatever the coding chosen in status register B, the
  century, year, month, day, hour, minute and second that the guest reads at one moment, taken together as a
  date, are the time of the clock at that moment, to the second, for every time from 1970 to the
  end of the year 9999.
\<close>

theorem rtc_registers_are_time:
  assumes "t = rtc_time s + (time - last_update s)" "0 \<le> t" "t < 253402300800000"
  shows "Date_UTC (read_register b time s 0x32 * 100 + read_register b time s 0x09) (read_register b time s 0x08 - 1)
      (read_register b time s 0x07) (read_register b time s 0x04) (read_register b time s 0x02) (read_register b time s 0x00)
    = \<lfloor>t / 1000\<rfloor> * 1000"
proof -
  define d where "d = new_Date (rtc_time s + (time - last_update s))"
  have d: "d = \<lfloor>t\<rfloor>" using assms(1,2) by (simp add: d_def new_Date_def js_trunc_def)
  have "0 \<le> d" "d < 253402300800000" using assms(2,3) by (simp_all add: d floor_less_iff)
  then have "0 \<le> d div msPerDay" "d div msPerDay < 2932897" by (simp_all add: msPerDay_def pos_imp_zdiv_nonneg_iff div_less_iff_less_mult)
  then have y: "1970 \<le> getUTCFullYear d" "getUTCFullYear d < 10000" using year_range by (simp_all add: getUTCFullYear_def)
  have "\<lfloor>t / 1000\<rfloor> = d div 1000" unfolding d by (rule floor_thousandths)
  then show ?thesis
    using read_register_parts [OF d_def, of b] y Date_UTC_parts [of d] by simp
qed

theorem rtc_registers_are_time_witness:
  "Date_UTC (read_register True 5 (RTC 951782400000 3) 0x32 * 100 + read_register True 5 (RTC 951782400000 3) 0x09)
     (read_register True 5 (RTC 951782400000 3) 0x08 - 1) (read_register True 5 (RTC 951782400000 3) 0x07)
     (read_register True 5 (RTC 951782400000 3) 0x04) (read_register True 5 (RTC 951782400000 3) 0x02)
     (read_register True 5 (RTC 951782400000 3) 0x00) = 951782400000"
proof -
  have "\<lfloor>(951782400002 :: rat) / 1000\<rfloor> = 951782400" by (simp add: floor_eq_iff)
  then show ?thesis
    using rtc_registers_are_time [of 951782400002 "RTC 951782400000 3" 5 True] by (simp add: RTC_def)
qed

section \<open>The interrupt line\<close>

definition rtc_level_step :: "bool \<Rightarrow> rtc_effect \<Rightarrow> bool" where
  "rtc_level_step b e = (case e of RtcRaise \<Rightarrow> True | RtcLower \<Rightarrow> False | AcpiRtcAlarm \<Rightarrow> b)"

definition rtc_level :: "rtc_effect list \<Rightarrow> bool" where
  "rtc_level es = foldl rtc_level_step False es"

lemma rtc_level_snoc [simp]:
  "rtc_level (es @ [e]) = rtc_level_step (rtc_level es) e"
  "rtc_level (es @ [e, f]) = rtc_level_step (rtc_level_step (rtc_level es) e) f"
  by (simp_all add: rtc_level_def)

datatype rtc_event = RtcTimer bool rat | RtcSelect i32 | RtcRead rat | RtcWrite rat i32

fun rtc_step :: "rtc_event \<Rightarrow> rtc \<Rightarrow> rtc" where
  "rtc_step (RtcTimer has_acpi time) s = snd (rtc_timer True has_acpi time s)"
| "rtc_step (RtcSelect i) s = port70_write i s"
| "rtc_step (RtcRead time) s = snd (cmos_port_read True time s)"
| "rtc_step (RtcWrite time v) s = cmos_port_write time v s"

text \<open>The flags of status register C: bits 4 to 6, and bit 7 for any of them.\<close>

definition rtc_line_inv :: "rtc \<Rightarrow> bool" where
  "rtc_line_inv s \<longleftrightarrow> (rtc_level (rtc_log s) \<longleftrightarrow> bit (cmos_c s) 7) \<and>
     (bit (cmos_c s) 7 \<longleftrightarrow> bit (cmos_c s) 4 \<or> bit (cmos_c s) 5 \<or> bit (cmos_c s) 6)"

lemma flag_bits [simp]:
  "bit (c OR (push_bit 6 1 OR push_bit 7 1) :: i32) n = (bit c n \<or> n = 6 \<or> n = 7)"
  "bit (c OR (push_bit 5 1 OR push_bit 7 1) :: i32) n = (bit c n \<or> n = 5 \<or> n = 7)"
  "bit (c OR (push_bit 4 1 OR push_bit 7 1) :: i32) n = (bit c n \<or> n = 4 \<or> n = 7)"
  unfolding bit_or_iff by (auto simp: bit_push_bit_iff bit_1_iff simp del: push_bit_of_1)

lemma clear_flags: "n \<in> {4, 5, 6, 7} \<Longrightarrow> \<not> bit (c AND NOT 0xF0 :: i32) n"
proof -
  have "(0xF0 :: i32) = push_bit 4 (mask 4)" by (simp add: mask_eq_exp_minus_1)
  then have "bit (0xF0 :: i32) n" if "4 \<le> n" "n < 8" for n using that by (simp only: bit_push_bit_iff bit_mask_iff) auto
  then show "n \<in> {4, 5, 6, 7} \<Longrightarrow> \<not> bit (c AND NOT 0xF0 :: i32) n" by (auto simp: bit_and_iff bit_not_iff)
qed

lemma rtc_fire_inv:
  "rtc_line_inv s \<Longrightarrow> rtc_line_inv (fire_periodic True time s)"
  "rtc_line_inv s \<Longrightarrow> rtc_line_inv (fire_alarm True b time s)"
  "rtc_line_inv s \<Longrightarrow> rtc_line_inv (fire_update True time s)"
  by (auto simp: rtc_line_inv_def fire_periodic_def fire_alarm_def fire_update_def rtc_irq_def rtc_level_step_def Let_def
      simp del: push_bit_of_1 split: option.split)

lemma rtc_line_inv_cong: "rtc_log s = rtc_log s' \<Longrightarrow> cmos_c s = cmos_c s' \<Longrightarrow> rtc_line_inv s = rtc_line_inv s'"
  by (simp add: rtc_line_inv_def)

lemma write_frame [simp]:
  "rtc_log (write_a v s) = rtc_log s" "cmos_c (write_a v s) = cmos_c s"
  "rtc_log (schedule_alarm time s) = rtc_log s" "cmos_c (schedule_alarm time s) = cmos_c s"
  "rtc_log (write_b time v s) = rtc_log s" "cmos_c (write_b time v s) = cmos_c s"
  "rtc_log (cmos_write i v s) = rtc_log s" "cmos_c (cmos_write i v s) = cmos_c s"
  "rtc_log (update_time time s) = rtc_log s" "cmos_c (update_time time s) = cmos_c s"
  by (simp_all add: write_a_def schedule_alarm_def write_b_def cmos_write_def update_time_def Let_def)

lemma rtc_step_inv: "rtc_line_inv s \<Longrightarrow> rtc_line_inv (rtc_step e s)"
proof (cases e)
  case (RtcTimer b time)
  assume "rtc_line_inv s"
  then have "rtc_line_inv (update_time time s)" by (simp cong: rtc_line_inv_cong add: rtc_line_inv_def)
  then show ?thesis using RtcTimer rtc_fire_inv by (simp add: rtc_timer_def Let_def)
next
  case (RtcSelect i)
  assume "rtc_line_inv s"
  then show ?thesis using RtcSelect by (simp add: port70_write_def rtc_line_inv_def)
next
  case (RtcRead time)
  assume i: "rtc_line_inv s"
  then have u: "rtc_line_inv (update_time time s)" by (simp add: rtc_line_inv_def)
  have c: "rtc_line_inv ((rtc_irq True RtcLower (update_time time s))\<lparr>cmos_c := x AND NOT 0xF0\<rparr>)" for x
    using clear_flags [of 4] clear_flags [of 5] clear_flags [of 6] clear_flags [of 7]
    by (simp add: rtc_line_inv_def rtc_irq_def rtc_level_step_def)
  show ?thesis using RtcRead u c by (simp add: cmos_port_read_def Let_def)
next
  case (RtcWrite time v)
  assume "rtc_line_inv s"
  then show ?thesis using RtcWrite by (simp add: cmos_port_write_def Let_def rtc_line_inv_def)
qed

interpretation rtcm: device_machine "\<lambda>_. True" rtc_step "RTC wall now" rtc_line_inv for wall now
  by unfold_locales (simp_all only: rtc_step_inv, simp add: rtc_line_inv_def RTC_def rtc_level_def)

text \<open>
  Claim C22. Without an HPET that takes its route, the interrupt line of the clock follows status
  register C in every reachable state: IRQ 8 is raised exactly while bit 7 is set, and that bit exactly while
  one of the periodic, alarm and update flags is; reading the register returns the flags and
  lowers the line.
\<close>

theorem rtc_interrupt_line:
  assumes "reachable (\<lambda>_. True) rtc_step (RTC wall now) s"
  shows "(rtc_level (rtc_log s) \<longleftrightarrow> bit (cmos_c s) 7) \<and>
    (bit (cmos_c s) 7 \<longleftrightarrow> bit (cmos_c s) 4 \<or> bit (cmos_c s) 5 \<or> bit (cmos_c s) 6) \<and>
    (let (c, s') = cmos_port_read True time (port70_write 0x0C s) in c = cmos_c s \<and> \<not> rtc_level (rtc_log s') \<and> \<not> bit (cmos_c s') 7)"
proof -
  have "rtc_line_inv s" by (rule rtcm.reachable_inv [OF assms])
  then show ?thesis
    using clear_flags [of 7] by (simp add: rtc_line_inv_def cmos_port_read_def port70_write_def update_time_def rtc_irq_def rtc_level_step_def Let_def)
qed

text \<open>The update interrupt enabled, and one second passed.\<close>

abbreviation update_events :: "rtc_event list" where
  "update_events \<equiv> [RtcSelect 0x0B, RtcWrite 0 0x12, RtcTimer False 1000]"

theorem rtc_interrupt_line_witness: "rtc_level (rtc_log (run rtc_step update_events (RTC 0 0)))"
proof -
  have "reachable (\<lambda>_. True) rtc_step (RTC 0 0) (run rtc_step update_events (RTC 0 0))"
    by (rule reachable_run [OF reachable.start]) simp
  from rtc_interrupt_line [OF this, of 0] show ?thesis
    by (simp add: rtc_timer_def port70_write_def cmos_port_write_def write_b_def update_time_def fire_periodic_def fire_alarm_def fire_update_def rtc_irq_def
        RTC_def Let_def)
qed

section \<open>The periodic interrupt and the alarm\<close>

text \<open>\<open>n'\<close> is the first of \<open>n\<close>, \<open>n + p\<close>, ... that lies beyond \<open>z\<close>.\<close>

definition first_beyond :: "rat \<Rightarrow> rat \<Rightarrow> rat \<Rightarrow> rat \<Rightarrow> bool" where
  "first_beyond n p z n' \<longleftrightarrow> (\<exists>k \<ge> 0. n' = n + of_int k * p \<and> z < n' \<and> (k \<noteq> 0 \<longrightarrow> n' - p \<le> z))"

lemma first_beyond_trans:
  assumes "first_beyond n p t n1" "first_beyond n1 p z n2" "t \<le> z"
  shows "first_beyond n p z n2"
proof -
  obtain k1 where k1: "k1 \<ge> 0" "n1 = n + of_int k1 * p" "t < n1" "k1 \<noteq> 0 \<longrightarrow> n1 - p \<le> t" using assms(1) by (auto simp: first_beyond_def)
  obtain k2 where k2: "k2 \<ge> 0" "n2 = n1 + of_int k2 * p" "z < n2" "k2 \<noteq> 0 \<longrightarrow> n2 - p \<le> z" using assms(2) by (auto simp: first_beyond_def)
  have "n2 = n + of_int (k1 + k2) * p" using k1(2) k2(2) by (simp add: algebra_simps)
  moreover have "n2 - p \<le> z" if "k1 + k2 \<noteq> 0"
  proof (cases "k2 = 0")
    case True
    then show ?thesis using that k1(4) k2(2) assms(3) by auto
  qed (use k2(4) in simp)
  ultimately show ?thesis unfolding first_beyond_def using k1(1) k2(1,3) by (metis add_nonneg_nonneg)
qed

definition rtc_serve :: "bool \<Rightarrow> bool \<Rightarrow> rat list \<Rightarrow> rtc \<Rightarrow> rtc" where
  "rtc_serve drives has_acpi ts s = fold (\<lambda>t s. snd (rtc_timer drives has_acpi t s)) ts s"

lemma rtc_timer_frame:
  "periodic_interrupt (snd (rtc_timer b a time s)) = periodic_interrupt s"
  "periodic_interrupt_time (snd (rtc_timer b a time s)) = periodic_interrupt_time s"
  "next_interrupt (snd (rtc_timer b a time s)) = next_interrupt (fire_periodic b time s)"
  by (simp_all add: rtc_timer_def fire_update_def fire_alarm_def fire_periodic_def rtc_irq_def update_time_def Let_def split: option.split)

lemma fire_periodic_next:
  assumes "periodic_interrupt s" "periodic_interrupt_time s = Some p" "0 < p" "next_interrupt s = Some n"
  shows "\<exists>n'. next_interrupt (fire_periodic b time s) = Some n' \<and> first_beyond n p time n'"
proof (cases "n \<le> time")
  case True
  let ?k = "\<lfloor>(time - n) / p\<rfloor> + 1"
  have "next_interrupt (fire_periodic b time s) = Some (n + of_int ?k * p)"
    using assms True by (simp add: fire_periodic_def rtc_irq_def Let_def mult.commute)
  moreover have "0 \<le> \<lfloor>(time - n) / p\<rfloor>" using True assms(3) by simp
  moreover have "of_int \<lfloor>(time - n) / p\<rfloor> * p \<le> time - n" "time - n < (of_int \<lfloor>(time - n) / p\<rfloor> + 1) * p"
    using floor_divide_lower [OF assms(3), of "time - n"] floor_divide_upper [OF assms(3), of "time - n"] by simp_all
  ultimately have "first_beyond n p time (n + of_int ?k * p)" unfolding first_beyond_def
    by (intro exI [of _ ?k] conjI) (auto simp: algebra_simps)
  then show ?thesis using \<open>next_interrupt (fire_periodic b time s) = Some (n + of_int ?k * p)\<close> by blast
next
  case False
  then have "next_interrupt (fire_periodic b time s) = Some n" using assms by (simp add: fire_periodic_def)
  then show ?thesis using False by (auto simp: first_beyond_def intro!: exI [of _ "0 :: int"])
qed

text \<open>
  The periodic interrupt keeps its phase: however the clock is served, at any times in order, the next
  interrupt after the last service is the first that lies strictly beyond it of those one period apart that the
  programming fixed.
\<close>

theorem rtc_periodic_phase:
  assumes "periodic_interrupt s" "periodic_interrupt_time s = Some p" "0 < p" "next_interrupt s = Some n" "sorted (ts @ [z])"
  shows "\<exists>n'. next_interrupt (rtc_serve b a (ts @ [z]) s) = Some n' \<and> first_beyond n p z n'"
  using assms
proof (induction ts arbitrary: s n)
  case Nil
  then show ?case using fire_periodic_next [of s p n b z] by (simp add: rtc_serve_def rtc_timer_frame)
next
  case (Cons t ts)
  let ?s = "snd (rtc_timer b a t s)"
  obtain n1 where n1: "next_interrupt ?s = Some n1" "first_beyond n p t n1"
    using fire_periodic_next [OF Cons.prems(1-4), of b t] by (auto simp: rtc_timer_frame)
  obtain n2 where n2: "next_interrupt (rtc_serve b a (ts @ [z]) ?s) = Some n2" "first_beyond n1 p z n2"
    using Cons.IH [of ?s n1] Cons.prems n1(1) by (auto simp: rtc_timer_frame)
  then show ?case using first_beyond_trans [OF n1(2) n2(2)] Cons.prems(5) by (simp add: rtc_serve_def)
qed

text \<open>The periodic interrupt enabled at the default rate of 1024 per second.\<close>

theorem rtc_periodic_phase_witness:
  "\<exists>n'. next_interrupt (rtc_serve True False ([3] @ [10]) (cmos_port_write 0 0x42 (port70_write 0x0B (RTC 0 0)))) = Some n' \<and>
     first_beyond (1000 / 1024) (1000 / 1024) 10 n'"
  by (rule rtc_periodic_phase)
     (simp_all add: cmos_port_write_def port70_write_def write_b_def update_time_def RTC_def Let_def)

text \<open>
  An alarm fires when the clock has reached the time of day in the alarm registers, on the day on which the alarm
  was enabled (up to the fraction of a millisecond that \<open>Date\<close> drops). A time of day that has passed
  already fires at once, not on the next day.
\<close>

lemma rtc_alarm_time:
  assumes "d = new_Date (rtc_time s)" "alarm = Date_UTC (getUTCFullYear d) (getUTCMonth d) (getUTCDate d) (uint (decode_time s (ucast (cmos_data s ! 5))))
      (uint (decode_time s (ucast (cmos_data s ! 3)))) (uint (decode_time s (ucast (cmos_data s ! 1))))"
    "last_update s = time"
  shows "next_interrupt_alarm (schedule_alarm time s) \<le> x \<longleftrightarrow>
    of_int alarm + (rtc_time s - of_int d) \<le> rtc_time (update_time x (schedule_alarm time s))"
  using assms by (auto simp: schedule_alarm_def update_time_def Let_def)

lemma rtc_past_alarm_fires:
  assumes "cmos_index s = 0x0B" "has_bits v 0x20" "\<not> has_bits v 0x80" "s' = cmos_port_write time v s"
    "next_interrupt_alarm s' \<noteq> 0" "next_interrupt_alarm s' < time"
  shows "bit (cmos_c (snd (rtc_timer b a time s'))) 5"
  using assms(5,6)
  by (auto simp: rtc_timer_def fire_alarm_def fire_update_def fire_periodic_def rtc_irq_def update_time_def Let_def
      simp del: push_bit_of_1 split: option.split)

text \<open>
  If register B enables the periodic interrupt while the rate is 0, choosing a rate afterwards does not start it.
\<close>

lemma rtc_rate_after_enable_never:
  "let s = cmos_port_write 2 0x26 (port70_write 0x0A (cmos_port_write 1 0x42 (port70_write 0x0B (cmos_port_write 0 0x20 (port70_write 0x0A (RTC 0 0))))))
   in periodic_interrupt s \<and> next_interrupt s = None"
  by code_simp

end
