(* ===== verification/Memory_Setup.thy ===== *)
theory Memory_Setup
  imports Rtc
begin

text \<open>
  The size of guest memory, from the settings to what the BIOS reads in the CMOS: \<open>create_memory\<close>,
  \<open>configure_high_memory\<close> and \<open>fill_cmos\<close> of \<open>src/cpu.js\<close>. The main results: the rounded size is
  a multiple of the block size and fits in 31 bits, and the CMOS registers add up to the memory the
  machine has.
\<close>

section \<open>Sizes\<close>

abbreviation (input) MMAP_BLOCK_SIZE :: int where "MMAP_BLOCK_SIZE \<equiv> 131072"

datatype memory_error = BadMemorySize | BadHighMemorySize | CannotMapHighMemory

text \<open>
  The size \<open>create_memory\<close> uses; None stands for a setting that is not a number. The \<open>|\<close> of
  the source works on 32 bits.
\<close>

definition create_memory_size :: "int option \<Rightarrow> int \<Rightarrow> memory_error + int" where
  "create_memory_size sz minimum_size =
     (case sz of
        None \<Rightarrow> Inl BadMemorySize
      | Some n \<Rightarrow>
          if \<not> n \<ge> 0 then Inl BadMemorySize
          else let max_size = 2 ^ 31 - MMAP_BLOCK_SIZE;
                   n1 = (if n < minimum_size then minimum_size else if n > max_size then max_size else n)
               in Inr (sint (word_of_int (sint (word_of_int (n1 - 1) OR (word_of_int (MMAP_BLOCK_SIZE - 1)) :: i32) + 1) :: i32)))"

text \<open>
  \<open>configure_high_memory\<close>: the size of the memory below 4 GiB. A setting that is missing or NaN is falsy, like 0;
  \<open>mapped\<close> is the result of \<open>x64_phys_set_window\<close>.
\<close>

definition configure_high_memory :: "jsnum \<Rightarrow> int \<Rightarrow> int \<Rightarrow> bool \<Rightarrow> memory_error + int" where
  "configure_high_memory sz low_minimum memory_size mapped =
     (if js_falsy sz then Inr memory_size
      else if \<not> is_safe_integer sz then Inl BadHighMemorySize
      else let n = \<lfloor>fin_val sz\<rfloor>; low = memory_size - n
           in if n < 0 \<or> n mod 2 ^ 20 \<noteq> 0 \<or> low < max (32 * 2 ^ 20) low_minimum then Inl BadHighMemorySize
              else if \<not> mapped then Inl CannotMapHighMemory
              else Inr low)"

section \<open>The CMOS\<close>

definition cmos_set :: "nat \<Rightarrow> int \<Rightarrow> rtc \<Rightarrow> rtc" where
  "cmos_set i v s = cmos_write (of_nat i) (word_of_int v) s"

text \<open>The shift of a number that is converted to 32 bits, and the byte of a number at a bit position.\<close>

definition shr32 :: "int \<Rightarrow> nat \<Rightarrow> int" where
  "shr32 x k = sint (signed_drop_bit k (word_of_int x :: i32))"

definition byte_at :: "int \<Rightarrow> nat \<Rightarrow> int" where
  "byte_at x k = shr32 x k AND 0xFF"

definition memory_above_1m :: "int \<Rightarrow> int" where
  "memory_above_1m low = (if low \<ge> 1024 * 1024 then min (shr32 (low - 1024 * 1024) 10) 0xFFFF else 0)"

definition memory_above_16m :: "int \<Rightarrow> int" where
  "memory_above_16m low = (if low \<ge> 16 * 1024 * 1024 then min (shr32 (low - 16 * 1024 * 1024) 16) 0xFFFF else 0)"

definition fill_cmos :: "int \<Rightarrow> bool \<Rightarrow> int \<Rightarrow> int \<Rightarrow> int \<Rightarrow> int \<Rightarrow> rtc \<Rightarrow> rtc" where
  "fill_cmos boot_order0 fastboot memory_size low_memory extended_pages cores s =
     (let boot_order = (if boot_order0 = 0 then 0x123 else boot_order0);
          high_memory = memory_size - low_memory + extended_pages * 4096;
          m1 = memory_above_1m low_memory; m16 = memory_above_16m low_memory;
          s1 = cmos_set 0x3D (boot_order AND 0xFF) (cmos_set 0x38 (1 OR (shr32 boot_order 4 AND 0xF0)) s);
          s2 = cmos_set 0x16 (640 div 256) (cmos_set 0x15 (640 AND 0xFF) s1);
          s3 = cmos_set 0x18 (byte_at m1 8) (cmos_set 0x17 (byte_at m1 0) s2);
          s4 = cmos_set 0x31 (byte_at m1 8) (cmos_set 0x30 (byte_at m1 0) s3);
          s5 = cmos_set 0x35 (byte_at m16 8) (cmos_set 0x34 (byte_at m16 0) s4);
          s6 = cmos_set 0x5D (byte_at (high_memory div 0x100000000) 0)
                 (cmos_set 0x5C (byte_at (high_memory div 0x1000000) 0) (cmos_set 0x5B (byte_at (high_memory div 0x10000) 0) s5));
          s7 = cmos_set 0x5F (cores - 1) (cmos_set 0x14 0x2F s6)
      in if fastboot then cmos_set 0x3F 0x01 s7 else s7)"

section \<open>Sizes are whole blocks\<close>

text \<open>Rounding up to a power of two by filling the bits below it.\<close>

lemma fill_low_bits: "((x :: int) OR mask n) + 1 = (x div 2 ^ n + 1) * 2 ^ n"
proof -
  have "x OR mask n = mask n OR push_bit n (drop_bit n x)" by (rule bit_eqI) (auto simp: bit_simps)
  also have "\<dots> = mask n + 2 ^ n * drop_bit n x" by (rule int_or_fields) (simp_all add: mask_eq_exp_minus_1)
  finally show ?thesis by (simp add: mask_eq_exp_minus_1 drop_bit_eq_div algebra_simps)
qed

lemma sint_small: "0 \<le> x \<Longrightarrow> x < 2 ^ 31 \<Longrightarrow> sint (word_of_int x :: i32) = x"
  by (simp add: signed_of_int signed_take_bit_int_eq_self)

lemma create_memory_rounds_lemma:
  assumes "0 < minimum_size" "minimum_size \<le> 2 ^ 31 - MMAP_BLOCK_SIZE"
  shows "case sz of
      None \<Rightarrow> create_memory_size sz minimum_size = Inl BadMemorySize
    | Some n \<Rightarrow> if n < 0 then create_memory_size sz minimum_size = Inl BadMemorySize
        else \<exists>m. create_memory_size sz minimum_size = Inr m \<and> m mod MMAP_BLOCK_SIZE = 0 \<and> minimum_size \<le> m \<and> m < 2 ^ 31 \<and>
               (min n (2 ^ 31 - MMAP_BLOCK_SIZE) \<le> m) \<and> m < max minimum_size n + MMAP_BLOCK_SIZE"
proof (cases sz)
  case (Some n)
  define c where "c = (if n < minimum_size then minimum_size else if n > 2 ^ 31 - MMAP_BLOCK_SIZE then 2 ^ 31 - MMAP_BLOCK_SIZE else n)"
  define r where "r = ((c - 1) div 2 ^ 17 + 1) * 2 ^ 17"
  have c: "0 < c" "c \<le> 2 ^ 31 - MMAP_BLOCK_SIZE" using assms by (auto simp: c_def)
  have d: "2 ^ 17 * ((c - 1) div 2 ^ 17) \<le> c - 1" "c - 1 < 2 ^ 17 * ((c - 1) div 2 ^ 17) + 2 ^ 17"
    using div_bounds [of "2 ^ 17" "c - 1"] by simp_all
  have r: "c \<le> r" "r < c + 2 ^ 17" "r mod MMAP_BLOCK_SIZE = 0" using d by (simp_all add: r_def)
  have "r < 2 ^ 31"
  proof -
    have "(c - 1) div 2 ^ 17 < 16383" using c(2) by (simp add: div_less_iff_less_mult)
    then show ?thesis by (simp add: r_def)
  qed
  have m: "(131071 :: int) = mask 17" by (simp add: mask_eq_exp_minus_1)
  have "word_of_int (c - 1) OR (word_of_int (MMAP_BLOCK_SIZE - 1)) = (word_of_int ((c - 1) OR mask 17) :: i32)"
    by (simp add: of_int_or_eq m [symmetric])
  moreover have "(c - 1) OR mask 17 = r - 1" using fill_low_bits [of "c - 1" 17] by (simp add: r_def)
  moreover have "sint (word_of_int (r - 1) :: i32) = r - 1" using r(1) c(1) \<open>r < 2 ^ 31\<close> by (intro sint_small) linarith+
  moreover have "sint (word_of_int r :: i32) = r" using r(1) c(1) \<open>r < 2 ^ 31\<close> by (intro sint_small) linarith+
  ultimately have e: "sint (word_of_int (sint (word_of_int (c - 1) OR (word_of_int (MMAP_BLOCK_SIZE - 1)) :: i32) + 1) :: i32) = r" by simp
  show ?thesis
  proof (cases "n < 0")
    case False
    then have "create_memory_size sz minimum_size = Inr r"
      unfolding create_memory_size_def Some Let_def option.case using e by (simp add: c_def)
    then show ?thesis using False Some r \<open>r < 2 ^ 31\<close> assms by (auto simp: c_def min_def max_def)
  qed (simp add: Some create_memory_size_def)
qed (simp add: create_memory_size_def)

text \<open>
  Claim C23. The size of guest memory: a size that is a number from 0 on is brought between the minimum and the
  largest block below 2 GiB and rounded up to whole blocks of 128 KiB, without overflow; anything else is
  refused.
\<close>

theorem create_memory_rounds:
  assumes "0 < minimum_size" "minimum_size \<le> 2 ^ 31 - MMAP_BLOCK_SIZE"
  shows "case sz of
      None \<Rightarrow> create_memory_size sz minimum_size = Inl BadMemorySize
    | Some n \<Rightarrow> if n < 0 then create_memory_size sz minimum_size = Inl BadMemorySize
        else \<exists>m. create_memory_size sz minimum_size = Inr m \<and> m mod MMAP_BLOCK_SIZE = 0 \<and> minimum_size \<le> m \<and> m < 2 ^ 31 \<and>
               (min n (2 ^ 31 - MMAP_BLOCK_SIZE) \<le> m) \<and> m < max minimum_size n + MMAP_BLOCK_SIZE"
  by (rule create_memory_rounds_lemma [OF assms])

theorem create_memory_rounds_witness:
  "\<exists>m. create_memory_size (Some 67108865) 1048576 = Inr m \<and> m mod MMAP_BLOCK_SIZE = 0 \<and> 1048576 \<le> m \<and> m < 2 ^ 31 \<and>
     (min 67108865 (2 ^ 31 - MMAP_BLOCK_SIZE) \<le> m) \<and> m < max 1048576 67108865 + MMAP_BLOCK_SIZE"
proof -
  have n: "\<not> (67108865 :: int) < 0" "(0 :: int) < 1048576" "(1048576 :: int) \<le> 2 ^ 31 - MMAP_BLOCK_SIZE" by simp_all
  show ?thesis using create_memory_rounds [OF n(2,3), of "Some 67108865"] by (simp only: option.case n(1) if_False)
qed

section \<open>The CMOS describes the memory\<close>

text \<open>
  \<open>configure_extended_memory\<close>: the pages beyond the memory of the WebAssembly module. \<open>store\<close> and
  \<open>frames\<close> tell whether the host could allocate the store and the cache.
\<close>

datatype extended_error = BadExtendedSize | BeyondAddressSpace | BadExtendedCache | NoStore | NoFrames

definition configure_extended_memory :: "jsnum \<Rightarrow> jsnum \<Rightarrow> int \<Rightarrow> int \<Rightarrow> bool \<Rightarrow> bool \<Rightarrow> extended_error + int" where
  "configure_extended_memory sz cache_size memory_size low_memory_size store frames =
     (if js_falsy sz then Inr 0
      else if \<not> is_safe_integer sz then Inl BadExtendedSize
      else let n = \<lfloor>fin_val sz\<rfloor>; base = 0x100000000 + (memory_size - low_memory_size)
           in if n < 0 \<or> n mod (2 * 2 ^ 20) \<noteq> 0 then Inl BadExtendedSize
              else if base + n > 0x1000000000 then Inl BeyondAddressSpace
              else let cache = js_min sz (if js_falsy cache_size then Fin (512 * 2 ^ 20) else cache_size);
                       k = \<lfloor>fin_val cache\<rfloor>
                   in if \<not> is_safe_integer cache \<or> k < 2 ^ 20 \<or> k mod 4096 \<noteq> 0 then Inl BadExtendedCache
                      else if \<not> store then Inl NoStore
                      else if \<not> frames then Inl NoFrames
                      else Inr (n div 4096))"

lemma shr32_div: "0 \<le> x \<Longrightarrow> x < 2 ^ 31 \<Longrightarrow> shr32 x k = x div 2 ^ k"
  by (simp add: shr32_def sint_signed_drop_bit_eq sint_small drop_bit_eq_div)

lemma byte_at_mod: "0 \<le> x \<Longrightarrow> x < 2 ^ 31 \<Longrightarrow> byte_at x k = x div 2 ^ k mod 256"
proof -
  have "y AND 0xFF = y mod 256" for y :: int
  proof -
    have "y AND mask 8 = take_bit 8 y" by (simp only: take_bit_eq_mask)
    then show ?thesis by (simp add: mask_eq_exp_minus_1 take_bit_eq_mod)
  qed
  then show "0 \<le> x \<Longrightarrow> x < 2 ^ 31 \<Longrightarrow> byte_at x k = x div 2 ^ k mod 256" by (simp add: byte_at_def shr32_div)
qed

lemma cmos_set_data: "i < 128 \<Longrightarrow> cmos_data (cmos_set i v s) = (cmos_data s)[i := word_of_int v]"
proof -
  assume i: "i < 128"
  have "i < 2 ^ 32" by (rule less_trans [OF i]) simp
  then have u: "unat (of_nat i :: i32) = i" by (simp add: unsigned_of_nat take_bit_nat_eq_self)
  have "ucast (word_of_int v :: i32) = (word_of_int v :: u8)" by (rule bit_word_eqI) (auto simp: bit_simps)
  then show ?thesis by (simp add: cmos_set_def cmos_write_def u)
qed

lemma cmos_bytes:
  assumes "length (cmos_data s) = 128" "u = fill_cmos bo fb memory_size low pages cores s"
  shows "cmos_data u ! 0x30 = word_of_int (byte_at (memory_above_1m low) 0)" "cmos_data u ! 0x31 = word_of_int (byte_at (memory_above_1m low) 8)"
    "cmos_data u ! 0x34 = word_of_int (byte_at (memory_above_16m low) 0)" "cmos_data u ! 0x35 = word_of_int (byte_at (memory_above_16m low) 8)"
    "cmos_data u ! 0x5B = word_of_int (byte_at ((memory_size - low + pages * 4096) div 0x10000) 0)"
    "cmos_data u ! 0x5C = word_of_int (byte_at ((memory_size - low + pages * 4096) div 0x1000000) 0)"
    "cmos_data u ! 0x5D = word_of_int (byte_at ((memory_size - low + pages * 4096) div 0x100000000) 0)"
  using assms by (simp_all add: fill_cmos_def Let_def cmos_set_data)

lemma uint_byte: "0 \<le> x \<Longrightarrow> x < 2 ^ 31 \<Longrightarrow> uint (word_of_int (byte_at x k) :: u8) = x div 2 ^ k mod 256"
  by (simp add: byte_at_mod unsigned_of_int take_bit_int_eq_self)

lemma two_bytes: "q mod 256 + 256 * (q div 256) = (q :: int)"
  by simp

lemma three_bytes: "q mod 256 + 256 * (q div 256 mod 256) + 65536 * (q div 256 div 256) = (q :: int)"
proof -
  have "q mod 256 + 256 * (q div 256 mod 256) + 65536 * (q div 256 div 256) = q mod 256 + 256 * (q div 256 mod 256 + 256 * (q div 256 div 256))"
    by (simp only: distrib_left)
  then show ?thesis by (simp only: two_bytes)
qed

text \<open>The sizes a machine can have, as the three functions above accept them.\<close>

definition memory_layout :: "int \<Rightarrow> int \<Rightarrow> int \<Rightarrow> bool" where
  "memory_layout memory_size low pages \<longleftrightarrow>
     (\<exists>sz minimum high_size low_minimum mapped ext_size cache store frames. 0 < minimum \<and> minimum \<le> 2 ^ 31 - MMAP_BLOCK_SIZE \<and>
        create_memory_size sz minimum = Inr memory_size \<and> configure_high_memory high_size low_minimum memory_size mapped = Inr low \<and>
        configure_extended_memory ext_size cache memory_size low store frames = Inr pages)"

lemma memory_layoutD:
  assumes "memory_layout memory_size low pages"
  shows "0 < memory_size" "low \<le> memory_size" "memory_size < 2 ^ 31" "low mod 65536 = 0" "(memory_size - low + pages * 4096) mod 65536 = 0"
    "0 \<le> pages" "memory_size - low + pages * 4096 \<le> 0xF00000000"
proof -
  obtain sz minimum high_size low_minimum mapped ext_size cache store frames where
    a: "0 < minimum" "minimum \<le> 2 ^ 31 - MMAP_BLOCK_SIZE" and c: "create_memory_size sz minimum = Inr memory_size" and
    h: "configure_high_memory high_size low_minimum memory_size mapped = Inr low" and
    e: "configure_extended_memory ext_size cache memory_size low store frames = Inr pages"
    using assms unfolding memory_layout_def by blast
  have m: "memory_size mod 131072 = 0" "minimum \<le> memory_size" "memory_size < 2 ^ 31"
    using create_memory_rounds_lemma [OF a, of sz] c by (auto split: option.splits if_splits)
  then show "0 < memory_size" "memory_size < 2 ^ 31" using a(1) by simp_all
  obtain n where n: "low = memory_size - n" "0 \<le> n" "n mod 2 ^ 20 = 0" "n \<le> memory_size"
    using h a(1) m(2) by (auto simp: configure_high_memory_def Let_def split: if_splits option.splits)
  show "low \<le> memory_size" using n by simp
  have "65536 dvd memory_size" "65536 dvd n" using m(1) n(3) by (auto simp: dvd_eq_mod_eq_0 [symmetric] intro: dvd_trans)
  moreover obtain k where k: "pages * 4096 = k" "0 \<le> k" "65536 dvd k" "n + k \<le> 0xF00000000"
  proof (cases "js_falsy ext_size")
    case True
    then show ?thesis using that [of 0] e n m(3) by (simp add: configure_extended_memory_def)
  next
    case False
    define x where "x = \<lfloor>fin_val ext_size\<rfloor>"
    from e False have "pages = x div 4096" "\<not> x < 0" "x mod (2 * 2 ^ 20) = 0" "\<not> 0x100000000 + (memory_size - low) + x > 0x1000000000"
      unfolding configure_extended_memory_def Let_def x_def [symmetric] by (simp_all split: if_splits)
    then show ?thesis using that [of x] n(1) by auto
  qed
  ultimately show "low mod 65536 = 0" "(memory_size - low + pages * 4096) mod 65536 = 0" "0 \<le> pages"
    "memory_size - low + pages * 4096 \<le> 0xF00000000"
    using n(1) by (auto simp: dvd_eq_mod_eq_0 [symmetric])
qed

text \<open>
  Claim C24. The BIOS learns the memory of the machine: whatever sizes of plain, relocated and extended memory the
  settings ask for, if they are accepted then the CMOS registers give exactly the memory
  above 4 GiB, and exactly the memory below it (from the registers for the memory above 16 MiB,
  and from those for the memory above 1 MiB in a smaller machine).
\<close>

theorem cmos_describes_memory:
  assumes "memory_layout memory_size low pages" "length (cmos_data s) = 128" "u = fill_cmos boot fast memory_size low pages cores s"
  shows "65536 * (uint (cmos_read 0x5B u) + 256 * uint (cmos_read 0x5C u) + 65536 * uint (cmos_read 0x5D u)) = memory_size - low + pages * 4096 \<and>
    (16 * 1024 * 1024 \<le> low \<longrightarrow> 16 * 1024 * 1024 + 65536 * (uint (cmos_read 0x34 u) + 256 * uint (cmos_read 0x35 u)) = low) \<and>
    (1024 * 1024 \<le> low \<and> low \<le> 16 * 1024 * 1024 \<longrightarrow> 1024 * 1024 + 1024 * (uint (cmos_read 0x30 u) + 256 * uint (cmos_read 0x31 u)) = low)"
proof (intro conjI impI)
  note l = memory_layoutD [OF assms(1)] and b = cmos_bytes [OF assms(2,3)]
  define h where "h = memory_size - low + pages * 4096"
  have h: "0 \<le> h" "h \<le> 0xF00000000" "h mod 65536 = 0" using l by (simp_all add: h_def)
  define q where "q = h div 65536"
  have q: "h = 65536 * q" "0 \<le> q" "q \<le> 0xF0000" using h by (auto simp: q_def)
  have d: "h div 0x1000000 = q div 256" "h div 0x100000000 = q div 65536" by (simp_all add: q_def zdiv_zmult2_eq [symmetric])
  have "uint (cmos_read 0x5B u) = q mod 256" "uint (cmos_read 0x5C u) = q div 256 mod 256" "uint (cmos_read 0x5D u) = q div 65536 mod 256"
    using b(5,6,7) q uint_byte [of q 0] uint_byte [of "q div 256" 0] uint_byte [of "q div 65536" 0]
    by (simp_all add: cmos_read_def h_def [symmetric] d q_def [symmetric])
  moreover have "q div 65536 mod 256 = q div 256 div 256" using q by (simp add: zdiv_zmult2_eq [symmetric])
  ultimately show "65536 * (uint (cmos_read 0x5B u) + 256 * uint (cmos_read 0x5C u) + 65536 * uint (cmos_read 0x5D u)) = memory_size - low + pages * 4096"
    unfolding h_def [symmetric] by (simp only: three_bytes q(1))
  assume a: "16 * 1024 * 1024 \<le> low"
  define r where "r = (low - 16 * 1024 * 1024) div 65536"
  have r: "low = 16 * 1024 * 1024 + 65536 * r" "0 \<le> r" "r < 32768" using l(2,3,4) a by (auto simp: r_def)
  have "shr32 (low - 16 * 1024 * 1024) 16 = r" unfolding r_def using a l(2,3) by (subst shr32_div) simp_all
  then have m: "memory_above_16m low = r" using a r(3) by (simp add: memory_above_16m_def)
  have "uint (cmos_read 0x34 u) = r mod 256" "uint (cmos_read 0x35 u) = r div 256 mod 256"
    using b(3,4) r(2,3) uint_byte [of r 0] uint_byte [of r 8] by (simp_all add: cmos_read_def m)
  moreover have "r div 256 mod 256 = r div 256" using r(2,3) by simp
  ultimately show "16 * 1024 * 1024 + 65536 * (uint (cmos_read 0x34 u) + 256 * uint (cmos_read 0x35 u)) = low"
    by (simp only: two_bytes r(1))
next
  note l = memory_layoutD [OF assms(1)] and b = cmos_bytes [OF assms(2,3)]
  assume a: "1024 * 1024 \<le> low \<and> low \<le> 16 * 1024 * 1024"
  define r where "r = (low - 1024 * 1024) div 1024"
  have r: "low = 1024 * 1024 + 1024 * r" "0 \<le> r" "r < 16384" using l(4) a by (auto simp: r_def)
  have "shr32 (low - 1024 * 1024) 10 = r" unfolding r_def using a by (subst shr32_div) simp_all
  then have m: "memory_above_1m low = r" using a r(3) by (simp add: memory_above_1m_def)
  have "uint (cmos_read 0x30 u) = r mod 256" "uint (cmos_read 0x31 u) = r div 256 mod 256"
    using b(1,2) r(2,3) uint_byte [of r 0] uint_byte [of r 8] by (simp_all add: cmos_read_def m)
  moreover have "r div 256 mod 256 = r div 256" using r(2,3) by simp
  ultimately show "1024 * 1024 + 1024 * (uint (cmos_read 0x30 u) + 256 * uint (cmos_read 0x31 u)) = low"
    by (simp only: two_bytes r(1))
qed

lemma layout_64m: "memory_layout 67108864 67108864 0"
  unfolding memory_layout_def
  by (rule exI [of _ "Some 67108864"], rule exI [of _ 1048576], rule exI [of _ "Fin 0"], rule exI [of _ 0], rule exI [of _ True],
      rule exI [of _ Not_A_Number], rule exI [of _ Not_A_Number], rule exI [of _ True], rule exI [of _ True])
     (simp add: create_memory_size_def configure_high_memory_def configure_extended_memory_def js_falsy_def)

theorem cmos_describes_memory_witness:
  "16 * 1024 * 1024 + 65536 * (uint (cmos_read 0x34 (fill_cmos 0 False 67108864 67108864 0 1 (RTC 0 0))) +
     256 * uint (cmos_read 0x35 (fill_cmos 0 False 67108864 67108864 0 1 (RTC 0 0)))) = 67108864"
  using cmos_describes_memory [OF layout_64m _ refl, of "RTC 0 0" 0 False 1] by (simp add: RTC_def)

end
