(* ===== verification/Timers.thy ===== *)
theory Timers
  imports Pit Rtc Hpet Shared_Irq
begin

text \<open>
  The hardware timers together: \<open>run_hardware_timers\<close> of \<open>src/cpu.js\<close>, which serves the interval
  timer, the clock and the HPET and tells the main loop how long the machine may sleep, and the
  two places where the devices meet: the legacy replacement route, by which the HPET takes IRQ 0
  and IRQ 8 from the others, and the I/O APIC inputs the HPET shares with other sources.
\<close>

section \<open>The service\<close>

record timer_devices =
  t_pit :: pit
  t_rtc :: rtc
  t_hpet :: "hpet option"

definition drives_irq0 :: "timer_devices \<Rightarrow> bool" where
  "drives_irq0 m \<longleftrightarrow> (case t_hpet m of None \<Rightarrow> True | Some h \<Rightarrow> \<not> legacy_replacement h)"

definition drives_irq8 :: "timer_devices \<Rightarrow> bool" where
  "drives_irq8 m \<longleftrightarrow> (case t_hpet m of None \<Rightarrow> True | Some h \<Rightarrow> \<not> legacy_replacement h)"

text \<open>
  The times that the display, ACPI and the local APICs return are arguments. A result that is not a
  number is None.
\<close>

definition run_hardware_timers ::
  "bool \<Rightarrow> bool \<Rightarrow> rat \<Rightarrow> rat \<Rightarrow> rat \<Rightarrow> rat \<Rightarrow> timer_devices \<Rightarrow> rat option \<times> timer_devices" where
  "run_hardware_timers has_acpi acpi_enabled display_time acpi_timer apic_timer now m =
     (let (pit_time, p) = pit_timer (drives_irq0 m) now False (t_pit m);
          m1 = m\<lparr>t_pit := p\<rparr>;
          (rtc_time, r) = rtc_timer (drives_irq8 m1) has_acpi now (t_rtc m1);
          m2 = m1\<lparr>t_rtc := r\<rparr>;
          (hpet_time, m3) = (case t_hpet m2 of
             None \<Rightarrow> (100, m2) | Some h \<Rightarrow> (let (w, h') = hpet_timer now h in (w, m2\<lparr>t_hpet := Some h'\<rparr>)));
          acpi_time = (if acpi_enabled then acpi_timer else 100);
          apic_time = (if acpi_enabled then apic_timer else 100)
      in (map_option (\<lambda>t. min (min (min (min (min t rtc_time) display_time) hpet_time) acpi_time) apic_time) pit_time, m3))"

section \<open>How long the machine may sleep\<close>

lemma pit_service_start:
  assumes "pit_wf s" "counter_reload s ! 0 \<noteq> 0" "(w, s') = pit_timer b now False s" "counter_enabled s' ! 0 \<noteq> 0" "counter_start_time s' ! 0 = Some t0"
  shows "t0 \<le> now"
proof (cases "counter_enabled s ! 0 \<noteq> 0 \<and> did_rollover 0 now s")
  case True
  define P where "P = pit_period (counter_reload s ! 0)"
  define d where "d = the (deadline 0 s)"
  have P: "0 < P" unfolding P_def by (rule pit_period_pos [OF assms(2)])
  have "counter_start_time (rearm now s) = (counter_start_time s)[0 := Some (d + of_int \<lfloor>(now - d) / P\<rfloor> * P)]"
    unfolding rearm_def Let_def P_def [symmetric] d_def [symmetric] using P by simp
  moreover have "counter_start_time s' = counter_start_time (rearm now s)"
    using assms(3) True by (auto simp: pit_timer_def pit_emit_def Let_def split: if_splits)
  ultimately have "counter_start_time s' ! 0 = Some (d + of_int \<lfloor>(now - d) / P\<rfloor> * P)"
    using assms(1) by (simp add: pit_wf_def)
  then have "t0 = d + of_int \<lfloor>(now - d) / P\<rfloor> * P" using assms(5) by simp
  moreover have "of_int \<lfloor>(now - d) / P\<rfloor> * P \<le> now - d" using floor_divide_lower [OF P, of "now - d"] by simp
  ultimately show ?thesis by simp
next
  case False
  then have "counter_start_time s' = counter_start_time s" "counter_enabled s' = counter_enabled s"
    using assms(3) by (auto simp: pit_timer_def pit_emit_def Let_def split: if_splits)
  then show ?thesis using False assms(4,5) by (auto simp: did_rollover_def split: if_splits)
qed

lemma pit_sleep:
  assumes "pit_wf s" "counter_reload s ! 0 \<noteq> 0" "pit_timer b now False s = (Some w, s')" "now \<le> t" "t < now + w" "counter_enabled s' ! 0 \<noteq> 0"
  shows "\<not> did_rollover 0 t s'"
proof -
  have "Some w = map_option (\<lambda>d. max 0 (d - now)) (deadline 0 s')"
    using assms(3,6) by (auto simp: pit_timer_def Let_def split: if_splits)
  then obtain d where d: "deadline 0 s' = Some d" "w = max 0 (d - now)" by (cases "deadline 0 s'") auto
  then obtain t0 where t0: "counter_start_time s' ! 0 = Some t0" by (cases "counter_start_time s' ! 0") (auto simp: deadline_def)
  have "t0 \<le> now" using pit_service_start [OF assms(1,2) assms(3) [symmetric] assms(6) t0] .
  moreover have "t < d" using d(2) assms(4,5) by (auto simp: max_def split: if_splits)
  ultimately show ?thesis using t0 d(1) assms(4) by (simp add: did_rollover_def)
qed

text \<open>No interrupt of the clock is due.\<close>

definition rtc_quiet :: "rat \<Rightarrow> rtc \<Rightarrow> bool" where
  "rtc_quiet t s \<longleftrightarrow> (periodic_interrupt s \<longrightarrow> (case next_interrupt s of Some n \<Rightarrow> n = 0 \<or> t < n | None \<Rightarrow> True)) \<and>
     (next_interrupt_alarm s \<noteq> 0 \<longrightarrow> t < next_interrupt_alarm s) \<and> (update_interrupt s \<longrightarrow> t < update_interrupt_time s)"

lemma rtc_sleep:
  assumes "rtc_timer b a now s = (w, s')" "now \<le> t" "t < now + w"
  shows "rtc_quiet t s'"
proof -
  have w: "w = rtc_wait now s'" using assms(1) by (auto simp: rtc_timer_def Let_def)
  have m: "t < x" if "w \<le> max 0 (x - now)" for x using that assms(2,3) by (auto simp: max_def split: if_splits)
  have "w \<le> max 0 (n - now)" if "periodic_interrupt s'" "next_interrupt s' = Some n" "n \<noteq> 0" for n
    using that by (auto simp: w rtc_wait_def Let_def min_le_iff_disj)
  moreover have "w \<le> max 0 (next_interrupt_alarm s' - now)" if "next_interrupt_alarm s' \<noteq> 0"
    using that by (auto simp: w rtc_wait_def Let_def min_le_iff_disj)
  moreover have "w \<le> max 0 (update_interrupt_time s' - now)" if "update_interrupt s'"
    using that by (simp add: w rtc_wait_def Let_def)
  ultimately show ?thesis unfolding rtc_quiet_def using m by (auto split: option.split)
qed

lemma min_deadline_le: "a = Some x \<or> b = Some x \<Longrightarrow> \<exists>y. min_deadline a b = Some y \<and> y \<le> x"
  by (cases a; cases b) (auto simp: min_deadline_def)

lemma hpet_wait:
  assumes "length (timers s) = 3" "running s" "hpet_timer now s = (w, s')" "i < 3" "tdeadline (timers s' ! i) = Some d"
  shows "w \<le> max 0 (of_int (d - counter now s) / TICKS_PER_MS)"
proof -
  let ?c = "counter now s"
  define s0 where "s0 = match_timer ?c 0 s"
  define s1 where "s1 = match_timer ?c 1 s0"
  define s2 where "s2 = match_timer ?c 2 s1"
  have len: "length (timers s0) = 3" "length (timers s1) = 3" "length (timers s2) = 3"
    using assms(1) by (simp_all add: s0_def s1_def s2_def match_timer_frame)
  have f: "tdeadline (timers s1 ! 0) = tdeadline (timers s0 ! 0)" "tdeadline (timers s2 ! 0) = tdeadline (timers s1 ! 0)"
    "tdeadline (timers s2 ! 1) = tdeadline (timers s1 ! 1)"
  proof -
    show "tdeadline (timers s1 ! 0) = tdeadline (timers s0 ! 0)"
      unfolding s1_def using tline_None_eqD(6) [OF match_timer_frame(5) [of 1 s0 0 ?c]] len(1) by simp
    show "tdeadline (timers s2 ! 0) = tdeadline (timers s1 ! 0)" "tdeadline (timers s2 ! 1) = tdeadline (timers s1 ! 1)"
      unfolding s2_def using tline_None_eqD(6) [OF match_timer_frame(5) [of 2 s1 0 ?c]]
        tline_None_eqD(6) [OF match_timer_frame(5) [of 2 s1 1 ?c]] len(2) by simp_all
  qed
  let ?n = "min_deadline (min_deadline (min_deadline None (tdeadline (timers s0 ! 0))) (tdeadline (timers s1 ! 1))) (tdeadline (timers s2 ! 2))"
  have s': "s' = s2" "w = (case ?n of None \<Rightarrow> 100 | Some d \<Rightarrow> min 100 (max 0 (of_int (d - ?c) / TICKS_PER_MS)))"
    using assms(2,3) by (auto simp: hpet_timer_def upt3 Let_def s0_def s1_def s2_def)
  have "\<exists>y. ?n = Some y \<and> y \<le> d"
  proof -
    have n0: "min_deadline None x = x" for x by (cases x) (simp_all add: min_deadline_def)
    from assms(4,5) s'(1) f have "tdeadline (timers s0 ! 0) = Some d \<or> tdeadline (timers s1 ! 1) = Some d \<or> tdeadline (timers s2 ! 2) = Some d"
      by (auto simp: less3)
    then show ?thesis unfolding n0 by (metis min_deadline_le order_trans)
  qed
  then obtain y where y: "?n = Some y" "y \<le> d" by blast
  have T: "0 < TICKS_PER_MS" by (simp add: TICKS_PER_MS_def)
  have "of_int (y - ?c) / TICKS_PER_MS \<le> of_int (d - ?c) / TICKS_PER_MS" using y(2) T by (simp add: divide_right_mono)
  then show ?thesis using s'(2) y(1) by (auto simp: min_def max_def)
qed

text \<open>Sleeping as long as the HPET says reaches the next match within one tick of its counter.\<close>

lemma hpet_sleep:
  assumes "length (timers s) = 3" "running s" "hpet_timer now s = (w, s')" "i < 3" "tdeadline (timers s' ! i) = Some d" "t \<le> now + w"
  shows "counter t s \<le> max (counter now s) d"
proof -
  have T: "0 < TICKS_PER_MS" by (simp add: TICKS_PER_MS_def)
  define x where "x = (now - base_time s) * TICKS_PER_MS"
  define k where "k = max 0 (d - counter now s)"
  have "t - now \<le> max 0 (of_int (d - counter now s) / TICKS_PER_MS)" using hpet_wait [OF assms(1-5)] assms(6) by linarith
  also have "\<dots> = of_int k / TICKS_PER_MS" using T by (cases "counter now s \<le> d") (simp_all add: k_def max_def divide_less_0_iff not_le)
  finally have "(t - now) * TICKS_PER_MS \<le> of_int k" using T by (simp add: pos_le_divide_eq)
  then have "(t - base_time s) * TICKS_PER_MS \<le> x + of_int k" by (simp add: x_def algebra_simps)
  then have "\<lfloor>(t - base_time s) * TICKS_PER_MS\<rfloor> \<le> \<lfloor>x\<rfloor> + k" by (metis floor_add_int floor_mono)
  then show ?thesis using assms(2) by (simp add: counter_def x_def k_def max_def split: if_splits)
qed

text \<open>The parts of a service.\<close>

lemma run_hardware_timers_eq:
  assumes p: "pit_timer (drives_irq0 m) now False (t_pit m) = (p0, pm)" and r: "rtc_timer (drives_irq8 m) a now (t_rtc m) = (r0, rm)"
    and h: "h = (case t_hpet m of None \<Rightarrow> (100, None) | Some h \<Rightarrow> map_prod id Some (hpet_timer now h))"
  shows "run_hardware_timers a e dt act pt now m =
      (map_option (\<lambda>t. min (min (min (min (min t r0) dt) (fst h)) (if e then act else 100)) (if e then pt else 100)) p0,
       m\<lparr>t_pit := pm, t_rtc := rm, t_hpet := snd h\<rparr>)"
proof -
  have d: "drives_irq8 (m\<lparr>t_pit := x\<rparr>) = drives_irq8 m" for x by (simp add: drives_irq8_def)
  show ?thesis unfolding h by (cases "t_hpet m") (simp_all add: run_hardware_timers_def Let_def p r d split: prod.split)
qed

lemma run_hardware_timers_parts:
  assumes "run_hardware_timers a e dt act pt now m = (Some w, m')"
  obtains wp wr where "pit_timer (drives_irq0 m) now False (t_pit m) = (Some wp, t_pit m')" "w \<le> wp"
    "rtc_timer (drives_irq8 m) a now (t_rtc m) = (wr, t_rtc m')" "w \<le> wr"
    "\<And>h. t_hpet m = Some h \<Longrightarrow> \<exists>wh h'. hpet_timer now h = (wh, h') \<and> t_hpet m' = Some h' \<and> w \<le> wh"
    "t_hpet m = None \<Longrightarrow> t_hpet m' = None"
proof -
  obtain p0 pm where p: "pit_timer (drives_irq0 m) now False (t_pit m) = (p0, pm)" by fastforce
  obtain r0 rm where r: "rtc_timer (drives_irq8 m) a now (t_rtc m) = (r0, rm)" by fastforce
  define x where "x = (if e then act else 100)"
  define y where "y = (if e then pt else 100)"
  define h where "h = (case t_hpet m of None \<Rightarrow> (100, None) | Some h \<Rightarrow> map_prod id Some (hpet_timer now h))"
  have "run_hardware_timers a e dt act pt now m =
      (map_option (\<lambda>t. min (min (min (min (min t r0) dt) (fst h)) x) y) p0, m\<lparr>t_pit := pm, t_rtc := rm, t_hpet := snd h\<rparr>)"
    unfolding x_def y_def by (rule run_hardware_timers_eq [OF p r h_def])
  with assms obtain wp where wp: "p0 = Some wp" "w = min (min (min (min (min wp r0) dt) (fst h)) x) y"
    and m': "m' = m\<lparr>t_pit := pm, t_rtc := rm, t_hpet := snd h\<rparr>" by auto
  have le: "w \<le> wp" "w \<le> r0" "w \<le> fst h" unfolding wp(2) by (simp_all add: min_le_iff_disj)
  show thesis
  proof (rule that [of wp r0])
    show "\<exists>wh h'. hpet_timer now hp = (wh, h') \<and> t_hpet m' = Some h' \<and> w \<le> wh" if "t_hpet m = Some hp" for hp
      using that le(3) by (cases "hpet_timer now hp") (simp add: m' h_def)
  qed (use p r wp(1) le m' in \<open>simp_all add: h_def\<close>)
qed

text \<open>
  Claim C25. A machine that sleeps as long as the service of its timers says misses nothing: at any moment before
  the end of that time, counter 0 of the interval timer has not run out and no interrupt of the
  clock is due, and at the end the HPET's counter has not passed the next match of a timer that was still
  ahead (so that a match is at most one tick of 70 ns late).
\<close>

theorem timers_sleep_misses_nothing:
  assumes "run_hardware_timers a e dt act pt now m = (Some w, m')" "pit_wf (t_pit m)" "counter_reload (t_pit m) ! 0 \<noteq> 0" "now \<le> t" "t < now + w"
  shows "(counter_enabled (t_pit m') ! 0 \<noteq> 0 \<longrightarrow> \<not> did_rollover 0 t (t_pit m')) \<and> rtc_quiet t (t_rtc m') \<and>
    (\<forall>h h' i d. t_hpet m = Some h \<and> length (timers h) = 3 \<and> running h \<and> t_hpet m' = Some h' \<and> i < 3 \<and> tdeadline (timers h' ! i) = Some d
       \<longrightarrow> counter (now + w) h \<le> max (counter now h) d)"
proof (rule run_hardware_timers_parts [OF assms(1)], intro conjI allI impI)
  fix wp wr
  assume p: "pit_timer (drives_irq0 m) now False (t_pit m) = (Some wp, t_pit m')" "w \<le> wp"
    and r: "rtc_timer (drives_irq8 m) a now (t_rtc m) = (wr, t_rtc m')" "w \<le> wr"
    and h: "\<And>h. t_hpet m = Some h \<Longrightarrow> \<exists>wh h'. hpet_timer now h = (wh, h') \<and> t_hpet m' = Some h' \<and> w \<le> wh"
  show "counter_enabled (t_pit m') ! 0 \<noteq> 0 \<Longrightarrow> \<not> did_rollover 0 t (t_pit m')"
    using pit_sleep [OF assms(2,3) p(1) assms(4)] p(2) assms(5) by simp
  show "rtc_quiet t (t_rtc m')" using rtc_sleep [OF r(1) assms(4)] r(2) assms(5) by simp
  fix hp h' i d
  assume x: "t_hpet m = Some hp \<and> length (timers hp) = 3 \<and> running hp \<and> t_hpet m' = Some h' \<and> i < 3 \<and> tdeadline (timers h' ! i) = Some d"
  then obtain wh where "hpet_timer now hp = (wh, h')" "w \<le> wh" using h [of hp] by auto
  then show "counter (now + w) hp \<le> max (counter now hp) d" using hpet_sleep [of hp now wh h' i d "now + w"] x by simp
qed

text \<open>A machine with an interval timer at 1000 Hz, without an HPET.\<close>

definition simple_machine :: timer_devices where
  "simple_machine = \<lparr>t_pit = program 4 0xA9 0x04 PIT, t_rtc = RTC 0 0, t_hpet = None\<rparr>"

lemma simple_machine_service:
  "fst (run_hardware_timers False False 100 100 100 (9 / 2) simple_machine) = Some (11930000000 / 11931816666 - 1 / 2)"
  "counter_enabled (t_pit (snd (run_hardware_timers False False 100 100 100 (9 / 2) simple_machine))) ! 0 = 1"
  by code_simp+

theorem timers_sleep_misses_nothing_witness:
  "rtc_quiet (9 / 2) (t_rtc (snd (run_hardware_timers False False 100 100 100 (9 / 2) simple_machine))) \<and>
   \<not> did_rollover 0 (9 / 2) (t_pit (snd (run_hardware_timers False False 100 100 100 (9 / 2) simple_machine)))"
proof -
  have r: "run_hardware_timers False False 100 100 100 (9 / 2) simple_machine =
      (Some (11930000000 / 11931816666 - 1 / 2), snd (run_hardware_timers False False 100 100 100 (9 / 2) simple_machine))"
    using simple_machine_service(1) by (metis prod.collapse)
  have p: "periodic 4 (lohi 0xA9 0x04) 0 (program 4 0xA9 0x04 PIT)" by (rule program_state [OF PIT_wf]) simp
  then have "pit_wf (t_pit simple_machine)" "counter_reload (t_pit simple_machine) ! 0 \<noteq> 0"
    by (simp_all add: simple_machine_def periodic_def)
  from timers_sleep_misses_nothing [OF r this, of "9 / 2"] show ?thesis using simple_machine_service(2) by simp
qed

section \<open>The legacy replacement route\<close>

text \<open>The events by which the timers can change an interrupt line, each with the reading of the clock.\<close>

datatype timers_event =
    RunTimers bool rat
  | PitCommand rat i32
  | RtcPortRead rat
  | HpetWrite rat i32 i32
  | HpetReset

fun timers_step :: "timers_event \<Rightarrow> timer_devices \<Rightarrow> timer_devices" where
  "timers_step (RunTimers has_acpi now) m = snd (run_hardware_timers has_acpi False 100 100 100 now m)"
| "timers_step (PitCommand now v) m = m\<lparr>t_pit := port43_write (drives_irq0 m) now v (t_pit m)\<rparr>"
| "timers_step (RtcPortRead now) m = m\<lparr>t_rtc := snd (cmos_port_read (drives_irq8 m) now (t_rtc m))\<rparr>"
| "timers_step (HpetWrite now off v) m = m\<lparr>t_hpet := map_option (write32 now off v) (t_hpet m)\<rparr>"
| "timers_step HpetReset m = m\<lparr>t_hpet := map_option hpet_reset (t_hpet m)\<rparr>"

text \<open>What the devices have done to IRQ 0 and 8.\<close>

definition pit_irqs :: "timer_devices \<Rightarrow> effect list" where
  "pit_irqs m = filter (\<lambda>e. e \<in> {RaiseIrq 0, LowerIrq 0}) (pit_log (t_pit m))"

definition rtc_irqs :: "timer_devices \<Rightarrow> rtc_effect list" where
  "rtc_irqs m = filter (\<lambda>e. e \<noteq> AcpiRtcAlarm) (rtc_log (t_rtc m))"

fun is_raise :: "hpet_effect \<Rightarrow> bool" where
  "is_raise (DeviceRaiseIrq n) = True"
| "is_raise _ = False"

definition raises :: "hpet \<Rightarrow> hpet_effect list" where
  "raises h = filter is_raise (hpet_log h)"

lemma raises_emit [simp]: "raises (hpet_emit e s) = raises s @ (if is_raise e then [e] else [])"
  by (simp add: raises_def)

lemma raises_fields [simp]:
  "raises (upd_timer i f s) = raises s" "raises (s\<lparr>isr := x\<rparr>) = raises s" "raises (s\<lparr>hconfig := y\<rparr>) = raises s"
  "raises (s\<lparr>counter_base := z\<rparr>) = raises s" "raises (s\<lparr>base_time := t\<rparr>) = raises s" "raises (arm i c s) = raises s"
  "raises (move_on i c s) = raises s" "raises (s\<lparr>timers := ts\<rparr>) = raises s"
  by (simp_all add: raises_def)

lemma legacy_fields [simp]:
  "legacy_replacement (hpet_emit e s) = legacy_replacement s" "legacy_replacement (upd_timer i f s) = legacy_replacement s"
  "legacy_replacement (s\<lparr>isr := x\<rparr>) = legacy_replacement s" "legacy_replacement (s\<lparr>counter_base := z\<rparr>) = legacy_replacement s"
  "legacy_replacement (s\<lparr>base_time := t\<rparr>) = legacy_replacement s" "legacy_replacement (arm i c s) = legacy_replacement s"
  "legacy_replacement (move_on i c s) = legacy_replacement s"
  by (simp_all add: legacy_replacement_def)

lemma raises_drive: "raises (drive i v l s) = raises s @ (if v \<and> line_irq l \<ge> 0 then [DeviceRaiseIrq (line_irq l)] else [])"
  by (simp add: drive_def)

lemma legacy_drive [simp]: "legacy_replacement (drive i v l s) = legacy_replacement s"
  by (simp add: legacy_replacement_def)

lemma raises_low [simp]: "raises (set_line i False s) = raises s" "legacy_replacement (set_line i False s) = legacy_replacement s"
  by (simp_all add: raises_drive split: option.split)

lemma legacy_set_line [simp]: "legacy_replacement (set_line i v s) = legacy_replacement s"
proof (cases v)
  case True
  then show ?thesis by (simp add: Let_def split: option.split)
qed (simp del: set_line.simps)

lemma route_legacy: "route i s = Some l \<Longrightarrow> line_irq l \<ge> 0 \<Longrightarrow> legacy_replacement s"
  by (auto simp: route_def legacy_replacement_def Let_def split: if_splits)

lemma raises_set_line: "\<not> legacy_replacement s \<Longrightarrow> raises (set_line i v s) = raises s"
proof (cases v)
  case True
  assume "\<not> legacy_replacement s"
  then have "route i s = Some l \<Longrightarrow> \<not> line_irq l \<ge> 0" for l using route_legacy by blast
  then show ?thesis using True by (simp add: Let_def raises_drive del: set_line.simps(2) split: option.split)
qed (simp del: set_line.simps)

lemma raises_ops:
  assumes "\<not> legacy_replacement s"
  shows "raises (fire i s) = raises s" "raises (update_level i s) = raises s"
    "\<not> legacy_replacement (fire i s)" "\<not> legacy_replacement (update_level i s)"
  using assms raises_set_line
  by (simp_all add: fire_def update_level_def Let_def del: set_line.simps push_bit_of_1)

lemma legacy_update_level [simp]: "legacy_replacement (update_level i s) = legacy_replacement s"
  by (simp add: update_level_def del: set_line.simps)

lemma legacy_fire [simp]: "legacy_replacement (fire i s) = legacy_replacement s"
  by (simp add: fire_def Let_def del: set_line.simps push_bit_of_1)

lemma match_timer_raises:
  "legacy_replacement (match_timer c i s) = legacy_replacement s"
  "\<not> legacy_replacement s \<Longrightarrow> raises (match_timer c i s) = raises s"
  by (simp_all add: match_timer_def raises_ops split: option.split)

lemma hpet_timer_raises:
  "legacy_replacement (snd (hpet_timer now s)) = legacy_replacement s"
  "\<not> legacy_replacement s \<Longrightarrow> raises (snd (hpet_timer now s)) = raises s"
proof -
  have "snd (hpet_timer now s) = (if running s then fold (match_timer (counter now s)) [0..<3] s else s)"
    using hpet_timer_state by (simp add: hpet_timer_def)
  then show "legacy_replacement (snd (hpet_timer now s)) = legacy_replacement s"
    "\<not> legacy_replacement s \<Longrightarrow> raises (snd (hpet_timer now s)) = raises s"
    by (simp_all add: upt3 match_timer_raises)
qed

lemma write_gen_conf_raises:
  assumes "\<not> legacy_replacement (write_gen_conf now c v s)"
  shows "raises (write_gen_conf now c v s) = raises s"
proof -
  define s1 where "s1 = s\<lparr>hconfig := v AND (ENABLE_CNF OR LEG_RT_CNF)\<rparr>"
  define s2 where "s2 = (if has_bits (hconfig s XOR hconfig s1) ENABLE_CNF
     then fold (\<lambda>i. arm i c) [0..<3] (s1\<lparr>counter_base := c, base_time := now\<rparr>) else s1)"
  have s2: "raises s2 = raises s" by (simp add: s2_def s1_def upt3)
  let ?r = "update_level 1 (update_level 0 (hpet_emit (DeviceLowerIrq 8) (hpet_emit (DeviceLowerIrq 0) (set_line 1 False (set_line 0 False s2)))))"
  have e: "write_gen_conf now c v s = (if has_bits (hconfig s XOR hconfig s2) LEG_RT_CNF then ?r else s2)"
    unfolding write_gen_conf_def Let_def s1_def [symmetric] s2_def [symmetric] by (rule refl)
  have "raises ?r = raises s2" if "\<not> legacy_replacement s2"
    using that by (simp add: raises_ops del: set_line.simps)
  moreover have "legacy_replacement ?r = legacy_replacement s2" by (simp del: set_line.simps)
  ultimately show ?thesis using assms s2 unfolding e by (simp split: if_splits)
qed

lemma write32_raises:
  assumes "\<not> legacy_replacement (write32 now off v s)"
  shows "raises (write32 now off v s) = raises s"
proof -
  have g: "off AND NOT 4 = 0x10 \<Longrightarrow> \<not> is_timer_offset off \<Longrightarrow> \<not> has_bits off 4 \<Longrightarrow> ?thesis"
    using assms write_gen_conf_raises [of now "counter now s" v s] by (simp add: write32_def Let_def)
  have l: "legacy_replacement (write_config i c v s) = legacy_replacement s"
    "legacy_replacement (write_comparator i hi c v s) = legacy_replacement s"
    "legacy_replacement (fold update_level [0..<3] (s\<lparr>isr := x\<rparr>)) = legacy_replacement s" for i c hi x
    by (simp_all add: write_config_def write_comparator_def Let_def upt3)
  have r: "raises (write_config i c v s) = raises s" "raises (write_comparator i hi c v s) = raises s"
    "raises (fold update_level [0..<3] (s\<lparr>isr := x\<rparr>)) = raises s" if "\<not> legacy_replacement s" for i c hi x
    using that by (simp_all add: write_config_def write_comparator_def Let_def upt3 raises_ops)
  show ?thesis
  proof (cases "\<not> is_timer_offset off \<and> off AND NOT 4 = 0x10 \<and> \<not> has_bits off 4")
    case False
    then have "legacy_replacement (write32 now off v s) = legacy_replacement s"
      using l by (auto simp: write32_def Let_def)
    then have "\<not> legacy_replacement s" using assms by simp
    then show ?thesis using False r by (auto simp: write32_def Let_def)
  qed (use g in blast)
qed

lemma hpet_reset_raises: "raises (hpet_reset s) = raises s"
  by (simp add: hpet_reset_def Let_def upt3 raises_def [of "_\<lparr>timers := _\<rparr>"] raises_def [symmetric] del: set_line.simps)

lemma pit_cut_off:
  "filter (\<lambda>e. e \<in> {RaiseIrq 0, LowerIrq 0}) (pit_log (snd (pit_timer False now n s))) = filter (\<lambda>e. e \<in> {RaiseIrq 0, LowerIrq 0}) (pit_log s)"
  "filter (\<lambda>e. e \<in> {RaiseIrq 0, LowerIrq 0}) (pit_log (port43_write False now v s)) = filter (\<lambda>e. e \<in> {RaiseIrq 0, LowerIrq 0}) (pit_log s)"
  by (simp_all add: pit_timer_def port43_write_def rearm_def pcspeaker_update_def pit_emit_def Let_def)

lemma rtc_cut_off:
  "filter (\<lambda>e. e \<noteq> AcpiRtcAlarm) (rtc_log (snd (rtc_timer False a now s))) = filter (\<lambda>e. e \<noteq> AcpiRtcAlarm) (rtc_log s)"
  "rtc_log (snd (cmos_port_read False now s)) = rtc_log s"
  by (simp_all add: rtc_timer_def fire_update_def fire_alarm_def fire_periodic_def rtc_irq_def update_time_def cmos_port_read_def Let_def
      split: option.split)

lemma run_hardware_timers_devices:
  "t_pit (snd (run_hardware_timers a e dt act pt now m)) = snd (pit_timer (drives_irq0 m) now False (t_pit m))"
  "t_rtc (snd (run_hardware_timers a e dt act pt now m)) = snd (rtc_timer (drives_irq8 m) a now (t_rtc m))"
  "t_hpet (snd (run_hardware_timers a e dt act pt now m)) = map_option (\<lambda>h. snd (hpet_timer now h)) (t_hpet m)"
proof -
  obtain p0 pm where p: "pit_timer (drives_irq0 m) now False (t_pit m) = (p0, pm)" by fastforce
  obtain r0 rm where r: "rtc_timer (drives_irq8 m) a now (t_rtc m) = (r0, rm)" by fastforce
  note e = run_hardware_timers_eq [OF p r refl, of e dt act pt]
  show "t_pit (snd (run_hardware_timers a e dt act pt now m)) = snd (pit_timer (drives_irq0 m) now False (t_pit m))"
    "t_rtc (snd (run_hardware_timers a e dt act pt now m)) = snd (rtc_timer (drives_irq8 m) a now (t_rtc m))"
    unfolding e p r by simp_all
  show "t_hpet (snd (run_hardware_timers a e dt act pt now m)) = map_option (\<lambda>h. snd (hpet_timer now h)) (t_hpet m)"
    unfolding e by (cases "t_hpet m") simp_all
qed

text \<open>
  The legacy replacement route is exclusive: while the HPET has it, nothing that happens to the timers
  lets the interval timer touch IRQ 0 or the clock touch IRQ 8; and as long as it does not have it, the HPET
  raises neither line.
\<close>

theorem legacy_route_exclusive:
  assumes "m' = timers_step e m"
  shows "(\<not> drives_irq0 m \<longrightarrow> pit_irqs m' = pit_irqs m \<and> rtc_irqs m' = rtc_irqs m) \<and>
    (\<forall>h h'. t_hpet m = Some h \<and> t_hpet m' = Some h' \<and> \<not> legacy_replacement h' \<longrightarrow> raises h' = raises h)"
proof -
  have d: "drives_irq8 m = drives_irq0 m" by (simp add: drives_irq0_def drives_irq8_def)
  show ?thesis
  proof (cases e)
    case (RunTimers a now)
    then show ?thesis using assms hpet_timer_raises
      by (auto simp: run_hardware_timers_devices pit_irqs_def rtc_irqs_def pit_cut_off [simplified] rtc_cut_off d)
  next
    case (PitCommand now v)
    then show ?thesis using assms by (auto simp: pit_irqs_def rtc_irqs_def pit_cut_off [simplified])
  next
    case (RtcPortRead now)
    then show ?thesis using assms by (auto simp: pit_irqs_def rtc_irqs_def rtc_cut_off d)
  next
    case (HpetWrite now off v)
    then show ?thesis using assms write32_raises by (auto simp: pit_irqs_def rtc_irqs_def)
  next
    case HpetReset
    then show ?thesis using assms by (auto simp: pit_irqs_def rtc_irqs_def hpet_reset_raises)
  qed
qed

text \<open>A machine whose HPET has the legacy route and runs.\<close>

definition legacy_machine :: timer_devices where
  "legacy_machine = simple_machine\<lparr>t_hpet := Some ((HPET True)\<lparr>hconfig := 3\<rparr>)\<rparr>"

theorem legacy_route_exclusive_witness:
  "pit_irqs (timers_step (RunTimers False 100) legacy_machine) = pit_irqs legacy_machine"
  using legacy_route_exclusive [OF refl, where e = "RunTimers False 100" and m = legacy_machine]
  by (simp add: drives_irq0_def legacy_machine_def legacy_replacement_def)

section \<open>Inputs shared with other devices\<close>

text \<open>The calls of \<open>set_shared_gsi_level\<close> among the effects of the HPET, as events of the shared lines.\<close>

fun gsi_event :: "hpet_effect \<Rightarrow> line_event list" where
  "gsi_event (SetSharedGsiLevel g src v) = [DriveGsi (nat g) src v]"
| "gsi_event _ = []"

definition gsi_events :: "hpet_effect list \<Rightarrow> line_event list" where
  "gsi_events es = concat (map gsi_event es)"

fun line_source :: "line_event \<Rightarrow> int option" where
  "line_source (DriveIrq n src v) = Some src"
| "line_source (DriveGsi n src v) = Some src"
| "line_source ResetLines = None"

definition hpet_sources :: "int set" where
  "hpet_sources = {HPET_SOURCE, HPET_SOURCE + 1, HPET_SOURCE + 2}"

definition from_hpet :: "line_event \<Rightarrow> bool" where
  "from_hpet e \<longleftrightarrow> line_source e \<in> Some ` hpet_sources"

lemma demand_snoc: "demand (es @ [e]) = demand_step e (demand es)"
  by (simp add: demand_def run_append)

lemma demand_filter:
  assumes "src \<in> hpet_sources"
  shows "ResetLines \<notin> set es \<Longrightarrow> demand es (n, src) = demand (filter from_hpet es) (n, src)"
proof (induction es rule: rev_induct)
  case (snoc e es)
  then show ?case using assms by (cases e) (auto simp: demand_snoc from_hpet_def)
qed simp

lemma gsi_events_snoc: "gsi_events (es @ [e]) = gsi_events es @ gsi_event e"
  by (simp add: gsi_events_def)

text \<open>A timer demands an input exactly if it asserts it.\<close>

lemma demand_asserted:
  "16 \<le> g \<Longrightarrow> demand (gsi_events es) (nat g, HPET_SOURCE + int i) = asserted i \<lparr>line_irq = -1, line_gsi = g\<rparr> es"
proof (induction es rule: rev_induct)
  case Nil
  then show ?case by (simp add: gsi_events_def demand_def asserted_def)
next
  case (snoc e es)
  show ?case
  proof (cases e)
    case (SetSharedGsiLevel g' src v)
    then have "(nat g = nat g') = (g = g')" using snoc.prems by auto
    then show ?thesis using snoc SetSharedGsiLevel by (auto simp: gsi_events_snoc demand_snoc lvl_def)
  qed (use snoc in \<open>auto simp: gsi_events_snoc lvl_def\<close>)
qed

text \<open>
  Claim C26. The HPET on the shared inputs of the I/O APIC: in a machine in which the HPET and any other
  devices drive the inputs, in any order of their calls, an input from 20 to 23 is asserted exactly if the
  line of some timer of the HPET is that input, or some other source drove it high last.
\<close>

theorem hpet_shared_inputs:
  assumes "reachable hpet_ok hpet_step (0, HPET msi) (t, s)" "20 \<le> g" "g \<le> 23"
    "filter from_hpet es = gsi_events (hpet_log s)" "list_all line_ok es" "ResetLines \<notin> set es"
  shows "line_level (nat g) (line_log (run line_step es shared_irqs_init)) \<longleftrightarrow>
    (\<exists>i<3. tline (timers s ! i) = Some \<lparr>line_irq = -1, line_gsi = g\<rparr>) \<or> (\<exists>src. src \<notin> hpet_sources \<and> demand es (nat g, src))"
proof -
  have i: "lines_inv s" using hpetm.reachable_inv [OF assms(1)] by simp
  have l: "\<lparr>line_irq = -1, line_gsi = g\<rparr> \<in> lines_of k" for k using assms(2,3) by (simp add: lines_of_def)
  have a: "demand es (nat g, HPET_SOURCE + int k) \<longleftrightarrow> tline (timers s ! k) = Some \<lparr>line_irq = -1, line_gsi = g\<rparr>" if "k < 3" for k
  proof -
    have src: "HPET_SOURCE + int k \<in> hpet_sources" using that by (auto simp: less3 hpet_sources_def)
    have "demand es (nat g, HPET_SOURCE + int k) = demand (gsi_events (hpet_log s)) (nat g, HPET_SOURCE + int k)"
      using demand_filter [OF src assms(6)] assms(4) by simp
    also have "\<dots> = asserted k \<lparr>line_irq = -1, line_gsi = g\<rparr> (hpet_log s)" using assms(2) by (intro demand_asserted) simp
    also have "\<dots> \<longleftrightarrow> tline (timers s ! k) = Some \<lparr>line_irq = -1, line_gsi = g\<rparr>" by (rule lines_okD(2) [OF lines_invD(1) [OF i] that l])
    finally show ?thesis .
  qed
  have inv: "line_inv (demand es) (run line_step es shared_irqs_init)"
    unfolding demand_def by (rule line_inv_run [OF assms(5) shared_irqs_init_inv])
  have "line_level (nat g) (line_log (run line_step es shared_irqs_init)) \<longleftrightarrow> (\<exists>src. demand es (nat g, src))"
    by (rule line_inv_level [OF inv]) (use assms(3) in simp)
  also have "\<dots> \<longleftrightarrow> (\<exists>src \<in> hpet_sources. demand es (nat g, src)) \<or> (\<exists>src. src \<notin> hpet_sources \<and> demand es (nat g, src))" by blast
  also have "(\<exists>src \<in> hpet_sources. demand es (nat g, src)) \<longleftrightarrow> (\<exists>k<3. tline (timers s ! k) = Some \<lparr>line_irq = -1, line_gsi = g\<rparr>)"
    using a [of 0] a [of 1] a [of 2] by (auto simp: hpet_sources_def less3)
  finally show ?thesis .
qed

theorem hpet_shared_inputs_witness:
  "line_level 20 (line_log (run line_step (DriveGsi 20 9 True # gsi_events (hpet_log (snd (run hpet_step level_events (0, HPET True)))) @ [DriveGsi 20 9 False]) shared_irqs_init))"
proof -
  let ?s = "snd (run hpet_step level_events (0, HPET True))"
  have l: "tline (timers ?s ! 0) = Some input20 \<and> gsi_events (hpet_log ?s) = [DriveGsi 20 HPET_SOURCE True]" by code_simp
  have f: "filter from_hpet (DriveGsi 20 9 True # gsi_events (hpet_log ?s) @ [DriveGsi 20 9 False]) = gsi_events (hpet_log ?s)"
    using l by (simp add: from_hpet_def hpet_sources_def)
  show ?thesis
    using hpet_shared_inputs [OF level_events_reachable, of 20 "DriveGsi 20 9 True # gsi_events (hpet_log ?s) @ [DriveGsi 20 9 False]"] f l by auto
qed

end
