(* ===== verification/Acpi.thy ===== *)
theory Acpi
  imports Tco Shared_Irq "HOL-Library.Sublist"
begin

text \<open>
  ACPI fixed hardware, \<open>src/acpi.js\<close>: the PIIX4 power management function of the i440FX machine or
  the power management block of the ICH9 (Q35), with the parts of the layout it reads from
  \<open>src/platform.js\<close>. The readings of the machine clock are arguments, in exact milliseconds. What
  the device does to the machine (its level on the shared SCI line, system management interrupts, the
  messages to the host, the I/O ranges it decodes, the sleep and wake calls of the CPU) is recorded in
  order. A call of \<open>reboot_internal\<close> resets this device before it returns unless it has to wait for
  a running instruction or a worker; \<open>deferred\<close> says which.
\<close>

section \<open>Registers\<close>

abbreviation (input) TMR :: i32 where "TMR \<equiv> 0x1"
abbreviation (input) PWRBTN :: i32 where "PWRBTN \<equiv> 0x100"
abbreviation (input) RTC_STS :: i32 where "RTC_STS \<equiv> 0x400"
abbreviation (input) WAK :: i32 where "WAK \<equiv> 0x8000"
abbreviation (input) PM1_STS_MASK :: i32 where "PM1_STS_MASK \<equiv> 0x8731"
abbreviation (input) PM1_EN_MASK :: i32 where "PM1_EN_MASK \<equiv> 0x721"
abbreviation (input) SCI_EN :: i32 where "SCI_EN \<equiv> 0x1"
abbreviation (input) SLP_TYP :: i32 where "SLP_TYP \<equiv> 0x1C00"
abbreviation (input) SLP_EN :: i32 where "SLP_EN \<equiv> 0x2000"
abbreviation (input) PM1_CNT_WRITABLE :: i32 where "PM1_CNT_WRITABLE \<equiv> 0x1C02"
abbreviation (input) PM_GLBCTL :: nat where "PM_GLBCTL \<equiv> 0x28"
abbreviation (input) ICH9_PM_SMI_EN :: nat where "ICH9_PM_SMI_EN \<equiv> 0x30"
abbreviation (input) ICH9_PM_SMI_STS :: nat where "ICH9_PM_SMI_STS \<equiv> 0x34"
abbreviation (input) ICH9_PM_TCO :: nat where "ICH9_PM_TCO \<equiv> 0x60"
abbreviation (input) ICH9_TCO_LENGTH :: nat where "ICH9_TCO_LENGTH \<equiv> 0x20"
abbreviation (input) ICH9_SMI_APM :: i32 where "ICH9_SMI_APM \<equiv> 0x20"
abbreviation (input) SMI_TCO :: i32 where "SMI_TCO \<equiv> 0x2000"
abbreviation (input) PM_TIMER_TICKS_PER_MS :: rat where "PM_TIMER_TICKS_PER_MS \<equiv> 3579545 / 1000"
abbreviation (input) PM_TIMER_STATUS_PERIOD :: int where "PM_TIMER_STATUS_PERIOD \<equiv> 8388608"
abbreviation (input) ACPI_SCI_IRQ :: nat where "ACPI_SCI_IRQ \<equiv> 9"
abbreviation (input) ACPI_SCI_SOURCE :: int where "ACPI_SCI_SOURCE \<equiv> 0x100"

text \<open>The layout of the two machines, \<open>platform.pm\<close> and \<open>platform.sleep_states\<close>.\<close>

record pm_layout =
  pm_length :: nat
  gpe0_offset :: int
  gpe0_base :: int
  gpe0_length :: nat
  acpi_enable :: i32
  acpi_disable :: i32

definition platform_pm :: "bool \<Rightarrow> pm_layout" where
  "platform_pm q35 =
     (if q35 then \<lparr>pm_length = 0x80, gpe0_offset = 0x20, gpe0_base = -1, gpe0_length = 0x10, acpi_enable = 0x02, acpi_disable = 0x03\<rparr>
      else \<lparr>pm_length = 0x40, gpe0_offset = -1, gpe0_base = 0xAFE0, gpe0_length = 4, acpi_enable = 0xF1, acpi_disable = 0xF0\<rparr>)"

record sleep_state =
  state_no :: nat
  slp_typ :: i32
  supported :: bool

definition ACPI_SLEEP_STATES :: "sleep_state list" where
  "ACPI_SLEEP_STATES =
     [\<lparr>state_no = 3, slp_typ = 1, supported = True\<rparr>, \<lparr>state_no = 4, slp_typ = 2, supported = True\<rparr>,
      \<lparr>state_no = 5, slp_typ = 0, supported = True\<rparr>]"

definition Q35_SLEEP_STATES :: "sleep_state list" where
  "Q35_SLEEP_STATES = map (\<lambda>s. \<lparr>state_no = state_no s, slp_typ = slp_typ s, supported = (state_no s = 5)\<rparr>) ACPI_SLEEP_STATES"

definition sleep_states :: "bool \<Rightarrow> sleep_state list" where
  "sleep_states q35 = (if q35 then Q35_SLEEP_STATES else ACPI_SLEEP_STATES)"

definition acpi_system_states_file :: "bool \<Rightarrow> u8 list" where
  "acpi_system_states_file q35 =
     fold (\<lambda>s states. states[state_no s := (if supported s then 0x80 else 0) OR ucast (slp_typ s)])
       (sleep_states q35) ((replicate 6 0)[0 := 0x80])"

section \<open>State\<close>

datatype acpi_effect =
    SciLevel bool
  | CpuSmi "nat option"
  | Announce string string
  | CmosWrite nat nat
  | EnterSleep
  | RequestReboot string
  | UnregisterRange int nat
  | RegisterBlock int nat
  | Deassert

text \<open>
  \<open>shared\<close> is the PM base, the timer offset and the timer's maximum in the memory that the vCPU
  workers read, None while it is not shared. \<open>pmba\<close> and \<open>pmregmisc\<close> are the two words of the PIIX4's
  configuration space that the device looks at.
\<close>

record acpi =
  ich9 :: bool
  pmba :: i32
  pmregmisc :: i32
  pm_base :: int
  pm1_sts :: i32
  pm1_en :: i32
  pm1_cnt :: i32
  gpe_sts :: i32
  gpe_en :: i32
  smi_cmd :: i32
  glbctl :: i32
  smi_en :: i32
  smi_sts :: i32
  acpi_tco :: "tco option"
  apm_sts :: i32
  soft_off :: nat
  sleeping :: nat
  sci_level :: bool
  timer_last :: int
  timer_offset :: int
  timer_period :: int
  shared :: "(int \<times> int \<times> int) option"
  acpi_log :: "acpi_effect list"

definition acpi_emit :: "acpi_effect \<Rightarrow> acpi \<Rightarrow> acpi" where
  "acpi_emit e s = s\<lparr>acpi_log := acpi_log s @ [e]\<rparr>"

section \<open>The system control interrupt\<close>

definition sci_demand :: "acpi \<Rightarrow> bool" where
  "sci_demand s \<longleftrightarrow> has_bits (pm1_cnt s) SCI_EN \<and>
     (has_bits (pm1_sts s AND pm1_en s) PM1_EN_MASK \<or> has_bits (gpe_sts s) (gpe_en s))"

definition update_sci :: "acpi \<Rightarrow> acpi" where
  "update_sci s = (let level = sci_demand s
     in if level \<noteq> sci_level s then acpi_emit (SciLevel level) (s\<lparr>sci_level := level\<rparr>) else s)"

text \<open>\<open>has\<close>: the restored set of sources of the line has the SCI.\<close>

definition sync_sci :: "bool \<Rightarrow> acpi \<Rightarrow> acpi" where
  "sync_sci has s = update_sci (s\<lparr>sci_level := has\<rparr>)"

definition raise_smi :: "i32 \<Rightarrow> nat option \<Rightarrow> acpi \<Rightarrow> acpi" where
  "raise_smi bits core s =
     (if \<not> has_bits (smi_en s) bits then s
      else acpi_emit (CpuSmi core) (s\<lparr>smi_sts := smi_sts s OR bits\<rparr>))"

section \<open>Decoding of the PM block\<close>

definition publish_timer :: "acpi \<Rightarrow> acpi" where
  "publish_timer s = s\<lparr>shared := map_option (\<lambda>(_, _, l). (pm_base s, timer_offset s, l)) (shared s)\<rparr>"

definition share_timer :: "acpi \<Rightarrow> acpi" where
  "share_timer s = publish_timer (s\<lparr>shared := Some (0, 0, timer_last s)\<rparr>)"

definition set_pm_decode :: "int \<Rightarrow> acpi \<Rightarrow> acpi" where
  "set_pm_decode base s =
     (if base = pm_base s then s
      else let len = pm_length (platform_pm (ich9 s));
               s1 = (if pm_base s \<noteq> -1 then acpi_emit (UnregisterRange (pm_base s) len) s else s);
               s2 = publish_timer (s1\<lparr>pm_base := base\<rparr>)
           in if base \<noteq> -1 then acpi_emit (RegisterBlock base len) s2 else s2)"

definition update_pm_decode :: "acpi \<Rightarrow> acpi" where
  "update_pm_decode s =
     (let p = pmba s AND 0xFFC0; s1 = s\<lparr>pmba := p OR 1\<rparr>;
          enabled = has_bits (pmregmisc s1) 1
      in set_pm_decode (if enabled \<and> p \<noteq> 0 then sint p else -1) s1)"

definition reset_pm_config :: "acpi \<Rightarrow> acpi" where
  "reset_pm_config s =
     (if ich9 s then s else update_pm_decode (s\<lparr>pmba := 1, pmregmisc := pmregmisc s AND NOT 0xFF\<rparr>))"

text \<open>\<open>on_config_write\<close> of the PIIX4 function, after the word of the configuration space has changed.\<close>

definition on_config_write :: "nat \<Rightarrow> i32 \<Rightarrow> acpi \<Rightarrow> acpi" where
  "on_config_write offset v s =
     (if offset div 4 = 0x40 div 4 then update_pm_decode (s\<lparr>pmba := v\<rparr>)
      else if offset div 4 = 0x80 div 4 then update_pm_decode (s\<lparr>pmregmisc := v\<rparr>)
      else s)"

section \<open>Construction and reset\<close>

text \<open>
  The GPE0 block of the PIIX4 is registered at its fixed base; the handlers of the SMI command and APM status
  ports are \<open>smi_cmd_write\<close> and \<open>apm_sts_write\<close> below.
\<close>

definition ACPI :: "bool \<Rightarrow> rat \<Rightarrow> acpi" where
  "ACPI q35 now =
     (let s = reset_pm_config
       \<lparr>ich9 = q35, pmba = 0, pmregmisc = 0, pm_base = -1, pm1_sts = 0, pm1_en = 0, pm1_cnt = 0, gpe_sts = 0, gpe_en = 0,
        smi_cmd = 0, glbctl = 0, smi_en = 0, smi_sts = 0, acpi_tco = (if q35 then Some TCO else None), apm_sts = 0,
        soft_off = 0, sleeping = 0, sci_level = False,
        timer_last = 0, timer_offset = - \<lfloor>now * PM_TIMER_TICKS_PER_MS\<rfloor>, timer_period = 0, shared = None, acpi_log = []\<rparr>
      in if q35 then s
         else acpi_emit (RegisterBlock (gpe0_base (platform_pm q35)) (gpe0_length (platform_pm q35))) s)"

definition acpi_reset :: "acpi \<Rightarrow> acpi" where
  "acpi_reset s = reset_pm_config (update_sci
     (s\<lparr>pm1_sts := 0, pm1_en := 0, pm1_cnt := 0, gpe_sts := 0, gpe_en := 0, smi_cmd := 0, glbctl := 0, smi_en := 0, smi_sts := 0,
        apm_sts := 0, acpi_tco := map_option tco_reset (acpi_tco s), soft_off := 0, sleeping := 0\<rparr>))"

text \<open>
  A reset of the machine, as far as this device takes part: its own reset, and after it every source of
  the shared lines is deasserted.
\<close>

definition reboot_internal :: "bool \<Rightarrow> string \<Rightarrow> acpi \<Rightarrow> acpi" where
  "reboot_internal deferred reason s =
     (let s1 = acpi_emit (RequestReboot reason) s in if deferred then s1 else acpi_emit Deassert (acpi_reset s1))"

text \<open>The effects of a call of the watchdog: a call of its \<open>smi\<close> callback, or a reset of the machine.\<close>

fun tco_callback :: "bool \<Rightarrow> tco_effect \<Rightarrow> acpi \<Rightarrow> acpi" where
  "tco_callback deferred Smi s = raise_smi SMI_TCO (Some 0) s"
| "tco_callback deferred (Reboot r) s = reboot_internal deferred r s"

definition with_tco :: "bool \<Rightarrow> (tco \<Rightarrow> tco) \<Rightarrow> acpi \<Rightarrow> acpi" where
  "with_tco deferred f s =
     (case acpi_tco s of None \<Rightarrow> s
      | Some t \<Rightarrow> let t' = f t
          in fold (tco_callback deferred) (drop (length (tco_log t)) (tco_log t')) (s\<lparr>acpi_tco := Some t'\<rparr>))"

section \<open>General purpose events\<close>

abbreviation gpe_half :: "acpi \<Rightarrow> nat" where
  "gpe_half s \<equiv> gpe0_length (platform_pm (ich9 s)) div 2"

definition byte_of :: "i32 \<Rightarrow> nat \<Rightarrow> i32" where
  "byte_of v i = drop_bit (i * 8) v AND 0xFF"

definition gpe_read :: "nat \<Rightarrow> nat \<Rightarrow> acpi \<Rightarrow> i32" where
  "gpe_read offset sz s =
     (let half = gpe_half s
      in fold (\<lambda>i value.
           let o1 = offset + i;
               register = (if o1 < half then gpe_sts s else gpe_en s);
               index = (if o1 < half then o1 else o1 - half);
               byte = (if index < 4 then byte_of register index else 0)
           in value OR push_bit (i * 8) byte) [0..<sz] 0)"

definition gpe_write_byte :: "nat \<Rightarrow> i32 \<Rightarrow> acpi \<Rightarrow> acpi" where
  "gpe_write_byte o1 byte s =
     (let half = gpe_half s; bits_mask = (if half \<ge> 4 then -1 else push_bit (half * 8) 1 - 1);
          index = (if o1 < half then o1 else o1 - half)
      in if index \<ge> 4 then s
         else let shift = index * 8; bits = push_bit shift byte
              in if o1 < half then s\<lparr>gpe_sts := (gpe_sts s AND NOT bits) AND bits_mask\<rparr>
                 else s\<lparr>gpe_en := (gpe_en s AND NOT (push_bit shift 0xFF) OR bits) AND bits_mask\<rparr>)"

definition gpe_write :: "nat \<Rightarrow> nat \<Rightarrow> i32 \<Rightarrow> acpi \<Rightarrow> acpi" where
  "gpe_write offset sz value s =
     update_sci (fold (\<lambda>i. gpe_write_byte (offset + i) (byte_of value i))
       (takeWhile (\<lambda>i. offset + i < gpe0_length (platform_pm (ich9 s))) [0..<sz]) s)"

section \<open>The PM timer\<close>

text \<open>
  The maximum that all threads share, with no other thread between the load and the exchange; the
  interleavings are in the section on the shared maximum.
\<close>

definition timer_ticks :: "rat \<Rightarrow> acpi \<Rightarrow> int \<times> acpi" where
  "timer_ticks now s =
     (let ticks = \<lfloor>now * PM_TIMER_TICKS_PER_MS\<rfloor> + timer_offset s;
          s1 = (case shared s of
                  Some (b, off, m) \<Rightarrow> s\<lparr>timer_last := max m ticks, shared := Some (b, off, max m ticks)\<rparr>
                | None \<Rightarrow> if ticks > timer_last s then s\<lparr>timer_last := ticks\<rparr> else s)
      in (timer_last s1, s1))"

definition update_timer_status :: "int \<Rightarrow> acpi \<Rightarrow> acpi" where
  "update_timer_status ticks s =
     (let period = ticks div PM_TIMER_STATUS_PERIOD
      in if period \<noteq> timer_period s then update_sci (s\<lparr>timer_period := period, pm1_sts := pm1_sts s OR TMR\<rparr>) else s)"

definition acpi_timer :: "bool \<Rightarrow> u8 option \<Rightarrow> rat \<Rightarrow> acpi \<Rightarrow> rat \<times> acpi" where
  "acpi_timer deferred gcs now s =
     (let (ticks, s1) = timer_ticks now s;
          s2 = update_timer_status ticks s1;
          tco = (case acpi_tco s2 of Some t \<Rightarrow> fst (tco_timer gcs now t) | None \<Rightarrow> 100);
          s3 = with_tco deferred (\<lambda>t. snd (tco_timer gcs now t)) s2
      in if has_bits (pm1_en s3) TMR \<and> has_bits (pm1_cnt s3) SCI_EN
         then (min (min 100 tco) ((of_int ((timer_period s3 + 1) * PM_TIMER_STATUS_PERIOD) - of_int ticks) / PM_TIMER_TICKS_PER_MS), s3)
         else (tco, s3))"

section \<open>Reading the PM block\<close>

definition pm_read_byte_piix4 :: "nat \<Rightarrow> i32 \<Rightarrow> acpi \<Rightarrow> i32" where
  "pm_read_byte_piix4 offset t s =
     (if offset = 0 then pm1_sts s AND 0xFF
      else if offset = 1 then signed_drop_bit 8 (pm1_sts s)
      else if offset = 2 then pm1_en s AND 0xFF
      else if offset = 3 then signed_drop_bit 8 (pm1_en s)
      else if offset = 4 then pm1_cnt s AND 0xFF
      else if offset = 5 then signed_drop_bit 8 (pm1_cnt s)
      else if offset = 8 then t AND 0xFF
      else if offset = 9 then signed_drop_bit 8 t AND 0xFF
      else if offset = 10 then signed_drop_bit 16 t AND 0xFF
      else if offset \<in> {PM_GLBCTL..<PM_GLBCTL + 4} then byte_of (glbctl s) (offset - PM_GLBCTL)
      else 0)"

definition pm_read_byte :: "rat \<Rightarrow> nat \<Rightarrow> i32 \<Rightarrow> acpi \<Rightarrow> i32" where
  "pm_read_byte now offset t s =
     (let gpe0 = nat (gpe0_offset (platform_pm True))
      in if ich9 s \<and> gpe0 \<le> offset \<and> offset < gpe0 + gpe0_length (platform_pm True) then gpe_read (offset - gpe0) 1 s
         else if ich9 s \<and> offset \<in> {ICH9_PM_SMI_EN..<ICH9_PM_SMI_EN + 4} then byte_of (smi_en s) (offset - ICH9_PM_SMI_EN)
         else if ich9 s \<and> offset \<in> {ICH9_PM_SMI_STS..<ICH9_PM_SMI_STS + 4} then byte_of (smi_sts s) (offset - ICH9_PM_SMI_STS)
         else if ich9 s \<and> offset \<in> {PM_GLBCTL..<PM_GLBCTL + 4} then 0
         else if ich9 s \<and> offset \<in> {ICH9_PM_TCO..<ICH9_PM_TCO + ICH9_TCO_LENGTH}
              then (case acpi_tco s of Some w \<Rightarrow> tco_read_byte now (offset - ICH9_PM_TCO) w | None \<Rightarrow> 0)
         else pm_read_byte_piix4 offset t s)"

definition pm_read :: "rat \<Rightarrow> nat \<Rightarrow> nat \<Rightarrow> acpi \<Rightarrow> i32 \<times> acpi" where
  "pm_read now offset sz s =
     (let (t, s1) =
            (if offset < 12 \<and> offset + sz > 8 \<or> offset < 2
             then let (ticks, s') = timer_ticks now s in (word_of_int ticks AND 0xFFFFFF, update_timer_status ticks s')
             else (0, s))
      in (fold (\<lambda>i value. value OR push_bit (i * 8) (pm_read_byte now (offset + i) t s1)) [0..<sz] 0, s1))"

section \<open>Sleep states\<close>

definition power_off :: "nat \<Rightarrow> acpi \<Rightarrow> acpi" where
  "power_off st s =
     (if soft_off s \<noteq> 0 then s
      else acpi_emit (Announce ''acpi-power-off'' (if st = 4 then ''S4'' else ''S5'')) (s\<lparr>soft_off := st\<rparr>))"

definition suspend :: "acpi \<Rightarrow> acpi" where
  "suspend s =
     (if sleeping s \<noteq> 0 \<or> soft_off s \<noteq> 0 then s
      else acpi_emit (Announce ''acpi-sleep'' ''S3'') (acpi_emit EnterSleep (acpi_emit (CmosWrite 0x0F 0xFE) (s\<lparr>sleeping := 3\<rparr>))))"

definition enter_sleep_state :: "i32 \<Rightarrow> acpi \<Rightarrow> acpi" where
  "enter_sleep_state typ s =
     (case find (\<lambda>x. slp_typ x = typ) (sleep_states (ich9 s)) of
        Some st \<Rightarrow> if state_no st \<ge> 4 \<and> supported st then power_off (state_no st) s
                   else if state_no st = 3 \<and> supported st then suspend s
                   else s\<lparr>pm1_sts := pm1_sts s OR WAK\<rparr>
      | None \<Rightarrow> s\<lparr>pm1_sts := pm1_sts s OR WAK\<rparr>)"

definition wake :: "bool \<Rightarrow> i32 \<Rightarrow> acpi \<Rightarrow> bool \<times> acpi" where
  "wake deferred status s =
     (if sleeping s \<noteq> 3 then (False, s)
      else let s1 = reboot_internal deferred ''s3-wake'' (s\<lparr>sleeping := 0\<rparr>);
               s2 = update_sci (s1\<lparr>pm1_sts := pm1_sts s1 OR (WAK OR status)\<rparr>)
           in (True, acpi_emit (Announce ''acpi-wake''
                (if has_bits status PWRBTN then ''power-button'' else if has_bits status RTC_STS then ''rtc'' else ''other'')) s2))"

definition rtc_alarm :: "bool \<Rightarrow> acpi \<Rightarrow> acpi" where
  "rtc_alarm deferred s =
     (if sleeping s \<noteq> 0 then if has_bits (pm1_en s) RTC_STS then snd (wake deferred RTC_STS s) else s
      else update_sci (s\<lparr>pm1_sts := pm1_sts s OR RTC_STS\<rparr>))"

definition press_power_button :: "bool \<Rightarrow> acpi \<Rightarrow> acpi" where
  "press_power_button deferred s =
     (if sleeping s \<noteq> 0 then snd (wake deferred PWRBTN s)
      else update_sci (s\<lparr>pm1_sts := pm1_sts s OR PWRBTN\<rparr>))"

section \<open>Writing the PM block and the SMI command port\<close>

definition pm_write_ich9 :: "rat \<Rightarrow> nat \<Rightarrow> i32 \<Rightarrow> acpi \<Rightarrow> acpi" where
  "pm_write_ich9 now offset byte s =
     (let gpe0 = nat (gpe0_offset (platform_pm True))
      in if gpe0 \<le> offset \<and> offset < gpe0 + gpe0_length (platform_pm True) then gpe_write (offset - gpe0) 1 byte s
         else if offset \<in> {ICH9_PM_SMI_EN..<ICH9_PM_SMI_EN + 4}
              then s\<lparr>smi_en := merge_byte ((offset - ICH9_PM_SMI_EN) * 8) byte (smi_en s)\<rparr>
         else if offset \<in> {ICH9_PM_SMI_STS..<ICH9_PM_SMI_STS + 4}
              then s\<lparr>smi_sts := smi_sts s AND NOT (push_bit ((offset - ICH9_PM_SMI_STS) * 8) byte)\<rparr>
         else if offset \<in> {ICH9_PM_TCO..<ICH9_PM_TCO + ICH9_TCO_LENGTH}
              then with_tco False (tco_write_byte now (offset - ICH9_PM_TCO) byte) s
         else s)"

text \<open>One turn of the loop: the state and whether SLP_EN was written.\<close>

definition pm_write_byte :: "rat \<Rightarrow> nat \<Rightarrow> i32 \<Rightarrow> acpi \<times> bool \<Rightarrow> acpi \<times> bool" where
  "pm_write_byte now o1 byte = (\<lambda>(s, sleep).
     let shift = (o1 mod 2) * 8; bits = push_bit shift byte; byte_mask = push_bit shift 0xFF
     in if o1 \<in> {0, 1} then (s\<lparr>pm1_sts := pm1_sts s AND NOT (bits AND PM1_STS_MASK)\<rparr>, sleep)
        else if o1 \<in> {2, 3} then (s\<lparr>pm1_en := (pm1_en s AND NOT byte_mask OR bits) AND PM1_EN_MASK\<rparr>, sleep)
        else if o1 \<in> {4, 5}
        then (s\<lparr>pm1_cnt := pm1_cnt s AND NOT (byte_mask AND PM1_CNT_WRITABLE) OR bits AND PM1_CNT_WRITABLE\<rparr>,
              sleep \<or> has_bits bits SLP_EN)
        else if o1 \<in> {PM_GLBCTL..<PM_GLBCTL + 4}
        then (if ich9 s then (pm_write_ich9 now o1 byte s, sleep)
              else (s\<lparr>glbctl := merge_byte ((o1 - PM_GLBCTL) * 8) byte (glbctl s)\<rparr>, sleep))
        else if ich9 s then (pm_write_ich9 now o1 byte s, sleep)
        else (s, sleep))"

definition pm_write :: "rat \<Rightarrow> nat \<Rightarrow> nat \<Rightarrow> i32 \<Rightarrow> acpi \<Rightarrow> acpi" where
  "pm_write now offset sz value s =
     (let (s1, sleep) = fold (\<lambda>i. pm_write_byte now (offset + i) (byte_of value i)) [0..<sz] (s, False);
          s2 = update_sci s1
      in if sleep then enter_sleep_state (signed_drop_bit 10 (pm1_cnt s2 AND SLP_TYP)) s2 else s2)"

definition smi_cmd_write :: "i32 \<Rightarrow> acpi \<Rightarrow> acpi" where
  "smi_cmd_write value s =
     (let s1 = s\<lparr>smi_cmd := value\<rparr>
      in if value = acpi_enable (platform_pm (ich9 s)) then update_sci (s1\<lparr>pm1_cnt := pm1_cnt s1 OR SCI_EN\<rparr>)
         else if value = acpi_disable (platform_pm (ich9 s)) then update_sci (s1\<lparr>pm1_cnt := pm1_cnt s1 AND NOT SCI_EN\<rparr>)
         else if ich9 s then raise_smi ICH9_SMI_APM None s1
         else s1)"

definition apm_sts_write :: "i32 \<Rightarrow> acpi \<Rightarrow> acpi" where
  "apm_sts_write value s = s\<lparr>apm_sts := value AND 0xFF\<rparr>"

section \<open>Saved state\<close>

text \<open>The array of the saved state; older formats lack the entries from the format on.\<close>

record acpi_state =
  st_pm1_cnt :: i32
  st_pm1_sts :: i32
  st_pm1_en :: i32
  st_gpe :: "u8 list"
  st_format :: "nat option"
  st_ticks :: int
  st_period :: int
  st_smi_cmd :: i32
  st_glbctl :: i32
  st_soft_off :: nat
  st_sleeping :: nat
  st_smi_en :: i32
  st_smi_sts :: i32
  st_tco :: "tco_array option"
  st_apm_sts :: i32

definition gpe_save :: "acpi \<Rightarrow> u8 list" where
  "gpe_save s = (let half = gpe_half s in
     fold (\<lambda>i bs. bs[i := ucast (byte_of (gpe_sts s) i), half + i := ucast (byte_of (gpe_en s) i)])
       [0..<min half 4] (replicate (half * 2) 0))"

definition acpi_get_state :: "rat \<Rightarrow> acpi \<Rightarrow> acpi_state \<times> acpi" where
  "acpi_get_state now s = (let (ticks, s1) = timer_ticks now s in
     (\<lparr>st_pm1_cnt = pm1_cnt s, st_pm1_sts = pm1_sts s, st_pm1_en = pm1_en s, st_gpe = gpe_save s, st_format = Some 3,
       st_ticks = ticks, st_period = timer_period s1, st_smi_cmd = smi_cmd s1, st_glbctl = glbctl s1, st_soft_off = soft_off s1,
       st_sleeping = sleeping s1, st_smi_en = smi_en s1, st_smi_sts = smi_sts s1, st_tco = map_option tco_get_state (acpi_tco s1),
       st_apm_sts = apm_sts s1\<rparr>, s1))"

definition gpe_bytes :: "u8 list \<Rightarrow> nat \<Rightarrow> i32" where
  "gpe_bytes gpe start = fold (\<lambda>i value. value OR push_bit (i * 8) (ucast (gpe ! (start + i)))) [0..<min (length gpe div 2) 4] 0"

definition acpi_set_state :: "rat \<Rightarrow> acpi_state \<Rightarrow> acpi \<Rightarrow> acpi" where
  "acpi_set_state now st s =
     (let s1 = s\<lparr>pm1_sts := st_pm1_sts st AND PM1_STS_MASK, pm1_en := st_pm1_en st AND PM1_EN_MASK,
               gpe_en := gpe_bytes (st_gpe st) (length (st_gpe st) div 2), smi_en := st_smi_en st, smi_sts := st_smi_sts st,
               acpi_tco := (case (acpi_tco s, st_tco st) of (Some t, Some x) \<Rightarrow> Some (tco_set_state x t) | _ \<Rightarrow> acpi_tco s),
               apm_sts := st_apm_sts st, pm1_cnt := st_pm1_cnt st AND (SCI_EN OR PM1_CNT_WRITABLE)\<rparr>;
          ticks = (if st_format st = None then 0 else st_ticks st);
          s2 = (case st_format st of
                  None \<Rightarrow> s1\<lparr>gpe_sts := 0, smi_cmd := 0, glbctl := 0, soft_off := 0, sleeping := 0\<rparr>
                | Some f \<Rightarrow> s1\<lparr>gpe_sts := gpe_bytes (st_gpe st) 0, timer_period := st_period st, smi_cmd := st_smi_cmd st,
                    glbctl := st_glbctl st, soft_off := st_soft_off st, sleeping := (if f \<ge> 3 then st_sleeping st else 0)\<rparr>);
          s3 = s2\<lparr>timer_offset := ticks - \<lfloor>now * PM_TIMER_TICKS_PER_MS\<rfloor>, timer_last := ticks,
                 shared := map_option (\<lambda>(b, off, _). (b, off, ticks)) (shared s2)\<rparr>;
          s4 = publish_timer s3
      in if st_format st = None then s4\<lparr>timer_period := ticks div PM_TIMER_STATUS_PERIOD\<rparr> else s4)"

section \<open>Events\<close>

text \<open>
  What happens to the device. \<open>Worker_Read\<close> is a vCPU worker that raises the shared maximum.
\<close>

datatype acpi_event =
    Pm_Read rat nat nat
  | Pm_Write rat nat nat i32
  | Gpe_Write nat nat i32
  | Smi_Cmd i32
  | Apm_Sts i32
  | Config_Write nat i32
  | Pm_Decode int
  | Main_Loop bool "u8 option" rat
  | Rtc_Alarm bool
  | Power_Button bool
  | Acpi_Reset
  | Share
  | Worker_Read int
  | Save rat

fun acpi_step :: "acpi_event \<Rightarrow> acpi \<Rightarrow> acpi" where
  "acpi_step (Pm_Read now off sz) s = snd (pm_read now off sz s)"
| "acpi_step (Pm_Write now off sz v) s = pm_write now off sz v s"
| "acpi_step (Gpe_Write off sz v) s = gpe_write off sz v s"
| "acpi_step (Smi_Cmd v) s = smi_cmd_write (v AND 0xFF) s"
| "acpi_step (Apm_Sts v) s = apm_sts_write v s"
| "acpi_step (Config_Write off v) s = on_config_write off v s"
| "acpi_step (Pm_Decode base) s = set_pm_decode base s"
| "acpi_step (Main_Loop deferred gcs now) s = snd (acpi_timer deferred gcs now s)"
| "acpi_step (Rtc_Alarm deferred) s = rtc_alarm deferred s"
| "acpi_step (Power_Button deferred) s = press_power_button deferred s"
| "acpi_step Acpi_Reset s = acpi_reset s"
| "acpi_step Share s = share_timer s"
| "acpi_step (Worker_Read v) s = s\<lparr>shared := map_option (\<lambda>(b, off, m). (b, off, max m v)) (shared s)\<rparr>"
| "acpi_step (Save now) s = snd (acpi_get_state now s)"

section \<open>Invariant\<close>

text \<open>The level on the SCI line, as the calls of \<open>set_shared_irq_level\<close> leave it.\<close>

fun sci_drive :: "bool \<Rightarrow> acpi_effect \<Rightarrow> bool" where
  "sci_drive b (SciLevel l) = l"
| "sci_drive b Deassert = False"
| "sci_drive b _ = b"

definition sci_line :: "acpi_effect list \<Rightarrow> bool" where
  "sci_line es = foldl sci_drive False es"

definition regs_ok :: "acpi \<Rightarrow> bool" where
  "regs_ok s \<longleftrightarrow> pm1_sts s AND NOT PM1_STS_MASK = 0 \<and> pm1_en s AND NOT PM1_EN_MASK = 0 \<and>
     pm1_cnt s AND NOT (SCI_EN OR PM1_CNT_WRITABLE) = 0"

definition gpe_ok :: "acpi \<Rightarrow> bool" where
  "gpe_ok s \<longleftrightarrow> (\<not> ich9 s \<longrightarrow> fits 16 (gpe_sts s) \<and> fits 16 (gpe_en s))"

definition power_ok :: "acpi \<Rightarrow> bool" where
  "power_ok s \<longleftrightarrow> soft_off s \<in> {0, 4, 5} \<and> sleeping s \<in> {0, 3} \<and> (ich9 s \<longrightarrow> sleeping s = 0 \<and> soft_off s \<noteq> 4) \<and>
     (acpi_tco s \<noteq> None \<longleftrightarrow> ich9 s) \<and> pred_option tco_inv (acpi_tco s)"

definition sci_ok :: "acpi \<Rightarrow> bool" where
  "sci_ok s \<longleftrightarrow> (sci_level s \<longleftrightarrow> sci_demand s) \<and> (sci_line (acpi_log s) \<longleftrightarrow> sci_level s)"

text \<open>The last reading of the timer, and the half period in which it fell.\<close>

definition timer_ok :: "acpi \<Rightarrow> bool" where
  "timer_ok s \<longleftrightarrow> timer_period s \<le> timer_last s div PM_TIMER_STATUS_PERIOD \<and>
     (\<forall>b off m. shared s = Some (b, off, m) \<longrightarrow> b = pm_base s \<and> off = timer_offset s \<and> timer_last s \<le> m)"

definition acpi_inv :: "acpi \<Rightarrow> bool" where
  "acpi_inv s \<longleftrightarrow> sci_ok s \<and> regs_ok s \<and> gpe_ok s \<and> power_ok s \<and> timer_ok s"

lemma sci_line_simps [simp]:
  "sci_line [] = False" "sci_line (es @ fs) = foldl sci_drive (sci_line es) fs"
  by (simp_all add: sci_line_def)

lemma acpi_emit_simps [simp]:
  "ich9 (acpi_emit e s) = ich9 s" "pm_base (acpi_emit e s) = pm_base s" "pm1_sts (acpi_emit e s) = pm1_sts s" "pm1_en (acpi_emit e s) = pm1_en s"
  "pm1_cnt (acpi_emit e s) = pm1_cnt s" "gpe_sts (acpi_emit e s) = gpe_sts s" "gpe_en (acpi_emit e s) = gpe_en s"
  "acpi_tco (acpi_emit e s) = acpi_tco s" "soft_off (acpi_emit e s) = soft_off s" "sleeping (acpi_emit e s) = sleeping s"
  "sci_level (acpi_emit e s) = sci_level s" "timer_last (acpi_emit e s) = timer_last s" "timer_offset (acpi_emit e s) = timer_offset s"
  "timer_period (acpi_emit e s) = timer_period s" "shared (acpi_emit e s) = shared s" "acpi_log (acpi_emit e s) = acpi_log s @ [e]"
  "smi_en (acpi_emit e s) = smi_en s" "smi_sts (acpi_emit e s) = smi_sts s" "smi_cmd (acpi_emit e s) = smi_cmd s"
  "glbctl (acpi_emit e s) = glbctl s" "apm_sts (acpi_emit e s) = apm_sts s" "pmba (acpi_emit e s) = pmba s" "pmregmisc (acpi_emit e s) = pmregmisc s"
  by (simp_all add: acpi_emit_def)

lemma sci_demand_cong:
  "pm1_sts u = pm1_sts s \<Longrightarrow> pm1_en u = pm1_en s \<Longrightarrow> pm1_cnt u = pm1_cnt s \<Longrightarrow> gpe_sts u = gpe_sts s \<Longrightarrow> gpe_en u = gpe_en s \<Longrightarrow>
   sci_demand u = sci_demand s"
  by (simp add: sci_demand_def)

lemma update_sci_simps [simp]:
  "ich9 (update_sci s) = ich9 s" "pm_base (update_sci s) = pm_base s" "pm1_sts (update_sci s) = pm1_sts s" "pm1_en (update_sci s) = pm1_en s"
  "pm1_cnt (update_sci s) = pm1_cnt s" "gpe_sts (update_sci s) = gpe_sts s" "gpe_en (update_sci s) = gpe_en s"
  "acpi_tco (update_sci s) = acpi_tco s" "soft_off (update_sci s) = soft_off s" "sleeping (update_sci s) = sleeping s"
  "sci_level (update_sci s) = sci_demand s" "timer_last (update_sci s) = timer_last s" "timer_offset (update_sci s) = timer_offset s"
  "timer_period (update_sci s) = timer_period s" "shared (update_sci s) = shared s"
  "smi_en (update_sci s) = smi_en s" "smi_sts (update_sci s) = smi_sts s" "smi_cmd (update_sci s) = smi_cmd s"
  "glbctl (update_sci s) = glbctl s" "apm_sts (update_sci s) = apm_sts s" "pmba (update_sci s) = pmba s" "pmregmisc (update_sci s) = pmregmisc s"
  by (simp_all add: update_sci_def Let_def)

lemma sci_demand_update_sci [simp]: "sci_demand (update_sci s) = sci_demand s" "sci_demand (acpi_emit e s) = sci_demand s"
  "sci_demand (s\<lparr>sci_level := l\<rparr>) = sci_demand s"
  by (simp_all add: sci_demand_def)

lemma set_pm_decode_simps [simp]:
  "ich9 (set_pm_decode b s) = ich9 s" "pm1_sts (set_pm_decode b s) = pm1_sts s" "pm1_en (set_pm_decode b s) = pm1_en s"
  "pm1_cnt (set_pm_decode b s) = pm1_cnt s" "gpe_sts (set_pm_decode b s) = gpe_sts s" "gpe_en (set_pm_decode b s) = gpe_en s"
  "smi_cmd (set_pm_decode b s) = smi_cmd s" "glbctl (set_pm_decode b s) = glbctl s" "smi_en (set_pm_decode b s) = smi_en s"
  "smi_sts (set_pm_decode b s) = smi_sts s" "acpi_tco (set_pm_decode b s) = acpi_tco s" "apm_sts (set_pm_decode b s) = apm_sts s"
  "soft_off (set_pm_decode b s) = soft_off s" "sleeping (set_pm_decode b s) = sleeping s" "sci_level (set_pm_decode b s) = sci_level s"
  "timer_last (set_pm_decode b s) = timer_last s" "timer_offset (set_pm_decode b s) = timer_offset s" "timer_period (set_pm_decode b s) = timer_period s"
  by (simp_all add: set_pm_decode_def publish_timer_def Let_def)

lemma reset_pm_config_simps [simp]:
  "ich9 (reset_pm_config s) = ich9 s" "pm1_sts (reset_pm_config s) = pm1_sts s" "pm1_en (reset_pm_config s) = pm1_en s"
  "pm1_cnt (reset_pm_config s) = pm1_cnt s" "gpe_sts (reset_pm_config s) = gpe_sts s" "gpe_en (reset_pm_config s) = gpe_en s"
  "smi_cmd (reset_pm_config s) = smi_cmd s" "glbctl (reset_pm_config s) = glbctl s" "smi_en (reset_pm_config s) = smi_en s"
  "smi_sts (reset_pm_config s) = smi_sts s" "acpi_tco (reset_pm_config s) = acpi_tco s" "apm_sts (reset_pm_config s) = apm_sts s"
  "soft_off (reset_pm_config s) = soft_off s" "sleeping (reset_pm_config s) = sleeping s" "sci_level (reset_pm_config s) = sci_level s"
  "timer_last (reset_pm_config s) = timer_last s" "timer_offset (reset_pm_config s) = timer_offset s" "timer_period (reset_pm_config s) = timer_period s"
  by (simp_all add: reset_pm_config_def update_pm_decode_def Let_def)

lemma acpi_reset_simps [simp]:
  "ich9 (acpi_reset s) = ich9 s" "pm1_sts (acpi_reset s) = 0" "pm1_en (acpi_reset s) = 0" "pm1_cnt (acpi_reset s) = 0"
  "gpe_sts (acpi_reset s) = 0" "gpe_en (acpi_reset s) = 0" "soft_off (acpi_reset s) = 0" "sleeping (acpi_reset s) = 0"
  "sci_level (acpi_reset s) = False" "timer_last (acpi_reset s) = timer_last s" "timer_offset (acpi_reset s) = timer_offset s"
  "timer_period (acpi_reset s) = timer_period s" "acpi_tco (acpi_reset s) = map_option tco_reset (acpi_tco s)"
  by (simp_all add: acpi_reset_def sci_demand_def)

text \<open>The device and the line agree on the level.\<close>

definition sci_synced :: "acpi \<Rightarrow> bool" where
  "sci_synced s \<longleftrightarrow> sci_line (acpi_log s) = sci_level s"

lemma update_sci_ok: "sci_synced s \<Longrightarrow> sci_ok (update_sci s)"
  by (simp add: sci_ok_def sci_synced_def update_sci_def Let_def)

lemma sci_ok_synced: "sci_ok s \<Longrightarrow> sci_synced s"
  by (simp add: sci_ok_def sci_synced_def)

text \<open>Parts of the state that the operations on other parts leave alone.\<close>

lemma acpi_inv_parts:
  assumes "sci_ok s'" "regs_ok s'" "gpe_ok s'" "power_ok s'" "timer_ok s'" shows "acpi_inv s'"
  using assms by (simp add: acpi_inv_def)

lemma decode_inv:
  assumes "acpi_inv s" shows "acpi_inv (set_pm_decode base s)"
  using assms
  by (auto simp: set_pm_decode_def publish_timer_def acpi_inv_def sci_ok_def sci_demand_def regs_ok_def gpe_ok_def power_ok_def timer_ok_def Let_def
      split: option.splits)

lemma update_decode_inv: "acpi_inv s \<Longrightarrow> acpi_inv (update_pm_decode s)"
proof -
  assume "acpi_inv s"
  then have "acpi_inv (s\<lparr>pmba := x\<rparr>)" for x
    by (simp add: acpi_inv_def sci_ok_def sci_demand_def regs_ok_def gpe_ok_def power_ok_def timer_ok_def)
  then show ?thesis by (simp add: update_pm_decode_def Let_def decode_inv)
qed

lemma config_inv:
  assumes "acpi_inv s" shows "acpi_inv (s\<lparr>pmba := x, pmregmisc := y\<rparr>)" "acpi_inv (s\<lparr>pmba := x\<rparr>)" "acpi_inv (s\<lparr>pmregmisc := y\<rparr>)"
  using assms by (simp_all add: acpi_inv_def sci_ok_def sci_demand_def regs_ok_def gpe_ok_def power_ok_def timer_ok_def)

lemma reset_config_inv: "acpi_inv s \<Longrightarrow> acpi_inv (reset_pm_config s)"
  by (simp add: reset_pm_config_def update_decode_inv config_inv)

lemma acpi_reset_inv:
  assumes "sci_synced s" "power_ok s" "timer_ok s"
  shows "acpi_inv (acpi_reset s)"
proof -
  have t: "tco_inv (tco_reset t)" for t by (simp add: tco_inv_def tco_reset_def)
  have "power_ok (update_sci (s\<lparr>pm1_sts := 0, pm1_en := 0, pm1_cnt := 0, gpe_sts := 0, gpe_en := 0, smi_cmd := 0, glbctl := 0, smi_en := 0, smi_sts := 0,
        apm_sts := 0, acpi_tco := map_option tco_reset (acpi_tco s), soft_off := 0, sleeping := 0\<rparr>))"
    using assms t by (auto simp: power_ok_def option.pred_map option.pred_True pred_option_def split: option.splits)
  then show ?thesis
    unfolding acpi_reset_def using assms
    by (intro reset_config_inv acpi_inv_parts update_sci_ok)
       (simp_all add: sci_synced_def regs_ok_def gpe_ok_def timer_ok_def fits_zero)
qed

lemma or_mask: "(x OR y) AND NOT m = 0 \<longleftrightarrow> x AND NOT m = 0 \<and> y AND NOT m = (0 :: i32)"
  by (rule has_bits_or)

lemma raise_smi_inv: "acpi_inv s \<Longrightarrow> acpi_inv (raise_smi b c s)"
  by (simp add: raise_smi_def acpi_inv_def sci_ok_def sci_demand_def regs_ok_def gpe_ok_def power_ok_def timer_ok_def)

text \<open>While a write is being decoded the SCI may lag behind the registers; \<open>update_sci\<close> catches up.\<close>

definition acpi_wf :: "acpi \<Rightarrow> bool" where
  "acpi_wf s \<longleftrightarrow> sci_synced s \<and> regs_ok s \<and> gpe_ok s \<and> power_ok s \<and> timer_ok s"

lemmas acpi_wf_defs = acpi_wf_def sci_synced_def regs_ok_def gpe_ok_def power_ok_def timer_ok_def
lemmas acpi_inv_defs = acpi_inv_def sci_ok_def sci_demand_def regs_ok_def gpe_ok_def power_ok_def timer_ok_def

lemma acpi_inv_iff: "acpi_inv s \<longleftrightarrow> acpi_wf s \<and> (sci_level s \<longleftrightarrow> sci_demand s)"
  by (auto simp: acpi_inv_def acpi_wf_def sci_ok_def sci_synced_def)

lemma update_sci_inv: "acpi_wf s \<Longrightarrow> acpi_inv (update_sci s)"
  using update_sci_ok [of s] by (auto simp: acpi_wf_def acpi_inv_def regs_ok_def gpe_ok_def power_ok_def timer_ok_def)

lemma tco_upd_wf: "acpi_wf s \<Longrightarrow> acpi_tco s = Some t \<Longrightarrow> tco_inv t' \<Longrightarrow> acpi_wf (s\<lparr>acpi_tco := Some t'\<rparr>)"
  by (auto simp: acpi_wf_defs)

lemma tco_upd_inv: "acpi_inv s \<Longrightarrow> acpi_tco s = Some t \<Longrightarrow> tco_inv t' \<Longrightarrow> acpi_inv (s\<lparr>acpi_tco := Some t'\<rparr>)"
  by (auto simp: acpi_inv_iff tco_upd_wf sci_demand_def)

lemma raise_smi_wf: "acpi_wf s \<Longrightarrow> acpi_wf (raise_smi b c s)"
  by (simp add: raise_smi_def acpi_wf_defs)

lemma reboot_inv:
  "acpi_inv s \<Longrightarrow> acpi_inv (reboot_internal deferred r s)" "acpi_wf s \<Longrightarrow> acpi_wf (reboot_internal deferred r s)"
proof -
  have w: "acpi_wf (acpi_emit (RequestReboot r) s)" if "acpi_wf s" for s using that by (simp add: acpi_wf_defs)
  then have r: "acpi_inv (acpi_reset (acpi_emit (RequestReboot r) s))" if "acpi_wf s" for s
    using acpi_reset_inv [of "acpi_emit (RequestReboot r) s"] that by (auto simp: acpi_wf_def)
  have d: "acpi_inv (acpi_emit Deassert u)" if "acpi_inv u" "\<not> sci_level u" for u
    using that by (simp add: acpi_inv_iff acpi_wf_defs)
  show "acpi_inv s \<Longrightarrow> acpi_inv (reboot_internal deferred r s)" "acpi_wf s \<Longrightarrow> acpi_wf (reboot_internal deferred r s)"
    using w d [OF r] by (auto simp: reboot_internal_def Let_def acpi_inv_iff)
qed

lemma with_tco_keeps:
  assumes "I s" "\<And>t. acpi_tco s = Some t \<Longrightarrow> I (s\<lparr>acpi_tco := Some (f t)\<rparr>)" "\<And>e u. I u \<Longrightarrow> I (tco_callback deferred e u)"
  shows "I (with_tco deferred f s)"
proof (cases "acpi_tco s")
  case (Some t)
  have "I u \<Longrightarrow> I (fold (tco_callback deferred) es u)" for es u
    using assms(3) by (induction es arbitrary: u) simp_all
  with assms(2) Some show ?thesis by (simp add: with_tco_def Let_def)
qed (use assms in \<open>simp add: with_tco_def\<close>)

lemma tco_callback_inv:
  "acpi_inv u \<Longrightarrow> acpi_inv (tco_callback deferred e u)" "acpi_wf u \<Longrightarrow> acpi_wf (tco_callback deferred e u)"
  by (cases e; simp add: raise_smi_inv raise_smi_wf reboot_inv)+

lemma with_tco_inv:
  assumes "\<And>t. tco_inv t \<Longrightarrow> tco_inv (f t)"
  shows "acpi_inv s \<Longrightarrow> acpi_inv (with_tco deferred f s)" "acpi_wf s \<Longrightarrow> acpi_wf (with_tco deferred f s)"
proof -
  have t: "tco_inv t" if "acpi_wf s" "acpi_tco s = Some t" for t
    using that by (simp add: acpi_wf_def power_ok_def)
  show "acpi_inv s \<Longrightarrow> acpi_inv (with_tco deferred f s)"
    by (rule with_tco_keeps [of acpi_inv]) (simp_all add: t acpi_inv_iff [of s] tco_upd_inv assms tco_callback_inv)
  show "acpi_wf s \<Longrightarrow> acpi_wf (with_tco deferred f s)"
    by (rule with_tco_keeps [of acpi_wf]) (simp_all add: t tco_upd_wf assms tco_callback_inv)
qed

text \<open>The PM timer.\<close>

lemma timer_ticks_eq:
  assumes "timer_ticks now s = (ticks, s1)"
  shows "ticks = timer_last s1" "s1 = s\<lparr>timer_last := timer_last s1, shared := shared s1\<rparr>"
    "shared s = None \<Longrightarrow> shared s1 = None \<and> timer_last s1 = max (timer_last s) (\<lfloor>now * PM_TIMER_TICKS_PER_MS\<rfloor> + timer_offset s)"
    "shared s = Some (b, off, m) \<Longrightarrow> timer_last s1 = max m (\<lfloor>now * PM_TIMER_TICKS_PER_MS\<rfloor> + timer_offset s) \<and>
       shared s1 = Some (b, off, timer_last s1)"
  using assms by (auto simp: timer_ticks_def Let_def split: option.splits if_splits)

lemma timer_upd_inv:
  assumes "acpi_inv s" "timer_last s \<le> t" "\<And>b off m. sh = Some (b, off, m) \<Longrightarrow> b = pm_base s \<and> off = timer_offset s \<and> t \<le> m"
  shows "acpi_inv (s\<lparr>timer_last := t, shared := sh\<rparr>)"
proof -
  have "timer_period s \<le> t div PM_TIMER_STATUS_PERIOD"
    using assms(1) zdiv_mono1 [OF assms(2), of PM_TIMER_STATUS_PERIOD] by (simp add: acpi_inv_def timer_ok_def)
  with assms show ?thesis by (simp add: acpi_inv_defs)
qed

lemma timer_ticks_inv:
  assumes "acpi_inv s" "timer_ticks now s = (ticks, s1)"
  shows "acpi_inv s1" "timer_last s \<le> timer_last s1" "ticks = timer_last s1"
proof -
  note e = timer_ticks_eq [OF assms(2)]
  have sh: "shared s = Some (b, off, m) \<Longrightarrow> b = pm_base s \<and> off = timer_offset s \<and> timer_last s \<le> m" for b off m
    using assms(1) by (simp add: acpi_inv_def timer_ok_def)
  show m: "timer_last s \<le> timer_last s1" using e(3,4) sh by (cases "shared s") auto
  have "acpi_inv (s\<lparr>timer_last := timer_last s1, shared := shared s1\<rparr>)"
    using e(3,4) sh by (intro timer_upd_inv [OF assms(1) m]) (cases "shared s"; auto)
  then show "acpi_inv s1" using e(2) by simp
  show "ticks = timer_last s1" by (rule e(1))
qed

lemma sts_or:
  "acpi_inv s \<Longrightarrow> b AND NOT PM1_STS_MASK = 0 \<Longrightarrow> acpi_wf (s\<lparr>pm1_sts := pm1_sts s OR b\<rparr>)"
  by (auto simp: acpi_inv_iff acpi_wf_defs has_bits_or)

lemma timer_status_inv:
  assumes "acpi_inv s" shows "acpi_inv (update_timer_status (timer_last s) s)"
proof -
  have "acpi_wf (s\<lparr>timer_period := timer_last s div PM_TIMER_STATUS_PERIOD, pm1_sts := pm1_sts s OR TMR\<rparr>)"
    using sts_or [OF assms, of TMR] by (auto simp: acpi_wf_defs)
  then show ?thesis using assms by (simp add: update_timer_status_def update_sci_inv Let_def)
qed

lemma pm_read_inv: "acpi_inv s \<Longrightarrow> acpi_inv (snd (pm_read now off sz s))"
proof -
  assume i: "acpi_inv s"
  obtain ticks s1 where t: "timer_ticks now s = (ticks, s1)" by (cases "timer_ticks now s")
  show ?thesis using timer_ticks_inv [OF i t] timer_status_inv [of s1] i by (simp add: pm_read_def t Let_def)
qed

lemma acpi_timer_inv: "acpi_inv s \<Longrightarrow> acpi_inv (snd (acpi_timer deferred gcs now s))"
proof -
  assume i: "acpi_inv s"
  obtain ticks s1 where t: "timer_ticks now s = (ticks, s1)" by (cases "timer_ticks now s")
  have "tco_inv t \<Longrightarrow> tco_inv (snd (tco_timer gcs now t))" for t
    using tco_step_inv [of t "Poll gcs now"] by simp
  then show ?thesis
    using timer_ticks_inv [OF i t] timer_status_inv [of s1] with_tco_inv(1) by (simp add: acpi_timer_def t Let_def)
qed

text \<open>Writes.\<close>

lemma gpe_write_byte_wf: "acpi_wf s \<Longrightarrow> acpi_wf (gpe_write_byte o1 byte s)"
proof -
  assume w: "acpi_wf s"
  have m: "fits 16 (x AND 0xFFFF)" for x by (intro fits_and2) (simp add: fits_def)
  show ?thesis
    using w m by (simp add: gpe_write_byte_def acpi_wf_defs platform_pm_def Let_def)
qed

lemma fold_keeps: "I s \<Longrightarrow> (\<And>x s. I s \<Longrightarrow> I (f x s)) \<Longrightarrow> I (fold f xs s)"
  by (induction xs arbitrary: s) simp_all

lemma gpe_write_inv: "acpi_wf s \<Longrightarrow> acpi_inv (gpe_write off sz v s)"
  unfolding gpe_write_def by (intro update_sci_inv fold_keeps [of acpi_wf] gpe_write_byte_wf)

lemma pm_write_ich9_wf: "acpi_wf s \<Longrightarrow> acpi_wf (pm_write_ich9 now o1 byte s)"
proof -
  assume w: "acpi_wf s"
  have "acpi_wf (gpe_write a b c s)" for a b c using gpe_write_inv [OF w] by (simp add: acpi_inv_iff)
  moreover have "acpi_wf (with_tco False (tco_write_byte now x byte) s)" for x
    using w tco_step_inv [of _ "Write_Byte now x byte"] by (intro with_tco_inv(2)) simp_all
  moreover have "acpi_wf (s\<lparr>smi_en := x\<rparr>)" "acpi_wf (s\<lparr>smi_sts := x\<rparr>)" for x using w by (simp_all add: acpi_wf_defs)
  ultimately show ?thesis using w by (simp only: pm_write_ich9_def Let_def split: if_split) blast
qed

lemma and_clear: "x AND m = 0 \<Longrightarrow> (x AND y) AND m = (0 :: i32)"
  by (auto simp: word_bits_eq_iff bit_simps)

lemma cnt_bits: "x AND -7172 = 0 \<Longrightarrow> (x AND NOT (m AND 0x1C02) OR b AND 0x1C02) AND -7172 = (0 :: i32)"
proof -
  assume "x AND -7172 = 0"
  then have "(x AND NOT (m AND 0x1C02)) AND -7172 = 0" by (rule and_clear)
  moreover have "(b AND 0x1C02) AND -7172 = (0 :: i32)" by (simp add: and.assoc)
  ultimately show ?thesis by (simp only: has_bits_or)
qed

lemma pm_write_byte_wf: "acpi_wf s \<Longrightarrow> acpi_wf (fst (pm_write_byte now o1 byte (s, b)))"
proof -
  assume w: "acpi_wf s"
  have "acpi_wf (s\<lparr>pm1_sts := pm1_sts s AND x\<rparr>)" "acpi_wf (s\<lparr>pm1_en := x AND PM1_EN_MASK\<rparr>)" "acpi_wf (s\<lparr>glbctl := x\<rparr>)" for x
    using w by (simp_all add: acpi_wf_defs and_clear) (simp add: and.assoc)
  moreover have "acpi_wf (s\<lparr>pm1_cnt := pm1_cnt s AND NOT (m AND PM1_CNT_WRITABLE) OR x AND PM1_CNT_WRITABLE\<rparr>)" for m x
    using w cnt_bits by (simp add: acpi_wf_defs)
  ultimately show ?thesis using w pm_write_ich9_wf [OF w] by (simp add: pm_write_byte_def Let_def)
qed

lemma power_off_inv: "acpi_inv s \<Longrightarrow> st \<in> {4, 5} \<Longrightarrow> (ich9 s \<Longrightarrow> st = 5) \<Longrightarrow> acpi_inv (power_off st s)"
  by (auto simp: power_off_def acpi_inv_defs)

lemma suspend_inv: "acpi_inv s \<Longrightarrow> \<not> ich9 s \<Longrightarrow> acpi_inv (suspend s)"
  by (auto simp: suspend_def acpi_inv_defs)

lemma find_sleep:
  "find (\<lambda>x. slp_typ x = typ) (sleep_states q) =
     (if typ = 1 then Some \<lparr>state_no = 3, slp_typ = 1, supported = \<not> q\<rparr>
      else if typ = 2 then Some \<lparr>state_no = 4, slp_typ = 2, supported = \<not> q\<rparr>
      else if typ = 0 then Some \<lparr>state_no = 5, slp_typ = 0, supported = True\<rparr> else None)"
  by (simp add: sleep_states_def Q35_SLEEP_STATES_def ACPI_SLEEP_STATES_def)

lemma enter_sleep_cases:
  "enter_sleep_state typ s =
     (if typ = 0 then power_off 5 s
      else if typ = 2 \<and> \<not> ich9 s then power_off 4 s
      else if typ = 1 \<and> \<not> ich9 s then suspend s
      else s\<lparr>pm1_sts := pm1_sts s OR WAK\<rparr>)"
  by (simp add: enter_sleep_state_def find_sleep)

lemma wak_inv: "acpi_inv s \<Longrightarrow> acpi_inv (s\<lparr>pm1_sts := pm1_sts s OR WAK\<rparr>)"
proof -
  assume i: "acpi_inv s"
  have "((pm1_sts s OR WAK) AND pm1_en s) AND PM1_EN_MASK = (pm1_sts s AND pm1_en s) AND PM1_EN_MASK"
    by (simp add: bit.conj_disj_distrib2 and.assoc and.left_commute)
  then show ?thesis using sts_or [OF i, of WAK] i by (simp add: acpi_inv_iff sci_demand_def)
qed

lemma pm_write_inv: "acpi_inv s \<Longrightarrow> acpi_inv (pm_write now off sz v s)"
proof -
  assume i: "acpi_inv s"
  obtain s1 b where f: "fold (\<lambda>i. pm_write_byte now (off + i) (byte_of v i)) [0..<sz] (s, False) = (s1, b)"
    by (metis surj_pair)
  have "acpi_wf (fst (fold (\<lambda>i. pm_write_byte now (off + i) (byte_of v i)) [0..<sz] (s, False)))"
    by (rule fold_keeps [of "\<lambda>p. acpi_wf (fst p)"]) (use i pm_write_byte_wf in \<open>auto simp: acpi_inv_iff\<close>)
  then have u: "acpi_inv (update_sci s1)" unfolding f by (simp add: update_sci_inv)
  have "acpi_inv (enter_sleep_state tt (update_sci s1))" for tt
    unfolding enter_sleep_cases using power_off_inv [OF u] suspend_inv [OF u] wak_inv [OF u] by (auto simp del: update_sci_simps)
  then show ?thesis using u by (simp add: pm_write_def f Let_def)
qed

lemma smi_cmd_inv: "acpi_inv s \<Longrightarrow> acpi_inv (smi_cmd_write v s)"
proof -
  assume i: "acpi_inv s"
  have "acpi_wf (s\<lparr>smi_cmd := v, pm1_cnt := pm1_cnt s OR SCI_EN\<rparr>)" "acpi_wf (s\<lparr>smi_cmd := v, pm1_cnt := pm1_cnt s AND x\<rparr>)" for v x
    using i by (auto simp: acpi_inv_iff acpi_wf_defs has_bits_or and_clear)
  moreover have "acpi_inv (s\<lparr>smi_cmd := v\<rparr>)" for v using i by (simp add: acpi_inv_defs)
  ultimately show ?thesis unfolding smi_cmd_write_def Let_def by (auto intro!: update_sci_inv raise_smi_inv)
qed

lemma wake_inv: "acpi_inv s \<Longrightarrow> b AND NOT PM1_STS_MASK = 0 \<Longrightarrow> acpi_inv (snd (wake deferred b s))"
proof -
  assume i: "acpi_inv s" and b: "b AND NOT PM1_STS_MASK = 0"
  have "acpi_inv (s\<lparr>sleeping := 0\<rparr>)" using i by (auto simp: acpi_inv_defs)
  then have "acpi_inv (reboot_internal deferred ''s3-wake'' (s\<lparr>sleeping := 0\<rparr>))" by (rule reboot_inv)
  from update_sci_inv [OF sts_or [OF this, of "WAK OR b"]] b
  have "acpi_inv (acpi_emit (Announce x y) (update_sci
     ((reboot_internal deferred ''s3-wake'' (s\<lparr>sleeping := 0\<rparr>))\<lparr>pm1_sts := pm1_sts (reboot_internal deferred ''s3-wake'' (s\<lparr>sleeping := 0\<rparr>)) OR (WAK OR b)\<rparr>)))" for x y
    by (simp add: has_bits_or acpi_inv_iff acpi_wf_defs)
  with i show ?thesis by (simp add: wake_def Let_def)
qed

lemma acpi_step_inv: "acpi_inv s \<Longrightarrow> acpi_inv (acpi_step e s)"
proof (cases e)
  case (Save now)
  assume i: "acpi_inv s"
  obtain ticks s1 where t: "timer_ticks now s = (ticks, s1)" by (cases "timer_ticks now s")
  show ?thesis using Save timer_ticks_inv [OF i t] by (simp add: acpi_get_state_def t)
next
  case (Worker_Read v)
  assume i: "acpi_inv s"
  then have "acpi_inv (s\<lparr>timer_last := timer_last s, shared := map_option (\<lambda>(b, off, m). (b, off, max m v)) (shared s)\<rparr>)"
    by (intro timer_upd_inv) (auto simp: acpi_inv_def timer_ok_def)
  then show ?thesis using Worker_Read by simp
next
  case Share
  assume i: "acpi_inv s"
  then have "acpi_inv (s\<lparr>timer_last := timer_last s, shared := Some (pm_base s, timer_offset s, timer_last s)\<rparr>)"
    by (intro timer_upd_inv) auto
  then show ?thesis using Share by (simp add: share_timer_def publish_timer_def)
next
  case (Apm_Sts v)
  assume "acpi_inv s" then show ?thesis using Apm_Sts by (simp add: apm_sts_write_def acpi_inv_defs)
next
  case Acpi_Reset
  assume "acpi_inv s" then show ?thesis using Acpi_Reset acpi_reset_inv by (simp add: acpi_inv_iff acpi_wf_def)
next
  case (Config_Write off v)
  assume i: "acpi_inv s" show ?thesis using Config_Write i config_inv [OF i] by (simp add: on_config_write_def update_decode_inv)
next
  case (Gpe_Write off sz v)
  assume "acpi_inv s" then show ?thesis using Gpe_Write gpe_write_inv by (simp add: acpi_inv_iff)
next
  case (Rtc_Alarm d)
  assume i: "acpi_inv s" then show ?thesis
    using Rtc_Alarm wake_inv [OF i] update_sci_inv [OF sts_or [OF i, of RTC_STS]] by (simp add: rtc_alarm_def)
next
  case (Power_Button d)
  assume i: "acpi_inv s" then show ?thesis
    using Power_Button wake_inv [OF i] update_sci_inv [OF sts_or [OF i, of PWRBTN]] by (simp add: press_power_button_def)
qed (simp_all add: pm_read_inv pm_write_inv smi_cmd_inv decode_inv acpi_timer_inv)

lemma ACPI_inv: "acpi_inv (ACPI q35 now)"
proof -
  have "tco_inv TCO" by (rule tcom.inv_init)
  then have "acpi_inv (reset_pm_config
       \<lparr>ich9 = q35, pmba = 0, pmregmisc = 0, pm_base = -1, pm1_sts = 0, pm1_en = 0, pm1_cnt = 0, gpe_sts = 0, gpe_en = 0,
        smi_cmd = 0, glbctl = 0, smi_en = 0, smi_sts = 0, acpi_tco = (if q35 then Some TCO else None), apm_sts = 0,
        soft_off = 0, sleeping = 0, sci_level = False,
        timer_last = 0, timer_offset = - \<lfloor>now * PM_TIMER_TICKS_PER_MS\<rfloor>, timer_period = 0, shared = None, acpi_log = []\<rparr>)"
    by (intro reset_config_inv) (simp add: acpi_inv_defs fits_zero)
  moreover have "acpi_inv s \<Longrightarrow> acpi_inv (acpi_emit (RegisterBlock a b) s)" for s a b by (simp add: acpi_inv_iff acpi_wf_defs)
  ultimately show ?thesis unfolding ACPI_def Let_def by (simp only: split: if_split) blast
qed

interpretation acpim: device_machine "\<lambda>_. True" acpi_step "ACPI q35 now" acpi_inv for q35 now
  by unfold_locales (simp_all add: acpi_step_inv ACPI_inv)

section \<open>What every event keeps\<close>

text \<open>Effects are only added, and the timer does not go back.\<close>

definition acpi_le :: "acpi \<Rightarrow> acpi \<Rightarrow> bool" where
  "acpi_le s s' \<longleftrightarrow> prefix (acpi_log s) (acpi_log s') \<and> timer_last s \<le> timer_last s' \<and> timer_offset s' = timer_offset s \<and> ich9 s' = ich9 s"

lemma acpi_le_refl [simp]: "acpi_le s s"
  by (simp add: acpi_le_def)

lemma acpi_le_trans [trans]: "acpi_le s u \<Longrightarrow> acpi_le u v \<Longrightarrow> acpi_le s v"
  unfolding acpi_le_def using prefix_order.trans by fastforce

lemma acpi_le_upd:
  "acpi_log u = acpi_log s \<Longrightarrow> timer_last u = timer_last s \<Longrightarrow> timer_offset u = timer_offset s \<Longrightarrow> ich9 u = ich9 s \<Longrightarrow> acpi_le s u"
  by (simp add: acpi_le_def)

lemma acpi_le_same:
  "acpi_le u v \<Longrightarrow> acpi_log u = acpi_log s \<Longrightarrow> timer_last u = timer_last s \<Longrightarrow> timer_offset u = timer_offset s \<Longrightarrow> ich9 u = ich9 s \<Longrightarrow> acpi_le s v"
  by (simp add: acpi_le_def)

lemma emit_le: "acpi_le s (acpi_emit e s)"
  by (simp add: acpi_le_def)

lemma update_sci_le: "acpi_le s (update_sci s)"
  by (auto simp: update_sci_def Let_def acpi_le_def)

lemma set_pm_decode_le: "acpi_le s (set_pm_decode b s)"
  by (auto simp: set_pm_decode_def publish_timer_def acpi_le_def Let_def)

lemma update_pm_decode_le: "acpi_le s (update_pm_decode s)"
  unfolding update_pm_decode_def Let_def by (rule acpi_le_same [OF set_pm_decode_le]) simp_all

lemma reset_pm_config_le: "acpi_le s (reset_pm_config s)"
  by (auto simp: reset_pm_config_def intro: acpi_le_same [OF update_pm_decode_le])

lemma acpi_reset_le: "acpi_le s (acpi_reset s)"
  unfolding acpi_reset_def by (rule acpi_le_trans [OF acpi_le_same [OF update_sci_le] reset_pm_config_le]) simp_all

lemma raise_smi_le: "acpi_le s (raise_smi b c s)"
  by (auto simp: raise_smi_def intro: acpi_le_same [OF emit_le])

lemma reboot_le: "acpi_le s (reboot_internal deferred r s)"
proof -
  have "acpi_le s (acpi_emit Deassert (acpi_reset (acpi_emit (RequestReboot r) s)))"
    by (rule acpi_le_trans [OF acpi_le_trans [OF emit_le acpi_reset_le] emit_le])
  then show ?thesis by (simp add: reboot_internal_def Let_def emit_le)
qed

lemma with_tco_le: "acpi_le s (with_tco deferred f s)"
proof (rule with_tco_keeps [of "acpi_le s"])
  fix e u assume "acpi_le s u"
  moreover have "acpi_le u (tco_callback deferred e u)" by (cases e) (simp_all add: raise_smi_le reboot_le)
  ultimately show "acpi_le s (tco_callback deferred e u)" by (rule acpi_le_trans)
qed (simp_all add: acpi_le_upd)

lemma fold_le: "(\<And>x u. acpi_le u (f x u)) \<Longrightarrow> acpi_le s (fold f xs s)"
  by (rule fold_keeps [of "acpi_le s"]) (auto intro: acpi_le_trans)

lemma gpe_write_byte_le: "acpi_le s (gpe_write_byte a b s)"
  by (simp add: gpe_write_byte_def Let_def acpi_le_upd)

lemma gpe_write_le: "acpi_le s (gpe_write off sz v s)"
  unfolding gpe_write_def by (rule acpi_le_trans [OF fold_le update_sci_le]) (rule gpe_write_byte_le)

lemma pm_write_ich9_le: "acpi_le s (pm_write_ich9 now o1 byte s)"
  by (simp add: pm_write_ich9_def Let_def gpe_write_le with_tco_le acpi_le_upd)

lemma pm_write_byte_le: "acpi_le (fst p) (fst (pm_write_byte now o1 byte p))"
  by (cases p) (simp add: pm_write_byte_def Let_def pm_write_ich9_le acpi_le_upd)

lemma sleep_le: "acpi_le s (enter_sleep_state tt s)"
proof -
  have "acpi_le s (power_off st s)" for st by (auto simp: power_off_def intro: acpi_le_same [OF emit_le])
  moreover have "acpi_le s (suspend s)"
    by (auto simp: suspend_def intro!: acpi_le_same [OF acpi_le_trans [OF acpi_le_trans [OF emit_le emit_le] emit_le]])
  ultimately show ?thesis by (simp add: enter_sleep_cases acpi_le_upd)
qed

lemma pm_write_le: "acpi_le s (pm_write now off sz v s)"
proof -
  let ?f = "fold (\<lambda>i. pm_write_byte now (off + i) (byte_of v i)) [0..<sz] (s, False)"
  have "acpi_le s (fst ?f)"
    by (rule fold_keeps [of "\<lambda>p. acpi_le s (fst p)"]) (use pm_write_byte_le acpi_le_trans in \<open>auto\<close>)
  then have u: "acpi_le s (update_sci (fst ?f))" by (rule acpi_le_trans) (rule update_sci_le)
  have "acpi_le s (enter_sleep_state tt (update_sci (fst ?f)))" for tt by (rule acpi_le_trans [OF u sleep_le])
  with u show ?thesis by (simp add: pm_write_def split_beta Let_def)
qed

lemma wake_le: "acpi_le s (snd (wake deferred b s))"
proof -
  define u where "u = reboot_internal deferred ''s3-wake'' (s\<lparr>sleeping := 0\<rparr>)"
  have "acpi_le s u" unfolding u_def by (rule acpi_le_same [OF reboot_le]) simp_all
  also have "acpi_le u (update_sci (u\<lparr>pm1_sts := pm1_sts u OR (WAK OR b)\<rparr>))"
    by (rule acpi_le_same [OF update_sci_le]) simp_all
  finally have "acpi_le s (acpi_emit x (update_sci (u\<lparr>pm1_sts := pm1_sts u OR (WAK OR b)\<rparr>)))" for x
    by (rule acpi_le_trans [OF _ emit_le])
  then show ?thesis by (simp add: wake_def Let_def u_def)
qed

lemma timer_status_le: "acpi_le s (update_timer_status t s)"
  by (auto simp: update_timer_status_def Let_def intro: acpi_le_same [OF update_sci_le])

lemma timer_ticks_le: "acpi_inv s \<Longrightarrow> timer_ticks now s = (ticks, s1) \<Longrightarrow> acpi_le s s1"
proof -
  assume i: "acpi_inv s" and t: "timer_ticks now s = (ticks, s1)"
  have e: "s1 = s\<lparr>timer_last := timer_last s1, shared := shared s1\<rparr>" by (rule timer_ticks_eq(2) [OF t])
  have "acpi_log s1 = acpi_log s" "timer_offset s1 = timer_offset s" "ich9 s1 = ich9 s" by (subst e, simp)+
  then show ?thesis using timer_ticks_inv(2) [OF i t] by (simp add: acpi_le_def)
qed

lemma acpi_step_le:
  assumes "acpi_inv s" shows "acpi_le s (acpi_step e s)"
proof -
  have t: "acpi_le s (snd (timer_ticks now s))" for now using timer_ticks_le [OF assms] by (metis prod.collapse)
  have u: "acpi_le s (update_timer_status x (snd (timer_ticks now s)))" for x now by (rule acpi_le_trans [OF t timer_status_le])
  show ?thesis
  proof (cases e)
    case (Pm_Read now off sz) then show ?thesis using u by (simp add: pm_read_def split_beta Let_def)
  next
    case (Main_Loop d gcs now) then show ?thesis
      using acpi_le_trans [OF u with_tco_le] by (simp add: acpi_timer_def split_beta Let_def)
  next
    case (Save now) then show ?thesis using t by (simp add: acpi_get_state_def split_beta Let_def)
  next
    case (Smi_Cmd v) then show ?thesis
      by (auto simp: smi_cmd_write_def Let_def intro: acpi_le_same [OF update_sci_le] acpi_le_same [OF raise_smi_le] acpi_le_upd)
  next
    case (Config_Write off v) then show ?thesis by (auto simp: on_config_write_def intro: acpi_le_same [OF update_pm_decode_le])
  next
    case (Rtc_Alarm d) then show ?thesis by (auto simp: rtc_alarm_def wake_le intro: acpi_le_same [OF update_sci_le])
  next
    case (Power_Button d) then show ?thesis by (auto simp: press_power_button_def wake_le intro: acpi_le_same [OF update_sci_le])
  qed (simp_all add: pm_write_le gpe_write_le apm_sts_write_def set_pm_decode_le acpi_reset_le share_timer_def publish_timer_def acpi_le_upd)
qed

section \<open>The SCI on its shared line\<close>

text \<open>
  The device inside a machine whose other sources drive the shared lines too: the calls that an event
  of the device makes are applied to the lines in order.
\<close>

datatype sci_event = Acpi_Event acpi_event | Other_Irq nat int bool | Other_Gsi nat int bool | Machine_Reset

fun sci_events :: "acpi_effect list \<Rightarrow> line_event list" where
  "sci_events [] = []"
| "sci_events (SciLevel l # es) = DriveIrq ACPI_SCI_IRQ ACPI_SCI_SOURCE l # sci_events es"
| "sci_events (Deassert # es) = ResetLines # sci_events es"
| "sci_events (e # es) = sci_events es"

fun sci_machine :: "sci_event \<Rightarrow> acpi \<times> shared_irqs \<Rightarrow> acpi \<times> shared_irqs" where
  "sci_machine (Acpi_Event e) (s, l) =
     (let s' = acpi_step e s in (s', run line_step (sci_events (drop (length (acpi_log s)) (acpi_log s'))) l))"
| "sci_machine (Other_Irq n src v) (s, l) = (s, line_step (DriveIrq n src v) l)"
| "sci_machine (Other_Gsi n src v) (s, l) = (s, line_step (DriveGsi n src v) l)"
| "sci_machine Machine_Reset (s, l) =
     (let s' = reboot_internal False ''reset'' s in (s', run line_step (sci_events (drop (length (acpi_log s)) (acpi_log s'))) l))"

fun sci_event_ok :: "sci_event \<Rightarrow> bool" where
  "sci_event_ok (Other_Irq n src v) \<longleftrightarrow> n < 16 \<and> src \<noteq> ACPI_SCI_SOURCE"
| "sci_event_ok (Other_Gsi n src v) \<longleftrightarrow> 16 \<le> n \<and> n < 24"
| "sci_event_ok e \<longleftrightarrow> True"

definition sci_machine_inv :: "acpi \<times> shared_irqs \<Rightarrow> bool" where
  "sci_machine_inv = (\<lambda>(s, l). acpi_inv s \<and> (\<exists>d. line_inv d l \<and> d (ACPI_SCI_IRQ, ACPI_SCI_SOURCE) = sci_level s))"

lemma sci_events_ok: "list_all line_ok (sci_events es)"
  by (induction es rule: sci_events.induct) simp_all

lemma sci_events_demand:
  "run demand_step (sci_events es) d (ACPI_SCI_IRQ, ACPI_SCI_SOURCE) = foldl sci_drive (d (ACPI_SCI_IRQ, ACPI_SCI_SOURCE)) es"
  by (induction es arbitrary: d rule: sci_events.induct) simp_all

lemma sci_machine_apply:
  assumes "sci_machine_inv (s, l)" "acpi_inv s'" "acpi_le s s'"
  shows "sci_machine_inv (s', run line_step (sci_events (drop (length (acpi_log s)) (acpi_log s'))) l)"
proof -
  obtain es where es: "acpi_log s' = acpi_log s @ es" using assms(3) by (auto simp: acpi_le_def prefix_def)
  obtain d where d: "line_inv d l" "d (ACPI_SCI_IRQ, ACPI_SCI_SOURCE) = sci_level s" and i: "acpi_inv s"
    using assms(1) by (auto simp: sci_machine_inv_def)
  have "sci_level s' = foldl sci_drive (sci_level s) es"
    using i assms(2) es by (simp add: acpi_inv_def sci_ok_def)
  then have "run demand_step (sci_events es) d (ACPI_SCI_IRQ, ACPI_SCI_SOURCE) = sci_level s'"
    by (simp only: sci_events_demand d(2))
  then show ?thesis
    using line_inv_run [OF sci_events_ok d(1)] assms(2) es by (auto simp: sci_machine_inv_def)
qed

lemma sci_machine_step_inv: "sci_event_ok e \<Longrightarrow> sci_machine_inv p \<Longrightarrow> sci_machine_inv (sci_machine e p)"
proof (cases p)
  case (Pair s l)
  assume ok: "sci_event_ok e" and i: "sci_machine_inv p"
  have s: "acpi_inv s" using i Pair by (simp add: sci_machine_inv_def)
  show ?thesis
  proof (cases e)
    case (Acpi_Event a)
    then show ?thesis using sci_machine_apply [OF _ acpi_step_inv [OF s] acpi_step_le [OF s]] i Pair by (simp add: Let_def)
  next
    case Machine_Reset
    then show ?thesis using sci_machine_apply [OF _ reboot_inv(1) [OF s] reboot_le] i Pair by (simp add: Let_def)
  next
    case (Other_Irq n src v)
    obtain d where d: "line_inv d l" "d (9, 256) = sci_level s" using i Pair by (auto simp: sci_machine_inv_def)
    then show ?thesis using drive_irq_inv [OF d(1), of n src v] Other_Irq ok Pair s
      by (auto simp: sci_machine_inv_def intro!: exI [of _ "d((n, src) := v)"])
  next
    case (Other_Gsi n src v)
    obtain d where d: "line_inv d l" "d (9, 256) = sci_level s" using i Pair by (auto simp: sci_machine_inv_def)
    then show ?thesis using drive_gsi_inv [OF d(1), of n src v] Other_Gsi ok Pair s
      by (auto simp: sci_machine_inv_def intro!: exI [of _ "d((n, src) := v)"])
  qed
qed

interpretation scim: device_machine sci_event_ok sci_machine "(ACPI q35 now, shared_irqs_init)" sci_machine_inv for q35 now
proof unfold_locales
  have "\<not> sci_level (ACPI q35 now)" by (simp add: ACPI_def)
  then show "sci_machine_inv (ACPI q35 now, shared_irqs_init)"
    using ACPI_inv shared_irqs_init_inv by (auto simp: sci_machine_inv_def)
qed (rule sci_machine_step_inv)

text \<open>
  Claim C27. The ACPI interrupt on its shared line: whatever is written to the PM and GPE registers and
  the SMI command port, however the timer, the alarm, the power button, sleep, wake and resets
  interleave with it and with the other sources of the shared lines, the device is among the sources
  of line 9 exactly if SCI_EN is set and an enabled event is pending, and the line is asserted exactly
  if that holds or another source asserts it.
\<close>

theorem sci_shared_line:
  assumes "list_all sci_event_ok es"
  shows "let (s, l) = run sci_machine es (ACPI q35 now, shared_irqs_init)
    in (ACPI_SCI_SOURCE \<in> set (shared_irq_sources l ! ACPI_SCI_IRQ) \<longleftrightarrow> sci_demand s) \<and>
       (line_level ACPI_SCI_IRQ (line_log l) \<longleftrightarrow>
          sci_demand s \<or> (\<exists>src \<in> set (shared_irq_sources l ! ACPI_SCI_IRQ). src \<noteq> ACPI_SCI_SOURCE))"
proof -
  obtain s l where e: "run sci_machine es (ACPI q35 now, shared_irqs_init) = (s, l)" by fastforce
  have i: "sci_machine_inv (s, l)" using scim.run_inv [OF assms, of q35 now] by (simp add: e)
  then obtain d where d: "line_inv d l" "d (9, 256) = sci_demand s"
    by (auto simp: sci_machine_inv_def acpi_inv_iff)
  have src: "src \<in> set (shared_irq_sources l ! 9) \<longleftrightarrow> d (9, src)" for src using d(1) by (simp add: line_inv_def)
  have "line_level 9 (line_log l) \<longleftrightarrow> (\<exists>src. d (9, src))" using line_inv_level [OF d(1)] by simp
  also have "\<dots> \<longleftrightarrow> sci_demand s \<or> (\<exists>src \<in> set (shared_irq_sources l ! 9). src \<noteq> 256)"
    using src d(2) by metis
  finally show ?thesis using src [of 256] d(2) by (simp add: e)
qed

abbreviation button_run :: "sci_event list" where
  "button_run \<equiv> [Acpi_Event (Smi_Cmd 0xF1), Acpi_Event (Pm_Write 1 2 2 0x100), Acpi_Event (Power_Button False), Other_Irq 9 8 True]"

lemma button_run_demand: "sci_demand (fst (run sci_machine button_run (ACPI False 0, shared_irqs_init)))"
  by code_simp

theorem sci_shared_line_witness:
  "let (s, l) = run sci_machine button_run (ACPI False 0, shared_irqs_init) in sci_demand s \<and> line_level 9 (line_log l)"
  using sci_shared_line [of button_run False 0] button_run_demand by (simp add: split_beta Let_def del: run.simps)

section \<open>The PM timer counts and its carry is not lost\<close>

lemma run_le: "acpi_inv s \<Longrightarrow> acpi_le s (run acpi_step es s)"
proof (induction es arbitrary: s)
  case (Cons e es)
  then show ?case using acpi_le_trans [OF acpi_step_le Cons.IH [OF acpi_step_inv]] by simp
qed simp

lemma timer_bytes:
  fixes x :: i32 assumes "t = x AND 0xFFFFFF"
  shows "t AND 0xFF OR (push_bit 8 (signed_drop_bit 8 t AND 0xFF) OR push_bit 16 (signed_drop_bit 16 t AND 0xFF)) = t"
proof -
  have m: "(0xFFFFFF :: i32) = mask 24" by (simp add: mask_eq_exp_minus_1)
  have t: "bit t n \<Longrightarrow> n < 24" for n using assms unfolding m by (auto simp: bit_simps)
  show ?thesis
  proof (intro bit_word_eqI)
    fix n assume "n < LENGTH(32)"
    consider "n < 8" | "8 \<le> n" "n < 16" | "16 \<le> n" "n < 24" | "24 \<le> n" by linarith
    then show "bit (t AND 0xFF OR (push_bit 8 (signed_drop_bit 8 t AND 0xFF) OR push_bit 16 (signed_drop_bit 16 t AND 0xFF))) n = bit t n"
      using t [of n] unfolding mask_eqs(1) by cases (auto simp: bit_simps bit_signed_drop_bit_iff)
  qed
qed

lemma uint_24: "uint ((word_of_int k :: i32) AND 0xFFFFFF) = k mod 16777216"
proof -
  have m: "(0xFFFFFF :: i32) = mask 24" by (simp add: mask_eq_exp_minus_1)
  have "uint ((word_of_int k :: i32) AND 0xFFFFFF) = uint (take_bit 24 (word_of_int k :: i32))" by (simp only: m take_bit_eq_mask)
  also have "\<dots> = take_bit 24 (take_bit 32 k)" by (simp only: unsigned_take_bit_eq uint_word_of_int_eq) simp
  also have "\<dots> = k mod 16777216" by (simp only: take_bit_take_bit) (simp add: take_bit_eq_mod)
  finally show ?thesis .
qed

text \<open>
  Reading the PM timer: in every reachable state a 32-bit read at offset 8 returns the low 24 bits of
  a tick count that is never below an earlier one, however the clock behaves and whatever happens
  between the reads; and when bit 23 has changed since the status was last updated, the read sets
  TMR_STS.
\<close>

theorem pm_timer_read:
  assumes "reachable (\<lambda>_. True) acpi_step (ACPI q35 t0) s" "pm_read now 8 4 s = (v, s1)"
  shows "uint v = timer_last s1 mod 2 ^ 24 \<and> timer_last s \<le> timer_last s1 \<and> timer_last s1 \<le> timer_last (run acpi_step es s1) \<and>
    timer_period s1 = timer_last s1 div 2 ^ 23 \<and> (timer_period s1 \<noteq> timer_period s \<longrightarrow> has_bits (pm1_sts s1) TMR)"
proof -
  have i: "acpi_inv s" by (rule acpim.reachable_inv [OF assms(1)])
  obtain ticks u where t: "timer_ticks now s = (ticks, u)" by (cases "timer_ticks now s")
  have u: "acpi_inv u" "timer_last s \<le> timer_last u" "ticks = timer_last u" by (rule timer_ticks_inv [OF i t])+
  have e: "u = s\<lparr>timer_last := timer_last u, shared := shared u\<rparr>" by (rule timer_ticks_eq(2) [OF t])
  have p: "timer_period u = timer_period s" by (subst e) simp
  define w where "w = (word_of_int ticks :: i32) AND 0xFFFFFF"
  have s1: "s1 = update_timer_status ticks u" using assms(2) by (simp add: pm_read_def t)
  have v: "v = fold (\<lambda>i value. value OR push_bit (i * 8) (pm_read_byte now (8 + i) w s1)) [0..<4] 0"
    unfolding w_def using assms(2) by (auto simp: pm_read_def t)
  have "v = w AND 0xFF OR (push_bit 8 (signed_drop_bit 8 w AND 0xFF) OR push_bit 16 (signed_drop_bit 16 w AND 0xFF))"
    unfolding v by (simp add: pm_read_byte_def pm_read_byte_piix4_def platform_pm_def numeral_nat upt_rec or.assoc)
  then have "v = w" by (simp only: timer_bytes [OF w_def])
  then have "uint v = ticks mod 2 ^ 24" by (simp only: w_def uint_24) simp
  moreover have l: "timer_last s1 = timer_last u" "timer_period s1 = timer_last u div 2 ^ 23"
    using u(3) by (simp_all add: s1 update_timer_status_def Let_def)
  moreover have "acpi_inv s1" using timer_status_inv [OF u(1)] u(3) by (simp add: s1)
  then have "timer_last s1 \<le> timer_last (run acpi_step es s1)" using run_le by (simp add: acpi_le_def)
  moreover have "timer_period s1 \<noteq> timer_period s \<Longrightarrow> has_bits (pm1_sts s1) TMR"
    using p by (simp add: s1 update_timer_status_def Let_def has_bits_or split: if_splits)
  ultimately show ?thesis using u(2,3) by auto
qed

theorem pm_timer_read_witness:
  "let (v, s1) = pm_read 5000 8 4 (ACPI False 1000)
   in uint v = timer_last s1 mod 2 ^ 24 \<and> timer_period s1 = timer_last s1 div 2 ^ 23 \<and> timer_last s1 \<le> timer_last (run acpi_step [Main_Loop False None 0] s1)"
  using pm_timer_read [of False 1000 "ACPI False 1000" 5000 "fst (pm_read 5000 8 4 (ACPI False 1000))" "snd (pm_read 5000 8 4 (ACPI False 1000))"
      "[Main_Loop False None 0]", OF reachable.start]
  by (simp add: split_beta Let_def del: run.simps acpi_step.simps)

section \<open>The carry interrupt arrives on time\<close>

abbreviation carry_in :: "acpi \<Rightarrow> rat" where
  "carry_in s \<equiv> (of_int ((timer_period s + 1) * PM_TIMER_STATUS_PERIOD) - of_int (timer_last s)) / PM_TIMER_TICKS_PER_MS"

abbreviation pm_ticks :: "rat \<Rightarrow> acpi \<Rightarrow> int" where
  "pm_ticks now s \<equiv> \<lfloor>now * PM_TIMER_TICKS_PER_MS\<rfloor> + timer_offset s"

lemma timer_piix4:
  assumes "acpi_inv s" "\<not> ich9 s" "shared s = None" "timer_last s \<le> pm_ticks now s"
  shows "snd (acpi_timer d gcs now s) = update_timer_status (pm_ticks now s) (s\<lparr>timer_last := pm_ticks now s\<rparr>)"
    "fst (acpi_timer d gcs now s) =
      (let s1 = snd (acpi_timer d gcs now s)
       in if has_bits (pm1_en s) TMR \<and> has_bits (pm1_cnt s) SCI_EN then min 100 (carry_in s1) else 100)"
proof -
  have "acpi_tco s = None" using assms(1,2) by (auto simp: acpi_inv_def power_ok_def)
  then have w: "with_tco d f (update_timer_status x (s\<lparr>timer_last := y\<rparr>)) = update_timer_status x (s\<lparr>timer_last := y\<rparr>)" for f x y
    by (simp add: with_tco_def update_timer_status_def Let_def)
  have t: "timer_ticks now s = (pm_ticks now s, s\<lparr>timer_last := pm_ticks now s\<rparr>)"
    using assms(3,4) by (auto simp: timer_ticks_def Let_def)
  have f: "acpi_tco (update_timer_status x (s\<lparr>timer_last := y\<rparr>)) = None" "pm1_en (update_timer_status x (s\<lparr>timer_last := y\<rparr>)) = pm1_en s"
     "pm1_cnt (update_timer_status x (s\<lparr>timer_last := y\<rparr>)) = pm1_cnt s" "timer_last (update_timer_status x (s\<lparr>timer_last := y\<rparr>)) = y" for x y
    using \<open>acpi_tco s = None\<close> by (simp_all add: update_timer_status_def Let_def)
  show r: "snd (acpi_timer d gcs now s) = update_timer_status (pm_ticks now s) (s\<lparr>timer_last := pm_ticks now s\<rparr>)"
    unfolding acpi_timer_def t by (simp add: w Let_def)
  show "fst (acpi_timer d gcs now s) =
      (let s1 = snd (acpi_timer d gcs now s)
       in if has_bits (pm1_en s) TMR \<and> has_bits (pm1_cnt s) SCI_EN then min 100 (carry_in s1) else 100)"
    unfolding r Let_def unfolding acpi_timer_def t by (simp add: w f Let_def)
qed

lemma timer_status_same:
  "ticks div PM_TIMER_STATUS_PERIOD = timer_period s \<Longrightarrow> update_timer_status ticks s = s"
  by (simp add: update_timer_status_def)

lemma floor_shift: "\<lfloor>(now + of_int k / PM_TIMER_TICKS_PER_MS) * PM_TIMER_TICKS_PER_MS\<rfloor> = \<lfloor>now * PM_TIMER_TICKS_PER_MS\<rfloor> + k"
proof -
  have "(now + of_int k / PM_TIMER_TICKS_PER_MS) * PM_TIMER_TICKS_PER_MS = now * PM_TIMER_TICKS_PER_MS + of_int k"
    by (simp add: field_simps)
  then show ?thesis by (simp only: floor_add_int)
qed

lemma has_bit_0: "(x :: i32) AND 1 = 0 \<longleftrightarrow> \<not> bit x 0"
  by (simp add: and_one_eq bit_0 even_iff_mod_2_eq_zero [symmetric])

lemma half_period:
  fixes n q P :: int assumes "0 < P"
  shows "n < (n div P + 1) * P" "n \<le> q \<Longrightarrow> q < (n div P + 1) * P \<Longrightarrow> q div P = n div P" "(n div P + 1) * P \<le> q \<Longrightarrow> q div P \<noteq> n div P"
proof -
  have n: "n = n div P * P + n mod P" "0 \<le> n mod P" "n mod P < P" using assms by simp_all
  then show "n < (n div P + 1) * P" unfolding distrib_right by linarith
  show "q div P = n div P" if "n \<le> q" "q < (n div P + 1) * P"
  proof -
    have "n div P * P \<le> q" "q - n div P * P < P" using that n unfolding distrib_right by linarith+
    then show ?thesis by (intro int_div_pos_eq [of q P _ "q - n div P * P"]) simp_all
  qed
  show "q div P \<noteq> n div P" if "(n div P + 1) * P \<le> q"
    using zdiv_mono1 [OF that assms] assms by simp
qed

lemma tmr_raises:
  assumes "has_bits (pm1_en s) TMR" "has_bits (pm1_cnt s) SCI_EN" "ticks div PM_TIMER_STATUS_PERIOD \<noteq> timer_period s"
  shows "has_bits (pm1_sts (update_timer_status ticks s)) TMR \<and> sci_level (update_timer_status ticks s)"
proof -
  have "bit (((pm1_sts s OR TMR) AND pm1_en s) AND PM1_EN_MASK) 0" using assms(1) by (simp add: bit_simps has_bit_0)
  then have "has_bits ((pm1_sts s OR TMR) AND pm1_en s) PM1_EN_MASK" by auto
  then show ?thesis using assms(2,3) by (simp add: update_timer_status_def Let_def sci_demand_def has_bits_or)
qed

lemma reachable_ich9: "reachable (\<lambda>_. True) acpi_step (ACPI q35 t0) s \<Longrightarrow> ich9 s = q35"
proof (induction rule: reachable.induct)
  case start then show ?case by (simp add: ACPI_def)
next
  case (step s e)
  have "acpi_inv s" by (rule acpim.reachable_inv [OF step(1)])
  then show ?case using acpi_step_le [of s e] step(3) by (simp add: acpi_le_def)
qed

text \<open>
  Claim C28. The timer carry interrupt is on time (PIIX4, with TMR_EN and SCI_EN set and the clock not going
  back): the main loop is told to return after at most the time until bit 23 changes; a poll before the
  count gets there leaves the status alone; and the first poll after that time sets TMR_STS and
  asserts the interrupt.
\<close>

theorem pm_timer_carry_on_time:
  assumes "reachable (\<lambda>_. True) acpi_step (ACPI False t0) s" "shared s = None" "timer_last s \<le> pm_ticks now s"
    and "has_bits (pm1_en s) TMR" "has_bits (pm1_cnt s) SCI_EN" "acpi_timer d gcs now s = (w, s1)" "now \<le> t"
  shows "0 < w \<and> w = min 100 (carry_in s1) \<and>
    (pm_ticks t s1 < (timer_period s1 + 1) * PM_TIMER_STATUS_PERIOD \<longrightarrow> pm1_sts (snd (acpi_timer d gcs t s1)) = pm1_sts s1) \<and>
    (now + carry_in s1 \<le> t \<longrightarrow>
       has_bits (pm1_sts (snd (acpi_timer d gcs t s1))) TMR \<and> sci_level (snd (acpi_timer d gcs t s1)))"
proof -
  have i: "acpi_inv s" by (rule acpim.reachable_inv [OF assms(1)])
  have ich: "\<not> ich9 s" using reachable_ich9 [OF assms(1)] by simp
  define n where "n = pm_ticks now s"
  note r = timer_piix4 [OF i ich assms(2,3), of d gcs]
  have s1: "s1 = update_timer_status n (s\<lparr>timer_last := n\<rparr>)" using r(1) assms(6) by (simp add: n_def)
  have f: "timer_last s1 = n" "timer_period s1 = n div PM_TIMER_STATUS_PERIOD" "timer_offset s1 = timer_offset s" "shared s1 = None" "\<not> ich9 s1"
      "has_bits (pm1_en s1) TMR" "has_bits (pm1_cnt s1) SCI_EN"
    using assms(2,4,5) ich by (simp_all add: s1 update_timer_status_def Let_def)
  have i1: "acpi_inv s1" using acpi_timer_inv [OF i, of d gcs now] assms(6) by simp
  define k where "k = (n div PM_TIMER_STATUS_PERIOD + 1) * PM_TIMER_STATUS_PERIOD - n"
  have k: "0 < k" using half_period(1) [of PM_TIMER_STATUS_PERIOD n] by (simp add: k_def)
  have c: "carry_in s1 = of_int k / PM_TIMER_TICKS_PER_MS" by (simp only: f k_def of_int_diff)
  have w: "w = min 100 (carry_in s1)" using r(2) assms(4,5,6) by (simp add: Let_def)
  have m: "n \<le> pm_ticks t s1" unfolding n_def f(3) using assms(7) by (intro add_right_mono floor_mono mult_right_mono) auto
  have p: "snd (acpi_timer d gcs t s1) = update_timer_status (pm_ticks t s1) (s1\<lparr>timer_last := pm_ticks t s1\<rparr>)"
    by (rule timer_piix4(1) [OF i1 f(5,4)]) (use m f(1) in simp)
  have early: "pm1_sts (snd (acpi_timer d gcs t s1)) = pm1_sts s1" if "pm_ticks t s1 < (timer_period s1 + 1) * PM_TIMER_STATUS_PERIOD"
  proof -
    define q where "q = pm_ticks t s1"
    have "n \<le> q" "q < (n div PM_TIMER_STATUS_PERIOD + 1) * PM_TIMER_STATUS_PERIOD" using m that unfolding q_def f(2) by simp_all
    then have "q div PM_TIMER_STATUS_PERIOD = n div PM_TIMER_STATUS_PERIOD" by (rule half_period(2) [rotated]) simp
    then show ?thesis unfolding p q_def [symmetric] using f(2) by (simp add: timer_status_same)
  qed
  have late: "has_bits (pm1_sts (snd (acpi_timer d gcs t s1))) TMR \<and> sci_level (snd (acpi_timer d gcs t s1))" if "now + carry_in s1 \<le> t"
  proof -
    define q where "q = pm_ticks t s1"
    have "(now + of_int k / PM_TIMER_TICKS_PER_MS) * PM_TIMER_TICKS_PER_MS \<le> t * PM_TIMER_TICKS_PER_MS"
      using that unfolding c by (intro mult_right_mono) auto
    then have "\<lfloor>now * PM_TIMER_TICKS_PER_MS\<rfloor> + k \<le> \<lfloor>t * PM_TIMER_TICKS_PER_MS\<rfloor>" using floor_mono floor_shift by metis
    then have "n + k \<le> q" by (simp add: q_def n_def f(3))
    then have "q div PM_TIMER_STATUS_PERIOD \<noteq> n div PM_TIMER_STATUS_PERIOD"
      by (intro half_period(3)) (simp_all add: k_def)
    then show ?thesis
      unfolding p q_def [symmetric] using tmr_raises [of "s1\<lparr>timer_last := q\<rparr>" q] f by simp
  qed
  have "0 < carry_in s1" unfolding c using k by (intro divide_pos_pos) simp_all
  then show ?thesis using w early late by simp
qed

abbreviation carry_start :: acpi where
  "carry_start \<equiv> run acpi_step [Smi_Cmd 0xF1, Pm_Write 0 2 2 1] (ACPI False 0)"

lemma carry_start_facts:
  "shared carry_start = None" "timer_last carry_start \<le> pm_ticks 1000 carry_start"
  "has_bits (pm1_en carry_start) TMR" "has_bits (pm1_cnt carry_start) SCI_EN"
  by code_simp+

theorem pm_timer_carry_on_time_witness:
  "let (w, s1) = acpi_timer False None 1000 carry_start in 0 < w \<and> w = min 100 (carry_in s1)"
proof -
  have r: "reachable (\<lambda>_. True) acpi_step (ACPI False 0) carry_start" by (rule reachable_run [OF reachable.start]) simp
  obtain w s1 where e: "acpi_timer False None 1000 carry_start = (w, s1)" by fastforce
  have "0 < w \<and> w = min 100 (carry_in s1)"
    using pm_timer_carry_on_time [OF r carry_start_facts e order_refl] by blast
  then show ?thesis unfolding e Let_def prod.case .
qed

section \<open>Sleep and wake\<close>

lemma two_merges: "(c AND NOT a OR v AND a) AND NOT b OR v AND b = c AND NOT (a OR b) OR v AND (a OR b :: i32)"
  by (auto simp: word_bits_eq_iff bit_simps)

text \<open>What a 16-bit write to PM1_CNT leaves in the register.\<close>

lemma cnt_write:
  "fold (\<lambda>i. pm_write_byte now (4 + i) (byte_of v i)) [0..<2] (s, False) =
     (s\<lparr>pm1_cnt := pm1_cnt s AND NOT PM1_CNT_WRITABLE OR v AND PM1_CNT_WRITABLE\<rparr>, has_bits v SLP_EN)"
proof -
  have b0: "byte_of v 0 = v AND 0xFF" by (simp add: byte_of_def)
  have b1: "push_bit 8 (byte_of v (Suc 0)) = v AND 0xFF00"
    by (rule bit_word_eqI) (auto simp: byte_of_def bit_simps mask_bits)
  have c: "(pm1_cnt s AND - 3 OR v AND 2) AND - 7169 OR v AND 7168 = pm1_cnt s AND - 7171 OR v AND 7170"
    using two_merges [of "pm1_cnt s" 2 v 7168] by simp
  have u: "[0..<2] = [0, Suc 0]" by (simp add: numeral_2_eq_2)
  show ?thesis unfolding u
    by (simp add: pm_write_byte_def b0 b1 Let_def and.assoc) (simp add: c)
qed

lemma slp_typ_bits:
  "signed_drop_bit 10 ((c AND - 7171 OR v AND PM1_CNT_WRITABLE) AND SLP_TYP) = drop_bit 10 v AND (7 :: i32)"
proof -
  have w: "(c AND - 7171 OR v AND PM1_CNT_WRITABLE) AND SLP_TYP = v AND SLP_TYP"
    by (simp add: bit.conj_disj_distrib2 and.assoc)
  have m: "(SLP_TYP :: i32) = push_bit 10 (mask 3)" "(7 :: i32) = mask 3" by (simp_all add: mask_eq_exp_minus_1 push_bit_eq_mult)
  show ?thesis unfolding w unfolding m
    by (rule bit_word_eqI) (auto simp: bit_simps bit_signed_drop_bit_iff min_def)
qed

text \<open>
  Entering a sleep state: a 16-bit write to PM1_CNT with SLP_EN set turns the machine off for
  SLP_TYP 0 (S5) and, on the PIIX4, for SLP_TYP 2 (S4); it suspends to RAM for SLP_TYP 1 on the
  PIIX4, marking the resume in the CMOS before the cores stop and the host hears of it; any other
  type wakes at once with WAK_STS. A machine that is already off or suspended is not turned off or
  suspended again, and without SLP_EN neither happens.
\<close>

theorem pm1_cnt_sleep:
  assumes "s' = pm_write now 4 2 v s" "typ = drop_bit 10 v AND 7" "log0 = acpi_log (update_sci (fst (fold (\<lambda>i. pm_write_byte now (4 + i) (byte_of v i)) [0..<2] (s, False))))"
  shows "(if has_bits v SLP_EN
      then if typ = 0 \<or> typ = 2 \<and> \<not> ich9 s
           then soft_off s' = (if soft_off s \<noteq> 0 then soft_off s else if typ = 0 then 5 else 4) \<and> sleeping s' = sleeping s \<and>
                acpi_log s' = log0 @ (if soft_off s \<noteq> 0 then [] else [Announce ''acpi-power-off'' (if typ = 0 then ''S5'' else ''S4'')])
           else if typ = 1 \<and> \<not> ich9 s
           then soft_off s' = soft_off s \<and> sleeping s' = (if sleeping s \<noteq> 0 then sleeping s else if soft_off s \<noteq> 0 then 0 else 3) \<and>
                acpi_log s' = log0 @ (if sleeping s \<noteq> 0 \<or> soft_off s \<noteq> 0 then []
                   else [CmosWrite 0x0F 0xFE, EnterSleep, Announce ''acpi-sleep'' ''S3''])
           else soft_off s' = soft_off s \<and> sleeping s' = sleeping s \<and> has_bits (pm1_sts s') WAK \<and> acpi_log s' = log0
      else soft_off s' = soft_off s \<and> sleeping s' = sleeping s \<and> acpi_log s' = log0)"
proof -
  let ?c = "s\<lparr>pm1_cnt := pm1_cnt s AND NOT PM1_CNT_WRITABLE OR v AND PM1_CNT_WRITABLE\<rparr>"
  have l: "log0 = acpi_log (update_sci ?c)" unfolding assms(3) cnt_write by simp
  have e: "s' = (if has_bits v SLP_EN then enter_sleep_state typ (update_sci ?c) else update_sci ?c)"
    unfolding assms(1,2) pm_write_def cnt_write by (simp add: slp_typ_bits Let_def)
  show ?thesis
    unfolding e l by (simp add: enter_sleep_cases power_off_def suspend_def has_bits_or)
qed

theorem pm1_cnt_sleep_witness:
  "soft_off (pm_write 0 4 2 0x2000 (ACPI True 0)) = 5 \<and> sleeping (pm_write 0 4 2 0x2400 (ACPI False 0)) = 3"
  using pm1_cnt_sleep [OF refl refl refl, where now = 0 and v = "0x2000" and s = "ACPI True 0"] pm1_cnt_sleep [OF refl refl refl, where now = 0 and v = "0x2400" and s = "ACPI False 0"]
  by (simp add: ACPI_def)

text \<open>What a reset leaves: every register at its power-on value, the timer running on.\<close>

lemma acpi_reset_state:
  "acpi_reset s = s\<lparr>pmba := (if ich9 s then pmba s else 1), pmregmisc := (if ich9 s then pmregmisc s else pmregmisc s AND NOT 0xFF),
     pm_base := (if ich9 s then pm_base s else -1), pm1_sts := 0, pm1_en := 0, pm1_cnt := 0, gpe_sts := 0, gpe_en := 0, smi_cmd := 0,
     glbctl := 0, smi_en := 0, smi_sts := 0, acpi_tco := map_option (\<lambda>t. TCO\<lparr>tco_log := tco_log t\<rparr>) (acpi_tco s), apm_sts := 0,
     soft_off := 0, sleeping := 0, sci_level := False,
     shared := (if ich9 s \<or> pm_base s = -1 then shared s else map_option (\<lambda>(_, _, l). (-1, timer_offset s, l)) (shared s)),
     acpi_log := acpi_log s @ (if sci_level s then [SciLevel False] else []) @
       (if ich9 s \<or> pm_base s = -1 then [] else [UnregisterRange (pm_base s) (pm_length (platform_pm False))])\<rparr>"
proof -
  have "tco_reset = (\<lambda>t. TCO\<lparr>tco_log := tco_log t\<rparr>)" by (simp add: fun_eq_iff TCO_def tco_reset_def)
  moreover have "(m AND NOT 0xFF) AND 1 = (0 :: i32)" for m by (simp add: and.assoc)
  ultimately show ?thesis
    by (cases s) (simp add: acpi_reset_def update_sci_def sci_demand_def reset_pm_config_def update_pm_decode_def set_pm_decode_def
        publish_timer_def acpi_emit_def Let_def)
qed

text \<open>
  A reset that has to wait (for the end of an instruction or of the other cores) comes after WAK_STS and the
  cause were set, and clears them.
\<close>

lemma wake_deferred_lost:
  assumes "sleeping s = 3" "b \<in> {PWRBTN, RTC_STS}"
  shows "pm1_sts (snd (wake True b s)) = pm1_sts s OR (WAK OR b) \<and> RequestReboot ''s3-wake'' \<in> set (acpi_log (snd (wake True b s))) \<and>
    pm1_sts (acpi_reset (snd (wake True b s))) = 0"
  using assms by (auto simp: wake_def reboot_internal_def update_sci_def acpi_emit_def acpi_reset_state Let_def)

text \<open>
  Claim C29. Waking from S3, when the reset is carried out at once: the power button, or an alarm with RTC_EN set,
  leaves exactly the reset state but for WAK_STS and the cause in PM1_STS. Every other register is at its power-on value
  (PM1_EN and PM1_CNT, both GPE registers, the SMI registers, GLBCTL, the command and status ports, the watchdog with all its
  registers, and on the PIIX4 the decoding of the PM block), the machine is neither off nor suspended, the SCI
  is not asserted, and the PM timer runs on; the machine hears of the reset, of the SCI and of the PM block only
  where they change, then of the deassertion of all lines, and last of the wake with its cause.
\<close>

theorem wake_from_s3:
  assumes "sleeping s = 3" "b \<in> {PWRBTN, RTC_STS}" "b = RTC_STS \<longrightarrow> has_bits (pm1_en s) RTC_STS"
    and "s' = (if b = PWRBTN then press_power_button False s else rtc_alarm False s)"
  shows "s' = s\<lparr>pmba := (if ich9 s then pmba s else 1), pmregmisc := (if ich9 s then pmregmisc s else pmregmisc s AND NOT 0xFF),
     pm_base := (if ich9 s then pm_base s else -1), pm1_sts := WAK OR b, pm1_en := 0, pm1_cnt := 0, gpe_sts := 0, gpe_en := 0, smi_cmd := 0,
     glbctl := 0, smi_en := 0, smi_sts := 0, acpi_tco := map_option (\<lambda>t. TCO\<lparr>tco_log := tco_log t\<rparr>) (acpi_tco s), apm_sts := 0,
     soft_off := 0, sleeping := 0, sci_level := False,
     shared := (if ich9 s \<or> pm_base s = -1 then shared s else map_option (\<lambda>(_, _, l). (-1, timer_offset s, l)) (shared s)),
     acpi_log := acpi_log s @ [RequestReboot ''s3-wake''] @ (if sci_level s then [SciLevel False] else []) @
       (if ich9 s \<or> pm_base s = -1 then [] else [UnregisterRange (pm_base s) (pm_length (platform_pm False))]) @
       [Deassert, Announce ''acpi-wake'' (if b = PWRBTN then ''power-button'' else ''rtc'')]\<rparr>"
proof -
  define c where "c = (if b = PWRBTN then ''power-button'' else ''rtc'')"
  have c: "(if has_bits b PWRBTN then ''power-button'' else if has_bits b RTC_STS then ''rtc'' else ''other'') = c"
    using assms(2) by (auto simp: c_def)
  have "s' = snd (wake False b s)" using assms by (auto simp: press_power_button_def rtc_alarm_def)
  then show ?thesis unfolding c_def [symmetric] using assms(1)
    by (cases s) (simp add: wake_def c reboot_internal_def acpi_reset_state update_sci_def sci_demand_def acpi_emit_def Let_def)
qed

lemma suspended_state: "sleeping (pm_write 0 4 2 0x2400 (ACPI False 0)) = 3"
  by code_simp

theorem wake_from_s3_witness:
  "let s' = press_power_button False (pm_write 0 4 2 0x2400 (ACPI False 0)) in sleeping s' = 0 \<and> pm1_sts s' = 0x8100 \<and> \<not> sci_level s'"
  using wake_from_s3 [OF suspended_state, of PWRBTN] by (simp add: Let_def)

section \<open>Saved states\<close>

lemma byte_cell: "ucast (ucast (byte_of v i) :: u8) = byte_of v i"
  by (rule bit_word_eqI) (auto simp: byte_of_def bit_simps mask_bits)

lemma bytes_join:
  "byte_of v 0 OR (push_bit 8 (byte_of v 1) OR (push_bit 16 (byte_of v 2) OR push_bit 24 (byte_of v 3))) = v"
  "fits 16 v \<Longrightarrow> byte_of v 0 OR push_bit 8 (byte_of v 1) = v"
proof -
  have m: "(0xFF :: i32) = mask 8" by (rule mask_eqs)
  have b: "bit (byte_of v i) n \<longleftrightarrow> n < 8 \<and> bit v (i * 8 + n)" for i n by (auto simp: byte_of_def m bit_simps)
  have c: "bit (push_bit k (byte_of v i)) n \<longleftrightarrow> k \<le> n \<and> n < 32 \<and> n < k + 8 \<and> bit v (i * 8 + (n - k))" for k i n by (auto simp: bit_simps b)
  show "byte_of v 0 OR (push_bit 8 (byte_of v 1) OR (push_bit 16 (byte_of v 2) OR push_bit 24 (byte_of v 3))) = v"
  proof (rule bit_word_eqI)
    fix n assume "n < LENGTH(32)"
    then consider "n < 8" | "8 \<le> n" "n < 16" | "16 \<le> n" "n < 24" | "24 \<le> n" "n < 32" by fastforce
    then show "bit (byte_of v 0 OR (push_bit 8 (byte_of v 1) OR (push_bit 16 (byte_of v 2) OR push_bit 24 (byte_of v 3)))) n = bit v n"
      by cases (simp_all add: bit_or_iff b c)
  qed
  show "byte_of v 0 OR push_bit 8 (byte_of v 1) = v" if "fits 16 v"
  proof (rule bit_word_eqI)
    fix n assume "n < LENGTH(32)"
    consider "n < 8" | "8 \<le> n" "n < 16" | "16 \<le> n" by fastforce
    then show "bit (byte_of v 0 OR push_bit 8 (byte_of v 1)) n = bit v n"
      using that by cases (simp_all add: bit_or_iff b c fits_bits)
  qed
qed

lemma gpe_roundtrip:
  assumes "gpe_ok s"
  shows "gpe_bytes (gpe_save s) 0 = gpe_sts s" "gpe_bytes (gpe_save s) (length (gpe_save s) div 2) = gpe_en s"
proof -
  have u: "[0..<4] = [0, 1, 2, 3 :: nat]" "[0..<2] = [0, 1 :: nat]" by (simp_all add: upt_rec numeral_eq_Suc)
  have r: "replicate 16 x = [x, x, x, x, x, x, x, x, x, x, x, x, x, x, x, x]" "replicate 4 x = [x, x, x, x]" for x :: u8
    by (simp_all add: numeral_eq_Suc)
  have "gpe_bytes (gpe_save s) 0 = gpe_sts s \<and> gpe_bytes (gpe_save s) (length (gpe_save s) div 2) = gpe_en s"
  proof (cases "ich9 s")
    case True
    show ?thesis using bytes_join(1) True
      by (simp add: gpe_save_def gpe_bytes_def platform_pm_def u r byte_cell or.assoc Let_def)
  next
    case False
    have "fits 16 (gpe_sts s)" "fits 16 (gpe_en s)" using assms False by (simp_all add: gpe_ok_def)
    then show ?thesis using bytes_join(2) False
      by (simp add: gpe_save_def gpe_bytes_def platform_pm_def u r byte_cell Let_def)
  qed
  then show "gpe_bytes (gpe_save s) 0 = gpe_sts s" "gpe_bytes (gpe_save s) (length (gpe_save s) div 2) = gpe_en s" by simp_all
qed

text \<open>
  Claim C30. A saved state brings the device back: from any reachable state, restored at any later time into a
  device of the same machine, every register, the sleep state and the watchdog are as saved, the PM
  timer goes on from the saved count by exactly the ticks that pass, and after
  the interrupt controllers are restored the SCI has the level that the registers ask for.
\<close>

theorem acpi_state_roundtrip:
  assumes "reachable (\<lambda>_. True) acpi_step (ACPI q35 t0) s" "acpi_get_state now s = (st, s1)" "ich9 u = q35" "acpi_tco u \<noteq> None \<longleftrightarrow> q35"
    and "s2 = acpi_set_state now' st u"
  shows "pm1_sts s2 = pm1_sts s \<and> pm1_en s2 = pm1_en s \<and> pm1_cnt s2 = pm1_cnt s \<and> gpe_sts s2 = gpe_sts s \<and> gpe_en s2 = gpe_en s \<and>
    smi_cmd s2 = smi_cmd s \<and> glbctl s2 = glbctl s \<and> smi_en s2 = smi_en s \<and> smi_sts s2 = smi_sts s \<and> apm_sts s2 = apm_sts s \<and>
    soft_off s2 = soft_off s \<and> sleeping s2 = sleeping s \<and> timer_period s2 = timer_period s \<and>
    map_option tco_get_state (acpi_tco s2) = map_option tco_get_state (acpi_tco s) \<and>
    timer_last s2 = timer_last s1 \<and>
    pm_ticks t s2 = timer_last s1 + (\<lfloor>t * PM_TIMER_TICKS_PER_MS\<rfloor> - \<lfloor>now' * PM_TIMER_TICKS_PER_MS\<rfloor>) \<and>
    sci_level (sync_sci has s2) = sci_level s"
proof -
  have i: "acpi_inv s" by (rule acpim.reachable_inv [OF assms(1)])
  have q: "ich9 s = q35" by (rule reachable_ich9 [OF assms(1)])
  obtain ticks w where t: "timer_ticks now s = (ticks, w)" by (cases "timer_ticks now s")
  have e: "w = s\<lparr>timer_last := timer_last w, shared := shared w\<rparr>" "ticks = timer_last w" by (rule timer_ticks_eq [OF t])+
  have w: "timer_period w = timer_period s" "smi_cmd w = smi_cmd s" "glbctl w = glbctl s" "soft_off w = soft_off s" "sleeping w = sleeping s"
    "smi_en w = smi_en s" "smi_sts w = smi_sts s" "acpi_tco w = acpi_tco s" "apm_sts w = apm_sts s" by (subst e(1), simp)+
  have st: "s1 = w" "st = \<lparr>st_pm1_cnt = pm1_cnt s, st_pm1_sts = pm1_sts s, st_pm1_en = pm1_en s, st_gpe = gpe_save s, st_format = Some 3,
       st_ticks = timer_last w, st_period = timer_period s, st_smi_cmd = smi_cmd s, st_glbctl = glbctl s, st_soft_off = soft_off s,
       st_sleeping = sleeping s, st_smi_en = smi_en s, st_smi_sts = smi_sts s, st_tco = map_option tco_get_state (acpi_tco s),
       st_apm_sts = apm_sts s\<rparr>"
    using assms(2) by (auto simp: acpi_get_state_def t w e(2))
  have m: "x AND y = x" if "x AND NOT y = (0 :: i32)" for x y
    using that by (auto simp: word_bits_eq_iff bit_simps)
  have reg: "pm1_sts s AND PM1_STS_MASK = pm1_sts s" "pm1_en s AND PM1_EN_MASK = pm1_en s" "pm1_cnt s AND (SCI_EN OR PM1_CNT_WRITABLE) = pm1_cnt s"
    using i by (auto intro!: m simp: acpi_inv_def regs_ok_def)
  have g: "gpe_bytes (gpe_save s) 0 = gpe_sts s" "gpe_bytes (gpe_save s) (length (gpe_save s) div 2) = gpe_en s"
    using gpe_roundtrip [of s] i by (simp_all add: acpi_inv_def)
  have "acpi_tco s \<noteq> None \<longleftrightarrow> q35" using i q by (auto simp: acpi_inv_def power_ok_def)
  with assms(4) consider "acpi_tco s = None" "acpi_tco u = None" | x y where "acpi_tco s = Some x" "acpi_tco u = Some y" by fastforce
  then have tco: "map_option tco_get_state (acpi_tco s2) = map_option tco_get_state (acpi_tco s)"
    by cases (simp_all add: assms(5) st(2) acpi_set_state_def publish_timer_def tco_get_set Let_def)
  have regs: "pm1_sts s2 = pm1_sts s" "pm1_en s2 = pm1_en s" "pm1_cnt s2 = pm1_cnt s" "gpe_sts s2 = gpe_sts s" "gpe_en s2 = gpe_en s"
    using reg g by (simp_all add: assms(5) st(2) acpi_set_state_def publish_timer_def Let_def)
  have rest: "smi_cmd s2 = smi_cmd s" "glbctl s2 = glbctl s" "smi_en s2 = smi_en s" "smi_sts s2 = smi_sts s" "apm_sts s2 = apm_sts s"
    "soft_off s2 = soft_off s" "sleeping s2 = sleeping s" "timer_period s2 = timer_period s" "timer_last s2 = timer_last w"
    "timer_offset s2 = timer_last w - \<lfloor>now' * PM_TIMER_TICKS_PER_MS\<rfloor>"
    by (simp_all add: assms(5) st(2) acpi_set_state_def publish_timer_def Let_def)
  have "sci_level (sync_sci has s2) = sci_level s"
    using i regs by (simp add: sync_sci_def acpi_inv_iff sci_demand_def)
  then show ?thesis using regs rest tco st(1) by simp
qed

theorem acpi_state_roundtrip_witness:
  "let s = run acpi_step [Smi_Cmd 2, Pm_Write 0 2 2 0x100, Power_Button False] (ACPI True 0);
       s2 = acpi_set_state 9000 (fst (acpi_get_state 700 s)) (ACPI True 5000)
   in pm1_sts s2 = pm1_sts s \<and> pm1_en s2 = pm1_en s \<and> sci_level (sync_sci False s2) = sci_level s"
proof -
  let ?s = "run acpi_step [Smi_Cmd 2, Pm_Write 0 2 2 0x100, Power_Button False] (ACPI True 0)"
  have r: "reachable (\<lambda>_. True) acpi_step (ACPI True 0) ?s" by (rule reachable_run [OF reachable.start]) simp
  have u: "ich9 (ACPI True 5000) = True" "acpi_tco (ACPI True 5000) \<noteq> None \<longleftrightarrow> True" by (simp_all add: ACPI_def)
  show ?thesis
    using acpi_state_roundtrip [OF r prod.collapse [symmetric] u refl, where now = 700 and now' = 9000 and has = False] by (simp add: Let_def del: run.simps)
qed

section \<open>The maximum that all threads share\<close>

text \<open>
  \<open>pm_timer_shared_max\<close> as the threads interleave it. A call has loaded nothing yet, is in its loop with
  the value it has seen last, or has returned. Each step is one atomic access: the load, or, when the
  call's ticks are above the value seen, the compare-and-exchange; a call whose ticks are not above
  it returns what it has seen.
\<close>

datatype max_call = Called | Seen int | Returned int

fun shared_max_step :: "(nat \<Rightarrow> int) \<Rightarrow> nat \<Rightarrow> int \<times> (nat \<Rightarrow> max_call) \<Rightarrow> int \<times> (nat \<Rightarrow> max_call)" where
  "shared_max_step ticks i (cell, calls) =
     (case calls i of
        Called \<Rightarrow> (cell, calls(i := Seen cell))
      | Seen seen \<Rightarrow>
          if ticks i > seen
          then if cell = seen then (ticks i, calls(i := Returned (ticks i))) else (cell, calls(i := Seen cell))
          else (cell, calls(i := Returned seen))
      | Returned r \<Rightarrow> (cell, calls))"

definition shared_max_ok :: "(nat \<Rightarrow> int) \<Rightarrow> int \<times> (nat \<Rightarrow> max_call) \<Rightarrow> bool" where
  "shared_max_ok ticks = (\<lambda>(cell, calls). \<forall>i. case calls i of Called \<Rightarrow> True | Seen v \<Rightarrow> v \<le> cell | Returned r \<Rightarrow> ticks i \<le> r \<and> r \<le> cell)"

lemma shared_max_step_ok:
  assumes "shared_max_ok ticks st" shows "shared_max_ok ticks (shared_max_step ticks i st)" "fst st \<le> fst (shared_max_step ticks i st)"
proof -
  obtain cell calls where st: "st = (cell, calls)" by fastforce
  have j: "case calls j of Called \<Rightarrow> True | Seen v \<Rightarrow> v \<le> cell | Returned r \<Rightarrow> ticks j \<le> r \<and> r \<le> cell" for j
    using assms by (simp add: st shared_max_ok_def)
  have up: "case calls j of Called \<Rightarrow> True | Seen v \<Rightarrow> v \<le> c | Returned r \<Rightarrow> ticks j \<le> r \<and> r \<le> c" if "cell \<le> c" for j c
    using j [of j] that by (cases "calls j") auto
  show "shared_max_ok ticks (shared_max_step ticks i st)" "fst st \<le> fst (shared_max_step ticks i st)"
    using j [of i] j up by (cases "calls i"; simp add: st shared_max_ok_def)+
qed

lemma shared_max_run:
  "shared_max_ok ticks st \<Longrightarrow> shared_max_ok ticks (run (shared_max_step ticks) is st) \<and> fst st \<le> fst (run (shared_max_step ticks) is st)"
proof (induction "is" arbitrary: st)
  case (Cons i "is")
  then show ?case using shared_max_step_ok [OF Cons.prems, of i] Cons.IH [of "shared_max_step ticks i st"] by fastforce
qed simp

text \<open>A call that has returned stays as it is, and a call sees no value from before it began.\<close>

lemma shared_max_floor:
  "shared_max_ok ticks st \<Longrightarrow> c \<le> fst st \<Longrightarrow> (case snd st i of Called \<Rightarrow> True | Seen v \<Rightarrow> c \<le> v | Returned r \<Rightarrow> c \<le> r) \<Longrightarrow>
   (case snd (run (shared_max_step ticks) is st) i of Called \<Rightarrow> True | Seen v \<Rightarrow> c \<le> v | Returned r \<Rightarrow> c \<le> r)"
proof (induction "is" arbitrary: st)
  case (Cons j "is")
  obtain cell calls where st: "st = (cell, calls)" by fastforce
  have "case snd (shared_max_step ticks j st) i of Called \<Rightarrow> True | Seen v \<Rightarrow> c \<le> v | Returned r \<Rightarrow> c \<le> r"
    using Cons.prems by (cases "calls j"; cases "j = i") (auto simp: st)
  then show ?case
    using Cons.IH [OF shared_max_step_ok(1) [OF Cons.prems(1)]] shared_max_step_ok(2) [OF Cons.prems(1), of j] Cons.prems(2) by simp
qed simp

text \<open>Only finitely many values can be seen, each larger than the one before: a call's own steps are bounded.\<close>

definition calls_left :: "(nat \<Rightarrow> int) \<Rightarrow> nat \<Rightarrow> max_call \<Rightarrow> nat" where
  "calls_left ticks n c =
     (case c of Called \<Rightarrow> n + 2 | Seen v \<Rightarrow> card {t \<in> ticks ` {..<n}. v < t} + 1 | Returned r \<Rightarrow> 0)"

definition shared_max_from :: "(nat \<Rightarrow> int) \<Rightarrow> nat \<Rightarrow> int \<times> (nat \<Rightarrow> max_call) \<Rightarrow> bool" where
  "shared_max_from ticks n = (\<lambda>(cell, calls). shared_max_ok ticks (cell, calls) \<and>
     (\<forall>i. case calls i of Seen v \<Rightarrow> v = cell \<or> cell \<in> ticks ` {..<n} | _ \<Rightarrow> True))"

lemma shared_max_from_step:
  assumes "shared_max_from ticks n st" "i < n" shows "shared_max_from ticks n (shared_max_step ticks i st)"
proof -
  obtain cell calls where st: "st = (cell, calls)" by fastforce
  have ok: "shared_max_ok ticks st" using assms(1) by (simp add: st shared_max_from_def)
  have j: "case calls j of Seen v \<Rightarrow> v = cell \<or> cell \<in> ticks ` {..<n} | _ \<Rightarrow> True" for j using assms(1) by (simp add: st shared_max_from_def)
  have up: "case calls j of Seen v \<Rightarrow> v = ticks i \<or> ticks i \<in> ticks ` {..<n} | _ \<Rightarrow> True" for j using assms(2) by (cases "calls j") auto
  show ?thesis
    using shared_max_step_ok(1) [OF ok, of i] j up assms(2) by (cases "calls i") (auto simp: st shared_max_from_def)
qed

lemma calls_left_step:
  assumes "shared_max_from ticks n st" "i < n"
  shows "calls_left ticks n (snd (shared_max_step ticks i st) i) \<le> calls_left ticks n (snd st i) - 1"
proof -
  obtain cell calls where st: "st = (cell, calls)" by fastforce
  have f: "finite {t \<in> ticks ` {..<n}. v < t}" for v by simp
  have c: "card {t \<in> ticks ` {..<n}. v < t} \<le> n" for v
    using card_mono [of "ticks ` {..<n}" "{t \<in> ticks ` {..<n}. v < t}"] card_image_le [of "{..<n}" ticks] by simp
  show ?thesis
  proof (cases "calls i")
    case Called then show ?thesis using c by (simp add: st calls_left_def)
  next
    case (Seen v)
    have "v \<le> cell" "v = cell \<or> cell \<in> ticks ` {..<n}"
      using assms(1) Seen by (auto simp: st shared_max_from_def shared_max_ok_def split: max_call.splits)
    then have "card {t \<in> ticks ` {..<n}. cell < t} < card {t \<in> ticks ` {..<n}. v < t}" if "cell \<noteq> v"
      using that by (intro psubset_card_mono [OF f]) auto
    then show ?thesis using Seen by (auto simp: st calls_left_def)
  next
    case (Returned r) then show ?thesis by (simp add: st calls_left_def)
  qed
qed

lemma shared_max_other: "j \<noteq> i \<Longrightarrow> snd (shared_max_step ticks j st) i = snd st i"
  by (cases st; cases "snd st j") auto

lemma calls_left_run:
  "shared_max_from ticks n st \<Longrightarrow> \<forall>j \<in> set is. j < n \<Longrightarrow>
   calls_left ticks n (snd (run (shared_max_step ticks) is st) i) \<le> calls_left ticks n (snd st i) - count_list is i"
proof (induction "is" arbitrary: st)
  case (Cons j "is")
  have f: "shared_max_from ticks n (shared_max_step ticks j st)" using Cons.prems by (intro shared_max_from_step) simp_all
  have "calls_left ticks n (snd (shared_max_step ticks j st) i) \<le> calls_left ticks n (snd st i) - (if j = i then 1 else 0)"
    using calls_left_step [of ticks n st i] shared_max_other [of j i ticks st] Cons.prems by auto
  then show ?case using Cons.IH [OF f] Cons.prems(2) by (auto simp: Let_def)
qed simp

lemma calls_left_0: "calls_left ticks n c = 0 \<longleftrightarrow> (\<exists>r. c = Returned r)"
  by (cases c) (simp_all add: calls_left_def)

lemma shared_max_value:
  "\<forall>j \<in> set is. j < n \<Longrightarrow> fst st \<in> insert c (ticks ` {..<n}) \<Longrightarrow> fst (run (shared_max_step ticks) is st) \<in> insert c (ticks ` {..<n})"
proof (induction "is" arbitrary: st)
  case (Cons j "is")
  have "fst (shared_max_step ticks j st) \<in> insert c (ticks ` {..<n})"
    using Cons.prems by (cases st; cases "snd st j") auto
  then show ?case using Cons by simp
qed simp

text \<open>
  Claim C31. The shared maximum of the PM timer is a maximum however the threads interleave: with \<open>n\<close> calls, under any schedule,
  the cell never falls and holds its first value or the ticks of a call; a call returns a value that is at least
  its own ticks and that the cell has reached; a call that begins after another has returned does not
  return less; and no call loops forever, as it returns after at most \<open>n + 2\<close> steps of its own.
\<close>

theorem pm_timer_shared_max:
  assumes "\<forall>j \<in> set (es @ fs). j < n" "st1 = run (shared_max_step ticks) es (c, \<lambda>_. Called)" "st2 = run (shared_max_step ticks) fs st1"
  shows "fst st1 \<le> fst st2 \<and> fst st2 \<in> insert c (ticks ` {..<n}) \<and>
    (snd st2 i = Returned r \<longrightarrow> ticks i \<le> r \<and> r \<le> fst st2) \<and>
    (snd st1 i = Returned r \<and> snd st1 j = Called \<and> snd st2 j = Returned q \<longrightarrow> r \<le> q) \<and>
    (n + 2 \<le> count_list (es @ fs) i \<longrightarrow> (\<exists>v. snd st2 i = Returned v))"
proof -
  have ok0: "shared_max_ok ticks (c, \<lambda>_. Called)" by (simp add: shared_max_ok_def)
  have ok: "shared_max_ok ticks st1" "shared_max_ok ticks st2" "fst st1 \<le> fst st2"
    using shared_max_run [OF ok0, of es] shared_max_run [of ticks st1 fs] assms by auto
  have v: "\<And>st k x. shared_max_ok ticks st \<Longrightarrow> snd st k = Returned x \<Longrightarrow> ticks k \<le> x \<and> x \<le> fst st"
    by (auto simp: shared_max_ok_def split: max_call.splits)
  have order: "r \<le> q" if "snd st1 i = Returned r" "snd st1 j = Called" "snd st2 j = Returned q"
    using shared_max_floor [OF ok(1), of r j fs] v [OF ok(1) that(1)] that by (simp add: assms(3))
  have st2: "st2 = run (shared_max_step ticks) (es @ fs) (c, \<lambda>_. Called)" by (simp add: assms run_append)
  have "shared_max_from ticks n (c, \<lambda>_. Called)" using ok0 by (simp add: shared_max_from_def)
  from calls_left_run [OF this assms(1), of i]
  have "calls_left ticks n (snd st2 i) \<le> n + 2 - count_list (es @ fs) i" unfolding st2 by (simp add: calls_left_def)
  then have ret: "n + 2 \<le> count_list (es @ fs) i \<Longrightarrow> \<exists>v. snd st2 i = Returned v" using calls_left_0 by fastforce
  have val: "fst st2 \<in> insert c (ticks ` {..<n})" unfolding st2 by (rule shared_max_value [OF assms(1)]) simp
  show ?thesis using ok(3) val v [OF ok(2)] order ret by blast
qed

theorem pm_timer_shared_max_witness:
  "let st = run (shared_max_step (\<lambda>i. [5, 9] ! i)) [0, 1, 1, 0, 0, 0] (3, \<lambda>_. Called)
   in 3 \<le> fst st \<and> (\<exists>v. snd st 0 = Returned v) \<and> fst st \<in> {3, 5, 9}"
  using pm_timer_shared_max [of "[]" "[0, 1, 1, 0, 0, 0]" 2 _ "\<lambda>i. [5, 9] ! i" 3 _ 0, OF _ refl refl]
  by (simp add: lessThan_Suc numeral_2_eq_2 Let_def del: run.simps(2)) auto

end
