(* ===== verification/Pci.thy ===== *)
theory Pci
  imports Shared_Irq
begin

text \<open>
  PCI configuration space, BARs, bridges and interrupt pins, \<open>src/pci.js\<close>. A configuration space is the
  list of its bytes, on which the source has a view of bytes and one of double words. JavaScript arrays
  with holes are lists with a default for what lies in a hole or beyond the end. The callbacks of a device
  are recorded effects; what they do to the device's own registers (from 0x40 on) is an event of its own. The
  routing of pins by the chipset (\<open>irq_route\<close>) is an argument, with the default of the PIIX defined here.
\<close>

section \<open>Arrays with holes\<close>

definition js_get :: "'a \<Rightarrow> 'a list \<Rightarrow> nat \<Rightarrow> 'a" where
  "js_get d xs i = (if i < length xs then xs ! i else d)"

definition js_put :: "'a \<Rightarrow> 'a list \<Rightarrow> nat \<Rightarrow> 'a \<Rightarrow> 'a list" where
  "js_put d xs i v = (xs @ replicate (Suc i - length xs) d)[i := v]"

lemma js_get_put [simp]: "js_get d (js_put d xs i v) j = (if j = i then v else js_get d xs j)"
  by (auto simp: js_get_def js_put_def nth_list_update nth_append)

section \<open>State\<close>

text \<open>What an I/O port leads to: an entry without a device, or the handlers of one.\<close>

datatype port_target = Empty_Port | Handlers nat

record pci_bar =
  bar_size :: nat
  on_move :: bool
  fixed :: bool
  original_bar :: i32
  bar_base :: int
  entries :: "port_target list"
  assigned :: "nat option"
  mapped :: "nat option"

record pci_function =
  pci_bars :: "pci_bar option list"
  pci_rom_size :: nat
  pci_rom_address :: i32
  pci_secondary_bus :: "nat option"
  pci_express_downstream :: bool

datatype pci_effect =
    IrqLevel nat nat bool
  | GsiLevel nat nat bool
  | On_Move nat nat int
  | On_Config_Write nat nat nat
  | On_Config_Restore nat
  | On_Command_Change nat i32 i32
  | On_Upstream_Change nat
  | On_Unplug nat
  | Device_Reset nat
  | Ecam_Register int nat
  | Ecam_Unregister int nat
  | Apic_Msi i32 i32
  | Pci_Reboot

record pci =
  pci_addr :: "u8 list"
  device_spaces :: "u8 list option list"
  devices :: "pci_function option list"
  asserted_irq_lines :: "nat option list"
  asserted_gsis :: "nat option list"
  intx_levels :: "bool list"
  bridge_for_bus :: "nat option list"
  bridges_on :: "nat list list"
  absent :: "bool list"
  templates :: "u8 list option list"
  ecam_base :: int
  ecam_size :: nat
  reset_control :: i32
  ports :: "nat \<Rightarrow> port_target"
  pci_log :: "pci_effect list"

definition pci_emit :: "pci_effect \<Rightarrow> pci \<Rightarrow> pci" where
  "pci_emit e s = s\<lparr>pci_log := pci_log s @ [e]\<rparr>"

abbreviation space_of :: "pci \<Rightarrow> nat \<Rightarrow> u8 list option" where
  "space_of s i \<equiv> js_get None (device_spaces s) i"

abbreviation device_of :: "pci \<Rightarrow> nat \<Rightarrow> pci_function option" where
  "device_of s i \<equiv> js_get None (devices s) i"

definition set_space :: "nat \<Rightarrow> u8 list \<Rightarrow> pci \<Rightarrow> pci" where
  "set_space i bs s = s\<lparr>device_spaces := js_put None (device_spaces s) i (Some bs)\<rparr>"

abbreviation bar_of :: "pci \<Rightarrow> nat \<Rightarrow> nat \<Rightarrow> pci_bar option" where
  "bar_of s i nr \<equiv> (case device_of s i of None \<Rightarrow> None | Some d \<Rightarrow> js_get None (pci_bars d) nr)"

definition set_bar :: "nat \<Rightarrow> nat \<Rightarrow> pci_bar \<Rightarrow> pci \<Rightarrow> pci" where
  "set_bar i nr bar s =
     (case device_of s i of None \<Rightarrow> s
      | Some d \<Rightarrow> s\<lparr>devices := js_put None (devices s) i (Some (d\<lparr>pci_bars := (pci_bars d)[nr := Some bar]\<rparr>))\<rparr>)"

text \<open>The views of a space.\<close>

definition get_dword :: "u8 list \<Rightarrow> nat \<Rightarrow> i32" where
  "get_dword bs k = ucast (bs ! (4 * k)) OR push_bit 8 (ucast (bs ! (4 * k + 1))) OR push_bit 16 (ucast (bs ! (4 * k + 2)))
     OR push_bit 24 (ucast (bs ! (4 * k + 3)))"

definition set_dword :: "u8 list \<Rightarrow> nat \<Rightarrow> i32 \<Rightarrow> u8 list" where
  "set_dword bs k v = bs[4 * k := ucast v, 4 * k + 1 := ucast (drop_bit 8 v), 4 * k + 2 := ucast (drop_bit 16 v),
     4 * k + 3 := ucast (drop_bit 24 v)]"

definition u16_at :: "u8 list \<Rightarrow> nat \<Rightarrow> int" where
  "u16_at bs k = uint (bs ! k) + 256 * uint (bs ! (k + 1))"

definition u32_at :: "u8 list \<Rightarrow> nat \<Rightarrow> int" where
  "u32_at bs k = u16_at bs k + 65536 * u16_at bs (k + 2)"

abbreviation (input) PCI_COMMAND_IO :: i32 where "PCI_COMMAND_IO \<equiv> 0x1"
abbreviation (input) PCI_COMMAND_MEMORY :: i32 where "PCI_COMMAND_MEMORY \<equiv> 0x2"
abbreviation (input) PCI_COMMAND_MASTER :: i32 where "PCI_COMMAND_MASTER \<equiv> 0x4"
abbreviation (input) PCI_COMMAND_INTX_DISABLE :: i32 where "PCI_COMMAND_INTX_DISABLE \<equiv> 0x400"
abbreviation (input) PCI_STATUS_INTERRUPT :: i32 where "PCI_STATUS_INTERRUPT \<equiv> 0x8"
abbreviation (input) MSI_CONTROL_ENABLE :: u8 where "MSI_CONTROL_ENABLE \<equiv> 0x1"
abbreviation (input) MSI_CONTROL_64BIT :: u8 where "MSI_CONTROL_64BIT \<equiv> 0x80"

section \<open>Bridges\<close>

definition parent_bridge :: "pci \<Rightarrow> nat \<Rightarrow> nat option" where
  "parent_bridge s i = (if i \<ge> 256 then js_get None (bridge_for_bus s) (i div 256) else None)"

text \<open>
  The bridges between a function and the root bus, nearest first; the source follows them up until it reaches the
  root. There are at most 256 buses, so that 256 steps are enough where every bridge is on a bus of a lower number than
  the one behind it, as registration makes it (lemma \<open>upstream_unbounded\<close>).
\<close>

fun bridge_chain :: "nat \<Rightarrow> pci \<Rightarrow> nat \<Rightarrow> nat list" where
  "bridge_chain 0 s i = []"
| "bridge_chain (Suc n) s i = (case parent_bridge s i of None \<Rightarrow> [] | Some b \<Rightarrow> b # bridge_chain n s b)"

definition upstream :: "pci \<Rightarrow> nat \<Rightarrow> nat list" where
  "upstream s i = bridge_chain 256 s i"

definition get_command :: "pci \<Rightarrow> nat \<Rightarrow> i32" where
  "get_command s i = (case space_of s i of None \<Rightarrow> 0 | Some bs \<Rightarrow> get_dword bs 1 AND 0xFFFF)"

definition upstream_bus_master :: "pci \<Rightarrow> nat \<Rightarrow> bool" where
  "upstream_bus_master s i \<longleftrightarrow>
     \<not> js_get False (absent s) i \<and> list_all (\<lambda>b. has_bits (get_command s b) PCI_COMMAND_MASTER) (upstream s i)"

definition is_bus_master :: "pci \<Rightarrow> nat \<Rightarrow> bool" where
  "is_bus_master s i \<longleftrightarrow> has_bits (get_command s i) PCI_COMMAND_MASTER \<and> upstream_bus_master s i"

definition is_memory_enabled :: "pci \<Rightarrow> nat \<Rightarrow> bool" where
  "is_memory_enabled s i \<longleftrightarrow> has_bits (get_command s i) PCI_COMMAND_MEMORY"

definition is_io_enabled :: "pci \<Rightarrow> nat \<Rightarrow> bool" where
  "is_io_enabled s i \<longleftrightarrow> has_bits (get_command s i) PCI_COMMAND_IO"

definition space_bytes :: "pci \<Rightarrow> nat \<Rightarrow> u8 list" where
  "space_bytes s i = (case space_of s i of None \<Rightarrow> [] | Some bs \<Rightarrow> bs)"

text \<open>A window in 64 KiB units, as \<open>(u16(o) & 0xFFF0) * 0x10000\<close>.\<close>

definition window :: "u8 list \<Rightarrow> nat \<Rightarrow> int" where
  "window bs k = (u16_at bs k AND 0xFFF0) * 0x10000"

definition bridge_forwards_memory :: "u8 list \<Rightarrow> int \<Rightarrow> int \<Rightarrow> bool" where
  "bridge_forwards_memory bs base end1 \<longleftrightarrow>
     base \<ge> window bs 0x20 \<and> end1 \<le> window bs 0x22 + 0xFFFFF \<or>
     base \<ge> window bs 0x24 + u32_at bs 0x28 * 0x100000000 \<and> end1 \<le> window bs 0x26 + 0xFFFFF + u32_at bs 0x2C * 0x100000000"

definition upstream_forwards_memory :: "pci \<Rightarrow> nat \<Rightarrow> int \<Rightarrow> int \<Rightarrow> bool" where
  "upstream_forwards_memory s i base sz \<longleftrightarrow> \<not> js_get False (absent s) i \<and>
     list_all (\<lambda>b. has_bits (get_command s b) PCI_COMMAND_MEMORY \<and> bridge_forwards_memory (space_bytes s b) base (base + sz - 1)) (upstream s i)"

definition memory_decoded :: "pci \<Rightarrow> nat \<Rightarrow> int \<Rightarrow> int \<Rightarrow> bool" where
  "memory_decoded s i base sz \<longleftrightarrow> is_memory_enabled s i \<and> upstream_forwards_memory s i base sz"

definition bridge_forwards_io :: "u8 list \<Rightarrow> int \<Rightarrow> int \<Rightarrow> bool" where
  "bridge_forwards_io bs port end1 \<longleftrightarrow>
     (let io_base = push_bit 8 (uint (bs ! 0x1C) AND 0xF0); io_limit = push_bit 8 (uint (bs ! 0x1D) AND 0xF0) OR 0xFFF
      in \<not> (port < io_base \<or> end1 > io_limit) \<and>
         \<not> (bs ! 0x3E AND 4 \<noteq> 0 \<and> (port AND 0x300 \<noteq> 0 \<or> end1 AND 0x300 \<noteq> 0 \<or> end1 - port \<ge> 0x100)))"

definition upstream_forwards_io :: "pci \<Rightarrow> nat \<Rightarrow> int \<Rightarrow> int \<Rightarrow> bool" where
  "upstream_forwards_io s i port sz \<longleftrightarrow> \<not> js_get False (absent s) i \<and>
     list_all (\<lambda>b. has_bits (get_command s b) PCI_COMMAND_IO \<and> bridge_forwards_io (space_bytes s b) port (port + sz - 1)) (upstream s i)"

section \<open>I/O BARs\<close>

definition create_empty :: "nat \<Rightarrow> (nat \<Rightarrow> port_target) \<Rightarrow> (nat \<Rightarrow> port_target)" where
  "create_empty p f = f(p := Empty_Port)"

definition unmap_port :: "pci_bar \<Rightarrow> nat \<Rightarrow> nat \<Rightarrow> (nat \<Rightarrow> port_target) \<Rightarrow> (nat \<Rightarrow> port_target)" where
  "unmap_port bar at1 i f = (if f (at1 + i) = entries bar ! i then create_empty (at1 + i) f else f)"

definition map_port :: "pci_bar \<Rightarrow> nat \<Rightarrow> nat \<Rightarrow> (nat \<Rightarrow> port_target) \<Rightarrow> (nat \<Rightarrow> port_target)" where
  "map_port bar at1 i f = f(at1 + i := entries bar ! i)"

text \<open>Where an I/O BAR behind a bridge belongs.\<close>

definition io_bar_place :: "pci \<Rightarrow> nat \<Rightarrow> pci_bar \<Rightarrow> nat option" where
  "io_bar_place s i bar =
     (case assigned bar of
        Some a \<Rightarrow> if a \<ge> 0x1000 \<and> a + bar_size bar \<le> 0x10000 \<and> upstream_forwards_io s i (int a) (int (bar_size bar)) then Some a else None
      | None \<Rightarrow> None)"

definition update_io_bar :: "nat \<Rightarrow> nat \<Rightarrow> pci \<Rightarrow> pci" where
  "update_io_bar i nr s =
     (case bar_of s i nr of None \<Rightarrow> s
      | Some bar \<Rightarrow>
          let at1 = io_bar_place s i bar
          in if at1 = mapped bar then s
             else let f1 = (case mapped bar of Some m \<Rightarrow> fold (unmap_port bar m) [0..<bar_size bar] (ports s) | None \<Rightarrow> ports s);
                      f2 = (case at1 of Some a \<Rightarrow> fold (map_port bar a) [0..<bar_size bar] f1 | None \<Rightarrow> f1)
                  in set_bar i nr (bar\<lparr>mapped := at1\<rparr>) (s\<lparr>ports := f2\<rparr>))"

definition bar_assigned :: "pci_bar option \<Rightarrow> bool" where
  "bar_assigned b = (case b of Some x \<Rightarrow> assigned x \<noteq> None | None \<Rightarrow> False)"

definition bar_count :: "pci \<Rightarrow> nat \<Rightarrow> nat" where
  "bar_count s i = (case device_of s i of None \<Rightarrow> 0 | Some d \<Rightarrow> length (pci_bars d))"

definition upstream_changed :: "nat \<Rightarrow> pci \<Rightarrow> pci" where
  "upstream_changed i s =
     pci_emit (On_Upstream_Change i)
       (fold (\<lambda>nr u. if bar_assigned (bar_of u i nr) then update_io_bar i nr u else u) [0..<bar_count s i] s)"

definition bridge_changed :: "nat \<Rightarrow> pci \<Rightarrow> pci" where
  "bridge_changed b s =
     fold (\<lambda>i u. if device_of u i \<noteq> None \<and> b \<in> set (upstream u i) then upstream_changed i u else u) [0..<length (devices s)] s"

definition set_io_bars :: "pci_bar \<Rightarrow> nat \<Rightarrow> nat \<Rightarrow> pci \<Rightarrow> pci" where
  "set_io_bars bar from1 to1 s =
     s\<lparr>ports := fold (\<lambda>i f. let f1 = (if from1 + i \<ge> 0x1000 then create_empty (from1 + i) f else f)
                            in if to1 + i \<ge> 0x1000 then f1(to1 + i := entries bar ! i) else f1) [0..<bar_size bar] (ports s)\<rparr>"

section \<open>Interrupt pins\<close>

text \<open>The pin is 0 to 3 for INTA to INTD, -1 for none; crossing a bridge swizzles it.\<close>

definition root_pin :: "pci \<Rightarrow> nat \<Rightarrow> nat \<times> int" where
  "root_pin s i =
     (let pin = uint (space_bytes s i ! 0x3D) - 1
      in if pin < 0 \<or> pin > 3 then (i, -1)
         else fold (\<lambda>bridge (at1, p). (bridge, (p + int (at1 div 8 mod 32)) mod 4)) (upstream s i) (i, pin))"

text \<open>The PIIX3: pin p of device d is wired to PIRQ (p + d - 1) mod 4, whose line is a register of the ISA bridge.\<close>

definition piix_pirq_line :: "pci \<Rightarrow> nat \<Rightarrow> int \<Rightarrow> nat" where
  "piix_pirq_line s i pin =
     (let device = (int (i div 8) - 1) mod 256; parent_pin = (pin + device) mod 4
      in unat (space_bytes s 8 ! (0x60 + nat parent_pin)))"

definition piix_route :: "pci \<Rightarrow> nat \<Rightarrow> int \<Rightarrow> nat \<times> nat option" where
  "piix_route s i pin = (piix_pirq_line s i pin, None)"

definition get_irq_line :: "pci \<Rightarrow> nat \<Rightarrow> nat" where
  "get_irq_line s i = (let (r, pin) = root_pin s i in piix_pirq_line s r pin)"

type_synonym irq_route = "pci \<Rightarrow> nat \<Rightarrow> int \<Rightarrow> nat \<times> nat option"

definition not_routed :: "nat \<Rightarrow> bool" where
  "not_routed irq \<longleftrightarrow> irq AND 0x80 \<noteq> 0"

definition raise_line :: "(nat \<Rightarrow> nat \<Rightarrow> bool \<Rightarrow> pci_effect) \<Rightarrow> nat \<Rightarrow> nat option \<Rightarrow> nat option \<Rightarrow> pci \<Rightarrow> pci" where
  "raise_line eff i previous line s =
     (let s1 = (case previous of Some p \<Rightarrow> if previous \<noteq> line then pci_emit (eff p i False) s else s | None \<Rightarrow> s)
      in case line of Some l \<Rightarrow> pci_emit (eff l i True) s1 | None \<Rightarrow> s1)"

definition drive_intx :: "irq_route \<Rightarrow> nat \<Rightarrow> bool \<Rightarrow> pci \<Rightarrow> pci" where
  "drive_intx route i level s =
     (let (r, pin) = root_pin s i; (pic, rgsi) = route s r pin
      in if level
         then let irq = (if not_routed pic then None else Some pic);
                  s1 = raise_line IrqLevel i (js_get None (asserted_irq_lines s) i) irq s;
                  s2 = s1\<lparr>asserted_irq_lines := js_put None (asserted_irq_lines s1) i irq\<rparr>;
                  s3 = raise_line GsiLevel i (js_get None (asserted_gsis s2) i) rgsi s2
              in s3\<lparr>asserted_gsis := js_put None (asserted_gsis s3) i rgsi\<rparr>
         else let irq = (case js_get None (asserted_irq_lines s) i of Some x \<Rightarrow> x | None \<Rightarrow> pic);
                  s1 = s\<lparr>asserted_irq_lines := js_put None (asserted_irq_lines s) i None\<rparr>;
                  s2 = (if not_routed irq then s1 else pci_emit (IrqLevel irq i False) s1);
                  gsi = (case js_get None (asserted_gsis s2) i of Some x \<Rightarrow> Some x | None \<Rightarrow> rgsi);
                  s3 = s2\<lparr>asserted_gsis := js_put None (asserted_gsis s2) i None\<rparr>
              in case gsi of Some g \<Rightarrow> pci_emit (GsiLevel g i False) s3 | None \<Rightarrow> s3)"

text \<open>The bit of the status register that shows the level of the pin.\<close>

definition interrupt_status :: "bool \<Rightarrow> u8 list \<Rightarrow> u8 list" where
  "interrupt_status level bs = set_dword bs 1
     (if level then get_dword bs 1 OR push_bit 16 PCI_STATUS_INTERRUPT else get_dword bs 1 AND NOT (push_bit 16 PCI_STATUS_INTERRUPT))"

definition set_irq_level :: "irq_route \<Rightarrow> nat \<Rightarrow> bool \<Rightarrow> pci \<Rightarrow> pci" where
  "set_irq_level route i level s =
     (let s1 = s\<lparr>intx_levels := js_put False (intx_levels s) i level\<rparr>;
          s2 = (case space_of s1 i of None \<Rightarrow> s1 | Some bs \<Rightarrow> set_space i (interrupt_status level bs) s1);
          disabled = (case space_of s2 i of None \<Rightarrow> False | Some bs \<Rightarrow> has_bits (get_dword bs 1) PCI_COMMAND_INTX_DISABLE)
      in drive_intx route i (level \<and> \<not> disabled \<and> \<not> js_get False (absent s2) i) s2)"

definition pci_raise_irq :: "irq_route \<Rightarrow> nat \<Rightarrow> pci \<Rightarrow> pci" where
  "pci_raise_irq route i s = set_irq_level route i True s"

definition pci_lower_irq :: "irq_route \<Rightarrow> nat \<Rightarrow> pci \<Rightarrow> pci" where
  "pci_lower_irq route i s = set_irq_level route i False s"

section \<open>Configuration writes\<close>

definition header_byte_writable :: "nat \<Rightarrow> bool" where
  "header_byte_writable k \<longleftrightarrow> k = 0x0C \<or> k = 0x0D \<or> k = 0x0F \<or> k = 0x3C"

definition BRIDGE_HEADER_WRITABLE :: "u8 list" where
  "BRIDGE_HEADER_WRITABLE =
     replicate 0x18 0 @ replicate 4 0xFF @ [0xF0, 0xF0, 0, 0] @ [0xF0, 0xFF, 0xF0, 0xFF, 0xF0, 0xFF, 0xF0, 0xFF]
     @ replicate 8 0xFF @ replicate 0xC 0 @ [0xFF, 0, 0x5F, 0]"

definition move_memory_bar :: "nat \<Rightarrow> nat \<Rightarrow> pci_bar \<Rightarrow> i32 \<Rightarrow> pci \<Rightarrow> pci" where
  "move_memory_bar i nr bar base s =
     (if bar_base bar \<noteq> uint base then pci_emit (On_Move i nr (uint base)) (set_bar i nr (bar\<lparr>bar_base := uint base\<rparr>) s) else s)"

definition move_io_bar :: "nat \<Rightarrow> nat \<Rightarrow> pci_bar \<Rightarrow> i32 \<Rightarrow> pci \<Rightarrow> pci" where
  "move_io_bar i nr bar port s =
     (if bar_base bar \<noteq> uint port then pci_emit (On_Move i nr (uint port)) (set_bar i nr (bar\<lparr>bar_base := uint port\<rparr>) s) else s)"

abbreviation size_mask :: "pci_bar \<Rightarrow> i32" where
  "size_mask bar \<equiv> word_of_nat (bar_size bar) - 1"

definition is_probe :: "pci_bar \<Rightarrow> i32 \<Rightarrow> bool" where
  "is_probe bar v \<longleftrightarrow> v OR 3 OR size_mask bar = -1"

definition io_port :: "i32 \<Rightarrow> nat" where
  "io_port v = unat (v AND NOT 1 AND 0xFFFF)"

definition store_dword :: "nat \<Rightarrow> nat \<Rightarrow> i32 \<Rightarrow> pci \<Rightarrow> pci" where
  "store_dword i k v s = set_space i (set_dword (space_bytes s i) k v) s"

definition write_bar :: "nat \<Rightarrow> nat \<Rightarrow> i32 \<Rightarrow> pci \<Rightarrow> pci" where
  "write_bar i offset value s =
     (let nr = (offset - 0x10) div 4; k = offset div 4
      in case bar_of s i nr of None \<Rightarrow> store_dword i k 0 s
         | Some bar \<Rightarrow>
             let type1 = get_dword (space_bytes s i) k AND 1; probe = is_probe bar value;
                 written = (if probe then NOT (size_mask bar) OR type1 else value)
             in if type1 = 0
                then if probe then store_dword i k (written OR original_bar bar AND 0xF) s
                     else if on_move bar
                     then let base = written AND NOT (size_mask bar) AND NOT 0xF
                          in move_memory_bar i nr bar base (store_dword i k (base OR original_bar bar AND 0xF) s)
                     else store_dword i k (original_bar bar) s
                else if on_move bar
                then let s1 = store_dword i k (written OR 1) s
                     in if probe then s1 else move_io_bar i nr bar (written AND NOT 3 AND 0xFFFF) s1
                else if fixed bar
                then store_dword i k (if is_probe bar written then NOT (size_mask bar) OR type1 else original_bar bar) s
                else if i \<ge> 256
                then update_io_bar i nr (store_dword i k (written OR 1) (set_bar i nr (bar\<lparr>assigned := Some (io_port written)\<rparr>) s))
                else store_dword i k (written OR 1)
                       (set_io_bars bar (io_port (get_dword (space_bytes s i) k)) (io_port written) s))"

definition write_expansion_rom :: "nat \<Rightarrow> i32 \<Rightarrow> pci \<Rightarrow> pci" where
  "write_expansion_rom i value s =
     (case device_of s i of None \<Rightarrow> s
      | Some d \<Rightarrow> store_dword i 12
          (if pci_rom_size d \<noteq> 0
           then if value OR 0x7FF = -1 then - word_of_nat (pci_rom_size d) else pci_rom_address d
           else 0) s)"

definition is_bridge :: "pci \<Rightarrow> nat \<Rightarrow> bool" where
  "is_bridge s i = (case device_of s i of None \<Rightarrow> False | Some d \<Rightarrow> pci_secondary_bus d \<noteq> None)"

definition command_changed :: "irq_route \<Rightarrow> nat \<Rightarrow> i32 \<Rightarrow> i32 \<Rightarrow> pci \<Rightarrow> pci" where
  "command_changed route i old command s =
     (let s1 = (if has_bits (old XOR command) PCI_COMMAND_INTX_DISABLE
                then drive_intx route i (js_get False (intx_levels s) i \<and> \<not> has_bits command PCI_COMMAND_INTX_DISABLE) s
                else s);
          s2 = pci_emit (On_Command_Change i old command) s1
      in if is_bridge s2 i \<and> has_bits (old XOR command) 0x7 then bridge_changed i s2 else s2)"

text \<open>A byte below 0x40 that is not a BAR.\<close>

definition header_byte :: "bool \<Rightarrow> nat \<Rightarrow> u8 \<Rightarrow> u8 \<Rightarrow> u8" where
  "header_byte bridge k byte old =
     (if bridge \<and> k \<ge> 0x18
      then if k = 0x1F then old AND NOT (byte AND 0xF9)
           else let mask1 = BRIDGE_HEADER_WRITABLE ! k in old AND NOT mask1 OR byte AND mask1
      else if k = 4 then old AND NOT 0x47 OR byte AND 0x47
      else if k = 5 then old AND NOT 0x05 OR byte AND 0x05
      else if k = 6 then old AND NOT (byte AND 0x00)
      else if k = 7 then old AND NOT (byte AND 0xF9)
      else if header_byte_writable k then byte else old)"

definition config_byte :: "bool \<Rightarrow> nat \<Rightarrow> u8 \<Rightarrow> u8 list \<Rightarrow> u8 list" where
  "config_byte bridge k byte bs = (if k \<ge> 0x40 then bs[k := byte] else bs[k := header_byte bridge k byte (bs ! k)])"

definition byte_n :: "i32 \<Rightarrow> nat \<Rightarrow> u8" where
  "byte_n v i = ucast (drop_bit (i * 8) v)"

definition config_bytes :: "bool \<Rightarrow> nat \<Rightarrow> nat \<Rightarrow> i32 \<Rightarrow> u8 list \<Rightarrow> u8 list" where
  "config_bytes bridge offset sz value bs = fold (\<lambda>i. config_byte bridge (offset + i) (byte_n value i)) [0..<sz] bs"

definition is_bar_offset :: "bool \<Rightarrow> nat \<Rightarrow> bool" where
  "is_bar_offset bridge offset \<longleftrightarrow>
     (if bridge then offset \<ge> 0x10 \<and> offset < 0x18 else offset \<ge> 0x10 \<and> offset < 0x28 \<or> offset \<ge> 0x30 \<and> offset < 0x34)"

definition window_byte :: "nat \<Rightarrow> bool" where
  "window_byte k \<longleftrightarrow> k \<noteq> 0x1F \<and> (k \<ge> 0x1C \<and> k < 0x30 \<or> k = 0x3E)"

text \<open>A write outside the BARs: the bytes, then what the changes bring about.\<close>

definition write_config_bytes :: "irq_route \<Rightarrow> nat \<Rightarrow> nat \<Rightarrow> nat \<Rightarrow> i32 \<Rightarrow> u8 list \<Rightarrow> pci \<Rightarrow> pci" where
  "write_config_bytes route i offset sz value bs s =
     (let bridge = is_bridge s i; old = get_dword bs 1 AND 0xFFFF;
          s1 = set_space i (config_bytes bridge offset sz value bs) s;
          windows_written = list_ex (\<lambda>k. k < 0x40 \<and> bridge \<and> window_byte k) [offset..<offset + sz];
          command = get_command s1 i
      in if command \<noteq> old then command_changed route i old command s1
         else if windows_written then bridge_changed i s1 else s1)"

text \<open>Whether a write reaches a byte of the header that its device has to hear of.\<close>

definition header_written :: "bool \<Rightarrow> nat \<Rightarrow> nat \<Rightarrow> bool" where
  "header_written bridge offset sz \<longleftrightarrow> list_ex (\<lambda>k. k < 0x40 \<and> \<not> (bridge \<and> k \<ge> 0x18) \<and> header_byte_writable k) [offset..<offset + sz]"

definition function_write :: "irq_route \<Rightarrow> nat option \<Rightarrow> nat \<Rightarrow> nat \<Rightarrow> i32 \<Rightarrow> pci \<Rightarrow> pci" where
  "function_write route target offset sz value s =
     (case target of None \<Rightarrow> s
      | Some i \<Rightarrow>
        (case space_of s i of None \<Rightarrow> s
         | Some bs \<Rightarrow>
           if offset + sz > length bs then s
           else if is_bar_offset (is_bridge s i) offset
                then if sz = 4 \<and> offset mod 4 = 0
                     then if offset = 0x30 then write_expansion_rom i value s else write_bar i offset value s
                     else s
                else let s1 = write_config_bytes route i offset sz value bs s
                     in if offset + sz > 0x40 \<or> header_written (is_bridge s i) offset sz
                        then pci_emit (On_Config_Write i offset sz) s1 else s1))"

section \<open>Routing and access\<close>

definition bridge_bus :: "pci \<Rightarrow> nat \<Rightarrow> nat" where
  "bridge_bus s b = (case device_of s b of Some d \<Rightarrow> (case pci_secondary_bus d of Some n \<Rightarrow> n | None \<Rightarrow> 0) | None \<Rightarrow> 0)"

text \<open>One bus: the function, the bus to go on to, or nothing.\<close>

datatype hop = Answer "nat option" | Next nat

fun route_hop :: "pci \<Rightarrow> nat \<Rightarrow> nat list \<Rightarrow> hop" where
  "route_hop s bdf [] = Answer None"
| "route_hop s bdf (b # bs) =
     (let bus = bdf div 256; secondary = unat (space_bytes s b ! 0x19); subordinate = unat (space_bytes s b ! 0x1A); behind = bridge_bus s b
      in if bus = secondary
         then if (case device_of s b of Some d \<Rightarrow> pci_express_downstream d | None \<Rightarrow> False) \<and> bdf AND 0xF8 \<noteq> 0 then Answer None
              else let i = behind * 256 + bdf mod 256
                   in Answer (if space_of s i \<noteq> None \<and> \<not> js_get False (absent s) i then Some i else None)
         else if bus > secondary \<and> bus \<le> subordinate then Next behind
         else route_hop s bdf bs)"

fun route_from :: "nat \<Rightarrow> pci \<Rightarrow> nat \<Rightarrow> nat \<Rightarrow> nat option option" where
  "route_from 0 s bdf at1 = None"
| "route_from (Suc n) s bdf at1 =
     (case route_hop s bdf (js_get [] (bridges_on s) at1) of Answer r \<Rightarrow> Some r | Next b \<Rightarrow> route_from n s bdf b)"

text \<open>None if the loop does not end in 257 rounds, more than there are buses; it always does (lemma \<open>route_config_total\<close>).\<close>

definition route_config :: "pci \<Rightarrow> nat \<Rightarrow> nat option option" where
  "route_config s bdf = (if bdf div 256 = 0 then Some (Some bdf) else route_from 257 s bdf 0)"

definition all_ones :: "nat \<Rightarrow> i32" where
  "all_ones sz = (if sz = 4 then -1 else push_bit (sz * 8) 1 - 1)"

definition function_read :: "pci \<Rightarrow> nat option \<Rightarrow> nat \<Rightarrow> nat \<Rightarrow> i32" where
  "function_read s target offset sz =
     (case target of None \<Rightarrow> all_ones sz
      | Some i \<Rightarrow>
        (case space_of s i of None \<Rightarrow> all_ones sz
         | Some bs \<Rightarrow>
           if offset + sz > length bs then all_ones sz
           else let value = (if offset mod 4 + sz \<le> 4 then drop_bit (offset mod 4 * 8) (get_dword bs (offset div 4))
                             else fold (\<lambda>j v. v OR push_bit (j * 8) (ucast (bs ! (offset + j)))) [0..<sz] 0)
                in if sz = 4 then value else value AND (push_bit (sz * 8) 1 - 1)))"

definition config_read :: "pci \<Rightarrow> nat \<Rightarrow> nat \<Rightarrow> nat \<Rightarrow> i32 option" where
  "config_read s bdf offset sz = map_option (\<lambda>t. function_read s t offset sz) (route_config s bdf)"

definition config_write :: "irq_route \<Rightarrow> nat \<Rightarrow> nat \<Rightarrow> nat \<Rightarrow> i32 \<Rightarrow> pci \<Rightarrow> pci option" where
  "config_write route bdf offset sz value s = map_option (\<lambda>t. function_write route t offset sz value s) (route_config s bdf)"

text \<open>
  The address and data ports. The address with the port offset added selects function and byte; accesses
  with the enable bit clear reach nothing.
\<close>

definition cf8_target :: "i32 \<Rightarrow> (nat \<times> nat) option" where
  "cf8_target address = (if bit address 31 then Some (unat (drop_bit 8 address AND 0xFFFF), unat (address AND 0xFF)) else None)"

definition pci_addr32 :: "pci \<Rightarrow> i32" where
  "pci_addr32 s = get_dword (pci_addr s) 0"

definition config_read_cf8 :: "pci \<Rightarrow> nat \<Rightarrow> nat \<Rightarrow> i32 option" where
  "config_read_cf8 s port_offset sz =
     (case cf8_target (pci_addr32 s + word_of_nat port_offset) of
        None \<Rightarrow> Some (all_ones sz) | Some (bdf, r) \<Rightarrow> config_read s bdf r sz)"

definition config_write_cf8 :: "irq_route \<Rightarrow> nat \<Rightarrow> nat \<Rightarrow> i32 \<Rightarrow> pci \<Rightarrow> pci option" where
  "config_write_cf8 route port_offset sz value s =
     (case cf8_target (pci_addr32 s + word_of_nat port_offset) of
        None \<Rightarrow> Some s | Some (bdf, r) \<Rightarrow> config_write route bdf r sz value s)"

definition addr_write :: "nat \<Rightarrow> i32 \<Rightarrow> pci \<Rightarrow> pci" where
  "addr_write k v s = s\<lparr>pci_addr := (pci_addr s)[k := if k = 0 then ucast (v AND 0xFC) else ucast v]\<rparr>"

definition reset_control_write :: "i32 \<Rightarrow> pci \<Rightarrow> pci" where
  "reset_control_write v s =
     (let rising = NOT (reset_control s) AND v AND 4; s1 = s\<lparr>reset_control := v AND 6\<rparr>
      in if rising \<noteq> 0 then pci_emit Pci_Reboot s1 else s1)"

definition pci_reset :: "pci \<Rightarrow> pci" where
  "pci_reset s = s\<lparr>reset_control := 0\<rparr>"

section \<open>ECAM window\<close>

definition set_ecam :: "int \<Rightarrow> nat \<Rightarrow> pci \<Rightarrow> pci" where
  "set_ecam base sz s =
     (if base = ecam_base s \<and> sz = ecam_size s then s
      else let s1 = (if ecam_base s \<noteq> -1 then pci_emit (Ecam_Unregister (ecam_base s) (ecam_size s)) s else s);
               s2 = s1\<lparr>ecam_base := base, ecam_size := (if base = -1 then 0 else sz)\<rparr>
           in if base \<noteq> -1 then pci_emit (Ecam_Register base sz) s2 else s2)"

text \<open>An access at an offset of the window; double words that are not aligned are four bytes.\<close>

definition ecam_read8 :: "pci \<Rightarrow> nat \<Rightarrow> i32 option" where
  "ecam_read8 s off = config_read s (off div 4096) (off mod 4096) 1"

definition ecam_read32 :: "pci \<Rightarrow> nat \<Rightarrow> i32 option" where
  "ecam_read32 s off =
     (if off mod 4 \<noteq> 0
      then (case (ecam_read8 s off, ecam_read8 s (off + 1), ecam_read8 s (off + 2), ecam_read8 s (off + 3)) of
              (Some a, Some b, Some c, Some d) \<Rightarrow> Some (a OR push_bit 8 b OR push_bit 16 c OR push_bit 24 d)
            | _ \<Rightarrow> None)
      else config_read s (off div 4096) (off mod 4096) 4)"

definition ecam_write8 :: "irq_route \<Rightarrow> nat \<Rightarrow> i32 \<Rightarrow> pci \<Rightarrow> pci option" where
  "ecam_write8 route off v s = config_write route (off div 4096) (off mod 4096) 1 v s"

definition ecam_write32 :: "irq_route \<Rightarrow> nat \<Rightarrow> i32 \<Rightarrow> pci \<Rightarrow> pci option" where
  "ecam_write32 route off v s =
     (if off mod 4 \<noteq> 0
      then fold (\<lambda>i u. case u of None \<Rightarrow> None | Some x \<Rightarrow> ecam_write8 route (off + i) (drop_bit (i * 8) v AND 0xFF) x) [0..<4] (Some s)
      else config_write route (off div 4096) (off mod 4096) 4 v s)"

section \<open>Message signalled interrupts\<close>

definition msi_capability :: "u8 \<Rightarrow> u8 list" where
  "msi_capability next = [5, next, MSI_CONTROL_64BIT, 0, 0, 0, 0, 0, 0, 0, 0, 0, 0, 0]"

definition msi_config_written :: "nat \<Rightarrow> nat \<Rightarrow> u8 \<Rightarrow> pci \<Rightarrow> pci" where
  "msi_config_written i cap next s =
     (let bs = space_bytes s i
      in set_space i (bs[cap := 5, cap + 1 := next, cap + 2 := bs ! (cap + 2) AND MSI_CONTROL_ENABLE OR MSI_CONTROL_64BIT,
           cap + 3 := 0, cap + 4 := bs ! (cap + 4) AND NOT 3]) s)"

definition msi_enabled :: "pci \<Rightarrow> nat \<Rightarrow> nat \<Rightarrow> bool" where
  "msi_enabled s i cap = (case space_of s i of None \<Rightarrow> False | Some bs \<Rightarrow> bs ! (cap + 2) AND MSI_CONTROL_ENABLE \<noteq> 0)"

text \<open>\<open>accepts\<close> is what the local APICs answer.\<close>

definition msi_notify :: "(i32 \<Rightarrow> i32 \<Rightarrow> bool) option \<Rightarrow> nat \<Rightarrow> nat \<Rightarrow> pci \<Rightarrow> bool \<times> pci" where
  "msi_notify apic_msi i cap s =
     (let bs = space_bytes s i; address = word_of_int (u32_at bs (cap + 4)); high = u32_at bs (cap + 8);
          data = word_of_int (u16_at bs (cap + 12))
      in case apic_msi of
           None \<Rightarrow> (False, s)
         | Some accepts \<Rightarrow> if high \<noteq> 0 \<or> \<not> is_bus_master s i then (False, s)
                           else (accepts address data, pci_emit (Apic_Msi address data) s))"

section \<open>Functions come and go\<close>

definition register_bar :: "nat \<Rightarrow> nat \<Rightarrow> pci \<Rightarrow> pci" where
  "register_bar i nr s =
     (case bar_of s i nr of None \<Rightarrow> s
      | Some bar \<Rightarrow>
          let base = get_dword (space_bytes s i) (4 + nr); bar1 = bar\<lparr>original_bar := base, entries := []\<rparr>
          in if base AND 1 = 0 then set_bar i nr (bar1\<lparr>bar_base := uint (base AND NOT 0xF)\<rparr>) s
             else if on_move bar then set_bar i nr (bar1\<lparr>bar_base := uint (base AND NOT 3 AND 0xFFFF)\<rparr>) s
             else let port = unat (base AND NOT 1); bar2 = bar1\<lparr>entries := map (\<lambda>j. ports s (port + j)) [0..<bar_size bar]\<rparr>
                  in if i \<ge> 256 then update_io_bar i nr (set_bar i nr (bar2\<lparr>assigned := Some port, mapped := Some port\<rparr>) s)
                     else set_bar i nr bar2 s)"

text \<open>The function on the bus, before its BARs.\<close>

definition add_function :: "nat \<Rightarrow> pci_function \<Rightarrow> u8 list \<Rightarrow> pci \<Rightarrow> pci" where
  "add_function i d bs s =
     (let s1 = s\<lparr>device_spaces := js_put None (device_spaces s) i (Some bs), devices := js_put None (devices s) i (Some d)\<rparr>;
          s2 = (if i \<ge> 256 then s1\<lparr>templates := js_put None (templates s1) i (Some bs)\<rparr> else s1)
      in case if bs ! 0x0E AND 0x7F = 1 then pci_secondary_bus d else None of
           Some behind \<Rightarrow> s2\<lparr>bridge_for_bus := js_put None (bridge_for_bus s2) behind (Some i),
             bridges_on := js_put [] (bridges_on s2) (i div 256) (js_get [] (bridges_on s2) (i div 256) @ [i])\<rparr>
         | None \<Rightarrow> s2)"

definition register_device :: "nat \<Rightarrow> pci_function \<Rightarrow> u8 list \<Rightarrow> nat \<Rightarrow> pci \<Rightarrow> pci" where
  "register_device i d pci_space config_size s =
     fold (register_bar i) [0..<length (pci_bars d)] (add_function i d (pci_space @ replicate (config_size - length pci_space) 0) s)"

definition refresh_bar :: "nat \<Rightarrow> u8 list \<Rightarrow> nat \<Rightarrow> pci \<Rightarrow> pci" where
  "refresh_bar i template nr s =
     (case bar_of s i nr of None \<Rightarrow> s
      | Some bar \<Rightarrow>
          let value = get_dword template (4 + nr)
          in if value AND 1 \<noteq> 0
             then if on_move bar then move_io_bar i nr bar (value AND NOT 3 AND 0xFFFF) s
                  else set_bar i nr (bar\<lparr>assigned := Some (io_port value)\<rparr>) s
             else if on_move bar then move_memory_bar i nr bar (value AND NOT 0xF) s
             else s)"

text \<open>A fresh function: its space and BARs as at registration, its pin low.\<close>

definition fresh_function :: "nat \<Rightarrow> u8 list \<Rightarrow> pci \<Rightarrow> pci" where
  "fresh_function i template s =
     (let t1 = set_space i template s; t2 = fold (refresh_bar i template) [0..<bar_count t1 i] t1
      in pci_emit (Device_Reset i) (t2\<lparr>intx_levels := js_put False (intx_levels t2) i False\<rparr>))"

text \<open>The function comes or goes; then its pin and the ports of its BARs follow.\<close>

definition switch_function :: "nat \<Rightarrow> bool \<Rightarrow> bool \<Rightarrow> pci \<Rightarrow> pci" where
  "switch_function i present fresh s =
     (let s1 = (if \<not> present \<and> \<not> js_get False (absent s) i then pci_emit (On_Unplug i) s else s);
          s2 = s1\<lparr>absent := js_put False (absent s1) i (\<not> present)\<rparr>
      in if present \<and> fresh
         then case js_get None (templates s2) i of Some template \<Rightarrow> fresh_function i template s2 | None \<Rightarrow> s2
         else s2)"

definition set_function_present :: "irq_route \<Rightarrow> nat \<Rightarrow> bool \<Rightarrow> bool \<Rightarrow> pci \<Rightarrow> pci" where
  "set_function_present route i present fresh s =
     (let s1 = switch_function i present fresh s in upstream_changed i (set_irq_level route i (js_get False (intx_levels s1) i) s1))"

section \<open>Saved state\<close>

record pci_state =
  st_spaces :: "u8 list option list"
  st_pci_addr :: "u8 list"
  st_reset_control :: "i32 option"
  st_behind :: "(nat \<times> u8 list) list"
  st_intx_levels :: "nat list"
  st_irq_lines :: "(nat \<times> nat) list"
  st_gsis :: "(nat \<times> nat) list"
  st_absent :: "nat list"

text \<open>The entries of an array that are not holes, in ascending order.\<close>

definition array_entries :: "'a option list \<Rightarrow> (nat \<times> 'a) list" where
  "array_entries xs = map (\<lambda>i. (i, the (xs ! i))) (filter (\<lambda>i. xs ! i \<noteq> None) [0..<length xs])"

definition array_true :: "bool list \<Rightarrow> nat list" where
  "array_true xs = filter (\<lambda>i. xs ! i) [0..<length xs]"

definition pci_get_state :: "pci \<Rightarrow> pci_state" where
  "pci_get_state s =
     \<lparr>st_spaces = map (\<lambda>i. space_of s i) [0..<256], st_pci_addr = pci_addr s, st_reset_control = Some (reset_control s),
      st_behind = filter (\<lambda>(i, _). i \<ge> 256) (array_entries (device_spaces s)), st_intx_levels = array_true (intx_levels s),
      st_irq_lines = array_entries (asserted_irq_lines s), st_gsis = array_entries (asserted_gsis s), st_absent = array_true (absent s)\<rparr>"

text \<open>One BAR: the saved space, whose entry a fixed BAR overrides, and the machine.\<close>

definition restore_bar :: "nat \<Rightarrow> nat \<Rightarrow> u8 list \<times> pci \<Rightarrow> u8 list \<times> pci" where
  "restore_bar i nr = (\<lambda>(saved, s).
     case bar_of s i nr of None \<Rightarrow> (saved, s)
     | Some bar \<Rightarrow>
         let value = get_dword saved (4 + nr)
         in if fixed bar then (set_dword saved (4 + nr) (original_bar bar), s)
            else if value AND 1 \<noteq> 0
            then if on_move bar
                 then (saved, if is_probe bar value then s else move_io_bar i nr bar (value AND NOT 3 AND 0xFFFF) s)
                 else if i \<ge> 256 then (saved, set_bar i nr (bar\<lparr>assigned := Some (io_port value)\<rparr>) s)
                 else (saved, set_io_bars bar (io_port (original_bar bar)) (io_port value) s)
            else if on_move bar
            then (saved, if value OR 0xF OR size_mask bar = -1 then s else move_memory_bar i nr bar (value AND NOT 0xF) s)
            else (saved, s))"

definition restore_function :: "nat \<times> u8 list option \<Rightarrow> pci \<Rightarrow> pci" where
  "restore_function = (\<lambda>(i, saved) s.
     case (device_of s i, saved) of
       (Some d, Some bs) \<Rightarrow>
         let (bs1, s1) = fold (restore_bar i) [0..<length (pci_bars d)] (bs, s);
             old = space_bytes s1 i; n = min (length bs1) (length old)
         in pci_emit (On_Config_Restore i) (set_space i (take n bs1 @ drop n old) s1)
     | _ \<Rightarrow> s)"

definition pci_set_state :: "pci_state \<Rightarrow> pci \<Rightarrow> pci" where
  "pci_set_state st s =
     (let s1 = fold restore_function (map (\<lambda>i. (i, js_get None (st_spaces st) i)) [0..<256] @ map (\<lambda>(i, bs). (i, Some bs)) (st_behind st)) s;
          s2 = s1\<lparr>pci_addr := st_pci_addr st, reset_control := (case st_reset_control st of Some r \<Rightarrow> r | None \<Rightarrow> 0),
                 intx_levels := fold (\<lambda>i xs. js_put False xs i True) (st_intx_levels st) [],
                 asserted_irq_lines := fold (\<lambda>(i, n) xs. js_put None xs i (Some n)) (st_irq_lines st) [],
                 asserted_gsis := fold (\<lambda>(i, n) xs. js_put None xs i (Some n)) (st_gsis st) [],
                 absent := fold (\<lambda>i xs. if device_of s1 i \<noteq> None then js_put False xs i True else xs) (st_absent st) []\<rparr>
      in fold (\<lambda>i u. if i \<ge> 256 \<and> device_of u i \<noteq> None then upstream_changed i u else u) [0..<length (devices s2)] s2)"

section \<open>The machine at power-on\<close>

definition PCI :: pci where
  "PCI = \<lparr>pci_addr = [0, 0, 0, 0], device_spaces = replicate 256 None, devices = replicate 256 None, asserted_irq_lines = [],
     asserted_gsis = [], intx_levels = [], bridge_for_bus = [], bridges_on = [], absent = [], templates = [],
     ecam_base = -1, ecam_size = 0, reset_control = 0, ports = (\<lambda>_. Empty_Port), pci_log = []\<rparr>"

definition plain_function :: pci_function where
  "plain_function = \<lparr>pci_bars = [], pci_rom_size = 0, pci_rom_address = 0, pci_secondary_bus = None, pci_express_downstream = False\<rparr>"

text \<open>The host bridge and the ISA bridge of the i440FX machine; \<open>subsystem\<close> is empty or QEMU's.\<close>

definition host_bridge_space :: "u8 list" where
  "host_bridge_space =
     [0x86, 0x80, 0x37, 0x12, 0x00, 0x00, 0x00, 0x00, 0x02, 0x00, 0x00, 0x06, 0x00, 0x00, 0x00, 0x00] @ replicate 0x49 0 @ [0x10] @ replicate 6 0"

definition isa_bridge_space :: "u8 list \<Rightarrow> u8 list" where
  "isa_bridge_space subsystem =
     [0x86, 0x80, 0x00, 0x70, 0x07, 0x00, 0x00, 0x02, 0x00, 0x00, 0x01, 0x06, 0x00, 0x00, 0x80, 0x00] @ replicate 0x1C 0 @ subsystem @ replicate 0x10 0"

definition create_i440fx :: "u8 list \<Rightarrow> pci \<Rightarrow> pci" where
  "create_i440fx subsystem s =
     register_device 8 plain_function (isa_bridge_space subsystem) 256 (register_device 0 plain_function host_bridge_space 256 s)"

section \<open>Bytes and double words\<close>

lemma byte_high [simp]: "8 \<le> n \<Longrightarrow> \<not> bit (b :: u8) n"
  using bit_imp_le_length [of b n] by auto

lemma bit_byte_n: "bit (byte_n v i) n \<longleftrightarrow> n < 8 \<and> bit v (8 * i + n)"
  by (auto simp: byte_n_def bit_simps mult.commute)

lemma bit_get_dword: "bit (get_dword bs k) n \<longleftrightarrow> n < 32 \<and> bit (bs ! (4 * k + n div 8)) (n mod 8)"
proof -
  consider "n < 8" | "8 \<le> n" "n < 16" | "16 \<le> n" "n < 24" | "24 \<le> n" "n < 32" | "32 \<le> n" by linarith
  then show ?thesis
  proof cases
    case 1 then show ?thesis by (simp add: get_dword_def bit_simps)
  next
    case 2
    then have "n div 8 = 1" "n mod 8 = n - 8" by (simp_all add: div_nat_eqI mod_nat_eqI le_mod_geq)
    then show ?thesis using 2 by (auto simp: get_dword_def bit_simps)
  next
    case 3
    then have "n div 8 = 2" "n mod 8 = n - 16" by (simp_all add: div_nat_eqI mod_nat_eqI le_mod_geq)
    then show ?thesis using 3 by (auto simp: get_dword_def bit_simps)
  next
    case 4
    then have "n div 8 = 3" "n mod 8 = n - 24" by (simp_all add: div_nat_eqI mod_nat_eqI le_mod_geq)
    then show ?thesis using 4 by (auto simp: get_dword_def bit_simps)
  next
    case 5 then show ?thesis using bit_imp_le_length [of "get_dword bs k" n] by auto
  qed
qed

lemma byte_n_dword: "i < 4 \<Longrightarrow> byte_n (get_dword bs k) i = bs ! (4 * k + i)"
  by (rule bit_word_eqI) (simp add: bit_byte_n bit_get_dword)

lemma get_dword_cong: "(\<And>i. i < 4 \<Longrightarrow> bs ! (4 * k + i) = cs ! (4 * k + i)) \<Longrightarrow> get_dword bs k = get_dword cs k"
  by (rule bit_word_eqI) (simp add: bit_get_dword)

lemma nth_set_dword:
  "j < length bs \<Longrightarrow> set_dword bs k v ! j = (if 4 * k \<le> j \<and> j < 4 * k + 4 then byte_n v (j - 4 * k) else bs ! j)"
proof -
  assume j: "j < length bs"
  consider "j < 4 * k" | "j = 4 * k" | "j = 4 * k + 1" | "j = 4 * k + 2" | "j = 4 * k + 3" | "4 * k + 4 \<le> j" by linarith
  then show ?thesis using j by cases (auto simp: set_dword_def byte_n_def nth_list_update)
qed

lemma length_set_dword [simp]: "length (set_dword bs k v) = length bs"
  by (simp add: set_dword_def)

lemma get_set_dword: "4 * k + 4 \<le> length bs \<Longrightarrow> get_dword (set_dword bs k v) k = v"
proof (rule bit_word_eqI)
  fix n assume l: "4 * k + 4 \<le> length bs" and "n < LENGTH(32)"
  then have n: "n < 32" "n div 8 < 4" by simp_all
  then show "bit (get_dword (set_dword bs k v) k) n = bit v n"
    using l by (simp add: bit_get_dword nth_set_dword bit_byte_n)
qed

lemma get_set_dword_other: "j \<noteq> k \<Longrightarrow> 4 * j + 4 \<le> length bs \<Longrightarrow> get_dword (set_dword bs k v) j = get_dword bs j"
proof (rule get_dword_cong)
  fix i assume "j \<noteq> k" "4 * j + 4 \<le> length bs" "i < (4 :: nat)"
  then have "\<not> (4 * k \<le> 4 * j + i \<and> 4 * j + i < 4 * k + 4)" "4 * j + i < length bs" by presburger+
  then show "set_dword bs k v ! (4 * j + i) = bs ! (4 * j + i)" by (auto simp: nth_set_dword)
qed

section \<open>Reading: the fast path and the bytes\<close>

text \<open>The value that the bytes from an offset on make up.\<close>

definition bytes_value :: "u8 list \<Rightarrow> nat \<Rightarrow> nat \<Rightarrow> i32" where
  "bytes_value bs offset sz = fold (\<lambda>j v. v OR push_bit (j * 8) (ucast (bs ! (offset + j)))) [0..<sz] 0"

lemma bit_bytes_value: "bit (bytes_value bs offset sz) n \<longleftrightarrow> n < 32 \<and> n < sz * 8 \<and> bit (bs ! (offset + n div 8)) (n mod 8)"
proof (induction sz)
  case (Suc sz)
  have s: "bytes_value bs offset (Suc sz) = bytes_value bs offset sz OR push_bit (sz * 8) (ucast (bs ! (offset + sz)))"
    by (simp add: bytes_value_def)
  have "bit (push_bit (sz * 8) (ucast (bs ! (offset + sz)) :: i32)) n \<longleftrightarrow> n < 32 \<and> sz * 8 \<le> n \<and> n < Suc sz * 8 \<and> bit (bs ! (offset + n div 8)) (n mod 8)"
  proof (cases "sz * 8 \<le> n \<and> n < Suc sz * 8")
    case True
    then have "n div 8 = sz" "n mod 8 = n - sz * 8" by (auto simp: div_nat_eqI intro!: mod_nat_eqI)
    then show ?thesis using True by (auto simp: bit_simps)
  next
    case False then show ?thesis by (auto simp: bit_simps)
  qed
  then show ?case unfolding s bit_or_iff Suc.IH by auto
qed (simp add: bytes_value_def)

lemma mask_value: "sz \<in> {1, 2} \<Longrightarrow> (push_bit (sz * 8) 1 - 1 :: i32) = mask (sz * 8)"
  by (auto simp: mask_eq_exp_minus_1)

lemma function_read_bytes:
  assumes "space_of s i = Some bs" "offset + sz \<le> length bs" "sz \<in> {1, 2, 4}"
  shows "function_read s (Some i) offset sz = bytes_value bs offset sz"
proof -
  have f: "drop_bit (offset mod 4 * 8) (get_dword bs (offset div 4)) AND mask (sz * 8) = bytes_value bs offset sz" if "offset mod 4 + sz \<le> 4"
  proof (rule bit_word_eqI)
    fix n
    have "offset div 4 * 4 + offset mod 4 = offset" by simp
    moreover have "(offset mod 4 * 8 + n) div 8 = offset mod 4 + n div 8" "(offset mod 4 * 8 + n) mod 8 = n mod 8" by simp_all
    moreover have "offset mod 4 * 8 + n < 32" if "n < sz * 8" using that \<open>offset mod 4 + sz \<le> 4\<close> by linarith
    ultimately show "bit (drop_bit (offset mod 4 * 8) (get_dword bs (offset div 4)) AND mask (sz * 8)) n = bit (bytes_value bs offset sz) n"
      by (auto simp: bit_simps bit_get_dword bit_bytes_value add.assoc mult.commute)
  qed
  have m: "bytes_value bs offset sz AND mask (sz * 8) = bytes_value bs offset sz"
    by (rule bit_word_eqI) (auto simp: bit_simps bit_bytes_value)
  have w: "x AND mask 32 = x" for x :: i32 by (rule bit_word_eqI) (simp add: bit_simps)
  show ?thesis
  proof (cases "offset mod 4 + sz \<le> 4")
    case True
    then show ?thesis using assms f [OF True] mask_value [of sz] w
      by (auto simp: function_read_def Let_def simp del: push_bit_of_1)
  next
    case False
    then show ?thesis using assms m mask_value [of sz]
      by (auto simp: function_read_def Let_def bytes_value_def simp del: push_bit_of_1)
  qed
qed

section \<open>What the operations leave alone\<close>

lemma pci_emit_simps [simp]:
  "pci_addr (pci_emit e s) = pci_addr s" "device_spaces (pci_emit e s) = device_spaces s" "devices (pci_emit e s) = devices s"
  "asserted_irq_lines (pci_emit e s) = asserted_irq_lines s" "asserted_gsis (pci_emit e s) = asserted_gsis s"
  "intx_levels (pci_emit e s) = intx_levels s" "bridge_for_bus (pci_emit e s) = bridge_for_bus s" "bridges_on (pci_emit e s) = bridges_on s"
  "absent (pci_emit e s) = absent s" "templates (pci_emit e s) = templates s" "ports (pci_emit e s) = ports s"
  "pci_log (pci_emit e s) = pci_log s @ [e]"
  by (simp_all add: pci_emit_def)

text \<open>Two machines with the same bridges, spaces and functions on the bus route and forward alike.\<close>

definition same_config :: "pci \<Rightarrow> pci \<Rightarrow> bool" where
  "same_config s u \<longleftrightarrow> device_spaces u = device_spaces s \<and> bridge_for_bus u = bridge_for_bus s \<and> bridges_on u = bridges_on s \<and> absent u = absent s"

lemma same_config_refl [simp]: "same_config s s" by (simp add: same_config_def)

lemma same_config_trans: "same_config s u \<Longrightarrow> same_config u v \<Longrightarrow> same_config s v" by (simp add: same_config_def)

lemma bridge_chain_cong: "bridge_for_bus u = bridge_for_bus s \<Longrightarrow> bridge_chain n u i = bridge_chain n s i"
proof (induction n arbitrary: i)
  case (Suc n)
  have "parent_bridge u i = parent_bridge s i" using Suc.prems by (simp add: parent_bridge_def)
  then show ?case using Suc.IH [OF Suc.prems] by (simp split: option.split)
qed simp

lemma upstream_cong: "bridge_for_bus u = bridge_for_bus s \<Longrightarrow> upstream u i = upstream s i"
  unfolding upstream_def by (rule bridge_chain_cong)

lemma same_config_simps:
  assumes "same_config s u"
  shows "upstream u i = upstream s i" "get_command u i = get_command s i" "space_bytes u i = space_bytes s i"
    "upstream_forwards_io u i p z = upstream_forwards_io s i p z" "io_bar_place u i bar = io_bar_place s i bar"
    "root_pin u i = root_pin s i"
proof -
  show up: "upstream u i = upstream s i" using assms by (intro upstream_cong) (simp add: same_config_def)
  have c: "get_command u j = get_command s j" "space_bytes u j = space_bytes s j" for j
    using assms by (simp_all add: same_config_def get_command_def space_bytes_def)
  then show "get_command u i = get_command s i" "space_bytes u i = space_bytes s i" by simp_all
  have f: "upstream_forwards_io u i p z = upstream_forwards_io s i p z" for p z
    using assms up c by (simp add: upstream_forwards_io_def same_config_def)
  then show "upstream_forwards_io u i p z = upstream_forwards_io s i p z" .
  show "io_bar_place u i bar = io_bar_place s i bar" using f by (simp add: io_bar_place_def split: option.split)
  show "root_pin u i = root_pin s i" using c up by (simp add: root_pin_def)
qed

text \<open>The devices but for where their I/O BARs are mapped.\<close>

definition unmapped :: "pci_function \<Rightarrow> pci_function" where
  "unmapped d = d\<lparr>pci_bars := map (map_option (\<lambda>b. b\<lparr>mapped := None\<rparr>)) (pci_bars d)\<rparr>"

definition same_devices :: "pci \<Rightarrow> pci \<Rightarrow> bool" where
  "same_devices s u \<longleftrightarrow> length (devices u) = length (devices s) \<and> (\<forall>i. map_option unmapped (device_of u i) = map_option unmapped (device_of s i))"

lemma same_devices_refl [simp]: "same_devices s s" by (simp add: same_devices_def)

lemma same_devices_trans: "same_devices s u \<Longrightarrow> same_devices u v \<Longrightarrow> same_devices s v" by (simp add: same_devices_def)

lemma unmapped_fields [simp]:
  "pci_secondary_bus (unmapped d) = pci_secondary_bus d" "pci_rom_size (unmapped d) = pci_rom_size d" "length (pci_bars (unmapped d)) = length (pci_bars d)"
  "pci_express_downstream (unmapped d) = pci_express_downstream d"
  by (simp_all add: unmapped_def)

lemma same_devices_simps:
  assumes "same_devices s u"
  shows "device_of u i = None \<longleftrightarrow> device_of s i = None" "is_bridge u i = is_bridge s i" "bar_count u i = bar_count s i"
    "length (devices u) = length (devices s)" "bridge_bus u i = bridge_bus s i"
    "map_option (\<lambda>b. b\<lparr>mapped := None\<rparr>) (bar_of u i nr) = map_option (\<lambda>b. b\<lparr>mapped := None\<rparr>) (bar_of s i nr)"
proof -
  have e: "map_option unmapped (device_of u i) = map_option unmapped (device_of s i)" using assms by (simp add: same_devices_def)
  then show d: "device_of u i = None \<longleftrightarrow> device_of s i = None" by (metis option.map_disc_iff)
  have x: "unmapped a = unmapped b" if "device_of u i = Some a" "device_of s i = Some b" for a b using e that by simp
  have y: "pci_secondary_bus a = pci_secondary_bus b" "length (pci_bars a) = length (pci_bars b)"
    if "device_of u i = Some a" "device_of s i = Some b" for a b
    using x [OF that] by (metis unmapped_fields)+
  show "is_bridge u i = is_bridge s i" "bar_count u i = bar_count s i" "bridge_bus u i = bridge_bus s i"
    using d y by (auto simp: is_bridge_def bar_count_def bridge_bus_def split: option.splits)
  show "length (devices u) = length (devices s)" using assms by (simp add: same_devices_def)
  have z: "js_get None (map (map_option (\<lambda>b. b\<lparr>mapped := None\<rparr>)) xs) nr = map_option (\<lambda>b. b\<lparr>mapped := None\<rparr>) (js_get None xs nr)" for xs :: "pci_bar option list"
    by (simp add: js_get_def)
  show "map_option (\<lambda>b. b\<lparr>mapped := None\<rparr>) (bar_of u i nr) = map_option (\<lambda>b. b\<lparr>mapped := None\<rparr>) (bar_of s i nr)"
  proof (cases "device_of s i")
    case (Some b)
    then obtain a where a: "device_of u i = Some a" using d by auto
    have "pci_bars (unmapped a) = pci_bars (unmapped b)" using x [OF a Some] by simp
    then have "js_get None (pci_bars (unmapped a)) nr = js_get None (pci_bars (unmapped b)) nr" by simp
    then show ?thesis using a Some by (simp add: unmapped_def z)
  qed (use d in simp)
qed

lemma set_bar_simps [simp]:
  "device_spaces (set_bar i nr b s) = device_spaces s" "bridge_for_bus (set_bar i nr b s) = bridge_for_bus s"
  "bridges_on (set_bar i nr b s) = bridges_on s" "absent (set_bar i nr b s) = absent s" "templates (set_bar i nr b s) = templates s"
  "asserted_irq_lines (set_bar i nr b s) = asserted_irq_lines s" "asserted_gsis (set_bar i nr b s) = asserted_gsis s"
  "intx_levels (set_bar i nr b s) = intx_levels s" "pci_log (set_bar i nr b s) = pci_log s" "ports (set_bar i nr b s) = ports s"
  by (simp_all add: set_bar_def split: option.split)

lemma bar_of_Some: "bar_of s i nr = Some b \<Longrightarrow> \<exists>d. device_of s i = Some d \<and> nr < length (pci_bars d) \<and> pci_bars d ! nr = Some b"
  by (auto simp: js_get_def split: option.splits if_splits)

lemma bar_of_set_bar:
  assumes "bar_of s i nr \<noteq> None"
  shows "bar_of (set_bar i nr b s) j m = (if j = i \<and> m = nr then Some b else bar_of s j m)"
proof -
  obtain x where "bar_of s i nr = Some x" using assms by auto
  then obtain d where d: "device_of s i = Some d" "nr < length (pci_bars d)" using bar_of_Some by blast
  have l: "js_get None ((pci_bars d)[nr := Some b]) m = (if m = nr then Some b else js_get None (pci_bars d) m)"
    for m using d(2) by (simp add: js_get_def)
  show ?thesis using d(1) by (auto simp: set_bar_def l)
qed

lemma js_put_length: "i < length xs \<Longrightarrow> length (js_put d xs i v) = length xs"
  by (simp add: js_put_def)

lemma device_of_index: "device_of s i = Some d \<Longrightarrow> i < length (devices s)"
  by (simp add: js_get_def split: if_splits)

lemma set_bar_same_devices:
  assumes "bar_of s i nr = Some x" "b\<lparr>mapped := None\<rparr> = x\<lparr>mapped := None\<rparr>"
  shows "same_devices s (set_bar i nr b s)"
proof -
  obtain d where d: "device_of s i = Some d" "nr < length (pci_bars d)" "pci_bars d ! nr = Some x" using bar_of_Some [OF assms(1)] by blast
  have "map (map_option (\<lambda>b. b\<lparr>mapped := None\<rparr>)) ((pci_bars d)[nr := Some b]) = map (map_option (\<lambda>b. b\<lparr>mapped := None\<rparr>)) (pci_bars d)"
    using d(2,3) assms(2) by (simp add: map_update list_update_same_conv)
  then have "unmapped (d\<lparr>pci_bars := (pci_bars d)[nr := Some b]\<rparr>) = unmapped d" by (simp add: unmapped_def)
  then show ?thesis using d(1) device_of_index [OF d(1)] by (simp add: same_devices_def set_bar_def js_put_length)
qed

text \<open>The part of the state that the mapping of I/O BARs leaves alone.\<close>

definition io_frame :: "pci \<Rightarrow> pci \<Rightarrow> bool" where
  "io_frame s u \<longleftrightarrow> same_config s u \<and> same_devices s u \<and> asserted_irq_lines u = asserted_irq_lines s \<and> asserted_gsis u = asserted_gsis s \<and>
     intx_levels u = intx_levels s \<and> templates u = templates s"

lemma io_frame_refl [simp]: "io_frame s s" by (simp add: io_frame_def)

lemma io_frame_trans [trans]: "io_frame s u \<Longrightarrow> io_frame u v \<Longrightarrow> io_frame s v"
  unfolding io_frame_def using same_config_trans same_devices_trans by auto

lemma fold_frame: "(\<And>x u. io_frame u (f x u)) \<Longrightarrow> io_frame s (fold f xs s)"
  by (induction xs arbitrary: s) (auto intro: io_frame_trans)

lemma update_io_bar_frame: "io_frame s (update_io_bar i nr s)"
proof (cases "bar_of s i nr")
  case (Some bar)
  have "same_devices (s\<lparr>ports := f\<rparr>) (set_bar i nr (bar\<lparr>mapped := m\<rparr>) (s\<lparr>ports := f\<rparr>))" for f m
    using Some by (intro set_bar_same_devices [of _ _ _ bar]) simp_all
  moreover have "same_devices s (s\<lparr>ports := f\<rparr>)" for f by (simp add: same_devices_def)
  ultimately have "same_devices s (set_bar i nr (bar\<lparr>mapped := m\<rparr>) (s\<lparr>ports := f\<rparr>))" for f m by (blast intro: same_devices_trans)
  then show ?thesis using Some by (simp add: update_io_bar_def Let_def io_frame_def same_config_def)
qed (simp add: update_io_bar_def)

lemma update_io_bar_bars:
  "bar_of (update_io_bar i nr s) j m =
     (if j = i \<and> m = nr then map_option (\<lambda>bar. bar\<lparr>mapped := io_bar_place s i bar\<rparr>) (bar_of s i nr) else bar_of s j m)"
proof (cases "bar_of s i nr")
  case (Some bar)
  have u: "update_io_bar i nr s = s \<or> (\<exists>f. update_io_bar i nr s = set_bar i nr (bar\<lparr>mapped := io_bar_place s i bar\<rparr>) (s\<lparr>ports := f\<rparr>))"
    "io_bar_place s i bar = mapped bar \<Longrightarrow> update_io_bar i nr s = s"
    "io_bar_place s i bar \<noteq> mapped bar \<Longrightarrow> \<exists>f. update_io_bar i nr s = set_bar i nr (bar\<lparr>mapped := io_bar_place s i bar\<rparr>) (s\<lparr>ports := f\<rparr>)"
    using Some by (auto simp: update_io_bar_def Let_def)
  show ?thesis
  proof (cases "io_bar_place s i bar = mapped bar")
    case True then show ?thesis using u(2) Some by auto
  next
    case False
    then obtain f where f: "update_io_bar i nr s = set_bar i nr (bar\<lparr>mapped := io_bar_place s i bar\<rparr>) (s\<lparr>ports := f\<rparr>)" using u(3) by blast
    have "bar_of (s\<lparr>ports := f\<rparr>) i nr \<noteq> None" using Some by simp
    from bar_of_set_bar [OF this, where b = "bar\<lparr>mapped := io_bar_place s i bar\<rparr>" and j = j and m = m] show ?thesis unfolding f using Some by simp
  qed
next
  case None then show ?thesis by (auto simp: update_io_bar_def)
qed

text \<open>The I/O BARs of a function are mapped exactly where they belong.\<close>

definition bar_placed :: "pci \<Rightarrow> nat \<Rightarrow> nat \<Rightarrow> bool" where
  "bar_placed s i nr \<longleftrightarrow> (\<forall>bar. bar_of s i nr = Some bar \<longrightarrow> assigned bar \<noteq> None \<longrightarrow> mapped bar = io_bar_place s i bar)"

lemma io_bar_place_mapped: "io_bar_place s i (bar\<lparr>mapped := m\<rparr>) = io_bar_place s i bar"
  by (simp add: io_bar_place_def split: option.split)

lemma update_io_bar_placed: "bar_placed (update_io_bar i nr s) i nr"
proof -
  have "io_bar_place (update_io_bar i nr s) i b = io_bar_place s i b" for b
    using update_io_bar_frame [of s i nr] by (simp add: io_frame_def same_config_simps)
  then show ?thesis unfolding bar_placed_def update_io_bar_bars by (auto simp: io_bar_place_mapped)
qed

lemma update_io_bar_keeps: "bar_placed s j m \<Longrightarrow> bar_placed (update_io_bar i nr s) j m"
proof -
  assume p: "bar_placed s j m"
  have "io_bar_place (update_io_bar i nr s) k b = io_bar_place s k b" for k b
    using update_io_bar_frame [of s i nr] by (simp add: io_frame_def same_config_simps)
  then show ?thesis using p unfolding bar_placed_def update_io_bar_bars by (auto simp: io_bar_place_mapped)
qed

lemma pci_emit_frame: "io_frame s (pci_emit e s)"
  by (simp add: io_frame_def same_config_def same_devices_def)

lemma emit_placed [simp]: "bar_placed (pci_emit e s) j m = bar_placed s j m"
proof -
  have "same_config s (pci_emit e s)" by (simp add: same_config_def)
  then have "io_bar_place (pci_emit e s) j b = io_bar_place s j b" for b by (rule same_config_simps)
  then show ?thesis by (simp add: bar_placed_def)
qed

lemma update_if_frame: "io_frame u (if bar_assigned (bar_of u i nr) then update_io_bar i nr u else u)"
  by (simp add: update_io_bar_frame)

lemma upstream_changed_frame: "io_frame s (upstream_changed i s)"
  unfolding upstream_changed_def by (rule io_frame_trans [OF fold_frame pci_emit_frame]) (rule update_if_frame)

lemma fold_bars_placed:
  assumes "\<And>nr. nr \<notin> set nrs \<Longrightarrow> bar_placed s i nr"
  shows "bar_placed (fold (\<lambda>nr u. if bar_assigned (bar_of u i nr) then update_io_bar i nr u else u) nrs s) i m"
  using assms
proof (induction nrs arbitrary: s)
  case (Cons n nrs)
  have "bar_placed (if bar_assigned (bar_of s i n) then update_io_bar i n s else s) i nr" if "nr \<notin> set nrs" for nr
  proof (cases "nr = n")
    case True
    have "bar_placed s i n" if "\<not> bar_assigned (bar_of s i n)" using that by (auto simp: bar_placed_def bar_assigned_def)
    then show ?thesis using True update_io_bar_placed by simp
  next
    case False then show ?thesis using Cons.prems that update_io_bar_keeps by auto
  qed
  then show ?case using Cons.IH by (simp del: fold.simps add: fold_simps)
qed simp

lemma upstream_changed_placed: "bar_placed (upstream_changed i s) i m"
proof -
  have "bar_placed s i nr" if "nr \<notin> set [0..<bar_count s i]" for nr
    using that bar_of_Some [where s = s and i = i and nr = nr] by (auto simp: bar_placed_def bar_count_def split: option.splits)
  then show ?thesis unfolding upstream_changed_def emit_placed by (rule fold_bars_placed)
qed

lemma upstream_changed_keeps: "bar_placed s j m \<Longrightarrow> bar_placed (upstream_changed i s) j m"
proof -
  assume "bar_placed s j m"
  then have "bar_placed (fold (\<lambda>nr u. if bar_assigned (bar_of u i nr) then update_io_bar i nr u else u) nrs s) j m" for nrs
    by (induction nrs arbitrary: s) (auto simp: update_io_bar_keeps)
  then show ?thesis by (simp add: upstream_changed_def)
qed

lemma bridge_changed_frame: "io_frame s (bridge_changed b s)"
  unfolding bridge_changed_def by (rule fold_frame) (simp add: upstream_changed_frame)

text \<open>After a bridge has changed it is enough that the BARs were right where the bridge does not matter.\<close>

lemma bridge_changed_placed:
  assumes "\<And>j m. b \<notin> set (upstream s j) \<Longrightarrow> bar_placed s j m"
  shows "bar_placed (bridge_changed b s) j m"
proof -
  let ?f = "\<lambda>i u. if device_of u i \<noteq> None \<and> b \<in> set (upstream u i) then upstream_changed i u else u"
  have main: "bar_placed (fold ?f is u) j m"
    if "\<And>j. j \<notin> set is \<or> b \<notin> set (upstream u j) \<Longrightarrow> bar_placed u j m" for "is" u m
    using that
  proof (induction "is" arbitrary: u)
    case (Cons i "is")
    have fr: "io_frame u (?f i u)" by (simp add: upstream_changed_frame)
    then have up: "upstream (?f i u) j = upstream u j" for j by (simp add: io_frame_def same_config_simps)
    have "bar_placed (?f i u) j m" if "j \<notin> set is \<or> b \<notin> set (upstream (?f i u) j)" for j
    proof (cases "j = i \<and> b \<in> set (upstream u i)")
      case True
      have "bar_placed u i m" if "device_of u i = None" using that by (simp add: bar_placed_def)
      then show ?thesis using True upstream_changed_placed by simp
    next
      case False
      then have "bar_placed u j m" using Cons.prems that up by auto
      then show ?thesis by (simp add: upstream_changed_keeps)
    qed
    then show ?case using Cons.IH by (simp only: fold_simps)
  qed simp
  show ?thesis unfolding bridge_changed_def
  proof (rule main)
    fix k assume "k \<notin> set [0..<length (devices s)] \<or> b \<notin> set (upstream s k)"
    then show "bar_placed s k m"
    proof
      assume "k \<notin> set [0..<length (devices s)]"
      then have "device_of s k = None" by (simp add: js_get_def)
      then show ?thesis by (simp add: bar_placed_def)
    qed (rule assms)
  qed
qed

section \<open>Where a write shows\<close>

lemma length_config_byte [simp]: "length (config_byte br k b bs) = length bs"
  by (simp add: config_byte_def)

lemma length_config_bytes [simp]: "length (config_bytes br off sz v bs) = length bs"
  unfolding config_bytes_def by (induction sz) simp_all

lemma nth_config_bytes:
  "k < length bs \<Longrightarrow> config_bytes br off sz v bs ! k =
     (if off \<le> k \<and> k < off + sz then if k \<ge> 0x40 then byte_n v (k - off) else header_byte br k (byte_n v (k - off)) (bs ! k) else bs ! k)"
proof (induction sz)
  case (Suc sz)
  have s: "config_bytes br off (Suc sz) v bs = config_byte br (off + sz) (byte_n v sz) (config_bytes br off sz v bs)"
    by (simp add: config_bytes_def)
  show ?case
  proof (cases "k = off + sz")
    case True then show ?thesis using Suc by (simp add: s config_byte_def)
  next
    case False then show ?thesis using Suc by (auto simp: s config_byte_def)
  qed
qed (auto simp: config_bytes_def)

text \<open>The part of a bridge's space that decides which I/O accesses it forwards.\<close>

definition io_key :: "pci \<Rightarrow> nat \<Rightarrow> bool \<times> u8 \<times> u8 \<times> u8" where
  "io_key s b = (has_bits (get_command s b) PCI_COMMAND_IO, space_bytes s b ! 0x1C, space_bytes s b ! 0x1D, space_bytes s b ! 0x3E)"

lemma forwards_io_key: "upstream_forwards_io s i p z \<longleftrightarrow> \<not> js_get False (absent s) i \<and>
    list_all (\<lambda>b. case io_key s b of (e, lo, hi, c) \<Rightarrow> e \<and>
      bridge_forwards_io (replicate 0x1C 0 @ [lo, hi] @ replicate 0x20 0 @ [c]) p (p + z - 1)) (upstream s i)"
proof -
  have "bridge_forwards_io (space_bytes s b) p q = bridge_forwards_io (replicate 0x1C 0 @ [space_bytes s b ! 0x1C, space_bytes s b ! 0x1D] @ replicate 0x20 0 @ [space_bytes s b ! 0x3E]) p q" for b q
    by (simp add: bridge_forwards_io_def nth_append)
  then show ?thesis by (simp add: upstream_forwards_io_def io_key_def)
qed

lemma bar_placed_transfer:
  assumes "bridge_for_bus u = bridge_for_bus s" "js_get False (absent u) j = js_get False (absent s) j" "bar_of u j m = bar_of s j m"
    "\<And>b. b \<in> set (upstream s j) \<Longrightarrow> io_key u b = io_key s b"
  shows "bar_placed u j m = bar_placed s j m"
proof -
  have up: "upstream u j = upstream s j" by (rule upstream_cong [OF assms(1)])
  have "upstream_forwards_io u j p z = upstream_forwards_io s j p z" for p z
    unfolding forwards_io_key up assms(2) using assms(4) by (auto simp: list_all_iff)
  then have "io_bar_place u j b = io_bar_place s j b" for b by (simp add: io_bar_place_def split: option.split)
  then show ?thesis by (simp add: bar_placed_def assms(3))
qed

lemma set_space_simps [simp]:
  "space_of (set_space i bs s) j = (if j = i then Some bs else space_of s j)" "devices (set_space i bs s) = devices s"
  "bridge_for_bus (set_space i bs s) = bridge_for_bus s" "bridges_on (set_space i bs s) = bridges_on s" "absent (set_space i bs s) = absent s"
  "asserted_irq_lines (set_space i bs s) = asserted_irq_lines s" "asserted_gsis (set_space i bs s) = asserted_gsis s"
  "intx_levels (set_space i bs s) = intx_levels s" "pci_log (set_space i bs s) = pci_log s" "ports (set_space i bs s) = ports s"
  "templates (set_space i bs s) = templates s"
  by (simp_all add: set_space_def)

lemma io_key_other: "b \<noteq> i \<Longrightarrow> io_key (set_space i bs s) b = io_key s b"
  by (simp add: io_key_def get_command_def space_bytes_def)

lemma set_space_placed:
  assumes "i \<notin> set (upstream s j) \<or> io_key (set_space i bs s) i = io_key s i"
  shows "bar_placed (set_space i bs s) j m = bar_placed s j m"
proof (rule bar_placed_transfer)
  fix b assume "b \<in> set (upstream s j)"
  then show "io_key (set_space i bs s) b = io_key s b" using assms io_key_other by (cases "b = i") auto
qed simp_all

lemma set_bar_placed:
  assumes "bar_of s i nr = Some x" "mapped b = mapped x" "assigned b = assigned x" "bar_size b = bar_size x"
  shows "bar_placed (set_bar i nr b s) j m = bar_placed s j m"
proof -
  have "same_config s (set_bar i nr b s)" by (simp add: same_config_def)
  then have p: "io_bar_place (set_bar i nr b s) k y = io_bar_place s k y" for k y by (rule same_config_simps)
  have "io_bar_place s k b = io_bar_place s k x" for k using assms by (simp add: io_bar_place_def split: option.split)
  then show ?thesis unfolding bar_placed_def p using assms bar_of_set_bar [where s = s and i = i and nr = nr and b = b and j = j and m = m] by auto
qed

lemma set_bar_placed_other:
  assumes "bar_of s i nr \<noteq> None" "(j, m) \<noteq> (i, nr)" shows "bar_placed (set_bar i nr b s) j m = bar_placed s j m"
proof -
  have "same_config s (set_bar i nr b s)" by (simp add: same_config_def)
  then have p: "io_bar_place (set_bar i nr b s) k y = io_bar_place s k y" for k y by (rule same_config_simps)
  then show ?thesis unfolding bar_placed_def p using assms bar_of_set_bar [OF assms(1), where b = b and j = j and m = m] by auto
qed

text \<open>The bridges are functions of type 1, each on a bus of a lower number than the one behind it.\<close>

definition bridges_ok :: "pci \<Rightarrow> bool" where
  "bridges_ok s \<longleftrightarrow> (\<forall>bus b. js_get None (bridge_for_bus s) bus = Some b \<longrightarrow> is_bridge s b \<and> b div 256 < bus)"

lemma upstream_bridge: "bridges_ok s \<Longrightarrow> b \<in> set (upstream s i) \<Longrightarrow> is_bridge s b"
proof -
  have "bridges_ok s \<Longrightarrow> b \<in> set (bridge_chain n s i) \<Longrightarrow> is_bridge s b" for n
    by (induction n arbitrary: i) (auto simp: bridges_ok_def parent_bridge_def split: option.splits if_splits)
  then show "bridges_ok s \<Longrightarrow> b \<in> set (upstream s i) \<Longrightarrow> is_bridge s b" by (simp add: upstream_def)
qed

text \<open>The bound on \<open>bridge_chain\<close> cuts nothing off: the list satisfies the equation of the unbounded loop.\<close>

lemma bridge_chain_enough: "bridges_ok s \<Longrightarrow> i div 256 \<le> n \<Longrightarrow> n \<le> m \<Longrightarrow> bridge_chain m s i = bridge_chain n s i"
proof (induction n arbitrary: m i)
  case 0
  then have "i < 256" by (simp add: div_eq_0_iff)
  then have "parent_bridge s i = None" by (simp add: parent_bridge_def)
  then show ?case by (cases m) simp_all
next
  case (Suc n)
  then obtain k where m: "m = Suc k" "n \<le> k" by (cases m) auto
  have "b div 256 \<le> n" if "parent_bridge s i = Some b" for b
    using that Suc.prems(1,2) by (fastforce simp: parent_bridge_def bridges_ok_def split: if_splits)
  then show ?case using Suc.IH [OF Suc.prems(1) _ m(2)] m(1) by (simp split: option.split)
qed

lemma upstream_unbounded:
  assumes "bridges_ok s" "i < 0x10000"
  shows "upstream s i = (case parent_bridge s i of None \<Rightarrow> [] | Some b \<Rightarrow> b # upstream s b)"
proof -
  have "upstream s i = bridge_chain (Suc 256) s i" unfolding upstream_def using assms by (intro bridge_chain_enough [symmetric]) auto
  then show ?thesis unfolding bridge_chain.simps(2) upstream_def [symmetric] .
qed

lemma store_dword_placed:
  assumes "bridges_ok s" "\<forall>j m. bar_placed s j m" "is_bridge s i \<Longrightarrow> k \<in> {4, 5}" "length (space_bytes s i) \<ge> 64" "space_of s i \<noteq> None"
  shows "bar_placed (store_dword i k v s) j m"
proof -
  have "io_key (store_dword i k v s) i = io_key s i" if "k \<in> {4, 5}"
  proof -
    have "get_dword (set_dword (space_bytes s i) k v) 1 = get_dword (space_bytes s i) 1"
      using that assms(4) by (intro get_set_dword_other) auto
    then show ?thesis
      using that assms(4,5) by (auto simp: io_key_def get_command_def store_dword_def space_bytes_def nth_set_dword split: option.splits)
  qed
  then have "i \<notin> set (upstream s j) \<or> io_key (store_dword i k v s) i = io_key s i"
    using upstream_bridge [OF assms(1)] assms(3) by blast
  then show ?thesis using assms(2) set_space_placed [of i s j] unfolding store_dword_def by simp
qed

section \<open>Well-formed machines\<close>

text \<open>The machine as it is built: what registration establishes and no access changes.\<close>

definition spaces_ok :: "pci \<Rightarrow> bool" where
  "spaces_ok s \<longleftrightarrow> (\<forall>i. device_of s i \<noteq> None \<longleftrightarrow> space_of s i \<noteq> None) \<and> (\<forall>i bs. space_of s i = Some bs \<longrightarrow> length bs \<ge> 256) \<and>
     (\<forall>i d. device_of s i = Some d \<longrightarrow> length (pci_bars d) \<le> 6) \<and>
     (\<forall>i. js_get False (absent s) i \<longrightarrow> i \<ge> 256) \<and> (\<forall>i t. js_get None (templates s) i = Some t \<longrightarrow> length t \<ge> 256)"

definition pci_wf :: "pci \<Rightarrow> bool" where
  "pci_wf s \<longleftrightarrow> bridges_ok s \<and> spaces_ok s \<and> (\<forall>j m. bar_placed s j m)"

text \<open>The devices of two machines agree but for their BARs.\<close>

definition same_shape :: "pci \<Rightarrow> pci \<Rightarrow> bool" where
  "same_shape s u \<longleftrightarrow> bridge_for_bus u = bridge_for_bus s \<and> bridges_on u = bridges_on s \<and> templates u = templates s \<and>
     (\<forall>i. map_option (\<lambda>d. (pci_secondary_bus d, length (pci_bars d), pci_express_downstream d)) (device_of u i) =
          map_option (\<lambda>d. (pci_secondary_bus d, length (pci_bars d), pci_express_downstream d)) (device_of s i))"

lemma same_shape_refl [simp]: "same_shape s s" by (simp add: same_shape_def)

lemma same_shape_trans [trans]: "same_shape s u \<Longrightarrow> same_shape u v \<Longrightarrow> same_shape s v" by (simp add: same_shape_def)

lemma same_shape_device:
  assumes "same_shape s u" shows "device_of u i = None \<longleftrightarrow> device_of s i = None"
    "device_of u i = Some a \<Longrightarrow> \<exists>b. device_of s i = Some b \<and> pci_secondary_bus a = pci_secondary_bus b \<and> length (pci_bars a) = length (pci_bars b) \<and>
       pci_express_downstream a = pci_express_downstream b"
proof -
  have e: "map_option (\<lambda>d. (pci_secondary_bus d, length (pci_bars d), pci_express_downstream d)) (device_of u i) =
      map_option (\<lambda>d. (pci_secondary_bus d, length (pci_bars d), pci_express_downstream d)) (device_of s i)"
    using assms by (simp add: same_shape_def)
  then show "device_of u i = None \<longleftrightarrow> device_of s i = None" by (cases "device_of u i"; cases "device_of s i") auto
  show "device_of u i = Some a \<Longrightarrow> \<exists>b. device_of s i = Some b \<and> pci_secondary_bus a = pci_secondary_bus b \<and> length (pci_bars a) = length (pci_bars b) \<and>
       pci_express_downstream a = pci_express_downstream b"
    using e by (cases "device_of s i") auto
qed

lemma same_shape_bridge: "same_shape s u \<Longrightarrow> is_bridge u i = is_bridge s i"
proof (cases "device_of u i")
  case None
  assume "same_shape s u" then have "device_of s i = None" using None same_shape_device(1) by blast
  then show ?thesis using None by (simp add: is_bridge_def)
next
  case (Some a)
  assume "same_shape s u"
  from same_shape_device(2) [OF this Some] obtain b where "device_of s i = Some b" "pci_secondary_bus a = pci_secondary_bus b" by blast
  then show ?thesis using Some by (simp add: is_bridge_def)
qed

lemma same_shape_bridges_ok: "same_shape s u \<Longrightarrow> bridges_ok s \<Longrightarrow> bridges_ok u"
  by (simp add: bridges_ok_def same_shape_bridge) (simp add: same_shape_def)

lemma same_devices_shape: "io_frame s u \<Longrightarrow> same_shape s u"
proof -
  assume f: "io_frame s u"
  have "map_option (\<lambda>d. (pci_secondary_bus d, length (pci_bars d), pci_express_downstream d)) (device_of u i) =
      map_option (\<lambda>d. (pci_secondary_bus d, length (pci_bars d), pci_express_downstream d)) (device_of s i)" for i
  proof -
    have "map_option unmapped (device_of u i) = map_option unmapped (device_of s i)" using f by (simp add: io_frame_def same_devices_def)
    then have "map_option ((\<lambda>d. (pci_secondary_bus d, length (pci_bars d), pci_express_downstream d)) \<circ> unmapped) (device_of u i) =
        map_option ((\<lambda>d. (pci_secondary_bus d, length (pci_bars d), pci_express_downstream d)) \<circ> unmapped) (device_of s i)"
      by (simp only: option.map_comp [symmetric])
    then show ?thesis by (simp add: comp_def)
  qed
  then show ?thesis using f by (simp add: same_shape_def io_frame_def same_config_def)
qed

lemma spaces_ok_shape:
  assumes "same_shape s u" "spaces_ok s" "\<And>i. length (space_bytes u i) = length (space_bytes s i)" "\<And>i. space_of u i = None \<longleftrightarrow> space_of s i = None"
    "\<And>i. js_get False (absent u) i \<Longrightarrow> i \<ge> 256"
  shows "spaces_ok u"
proof -
  have "length bs \<ge> 256" if "space_of u i = Some bs" for i bs
    using assms(2) assms(3,4) [of i] that by (auto simp: spaces_ok_def space_bytes_def split: option.splits)
  moreover have "length (pci_bars d) \<le> 6" if "device_of u i = Some d" for i d
    using same_shape_device(2) [OF assms(1) that] assms(2) by (auto simp: spaces_ok_def)
  ultimately show ?thesis
    using assms same_shape_device(1) [OF assms(1)] by (auto simp: spaces_ok_def same_shape_def)
qed

lemma set_bar_shape: "same_shape s (set_bar i nr b s)"
  by (auto simp: same_shape_def set_bar_def split: option.splits)

lemma drive_intx_simps [simp]:
  "device_spaces (drive_intx route i v s) = device_spaces s" "devices (drive_intx route i v s) = devices s"
  "bridge_for_bus (drive_intx route i v s) = bridge_for_bus s" "bridges_on (drive_intx route i v s) = bridges_on s"
  "absent (drive_intx route i v s) = absent s" "intx_levels (drive_intx route i v s) = intx_levels s"
  "templates (drive_intx route i v s) = templates s" "ports (drive_intx route i v s) = ports s"
  by (simp_all add: drive_intx_def raise_line_def Let_def split: prod.split option.split)

lemma placed_cong:
  assumes "device_spaces u = device_spaces s" "devices u = devices s" "bridge_for_bus u = bridge_for_bus s" "absent u = absent s"
  shows "bar_placed u j m = bar_placed s j m"
  by (rule bar_placed_transfer) (use assms in \<open>simp_all add: io_key_def get_command_def space_bytes_def\<close>)

section \<open>Every operation keeps the machine well-formed\<close>

text \<open>The same functions with spaces of the same lengths.\<close>

definition pci_shape :: "pci \<Rightarrow> pci \<Rightarrow> bool" where
  "pci_shape s u \<longleftrightarrow> same_shape s u \<and> (\<forall>i. map_option length (space_of u i) = map_option length (space_of s i)) \<and> absent u = absent s"

lemma pci_shape_refl [simp]: "pci_shape s s" by (simp add: pci_shape_def)

lemma pci_shape_trans [trans]: "pci_shape s u \<Longrightarrow> pci_shape u v \<Longrightarrow> pci_shape s v"
  unfolding pci_shape_def using same_shape_trans by auto

lemma pci_shape_simps:
  assumes "pci_shape s u"
  shows "bridges_ok s \<Longrightarrow> bridges_ok u" "spaces_ok s \<Longrightarrow> spaces_ok u" "is_bridge u i = is_bridge s i" "upstream u i = upstream s i"
    "space_of u i = None \<longleftrightarrow> space_of s i = None" "length (space_bytes u i) = length (space_bytes s i)"
proof -
  have sh: "same_shape s u" using assms by (simp add: pci_shape_def)
  have l: "map_option length (space_of u j) = map_option length (space_of s j)" for j using assms by (simp add: pci_shape_def)
  have n: "space_of u j = None \<longleftrightarrow> space_of s j = None" "length (space_bytes u j) = length (space_bytes s j)" for j
    using l [of j] by (cases "space_of u j"; cases "space_of s j"; simp add: space_bytes_def)+
  then show "space_of u i = None \<longleftrightarrow> space_of s i = None" "length (space_bytes u i) = length (space_bytes s i)" by simp_all
  show "bridges_ok s \<Longrightarrow> bridges_ok u" by (rule same_shape_bridges_ok [OF sh])
  show "is_bridge u i = is_bridge s i" by (rule same_shape_bridge [OF sh])
  show "upstream u i = upstream s i" using sh by (intro upstream_cong) (simp add: same_shape_def)
  show "spaces_ok u" if "spaces_ok s"
    using that by (intro spaces_ok_shape [OF sh that]) (use n assms in \<open>auto simp: pci_shape_def spaces_ok_def\<close>)
qed

lemma io_frame_shape: "io_frame s u \<Longrightarrow> pci_shape s u"
  using same_devices_shape by (auto simp: pci_shape_def io_frame_def same_config_def)

lemma emit_shape: "pci_shape s (pci_emit e s)"
  by (rule io_frame_shape [OF pci_emit_frame])

lemma store_dword_shape: "space_of s i \<noteq> None \<Longrightarrow> pci_shape s (store_dword i k v s)"
  by (auto simp: pci_shape_def same_shape_def store_dword_def space_bytes_def)

lemma set_space_shape: "space_of s i = Some bs \<Longrightarrow> length bs' = length bs \<Longrightarrow> pci_shape s (set_space i bs' s)"
  by (auto simp: pci_shape_def same_shape_def)

lemma set_bar_pci_shape: "pci_shape s (set_bar i nr b s)"
  using set_bar_shape by (simp add: pci_shape_def)

lemma wf_shape: "pci_wf s \<Longrightarrow> pci_shape s u \<Longrightarrow> (\<And>j m. bar_placed u j m) \<Longrightarrow> pci_wf u"
  using pci_shape_simps(1,2) by (simp add: pci_wf_def)

lemma ports_placed [simp]: "bar_placed (s\<lparr>ports := f\<rparr>) j m = bar_placed s j m"
  by (rule placed_cong) simp_all

lemma ports_shape [simp]: "pci_shape s (s\<lparr>ports := f\<rparr>)"
  by (simp add: pci_shape_def same_shape_def)

lemma move_bar:
  assumes "bar_of s i nr = Some bar"
  shows "pci_shape s (move_memory_bar i nr bar base s)" "bar_placed (move_memory_bar i nr bar base s) j m = bar_placed s j m"
    "pci_shape s (move_io_bar i nr bar base s)" "bar_placed (move_io_bar i nr bar base s) j m = bar_placed s j m"
proof -
  have "pci_shape s (pci_emit e (set_bar i nr b s))" for e b by (rule pci_shape_trans [OF set_bar_pci_shape emit_shape])
  then show "pci_shape s (move_memory_bar i nr bar base s)" "pci_shape s (move_io_bar i nr bar base s)"
    by (simp_all add: move_memory_bar_def move_io_bar_def)
  show "bar_placed (move_memory_bar i nr bar base s) j m = bar_placed s j m" "bar_placed (move_io_bar i nr bar base s) j m = bar_placed s j m"
    by (simp_all add: move_memory_bar_def move_io_bar_def set_bar_placed [OF assms])
qed

lemma move_bar_wf:
  assumes "pci_wf s" "bar_of s i nr = Some bar"
  shows "pci_wf (move_memory_bar i nr bar base s)" "pci_wf (move_io_bar i nr bar base s)"
  using wf_shape [OF assms(1) move_bar(1) [OF assms(2), of base]] wf_shape [OF assms(1) move_bar(3) [OF assms(2), of base]]
    assms(1) move_bar(2,4) [OF assms(2), of base] by (auto simp: pci_wf_def)

lemma bar_of_store_dword [simp]: "bar_of (store_dword i k v s) j m = bar_of s j m"
  by (simp add: store_dword_def)

lemma wf_store_dword:
  assumes "pci_wf s" "space_of s i \<noteq> None" "is_bridge s i \<Longrightarrow> k \<in> {4, 5}"
  shows "pci_wf (store_dword i k v s)"
proof (rule wf_shape [OF assms(1) store_dword_shape [OF assms(2)]])
  have "length (space_bytes s i) \<ge> 64"
    using assms(1,2) by (fastforce simp: pci_wf_def spaces_ok_def space_bytes_def split: option.splits)
  then show "bar_placed (store_dword i k v s) j m" for j m
    using assms by (intro store_dword_placed) (auto simp: pci_wf_def)
qed

lemma write_bar_wf:
  assumes "pci_wf s" "space_of s i \<noteq> None" "is_bar_offset (is_bridge s i) offset" "offset \<noteq> 0x30" "offset mod 4 = 0"
  shows "pci_wf (write_bar i offset value s)" "pci_shape s (write_bar i offset value s)"
proof -
  let ?k = "offset div 4" and ?nr = "(offset - 0x10) div 4"
  have k: "is_bridge s i \<Longrightarrow> ?k \<in> {4, 5}" using assms(3) by (auto simp: is_bar_offset_def)
  have st: "pci_wf (store_dword i ?k v s)" "pci_shape s (store_dword i ?k v s)" for v
    using wf_store_dword [OF assms(1,2) k] store_dword_shape [OF assms(2)] by auto
  have "pci_wf (write_bar i offset value s) \<and> pci_shape s (write_bar i offset value s)"
  proof (cases "bar_of s i ?nr")
    case None then show ?thesis using st by (simp add: write_bar_def Let_def)
  next
    case (Some bar)
    have b: "bar_of (store_dword i ?k v s) i ?nr = Some bar" for v using Some by simp
    have mv: "pci_wf (move_memory_bar i ?nr bar x (store_dword i ?k v s)) \<and> pci_shape s (move_memory_bar i ?nr bar x (store_dword i ?k v s))"
      "pci_wf (move_io_bar i ?nr bar x (store_dword i ?k v s)) \<and> pci_shape s (move_io_bar i ?nr bar x (store_dword i ?k v s))" for v x
      using move_bar_wf [OF st(1) b] pci_shape_trans [OF st(2) move_bar(1) [OF b]] pci_shape_trans [OF st(2) move_bar(3) [OF b]] by simp_all
    let ?a = "\<lambda>w. set_bar i ?nr (bar\<lparr>assigned := Some w\<rparr>) s"
    have up: "pci_wf (update_io_bar i ?nr (store_dword i ?k v (?a w))) \<and> pci_shape s (update_io_bar i ?nr (store_dword i ?k v (?a w)))" for v w
    proof -
      have sh: "pci_shape s (store_dword i ?k v (?a w))"
        by (rule pci_shape_trans [OF set_bar_pci_shape store_dword_shape]) (simp add: assms(2))
      have c: "store_dword i ?k v (?a w) = set_bar i ?nr (bar\<lparr>assigned := Some w\<rparr>) (store_dword i ?k v s)"
        by (simp add: store_dword_def set_space_def set_bar_def space_bytes_def split: option.split)
      have "bar_placed (update_io_bar i ?nr (store_dword i ?k v (?a w))) j m" for j m
      proof (cases "(j, m) = (i, ?nr)")
        case True then show ?thesis using update_io_bar_placed by simp
      next
        case False
        have "bar_placed (store_dword i ?k v (?a w)) j m"
          unfolding c using st(1) by (subst set_bar_placed_other [OF _ False]) (auto simp: Some pci_wf_def)
        then show ?thesis by (rule update_io_bar_keeps)
      qed
      moreover have "pci_shape s (update_io_bar i ?nr (store_dword i ?k v (?a w)))"
        by (rule pci_shape_trans [OF sh io_frame_shape [OF update_io_bar_frame]])
      ultimately show ?thesis using wf_shape [OF assms(1)] by blast
    qed
    have io: "pci_wf (store_dword i ?k v (set_io_bars bar f g s)) \<and> pci_shape s (store_dword i ?k v (set_io_bars bar f g s))" for v f g
    proof -
      have sp: "store_dword i ?k v (s\<lparr>ports := h\<rparr>) = (store_dword i ?k v s)\<lparr>ports := h\<rparr>" for h
        by (simp add: store_dword_def set_space_def space_bytes_def)
      have "pci_shape s ((store_dword i ?k v s)\<lparr>ports := h\<rparr>)" for h by (rule pci_shape_trans [OF st(2) ports_shape])
      then show ?thesis unfolding set_io_bars_def sp
        using wf_shape [OF st(1) ports_shape] st(1) by (auto simp: pci_wf_def)
    qed
    show ?thesis using st mv up io by (simp add: write_bar_def Some Let_def)
  qed
  then show "pci_wf (write_bar i offset value s)" "pci_shape s (write_bar i offset value s)" by simp_all
qed

lemma drive_intx_wf:
  "pci_shape s (drive_intx route i v s)" "bar_placed (drive_intx route i v s) j m = bar_placed s j m"
  by (simp add: pci_shape_def same_shape_def, rule placed_cong, simp_all)

lemma bridge_changed_wf:
  assumes "bridges_ok s" "spaces_ok s" "\<And>j m. b \<notin> set (upstream s j) \<Longrightarrow> bar_placed s j m"
  shows "pci_wf (bridge_changed b s)" "pci_shape s (bridge_changed b s)"
proof -
  show sh: "pci_shape s (bridge_changed b s)" by (rule io_frame_shape [OF bridge_changed_frame])
  show "pci_wf (bridge_changed b s)"
    using pci_shape_simps(1,2) [OF sh] assms(1,2) bridge_changed_placed [OF assms(3)] by (simp add: pci_wf_def)
qed

lemma pci_has_bit_0: "(x :: i32) AND 1 = 0 \<longleftrightarrow> \<not> bit x 0"
  by (simp add: and_one_eq bit_0 even_iff_mod_2_eq_zero [symmetric])

text \<open>The effect of a changed command register, when only functions behind the bridge may be out of place.\<close>

lemma command_changed_wf:
  assumes "bridges_ok s" "spaces_ok s" "\<And>j m. i \<notin> set (upstream s j) \<Longrightarrow> bar_placed s j m"
    and "\<not> has_bits (old XOR cmd) 0x7 \<Longrightarrow> is_bridge s i \<Longrightarrow> \<forall>j m. bar_placed s j m"
  shows "pci_wf (command_changed route i old cmd s)" "pci_shape s (command_changed route i old cmd s)"
proof -
  define s1 where "s1 = (if has_bits (old XOR cmd) PCI_COMMAND_INTX_DISABLE
     then drive_intx route i (js_get False (intx_levels s) i \<and> \<not> has_bits cmd PCI_COMMAND_INTX_DISABLE) s else s)"
  define s2 where "s2 = pci_emit (On_Command_Change i old cmd) s1"
  have sh: "pci_shape s s2"
    unfolding s2_def s1_def by (rule pci_shape_trans [OF _ emit_shape]) (simp add: drive_intx_wf(1))
  have pl: "bar_placed s2 j m = bar_placed s j m" for j m by (simp add: s2_def s1_def drive_intx_wf(2))
  note x = pci_shape_simps [OF sh]
  have c: "command_changed route i old cmd s = (if is_bridge s i \<and> has_bits (old XOR cmd) 0x7 then bridge_changed i s2 else s2)"
    using x(3) by (simp add: command_changed_def s1_def [symmetric] s2_def [symmetric] Let_def)
  have br: "pci_wf (bridge_changed i s2)" "pci_shape s (bridge_changed i s2)"
    using bridge_changed_wf [of s2 i] x(1,2,4) assms(1-3) pl pci_shape_trans [OF sh] by auto
  have "pci_wf s2" if "\<not> (is_bridge s i \<and> has_bits (old XOR cmd) 0x7)"
  proof -
    have "bar_placed s j m" for j m
      using that assms(3) [of j m] assms(4) upstream_bridge [OF assms(1), of i j] by (cases "is_bridge s i") auto
    then show ?thesis using x(1,2) assms(1,2) pl by (simp add: pci_wf_def)
  qed
  then show "pci_wf (command_changed route i old cmd s)" "pci_shape s (command_changed route i old cmd s)"
    using br sh c by simp_all
qed

lemma command_bytes: "bs ! 4 = cs ! 4 \<Longrightarrow> bs ! 5 = cs ! 5 \<Longrightarrow> get_dword bs 1 AND 0xFFFF = get_dword cs 1 AND 0xFFFF"
proof (rule bit_word_eqI)
  fix n assume b: "bs ! 4 = cs ! 4" "bs ! 5 = cs ! 5"
  have "bs ! (4 + n div 8) = cs ! (4 + n div 8)" if "n < 16"
  proof -
    have "n div 8 = 0 \<or> n div 8 = 1" using that by auto
    then show ?thesis using b by auto
  qed
  then show "bit (get_dword bs 1 AND 0xFFFF) n = bit (get_dword cs 1 AND 0xFFFF) n"
    by (auto simp: bit_and_iff bit_get_dword mask_eqs(3) bit_mask_iff)
qed

lemma write_bytes_wf:
  assumes "pci_wf s" "sz \<le> 4" "space_of s i = Some bs" "offset + sz \<le> length bs"
  shows "pci_wf (write_config_bytes route i offset sz value bs s)" "pci_shape s (write_config_bytes route i offset sz value bs s)"
proof -
  have len: "256 \<le> length bs" using assms(1,3) by (auto simp: pci_wf_def spaces_ok_def)
  have ok: "bridges_ok s" "spaces_ok s" using assms(1) by (simp_all add: pci_wf_def)
  define br where "br = is_bridge s i"
  define cs where "cs = config_bytes br offset sz value bs"
  define s1 where "s1 = set_space i cs s"
  define old where "old = get_dword bs 1 AND 0xFFFF"
  define cmd where "cmd = get_command s1 i"
  have sh1: "pci_shape s s1" unfolding s1_def by (rule set_space_shape [OF assms(3)]) (simp add: cs_def)
  note x = pci_shape_simps [OF sh1]
  have nth: "k < 256 \<Longrightarrow> \<not> (offset \<le> k \<and> k < offset + sz) \<Longrightarrow> cs ! k = bs ! k" for k
    using len by (auto simp: cs_def nth_config_bytes)
  have key: "io_key s1 i = io_key s i" if "has_bits cmd 1 = has_bits old 1" "\<And>k. k \<in> {0x1C, 0x1D, 0x3E} \<Longrightarrow> \<not> (offset \<le> k \<and> k < offset + sz)"
    using that nth assms(3) by (simp add: io_key_def s1_def get_command_def space_bytes_def cmd_def old_def)
  have away: "i \<notin> set (upstream s j) \<Longrightarrow> bar_placed s1 j m" for j m
    unfolding s1_def using assms(1) set_space_placed [of i s j cs m] by (simp add: pci_wf_def)
  have near: "bar_placed s1 j m" if "io_key s1 i = io_key s i" for j m
    using that assms(1) set_space_placed [of i s j cs m] by (simp add: pci_wf_def s1_def)
  have changed: "offset \<le> 5 \<and> 4 < offset + sz" if "cmd \<noteq> old"
  proof (rule ccontr)
    assume "\<not> (offset \<le> 5 \<and> 4 < offset + sz)"
    then have "cs ! 4 = bs ! 4" "cs ! 5 = bs ! 5" using nth by auto
    then have "get_dword cs 1 AND 0xFFFF = old" unfolding old_def by (intro command_bytes) simp_all
    then show False using that by (simp add: cmd_def s1_def get_command_def)
  qed
  have cc: "pci_wf (command_changed route i old cmd s1) \<and> pci_shape s (command_changed route i old cmd s1)" if "cmd \<noteq> old"
  proof -
    have k: "\<forall>j m. bar_placed s1 j m" if "\<not> has_bits (old XOR cmd) 0x7"
    proof -
      have "\<not> bit ((old XOR cmd) AND 0x7) 0" using that by simp
      then have "\<not> bit (old XOR cmd) 0" by (simp add: bit_and_iff)
      then have "has_bits cmd 1 = has_bits old 1" by (simp add: pci_has_bit_0 bit_xor_iff)
      moreover have "\<not> (offset \<le> k \<and> k < offset + sz)" if "k \<in> {0x1C, 0x1D, 0x3E}" for k
        using that changed [OF \<open>cmd \<noteq> old\<close>] assms(2) by auto
      ultimately show ?thesis using near key by blast
    qed
    show ?thesis
      using command_changed_wf [of s1 i old cmd route] x(1,2,4) ok away k pci_shape_trans [OF sh1] by auto
  qed
  have bc: "pci_wf (bridge_changed i s1) \<and> pci_shape s (bridge_changed i s1)"
    using bridge_changed_wf [of s1 i] x(1,2,4) ok away pci_shape_trans [OF sh1] by auto
  have same: "pci_wf s1" if "cmd = old" and w: "\<not> list_ex (\<lambda>k. k < 0x40 \<and> br \<and> window_byte k) [offset..<offset + sz]"
  proof (cases br)
    case True
    have "\<not> (offset \<le> k \<and> k < offset + sz)" if "k \<in> {0x1C, 0x1D, 0x3E}" for k
    proof
      assume "offset \<le> k \<and> k < offset + sz"
      then have "k \<in> set [offset..<offset + sz]" by simp
      then have "\<not> (k < 0x40 \<and> br \<and> window_byte k)" using w unfolding list_ex_iff by blast
      then show False using that True by (auto simp: window_byte_def)
    qed
    then have "io_key s1 i = io_key s i" using key that(1) by blast
    then show ?thesis using near wf_shape [OF assms(1) sh1] by blast
  next
    case False
    then show ?thesis using away upstream_bridge [OF ok(1)] wf_shape [OF assms(1) sh1] unfolding br_def by blast
  qed
  have e: "write_config_bytes route i offset sz value bs s = (if cmd \<noteq> old then command_changed route i old cmd s1
      else if list_ex (\<lambda>k. k < 0x40 \<and> br \<and> window_byte k) [offset..<offset + sz] then bridge_changed i s1 else s1)"
    by (simp add: write_config_bytes_def br_def cs_def s1_def old_def cmd_def Let_def)
  show "pci_wf (write_config_bytes route i offset sz value bs s)" "pci_shape s (write_config_bytes route i offset sz value bs s)"
    unfolding e using cc bc same sh1 by auto
qed

lemma write_expansion_rom_wf:
  assumes "pci_wf s" "space_of s i \<noteq> None" "\<not> is_bridge s i"
  shows "pci_wf (write_expansion_rom i v s)" "pci_shape s (write_expansion_rom i v s)"
proof -
  have "pci_wf (store_dword i 12 x s)" "pci_shape s (store_dword i 12 x s)" for x
    using wf_store_dword [OF assms(1,2), of 12] store_dword_shape [OF assms(2)] assms(3) by auto
  then show "pci_wf (write_expansion_rom i v s)" "pci_shape s (write_expansion_rom i v s)"
    using assms(1) by (simp_all add: write_expansion_rom_def split: option.split)
qed

lemma emit_wf [simp]: "pci_wf (pci_emit e s) = pci_wf s"
proof -
  have "is_bridge (pci_emit e s) i = is_bridge s i" for i by (simp add: is_bridge_def)
  then show ?thesis by (simp add: pci_wf_def bridges_ok_def spaces_ok_def)
qed

lemma function_write_wf:
  assumes "pci_wf s" "sz \<le> 4"
  shows "pci_wf (function_write route t offset sz value s) \<and> pci_shape s (function_write route t offset sz value s)"
proof (cases "\<exists>i bs. t = Some i \<and> space_of s i = Some bs \<and> offset + sz \<le> length bs")
  case True
  then obtain i bs where t: "t = Some i" and sp: "space_of s i = Some bs" and l: "offset + sz \<le> length bs" by blast
  have wb: "pci_wf (write_config_bytes route i offset sz value bs s)" "pci_shape s (write_config_bytes route i offset sz value bs s)"
    by (rule write_bytes_wf [OF assms sp l])+
  have em: "pci_shape s (pci_emit e (write_config_bytes route i offset sz value bs s))" for e by (rule pci_shape_trans [OF wb(2) emit_shape])
  show ?thesis
  proof (cases "is_bar_offset (is_bridge s i) offset")
    case True
    have "offset = 0x30 \<Longrightarrow> \<not> is_bridge s i" using True by (auto simp: is_bar_offset_def)
    then show ?thesis
      using True assms(1) sp l t write_bar_wf [OF assms(1) _ True] write_expansion_rom_wf [OF assms(1)] by (auto simp: function_write_def)
  next
    case False
    then show ?thesis using sp l t wb em by (simp add: function_write_def Let_def)
  qed
next
  case False
  then have "function_write route t offset sz value s = s" by (auto simp: function_write_def split: option.split)
  then show ?thesis using assms(1) by simp
qed


lemma length_interrupt_status [simp]: "length (interrupt_status level bs) = length bs"
  by (simp add: interrupt_status_def)

lemma interrupt_status_command:
  assumes "length bs \<ge> 8" shows "get_dword (interrupt_status level bs) 1 AND 0xFFFF = get_dword bs 1 AND 0xFFFF"
proof -
  have "v AND 0xFFFF = get_dword bs 1 AND 0xFFFF"
    if "v = get_dword bs 1 OR push_bit 16 x \<or> v = get_dword bs 1 AND NOT (push_bit 16 x)" for v x
  proof (rule bit_word_eqI)
    fix n
    have "bit (push_bit 16 x) n \<Longrightarrow> 16 \<le> n" by (simp add: bit_push_bit_iff)
    moreover have "bit (0xFFFF :: i32) n \<Longrightarrow> n < 16" by (rule ccontr) (simp add: mask_bits)
    ultimately show "bit (v AND 0xFFFF) n = bit (get_dword bs 1 AND 0xFFFF) n" using that by (auto simp: bit_simps)
  qed
  from this [where x = PCI_STATUS_INTERRUPT] show ?thesis using assms by (auto simp: interrupt_status_def get_set_dword)
qed

lemma interrupt_status_key:
  assumes "space_of s i = Some bs" "length bs \<ge> 64"
  shows "io_key (set_space i (interrupt_status level bs) s) b = io_key s b"
  using assms interrupt_status_command [of bs level]
  by (auto simp: io_key_def get_command_def space_bytes_def) (auto simp: interrupt_status_def nth_set_dword)

lemma set_irq_level_shape: "pci_shape s (set_irq_level route i level s)"
proof -
  have d: "pci_shape s u \<Longrightarrow> pci_shape s (drive_intx route i v u)" for u v by (rule pci_shape_trans [OF _ drive_intx_wf(1)])
  have l: "pci_shape s (s\<lparr>intx_levels := f\<rparr>)" for f by (simp add: pci_shape_def same_shape_def)
  have "pci_shape s (set_space i (interrupt_status level bs) (s\<lparr>intx_levels := f\<rparr>))" if "space_of s i = Some bs" for bs f
    by (rule pci_shape_trans [OF l set_space_shape]) (use that in simp_all)
  then show ?thesis using l by (auto simp: set_irq_level_def Let_def intro!: d split: option.split)
qed

lemma set_irq_level_placed:
  assumes "spaces_ok s" "bar_placed s j m" shows "bar_placed (set_irq_level route i level s) j m"
proof -
  have l: "bar_placed (s\<lparr>intx_levels := f\<rparr>) j m" for f using assms(2) by (subst placed_cong [of _ s]) simp_all
  have "bar_placed (set_space i (interrupt_status level bs) (s\<lparr>intx_levels := f\<rparr>)) j m" if sp: "space_of s i = Some bs" for bs f
  proof -
    have sp1: "space_of (s\<lparr>intx_levels := f\<rparr>) i = Some bs" using sp by simp
    have "length bs \<ge> 64" using assms(1) sp by (fastforce simp: spaces_ok_def)
    from interrupt_status_key [OF sp1 this] show ?thesis using l by (subst set_space_placed) auto
  qed
  then show ?thesis using l by (auto simp: set_irq_level_def Let_def drive_intx_wf(2) split: option.split)
qed

lemma set_irq_level_wf: "pci_wf s \<Longrightarrow> pci_wf (set_irq_level route i level s)"
  using wf_shape [OF _ set_irq_level_shape] set_irq_level_placed by (auto simp: pci_wf_def)


text \<open>
  What a function does to itself, its space (where it is no bridge) and the assignments of its BARs, leaves
  the BARs of the others where they belong.
\<close>

definition own_change :: "nat \<Rightarrow> pci \<Rightarrow> pci \<Rightarrow> bool" where
  "own_change i s u \<longleftrightarrow> same_shape s u \<and> (\<forall>j. j \<noteq> i \<longrightarrow> space_of u j = space_of s j \<and> js_get False (absent u) j = js_get False (absent s) j) \<and>
     (\<forall>j m. j \<noteq> i \<longrightarrow> bar_of u j m = bar_of s j m)"

lemma own_change_refl [simp]: "own_change i s s" by (simp add: own_change_def)

lemma own_change_trans: "own_change i s u \<Longrightarrow> own_change i u v \<Longrightarrow> own_change i s v"
  by (auto simp: own_change_def intro: same_shape_trans)

lemma own_change_fold: "(\<And>x u. own_change i u (f x u)) \<Longrightarrow> own_change i s (fold f xs s)"
  by (induction xs arbitrary: s) (auto intro: own_change_trans)

lemma own_change_placed:
  assumes "own_change i s u" "bridges_ok s" "\<not> is_bridge s i" "bar_placed s j m" "j \<noteq> i" shows "bar_placed u j m"
proof -
  have "bar_placed u j m = bar_placed s j m"
  proof (rule bar_placed_transfer)
    fix b assume "b \<in> set (upstream s j)"
    then have "b \<noteq> i" using upstream_bridge assms(2,3) by blast
    then show "io_key u b = io_key s b" using assms(1) by (simp add: own_change_def io_key_def get_command_def space_bytes_def)
  qed (use assms in \<open>auto simp: own_change_def same_shape_def\<close>)
  then show ?thesis using assms(4) by simp
qed

lemma own_emit: "own_change i s (pci_emit e s)" by (simp add: own_change_def same_shape_def)

lemma own_set_bar: "bar_of s i nr \<noteq> None \<Longrightarrow> own_change i s (set_bar i nr b s)"
  using set_bar_shape bar_of_set_bar [where s = s and i = i and nr = nr and b = b] by (auto simp: own_change_def)

lemma own_refresh_bar: "own_change i s (refresh_bar i t nr s)"
proof (cases "bar_of s i nr")
  case (Some bar)
  have "own_change i s (set_bar i nr b s)" for b using Some by (intro own_set_bar) simp
  then show ?thesis using Some own_change_trans [OF _ own_emit]
    by (simp add: refresh_bar_def move_io_bar_def move_memory_bar_def Let_def)
qed (simp add: refresh_bar_def)

lemma own_set_space: "own_change i s (set_space i bs s)" by (simp add: own_change_def same_shape_def)

lemma refresh_bars_spaces [simp]:
  "device_spaces (fold (refresh_bar i t) nrs s) = device_spaces s" "absent (fold (refresh_bar i t) nrs s) = absent s"
proof -
  have "device_spaces (refresh_bar i t nr u) = device_spaces u \<and> absent (refresh_bar i t nr u) = absent u" for nr u
    by (simp add: refresh_bar_def move_io_bar_def move_memory_bar_def Let_def split: option.split)
  then show "device_spaces (fold (refresh_bar i t) nrs s) = device_spaces s" "absent (fold (refresh_bar i t) nrs s) = absent s"
    by (induction nrs arbitrary: s) simp_all
qed

lemma own_absent: "own_change i s (s\<lparr>absent := js_put False (absent s) i b\<rparr>)"
  by (simp add: own_change_def same_shape_def)

lemma own_intx: "own_change i s (s\<lparr>intx_levels := f\<rparr>)"
  by (simp add: own_change_def same_shape_def)

lemma own_fresh: "own_change i s (fresh_function i t s)"
  unfolding fresh_function_def Let_def
  by (rule own_change_trans [OF own_set_space own_change_trans [OF own_change_fold [OF own_refresh_bar] own_change_trans [OF own_intx own_emit]]])

lemma fresh_spaces [simp]: "space_of (fresh_function i t s) j = (if j = i then Some t else space_of s j)" "absent (fresh_function i t s) = absent s"
  by (simp_all add: fresh_function_def Let_def)


lemma own_spaces_ok:
  assumes "own_change i s u" "spaces_ok s" "device_of s i \<noteq> None" "\<And>bs. space_of u i = Some bs \<Longrightarrow> length bs \<ge> 256" "space_of u i \<noteq> None" "i \<ge> 256"
  shows "spaces_ok u"
proof -
  have sh: "same_shape s u" using assms(1) by (simp add: own_change_def)
  have eq: "device_of u j \<noteq> None \<longleftrightarrow> space_of u j \<noteq> None" for j
  proof (cases "j = i")
    case True then show ?thesis using assms(3,5) same_shape_device(1) [OF sh] by simp
  next
    case False
    then have "space_of u j = space_of s j" using assms(1) by (simp add: own_change_def)
    then show ?thesis using assms(2) same_shape_device(1) [OF sh] by (simp add: spaces_ok_def)
  qed
  have len: "length bs \<ge> 256" if "space_of u j = Some bs" for j bs
    using assms(1,2,4) that by (cases "j = i") (auto simp: own_change_def spaces_ok_def)
  have bars: "length (pci_bars d) \<le> 6" if "device_of u j = Some d" for j d
    using same_shape_device(2) [OF sh that] assms(2) by (auto simp: spaces_ok_def)
  have ab: "j \<ge> 256" if "js_get False (absent u) j" for j
    using assms(1,2,6) that by (cases "j = i") (auto simp: own_change_def spaces_ok_def)
  have tm: "length t \<ge> 256" if "js_get None (templates u) j = Some t" for j t
    using assms(2) sh that by (simp add: same_shape_def spaces_ok_def)
  show ?thesis unfolding spaces_ok_def using eq len bars ab tm by blast
qed

lemma switch_function_own:
  assumes "spaces_ok s" "device_of s i \<noteq> None" "i \<ge> 256"
  shows "own_change i s (switch_function i present fresh s)" "spaces_ok (switch_function i present fresh s)"
    "space_of (switch_function i present fresh s) i \<in> {space_of s i, js_get None (templates s) i}"
proof -
  define s1 where "s1 = (if \<not> present \<and> \<not> js_get False (absent s) i then pci_emit (On_Unplug i) s else s)"
  define s2 where "s2 = s1\<lparr>absent := js_put False (absent s1) i (\<not> present)\<rparr>"
  let ?u = "switch_function i present fresh s"
  have e: "?u = (if present \<and> fresh then case js_get None (templates s2) i of Some t \<Rightarrow> fresh_function i t s2 | None \<Rightarrow> s2 else s2)"
    unfolding switch_function_def Let_def s2_def s1_def by (rule refl)
  have o1: "own_change i s s1" "space_of s1 i = space_of s i" by (simp_all add: s1_def own_emit)
  have o2: "own_change i s s2" "space_of s2 i = space_of s i" using own_change_trans [OF o1(1) own_absent] o1(2) by (simp_all add: s2_def)
  have tm: "templates s2 = templates s" using o2(1) by (simp add: own_change_def same_shape_def)
  show o3: "own_change i s ?u" unfolding e using o2(1) own_change_trans [OF o2(1) own_fresh] by (simp split: option.split)
  show sp: "space_of ?u i \<in> {space_of s i, js_get None (templates s) i}" unfolding e using o2(2) tm by (auto split: option.split)
  have len: "length bs \<ge> 256" if "space_of s i = Some bs \<or> js_get None (templates s) i = Some bs" for bs
    using assms(1) that by (auto simp: spaces_ok_def)
  have ne: "space_of ?u i \<noteq> None" using assms(1,2) unfolding e by (auto simp: spaces_ok_def o2(2) split: option.split)
  show "spaces_ok ?u"
    by (rule own_spaces_ok [OF o3 assms(1,2) _ ne assms(3)]) (use sp len in auto)
qed

lemma function_present_wf:
  assumes "pci_wf s" "device_of s i \<noteq> None" "\<not> is_bridge s i" "i \<ge> 256"
  shows "pci_wf (set_function_present route i present fresh s)" "same_shape s (set_function_present route i present fresh s)"
proof -
  have ok: "bridges_ok s" "spaces_ok s" and pl: "bar_placed s j m" for j m using assms(1) by (auto simp: pci_wf_def)
  let ?s3 = "switch_function i present fresh s"
  note o3 = switch_function_own(1) [OF ok(2) assms(2,4), of present fresh] and ok3 = switch_function_own(2) [OF ok(2) assms(2,4), of present fresh]
  have sh3: "same_shape s ?s3" using o3 by (simp add: own_change_def)
  let ?s4 = "set_irq_level route i (js_get False (intx_levels ?s3) i) ?s3"
  have sh4: "pci_shape ?s3 (upstream_changed i ?s4)"
    by (rule pci_shape_trans [OF set_irq_level_shape io_frame_shape [OF upstream_changed_frame]])
  have e: "set_function_present route i present fresh s = upstream_changed i ?s4" by (simp add: set_function_present_def Let_def)
  have "bar_placed (upstream_changed i ?s4) j m" for j m
  proof (cases "j = i")
    case True then show ?thesis using upstream_changed_placed by simp
  next
    case False
    have "bar_placed ?s3 j m" by (rule own_change_placed [OF o3 ok(1) assms(3) pl False])
    then show ?thesis by (intro upstream_changed_keeps set_irq_level_placed [OF ok3])
  qed
  then show "pci_wf (set_function_present route i present fresh s)"
    unfolding e pci_wf_def using pci_shape_simps(1,2) [OF sh4] ok3 same_shape_bridges_ok [OF sh3 ok(1)] by blast
  show "same_shape s (set_function_present route i present fresh s)"
    unfolding e using same_shape_trans [OF sh3] sh4 by (simp add: pci_shape_def)
qed

text \<open>
  A device stores into its own registers. No code of the bus: it stands for the stores that the devices' hooks
  and models make into their own spaces, all of them at 0x40 or above; an offset below stands for no store.
\<close>

definition own_register :: "nat \<Rightarrow> nat \<Rightarrow> u8 \<Rightarrow> pci \<Rightarrow> pci" where
  "own_register i k b s = (case space_of s i of None \<Rightarrow> s | Some bs \<Rightarrow> if k < 0x40 then s else set_space i (bs[k := b]) s)"

lemma own_register_wf:
  assumes "pci_wf s" shows "pci_wf (own_register i k b s)" "pci_shape s (own_register i k b s)"
proof -
  show sh: "pci_shape s (own_register i k b s)" by (simp add: own_register_def set_space_shape split: option.split)
  have "bar_placed (own_register i k b s) j m" for j m
  proof (cases "\<exists>bs. space_of s i = Some bs \<and> k \<ge> 0x40")
    case True
    then obtain bs where bs: "space_of s i = Some bs" "k \<ge> 0x40" by blast
    have "get_dword (bs[k := b]) 1 = get_dword bs 1" using bs(2) by (intro get_dword_cong) simp
    then have "io_key (set_space i (bs[k := b]) s) i = io_key s i"
      using bs by (simp add: io_key_def get_command_def space_bytes_def)
    then show ?thesis using assms bs set_space_placed [of i s j] by (simp add: own_register_def pci_wf_def)
  next
    case False then show ?thesis using assms by (auto simp: own_register_def pci_wf_def split: option.split)
  qed
  then show "pci_wf (own_register i k b s)" by (rule wf_shape [OF assms sh])
qed


section \<open>Routing ends, and finds the function that the bus numbers name\<close>

text \<open>The tree of buses: a bridge is listed on the bus it is on and leads to one of a higher number, below 256.\<close>

definition topology_ok :: "pci \<Rightarrow> bool" where
  "topology_ok s \<longleftrightarrow> (\<forall>at1. \<forall>b \<in> set (js_get [] (bridges_on s) at1). at1 < bridge_bus s b \<and> bridge_bus s b < 256)"

lemma same_shape_bus: "same_shape s u \<Longrightarrow> bridge_bus u b = bridge_bus s b"
proof (cases "device_of u b")
  case None
  assume "same_shape s u" then have "device_of s b = None" using None same_shape_device(1) by blast
  then show ?thesis using None by (simp add: bridge_bus_def)
next
  case (Some a)
  assume "same_shape s u"
  from same_shape_device(2) [OF this Some] obtain d where "device_of s b = Some d" "pci_secondary_bus a = pci_secondary_bus d" by blast
  then show ?thesis using Some by (simp add: bridge_bus_def)
qed

lemma topology_shape: "same_shape s u \<Longrightarrow> topology_ok s \<Longrightarrow> topology_ok u"
  by (simp add: topology_ok_def same_shape_bus) (simp add: same_shape_def)

lemma route_hop_next: "route_hop s bdf bs = Next b \<Longrightarrow> \<exists>c \<in> set bs. b = bridge_bus s c"
  by (induction s bdf bs rule: route_hop.induct) (auto simp: Let_def split: if_splits)

lemma route_from_ends:
  assumes "topology_ok s" "at1 < 256" "256 - at1 < n" shows "route_from n s bdf at1 \<noteq> None"
  using assms(2,3)
proof (induction n arbitrary: at1)
  case (Suc n)
  show ?case
  proof (cases "route_hop s bdf (js_get [] (bridges_on s) at1)")
    case (Next b)
    then obtain c where "c \<in> set (js_get [] (bridges_on s) at1)" "b = bridge_bus s c" using route_hop_next by blast
    then have "at1 < b" "b < 256" using assms(1) by (auto simp: topology_ok_def)
    then have "route_from n s bdf b \<noteq> None" using Suc.prems by (intro Suc.IH) linarith+
    then show ?thesis using Next by simp
  qed simp
qed simp

lemma route_config_total: "topology_ok s \<Longrightarrow> route_config s bdf \<noteq> None"
  using route_from_ends [of s 0 257 bdf] by (auto simp: route_config_def)

text \<open>
  The path of a configuration cycle, after the PCI-to-PCI bridge specification: a bridge passes a cycle for its
  secondary bus to the functions there and one for a bus up to its subordinate to the bridges there.
\<close>

definition secondary_number :: "pci \<Rightarrow> nat \<Rightarrow> nat" where
  "secondary_number s b = unat (space_bytes s b ! 0x19)"

definition subordinate_number :: "pci \<Rightarrow> nat \<Rightarrow> nat" where
  "subordinate_number s b = unat (space_bytes s b ! 0x1A)"

definition slot_answers :: "pci \<Rightarrow> nat \<Rightarrow> nat \<Rightarrow> nat \<Rightarrow> bool" where
  "slot_answers s b bdf i \<longleftrightarrow> i = bridge_bus s b * 256 + bdf mod 256 \<and> space_of s i \<noteq> None \<and> \<not> js_get False (absent s) i \<and>
     \<not> ((case device_of s b of Some d \<Rightarrow> pci_express_downstream d | None \<Rightarrow> False) \<and> bdf AND 0xF8 \<noteq> 0)"

inductive config_path :: "pci \<Rightarrow> nat \<Rightarrow> nat \<Rightarrow> nat \<Rightarrow> bool" for s bdf where
  arrive: "b \<in> set (js_get [] (bridges_on s) at1) \<Longrightarrow> secondary_number s b = bdf div 256 \<Longrightarrow> slot_answers s b bdf i \<Longrightarrow> config_path s bdf at1 i"
| forward: "b \<in> set (js_get [] (bridges_on s) at1) \<Longrightarrow> secondary_number s b < bdf div 256 \<Longrightarrow> bdf div 256 \<le> subordinate_number s b \<Longrightarrow>
    config_path s bdf (bridge_bus s b) i \<Longrightarrow> config_path s bdf at1 i"

text \<open>No two bridges of a bus claim the same bus number.\<close>

definition claims_bus :: "pci \<Rightarrow> nat \<Rightarrow> nat \<Rightarrow> bool" where
  "claims_bus s b bus \<longleftrightarrow> secondary_number s b = bus \<or> secondary_number s b < bus \<and> bus \<le> subordinate_number s b"

definition numbers_ok :: "pci \<Rightarrow> bool" where
  "numbers_ok s \<longleftrightarrow> (\<forall>at1 bus. \<forall>b \<in> set (js_get [] (bridges_on s) at1). \<forall>c \<in> set (js_get [] (bridges_on s) at1).
     claims_bus s b bus \<and> claims_bus s c bus \<longrightarrow> b = c)"

lemma route_hop_cases:
  "(\<forall>b \<in> set bs. \<not> claims_bus s b (bdf div 256)) \<and> route_hop s bdf bs = Answer None \<or>
   (\<exists>b \<in> set bs. claims_bus s b (bdf div 256) \<and>
      route_hop s bdf bs = (if secondary_number s b = bdf div 256
        then Answer (if slot_answers s b bdf (bridge_bus s b * 256 + bdf mod 256) then Some (bridge_bus s b * 256 + bdf mod 256) else None)
        else Next (bridge_bus s b)))"
proof (induction bs)
  case (Cons b bs)
  have e: "route_hop s bdf (b # bs) = (if secondary_number s b = bdf div 256
        then Answer (if slot_answers s b bdf (bridge_bus s b * 256 + bdf mod 256) then Some (bridge_bus s b * 256 + bdf mod 256) else None)
        else if claims_bus s b (bdf div 256) then Next (bridge_bus s b) else route_hop s bdf bs)"
    by (auto simp: slot_answers_def claims_bus_def secondary_number_def subordinate_number_def Let_def)
  show ?case
  proof (cases "claims_bus s b (bdf div 256)")
    case True then show ?thesis unfolding e by auto
  next
    case False
    then have "secondary_number s b \<noteq> bdf div 256" by (simp add: claims_bus_def)
    then have "route_hop s bdf (b # bs) = route_hop s bdf bs" unfolding e using False by simp
    then show ?thesis using Cons.IH False by auto
  qed
qed simp


lemma route_hop_unique:
  assumes "b \<in> set bs" "claims_bus s b (bdf div 256)" "\<And>c. c \<in> set bs \<Longrightarrow> claims_bus s c (bdf div 256) \<Longrightarrow> c = b"
  shows "route_hop s bdf bs = (if secondary_number s b = bdf div 256
        then Answer (if slot_answers s b bdf (bridge_bus s b * 256 + bdf mod 256) then Some (bridge_bus s b * 256 + bdf mod 256) else None)
        else Next (bridge_bus s b))"
  using route_hop_cases [of bs s bdf]
proof
  assume "(\<forall>c \<in> set bs. \<not> claims_bus s c (bdf div 256)) \<and> route_hop s bdf bs = Answer None"
  then show ?thesis using assms(1,2) by blast
next
  assume "\<exists>c \<in> set bs. claims_bus s c (bdf div 256) \<and> route_hop s bdf bs = (if secondary_number s c = bdf div 256
        then Answer (if slot_answers s c bdf (bridge_bus s c * 256 + bdf mod 256) then Some (bridge_bus s c * 256 + bdf mod 256) else None)
        else Next (bridge_bus s c))"
  then obtain c where c: "c \<in> set bs" "claims_bus s c (bdf div 256)" "route_hop s bdf bs = (if secondary_number s c = bdf div 256
        then Answer (if slot_answers s c bdf (bridge_bus s c * 256 + bdf mod 256) then Some (bridge_bus s c * 256 + bdf mod 256) else None)
        else Next (bridge_bus s c))" by blast
  have "c = b" by (rule assms(3) [OF c(1,2)])
  then show ?thesis using c(3) by blast
qed

lemma route_from_sound: "route_from n s bdf at1 = Some (Some i) \<Longrightarrow> config_path s bdf at1 i"
proof (induction n arbitrary: at1)
  case (Suc n)
  let ?bs = "js_get [] (bridges_on s) at1"
  from Suc.prems have ne: "route_hop s bdf ?bs \<noteq> Answer None" by auto
  with route_hop_cases [of ?bs s bdf] obtain b where b: "b \<in> set ?bs" "claims_bus s b (bdf div 256)"
    and h: "route_hop s bdf ?bs = (if secondary_number s b = bdf div 256
        then Answer (if slot_answers s b bdf (bridge_bus s b * 256 + bdf mod 256) then Some (bridge_bus s b * 256 + bdf mod 256) else None)
        else Next (bridge_bus s b))" by blast
  show ?case
  proof (cases "secondary_number s b = bdf div 256")
    case True
    with h ne Suc.prems have "slot_answers s b bdf (bridge_bus s b * 256 + bdf mod 256)" "i = bridge_bus s b * 256 + bdf mod 256"
      by (auto split: if_splits)
    then show ?thesis using arrive [OF b(1) True] by simp
  next
    case False
    then have "route_from n s bdf (bridge_bus s b) = Some (Some i)" using h Suc.prems by simp
    from Suc.IH [OF this] show ?thesis using forward [OF b(1)] b(2) False by (auto simp: claims_bus_def)
  qed
qed simp

lemma route_from_complete:
  assumes "config_path s bdf at1 i" "numbers_ok s" shows "route_from n s bdf at1 \<in> {None, Some (Some i)}"
  using assms(1)
proof (induction arbitrary: n)
  case (arrive b at1 i)
  let ?bs = "js_get [] (bridges_on s) at1"
  have cl: "claims_bus s b (bdf div 256)" using arrive(2) by (simp add: claims_bus_def)
  then have u: "c = b" if "c \<in> set ?bs" "claims_bus s c (bdf div 256)" for c
    using that arrive(1) assms(2) unfolding numbers_ok_def by blast
  have "i = bridge_bus s b * 256 + bdf mod 256" using arrive(3) by (simp add: slot_answers_def)
  then have "route_hop s bdf ?bs = Answer (Some i)" using route_hop_unique [OF arrive(1) cl u] arrive(2,3) by simp
  then show ?case by (cases n) simp_all
next
  case (forward b at1 i)
  let ?bs = "js_get [] (bridges_on s) at1"
  have cl: "claims_bus s b (bdf div 256)" using forward(2,3) by (simp add: claims_bus_def)
  then have u: "c = b" if "c \<in> set ?bs" "claims_bus s c (bdf div 256)" for c
    using that forward(1) assms(2) unfolding numbers_ok_def by blast
  have "route_hop s bdf ?bs = Next (bridge_bus s b)" using route_hop_unique [OF forward(1) cl u] forward(2) by simp
  then show ?case using forward.IH by (cases n) simp_all
qed

lemma route_config_path:
  assumes "topology_ok s" "numbers_ok s" "bdf div 256 \<noteq> 0"
  shows "route_config s bdf = Some (Some i) \<longleftrightarrow> config_path s bdf 0 i"
  using route_from_sound [of 257 s bdf 0 i] route_from_complete [OF _ assms(2), of bdf 0 i 257] route_config_total [OF assms(1), of bdf] assms(3)
  by (auto simp: route_config_def)

section \<open>Runs of the machine\<close>

text \<open>
  What happens to the bus: the guest writes configuration space through the address and data ports or the
  ECAM window, a device drives its pin or stores into its own registers, a card comes or goes.
\<close>

datatype pci_event =
    Addr_Write nat i32
  | Cf8_Write nat nat i32
  | Ecam_Write8 nat i32
  | Ecam_Write32 nat i32
  | Pin nat bool
  | Own_Register nat nat u8
  | Slot nat bool bool

fun pci_step :: "irq_route \<Rightarrow> pci_event \<Rightarrow> pci \<Rightarrow> pci option" where
  "pci_step route (Addr_Write k v) s = Some (addr_write k v s)"
| "pci_step route (Cf8_Write port_offset sz v) s = config_write_cf8 route port_offset sz v s"
| "pci_step route (Ecam_Write8 off v) s = ecam_write8 route off v s"
| "pci_step route (Ecam_Write32 off v) s = ecam_write32 route off v s"
| "pci_step route (Pin i level) s = Some (set_irq_level route i level s)"
| "pci_step route (Own_Register i k b) s = Some (own_register i k b s)"
| "pci_step route (Slot i present fresh) s = Some (set_function_present route i present fresh s)"

text \<open>The ports take accesses of one, two and four bytes; only a function behind a bridge that is none itself is in a slot.\<close>

fun pci_event_ok :: "pci \<Rightarrow> pci_event \<Rightarrow> bool" where
  "pci_event_ok s (Cf8_Write port_offset sz v) = (sz \<in> {1, 2, 4})"
| "pci_event_ok s (Slot i present fresh) = (i \<ge> 256 \<and> device_of s i \<noteq> None \<and> \<not> is_bridge s i)"
| "pci_event_ok s e = True"

fun pci_run :: "irq_route \<Rightarrow> pci_event list \<Rightarrow> pci \<Rightarrow> pci option" where
  "pci_run route [] s = Some s"
| "pci_run route (e # es) s = (case pci_step route e s of None \<Rightarrow> None | Some u \<Rightarrow> pci_run route es u)"

section \<open>Registration\<close>

text \<open>
  What registration asserts, and what holds of a function and its BARs before: no port is assigned, and a bridge
  comes before the functions behind it.
\<close>

definition register_ok :: "nat \<Rightarrow> pci_function \<Rightarrow> u8 list \<Rightarrow> nat \<Rightarrow> pci \<Rightarrow> bool" where
  "register_ok i d pci_space config_size s \<longleftrightarrow>
     device_of s i = None \<and> space_of s i = None \<and> length pci_space \<ge> 64 \<and> i < 0x10000 \<and> (config_size = 256 \<or> config_size = 4096) \<and>
     length (pci_bars d) \<le> 6 \<and> list_all (\<lambda>b. case b of None \<Rightarrow> True | Some bar \<Rightarrow> assigned bar = None \<and> mapped bar = None) (pci_bars d) \<and>
     (pci_space ! 0x0E AND 0x7F = 1 \<longleftrightarrow> pci_secondary_bus d \<noteq> None) \<and>
     (case pci_secondary_bus d of None \<Rightarrow> True
      | Some behind \<Rightarrow> i div 256 < behind \<and> behind < 256 \<and> js_get None (bridge_for_bus s) behind = None \<and>
          list_all (\<lambda>k. device_of s (behind * 256 + k) = None) [0..<256]) \<and>
     (i < 256 \<or> js_get None (bridge_for_bus s) (i div 256) \<noteq> None)"

lemma bar_placed_upstream:
  assumes "upstream u j = upstream s j" "js_get False (absent u) j = js_get False (absent s) j" "bar_of u j m = bar_of s j m"
    "\<And>b. b \<in> set (upstream s j) \<Longrightarrow> io_key u b = io_key s b"
  shows "bar_placed u j m = bar_placed s j m"
proof -
  have "upstream_forwards_io u j p z = upstream_forwards_io s j p z" for p z
    unfolding forwards_io_key assms(1,2) using assms(4) by (auto simp: list_all_iff)
  then have "io_bar_place u j b = io_bar_place s j b" for b by (simp add: io_bar_place_def split: option.split)
  then show ?thesis by (simp add: bar_placed_def assms(3))
qed

lemma register_bar_wf:
  assumes "pci_wf s" shows "pci_wf (register_bar i nr s) \<and> pci_shape s (register_bar i nr s)"
proof (cases "bar_of s i nr")
  case (Some bar)
  have same: "pci_wf (set_bar i nr b s)" if "mapped b = mapped bar" "assigned b = assigned bar" "bar_size b = bar_size bar" for b
    using wf_shape [OF assms set_bar_pci_shape] set_bar_placed [OF Some that] assms by (auto simp: pci_wf_def)
  have sh: "pci_shape s (set_bar i nr b s)" "pci_shape s (update_io_bar i nr (set_bar i nr b s))" for b
    using set_bar_pci_shape pci_shape_trans [OF set_bar_pci_shape io_frame_shape [OF update_io_bar_frame]] by blast+
  have up: "pci_wf (update_io_bar i nr (set_bar i nr b s))" for b
  proof (rule wf_shape [OF assms sh(2)])
    fix j m
    show "bar_placed (update_io_bar i nr (set_bar i nr b s)) j m"
    proof (cases "(j, m) = (i, nr)")
      case True then show ?thesis using update_io_bar_placed by simp
    next
      case False
      then have "bar_placed (set_bar i nr b s) j m" using assms by (subst set_bar_placed_other) (auto simp: Some pci_wf_def)
      then show ?thesis by (rule update_io_bar_keeps)
    qed
  qed
  show ?thesis using Some same sh up by (simp add: register_bar_def Let_def)
qed (use assms in \<open>simp add: register_bar_def\<close>)

lemma register_bars_wf: "pci_wf s \<Longrightarrow> pci_wf (fold (register_bar i) nrs s) \<and> pci_shape s (fold (register_bar i) nrs s)"
proof (induction nrs arbitrary: s)
  case (Cons nr nrs)
  have "pci_wf (register_bar i nr s)" "pci_shape s (register_bar i nr s)" using register_bar_wf [OF Cons.prems] by auto
  with Cons.IH [OF this(1)] show ?case using pci_shape_trans by auto
qed simp

lemma add_function_simps [simp]:
  "space_of (add_function i d bs s) j = (if j = i then Some bs else space_of s j)"
  "device_of (add_function i d bs s) j = (if j = i then Some d else device_of s j)"
  "absent (add_function i d bs s) = absent s"
  "js_get None (templates (add_function i d bs s)) j = (if j = i \<and> i \<ge> 256 then Some bs else js_get None (templates s) j)"
  by (auto simp: add_function_def Let_def split: option.split)

lemma add_function_bridges:
  assumes "bs ! 0x0E AND 0x7F = 1 \<longleftrightarrow> pci_secondary_bus d \<noteq> None"
  shows "js_get None (bridge_for_bus (add_function i d bs s)) n = (if pci_secondary_bus d = Some n then Some i else js_get None (bridge_for_bus s) n)"
    "js_get [] (bridges_on (add_function i d bs s)) n =
       (if pci_secondary_bus d \<noteq> None \<and> n = i div 256 then js_get [] (bridges_on s) n @ [i] else js_get [] (bridges_on s) n)"
  using assms by (auto simp: add_function_def Let_def split: option.split)


lemma register_upstream:
  assumes "bridges_ok s" "device_of s j \<noteq> None" "\<And>x. device_of s x \<noteq> None \<Longrightarrow> pci_secondary_bus d \<noteq> Some (x div 256)"
    "bs ! 0x0E AND 0x7F = 1 \<longleftrightarrow> pci_secondary_bus d \<noteq> None"
  shows "upstream (add_function i d bs s) j = upstream s j"
proof -
  have p: "parent_bridge (add_function i d bs s) x = parent_bridge s x" if "device_of s x \<noteq> None" for x
    using assms(3) [OF that] by (simp add: parent_bridge_def add_function_bridges(1) [OF assms(4)])
  have "bridge_chain n (add_function i d bs s) x = bridge_chain n s x" if "device_of s x \<noteq> None" for n x
    using that
  proof (induction n arbitrary: x)
    case (Suc n)
    show ?case
    proof (cases "parent_bridge s x")
      case None then show ?thesis using p [OF Suc.prems] by simp
    next
      case (Some b)
      then have "is_bridge s b" using assms(1) by (auto simp: parent_bridge_def bridges_ok_def split: if_splits)
      then have "device_of s b \<noteq> None" by (cases "device_of s b") (auto simp: is_bridge_def)
      then show ?thesis using Some p [OF Suc.prems] Suc.IH by simp
    qed
  qed simp
  then show ?thesis using assms(2) by (simp add: upstream_def)
qed

lemma add_function_wf:
  assumes "pci_wf s" "topology_ok s" "register_ok i d sp cs s" and bs: "bs = sp @ replicate (cs - length sp) 0"
  shows "pci_wf (add_function i d bs s)" "topology_ok (add_function i d bs s)"
proof -
  let ?u = "add_function i d bs s"
  have ok: "bridges_ok s" "spaces_ok s" and pl: "bar_placed s j m" for j m using assms(1) by (auto simp: pci_wf_def)
  have new: "device_of s i = None" and l: "length bs \<ge> 256" and n6: "length (pci_bars d) \<le> 6"
    and hdr: "bs ! 0x0E AND 0x7F = 1 \<longleftrightarrow> pci_secondary_bus d \<noteq> None"
    using assms(3) by (auto simp: register_ok_def bs nth_append)
  have un: "b \<in> set (pci_bars d) \<Longrightarrow> (case b of None \<Rightarrow> True | Some bar \<Rightarrow> assigned bar = None)" for b
    using assms(3) by (auto simp: register_ok_def list_all_iff split: option.splits)
  have sec: "i div 256 < n \<and> n < 256" if "pci_secondary_bus d = Some n" for n
    using assms(3) that by (simp add: register_ok_def)
  have empty: "pci_secondary_bus d \<noteq> Some (x div 256)" if "device_of s x \<noteq> None" for x
  proof
    assume "pci_secondary_bus d = Some (x div 256)"
    then have "\<forall>k \<in> {0..<256}. device_of s (x div 256 * 256 + k) = None" using assms(3) by (simp add: register_ok_def list_all_iff)
    moreover have "x mod 256 \<in> {0..<256}" by simp
    ultimately have "device_of s (x div 256 * 256 + x mod 256) = None" by blast
    then show False using that by simp
  qed
  have br: "is_bridge ?u j = (if j = i then pci_secondary_bus d \<noteq> None else is_bridge s j)" "is_bridge s i = False" for j
    using new by (simp_all add: is_bridge_def)
  have bok: "bridges_ok ?u"
    unfolding bridges_ok_def br(1) add_function_bridges(1) [OF hdr] using ok(1) br(2) sec by (auto simp: bridges_ok_def)
  have sok: "spaces_ok ?u" using ok(2) l n6 new by (auto simp: spaces_ok_def)
  have "bar_placed ?u j m" for j m
  proof (cases "j = i")
    case True
    have "assigned b = None" if "js_get None (pci_bars d) m = Some b" for b
      using un [of "Some b"] that by (auto simp: js_get_def in_set_conv_nth split: if_splits)
    then show ?thesis using True by (auto simp: bar_placed_def)
  next
    case False
    show ?thesis
    proof (cases "device_of s j")
      case None then show ?thesis using False by (simp add: bar_placed_def)
    next
      case (Some dj)
      have "io_key ?u b = io_key s b" if "b \<in> set (upstream s j)" for b
        using upstream_bridge [OF ok(1) that] br(2) by (auto simp: io_key_def get_command_def space_bytes_def)
      then have "bar_placed ?u j m = bar_placed s j m"
        using register_upstream [OF ok(1) _ empty hdr] Some False by (intro bar_placed_upstream) simp_all
      then show ?thesis using pl by simp
    qed
  qed
  then show "pci_wf ?u" using bok sok by (simp add: pci_wf_def)
  have bus: "bridge_bus ?u b = (if b = i then (case pci_secondary_bus d of Some n \<Rightarrow> n | None \<Rightarrow> 0) else bridge_bus s b)" "bridge_bus s i = 0" for b
    using new by (simp_all add: bridge_bus_def)
  have old: "b \<noteq> i" if "b \<in> set (js_get [] (bridges_on s) n)" for b n using assms(2) that bus(2) by (fastforce simp: topology_ok_def)
  show "topology_ok ?u" unfolding topology_ok_def add_function_bridges(2) [OF hdr] bus(1)
    using assms(2) old sec by (auto simp: topology_ok_def)
qed


section \<open>The identity of a function\<close>

text \<open>Vendor, device, revision, class, header type, first capability and interrupt pin.\<close>

definition identity_bytes :: "nat list" where
  "identity_bytes = [0x00, 0x01, 0x02, 0x03, 0x08, 0x09, 0x0A, 0x0B, 0x0E, 0x34, 0x3D]"

definition identity_of :: "u8 list \<Rightarrow> u8 list" where
  "identity_of bs = map (\<lambda>k. bs ! k) identity_bytes"

definition identity :: "pci \<Rightarrow> nat \<Rightarrow> u8 list" where
  "identity s i = identity_of (space_bytes s i)"

lemma identity_cong: "device_spaces u = device_spaces s \<Longrightarrow> identity u i = identity s i"
  by (simp add: identity_def space_bytes_def)

lemma identity_index: "k \<in> set identity_bytes \<Longrightarrow> k < 64 \<and> k div 4 \<in> {0, 2, 3, 13, 15}"
  by (auto simp: identity_bytes_def)

lemma identity_of_dword: "length bs \<ge> 64 \<Longrightarrow> k \<notin> {0, 2, 3, 13, 15} \<Longrightarrow> identity_of (set_dword bs k v) = identity_of bs"
proof -
  assume l: "length bs \<ge> 64" and k: "k \<notin> {0, 2, 3, 13, 15}"
  have "set_dword bs k v ! m = bs ! m" if "m \<in> set identity_bytes" for m
  proof -
    have m: "m < 64" "m div 4 \<noteq> k" using identity_index [OF that] k by auto
    then have "\<not> (4 * k \<le> m \<and> m < 4 * k + 4)" by auto
    then show ?thesis using l m(1) by (auto simp: nth_set_dword)
  qed
  then show ?thesis by (simp add: identity_of_def)
qed

lemma bridge_masks: "BRIDGE_HEADER_WRITABLE ! 0x34 = 0" "BRIDGE_HEADER_WRITABLE ! 0x3D = 0"
  by (code_simp, code_simp)

lemma header_identity: "k \<in> set identity_bytes \<Longrightarrow> header_byte br k b old = old"
proof -
  assume "k \<in> set identity_bytes"
  then have k: "k < 0x18 \<and> \<not> header_byte_writable k \<and> k \<notin> {4, 5, 6, 7} \<or> k = 0x34 \<or> k = 0x3D"
    by (auto simp: identity_bytes_def header_byte_writable_def)
  then show ?thesis using bridge_masks by (auto simp: header_byte_def header_byte_writable_def)
qed

lemma identity_of_config: "length bs \<ge> 64 \<Longrightarrow> identity_of (config_bytes br off sz v bs) = identity_of bs"
proof -
  assume l: "length bs \<ge> 64"
  have "config_bytes br off sz v bs ! k = bs ! k" if "k \<in> set identity_bytes" for k
  proof -
    have "k < 0x40" using that by (auto simp: identity_bytes_def)
    then show ?thesis using l that by (simp add: nth_config_bytes header_identity)
  qed
  then show ?thesis by (simp add: identity_of_def)
qed

lemma bytes_length: "pci_wf s \<Longrightarrow> space_of s i \<noteq> None \<Longrightarrow> length (space_bytes s i) \<ge> 256"
  by (fastforce simp: pci_wf_def spaces_ok_def space_bytes_def split: option.splits)

lemma identity_store:
  assumes "pci_wf s" "space_of s i \<noteq> None" "k \<notin> {0, 2, 3, 13, 15}" shows "identity (store_dword i k v s) j = identity s j"
  using identity_of_dword [of "space_bytes s i" k v] bytes_length [OF assms(1,2)] assms(3)
  by (auto simp: identity_def store_dword_def space_bytes_def)

lemma frame_spaces: "io_frame s u \<Longrightarrow> device_spaces u = device_spaces s"
  by (simp add: io_frame_def same_config_def)

lemmas io_spaces [simp] = update_io_bar_frame [THEN frame_spaces] upstream_changed_frame [THEN frame_spaces] bridge_changed_frame [THEN frame_spaces]

lemma move_spaces [simp]:
  "device_spaces (move_memory_bar i nr bar b s) = device_spaces s" "device_spaces (move_io_bar i nr bar b s) = device_spaces s"
  "device_spaces (command_changed route i old cmd s) = device_spaces s" "device_spaces (set_io_bars bar f t s) = device_spaces s"
  by (simp_all add: move_memory_bar_def move_io_bar_def command_changed_def set_io_bars_def Let_def)

lemma identity_write_bar:
  assumes "pci_wf s" "space_of s i \<noteq> None" "offset \<ge> 0x10" "offset < 0x28"
  shows "identity (write_bar i offset v s) j = identity s j"
proof -
  have k: "offset div 4 \<notin> {0, 2, 3, 13, 15}" using assms(3,4) by auto
  have st: "identity (store_dword i (offset div 4) x s) j = identity s j" for x by (rule identity_store [OF assms(1,2) k])
  have c: "device_spaces u = device_spaces s \<Longrightarrow> device_spaces (store_dword i m x u) = device_spaces (store_dword i m x s)" for u m x
    by (simp add: store_dword_def set_space_def space_bytes_def)
  have mv: "identity (move_memory_bar i nr bar b u) j = identity u j" "identity (move_io_bar i nr bar b u) j = identity u j"
    "identity (update_io_bar i nr u) j = identity u j" for nr bar b u by (rule identity_cong, simp)+
  have sb: "identity (store_dword i m x (set_bar i nr b s)) j = identity (store_dword i m x s) j"
    "identity (store_dword i m x (set_io_bars bar f t s)) j = identity (store_dword i m x s) j" for m x nr b bar f t
    by (rule identity_cong, rule c, simp)+
  show ?thesis by (simp add: write_bar_def Let_def st mv sb split: option.split)
qed

lemma identity_write:
  assumes "pci_wf s" shows "identity (function_write route t offset sz v s) j = identity s j"
proof (cases "\<exists>i bs. t = Some i \<and> space_of s i = Some bs \<and> offset + sz \<le> length bs")
  case True
  then obtain i bs where t: "t = Some i" and sp: "space_of s i = Some bs" and l: "offset + sz \<le> length bs" by blast
  have wb: "identity (write_config_bytes route i offset sz v bs s) j = identity s j"
  proof -
    have "device_spaces (write_config_bytes route i offset sz v bs s) = device_spaces (set_space i (config_bytes (is_bridge s i) offset sz v bs) s)"
      by (simp add: write_config_bytes_def Let_def)
    then have "identity (write_config_bytes route i offset sz v bs s) j = identity (set_space i (config_bytes (is_bridge s i) offset sz v bs) s) j"
      by (rule identity_cong)
    also have "\<dots> = identity s j"
      using identity_of_config [of bs] bytes_length [OF assms, of i] sp by (auto simp: identity_def space_bytes_def)
    finally show ?thesis .
  qed
  have em: "identity (pci_emit e u) j = identity u j" for e u by (rule identity_cong) simp
  have rom: "identity (write_expansion_rom i v s) j = identity s j"
    using identity_store [OF assms, of i 12] sp by (simp add: write_expansion_rom_def split: option.split)
  have bar: "identity (write_bar i offset v s) j = identity s j" if "is_bar_offset (is_bridge s i) offset" "offset \<noteq> 0x30" "offset mod 4 = 0"
  proof (rule identity_write_bar [OF assms])
    have "offset \<ge> 0x10 \<and> offset < 0x28 \<or> offset > 0x30 \<and> offset < 0x34" using that(1,2) by (auto simp: is_bar_offset_def split: if_splits)
    then show "offset \<ge> 0x10" "offset < 0x28" using that(3) by presburger+
  qed (use sp in simp)
  show ?thesis using t sp l wb em rom bar by (simp add: function_write_def Let_def)
next
  case False
  then have "function_write route t offset sz v s = s" by (auto simp: function_write_def split: option.split)
  then show ?thesis by simp
qed


section \<open>Every run keeps the machine well-formed\<close>

text \<open>A template has the identity of its function.\<close>

definition identity_ok :: "pci \<Rightarrow> bool" where
  "identity_ok s \<longleftrightarrow> (\<forall>i t. js_get None (templates s) i = Some t \<longrightarrow> identity_of t = identity s i)"

definition machine_ok :: "pci \<Rightarrow> bool" where
  "machine_ok s \<longleftrightarrow> pci_wf s \<and> topology_ok s \<and> identity_ok s"

definition evolves :: "pci \<Rightarrow> pci \<Rightarrow> bool" where
  "evolves s u \<longleftrightarrow> pci_wf u \<and> same_shape s u \<and> (\<forall>j. identity u j = identity s j)"

lemma evolves_trans: "evolves s u \<Longrightarrow> evolves u v \<Longrightarrow> evolves s v"
  by (auto simp: evolves_def intro: same_shape_trans)

lemma evolves_ok: "machine_ok s \<Longrightarrow> evolves s u \<Longrightarrow> machine_ok u"
  using topology_shape [of s u] by (simp add: machine_ok_def evolves_def identity_ok_def) (simp add: same_shape_def)

lemma wf_spaces: "pci_wf s \<Longrightarrow> spaces_ok s" by (simp add: pci_wf_def)

lemma identity_irq: "spaces_ok s \<Longrightarrow> identity (set_irq_level route i level s) j = identity s j"
proof -
  assume w: "spaces_ok s"
  have l: "length bs \<ge> 64" if "space_of s i = Some bs" for bs using w that by (fastforce simp: spaces_ok_def)
  have "identity_of (interrupt_status level bs) = identity_of bs" if "space_of s i = Some bs" for bs
    using l [OF that] by (simp add: interrupt_status_def identity_of_dword)
  then show ?thesis by (auto simp: set_irq_level_def identity_def space_bytes_def Let_def split: option.split)
qed

lemma identity_own: "identity (own_register i k b s) j = identity s j"
proof -
  have "bs[k := b] ! m = bs ! m" if "\<not> k < 0x40" "m \<in> set identity_bytes" for bs :: "u8 list" and m
    using identity_index [OF that(2)] that(1) by auto
  then show ?thesis by (auto simp: own_register_def identity_def identity_of_def space_bytes_def split: option.split)
qed

lemma identity_slot:
  assumes "pci_wf s" "identity_ok s" "device_of s i \<noteq> None" "\<not> is_bridge s i" "i \<ge> 256"
  shows "identity (set_function_present route i present fresh s) j = identity s j"
proof -
  let ?s3 = "switch_function i present fresh s"
  have ok: "spaces_ok s" using assms(1) by (simp add: pci_wf_def)
  note sw = switch_function_own [OF ok assms(3,5), of present fresh]
  have "identity ?s3 j = identity s j"
  proof (cases "j = i")
    case True
    have "space_of s i \<noteq> None" using ok assms(3) by (simp add: spaces_ok_def)
    moreover have "identity_of t = identity s i" if "js_get None (templates s) i = Some t" for t using assms(2) that by (simp add: identity_ok_def)
    moreover have "space_of ?s3 i \<noteq> None" 
    proof -
      have "same_shape s ?s3" using sw(1) by (simp add: own_change_def)
      from same_shape_device(1) [OF this, of i] have "device_of ?s3 i \<noteq> None" using assms(3) by simp
      then show ?thesis using sw(2) unfolding spaces_ok_def by blast
    qed
    ultimately show ?thesis using sw(3) True by (auto simp: identity_def space_bytes_def)
  next
    case False then show ?thesis using sw(1) by (simp add: own_change_def identity_def space_bytes_def)
  qed
  moreover have "identity (upstream_changed i u) j = identity u j" for u by (rule identity_cong) simp
  ultimately show ?thesis by (simp add: set_function_present_def Let_def identity_irq [OF sw(2)])
qed

lemma config_write_ok:
  assumes "machine_ok s" "sz \<le> 4"
  shows "\<exists>u. config_write route bdf off sz v s = Some u \<and> evolves s u"
proof -
  obtain t where "route_config s bdf = Some t" using route_config_total assms(1) by (auto simp: machine_ok_def)
  then show ?thesis
    using function_write_wf [of s sz route t off v] identity_write [of s route t off sz v] assms
    by (simp add: config_write_def machine_ok_def evolves_def pci_shape_def)
qed

lemma addr_write_ok: "pci_wf s \<Longrightarrow> evolves s (addr_write k v s)"
proof -
  assume w: "pci_wf s"
  have p: "bar_placed (addr_write k v s) j m = bar_placed s j m" for j m by (rule placed_cong) (simp_all add: addr_write_def)
  have "identity (addr_write k v s) j = identity s j" for j by (rule identity_cong) (simp add: addr_write_def)
  moreover have "pci_shape s (addr_write k v s)" by (simp add: addr_write_def pci_shape_def same_shape_def)
  ultimately show ?thesis using wf_shape [OF w] w p by (auto simp: pci_wf_def pci_shape_def evolves_def)
qed

lemma ecam_write32_ok:
  assumes "machine_ok s"
  shows "\<exists>u. ecam_write32 route off v s = Some u \<and> evolves s u"
proof (cases "off mod 4 = 0")
  case True then show ?thesis using config_write_ok [OF assms] by (simp add: ecam_write32_def)
next
  case False
  let ?f = "\<lambda>i u. case u of None \<Rightarrow> None | Some x \<Rightarrow> ecam_write8 route (off + i) (drop_bit (i * 8) v AND 0xFF) x"
  have "\<exists>w. fold ?f is (Some u) = Some w \<and> evolves s w" if "evolves s u" for "is" u
    using that
  proof (induction "is" arbitrary: u)
    case (Cons i "is")
    from config_write_ok [OF evolves_ok [OF assms Cons.prems], of 1 route "(off + i) div 4096" "(off + i) mod 4096" "drop_bit (i * 8) v AND 0xFF"]
    obtain w where "?f i (Some u) = Some w" "evolves u w" by (auto simp: ecam_write8_def)
    then show ?case using Cons.IH [of w] evolves_trans [OF Cons.prems] by auto
  qed simp
  moreover have "evolves s s" using assms by (simp add: evolves_def machine_ok_def)
  ultimately have "\<exists>w. fold ?f [0..<4] (Some s) = Some w \<and> evolves s w" by blast
  then show ?thesis unfolding ecam_write32_def using False by simp
qed

lemma pci_step_ok:
  assumes "machine_ok s" "pci_event_ok s e"
  shows "\<exists>u. pci_step route e s = Some u \<and> evolves s u"
proof -
  have wf: "pci_wf s" "identity_ok s" using assms(1) by (simp_all add: machine_ok_def)
  show ?thesis
  proof (cases e)
    case (Addr_Write k v) then show ?thesis using addr_write_ok [OF wf(1)] by simp
  next
    case (Cf8_Write port_offset sz v)
    then have sz: "sz \<le> 4" using assms(2) by auto
    have "evolves s s" using wf by (simp add: evolves_def)
    then show ?thesis unfolding Cf8_Write using config_write_ok [OF assms(1) sz] by (auto simp: config_write_cf8_def split: option.split)
  next
    case (Ecam_Write8 off v) then show ?thesis using config_write_ok [OF assms(1), of 1] by (simp add: ecam_write8_def)
  next
    case (Ecam_Write32 off v) then show ?thesis using ecam_write32_ok [OF assms(1)] by simp
  next
    case (Pin i level)
    then show ?thesis using set_irq_level_wf [OF wf(1)] set_irq_level_shape [of s route i level] identity_irq [of s route i level]
      wf_spaces [OF wf(1)] by (simp add: evolves_def pci_shape_def)
  next
    case (Own_Register i k b)
    then show ?thesis using own_register_wf [OF wf(1), of i k b] identity_own by (simp add: evolves_def pci_shape_def)
  next
    case (Slot i present fresh)
    then have "device_of s i \<noteq> None" "\<not> is_bridge s i" "i \<ge> 256" using assms(2) by simp_all
    then show ?thesis using function_present_wf [OF wf(1), of i route present fresh] identity_slot [OF wf, of i route present fresh] Slot
      by (simp add: evolves_def)
  qed
qed


section \<open>Machines as they are built\<close>

text \<open>The functions are registered one after the other; before, their devices register their ports.\<close>

inductive built :: "pci \<Rightarrow> bool" where
  empty_bus: "built PCI"
| register_ports: "built s \<Longrightarrow> built (s\<lparr>ports := f\<rparr>)"
| register_function: "built s \<Longrightarrow> register_ok i d sp cs s \<Longrightarrow> built (register_device i d sp cs s)"

lemma js_get_replicate [simp]: "js_get None (replicate n None) i = None"
  by (simp add: js_get_def)

lemma PCI_ok: "machine_ok PCI"
  by (simp add: machine_ok_def pci_wf_def bridges_ok_def spaces_ok_def bar_placed_def topology_ok_def identity_ok_def PCI_def)
     (simp add: js_get_def)

lemma ports_ok: "machine_ok s \<Longrightarrow> machine_ok (s\<lparr>ports := f\<rparr>)"
proof (rule evolves_ok)
  assume "machine_ok s"
  then have w: "pci_wf s" by (simp add: machine_ok_def)
  have "pci_wf (s\<lparr>ports := f\<rparr>)" by (rule wf_shape [OF w ports_shape]) (use w in \<open>simp add: pci_wf_def\<close>)
  moreover have "identity (s\<lparr>ports := f\<rparr>) j = identity s j" for j by (rule identity_cong) simp
  ultimately show "evolves s (s\<lparr>ports := f\<rparr>)" by (simp add: evolves_def same_shape_def)
qed

lemma register_bars_spaces [simp]: "device_spaces (fold (register_bar i) nrs s) = device_spaces s"
proof -
  have "device_spaces (register_bar i nr u) = device_spaces u" for nr u
    by (simp add: register_bar_def Let_def split: option.split)
  then show ?thesis by (induction nrs arbitrary: s) simp_all
qed

lemma add_function_identity:
  assumes "identity_ok s" "register_ok i d sp cs s" "spaces_ok s" "\<And>j t. js_get None (templates s) j = Some t \<Longrightarrow> device_of s j \<noteq> None"
  shows "identity_ok (add_function i d bs s)"
proof -
  have new: "device_of s i = None" using assms(2) by (simp add: register_ok_def)
  have "identity_of t = identity (add_function i d bs s) j" if t: "js_get None (templates (add_function i d bs s)) j = Some t" for j t
  proof (cases "j = i")
    case True
    then show ?thesis using t new assms(4) [of i] by (auto simp: identity_def space_bytes_def split: if_splits)
  next
    case False
    then have "js_get None (templates s) j = Some t" using t by simp
    then show ?thesis using assms(1) False by (auto simp: identity_ok_def identity_def space_bytes_def)
  qed
  then show ?thesis by (simp add: identity_ok_def)
qed

text \<open>Only registered functions have templates.\<close>

definition templates_ok :: "pci \<Rightarrow> bool" where
  "templates_ok s \<longleftrightarrow> (\<forall>j t. js_get None (templates s) j = Some t \<longrightarrow> device_of s j \<noteq> None)"

lemma register_device_ok:
  assumes "machine_ok s" "templates_ok s" "register_ok i d sp cs s"
  shows "machine_ok (register_device i d sp cs s)" "templates_ok (register_device i d sp cs s)"
proof -
  define bs where "bs = sp @ replicate (cs - length sp) 0"
  let ?u = "add_function i d bs s" and ?v = "register_device i d sp cs s"
  have w: "pci_wf s" "topology_ok s" "identity_ok s" using assms(1) by (simp_all add: machine_ok_def)
  have a: "pci_wf ?u" "topology_ok ?u" using add_function_wf [OF w(1,2) assms(3)] by (simp_all add: bs_def)
  have idu: "identity_ok ?u"
    by (rule add_function_identity [OF w(3) assms(3) wf_spaces [OF w(1)]]) (use assms(2) in \<open>simp add: templates_ok_def\<close>)
  have v: "?v = fold (register_bar i) [0..<length (pci_bars d)] ?u" by (simp add: register_device_def bs_def)
  have r: "pci_wf ?v" "pci_shape ?u ?v" unfolding v using register_bars_wf [OF a(1)] by simp_all
  have "identity ?v j = identity ?u j" for j by (rule identity_cong) (simp add: v)
  then have ev: "evolves ?u ?v" using r by (simp add: evolves_def pci_shape_def)
  then show "machine_ok ?v" using evolves_ok [OF _ ev] a idu by (simp add: machine_ok_def)
  have tu: "templates_ok ?u" using assms(2) by (auto simp: templates_ok_def)
  have sh: "same_shape ?u ?v" using r by (simp add: pci_shape_def)
  have "templates ?v = templates ?u" using sh by (simp add: same_shape_def)
  then show "templates_ok ?v" using tu same_shape_device(1) [OF sh] by (simp add: templates_ok_def)
qed

lemma built_ok: "built s \<Longrightarrow> machine_ok s \<and> templates_ok s"
proof (induction rule: built.induct)
  case empty_bus
  have "templates_ok PCI" by (simp add: templates_ok_def PCI_def js_get_def)
  then show ?case using PCI_ok by simp
next
  case (register_ports s f) then show ?case using ports_ok by (simp add: templates_ok_def)
next
  case (register_function s i d sp cs) then show ?case using register_device_ok by blast
qed


section \<open>Interrupt pins on shared lines\<close>

text \<open>What the bus asks of the shared lines (\<open>Shared_Irq\<close>); the source is the number of the function.\<close>

fun line_of :: "pci_effect \<Rightarrow> line_event list" where
  "line_of (IrqLevel n i v) = [DriveIrq n (int i) v]"
| "line_of (GsiLevel n i v) = [DriveGsi n (int i) v]"
| "line_of e = []"

definition pci_lines :: "pci \<Rightarrow> line_event list" where
  "pci_lines s = concat (map line_of (pci_log s))"

definition irq_demand :: "pci \<Rightarrow> nat \<Rightarrow> nat \<Rightarrow> bool" where
  "irq_demand s n i = demand (pci_lines s) (n, int i)"

lemma pci_lines_emit: "pci_lines (pci_emit e s) = pci_lines s @ line_of e"
  by (simp add: pci_lines_def)

lemma irq_demand_emit [simp]:
  "irq_demand (pci_emit (IrqLevel m j v) s) n i = (if m = n \<and> j = i then v else irq_demand s n i)"
  "irq_demand (pci_emit (GsiLevel m j v) s) n i = (if m = n \<and> j = i then v else irq_demand s n i)"
  "line_of e = [] \<Longrightarrow> irq_demand (pci_emit e s) n i = irq_demand s n i"
  by (auto simp: irq_demand_def pci_lines_emit demand_def run_append)

lemma irq_demand_cong: "pci_log u = pci_log s \<Longrightarrow> irq_demand u n i = irq_demand s n i"
  by (simp add: irq_demand_def pci_lines_def)

text \<open>What the chipset's routing promises: a line below 16, or none, and an I/O APIC input from 16 to 23, or none.\<close>

definition route_ok :: "irq_route \<Rightarrow> bool" where
  "route_ok route \<longleftrightarrow> (\<forall>s r pin. (fst (route s r pin) < 16 \<or> not_routed (fst (route s r pin))) \<and>
     (\<forall>g. snd (route s r pin) = Some g \<longrightarrow> 16 \<le> g \<and> g < 24))"

text \<open>The records of a function are the lines its pin holds high.\<close>

definition intx_recorded :: "pci \<Rightarrow> nat \<Rightarrow> bool" where
  "intx_recorded s i \<longleftrightarrow>
     (\<forall>n. irq_demand s n i \<longleftrightarrow> js_get None (asserted_irq_lines s) i = Some n \<or> js_get None (asserted_gsis s) i = Some n) \<and>
     (\<forall>n. js_get None (asserted_irq_lines s) i = Some n \<longrightarrow> n < 16 \<and> \<not> not_routed n) \<and>
     (\<forall>n. js_get None (asserted_gsis s) i = Some n \<longrightarrow> 16 \<le> n \<and> n < 24)"

text \<open>The pin is high and the command register of the function does not disable it.\<close>

definition intx_raised :: "pci \<Rightarrow> nat \<Rightarrow> bool" where
  "intx_raised s i \<longleftrightarrow> js_get False (intx_levels s) i \<and> \<not> has_bits (get_command s i) PCI_COMMAND_INTX_DISABLE"

definition intx_silent :: "pci \<Rightarrow> nat \<Rightarrow> bool" where
  "intx_silent s i \<longleftrightarrow> js_get None (asserted_irq_lines s) i = None \<and> js_get None (asserted_gsis s) i = None"

lemma raise_line_simps [simp]:
  "asserted_irq_lines (raise_line f i p l s) = asserted_irq_lines s" "asserted_gsis (raise_line f i p l s) = asserted_gsis s"
  by (simp_all add: raise_line_def Let_def split: option.split)

lemma drive_intx_records:
  assumes "route_ok route" "root_pin s i = (r, pin)" "route s r pin = (pic, rgsi)"
  shows "js_get None (asserted_irq_lines (drive_intx route i level s)) j =
      (if j = i then if level \<and> \<not> not_routed pic then Some pic else None else js_get None (asserted_irq_lines s) j)"
    "js_get None (asserted_gsis (drive_intx route i level s)) j =
      (if j = i then if level then rgsi else None else js_get None (asserted_gsis s) j)"
  using assms by (auto simp: drive_intx_def Let_def split: option.split)

lemma raise_line_demand:
  "irq_demand (raise_line IrqLevel i p l s) n j =
     (if j = i \<and> l = Some n then True else if j = i \<and> p = Some n then False else irq_demand s n j)"
  "irq_demand (raise_line GsiLevel i p l s) n j =
     (if j = i \<and> l = Some n then True else if j = i \<and> p = Some n then False else irq_demand s n j)"
  by (auto simp: raise_line_def Let_def split: option.split)

lemma drive_intx_demand:
  assumes "route_ok route" "root_pin s i = (r, pin)" "route s r pin = (pic, rgsi)" "intx_recorded s i"
  shows "irq_demand (drive_intx route i level s) n j =
     (if j = i then js_get None (asserted_irq_lines (drive_intx route i level s)) i = Some n \<or>
        js_get None (asserted_gsis (drive_intx route i level s)) i = Some n else irq_demand s n j)"
proof -
  have upd: "irq_demand (u\<lparr>asserted_irq_lines := a\<rparr>) m k = irq_demand u m k" "irq_demand (u\<lparr>asserted_gsis := a\<rparr>) m k = irq_demand u m k" for u a m k
    by (simp_all add: irq_demand_def pci_lines_def)
  let ?p = "js_get None (asserted_irq_lines s) i" and ?g = "js_get None (asserted_gsis s) i"
  have rec: "irq_demand s n i \<longleftrightarrow> ?p = Some n \<or> ?g = Some n" "\<And>m. ?p = Some m \<Longrightarrow> m < 16 \<and> \<not> not_routed m" "\<And>m. ?g = Some m \<Longrightarrow> 16 \<le> m"
    using assms(4) by (auto simp: intx_recorded_def)
  have rt: "pic < 16 \<or> not_routed pic" "\<And>m. rgsi = Some m \<Longrightarrow> 16 \<le> m" using assms(1) assms(3) unfolding route_ok_def by (metis fst_conv, metis snd_conv)
  show ?thesis
  proof (cases level)
    case True
    have "irq_demand (drive_intx route i level s) n j = (if j = i \<and> rgsi = Some n then True else if j = i \<and> ?g = Some n then False
        else if j = i \<and> (if not_routed pic then None else Some pic) = Some n then True else if j = i \<and> ?p = Some n then False else irq_demand s n j)"
      using True assms(2,3) by (simp add: drive_intx_def Let_def upd raise_line_demand)
    then show ?thesis unfolding drive_intx_records [OF assms(1-3)] using True rec rt by auto
  next
    case False
    then have z: "js_get None (asserted_irq_lines (drive_intx route i level s)) i = None" "js_get None (asserted_gsis (drive_intx route i level s)) i = None"
      unfolding drive_intx_records [OF assms(1-3)] by simp_all
    have "irq_demand (drive_intx route i level s) n j = (if j = i then False else irq_demand s n j)"
      using False assms(2,3) rec by (auto simp: drive_intx_def Let_def upd split: option.split)
    then show ?thesis using z by simp
  qed
qed


definition records_ok :: "pci \<Rightarrow> bool" where
  "records_ok s \<longleftrightarrow> list_all line_ok (pci_lines s) \<and> (\<forall>j. intx_recorded s j)"

definition pins_ok :: "pci \<Rightarrow> bool" where
  "pins_ok s \<longleftrightarrow> records_ok s \<and> (\<forall>j. intx_raised s j \<or> intx_silent s j)"

lemma pci_lines_update [simp]:
  "pci_lines (s\<lparr>asserted_irq_lines := a\<rparr>) = pci_lines s" "pci_lines (s\<lparr>asserted_gsis := a\<rparr>) = pci_lines s"
  "pci_lines (s\<lparr>intx_levels := b\<rparr>) = pci_lines s" "pci_lines (s\<lparr>absent := c\<rparr>) = pci_lines s" "pci_lines (s\<lparr>ports := d\<rparr>) = pci_lines s"
  "pci_lines (set_space i bs s) = pci_lines s" "pci_lines (set_bar i nr bar s) = pci_lines s"
  by (simp_all add: pci_lines_def)

lemma drive_intx_line_ok:
  assumes "route_ok route" "records_ok s" shows "list_all line_ok (pci_lines (drive_intx route i level s))"
proof -
  obtain r pin where rp: "root_pin s i = (r, pin)" by fastforce
  obtain pic rgsi where rt: "route s r pin = (pic, rgsi)" by fastforce
  have a: "list_all line_ok (pci_lines s)" and ri: "intx_recorded s i" using assms(2) by (auto simp: records_ok_def)
  have b: "pic < 16 \<or> not_routed pic" "\<And>m. rgsi = Some m \<Longrightarrow> 16 \<le> m \<and> m < 24"
    using assms(1) rt unfolding route_ok_def by (metis fst_conv, metis snd_conv)
  have c: "\<And>m. js_get None (asserted_irq_lines s) i = Some m \<Longrightarrow> m < 16" "\<And>m. js_get None (asserted_gsis s) i = Some m \<Longrightarrow> 16 \<le> m \<and> m < 24"
    using ri by (auto simp: intx_recorded_def)
  have em: "list_all line_ok (pci_lines (pci_emit e u)) \<longleftrightarrow> list_all line_ok (pci_lines u) \<and> list_all line_ok (line_of e)" for e u
    by (simp add: pci_lines_emit)
  show ?thesis using a b c rp rt
    by (auto simp: drive_intx_def raise_line_def Let_def em split: option.split)
qed

lemma drive_intx_ok:
  assumes "route_ok route" "records_ok s"
  shows "records_ok (drive_intx route i level s)" "\<not> level \<Longrightarrow> intx_silent (drive_intx route i level s) i"
    "j \<noteq> i \<Longrightarrow> intx_silent (drive_intx route i level s) j = intx_silent s j"
proof -
  obtain r pin where rp: "root_pin s i = (r, pin)" by fastforce
  obtain pic rgsi where rt: "route s r pin = (pic, rgsi)" by fastforce
  have ri: "intx_recorded s k" for k using assms(2) by (auto simp: records_ok_def)
  have b: "pic < 16 \<or> not_routed pic" "\<And>m. rgsi = Some m \<Longrightarrow> 16 \<le> m \<and> m < 24"
    using assms(1) rt unfolding route_ok_def by (metis fst_conv, metis snd_conv)
  note rec = drive_intx_records [OF assms(1) rp rt, of level]
  have "intx_recorded (drive_intx route i level s) k" for k
    unfolding intx_recorded_def drive_intx_demand [OF assms(1) rp rt ri] rec using ri [of k] b by (auto simp: intx_recorded_def)
  then show "records_ok (drive_intx route i level s)" using drive_intx_line_ok [OF assms] by (simp add: records_ok_def)
  show "\<not> level \<Longrightarrow> intx_silent (drive_intx route i level s) i" "j \<noteq> i \<Longrightarrow> intx_silent (drive_intx route i level s) j = intx_silent s j"
    unfolding intx_silent_def rec by simp_all
qed

text \<open>Steps that do not concern the pins.\<close>

definition pin_frame :: "pci \<Rightarrow> pci \<Rightarrow> bool" where
  "pin_frame s u \<longleftrightarrow> asserted_irq_lines u = asserted_irq_lines s \<and> asserted_gsis u = asserted_gsis s \<and> intx_levels u = intx_levels s \<and>
     pci_lines u = pci_lines s"

lemma pin_frame_refl [simp]: "pin_frame s s" by (simp add: pin_frame_def)

lemma pin_frame_trans [trans]: "pin_frame s u \<Longrightarrow> pin_frame u v \<Longrightarrow> pin_frame s v" by (simp add: pin_frame_def)

lemma pin_frame_ok:
  assumes "pin_frame s u"
  shows "records_ok u = records_ok s" "intx_silent u j = intx_silent s j"
    "get_command u j = get_command s j \<Longrightarrow> intx_raised u j = intx_raised s j"
  using assms by (simp_all add: pin_frame_def records_ok_def intx_recorded_def intx_silent_def intx_raised_def irq_demand_def)

lemma pins_frame:
  assumes "pin_frame s u" "\<And>j. get_command u j = get_command s j" "absent u = absent s" "pins_ok s" shows "pins_ok u"
  using assms(3,4) pin_frame_ok [OF assms(1)] assms(2) by (simp add: pins_ok_def)

lemma pin_frame_emit: "line_of e = [] \<Longrightarrow> pin_frame s (pci_emit e s)"
  by (simp add: pin_frame_def pci_lines_emit)

lemma pin_frame_simps [simp]:
  "pin_frame s (set_bar i nr b s)" "pin_frame s (set_space i bs s)" "pin_frame s (s\<lparr>ports := f\<rparr>)" "pin_frame s (s\<lparr>absent := g\<rparr>)"
  by (simp_all add: pin_frame_def)

lemma pin_frame_fold: "(\<And>x u. pin_frame u (f x u)) \<Longrightarrow> pin_frame s (fold f xs s)"
  by (induction xs arbitrary: s) (auto intro: pin_frame_trans)

lemma pin_frame_io: "pin_frame s (update_io_bar i nr s)" "pin_frame s (upstream_changed i s)" "pin_frame s (bridge_changed i s)"
proof -
  have p: "pin_frame u (set_bar i nr b (u\<lparr>ports := f\<rparr>))" for u i nr b f by (rule pin_frame_trans [OF pin_frame_simps(3,1)])
  have a: "pin_frame u (update_io_bar i nr u)" for i nr u
    by (simp add: update_io_bar_def Let_def p split: option.split)
  show "pin_frame s (update_io_bar i nr s)" by (rule a)
  have b: "pin_frame u (upstream_changed i u)" for i u
    unfolding upstream_changed_def by (rule pin_frame_trans [OF pin_frame_fold pin_frame_emit]) (simp_all add: a)
  show "pin_frame s (upstream_changed i s)" by (rule b)
  show "pin_frame s (bridge_changed i s)" unfolding bridge_changed_def by (rule pin_frame_fold) (simp add: b)
qed


lemma command_cong: "device_spaces u = device_spaces s \<Longrightarrow> get_command u j = get_command s j"
  by (simp add: get_command_def)

lemma drive_pins:
  assumes "route_ok route" "records_ok s" "\<And>j. j \<noteq> i \<Longrightarrow> intx_raised s j \<or> intx_silent s j" "level \<Longrightarrow> intx_raised s i"
  shows "pins_ok (drive_intx route i level s)"
proof -
  have d: "intx_raised (drive_intx route i level s) j = intx_raised s j" for j by (simp add: intx_raised_def get_command_def)
  have "intx_raised (drive_intx route i level s) j \<or> intx_silent (drive_intx route i level s) j" for j
    using assms(3) [of j] assms(4) drive_intx_ok(2) [OF assms(1,2), of level i] drive_intx_ok(3) [OF assms(1,2), of j i level] d by (cases "j = i"; cases level) auto
  then show ?thesis using drive_intx_ok(1) [OF assms(1,2)] by (simp add: pins_ok_def)
qed

lemma has_bits_masked: "(x AND 0xFFFF) AND 0x400 = x AND (0x400 :: i32)"
  by (simp add: and.assoc)

lemma set_irq_level_pins:
  assumes "route_ok route" "records_ok s" "\<And>j. j \<noteq> i \<Longrightarrow> intx_raised s j \<or> intx_silent s j" "spaces_ok s"
  shows "pins_ok (set_irq_level route i level s)"
proof -
  define s1 where "s1 = s\<lparr>intx_levels := js_put False (intx_levels s) i level\<rparr>"
  define s2 where "s2 = (case space_of s1 i of None \<Rightarrow> s1 | Some bs \<Rightarrow> set_space i (interrupt_status level bs) s1)"
  define dis where "dis = (case space_of s2 i of None \<Rightarrow> False | Some bs \<Rightarrow> has_bits (get_dword bs 1) PCI_COMMAND_INTX_DISABLE)"
  have e: "set_irq_level route i level s = drive_intx route i (level \<and> \<not> dis \<and> \<not> js_get False (absent s2) i) s2"
    unfolding set_irq_level_def Let_def dis_def s2_def s1_def by (rule refl)
  have s2: "asserted_irq_lines s2 = asserted_irq_lines s" "asserted_gsis s2 = asserted_gsis s" "pci_lines s2 = pci_lines s" "absent s2 = absent s"
    "js_get False (intx_levels s2) j = (if j = i then level else js_get False (intx_levels s) j)" "j \<noteq> i \<Longrightarrow> space_of s2 j = space_of s j" for j
    by (auto simp: s2_def s1_def split: option.split)
  have rec: "records_ok s2" using assms(2) s2(1-3) by (simp add: records_ok_def intx_recorded_def irq_demand_def)
  have oth: "intx_raised s2 j \<or> intx_silent s2 j" if "j \<noteq> i" for j
    using assms(3) [OF that] s2 that by (auto simp: intx_raised_def intx_silent_def get_command_def)
  have dr: "intx_raised s2 i" if "level \<and> \<not> dis \<and> \<not> js_get False (absent s2) i"
  proof -
    have "\<not> has_bits (get_command s2 i) PCI_COMMAND_INTX_DISABLE"
      using that by (cases "space_of s2 i") (simp_all add: dis_def get_command_def has_bits_masked)
    then show ?thesis using that s2(5) [of i] by (simp add: intx_raised_def)
  qed
  show ?thesis unfolding e by (rule drive_pins [OF assms(1) rec oth dr])
qed

lemma command_store: "length (space_bytes s i) \<ge> 8 \<Longrightarrow> k \<noteq> 1 \<Longrightarrow> get_command (store_dword i k v s) j = get_command s j"
proof (cases "space_of s i")
  case (Some bs)
  assume "length (space_bytes s i) \<ge> 8" "k \<noteq> 1"
  then have "get_dword (set_dword bs k v) 1 = get_dword bs 1" using Some by (intro get_set_dword_other) (auto simp: space_bytes_def)
  then show ?thesis using Some by (simp add: get_command_def store_dword_def space_bytes_def)
qed (simp add: space_bytes_def)

lemma pin_frame_store: "pin_frame s (store_dword i k v s)" by (simp add: store_dword_def)

lemma pin_frame_moves:
  "pin_frame s (move_memory_bar i nr bar b s)" "pin_frame s (move_io_bar i nr bar b s)" "pin_frame s (set_io_bars bar f t s)"
  using pin_frame_trans [OF pin_frame_simps(1) pin_frame_emit] by (simp_all add: move_memory_bar_def move_io_bar_def set_io_bars_def)

lemma write_bar_frame:
  assumes "pci_wf s" "space_of s i \<noteq> None" "offset \<ge> 0x10"
  shows "pin_frame s (write_bar i offset v s)" "get_command (write_bar i offset v s) j = get_command s j"
proof -
  have l: "length (space_bytes s i) \<ge> 8" using bytes_length [OF assms(1,2)] by simp
  have k: "offset div 4 \<noteq> 1" using assms(3) by auto
  have st: "get_command (store_dword i (offset div 4) x s) j = get_command s j" for x by (rule command_store [OF l k])
  show "pin_frame s (write_bar i offset v s)"
    unfolding write_bar_def Let_def
    by (auto simp: pin_frame_store intro: pin_frame_trans [OF pin_frame_store pin_frame_moves(1)] pin_frame_trans [OF pin_frame_store pin_frame_moves(2)]
        pin_frame_trans [OF pin_frame_trans [OF pin_frame_simps(1) pin_frame_store] pin_frame_io(1)]
        pin_frame_trans [OF pin_frame_moves(3) pin_frame_store] split: option.split)
  have c: "device_spaces u = device_spaces s \<Longrightarrow> device_spaces (store_dword i m x u) = device_spaces (store_dword i m x s)" for u m x
    by (simp add: store_dword_def set_space_def space_bytes_def)
  have mv: "get_command (move_memory_bar i nr bar b u) j = get_command u j" "get_command (move_io_bar i nr bar b u) j = get_command u j"
    "get_command (update_io_bar i nr u) j = get_command u j" for nr bar b u by (rule command_cong, simp)+
  have sb: "get_command (store_dword i m x (set_bar i nr b s)) j = get_command (store_dword i m x s) j"
    "get_command (store_dword i m x (set_io_bars bar f t s)) j = get_command (store_dword i m x s) j" for m x nr b bar f t
    by (rule command_cong, rule c, simp)+
  show "get_command (write_bar i offset v s) j = get_command s j"
    by (simp add: write_bar_def Let_def st mv sb split: option.split)
qed

lemma write_bar_pins:
  assumes "pci_wf s" "space_of s i \<noteq> None" "offset \<ge> 0x10" "pins_ok s"
  shows "pins_ok (write_bar i offset v s)"
proof -
  have "absent (update_io_bar i nr u) = absent u" for nr u using update_io_bar_frame [of u i nr] by (simp add: io_frame_def same_config_def)
  then have "absent (write_bar i offset v s) = absent s"
    by (simp add: write_bar_def Let_def move_memory_bar_def move_io_bar_def set_io_bars_def store_dword_def split: option.split)
  then show ?thesis using pins_frame [OF write_bar_frame [OF assms(1-3)] _ assms(4)] by simp
qed

lemma command_changed_pins:
  assumes "route_ok route" "records_ok s" "\<And>j. j \<noteq> i \<Longrightarrow> intx_raised s j \<or> intx_silent s j" "\<not> js_get False (absent s) i"
    "command = get_command s i" "\<not> has_bits (old XOR command) PCI_COMMAND_INTX_DISABLE \<Longrightarrow> intx_raised s i \<or> intx_silent s i"
  shows "pins_ok (command_changed route i old command s)"
proof -
  define s1 where "s1 = (if has_bits (old XOR command) PCI_COMMAND_INTX_DISABLE
    then drive_intx route i (js_get False (intx_levels s) i \<and> \<not> has_bits command PCI_COMMAND_INTX_DISABLE) s else s)"
  have p1: "pins_ok s1"
  proof (cases "has_bits (old XOR command) PCI_COMMAND_INTX_DISABLE")
    case True
    then show ?thesis unfolding s1_def using assms(4,5)
      by (simp, intro drive_pins [OF assms(1,2,3)]) (simp_all add: intx_raised_def)
  next
    case False
    have "intx_raised s j \<or> intx_silent s j" for j using assms(3) assms(6) [OF False] by (cases "j = i") auto
    then show ?thesis using False assms(2) by (simp add: s1_def pins_ok_def)
  qed
  have em: "pin_frame s1 (pci_emit (On_Command_Change i old command) s1)" by (rule pin_frame_emit) simp
  have p2: "pins_ok (pci_emit (On_Command_Change i old command) s1)"
    by (rule pins_frame [OF em _ _ p1]) (rule command_cong, simp_all)
  have p3: "pins_ok (bridge_changed i u)" if "pins_ok u" for u
    by (rule pins_frame [OF pin_frame_io(3) _ _ that], rule command_cong, simp)
       (use bridge_changed_frame [of u i] in \<open>simp add: io_frame_def same_config_def\<close>)
  show ?thesis unfolding command_changed_def Let_def s1_def [symmetric] using p2 p3 by simp
qed

lemma xor_bit_clear: "\<not> has_bits (x XOR y) m \<Longrightarrow> x AND m = y AND m" for x y m :: i32
proof (rule bit_word_eqI)
  fix n assume z: "\<not> has_bits (x XOR y) m"
  then have "\<not> bit ((x XOR y) AND m) n" by simp
  then show "bit (x AND m) n = bit (y AND m) n" by (auto simp: bit_simps)
qed

lemma write_bytes_pins:
  assumes "route_ok route" "pins_ok s" "space_of s i = Some bs" "\<not> js_get False (absent s) i"
  shows "pins_ok (write_config_bytes route i offset sz v bs s)"
proof -
  define s1 where "s1 = set_space i (config_bytes (is_bridge s i) offset sz v bs) s"
  have old: "get_dword bs 1 AND 0xFFFF = get_command s i" using assms(3) by (simp add: get_command_def)
  have fr: "pin_frame s s1" "absent s1 = absent s" by (simp_all add: s1_def)
  have oc: "get_command s1 j = get_command s j" if "j \<noteq> i" for j using that by (simp add: s1_def get_command_def)
  have rec: "records_ok s1" using assms(2) pin_frame_ok(1) [OF fr(1)] by (simp add: pins_ok_def)
  have keep: "intx_raised s1 j \<or> intx_silent s1 j" if "get_command s1 j AND 0x400 = get_command s j AND 0x400" for j
  proof -
    have "intx_raised s1 j = intx_raised s j" using fr that by (simp add: intx_raised_def pin_frame_def)
    then show ?thesis using assms(2) pin_frame_ok(2) [OF fr(1)] by (simp add: pins_ok_def)
  qed
  have cc: "pins_ok (command_changed route i (get_command s i) (get_command s1 i) s1)"
  proof (rule command_changed_pins [OF assms(1) rec])
    show "j \<noteq> i \<Longrightarrow> intx_raised s1 j \<or> intx_silent s1 j" for j using oc keep by simp
    show "\<not> has_bits (get_command s i XOR get_command s1 i) 0x400 \<Longrightarrow> intx_raised s1 i \<or> intx_silent s1 i"
      using xor_bit_clear keep by metis
  qed (use assms(4) fr(2) in simp_all)
  have p1: "pins_ok s1" if "get_command s1 i = get_command s i"
    using rec keep oc that unfolding pins_ok_def by metis
  have bc: "pins_ok (bridge_changed i u)" if "pins_ok u" for u
    by (rule pins_frame [OF pin_frame_io(3) _ _ that], rule command_cong, simp)
       (use bridge_changed_frame [of u i] in \<open>simp add: io_frame_def same_config_def\<close>)
  have e: "write_config_bytes route i offset sz v bs s = (if get_command s1 i \<noteq> get_command s i then command_changed route i (get_command s i) (get_command s1 i) s1
      else if list_ex (\<lambda>k. k < 0x40 \<and> is_bridge s i \<and> window_byte k) [offset..<offset + sz] then bridge_changed i s1 else s1)"
    unfolding write_config_bytes_def Let_def old s1_def by (rule refl)
  show ?thesis unfolding e using cc p1 bc by auto
qed

lemma function_write_pins:
  assumes "route_ok route" "pci_wf s" "pins_ok s" "\<And>i. t = Some i \<Longrightarrow> \<not> js_get False (absent s) i"
  shows "pins_ok (function_write route t offset sz v s)"
proof (cases "\<exists>i bs. t = Some i \<and> space_of s i = Some bs \<and> offset + sz \<le> length bs")
  case True
  then obtain i bs where t: "t = Some i" and sp: "space_of s i = Some bs" and l: "offset + sz \<le> length bs" by blast
  have wb: "pins_ok (write_config_bytes route i offset sz v bs s)" by (rule write_bytes_pins [OF assms(1,3) sp assms(4) [OF t]])
  have em: "pins_ok (pci_emit (On_Config_Write i offset sz) u)" if "pins_ok u" for u
    by (rule pins_frame [OF pin_frame_emit _ _ that]) (simp, rule command_cong, simp_all)
  have bar: "pins_ok (write_bar i offset v s)" if "is_bar_offset (is_bridge s i) offset"
    using that sp by (intro write_bar_pins [OF assms(2) _ _ assms(3)]) (auto simp: is_bar_offset_def split: if_splits)
  have "length (space_bytes s i) \<ge> 8" using bytes_length [OF assms(2), of i] sp by simp
  then have "pins_ok (store_dword i 12 x s)" for x
    by (intro pins_frame [OF pin_frame_store _ _ assms(3)] command_store) (simp_all add: store_dword_def)
  then have rom: "pins_ok (write_expansion_rom i v s)" using assms(3) by (simp add: write_expansion_rom_def split: option.split)
  show ?thesis using t sp l wb em rom bar assms(3) by (simp add: function_write_def Let_def)
next
  case False
  then have "function_write route t offset sz v s = s" by (auto simp: function_write_def split: option.split)
  then show ?thesis using assms(3) by simp
qed


text \<open>A cycle only reaches functions that are there.\<close>

lemma route_present:
  assumes "spaces_ok s" "route_config s bdf = Some (Some i)" shows "\<not> js_get False (absent s) i"
proof (cases "bdf div 256 = 0")
  case True then show ?thesis using assms by (fastforce simp: route_config_def spaces_ok_def)
next
  case False
  have p: "config_path s bdf at1 i \<Longrightarrow> \<not> js_get False (absent s) i" for at1
    by (induction rule: config_path.induct) (simp_all add: slot_answers_def)
  from False assms(2) have "route_from 257 s bdf 0 = Some (Some i)" by (simp add: route_config_def)
  then show ?thesis using p route_from_sound by blast
qed

lemma config_write_pins:
  assumes "route_ok route" "machine_ok s" "pins_ok s" "config_write route bdf off sz v s = Some u" shows "pins_ok u"
proof -
  obtain t where t: "route_config s bdf = Some t" "u = function_write route t off sz v s" using assms(4) by (auto simp: config_write_def)
  have w: "pci_wf s" using assms(2) by (simp add: machine_ok_def)
  show ?thesis unfolding t(2)
    by (rule function_write_pins [OF assms(1) w assms(3)]) (use route_present [OF wf_spaces [OF w]] t(1) in auto)
qed

lemma ecam_write32_pins:
  assumes "route_ok route" "machine_ok s" "pins_ok s" "ecam_write32 route off v s = Some u" shows "pins_ok u"
proof (cases "off mod 4 = 0")
  case True then show ?thesis using config_write_pins [OF assms(1-3)] assms(4) by (auto simp: ecam_write32_def)
next
  case False
  let ?f = "\<lambda>i u. case u of None \<Rightarrow> None | Some x \<Rightarrow> ecam_write8 route (off + i) (drop_bit (i * 8) v AND 0xFF) x"
  have "fold ?f is (Some x) = Some w \<Longrightarrow> machine_ok x \<Longrightarrow> pins_ok x \<Longrightarrow> pins_ok w" for "is" x w
  proof (induction "is" arbitrary: x)
    case (Cons i "is")
    from config_write_ok [OF Cons.prems(2), of 1 route "(off + i) div 4096" "(off + i) mod 4096" "drop_bit (i * 8) v AND 0xFF"]
    obtain y where y: "?f i (Some x) = Some y" "evolves x y" by (auto simp: ecam_write8_def)
    have "pins_ok y" using config_write_pins [OF assms(1) Cons.prems(2,3)] y(1) by (auto simp: ecam_write8_def)
    then show ?case using Cons.IH [of y] Cons.prems(1) y evolves_ok [OF Cons.prems(2)] by auto
  qed simp
  then show ?thesis using assms(2-4) False unfolding ecam_write32_def by (auto simp del: fold_simps)
qed

lemma switch_function_keeps:
  fixes i present fresh s defines "u \<equiv> switch_function i present fresh s"
  shows "pci_lines u = pci_lines s" "asserted_irq_lines u = asserted_irq_lines s" "asserted_gsis u = asserted_gsis s"
    "j \<noteq> i \<Longrightarrow> js_get False (intx_levels u) j = js_get False (intx_levels s) j"
    "js_get False (intx_levels u) i \<Longrightarrow> js_get False (intx_levels s) i" "js_get False (absent u) j = (if j = i then \<not> present else js_get False (absent s) j)"
proof -
  have mv: "pin_frame v (refresh_bar i t nr v)" for t nr v
    by (simp add: refresh_bar_def Let_def pin_frame_moves split: option.split)
  have lv: "pci_lines (fresh_function i t v) = pci_lines v" "asserted_irq_lines (fresh_function i t v) = asserted_irq_lines v"
    "asserted_gsis (fresh_function i t v) = asserted_gsis v"
    "js_get False (intx_levels (fresh_function i t v)) k = (if k = i then False else js_get False (intx_levels v) k)" for t v k
    using pin_frame_fold [of "refresh_bar i t" "set_space i t v" "[0..<bar_count (set_space i t v) i]", OF mv]
    by (auto simp: fresh_function_def Let_def pin_frame_def pci_lines_emit)
  show "pci_lines u = pci_lines s" "asserted_irq_lines u = asserted_irq_lines s" "asserted_gsis u = asserted_gsis s"
    "j \<noteq> i \<Longrightarrow> js_get False (intx_levels u) j = js_get False (intx_levels s) j"
    "js_get False (intx_levels u) i \<Longrightarrow> js_get False (intx_levels s) i" "js_get False (absent u) j = (if j = i then \<not> present else js_get False (absent s) j)"
    by (auto simp: u_def switch_function_def Let_def lv pci_lines_emit split: option.splits if_splits)
qed

lemma slot_pins:
  assumes "route_ok route" "pci_wf s" "pins_ok s" "device_of s i \<noteq> None" "i \<ge> 256"
  shows "pins_ok (set_function_present route i present fresh s)"
proof -
  let ?s3 = "switch_function i present fresh s"
  have ok: "spaces_ok s" using assms(2) by (simp add: pci_wf_def)
  note sw = switch_function_own [OF ok assms(4,5), of present fresh] and keep = switch_function_keeps [where i = i and present = present and fresh = fresh and s = s]
  have rec: "records_ok ?s3" using assms(3) keep(1-3) by (simp add: pins_ok_def records_ok_def intx_recorded_def irq_demand_def)
  have oth: "intx_raised ?s3 j \<or> intx_silent ?s3 j" if "j \<noteq> i" for j
    using assms(3) keep that sw(1) by (simp add: pins_ok_def intx_raised_def intx_silent_def own_change_def get_command_def)
  let ?s4 = "set_irq_level route i (js_get False (intx_levels ?s3) i) ?s3"
  have p4: "pins_ok ?s4" by (rule set_irq_level_pins [OF assms(1) rec oth sw(2)])
  show ?thesis unfolding set_function_present_def Let_def
    by (rule pins_frame [OF pin_frame_io(2) _ _ p4], rule command_cong, simp)
       (use upstream_changed_frame [of ?s4 i] in \<open>simp add: io_frame_def same_config_def\<close>)
qed

lemma own_register_pins: "spaces_ok s \<Longrightarrow> pins_ok s \<Longrightarrow> pins_ok (own_register i k b s)"
proof (rule pins_frame [of s])
  show "pin_frame s (own_register i k b s)" "absent (own_register i k b s) = absent s" by (simp_all add: own_register_def split: option.split)
  have "get_dword (bs[k := b]) 1 = get_dword bs 1" if "\<not> k < 0x40" for bs using that by (intro get_dword_cong) simp
  then show "get_command (own_register i k b s) j = get_command s j" for j by (auto simp: own_register_def get_command_def split: option.split)
qed

lemma pci_step_pins:
  assumes "route_ok route" "machine_ok s" "pins_ok s" "pci_event_ok s e" "pci_step route e s = Some u" shows "pins_ok u"
proof -
  have w: "pci_wf s" "spaces_ok s" using assms(2) wf_spaces by (auto simp: machine_ok_def)
  have ad: "pins_ok (addr_write k v s)" for k v
    by (rule pins_frame [OF _ _ _ assms(3)]) (simp_all add: addr_write_def pin_frame_def pci_lines_def get_command_def)
  have pin: "pins_ok (set_irq_level route i level s)" for i level
    using assms(3) by (intro set_irq_level_pins [OF assms(1) _ _ w(2)]) (auto simp: pins_ok_def)
  show ?thesis
  proof (cases e)
    case (Cf8_Write port_offset sz v)
    then show ?thesis using assms(3,5) config_write_pins [OF assms(1-3)] by (auto simp: config_write_cf8_def split: option.splits)
  next
    case (Slot i present fresh)
    then show ?thesis using assms(4,5) slot_pins [OF assms(1) w(1) assms(3)] by auto
  qed (use assms(5) ad pin own_register_pins [OF w(2) assms(3)] config_write_pins [OF assms(1-3)] ecam_write32_pins [OF assms(1-3)]
       in \<open>auto simp: ecam_write8_def\<close>)
qed


section \<open>Runs from a built machine\<close>

lemma event_ok_shape: "same_shape s u \<Longrightarrow> pci_event_ok u e = pci_event_ok s e"
proof (cases e)
  case (Slot i present fresh)
  assume sh: "same_shape s u"
  have "device_of u i = None \<longleftrightarrow> device_of s i = None" by (rule same_shape_device(1) [OF sh])
  then show ?thesis unfolding Slot pci_event_ok.simps same_shape_bridge [OF sh] by simp
qed simp_all

text \<open>A machine that runs: what it promises holds after any number of events.\<close>

locale pci_machine =
  fixes route :: irq_route and s0 :: pci
  assumes start: "machine_ok s0"
begin

lemma run_evolves:
  "list_all (pci_event_ok s0) es \<Longrightarrow> machine_ok s \<Longrightarrow> evolves s0 s \<Longrightarrow> \<exists>u. pci_run route es s = Some u \<and> evolves s0 u \<and> machine_ok u"
proof (induction es arbitrary: s)
  case (Cons e es)
  have "same_shape s0 s" using Cons.prems(3) by (simp add: evolves_def)
  from event_ok_shape [OF this, of e] have e: "pci_event_ok s e" using Cons.prems(1) by simp
  obtain u where u: "pci_step route e s = Some u" "evolves s u" using pci_step_ok [OF Cons.prems(2) e] by blast
  then show ?case
    using Cons.IH [of u] Cons.prems(1) evolves_trans [OF Cons.prems(3) u(2)] evolves_ok [OF Cons.prems(2) u(2)] by simp
qed simp

lemma run_start: "evolves s0 s0"
  using start by (simp add: evolves_def machine_ok_def)

lemma run_wf: "list_all (pci_event_ok s0) es \<Longrightarrow> \<exists>u. pci_run route es s0 = Some u \<and> evolves s0 u \<and> machine_ok u"
  by (rule run_evolves [OF _ start run_start])

end

text \<open>With a routing that keeps its promise the pins are right as well.\<close>

locale pci_pins = pci_machine +
  assumes routes: "route_ok route" and start_pins: "pins_ok s0"
begin

lemma run_pins_from:
  "list_all (pci_event_ok s0) es \<Longrightarrow> machine_ok s \<Longrightarrow> evolves s0 s \<Longrightarrow> pins_ok s \<Longrightarrow> pci_run route es s = Some u \<Longrightarrow> pins_ok u"
proof (induction es arbitrary: s)
  case (Cons e es)
  have "same_shape s0 s" using Cons.prems(3) by (simp add: evolves_def)
  from event_ok_shape [OF this, of e] have e: "pci_event_ok s e" using Cons.prems(1) by simp
  obtain w where w: "pci_step route e s = Some w" "evolves s w" using pci_step_ok [OF Cons.prems(2) e] by blast
  have "pins_ok w" by (rule pci_step_pins [OF routes Cons.prems(2,4) e w(1)])
  then show ?case
    using Cons.IH [of w] Cons.prems(1,5) w evolves_trans [OF Cons.prems(3) w(2)] evolves_ok [OF Cons.prems(2) w(2)] by simp
qed simp

lemma run_pins: "list_all (pci_event_ok s0) es \<Longrightarrow> \<exists>u. pci_run route es s0 = Some u \<and> pins_ok u"
  using run_wf run_pins_from [OF _ start run_start start_pins] by blast

end

lemma register_frame: "pin_frame s (register_device i d sp cs s)"
proof -
  have bar: "pin_frame u (register_bar i nr u)" for nr u
    by (auto simp: register_bar_def Let_def intro: pin_frame_trans [OF pin_frame_simps(1) pin_frame_io(1)] split: option.split)
  have "pin_frame s (add_function i d bs s)" for bs
    by (auto simp: add_function_def Let_def pin_frame_def pci_lines_def split: option.split)
  then show ?thesis unfolding register_device_def by (rule pin_frame_trans [OF _ pin_frame_fold [OF bar]])
qed

text \<open>A machine as it is built has no line asserted.\<close>

lemma built_quiet: "built s \<Longrightarrow> asserted_irq_lines s = [] \<and> asserted_gsis s = [] \<and> pci_lines s = []"
proof (induction rule: built.induct)
  case empty_bus then show ?case by (simp add: PCI_def pci_lines_def)
next
  case (register_function s i d sp cs)
  then show ?case using register_frame [of s i d sp cs] by (simp add: pin_frame_def)
qed (simp add: pci_lines_def)

lemma built_pins: "built s \<Longrightarrow> pins_ok s"
  using built_quiet [of s]
  by (simp add: pins_ok_def records_ok_def intx_recorded_def intx_silent_def irq_demand_def demand_def js_get_def)

lemma built_machine: "built s \<Longrightarrow> pci_machine s"
  using built_ok by unfold_locales simp

lemma built_pci_pins: "built s \<Longrightarrow> route_ok route \<Longrightarrow> pci_pins route s"
  using built_ok built_pins by unfold_locales simp_all

text \<open>The machine with the i440FX chipset.\<close>

lemma chipset_spaces: "length host_bridge_space = 96" "length (isa_bridge_space subsystem) = 60 + length subsystem"
  "host_bridge_space ! 0x0E = 0" "isa_bridge_space subsystem ! 0x0E = 0x80"
  by (simp_all add: host_bridge_space_def isa_bridge_space_def nth_append)

lemma i440fx_built: "length subsystem = 4 \<Longrightarrow> built (create_i440fx subsystem PCI)"
  unfolding create_i440fx_def
proof (intro register_function empty_bus)
  show r0: "register_ok 0 plain_function host_bridge_space 256 PCI"
    by (simp add: register_ok_def plain_function_def PCI_def chipset_spaces)
  assume "length subsystem = 4"
  then show "register_ok 8 plain_function (isa_bridge_space subsystem) 256 (register_device 0 plain_function host_bridge_space 256 PCI)"
    by (simp add: register_ok_def register_device_def plain_function_def chipset_spaces) (simp add: PCI_def)
qed

interpretation i440fx: pci_machine piix_route "create_i440fx [0, 0, 0, 0] PCI"
  by (rule built_machine [OF i440fx_built]) simp


section \<open>The ports of an I/O BAR\<close>

lemma unmap_ports: "fold (unmap_port bar m) [0..<n] f p = (if m \<le> p \<and> p < m + n \<and> f p = entries bar ! (p - m) then Empty_Port else f p)"
proof (induction n)
  case (Suc n)
  have "fold (unmap_port bar m) [0..<Suc n] f p = unmap_port bar m n (fold (unmap_port bar m) [0..<n] f) p" by simp
  also have "\<dots> = (if p = m + n \<and> fold (unmap_port bar m) [0..<n] f p = entries bar ! n then Empty_Port else fold (unmap_port bar m) [0..<n] f p)"
    by (auto simp: unmap_port_def create_empty_def)
  finally show ?case unfolding Suc.IH by (cases "p = m + n") auto
qed auto

lemma map_ports: "fold (map_port bar a) [0..<n] f p = (if a \<le> p \<and> p < a + n then entries bar ! (p - a) else f p)"
proof (induction n)
  case (Suc n)
  have "fold (map_port bar a) [0..<Suc n] f p = (if p = a + n then entries bar ! n else fold (map_port bar a) [0..<n] f p)"
    by (simp add: map_port_def)
  then show ?case unfolding Suc.IH by auto
qed auto

lemma update_io_bar_ports:
  assumes "bar_of s i nr = Some bar" "io_bar_place s i bar \<noteq> mapped bar"
  shows "ports (update_io_bar i nr s) p =
     (let old = (case mapped bar of Some m \<Rightarrow> if m \<le> p \<and> p < m + bar_size bar \<and> ports s p = entries bar ! (p - m) then Empty_Port else ports s p
                 | None \<Rightarrow> ports s p)
      in case io_bar_place s i bar of Some a \<Rightarrow> if a \<le> p \<and> p < a + bar_size bar then entries bar ! (p - a) else old | None \<Rightarrow> old)"
  using assms by (simp add: update_io_bar_def Let_def unmap_ports map_ports split: option.split)

lemma io_window_round_trip:
  assumes bar: "bar_of s i nr = Some bar" "mapped bar = Some m" and shown: "\<And>k. k < bar_size bar \<Longrightarrow> ports s (m + k) = entries bar ! k"
    and closed: "io_bar_place s i bar = None"
    and opened: "bar_of t i nr = bar_of (update_io_bar i nr s) i nr" "ports t = ports (update_io_bar i nr s)" "io_bar_place t i bar = Some m"
  shows "ports (update_io_bar i nr s) = (\<lambda>p. if m \<le> p \<and> p < m + bar_size bar then Empty_Port else ports s p)"
    "ports (update_io_bar i nr t) = ports s"
proof -
  have sh: "ports s p = entries bar ! (p - m)" if "m \<le> p" "p < m + bar_size bar" for p using shown [of "p - m"] that by simp
  have ne: "io_bar_place s i bar \<noteq> mapped bar" using bar(2) closed by simp
  show c: "ports (update_io_bar i nr s) = (\<lambda>p. if m \<le> p \<and> p < m + bar_size bar then Empty_Port else ports s p)"
    by (rule ext) (use update_io_bar_ports [OF bar(1) ne] bar(2) closed sh in \<open>auto simp: Let_def\<close>)
  have b: "bar_of t i nr = Some (bar\<lparr>mapped := None\<rparr>)" unfolding opened(1) update_io_bar_bars using bar(1) closed by simp
  have p: "io_bar_place t i (bar\<lparr>mapped := None\<rparr>) = Some m" using opened(3) by (simp add: io_bar_place_mapped)
  have "io_bar_place t i (bar\<lparr>mapped := None\<rparr>) \<noteq> mapped (bar\<lparr>mapped := None\<rparr>)" using p by simp
  note u = update_io_bar_ports [OF b this, unfolded p, simplified]
  show "ports (update_io_bar i nr t) = ports s" by (rule ext) (use u opened(2) c sh in \<open>auto simp: Let_def\<close>)
qed

section \<open>Sizing and moving a memory BAR\<close>

lemma function_write_bar:
  assumes "space_of s i = Some bs" "0x14 + 4 * nr \<le> length bs" "nr < 6" "is_bridge s i \<Longrightarrow> nr < 2"
  shows "function_write route (Some i) (0x10 + 4 * nr) 4 v s = write_bar i (0x10 + 4 * nr) v s"
  using assms by (auto simp: function_write_def is_bar_offset_def)

lemma function_read_dword:
  assumes "space_of s i = Some bs" "4 * k + 4 \<le> length bs" shows "function_read s (Some i) (4 * k) 4 = get_dword bs k"
  using assms by (simp add: function_read_def)

lemma bar_index: "(0x10 + 4 * nr - 0x10) div 4 = nr" "(0x10 + 4 * nr) div 4 = 4 + nr" "0x10 + 4 * nr = 4 * (4 + nr :: nat)"
  by simp_all

lemma space_store [simp]: "space_of (store_dword i k v s) j = (if j = i then Some (set_dword (space_bytes s i) k v) else space_of s j)"
  by (simp add: store_dword_def)

lemma mask_low: "4 \<le> n \<Longrightarrow> (x :: i32) AND NOT (mask n) AND NOT 0xF = x AND NOT (mask n)"
proof (rule bit_word_eqI)
  fix k assume "4 \<le> n"
  moreover have "bit (0xF :: i32) k \<Longrightarrow> k < 4" by (rule ccontr) (simp add: mask_bits)
  ultimately show "bit (x AND NOT (mask n) AND NOT 0xF) k = bit (x AND NOT (mask n)) k" by (auto simp: bit_simps)
qed

lemma write_memory_bar:
  assumes "space_of s i = Some bs" "0x14 + 4 * nr \<le> length bs" "bar_of s i nr = Some bar" "bar_size bar = 2 ^ n" "4 \<le> n" "n < 32"
    "\<not> bit (get_dword bs (4 + nr)) 0" "on_move bar"
  shows "is_probe bar v \<Longrightarrow> write_bar i (0x10 + 4 * nr) v s = store_dword i (4 + nr) (NOT (mask n) OR original_bar bar AND 0xF) s"
    "\<not> is_probe bar v \<Longrightarrow> write_bar i (0x10 + 4 * nr) v s =
       move_memory_bar i nr bar (v AND NOT (mask n)) (store_dword i (4 + nr) (v AND NOT (mask n) OR original_bar bar AND 0xF) s)"
proof -
  have "even (get_dword bs (4 + nr))" using assms(7) by (simp add: bit_0)
  then have "get_dword bs (4 + nr) mod 2 = 0" by (simp only: even_iff_mod_2_eq_zero)
  then have t: "get_dword (space_bytes s i) (4 + nr) AND 1 = 0" using assms(1) by (simp add: space_bytes_def and_one_eq)
  have m: "(size_mask bar :: i32) = mask n" using assms(4) by (simp add: mask_eq_exp_minus_1)
  show "is_probe bar v \<Longrightarrow> write_bar i (0x10 + 4 * nr) v s = store_dword i (4 + nr) (NOT (mask n) OR original_bar bar AND 0xF) s"
    "\<not> is_probe bar v \<Longrightarrow> write_bar i (0x10 + 4 * nr) v s =
       move_memory_bar i nr bar (v AND NOT (mask n)) (store_dword i (4 + nr) (v AND NOT (mask n) OR original_bar bar AND 0xF) s)"
    unfolding write_bar_def Let_def bar_index(1,2) assms(3) using t m assms(5,8) mask_low [of n v] by (simp_all add: and.assoc)
qed


section \<open>The port table\<close>

text \<open>The ports of a BAR of \<open>n\<close> ports at \<open>m\<close>, which may be nowhere.\<close>

definition at_port :: "nat option \<Rightarrow> nat \<Rightarrow> nat \<Rightarrow> bool" where
  "at_port m n p \<longleftrightarrow> (\<exists>a. m = Some a \<and> a \<le> p \<and> p < a + n)"

text \<open>
  The ports a movable I/O BAR asks for: behind bridges those it is assigned, on the root bus those that its register
  names. BARs that their device decodes itself (\<open>on_move\<close>) and fixed ones on the root bus ask for none.
\<close>

definition wanted_port :: "pci \<Rightarrow> nat \<Rightarrow> nat \<Rightarrow> pci_bar \<Rightarrow> nat option" where
  "wanted_port s i nr bar =
     (if i \<ge> 256 then assigned bar
      else if on_move bar \<or> fixed bar \<or> get_dword (space_bytes s i) (4 + nr) AND 1 = 0 then None
      else Some (io_port (get_dword (space_bytes s i) (4 + nr))))"

definition claim :: "pci \<Rightarrow> nat \<Rightarrow> nat \<Rightarrow> nat set" where
  "claim s i nr = {p. \<exists>bar. bar_of s i nr = Some bar \<and> at_port (wanted_port s i nr bar) (bar_size bar) p}"

text \<open>A BAR that is mapped answers at all its ports.\<close>

definition bar_shown :: "pci \<Rightarrow> nat \<Rightarrow> nat \<Rightarrow> bool" where
  "bar_shown s i nr \<longleftrightarrow>
     (\<forall>bar m k. bar_of s i nr = Some bar \<longrightarrow> mapped bar = Some m \<longrightarrow> k < bar_size bar \<longrightarrow> ports s (m + k) = entries bar ! k)"

text \<open>A port at which a BAR behind bridges is mapped.\<close>

definition port_mapped :: "pci \<Rightarrow> nat \<Rightarrow> bool" where
  "port_mapped s p \<longleftrightarrow> (\<exists>i nr bar. bar_of s i nr = Some bar \<and> at_port (mapped bar) (bar_size bar) p)"

text \<open>Every other port leads where it led in \<open>base\<close>, nowhere, or to a card on the root bus.\<close>

definition port_accounted :: "(nat \<Rightarrow> port_target) \<Rightarrow> pci \<Rightarrow> nat \<Rightarrow> bool" where
  "port_accounted base s p \<longleftrightarrow> port_mapped s p \<or> ports s p = base p \<or> ports s p = Empty_Port \<or>
     (\<exists>i nr bar k. i < 256 \<and> bar_of s i nr = Some bar \<and> ports s p = entries bar ! k)"

text \<open>The ports that the BARs may use, one set for each. Only BARs behind bridges are assigned and mapped at all.\<close>

definition disjoint_claims :: "(nat \<Rightarrow> nat \<Rightarrow> nat set) \<Rightarrow> bool" where
  "disjoint_claims D \<longleftrightarrow> (\<forall>i nr j m. (i, nr) \<noteq> (j, m) \<longrightarrow> D i nr \<inter> D j m = {})"

definition bars_within :: "(nat \<Rightarrow> nat \<Rightarrow> nat set) \<Rightarrow> pci \<Rightarrow> bool" where
  "bars_within D s \<longleftrightarrow> (\<forall>i nr bar p. bar_of s i nr = Some bar \<longrightarrow>
     (i < 256 \<longrightarrow> assigned bar = None) \<and> (assigned bar = None \<longrightarrow> mapped bar = None) \<and>
     (at_port (assigned bar) (bar_size bar) p \<or> at_port (mapped bar) (bar_size bar) p \<longrightarrow> p \<in> D i nr))"

text \<open>The part of a BAR that never changes.\<close>

definition same_hardware :: "pci \<Rightarrow> pci \<Rightarrow> bool" where
  "same_hardware s u \<longleftrightarrow> (\<forall>i nr. map_option (\<lambda>b. (bar_size b, entries b)) (bar_of u i nr) = map_option (\<lambda>b. (bar_size b, entries b)) (bar_of s i nr))"

text \<open>What a part of a step does to the ports, given the sets of ports that the BARs may use.\<close>

definition keeps_ports :: "(nat \<Rightarrow> nat \<Rightarrow> nat set) \<Rightarrow> pci \<Rightarrow> pci \<Rightarrow> bool" where
  "keeps_ports D s u \<longleftrightarrow> (disjoint_claims D \<longrightarrow> bars_within D s \<longrightarrow> (\<forall>i nr. bar_shown s i nr) \<longrightarrow>
     bars_within D u \<and> (\<forall>i nr. bar_shown u i nr) \<and> same_hardware s u \<and> (\<forall>p. (\<forall>i nr. p \<notin> D i nr) \<longrightarrow> ports u p = ports s p) \<and>
     (\<forall>base p. port_accounted base s p \<longrightarrow> port_accounted base u p))"

lemma keeps_ports_refl [simp]: "keeps_ports D s s"
  by (simp add: keeps_ports_def same_hardware_def)

lemma keeps_ports_trans: "keeps_ports D s u \<Longrightarrow> keeps_ports D u v \<Longrightarrow> keeps_ports D s v"
proof -
  have "same_hardware s u \<Longrightarrow> same_hardware u v \<Longrightarrow> same_hardware s v" by (simp add: same_hardware_def)
  then show "keeps_ports D s u \<Longrightarrow> keeps_ports D u v \<Longrightarrow> keeps_ports D s v" unfolding keeps_ports_def by metis
qed

lemma keeps_ports_fold: "(\<And>x u. keeps_ports D u (f x u)) \<Longrightarrow> keeps_ports D s (fold f xs s)"
  by (induction xs arbitrary: s) (auto intro: keeps_ports_trans)

lemma keeps_ports_quiet:
  assumes "ports u = ports s" "\<And>i nr. bar_of u i nr = bar_of s i nr" shows "keeps_ports D s u"
  using assms by (simp add: keeps_ports_def bars_within_def bar_shown_def same_hardware_def port_accounted_def port_mapped_def)

text \<open>A BAR whose record is changed, but not where it is mapped.\<close>

lemma keeps_ports_set_bar:
  assumes "bar_of s i nr = Some x" "bar_size b = bar_size x" "entries b = entries x" "mapped b = mapped x"
    and "assigned b = assigned x \<or> i \<ge> 256 \<and> assigned b \<noteq> None \<and> (\<forall>p. at_port (assigned b) (bar_size x) p \<longrightarrow> p \<in> D i nr)"
  shows "keeps_ports D s (set_bar i nr b s)"
proof -
  have "bar_of s i nr \<noteq> None" using assms(1) by simp
  from bar_of_set_bar [OF this, where b = b]
  have bars: "bar_of (set_bar i nr b s) i nr = Some b" "(j, m) \<noteq> (i, nr) \<Longrightarrow> bar_of (set_bar i nr b s) j m = bar_of s j m" for j m
    by auto
  have some: "\<exists>c. bar_of (set_bar i nr b s) j m = Some c \<and> entries c = entries bar \<and> bar_size c = bar_size bar \<and> mapped c = mapped bar"
    if "bar_of s j m = Some bar" for j m bar
    using that assms(1-4) bars(1) bars(2) [of j m] by (cases "(j, m) = (i, nr)") auto
  then have "port_mapped (set_bar i nr b s) p" if "port_mapped s p" for p
    using that unfolding port_mapped_def by metis
  then have "port_accounted base (set_bar i nr b s) p" if "port_accounted base s p" for base p
    using that some unfolding port_accounted_def set_bar_simps by metis
  moreover have "bars_within D (set_bar i nr b s)" if w: "bars_within D s"
  proof -
    have "(j < 256 \<longrightarrow> assigned c = None) \<and> (assigned c = None \<longrightarrow> mapped c = None) \<and>
        (at_port (assigned c) (bar_size c) p \<or> at_port (mapped c) (bar_size c) p \<longrightarrow> p \<in> D j m)"
      if "bar_of (set_bar i nr b s) j m = Some c" for j m c p
    proof (cases "(j, m) = (i, nr)")
      case True then show ?thesis using that w assms bars(1) unfolding bars_within_def by auto
    next
      case False then show ?thesis using that w bars(2) unfolding bars_within_def by metis
    qed
    then show ?thesis unfolding bars_within_def by blast
  qed
  moreover have "bar_shown (set_bar i nr b s) j m" if "\<forall>j m. bar_shown s j m" for j m
    using that assms(1-4) bars(1) bars(2) [of j m] unfolding bar_shown_def set_bar_simps by (cases "(j, m) = (i, nr)") auto
  moreover have "same_hardware s (set_bar i nr b s)"
    unfolding same_hardware_def
  proof (intro allI)
    show "map_option (\<lambda>b. (bar_size b, entries b)) (bar_of (set_bar i nr b s) j m) = map_option (\<lambda>b. (bar_size b, entries b)) (bar_of s j m)" for j m
      using assms(1-3) bars(1) bars(2) [of j m] by (cases "(j, m) = (i, nr)") auto
  qed
  ultimately show ?thesis by (simp add: keeps_ports_def)
qed

text \<open>Mapping one BAR anew: it moves from the ports it had to those it belongs at, and no other port changes.\<close>

lemma update_io_bar_moves:
  assumes "bar_of s i nr = Some bar" "io_bar_place s i bar \<noteq> mapped bar" "bar_shown s i nr"
  shows "io_bar_place s i bar = Some a \<Longrightarrow> k < bar_size bar \<Longrightarrow> ports (update_io_bar i nr s) (a + k) = entries bar ! k"
    "at_port (mapped bar) (bar_size bar) p \<Longrightarrow> \<not> at_port (io_bar_place s i bar) (bar_size bar) p \<Longrightarrow> ports (update_io_bar i nr s) p = Empty_Port"
    "\<not> at_port (mapped bar) (bar_size bar) p \<Longrightarrow> \<not> at_port (io_bar_place s i bar) (bar_size bar) p \<Longrightarrow> ports (update_io_bar i nr s) p = ports s p"
proof -
  note u = update_io_bar_ports [OF assms(1,2)]
  show "io_bar_place s i bar = Some a \<Longrightarrow> k < bar_size bar \<Longrightarrow> ports (update_io_bar i nr s) (a + k) = entries bar ! k"
    using u [of "a + k"] by simp
  have "ports s p = entries bar ! (p - m)" if "mapped bar = Some m" "m \<le> p" "p < m + bar_size bar" for m
    using assms(1,3) that unfolding bar_shown_def by (metis add_diff_inverse_nat less_diff_conv2 add.commute not_less)
  then show "at_port (mapped bar) (bar_size bar) p \<Longrightarrow> \<not> at_port (io_bar_place s i bar) (bar_size bar) p \<Longrightarrow> ports (update_io_bar i nr s) p = Empty_Port"
    using u [of p] by (auto simp: at_port_def Let_def split: option.splits)
  show "\<not> at_port (mapped bar) (bar_size bar) p \<Longrightarrow> \<not> at_port (io_bar_place s i bar) (bar_size bar) p \<Longrightarrow> ports (update_io_bar i nr s) p = ports s p"
    using u [of p] by (auto simp: at_port_def Let_def split: option.splits)
qed

lemma bars_withinD: "bars_within D s \<Longrightarrow> bar_of s i nr = Some bar \<Longrightarrow> assigned bar = m \<or> mapped bar = m \<Longrightarrow> at_port m (bar_size bar) p \<Longrightarrow> p \<in> D i nr"
  unfolding bars_within_def by blast

lemma io_bar_place_assigned: "io_bar_place s i bar = None \<or> io_bar_place s i bar = assigned bar"
  by (auto simp: io_bar_place_def split: option.splits)

lemma update_bar_of:
  assumes "bar_of s i nr = Some bar"
  shows "bar_of (update_io_bar i nr s) i nr = Some (bar\<lparr>mapped := io_bar_place s i bar\<rparr>)"
    "(j, m) \<noteq> (i, nr) \<Longrightarrow> bar_of (update_io_bar i nr s) j m = bar_of s j m"
  unfolding update_io_bar_bars using assms by auto

lemma update_bars_within:
  assumes "bars_within D s" "bar_of s i nr = Some bar" shows "bars_within D (update_io_bar i nr s)"
proof -
  have new: "p \<in> D i nr" if "at_port (io_bar_place s i bar) (bar_size bar) p" for p
    using assms that io_bar_place_assigned [of s i bar] unfolding bars_within_def by (metis at_port_def option.distinct(1))
  have "(j < 256 \<longrightarrow> assigned b = None) \<and> (assigned b = None \<longrightarrow> mapped b = None) \<and>
      (at_port (assigned b) (bar_size b) p \<or> at_port (mapped b) (bar_size b) p \<longrightarrow> p \<in> D j m)"
    if "bar_of (update_io_bar i nr s) j m = Some b" for j m b p
  proof (cases "(j, m) = (i, nr)")
    case True
    then show ?thesis using that new assms update_bar_of(1) [OF assms(2)] io_bar_place_assigned [of s i bar]
      unfolding bars_within_def by auto
  next
    case False then show ?thesis using that assms(1) update_bar_of(2) [OF assms(2)] unfolding bars_within_def by metis
  qed
  then show ?thesis unfolding bars_within_def by blast
qed

lemma update_bars_shown:
  assumes "disjoint_claims D" "bars_within D s" "\<And>i nr. bar_shown s i nr" "bar_of s i nr = Some bar" "io_bar_place s i bar \<noteq> mapped bar"
  shows "bar_shown (update_io_bar i nr s) j m"
proof (cases "(j, m) = (i, nr)")
  case True
  then show ?thesis using update_io_bar_moves(1) [OF assms(4,5,3)] by (auto simp: bar_shown_def update_bar_of(1) [OF assms(4)])
next
  case False
  then have dj: "D j m \<inter> D i nr = {}" using assms(1) by (auto simp: disjoint_claims_def)
  have "ports (update_io_bar i nr s) (x + k) = ports s (x + k)" if b: "bar_of s j m = Some b" "mapped b = Some x" "k < bar_size b" for b x k
  proof (rule update_io_bar_moves(3) [OF assms(4,5,3)])
    have "x + k \<in> D j m" using bars_withinD [OF assms(2) b(1), of "Some x" "x + k"] b by (simp add: at_port_def)
    then have n: "x + k \<notin> D i nr" using dj by blast
    show "\<not> at_port (mapped bar) (bar_size bar) (x + k)" using n bars_withinD [OF assms(2,4)] by blast
    show "\<not> at_port (io_bar_place s i bar) (bar_size bar) (x + k)"
      using n bars_withinD [OF assms(2,4)] io_bar_place_assigned [of s i bar] by (metis at_port_def option.distinct(1))
  qed
  then show ?thesis using assms(3) [of j m] unfolding bar_shown_def update_bar_of(2) [OF assms(4) False] by simp
qed

lemma update_accounted:
  assumes "bar_shown s i nr" "bar_of s i nr = Some bar" "io_bar_place s i bar \<noteq> mapped bar" "port_accounted base s p"
  shows "port_accounted base (update_io_bar i nr s) p"
proof -
  let ?u = "update_io_bar i nr s"
  note bars = update_bar_of [OF assms(2)] and mv = update_io_bar_moves [OF assms(2,3,1)]
  consider "at_port (io_bar_place s i bar) (bar_size bar) p"
    | "\<not> at_port (io_bar_place s i bar) (bar_size bar) p" "at_port (mapped bar) (bar_size bar) p"
    | "\<not> at_port (io_bar_place s i bar) (bar_size bar) p" "\<not> at_port (mapped bar) (bar_size bar) p" by blast
  then show ?thesis
  proof cases
    case 1
    then have "port_mapped ?u p" unfolding port_mapped_def using bars(1) by fastforce
    then show ?thesis by (simp add: port_accounted_def)
  next
    case 2 then show ?thesis using mv(2) by (simp add: port_accounted_def)
  next
    case 3
    have "port_mapped ?u p" if mp: "port_mapped s p"
    proof -
      obtain j m b where b: "bar_of s j m = Some b" "at_port (mapped b) (bar_size b) p"
        using mp unfolding port_mapped_def by blast
      then have "(j, m) \<noteq> (i, nr)" using 3(2) assms(2) by auto
      from bars(2) [OF this] show ?thesis using b unfolding port_mapped_def by (metis (full_types))
    qed
    moreover have "\<exists>c. bar_of ?u j m = Some c \<and> entries c = entries b" if "bar_of s j m = Some b" for j m b
      using that assms(2) bars(1) bars(2) [of j m] by (cases "(j, m) = (i, nr)") auto
    ultimately show ?thesis using assms(4) mv(3) [OF 3(2,1)] unfolding port_accounted_def by metis
  qed
qed

lemma keeps_ports_update: "keeps_ports D s (update_io_bar i nr s)"
proof (cases "\<exists>bar. bar_of s i nr = Some bar \<and> io_bar_place s i bar \<noteq> mapped bar")
  case False
  then have "update_io_bar i nr s = s" by (auto simp: update_io_bar_def Let_def split: option.split)
  then show ?thesis by simp
next
  case True
  then obtain bar where bar: "bar_of s i nr = Some bar" "io_bar_place s i bar \<noteq> mapped bar" by blast
  have hw: "same_hardware s (update_io_bar i nr s)" using bar(1) by (auto simp: same_hardware_def update_io_bar_bars)
  have frame: "ports (update_io_bar i nr s) p = ports s p" if w: "bars_within D s" and sh: "\<forall>i nr. bar_shown s i nr" and p: "p \<notin> D i nr" for p
  proof (rule update_io_bar_moves(3) [OF bar])
    show "\<not> at_port (mapped bar) (bar_size bar) p" using p bars_withinD [OF w bar(1)] by blast
    show "\<not> at_port (io_bar_place s i bar) (bar_size bar) p"
      using p bars_withinD [OF w bar(1)] io_bar_place_assigned [of s i bar] by (metis at_port_def option.distinct(1))
  qed (use sh in blast)
  show ?thesis
    unfolding keeps_ports_def using hw frame update_bars_within [OF _ bar(1)] update_bars_shown [OF _ _ _ bar] update_accounted [OF _ bar]
    by blast
qed

text \<open>On the root bus a BAR gives up its old ports and takes the new ones, whoever was there.\<close>

lemma set_io_ports:
  "(\<not> at_port (Some from1) n p \<and> \<not> at_port (Some to1) n p \<longrightarrow>
     fold (\<lambda>i f. let f1 = (if from1 + i \<ge> 0x1000 then create_empty (from1 + i) f else f)
                 in if to1 + i \<ge> 0x1000 then f1(to1 + i := entries bar ! i) else f1) [0..<n] f p = f p) \<and>
   fold (\<lambda>i f. let f1 = (if from1 + i \<ge> 0x1000 then create_empty (from1 + i) f else f)
               in if to1 + i \<ge> 0x1000 then f1(to1 + i := entries bar ! i) else f1) [0..<n] f p \<in> {f p, Empty_Port} \<union> range (\<lambda>k. entries bar ! k)"
  by (induction n) (auto simp: at_port_def create_empty_def Let_def)

lemma keeps_ports_set_io:
  assumes "bar_of s i nr = Some bar" "i < 256" "\<And>p. at_port (Some from1) (bar_size bar) p \<or> at_port (Some to1) (bar_size bar) p \<Longrightarrow> p \<in> D i nr"
  shows "keeps_ports D s (set_io_bars bar from1 to1 s)"
proof -
  let ?u = "set_io_bars bar from1 to1 s"
  have bars: "bar_of ?u j m = bar_of s j m" for j m by (simp add: set_io_bars_def)
  have same: "ports ?u p = ports s p" if "p \<notin> D i nr" for p
    using set_io_ports [of from1 "bar_size bar" p to1 bar "ports s"] assms(3) that by (auto simp: set_io_bars_def)
  have change: "ports ?u p \<in> {ports s p, Empty_Port} \<union> range (\<lambda>k. entries bar ! k)" for p
    using set_io_ports [of from1 "bar_size bar" p to1 bar "ports s"] by (simp add: set_io_bars_def)
  have "bar_shown ?u j m" if d: "disjoint_claims D" and w: "bars_within D s" and sh: "\<forall>i nr. bar_shown s i nr" for j m
  proof (cases "(j, m) = (i, nr)")
    case True
    then have "mapped b = None" if "bar_of s j m = Some b" for b using w assms(1,2) that unfolding bars_within_def by auto
    then show ?thesis unfolding bar_shown_def bars by fastforce
  next
    case False
    then have "D j m \<inter> D i nr = {}" using d by (auto simp: disjoint_claims_def)
    moreover have "x + k \<in> D j m" if "bar_of s j m = Some b" "mapped b = Some x" "k < bar_size b" for b x k
      using bars_withinD [OF w that(1), of "mapped b" "x + k"] that by (simp add: at_port_def)
    ultimately have "ports ?u (x + k) = ports s (x + k)" if "bar_of s j m = Some b" "mapped b = Some x" "k < bar_size b" for b x k
      using that same by blast
    then show ?thesis using sh unfolding bar_shown_def bars by metis
  qed
  moreover have "port_accounted base ?u p" if "port_accounted base s p" for base p
  proof -
    have "port_mapped ?u p = port_mapped s p" by (simp add: port_mapped_def bars)
    then show ?thesis using that change [of p] assms(1,2) unfolding port_accounted_def bars by fastforce
  qed
  ultimately show ?thesis using same by (simp add: keeps_ports_def bars_within_def same_hardware_def bars)
qed

section \<open>What a step does to the ports\<close>

lemma keeps_ports_emit [simp]: "keeps_ports D s (pci_emit e s)"
  by (rule keeps_ports_quiet) simp_all

lemma keeps_ports_set_space [simp]: "keeps_ports D s (set_space i bs s)"
  by (rule keeps_ports_quiet) (simp_all add: set_space_def)

lemma keeps_ports_store [simp]: "keeps_ports D s (store_dword i k v s)"
  by (simp add: store_dword_def)

lemma keeps_ports_drive [simp]: "keeps_ports D s (drive_intx route i v s)"
  by (rule keeps_ports_quiet) simp_all

lemma keeps_ports_irq: "keeps_ports D s (set_irq_level route i v s)"
proof -
  have a: "keeps_ports D s (s\<lparr>intx_levels := x\<rparr>)" for x by (rule keeps_ports_quiet) simp_all
  have "keeps_ports D s (case space_of (s\<lparr>intx_levels := x\<rparr>) i of None \<Rightarrow> s\<lparr>intx_levels := x\<rparr>
      | Some bs \<Rightarrow> set_space i (interrupt_status v bs) (s\<lparr>intx_levels := x\<rparr>))" for x
    using a keeps_ports_trans [OF a keeps_ports_set_space] by (simp split: option.split)
  from keeps_ports_trans [OF this keeps_ports_drive] show ?thesis unfolding set_irq_level_def Let_def .
qed

lemma keeps_ports_upstream: "keeps_ports D s (upstream_changed i s)"
  unfolding upstream_changed_def
  by (rule keeps_ports_trans [OF keeps_ports_fold keeps_ports_emit]) (simp add: keeps_ports_update)

lemma keeps_ports_bridge: "keeps_ports D s (bridge_changed b s)"
  unfolding bridge_changed_def by (rule keeps_ports_fold) (simp add: keeps_ports_upstream)

lemma keeps_ports_command: "keeps_ports D s (command_changed route i old command s)"
proof -
  have e: "keeps_ports D s (pci_emit e (if x then drive_intx route i v s else s))" for e x v
    by (rule keeps_ports_trans [OF _ keeps_ports_emit]) simp
  show ?thesis unfolding command_changed_def Let_def using e keeps_ports_trans [OF e keeps_ports_bridge] by simp
qed

lemma keeps_ports_bytes: "keeps_ports D s (write_config_bytes route i off sz v bs s)"
  unfolding write_config_bytes_def Let_def
  by (auto intro: keeps_ports_trans [OF keeps_ports_set_space keeps_ports_command] keeps_ports_trans [OF keeps_ports_set_space keeps_ports_bridge])

lemma keeps_ports_move: "bar_of s i nr = Some bar \<Longrightarrow> keeps_ports D s (move_memory_bar i nr bar a s)"
  "bar_of s i nr = Some bar \<Longrightarrow> keeps_ports D s (move_io_bar i nr bar a s)"
  unfolding move_memory_bar_def move_io_bar_def
  by (auto intro!: keeps_ports_trans [OF keeps_ports_set_bar keeps_ports_emit])

text \<open>A write to a BAR, where its claims before and after are among the ports it may use.\<close>

lemma io_port_type: "io_port (v OR 1) = io_port v"
proof -
  have "(v OR 1) AND NOT 1 = v AND NOT (1 :: i32)" by (rule bit_word_eqI) (auto simp: bit_simps)
  then show ?thesis unfolding io_port_def and.assoc [symmetric] by (rule arg_cong)
qed

lemma claim_iff: "bar_of s i nr = Some bar \<Longrightarrow> p \<in> claim s i nr \<longleftrightarrow> at_port (wanted_port s i nr bar) (bar_size bar) p"
  by (simp add: claim_def)

lemma keeps_ports_write_bar:
  assumes "space_of s i = Some bs" "0x14 + 4 * nr \<le> length bs" "u = write_bar i (0x10 + 4 * nr) v s"
    and "claim s i nr \<subseteq> D i nr" "claim u i nr \<subseteq> D i nr"
  shows "keeps_ports D s u"
proof (cases "bar_of s i nr")
  case None
  then show ?thesis unfolding assms(3) write_bar_def Let_def bar_index(1,2) by simp
next
  case (Some bar)
  let ?k = "4 + nr"
  have sb: "space_bytes s i = bs" using assms(1) by (simp add: space_bytes_def)
  have sd: "keeps_ports D s (store_dword i ?k x s)" "bar_of (store_dword i ?k x s) i nr = Some bar" for x using Some by simp_all
  note mv = keeps_ports_trans [OF sd(1) keeps_ports_move(1) [OF sd(2)]] keeps_ports_trans [OF sd(1) keeps_ports_move(2) [OF sd(2)]]
  define w where "w = (if is_probe bar v then NOT (size_mask bar) OR (get_dword bs ?k AND 1) else v)"
  consider (device) "on_move bar \<or> fixed bar \<or> get_dword bs ?k AND 1 = 0"
    | (behind) "\<not> on_move bar" "\<not> fixed bar" "get_dword bs ?k AND 1 \<noteq> 0" "i \<ge> 256"
    | (root) "\<not> on_move bar" "\<not> fixed bar" "get_dword bs ?k AND 1 \<noteq> 0" "i < 256" by fastforce
  then show ?thesis
  proof cases
    case device
    then show ?thesis unfolding assms(3) write_bar_def Let_def bar_index(1,2) Some option.case sb using sd(1) mv by auto
  next
    case behind
    let ?b = "bar\<lparr>assigned := Some (io_port w)\<rparr>"
    have e: "u = update_io_bar i nr (store_dword i ?k (w OR 1) (set_bar i nr ?b s))"
      unfolding assms(3) write_bar_def Let_def bar_index(1,2) Some option.case sb w_def using behind by simp
    have n: "bar_of s i nr \<noteq> None" using Some by simp
    have "bar_of u i nr = Some (?b\<lparr>mapped := io_bar_place (store_dword i ?k (w OR 1) (set_bar i nr ?b s)) i ?b\<rparr>)"
      unfolding e update_io_bar_bars using bar_of_set_bar [OF n, where b = ?b and j = i and m = nr] by simp
    then have "p \<in> D i nr" if "at_port (Some (io_port w)) (bar_size bar) p" for p
      using assms(5) that behind(4) by (auto simp: claim_iff wanted_port_def)
    then have "keeps_ports D s (set_bar i nr ?b s)" using behind(4) by (intro keeps_ports_set_bar [OF Some]) simp_all
    then show ?thesis unfolding e by (meson keeps_ports_trans keeps_ports_store keeps_ports_update)
  next
    case root
    have e: "u = store_dword i ?k (w OR 1) (set_io_bars bar (io_port (get_dword bs ?k)) (io_port w) s)"
      unfolding assms(3) write_bar_def Let_def bar_index(1,2) Some option.case sb w_def using root by simp
    have si: "space_bytes (set_io_bars bar x y s) i = bs" for x y using assms(1) by (simp add: set_io_bars_def space_bytes_def)
    have "space_bytes u i = set_dword bs ?k (w OR 1)" unfolding e using si by (simp add: space_bytes_def [of "store_dword i k v x" i for k v x])
    then have g: "get_dword (space_bytes u i) ?k = w OR 1" using assms(2) by (simp add: get_set_dword)
    have "bar_of u i nr = Some bar" unfolding e using Some by (simp add: set_io_bars_def)
    then have "p \<in> D i nr" if "at_port (Some (io_port w)) (bar_size bar) p" for p
      using assms(5) that root g by (auto simp: claim_iff wanted_port_def io_port_type bit.conj_disj_distrib2)
    moreover have "p \<in> D i nr" if "at_port (Some (io_port (get_dword bs ?k))) (bar_size bar) p" for p
      using assms(4) that root Some sb by (auto simp: claim_iff wanted_port_def)
    ultimately have "keeps_ports D s (set_io_bars bar (io_port (get_dword bs ?k)) (io_port w) s)"
      using root(4) by (intro keeps_ports_set_io [OF Some]) auto
    then show ?thesis unfolding e by (rule keeps_ports_trans) simp
  qed
qed

lemma keeps_ports_function_write:
  assumes "u = function_write route t off sz v s" "sz = 4 \<Longrightarrow> (\<And>i nr. claim s i nr \<subseteq> D i nr \<and> claim u i nr \<subseteq> D i nr)"
  shows "keeps_ports D s u"
proof (cases "\<exists>i bs. t = Some i \<and> space_of s i = Some bs \<and> off + sz \<le> length bs")
  case False
  then have "u = s" unfolding assms(1) function_write_def by (auto split: option.split)
  then show ?thesis by simp
next
  case True
  then obtain i bs where t: "t = Some i" "space_of s i = Some bs" "off + sz \<le> length bs" by blast
  show ?thesis
  proof (cases "is_bar_offset (is_bridge s i) off")
    case False
    then have "u = write_config_bytes route i off sz v bs s \<or> (\<exists>e. u = pci_emit e (write_config_bytes route i off sz v bs s))"
      unfolding assms(1) function_write_def Let_def using t by auto
    then show ?thesis using keeps_ports_bytes keeps_ports_trans [OF keeps_ports_bytes keeps_ports_emit] by auto
  next
    case bar: True
    have "u = (if sz = 4 \<and> off mod 4 = 0 then if off = 0x30 then write_expansion_rom i v s else write_bar i off v s else s)"
      unfolding assms(1) function_write_def using t bar by simp
    then consider "u = s" | "u = write_expansion_rom i v s" | "sz = 4" "off mod 4 = 0" "u = write_bar i off v s"
      by (auto split: if_splits)
    then show ?thesis
    proof cases
      case 2 then show ?thesis by (auto simp: write_expansion_rom_def split: option.split)
    next
      case 3
      obtain nr where nr: "off = 0x10 + 4 * nr"
      proof (rule that [of "off div 4 - 4"])
        have "off = 4 * (off div 4)" using 3(2) by (simp add: minus_mod_eq_mult_div [symmetric])
        moreover have "off \<ge> 0x10" using bar by (auto simp: is_bar_offset_def split: if_splits)
        ultimately show "off = 0x10 + 4 * (off div 4 - 4)" by linarith
      qed
      show ?thesis
        by (rule keeps_ports_write_bar [OF t(2), where nr = nr and v = v]) (use t(3) 3(1,3) nr assms(2) in \<open>auto simp: algebra_simps\<close>)
    qed simp
  qed
qed

text \<open>A card that comes fresh has its BARs assigned anew; then they are mapped where they belong.\<close>

lemma refresh_assigned:
  "map_option assigned (bar_of (refresh_bar i template nr s) j m) =
     map_option (\<lambda>b. if (j, m) = (i, nr) \<and> get_dword template (4 + nr) AND 1 \<noteq> 0 \<and> \<not> on_move b
       then Some (io_port (get_dword template (4 + nr))) else assigned b) (bar_of s j m)"
  "map_option on_move (bar_of (refresh_bar i template nr s) j m) = map_option on_move (bar_of s j m)"
proof -
  have "map_option (\<lambda>b. (assigned b, on_move b)) (bar_of (refresh_bar i template nr s) j m) =
      map_option (\<lambda>b. (if (j, m) = (i, nr) \<and> get_dword template (4 + nr) AND 1 \<noteq> 0 \<and> \<not> on_move b
        then Some (io_port (get_dword template (4 + nr))) else assigned b, on_move b)) (bar_of s j m)"
  proof (cases "bar_of s i nr")
    case (Some bar)
    then have n: "bar_of s i nr \<noteq> None" by simp
    show ?thesis using Some bar_of_set_bar [OF n, where j = j and m = m]
      by (cases "(j, m) = (i, nr)") (auto simp: refresh_bar_def move_io_bar_def move_memory_bar_def Let_def)
  next
    case None
    then have "refresh_bar i template nr s = s" by (simp add: refresh_bar_def)
    then show ?thesis using None by (cases "(j, m) = (i, nr)") auto
  qed
  from arg_cong [OF this, of "map_option fst"] arg_cong [OF this, of "map_option snd"]
  show "map_option assigned (bar_of (refresh_bar i template nr s) j m) =
     map_option (\<lambda>b. if (j, m) = (i, nr) \<and> get_dword template (4 + nr) AND 1 \<noteq> 0 \<and> \<not> on_move b
       then Some (io_port (get_dword template (4 + nr))) else assigned b) (bar_of s j m)"
    "map_option on_move (bar_of (refresh_bar i template nr s) j m) = map_option on_move (bar_of s j m)"
    by (simp_all add: option.map_comp comp_def)
qed

lemma keeps_ports_refresh:
  assumes "i \<ge> 256"
    and "\<And>nr bar p. nr \<in> set nrs \<Longrightarrow> bar_of s i nr = Some bar \<Longrightarrow> get_dword template (4 + nr) AND 1 \<noteq> 0 \<Longrightarrow> \<not> on_move bar \<Longrightarrow>
      at_port (Some (io_port (get_dword template (4 + nr)))) (bar_size bar) p \<Longrightarrow> p \<in> D i nr"
  shows "keeps_ports D s (fold (refresh_bar i template) nrs s)"
  using assms(2)
proof (induction nrs arbitrary: s)
  case (Cons nr nrs)
  have "keeps_ports D s (refresh_bar i template nr s)"
  proof (cases "bar_of s i nr")
    case (Some bar)
    have "keeps_ports D s (set_bar i nr (bar\<lparr>assigned := Some (io_port (get_dword template (4 + nr)))\<rparr>) s)"
      if "get_dword template (4 + nr) AND 1 \<noteq> 0" "\<not> on_move bar"
      using Cons.prems [of nr bar] Some that assms(1) by (intro keeps_ports_set_bar [OF Some]) auto
    then show ?thesis using keeps_ports_move [OF Some] Some by (simp add: refresh_bar_def Let_def)
  qed (simp add: refresh_bar_def)
  moreover have "keeps_ports D (refresh_bar i template nr s) (fold (refresh_bar i template) nrs (refresh_bar i template nr s))"
  proof (rule Cons.IH)
    fix m b p
    assume a: "m \<in> set nrs" "bar_of (refresh_bar i template nr s) i m = Some b" "get_dword template (4 + m) AND 1 \<noteq> 0" "\<not> on_move b"
      "at_port (Some (io_port (get_dword template (4 + m)))) (bar_size b) p"
    obtain c where c: "bar_of s i m = Some c" "on_move c = on_move b" "bar_size c = bar_size b"
    proof (cases "bar_of s i nr")
      case (Some bar)
      then have n: "bar_of s i nr \<noteq> None" by simp
      then show thesis using that Some a(2) bar_of_set_bar [OF n, where j = i and m = m]
        by (cases "m = nr") (auto simp: refresh_bar_def move_io_bar_def move_memory_bar_def Let_def split: if_splits)
    next
      case None then show thesis using that a(2) by (auto simp: refresh_bar_def)
    qed
    then show "p \<in> D i m" using Cons.prems [of m c p] a by simp
  qed
  ultimately show ?case by (simp add: keeps_ports_trans)
qed simp

text \<open>What the fold leaves assigned.\<close>

lemma refresh_size: "map_option bar_size (bar_of (refresh_bar i template nr s) j m) = map_option bar_size (bar_of s j m)"
proof (cases "bar_of s i nr")
  case (Some bar)
  then have n: "bar_of s i nr \<noteq> None" by simp
  show ?thesis using Some bar_of_set_bar [OF n, where j = j and m = m]
    by (cases "(j, m) = (i, nr)") (auto simp: refresh_bar_def move_io_bar_def move_memory_bar_def Let_def)
next
  case None
  then have "refresh_bar i template nr s = s" by (simp add: refresh_bar_def)
  then show ?thesis by simp
qed

lemma fold_refresh_size: "map_option bar_size (bar_of (fold (refresh_bar i template) nrs s) j m) = map_option bar_size (bar_of s j m)"
  by (induction nrs arbitrary: s) (simp_all add: refresh_size)

lemma fold_refresh_assigned:
  assumes "distinct nrs" "nr \<in> set nrs" "bar_of s i nr = Some bar" "get_dword template (4 + nr) AND 1 \<noteq> 0" "\<not> on_move bar"
  shows "\<exists>b. bar_of (fold (refresh_bar i template) nrs s) i nr = Some b \<and> assigned b = Some (io_port (get_dword template (4 + nr)))"
proof -
  have other: "\<exists>b. bar_of (fold (refresh_bar i template) ms t) i nr = Some b \<and> assigned b = a"
    if "nr \<notin> set ms" "\<exists>b. bar_of t i nr = Some b \<and> assigned b = a" for ms t a
    using that
  proof (induction ms arbitrary: t)
    case (Cons m ms)
    then have "\<exists>b. bar_of (refresh_bar i template m t) i nr = Some b \<and> assigned b = a"
      using refresh_assigned(1) [where i = i and template = template and nr = m and s = t and j = i and m = nr] by auto
    then show ?case using Cons by simp
  qed simp
  show ?thesis using assms
  proof (induction nrs arbitrary: s bar)
    case (Cons m ms)
    show ?case
    proof (cases "m = nr")
      case True
      have "\<exists>b. bar_of (refresh_bar i template nr s) i nr = Some b \<and> assigned b = Some (io_port (get_dword template (4 + nr)))"
        using refresh_assigned(1) [where i = i and template = template and nr = nr and s = s and j = i and m = nr] Cons.prems(3-5) by auto
      then show ?thesis using True other [of ms] Cons.prems(1) by simp
    next
      case False
      obtain c where "bar_of (refresh_bar i template m s) i nr = Some c" "\<not> on_move c"
        using refresh_assigned(2) [where i = i and template = template and nr = m and s = s and j = i and m = nr] Cons.prems(3,5) by auto
      then show ?thesis using Cons False by auto
    qed
  qed simp
qed

lemma keeps_ports_slot:
  assumes "i \<ge> 256" "u = set_function_present route i present fresh s" "\<And>nr. claim u i nr \<subseteq> D i nr"
  shows "keeps_ports D s u"
proof -
  define s1 where "s1 = (if \<not> present \<and> \<not> js_get False (absent s) i then pci_emit (On_Unplug i) s else s)"
  define s2 where "s2 = s1\<lparr>absent := js_put False (absent s1) i (\<not> present)\<rparr>"
  define s3 where "s3 = switch_function i present fresh s"
  have e3: "s3 = (if present \<and> fresh then case js_get None (templates s2) i of Some template \<Rightarrow> fresh_function i template s2 | None \<Rightarrow> s2 else s2)"
    by (simp only: s3_def switch_function_def s1_def s2_def Let_def)
  have "keeps_ports D s s1" "keeps_ports D s1 s2" unfolding s1_def s2_def by (simp, rule keeps_ports_quiet) simp_all
  then have k2: "keeps_ports D s s2" by (rule keeps_ports_trans)
  define s4 where "s4 = set_irq_level route i (js_get False (intx_levels s3) i) s3"
  have u: "u = upstream_changed i s4" unfolding assms(2) set_function_present_def Let_def s4_def s3_def ..
  have bars4: "bar_of s4 j m = bar_of s3 j m" for j m by (simp add: s4_def set_irq_level_def Let_def split: option.split)
  have same: "map_option (\<lambda>b. b\<lparr>mapped := None\<rparr>) (bar_of u j m) = map_option (\<lambda>b. b\<lparr>mapped := None\<rparr>) (bar_of s3 j m)" for j m
    using same_devices_simps(6) [where s = s4 and u = u and i = j and nr = m] upstream_changed_frame [of s4 i] unfolding u bars4 by (simp add: io_frame_def)
  have wants: "p \<in> D i nr" if b: "bar_of s3 i nr = Some b" "assigned b = Some a" "at_port (Some a) (bar_size b) p" for nr b a p
  proof -
    obtain c where c: "bar_of u i nr = Some c" "c\<lparr>mapped := None\<rparr> = b\<lparr>mapped := None\<rparr>" using same [where j = i and m = nr] b(1) by auto
    from arg_cong [OF c(2), of assigned] arg_cong [OF c(2), of bar_size] have "assigned c = Some a" "bar_size c = bar_size b" using b(2) by simp_all
    then have "p \<in> claim u i nr" using claim_iff [OF c(1), of p] b(3) assms(1) by (simp add: wanted_port_def)
    then show ?thesis using assms(3) by blast
  qed
  have "keeps_ports D s2 s3"
  proof (cases "\<exists>template. s3 = fresh_function i template s2")
    case False then show ?thesis using e3 by (auto split: option.splits)
  next
    case True
    then obtain template where s3: "s3 = fresh_function i template s2" by blast
    define t where "t = set_space i template s2"
    let ?f = "fold (refresh_bar i template) [0..<bar_count t i] t"
    have b3: "bar_of s3 j m = bar_of ?f j m" "ports s3 = ports ?f" for j m by (simp_all add: s3 fresh_function_def t_def Let_def)
    have "keeps_ports D t ?f"
    proof (rule keeps_ports_refresh [OF assms(1)])
      fix nr bar p
      assume a: "nr \<in> set [0..<bar_count t i]" "bar_of t i nr = Some bar" "get_dword template (4 + nr) AND 1 \<noteq> 0" "\<not> on_move bar"
        "at_port (Some (io_port (get_dword template (4 + nr)))) (bar_size bar) p"
      obtain b where b: "bar_of ?f i nr = Some b" "assigned b = Some (io_port (get_dword template (4 + nr)))"
        using fold_refresh_assigned [OF distinct_upt a(1-4)] by blast
      have "bar_size b = bar_size bar" using fold_refresh_size [where s = t and i = i and template = template and nrs = "[0..<bar_count t i]" and j = i and m = nr] a(2) b(1) by simp
      then show "p \<in> D i nr" using wants [of nr b] b b3(1) a(5) by simp
    qed
    then show ?thesis
      using keeps_ports_trans [OF keeps_ports_set_space [of D s2 i template, folded t_def]] keeps_ports_quiet [of s3 ?f D] b3 by (blast intro: keeps_ports_trans)
  qed
  then have "keeps_ports D s s3" by (rule keeps_ports_trans [OF k2])
  moreover have "keeps_ports D s3 s4" unfolding s4_def by (rule keeps_ports_irq)
  ultimately show ?thesis unfolding u by (meson keeps_ports_trans keeps_ports_upstream)
qed

section \<open>What a run does to the ports\<close>

text \<open>The ports of a step: what the BARs ask for before and after it.\<close>

definition step_claims :: "pci \<Rightarrow> pci \<Rightarrow> nat \<Rightarrow> nat \<Rightarrow> nat set" where
  "step_claims s u i nr = claim s i nr \<union> claim u i nr"

lemma keeps_ports_step:
  assumes "pci_step route e s = Some u" "pci_event_ok s e"
  shows "keeps_ports (step_claims s u) s u"
proof -
  have cl: "claim s i nr \<subseteq> step_claims s u i nr" "claim u i nr \<subseteq> step_claims s u i nr" for i nr by (auto simp: step_claims_def)
  have cw: "keeps_ports (step_claims s x) s x" if "config_write route bdf off sz v s = Some x" for bdf off sz v s x
    using that keeps_ports_function_write [of x route _ off sz v s "step_claims s x"]
    by (auto simp: config_write_def step_claims_def split: option.splits)
  have byte: "keeps_ports D s x" if "config_write route bdf off 1 v s = Some x" for bdf off v s x D
    using that keeps_ports_function_write [of x route _ off 1 v s D] by (auto simp: config_write_def split: option.splits)
  show ?thesis
  proof (cases e)
    case (Addr_Write k v)
    have "keeps_ports D s (addr_write k v s)" for D by (rule keeps_ports_quiet) (simp_all add: addr_write_def)
    then show ?thesis using assms(1) Addr_Write by auto
  next
    case (Cf8_Write port_offset sz v)
    then show ?thesis using assms(1) cw by (auto simp: config_write_cf8_def split: option.splits)
  next
    case (Ecam_Write8 off v)
    then show ?thesis using assms(1) cw by (simp add: ecam_write8_def)
  next
    case (Ecam_Write32 off v)
    have "keeps_ports D t x"
      if "fold (\<lambda>i u. case u of None \<Rightarrow> None | Some x \<Rightarrow> ecam_write8 route (off + i) (drop_bit (i * 8) v AND 0xFF) x) ns (Some t) = Some x" for D ns t x
      using that
    proof (induction ns arbitrary: t)
      case (Cons n ns)
      have none: "fold (\<lambda>i u. case u of None \<Rightarrow> None | Some x \<Rightarrow> ecam_write8 route (off + i) (drop_bit (i * 8) v AND 0xFF) x) ns None = None"
        by (induction ns) simp_all
      obtain y where y: "ecam_write8 route (off + n) (drop_bit (n * 8) v AND 0xFF) t = Some y"
        using Cons.prems none by (cases "ecam_write8 route (off + n) (drop_bit (n * 8) v AND 0xFF) t") simp_all
      then have "keeps_ports D t y" using byte by (simp add: ecam_write8_def)
      moreover have "keeps_ports D y x" using Cons y by simp
      ultimately show ?case by (rule keeps_ports_trans)
    qed simp
    then show ?thesis using assms(1) Ecam_Write32 cw by (auto simp: ecam_write32_def split: if_splits)
  next
    case (Pin i level)
    then show ?thesis using assms(1) keeps_ports_irq by auto
  next
    case (Own_Register i k b)
    have "keeps_ports D s (own_register i k b s)" for D by (simp add: own_register_def split: option.split)
    then show ?thesis using assms(1) Own_Register by auto
  next
    case (Slot i present fresh)
    then show ?thesis using assms cl(2) by (intro keeps_ports_slot [of i]) auto
  qed
qed

text \<open>
  A run in which no two BARs ask for the same port, before or after the same step. One BAR may move to ports that
  another has left before.
\<close>

fun clear_run :: "irq_route \<Rightarrow> pci_event list \<Rightarrow> pci \<Rightarrow> bool" where
  "clear_run route [] s \<longleftrightarrow> True"
| "clear_run route (e # es) s \<longleftrightarrow>
     (case pci_step route e s of None \<Rightarrow> False | Some u \<Rightarrow> disjoint_claims (step_claims s u) \<and> clear_run route es u)"

text \<open>A port that no BAR asks for in the whole run.\<close>

fun unclaimed :: "irq_route \<Rightarrow> pci_event list \<Rightarrow> pci \<Rightarrow> nat \<Rightarrow> bool" where
  "unclaimed route [] s p \<longleftrightarrow> (\<forall>i nr. p \<notin> claim s i nr)"
| "unclaimed route (e # es) s p \<longleftrightarrow> (\<forall>i nr. p \<notin> claim s i nr) \<and> (case pci_step route e s of None \<Rightarrow> True | Some u \<Rightarrow> unclaimed route es u p)"

lemma unclaimed_now: "unclaimed route es s p \<Longrightarrow> p \<notin> claim s i nr"
  by (cases es) simp_all

definition bars_sane :: "pci \<Rightarrow> bool" where
  "bars_sane s \<longleftrightarrow> (\<forall>i nr bar. bar_of s i nr = Some bar \<longrightarrow> (i < 256 \<longrightarrow> assigned bar = None) \<and> (assigned bar = None \<longrightarrow> mapped bar = None))"

lemma bars_within_claims:
  assumes "bars_sane s" "pci_wf s" shows "bars_within (step_claims s u) s"
proof -
  have "p \<in> claim s i nr" if b: "bar_of s i nr = Some bar" and p: "at_port (assigned bar) (bar_size bar) p \<or> at_port (mapped bar) (bar_size bar) p" for i nr bar p
  proof -
    have "assigned bar \<noteq> None" using p assms(1) b unfolding bars_sane_def at_port_def by (metis option.distinct(1))
    moreover from this have "i \<ge> 256" using assms(1) b unfolding bars_sane_def by (meson not_le)
    moreover have "mapped bar = io_bar_place s i bar" using assms(2) b \<open>assigned bar \<noteq> None\<close> by (auto simp: pci_wf_def bar_placed_def)
    ultimately have "at_port (assigned bar) (bar_size bar) p"
      using p io_bar_place_assigned [of s i bar] by (auto simp: at_port_def)
    then show ?thesis using claim_iff [OF b, of p] \<open>i \<ge> 256\<close> by (simp add: wanted_port_def)
  qed
  then show ?thesis using assms(1) unfolding bars_within_def bars_sane_def step_claims_def by blast
qed

lemma run_ports:
  assumes "list_all (pci_event_ok s0) es" "machine_ok s" "same_shape s0 s" "bars_sane s" "\<forall>i nr. bar_shown s i nr"
    "clear_run route es s" "pci_run route es s = Some u"
  shows "(\<forall>i nr. bar_shown u i nr) \<and> same_hardware s u \<and> (\<forall>p. unclaimed route es s p \<longrightarrow> ports u p = ports s p) \<and>
    (\<forall>base p. port_accounted base s p \<longrightarrow> port_accounted base u p)"
  using assms
proof (induction es arbitrary: s)
  case (Cons e es)
  have eok: "pci_event_ok s e" using event_ok_shape [OF Cons.prems(3), of e] Cons.prems(1) by simp
  obtain w where w: "pci_step route e s = Some w" "evolves s w" using pci_step_ok [OF Cons.prems(2) eok] by blast
  have ok: "machine_ok w" "same_shape s0 w" "pci_wf s"
    using evolves_ok [OF Cons.prems(2) w(2)] same_shape_trans [OF Cons.prems(3)] w(2) Cons.prems(2) by (auto simp: evolves_def machine_ok_def)
  have cl: "disjoint_claims (step_claims s w)" "clear_run route es w" using Cons.prems(6) w(1) by simp_all
  have k: "bars_within (step_claims s w) w" "\<forall>i nr. bar_shown w i nr" "same_hardware s w"
    "\<And>p. (\<forall>i nr. p \<notin> step_claims s w i nr) \<Longrightarrow> ports w p = ports s p" "\<And>base p. port_accounted base s p \<Longrightarrow> port_accounted base w p"
    using keeps_ports_step [OF w(1) eok] cl(1) bars_within_claims [OF Cons.prems(4) ok(3)] Cons.prems(5) unfolding keeps_ports_def by blast+
  have "bars_sane w" using k(1) unfolding bars_within_def bars_sane_def by blast
  moreover have "pci_run route es w = Some u" using Cons.prems(7) w(1) by simp
  ultimately have ih: "(\<forall>i nr. bar_shown u i nr) \<and> same_hardware w u \<and> (\<forall>p. unclaimed route es w p \<longrightarrow> ports u p = ports w p) \<and>
      (\<forall>base p. port_accounted base w p \<longrightarrow> port_accounted base u p)"
    using Cons.IH [OF _ ok(1,2) _ k(2) cl(2)] Cons.prems(1) by simp
  have "ports w p = ports s p" if "unclaimed route (e # es) s p" for p
    using that w(1) unclaimed_now [of route es w p] by (intro k(4)) (auto simp: step_claims_def)
  moreover have "same_hardware s u" using k(3) ih by (simp add: same_hardware_def)
  ultimately show ?case using ih k(5) w(1) by auto
qed (simp add: same_hardware_def)

text \<open>Registration leaves the BARs on the root bus alone and maps no BAR without an assignment.\<close>

lemma set_bar_sane:
  assumes "bars_sane s" "bar_of s i nr = Some x" "i < 256 \<longrightarrow> assigned b = None" "assigned b = None \<longrightarrow> mapped b = None"
  shows "bars_sane (set_bar i nr b s)"
proof -
  have n: "bar_of s i nr \<noteq> None" using assms(2) by simp
  have "(j < 256 \<longrightarrow> assigned c = None) \<and> (assigned c = None \<longrightarrow> mapped c = None)" if "bar_of (set_bar i nr b s) j m = Some c" for j m c
    using that assms(1,3,4) bar_of_set_bar [OF n, where b = b and j = j and m = m]
    by (cases "(j, m) = (i, nr)") (auto simp: bars_sane_def split: if_splits)
  then show ?thesis unfolding bars_sane_def by blast
qed

lemma update_sane: "bars_sane s \<Longrightarrow> bars_sane (update_io_bar i nr s)"
proof -
  assume a: "bars_sane s"
  have "(j < 256 \<longrightarrow> assigned c = None) \<and> (assigned c = None \<longrightarrow> mapped c = None)" if "bar_of (update_io_bar i nr s) j m = Some c" for j m c
  proof (cases "(j, m) = (i, nr)")
    case True
    then obtain bar where "bar_of s i nr = Some bar" "c = bar\<lparr>mapped := io_bar_place s i bar\<rparr>" using \<open>bar_of (update_io_bar i nr s) j m = Some c\<close> unfolding update_io_bar_bars by auto
    then show ?thesis using a True io_bar_place_assigned [of s i bar] by (auto simp: bars_sane_def)
  next
    case False
    then show ?thesis using a that unfolding update_io_bar_bars by (auto simp: bars_sane_def split: if_splits)
  qed
  then show ?thesis unfolding bars_sane_def by blast
qed

lemma register_bar_sane:
  assumes "bars_sane s" shows "bars_sane (register_bar i nr s)"
proof (cases "bar_of s i nr")
  case (Some bar)
  have "(i < 256 \<longrightarrow> assigned bar = None) \<and> (assigned bar = None \<longrightarrow> mapped bar = None)" using assms Some unfolding bars_sane_def by blast
  then show ?thesis using set_bar_sane [OF assms Some] Some by (auto simp: register_bar_def Let_def intro!: update_sane)
qed (simp add: register_bar_def assms)

lemma built_sane: "built s \<Longrightarrow> bars_sane s"
proof (induction rule: built.induct)
  case empty_bus
  then show ?case by (simp add: bars_sane_def PCI_def js_get_def split: option.splits)
next
  case (register_ports s f) then show ?case by (simp add: bars_sane_def)
next
  case (register_function s i d sp cs)
  let ?u = "add_function i d (sp @ replicate (cs - length sp) 0) s"
  have "bars_sane ?u" unfolding bars_sane_def
  proof (intro allI impI)
    fix j nr bar assume b: "bar_of ?u j nr = Some bar"
    show "(j < 256 \<longrightarrow> assigned bar = None) \<and> (assigned bar = None \<longrightarrow> mapped bar = None)"
    proof (cases "j = i")
      case True
      obtain x where x: "device_of ?u j = Some x" "nr < length (pci_bars x)" "pci_bars x ! nr = Some bar" using bar_of_Some [OF b] by blast
      then have "x = d" using True by simp
      then have "Some bar \<in> set (pci_bars d)" using x(2,3) nth_mem [of nr "pci_bars d"] by simp
      then show ?thesis using register_function(2) by (auto simp: register_ok_def list_all_iff)
    next
      case False
      then have "bar_of s j nr = Some bar" using b by simp
      then show ?thesis using register_function.IH by (simp add: bars_sane_def)
    qed
  qed
  moreover have "bars_sane (fold (register_bar i) nrs t)" if "bars_sane t" for nrs t
    using that by (induction nrs arbitrary: t) (simp_all add: register_bar_sane)
  ultimately show ?case by (simp add: register_device_def)
qed

text \<open>
  Two BARs at the same ports: when the one that came last moves away, its ports are emptied, and the other
  is cut off although the bus still takes it to be mapped there.
\<close>

lemma overlapping_bar_cut_off:
  assumes "bar_of s i nr = Some b" "bar_of s j m = Some c" "(j, m) \<noteq> (i, nr)" "mapped b = Some a" "mapped c = Some a"
    "bar_size b = n" "bar_size c = n" "bar_shown s i nr" "io_bar_place s i b = Some a'" "a + n \<le> a'" "k < n"
  shows "bar_of (update_io_bar i nr s) j m = Some c \<and> ports (update_io_bar i nr s) (a + k) = Empty_Port"
proof -
  have "io_bar_place s i b \<noteq> mapped b" using assms(4,9-11) by simp
  from update_io_bar_moves(2) [OF assms(1) this assms(8), of "a + k"] show ?thesis
    using assms update_bar_of(2) [OF assms(1,3)] by (simp add: at_port_def)
qed


section \<open>A machine with a card behind a bridge\<close>

text \<open>The i440FX with a bridge to bus 1 and there a card with sixteen ports at 0xC000.\<close>

definition sample_bridge :: pci_function where
  "sample_bridge = plain_function\<lparr>pci_secondary_bus := Some 1, pci_express_downstream := True\<rparr>"

definition sample_bridge_space :: "u8 list" where
  "sample_bridge_space = (replicate 64 0)[0x0E := 1, 0x19 := 1, 0x1A := 1]"

definition sample_card :: pci_function where
  "sample_card = plain_function\<lparr>pci_bars := [Some \<lparr>bar_size = 16, on_move = False, fixed = False, original_bar = 0, bar_base = 0,
     entries = [], assigned = None, mapped = None\<rparr>]\<rparr>"

definition sample_card_space :: "u8 list" where
  "sample_card_space = (replicate 64 0)[0x10 := 1, 0x11 := 0xC0, 0x3D := 1]"

definition sample_bus :: pci where
  "sample_bus = register_device 0xE0 sample_bridge sample_bridge_space 256 (create_i440fx [0, 0, 0, 0] PCI)"

definition sample_machine :: pci where
  "sample_machine = register_device 256 sample_card sample_card_space 256 sample_bus"

lemma sample_spaces: "length sample_bridge_space = 64" "length sample_card_space = 64" "sample_bridge_space ! 0x0E = 1" "sample_card_space ! 0x0E = 0"
  by (simp_all add: sample_bridge_space_def sample_card_space_def)

lemma register_plain: "pci_bars d = [] \<Longrightarrow> register_device i d sp cs s = add_function i d (sp @ replicate (cs - length sp) 0) s"
  by (simp add: register_device_def)

lemma i440fx_devices: "device_of (create_i440fx [0, 0, 0, 0] PCI) i = (if i = 8 \<or> i = 0 then Some plain_function else None)"
  "space_of (create_i440fx [0, 0, 0, 0] PCI) i = None \<longleftrightarrow> i \<noteq> 8 \<and> i \<noteq> 0"
  "js_get None (bridge_for_bus (create_i440fx [0, 0, 0, 0] PCI)) n = None"
proof -
  have p: "pci_bars plain_function = []" "pci_secondary_bus plain_function = None" by (simp_all add: plain_function_def)
  show "device_of (create_i440fx [0, 0, 0, 0] PCI) i = (if i = 8 \<or> i = 0 then Some plain_function else None)"
    "space_of (create_i440fx [0, 0, 0, 0] PCI) i = None \<longleftrightarrow> i \<noteq> 8 \<and> i \<noteq> 0"
    by (auto simp: create_i440fx_def register_plain p PCI_def)
  show "js_get None (bridge_for_bus (create_i440fx [0, 0, 0, 0] PCI)) n = None"
    by (simp add: create_i440fx_def register_plain p add_function_bridges chipset_spaces nth_append) (simp add: PCI_def js_get_def)
qed

lemma sample_bus_built: "built sample_bus"
  unfolding sample_bus_def
proof (rule register_function)
  show "built (create_i440fx [0, 0, 0, 0] PCI)" by (rule i440fx_built) simp
  show "register_ok 0xE0 sample_bridge sample_bridge_space 256 (create_i440fx [0, 0, 0, 0] PCI)"
    by (simp add: register_ok_def i440fx_devices sample_bridge_def plain_function_def sample_spaces list_all_iff)
qed

lemma sample_bus_devices: "device_of sample_bus 256 = None" "space_of sample_bus 256 = None" "js_get None (bridge_for_bus sample_bus) 1 = Some 0xE0"
proof -
  have p: "pci_bars sample_bridge = []" "pci_secondary_bus sample_bridge = Some 1" by (simp_all add: sample_bridge_def plain_function_def)
  show "device_of sample_bus 256 = None" "space_of sample_bus 256 = None"
    by (simp_all add: sample_bus_def register_plain p i440fx_devices)
  show "js_get None (bridge_for_bus sample_bus) 1 = Some 0xE0"
    by (simp add: sample_bus_def register_plain p add_function_bridges sample_spaces nth_append)
qed

lemma sample_built: "built sample_machine"
  unfolding sample_machine_def
proof (rule register_function [OF sample_bus_built])
  show "register_ok 256 sample_card sample_card_space 256 sample_bus"
    using sample_bus_devices by (simp add: register_ok_def sample_card_def plain_function_def sample_spaces)
qed

interpretation sample: pci_machine piix_route sample_machine
  by (rule built_machine [OF sample_built])

text \<open>With a single BAR in the machine nothing can overlap.\<close>

lemma clear_run_single:
  assumes "list_all (pci_event_ok s0) es" "machine_ok s" "same_shape s0 s"
    and "\<And>i d. device_of s0 i = Some d \<Longrightarrow> length (pci_bars d) \<le> (if i = k then 1 else 0)"
  shows "clear_run route es s"
  using assms(1-3)
proof (induction es arbitrary: s)
  case (Cons e es)
  have eok: "pci_event_ok s e" using event_ok_shape [OF Cons.prems(3), of e] Cons.prems(1) by simp
  obtain w where w: "pci_step route e s = Some w" "evolves s w" using pci_step_ok [OF Cons.prems(2) eok] by blast
  have ok: "machine_ok w" "same_shape s0 w"
    using evolves_ok [OF Cons.prems(2) w(2)] same_shape_trans [OF Cons.prems(3)] w(2) by (auto simp: evolves_def)
  have only: "i = k \<and> nr = 0" if sh: "same_shape s0 x" and n: "bar_of x i nr = Some b" for x i nr b
  proof -
    obtain d where d: "device_of x i = Some d" "nr < length (pci_bars d)" using bar_of_Some [OF n] by blast
    then obtain d0 where "device_of s0 i = Some d0" "length (pci_bars d0) = length (pci_bars d)" using same_shape_device(2) [OF sh d(1)] by auto
    then show ?thesis using assms(4) [of i d0] d(2) by (auto split: if_splits)
  qed
  have "claim x i nr = {}" if "same_shape s0 x" "(i, nr) \<noteq> (k, 0)" for x i nr using only [OF that(1)] that(2) by (auto simp: claim_def)
  then have "disjoint_claims (step_claims s w)" using Cons.prems(3) ok(2) unfolding disjoint_claims_def step_claims_def by (metis Int_empty_left Int_empty_right Un_empty)
  then show ?case using w(1) Cons.IH [OF _ ok] Cons.prems(1) by simp
qed simp

text \<open>The machine with a card behind a bridge, whose sixteen ports have handlers.\<close>

definition sample_ports :: "nat \<Rightarrow> port_target" where
  "sample_ports p = (if 0xC000 \<le> p \<and> p < 0xC010 then Handlers (p - 0xC000) else Empty_Port)"

definition sample_wired :: pci where
  "sample_wired = register_device 256 sample_card sample_card_space 256 (sample_bus\<lparr>ports := sample_ports\<rparr>)"

lemma sample_wired_built: "built sample_wired"
  unfolding sample_wired_def
proof (rule register_function [OF register_ports [OF sample_bus_built]])
  show "register_ok 256 sample_card sample_card_space 256 (sample_bus\<lparr>ports := sample_ports\<rparr>)"
    using sample_bus_devices by (simp add: register_ok_def sample_card_def plain_function_def sample_spaces)
qed

lemma sample_wired_shape: "same_shape (add_function 256 sample_card (sample_card_space @ replicate 192 0) (sample_bus\<lparr>ports := sample_ports\<rparr>)) sample_wired"
proof -
  let ?b = "sample_bus\<lparr>ports := sample_ports\<rparr>"
  have a: "machine_ok ?b" using ports_ok built_ok [OF sample_bus_built] by blast
  have ok: "register_ok 256 sample_card sample_card_space 256 ?b"
    using sample_bus_devices by (simp add: register_ok_def sample_card_def plain_function_def sample_spaces)
  have "pci_wf (add_function 256 sample_card (sample_card_space @ replicate 192 0) ?b)"
    using add_function_wf(1) [OF _ _ ok] a by (simp add: machine_ok_def sample_spaces)
  then show ?thesis using register_bars_wf [of _ 256] by (simp add: sample_wired_def register_device_def sample_spaces pci_shape_def)
qed

lemma sample_wired_devices:
  "device_of sample_wired i = Some d \<Longrightarrow> length (pci_bars d) \<le> (if i = 256 then 1 else 0)" "device_of sample_wired 256 \<noteq> None \<and> \<not> is_bridge sample_wired 256"
proof -
  let ?u = "add_function 256 sample_card (sample_card_space @ replicate 192 0) (sample_bus\<lparr>ports := sample_ports\<rparr>)"
  have c: "length (pci_bars sample_card) = 1" by (simp add: sample_card_def)
  have dev: "device_of sample_bus j = Some x \<Longrightarrow> pci_bars x = []" for j x
    by (auto simp: sample_bus_def register_plain sample_bridge_def plain_function_def i440fx_devices split: if_splits)
  show "device_of sample_wired i = Some d \<Longrightarrow> length (pci_bars d) \<le> (if i = 256 then 1 else 0)"
    using same_shape_device(2) [OF sample_wired_shape, of i d] c dev [of i] by (auto split: if_splits)
  have "device_of ?u 256 = Some sample_card" "\<not> is_bridge ?u 256" by (simp_all add: is_bridge_def sample_card_def plain_function_def)
  then show "device_of sample_wired 256 \<noteq> None \<and> \<not> is_bridge sample_wired 256"
    using same_shape_device(1) [OF sample_wired_shape, of 256] same_shape_bridge [OF sample_wired_shape, of 256] by simp
qed

lemma register_bar_spaces: "device_spaces (register_bar i nr s) = device_spaces s"
proof -
  have "device_spaces (update_io_bar i nr t) = device_spaces t" for t
    using update_io_bar_frame [of t i nr] by (simp add: io_frame_def same_config_def)
  then show ?thesis by (simp add: register_bar_def Let_def split: option.split)
qed

lemma sample_wired_shown: "bar_shown sample_wired i nr"
proof -
  let ?u = "add_function 256 sample_card (sample_card_space @ replicate 192 0) (sample_bus\<lparr>ports := sample_ports\<rparr>)"
  have "device_spaces (fold (register_bar i) nrs t) = device_spaces t" for i nrs t
    by (induction nrs arbitrary: t) (simp_all add: register_bar_spaces)
  then have "space_of sample_wired 0xE0 = space_of ?u 0xE0" by (simp add: sample_wired_def register_device_def sample_spaces)
  also have "\<dots> = Some (sample_bridge_space @ replicate 192 0)"
    by (simp add: sample_bus_def register_plain sample_bridge_def plain_function_def sample_spaces)
  finally have c: "get_command sample_wired 0xE0 = 0"
    by (simp add: get_command_def get_dword_def sample_bridge_space_def nth_append)
  have "js_get None (bridge_for_bus ?u) 1 = Some 0xE0"
    using sample_bus_devices(3) by (simp add: add_function_def sample_card_space_def sample_card_def plain_function_def Let_def nth_append)
  then have "parent_bridge sample_wired 256 = Some 0xE0"
    using sample_wired_shape by (simp add: parent_bridge_def same_shape_def)
  then have "0xE0 \<in> set (bridge_chain (Suc n) sample_wired 256)" for n by simp
  from this [of 255] have "0xE0 \<in> set (upstream sample_wired 256)" by (simp add: upstream_def)
  then have "io_bar_place sample_wired 256 bar = None" for bar
    using c by (auto simp: io_bar_place_def upstream_forwards_io_def list_all_iff split: option.split)
  moreover have "bar_placed sample_wired 256 0" using built_ok [OF sample_wired_built] by (simp add: machine_ok_def pci_wf_def)
  ultimately have m: "mapped bar = None" if "bar_of sample_wired 256 0 = Some bar" for bar
    using that built_sane [OF sample_wired_built] by (auto simp: bar_placed_def bars_sane_def)
  show ?thesis unfolding bar_shown_def
  proof (intro allI impI)
    fix bar x k assume b: "bar_of sample_wired i nr = Some bar" "mapped bar = Some x"
    obtain d where "device_of sample_wired i = Some d" "nr < length (pci_bars d)" using bar_of_Some [OF b(1)] by blast
    then have "i = 256 \<and> nr = 0" using sample_wired_devices(1) by (fastforce split: if_splits)
    then have n: "i = 256" "nr = 0" by blast+
    have "bar_of sample_wired 256 0 = Some bar" using b(1) unfolding n .
    then show "ports sample_wired (x + k) = entries bar ! k" using m b(2) by fastforce
  qed
qed

section \<open>Properties\<close>

text \<open>
  Claim C32. In a machine built by registration, whatever the guest writes into configuration space, through
  the ports or the ECAM window, whatever the devices do to their pins and registers and whichever cards come
  and go, every access ends, and every I/O BAR behind bridges is mapped exactly where it belongs: at its
  assigned port if every bridge above forwards it and its function is on the bus, and nowhere otherwise. If
  the mapped BARs answer at their ports at the start and no two BARs ever ask for the same port, then the port
  table agrees: every port of a mapped BAR leads to the BAR's own handler, every other port leads where it led at
  the start, nowhere, or to a card on the root bus, and a port that no BAR ever asks for is never touched.
\<close>

theorem pci_io_bars_placed:
  assumes "built s0" "list_all (pci_event_ok s0) es"
  shows "\<exists>u. pci_run route es s0 = Some u \<and> (\<forall>i nr. bar_placed u i nr) \<and>
    ((\<forall>i nr. bar_shown s0 i nr) \<and> clear_run route es s0 \<longrightarrow>
      (\<forall>i nr. bar_shown u i nr) \<and> (\<forall>p. port_accounted (ports s0) u p) \<and> (\<forall>p. unclaimed route es s0 p \<longrightarrow> ports u p = ports s0 p))"
proof -
  from pci_machine.run_wf [OF built_machine [OF assms(1)] assms(2)] obtain u where u: "pci_run route es s0 = Some u" "machine_ok u" by blast
  have ok: "machine_ok s0" using built_ok [OF assms(1)] by blast
  have acc: "port_accounted (ports s0) s0 p" for p by (simp add: port_accounted_def)
  have "(\<forall>i nr. bar_shown u i nr) \<and> (\<forall>p. port_accounted (ports s0) u p) \<and> (\<forall>p. unclaimed route es s0 p \<longrightarrow> ports u p = ports s0 p)"
    if "\<forall>i nr. bar_shown s0 i nr" "clear_run route es s0"
    using run_ports [OF assms(2) ok same_shape_refl built_sane [OF assms(1)] that u(1)] acc by blast
  then show ?thesis using u by (auto simp: machine_ok_def pci_wf_def)
qed

theorem pci_io_bars_placed_witness:
  "\<exists>u. pci_run piix_route [Ecam_Write32 (0xE0 * 4096 + 0x1C) 0xC0C0, Ecam_Write8 (0xE0 * 4096 + 4) 7, Slot 256 False False] sample_wired = Some u \<and>
     (\<forall>i nr. bar_placed u i nr) \<and> (\<forall>i nr. bar_shown u i nr) \<and> (\<forall>p. port_accounted (ports sample_wired) u p)"
proof -
  let ?es = "[Ecam_Write32 (0xE0 * 4096 + 0x1C) 0xC0C0, Ecam_Write8 (0xE0 * 4096 + 4) 7, Slot 256 False False]"
  have e: "list_all (pci_event_ok sample_wired) ?es" using sample_wired_devices(2) by simp
  have "machine_ok sample_wired" using built_ok [OF sample_wired_built] by blast
  from clear_run_single [OF e this same_shape_refl sample_wired_devices(1)]
  have "clear_run piix_route ?es sample_wired" .
  then show ?thesis using pci_io_bars_placed [OF sample_wired_built e, of piix_route] sample_wired_shown by blast
qed

text \<open>
  Claim C33. Nothing that happens changes what a function is: vendor, device, revision, class, header type,
  capability pointer and interrupt pin of every function are those it was registered with, also after it was
  plugged in afresh.
\<close>

theorem pci_identity_kept:
  assumes "built s0" "list_all (pci_event_ok s0) es"
  shows "\<exists>u. pci_run route es s0 = Some u \<and> (\<forall>i. identity u i = identity s0 i)"
proof -
  from pci_machine.run_wf [OF built_machine [OF assms(1)] assms(2)] obtain u where "pci_run route es s0 = Some u" "evolves s0 u" by blast
  then show ?thesis by (auto simp: evolves_def)
qed

theorem pci_identity_kept_witness:
  "\<exists>u. pci_run piix_route [Ecam_Write32 (0xE0 * 4096) 0x12345678, Ecam_Write8 (0x100 * 4096 + 0x3D) 2, Pin 256 True] sample_machine = Some u \<and>
     (\<forall>i. identity u i = identity sample_machine i)"
  by (rule pci_identity_kept [OF sample_built]) simp

text \<open>
  Claim C34. The search for the function that a configuration cycle addresses ends in every tree of buses, and
  where no two bridges of a bus claim the same bus number it finds a function exactly if the bridges pass the
  cycle on to it by their secondary and subordinate bus numbers, whatever order they were registered in.
\<close>

theorem route_config_follows_bus_numbers:
  assumes "topology_ok s" "numbers_ok s" "bdf div 256 \<noteq> 0"
  shows "\<exists>r. route_config s bdf = Some r \<and> (\<forall>i. r = Some i \<longleftrightarrow> config_path s bdf 0 i)"
proof -
  obtain r where r: "route_config s bdf = Some r" using route_config_total [OF assms(1)] by blast
  then have "r = Some i \<longleftrightarrow> config_path s bdf 0 i" for i using route_config_path [OF assms, of i] by simp
  then show ?thesis using r by blast
qed

lemma sample_bus_bridges: "js_get [] (bridges_on sample_bus) n = (if n = 0 then [0xE0] else [])" "topology_ok sample_bus"
proof -
  have p: "pci_bars sample_bridge = []" "pci_secondary_bus sample_bridge = Some 1" by (simp_all add: sample_bridge_def plain_function_def)
  have q: "pci_bars plain_function = []" "pci_secondary_bus plain_function = None" by (simp_all add: plain_function_def)
  have "js_get [] (bridges_on (create_i440fx [0, 0, 0, 0] PCI)) m = []" for m
    by (simp add: create_i440fx_def register_plain q add_function_bridges chipset_spaces nth_append) (simp add: PCI_def js_get_def)
  then show "js_get [] (bridges_on sample_bus) n = (if n = 0 then [0xE0] else [])"
    by (simp add: sample_bus_def register_plain p add_function_bridges sample_spaces nth_append)
  show "topology_ok sample_bus" using built_ok [OF sample_bus_built] by (simp add: machine_ok_def)
qed

theorem route_config_follows_bus_numbers_witness:
  "\<exists>r. route_config sample_bus 0x100 = Some r \<and> (\<forall>i. r = Some i \<longleftrightarrow> config_path sample_bus 0x100 0 i)"
  by (rule route_config_follows_bus_numbers [OF sample_bus_bridges(2)]) (auto simp: numbers_ok_def sample_bus_bridges(1) split: if_splits)

text \<open>
  Claim C35. Sizing and placing a memory BAR of a device that can move its range (\<open>on_move\<close>): writing all ones to
  the BAR of a device that decodes 2^n bytes makes it read back the size mask with the type bits and calls no device;
  writing an address then makes it read back that address, rounded down to the size, with the type bits,
  the bus records the range there, and the device's \<open>on_move\<close> is called once with exactly that address if it differs from
  the one before, and not otherwise. (A BAR without \<open>on_move\<close> keeps its address.)
\<close>

theorem memory_bar_sizing:
  assumes "space_of s i = Some bs" "0x14 + 4 * nr \<le> length bs" "nr < 6" "is_bridge s i \<Longrightarrow> nr < 2" "bar_of s i nr = Some bar"
    "bar_size bar = 2 ^ n" "4 \<le> n" "n < 32" "\<not> bit (get_dword bs (4 + nr)) 0" "\<not> bit (original_bar bar) 0" "on_move bar" "\<not> is_probe bar v"
  shows "\<exists>s1 s2 b. s1 = function_write route (Some i) (0x10 + 4 * nr) 4 (- 1) s \<and>
    function_read s1 (Some i) (0x10 + 4 * nr) 4 = NOT (mask n) OR original_bar bar AND 0xF \<and> pci_log s1 = pci_log s \<and>
    s2 = function_write route (Some i) (0x10 + 4 * nr) 4 v s1 \<and>
    function_read s2 (Some i) (0x10 + 4 * nr) 4 = v AND NOT (mask n) OR original_bar bar AND 0xF \<and>
    bar_of s2 i nr = Some b \<and> bar_base b = uint (v AND NOT (mask n)) \<and>
    pci_log s2 = pci_log s @ (if bar_base bar = uint (v AND NOT (mask n)) then [] else [On_Move i nr (uint (v AND NOT (mask n)))])"
proof -
  let ?k = "4 + nr" and ?p = "NOT (mask n) OR original_bar bar AND 0xF" and ?a = "v AND NOT (mask n)"
  let ?s1 = "store_dword i ?k ?p s" and ?bs1 = "set_dword bs ?k ?p"
  let ?s2 = "move_memory_bar i nr bar ?a (store_dword i ?k (?a OR original_bar bar AND 0xF) ?s1)"
  have sb: "space_bytes s i = bs" using assms(1) by (simp add: space_bytes_def)
  have sp1: "space_of ?s1 i = Some ?bs1" by (simp add: sb)
  have l1: "0x14 + 4 * nr \<le> length ?bs1" using assms(2) by simp
  have b1: "bar_of ?s1 i nr = Some bar" using assms(5) by simp
  have g1: "get_dword ?bs1 ?k = ?p" using assms(2) by (intro get_set_dword) simp
  have z: "\<not> bit (get_dword ?bs1 ?k) 0" unfolding g1 using assms(7,10) by (simp add: bit_simps)
  have "is_probe bar (- 1)" by (simp add: is_probe_def)
  then have w1: "function_write route (Some i) (0x10 + 4 * nr) 4 (- 1) s = ?s1"
    using function_write_bar [OF assms(1-4)] write_memory_bar(1) [OF assms(1,2,5-9,11)] by simp
  have br: "is_bridge ?s1 i \<Longrightarrow> nr < 2" using assms(4) by (simp add: is_bridge_def store_dword_def)
  have w2: "function_write route (Some i) (0x10 + 4 * nr) 4 v ?s1 = ?s2"
    using function_write_bar [OF sp1 l1 assms(3) br] write_memory_bar(2) [OF sp1 l1 b1 assms(6-8) z assms(11,12)] by simp
  have sp2: "space_of ?s2 i = Some (set_dword ?bs1 ?k (?a OR original_bar bar AND 0xF))" using assms(1) by (simp add: space_bytes_def)
  have r1: "function_read ?s1 (Some i) (0x10 + 4 * nr) 4 = ?p"
    unfolding bar_index(3) using function_read_dword [OF sp1, of ?k] g1 assms(2) by simp
  have r2: "function_read ?s2 (Some i) (0x10 + 4 * nr) 4 = ?a OR original_bar bar AND 0xF"
    unfolding bar_index(3) using function_read_dword [OF sp2, of ?k] get_set_dword [of ?k ?bs1] assms(2) by simp
  have b2: "bar_of (store_dword i ?k x ?s1) i nr = Some bar" for x using assms(5) by simp
  have "\<exists>b. bar_of ?s2 i nr = Some b \<and> bar_base b = uint ?a"
  proof (cases "bar_base bar = uint ?a")
    case True then show ?thesis using b2 by (simp add: move_memory_bar_def)
  next
    case False
    have "bar_of (store_dword i ?k (?a OR original_bar bar AND 0xF) ?s1) i nr \<noteq> None" using b2 by simp
    from bar_of_set_bar [OF this] show ?thesis using False by (simp add: move_memory_bar_def)
  qed
  then obtain b where "bar_of ?s2 i nr = Some b" "bar_base b = uint ?a" by blast
  moreover have "pci_log ?s1 = pci_log s" by (simp add: store_dword_def)
  moreover have "pci_log ?s2 = pci_log s @ (if bar_base bar = uint ?a then [] else [On_Move i nr (uint ?a)])"
    by (simp add: move_memory_bar_def store_dword_def pci_emit_def)
  ultimately show ?thesis using w1 w2 r1 r2 by metis
qed


text \<open>A function with 4096 bytes of memory at 0xE0000000.\<close>

definition sample_bar :: pci_bar where
  "sample_bar = \<lparr>bar_size = 4096, on_move = True, fixed = False, original_bar = 0xE0000000, bar_base = 0xE0000000,
     entries = [], assigned = None, mapped = None\<rparr>"

definition sample_space :: "u8 list" where
  "sample_space = (replicate 64 0)[0x13 := 0xE0]"

definition sample_single :: pci where
  "sample_single = add_function 16 (plain_function\<lparr>pci_bars := [Some sample_bar]\<rparr>) sample_space PCI"

lemma sample_single_facts:
  "space_of sample_single 16 = Some sample_space" "bar_of sample_single 16 0 = Some sample_bar" "\<not> is_bridge sample_single 16"
  "length sample_space = 64" "get_dword sample_space 4 = 0xE0000000"
proof -
  show "space_of sample_single 16 = Some sample_space" "\<not> is_bridge sample_single 16" "length sample_space = 64"
    by (simp_all add: sample_single_def is_bridge_def plain_function_def sample_space_def)
  show "bar_of sample_single 16 0 = Some sample_bar" by (simp add: sample_single_def) (simp add: js_get_def)
  show "get_dword sample_space 4 = 0xE0000000" by code_simp
qed

theorem memory_bar_sizing_witness:
  "\<exists>s1 s2 b. s1 = function_write piix_route (Some 16) (0x10 + 4 * 0) 4 (- 1) sample_single \<and>
    function_read s1 (Some 16) (0x10 + 4 * 0) 4 = NOT (mask 12) OR original_bar sample_bar AND 0xF \<and> pci_log s1 = pci_log sample_single \<and>
    s2 = function_write piix_route (Some 16) (0x10 + 4 * 0) 4 0xF0000000 s1 \<and>
    function_read s2 (Some 16) (0x10 + 4 * 0) 4 = 0xF0000000 AND NOT (mask 12) OR original_bar sample_bar AND 0xF \<and>
    bar_of s2 16 0 = Some b \<and> bar_base b = uint (0xF0000000 AND NOT (mask 12) :: i32) \<and>
    pci_log s2 = pci_log sample_single @ (if bar_base sample_bar = uint (0xF0000000 AND NOT (mask 12) :: i32) then [] else [On_Move 16 0 (uint (0xF0000000 AND NOT (mask 12) :: i32))])"
proof (rule memory_bar_sizing [OF sample_single_facts(1) _ _ _ sample_single_facts(2)])
  show "\<not> is_probe sample_bar 0xF0000000" by code_simp
qed (use sample_single_facts(3-5) in \<open>simp_all add: sample_bar_def\<close>)


lemma write_register_bytes:
  assumes "0x40 \<le> off" "off + sz \<le> length bs"
  shows "write_config_bytes route i off sz v bs s = set_space i (config_bytes (is_bridge s i) off sz v bs) s"
proof -
  have "get_dword (config_bytes (is_bridge s i) off sz v bs) 1 = get_dword bs 1"
  proof (cases sz)
    case (Suc m) then show ?thesis using assms by (intro get_dword_cong) (simp add: nth_config_bytes)
  qed (simp add: config_bytes_def)
  then have c: "get_command (set_space i (config_bytes (is_bridge s i) off sz v bs) s) i = get_dword bs 1 AND 0xFFFF" by (simp add: get_command_def)
  have w: "\<not> list_ex (\<lambda>k. k < 0x40 \<and> is_bridge s i \<and> window_byte k) [off..<off + sz]" using assms(1) by (auto simp: list_ex_iff)
  show ?thesis unfolding write_config_bytes_def Let_def c using w by simp
qed

lemma write_registers:
  assumes "space_of s i = Some bs" "0x40 \<le> off" "off + sz \<le> length bs"
  shows "space_of (function_write route (Some i) off sz v s) i = Some (config_bytes (is_bridge s i) off sz v bs)"
    "0 < sz \<Longrightarrow> function_write route (Some i) off sz v s =
       pci_emit (On_Config_Write i off sz) (set_space i (config_bytes (is_bridge s i) off sz v bs) s)"
proof -
  have "\<not> is_bar_offset (is_bridge s i) off" using assms(2) by (auto simp: is_bar_offset_def)
  then show "space_of (function_write route (Some i) off sz v s) i = Some (config_bytes (is_bridge s i) off sz v bs)"
    "0 < sz \<Longrightarrow> function_write route (Some i) off sz v s =
       pci_emit (On_Config_Write i off sz) (set_space i (config_bytes (is_bridge s i) off sz v bs) s)"
    using assms write_register_bytes [OF assms(2,3)] by (simp_all add: function_write_def Let_def)
qed

text \<open>
  Claim C36. Configuration space is bytes: a read of one, two or four bytes at any offset, aligned or not, gives
  the bytes there with the first the least significant, as the aligned fast path does. A write to the registers of a
  device (0x40 and up) stores the bytes written and no others and then, once and as its only other effect, calls the
  device's \<open>on_config_write\<close>, which finds in the registers exactly what was written; a device without such a hook
  keeps it, one with a hook may rewrite its registers (as the AHCI controller, the SMBus, the chipset and the root ports do).
\<close>

theorem config_space_is_bytes:
  assumes "space_of s i = Some bs" "off + sz \<le> length bs" "sz \<in> {1, 2, 4}"
  shows "function_read s (Some i) off sz = bytes_value bs off sz \<and>
    (0x40 \<le> off \<longrightarrow>
      (let u = function_write route (Some i) off sz v s
       in function_read u (Some i) off sz = v AND mask (8 * sz) \<and> pci_log u = pci_log s @ [On_Config_Write i off sz] \<and>
          length (space_bytes u i) = length bs \<and> (\<forall>k. k < off \<or> off + sz \<le> k \<longrightarrow> k < length bs \<longrightarrow> space_bytes u i ! k = bs ! k)))"
proof (intro conjI impI)
  show "function_read s (Some i) off sz = bytes_value bs off sz" by (rule function_read_bytes [OF assms])
  assume o: "0x40 \<le> off"
  let ?u = "function_write route (Some i) off sz v s" and ?cs = "config_bytes (is_bridge s i) off sz v bs"
  have z: "0 < sz" using assms(3) by auto
  have u: "?u = pci_emit (On_Config_Write i off sz) (set_space i ?cs s)" by (rule write_registers(2) [OF assms(1) o assms(2) z])
  then have sp: "space_of ?u i = Some ?cs" by simp
  have "function_read ?u (Some i) off sz = bytes_value ?cs off sz"
    by (rule function_read_bytes [OF sp]) (use assms(2,3) in simp_all)
  also have "\<dots> = v AND mask (8 * sz)"
  proof (rule bit_word_eqI)
    fix n assume "n < LENGTH(32)"
    then have n: "n < 32" by simp
    have "?cs ! (off + n div 8) = byte_n v (n div 8)" if "n < sz * 8"
    proof -
      have "n div 8 < sz" using that by (simp add: less_mult_imp_div_less)
      then show ?thesis using o assms(2) by (simp add: nth_config_bytes)
    qed
    then show "bit (bytes_value ?cs off sz) n = bit (v AND mask (8 * sz)) n"
      using n by (auto simp: bit_bytes_value bit_byte_n bit_simps mult.commute)
  qed
  finally have rd: "function_read ?u (Some i) off sz = v AND mask (8 * sz)" .
  have "pci_log ?u = pci_log s @ [On_Config_Write i off sz]" unfolding u by (simp add: pci_emit_def)
  moreover have "length ?cs = length bs" "k < off \<or> off + sz \<le> k \<Longrightarrow> k < length bs \<Longrightarrow> ?cs ! k = bs ! k" for k
    using assms(2) by (auto simp: nth_config_bytes)
  ultimately show "let u = ?u in function_read u (Some i) off sz = v AND mask (8 * sz) \<and> pci_log u = pci_log s @ [On_Config_Write i off sz] \<and>
      length (space_bytes u i) = length bs \<and> (\<forall>k. k < off \<or> off + sz \<le> k \<longrightarrow> k < length bs \<longrightarrow> space_bytes u i ! k = bs ! k)"
    using rd sp unfolding Let_def by (simp add: space_bytes_def)
qed

theorem config_space_is_bytes_witness:
  "function_read sample_single (Some 16) 0x11 4 = bytes_value sample_space 0x11 4 \<and>
   function_read (function_write piix_route (Some 8) 0x61 2 0xABCDE (create_i440fx [0, 0, 0, 0] PCI)) (Some 8) 0x61 2 = 0xBCDE"
proof
  show "function_read sample_single (Some 16) 0x11 4 = bytes_value sample_space 0x11 4"
    using config_space_is_bytes [OF sample_single_facts(1), of "0x11" 4] by (simp add: sample_single_facts)
  have "space_of (create_i440fx [0, 0, 0, 0] PCI) 8 = Some (isa_bridge_space [0, 0, 0, 0] @ replicate 192 0)"
    by (simp add: create_i440fx_def register_plain plain_function_def chipset_spaces)
  from config_space_is_bytes [OF this, of "0x61" 2 piix_route "0xABCDE"]
  show "function_read (function_write piix_route (Some 8) 0x61 2 0xABCDE (create_i440fx [0, 0, 0, 0] PCI)) (Some 8) 0x61 2 = 0xBCDE"
    by (simp add: chipset_spaces Let_def take_bit_eq_mask [symmetric] flip: take_bit_eq_mask)
qed

section \<open>Lines and sources\<close>

lemma pci_line_sources: "demand (pci_lines s) (n, src) \<Longrightarrow> \<exists>i. src = int i"
proof -
  have "run demand_step (concat (map line_of es)) d (n, src) \<Longrightarrow> \<not> d (n, src) \<Longrightarrow> \<exists>i. src = int i" for es d
  proof (induction es arbitrary: d)
    case (Cons e es)
    show ?case
    proof (cases "run demand_step (line_of e) d (n, src)")
      case True then show ?thesis using Cons.prems(2) by (cases e) (auto split: if_splits)
    next
      case False then show ?thesis using Cons.IH [of "run demand_step (line_of e) d"] Cons.prems(1) by (simp add: run_append)
    qed
  qed simp
  then show "demand (pci_lines s) (n, src) \<Longrightarrow> \<exists>i. src = int i" unfolding demand_def pci_lines_def by blast
qed

text \<open>With the pins right, a shared line is high exactly if some function's record names it.\<close>

lemma pins_lines:
  assumes "pins_ok u" "n < 24"
  shows "line_level n (line_log (run line_step (pci_lines u) shared_irqs_init)) \<longleftrightarrow>
    (\<exists>i. js_get None (asserted_irq_lines u) i = Some n \<or> js_get None (asserted_gsis u) i = Some n)"
proof -
  have "list_all line_ok (pci_lines u)" and rec: "intx_recorded u i" for i using assms(1) by (auto simp: pins_ok_def records_ok_def)
  then have "line_inv (demand (pci_lines u)) (run line_step (pci_lines u) shared_irqs_init)"
    unfolding demand_def using line_inv_run [OF _ shared_irqs_init_inv] by blast
  then have "line_level n (line_log (run line_step (pci_lines u) shared_irqs_init)) \<longleftrightarrow> (\<exists>src. demand (pci_lines u) (n, src))"
    using line_inv_level assms(2) by blast
  also have "\<dots> \<longleftrightarrow> (\<exists>i. irq_demand u n i)" using pci_line_sources [of u n] by (auto simp: irq_demand_def)
  finally show ?thesis using rec by (auto simp: intx_recorded_def)
qed

section \<open>Reset control\<close>

lemma reset_control_edge:
  "pci_log (reset_control_write v s) = pci_log s @ (if bit v 2 \<and> \<not> bit (reset_control s) 2 then [Pci_Reboot] else [])"
  "reset_control (reset_control_write v s) = v AND 6"
proof -
  have "NOT (reset_control s) AND v AND 4 \<noteq> 0 \<longleftrightarrow> bit v 2 \<and> \<not> bit (reset_control s) 2"
  proof -
    have f: "(4 :: i32) = 2 ^ 2" by simp
    have "x AND 2 ^ 2 = 0 \<longleftrightarrow> \<not> bit x 2" for x :: i32
      using and_exp_eq_0_iff_not_bit [of x 2] by simp
    then have "(NOT (reset_control s) AND v) AND 2 ^ 2 \<noteq> 0 \<longleftrightarrow> bit (NOT (reset_control s) AND v) 2" by blast
    then show ?thesis unfolding f and.assoc [symmetric] by (auto simp: bit_simps)
  qed
  then show "pci_log (reset_control_write v s) = pci_log s @ (if bit v 2 \<and> \<not> bit (reset_control s) 2 then [Pci_Reboot] else [])"
    "reset_control (reset_control_write v s) = v AND 6"
    by (simp_all add: reset_control_write_def Let_def pci_emit_def)
qed


end
