(* ===== verification/Q35.thy ===== *)
theory Q35
  imports Pci
begin

text \<open>
  The Q35 chipset, \<open>src/q35.js\<close>: the host bridge with its PCI Express window and the control of SMM memory,
  and the LPC bridge with the routing of interrupt pins, the decode of the power management block and the
  root complex registers. Both are functions on the bus of \<open>Pci\<close> and keep their registers in its spaces;
  what they do to the CPU, the memory map and the ACPI device are recorded effects.
\<close>

section \<open>State\<close>

abbreviation (input) MCH :: nat where "MCH \<equiv> 0"
abbreviation (input) LPC :: nat where "LPC \<equiv> 0xF8"

abbreviation (input) MCH_PCIEXBAR :: nat where "MCH_PCIEXBAR \<equiv> 0x60"
abbreviation (input) MCH_PAM0 :: nat where "MCH_PAM0 \<equiv> 0x90"
abbreviation (input) MCH_SMRAM :: nat where "MCH_SMRAM \<equiv> 0x9D"
abbreviation (input) MCH_ESMRAMC :: nat where "MCH_ESMRAMC \<equiv> 0x9E"
abbreviation (input) MCH_EXT_TSEG_MBYTES :: nat where "MCH_EXT_TSEG_MBYTES \<equiv> 0x50"

abbreviation (input) MCH_SMRAM_DEFAULT :: u8 where "MCH_SMRAM_DEFAULT \<equiv> 0x02"
abbreviation (input) SMRAM_G_SMRAME :: u8 where "SMRAM_G_SMRAME \<equiv> 0x08"
abbreviation (input) SMRAM_D_LCK :: u8 where "SMRAM_D_LCK \<equiv> 0x10"
abbreviation (input) SMRAM_D_CLS :: u8 where "SMRAM_D_CLS \<equiv> 0x20"
abbreviation (input) SMRAM_D_OPEN :: u8 where "SMRAM_D_OPEN \<equiv> 0x40"
abbreviation (input) MCH_ESMRAMC_DEFAULT :: u8 where "MCH_ESMRAMC_DEFAULT \<equiv> 0x38"
abbreviation (input) ESMRAMC_T_EN :: u8 where "ESMRAMC_T_EN \<equiv> 0x01"
abbreviation (input) ESMRAMC_H_SMRAME :: u8 where "ESMRAMC_H_SMRAME \<equiv> 0x80"
abbreviation (input) ESMRAMC_WRITABLE :: u8 where "ESMRAMC_WRITABLE \<equiv> 0x87"

abbreviation (input) LPC_PMBASE :: nat where "LPC_PMBASE \<equiv> 0x40"
abbreviation (input) LPC_ACPI_CNTL :: nat where "LPC_ACPI_CNTL \<equiv> 0x44"
abbreviation (input) LPC_PIRQA_ROUT :: nat where "LPC_PIRQA_ROUT \<equiv> 0x60"
abbreviation (input) LPC_SIRQ_CNTL :: nat where "LPC_SIRQ_CNTL \<equiv> 0x64"
abbreviation (input) LPC_PIRQE_ROUT :: nat where "LPC_PIRQE_ROUT \<equiv> 0x68"
abbreviation (input) LPC_RCBA :: nat where "LPC_RCBA \<equiv> 0xF0"
abbreviation (input) LPC_PIRQ_ROUT_DISABLED :: u8 where "LPC_PIRQ_ROUT_DISABLED \<equiv> 0x80"

abbreviation (input) ICH9_RCBA_SIZE :: nat where "ICH9_RCBA_SIZE \<equiv> 0x4000"

datatype q35_effect =
    Smram_Control nat
  | Smram_Tseg nat nat
  | Pm_Decode int
  | Rcba_Unregister int
  | Rcba_Register int

record q35 =
  q_pci :: pci
  rcba :: "u8 list"
  rcba_base :: int
  smram_locked :: bool
  smram_locked_value :: u8
  esmramc :: u8
  q_log :: "q35_effect list"

text \<open>What the machine is built with.\<close>

record q35_machine =
  q_hpet :: bool
  q_acpi :: bool
  low_memory_size :: nat
  memory_size0 :: int

definition q_emit :: "q35_effect \<Rightarrow> q35 \<Rightarrow> q35" where
  "q_emit e q = q\<lparr>q_log := q_log q @ [e]\<rparr>"

text \<open>The views of a function's registers.\<close>

definition reg8 :: "nat \<Rightarrow> nat \<Rightarrow> q35 \<Rightarrow> u8" where
  "reg8 i k q = space_bytes (q_pci q) i ! k"

definition put8 :: "nat \<Rightarrow> nat \<Rightarrow> u8 \<Rightarrow> q35 \<Rightarrow> q35" where
  "put8 i k b q = q\<lparr>q_pci := set_space i ((space_bytes (q_pci q) i)[k := b]) (q_pci q)\<rparr>"

definition fill8 :: "nat \<Rightarrow> u8 \<Rightarrow> nat \<Rightarrow> nat \<Rightarrow> q35 \<Rightarrow> q35" where
  "fill8 i b from1 to1 q = fold (\<lambda>k. put8 i k b) [from1..<to1] q"

definition reg32 :: "nat \<Rightarrow> nat \<Rightarrow> q35 \<Rightarrow> i32" where
  "reg32 i k q = get_dword (space_bytes (q_pci q) i) (k div 4)"

definition put32 :: "nat \<Rightarrow> nat \<Rightarrow> i32 \<Rightarrow> q35 \<Rightarrow> q35" where
  "put32 i k v q = q\<lparr>q_pci := store_dword i (k div 4) v (q_pci q)\<rparr>"

definition touches :: "nat \<Rightarrow> nat \<Rightarrow> nat \<Rightarrow> nat \<Rightarrow> bool" where
  "touches offset sz start end1 \<longleftrightarrow> offset < end1 \<and> offset + sz > start"

section \<open>Interrupt routing\<close>

definition RCBA_DIR :: "nat \<Rightarrow> nat option" where
  "RCBA_DIR slot = map_of [(31, 0x3140), (29, 0x3144), (28, 0x3146), (27, 0x3148), (26, 0x314C), (25, 0x3150)] slot"

definition pirq_of :: "u8 list \<Rightarrow> nat \<Rightarrow> nat \<Rightarrow> nat" where
  "pirq_of rc slot pin =
     (if slot \<le> 24 then 4 + (slot + pin) mod 4
      else case RCBA_DIR slot of
             Some offset \<Rightarrow> unat (drop_bit (4 * pin) (ucast (js_get 0 rc offset) OR push_bit 8 (ucast (js_get 0 rc (offset + 1)))) AND 7 :: i32)
           | None \<Rightarrow> 4 + pin)"

definition q35_irq_route :: "u8 list \<Rightarrow> irq_route" where
  "q35_irq_route rc p i pin =
     (if pin < 0 \<or> pin > 3 \<or> i \<ge> 256 then (0x80, None)
      else let pirq = pirq_of rc (i div 8) (nat pin);
               rout = space_bytes p LPC ! (if pirq < 4 then LPC_PIRQA_ROUT + pirq else LPC_PIRQE_ROUT + pirq - 4)
           in (if rout AND LPC_PIRQ_ROUT_DISABLED \<noteq> 0 then 0x80 else unat (rout AND 0x0F), Some (16 + pirq)))"

definition reroute_pins :: "u8 list \<Rightarrow> pci \<Rightarrow> pci" where
  "reroute_pins rc p =
     fold (\<lambda>i u. if js_get False (intx_levels u) i
                 then drive_intx (q35_irq_route rc) i (\<not> has_bits (get_command u i) PCI_COMMAND_INTX_DISABLE) u else u)
       [0..<length (intx_levels p)] p"

section \<open>The host bridge\<close>

text \<open>The control word: G_SMRAME, D_OPEN, H_SMRAME and D_CLS.\<close>

definition smram_control :: "u8 \<Rightarrow> u8 \<Rightarrow> nat" where
  "smram_control smram esm =
     (if smram AND SMRAM_G_SMRAME \<noteq> 0 then 1 else 0) + (if smram AND SMRAM_D_OPEN \<noteq> 0 then 2 else 0) +
     (if esm AND ESMRAMC_H_SMRAME \<noteq> 0 then 4 else 0) + (if smram AND SMRAM_D_CLS \<noteq> 0 then 8 else 0)"

definition tseg_size :: "nat \<Rightarrow> u8 \<Rightarrow> u8 \<Rightarrow> nat" where
  "tseg_size top1 smram esm =
     (if esm AND ESMRAMC_T_EN \<noteq> 0 \<and> smram AND SMRAM_G_SMRAME \<noteq> 0
      then min top1 (([1, 2, 8, 16] ! unat (drop_bit 1 esm AND 3)) * 2 ^ 20) else 0)"

definition update_smram :: "q35_machine \<Rightarrow> q35 \<Rightarrow> q35" where
  "update_smram mc q =
     (let smram = reg8 MCH MCH_SMRAM q; esm = reg8 MCH MCH_ESMRAMC q; top1 = low_memory_size mc; sz = tseg_size top1 smram esm
      in q_emit (Smram_Tseg (top1 - sz) top1) (q_emit (Smram_Control (smram_control smram esm)) q))"

definition ecam_length :: "i32 \<Rightarrow> nat" where
  "ecam_length low =
     (let l = drop_bit 1 low AND 3 in if l = 1 then 128 * 2 ^ 20 else if l = 2 then 64 * 2 ^ 20 else 256 * 2 ^ 20)"

definition ecam_window :: "q35_machine \<Rightarrow> i32 \<Rightarrow> i32 \<Rightarrow> int \<times> nat" where
  "ecam_window mc low high =
     (let sz = ecam_length low; base = uint (low AND NOT (word_of_nat sz - 1))
      in if low AND 1 = 0 \<or> high AND 0xF \<noteq> 0 \<or> base < memory_size0 mc then (-1, 0) else (base, sz))"

definition update_ecam :: "q35_machine \<Rightarrow> q35 \<Rightarrow> q35" where
  "update_ecam mc q =
     (let (base, sz) = ecam_window mc (reg32 MCH MCH_PCIEXBAR q) (reg32 MCH (MCH_PCIEXBAR + 4) q) in q\<lparr>q_pci := set_ecam base sz (q_pci q)\<rparr>)"

definition esmramc_written :: "q35 \<Rightarrow> q35" where
  "esmramc_written q =
     (let q1 = (if smram_locked q then q else q\<lparr>esmramc := reg8 MCH MCH_ESMRAMC q AND ESMRAMC_WRITABLE OR MCH_ESMRAMC_DEFAULT\<rparr>)
      in put8 MCH MCH_ESMRAMC (esmramc q1) q1)"

definition ext_tseg_written :: "q35 \<Rightarrow> q35" where
  "ext_tseg_written q =
     (if reg8 MCH MCH_EXT_TSEG_MBYTES q = 0xFF \<and> reg8 MCH (MCH_EXT_TSEG_MBYTES + 1) q = 0xFF
      then put8 MCH (MCH_EXT_TSEG_MBYTES + 1) 0 (put8 MCH MCH_EXT_TSEG_MBYTES 16 q) else q)"

text \<open>What SMRAM becomes: the read-only bits, then the lock.\<close>

definition smram_value :: "bool \<Rightarrow> u8 \<Rightarrow> u8 \<Rightarrow> u8" where
  "smram_value locked locked_value raw =
     (let v = raw AND NOT 7 OR MCH_SMRAM_DEFAULT;
          v1 = (if locked then v AND NOT (SMRAM_D_OPEN OR SMRAM_G_SMRAME OR SMRAM_D_LCK) OR locked_value else v)
      in if v1 AND SMRAM_D_LCK \<noteq> 0 then v1 AND NOT SMRAM_D_OPEN else v1)"

definition smram_written :: "q35_machine \<Rightarrow> q35 \<Rightarrow> q35" where
  "smram_written mc q =
     (let v = smram_value (smram_locked q) (smram_locked_value q) (reg8 MCH MCH_SMRAM q);
          q1 = (if v AND SMRAM_D_LCK \<noteq> 0 then q\<lparr>smram_locked := True, smram_locked_value := v AND (SMRAM_G_SMRAME OR SMRAM_D_LCK)\<rparr> else q)
      in update_smram mc (put8 MCH MCH_SMRAM v q1))"

definition mch_config_written :: "q35_machine \<Rightarrow> nat \<Rightarrow> nat \<Rightarrow> q35 \<Rightarrow> q35" where
  "mch_config_written mc offset sz q =
     (let q1 = (if touches offset sz MCH_ESMRAMC (MCH_ESMRAMC + 1) then esmramc_written q else q);
          q2 = (if touches offset sz MCH_EXT_TSEG_MBYTES (MCH_EXT_TSEG_MBYTES + 2) then ext_tseg_written q1 else q1);
          q3 = (if touches offset sz MCH_SMRAM (MCH_ESMRAMC + 1) then smram_written mc q2 else q2)
      in if touches offset sz MCH_PCIEXBAR (MCH_PCIEXBAR + 8) then update_ecam mc q3 else q3)"

definition mch_config_restored :: "q35_machine \<Rightarrow> q35 \<Rightarrow> q35" where
  "mch_config_restored mc q =
     (let q1 = update_ecam mc q
      in update_smram mc (q1\<lparr>smram_locked := reg8 MCH MCH_SMRAM q1 AND SMRAM_D_LCK \<noteq> 0,
           smram_locked_value := reg8 MCH MCH_SMRAM q1 AND (SMRAM_G_SMRAME OR SMRAM_D_LCK), esmramc := reg8 MCH MCH_ESMRAMC q1\<rparr>))"

section \<open>The LPC bridge\<close>

definition q35_update_pm_decode :: "q35_machine \<Rightarrow> q35 \<Rightarrow> q35" where
  "q35_update_pm_decode mc q =
     (let pmbase = reg32 LPC LPC_PMBASE q AND 0xFF80; q1 = put32 LPC LPC_PMBASE (pmbase OR 1) q;
          enabled = reg8 LPC LPC_ACPI_CNTL q1 AND 0x80 \<noteq> 0
      in if q_acpi mc then q_emit (Pm_Decode (if enabled \<and> pmbase \<noteq> 0 then uint pmbase else -1)) q1 else q1)"

definition update_rcba :: "q35 \<Rightarrow> q35" where
  "update_rcba q =
     (let v = reg32 LPC LPC_RCBA q; q1 = put32 LPC LPC_RCBA (v AND NOT 0x3FFE) q;
          base = (if v AND 1 \<noteq> 0 then uint (v AND NOT 0x3FFF) else -1)
      in if base = rcba_base q1 then q1
         else let q2 = (if rcba_base q1 \<noteq> -1 then q_emit (Rcba_Unregister (rcba_base q1)) q1 else q1); q3 = q2\<lparr>rcba_base := base\<rparr>
              in if base \<noteq> -1 then q_emit (Rcba_Register base) q3 else q3)"

definition mask_pirqs :: "q35 \<Rightarrow> q35" where
  "mask_pirqs q =
     fold (\<lambda>i u. put8 LPC (LPC_PIRQE_ROUT + i) (reg8 LPC (LPC_PIRQE_ROUT + i) u AND 0x8F)
        (put8 LPC (LPC_PIRQA_ROUT + i) (reg8 LPC (LPC_PIRQA_ROUT + i) u AND 0x8F) u)) [0..<4] q"

definition q_reroute :: "q35 \<Rightarrow> q35" where
  "q_reroute q = q\<lparr>q_pci := reroute_pins (rcba q) (q_pci q)\<rparr>"

definition lpc_config_written :: "q35_machine \<Rightarrow> nat \<Rightarrow> nat \<Rightarrow> q35 \<Rightarrow> q35" where
  "lpc_config_written mc offset sz q =
     (let q1 = (if touches offset sz LPC_PMBASE (LPC_ACPI_CNTL + 1) then q35_update_pm_decode mc q else q);
          q2 = (if touches offset sz LPC_PIRQA_ROUT (LPC_PIRQA_ROUT + 4) \<or> touches offset sz LPC_PIRQE_ROUT (LPC_PIRQE_ROUT + 4)
                then q_reroute (mask_pirqs q1) else q1)
      in if touches offset sz LPC_RCBA (LPC_RCBA + 4) then update_rcba q2 else q2)"

definition lpc_config_restored :: "q35_machine \<Rightarrow> q35 \<Rightarrow> q35" where
  "lpc_config_restored mc q = update_rcba (q35_update_pm_decode mc q)"

text \<open>The root complex registers; a byte beyond the block reads as 0.\<close>

definition rcba_write :: "nat \<Rightarrow> u8 \<Rightarrow> q35 \<Rightarrow> q35" where
  "rcba_write offset v q =
     (let q1 = q\<lparr>rcba := (rcba q)[offset := v]\<rparr> in if offset \<ge> 0x3140 \<and> offset < 0x3154 then q_reroute q1 else q1)"

definition rcba_write32 :: "nat \<Rightarrow> i32 \<Rightarrow> q35 \<Rightarrow> q35" where
  "rcba_write32 offset v q = fold (\<lambda>i. rcba_write (offset + i) (byte_n v i)) [0..<4] q"

definition rcba_read32 :: "nat \<Rightarrow> q35 \<Rightarrow> i32" where
  "rcba_read32 offset q =
     ucast (js_get 0 (rcba q) offset) OR push_bit 8 (ucast (js_get 0 (rcba q) (offset + 1))) OR
     push_bit 16 (ucast (js_get 0 (rcba q) (offset + 2))) OR push_bit 24 (ucast (js_get 0 (rcba q) (offset + 3)))"

section \<open>Power-on\<close>

definition rcba_reset :: "q35_machine \<Rightarrow> u8 list" where
  "rcba_reset mc =
     (fold (\<lambda>offset xs. xs[offset := 0x10, offset + 1 := 0x32]) [0x3140, 0x3144, 0x3146, 0x3148, 0x314C, 0x3150] (replicate ICH9_RCBA_SIZE 0))
       [0x3410 := 0x20, 0x3404 := if q_hpet mc then 0x80 else 0]"

definition mch_reset :: "q35_machine \<Rightarrow> q35 \<Rightarrow> q35" where
  "mch_reset mc q =
     (let q1 = fill8 MCH 0 MCH_PAM0 (MCH_PAM0 + 7) (fill8 MCH 0 MCH_PCIEXBAR (MCH_PCIEXBAR + 8) q);
          q2 = put8 MCH MCH_ESMRAMC MCH_ESMRAMC_DEFAULT (put8 MCH MCH_SMRAM MCH_SMRAM_DEFAULT (put8 MCH MCH_PAM0 0x10 q1));
          q3 = put8 MCH (MCH_EXT_TSEG_MBYTES + 1) 0xFF (put8 MCH MCH_EXT_TSEG_MBYTES 0xFF (q2\<lparr>esmramc := MCH_ESMRAMC_DEFAULT\<rparr>))
      in update_smram mc (q3\<lparr>smram_locked := False, smram_locked_value := 0\<rparr>))"

definition lpc_reset :: "q35 \<Rightarrow> q35" where
  "lpc_reset q =
     (let q1 = put8 LPC LPC_ACPI_CNTL 0 (put32 LPC LPC_PMBASE 1 q);
          q2 = fill8 LPC LPC_PIRQ_ROUT_DISABLED LPC_PIRQE_ROUT (LPC_PIRQE_ROUT + 4)
                 (fill8 LPC LPC_PIRQ_ROUT_DISABLED LPC_PIRQA_ROUT (LPC_PIRQA_ROUT + 4) q1)
      in put32 LPC LPC_RCBA 0 (fill8 LPC 0 0xA0 0xA8 (put8 LPC LPC_SIRQ_CNTL 0x10 q2)))"

definition q35_reset :: "q35_machine \<Rightarrow> q35 \<Rightarrow> q35" where
  "q35_reset mc q = update_rcba (q35_update_pm_decode mc (update_ecam mc ((lpc_reset (mch_reset mc q))\<lparr>rcba := rcba_reset mc\<rparr>)))"

definition mch_space :: "u8 list" where
  "mch_space = [0x86, 0x80, 0xC0, 0x29, 0x06, 0x00, 0x00, 0x00, 0x00, 0x00, 0x00, 0x06, 0x00, 0x00, 0x00, 0x00] @ replicate 240 0"

definition lpc_space :: "u8 list \<Rightarrow> u8 list" where
  "lpc_space subsystem =
     [0x86, 0x80, 0x18, 0x29, 0x07, 0x00, 0x00, 0x02, 0x02, 0x00, 0x01, 0x06, 0x00, 0x00, 0x80, 0x00] @ replicate 0x1C 0 @ subsystem @ replicate 0xD0 0"

text \<open>\<open>subsystem\<close> is zeros or QEMU's.\<close>

definition create_q35 :: "q35_machine \<Rightarrow> u8 list \<Rightarrow> pci \<Rightarrow> q35" where
  "create_q35 mc subsystem p =
     q35_reset mc \<lparr>q_pci = register_device LPC plain_function (lpc_space subsystem) 256 (register_device MCH plain_function mch_space 256 p),
       rcba = replicate ICH9_RCBA_SIZE 0, rcba_base = -1, smram_locked = False, smram_locked_value = 0, esmramc = 0, q_log = []\<rparr>"

definition q35_get_state :: "q35 \<Rightarrow> u8 list" where
  "q35_get_state q = rcba q"

definition q35_set_state :: "u8 list \<Rightarrow> q35 \<Rightarrow> q35" where
  "q35_set_state st q = q\<lparr>rcba := st @ drop (length st) (rcba q)\<rparr>"

section \<open>The chipset on the bus\<close>

text \<open>A configuration write, and what its function makes of it.\<close>

definition notifies :: "pci \<Rightarrow> nat \<Rightarrow> nat \<Rightarrow> nat \<Rightarrow> bool" where
  "notifies p i offset sz =
     (case space_of p i of None \<Rightarrow> False
      | Some bs \<Rightarrow> offset + sz \<le> length bs \<and> \<not> is_bar_offset (is_bridge p i) offset \<and>
          (offset + sz > 0x40 \<or> header_written (is_bridge p i) offset sz))"

definition q35_write :: "q35_machine \<Rightarrow> nat option \<Rightarrow> nat \<Rightarrow> nat \<Rightarrow> i32 \<Rightarrow> q35 \<Rightarrow> q35" where
  "q35_write mc t offset sz v q =
     (let q1 = q\<lparr>q_pci := function_write (q35_irq_route (rcba q)) t offset sz v (q_pci q)\<rparr>
      in case t of None \<Rightarrow> q1
         | Some i \<Rightarrow> if \<not> notifies (q_pci q) i offset sz then q1
                     else if i = MCH then mch_config_written mc offset sz q1
                     else if i = LPC then lpc_config_written mc offset sz q1 else q1)"

definition q35_config_write :: "q35_machine \<Rightarrow> nat \<Rightarrow> nat \<Rightarrow> nat \<Rightarrow> i32 \<Rightarrow> q35 \<Rightarrow> q35 option" where
  "q35_config_write mc bdf offset sz v q = map_option (\<lambda>t. q35_write mc t offset sz v q) (route_config (q_pci q) bdf)"

section \<open>The routing keeps its promise\<close>

lemma pirq_small: "pin < 4 \<Longrightarrow> pirq_of rc slot pin < 8"
proof -
  assume p: "pin < 4"
  have "unat (x AND 7 :: i32) < 8" for x
  proof -
    have "x AND 7 \<le> 7" by (rule word_and_le1)
    then show ?thesis by (simp add: word_le_nat_alt)
  qed
  then show ?thesis using p by (auto simp: pirq_of_def split: option.split)
qed

lemma q35_route_ok: "route_ok (q35_irq_route rc)"
proof -
  have u: "unat (b AND 0x0F :: u8) < 16" for b
  proof -
    have "b AND 0x0F \<le> 0x0F" by (rule word_and_le1)
    then show ?thesis by (simp add: word_le_nat_alt)
  qed
  have n: "not_routed 0x80" by code_simp
  have "pirq_of rc (i div 8) (nat pin) < 8" if "\<not> (pin < 0 \<or> 3 < pin \<or> 256 \<le> i)" for i pin
    using that by (intro pirq_small) auto
  then show ?thesis unfolding route_ok_def q35_irq_route_def Let_def using u n by (auto split: if_splits)
qed

section \<open>Steps of the chipset that leave the pins alone\<close>

lemma js_put_put [simp]: "js_put d (js_put d xs i a) i b = js_put d xs i b"
  by (rule nth_equalityI) (auto simp: js_put_def nth_append nth_list_update)

lemma set_space_twice [simp]: "set_space i a (set_space i b s) = set_space i a s"
  by (simp add: set_space_def)

definition calm :: "pci \<Rightarrow> pci \<Rightarrow> bool" where
  "calm p u \<longleftrightarrow> (machine_ok p \<longrightarrow> evolves p u) \<and> pin_frame p u \<and> absent u = absent p \<and>
     (\<forall>j. get_command u j = get_command p j \<and> map_option length (space_of u j) = map_option length (space_of p j))"

lemma calm_trans [trans]:
  assumes "calm p u" "calm u w" shows "calm p w"
proof -
  have "evolves p w" if "machine_ok p"
    using assms that evolves_trans [of p u w] evolves_ok [OF that, of u] by (simp add: calm_def)
  then show ?thesis using assms pin_frame_trans [of p u w] by (simp add: calm_def)
qed

lemma calm_refl: "calm p p"
  by (simp add: calm_def evolves_def machine_ok_def)

lemma calm_pins: "calm p u \<Longrightarrow> pins_ok p \<Longrightarrow> pins_ok u"
  using pins_frame [of p u] by (simp add: calm_def)

lemma calm_own: "calm p (own_register i k b p)"
proof -
  have "evolves p (own_register i k b p)" if "machine_ok p"
    using own_register_wf [of p i k b] identity_own that by (simp add: machine_ok_def evolves_def pci_shape_def)
  moreover have "get_dword (bs[k := b]) 1 = get_dword bs 1" if "\<not> k < 0x40" for bs using that by (intro get_dword_cong) simp
  then have "get_command (own_register i k b p) j = get_command p j" for j by (auto simp: own_register_def get_command_def split: option.split)
  ultimately show ?thesis by (auto simp: calm_def own_register_def split: option.split)
qed

lemma calm_put8: "space_of (q_pci q) i \<noteq> None \<Longrightarrow> 0x40 \<le> k \<Longrightarrow> calm (q_pci q) (q_pci (put8 i k b q))"
  using calm_own [of "q_pci q" i k b] by (auto simp: put8_def own_register_def space_bytes_def)

lemma calm_put32: "space_of (q_pci q) i \<noteq> None \<Longrightarrow> 0x40 \<le> k \<Longrightarrow> calm (q_pci q) (q_pci (put32 i k v q))"
proof -
  assume s: "space_of (q_pci q) i \<noteq> None" and k: "0x40 \<le> k"
  then obtain bs where bs: "space_of (q_pci q) i = Some bs" by blast
  let ?m = "4 * (k div 4)" and ?p = "q_pci q"
  have m: "\<not> ?m < 0x40" using k by presburger
  have "q_pci (put32 i k v q) = own_register i (?m + 3) (ucast (drop_bit 24 v)) (own_register i (?m + 2) (ucast (drop_bit 16 v))
      (own_register i (?m + 1) (ucast (drop_bit 8 v)) (own_register i ?m (ucast v) ?p)))"
    using bs m by (simp add: put32_def store_dword_def own_register_def space_bytes_def set_dword_def)
  then show ?thesis using calm_trans [OF calm_trans [OF calm_trans [OF calm_own calm_own] calm_own] calm_own] by simp
qed

lemma calm_emit: "line_of e = [] \<Longrightarrow> calm p (pci_emit e p)"
proof -
  assume l: "line_of e = []"
  have "evolves p (pci_emit e p)" if "machine_ok p"
  proof -
    have "identity (pci_emit e p) j = identity p j" for j by (rule identity_cong) simp
    then show ?thesis using that emit_shape [of p e] by (simp add: evolves_def machine_ok_def pci_shape_def)
  qed
  then show ?thesis using pin_frame_emit [OF l] by (simp add: calm_def get_command_def)
qed

lemma calm_fields: "calm p (p\<lparr>ecam_base := x, ecam_size := y\<rparr>)"
proof -
  let ?u = "p\<lparr>ecam_base := x, ecam_size := y\<rparr>"
  have "evolves p ?u" if "machine_ok p"
  proof -
    have sh: "pci_shape p ?u" by (simp add: pci_shape_def same_shape_def)
    have w: "pci_wf p" using that by (simp add: machine_ok_def)
    have "bar_placed ?u j m = bar_placed p j m" for j m by (rule placed_cong) simp_all
    then have "pci_wf ?u" using w by (intro wf_shape [OF w sh]) (simp add: pci_wf_def)
    moreover have "identity ?u j = identity p j" for j by (rule identity_cong) simp
    ultimately show ?thesis using sh by (simp add: evolves_def pci_shape_def)
  qed
  then show ?thesis by (simp add: calm_def pin_frame_def pci_lines_def get_command_def)
qed

lemma calm_set_ecam: "calm p (set_ecam base sz p)"
proof -
  have a: "calm p (if c then pci_emit (Ecam_Unregister b n) p else p)" for c b n using calm_emit calm_refl by simp
  have b: "calm p u \<Longrightarrow> calm p (pci_emit (Ecam_Register c n) u)" for u c n by (rule calm_trans [OF _ calm_emit]) simp_all
  have c: "calm p u \<Longrightarrow> calm p (u\<lparr>ecam_base := x, ecam_size := y\<rparr>)" for u x y by (rule calm_trans [OF _ calm_fields])
  show ?thesis unfolding set_ecam_def Let_def using calm_refl b c [OF a] by simp
qed


text \<open>Both chips are on the bus.\<close>

definition chips_ok :: "pci \<Rightarrow> bool" where
  "chips_ok p \<longleftrightarrow> space_of p MCH \<noteq> None \<and> space_of p LPC \<noteq> None"

lemma calm_space: "calm p u \<Longrightarrow> space_of u j = None \<longleftrightarrow> space_of p j = None"
proof -
  assume "calm p u"
  then have "map_option length (space_of u j) = map_option length (space_of p j)" by (simp add: calm_def)
  then show ?thesis by (cases "space_of u j"; cases "space_of p j") auto
qed

lemma calm_chips: "calm p u \<Longrightarrow> chips_ok u = chips_ok p"
  using calm_space [of p u] by (simp add: chips_ok_def)

text \<open>The same for the chipset.\<close>

definition q_calm :: "q35 \<Rightarrow> q35 \<Rightarrow> bool" where
  "q_calm q r \<longleftrightarrow> (chips_ok (q_pci q) \<longrightarrow> calm (q_pci q) (q_pci r)) \<and> rcba r = rcba q"

lemma q_calm_trans [trans]: "q_calm q r \<Longrightarrow> q_calm r t \<Longrightarrow> q_calm q t"
  using calm_trans [of "q_pci q" "q_pci r" "q_pci t"] calm_chips [of "q_pci q" "q_pci r"] by (auto simp: q_calm_def)

lemma q_calm_refl: "q_calm q q"
  using calm_refl by (simp add: q_calm_def)

lemma q_calm_same: "q_pci r = q_pci q \<Longrightarrow> rcba r = rcba q \<Longrightarrow> q_calm q r"
  using calm_refl by (simp add: q_calm_def)

lemma q_calm_put: "i = MCH \<or> i = LPC \<Longrightarrow> 0x40 \<le> k \<Longrightarrow> q_calm q (put8 i k b q)" "i = MCH \<or> i = LPC \<Longrightarrow> 0x40 \<le> k \<Longrightarrow> q_calm q (put32 i k v q)"
  using calm_put8 [of q i k b] calm_put32 [of q i k v] by (auto simp: q_calm_def chips_ok_def put8_def put32_def)

lemma q_calm_emit: "q_calm q (q_emit e q)"
  by (rule q_calm_same) (simp_all add: q_emit_def)

lemma q_calm_fold: "(\<And>x r. x \<in> set xs \<Longrightarrow> q_calm r (f x r)) \<Longrightarrow> q_calm q (fold f xs q)"
proof (induction xs arbitrary: q)
  case (Cons x xs)
  have "q_calm q (f x q)" using Cons.prems by simp
  also have "q_calm (f x q) (fold f xs (f x q))" using Cons by simp
  finally show ?case by simp
qed (simp add: q_calm_refl)

lemma q_calm_smram: "q_calm q (update_smram mc q)"
  unfolding update_smram_def Let_def by (rule q_calm_trans [OF q_calm_emit q_calm_emit])

lemma q_calm_ecam: "q_calm q (update_ecam mc q)"
  using calm_set_ecam [of "q_pci q"] by (auto simp: update_ecam_def q_calm_def split: prod.split)

lemma q_calm_esmramc: "q_calm q (esmramc_written q)"
proof -
  have "q_calm q (if smram_locked q then q else q\<lparr>esmramc := x\<rparr>)" for x by (rule q_calm_same) simp_all
  then show ?thesis unfolding esmramc_written_def Let_def by (rule q_calm_trans [OF _ q_calm_put(1)]) simp_all
qed

lemma q_calm_tseg: "q_calm q (ext_tseg_written q)"
  using q_calm_trans [OF q_calm_put(1) q_calm_put(1)] q_calm_refl by (simp add: ext_tseg_written_def)

lemma q_calm_smram_written: "q_calm q (smram_written mc q)"
proof -
  have "q_calm q (if c then q\<lparr>smram_locked := True, smram_locked_value := x\<rparr> else q)" for c x by (rule q_calm_same) simp_all
  then show ?thesis unfolding smram_written_def Let_def by (intro q_calm_trans [OF q_calm_trans [OF _ q_calm_put(1)] q_calm_smram]) simp_all
qed

lemma q_calm_if: "q_calm q r \<Longrightarrow> (\<And>t. q_calm t (f t)) \<Longrightarrow> q_calm q (if c then f r else r)"
  using q_calm_trans by auto

lemma q_calm_mch: "q_calm q (mch_config_written mc offset sz q)"
  unfolding mch_config_written_def Let_def
  by (intro q_calm_if q_calm_refl q_calm_esmramc q_calm_tseg q_calm_smram_written q_calm_ecam)

lemma q_calm_pm: "q_calm q (q35_update_pm_decode mc q)"
  unfolding q35_update_pm_decode_def Let_def
  by (intro q_calm_if q_calm_put q_calm_emit) simp_all

lemma q_calm_rcba: "q_calm q (update_rcba q)"
proof -
  have a: "q_calm q (put32 LPC LPC_RCBA v q)" for v by (rule q_calm_put) simp_all
  have e: "q_calm q r \<Longrightarrow> q_calm q (q_emit x r)" for r x by (rule q_calm_trans [OF _ q_calm_emit])
  have b: "q_calm q r \<Longrightarrow> q_calm q (r\<lparr>rcba_base := x\<rparr>)" for r x by (erule q_calm_trans) (rule q_calm_same, simp_all)
  show ?thesis unfolding update_rcba_def Let_def using a e b by simp
qed

lemma q_calm_masks: "q_calm q (mask_pirqs q)"
  unfolding mask_pirqs_def by (intro q_calm_fold q_calm_trans [OF q_calm_put(1) q_calm_put(1)]) simp_all


section \<open>What a configuration write does to the pins\<close>

text \<open>It drives the pin of its function anew if it switches the pin, and leaves the pins alone otherwise.\<close>

definition pin_switched :: "irq_route \<Rightarrow> nat \<Rightarrow> pci \<Rightarrow> pci \<Rightarrow> bool" where
  "pin_switched route i s u \<longleftrightarrow> (\<exists>s1. device_spaces s1 = device_spaces u \<and> bridge_for_bus s1 = bridge_for_bus u \<and> pin_frame s s1 \<and>
     pin_frame (drive_intx route i (js_get False (intx_levels s) i \<and> \<not> has_bits (get_command u i) PCI_COMMAND_INTX_DISABLE) s1) u)"

definition intx_bit :: "pci \<Rightarrow> nat \<Rightarrow> bool" where
  "intx_bit s j \<longleftrightarrow> has_bits (get_command s j) PCI_COMMAND_INTX_DISABLE"

lemma frame_bus: "io_frame s u \<Longrightarrow> bridge_for_bus u = bridge_for_bus s"
  by (simp add: io_frame_def same_config_def)

lemma write_bytes_switch:
  assumes "space_of s i = Some bs" "u = write_config_bytes route i offset sz v bs s"
  shows "(\<forall>j. j \<noteq> i \<longrightarrow> get_command u j = get_command s j) \<and> (pin_switched route i s u \<or> pin_frame s u \<and> intx_bit u i = intx_bit s i)"
proof -
  define s1 where "s1 = set_space i (config_bytes (is_bridge s i) offset sz v bs) s"
  have old: "get_dword bs 1 AND 0xFFFF = get_command s i" using assms(1) by (simp add: get_command_def)
  have e: "u = (if get_command s1 i \<noteq> get_command s i then command_changed route i (get_command s i) (get_command s1 i) s1
      else if list_ex (\<lambda>k. k < 0x40 \<and> is_bridge s i \<and> window_byte k) [offset..<offset + sz] then bridge_changed i s1 else s1)"
    unfolding assms(2) write_config_bytes_def Let_def old s1_def by (rule refl)
  have ds: "device_spaces u = device_spaces s1" unfolding e by simp
  then have cu: "get_command u j = get_command s1 j" for j by (rule command_cong)
  have c1: "get_command s1 j = get_command s j" if "j \<noteq> i" for j using that by (simp add: s1_def get_command_def)
  have f1: "pin_frame s s1" by (simp add: s1_def)
  have "pin_switched route i s u \<or> pin_frame s u \<and> intx_bit u i = intx_bit s i"
  proof (cases "has_bits (get_command s i XOR get_command s1 i) PCI_COMMAND_INTX_DISABLE")
    case True
    then have ne: "get_command s1 i \<noteq> get_command s i" by auto
    let ?d = "drive_intx route i (js_get False (intx_levels s) i \<and> \<not> has_bits (get_command s1 i) PCI_COMMAND_INTX_DISABLE) s1"
    let ?e = "pci_emit (On_Command_Change i (get_command s i) (get_command s1 i)) ?d"
    have iv: "intx_levels s1 = intx_levels s" using f1 by (simp add: pin_frame_def)
    have u: "u = (if is_bridge ?e i \<and> has_bits (get_command s i XOR get_command s1 i) 0x7 then bridge_changed i ?e else ?e)"
      unfolding e command_changed_def Let_def iv using ne True by simp
    have em: "pin_frame ?d ?e" by (rule pin_frame_emit) simp
    have pf: "pin_frame ?d u" unfolding u using em pin_frame_trans [OF em pin_frame_io(3)] by simp
    have "bridge_for_bus u = bridge_for_bus s1" unfolding u using frame_bus [OF bridge_changed_frame] by simp
    then show ?thesis using pf ds f1 cu unfolding pin_switched_def by metis
  next
    case False
    have "get_command s i AND 0x400 = get_command s1 i AND 0x400" by (rule xor_bit_clear [OF False])
    then have b: "intx_bit u i = intx_bit s i" by (simp add: intx_bit_def cu)
    let ?e = "pci_emit (On_Command_Change i (get_command s i) (get_command s1 i)) s1"
    have em: "pin_frame s1 ?e" by (rule pin_frame_emit) simp
    have "pin_frame s1 (command_changed route i (get_command s i) (get_command s1 i) s1)"
      unfolding command_changed_def Let_def using False em pin_frame_trans [OF em pin_frame_io(3)] by simp
    then have "pin_frame s1 u" unfolding e using pin_frame_io(3) by simp
    then show ?thesis using b pin_frame_trans [OF f1] by blast
  qed
  then show ?thesis using cu c1 by simp
qed


lemma function_write_switch:
  assumes "pci_wf s" "u = function_write route t offset sz v s"
  shows "(\<exists>i. t = Some i \<and> pin_switched route i s u \<and> (\<forall>j. j \<noteq> i \<longrightarrow> get_command u j = get_command s j)) \<or>
    pin_frame s u \<and> (\<forall>j. intx_bit u j = intx_bit s j)"
proof (cases "\<exists>i bs. t = Some i \<and> space_of s i = Some bs \<and> offset + sz \<le> length bs")
  case True
  then obtain i bs where t: "t = Some i" and sp: "space_of s i = Some bs" and l: "offset + sz \<le> length bs" by blast
  let ?w = "write_config_bytes route i offset sz v bs s" and ?e = "On_Config_Write i offset sz"
  have ps: "pin_switched route i s (pci_emit ?e w)" if "pin_switched route i s w" for w
  proof -
    have "get_command (pci_emit ?e w) i = get_command w i" by (rule command_cong) simp
    then show ?thesis using that pin_frame_trans [OF _ pin_frame_emit, of _ w ?e] unfolding pin_switched_def by auto
  qed
  have bar: "pin_frame s (write_bar i offset v s) \<and> (\<forall>j. intx_bit (write_bar i offset v s) j = intx_bit s j)"
    if "is_bar_offset (is_bridge s i) offset"
  proof -
    have o: "offset \<ge> 0x10" using that by (auto simp: is_bar_offset_def split: if_splits)
    show ?thesis using write_bar_frame [OF assms(1) _ o, of i v] sp by (simp add: intx_bit_def)
  qed
  have "length (space_bytes s i) \<ge> 8" using bytes_length [OF assms(1), of i] sp by simp
  then have "pin_frame s (store_dword i 12 x s) \<and> (\<forall>j. intx_bit (store_dword i 12 x s) j = intx_bit s j)" for x
    using command_store [of s i 12 x] by (simp add: intx_bit_def pin_frame_store)
  then have rom: "pin_frame s (write_expansion_rom i v s) \<and> (\<forall>j. intx_bit (write_expansion_rom i v s) j = intx_bit s j)"
    by (simp add: write_expansion_rom_def split: option.split)
  show ?thesis
  proof (cases "is_bar_offset (is_bridge s i) offset")
    case True
    then have "u = s \<or> u = write_expansion_rom i v s \<or> u = write_bar i offset v s" using assms(2) t sp l by (simp add: function_write_def)
    then show ?thesis using bar [OF True] rom by auto
  next
    case False
    then have u: "u = ?w \<or> u = pci_emit ?e ?w" using assms(2) t sp l by (auto simp: function_write_def Let_def)
    have c: "get_command u j = get_command ?w j" for j using u by (auto intro: command_cong)
    have f: "pin_frame s ?w \<Longrightarrow> pin_frame s u" using u pin_frame_trans [OF _ pin_frame_emit, of s ?w ?e] by auto
    from write_bytes_switch [OF sp refl, of route offset sz v]
    have o: "j \<noteq> i \<Longrightarrow> get_command u j = get_command s j" for j using c by simp
    from write_bytes_switch [OF sp refl, of route offset sz v]
    consider "pin_switched route i s ?w" | "pin_frame s ?w" "intx_bit ?w i = intx_bit s i" by blast
    then show ?thesis
    proof cases
      case 1 then show ?thesis using t u ps o by blast
    next
      case 2
      then have "intx_bit u j = intx_bit s j" for j using o [of j] c [of i] by (cases "j = i") (simp_all add: intx_bit_def)
      then show ?thesis using f 2(1) by blast
    qed
  qed
next
  case False
  then have "u = s" using assms(2) by (auto simp: function_write_def split: option.split)
  then show ?thesis by simp
qed

section \<open>Every pin is on the line its route names\<close>

definition route_of :: "u8 list \<Rightarrow> pci \<Rightarrow> nat \<Rightarrow> nat \<times> nat option" where
  "route_of rc p i = (let (r, pin) = root_pin p i in q35_irq_route rc p r pin)"

text \<open>The pin is raised and the function is on the bus.\<close>

definition intx_driven :: "pci \<Rightarrow> nat \<Rightarrow> bool" where
  "intx_driven p i \<longleftrightarrow> intx_raised p i \<and> \<not> js_get False (absent p) i"

text \<open>The records of a pin name the lines of its route.\<close>

definition on_route :: "u8 list \<Rightarrow> pci \<Rightarrow> nat \<Rightarrow> bool" where
  "on_route rc p i \<longleftrightarrow>
     js_get None (asserted_irq_lines p) i = (if not_routed (fst (route_of rc p i)) then None else Some (fst (route_of rc p i))) \<and>
     js_get None (asserted_gsis p) i = snd (route_of rc p i)"

definition pin_exact :: "u8 list \<Rightarrow> pci \<Rightarrow> nat \<Rightarrow> bool" where
  "pin_exact rc p i \<longleftrightarrow> on_route rc p i \<or> \<not> intx_driven p i \<and> intx_silent p i"

lemma pin_exact_cong:
  assumes "js_get None (asserted_irq_lines u) j = js_get None (asserted_irq_lines p) j"
    "js_get None (asserted_gsis u) j = js_get None (asserted_gsis p) j" "route_of rc u j = route_of rc p j" "intx_driven u j = intx_driven p j"
  shows "pin_exact rc u j = pin_exact rc p j"
  using assms by (simp only: pin_exact_def on_route_def intx_silent_def)

lemmas pin_defs = pin_exact_def on_route_def intx_driven_def intx_raised_def intx_silent_def

definition pirq_bytes :: "pci \<Rightarrow> u8 list" where
  "pirq_bytes p = map (\<lambda>k. space_bytes p LPC ! k) ([0x60..<0x64] @ [0x68..<0x6C])"

lemma pirq_byte_eq: "pirq_bytes u = pirq_bytes p \<Longrightarrow> pirq < 8 \<Longrightarrow>
    space_bytes u LPC ! (if pirq < 4 then 0x60 + pirq else 0x68 + pirq - 4) = space_bytes p LPC ! (if pirq < 4 then 0x60 + pirq else 0x68 + pirq - 4)"
proof -
  assume e: "pirq_bytes u = pirq_bytes p" and q: "pirq < 8"
  have "(if pirq < 4 then 0x60 + pirq else 0x68 + pirq - 4) \<in> set ([0x60..<0x64] @ [0x68..<0x6C])" using q by auto
  then show ?thesis using e unfolding pirq_bytes_def map_eq_conv by blast
qed

lemma q35_route_cong: "pirq_bytes u = pirq_bytes p \<Longrightarrow> q35_irq_route rc u r pin = q35_irq_route rc p r pin"
proof (cases "pin < 0 \<or> pin > 3 \<or> r \<ge> 256")
  case False
  assume e: "pirq_bytes u = pirq_bytes p"
  have "pirq_of rc (r div 8) (nat pin) < 8" using False by (intro pirq_small) auto
  from pirq_byte_eq [OF e this] show ?thesis unfolding q35_irq_route_def Let_def by simp
qed (simp add: q35_irq_route_def)

lemma root_pin_cong: "identity u i = identity p i \<Longrightarrow> bridge_for_bus u = bridge_for_bus p \<Longrightarrow> root_pin u i = root_pin p i"
proof -
  assume i: "identity u i = identity p i" and b: "bridge_for_bus u = bridge_for_bus p"
  have "(0x3D :: nat) \<in> set identity_bytes" by (simp add: identity_bytes_def)
  then have "space_bytes u i ! 0x3D = space_bytes p i ! 0x3D" using i unfolding identity_def identity_of_def map_eq_conv by blast
  then show ?thesis using upstream_cong [OF b] by (simp add: root_pin_def)
qed

lemma route_of_cong:
  assumes "identity u i = identity p i" "bridge_for_bus u = bridge_for_bus p" "pirq_bytes u = pirq_bytes p"
  shows "route_of rc u i = route_of rc p i"
  unfolding route_of_def root_pin_cong [OF assms(1,2)] q35_route_cong [OF assms(3)] by (rule refl)

lemma route_of_spaces: "device_spaces u = device_spaces p \<Longrightarrow> bridge_for_bus u = bridge_for_bus p \<Longrightarrow> route_of rc u i = route_of rc p i"
  by (rule route_of_cong, rule identity_cong) (simp_all add: pirq_bytes_def space_bytes_def)

text \<open>Driving a pin puts it on the line of its route.\<close>

lemma drive_exact:
  "js_get None (asserted_irq_lines (drive_intx (q35_irq_route rc) i level p)) j =
     (if j = i then if level \<and> \<not> not_routed (fst (route_of rc p i)) then Some (fst (route_of rc p i)) else None else js_get None (asserted_irq_lines p) j)"
  "js_get None (asserted_gsis (drive_intx (q35_irq_route rc) i level p)) j =
     (if j = i then if level then snd (route_of rc p i) else None else js_get None (asserted_gsis p) j)"
proof -
  obtain r pin where rp: "root_pin p i = (r, pin)" by fastforce
  obtain pic g where rt: "q35_irq_route rc p r pin = (pic, g)" by fastforce
  have ro: "route_of rc p i = (pic, g)" using rp rt by (simp add: route_of_def)
  show "js_get None (asserted_irq_lines (drive_intx (q35_irq_route rc) i level p)) j =
     (if j = i then if level \<and> \<not> not_routed (fst (route_of rc p i)) then Some (fst (route_of rc p i)) else None else js_get None (asserted_irq_lines p) j)"
    "js_get None (asserted_gsis (drive_intx (q35_irq_route rc) i level p)) j =
     (if j = i then if level then snd (route_of rc p i) else None else js_get None (asserted_gsis p) j)"
    using drive_intx_records [OF q35_route_ok rp rt, of level j] by (simp_all add: ro)
qed


definition pins_base :: "pci \<Rightarrow> bool" where
  "pins_base p \<longleftrightarrow> machine_ok p \<and> pins_ok p"

definition pins_inv :: "u8 list \<Rightarrow> pci \<Rightarrow> bool" where
  "pins_inv rc p \<longleftrightarrow> pins_base p \<and> (\<forall>i. pin_exact rc p i)"

lemma calm_base: "calm p u \<Longrightarrow> pins_base p \<Longrightarrow> pins_base u"
  using calm_pins [of p u] evolves_ok [of p u] by (auto simp: pins_base_def calm_def)

lemma exact_frame:
  assumes "pin_frame p u" "evolves p u" "pirq_bytes u = pirq_bytes p" "\<And>j. intx_bit u j = intx_bit p j" "absent u = absent p" "pin_exact rc p i"
  shows "pin_exact rc u i"
proof -
  have "intx_driven u i = intx_driven p i" using assms(1,5) assms(4) [of i] by (simp add: intx_driven_def intx_raised_def pin_frame_def intx_bit_def)
  moreover have "route_of rc u i = route_of rc p i" using assms(2,3) by (intro route_of_cong) (simp_all add: evolves_def same_shape_def)
  ultimately show ?thesis using assms(1,6) pin_exact_cong [of u i p rc] by (simp add: pin_frame_def)
qed

lemma calm_inv: "calm p u \<Longrightarrow> pirq_bytes u = pirq_bytes p \<Longrightarrow> pins_inv rc p \<Longrightarrow> pins_inv rc u"
proof -
  assume c: "calm p u" and q: "pirq_bytes u = pirq_bytes p" and i: "pins_inv rc p"
  have ev: "evolves p u" using c i by (simp add: calm_def pins_inv_def pins_base_def)
  have "pin_exact rc u j" for j
    by (rule exact_frame [OF _ ev q]) (use c i in \<open>simp_all add: calm_def intx_bit_def pins_inv_def\<close>)
  then show ?thesis using calm_base [OF c] i by (simp add: pins_inv_def)
qed

lemma function_write_absent: "pci_wf s \<Longrightarrow> sz \<le> 4 \<Longrightarrow> absent (function_write route t offset sz v s) = absent s"
  using function_write_wf [of s sz route t offset v] by (simp add: pci_shape_def)

lemma function_write_levels:
  assumes "pci_wf s" shows "intx_levels (function_write route t offset sz v s) = intx_levels s"
  using function_write_switch [OF assms refl, where route = route and t = t and offset = offset and sz = sz and v = v] by (auto simp: pin_switched_def pin_frame_def)

lemma function_write_evolves:
  assumes "machine_ok s" "sz \<le> 4" shows "evolves s (function_write route t offset sz v s)"
  using function_write_wf [of s sz route t offset v] identity_write [of s route t offset sz v] assms
  by (simp add: evolves_def machine_ok_def pci_shape_def)

lemma function_write_base:
  assumes "pins_base s" "sz \<le> 4" "\<And>i. t = Some i \<Longrightarrow> \<not> js_get False (absent s) i"
  shows "pins_base (function_write (q35_irq_route rc) t offset sz v s)"
proof -
  have w: "machine_ok s" "pci_wf s" "pins_ok s" using assms(1) by (simp_all add: pins_base_def machine_ok_def)
  show ?thesis
    using evolves_ok [OF w(1) function_write_evolves [OF w(1) assms(2)]] function_write_pins [OF q35_route_ok w(2,3) assms(3)]
    by (simp add: pins_base_def)
qed

lemma function_write_exact:
  assumes "pins_inv rc s" "sz \<le> 4" "\<And>i. t = Some i \<Longrightarrow> \<not> js_get False (absent s) i"
    "u = function_write (q35_irq_route rc) t offset sz v s" "pirq_bytes u = pirq_bytes s"
  shows "pins_inv rc u"
proof -
  have b: "pins_base s" "machine_ok s" "pci_wf s" and ex: "pin_exact rc s j" for j
    using assms(1) by (simp_all add: pins_inv_def pins_base_def machine_ok_def)
  have ev: "evolves s u" unfolding assms(4) by (rule function_write_evolves [OF b(2) assms(2)])
  have ab: "absent u = absent s" unfolding assms(4) by (rule function_write_absent [OF b(3) assms(2)])
  have ro: "route_of rc u j = route_of rc s j" for j using ev assms(5) by (intro route_of_cong) (simp_all add: evolves_def same_shape_def)
  have bu: "pins_base u" unfolding assms(4) by (rule function_write_base [OF b(1) assms(2,3)])
  from function_write_switch [OF b(3) assms(4)] consider
    i where "t = Some i" "pin_switched (q35_irq_route rc) i s u" "\<forall>j. j \<noteq> i \<longrightarrow> get_command u j = get_command s j"
    | "pin_frame s u" "\<forall>j. intx_bit u j = intx_bit s j" by blast
  then have "pin_exact rc u j" for j
  proof cases
    case 2 then show ?thesis using exact_frame [OF 2(1) ev assms(5) _ ab ex] by blast
  next
    case 1
    let ?l = "js_get False (intx_levels s) i \<and> \<not> has_bits (get_command u i) PCI_COMMAND_INTX_DISABLE"
    from 1(2) obtain s1 where s1: "device_spaces s1 = device_spaces u" "bridge_for_bus s1 = bridge_for_bus u" "pin_frame s s1"
      "pin_frame (drive_intx (q35_irq_route rc) i ?l s1) u" unfolding pin_switched_def by blast
    have lv: "intx_levels u = intx_levels s" using s1(3,4) by (simp add: pin_frame_def)
    have r1: "route_of rc s1 i = route_of rc u i" by (rule route_of_spaces [OF s1(1,2)])
    have rec: "asserted_irq_lines u = asserted_irq_lines (drive_intx (q35_irq_route rc) i ?l s1)" "asserted_gsis u = asserted_gsis (drive_intx (q35_irq_route rc) i ?l s1)"
      using s1(4) by (simp_all add: pin_frame_def)
    show ?thesis
    proof (cases "j = i")
      case True
      show ?thesis unfolding pin_defs rec drive_exact r1 using True lv by auto
    next
      case False
      have "asserted_irq_lines s1 = asserted_irq_lines s" "asserted_gsis s1 = asserted_gsis s" using s1(3) by (simp_all add: pin_frame_def)
      moreover have "intx_driven u j = intx_driven s j" using 1(3) False lv ab by (simp add: intx_driven_def intx_raised_def)
      ultimately show ?thesis using ex [of j] False ro pin_exact_cong [of u j s rc] by (simp add: rec drive_exact)
    qed
  qed
  then show ?thesis using bu by (simp add: pins_inv_def)
qed


lemma drive_evolves: "machine_ok p \<Longrightarrow> evolves p (drive_intx route i level p)"
proof -
  assume m: "machine_ok p"
  then have w: "pci_wf p" by (simp add: machine_ok_def)
  have "pci_wf (drive_intx route i level p)" by (rule wf_shape [OF w drive_intx_wf(1)]) (use w in \<open>simp add: drive_intx_wf(2) pci_wf_def\<close>)
  moreover have "identity (drive_intx route i level p) j = identity p j" for j by (rule identity_cong) simp
  moreover have "same_shape p (drive_intx route i level p)" using drive_intx_wf(1) by (simp add: pci_shape_def)
  ultimately show ?thesis by (simp add: evolves_def)
qed

lemma drive_driven [simp]: "intx_driven (drive_intx route i level p) j = intx_driven p j"
  by (simp add: intx_driven_def intx_raised_def get_command_def)

lemma drive_base:
  assumes "pins_base p" "level \<Longrightarrow> intx_raised p i" shows "pins_base (drive_intx (q35_irq_route rc) i level p)"
proof -
  have b: "machine_ok p" "pins_ok p" using assms(1) by (simp_all add: pins_base_def)
  have "pins_ok (drive_intx (q35_irq_route rc) i level p)"
    using b(2) by (intro drive_pins [OF q35_route_ok _ _ assms(2)]) (auto simp: pins_ok_def)
  then show ?thesis using evolves_ok [OF b(1) drive_evolves [OF b(1)]] by (simp add: pins_base_def)
qed

lemma drive_pin_exact:
  assumes "intx_driven p i \<Longrightarrow> level" "j \<noteq> i \<Longrightarrow> pin_exact rc p j" shows "pin_exact rc (drive_intx (q35_irq_route rc) i level p) j"
proof -
  have "route_of rc (drive_intx (q35_irq_route rc) i level p) j = route_of rc p j" by (rule route_of_spaces) simp_all
  then show ?thesis unfolding pin_exact_def on_route_def intx_silent_def drive_exact drive_driven using assms
    by (auto simp: pin_exact_def on_route_def intx_silent_def)
qed

lemma reroute_inv:
  assumes "pins_base p" shows "pins_inv rc (reroute_pins rc p)"
proof -
  let ?f = "\<lambda>i u. if js_get False (intx_levels u) i
    then drive_intx (q35_irq_route rc) i (\<not> has_bits (get_command u i) PCI_COMMAND_INTX_DISABLE) u else u"
  have quiet: "pin_exact rc u i" if "pins_base u" "\<not> js_get False (intx_levels u) i" for u i
    using that by (auto simp: pins_base_def pins_ok_def pin_exact_def intx_driven_def intx_raised_def)
  have step: "pins_base (?f i u) \<and> (\<forall>j \<in> insert i A. pin_exact rc (?f i u) j) \<and> intx_levels (?f i u) = intx_levels u"
    if u: "pins_base u" "\<forall>j \<in> A. pin_exact rc u j" for i u A
  proof (cases "js_get False (intx_levels u) i")
    case True
    have d: "intx_driven u i \<Longrightarrow> \<not> has_bits (get_command u i) PCI_COMMAND_INTX_DISABLE" by (simp add: intx_driven_def intx_raised_def)
    show ?thesis using True drive_base [OF u(1), of _ i rc] drive_pin_exact [OF d] u(2) by (auto simp: intx_raised_def)
  next
    case False
    then have "pin_exact rc u i" using quiet [OF u(1)] by blast
    then show ?thesis using False u by auto
  qed
  have "pins_base (fold ?f xs u) \<and> (\<forall>j \<in> A \<union> set xs. pin_exact rc (fold ?f xs u) j) \<and> intx_levels (fold ?f xs u) = intx_levels u"
    if "pins_base u" "\<forall>j \<in> A. pin_exact rc u j" for xs u A
    using that
  proof (induction xs arbitrary: u A)
    case (Cons x xs)
    note s = step [OF Cons.prems, of x]
    have "pins_base (fold ?f xs (?f x u)) \<and> (\<forall>j \<in> insert x A \<union> set xs. pin_exact rc (fold ?f xs (?f x u)) j) \<and> intx_levels (fold ?f xs (?f x u)) = intx_levels (?f x u)"
      by (rule Cons.IH) (use s in blast)+
    then show ?case using s by (auto simp del: fold_simps simp: fold_Cons)
  qed simp
  from this [OF assms, of "{}" "[0..<length (intx_levels p)]"]
  have r: "pins_base (reroute_pins rc p)" "\<forall>j \<in> set [0..<length (intx_levels p)]. pin_exact rc (reroute_pins rc p) j"
    "intx_levels (reroute_pins rc p) = intx_levels p" unfolding reroute_pins_def by simp_all
  have "pin_exact rc (reroute_pins rc p) j" for j
  proof (cases "j < length (intx_levels p)")
    case False then show ?thesis using r(3) by (intro quiet [OF r(1)]) (simp add: js_get_def)
  qed (use r(2) in simp)
  then show ?thesis using r(1) by (simp add: pins_inv_def)
qed

lemma set_irq_level_other: "j \<noteq> i \<Longrightarrow> space_of (set_irq_level route i level p) j = space_of p j"
  by (simp add: set_irq_level_def Let_def split: option.split)

lemma set_irq_level_exact:
  assumes "spaces_ok p" "\<And>k. k \<noteq> i \<Longrightarrow> pin_exact rc p k" "pirq_bytes (set_irq_level (q35_irq_route rc) i level p) = pirq_bytes p"
  shows "pin_exact rc (set_irq_level (q35_irq_route rc) i level p) j"
    "js_get False (intx_levels (set_irq_level (q35_irq_route rc) i level p)) k = (if k = i then level else js_get False (intx_levels p) k)"
    "absent (set_irq_level (q35_irq_route rc) i level p) = absent p"
proof -
  let ?u = "set_irq_level (q35_irq_route rc) i level p"
  define s1 where "s1 = p\<lparr>intx_levels := js_put False (intx_levels p) i level\<rparr>"
  define s2 where "s2 = (case space_of s1 i of None \<Rightarrow> s1 | Some bs \<Rightarrow> set_space i (interrupt_status level bs) s1)"
  define dis where "dis = (case space_of s2 i of None \<Rightarrow> False | Some bs \<Rightarrow> has_bits (get_dword bs 1) PCI_COMMAND_INTX_DISABLE)"
  have e: "?u = drive_intx (q35_irq_route rc) i (level \<and> \<not> dis \<and> \<not> js_get False (absent s2) i) s2"
    unfolding set_irq_level_def Let_def dis_def s2_def s1_def by (rule refl)
  have s2: "absent s2 = absent p" "js_get False (intx_levels s2) j = (if j = i then level else js_get False (intx_levels p) j)"
    "j \<noteq> i \<Longrightarrow> space_of s2 j = space_of p j" "bridge_for_bus s2 = bridge_for_bus p"
    "asserted_irq_lines s2 = asserted_irq_lines p" "asserted_gsis s2 = asserted_gsis p" for j
    by (auto simp: s2_def s1_def split: option.split)
  show "js_get False (intx_levels ?u) k = (if k = i then level else js_get False (intx_levels p) k)" "absent ?u = absent p"
    unfolding e using s2(1,2) by simp_all
  have lev: "(level \<and> \<not> dis \<and> \<not> js_get False (absent s2) i) \<longleftrightarrow> intx_driven s2 i"
    using s2(2) [of i] by (cases "space_of s2 i") (auto simp: intx_driven_def intx_raised_def dis_def get_command_def has_bits_masked)
  have ds: "device_spaces ?u = device_spaces s2" "bridge_for_bus ?u = bridge_for_bus s2" unfolding e by simp_all
  have ro: "route_of rc s2 j = route_of rc p j" for j
  proof -
    have "route_of rc ?u j = route_of rc p j"
      using set_irq_level_shape [of p _ i level] identity_irq [OF assms(1)] assms(3)
      by (intro route_of_cong) (simp_all add: pci_shape_def same_shape_def)
    then show ?thesis using route_of_spaces [OF ds] by simp
  qed
  have "pin_exact rc s2 j" if "j \<noteq> i" for j
    using assms(2) [OF that] s2 that ro pin_exact_cong [of s2 j p rc] by (simp add: intx_driven_def intx_raised_def get_command_def)
  then show "pin_exact rc ?u j" unfolding e using lev by (intro drive_pin_exact) simp_all
qed

lemma set_irq_level_inv:
  assumes "pins_inv rc p" "pirq_bytes (set_irq_level (q35_irq_route rc) i level p) = pirq_bytes p"
  shows "pins_inv rc (set_irq_level (q35_irq_route rc) i level p)"
proof -
  let ?u = "set_irq_level (q35_irq_route rc) i level p"
  have b: "machine_ok p" "pci_wf p" "spaces_ok p" "pins_ok p" and ex: "pin_exact rc p k" for k
    using assms(1) wf_spaces by (auto simp: pins_inv_def pins_base_def machine_ok_def)
  have ev: "evolves p ?u"
    using set_irq_level_wf [OF b(2)] set_irq_level_shape [of p _ i level] identity_irq [OF b(3)] by (simp add: evolves_def pci_shape_def)
  have pins: "pins_ok ?u" using b(4) by (intro set_irq_level_pins [OF q35_route_ok _ _ b(3)]) (auto simp: pins_ok_def)
  note x = set_irq_level_exact [OF b(3) ex assms(2)]
  show ?thesis using evolves_ok [OF b(1) ev] pins x(1) by (simp add: pins_inv_def pins_base_def)
qed

lemma slot_inv:
  assumes "pins_inv rc p" "device_of p i \<noteq> None" "\<not> is_bridge p i" "i \<ge> 256"
  shows "pins_inv rc (set_function_present (q35_irq_route rc) i present fresh p)"
proof -
  let ?u = "set_function_present (q35_irq_route rc) i present fresh p" and ?s3 = "switch_function i present fresh p"
  have b: "machine_ok p" "pci_wf p" "identity_ok p" "spaces_ok p" "pins_ok p" and ex: "pin_exact rc p k" for k
    using assms(1) wf_spaces by (auto simp: pins_inv_def pins_base_def machine_ok_def)
  note sw = switch_function_own [OF b(4) assms(2,4), of present fresh] and keep = switch_function_keeps [where i = i and present = present and fresh = fresh and s = p]
  let ?l = "js_get False (intx_levels ?s3) i" let ?s4 = "set_irq_level (q35_irq_route rc) i ?l ?s3"
  have u: "?u = upstream_changed i ?s4" by (simp add: set_function_present_def Let_def)
  have lp: "i \<noteq> LPC" using assms(4) by auto
  have sp: "j \<noteq> i \<Longrightarrow> space_of ?s3 j = space_of p j" "bridge_for_bus ?s3 = bridge_for_bus p" for j using sw(1) by (simp_all add: own_change_def same_shape_def)
  have ro: "route_of rc ?s3 j = route_of rc p j" if "j \<noteq> i" for j
    using sp that lp by (intro route_of_cong) (simp_all add: identity_def pirq_bytes_def space_bytes_def)
  have e3: "pin_exact rc ?s3 j" if "j \<noteq> i" for j
    using ex [of j] keep ro [OF that] sp(1) [OF that] that pin_exact_cong [of ?s3 j p rc] by (simp add: intx_driven_def intx_raised_def get_command_def)
  have q4: "pirq_bytes ?s4 = pirq_bytes ?s3" using set_irq_level_other [of LPC i] lp by (simp add: pirq_bytes_def space_bytes_def)
  note x = set_irq_level_exact [OF sw(2) e3 q4]
  have fr: "pin_frame ?s4 ?u" "io_frame ?s4 ?u" unfolding u by (rule pin_frame_io(2), rule upstream_changed_frame)
  have "pin_exact rc ?u j" for j
  proof -
    have "intx_driven ?u j = intx_driven ?s4 j" using fr command_cong [OF frame_spaces [OF fr(2)]] by (simp add: intx_driven_def intx_raised_def pin_frame_def io_frame_def same_config_def)
    moreover have "route_of rc ?u j = route_of rc ?s4 j" by (rule route_of_spaces [OF frame_spaces [OF fr(2)] frame_bus [OF fr(2)]])
    ultimately show ?thesis using x(1) [of j] fr(1) pin_exact_cong [of ?u j ?s4 rc] by (simp add: pin_frame_def)
  qed
  moreover have "evolves p ?u" using function_present_wf [OF b(2) assms(2-4), of _ present fresh] identity_slot [OF b(2,3) assms(2-4)] by (simp add: evolves_def)
  moreover have "pins_ok ?u" by (rule slot_pins [OF q35_route_ok b(2,5) assms(2,4)])
  ultimately show ?thesis using evolves_ok [OF b(1)] by (simp add: pins_inv_def pins_base_def)
qed


section \<open>Where a write reaches\<close>

lemma write_bar_space:
  "space_of (write_bar i offset v s) j \<in> {space_of s j} \<union> (if j = i then range (\<lambda>x. Some (set_dword (space_bytes s i) (offset div 4) x)) else {})"
proof -
  have c: "space_of u j = space_of w j" if "device_spaces u = device_spaces w" for u w using that by simp
  have mv: "space_of (move_memory_bar i nr bar b u) j = space_of u j" "space_of (move_io_bar i nr bar b u) j = space_of u j"
    "space_of (update_io_bar i nr u) j = space_of u j" for nr bar b u by (rule c, simp)+
  have sb: "space_bytes (set_bar i nr b s) i = space_bytes s i" "space_bytes (set_io_bars bar f t s) i = space_bytes s i"
    "space_of (set_bar i nr b s) j = space_of s j" "space_of (set_io_bars bar f t s) j = space_of s j" for nr b bar f t
    by (simp_all add: space_bytes_def)
  show ?thesis by (auto simp: write_bar_def Let_def mv sb split: option.split)
qed

lemma function_write_space:
  "space_of (function_write route t offset sz v s) j \<in> {space_of s j} \<union>
     (if t = Some j then {Some (config_bytes (is_bridge s j) offset sz v (space_bytes s j))} \<union>
        (if is_bar_offset (is_bridge s j) offset then range (\<lambda>x. Some (set_dword (space_bytes s j) (offset div 4) x)) else {}) else {})"
proof (cases "\<exists>i bs. t = Some i \<and> space_of s i = Some bs \<and> offset + sz \<le> length bs")
  case True
  then obtain i bs where t: "t = Some i" and sp: "space_of s i = Some bs" and l: "offset + sz \<le> length bs" by blast
  have wb: "space_of (write_config_bytes route i offset sz v bs s) j = space_of (set_space i (config_bytes (is_bridge s i) offset sz v bs) s) j"
    by (simp add: write_config_bytes_def Let_def)
  have sb: "space_bytes s i = bs" using sp by (simp add: space_bytes_def)
  have rom: "space_of (write_expansion_rom i v s) j \<in> {space_of s j} \<union> (if j = i then range (\<lambda>x. Some (set_dword (space_bytes s i) 12 x)) else {})"
    by (auto simp: write_expansion_rom_def split: option.split)
  show ?thesis
  proof (cases "is_bar_offset (is_bridge s i) offset")
    case True
    then show ?thesis using t sp l rom write_bar_space [of i offset v s j] by (auto simp: function_write_def)
  next
    case False
    then show ?thesis using t sp l wb sb by (auto simp: function_write_def Let_def)
  qed
next
  case False
  then have "function_write route t offset sz v s = s" by (auto simp: function_write_def split: option.split)
  then show ?thesis by simp
qed

lemma nth_set_dword_other: "\<not> (4 * k \<le> m \<and> m < 4 * k + 4) \<Longrightarrow> set_dword bs k v ! m = bs ! m"
  by (auto simp: set_dword_def)

lemma bar_dword: "is_bar_offset br offset \<Longrightarrow> 4 * (offset div 4) + 4 \<le> 0x34"
  unfolding is_bar_offset_def by (cases br) presburger+

text \<open>A register from 0x40 on that a write does not reach keeps its value.\<close>

lemma function_write_keeps:
  assumes "0x40 \<le> m" "t = Some j \<Longrightarrow> \<not> (offset \<le> m \<and> m < offset + sz)" "space_of s j \<noteq> None" "m < length (space_bytes s j)"
  shows "space_bytes (function_write route t offset sz v s) j ! m = space_bytes s j ! m"
proof -
  have a: "config_bytes (is_bridge s j) offset sz v (space_bytes s j) ! m = space_bytes s j ! m" if "t = Some j"
    using assms(2) [OF that] assms(4) by (auto simp: nth_config_bytes)
  have b: "set_dword (space_bytes s j) (offset div 4) x ! m = space_bytes s j ! m" if "is_bar_offset (is_bridge s j) offset" for x
    using bar_dword [OF that] assms(1) by (intro nth_set_dword_other) linarith
  consider "space_of (function_write route t offset sz v s) j = space_of s j"
    | "t = Some j" "space_of (function_write route t offset sz v s) j = Some (config_bytes (is_bridge s j) offset sz v (space_bytes s j))"
    | x where "is_bar_offset (is_bridge s j) offset" "space_of (function_write route t offset sz v s) j = Some (set_dword (space_bytes s j) (offset div 4) x)"
    using function_write_space [of route t offset sz v s j] by (auto split: if_splits)
  then show ?thesis
  proof cases
    case 1 then show ?thesis by (simp add: space_bytes_def)
  next
    case 2 then have "space_bytes (function_write route t offset sz v s) j = config_bytes (is_bridge s j) offset sz v (space_bytes s j)" by (simp add: space_bytes_def)
    then show ?thesis using a [OF 2(1)] by simp
  next
    case 3 then have "space_bytes (function_write route t offset sz v s) j = set_dword (space_bytes s j) (offset div 4) x" by (simp add: space_bytes_def)
    then show ?thesis using b [OF 3(1)] by simp
  qed
qed

lemma function_write_pirqs:
  assumes "pci_wf s" "chips_ok s" "t = Some LPC \<Longrightarrow> \<not> touches offset sz 0x60 0x64 \<and> \<not> touches offset sz 0x68 0x6C"
  shows "pirq_bytes (function_write route t offset sz v s) = pirq_bytes s"
proof -
  have sp: "space_of s LPC \<noteq> None" using assms(2) by (simp add: chips_ok_def)
  have "space_bytes (function_write route t offset sz v s) LPC ! m = space_bytes s LPC ! m" if "m \<in> set ([0x60..<0x64] @ [0x68..<0x6C])" for m
  proof (rule function_write_keeps [OF _ _ sp])
    show "0x40 \<le> m" "m < length (space_bytes s LPC)" using that bytes_length [OF assms(1) sp] by auto
    show "\<not> (offset \<le> m \<and> m < offset + sz)" if "t = Some LPC"
      using assms(3) [OF that] \<open>m \<in> set ([0x60..<0x64] @ [0x68..<0x6C])\<close> by (auto simp: touches_def)
  qed
  then show ?thesis by (simp add: pirq_bytes_def)
qed


lemma set_ecam_spaces [simp]: "device_spaces (set_ecam b z p) = device_spaces p"
  by (simp add: set_ecam_def Let_def)

lemma put_spaces [simp]:
  "space_of (q_pci (put8 i k b q)) j = (if j = i then Some ((space_bytes (q_pci q) i)[k := b]) else space_of (q_pci q) j)"
  "space_of (q_pci (put32 i k v q)) j = (if j = i then Some (set_dword (space_bytes (q_pci q) i) (k div 4) v) else space_of (q_pci q) j)"
  "space_of (q_pci (q_emit e q)) j = space_of (q_pci q) j"
  "space_of (q_pci (update_smram mc q)) j = space_of (q_pci q) j" "space_of (q_pci (update_ecam mc q)) j = space_of (q_pci q) j"
  by (simp_all add: put8_def put32_def q_emit_def update_smram_def update_ecam_def Let_def split: prod.split)

lemma mch_spaces: "j \<noteq> MCH \<Longrightarrow> space_of (q_pci (mch_config_written mc offset sz q)) j = space_of (q_pci q) j"
proof -
  assume j: "j \<noteq> MCH"
  have e: "space_of (q_pci (esmramc_written r)) j = space_of (q_pci r) j" "space_of (q_pci (ext_tseg_written r)) j = space_of (q_pci r) j"
    "space_of (q_pci (smram_written mc r)) j = space_of (q_pci r) j" for r
    using j by (simp_all add: esmramc_written_def ext_tseg_written_def smram_written_def Let_def)
  show ?thesis unfolding mch_config_written_def Let_def by (simp add: e)
qed

lemma pirq_cong: "space_of u LPC = space_of p LPC \<Longrightarrow> pirq_bytes u = pirq_bytes p"
  by (simp add: pirq_bytes_def space_bytes_def)

lemma pirq_put32:
  assumes "k div 4 \<notin> {24, 26}" shows "pirq_bytes (q_pci (put32 LPC k v q)) = pirq_bytes (q_pci q)"
proof -
  have "set_dword bs (k div 4) v ! m = bs ! m" if "m \<in> set ([0x60..<0x64] @ [0x68..<0x6C])" for bs m
  proof (rule nth_set_dword_other)
    have "m div 4 \<in> {24, 26}" using that by auto
    then show "\<not> (4 * (k div 4) \<le> m \<and> m < 4 * (k div 4) + 4)" using assms by auto
  qed
  then show ?thesis unfolding pirq_bytes_def map_eq_conv by (simp add: space_bytes_def)
qed

lemma pirq_lpc_ops [simp]:
  "pirq_bytes (q_pci (q35_update_pm_decode mc q)) = pirq_bytes (q_pci q)" "pirq_bytes (q_pci (update_rcba q)) = pirq_bytes (q_pci q)"
proof -
  have e: "pirq_bytes (q_pci (q_emit x r)) = pirq_bytes (q_pci r)" "pirq_bytes (q_pci (r\<lparr>rcba_base := y\<rparr>)) = pirq_bytes (q_pci r)" for x r y
    by (simp_all add: q_emit_def)
  show "pirq_bytes (q_pci (q35_update_pm_decode mc q)) = pirq_bytes (q_pci q)" "pirq_bytes (q_pci (update_rcba q)) = pirq_bytes (q_pci q)"
    by (simp_all add: q35_update_pm_decode_def update_rcba_def Let_def e pirq_put32)
qed

text \<open>The chipset's view: the pins as its own routing registers have them.\<close>

definition q35_inv :: "q35 \<Rightarrow> bool" where
  "q35_inv q \<longleftrightarrow> chips_ok (q_pci q) \<and> pins_inv (rcba q) (q_pci q)"

lemma q_calm_inv: "q_calm q r \<Longrightarrow> pirq_bytes (q_pci r) = pirq_bytes (q_pci q) \<Longrightarrow> q35_inv q \<Longrightarrow> q35_inv r"
  using calm_inv [of "q_pci q" "q_pci r" "rcba q"] calm_chips [of "q_pci q" "q_pci r"] by (simp add: q35_inv_def q_calm_def)

definition q35_base :: "q35 \<Rightarrow> bool" where
  "q35_base q \<longleftrightarrow> chips_ok (q_pci q) \<and> pins_base (q_pci q)"

lemma q_calm_base: "q_calm q r \<Longrightarrow> q35_base q \<Longrightarrow> q35_base r"
  using calm_base [of "q_pci q" "q_pci r"] calm_chips [of "q_pci q" "q_pci r"] by (simp add: q35_base_def q_calm_def)

lemma inv_base: "q35_inv q \<Longrightarrow> q35_base q"
  by (simp add: q35_inv_def q35_base_def pins_inv_def)

lemma reroute_spaces [simp]: "device_spaces (reroute_pins rc p) = device_spaces p"
proof -
  let ?f = "\<lambda>i u. if js_get False (intx_levels u) i
    then drive_intx (q35_irq_route rc) i (\<not> has_bits (get_command u i) PCI_COMMAND_INTX_DISABLE) u else u"
  have "device_spaces (fold ?f xs u) = device_spaces u" for xs u by (induction xs arbitrary: u) simp_all
  then show ?thesis unfolding reroute_pins_def by blast
qed

lemma q_reroute_inv: "q35_base q \<Longrightarrow> q35_inv (q_reroute q)"
  using reroute_inv [of "q_pci q" "rcba q"] by (simp add: q35_base_def q35_inv_def q_reroute_def chips_ok_def)

lemma mch_written_inv: "q35_inv q \<Longrightarrow> q35_inv (mch_config_written mc offset sz q)"
  by (rule q_calm_inv [OF q_calm_mch pirq_cong]) (rule mch_spaces, simp)

text \<open>A write to the LPC bridge that reaches the routing registers ends with the pins rerouted.\<close>

lemma lpc_written_inv:
  assumes "q35_base q" "\<not> touches offset sz 0x60 0x64 \<and> \<not> touches offset sz 0x68 0x6C \<Longrightarrow> q35_inv q"
  shows "q35_inv (lpc_config_written mc offset sz q)"
proof -
  let ?q1 = "if touches offset sz 0x40 0x45 then q35_update_pm_decode mc q else q"
  let ?t = "touches offset sz 0x60 0x64 \<or> touches offset sz 0x68 0x6C"
  let ?q2 = "if ?t then q_reroute (mask_pirqs ?q1) else ?q1"
  have b1: "q35_base ?q1" using q_calm_base [OF q_calm_pm assms(1)] assms(1) by simp
  have i1: "q35_inv ?q1" if "\<not> ?t" using assms(2) q_calm_inv [OF q_calm_pm] that by simp
  have i2: "q35_inv ?q2" using i1 q_reroute_inv [OF q_calm_base [OF q_calm_masks b1]] by simp
  have e: "lpc_config_written mc offset sz q = (if touches offset sz 0xF0 0xF4 then update_rcba ?q2 else ?q2)"
    by (simp add: lpc_config_written_def Let_def)
  show ?thesis unfolding e using i2 q_calm_inv [OF q_calm_rcba pirq_lpc_ops(2)] by simp
qed

lemma q35_write_inv:
  assumes "q35_inv q" "sz \<le> 4" "\<And>i. t = Some i \<Longrightarrow> \<not> js_get False (absent (q_pci q)) i"
  shows "q35_inv (q35_write mc t offset sz v q)"
proof -
  let ?p = "q_pci q" let ?u = "function_write (q35_irq_route (rcba q)) t offset sz v ?p" let ?q1 = "q\<lparr>q_pci := ?u\<rparr>"
  have iv: "pins_inv (rcba q) ?p" "chips_ok ?p" "pins_base ?p" "machine_ok ?p" "pci_wf ?p"
    using assms(1) by (simp_all add: q35_inv_def pins_inv_def pins_base_def machine_ok_def)
  have ch: "chips_ok ?u"
  proof -
    have "pci_shape ?p ?u" using function_write_wf [OF iv(5) assms(2)] by blast
    then show ?thesis using pci_shape_simps(5) [of ?p ?u] iv(2) by (simp add: chips_ok_def)
  qed
  have b1: "q35_base ?q1" using function_write_base [OF iv(3) assms(2,3)] ch by (simp add: q35_base_def)
  have ex: "q35_inv ?q1" if "t = Some LPC \<Longrightarrow> \<not> touches offset sz 0x60 0x64 \<and> \<not> touches offset sz 0x68 0x6C"
    using function_write_exact [OF iv(1) assms(2,3) refl function_write_pirqs [OF iv(5,2) that]] ch by (simp add: q35_inv_def)
  have same: "q35_inv ?q1" if "t = Some LPC" "\<not> notifies ?p LPC offset sz"
  proof (cases "touches offset sz 0x60 0x64 \<or> touches offset sz 0x68 0x6C")
    case True
    have "\<not> is_bar_offset (is_bridge ?p LPC) offset" "offset + sz > 0x40" using True assms(2) by (auto simp: touches_def is_bar_offset_def)
    then have "?u = ?p" using that by (auto simp: notifies_def function_write_def split: option.splits)
    then show ?thesis using assms(1) by simp
  next
    case False then show ?thesis using ex by blast
  qed
  show ?thesis
  proof (cases t)
    case None then show ?thesis using ex by (simp add: q35_write_def)
  next
    case (Some i)
    show ?thesis
    proof (cases "i = LPC")
      case True
      then show ?thesis using Some same lpc_written_inv [OF b1] ex by (simp add: q35_write_def Let_def)
    next
      case False
      then have "q35_inv ?q1" using ex Some by simp
      then show ?thesis using Some False mch_written_inv by (auto simp: q35_write_def Let_def)
    qed
  qed
qed


section \<open>The machine runs\<close>

lemma q_calm_fill8: "i = MCH \<or> i = LPC \<Longrightarrow> 0x40 \<le> from1 \<Longrightarrow> q_calm q (fill8 i b from1 to1 q)"
  unfolding fill8_def by (rule q_calm_fold) (auto intro: q_calm_put(1))

lemma q_calm_resets: "q_calm q (mch_reset mc q)" "q_calm q (lpc_reset q)"
proof -
  have a: "q_calm q r \<Longrightarrow> q_calm q (put8 MCH k b r)" "q_calm q r \<Longrightarrow> q_calm q (put8 LPC k b r)" "q_calm q r \<Longrightarrow> q_calm q (put32 LPC k v r)" if "0x40 \<le> k" for r k b v
    using q_calm_trans [OF _ q_calm_put(1)] q_calm_trans [OF _ q_calm_put(2)] that by blast+
  have f: "q_calm q r \<Longrightarrow> q_calm q (fill8 MCH b k m r)" "q_calm q r \<Longrightarrow> q_calm q (fill8 LPC b k m r)" if "0x40 \<le> k" for r b k m
    using q_calm_trans [OF _ q_calm_fill8] that by blast+
  have e: "q_calm q r \<Longrightarrow> q_calm q (r\<lparr>esmramc := x\<rparr>)" "q_calm q r \<Longrightarrow> q_calm q (r\<lparr>smram_locked := y, smram_locked_value := z\<rparr>)" for r x y z
    by (erule q_calm_trans, rule q_calm_same, simp, simp)+
  have u: "q_calm q r \<Longrightarrow> q_calm q (update_smram mc r)" for r by (rule q_calm_trans [OF _ q_calm_smram])
  show "q_calm q (mch_reset mc q)" unfolding mch_reset_def Let_def by (intro u e a f q_calm_refl) simp_all
  show "q_calm q (lpc_reset q)" unfolding lpc_reset_def Let_def by (intro a f q_calm_refl) simp_all
qed

lemma calm_reset: "chips_ok (q_pci q) \<Longrightarrow> calm (q_pci q) (q_pci (q35_reset mc q))"
proof -
  assume c: "chips_ok (q_pci q)"
  let ?r = "lpc_reset (mch_reset mc q)" let ?t = "?r\<lparr>rcba := rcba_reset mc\<rparr>"
  have "q_calm q ?r" by (rule q_calm_trans [OF q_calm_resets])
  then have a: "calm (q_pci q) (q_pci ?t)" using c by (simp add: q_calm_def)
  have "q_calm ?t (q35_reset mc q)" unfolding q35_reset_def by (rule q_calm_trans [OF q_calm_trans [OF q_calm_ecam q_calm_pm] q_calm_rcba])
  then have "calm (q_pci ?t) (q_pci (q35_reset mc q))" using calm_chips [OF a] c by (simp add: q_calm_def)
  then show ?thesis by (rule calm_trans [OF a])
qed

text \<open>The machine as it is put together: the chipset first, then the other functions.\<close>

inductive q35_built :: "q35_machine \<Rightarrow> q35 \<Rightarrow> bool" for mc where
  chipset: "built p \<Longrightarrow> device_of p MCH = None \<Longrightarrow> device_of p LPC = None \<Longrightarrow> length subsystem = 4 \<Longrightarrow> q35_built mc (create_q35 mc subsystem p)"
| plug: "q35_built mc q \<Longrightarrow> register_ok i d sp cs (q_pci q) \<Longrightarrow> q35_built mc (q\<lparr>q_pci := register_device i d sp cs (q_pci q)\<rparr>)"

lemma q35_spaces: "length mch_space = 256" "length subsystem = 4 \<Longrightarrow> length (lpc_space subsystem) = 256"
  "mch_space ! 0x0E = 0" "lpc_space subsystem ! 0x0E = 0x80"
  by (simp_all add: mch_space_def lpc_space_def nth_append)

lemma wf_space_device: "pci_wf s \<Longrightarrow> space_of s i = None \<longleftrightarrow> device_of s i = None"
  using wf_spaces [of s] unfolding spaces_ok_def by blast

lemma q35_chips_built:
  assumes "built p" "device_of p MCH = None" "device_of p LPC = None" "length subsystem = 4"
  shows "built (register_device LPC plain_function (lpc_space subsystem) 256 (register_device MCH plain_function mch_space 256 p))"
proof -
  have sp: "space_of p MCH = None" "space_of p LPC = None"
    using built_ok [OF assms(1)] assms(2,3) wf_space_device [of p] by (simp_all add: machine_ok_def)
  have "register_ok MCH plain_function mch_space 256 p"
    using assms(2) sp by (simp add: register_ok_def plain_function_def q35_spaces)
  then have b: "built (register_device MCH plain_function mch_space 256 p)" by (rule register_function [OF assms(1)])
  show ?thesis
  proof (rule register_function [OF b])
    have "pci_bars plain_function = []" by (simp add: plain_function_def)
    then show "register_ok LPC plain_function (lpc_space subsystem) 256 (register_device MCH plain_function mch_space 256 p)"
      using assms(3) sp q35_spaces(2) [OF assms(4)] by (simp add: register_ok_def register_plain q35_spaces) (simp add: plain_function_def)
  qed
qed


lemma register_spaces: "space_of (register_device i d sp cs s) j = (if j = i then Some (sp @ replicate (cs - length sp) 0) else space_of s j)"
  by (simp add: register_device_def)

lemma built_levels: "built s \<Longrightarrow> intx_levels s = []"
proof (induction rule: built.induct)
  case empty_bus then show ?case by (simp add: PCI_def)
next
  case (register_function s i d sp cs) then show ?case using register_frame [of s i d sp cs] by (simp add: pin_frame_def)
qed simp

lemma q35_built_start:
  assumes "q35_built mc q"
  shows "machine_ok (q_pci q) \<and> templates_ok (q_pci q) \<and> chips_ok (q_pci q) \<and> asserted_irq_lines (q_pci q) = [] \<and> asserted_gsis (q_pci q) = [] \<and>
    pci_lines (q_pci q) = [] \<and> intx_levels (q_pci q) = []"
  using assms
proof induction
  case (chipset p subsystem)
  let ?p = "register_device LPC plain_function (lpc_space subsystem) 256 (register_device MCH plain_function mch_space 256 p)"
  let ?q = "\<lparr>q_pci = ?p, rcba = replicate ICH9_RCBA_SIZE 0, rcba_base = -1, smram_locked = False, smram_locked_value = 0, esmramc = 0, q_log = []\<rparr>"
  have b: "built ?p" by (rule q35_chips_built) (use chipset in simp_all)
  have ch: "chips_ok (q_pci ?q)" by (simp add: chips_ok_def register_spaces)
  have c: "calm ?p (q_pci (create_q35 mc subsystem p))" unfolding create_q35_def using calm_reset [OF ch] by simp
  have ev: "evolves ?p (q_pci (create_q35 mc subsystem p))" using c built_ok [OF b] by (simp add: calm_def)
  have sh: "same_shape ?p (q_pci (create_q35 mc subsystem p))" using ev by (simp add: evolves_def)
  have "templates_ok (q_pci (create_q35 mc subsystem p))"
    using built_ok [OF b] same_shape_device(1) [OF sh] sh by (simp add: templates_ok_def) (simp add: same_shape_def)
  moreover have "chips_ok (q_pci (create_q35 mc subsystem p))" using calm_chips [OF c] ch by simp
  ultimately show ?case using evolves_ok [OF _ ev] built_ok [OF b] built_quiet [OF b] built_levels [OF b] c by (simp add: calm_def pin_frame_def)
next
  case (plug q i d sp cs)
  then show ?case using register_device_ok [of "q_pci q" i d sp cs] register_frame [of "q_pci q" i d sp cs]
    by (auto simp: pin_frame_def chips_ok_def register_spaces)
qed

lemma q35_built_inv: "q35_built mc q \<Longrightarrow> q35_inv q"
  using q35_built_start [of mc q]
  by (simp add: q35_inv_def pins_inv_def pins_base_def pin_defs pins_ok_def records_ok_def intx_recorded_def
      intx_silent_def irq_demand_def demand_def js_get_def)

text \<open>
  What happens: configuration writes of the guest with what the chipset makes of them, writes to the root
  complex registers, devices that drive their pins and store into their registers, cards that come and go, in
  any order: a card may leave with its pin high, and a function off the bus may drive its pin.
\<close>

inductive q35_step :: "q35_machine \<Rightarrow> q35 \<Rightarrow> q35 \<Rightarrow> bool" for mc where
  guest_write: "sz \<in> {1, 2, 4} \<Longrightarrow> q35_config_write mc bdf offset sz v q = Some r \<Longrightarrow> q35_step mc q r"
| root_complex: "q35_step mc q (rcba_write offset b q)"
| pin: "q35_step mc q (q\<lparr>q_pci := set_irq_level (q35_irq_route (rcba q)) i level (q_pci q)\<rparr>)"
| registers: "i \<noteq> MCH \<Longrightarrow> i \<noteq> LPC \<Longrightarrow> q35_step mc q (q\<lparr>q_pci := own_register i k b (q_pci q)\<rparr>)"
| slot: "i \<ge> 256 \<Longrightarrow> device_of (q_pci q) i \<noteq> None \<Longrightarrow> \<not> is_bridge (q_pci q) i \<Longrightarrow>
    q35_step mc q (q\<lparr>q_pci := set_function_present (q35_irq_route (rcba q)) i present fresh (q_pci q)\<rparr>)"


lemma pirq_irq: "pci_wf p \<Longrightarrow> pirq_bytes (set_irq_level route i level p) = pirq_bytes p"
proof (cases "i = LPC")
  case True
  assume w: "pci_wf p"
  have "interrupt_status level bs ! m = bs ! m" if "8 \<le> m" for bs m
    using that unfolding interrupt_status_def by (intro nth_set_dword_other) simp
  then show ?thesis unfolding pirq_bytes_def map_eq_conv True
    by (auto simp: set_irq_level_def Let_def space_bytes_def split: option.split)
next
  case False then show ?thesis using set_irq_level_other [of LPC i] by (intro pirq_cong) simp
qed

lemma chips_shape: "machine_ok p \<Longrightarrow> chips_ok p \<Longrightarrow> evolves p u \<Longrightarrow> chips_ok u"
proof -
  assume m: "machine_ok p" and c: "chips_ok p" and e: "evolves p u"
  have "pci_wf p" "pci_wf u" "same_shape p u" using m e by (simp_all add: machine_ok_def evolves_def)
  then show ?thesis using c wf_space_device [of p] wf_space_device [of u] same_shape_device(1) [of p u] by (simp add: chips_ok_def)
qed

lemma q35_step_inv: "q35_step mc q r \<Longrightarrow> q35_inv q \<Longrightarrow> q35_inv r"
proof (induction rule: q35_step.induct)
  case (guest_write sz bdf offset v q r)
  then obtain t where t: "route_config (q_pci q) bdf = Some t" "r = q35_write mc t offset sz v q" by (auto simp: q35_config_write_def)
  have "spaces_ok (q_pci q)" using guest_write.prems by (simp add: q35_inv_def pins_inv_def pins_base_def machine_ok_def wf_spaces)
  then show ?case unfolding t(2) using guest_write.prems guest_write.hyps(1) route_present t(1) by (intro q35_write_inv) auto
next
  case (root_complex q offset b)
  have base: "q35_base (q\<lparr>rcba := x\<rparr>)" for x using root_complex by (simp add: q35_inv_def q35_base_def pins_inv_def)
  show ?case
  proof (cases "offset \<ge> 0x3140 \<and> offset < 0x3154")
    case True then show ?thesis using q_reroute_inv [OF base] by (simp add: rcba_write_def)
  next
    case False
    have off: "RCBA_DIR slot = Some d \<Longrightarrow> d \<noteq> offset \<and> d + 1 \<noteq> offset" for slot d using False by (auto simp: RCBA_DIR_def split: if_splits)
    have up: "js_get 0 ((rcba q)[offset := b]) d = js_get 0 (rcba q) d" if "d \<noteq> offset" for d using that by (simp add: js_get_def)
    have "pirq_of ((rcba q)[offset := b]) slot n = pirq_of (rcba q) slot n" for slot n
      using off up by (auto simp: pirq_of_def split: option.split)
    then have "q35_irq_route ((rcba q)[offset := b]) = q35_irq_route (rcba q)" by (intro ext) (simp add: q35_irq_route_def Let_def)
    then have "route_of ((rcba q)[offset := b]) p i = route_of (rcba q) p i" for p i by (simp add: route_of_def)
    then have "pin_exact ((rcba q)[offset := b]) p i = pin_exact (rcba q) p i" for p i by (simp only: pin_exact_def on_route_def)
    moreover have "rcba_write offset b q = q\<lparr>rcba := (rcba q)[offset := b]\<rparr>" unfolding rcba_write_def Let_def if_not_P [OF False] by (rule refl)
    ultimately show ?thesis using root_complex by (simp add: q35_inv_def pins_inv_def)
  qed
next
  case (pin q i level)
  have m: "machine_ok (q_pci q)" "pci_wf (q_pci q)" "spaces_ok (q_pci q)" using pin.prems wf_spaces by (auto simp: q35_inv_def pins_inv_def pins_base_def machine_ok_def)
  have "pins_inv (rcba q) (set_irq_level (q35_irq_route (rcba q)) i level (q_pci q))"
    using pin by (intro set_irq_level_inv pirq_irq m(2)) (simp_all add: q35_inv_def)
  moreover have "evolves (q_pci q) (set_irq_level (q35_irq_route (rcba q)) i level (q_pci q))"
    using set_irq_level_wf [OF m(2)] set_irq_level_shape [of "q_pci q" _ i level] identity_irq [OF m(3)] by (simp add: evolves_def pci_shape_def)
  ultimately show ?case using chips_shape [OF m(1)] pin.prems by (simp add: q35_inv_def)
next
  case (registers i q k b)
  have c: "calm (q_pci q) (own_register i k b (q_pci q))" by (rule calm_own)
  have "pirq_bytes (own_register i k b (q_pci q)) = pirq_bytes (q_pci q)"
    using registers(2) by (intro pirq_cong) (simp add: own_register_def split: option.split)
  from calm_inv [OF c this] show ?case using registers.prems calm_chips [OF c] by (simp add: q35_inv_def)
next
  case (slot i q present fresh)
  have m: "machine_ok (q_pci q)" "pci_wf (q_pci q)" "identity_ok (q_pci q)" using slot.prems by (auto simp: q35_inv_def pins_inv_def pins_base_def machine_ok_def)
  have "pins_inv (rcba q) (set_function_present (q35_irq_route (rcba q)) i present fresh (q_pci q))"
    using slot by (intro slot_inv) (auto simp: q35_inv_def)
  moreover have "evolves (q_pci q) (set_function_present (q35_irq_route (rcba q)) i present fresh (q_pci q))"
    using function_present_wf [OF m(2) slot(2,3,1), of _ present fresh] identity_slot [OF m(2,3) slot(2,3,1)] by (simp add: evolves_def)
  ultimately show ?case using chips_shape [OF m(1)] slot.prems by (simp add: q35_inv_def)
qed

lemma q35_reach_inv: "(q35_step mc)\<^sup>*\<^sup>* q r \<Longrightarrow> q35_inv q \<Longrightarrow> q35_inv r"
  by (induction rule: rtranclp_induct) (auto intro: q35_step_inv)

lemma q35_write_total: "q35_inv q \<Longrightarrow> \<exists>r. q35_config_write mc bdf offset sz v q = Some r"
  using route_config_total [of "q_pci q" bdf] by (auto simp: q35_inv_def pins_inv_def pins_base_def machine_ok_def q35_config_write_def)


text \<open>The current routing registers connect the pin of function \<open>i\<close> to line \<open>n\<close>: a PIC line or an I/O APIC input.\<close>

definition routed_to :: "q35 \<Rightarrow> nat \<Rightarrow> nat \<Rightarrow> bool" where
  "routed_to q i n \<longleftrightarrow> (let (pic, gsi) = route_of (rcba q) (q_pci q) i in pic = n \<and> \<not> not_routed n \<or> gsi = Some n)"

text \<open>
  Claim C37. On the Q35 machine a pin that is high, enabled by its command register and on the bus holds every
  line high to which the routing registers connect it at present; and no line is high but by a pin that is high,
  enabled and connected to it at present. This holds after any configuration writes (routing registers and
  command registers included), root complex writes, pin changes, register updates and cards that come and go, in
  any order. The two halves differ only in functions off the bus whose pin is high: \<open>reroute_pins\<close> does not ask
  whether a function is there (lemma \<open>reroute_drives_absent\<close>), so such a pin may or may not hold its lines.
  With the pins of all absent functions low, a line is high exactly if a driven pin is connected to it.
\<close>

theorem q35_lines_follow_routing:
  assumes "q35_built mc q0" "(q35_step mc)\<^sup>*\<^sup>* q0 q" "n < 24"
  shows "((\<exists>i. intx_driven (q_pci q) i \<and> routed_to q i n) \<longrightarrow> line_level n (line_log (run line_step (pci_lines (q_pci q)) shared_irqs_init))) \<and>
    (line_level n (line_log (run line_step (pci_lines (q_pci q)) shared_irqs_init)) \<longrightarrow> (\<exists>i. intx_raised (q_pci q) i \<and> routed_to q i n))"
proof -
  let ?p = "q_pci q"
  have "q35_inv q" by (rule q35_reach_inv [OF assms(2) q35_built_inv [OF assms(1)]])
  then have p: "pins_ok ?p" and e: "pin_exact (rcba q) ?p i" for i by (simp_all add: q35_inv_def pins_inv_def pins_base_def)
  have named: "js_get None (asserted_irq_lines ?p) i = Some n \<or> js_get None (asserted_gsis ?p) i = Some n \<longleftrightarrow> routed_to q i n"
    if "on_route (rcba q) ?p i" for i
    using that by (auto simp: on_route_def routed_to_def split: if_splits prod.splits)
  have "on_route (rcba q) ?p i" if "intx_driven ?p i" for i using e [of i] that by (simp add: pin_exact_def)
  moreover have "on_route (rcba q) ?p i \<and> intx_raised ?p i" if "\<not> intx_silent ?p i" for i
    using e [of i] p that by (auto simp: pin_exact_def pins_ok_def)
  moreover have "\<not> intx_silent ?p i" if "js_get None (asserted_irq_lines ?p) i = Some n \<or> js_get None (asserted_gsis ?p) i = Some n" for i
    using that by (auto simp: intx_silent_def)
  ultimately show ?thesis unfolding pins_lines [OF p assms(3)] using named by blast
qed

text \<open>A machine with a card of one pin, function 2 of device 31, that raises its pin; then the guest connects INTA of the device to PIRQC.\<close>

definition sample_mc :: q35_machine where
  "sample_mc = \<lparr>q_hpet = True, q_acpi = True, low_memory_size = 0x8000000, memory_size0 = 0x8000000\<rparr>"

definition sample_q35 :: q35 where
  "sample_q35 = create_q35 sample_mc [0, 0, 0, 0] PCI"

definition sample_pin_card :: "u8 list" where
  "sample_pin_card = replicate 0x3D 0 @ [1] @ replicate 0xC2 0"

definition sample_plugged :: q35 where
  "sample_plugged = sample_q35\<lparr>q_pci := register_device 0xFA plain_function sample_pin_card 256 (q_pci sample_q35)\<rparr>"

definition sample_raised :: q35 where
  "sample_raised = sample_plugged\<lparr>q_pci := set_irq_level (q35_irq_route (rcba sample_plugged)) 0xFA True (q_pci sample_plugged)\<rparr>"

lemma sample_q35_built: "q35_built sample_mc sample_q35"
  unfolding sample_q35_def by (rule chipset [OF empty_bus]) (simp_all add: PCI_def)

lemma sample_q35_facts:
  "device_of (q_pci sample_q35) 0xFA = None" "bridge_for_bus (q_pci sample_q35) = []" "absent (q_pci sample_q35) = []" "rcba sample_q35 = rcba_reset sample_mc"
proof -
  let ?p = "register_device LPC plain_function (lpc_space [0, 0, 0, 0]) 256 (register_device MCH plain_function mch_space 256 PCI)"
  let ?q = "\<lparr>q_pci = ?p, rcba = replicate ICH9_RCBA_SIZE 0, rcba_base = -1, smram_locked = False, smram_locked_value = 0, esmramc = 0, q_log = []\<rparr>"
  have pf: "pci_bars plain_function = []" "pci_secondary_bus plain_function = None" by (simp_all add: plain_function_def)
  have b: "built ?p" by (rule q35_chips_built [OF empty_bus]) (simp_all add: PCI_def)
  have ch: "chips_ok (q_pci ?q)" by (simp add: chips_ok_def register_spaces)
  have q: "sample_q35 = q35_reset sample_mc ?q" by (simp add: sample_q35_def create_q35_def)
  have c: "calm ?p (q_pci sample_q35)" unfolding q using calm_reset [OF ch] by simp
  then have sh: "same_shape ?p (q_pci sample_q35)" using built_ok [OF b] by (simp add: calm_def evolves_def)
  have p: "device_of ?p 0xFA = None" "bridge_for_bus ?p = []" "absent ?p = []" by (simp_all add: register_plain pf add_function_def PCI_def Let_def)
  show "device_of (q_pci sample_q35) 0xFA = None" using same_shape_device(1) [OF sh] p(1) by simp
  show "bridge_for_bus (q_pci sample_q35) = []" using sh p(2) by (simp add: same_shape_def)
  show "absent (q_pci sample_q35) = []" using c p(3) by (simp add: calm_def)
  let ?t = "(lpc_reset (mch_reset sample_mc ?q))\<lparr>rcba := rcba_reset sample_mc\<rparr>"
  have "q_calm ?t (q35_reset sample_mc ?q)" unfolding q35_reset_def by (rule q_calm_trans [OF q_calm_trans [OF q_calm_ecam q_calm_pm] q_calm_rcba])
  then show "rcba sample_q35 = rcba_reset sample_mc" unfolding q by (simp add: q_calm_def)
qed

lemma sample_plugged_built: "q35_built sample_mc sample_plugged"
  unfolding sample_plugged_def
proof (rule plug [OF sample_q35_built])
  have "pci_wf (q_pci sample_q35)" using q35_built_start [OF sample_q35_built] by (simp add: machine_ok_def)
  then have "space_of (q_pci sample_q35) 0xFA = None" using wf_space_device sample_q35_facts(1) by blast
  then show "register_ok 0xFA plain_function sample_pin_card 256 (q_pci sample_q35)"
    using sample_q35_facts(1) by (simp add: register_ok_def plain_function_def sample_pin_card_def nth_append)
qed

lemma reroute_keeps [simp]:
  "intx_levels (reroute_pins rc p) = intx_levels p" "absent (reroute_pins rc p) = absent p" "bridge_for_bus (reroute_pins rc p) = bridge_for_bus p"
proof -
  let ?f = "\<lambda>i u. if js_get False (intx_levels u) i
    then drive_intx (q35_irq_route rc) i (\<not> has_bits (get_command u i) PCI_COMMAND_INTX_DISABLE) u else u"
  have "intx_levels (fold ?f xs u) = intx_levels u \<and> absent (fold ?f xs u) = absent u \<and> bridge_for_bus (fold ?f xs u) = bridge_for_bus u" for xs u
    by (induction xs arbitrary: u) simp_all
  then show "intx_levels (reroute_pins rc p) = intx_levels p" "absent (reroute_pins rc p) = absent p" "bridge_for_bus (reroute_pins rc p) = bridge_for_bus p"
    unfolding reroute_pins_def by blast+
qed

lemma sample_pin_space: "space_of (q_pci (rcba_write 0x3140 0x32 sample_raised)) 0xFA = Some (interrupt_status True sample_pin_card)"
  by (simp add: rcba_write_def q_reroute_def sample_raised_def sample_plugged_def set_irq_level_def Let_def register_spaces)
     (simp add: sample_pin_card_def)

lemma sample_driven: "intx_driven (q_pci (rcba_write 0x3140 0x32 sample_raised)) 0xFA"
proof -
  let ?u = "q_pci (rcba_write 0x3140 0x32 sample_raised)"
  have "get_dword (interrupt_status True sample_pin_card) 1 AND 0xFFFF AND 0x400 = 0" by code_simp
  then have "\<not> has_bits (get_command ?u 0xFA) PCI_COMMAND_INTX_DISABLE" unfolding get_command_def sample_pin_space by (simp add: has_bits_masked)
  moreover have "\<not> js_get False [] 0xFA" by (simp add: js_get_def)
  then have "js_get False (intx_levels ?u) 0xFA \<and> \<not> js_get False (absent ?u) 0xFA"
    using sample_q35_facts(3)
    by (simp add: rcba_write_def q_reroute_def sample_raised_def sample_plugged_def set_irq_level_def Let_def register_plain plain_function_def
        add_function_def split: option.split)
  ultimately show ?thesis by (simp add: intx_driven_def intx_raised_def)
qed

lemma sample_routed: "routed_to (rcba_write 0x3140 0x32 sample_raised) 0xFA 18"
proof -
  let ?q = "rcba_write 0x3140 0x32 sample_raised" let ?u = "q_pci ?q"
  have "interrupt_status True sample_pin_card ! 0x3D = 1" by code_simp
  then have pin: "space_bytes ?u 0xFA ! 0x3D = 1" unfolding space_bytes_def sample_pin_space by simp
  have "upstream ?u 0xFA = []" by (simp add: upstream_def numeral_eq_Suc parent_bridge_def)
  then have rp: "root_pin ?u 0xFA = (0xFA, 0)" using pin by (simp add: root_pin_def)
  have "rcba ?q = (rcba_reset sample_mc)[0x3140 := 0x32]"
    using sample_q35_facts(4) by (simp add: rcba_write_def q_reroute_def sample_raised_def sample_plugged_def)
  then have "js_get 0 (rcba ?q) 0x3140 = 0x32 \<and> js_get 0 (rcba ?q) 0x3141 = 0x32" by (simp add: rcba_reset_def js_get_def)
  then have "pirq_of (rcba ?q) 31 0 = 2" by (simp add: pirq_of_def RCBA_DIR_def)
  then show ?thesis using rp by (simp add: routed_to_def route_of_def q35_irq_route_def Let_def)
qed

theorem q35_lines_follow_routing_witness:
  "\<exists>q. q = rcba_write 0x3140 0x32 sample_raised \<and> intx_driven (q_pci q) 0xFA \<and> routed_to q 0xFA 18 \<and>
    line_level 18 (line_log (run line_step (pci_lines (q_pci q)) shared_irqs_init))"
proof -
  have "q35_step sample_mc sample_plugged sample_raised" unfolding sample_raised_def by (rule pin)
  then have "(q35_step sample_mc)\<^sup>*\<^sup>* sample_plugged (rcba_write 0x3140 0x32 sample_raised)"
    by (rule converse_rtranclp_into_rtranclp) (rule r_into_rtranclp, rule root_complex)
  from q35_lines_follow_routing [OF sample_plugged_built this, of 18] show ?thesis using sample_driven sample_routed by auto
qed

text \<open>
  A routing write brings the pin of a card that was pulled out back: \<open>reroute_pins\<close> asks for the level and the
  command register of a function and not whether it is on the bus.
\<close>

lemma reroute_drives_absent:
  assumes "js_get False (intx_levels p) i" "intx_levels p = replicate i False @ [True]" "\<not> has_bits (get_command p i) PCI_COMMAND_INTX_DISABLE"
    "js_get False (absent p) i" "\<not> not_routed (fst (route_of rc p i))"
  shows "js_get None (asserted_irq_lines (reroute_pins rc p)) i = Some (fst (route_of rc p i))"
proof -
  let ?f = "\<lambda>i u. if js_get False (intx_levels u) i
    then drive_intx (q35_irq_route rc) i (\<not> has_bits (get_command u i) PCI_COMMAND_INTX_DISABLE) u else u"
  have low: "\<not> js_get False (intx_levels p) k" if "k < i" for k unfolding assms(2) using that by (simp add: js_get_def nth_append)
  have "fold ?f xs p = p" if "\<forall>k \<in> set xs. k < i" for xs using that by (induction xs) (auto simp: low)
  then have "fold ?f [0..<i] p = p" by simp
  then have "reroute_pins rc p = drive_intx (q35_irq_route rc) i True p" using assms(1-3) by (simp add: reroute_pins_def)
  then show ?thesis using assms(5) by (simp add: drive_exact)
qed


section \<open>The lock of SMM memory\<close>

text \<open>The registers and fields that control SMM memory.\<close>

definition smram_view :: "q35 \<Rightarrow> bool \<times> u8 \<times> u8 \<times> u8 \<times> u8" where
  "smram_view q = (smram_locked q, smram_locked_value q, esmramc q, reg8 MCH MCH_SMRAM q, reg8 MCH MCH_ESMRAMC q)"








text \<open>The configuration space of the host bridge is that of its registration.\<close>

definition mch_long :: "q35 \<Rightarrow> bool" where
  "mch_long q \<longleftrightarrow> length (space_bytes (q_pci q) MCH) \<ge> 256"


lemma put8_length [simp]: "length (space_bytes (q_pci (put8 i k b q)) j) = length (space_bytes (q_pci q) j)"
  by (auto simp: space_bytes_def)

lemma reg8_fields [simp]: "reg8 i k (q\<lparr>esmramc := x\<rparr>) = reg8 i k q" "reg8 i k (q\<lparr>smram_locked := y, smram_locked_value := z\<rparr>) = reg8 i k q"
  by (simp_all add: reg8_def)

lemma put8_fields [simp]:
  "smram_locked (put8 i k b q) = smram_locked q" "smram_locked_value (put8 i k b q) = smram_locked_value q" "esmramc (put8 i k b q) = esmramc q"
  "mch_long (put8 i k b q) = mch_long q"
  by (simp_all add: mch_long_def) (simp_all add: put8_def)

lemma smram_view_same [simp]: "smram_view (update_smram mc q) = smram_view q" "smram_view (update_ecam mc q) = smram_view q"
  "mch_long (update_smram mc q) = mch_long q" "mch_long (update_ecam mc q) = mch_long q"
proof -
  have r: "reg8 i k (update_smram mc q) = reg8 i k q" "reg8 i k (update_ecam mc q) = reg8 i k q" for i k by (simp_all add: reg8_def space_bytes_def)
  show "smram_view (update_smram mc q) = smram_view q" unfolding smram_view_def r by (simp add: update_smram_def q_emit_def Let_def)
  show "smram_view (update_ecam mc q) = smram_view q" unfolding smram_view_def r by (simp add: update_ecam_def split: prod.split)
  show "mch_long (update_smram mc q) = mch_long q" "mch_long (update_ecam mc q) = mch_long q" by (simp_all add: mch_long_def space_bytes_def)
qed





















text \<open>The chipset's routing keeps the contract of the bus, whatever its registers hold.\<close>

interpretation q35_bus: pci_pins "q35_irq_route rc"
  "register_device LPC plain_function (lpc_space [0, 0, 0, 0]) 256 (register_device MCH plain_function mch_space 256 PCI)" for rc
  by (rule built_pci_pins [OF q35_chips_built [OF empty_bus] q35_route_ok]) (simp_all add: PCI_def)

end
