(* ===== verification/Root_Port.thy ===== *)
theory Root_Port
  imports Q35 "HOL-Library.Multiset"
begin

text \<open>
  The PCI Express root ports of the Q35 machine with their hot plug slots, \<open>src/pcie_root_port.js\<close>. A port is
  a bridge on the bus of \<open>Pci\<close>; it keeps its slot in fields of its own and shows them in its registers. The
  promises of \<open>remove\<close> are numbers: those waiting are a list, those settled are effects, in order.
\<close>

section \<open>State\<close>

datatype port_effect = Resolved nat | Rejected nat

record root_port =
  rp_number :: nat
  rp_template :: "u8 list"
  slot_control :: i32
  slot_status :: i32
  card_in :: bool
  removal_requested :: bool
  removal_waiters :: "nat list"
  notified :: bool
  rp_pci :: pci
  rp_log :: "port_effect list"

text \<open>The functions of a port and of the card behind it, by the number of the port.\<close>

definition port_fn :: "nat \<Rightarrow> nat" where
  "port_fn n = 0x1C * 8 + n"

definition card_fn :: "nat \<Rightarrow> nat" where
  "card_fn n = (n + 1) * 256"

abbreviation port_id :: "root_port \<Rightarrow> nat" where
  "port_id s \<equiv> port_fn (rp_number s)"

abbreviation card_id :: "root_port \<Rightarrow> nat" where
  "card_id s \<equiv> card_fn (rp_number s)"

abbreviation (input) MSI_CAP :: nat where "MSI_CAP \<equiv> 0x80"
abbreviation (input) LNKSTA :: nat where "LNKSTA \<equiv> 0x52"
abbreviation (input) SLTCAP :: nat where "SLTCAP \<equiv> 0x54"
abbreviation (input) SLTCTL :: nat where "SLTCTL \<equiv> 0x58"
abbreviation (input) SLTSTA :: nat where "SLTSTA \<equiv> 0x5A"

abbreviation (input) SLTCTL_EVENT_ENABLES :: i32 where "SLTCTL_EVENT_ENABLES \<equiv> 0x1F"
abbreviation (input) SLTCTL_HPIE :: i32 where "SLTCTL_HPIE \<equiv> 0x20"
abbreviation (input) SLTCTL_PIC :: i32 where "SLTCTL_PIC \<equiv> 0x300"
abbreviation (input) SLTCTL_PCC :: i32 where "SLTCTL_PCC \<equiv> 0x400"
abbreviation (input) SLTCTL_DLLSCE :: i32 where "SLTCTL_DLLSCE \<equiv> 0x1000"
abbreviation (input) SLTCTL_WRITABLE :: i32 where "SLTCTL_WRITABLE \<equiv> 0x17FF"
abbreviation (input) SLTCTL_RESET_OCCUPIED :: i32 where "SLTCTL_RESET_OCCUPIED \<equiv> 0x1C0"
abbreviation (input) SLTCTL_RESET_EMPTY :: i32 where "SLTCTL_RESET_EMPTY \<equiv> 0x7C0"

abbreviation (input) SLTSTA_ABP :: i32 where "SLTSTA_ABP \<equiv> 0x1"
abbreviation (input) SLTSTA_PDC :: i32 where "SLTSTA_PDC \<equiv> 0x8"
abbreviation (input) SLTSTA_CC :: i32 where "SLTSTA_CC \<equiv> 0x10"
abbreviation (input) SLTSTA_PDS :: i32 where "SLTSTA_PDS \<equiv> 0x40"
abbreviation (input) SLTSTA_DLLSC :: i32 where "SLTSTA_DLLSC \<equiv> 0x100"
abbreviation (input) SLTSTA_EVENTS :: i32 where "SLTSTA_EVENTS \<equiv> 0x11F"

definition get16 :: "u8 list \<Rightarrow> nat \<Rightarrow> i32" where
  "get16 bs k = ucast (bs ! k) OR push_bit 8 (ucast (bs ! (k + 1)))"

definition put16 :: "nat \<Rightarrow> i32 \<Rightarrow> u8 list \<Rightarrow> u8 list" where
  "put16 k v bs = bs[k := ucast v, k + 1 := ucast (drop_bit 8 v)]"

text \<open>A value of \<open>n\<close> bytes in the space the port is built with.\<close>

definition put_bytes :: "nat \<Rightarrow> nat \<Rightarrow> i32 \<Rightarrow> u8 list \<Rightarrow> u8 list" where
  "put_bytes k n v bs = fold (\<lambda>i xs. xs[k + i := byte_n v i]) [0..<n] bs"

definition splice :: "nat \<Rightarrow> u8 list \<Rightarrow> u8 list \<Rightarrow> u8 list" where
  "splice k xs bs = take k bs @ xs @ drop (k + length xs) bs"

definition rp_emit :: "port_effect list \<Rightarrow> root_port \<Rightarrow> root_port" where
  "rp_emit es s = s\<lparr>rp_log := rp_log s @ es\<rparr>"

text \<open>The bytes of the port's configuration space, which are what the guest reads and writes.\<close>

abbreviation port_bytes :: "root_port \<Rightarrow> u8 list" where
  "port_bytes s \<equiv> space_bytes (rp_pci s) (port_id s)"

definition set_port_bytes :: "u8 list \<Rightarrow> root_port \<Rightarrow> root_port" where
  "set_port_bytes bs s = s\<lparr>rp_pci := set_space (port_id s) bs (rp_pci s)\<rparr>"

section \<open>The bits of the capabilities that a guest may write\<close>

definition WRITABLE :: "u8 list" where
  "WRITABLE = splice 0xA4 [0x03, 0x01] (splice MSI_CAP (replicate 14 0xFF) (splice 0x5C [0x1F, 0x00]
     (splice 0x50 [0xFB, 0x01] (splice 0x48 [0xFF, 0x7F] (replicate 256 0)))))"

section \<open>Operations\<close>

definition has_card :: "root_port \<Rightarrow> bool" where
  "has_card s \<longleftrightarrow> device_of (rp_pci s) (card_id s) \<noteq> None"

definition powered :: "root_port \<Rightarrow> bool" where
  "powered s \<longleftrightarrow> slot_control s AND SLTCTL_PCC = 0"

definition safe_to_remove :: "root_port \<Rightarrow> bool" where
  "safe_to_remove s \<longleftrightarrow> \<not> powered s \<and> slot_control s AND SLTCTL_PIC = 0x300"

definition store_slot :: "root_port \<Rightarrow> root_port" where
  "store_slot s =
     (let link_up = card_in s \<and> powered s
      in set_port_bytes (put16 SLTSTA (slot_status s AND SLTSTA_EVENTS OR (if card_in s then SLTSTA_PDS else 0))
           (put16 SLTCTL (slot_control s) (put16 LNKSTA (0x1011 OR (if link_up then 0x2000 else 0)) (port_bytes s)))) s)"

definition load_slot :: "root_port \<Rightarrow> root_port" where
  "load_slot s = s\<lparr>slot_control := get16 (port_bytes s) SLTCTL AND SLTCTL_WRITABLE, slot_status := get16 (port_bytes s) SLTSTA AND SLTSTA_EVENTS\<rparr>"

text \<open>Whether an enabled event is pending while hot plug interrupts are enabled.\<close>

definition interrupt_active :: "root_port \<Rightarrow> bool" where
  "interrupt_active s \<longleftrightarrow>
     (let enabled = slot_control s AND SLTCTL_EVENT_ENABLES OR (if slot_control s AND SLTCTL_DLLSCE \<noteq> 0 then SLTSTA_DLLSC else 0)
      in slot_control s AND SLTCTL_HPIE \<noteq> 0 \<and> slot_status s AND enabled \<noteq> 0)"

type_synonym apic = "(i32 \<Rightarrow> i32 \<Rightarrow> bool) option"

definition update_interrupt :: "irq_route \<Rightarrow> apic \<Rightarrow> root_port \<Rightarrow> root_port" where
  "update_interrupt route apic s =
     (let act = interrupt_active s; p = rp_pci s; i = port_id s;
          p1 = (if msi_enabled p i MSI_CAP
                then let p2 = pci_lower_irq route i p in if act \<and> \<not> notified s then snd (msi_notify apic i MSI_CAP p2) else p2
                else set_irq_level route i act p)
      in s\<lparr>rp_pci := p1, notified := act\<rparr>)"

definition slot_event :: "irq_route \<Rightarrow> apic \<Rightarrow> i32 \<Rightarrow> root_port \<Rightarrow> root_port" where
  "slot_event route apic events s =
     (let added = events AND NOT (slot_status s); s1 = store_slot (s\<lparr>slot_status := slot_status s OR events\<rparr>)
      in if added \<noteq> 0 then update_interrupt route apic s1 else s1)"

text \<open>The card comes on the bus afresh, or leaves it.\<close>

definition card_present :: "irq_route \<Rightarrow> bool \<Rightarrow> root_port \<Rightarrow> root_port" where
  "card_present route present s = s\<lparr>rp_pci := set_function_present route (card_id s) present present (rp_pci s)\<rparr>"

definition slot_setup :: "irq_route \<Rightarrow> bool \<Rightarrow> root_port \<Rightarrow> root_port" where
  "slot_setup route plugged s =
     (let s1 = s\<lparr>card_in := has_card s \<and> plugged\<rparr>;
          s2 = (if has_card s1 \<and> \<not> card_in s1 then card_present route False s1 else s1)
      in store_slot (s2\<lparr>slot_control := if card_in s2 then SLTCTL_RESET_OCCUPIED else SLTCTL_RESET_EMPTY\<rparr>))"

text \<open>An error if the machine has no device for the port; otherwise whether the card was out.\<close>

datatype port_error = No_Device nat

definition insert_card :: "irq_route \<Rightarrow> apic \<Rightarrow> root_port \<Rightarrow> (port_error + bool) \<times> root_port" where
  "insert_card route apic s =
     (if \<not> has_card s then (Inl (No_Device (rp_number s)), s)
      else if card_in s then (Inr False, s)
      else let s1 = s\<lparr>card_in := True\<rparr>
           in (Inr True,
               if powered s1 then slot_event route apic (SLTSTA_PDC OR SLTSTA_DLLSC) (card_present route True s1)
               else slot_event route apic (SLTSTA_PDC OR SLTSTA_ABP) s1))"

definition removed :: "root_port \<Rightarrow> root_port" where
  "removed s = rp_emit (map Resolved (removal_waiters s)) (s\<lparr>removal_requested := False, removal_waiters := []\<rparr>)"

text \<open>\<open>w\<close> is the promise that is returned.\<close>

definition remove_card :: "irq_route \<Rightarrow> apic \<Rightarrow> bool \<Rightarrow> nat \<Rightarrow> root_port \<Rightarrow> root_port" where
  "remove_card route apic surprise w s =
     (if \<not> card_in s then rp_emit [Resolved w] s
      else if surprise \<or> \<not> powered s
      then let link_was_up = powered s; s1 = card_present route False (s\<lparr>card_in := False\<rparr>)
           in rp_emit [Resolved w] (removed (slot_event route apic (SLTSTA_PDC OR (if link_was_up then SLTSTA_DLLSC else 0)) s1))
      else let s1 = s\<lparr>removal_waiters := removal_waiters s @ [w]\<rparr>
           in if removal_requested s1 then s1 else slot_event route apic SLTSTA_ABP (s1\<lparr>removal_requested := True\<rparr>))"

definition slot_control_written :: "irq_route \<Rightarrow> apic \<Rightarrow> i32 \<Rightarrow> root_port \<Rightarrow> root_port" where
  "slot_control_written route apic value1 s =
     (let was_powered = powered s; s1 = s\<lparr>slot_control := value1 AND SLTCTL_WRITABLE\<rparr>;
          switched = card_in s1 \<and> was_powered \<noteq> powered s1;
          s2 = (if switched then card_present route (powered s1) s1 else s1);
          leaves = card_in s2 \<and> removal_requested s2 \<and> safe_to_remove s2;
          s3 = (if leaves then removed (s2\<lparr>card_in := False\<rparr>) else s2)
      in slot_event route apic (SLTSTA_CC OR (if switched then SLTSTA_DLLSC else 0) OR (if leaves then SLTSTA_PDC else 0)) (store_slot s3))"

text \<open>The bytes after a write: read-only bits have the values of the template, above 0x100 there is nothing.\<close>

definition masked_bytes :: "u8 list \<Rightarrow> nat \<Rightarrow> nat \<Rightarrow> u8 list \<Rightarrow> u8 list" where
  "masked_bytes template offset sz bs =
     fold (\<lambda>k xs. xs[k := if k < 0x100 then template ! k AND NOT (WRITABLE ! k) OR xs ! k AND WRITABLE ! k else 0])
       [max offset 0x40..<offset + sz] bs"

definition config_written :: "irq_route \<Rightarrow> apic \<Rightarrow> nat \<Rightarrow> nat \<Rightarrow> root_port \<Rightarrow> root_port" where
  "config_written route apic offset sz s =
     (let bs = port_bytes s; written = (\<lambda>k. k \<ge> offset \<and> k < offset + sz);
          control = (if written SLTCTL \<or> written (SLTCTL + 1) then Some (get16 bs SLTCTL) else None);
          cleared = (if written SLTSTA then ucast (bs ! SLTSTA) else 0) OR (if written (SLTSTA + 1) then push_bit 8 (ucast (bs ! (SLTSTA + 1))) else 0);
          s1 = set_port_bytes (masked_bytes (rp_template s) offset sz bs) s;
          s2 = (if offset < MSI_CAP + 14 \<and> offset + sz > MSI_CAP
                then s1\<lparr>rp_pci := msi_config_written (port_id s1) MSI_CAP 0x90 (rp_pci s1)\<rparr> else s1);
          s3 = store_slot (s2\<lparr>slot_status := slot_status s2 AND NOT (cleared AND SLTSTA_EVENTS)\<rparr>);
          s4 = (case control of Some v \<Rightarrow> slot_control_written route apic v s3 | None \<Rightarrow> s3)
      in update_interrupt route apic s4)"

definition port_reset :: "irq_route \<Rightarrow> root_port \<Rightarrow> root_port" where
  "port_reset route s =
     (let was_powered = powered s;
          s1 = rp_emit (map Rejected (removal_waiters s))
                 (s\<lparr>slot_control := if card_in s then SLTCTL_RESET_OCCUPIED else SLTCTL_RESET_EMPTY, slot_status := 0, notified := False,
                    removal_requested := False, removal_waiters := []\<rparr>);
          s2 = (if card_in s1 \<and> \<not> was_powered then card_present route True s1 else s1);
          s3 = store_slot s2
      in s3\<lparr>rp_pci := pci_lower_irq route (port_id s3) (rp_pci s3)\<rparr>)"

section \<open>Saved state\<close>

definition port_get_state :: "root_port \<Rightarrow> bool \<times> bool \<times> bool" where
  "port_get_state s = (card_in s, removal_requested s, notified s)"

definition port_set_state :: "bool \<times> bool \<times> bool \<Rightarrow> root_port \<Rightarrow> root_port" where
  "port_set_state = (\<lambda>(c, r, n) s.
     let s1 = load_slot (s\<lparr>card_in := c, removal_requested := r, notified := n\<rparr>)
     in if \<not> card_in s1 then removed s1
        else if \<not> removal_requested s1 then rp_emit (map Rejected (removal_waiters s1)) (s1\<lparr>removal_waiters := []\<rparr>)
        else s1)"

section \<open>Power-on\<close>

text \<open>\<open>subsystem\<close> is QEMU's in a machine of its layout.\<close>

definition port_space :: "nat \<Rightarrow> nat \<Rightarrow> u8 list option \<Rightarrow> u8 list" where
  "port_space number cnt subsystem =
     (let device_id = 0x2940 + 2 * word_of_nat number; lo = ucast device_id; hi = ucast (drop_bit 8 device_id :: i32);
          b0 = splice 0 [0x86, 0x80, lo, hi, 0x00, 0x00, 0x10, 0x00, 0x02, 0x00, 0x04, 0x06, 0x00, 0x00,
                         if number = 0 \<and> cnt > 1 then 0x81 else 0x01, 0x00] (replicate 256 0);
          b1 = b0[0x24 := 0x01, 0x26 := 0x01, 0x34 := 0x40, 0x3D := word_of_nat (number mod 4 + 1), 0x40 := 0x10, 0x41 := 0x80];
          b2 = put_bytes 0x4C 4 (0x100011 OR push_bit 24 (word_of_nat (number + 1))) (put_bytes 0x44 4 0x8000 (put_bytes 0x42 2 0x141 b1));
          b3 = put_bytes SLTCTL 2 SLTCTL_RESET_OCCUPIED (put_bytes SLTCAP 4 (0x7B OR push_bit 19 (word_of_nat (number + 1))) (put_bytes LNKSTA 2 0x1011 b2));
          b4 = splice 0x90 ([0x0D, 0xA0, 0, 0] @ (case subsystem of Some q \<Rightarrow> q | None \<Rightarrow> [0x86, 0x80, lo, hi])) (splice MSI_CAP (msi_capability 0x90) b3)
      in splice 0xA0 [0x01, 0x00, 0x02, 0xC8, 0x00, 0x00, 0x00, 0x00] b4)"

definition port_function :: "nat \<Rightarrow> pci_function" where
  "port_function number = plain_function\<lparr>pci_secondary_bus := Some (number + 1), pci_express_downstream := True\<rparr>"

definition PCIeRootPort :: "nat \<Rightarrow> nat \<Rightarrow> u8 list option \<Rightarrow> pci \<Rightarrow> root_port" where
  "PCIeRootPort number cnt subsystem p =
     (let sp = port_space number cnt subsystem
      in \<lparr>rp_number = number, rp_template = sp, slot_control = SLTCTL_RESET_OCCUPIED, slot_status = 0, card_in = False, removal_requested = False,
          removal_waiters = [], notified = False, rp_pci = register_device (port_fn number) (port_function number) sp 4096 p, rp_log = []\<rparr>)"

section \<open>Registers of sixteen bits\<close>

lemma get16_put16: "k + 1 < length bs \<Longrightarrow> get16 (put16 k v bs) k = v AND 0xFFFF"
proof -
  assume l: "k + 1 < length bs"
  have f: "(0xFFFF :: i32) = mask 16" by (simp add: mask_eq_exp_minus_1)
  show ?thesis unfolding f
  proof (rule bit_word_eqI)
    fix n assume "n < LENGTH(32)"
    then show "bit (get16 (put16 k v bs) k) n = bit (v AND mask 16) n"
      using l by (cases "n < 8") (auto simp: get16_def put16_def bit_simps)
  qed
qed

lemma nth_put16: "m \<noteq> k \<Longrightarrow> m \<noteq> k + 1 \<Longrightarrow> put16 k v bs ! m = bs ! m"
  by (simp add: put16_def)

lemma get16_put16_other: "m + 1 < k \<or> k + 1 < m \<Longrightarrow> get16 (put16 k v bs) m = get16 bs m"
  by (auto simp: get16_def nth_put16)

lemma length_put16 [simp]: "length (put16 k v bs) = length bs"
  by (simp add: put16_def)

section \<open>The port on the bus\<close>

text \<open>A device changes its space from 0x40 on.\<close>

lemma calm_upper:
  assumes "space_of p i = Some bs" "length cs = length bs" "\<And>k. k < 0x40 \<Longrightarrow> cs ! k = bs ! k"
  shows "calm p (set_space i cs p)"
proof -
  let ?u = "set_space i cs p"
  have d: "get_dword cs 1 = get_dword bs 1" by (rule get_dword_cong) (use assms(3) in simp)
  then have c: "get_command ?u j = get_command p j" for j using assms(1) by (simp add: get_command_def)
  have sh: "pci_shape p ?u" by (rule set_space_shape [OF assms(1,2)])
  have k: "io_key ?u i = io_key p i" using c assms by (simp add: io_key_def space_bytes_def)
  have "identity_of cs = identity_of bs" using assms(3) identity_index by (auto simp: identity_of_def)
  then have id: "identity ?u j = identity p j" for j using assms(1) by (simp add: identity_def space_bytes_def)
  have "evolves p ?u" if "machine_ok p"
  proof -
    have wf: "pci_wf p" using that by (simp add: machine_ok_def)
    have "bar_placed ?u j m" for j m using set_space_placed [of i p j cs m] k wf by (simp add: pci_wf_def)
    then have "pci_wf ?u" by (rule wf_shape [OF wf sh])
    then show ?thesis using sh id by (simp add: evolves_def pci_shape_def)
  qed
  then show ?thesis using c sh by (simp add: calm_def pci_shape_def pin_frame_def pci_lines_def)
qed

definition port_ok :: "root_port \<Rightarrow> bool" where
  "port_ok s \<longleftrightarrow> machine_ok (rp_pci s) \<and> space_of (rp_pci s) (port_id s) \<noteq> None \<and> \<not> is_bridge (rp_pci s) (card_id s) \<and> rp_number s < 6"

text \<open>What the other operations of the bus keep: the shape of the bus, its identities, which functions there are.\<close>

definition port_evolves :: "root_port \<Rightarrow> root_port \<Rightarrow> bool" where
  "port_evolves s t \<longleftrightarrow> rp_number t = rp_number s \<and> rp_template t = rp_template s \<and> evolves (rp_pci s) (rp_pci t)"

lemma port_evolves_ok:
  assumes "port_evolves s t" "port_ok s" shows "port_ok t" "has_card t = has_card s"
proof -
  have e: "evolves (rp_pci s) (rp_pci t)" "same_shape (rp_pci s) (rp_pci t)" and n: "rp_number t = rp_number s"
    using assms(1) by (simp_all add: port_evolves_def evolves_def)
  have m: "machine_ok (rp_pci t)" using evolves_ok [OF _ e(1)] assms(2) by (simp add: port_ok_def)
  have d: "device_of (rp_pci t) i = None \<longleftrightarrow> device_of (rp_pci s) i = None" for i by (rule same_shape_device(1) [OF e(2)])
  then have "space_of (rp_pci t) i = None \<longleftrightarrow> space_of (rp_pci s) i = None" for i
    using wf_space_device m assms(2) by (simp add: port_ok_def machine_ok_def)
  then show "port_ok t" using m assms(2) n same_shape_bridge [OF e(2)] by (simp add: port_ok_def)
  show "has_card t = has_card s" using d n by (simp add: has_card_def)
qed

lemma port_evolves_trans [trans]: "port_evolves s t \<Longrightarrow> port_evolves t u \<Longrightarrow> port_evolves s u"
  using evolves_trans by (auto simp: port_evolves_def)

lemma port_evolves_same: "port_ok s \<Longrightarrow> rp_number t = rp_number s \<Longrightarrow> rp_template t = rp_template s \<Longrightarrow> rp_pci t = rp_pci s \<Longrightarrow> port_evolves s t"
  by (simp add: port_evolves_def evolves_def port_ok_def machine_ok_def)

text \<open>The slot's part of the bus: whether the card is absent, the pin of the port, and the port's registers from 0x40 on.\<close>

definition card_absent :: "root_port \<Rightarrow> bool" where
  "card_absent s \<longleftrightarrow> js_get False (absent (rp_pci s)) (card_id s)"

definition port_level :: "root_port \<Rightarrow> bool" where
  "port_level s \<longleftrightarrow> js_get False (intx_levels (rp_pci s)) (port_id s)"

definition port_msi :: "root_port \<Rightarrow> bool" where
  "port_msi s \<longleftrightarrow> msi_enabled (rp_pci s) (port_id s) MSI_CAP"

lemma card_not_port: "n < 6 \<Longrightarrow> card_fn n \<noteq> port_fn n" "card_fn n \<ge> 256" "port_fn n \<noteq> card_fn m \<or> \<not> n < 6"
  by (auto simp: card_fn_def port_fn_def)

lemma port_bytes_length: "port_ok s \<Longrightarrow> length (port_bytes s) \<ge> 256"
  by (rule bytes_length) (simp_all add: port_ok_def machine_ok_def)

lemma port_msi_byte: "port_ok s \<Longrightarrow> port_msi s \<longleftrightarrow> port_bytes s ! 0x82 AND 1 \<noteq> 0"
  by (auto simp: port_msi_def msi_enabled_def port_ok_def space_bytes_def)

lemma upper_evolves:
  assumes "port_ok s" "length cs = length (port_bytes s)" "\<And>k. k < 0x40 \<Longrightarrow> cs ! k = port_bytes s ! k"
  shows "port_evolves s (set_port_bytes cs s)"
proof -
  obtain bs where bs: "space_of (rp_pci s) (port_id s) = Some bs" using assms(1) by (auto simp: port_ok_def)
  have b: "port_bytes s = bs" using bs by (simp add: space_bytes_def)
  have "calm (rp_pci s) (set_space (port_id s) cs (rp_pci s))"
    by (rule calm_upper [OF bs]) (use assms(2,3) b in auto)
  then show ?thesis using assms(1) by (simp add: port_evolves_def set_port_bytes_def calm_def port_ok_def)
qed

lemma set_port_bytes_simps [simp]:
  "rp_number (set_port_bytes cs s) = rp_number s" "rp_template (set_port_bytes cs s) = rp_template s" "slot_control (set_port_bytes cs s) = slot_control s"
  "slot_status (set_port_bytes cs s) = slot_status s" "card_in (set_port_bytes cs s) = card_in s"
  "removal_requested (set_port_bytes cs s) = removal_requested s" "removal_waiters (set_port_bytes cs s) = removal_waiters s"
  "notified (set_port_bytes cs s) = notified s" "rp_log (set_port_bytes cs s) = rp_log s"
  "card_absent (set_port_bytes cs s) = card_absent s" "port_level (set_port_bytes cs s) = port_level s"
  "space_bytes (rp_pci (set_port_bytes cs s)) (port_id s) = cs"
  by (simp_all add: set_port_bytes_def card_absent_def port_level_def space_bytes_def)


section \<open>What each operation does\<close>

lemma store_slot_simps [simp]:
  "rp_number (store_slot s) = rp_number s" "rp_template (store_slot s) = rp_template s" "slot_control (store_slot s) = slot_control s"
  "slot_status (store_slot s) = slot_status s" "card_in (store_slot s) = card_in s"
  "removal_requested (store_slot s) = removal_requested s" "removal_waiters (store_slot s) = removal_waiters s"
  "notified (store_slot s) = notified s" "rp_log (store_slot s) = rp_log s"
  "card_absent (store_slot s) = card_absent s" "port_level (store_slot s) = port_level s"
  by (simp_all add: store_slot_def Let_def)

text \<open>The registers show the fields.\<close>

definition slot_shown :: "root_port \<Rightarrow> bool" where
  "slot_shown s \<longleftrightarrow> get16 (port_bytes s) LNKSTA = 0x1011 OR (if card_in s \<and> powered s then 0x2000 else 0) \<and>
     get16 (port_bytes s) SLTCTL = slot_control s AND 0xFFFF \<and>
     get16 (port_bytes s) SLTSTA = slot_status s AND SLTSTA_EVENTS OR (if card_in s then SLTSTA_PDS else 0)"

lemma store_slot_ok:
  assumes "port_ok s" shows "port_evolves s (store_slot s)" "slot_shown (store_slot s)" "port_msi (store_slot s) = port_msi s" "port_ok (store_slot s)"
proof -
  let ?a = "0x1011 OR (if card_in s \<and> powered s then 0x2000 else 0 :: i32)" and ?c = "slot_status s AND SLTSTA_EVENTS OR (if card_in s then SLTSTA_PDS else 0)"
  let ?bs = "put16 SLTSTA ?c (put16 SLTCTL (slot_control s) (put16 LNKSTA ?a (port_bytes s)))"
  have l: "length (port_bytes s) \<ge> 256" by (rule port_bytes_length [OF assms])
  have e: "store_slot s = set_port_bytes ?bs s" by (simp add: store_slot_def Let_def)
  show ev: "port_evolves s (store_slot s)" unfolding e by (rule upper_evolves [OF assms]) (simp_all add: nth_put16)
  then show ok: "port_ok (store_slot s)" by (rule port_evolves_ok(1)) (rule assms)
  have c: "?c AND 0xFFFF = ?c" by (simp add: bit.conj_disj_distrib2 and.assoc)
  have "?a AND 0xFFFF = ?a" by simp
  then show "slot_shown (store_slot s)" using l c
    by (simp add: slot_shown_def e get16_put16 get16_put16_other powered_def)
  have "port_bytes (store_slot s) ! 0x82 = port_bytes s ! 0x82" unfolding e by (simp add: nth_put16)
  then show "port_msi (store_slot s) = port_msi s" using port_msi_byte [OF assms] port_msi_byte [OF ok] by simp
qed

lemma irq_level_upper:
  "k \<ge> 8 \<Longrightarrow> space_bytes (set_irq_level route i level p) j ! k = space_bytes p j ! k"
  by (simp add: set_irq_level_def Let_def space_bytes_def interrupt_status_def nth_set_dword_other split: option.split)

lemma irq_level_simps [simp]:
  "absent (set_irq_level route i level p) = absent p"
  "js_get False (intx_levels (set_irq_level route i level p)) j = (if j = i then level else js_get False (intx_levels p) j)"
  by (simp_all add: set_irq_level_def Let_def split: option.split)

lemma irq_level_evolves: "machine_ok p \<Longrightarrow> evolves p (set_irq_level route i level p)"
  using pci_step_ok [of p "Pin i level" route] by simp

lemma update_interrupt_simps [simp]:
  "rp_number (update_interrupt route apic s) = rp_number s" "rp_template (update_interrupt route apic s) = rp_template s"
  "slot_control (update_interrupt route apic s) = slot_control s" "slot_status (update_interrupt route apic s) = slot_status s"
  "card_in (update_interrupt route apic s) = card_in s" "removal_requested (update_interrupt route apic s) = removal_requested s"
  "removal_waiters (update_interrupt route apic s) = removal_waiters s" "rp_log (update_interrupt route apic s) = rp_log s"
  "notified (update_interrupt route apic s) = interrupt_active s"
  by (simp_all add: update_interrupt_def Let_def)

lemma msi_notify_calm: "calm p (snd (msi_notify apic i cap p))"
  using calm_emit [of "Apic_Msi _ _" p] calm_refl by (simp add: msi_notify_def Let_def split: option.split)

lemma msi_notify_spaces [simp]: "device_spaces (snd (msi_notify apic i cap p)) = device_spaces p"
  by (simp add: msi_notify_def Let_def split: option.split)

text \<open>After it the pin is high exactly if an enabled event is pending and no message is sent for it.\<close>

definition interrupt_shown :: "root_port \<Rightarrow> bool" where
  "interrupt_shown s \<longleftrightarrow> notified s = interrupt_active s \<and> port_level s = (interrupt_active s \<and> \<not> port_msi s)"

lemma update_interrupt_ok:
  fixes s route apic defines "t \<equiv> update_interrupt route apic s"
  assumes "port_ok s"
  shows "port_evolves s t" "port_ok t" "card_absent t = card_absent s" "k \<ge> 0x40 \<Longrightarrow> port_bytes t ! k = port_bytes s ! k" "port_msi t = port_msi s"
    "interrupt_shown t" "slot_shown t = slot_shown s"
proof -
  let ?i = "port_id s" and ?p = "rp_pci s"
  let ?l = "set_irq_level route ?i False ?p"
  have m: "machine_ok ?p" using assms by (simp add: port_ok_def)
  define q where "q = rp_pci t"
  have q: "q = (if port_msi s then if interrupt_active s \<and> \<not> notified s then snd (msi_notify apic ?i MSI_CAP ?l) else ?l
      else set_irq_level route ?i (interrupt_active s) ?p)"
    by (simp add: q_def t_def update_interrupt_def Let_def port_msi_def pci_lower_irq_def)
  have c: "evolves ?l (snd (msi_notify apic ?i MSI_CAP ?l))"
    using msi_notify_calm [of ?l apic ?i MSI_CAP] evolves_ok [OF m irq_level_evolves [OF m]] by (simp add: calm_def)
  have ev: "evolves ?p q" unfolding q using irq_level_evolves [OF m] evolves_trans [OF irq_level_evolves [OF m] c] by simp
  have n: "rp_number t = rp_number s" "rp_template t = rp_template s" by (simp_all add: t_def)
  show e: "port_evolves s t" using ev n by (simp add: port_evolves_def q_def)
  then show ok: "port_ok t" by (rule port_evolves_ok(1)) (rule assms(2))
  have ab: "absent q = absent ?p" unfolding q using msi_notify_calm [of ?l apic ?i MSI_CAP] by (simp add: calm_def)
  then show "card_absent t = card_absent s" by (simp add: card_absent_def n flip: q_def)
  have sb: "space_bytes q ?i ! k = space_bytes ?p ?i ! k" if "k \<ge> 8" for k
  proof -
    have "space_bytes (snd (msi_notify apic ?i MSI_CAP ?l)) ?i = space_bytes ?l ?i" by (simp add: space_bytes_def)
    then show ?thesis using that irq_level_upper by (simp add: q)
  qed
  then have up: "port_bytes t ! k = port_bytes s ! k" if "k \<ge> 8" for k using that n by (simp flip: q_def)
  then show "port_bytes t ! k = port_bytes s ! k" if "k \<ge> 0x40" using that by simp
  show ms: "port_msi t = port_msi s" using port_msi_byte [OF ok] port_msi_byte [OF assms(2)] up by simp
  have lv: "js_get False (intx_levels q) ?i = (interrupt_active s \<and> \<not> port_msi s)"
    unfolding q using msi_notify_calm [of ?l apic ?i MSI_CAP] by (auto simp: calm_def pin_frame_def)
  have ia: "interrupt_active t = interrupt_active s" by (simp add: interrupt_active_def t_def)
  then show "interrupt_shown t" using lv ms n by (simp add: interrupt_shown_def port_level_def t_def flip: q_def) (simp add: q_def t_def)
  have "get16 (port_bytes t) k = get16 (port_bytes s) k" if "k \<ge> 8" for k using that up by (simp add: get16_def)
  then show "slot_shown t = slot_shown s" by (simp add: slot_shown_def t_def powered_def)
qed

lemma card_present_simps [simp]:
  "rp_number (card_present route b s) = rp_number s" "rp_template (card_present route b s) = rp_template s"
  "slot_control (card_present route b s) = slot_control s" "slot_status (card_present route b s) = slot_status s"
  "card_in (card_present route b s) = card_in s" "removal_requested (card_present route b s) = removal_requested s"
  "removal_waiters (card_present route b s) = removal_waiters s" "rp_log (card_present route b s) = rp_log s"
  "notified (card_present route b s) = notified s"
  by (simp_all add: card_present_def)

lemma function_present_other:
  assumes "spaces_ok p" "device_of p i \<noteq> None" "i \<ge> 256"
  shows "js_get False (absent (set_function_present route i b f p)) j = (if j = i then \<not> b else js_get False (absent p) j)"
    "j \<noteq> i \<Longrightarrow> space_of (set_function_present route i b f p) j = space_of p j"
    "j \<noteq> i \<Longrightarrow> js_get False (intx_levels (set_function_present route i b f p)) j = js_get False (intx_levels p) j"
proof -
  let ?u = "switch_function i b f p" let ?v = "set_irq_level route i (js_get False (intx_levels ?u) i) ?u"
  have e: "set_function_present route i b f p = upstream_changed i ?v" by (simp add: set_function_present_def Let_def)
  have fr: "absent (upstream_changed i ?v) = absent ?v" "device_spaces (upstream_changed i ?v) = device_spaces ?v" "intx_levels (upstream_changed i ?v) = intx_levels ?v"
    using upstream_changed_frame [of ?v i] pin_frame_io(2) [of ?v i] by (simp_all add: io_frame_def same_config_def pin_frame_def)
  note sw = switch_function_own [OF assms, of b f] and keep = switch_function_keeps [where i = i and present = b and fresh = f and s = p]
  show "js_get False (absent (set_function_present route i b f p)) j = (if j = i then \<not> b else js_get False (absent p) j)"
    unfolding e fr using keep(6) [of j] by simp
  show "space_of (set_function_present route i b f p) j = space_of p j" if "j \<noteq> i"
    unfolding e fr using sw(1) that by (simp add: set_irq_level_other own_change_def)
  show "js_get False (intx_levels (set_function_present route i b f p)) j = js_get False (intx_levels p) j" if "j \<noteq> i"
    unfolding e fr using keep(4) [of j] that by simp
qed

lemma card_present_ok:
  assumes "port_ok s" "has_card s"
  shows "port_evolves s (card_present route b s)" "port_ok (card_present route b s)" "has_card (card_present route b s)"
    "card_absent (card_present route b s) = (\<not> b)" "space_bytes (rp_pci (card_present route b s)) (port_id s) = port_bytes s"
    "port_level (card_present route b s) = port_level s" "port_msi (card_present route b s) = port_msi s"
proof -
  have m: "machine_ok (rp_pci s)" "spaces_ok (rp_pci s)" and n: "port_id s \<noteq> card_id s"
    using assms(1) card_not_port(1) [of "rp_number s"] by (auto simp: port_ok_def machine_ok_def pci_wf_def)
  have d: "device_of (rp_pci s) (card_id s) \<noteq> None" using assms(2) by (simp add: has_card_def)
  have "pci_event_ok (rp_pci s) (Slot (card_id s) b b)" using assms d card_not_port(2) by (simp add: port_ok_def)
  from pci_step_ok [OF m(1) this, of route]
  show e: "port_evolves s (card_present route b s)" by (simp add: port_evolves_def card_present_def)
  then show ok: "port_ok (card_present route b s)" "has_card (card_present route b s)" using port_evolves_ok [OF e assms(1)] assms(2) by simp_all
  note o = function_present_other [OF m(2) d card_not_port(2), where route = route and b = b and f = b]
  show "card_absent (card_present route b s) = (\<not> b)" "port_level (card_present route b s) = port_level s"
    using o n by (simp_all add: card_absent_def port_level_def card_present_def)
  show by1: "space_bytes (rp_pci (card_present route b s)) (port_id s) = port_bytes s"
    using o(2) [OF n] by (simp add: card_present_def space_bytes_def)
  then show "port_msi (card_present route b s) = port_msi s" using port_msi_byte [OF ok(1)] port_msi_byte [OF assms(1)] by simp
qed

section \<open>Invariant\<close>

text \<open>The card is on the bus exactly while it is in the slot and the slot has power.\<close>

definition card_shown :: "root_port \<Rightarrow> bool" where
  "card_shown s \<longleftrightarrow> (card_in s \<longrightarrow> has_card s) \<and> (card_absent s \<longleftrightarrow> has_card s \<and> \<not> (card_in s \<and> powered s))"

text \<open>A removal is requested of a card that is in and may not leave yet; nobody waits without one.\<close>

definition removal_ok :: "root_port \<Rightarrow> bool" where
  "removal_ok s \<longleftrightarrow> (removal_requested s \<longrightarrow> card_in s \<and> \<not> safe_to_remove s) \<and> (removal_waiters s \<noteq> [] \<longrightarrow> removal_requested s)"

definition slot_bits :: "root_port \<Rightarrow> bool" where
  "slot_bits s \<longleftrightarrow> slot_control s AND SLTCTL_WRITABLE = slot_control s \<and> slot_status s AND SLTSTA_EVENTS = slot_status s"

lemma slot_event_simps [simp]:
  "rp_number (slot_event route apic ev s) = rp_number s" "rp_template (slot_event route apic ev s) = rp_template s"
  "slot_control (slot_event route apic ev s) = slot_control s" "slot_status (slot_event route apic ev s) = slot_status s OR ev"
  "card_in (slot_event route apic ev s) = card_in s" "removal_requested (slot_event route apic ev s) = removal_requested s"
  "removal_waiters (slot_event route apic ev s) = removal_waiters s" "rp_log (slot_event route apic ev s) = rp_log s"
  by (simp_all add: slot_event_def Let_def)

text \<open>
  What holds before an event is signalled: the interrupt is right for the slot control and status as they are, or
  the caller updates it afterwards (\<open>config_written\<close>).
\<close>

lemma slot_event_ok:
  fixes s route apic ev defines "t \<equiv> slot_event route apic ev s"
  assumes "port_ok s"
  shows "port_evolves s t" "port_ok t" "card_absent t = card_absent s" "port_msi t = port_msi s" "slot_shown t" "interrupt_shown s \<Longrightarrow> interrupt_shown t"
proof -
  let ?s1 = "s\<lparr>slot_status := slot_status s OR ev\<rparr>" let ?s2 = "store_slot ?s1"
  have e1: "port_evolves s ?s1" by (rule port_evolves_same [OF assms(2)]) simp_all
  have ok1: "port_ok ?s1" by (rule port_evolves_ok(1) [OF e1 assms(2)])
  have m1: "port_msi ?s1 = port_msi s" "card_absent ?s1 = card_absent s" "port_level ?s1 = port_level s"
    by (simp_all add: port_msi_def card_absent_def port_level_def)
  note st = store_slot_ok [OF ok1] and up = update_interrupt_ok [OF store_slot_ok(4) [OF ok1], where route = route and apic = apic]
  have t: "t = (if ev AND NOT (slot_status s) \<noteq> 0 then update_interrupt route apic ?s2 else ?s2)" by (simp add: t_def slot_event_def Let_def)
  show "port_evolves s t" unfolding t using port_evolves_trans [OF e1 st(1)] port_evolves_trans [OF port_evolves_trans [OF e1 st(1)] up(1)] by simp
  then show "port_ok t" by (rule port_evolves_ok(1)) (rule assms(2))
  show "card_absent t = card_absent s" "port_msi t = port_msi s" "slot_shown t" unfolding t using st up m1 by simp_all
  show "interrupt_shown t" if i: "interrupt_shown s"
  proof (cases "ev AND NOT (slot_status s) = 0")
    case True
    have "slot_status s OR ev = slot_status s"
    proof (rule bit_word_eqI)
      fix n assume "n < LENGTH(32)"
      have "\<not> bit (ev AND NOT (slot_status s)) n" unfolding True by simp
      then show "bit (slot_status s OR ev) n = bit (slot_status s) n" using \<open>n < LENGTH(32)\<close> by (auto simp: bit_simps)
    qed
    then have "?s1 = s" by simp
    then show ?thesis using i True st(3) by (simp add: t interrupt_shown_def interrupt_active_def)
  next
    case False then show ?thesis unfolding t using up(6) by simp
  qed
qed

lemma fields_simps [simp]:
  "port_ok (s\<lparr>card_in := a\<rparr>) = port_ok s" "port_ok (s\<lparr>slot_control := b\<rparr>) = port_ok s" "port_ok (s\<lparr>slot_status := b\<rparr>) = port_ok s"
  "port_ok (s\<lparr>removal_requested := a\<rparr>) = port_ok s" "port_ok (s\<lparr>removal_waiters := c\<rparr>) = port_ok s" "port_ok (rp_emit es s) = port_ok s"
  "port_ok (s\<lparr>notified := a\<rparr>) = port_ok s"
  "has_card (s\<lparr>card_in := a\<rparr>) = has_card s" "has_card (s\<lparr>slot_control := b\<rparr>) = has_card s" "has_card (s\<lparr>slot_status := b\<rparr>) = has_card s"
  "has_card (s\<lparr>removal_requested := a\<rparr>) = has_card s" "has_card (s\<lparr>removal_waiters := c\<rparr>) = has_card s" "has_card (rp_emit es s) = has_card s"
  "has_card (s\<lparr>notified := a\<rparr>) = has_card s"
  "card_absent (s\<lparr>card_in := a\<rparr>) = card_absent s" "card_absent (s\<lparr>slot_control := b\<rparr>) = card_absent s" "card_absent (s\<lparr>slot_status := b\<rparr>) = card_absent s"
  "card_absent (s\<lparr>removal_requested := a\<rparr>) = card_absent s" "card_absent (s\<lparr>removal_waiters := c\<rparr>) = card_absent s"
  "card_absent (rp_emit es s) = card_absent s" "card_absent (s\<lparr>notified := a\<rparr>) = card_absent s"
  "port_level (s\<lparr>card_in := a\<rparr>) = port_level s" "port_level (s\<lparr>slot_control := b\<rparr>) = port_level s" "port_level (s\<lparr>slot_status := b\<rparr>) = port_level s"
  "port_level (s\<lparr>removal_requested := a\<rparr>) = port_level s" "port_level (s\<lparr>removal_waiters := c\<rparr>) = port_level s"
  "port_level (rp_emit es s) = port_level s" "port_level (s\<lparr>notified := a\<rparr>) = port_level s"
  "port_msi (s\<lparr>card_in := a\<rparr>) = port_msi s" "port_msi (s\<lparr>slot_control := b\<rparr>) = port_msi s" "port_msi (s\<lparr>slot_status := b\<rparr>) = port_msi s"
  "port_msi (s\<lparr>removal_requested := a\<rparr>) = port_msi s" "port_msi (s\<lparr>removal_waiters := c\<rparr>) = port_msi s" "port_msi (rp_emit es s) = port_msi s"
  "port_msi (s\<lparr>notified := a\<rparr>) = port_msi s"
  by (simp_all add: port_ok_def has_card_def card_absent_def port_level_def port_msi_def rp_emit_def)

lemma emit_simps [simp]:
  "rp_number (rp_emit es s) = rp_number s" "rp_template (rp_emit es s) = rp_template s" "rp_pci (rp_emit es s) = rp_pci s" "slot_control (rp_emit es s) = slot_control s"
  "slot_status (rp_emit es s) = slot_status s" "card_in (rp_emit es s) = card_in s" "removal_requested (rp_emit es s) = removal_requested s"
  "removal_waiters (rp_emit es s) = removal_waiters s" "notified (rp_emit es s) = notified s" "rp_log (rp_emit es s) = rp_log s @ es"
  by (simp_all add: rp_emit_def)

lemma removed_simps [simp]:
  "rp_number (removed s) = rp_number s" "rp_template (removed s) = rp_template s" "rp_pci (removed s) = rp_pci s" "slot_control (removed s) = slot_control s" "slot_status (removed s) = slot_status s"
  "card_in (removed s) = card_in s" "\<not> removal_requested (removed s)" "removal_waiters (removed s) = []" "notified (removed s) = notified s"
  "rp_log (removed s) = rp_log s @ map Resolved (removal_waiters s)" "port_ok (removed s) = port_ok s" "has_card (removed s) = has_card s"
  "card_absent (removed s) = card_absent s" "port_level (removed s) = port_level s" "port_msi (removed s) = port_msi s"
  by (simp_all add: removed_def)

lemmas slot_defs = card_shown_def removal_ok_def slot_bits_def powered_def safe_to_remove_def

text \<open>What holds at every moment; registers, interrupt and waiting callers may be behind while an operation runs.\<close>

definition slot_core :: "root_port \<Rightarrow> bool" where
  "slot_core s \<longleftrightarrow> port_ok s \<and> card_shown s \<and> slot_bits s"

definition slot_ok :: "root_port \<Rightarrow> bool" where
  "slot_ok s \<longleftrightarrow> slot_core s \<and> removal_ok s \<and> slot_shown s \<and> interrupt_shown s"

lemma events_bits: "(x OR y) AND SLTSTA_EVENTS = x OR y" if "x AND SLTSTA_EVENTS = x" "y AND SLTSTA_EVENTS = y" for x y :: i32
  using that by (simp add: bit.conj_disj_distrib2)

lemma slot_event_core:
  assumes "slot_core s" "ev AND SLTSTA_EVENTS = ev" shows "slot_core (slot_event route apic ev s)"
proof -
  have ok: "port_ok s" using assms(1) by (simp add: slot_core_def)
  note e = slot_event_ok [OF ok, where route = route and apic = apic and ev = ev]
  have "has_card (slot_event route apic ev s) = has_card s" by (rule port_evolves_ok(2) [OF e(1) ok])
  then show ?thesis using assms e events_bits [of "slot_status s" ev] by (simp add: slot_core_def slot_defs)
qed

lemma slot_event_removal [simp]: "removal_ok (slot_event route apic ev s) = removal_ok s"
  by (simp add: slot_defs)

lemma slot_event_slot_ok:
  assumes "slot_core s" "interrupt_shown s" "removal_ok s" "ev AND SLTSTA_EVENTS = ev" shows "slot_ok (slot_event route apic ev s)"
proof -
  have "port_ok s" using assms(1) by (simp add: slot_core_def)
  then show ?thesis using slot_event_core [OF assms(1,4)] slot_event_ok(5,6) assms(2,3) by (simp add: slot_ok_def)
qed

lemma insert_card_ok:
  assumes "slot_ok s" shows "slot_ok (snd (insert_card route apic s))"
proof (cases "has_card s \<and> \<not> card_in s")
  case True
  have c: "slot_core s" "port_ok s" "interrupt_shown s" using assms by (simp_all add: slot_ok_def slot_core_def)
  let ?s1 = "s\<lparr>card_in := True\<rparr>"
  have i1: "interrupt_shown ?s1" using c(3) by (simp add: interrupt_shown_def interrupt_active_def)
  have r: "removal_ok ?s1" "removal_ok (card_present route True ?s1)" using assms True by (auto simp: slot_ok_def slot_defs)
  show ?thesis
  proof (cases "powered ?s1")
    case pw: True
    note p = card_present_ok [of ?s1 route True]
    have "slot_core (card_present route True ?s1)"
      using c True pw p by (simp add: slot_core_def slot_defs)
    moreover have "interrupt_shown (card_present route True ?s1)"
      using i1 p c(2) True by (simp add: interrupt_shown_def interrupt_active_def)
    ultimately have "slot_ok (slot_event route apic (SLTSTA_PDC OR SLTSTA_DLLSC) (card_present route True ?s1))"
      using r(2) by (rule slot_event_slot_ok) simp
    then show ?thesis using True pw by (simp add: insert_card_def Let_def)
  next
    case pw: False
    have "slot_core ?s1" using c True pw by (simp add: slot_core_def slot_defs)
    then have "slot_ok (slot_event route apic (SLTSTA_PDC OR SLTSTA_ABP) ?s1)" using i1 r(1) by (rule slot_event_slot_ok) simp
    then show ?thesis using True pw by (simp add: insert_card_def Let_def)
  qed
next
  case False then show ?thesis using assms by (auto simp: insert_card_def)
qed

lemma emit_ok [simp]: "slot_ok (rp_emit es s) = slot_ok s"
  by (simp add: slot_ok_def slot_core_def slot_defs slot_shown_def interrupt_shown_def interrupt_active_def)

lemma removed_ok: "slot_core s \<Longrightarrow> slot_shown s \<Longrightarrow> interrupt_shown s \<Longrightarrow> slot_ok (removed s)"
  by (simp add: slot_ok_def slot_core_def slot_defs slot_shown_def interrupt_shown_def interrupt_active_def)

lemma remove_card_ok:
  assumes "slot_ok s" shows "slot_ok (remove_card route apic surprise w s)"
proof -
  have c: "slot_core s" "port_ok s" "interrupt_shown s" using assms by (simp_all add: slot_ok_def slot_core_def)
  consider "\<not> card_in s" | "card_in s" "surprise \<or> \<not> powered s" | "card_in s" "\<not> surprise" "powered s" by blast
  then show ?thesis
  proof cases
    case 1 then show ?thesis using assms by (simp add: remove_card_def)
  next
    case 2
    let ?s1 = "s\<lparr>card_in := False\<rparr>"
    let ?s2 = "card_present route False ?s1" and ?ev = "SLTSTA_PDC OR (if powered s then SLTSTA_DLLSC else 0)"
    have h: "has_card s" using c(1) 2(1) by (simp add: slot_core_def card_shown_def)
    note p = card_present_ok [of ?s1 route False]
    have k: "slot_core ?s2" "port_ok ?s2" using c(1,2) h p by (simp_all add: slot_core_def slot_defs)
    have i: "interrupt_shown ?s2" using c(2,3) h p by (simp add: interrupt_shown_def interrupt_active_def)
    have "slot_ok (removed (slot_event route apic ?ev ?s2))"
      using k i slot_event_core [of ?s2 ?ev route apic] slot_event_ok(5,6) [of ?s2 route apic ?ev] by (intro removed_ok) simp_all
    then show ?thesis using 2 by (simp add: remove_card_def Let_def)
  next
    case 3
    let ?s1 = "s\<lparr>removal_waiters := removal_waiters s @ [w], removal_requested := True\<rparr>"
    have k: "slot_core ?s1" "removal_ok ?s1" "interrupt_shown ?s1" "slot_shown ?s1"
      using c 3 assms by (simp_all add: slot_core_def slot_ok_def slot_defs interrupt_shown_def interrupt_active_def slot_shown_def)
    have "slot_ok (slot_event route apic SLTSTA_ABP ?s1)" using k(1,3,2) by (rule slot_event_slot_ok) simp
    moreover have "slot_ok (s\<lparr>removal_waiters := removal_waiters s @ [w]\<rparr>)" if r: "removal_requested s"
    proof -
      have e: "s\<lparr>removal_waiters := removal_waiters s @ [w]\<rparr> = ?s1" using r by simp
      have "slot_ok ?s1" using k by (simp add: slot_ok_def)
      then show ?thesis by (subst e)
    qed
    ultimately show ?thesis using 3 by (cases "removal_requested s") (simp_all add: remove_card_def Let_def)
  qed
qed

lemma pin_ok:
  fixes s t route level assumes "port_ok s" "t = s\<lparr>rp_pci := set_irq_level route (port_id s) level (rp_pci s)\<rparr>"
  shows "port_evolves s t" "port_ok t" "has_card t = has_card s" "card_absent t = card_absent s" "port_level t = level" "port_msi t = port_msi s" "slot_shown t = slot_shown s"
proof -
  show e: "port_evolves s t" using irq_level_evolves assms by (simp add: port_evolves_def port_ok_def)
  show ok: "port_ok t" "has_card t = has_card s" using port_evolves_ok [OF e assms(1)] by simp_all
  show "card_absent t = card_absent s" "port_level t = level" using assms(2) by (simp_all add: card_absent_def port_level_def)
  have b: "k \<ge> 8 \<Longrightarrow> port_bytes t ! k = port_bytes s ! k" for k using assms(2) irq_level_upper by simp
  then show "port_msi t = port_msi s" using port_msi_byte [OF ok(1)] port_msi_byte [OF assms(1)] by simp
  have "k \<ge> 8 \<Longrightarrow> get16 (port_bytes t) k = get16 (port_bytes s) k" for k using b by (simp add: get16_def)
  then show "slot_shown t = slot_shown s" using assms(2) by (simp add: slot_shown_def powered_def)
qed

lemma port_reset_ok:
  assumes "slot_ok s" shows "slot_ok (port_reset route s)"
proof -
  have c: "slot_core s" "port_ok s" using assms by (simp_all add: slot_ok_def slot_core_def)
  let ?s1 = "rp_emit (map Rejected (removal_waiters s)) (s\<lparr>slot_control := if card_in s then SLTCTL_RESET_OCCUPIED else SLTCTL_RESET_EMPTY,
    slot_status := 0, notified := False, removal_requested := False, removal_waiters := []\<rparr>)"
  let ?s2 = "if card_in s \<and> \<not> powered s then card_present route True ?s1 else ?s1"
  let ?s3 = "store_slot ?s2" let ?t = "?s3\<lparr>rp_pci := pci_lower_irq route (port_id ?s3) (rp_pci ?s3)\<rparr>"
  have h: "card_in s \<Longrightarrow> has_card s" using c(1) by (simp add: slot_core_def card_shown_def)
  note p = card_present_ok [of ?s1 route True]
  have c2: "slot_core ?s2" "removal_ok ?s2" "port_ok ?s2" using c h p by (auto simp: slot_core_def slot_defs)
  note st = store_slot_ok [OF c2(3)] and pn = pin_ok [OF store_slot_ok(4) [OF c2(3)], where t = ?t and route = route and level = False]
  have h3: "has_card ?s3 = has_card ?s2" by (rule port_evolves_ok(2) [OF st(1) c2(3)])
  have c3: "slot_core ?s3" "removal_ok ?s3" using c2(1,2) st(4) h3 by (simp_all add: slot_core_def slot_defs)
  have f: "slot_control ?s2 = (if card_in s then SLTCTL_RESET_OCCUPIED else SLTCTL_RESET_EMPTY)" "slot_status ?s2 = 0" "\<not> notified ?s2" by simp_all
  have "slot_core ?t" "removal_ok ?t" using c3 pn by (simp_all add: slot_core_def slot_defs pci_lower_irq_def)
  moreover have "slot_shown ?t" using st(2) pn(7) by (simp add: pci_lower_irq_def)
  moreover have "interrupt_shown ?t" using pn(5) f by (simp add: interrupt_shown_def interrupt_active_def pci_lower_irq_def)
  moreover have "port_reset route s = ?t" by (simp add: port_reset_def Let_def powered_def)
  ultimately show ?thesis by (simp add: slot_ok_def)
qed

lemma slot_control_written_ok:
  fixes s v route apic assumes "slot_core s" "removal_ok s"
  shows "slot_core (slot_control_written route apic v s)" "removal_ok (slot_control_written route apic v s)" "slot_shown (slot_control_written route apic v s)"
    "port_evolves s (slot_control_written route apic v s)"
proof -
  let ?s1 = "s\<lparr>slot_control := v AND SLTCTL_WRITABLE\<rparr>"
  let ?sw = "card_in s \<and> powered s \<noteq> powered ?s1"
  let ?s2 = "if ?sw then card_present route (powered ?s1) ?s1 else ?s1"
  let ?lv = "card_in s \<and> removal_requested s \<and> safe_to_remove ?s1"
  let ?s3 = "if ?lv then removed (?s2\<lparr>card_in := False\<rparr>) else ?s2"
  let ?ev = "SLTSTA_CC OR (if ?sw then SLTSTA_DLLSC else 0) OR (if ?lv then SLTSTA_PDC else 0)"
  have ok: "port_ok s" "card_shown s" "slot_bits s" using assms(1) by (simp_all add: slot_core_def)
  have h: "card_in s \<Longrightarrow> has_card s" using ok(2) by (simp add: card_shown_def)
  have p: "port_ok (card_present route b ?s1)" "has_card (card_present route b ?s1)" "card_absent (card_present route b ?s1) = (\<not> b)" if "card_in s" for b
    using card_present_ok [of ?s1 route b] ok(1) h [OF that] by simp_all
  have e: "slot_control_written route apic v s = slot_event route apic ?ev (store_slot ?s3)"
    by (simp add: slot_control_written_def Let_def safe_to_remove_def powered_def)
  have ok2: "port_ok ?s2" and ok3: "port_ok ?s3" using ok(1) p(1) by simp_all
  have "card_shown ?s2" using ok(2) p by (auto simp: slot_defs)
  then have "slot_core ?s2" using ok2 ok(3) by (simp add: slot_core_def slot_bits_def)
  then have "slot_core ?s3" by (auto simp: slot_core_def slot_defs)
  moreover have "has_card (store_slot ?s3) = has_card ?s3" by (rule port_evolves_ok(2) [OF store_slot_ok(1) [OF ok3] ok3])
  ultimately have c3: "slot_core (store_slot ?s3)" using store_slot_ok(4) [OF ok3] by (simp add: slot_core_def slot_defs)
  have "?ev AND SLTSTA_EVENTS = ?ev" by simp
  from slot_event_core [OF c3 this] show "slot_core (slot_control_written route apic v s)" unfolding e .
  show "slot_shown (slot_control_written route apic v s)" unfolding e by (rule slot_event_ok(5) [OF store_slot_ok(4) [OF ok3]])
  have "removal_ok ?s3" using assms(2) by (auto simp: slot_defs)
  then show "removal_ok (slot_control_written route apic v s)" unfolding e by (simp add: slot_defs)
  have e1: "port_evolves s ?s1" by (rule port_evolves_same [OF ok(1)]) simp_all
  then have "port_evolves s ?s2" using port_evolves_trans [OF e1 card_present_ok(1) [of ?s1 route]] ok(1) h by simp
  moreover have "port_evolves s (removed (x\<lparr>card_in := False\<rparr>)) = port_evolves s x" for x by (simp add: port_evolves_def)
  ultimately have e3: "port_evolves s ?s3" by (simp only: if_splits) blast
  show "port_evolves s (slot_control_written route apic v s)"
    unfolding e by (rule port_evolves_trans [OF port_evolves_trans [OF e3 store_slot_ok(1) [OF ok3]] slot_event_ok(1) [OF store_slot_ok(4) [OF ok3]]])
qed

lemma masked_bytes_nth:
  "length (masked_bytes t offset sz bs) = length bs" "k < 0x40 \<or> k < offset \<or> offset + sz \<le> k \<Longrightarrow> masked_bytes t offset sz bs ! k = bs ! k"
proof -
  have "length (fold (\<lambda>k xs. xs[k := f k xs]) ks bs) = length bs \<and> (k \<notin> set ks \<longrightarrow> fold (\<lambda>k xs. xs[k := f k xs]) ks bs ! k = bs ! k)"
    for ks :: "nat list" and f :: "nat \<Rightarrow> u8 list \<Rightarrow> u8" by (induction ks arbitrary: bs) auto
  then show "length (masked_bytes t offset sz bs) = length bs" "k < 0x40 \<or> k < offset \<or> offset + sz \<le> k \<Longrightarrow> masked_bytes t offset sz bs ! k = bs ! k"
    by (auto simp: masked_bytes_def)
qed

lemma upper_core:
  assumes "slot_core s" "length cs = length (port_bytes s)" "\<And>k. k < 0x40 \<Longrightarrow> cs ! k = port_bytes s ! k"
  shows "slot_core (set_port_bytes cs s)"
proof -
  have ok: "port_ok s" using assms(1) by (simp add: slot_core_def)
  note e = upper_evolves [OF ok assms(2,3)]
  show ?thesis using assms(1) port_evolves_ok [OF e ok] by (simp add: slot_core_def slot_defs)
qed

lemma msi_written_bytes: "s\<lparr>rp_pci := msi_config_written (port_id s) MSI_CAP nxt (rp_pci s)\<rparr> =
    set_port_bytes (let bs = port_bytes s in bs[0x80 := 5, 0x81 := nxt, 0x82 := bs ! 0x82 AND 1 OR 0x80, 0x83 := 0, 0x84 := bs ! 0x84 AND NOT 3]) s"
  by (simp add: msi_config_written_def set_port_bytes_def Let_def)

lemma config_written_ok:
  assumes "slot_core s" "removal_ok s" shows "slot_ok (config_written route apic offset sz s)" "port_evolves s (config_written route apic offset sz s)"
proof -
  let ?s1 = "set_port_bytes (masked_bytes (rp_template s) offset sz (port_bytes s)) s"
  define s2 where "s2 = (if offset < MSI_CAP + 14 \<and> offset + sz > MSI_CAP
    then ?s1\<lparr>rp_pci := msi_config_written (port_id ?s1) MSI_CAP 0x90 (rp_pci ?s1)\<rparr> else ?s1)"
  have c1: "slot_core ?s1" by (rule upper_core [OF assms(1)]) (simp_all add: masked_bytes_nth)
  have ok: "port_ok s" "port_ok ?s1" using assms(1) c1 by (simp_all add: slot_core_def)
  have e1: "port_evolves s ?s1" by (rule upper_evolves [OF ok(1)]) (simp_all add: masked_bytes_nth)
  have "slot_core s2 \<and> removal_ok s2 \<and> port_evolves s s2"
  proof (cases "offset < MSI_CAP + 14 \<and> offset + sz > MSI_CAP")
    case True
    have "slot_core s2" unfolding s2_def msi_written_bytes if_P [OF True] by (rule upper_core [OF c1]) (simp_all add: Let_def)
    moreover have "port_evolves ?s1 s2" unfolding s2_def msi_written_bytes if_P [OF True] by (rule upper_evolves [OF ok(2)]) (simp_all add: Let_def)
    ultimately show ?thesis using assms(2) port_evolves_trans [OF e1] by (simp add: s2_def msi_written_bytes slot_defs)
  next
    case False then show ?thesis using c1 e1 assms(2) unfolding s2_def if_not_P [OF False] by (simp add: slot_defs)
  qed
  then have c2: "slot_core s2" "removal_ok s2" "port_evolves s s2" by simp_all
  define cl where "cl = (if offset \<le> SLTSTA \<and> SLTSTA < offset + sz then ucast (port_bytes s ! SLTSTA) else 0) OR
    (if offset \<le> SLTSTA + 1 \<and> SLTSTA + 1 < offset + sz then push_bit 8 (ucast (port_bytes s ! (SLTSTA + 1))) else 0 :: i32)"
  let ?u = "s2\<lparr>slot_status := slot_status s2 AND NOT (cl AND SLTSTA_EVENTS)\<rparr>" let ?s3 = "store_slot ?u"
  have u: "port_ok ?u" using c2(1) by (simp add: slot_core_def)
  have "slot_core ?u"
  proof -
    have "slot_status s2 AND SLTSTA_EVENTS = slot_status s2" using c2(1) by (simp add: slot_core_def slot_bits_def)
    then have "(slot_status s2 AND x) AND SLTSTA_EVENTS = slot_status s2 AND x" for x by (metis and.assoc and.commute)
    then show ?thesis using c2(1) by (simp add: slot_core_def slot_defs)
  qed
  moreover have "has_card ?s3 = has_card ?u" by (rule port_evolves_ok(2) [OF store_slot_ok(1) [OF u] u])
  ultimately have c3: "slot_core ?s3" "removal_ok ?s3" "slot_shown ?s3" using c2(2) store_slot_ok(2,4) [OF u] by (simp_all add: slot_core_def slot_defs)
  define s4 where "s4 = (if (offset \<le> SLTCTL \<and> SLTCTL < offset + sz) \<or> (offset \<le> SLTCTL + 1 \<and> SLTCTL + 1 < offset + sz)
    then slot_control_written route apic (get16 (port_bytes s) SLTCTL) ?s3 else ?s3)"
  have c4: "slot_core s4" "removal_ok s4" "slot_shown s4" using c3 slot_control_written_ok [OF c3(1,2)] by (simp_all add: s4_def)
  have e: "config_written route apic offset sz s = update_interrupt route apic s4"
    by (simp add: config_written_def Let_def s4_def s2_def cl_def)
  have ok4: "port_ok s4" using c4(1) by (simp add: slot_core_def)
  note up = update_interrupt_ok [OF ok4, where route = route and apic = apic]
  have "has_card (update_interrupt route apic s4) = has_card s4" by (rule port_evolves_ok(2) [OF up(1) ok4])
  then show "slot_ok (config_written route apic offset sz s)" unfolding e using c4 up by (simp add: slot_ok_def slot_core_def slot_defs)
  have "port_evolves s ?u" using c2(3) by (simp add: port_evolves_def)
  then have "port_evolves s ?s3" by (rule port_evolves_trans [OF _ store_slot_ok(1) [OF u]])
  then have "port_evolves s s4" using port_evolves_trans [OF _ slot_control_written_ok(4) [OF c3(1,2)]] by (simp add: s4_def)
  then show "port_evolves s (config_written route apic offset sz s)" unfolding e by (rule port_evolves_trans [OF _ up(1)])
qed

section \<open>Guest and host\<close>

text \<open>A configuration write that reaches a function; the port hears of one to its own space.\<close>

definition port_config_write :: "irq_route \<Rightarrow> apic \<Rightarrow> nat option \<Rightarrow> nat \<Rightarrow> nat \<Rightarrow> i32 \<Rightarrow> root_port \<Rightarrow> root_port" where
  "port_config_write route apic t offset sz v s =
     (let s1 = s\<lparr>rp_pci := function_write route t offset sz v (rp_pci s)\<rparr>
      in if t = Some (port_id s) \<and> notifies (rp_pci s) (port_id s) offset sz then config_written route apic offset sz s1 else s1)"

datatype slot_action =
    Guest_Write nat nat nat i32
  | Insert_Card
  | Remove_Card bool nat
  | Reset_Port
  | Other_Pin nat bool
  | Other_Register nat nat u8

fun port_step :: "irq_route \<Rightarrow> apic \<Rightarrow> slot_action \<Rightarrow> root_port \<Rightarrow> root_port option" where
  "port_step route apic (Guest_Write bdf offset sz v) s = map_option (\<lambda>t. port_config_write route apic t offset sz v s) (route_config (rp_pci s) bdf)"
| "port_step route apic Insert_Card s = Some (snd (insert_card route apic s))"
| "port_step route apic (Remove_Card surprise w) s = Some (remove_card route apic surprise w s)"
| "port_step route apic Reset_Port s = Some (port_reset route s)"
| "port_step route apic (Other_Pin i level) s = Some (s\<lparr>rp_pci := set_irq_level route i level (rp_pci s)\<rparr>)"
| "port_step route apic (Other_Register i k b) s = Some (s\<lparr>rp_pci := own_register i k b (rp_pci s)\<rparr>)"

text \<open>Accesses are of one, two or four bytes; pins and registers are those of other functions.\<close>

fun slot_action_ok :: "nat \<Rightarrow> slot_action \<Rightarrow> bool" where
  "slot_action_ok number (Guest_Write bdf offset sz v) = (sz \<in> {1, 2, 4})"
| "slot_action_ok number (Other_Pin i level) = (i \<noteq> port_fn number)"
| "slot_action_ok number (Other_Register i k b) = (i \<noteq> port_fn number)"
| "slot_action_ok number a = True"

fun port_run :: "irq_route \<Rightarrow> apic \<Rightarrow> slot_action list \<Rightarrow> root_port \<Rightarrow> root_port option" where
  "port_run route apic [] s = Some s"
| "port_run route apic (a # as) s = (case port_step route apic a s of None \<Rightarrow> None | Some t \<Rightarrow> port_run route apic as t)"

text \<open>The bus may change elsewhere.\<close>

lemma elsewhere_ok:
  fixes s t p assumes "slot_core s" "t = s\<lparr>rp_pci := p\<rparr>" "evolves (rp_pci s) p" "absent p = absent (rp_pci s)"
  shows "slot_core t" "removal_ok t = removal_ok s"
    "intx_levels p = intx_levels (rp_pci s) \<or> js_get False (intx_levels p) (port_id s) = js_get False (intx_levels (rp_pci s)) (port_id s) \<Longrightarrow>
     (\<And>k. 0x40 \<le> k \<Longrightarrow> k < 256 \<Longrightarrow> space_bytes p (port_id s) ! k = port_bytes s ! k) \<Longrightarrow> slot_ok s \<Longrightarrow> slot_ok t"
proof -
  have ok: "port_ok s" using assms(1) by (simp add: slot_core_def)
  have e: "port_evolves s t" using assms(2,3) by (simp add: port_evolves_def)
  note o = port_evolves_ok [OF e ok]
  have a: "card_absent t = card_absent s" using assms(2,4) by (simp add: card_absent_def)
  show c: "slot_core t" using assms(1,2) o a by (simp add: slot_core_def slot_defs)
  show r: "removal_ok t = removal_ok s" using assms(2) by (simp add: slot_defs)
  assume l: "intx_levels p = intx_levels (rp_pci s) \<or> js_get False (intx_levels p) (port_id s) = js_get False (intx_levels (rp_pci s)) (port_id s)"
    and b: "\<And>k. 0x40 \<le> k \<Longrightarrow> k < 256 \<Longrightarrow> space_bytes p (port_id s) ! k = port_bytes s ! k" and s: "slot_ok s"
  have "port_msi t = port_msi s" using port_msi_byte [OF o(1)] port_msi_byte [OF ok] b assms(2) by simp
  moreover have "port_level t = port_level s" using l assms(2) by (auto simp: port_level_def)
  moreover have "get16 (port_bytes t) k = get16 (port_bytes s) k" if "0x40 \<le> k" "k < 255" for k using that b assms(2) by (simp add: get16_def)
  ultimately show "slot_ok t" using s c r assms(2) by (simp add: slot_ok_def slot_shown_def interrupt_shown_def interrupt_active_def powered_def)
qed

lemma unheard_write:
  assumes "pci_wf p" "space_of p i \<noteq> None" "t = Some i \<longrightarrow> \<not> notifies p i offset sz" "sz \<le> 4" "0x40 \<le> k" "k < 256"
  shows "space_bytes (function_write route t offset sz v p) i ! k = space_bytes p i ! k"
proof (cases "t = Some i \<and> offset + sz > length (space_bytes p i)")
  case True
  then have "function_write route t offset sz v p = p" by (auto simp: function_write_def space_bytes_def split: option.split)
  then show ?thesis by simp
next
  case False
  have l: "length (space_bytes p i) \<ge> 256" by (rule bytes_length [OF assms(1,2)])
  show ?thesis
  proof (rule function_write_keeps [OF assms(5) _ assms(2)])
    show "k < length (space_bytes p i)" using l assms(6) by simp
    show "\<not> (offset \<le> k \<and> k < offset + sz)" if t: "t = Some i"
    proof -
      obtain bs where bs: "space_of p i = Some bs" using assms(2) by blast
      have "is_bar_offset (is_bridge p i) offset \<or> offset + sz \<le> 0x40"
        using assms(3) t False bs by (auto simp: notifies_def space_bytes_def)
      moreover have "offset < 0x34" if "is_bar_offset (is_bridge p i) offset" using that by (auto simp: is_bar_offset_def split: if_splits)
      ultimately show ?thesis using assms(4,5) by auto
    qed
  qed
qed

lemma port_config_write_ok:
  assumes "slot_ok s" "sz \<le> 4" shows "slot_ok (port_config_write route apic t offset sz v s)" "port_evolves s (port_config_write route apic t offset sz v s)"
proof -
  let ?p = "rp_pci s" and ?q = "function_write route t offset sz v (rp_pci s)" let ?s1 = "s\<lparr>rp_pci := ?q\<rparr>"
  have c: "slot_core s" "removal_ok s" "port_ok s" using assms(1) by (simp_all add: slot_ok_def slot_core_def)
  have m: "machine_ok ?p" "pci_wf ?p" "space_of ?p (port_id s) \<noteq> None" using c(3) by (simp_all add: port_ok_def machine_ok_def)
  note el = elsewhere_ok [OF c(1), where t = ?s1 and p = ?q, OF refl function_write_evolves [OF m(1) assms(2)] function_write_absent [OF m(2) assms(2)]]
  have ev: "port_evolves s ?s1" using function_write_evolves [OF m(1) assms(2)] by (simp add: port_evolves_def)
  have "removal_ok ?s1" using el(2) c(2) by simp
  note cw = config_written_ok [OF el(1) this, of route apic offset sz]
  show "port_evolves s (port_config_write route apic t offset sz v s)" using ev port_evolves_trans [OF ev cw(2)]
    by (simp only: port_config_write_def Let_def split: if_split) blast
  show "slot_ok (port_config_write route apic t offset sz v s)"
  proof (cases "t = Some (port_id s) \<and> notifies ?p (port_id s) offset sz")
    case True
    then show ?thesis using cw(1) by (simp add: port_config_write_def Let_def)
  next
    case False
    have "slot_ok ?s1" using function_write_levels [OF m(2)] unheard_write [OF m(2,3) _ assms(2)] False
      by (intro el(3) assms(1)) auto
    then show ?thesis unfolding port_config_write_def Let_def if_not_P [OF False] .
  qed
qed

lemma port_step_ok:
  assumes "slot_ok s" "slot_action_ok (rp_number s) a" shows "\<exists>t. port_step route apic a s = Some t \<and> slot_ok t"
proof -
  have c: "slot_core s" "port_ok s" "machine_ok (rp_pci s)" using assms(1) by (simp_all add: slot_ok_def slot_core_def port_ok_def)
  have wf: "pci_wf (rp_pci s)" "topology_ok (rp_pci s)" using c(3) by (simp_all add: machine_ok_def)
  show ?thesis
  proof (cases a)
    case (Guest_Write bdf offset sz v)
    then have "sz \<le> 4" using assms(2) by auto
    moreover obtain r where "route_config (rp_pci s) bdf = Some r" using route_config_total [OF wf(2), of bdf] by blast
    ultimately show ?thesis using Guest_Write port_config_write_ok(1) [OF assms(1)] by simp
  next
    case (Other_Pin i level)
    then have n: "port_id s \<noteq> i" using assms(2) by auto
    have "slot_ok (s\<lparr>rp_pci := set_irq_level route i level (rp_pci s)\<rparr>)"
      using n set_irq_level_other [OF n] by (intro elsewhere_ok(3) [OF c(1) refl irq_level_evolves [OF c(3)]] assms(1)) (auto simp: space_bytes_def)
    then show ?thesis using Other_Pin by simp
  next
    case (Other_Register i k b)
    then have n: "port_id s \<noteq> i" using assms(2) by auto
    have "evolves (rp_pci s) (own_register i k b (rp_pci s))" using pci_step_ok [OF c(3), of "Own_Register i k b" route] by simp
    then have "slot_ok (s\<lparr>rp_pci := own_register i k b (rp_pci s)\<rparr>)"
      using n by (intro elsewhere_ok(3) [OF c(1) refl] assms(1)) (auto simp: own_register_def space_bytes_def split: option.split)
    then show ?thesis using Other_Register by simp
  qed (use assms insert_card_ok remove_card_ok port_reset_ok in auto)
qed

section \<open>Promises\<close>

fun promise :: "port_effect \<Rightarrow> nat" where
  "promise (Resolved w) = w"
| "promise (Rejected w) = w"

text \<open>The promises given out: those settled and those waiting.\<close>

definition promises :: "root_port \<Rightarrow> nat multiset" where
  "promises s = mset (map promise (rp_log s)) + mset (removal_waiters s)"

fun asked :: "slot_action \<Rightarrow> nat list" where
  "asked (Remove_Card surprise w) = [w]"
| "asked a = []"

lemma promise_map [simp]: "map (promise \<circ> Resolved) ws = ws" "map (promise \<circ> Rejected) ws = ws"
  "image_mset promise (image_mset Resolved M) = M" "image_mset promise (image_mset Rejected M) = M"
  by (simp_all add: comp_def image_mset.compositionality)

lemma promises_simps [simp]:
  "promises (store_slot s) = promises s" "promises (update_interrupt route apic s) = promises s" "promises (slot_event route apic ev s) = promises s"
  "promises (card_present route b s) = promises s" "promises (removed s) = promises s" "promises (set_port_bytes cs s) = promises s"
  "promises (s\<lparr>rp_pci := p\<rparr>) = promises s" "promises (s\<lparr>slot_status := x\<rparr>) = promises s" "promises (s\<lparr>slot_control := x\<rparr>) = promises s"
  "promises (s\<lparr>card_in := c\<rparr>) = promises s"
  by (simp_all add: promises_def)

lemma slot_control_written_promises [simp]: "promises (slot_control_written route apic v s) = promises s"
  by (simp add: slot_control_written_def Let_def)

lemma config_written_promises [simp]: "promises (config_written route apic offset sz s) = promises s"
  by (simp add: config_written_def Let_def)

lemma port_step_promises:
  assumes "port_step route apic a s = Some t" shows "promises t = promises s + mset (asked a)" "rp_number t = rp_number s"
proof -
  have n: "rp_number (slot_control_written route apic v u) = rp_number u" for v u by (simp add: slot_control_written_def Let_def)
  have w: "rp_number (port_config_write route apic r offset sz v s) = rp_number s" for r offset sz v
    by (simp add: port_config_write_def config_written_def Let_def n)
  show "rp_number t = rp_number s" using assms w
    by (cases a) (auto simp: insert_card_def remove_card_def port_reset_def Let_def)
  show "promises t = promises s + mset (asked a)"
  proof (cases a)
    case (Remove_Card surprise w)
    then have t: "t = remove_card route apic surprise w s" using assms by simp
    show ?thesis unfolding t Remove_Card by (auto simp: remove_card_def Let_def promises_def)
  next
    case Reset_Port
    then have t: "t = port_reset route s" using assms by simp
    show ?thesis unfolding t Reset_Port by (simp add: port_reset_def Let_def) (simp add: promises_def)
  qed (use assms in \<open>auto simp: insert_card_def Let_def port_config_write_def\<close>)
qed

lemma port_run_ok:
  assumes "slot_ok s" "list_all (slot_action_ok (rp_number s)) as"
  shows "\<exists>t. port_run route apic as s = Some t \<and> slot_ok t \<and> rp_number t = rp_number s \<and> promises t = promises s + mset (concat (map asked as))"
  using assms
proof (induction as arbitrary: s)
  case (Cons a as)
  from port_step_ok [OF Cons.prems(1), of a route apic] Cons.prems(2)
  obtain u where u: "port_step route apic a s = Some u" "slot_ok u" by auto
  note pr = port_step_promises [OF u(1)]
  have "list_all (slot_action_ok (rp_number u)) as" using Cons.prems(2) pr(2) by simp
  from Cons.IH [OF u(2) this] show ?case using u(1) pr by (auto simp: ac_simps)
qed simp

section \<open>The port as it is built\<close>

inductive port_built :: "root_port \<Rightarrow> bool" where
  new_port: "built p \<Longrightarrow> number < 6 \<Longrightarrow> (\<And>q. subsystem = Some q \<Longrightarrow> length q = 4) \<Longrightarrow>
     register_ok (port_fn number) (port_function number) (port_space number cnt subsystem) 4096 p \<Longrightarrow> port_built (PCIeRootPort number cnt subsystem p)"
| other_ports: "port_built s \<Longrightarrow> port_built (s\<lparr>rp_pci := (rp_pci s)\<lparr>ports := f\<rparr>\<rparr>)"
| other_function: "port_built s \<Longrightarrow> register_ok i d sp cs (rp_pci s) \<Longrightarrow> (i = card_id s \<Longrightarrow> pci_secondary_bus d = None) \<Longrightarrow>
     port_built (s\<lparr>rp_pci := register_device i d sp cs (rp_pci s)\<rparr>)"

lemma splice_nth: "k + length xs \<le> length bs \<Longrightarrow> m < length bs \<Longrightarrow> splice k xs bs ! m = (if k \<le> m \<and> m < k + length xs then xs ! (m - k) else bs ! m)"
  "k + length xs \<le> length bs \<Longrightarrow> length (splice k xs bs) = length bs"
  by (auto simp: splice_def nth_append)

lemma put_bytes_length [simp]: "length (put_bytes k n v bs) = length bs"
proof -
  have "length (fold (\<lambda>i xs. xs[k + i := f i]) ns bs) = length bs" for ns :: "nat list" and f :: "nat \<Rightarrow> u8" by (induction ns arbitrary: bs) auto
  then show ?thesis by (simp add: put_bytes_def)
qed

lemma port_space_facts:
  assumes "\<And>q. subsystem = Some q \<Longrightarrow> length q = 4"
  shows "length (port_space number cnt subsystem) = 256" "port_space number cnt subsystem ! 0x82 = 0x80"
proof -
  have l: "length (case subsystem of Some q \<Rightarrow> q | None \<Rightarrow> [a, b, c, d]) = 4" for a b c d :: u8 using assms by (cases subsystem) auto
  show "length (port_space number cnt subsystem) = 256" by (simp add: port_space_def Let_def splice_nth l msi_capability_def)
  show "port_space number cnt subsystem ! 0x82 = 0x80"
    by (simp add: port_space_def Let_def splice_nth l msi_capability_def)
qed


lemma built_absent: "built s \<Longrightarrow> absent s = []"
proof (induction rule: built.induct)
  case empty_bus then show ?case by (simp add: PCI_def)
next
  case (register_function s i d sp cs)
  have "absent (register_bar i nr u) = absent u" for nr u
    using update_io_bar_frame by (auto simp: register_bar_def Let_def io_frame_def same_config_def split: option.split)
  then have "absent (fold (register_bar i) nrs u) = absent u" for nrs u by (induction nrs arbitrary: u) simp_all
  then show ?case using register_function by (simp add: register_device_def)
qed simp

lemma register_bridge:
  assumes "built s" "register_ok i d sp cs s"
  shows "is_bridge (register_device i d sp cs s) j = (if j = i then pci_secondary_bus d \<noteq> None else is_bridge s j)"
proof -
  let ?u = "add_function i d (sp @ replicate (cs - length sp) 0) s"
  have m: "pci_wf s" "topology_ok s" using built_ok [OF assms(1)] by (simp_all add: machine_ok_def)
  have "pci_wf ?u" using add_function_wf [OF m assms(2)] by simp
  then have "pci_shape ?u (register_device i d sp cs s)" using register_bars_wf by (simp add: register_device_def)
  then have "is_bridge (register_device i d sp cs s) j = is_bridge ?u j" by (rule pci_shape_simps(3))
  then show ?thesis by (simp add: is_bridge_def)
qed

lemma port_built_facts:
  assumes "port_built s"
  shows "built (rp_pci s) \<and> rp_number s < 6 \<and> \<not> is_bridge (rp_pci s) (card_id s) \<and>
    (\<exists>bs. space_of (rp_pci s) (port_id s) = Some bs \<and> bs ! 0x82 = 0x80) \<and> slot_status s = 0 \<and> \<not> removal_requested s \<and>
    removal_waiters s = [] \<and> \<not> notified s \<and> rp_log s = []"
  using assms
proof induction
  case (new_port p number subsystem cnt)
  let ?sp = "port_space number cnt subsystem"
  have b: "built (register_device (port_fn number) (port_function number) ?sp 4096 p)" by (rule register_function [OF new_port(1,4)])
  have "is_bridge (register_device (port_fn number) (port_function number) ?sp 4096 p) (card_fn number) = is_bridge p (card_fn number)"
    using card_not_port(1) [OF new_port(2)] register_bridge [OF new_port(1,4)] by simp
  moreover have "device_of p (card_fn number) = None" using new_port(4)
    by (simp add: register_ok_def port_function_def card_fn_def list_all_iff) (metis (no_types, lifting) add.commute add_0 atLeastLessThan_iff zero_le zero_less_numeral mult.commute)
  then have "\<not> is_bridge p (card_fn number)" by (simp add: is_bridge_def)
  ultimately show ?case using b new_port(2) port_space_facts [OF new_port(3), where number = number and cnt = cnt]
    by (simp add: PCIeRootPort_def Let_def register_spaces nth_append)
next
  case (other_ports s f) then show ?case by (auto intro: register_ports simp: is_bridge_def)
next
  case (other_function s i d sp cs)
  then obtain bs where bs: "space_of (rp_pci s) (port_id s) = Some bs" "bs ! 0x82 = 0x80" by blast
  have n: "i \<noteq> port_id s" using other_function(2) bs by (auto simp: register_ok_def)
  have "is_bridge (register_device i d sp cs (rp_pci s)) (card_id s) = (if card_id s = i then pci_secondary_bus d \<noteq> None else is_bridge (rp_pci s) (card_id s))"
    using register_bridge other_function by blast
  then show ?case using other_function bs n by (auto simp: register_spaces intro: register_function)
qed

lemma slot_setup_ok:
  assumes "port_built s" shows "slot_ok (slot_setup route plugged s)" "rp_number (slot_setup route plugged s) = rp_number s" "promises (slot_setup route plugged s) = {#}"
proof -
  from port_built_facts [OF assms] obtain bs where f: "built (rp_pci s)" "rp_number s < 6" "\<not> is_bridge (rp_pci s) (card_id s)"
    "space_of (rp_pci s) (port_id s) = Some bs" "bs ! 0x82 = 0x80" "slot_status s = 0" "\<not> removal_requested s" "removal_waiters s = []" "\<not> notified s" "rp_log s = []"
    by blast
  have ok: "port_ok s" using f built_ok [OF f(1)] by (simp add: port_ok_def)
  have msi: "\<not> port_msi s" using f port_msi_byte [OF ok] by (simp add: space_bytes_def)
  have lv: "\<not> port_level s" "\<not> card_absent s" using built_levels [OF f(1)] built_absent [OF f(1)] by (simp_all add: port_level_def card_absent_def js_get_def)
  let ?c = "has_card s \<and> plugged"
  let ?s1 = "s\<lparr>card_in := ?c\<rparr>"
  let ?s2 = "if has_card s \<and> \<not> plugged then card_present route False ?s1 else ?s1"
  let ?s3 = "?s2\<lparr>slot_control := if ?c then SLTCTL_RESET_OCCUPIED else SLTCTL_RESET_EMPTY\<rparr>"
  have e: "slot_setup route plugged s = store_slot ?s3" by (auto simp: slot_setup_def Let_def)
  note p = card_present_ok [of "s\<lparr>card_in := False\<rparr>" route False]
  have ok3: "port_ok ?s3" using ok p by simp
  have h3: "has_card (store_slot ?s3) = has_card ?s3" by (rule port_evolves_ok(2) [OF store_slot_ok(1) [OF ok3] ok3])
  have "card_shown ?s3" using ok p lv by (auto simp: slot_defs)
  then have "slot_core ?s3" using ok3 f(6) by (auto simp: slot_core_def slot_bits_def)
  then have c: "slot_core (store_slot ?s3)" using store_slot_ok(4) [OF ok3] h3 by (simp add: slot_core_def slot_defs)
  have i: "interrupt_shown (store_slot ?s3)"
    using store_slot_ok(3) [OF ok3] f(6,9) lv p ok by (auto simp: interrupt_shown_def interrupt_active_def)
  show "slot_ok (slot_setup route plugged s)"
    unfolding e slot_ok_def using c i store_slot_ok(2) [OF ok3] f(7,8) by (simp add: slot_defs)
  show "rp_number (slot_setup route plugged s) = rp_number s" unfolding e by simp
  show "promises (slot_setup route plugged s) = {#}" unfolding e using f(8,10) by (simp add: promises_def)
qed

text \<open>A port whose slot is right to begin with; \<open>route\<close> and \<open>apic\<close> are the machine's.\<close>

locale hot_plug_slot =
  fixes route :: irq_route and apic :: apic and s0 :: root_port
  assumes start: "slot_ok s0"
begin

lemma run_slot:
  "list_all (slot_action_ok (rp_number s0)) as \<Longrightarrow>
   \<exists>t. port_run route apic as s0 = Some t \<and> slot_ok t \<and> rp_number t = rp_number s0 \<and> promises t = promises s0 + mset (concat (map asked as))"
  by (rule port_run_ok [OF start])

end

lemma built_slot: "port_built s \<Longrightarrow> hot_plug_slot (slot_setup route plugged s)"
  using slot_setup_ok(1) by unfold_locales

text \<open>A port with a card that uses no I/O ports on the i440FX bus of \<open>Pci\<close>.\<close>

definition sample_port :: root_port where
  "sample_port = (let s = PCIeRootPort 0 2 None (create_i440fx [0, 0, 0, 0] PCI)
     in s\<lparr>rp_pci := register_device 256 plain_function (replicate 64 0) 256 (rp_pci s)\<rparr>)"

lemma sample_port_built: "port_built sample_port"
proof -
  let ?p = "create_i440fx [0, 0, 0, 0] PCI" let ?s = "PCIeRootPort 0 2 None ?p"
  have pl: "pci_bars (port_function 0) = []" by (simp add: port_function_def plain_function_def)
  have sp: "length (port_space 0 2 None) = 256" by (rule port_space_facts) simp
  have ty: "port_space 0 2 None ! 0x0E = 0x81" by code_simp
  have b: "port_built ?s"
  proof (rule new_port [OF i440fx_built])
    show "register_ok (port_fn 0) (port_function 0) (port_space 0 2 None) 4096 ?p"
      using sp ty by (simp add: register_ok_def i440fx_devices port_fn_def port_function_def plain_function_def list_all_iff)
  qed simp_all
  have r: "rp_pci ?s = add_function (port_fn 0) (port_function 0) (port_space 0 2 None @ replicate (4096 - 256) 0) ?p" "rp_number ?s = 0"
    using sp by (simp_all add: PCIeRootPort_def Let_def register_plain [OF pl])
  have "register_ok 256 plain_function (replicate 64 0) 256 (rp_pci ?s)"
    using sp ty by (simp add: register_ok_def r i440fx_devices port_fn_def port_function_def plain_function_def add_function_bridges nth_append)
  from other_function [OF b this] show ?thesis by (simp add: sample_port_def Let_def plain_function_def)
qed

interpretation sample_slot: hot_plug_slot piix_route None "slot_setup piix_route True sample_port"
  by (rule built_slot [OF sample_port_built])

section \<open>Properties\<close>

text \<open>
  Claim C39. A hot plug slot: from power-on, whatever the guest writes to any function, whenever the host plugs the card in,
  pulls it out or asks for it, through resets and whatever the other functions do, every step ends, the card is on the bus
  exactly while it is in the slot and the slot has power, the port's registers show card, power, link and
  events, and its pin is high exactly if hot plug interrupts are enabled, an enabled event is pending and messages are not used.
\<close>

theorem root_port_slot:
  assumes "port_built s" "list_all (slot_action_ok (rp_number s)) as"
  shows "\<exists>u. port_run route apic as (slot_setup route plugged s) = Some u \<and>
    (has_card u \<longrightarrow> (js_get False (absent (rp_pci u)) (card_id u) \<longleftrightarrow> \<not> (card_in u \<and> powered u))) \<and>
    get16 (port_bytes u) SLTCTL = slot_control u \<and> get16 (port_bytes u) SLTSTA = slot_status u OR (if card_in u then 0x40 else 0) \<and>
    get16 (port_bytes u) LNKSTA = (if card_in u \<and> powered u then 0x3011 else 0x1011) \<and>
    js_get False (intx_levels (rp_pci u)) (port_id u) = (interrupt_active u \<and> \<not> msi_enabled (rp_pci u) (port_id u) MSI_CAP)"
proof -
  have as: "list_all (slot_action_ok (rp_number (slot_setup route plugged s))) as" using assms(2) slot_setup_ok(2) [OF assms(1)] by simp
  from hot_plug_slot.run_slot [OF built_slot [OF assms(1)] as, of route apic] obtain u
    where u: "port_run route apic as (slot_setup route plugged s) = Some u" "slot_ok u" by blast
  have b: "slot_control u AND 0x17FF = slot_control u" using u(2) by (simp add: slot_ok_def slot_core_def slot_bits_def)
  have "(x AND 0x17FF) AND 0xFFFF = x AND 0x17FF" for x :: i32 by (simp add: and.assoc)
  from this [of "slot_control u"] have "slot_control u AND 0xFFFF = slot_control u" unfolding b .
  then show ?thesis using u
    by (auto simp: slot_ok_def slot_core_def card_shown_def slot_shown_def interrupt_shown_def card_absent_def port_level_def port_msi_def slot_bits_def)
qed

theorem root_port_slot_witness:
  "\<exists>u. port_run piix_route None [Remove_Card True 1, Insert_Card, Guest_Write 0xE0 0x58 2 0x7C0] (slot_setup piix_route True sample_port) = Some u \<and>
    (has_card u \<longrightarrow> (js_get False (absent (rp_pci u)) (card_id u) \<longleftrightarrow> \<not> (card_in u \<and> powered u)))"
  using root_port_slot [OF sample_port_built, of "[Remove_Card True 1, Insert_Card, Guest_Write 0xE0 0x58 2 0x7C0]" piix_route None True] by auto

lemma slot_control_write:
  assumes "slot_ok s"
  shows "\<exists>u. port_config_write route apic (Some (port_id s)) SLTCTL 2 v s = update_interrupt route apic (slot_control_written route apic (v AND 0xFFFF) u) \<and>
    card_in u = card_in s \<and> removal_requested u = removal_requested s \<and> removal_waiters u = removal_waiters s \<and> rp_log u = rp_log s \<and> slot_status u = slot_status s"
proof -
  have ok: "port_ok s" using assms by (simp add: slot_ok_def slot_core_def)
  obtain bs where bs: "space_of (rp_pci s) (port_id s) = Some bs" using ok by (auto simp: port_ok_def)
  have l: "length bs \<ge> 256" using port_bytes_length [OF ok] bs by (simp add: space_bytes_def)
  let ?p = "function_write route (Some (port_id s)) SLTCTL 2 v (rp_pci s)" let ?s1 = "s\<lparr>rp_pci := ?p\<rparr>"
  have "config_bytes (is_bridge (rp_pci s) (port_id s)) SLTCTL 2 v bs = put16 SLTCTL v bs"
    by (simp add: config_bytes_def config_byte_def put16_def byte_n_def numeral_2_eq_2)
  then have b1: "port_bytes ?s1 = put16 SLTCTL v bs" using write_registers(1) [OF bs, of SLTCTL 2 route v] l by (simp add: space_bytes_def)
  have n: "notifies (rp_pci s) (port_id s) SLTCTL 2" using bs l by (simp add: notifies_def is_bar_offset_def)
  have g: "get16 (port_bytes ?s1) SLTCTL = v AND 0xFFFF" unfolding b1 using l by (intro get16_put16) simp
  define u where "u = store_slot ((set_port_bytes (masked_bytes (rp_template s) SLTCTL 2 (port_bytes ?s1)) ?s1)\<lparr>slot_status := slot_status s AND NOT (0 AND SLTSTA_EVENTS)\<rparr>)"
  have "port_config_write route apic (Some (port_id s)) SLTCTL 2 v s = config_written route apic SLTCTL 2 ?s1" using n by (simp add: port_config_write_def Let_def)
  also have "\<dots> = update_interrupt route apic (slot_control_written route apic (v AND 0xFFFF) u)"
    using g by (simp add: config_written_def Let_def u_def)
  finally show ?thesis by (intro exI [of _ u]) (simp add: u_def)
qed

lemma slot_control_written_leaves:
  assumes "card_in s" "removal_requested s" "v AND SLTCTL_PCC \<noteq> 0" "v AND SLTCTL_PIC = SLTCTL_PIC"
  shows "\<not> card_in (slot_control_written route apic v s)" "removal_waiters (slot_control_written route apic v s) = []"
    "rp_log (slot_control_written route apic v s) = rp_log s @ map Resolved (removal_waiters s)"
    "slot_status (slot_control_written route apic v s) AND (SLTSTA_PDC OR SLTSTA_CC) = SLTSTA_PDC OR SLTSTA_CC"
    "\<not> removal_requested (slot_control_written route apic v s)"
proof -
  have "safe_to_remove (t\<lparr>slot_control := v AND SLTCTL_WRITABLE\<rparr>)" for t using assms(3,4) by (simp add: safe_to_remove_def powered_def and.assoc)
  moreover have "(x OR (16 OR y OR 8)) AND 0x18 = (0x18 :: i32)" for x y
  proof -
    have "x OR (16 OR y OR 8) = (16 OR 8) OR (x OR y)" by (simp only: or.assoc or.left_commute or.commute)
    moreover have "(0x18 OR z) AND 0x18 = 0x18" for z :: i32 by (rule bit_word_eqI) (auto simp: bit_simps)
    ultimately show ?thesis by simp
  qed
  ultimately show "\<not> card_in (slot_control_written route apic v s)" "removal_waiters (slot_control_written route apic v s) = []"
    "rp_log (slot_control_written route apic v s) = rp_log s @ map Resolved (removal_waiters s)"
    "slot_status (slot_control_written route apic v s) AND (SLTSTA_PDC OR SLTSTA_CC) = SLTSTA_PDC OR SLTSTA_CC"
    "\<not> removal_requested (slot_control_written route apic v s)"
    using assms(1,2) by (simp_all add: slot_control_written_def Let_def safe_to_remove_def powered_def)
qed

text \<open>
  Claim C40. Removals: in any run from power-on, every promise of \<open>remove\<close> is settled once or still waits, and one waits
  only while the card is in and its removal is requested of the guest. As soon as the guest switches the slot and its power
  indicator off, by whatever else it writes with it, the card is out and off the bus, all who wait hear of it, in
  the order of their calls, and presence detect changed and command completed are set.
\<close>

theorem removal_completes:
  assumes "port_built s" "list_all (slot_action_ok (rp_number s)) as" "port_run route apic as (slot_setup route plugged s) = Some u"
  shows "mset (map promise (rp_log u)) + mset (removal_waiters u) = mset (concat (map asked as)) \<and>
    (removal_waiters u \<noteq> [] \<longrightarrow> removal_requested u \<and> card_in u) \<and>
    (removal_requested u \<and> v AND SLTCTL_PCC \<noteq> 0 \<and> v AND SLTCTL_PIC = SLTCTL_PIC \<longrightarrow>
       (\<exists>t. port_step route apic (Guest_Write (port_id u) SLTCTL 2 v) u = Some t \<and> \<not> card_in t \<and> js_get False (absent (rp_pci t)) (card_id t) \<and>
          removal_waiters t = [] \<and> rp_log t = rp_log u @ map Resolved (removal_waiters u) \<and>
          slot_status t AND (SLTSTA_PDC OR SLTSTA_CC) = SLTSTA_PDC OR SLTSTA_CC))"
proof (intro conjI impI)
  have as: "list_all (slot_action_ok (rp_number (slot_setup route plugged s))) as" using assms(2) slot_setup_ok(2) [OF assms(1)] by simp
  from hot_plug_slot.run_slot [OF built_slot [OF assms(1)] as, of route apic] assms(3)
  have u: "slot_ok u" "rp_number u = rp_number s" "promises u = promises (slot_setup route plugged s) + mset (concat (map asked as))"
    using slot_setup_ok(2) [OF assms(1)] by auto
  show "mset (map promise (rp_log u)) + mset (removal_waiters u) = mset (concat (map asked as))"
    using u(3) slot_setup_ok(3) [OF assms(1)] by (simp add: promises_def)
  have r: "removal_requested u \<Longrightarrow> card_in u" "removal_waiters u \<noteq> [] \<Longrightarrow> removal_requested u" using u(1) by (auto simp: slot_ok_def removal_ok_def)
  show "removal_requested u" "card_in u" if "removal_waiters u \<noteq> []" using r that by simp_all
  assume v: "removal_requested u \<and> v AND SLTCTL_PCC \<noteq> 0 \<and> v AND SLTCTL_PIC = SLTCTL_PIC"
  let ?t = "port_config_write route apic (Some (port_id u)) SLTCTL 2 v u"
  have n: "rp_number u < 6" "port_ok u" using u(1) by (simp_all add: slot_ok_def slot_core_def port_ok_def)
  then have "route_config (rp_pci u) (port_id u) = Some (Some (port_id u))" by (simp add: route_config_def port_fn_def)
  then have st: "port_step route apic (Guest_Write (port_id u) SLTCTL 2 v) u = Some ?t" by simp
  obtain w where w: "?t = update_interrupt route apic (slot_control_written route apic (v AND 0xFFFF) w)" "card_in w" "removal_requested w"
    "removal_waiters w = removal_waiters u" "rp_log w = rp_log u" using slot_control_write [OF u(1), of route apic v] v r(1) by auto
  have "(v AND 0xFFFF) AND SLTCTL_PCC \<noteq> 0" "(v AND 0xFFFF) AND SLTCTL_PIC = SLTCTL_PIC" using v by (simp_all add: and.assoc)
  note lv = slot_control_written_leaves [OF w(2,3) this, of route apic]
  have "slot_ok ?t" using port_config_write_ok(1) [OF u(1)] by simp
  moreover have "has_card ?t"
  proof -
    have "card_shown u" using u(1) by (simp add: slot_ok_def slot_core_def)
    then have "has_card u" using r(1) v by (simp add: card_shown_def)
    then show ?thesis using port_evolves_ok(2) [OF port_config_write_ok(2) [OF u(1)] n(2)] by simp
  qed
  ultimately have "js_get False (absent (rp_pci ?t)) (card_id ?t)" using lv(1) w(1) by (auto simp: slot_ok_def slot_core_def card_shown_def card_absent_def)
  then show "\<exists>t. port_step route apic (Guest_Write (port_id u) SLTCTL 2 v) u = Some t \<and> \<not> card_in t \<and> js_get False (absent (rp_pci t)) (card_id t) \<and>
      removal_waiters t = [] \<and> rp_log t = rp_log u @ map Resolved (removal_waiters u) \<and> slot_status t AND (SLTSTA_PDC OR SLTSTA_CC) = SLTSTA_PDC OR SLTSTA_CC"
    using st lv w by (intro exI [of _ ?t]) simp
qed

theorem removal_completes_witness:
  "\<exists>u. port_run piix_route None [Remove_Card False 7] (slot_setup piix_route True sample_port) = Some u \<and> removal_waiters u = [7] \<and> removal_requested u \<and>
    (\<exists>t. port_step piix_route None (Guest_Write (port_id u) SLTCTL 2 0x7C0) u = Some t \<and> \<not> card_in t \<and> removal_waiters t = [] \<and> rp_log t = [Resolved 7])"
proof -
  let ?s = "slot_setup piix_route True sample_port" let ?u = "remove_card piix_route None False 7 ?s"
  have "pci_bars plain_function = []" by (simp add: plain_function_def)
  then have "has_card sample_port" by (simp add: has_card_def sample_port_def Let_def PCIeRootPort_def card_fn_def register_plain)
  then have s: "card_in ?s" "powered ?s" "\<not> removal_requested ?s" "removal_waiters ?s = []" "rp_log ?s = []"
    by (simp_all add: slot_setup_def Let_def powered_def) (simp_all add: sample_port_def PCIeRootPort_def Let_def)
  then have u: "removal_waiters ?u = [7]" "removal_requested ?u" "rp_log ?u = []" by (simp_all add: remove_card_def Let_def)
  have r: "port_run piix_route None [Remove_Card False 7] ?s = Some ?u" by simp
  from removal_completes [OF sample_port_built _ r, of "0x7C0"] u show ?thesis using r by (intro exI [of _ ?u]) auto
qed

text \<open>
  A saved state: the fields come back from the registers, which the bus has restored, and the saved flags; those who
  wait are told if the restored slot is empty or has no request.
\<close>

lemma port_state_restored:
  assumes "slot_ok s" "get16 (port_bytes t) SLTCTL = get16 (port_bytes s) SLTCTL" "get16 (port_bytes t) SLTSTA = get16 (port_bytes s) SLTSTA"
  shows "slot_control (port_set_state (port_get_state s) t) = slot_control s" "slot_status (port_set_state (port_get_state s) t) = slot_status s"
    "card_in (port_set_state (port_get_state s) t) = card_in s" "removal_requested (port_set_state (port_get_state s) t) = removal_requested s"
    "notified (port_set_state (port_get_state s) t) = notified s" "promises (port_set_state (port_get_state s) t) = promises t"
    "\<not> removal_requested s \<Longrightarrow> removal_waiters (port_set_state (port_get_state s) t) = []"
proof -
  have b: "slot_control s AND 0x17FF = slot_control s" "slot_status s AND 0x11F = slot_status s" "\<not> card_in s \<Longrightarrow> \<not> removal_requested s"
    using assms(1) by (auto simp: slot_ok_def slot_core_def slot_bits_def removal_ok_def)
  have e: "(slot_control s AND 0xFFFF) AND 0x17FF = slot_control s" "(slot_status s AND 0x11F OR (if card_in s then 0x40 else 0)) AND 0x11F = slot_status s"
    using b by (simp_all add: and.assoc bit.conj_disj_distrib2)
  have g: "get16 (port_bytes s) SLTCTL = slot_control s AND 0xFFFF" "get16 (port_bytes s) SLTSTA = slot_status s AND 0x11F OR (if card_in s then 0x40 else 0)"
    using assms(1) by (simp_all add: slot_ok_def slot_shown_def)
  note defs = port_set_state_def port_get_state_def load_slot_def Let_def assms(2,3) g e promises_def
  show "slot_control (port_set_state (port_get_state s) t) = slot_control s" "slot_status (port_set_state (port_get_state s) t) = slot_status s"
    "card_in (port_set_state (port_get_state s) t) = card_in s" "notified (port_set_state (port_get_state s) t) = notified s"
    by (simp_all add: defs and.assoc bit.conj_disj_distrib2 b(1,2))
  show "removal_requested (port_set_state (port_get_state s) t) = removal_requested s" "promises (port_set_state (port_get_state s) t) = promises t"
    "\<not> removal_requested s \<Longrightarrow> removal_waiters (port_set_state (port_get_state s) t) = []" using b(3) by (simp_all add: defs)
qed

end
