(* ===== verification/Spec2Isabelle.thy ===== *)
theory Spec2Isabelle
  imports Lib_Queue Io_Ports Io_Mmap Uart Ps2 Phys_Mem Dma VirtQueue Bus Marshall Machine_Clock Tco Smbus Pit Hpet Shared_Irq Rtc Memory_Setup Timers Acpi Pci Q35 Root_Port
begin

text \<open>
  This library models the device and machine side of v86, an x86 emulator whose processor core is compiled
  to WebAssembly and whose devices, buses, clocks and memory plumbing are JavaScript under \<open>src/\<close>, and
  proves what makes those parts correct.

  \<^bold>\<open>The program.\<close> A guest reaches a device through an I/O port (\<open>src/io.js\<close>, a table of handlers per
  port), or through memory-mapped I/O (blocks of 128 KiB with exact ranges inside). Devices raise interrupts
  by calls of the CPU object, exchange messages with the host page over a bus (\<open>src/bus.js\<close>), copy to
  and from guest memory (DMA, virtqueues), and keep time by the machine clock, at which the main loop serves them.
  A saved machine is the list of the states of its devices.

  \<^bold>\<open>Theories and sources.\<close>
  \<^item> \<open>V86_Prelude\<close>: JavaScript numbers as words, the effects of a device, shared lemmas. \<open>Device\<close>: runs and
    reachable states of a device, the locale \<open>device_machine\<close> of invariants, which every device below interprets
    on its own step function, and the lifting of handlers to a machine.
  \<^item> \<open>Lib_Queue\<close> (\<open>src/lib.js\<close>): byte, float and circular queues, refinements of lists.
  \<^item> \<open>Io_Ports\<close>, \<open>Io_Mmap\<close> (\<open>src/io.js\<close>, \<open>mmap_*\<close> of \<open>src/cpu.js\<close>): port accesses of every width as
    accesses of bytes; a range of memory-mapped I/O sees exactly its own accesses, and unregistering restores
    what was there.
  \<^item> \<open>Uart\<close>, \<open>Ps2\<close>, \<open>Pit\<close>, \<open>Rtc\<close>, \<open>Hpet\<close>, \<open>Tco\<close>, \<open>Smbus\<close>, \<open>Acpi\<close> (the files of those names, with
    \<open>ich9_tco.js\<close> for \<open>Tco\<close>): one record for the object, one definition for each operation. The lemmas show
    that interrupt lines follow the registers that define them in every reachable state, that data arrives in order,
    that timers keep their phase however late they are served, and that saved states come back.
  \<^item> \<open>Phys_Mem\<close>, \<open>Dma\<close>, \<open>VirtQueue\<close> (\<open>src/cpu.js\<close>, \<open>src/dma.js\<close>, \<open>src/virtio.js\<close>): copies between devices
    and guest memory against a flat reference, with the notification of the code cache; transfers
    cut off by a reset; descriptor chains from any guest memory, valid or refused, as streams.
  \<^item> \<open>Bus\<close>, \<open>Marshall\<close> (\<open>src/bus.js\<close>, \<open>lib/marshall.js\<close>): delivery of messages to listeners that may
    register and unregister while it runs; the wire format of the 9p file system, both directions.
  \<^item> \<open>Machine_Clock\<close> (\<open>src/machine_clock.js\<close>): machine time, its monotonicity, what a NaN of the host clock does to it, and
    its relation to executed instructions.
  \<^item> \<open>Shared_Irq\<close>, \<open>Memory_Setup\<close>, \<open>Timers\<close> (parts of \<open>src/cpu.js\<close>): interrupt lines shared by several
    sources; guest memory sizes and their description in the CMOS; the service of all timers, the route the HPET
    takes from the others, and the inputs it shares with other devices.
  \<^item> \<open>Pci\<close> (\<open>src/pci.js\<close>): the bus with its configuration spaces, BARs and the port table, bridges with their windows
    and bus numbers, hot plug presence, INTx pins, MSI, the ECAM window, the PIIX chipset and saved states. Shown: a
    configuration cycle reaches the function that the bus numbers lead to; I/O BARs behind bridges are mapped where the
    bridges forward them, in the records and in the port table; identities never change; BAR sizing; byte accesses.
  \<^item> \<open>Q35\<close> (\<open>src/q35.js\<close>): the chipset on that bus, with its routing of pins to lines, the root complex and the
    SMM memory controls. Shown: lines follow the routing registers; the SMRAM lock holds until a reset.
  \<^item> \<open>Root_Port\<close> (\<open>src/pcie_root_port.js\<close>): the hot plug slot of a root port, on the bus of \<open>Pci\<close>. Shown: card, registers and
    interrupt agree after any run; every promise of a removal is settled once.

  \<^bold>\<open>Modelling choices.\<close> Operations are executable functions on records; what an operation does
  outside its object is appended to a log in the record, in order, and levels of lines are computed from the logs.
  Values that only bitwise operators touch are words of 32 bits, typed-array cells words of their width, everything else
  integers or exact rationals: the doubles of the source are exact below 2 to the 53rd. The machine clock and the memory sizes
  use the type \<open>jsnum\<close> with infinities and NaN, and the arithmetic of the clock is rounded by a parameter, of which its
  theorem needs only that it is monotone, idempotent and keeps 0. The timers (\<open>Pit\<close>, \<open>Rtc\<close>, \<open>Hpet\<close>, \<open>Tco\<close>, \<open>Acpi\<close>) compute with exact
  rationals, so that the rounding of their times is not modelled; where they can produce NaN or Infinity it is a separate value (None). Readings of clocks, configuration bytes of other devices and results of the WebAssembly module
  are arguments. Objects that are shared by reference (listener arrays of the bus, typed arrays of the queues) live in
  stores where a claim depends on the sharing. Loops are structural recursion or carry a measure; the one loop
  whose end depends on what its callbacks do, the delivery of a bus message, is a partial function into the option type, and
  the theorem on it states that it returns. Three definitions bound a loop of the source. \<open>route_from\<close> ends after 257 rounds,
  more than the 256 buses: in every machine built by registration it returns an answer (\<open>route_config_total\<close>). \<open>bridge_chain\<close> is taken
  256 steps up: bus numbers decrease towards the root, so that it satisfies the equation of the unbounded loop (\<open>upstream_unbounded\<close>).
  \<open>do_write_sync\<close> is the one that may run forever: it is None if its bound on the passes is not enough, the lemmas on transfers give
  a bound that is, and one shows that no bound is enough for a count of 0xFFFF with auto-initialisation.
  A callback of a device that the source calls (\<open>on_config_write\<close>, \<open>on_move\<close> and others) is an entry of the log; what it does to the
  registers of its device is a step of its own, which may follow at any time.

  \<^bold>\<open>Not modelled.\<close> The processor core and the interrupt controllers (Rust, outside the JavaScript); the
  graphics adapters, the GL, Direct3D and Vulkan bridges and the host page (drawing, DOM, network and audio of the browser); disks and
  network cards; the devices on the virtqueues and the PCI transport of VirtIO; the ACPI tables; the file system server; the container of saved
  states; the loaders of kernels and images; the parallel machine (but for the shared PM timer).
  Debug logging and assertions are left out throughout. The components of the manifest name the files.
\<close>

end
